(* ===== verification/Prelude.thy ===== *)
theory Prelude
  imports Main "HOL-Library.Word" "HOL-Library.Multiset"
begin

text \<open>
  Shared vocabulary of the development: the machine types of the C code, \<open>size_t\<close>
  arithmetic with its wrap-around written out, big-endian byte strings, and the generic
  list lemmas the component theories use.

  Bytes and fixed-width integers are words (\<open>u8\<close>, \<open>u16\<close>, \<open>u32\<close>, \<open>u64\<close>). A \<open>size_t\<close>
  is a \<open>nat\<close> below \<open>2 ^ 64\<close>, and every \<open>size_t\<close> addition, subtraction or
  multiplication of the source whose overflow the code tests is written with
  \<open>size_add\<close>, \<open>size_sub\<close> or \<open>size_mul\<close>.
\<close>

unbundle bit_operations_syntax

type_synonym u8 = "8 word"
type_synonym u16 = "16 word"
type_synonym u32 = "32 word"
type_synonym u64 = "64 word"

named_theorems size_simps \<open>size_t arithmetic that does not wrap\<close>

section \<open>size\_t arithmetic\<close>

definition SIZE_MAX :: nat where
  "SIZE_MAX = 18446744073709551615"

definition size_add :: "nat \<Rightarrow> nat \<Rightarrow> nat" where
  "size_add a b = (a + b) mod (SIZE_MAX + 1)"

definition size_sub :: "nat \<Rightarrow> nat \<Rightarrow> nat" where
  "size_sub a b = (if b \<le> a then a - b else SIZE_MAX + 1 + a - b)"

definition size_mul :: "nat \<Rightarrow> nat \<Rightarrow> nat" where
  "size_mul a b = (a * b) mod (SIZE_MAX + 1)"

definition INT_MAX :: nat where
  "INT_MAX = 2147483647"

lemma size_add_exact [size_simps]: "a + b \<le> SIZE_MAX \<Longrightarrow> size_add a b = a + b"
  by (simp add: size_add_def)

lemma size_add_le: "size_add a b \<le> SIZE_MAX"
  using mod_less_divisor [of "SIZE_MAX + 1" "a + b"] by (simp add: size_add_def del: mod_less_divisor)

lemma size_add_wraps:
  assumes "a \<le> SIZE_MAX" and "b \<le> SIZE_MAX" and "SIZE_MAX < a + b"
  shows "size_add a b = a + b - (SIZE_MAX + 1)"
  using assms by (simp add: size_add_def mod_if)

lemma size_add_less_iff:
  assumes "a \<le> SIZE_MAX" and "b \<le> SIZE_MAX"
  shows "size_add a b < a \<longleftrightarrow> SIZE_MAX < a + b"
proof (cases "a + b \<le> SIZE_MAX")
  case True
  then show ?thesis by (simp add: size_add_exact)
next
  case False
  with assms show ?thesis by (simp add: size_add_wraps)
qed

lemma size_sub_exact [size_simps]: "b \<le> a \<Longrightarrow> size_sub a b = a - b"
  by (simp add: size_sub_def)

lemma size_mul_exact [size_simps]: "a * b \<le> SIZE_MAX \<Longrightarrow> size_mul a b = a * b"
  by (simp add: size_mul_def)

section \<open>Memory as lists\<close>

text \<open>\<open>memset\<close> and \<open>memcpy\<close> over memory: overwrite the elements from \<open>off\<close> on.\<close>

definition overwrite :: "'a list \<Rightarrow> nat \<Rightarrow> 'a list \<Rightarrow> 'a list" where
  "overwrite dst off src = take off dst @ src @ drop (off + length src) dst"

lemma length_overwrite [simp]:
  "off + length src \<le> length dst \<Longrightarrow> length (overwrite dst off src) = length dst"
  by (simp add: overwrite_def)

lemma take_overwrite:
  "off + length src \<le> length dst \<Longrightarrow>
     take (off + length src) (overwrite dst off src) = take off dst @ src"
  by (simp add: overwrite_def)

lemma overwrite_0_exact [simp]: "length src = length dst \<Longrightarrow> overwrite dst 0 src = src"
  by (simp add: overwrite_def)

section \<open>Big-endian byte strings\<close>

text \<open>The value of a big-endian byte string, and the \<open>n\<close> low bytes of a value.\<close>

definition be_val :: "u8 list \<Rightarrow> nat" where
  "be_val bs = foldl (\<lambda>v b. v * 256 + unat b) 0 bs"

text \<open>The byte of a number, kept folded so that \<open>of_nat\<close> is not distributed over it.\<close>

definition byte :: "nat \<Rightarrow> u8" where
  "byte n = word_of_nat n"

fun be_bytes :: "nat \<Rightarrow> nat \<Rightarrow> u8 list" where
  "be_bytes 0 v = []"
| "be_bytes (Suc n) v = be_bytes n (v div 256) @ [byte v]"

lemma be_val_Nil [simp]: "be_val [] = 0"
  by (simp add: be_val_def)

lemma be_val_snoc [simp]: "be_val (bs @ [b]) = be_val bs * 256 + unat b"
  by (simp add: be_val_def)

lemma be_val_Cons: "be_val (b # bs) = unat b * 256 ^ length bs + be_val bs"
proof (induction bs rule: rev_induct)
  case Nil
  then show ?case by (simp add: be_val_def)
next
  case (snoc c bs)
  have "be_val (b # bs @ [c]) = be_val (b # bs) * 256 + unat c"
    using be_val_snoc [of "b # bs" c] by simp
  with snoc show ?case by (simp add: algebra_simps)
qed

lemma length_be_bytes [simp]: "length (be_bytes n v) = n"
  by (induction n arbitrary: v) auto

lemma unat_byte [simp]: "unat (byte v) = v mod 256"
  by (simp add: byte_def unat_of_nat)

lemma unat_u8_less [simp]: "unat (b :: u8) < 256"
  using unsigned_less [of b, where ?'a = nat] by simp

lemma be_val_be_bytes: "be_val (be_bytes n v) = v mod 256 ^ n"
proof (induction n arbitrary: v)
  case 0
  then show ?case by simp
next
  case (Suc n)
  have "be_val (be_bytes (Suc n) v) = (v div 256) mod 256 ^ n * 256 + v mod 256"
    by (simp add: Suc)
  also have "\<dots> = v mod 256 ^ Suc n"
    using mod_mult2_eq [of v 256 "256 ^ n"] by (simp add: mult.commute)
  finally show ?case .
qed

lemma be_val_bound: "be_val bs < 256 ^ length bs"
proof (induction bs rule: rev_induct)
  case Nil
  then show ?case by simp
next
  case (snoc b bs)
  then have "be_val bs + 1 \<le> 256 ^ length bs" by simp
  then have "(be_val bs + 1) * 256 \<le> 256 ^ length bs * 256" by (rule mult_le_mono1)
  then show ?case using unat_u8_less [of b] by (simp del: unat_u8_less)
qed

lemma unat_inject: "unat a = unat b \<Longrightarrow> a = (b :: 'a::len word)"
  by (simp add: word_unat_eq_iff)

lemma byte_eqI: "unat b = n mod 256 \<Longrightarrow> byte n = b"
  by (rule unat_inject) simp

lemma byte_unat [simp]: "byte (unat b) = b"
  by (rule byte_eqI) simp

lemma be_bytes_be_val: "be_bytes (length bs) (be_val bs) = bs"
proof (induction bs rule: rev_induct)
  case Nil
  then show ?case by simp
next
  case (snoc b bs)
  have "(be_val bs * 256 + unat b) div 256 = be_val bs"
    using unat_u8_less [of b] by (simp del: unat_u8_less)
  moreover have "byte (be_val bs * 256 + unat b) = b" by (rule byte_eqI) simp
  ultimately show ?case using snoc by simp
qed

section \<open>Words as numbers\<close>

text \<open>Shift-and-or accumulation, the idiom of every parser of the source, read as
  arithmetic on \<open>unat\<close>.\<close>

lemma small_not_bit:
  "unat (m :: 'a::len word) < 2 ^ n \<Longrightarrow> n \<le> k \<Longrightarrow> \<not> bit m k"
proof -
  assume a: "unat m < 2 ^ n" "n \<le> k"
  have "unat m < 2 ^ k" using a by (meson less_le_trans one_le_numeral power_increasing)
  then have "\<not> bit (unat m) k" by (simp add: bit_iff_odd)
  then show ?thesis by (simp add: bit_unsigned_iff bit_imp_le_length)
qed

lemma push_bit_or_eq_add:
  assumes "unat (m :: 'a::len word) < 2 ^ n"
  shows "push_bit n v OR m = push_bit n v + m"
proof -
  have "push_bit n v AND m = 0"
    using small_not_bit [OF assms] by (auto simp: bit_eq_iff bit_simps)
  then show ?thesis by (simp add: disjunctive_add_eq_or)
qed

lemma unat_push_bit_or:
  assumes "unat (m :: 'a::len word) < 2 ^ n" and "(unat v + 1) * 2 ^ n \<le> 2 ^ LENGTH('a)"
  shows "unat (push_bit n v OR m) = unat v * 2 ^ n + unat m"
proof -
  have b: "unat v * 2 ^ n + unat m < 2 ^ LENGTH('a)" using assms by (simp add: algebra_simps)
  have "unat (push_bit n v + m) = (unat (push_bit n v) + unat m) mod 2 ^ LENGTH('a)"
    by (simp add: unat_word_ariths)
  also have "unat (push_bit n v) = unat v * 2 ^ n mod 2 ^ LENGTH('a)"
    by (simp only: unsigned_push_bit_eq) (simp add: take_bit_eq_mod push_bit_eq_mult)
  finally show ?thesis using b push_bit_or_eq_add [OF assms(1), of v] by simp
qed

lemma drop_bit_eq_0_iff: "drop_bit n (v :: 'a::len word) = 0 \<longleftrightarrow> unat v < 2 ^ n"
  by (simp only: unat_eq_0 [symmetric] unat_drop_bit_eq) (simp add: drop_bit_eq_div div_eq_0_iff)
lemma unat_and_mask: "unat (w AND mask n :: 'a::len word) = unat w mod 2 ^ n"
  by (simp only: take_bit_eq_mask [symmetric] unsigned_take_bit_eq) (simp add: take_bit_eq_mod)

lemma unat_ucast_up:
  "LENGTH('b) \<le> LENGTH('a) \<Longrightarrow> unat (ucast (w :: 'b::len word) :: 'a::len word) = unat w"
proof -
  assume "LENGTH('b) \<le> LENGTH('a)"
  then have "(2::nat) ^ LENGTH('b) \<le> 2 ^ LENGTH('a)" by (simp add: power_increasing)
  with unsigned_less [of w, where ?'a = nat] have "unat w < 2 ^ LENGTH('a)" by (rule less_le_trans)
  then show ?thesis by (simp only: unsigned_ucast_eq take_bit_nat_eq_self)
qed

lemma u8_and_7f [simp]: "unat ((b :: u8) AND 0x7f) = unat b mod 128"
  using unat_and_mask [of b 7] by (simp add: mask_eq_exp_minus_1)

lemma u8_and_1f [simp]: "unat ((b :: u8) AND 0x1f) = unat b mod 32"
  using unat_and_mask [of b 5] by (simp add: mask_eq_exp_minus_1)

lemma u8_msb_iff: "(b :: u8) AND 0x80 = 0 \<longleftrightarrow> unat b < 128"
proof -
  have "(b AND 0x80 = 0) = (\<not> bit b 7)"
    using and_exp_eq_0_iff_not_bit [of b 7] by simp
  also have "bit b 7 = bit (unat b) 7" by (simp add: bit_unsigned_iff)
  also have "\<dots> = (128 \<le> unat b)"
  proof -
    have "unat b div 128 < 2" using unat_u8_less [of b] by (simp del: unat_u8_less)
    then have "unat b div 128 = 0 \<or> unat b div 128 = 1" by auto
    then show ?thesis by (auto simp: bit_iff_odd)
  qed
  finally show ?thesis by auto
qed

end
