(* ===== verification/Mem.thy ===== *)
theory Mem
  imports Prelude
begin

text \<open>
  The memory helpers of \<open>crypto/mem.c\<close>. The allocator of the C library is a parameter
  (\<open>env\<close>): \<open>malloc_ok e n\<close> says whether \<open>malloc\<close> serves a request of \<open>n\<close> bytes and
  \<open>fresh e i\<close> is the indeterminate content of byte \<open>i\<close> of a new block. A block is the
  memory after the eight-byte size prefix that \<open>OPENSSL_malloc\<close> keeps: the recorded size
  and the bytes the underlying block really has behind the prefix.
\<close>

record env =
  malloc_ok :: "nat \<Rightarrow> bool"
  fresh :: "nat \<Rightarrow> u8"

record block =
  blk_size :: nat
  blk_data :: "u8 list"

section \<open>Allocation\<close>

definition OPENSSL_MALLOC_PREFIX :: nat where
  "OPENSSL_MALLOC_PREFIX = 8"

definition OPENSSL_malloc :: "env \<Rightarrow> nat \<Rightarrow> block option" where
  "OPENSSL_malloc e n =
     (let request = size_add n OPENSSL_MALLOC_PREFIX
      in if malloc_ok e request
         then Some \<lparr>blk_size = n,
                    blk_data = map (fresh e) [0..<request - OPENSSL_MALLOC_PREFIX]\<rparr>
         else None)"

text \<open>\<open>OPENSSL_cleanse\<close> zeroes \<open>len\<close> bytes; \<open>OPENSSL_free\<close> cleanses a block before it
  hands it to \<open>free\<close>: its result is the content \<open>free\<close> sees.\<close>

definition OPENSSL_cleanse :: "u8 list \<Rightarrow> nat \<Rightarrow> u8 list" where
  "OPENSSL_cleanse ptr n = replicate n 0 @ drop n ptr"

definition OPENSSL_free :: "block option \<Rightarrow> block option" where
  "OPENSSL_free orig =
     (case orig of
        None \<Rightarrow> None
      | Some b \<Rightarrow> Some (b\<lparr>blk_data := OPENSSL_cleanse (blk_data b) (blk_size b)\<rparr>))"

definition OPENSSL_realloc :: "env \<Rightarrow> block option \<Rightarrow> nat \<Rightarrow> block option" where
  "OPENSSL_realloc e orig new_size =
     (case orig of
        None \<Rightarrow> OPENSSL_malloc e new_size
      | Some b \<Rightarrow>
          (case OPENSSL_malloc e new_size of
             None \<Rightarrow> None
           | Some ret \<Rightarrow>
               (let to_copy = (if blk_size b < new_size then blk_size b else new_size)
                in Some (ret\<lparr>blk_data := take to_copy (blk_data b)
                                         @ drop to_copy (blk_data ret)\<rparr>))))"

text \<open>The C library serves no request of more than \<open>PTRDIFF_MAX\<close> bytes.\<close>

definition malloc_sane :: "env \<Rightarrow> bool" where
  "malloc_sane e \<longleftrightarrow> (\<forall>n. malloc_ok e n \<longrightarrow> n \<le> 9223372036854775807)"

section \<open>Comparison and hashing\<close>

fun CRYPTO_memcmp_loop :: "u8 list \<Rightarrow> u8 list \<Rightarrow> nat \<Rightarrow> u8 \<Rightarrow> u8" where
  "CRYPTO_memcmp_loop (a # as) (b # bs) (Suc n) x =
     CRYPTO_memcmp_loop as bs n (x OR (a XOR b))"
| "CRYPTO_memcmp_loop _ _ _ x = x"

definition CRYPTO_memcmp :: "u8 list \<Rightarrow> u8 list \<Rightarrow> nat \<Rightarrow> int" where
  "CRYPTO_memcmp a b n = uint (CRYPTO_memcmp_loop a b n 0)"

definition OPENSSL_hash32 :: "u8 list \<Rightarrow> u32" where
  "OPENSSL_hash32 bs = foldl (\<lambda>h b. (h XOR ucast b) * 16777619) 2166136261 bs"

section \<open>C strings\<close>

text \<open>A \<open>char *\<close> is the memory from the pointer on; the string ends at its first zero
  byte. \<open>c_strlen\<close> is the C library's \<open>strlen\<close>, \<open>None\<close> where no terminator exists.\<close>

fun c_strlen :: "u8 list \<Rightarrow> nat option" where
  "c_strlen [] = None"
| "c_strlen (c # cs) = (if c = 0 then Some 0 else map_option Suc (c_strlen cs))"

fun OPENSSL_strnlen :: "u8 list \<Rightarrow> nat \<Rightarrow> nat" where
  "OPENSSL_strnlen (c # cs) (Suc n) = (if c = 0 then 0 else Suc (OPENSSL_strnlen cs n))"
| "OPENSSL_strnlen _ n = n"

definition OPENSSL_strdup :: "env \<Rightarrow> u8 list \<Rightarrow> u8 list option" where
  "OPENSSL_strdup e s =
     (case c_strlen s of
        None \<Rightarrow> None
      | Some l \<Rightarrow>
          (let n = l + 1
           in case OPENSSL_malloc e n of
                None \<Rightarrow> None
              | Some ret \<Rightarrow> Some (take n s @ drop n (blk_data ret))))"

text \<open>Characters are signed bytes read as \<open>int\<close>.\<close>

definition OPENSSL_tolower :: "int \<Rightarrow> int" where
  "OPENSSL_tolower c = (if c \<ge> 65 \<and> c \<le> 90 then c + (97 - 65) else c)"

text \<open>The comparison loops; \<open>None\<close> is a read past the memory given (no terminator).\<close>

fun OPENSSL_strcasecmp :: "u8 list \<Rightarrow> u8 list \<Rightarrow> int option" where
  "OPENSSL_strcasecmp (a # as) (b # bs) =
     (let aa = OPENSSL_tolower (sint a); bb = OPENSSL_tolower (sint b)
      in if aa < bb then Some (- 1)
         else if aa > bb then Some 1
         else if aa = 0 then Some 0
         else OPENSSL_strcasecmp as bs)"
| "OPENSSL_strcasecmp _ _ = None"

fun OPENSSL_strncasecmp :: "u8 list \<Rightarrow> u8 list \<Rightarrow> nat \<Rightarrow> int option" where
  "OPENSSL_strncasecmp _ _ 0 = Some 0"
| "OPENSSL_strncasecmp (a # as) (b # bs) (Suc n) =
     (let aa = OPENSSL_tolower (sint a); bb = OPENSSL_tolower (sint b)
      in if aa < bb then Some (- 1)
         else if aa > bb then Some 1
         else if aa = 0 then Some 0
         else OPENSSL_strncasecmp as bs n)"
| "OPENSSL_strncasecmp _ _ (Suc n) = None"

section \<open>Lemmas\<close>

lemma OPENSSL_malloc_size:
  "OPENSSL_malloc e n = Some b \<Longrightarrow> n + OPENSSL_MALLOC_PREFIX \<le> SIZE_MAX \<Longrightarrow>
     blk_size b = n \<and> length (blk_data b) = n"
  by (auto simp: OPENSSL_malloc_def Let_def size_simps split: if_splits)

lemma OPENSSL_malloc_Some_iff:
  "n + OPENSSL_MALLOC_PREFIX \<le> SIZE_MAX \<Longrightarrow>
     OPENSSL_malloc e n \<noteq> None \<longleftrightarrow> malloc_ok e (n + OPENSSL_MALLOC_PREFIX)"
  by (auto simp: OPENSSL_malloc_def Let_def size_simps)

lemma OPENSSL_realloc_grow:
  assumes "OPENSSL_realloc e (Some b) n = Some b'"
    and "length (blk_data b) = blk_size b" and "blk_size b \<le> n"
    and "n + OPENSSL_MALLOC_PREFIX \<le> SIZE_MAX"
  shows "blk_size b' = n \<and> length (blk_data b') = n
    \<and> take (blk_size b) (blk_data b') = blk_data b"
proof -
  obtain r where r: "OPENSSL_malloc e n = Some r"
    using assms(1) by (auto simp: OPENSSL_realloc_def split: option.splits)
  with assms(4) have "blk_size r = n" "length (blk_data r) = n"
    by (auto dest: OPENSSL_malloc_size)
  with assms r show ?thesis
    by (auto simp: OPENSSL_realloc_def Let_def min_def split: if_splits)
qed

lemma OPENSSL_realloc_None_iff:
  "OPENSSL_realloc e b n = None \<longleftrightarrow> OPENSSL_malloc e n = None"
  by (auto simp: OPENSSL_realloc_def Let_def split: option.splits)

lemma word_xor_eq_0: "a XOR b = 0 \<longleftrightarrow> a = (b :: u8)"
  by (auto simp: bit_eq_iff bit_simps)

lemma CRYPTO_memcmp_loop_zero:
  "length as = n \<Longrightarrow> length bs = n \<Longrightarrow>
     CRYPTO_memcmp_loop as bs n x = 0 \<longleftrightarrow> x = 0 \<and> as = bs"
proof (induction as bs n x rule: CRYPTO_memcmp_loop.induct)
  case (1 a as b bs n x)
  have "x OR (a XOR b) = 0 \<longleftrightarrow> x = 0 \<and> a = b"
    by (auto simp: or_eq_0_iff word_xor_eq_0)
  with 1 show ?case by auto
qed auto

lemma CRYPTO_memcmp_zero_iff:
  "length as = n \<Longrightarrow> length bs = n \<Longrightarrow> CRYPTO_memcmp as bs n = 0 \<longleftrightarrow> as = bs"
  by (simp add: CRYPTO_memcmp_def CRYPTO_memcmp_loop_zero uint_0_iff)

end
