(* ===== verification/Buf.thy ===== *)
theory Buf
  imports Mem
begin

text \<open>
  \<open>crypto/buf/buf.c\<close>: the growable buffer \<open>BUF_MEM\<close> and the string and memory copies.
  Every operation takes the allocator \<open>e\<close>; an operation that can fail returns the C
  return value with the state it leaves.
\<close>

section \<open>Growable buffers\<close>

record buf_mem =
  bm_length :: nat
  bm_data :: "block option"
  bm_max :: nat

definition blk_bytes :: "block option \<Rightarrow> u8 list" where
  "blk_bytes p = (case p of None \<Rightarrow> [] | Some b \<Rightarrow> blk_data b)"

definition BUF_MEM_new :: "env \<Rightarrow> buf_mem option" where
  "BUF_MEM_new e =
     (case OPENSSL_malloc e 24 of
        None \<Rightarrow> None
      | Some _ \<Rightarrow> Some \<lparr>bm_length = 0, bm_data = None, bm_max = 0\<rparr>)"

definition BUF_MEM_reserve :: "env \<Rightarrow> buf_mem \<Rightarrow> nat \<Rightarrow> bool \<times> buf_mem" where
  "BUF_MEM_reserve e b cp =
     (if bm_max b \<ge> cp then (True, b)
      else let n = size_add cp 3
           in if n < cp then (False, b)
              else let n' = n div 3; alloc_size = size_mul n' 4
                   in if alloc_size div 4 \<noteq> n' then (False, b)
                      else (case OPENSSL_realloc e (bm_data b) alloc_size of
                              None \<Rightarrow> (False, b)
                            | Some new_buf \<Rightarrow>
                                (True, b\<lparr>bm_data := Some new_buf, bm_max := alloc_size\<rparr>)))"

definition blk_write :: "block option \<Rightarrow> nat \<Rightarrow> u8 list \<Rightarrow> block option" where
  "blk_write p off src = map_option (\<lambda>b. b\<lparr>blk_data := overwrite (blk_data b) off src\<rparr>) p"

definition BUF_MEM_grow :: "env \<Rightarrow> buf_mem \<Rightarrow> nat \<Rightarrow> nat \<times> buf_mem" where
  "BUF_MEM_grow e b n =
     (case BUF_MEM_reserve e b n of
        (False, b') \<Rightarrow> (0, b')
      | (True, b') \<Rightarrow>
          (let b'' = (if bm_length b' < n
                      then b'\<lparr>bm_data := blk_write (bm_data b') (bm_length b')
                                           (replicate (n - bm_length b') 0)\<rparr>
                      else b')
           in (n, b''\<lparr>bm_length := n\<rparr>)))"

definition BUF_MEM_grow_clean :: "env \<Rightarrow> buf_mem \<Rightarrow> nat \<Rightarrow> nat \<times> buf_mem" where
  "BUF_MEM_grow_clean e b n = BUF_MEM_grow e b n"

definition BUF_MEM_append :: "env \<Rightarrow> buf_mem \<Rightarrow> u8 list \<Rightarrow> bool \<times> buf_mem" where
  "BUF_MEM_append e b inp =
     (let n = length inp; new_len = size_add (bm_length b) n
      in if new_len < n then (False, b)
         else (case BUF_MEM_reserve e b new_len of
                 (False, b') \<Rightarrow> (False, b')
               | (True, b') \<Rightarrow>
                   (True, b'\<lparr>bm_data := blk_write (bm_data b') (bm_length b') inp,
                             bm_length := new_len\<rparr>)))"

section \<open>Copies and C strings\<close>

definition BUF_memdup :: "env \<Rightarrow> u8 list \<Rightarrow> u8 list option" where
  "BUF_memdup e data =
     (if length data = 0 then None
      else case OPENSSL_malloc e (length data) of
             None \<Rightarrow> None
           | Some ret \<Rightarrow> Some (overwrite (blk_data ret) 0 data))"

fun BUF_strnlen :: "u8 list \<Rightarrow> nat \<Rightarrow> nat" where
  "BUF_strnlen _ 0 = 0"
| "BUF_strnlen [] (Suc n) = Suc n"
| "BUF_strnlen (c # cs) (Suc n) = (if c = 0 then 0 else Suc (BUF_strnlen cs n))"

definition BUF_strndup :: "env \<Rightarrow> u8 list \<Rightarrow> nat \<Rightarrow> u8 list option" where
  "BUF_strndup e str n =
     (let sz = BUF_strnlen str n; alloc_size = size_add sz 1
      in if alloc_size < sz then None
         else case OPENSSL_malloc e alloc_size of
                None \<Rightarrow> None
              | Some ret \<Rightarrow> Some (overwrite (blk_data ret) 0 (take sz str @ [0])))"

definition BUF_strdup :: "env \<Rightarrow> u8 list option \<Rightarrow> u8 list option" where
  "BUF_strdup e str =
     (case str of
        None \<Rightarrow> None
      | Some s \<Rightarrow> (case c_strlen s of None \<Rightarrow> None | Some n \<Rightarrow> BUF_strndup e s n))"

text \<open>\<open>None\<close> is an access outside the memory behind \<open>dst\<close> or \<open>src\<close>.\<close>

fun BUF_strlcpy :: "u8 list \<Rightarrow> u8 list \<Rightarrow> nat \<Rightarrow> (u8 list \<times> nat) option" where
  "BUF_strlcpy dst [] n = None"
| "BUF_strlcpy dst (c # cs) n =
     (if n > 1 \<and> c \<noteq> 0
      then (case dst of
              [] \<Rightarrow> None
            | d # ds \<Rightarrow>
                map_option (\<lambda>(ds', l). (c # ds', l + 1)) (BUF_strlcpy ds cs (n - 1)))
      else (case c_strlen (c # cs) of
              None \<Rightarrow> None
            | Some l \<Rightarrow>
                (if n \<noteq> 0
                 then (case dst of [] \<Rightarrow> None | d # ds \<Rightarrow> Some (0 # ds, l))
                 else Some (dst, l))))"

fun BUF_strlcat :: "u8 list \<Rightarrow> u8 list \<Rightarrow> nat \<Rightarrow> (u8 list \<times> nat) option" where
  "BUF_strlcat [] src n = (if n > 0 then None else BUF_strlcpy [] src n)"
| "BUF_strlcat (d # ds) src n =
     (if n > 0 \<and> d \<noteq> 0
      then map_option (\<lambda>(ds', l). (d # ds', l + 1)) (BUF_strlcat ds src (n - 1))
      else BUF_strlcpy (d # ds) src n)"

section \<open>Lemmas\<close>

text \<open>The invariant of a buffer: its capacity is the size of its block and bounds its length.\<close>

definition buf_mem_wf :: "buf_mem \<Rightarrow> bool" where
  "buf_mem_wf b \<longleftrightarrow>
     bm_length b \<le> bm_max b \<and> bm_max b + OPENSSL_MALLOC_PREFIX \<le> SIZE_MAX
     \<and> (case bm_data b of None \<Rightarrow> bm_max b = 0
        | Some k \<Rightarrow> blk_size k = bm_max b \<and> length (blk_data k) = bm_max b)"

definition buf_mem_bytes :: "buf_mem \<Rightarrow> u8 list" where
  "buf_mem_bytes b = take (bm_length b) (blk_bytes (bm_data b))"

lemma reserve_size:
  assumes "3 * cp + 64 \<le> SIZE_MAX"
  shows "size_add cp 3 = cp + 3" and "size_mul ((cp + 3) div 3) 4 = (cp + 3) div 3 * 4"
    and "cp \<le> (cp + 3) div 3 * 4" and "(cp + 3) div 3 * 4 + 8 \<le> SIZE_MAX"
  using assms by (simp_all add: size_simps)

lemma BUF_MEM_reserve_wf:
  assumes wf: "buf_mem_wf b" and small: "3 * cp + 64 \<le> SIZE_MAX"
    and res: "BUF_MEM_reserve e b cp = (ok, b')"
  shows "buf_mem_wf b' \<and> bm_length b' = bm_length b \<and> buf_mem_bytes b' = buf_mem_bytes b
    \<and> (ok \<longrightarrow> cp \<le> bm_max b')"
proof (cases "bm_max b \<ge> cp \<or> \<not> ok")
  case True
  with wf res show ?thesis
    by (auto simp: BUF_MEM_reserve_def Let_def split: if_splits option.splits)
next
  case False
  note rs = reserve_size [OF small]
  define n where "n = (cp + 3) div 3 * 4"
  from False res obtain k where k: "OPENSSL_realloc e (bm_data b) n = Some k"
    and b': "b' = b\<lparr>bm_data := Some k, bm_max := n\<rparr>"
    by (auto simp: BUF_MEM_reserve_def Let_def rs n_def split: if_splits option.splits)
  have n: "cp \<le> n" "n + OPENSSL_MALLOC_PREFIX \<le> SIZE_MAX" "bm_max b \<le> n"
    using rs False by (auto simp: n_def OPENSSL_MALLOC_PREFIX_def)
  show ?thesis
  proof (cases "bm_data b")
    case None
    with wf k n b' show ?thesis
      by (auto simp: buf_mem_wf_def buf_mem_bytes_def blk_bytes_def OPENSSL_realloc_def
          dest: OPENSSL_malloc_size)
  next
    case (Some c)
    with wf have c: "length (blk_data c) = blk_size c" "blk_size c = bm_max b"
      by (auto simp: buf_mem_wf_def)
    have "blk_size k = n \<and> length (blk_data k) = n \<and> take (blk_size c) (blk_data k) = blk_data c"
      using OPENSSL_realloc_grow [of e c n k] k Some c n by simp
    moreover have "bm_length b \<le> blk_size c" using wf c by (simp add: buf_mem_wf_def)
    ultimately have "take (bm_length b) (blk_data k) = take (bm_length b) (blk_data c)"
      by (metis min.absorb1 take_take)
    with \<open>blk_size k = n \<and> _\<close> Some wf n b' show ?thesis
      by (auto simp: buf_mem_wf_def buf_mem_bytes_def blk_bytes_def)
  qed
qed

lemma blk_write_bytes:
  assumes "buf_mem_wf b" and "bm_length b + length xs \<le> bm_max b"
  shows "buf_mem_wf (b\<lparr>bm_data := blk_write (bm_data b) (bm_length b) xs,
                       bm_length := bm_length b + length xs\<rparr>)
    \<and> buf_mem_bytes (b\<lparr>bm_data := blk_write (bm_data b) (bm_length b) xs,
                       bm_length := bm_length b + length xs\<rparr>) = buf_mem_bytes b @ xs"
  using assms
  by (cases "bm_data b")
    (auto simp: buf_mem_wf_def buf_mem_bytes_def blk_bytes_def blk_write_def take_overwrite)

lemma blk_write_Nil [simp]: "blk_write p n [] = p"
  by (cases p) (auto simp: blk_write_def overwrite_def)

text \<open>C21: appending to a \<open>BUF_MEM\<close> either succeeds, and then the buffer's content is the
  old content followed by the new bytes, or fails and leaves content and length as they
  were; the capacity invariant holds either way. The hypothesis on sizes keeps the
  capacity computation of \<open>BUF_MEM_reserve\<close> below \<open>SIZE_MAX\<close>.\<close>

theorem BUF_MEM_append_correct:
  assumes "buf_mem_wf b" and "3 * (bm_length b + length xs) + 64 \<le> SIZE_MAX"
    and "BUF_MEM_append e b xs = (ok, b')"
  shows "buf_mem_wf b'
    \<and> buf_mem_bytes b' = (if ok then buf_mem_bytes b @ xs else buf_mem_bytes b)
    \<and> bm_length b' = (if ok then bm_length b + length xs else bm_length b)"
proof -
  have add: "size_add (bm_length b) (length xs) = bm_length b + length xs"
    using assms(2) by (simp add: size_simps)
  obtain k b1 where r: "BUF_MEM_reserve e b (bm_length b + length xs) = (k, b1)"
    by (cases "BUF_MEM_reserve e b (bm_length b + length xs)")
  note w = BUF_MEM_reserve_wf [OF assms(1,2) r]
  show ?thesis
    using w assms(3) r blk_write_bytes [of b1 xs]
    by (cases k) (auto simp: BUF_MEM_append_def add)
qed

theorem BUF_MEM_append_correct_witness:
  "buf_mem_bytes (snd (BUF_MEM_append \<lparr>malloc_ok = (\<lambda>_. True), fresh = (\<lambda>_. 7)\<rparr>
     \<lparr>bm_length = 0, bm_data = None, bm_max = 0\<rparr> [1, 2])) = [1, 2]"
proof -
  let ?e = "\<lparr>malloc_ok = (\<lambda>_. True), fresh = (\<lambda>_. 7)\<rparr>"
  let ?b = "\<lparr>bm_length = 0, bm_data = None, bm_max = 0\<rparr>"
  have wf: "buf_mem_wf ?b"
    by (simp add: buf_mem_wf_def OPENSSL_MALLOC_PREFIX_def SIZE_MAX_def)
  have sz: "3 * (bm_length ?b + length [1, 2 :: u8]) + 64 \<le> SIZE_MAX"
    by (simp add: SIZE_MAX_def)
  have ok: "BUF_MEM_append ?e ?b [1, 2] = (True, snd (BUF_MEM_append ?e ?b [1, 2]))"
    by (simp add: BUF_MEM_append_def BUF_MEM_reserve_def OPENSSL_realloc_def OPENSSL_malloc_def
        Let_def size_add_def size_mul_def SIZE_MAX_def OPENSSL_MALLOC_PREFIX_def)
  show ?thesis
    using BUF_MEM_append_correct [OF wf sz ok] by (auto simp: buf_mem_bytes_def blk_bytes_def)
qed

lemma BUF_memdup_Some:
  "length data + OPENSSL_MALLOC_PREFIX \<le> SIZE_MAX \<Longrightarrow> BUF_memdup e data = Some p \<Longrightarrow>
     p = data \<and> data \<noteq> []"
  by (auto simp: BUF_memdup_def dest!: OPENSSL_malloc_size split: if_splits option.splits)

end
