(* ===== verification/ConstTime.thy ===== *)
theory ConstTime
  imports Prelude
begin

text \<open>
  The branch-free selectors and comparisons of \<open>crypto/internal.h\<close>. A \<open>crypto_word_t\<close>
  is 64 bits wide (the 64-bit build); a truth value is a mask, all ones or zero.
\<close>

type_synonym crypto_word = u64

definition CONSTTIME_TRUE_W :: crypto_word where
  "CONSTTIME_TRUE_W = NOT 0"

definition CONSTTIME_FALSE_W :: crypto_word where
  "CONSTTIME_FALSE_W = 0"

definition constant_time_msb_w :: "crypto_word \<Rightarrow> crypto_word" where
  "constant_time_msb_w a = 0 - drop_bit 63 a"

definition constant_time_lt_w :: "crypto_word \<Rightarrow> crypto_word \<Rightarrow> crypto_word" where
  "constant_time_lt_w a b = constant_time_msb_w (a XOR ((a XOR b) OR ((a - b) XOR a)))"

definition constant_time_lt_8 :: "crypto_word \<Rightarrow> crypto_word \<Rightarrow> u8" where
  "constant_time_lt_8 a b = ucast (constant_time_lt_w a b)"

definition constant_time_ge_w :: "crypto_word \<Rightarrow> crypto_word \<Rightarrow> crypto_word" where
  "constant_time_ge_w a b = NOT (constant_time_lt_w a b)"

definition constant_time_ge_8 :: "crypto_word \<Rightarrow> crypto_word \<Rightarrow> u8" where
  "constant_time_ge_8 a b = ucast (constant_time_ge_w a b)"

definition constant_time_is_zero_w :: "crypto_word \<Rightarrow> crypto_word" where
  "constant_time_is_zero_w a = constant_time_msb_w (NOT a AND (a - 1))"

definition constant_time_is_zero_8 :: "crypto_word \<Rightarrow> u8" where
  "constant_time_is_zero_8 a = ucast (constant_time_is_zero_w a)"

definition constant_time_eq_w :: "crypto_word \<Rightarrow> crypto_word \<Rightarrow> crypto_word" where
  "constant_time_eq_w a b = constant_time_is_zero_w (a XOR b)"

definition constant_time_eq_8 :: "crypto_word \<Rightarrow> crypto_word \<Rightarrow> u8" where
  "constant_time_eq_8 a b = ucast (constant_time_eq_w a b)"

text \<open>An \<open>int\<close> operand is a signed 32-bit word; the cast to \<open>crypto_word_t\<close> sign-extends.\<close>

definition constant_time_eq_int :: "32 word \<Rightarrow> 32 word \<Rightarrow> crypto_word" where
  "constant_time_eq_int a b = constant_time_eq_w (scast a) (scast b)"

definition constant_time_eq_int_8 :: "32 word \<Rightarrow> 32 word \<Rightarrow> u8" where
  "constant_time_eq_int_8 a b = constant_time_eq_8 (scast a) (scast b)"

definition constant_time_select_w :: "crypto_word \<Rightarrow> crypto_word \<Rightarrow> crypto_word \<Rightarrow> crypto_word" where
  "constant_time_select_w m a b = (m AND a) OR (NOT m AND b)"

text \<open>The eight-bit arguments are zero-extended, so only the low byte of the mask is ones.\<close>

definition constant_time_select_8 :: "u8 \<Rightarrow> u8 \<Rightarrow> u8 \<Rightarrow> u8" where
  "constant_time_select_8 m a b =
     ucast (constant_time_select_w (ucast m) (ucast a) (ucast b))"

definition constant_time_select_int :: "crypto_word \<Rightarrow> 32 word \<Rightarrow> 32 word \<Rightarrow> 32 word" where
  "constant_time_select_int m a b =
     ucast (constant_time_select_w m (scast a) (scast b))"

section \<open>Correctness\<close>

text \<open>The mask of a truth value, at either width.\<close>

definition mask_of :: "bool \<Rightarrow> 'a::len word" where
  "mask_of p = (if p then - 1 else 0)"

lemma drop_bit_63: "drop_bit 63 (a :: u64) = of_bool (bit a 63)"
proof (rule bit_word_eqI)
  fix n
  have "bit a (63 + n) \<longleftrightarrow> bit a 63 \<and> n = 0"
    using bit_imp_le_length [of a "63 + n"] by (cases n) auto
  then show "bit (drop_bit 63 a) n = bit (of_bool (bit a 63) :: u64) n"
    by (auto simp: bit_simps)
qed

lemma msb_w_mask: "constant_time_msb_w a = mask_of (bit a 63)"
  by (simp add: constant_time_msb_w_def drop_bit_63 mask_of_def)

lemma bit_63_iff: "bit (a :: u64) 63 \<longleftrightarrow> 2 ^ 63 \<le> unat a"
proof -
  have "unat a < 2 ^ 64" using unsigned_less [of a, where ?'a = nat] by simp
  then have "unat a div 2 ^ 63 = 0 \<or> unat a div 2 ^ 63 = 1" by auto
  moreover have "bit a 63 = bit (unat a) 63"
    by (simp add: bit_unsigned_iff)
  ultimately show ?thesis by (auto simp: bit_iff_odd)
qed

lemma bit_63_diff: "bit (a - b :: u64) 63 \<longleftrightarrow>
    (if bit a 63 = bit b 63 then a < b else 2 ^ 63 \<le> unat (a - b))"
proof -
  have u: "unat a < 2 ^ 64" "unat b < 2 ^ 64"
    using unsigned_less [of a, where ?'a = nat] unsigned_less [of b, where ?'a = nat] by auto
  have "unat (a - b) = (if unat b \<le> unat a then unat a - unat b else unat a + 2 ^ 64 - unat b)"
    by (simp add: unat_sub_if')
  with u show ?thesis unfolding bit_63_iff word_less_nat_alt by auto
qed

lemma constant_time_lt_w_mask: "constant_time_lt_w a b = mask_of (a < b)"
proof -
  have u: "unat a < 2 ^ 64" "unat b < 2 ^ 64"
    using unsigned_less [of a, where ?'a = nat] unsigned_less [of b, where ?'a = nat] by auto
  have "bit (a XOR ((a XOR b) OR ((a - b) XOR a))) 63 \<longleftrightarrow> a < b"
  proof (cases "bit a 63 = bit b 63")
    case True
    then show ?thesis by (auto simp: bit_simps bit_63_diff)
  next
    case False
    then have "bit b 63 \<longleftrightarrow> a < b"
      using u by (auto simp: bit_63_iff word_less_nat_alt)
    with False show ?thesis by (auto simp: bit_simps)
  qed
  then show ?thesis by (simp add: constant_time_lt_w_def msb_w_mask)
qed

lemma constant_time_is_zero_w_mask: "constant_time_is_zero_w a = mask_of (a = 0)"
proof -
  have "bit (NOT a AND (a - 1)) 63 \<longleftrightarrow> a = 0"
  proof (cases "a = 0")
    case True
    then show ?thesis by (simp add: bit_simps)
  next
    case False
    then have "unat (a - 1) < unat a"
      using unat_eq_0 [of a] by (simp add: unat_sub_if' )
    then have "bit (a - 1) 63 \<Longrightarrow> bit a 63" by (simp add: bit_63_iff)
    with False show ?thesis by (auto simp: bit_simps)
  qed
  then show ?thesis by (simp add: constant_time_is_zero_w_def msb_w_mask)
qed

lemma constant_time_eq_w_mask: "constant_time_eq_w a b = mask_of (a = b)"
proof -
  have "a XOR b = 0 \<longleftrightarrow> a = b" by (auto simp: bit_eq_iff bit_simps)
  then show ?thesis by (simp add: constant_time_eq_w_def constant_time_is_zero_w_mask)
qed

lemma ucast_mask_of [simp]: "ucast (mask_of p :: u64) = (mask_of p :: u8)"
  by (rule bit_word_eqI) (simp add: mask_of_def bit_simps)

lemma constant_time_eq_8_mask: "constant_time_eq_8 a b = mask_of (a = b)"
  by (simp add: constant_time_eq_8_def constant_time_eq_w_mask)

lemma constant_time_select_w_mask:
  "constant_time_select_w (mask_of p) a b = (if p then a else b)"
  by (simp add: constant_time_select_w_def mask_of_def)

lemma constant_time_select_8_mask:
  "constant_time_select_8 (mask_of p) a b = (if p then a else b)"
  by (rule bit_word_eqI)
    (auto simp: constant_time_select_8_def constant_time_select_w_def mask_of_def bit_simps)

text \<open>C22: the branch-free comparisons and selectors compute what they name, for every
  input word: a comparison is the all-ones mask exactly when the relation holds, and a
  select under such a mask is the conditional.\<close>

theorem constant_time_correct:
  "constant_time_lt_w a b = mask_of (a < b)
   \<and> constant_time_ge_w a b = mask_of (b \<le> a)
   \<and> constant_time_is_zero_w a = mask_of (a = 0)
   \<and> constant_time_eq_w a b = mask_of (a = b)
   \<and> constant_time_select_w (mask_of p) a b = (if p then a else b)
   \<and> constant_time_select_8 (mask_of p) x y = (if p then x else y)"
proof -
  have "constant_time_ge_w a b = mask_of (b \<le> a)"
    by (auto simp: constant_time_ge_w_def constant_time_lt_w_mask mask_of_def)
  then show ?thesis
    by (simp add: constant_time_lt_w_mask constant_time_is_zero_w_mask constant_time_eq_w_mask
        constant_time_select_w_mask constant_time_select_8_mask)
qed

end
