(* ===== verification/CBS.thy ===== *)
theory CBS
  imports Buf
begin

text \<open>
  The byte-string reader of \<open>crypto/bytestring/cbs.c\<close>. A \<open>CBS\<close> is the list of bytes it
  still covers. A reading operation returns what it read (\<open>None\<close> where the C function
  returns 0) and the \<open>CBS\<close> it leaves, on failure too: the C code advances its cursor in
  some failing calls and the model keeps that. Out-parameters of a failing call are not
  modelled. Tags are the in-memory 32-bit form: class and constructed bit in the top three
  bits, the tag number in the low 29.
\<close>

type_synonym CBS = "u8 list"

section \<open>Raw reads\<close>

definition cbs_get :: "CBS \<Rightarrow> nat \<Rightarrow> u8 list option \<times> CBS" where
  "cbs_get cbs n = (if length cbs < n then (None, cbs) else (Some (take n cbs), drop n cbs))"

definition CBS_skip :: "CBS \<Rightarrow> nat \<Rightarrow> unit option \<times> CBS" where
  "CBS_skip cbs n =
     (case cbs_get cbs n of (None, c) \<Rightarrow> (None, c) | (Some _, c) \<Rightarrow> (Some (), c))"

definition CBS_stow :: "env \<Rightarrow> CBS \<Rightarrow> bool \<times> u8 list option \<times> nat" where
  "CBS_stow e cbs =
     (if length cbs = 0 then (True, None, 0)
      else case BUF_memdup e cbs of
             None \<Rightarrow> (False, None, 0)
           | Some p \<Rightarrow> (True, Some p, length cbs))"

definition CBS_strdup :: "env \<Rightarrow> CBS \<Rightarrow> u8 list option" where
  "CBS_strdup e cbs = BUF_strndup e cbs (length cbs)"

definition CBS_contains_zero_byte :: "CBS \<Rightarrow> bool" where
  "CBS_contains_zero_byte cbs = list_ex (\<lambda>b. b = 0) cbs"

definition CBS_mem_equal :: "CBS \<Rightarrow> u8 list \<Rightarrow> nat \<Rightarrow> bool" where
  "CBS_mem_equal cbs data n =
     (if n \<noteq> length cbs then False else CRYPTO_memcmp cbs data n = 0)"

definition cbs_get_u :: "CBS \<Rightarrow> nat \<Rightarrow> u32 option \<times> CBS" where
  "cbs_get_u cbs n =
     (case cbs_get cbs n of
        (None, c) \<Rightarrow> (None, c)
      | (Some data, c) \<Rightarrow> (Some (foldl (\<lambda>r b. push_bit 8 r OR ucast b) 0 data), c))"

definition CBS_get_u8 :: "CBS \<Rightarrow> u8 option \<times> CBS" where
  "CBS_get_u8 cbs =
     (case cbs_get cbs 1 of (None, c) \<Rightarrow> (None, c) | (Some v, c) \<Rightarrow> (Some (v ! 0), c))"

definition CBS_get_u16 :: "CBS \<Rightarrow> u16 option \<times> CBS" where
  "CBS_get_u16 cbs =
     (case cbs_get_u cbs 2 of (None, c) \<Rightarrow> (None, c) | (Some v, c) \<Rightarrow> (Some (ucast v), c))"

definition CBS_get_u24 :: "CBS \<Rightarrow> u32 option \<times> CBS" where
  "CBS_get_u24 cbs = cbs_get_u cbs 3"

definition CBS_get_u32 :: "CBS \<Rightarrow> u32 option \<times> CBS" where
  "CBS_get_u32 cbs = cbs_get_u cbs 4"

definition CBS_get_last_u8 :: "CBS \<Rightarrow> u8 option \<times> CBS" where
  "CBS_get_last_u8 cbs =
     (if length cbs = 0 then (None, cbs) else (Some (cbs ! (length cbs - 1)), butlast cbs))"

definition CBS_get_bytes :: "CBS \<Rightarrow> nat \<Rightarrow> CBS option \<times> CBS" where
  "CBS_get_bytes cbs n =
     (case cbs_get cbs n of (None, c) \<Rightarrow> (None, c) | (Some v, c) \<Rightarrow> (Some v, c))"

definition CBS_copy_bytes :: "CBS \<Rightarrow> nat \<Rightarrow> u8 list option \<times> CBS" where
  "CBS_copy_bytes cbs n =
     (case cbs_get cbs n of (None, c) \<Rightarrow> (None, c) | (Some v, c) \<Rightarrow> (Some v, c))"

definition cbs_get_length_prefixed :: "CBS \<Rightarrow> nat \<Rightarrow> CBS option \<times> CBS" where
  "cbs_get_length_prefixed cbs len_len =
     (case cbs_get_u cbs len_len of
        (None, c) \<Rightarrow> (None, c)
      | (Some n, c) \<Rightarrow> CBS_get_bytes c (unat n))"

definition CBS_get_u8_length_prefixed :: "CBS \<Rightarrow> CBS option \<times> CBS" where
  "CBS_get_u8_length_prefixed cbs = cbs_get_length_prefixed cbs 1"

definition CBS_get_u16_length_prefixed :: "CBS \<Rightarrow> CBS option \<times> CBS" where
  "CBS_get_u16_length_prefixed cbs = cbs_get_length_prefixed cbs 2"

definition CBS_get_u24_length_prefixed :: "CBS \<Rightarrow> CBS option \<times> CBS" where
  "CBS_get_u24_length_prefixed cbs = cbs_get_length_prefixed cbs 3"

section \<open>ASN.1 elements\<close>

definition CBS_ASN1_BOOLEAN :: u32 where "CBS_ASN1_BOOLEAN = 0x1"
definition CBS_ASN1_INTEGER :: u32 where "CBS_ASN1_INTEGER = 0x2"
definition CBS_ASN1_BITSTRING :: u32 where "CBS_ASN1_BITSTRING = 0x3"
definition CBS_ASN1_OCTETSTRING :: u32 where "CBS_ASN1_OCTETSTRING = 0x4"
definition CBS_ASN1_UTF8STRING :: u32 where "CBS_ASN1_UTF8STRING = 0xc"
definition CBS_ASN1_NUMERICSTRING :: u32 where "CBS_ASN1_NUMERICSTRING = 0x12"
definition CBS_ASN1_PRINTABLESTRING :: u32 where "CBS_ASN1_PRINTABLESTRING = 0x13"
definition CBS_ASN1_T61STRING :: u32 where "CBS_ASN1_T61STRING = 0x14"
definition CBS_ASN1_VIDEOTEXSTRING :: u32 where "CBS_ASN1_VIDEOTEXSTRING = 0x15"
definition CBS_ASN1_IA5STRING :: u32 where "CBS_ASN1_IA5STRING = 0x16"
definition CBS_ASN1_GRAPHICSTRING :: u32 where "CBS_ASN1_GRAPHICSTRING = 0x19"
definition CBS_ASN1_VISIBLESTRING :: u32 where "CBS_ASN1_VISIBLESTRING = 0x1a"
definition CBS_ASN1_GENERALSTRING :: u32 where "CBS_ASN1_GENERALSTRING = 0x1b"
definition CBS_ASN1_UNIVERSALSTRING :: u32 where "CBS_ASN1_UNIVERSALSTRING = 0x1c"
definition CBS_ASN1_BMPSTRING :: u32 where "CBS_ASN1_BMPSTRING = 0x1e"

definition CBS_ASN1_TAG_SHIFT :: nat where "CBS_ASN1_TAG_SHIFT = 24"
definition CBS_ASN1_CONSTRUCTED :: u32 where
  "CBS_ASN1_CONSTRUCTED = push_bit CBS_ASN1_TAG_SHIFT 0x20"
definition CBS_ASN1_TAG_NUMBER_MASK :: u32 where
  "CBS_ASN1_TAG_NUMBER_MASK = push_bit (5 + CBS_ASN1_TAG_SHIFT) 1 - 1"

text \<open>The \<open>do\<close> loop of \<open>parse_base128_integer\<close>; the pattern match is \<open>CBS_get_u8\<close>.\<close>

fun parse_base128_loop :: "CBS \<Rightarrow> u64 \<Rightarrow> u64 option \<times> CBS" where
  "parse_base128_loop [] v = (None, [])"
| "parse_base128_loop (b # c) v =
     (if drop_bit (64 - 7) v \<noteq> 0 then (None, c)
      else if v = 0 \<and> b = 0x80 then (None, c)
      else let v' = push_bit 7 v OR (ucast b AND 0x7f)
           in if b AND 0x80 \<noteq> 0 then parse_base128_loop c v' else (Some v', c))"

definition parse_base128_integer :: "CBS \<Rightarrow> u64 option \<times> CBS" where
  "parse_base128_integer cbs = parse_base128_loop cbs 0"

definition parse_asn1_tag :: "CBS \<Rightarrow> u32 option \<times> CBS" where
  "parse_asn1_tag cbs =
     (case CBS_get_u8 cbs of
        (None, c) \<Rightarrow> (None, c)
      | (Some tag_byte, c) \<Rightarrow>
          (let tag = push_bit CBS_ASN1_TAG_SHIFT (ucast tag_byte AND 0xe0) :: u32;
               tag_number = ucast (tag_byte AND 0x1f) :: u32
           in if tag_number = 0x1f
              then (case parse_base128_integer c of
                      (None, c') \<Rightarrow> (None, c')
                    | (Some v, c') \<Rightarrow>
                        (if v > ucast CBS_ASN1_TAG_NUMBER_MASK \<or> v < 0x1f then (None, c')
                         else (Some (tag OR ucast v), c')))
              else (Some (tag OR tag_number), c)))"

text \<open>The last step of \<open>cbs_get_any_asn1_element\<close>: cut the element of \<open>n\<close> bytes off.\<close>

definition cbs_take_element :: "CBS \<Rightarrow> nat \<Rightarrow> u32 \<Rightarrow> nat \<Rightarrow> (CBS \<times> u32 \<times> nat) option \<times> CBS" where
  "cbs_take_element cbs n tag header_len =
     (case CBS_get_bytes cbs n of
        (None, c) \<Rightarrow> (None, c)
      | (Some out, c) \<Rightarrow> (Some (out, tag, header_len), c))"

definition cbs_get_any_asn1_element :: "CBS \<Rightarrow> bool \<Rightarrow> (CBS \<times> u32 \<times> nat) option \<times> CBS" where
  "cbs_get_any_asn1_element cbs ber_ok =
     (case parse_asn1_tag cbs of
        (None, _) \<Rightarrow> (None, cbs)
      | (Some tag, header0) \<Rightarrow>
     (case CBS_get_u8 header0 of
        (None, _) \<Rightarrow> (None, cbs)
      | (Some length_byte, header) \<Rightarrow>
     (let header_len = length cbs - length header
      in if length_byte AND 0x80 = 0
         then cbs_take_element cbs (unat length_byte + header_len) tag header_len
         else
     (let num_bytes = unat (length_byte AND 0x7f)
      in if ber_ok \<and> tag AND CBS_ASN1_CONSTRUCTED \<noteq> 0 \<and> num_bytes = 0
         then cbs_take_element cbs header_len tag header_len
         else if num_bytes = 0 \<or> num_bytes > 4 then (None, cbs)
         else
     (case cbs_get_u header num_bytes of
        (None, _) \<Rightarrow> (None, cbs)
      | (Some len32, _) \<Rightarrow>
          (if len32 < 128 then (None, cbs)
           else if drop_bit ((num_bytes - 1) * 8) len32 = 0 then (None, cbs)
           else let l = unat len32
                in if size_add (size_add l header_len) num_bytes < l then (None, cbs)
                   else cbs_take_element cbs (size_add l (size_add header_len num_bytes))
                          tag (header_len + num_bytes)))))))"

definition CBS_get_any_asn1_element :: "CBS \<Rightarrow> (CBS \<times> u32 \<times> nat) option \<times> CBS" where
  "CBS_get_any_asn1_element cbs = cbs_get_any_asn1_element cbs False"

definition CBS_get_any_ber_asn1_element :: "CBS \<Rightarrow> (CBS \<times> u32 \<times> nat) option \<times> CBS" where
  "CBS_get_any_ber_asn1_element cbs = cbs_get_any_asn1_element cbs True"

definition CBS_get_any_asn1 :: "CBS \<Rightarrow> (CBS \<times> u32) option \<times> CBS" where
  "CBS_get_any_asn1 cbs =
     (case CBS_get_any_asn1_element cbs of
        (None, c) \<Rightarrow> (None, c)
      | (Some (out, tag, header_len), c) \<Rightarrow>
          (case CBS_skip out header_len of
             (None, _) \<Rightarrow> (None, c)
           | (Some _, out') \<Rightarrow> (Some (out', tag), c)))"

text \<open>A tag mismatch fails after the element has been consumed.\<close>

definition cbs_get_asn1 :: "CBS \<Rightarrow> u32 \<Rightarrow> bool \<Rightarrow> CBS option \<times> CBS" where
  "cbs_get_asn1 cbs tag_value skip_header =
     (case CBS_get_any_asn1_element cbs of
        (None, c) \<Rightarrow> (None, c)
      | (Some (out, tag, header_len), c) \<Rightarrow>
          (if tag \<noteq> tag_value then (None, c)
           else if skip_header
           then (case CBS_skip out header_len of
                   (None, _) \<Rightarrow> (None, c)
                 | (Some _, out') \<Rightarrow> (Some out', c))
           else (Some out, c)))"

definition CBS_get_asn1 :: "CBS \<Rightarrow> u32 \<Rightarrow> CBS option \<times> CBS" where
  "CBS_get_asn1 cbs tag_value = cbs_get_asn1 cbs tag_value True"

definition CBS_get_asn1_element :: "CBS \<Rightarrow> u32 \<Rightarrow> CBS option \<times> CBS" where
  "CBS_get_asn1_element cbs tag_value = cbs_get_asn1 cbs tag_value False"

definition CBS_peek_asn1_tag :: "CBS \<Rightarrow> u32 \<Rightarrow> bool" where
  "CBS_peek_asn1_tag cbs tag_value =
     (if length cbs < 1 then False
      else case parse_asn1_tag cbs of
             (None, _) \<Rightarrow> False
           | (Some actual_tag, _) \<Rightarrow> tag_value = actual_tag)"

fun asn1_uint64_loop :: "u8 list \<Rightarrow> u64 \<Rightarrow> u64 option" where
  "asn1_uint64_loop [] out = Some out"
| "asn1_uint64_loop (b # data) out =
     (if drop_bit 56 out \<noteq> 0 then None
      else asn1_uint64_loop data (push_bit 8 out OR ucast b))"

definition CBS_get_asn1_uint64 :: "CBS \<Rightarrow> u64 option \<times> CBS" where
  "CBS_get_asn1_uint64 cbs =
     (case CBS_get_asn1 cbs CBS_ASN1_INTEGER of
        (None, c) \<Rightarrow> (None, c)
      | (Some data, c) \<Rightarrow>
          (if length data = 0 then (None, c)
           else if data ! 0 AND 0x80 \<noteq> 0 then (None, c)
           else if data ! 0 = 0 \<and> length data > 1 \<and> data ! 1 AND 0x80 = 0 then (None, c)
           else (asn1_uint64_loop data 0, c)))"

definition CBS_get_asn1_bool :: "CBS \<Rightarrow> bool option \<times> CBS" where
  "CBS_get_asn1_bool cbs =
     (case CBS_get_asn1 cbs CBS_ASN1_BOOLEAN of
        (None, c) \<Rightarrow> (None, c)
      | (Some data, c) \<Rightarrow>
          (if length data \<noteq> 1 then (None, c)
           else let v = data ! 0
                in if v \<noteq> 0 \<and> v \<noteq> 0xff then (None, c) else (Some (v \<noteq> 0), c)))"

section \<open>Optional elements\<close>

text \<open>The inner option says whether the element was present.\<close>

definition CBS_get_optional_asn1 :: "CBS \<Rightarrow> u32 \<Rightarrow> CBS option option \<times> CBS" where
  "CBS_get_optional_asn1 cbs tag =
     (if CBS_peek_asn1_tag cbs tag
      then (case CBS_get_asn1 cbs tag of
              (None, c) \<Rightarrow> (None, c)
            | (Some out, c) \<Rightarrow> (Some (Some out), c))
      else (Some None, cbs))"

definition CBS_get_optional_asn1_octet_string :: "CBS \<Rightarrow> u32 \<Rightarrow> (bool \<times> CBS) option \<times> CBS" where
  "CBS_get_optional_asn1_octet_string cbs tag =
     (case CBS_get_optional_asn1 cbs tag of
        (None, c) \<Rightarrow> (None, c)
      | (Some None, c) \<Rightarrow> (Some (False, []), c)
      | (Some (Some child), c) \<Rightarrow>
          (case CBS_get_asn1 child CBS_ASN1_OCTETSTRING of
             (None, _) \<Rightarrow> (None, c)
           | (Some out, child') \<Rightarrow>
               (if length child' \<noteq> 0 then (None, c) else (Some (True, out), c))))"

definition CBS_get_optional_asn1_uint64 :: "CBS \<Rightarrow> u32 \<Rightarrow> u64 \<Rightarrow> u64 option \<times> CBS" where
  "CBS_get_optional_asn1_uint64 cbs tag default_value =
     (case CBS_get_optional_asn1 cbs tag of
        (None, c) \<Rightarrow> (None, c)
      | (Some None, c) \<Rightarrow> (Some default_value, c)
      | (Some (Some child), c) \<Rightarrow>
          (case CBS_get_asn1_uint64 child of
             (None, _) \<Rightarrow> (None, c)
           | (Some out, child') \<Rightarrow>
               (if length child' \<noteq> 0 then (None, c) else (Some out, c))))"

definition CBS_get_optional_asn1_bool :: "CBS \<Rightarrow> u32 \<Rightarrow> bool \<Rightarrow> bool option \<times> CBS" where
  "CBS_get_optional_asn1_bool cbs tag default_value =
     (case CBS_get_optional_asn1 cbs tag of
        (None, c) \<Rightarrow> (None, c)
      | (Some None, c) \<Rightarrow> (Some default_value, c)
      | (Some (Some child), c) \<Rightarrow>
          (case CBS_get_asn1 child CBS_ASN1_BOOLEAN of
             (None, _) \<Rightarrow> (None, c)
           | (Some child2, child') \<Rightarrow>
               (if length child2 \<noteq> 1 \<or> length child' \<noteq> 0 then (None, c)
                else let boolean = child2 ! 0
                     in if boolean = 0 then (Some False, c)
                        else if boolean = 0xff then (Some True, c)
                        else (None, c))))"

section \<open>Bit strings\<close>

definition CBS_is_valid_asn1_bitstring :: "CBS \<Rightarrow> bool" where
  "CBS_is_valid_asn1_bitstring cbs =
     (case CBS_get_u8 cbs of
        (None, _) \<Rightarrow> False
      | (Some num_unused_bits, c) \<Rightarrow>
          (if num_unused_bits > 7 then False
           else if num_unused_bits = 0 then True
           else case CBS_get_last_u8 c of
                  (None, _) \<Rightarrow> False
                | (Some l, _) \<Rightarrow>
                    ucast l AND (push_bit (unat num_unused_bits) 1 - 1 :: u32) = 0))"

definition CBS_asn1_bitstring_has_bit :: "CBS \<Rightarrow> u32 \<Rightarrow> bool" where
  "CBS_asn1_bitstring_has_bit cbs b =
     (if \<not> CBS_is_valid_asn1_bitstring cbs then False
      else let byte_num = unat (drop_bit 3 b + 1); bit_num = 7 - unat (b AND 7)
           in byte_num < length cbs
              \<and> (ucast (cbs ! byte_num) AND (push_bit bit_num 1 :: u32)) \<noteq> 0)"

end
