(* ===== verification/DER.thy ===== *)
theory DER
  imports CBS
begin

text \<open>
  The abstract side of the byte-string reader: reference encoders for DER tags, lengths,
  elements, unsigned integers and booleans, and the theorems that the parsers of theory
  CBS accept exactly what these encoders produce. Every parser is characterised in both
  directions, so it neither rejects a canonical encoding nor accepts another one.
\<close>

section \<open>Reference encoders\<close>

text \<open>Base 128, big-endian, the high bit set on every byte but the last.\<close>

fun base128_high :: "nat \<Rightarrow> u8 list" where
  "base128_high v = (if v = 0 then [] else base128_high (v div 128) @ [byte (v mod 128 + 128)])"

declare base128_high.simps [simp del]

definition base128 :: "nat \<Rightarrow> u8 list" where
  "base128 v = base128_high (v div 128) @ [byte (v mod 128)]"

definition der_tag :: "u32 \<Rightarrow> u8 list" where
  "der_tag tag =
     (let bits = unat (drop_bit 29 tag) * 32; num = unat (tag AND CBS_ASN1_TAG_NUMBER_MASK)
      in if num < 31 then [byte (bits + num)]
         else byte (bits + 31) # base128 num)"

definition der_len_bytes :: "nat \<Rightarrow> nat" where
  "der_len_bytes n =
     (if n < 256 then 1 else if n < 65536 then 2 else if n < 16777216 then 3 else 4)"

definition der_len :: "nat \<Rightarrow> u8 list" where
  "der_len n =
     (if n < 128 then [byte n]
      else byte (128 + der_len_bytes n) # be_bytes (der_len_bytes n) n)"

definition der_tlv :: "u32 \<Rightarrow> u8 list \<Rightarrow> u8 list" where
  "der_tlv tag data = der_tag tag @ der_len (length data) @ data"

text \<open>The shortest big-endian byte string of a number, and the content octets of a
  non-negative INTEGER.\<close>

fun min_be :: "nat \<Rightarrow> u8 list" where
  "min_be v = (if v = 0 then [] else min_be (v div 256) @ [byte v])"

declare min_be.simps [simp del]

definition der_uint :: "nat \<Rightarrow> u8 list" where
  "der_uint v =
     (if v = 0 then [0]
      else if 128 \<le> unat (hd (min_be v)) then 0 # min_be v else min_be v)"

section \<open>Base 128\<close>

lemma base128_step:
  fixes v :: u64 and b :: u8
  assumes "unat v < 2 ^ 57"
  shows "unat (push_bit 7 v OR (ucast b AND 0x7f)) = unat v * 128 + unat b mod 128"
proof -
  have m: "unat (ucast b AND 0x7f :: u64) = unat b mod 128"
    using unat_and_mask [of "ucast b :: u64" 7] unat_ucast_up [of b, where ?'a = 64]
    by (simp add: mask_eq_exp_minus_1)
  have "unat (push_bit 7 v OR (ucast b AND 0x7f :: u64)) = unat v * 2 ^ 7 + unat (ucast b AND 0x7f :: u64)"
    by (rule unat_push_bit_or) (use assms m in auto)
  with m show ?thesis by simp
qed

lemma parse_base128_loop_Cons:
  "parse_base128_loop (b # c) v =
     (if 2 ^ 57 \<le> unat v then (None, c)
      else if unat v = 0 \<and> unat b = 128 then (None, c)
      else let v' = push_bit 7 v OR (ucast b AND 0x7f)
           in if 128 \<le> unat b then parse_base128_loop c v' else (Some v', c))"
proof -
  have "b = 0x80 \<longleftrightarrow> unat b = 128" by (simp add: word_unat_eq_iff)
  then show ?thesis by (auto simp: drop_bit_eq_0_iff u8_msb_iff unat_eq_0 not_le not_less Let_def)
qed

declare parse_base128_loop.simps(2) [simp del]

lemma parse_base128_more:
  "unat v < 2 ^ 57 \<Longrightarrow> \<not> (unat v = 0 \<and> unat b = 128) \<Longrightarrow> 128 \<le> unat b \<Longrightarrow>
     parse_base128_loop (b # c) v = parse_base128_loop c (push_bit 7 v OR (ucast b AND 0x7f))"
  by (auto simp: parse_base128_loop_Cons Let_def)

lemma parse_base128_last:
  "unat v < 2 ^ 57 \<Longrightarrow> unat b < 128 \<Longrightarrow>
     parse_base128_loop (b # c) v = (Some (push_bit 7 v OR (ucast b AND 0x7f)), c)"
  by (auto simp: parse_base128_loop_Cons Let_def)

lemma parse_base128_high:
  assumes "w < 2 ^ 57"
  shows "parse_base128_loop (base128_high w @ bs) 0 = parse_base128_loop bs (word_of_nat w)"
  using assms
proof (induction w arbitrary: bs rule: base128_high.induct)
  case (1 w)
  show ?case
  proof (cases "w = 0")
    case True
    then show ?thesis by (simp add: base128_high.simps)
  next
    case False
    let ?b = "byte (w mod 128 + 128)"
    let ?v = "word_of_nat (w div 128) :: u64"
    have v: "unat ?v = w div 128" using "1.prems" by (simp add: unat_of_nat)
    have ok: "unat ?v < 2 ^ 57" "\<not> (unat ?v = 0 \<and> unat ?b = 128)"
      using "1.prems" False by (auto simp: v)
    have "unat (push_bit 7 ?v OR (ucast ?b AND 0x7f)) = w"
      using base128_step [OF ok(1), of ?b] by (simp add: v)
    then have "push_bit 7 ?v OR (ucast ?b AND 0x7f) = word_of_nat w"
      by (intro unat_inject) (use "1.prems" in \<open>simp add: unat_of_nat\<close>)
    moreover have "parse_base128_loop (base128_high w @ bs) 0 = parse_base128_loop (?b # bs) ?v"
      using "1.IH" [OF False, of "?b # bs"] "1.prems" False by (subst base128_high.simps) simp
    moreover have "128 \<le> unat ?b" by simp
    ultimately show ?thesis using parse_base128_more [OF ok] by simp
  qed
qed

lemma parse_base128_integer_base128:
  assumes "v < 2 ^ 64"
  shows "parse_base128_integer (base128 v @ rest) = (Some (word_of_nat v), rest)"
proof -
  let ?b = "byte (v mod 128)"
  let ?v = "word_of_nat (v div 128) :: u64"
  have v: "unat ?v = v div 128" using assms by (simp add: unat_of_nat)
  have ok: "unat ?v < 2 ^ 57" using assms by (simp add: v)
  have "unat (push_bit 7 ?v OR (ucast ?b AND 0x7f)) = v"
    using base128_step [OF ok, of ?b] by (simp add: v)
  then have "push_bit 7 ?v OR (ucast ?b AND 0x7f) = word_of_nat v"
    by (intro unat_inject) (use assms in \<open>simp add: unat_of_nat\<close>)
  moreover have "unat ?b < 128" by simp
  ultimately have "parse_base128_loop (?b # rest) ?v = (Some (word_of_nat v), rest)"
    using parse_base128_last [OF ok] by simp
  then show ?thesis
    using parse_base128_high [of "v div 128" "?b # rest"] assms
    by (simp add: parse_base128_integer_def base128_def)
qed

lemma parse_base128_loop_sound:
  "parse_base128_loop cbs v = (Some r, rest) \<Longrightarrow>
     base128_high (unat v) @ cbs = base128 (unat r) @ rest"
proof (induction cbs arbitrary: v)
  case Nil
  then show ?case by simp
next
  case (Cons b c)
  let ?v = "push_bit 7 v OR (ucast b AND 0x7f)"
  from Cons.prems have ok: "unat v < 2 ^ 57" "\<not> (unat v = 0 \<and> unat b = 128)"
    by (auto simp: parse_base128_loop_Cons split: if_splits)
  note v = base128_step [OF ok(1), of b]
  show ?case
  proof (cases "128 \<le> unat b")
    case True
    have b: "unat b = unat b mod 128 + 128"
      using True unat_u8_less [of b] by (simp add: mod_if [of "unat b"] del: unat_u8_less)
    with ok have nz: "unat ?v \<noteq> 0" by (auto simp: v)
    have "byte (unat b mod 128 + 128) = b" using b by (intro byte_eqI) simp
    then have "base128_high (unat ?v) = base128_high (unat v) @ [b]"
      using nz by (subst base128_high.simps) (simp add: v)
    moreover have "parse_base128_loop c ?v = (Some r, rest)"
      using Cons.prems ok True by (auto simp: parse_base128_loop_Cons Let_def)
    ultimately show ?thesis using Cons.IH [of ?v] by simp
  next
    case False
    then have "byte (unat b mod 128) = b" by (intro byte_eqI) simp
    then have "base128 (unat ?v) = base128_high (unat v) @ [b]"
      by (simp add: base128_def v)
    then show ?thesis using Cons.prems ok False by (auto simp: parse_base128_loop_Cons Let_def)
  qed
qed

lemma parse_base128_integer_iff:
  "parse_base128_integer cbs = (Some r, rest) \<longleftrightarrow> cbs = base128 (unat r) @ rest"
proof
  assume "parse_base128_integer cbs = (Some r, rest)"
  then show "cbs = base128 (unat r) @ rest"
    using parse_base128_loop_sound [of cbs 0 r rest]
    by (simp add: parse_base128_integer_def base128_high.simps)
next
  assume "cbs = base128 (unat r) @ rest"
  then show "parse_base128_integer cbs = (Some r, rest)"
    using parse_base128_integer_base128 [of "unat r" rest] unsigned_less [of r, where ?'a = nat]
    by simp
qed

section \<open>Tags\<close>

definition tag_high :: "u32 \<Rightarrow> nat" where
  "tag_high tag = unat tag div 2 ^ 29"

definition tag_number :: "u32 \<Rightarrow> nat" where
  "tag_number tag = unat tag mod 2 ^ 29"

definition mk_tag :: "nat \<Rightarrow> nat \<Rightarrow> u32" where
  "mk_tag k n = word_of_nat (k * 2 ^ 29 + n)"

lemma unat_mk_tag: "k < 8 \<Longrightarrow> n < 2 ^ 29 \<Longrightarrow> unat (mk_tag k n) = k * 2 ^ 29 + n"
  by (simp only: mk_tag_def unat_of_nat) simp

lemma mk_tag_parts:
  assumes "k < 8" and "n < 2 ^ 29"
  shows "tag_high (mk_tag k n) = k" and "tag_number (mk_tag k n) = n"
  using assms by (simp_all add: unat_mk_tag tag_high_def tag_number_def)

lemma tag_high_less: "tag_high tag < 8"
  using unsigned_less [of tag, where ?'a = nat] by (simp add: tag_high_def less_mult_imp_div_less)

lemma tag_number_less: "tag_number tag < 2 ^ 29"
  by (simp add: tag_number_def)

lemma mk_tag_id: "mk_tag (tag_high tag) (tag_number tag) = tag"
proof (rule unat_inject)
  have "unat (mk_tag (tag_high tag) (tag_number tag)) = tag_high tag * 2 ^ 29 + tag_number tag"
    by (rule unat_mk_tag [OF tag_high_less tag_number_less])
  also have "\<dots> = unat tag" unfolding tag_high_def tag_number_def by (rule div_mult_mod_eq)
  finally show "unat (mk_tag (tag_high tag) (tag_number tag)) = unat tag" .
qed

lemma tag_number_mask: "CBS_ASN1_TAG_NUMBER_MASK = mask 29"
  by (simp add: CBS_ASN1_TAG_NUMBER_MASK_def CBS_ASN1_TAG_SHIFT_def mask_eq_exp_minus_1)

lemma der_tag_eq:
  "der_tag tag =
     (if tag_number tag < 31 then [byte (tag_high tag * 32 + tag_number tag)]
      else byte (tag_high tag * 32 + 31) # base128 (tag_number tag))"
proof -
  have "unat (tag AND CBS_ASN1_TAG_NUMBER_MASK) = tag_number tag"
    by (simp only: tag_number_mask unat_and_mask tag_number_def)
  moreover have "unat (drop_bit 29 tag) = tag_high tag"
    by (simp only: unat_drop_bit_eq tag_high_def) (simp add: drop_bit_eq_div)
  ultimately show ?thesis by (simp add: der_tag_def Let_def)
qed

lemma class_bits:
  "push_bit 24 (ucast (tb :: u8) AND 0xe0 :: u32) = push_bit 29 (drop_bit 5 (ucast tb))"
proof -
  have e: "(0xe0 :: u32) = push_bit 5 (mask 3)" by (simp add: mask_eq_exp_minus_1)
  show ?thesis unfolding e
    by (intro bit_word_eqI) (auto simp: bit_simps dest: bit_imp_le_length)
qed

lemma tag_word:
  fixes tb :: u8 and n :: u32
  assumes "unat n < 2 ^ 29"
  shows "push_bit CBS_ASN1_TAG_SHIFT (ucast tb AND 0xe0) OR n = mk_tag (unat tb div 32) (unat n)"
proof (rule unat_inject)
  have d: "unat (drop_bit 5 (ucast tb :: u32)) = unat tb div 32"
    using unat_ucast_up [of tb, where ?'a = 32]
    by (simp only: unat_drop_bit_eq) (simp add: drop_bit_eq_div)
  have tb: "unat tb div 32 < 8" using unat_u8_less [of tb] by (simp add: less_mult_imp_div_less del: unat_u8_less)
  have "unat (push_bit 29 (drop_bit 5 (ucast tb)) OR n) = unat (drop_bit 5 (ucast tb :: u32)) * 2 ^ 29 + unat n"
    using tb assms by (intro unat_push_bit_or) (auto simp: d)
  with tb assms show "unat (push_bit CBS_ASN1_TAG_SHIFT (ucast tb AND 0xe0) OR n)
      = unat (mk_tag (unat tb div 32) (unat n))"
    by (simp only: CBS_ASN1_TAG_SHIFT_def class_bits d unat_mk_tag)
qed

lemma CBS_get_u8_simps [simp]:
  "CBS_get_u8 [] = (None, [])" "CBS_get_u8 (b # c) = (Some b, c)"
  by (simp_all add: CBS_get_u8_def cbs_get_def)

lemma parse_asn1_tag_Cons:
  "parse_asn1_tag (tb # c) =
     (if unat tb mod 32 = 31
      then (case parse_base128_integer c of
              (None, c') \<Rightarrow> (None, c')
            | (Some v, c') \<Rightarrow>
                (if unat v < 2 ^ 29 \<and> 31 \<le> unat v
                 then (Some (mk_tag (unat tb div 32) (unat v)), c') else (None, c')))
      else (Some (mk_tag (unat tb div 32) (unat tb mod 32)), c))"
proof -
  have low: "(ucast (tb AND 0x1f) :: u32) = 0x1f \<longleftrightarrow> unat tb mod 32 = 31"
    by (simp add: word_unat_eq_iff unat_ucast_up)
  have small: "push_bit CBS_ASN1_TAG_SHIFT (ucast tb AND 0xe0) OR ucast (tb AND 0x1f)
      = mk_tag (unat tb div 32) (unat tb mod 32)"
    using tag_word [of "ucast (tb AND 0x1f)" tb] by (simp add: unat_ucast_up)
  have high: "\<not> (v > ucast CBS_ASN1_TAG_NUMBER_MASK \<or> v < 0x1f)
      \<longleftrightarrow> unat v < 2 ^ 29 \<and> 31 \<le> unat v" for v :: u64
    by (auto simp: word_less_nat_alt CBS_ASN1_TAG_NUMBER_MASK_def CBS_ASN1_TAG_SHIFT_def not_less)
  have big: "push_bit CBS_ASN1_TAG_SHIFT (ucast tb AND 0xe0) OR ucast v
      = mk_tag (unat tb div 32) (unat v)" if "unat v < 2 ^ 29" for v :: u64
  proof -
    have "unat (ucast v :: u32) = unat v"
      using that by (simp only: unsigned_ucast_eq) (rule take_bit_nat_eq_self, simp)
    then show ?thesis using tag_word [of "ucast v" tb] that by simp
  qed
  show ?thesis
    using high big
    by (auto simp: parse_asn1_tag_def Let_def low small simp del: push_bit_and
        split: option.splits prod.splits)
qed

lemma parse_asn1_tag_iff:
  "parse_asn1_tag cbs = (Some tag, rest) \<longleftrightarrow> cbs = der_tag tag @ rest"
proof
  assume p: "parse_asn1_tag cbs = (Some tag, rest)"
  then obtain tb c where cbs: "cbs = tb # c"
    by (cases cbs) (auto simp: parse_asn1_tag_def)
  have tb: "unat tb div 32 < 8" "unat tb mod 32 < 2 ^ 29"
    using unat_u8_less [of tb] by (simp_all add: less_mult_imp_div_less del: unat_u8_less)
  show "cbs = der_tag tag @ rest"
  proof (cases "unat tb mod 32 = 31")
    case True
    with p cbs obtain v where v: "parse_base128_integer c = (Some v, rest)"
        "unat v < 2 ^ 29" "31 \<le> unat v" "tag = mk_tag (unat tb div 32) (unat v)"
      by (auto simp: parse_asn1_tag_Cons split: option.splits prod.splits if_splits)
    have "byte (unat tb div 32 * 32 + 31) = tb"
      using True by (intro byte_eqI) (metis div_mult_mod_eq mod_less unat_u8_less)
    with v mk_tag_parts [OF tb(1) v(2)] cbs show ?thesis
      by (simp add: der_tag_eq parse_base128_integer_iff)
  next
    case False
    with p cbs have t: "tag = mk_tag (unat tb div 32) (unat tb mod 32)" "rest = c"
      by (auto simp: parse_asn1_tag_Cons)
    have "unat tb mod 32 < 31" using False mod_less_divisor [of 32 "unat tb"] by linarith
    with t mk_tag_parts [OF tb] cbs show ?thesis by (simp add: der_tag_eq)
  qed
next
  assume cbs: "cbs = der_tag tag @ rest"
  note less = tag_high_less [of tag] tag_number_less [of tag]
  show "parse_asn1_tag cbs = (Some tag, rest)"
  proof (cases "tag_number tag < 31")
    case True
    define tb where "tb = byte (tag_high tag * 32 + tag_number tag)"
    have "unat tb = tag_high tag * 32 + tag_number tag" using less True by (simp add: tb_def)
    with True have "unat tb div 32 = tag_high tag" "unat tb mod 32 = tag_number tag" by simp_all
    with True cbs show ?thesis
      by (simp add: der_tag_eq tb_def [symmetric] parse_asn1_tag_Cons mk_tag_id)
  next
    case False
    define tb where "tb = byte (tag_high tag * 32 + 31)"
    have "unat tb = tag_high tag * 32 + 31" using less by (simp add: tb_def)
    then have d: "unat tb div 32 = tag_high tag" "unat tb mod 32 = 31" by simp_all
    define v :: u64 where "v = word_of_nat (tag_number tag)"
    have v: "unat v = tag_number tag" using less by (simp add: v_def unat_of_nat)
    have "parse_base128_integer (base128 (tag_number tag) @ rest) = (Some v, rest)"
      by (simp only: parse_base128_integer_iff v)
    with False d v less cbs show ?thesis
      by (simp add: der_tag_eq tb_def [symmetric] parse_asn1_tag_Cons mk_tag_id)
  qed
qed

section \<open>Lengths and elements\<close>

lemma be_fold_value:
  "length data \<le> 4 \<Longrightarrow>
     unat (foldl (\<lambda>r b. push_bit 8 r OR ucast b) (0 :: u32) data) = be_val data"
proof (induction data rule: rev_induct)
  case Nil
  then show ?case by simp
next
  case (snoc b data)
  let ?r = "foldl (\<lambda>r b. push_bit 8 r OR ucast b) (0 :: u32) data"
  have r: "unat ?r = be_val data" using snoc by simp
  have "be_val data + 1 \<le> 256 ^ length data" using be_val_bound [of data] by simp
  also have "\<dots> \<le> 256 ^ 3" using snoc.prems by (intro power_increasing) auto
  finally have b: "(unat ?r + 1) * 2 ^ 8 \<le> 2 ^ LENGTH(32)" by (simp add: r)
  have "unat (push_bit 8 ?r OR ucast b) = unat ?r * 2 ^ 8 + unat (ucast b :: u32)"
    using b by (intro unat_push_bit_or) (simp_all add: unat_ucast_up)
  with r show ?case by (simp add: unat_ucast_up)
qed

lemma cbs_get_u_Some:
  assumes "n \<le> 4"
  shows "cbs_get_u cbs n = (Some v, rest) \<longleftrightarrow>
    (\<exists>d. cbs = d @ rest \<and> length d = n \<and> unat v = be_val d)"
proof (cases "length cbs < n")
  case True
  then show ?thesis by (auto simp: cbs_get_u_def cbs_get_def)
next
  case False
  let ?f = "foldl (\<lambda>r b. push_bit 8 r OR ucast b) (0 :: u32)"
  from False assms have v: "unat (?f (take n cbs)) = be_val (take n cbs)"
    by (intro be_fold_value) simp
  have g: "cbs_get_u cbs n = (Some (?f (take n cbs)), drop n cbs)"
    using False by (simp add: cbs_get_u_def cbs_get_def)
  show ?thesis
  proof
    assume "cbs_get_u cbs n = (Some v, rest)"
    with g v have "cbs = take n cbs @ rest" "unat v = be_val (take n cbs)" by auto
    with False show "\<exists>d. cbs = d @ rest \<and> length d = n \<and> unat v = be_val d"
      by (intro exI [of _ "take n cbs"]) simp
  next
    assume "\<exists>d. cbs = d @ rest \<and> length d = n \<and> unat v = be_val d"
    then have "take n cbs @ rest = cbs" "unat v = be_val (take n cbs)" "drop n cbs = rest" by auto
    with v have "?f (take n cbs) = v" by (intro unat_inject) simp
    with g \<open>drop n cbs = rest\<close> show "cbs_get_u cbs n = (Some v, rest)" by simp
  qed
qed

lemma der_len_bytes_iff:
  assumes "k \<le> 4" and "0 < k" and "n < 256 ^ k" and "128 \<le> n"
  shows "der_len_bytes n = k \<longleftrightarrow> n div 256 ^ (k - 1) \<noteq> 0"
proof -
  consider "k = 1" | "k = 2" | "k = 3" | "k = 4" using assms by linarith
  then show ?thesis
    using assms by cases (auto simp: der_len_bytes_def div_eq_0_iff)
qed

lemma der_len_bytes_bound: "n < 2 ^ 32 \<Longrightarrow> n < 256 ^ der_len_bytes n"
  by (simp add: der_len_bytes_def)

lemma der_len_bytes_range: "0 < der_len_bytes n" "der_len_bytes n \<le> 4"
  by (simp_all add: der_len_bytes_def)

text \<open>The header of an element: tag and length octets.\<close>

definition der_header :: "u32 \<Rightarrow> nat \<Rightarrow> u8 list" where
  "der_header tag n = der_tag tag @ der_len n"

lemma der_tlv_header: "der_tlv tag data = der_header tag (length data) @ data"
  by (simp add: der_tlv_def der_header_def)

lemma cbs_take_element_Some:
  "cbs_take_element cbs n tag hl = (Some (out, t, h), rest) \<longleftrightarrow>
     t = tag \<and> h = hl \<and> cbs = out @ rest \<and> length out = n"
  by (auto simp: cbs_take_element_def CBS_get_bytes_def cbs_get_def)

lemma len32_checks:
  fixes l :: u32
  assumes "unat l = be_val d" and "length d = k" and "0 < k" and "k \<le> 4"
  shows "\<not> l < 128 \<and> drop_bit ((k - 1) * 8) l \<noteq> 0 \<longleftrightarrow> 128 \<le> be_val d \<and> der_len_bytes (be_val d) = k"
proof -
  have "(2::nat) ^ ((k - 1) * 8) = 256 ^ (k - 1)" by (simp add: power_mult mult.commute [of _ 8])
  then have d: "drop_bit ((k - 1) * 8) l \<noteq> 0 \<longleftrightarrow> be_val d div 256 ^ (k - 1) \<noteq> 0"
    by (simp only: drop_bit_eq_0_iff assms(1)) (simp add: div_eq_0_iff)
  have l: "\<not> l < 128 \<longleftrightarrow> 128 \<le> be_val d" by (simp add: word_less_nat_alt assms(1) not_less)
  have "be_val d < 256 ^ k" using be_val_bound [of d] assms by simp
  then show ?thesis
    unfolding d l using der_len_bytes_iff [of k "be_val d"] assms by blast
qed

text \<open>The element parser by the shape of the input: a tag and a first length octet.\<close>

lemma any_element_header:
  assumes "cbs = der_tag tag @ lb # h"
  shows "cbs_get_any_asn1_element cbs ber =
    (let hl = length (der_tag tag) + 1; k = unat lb mod 128
     in if unat lb < 128 then cbs_take_element cbs (unat lb + hl) tag hl
        else if ber \<and> tag AND CBS_ASN1_CONSTRUCTED \<noteq> 0 \<and> k = 0
        then cbs_take_element cbs hl tag hl
        else if k = 0 \<or> k > 4 then (None, cbs)
        else (case cbs_get_u h k of
                (None, _) \<Rightarrow> (None, cbs)
              | (Some l, _) \<Rightarrow>
                  (if l < 128 \<or> drop_bit ((k - 1) * 8) l = 0 then (None, cbs)
                   else if size_add (size_add (unat l) hl) k < unat l then (None, cbs)
                   else cbs_take_element cbs (size_add (unat l) (size_add hl k)) tag (hl + k))))"
proof -
  have "parse_asn1_tag cbs = (Some tag, lb # h)" using assms by (simp add: parse_asn1_tag_iff)
  moreover have "length cbs - length h = length (der_tag tag) + 1" using assms by simp
  ultimately show ?thesis
    by (auto simp: cbs_get_any_asn1_element_def u8_msb_iff Let_def split: option.splits prod.splits)
qed

lemma any_element_no_header:
  assumes "\<nexists>tag lb h. cbs = der_tag tag @ lb # h"
  shows "cbs_get_any_asn1_element cbs ber = (None, cbs)"
proof (cases "parse_asn1_tag cbs")
  case (Pair t h0)
  show ?thesis
  proof (cases t)
    case None
    with Pair show ?thesis by (simp add: cbs_get_any_asn1_element_def)
  next
    case (Some tag)
    with Pair have "cbs = der_tag tag @ h0" by (simp add: parse_asn1_tag_iff)
    with assms have "h0 = []" by (cases h0) auto
    with Pair Some show ?thesis by (simp add: cbs_get_any_asn1_element_def)
  qed
qed

lemma der_header_short: "n < 128 \<Longrightarrow> der_header tag n = der_tag tag @ [byte n]"
  by (simp add: der_header_def der_len_def)

lemma der_header_long:
  "128 \<le> n \<Longrightarrow> der_header tag n = der_tag tag @ byte (128 + der_len_bytes n) # be_bytes (der_len_bytes n) n"
  by (simp add: der_header_def der_len_def)

lemma length_der_header_long:
  "128 \<le> n \<Longrightarrow> length (der_header tag n) = length (der_tag tag) + 1 + der_len_bytes n"
  by (simp add: der_header_long)

lemma length_base128_high: "w < 128 ^ n \<Longrightarrow> length (base128_high w) \<le> n"
proof (induction n arbitrary: w)
  case 0
  then show ?case by (simp add: base128_high.simps)
next
  case (Suc n)
  then have "w div 128 < 128 ^ n" by (simp add: less_mult_imp_div_less mult.commute)
  then show ?case using Suc.IH [of "w div 128"] by (subst base128_high.simps) simp
qed

lemma length_der_tag: "length (der_tag tag) \<le> 6"
proof -
  have "tag_number tag div 128 < 128 ^ 4"
    using tag_number_less [of tag] by (simp add: less_mult_imp_div_less)
  from length_base128_high [OF this] show ?thesis
    by (simp add: der_tag_eq base128_def)
qed

text \<open>Cutting an element off is splitting the input at the element's length.\<close>

lemma element_split:
  assumes "cbs = hdr @ h" and "cbs = out @ rest" and "length out = length hdr + n"
  shows "out = hdr @ take n h" and "n \<le> length h"
proof -
  have "out = take (length hdr + n) (hdr @ h)" using assms by (metis append_eq_conv_conj)
  then show "out = hdr @ take n h" by simp
  have "length out \<le> length cbs" using assms(2) by simp
  with assms(1,3) show "n \<le> length h" by simp
qed

text \<open>What the DER element parser returns: an element of the input with its canonical
  header, and the bytes after it.\<close>

lemma CBS_get_any_asn1_element_sound:
  assumes g: "CBS_get_any_asn1_element cbs = (Some (out, tag, hl), rest)"
  shows "\<exists>data. out = der_tlv tag data \<and> hl = length (der_header tag (length data))
    \<and> cbs = out @ rest \<and> length data < 2 ^ 32"
proof -
  obtain tag' lb h where cbs: "cbs = der_tag tag' @ lb # h"
    using any_element_no_header [of cbs False] g by (force simp: CBS_get_any_asn1_element_def)
  note u = g [unfolded CBS_get_any_asn1_element_def any_element_header [OF cbs] Let_def]
  define k where "k = unat lb mod 128"
  show ?thesis
  proof (cases "unat lb < 128")
    case True
    then have o: "cbs = out @ rest" "length out = length (der_tag tag @ [lb]) + unat lb"
        "hl = length (der_tag tag) + 1" "tag' = tag"
      using u by (auto simp: cbs_take_element_Some)
    have "out = (der_tag tag @ [lb]) @ take (unat lb) h" "unat lb \<le> length h"
      using element_split [of cbs "der_tag tag @ [lb]" h out rest "unat lb"] o cbs by auto
    with o True show ?thesis
      by (intro exI [of _ "take (unat lb) h"])
        (auto simp: der_tlv_header der_header_short)
  next
    case False
    with u have k: "0 < k" "k \<le> 4" by (auto simp: k_def split: if_splits)
    from False u k obtain l h' where l: "cbs_get_u h k = (Some l, h')"
      by (cases "cbs_get_u h k") (auto simp: k_def split: option.splits)
    from False u k l have chk: "\<not> l < 128 \<and> drop_bit ((k - 1) * 8) l \<noteq> 0"
      and tk: "cbs_take_element cbs (size_add (unat l) (size_add (length (der_tag tag') + 1) k)) tag'
                 (length (der_tag tag') + 1 + k) = (Some (out, tag, hl), rest)"
      by (auto simp: k_def split: if_splits)
    obtain d where d: "h = d @ h'" "length d = k" "unat l = be_val d"
      using l k by (auto simp: cbs_get_u_Some)
    have c: "128 \<le> be_val d" "der_len_bytes (be_val d) = k"
      using len32_checks [OF d(3,2) k] chk by auto
    have lb: "lb = byte (128 + k)"
      using False unat_u8_less [of lb] k
      by (intro byte_eqI [symmetric]) (simp add: k_def mod_if [of "unat lb"] del: unat_u8_less)
    have n: "be_val d < 2 ^ 32" using unsigned_less [of l, where ?'a = nat] d(3) by simp
    have sz: "size_add (unat l) (size_add (length (der_tag tag') + 1) k)
        = length (der_tag tag' @ lb # d) + be_val d"
      using n k length_der_tag [of tag'] d by (simp add: size_add_def SIZE_MAX_def)
    then have o: "cbs = out @ rest" "length out = length (der_tag tag @ lb # d) + be_val d"
        "hl = length (der_tag tag) + 1 + k" "tag' = tag"
      using tk by (auto simp: cbs_take_element_Some)
    have "out = (der_tag tag @ lb # d) @ take (be_val d) h'" "be_val d \<le> length h'"
      using element_split [of cbs "der_tag tag @ lb # d" h' out rest "be_val d"] o cbs d by auto
    moreover have "der_header tag (be_val d) = der_tag tag @ lb # d"
      using c lb be_bytes_be_val [of d] d by (simp add: der_header_long)
    ultimately show ?thesis
      using o c n d by (intro exI [of _ "take (be_val d) h'"]) (auto simp: der_tlv_header)
  qed
qed

lemma CBS_get_any_asn1_element_complete:
  assumes n: "length data < 2 ^ 32"
  shows "CBS_get_any_asn1_element (der_tlv tag data @ rest)
    = (Some (der_tlv tag data, tag, length (der_header tag (length data))), rest)"
proof (cases "length data < 128")
  case True
  have e: "der_tlv tag data @ rest = der_tag tag @ byte (length data) # data @ rest"
    using True by (simp add: der_tlv_header der_header_short)
  show ?thesis
    unfolding CBS_get_any_asn1_element_def any_element_header [OF e] Let_def
    using True by (simp add: cbs_take_element_Some) (simp add: der_tlv_header der_header_short)
next
  case False
  let ?n = "length data" and ?k = "der_len_bytes (length data)"
  have e: "der_tlv tag data @ rest = der_tag tag @ byte (128 + ?k) # be_bytes ?k ?n @ data @ rest"
    using False by (simp add: der_tlv_header der_header_long)
  have k: "0 < ?k" "?k \<le> 4" by (rule der_len_bytes_range)+
  have bv: "be_val (be_bytes ?k ?n) = ?n"
    using der_len_bytes_bound [OF n] by (simp add: be_val_be_bytes)
  define l :: u32 where "l = word_of_nat ?n"
  have l: "unat l = ?n" using n by (simp add: l_def unat_of_nat)
  have g: "cbs_get_u (be_bytes ?k ?n @ data @ rest) ?k = (Some l, data @ rest)"
    using k by (auto simp: cbs_get_u_Some l bv intro!: exI [of _ "be_bytes ?k ?n"])
  have chk: "\<not> l < 128 \<and> drop_bit ((?k - 1) * 8) l \<noteq> 0"
    using len32_checks [of l "be_bytes ?k ?n" ?k] k l bv False by auto
  have sz: "size_add (length data) (size_add (length (der_tag tag) + 1) ?k) = ?n + (length (der_tag tag) + 1 + ?k)"
    "\<not> size_add (size_add (length data) (length (der_tag tag) + 1)) ?k < ?n"
    using n k length_der_tag [of tag] by (simp_all add: size_add_def SIZE_MAX_def)
  show ?thesis
    unfolding CBS_get_any_asn1_element_def any_element_header [OF e] Let_def
    using k g chk sz l
    by (simp add: cbs_take_element_Some) (use False in \<open>simp add: der_tlv_header der_header_long\<close>)
qed

lemma CBS_get_any_asn1_element_iff:
  "CBS_get_any_asn1_element cbs = (Some (out, tag, hl), rest) \<longleftrightarrow>
     (\<exists>data. out = der_tlv tag data \<and> hl = length (der_header tag (length data))
        \<and> cbs = out @ rest \<and> length data < 2 ^ 32)"
  using CBS_get_any_asn1_element_sound CBS_get_any_asn1_element_complete by auto

lemma CBS_skip_header [simp]:
  "CBS_skip (der_tlv tag data) (length (der_header tag (length data))) = (Some (), data)"
  by (simp add: CBS_skip_def cbs_get_def der_tlv_header)

lemma der_tlv_inject:
  assumes "der_tlv tag data = der_tlv tag' data'" and "length data < 2 ^ 32" and "length data' < 2 ^ 32"
  shows "tag = tag' \<and> data = data'"
proof -
  note c = CBS_get_any_asn1_element_complete
  have "(Some (der_tlv tag data, tag, length (der_header tag (length data))), [])
      = (Some (der_tlv tag' data', tag', length (der_header tag' (length data'))), [] :: u8 list)"
    unfolding c [OF assms(2), symmetric] c [OF assms(3), symmetric] by (simp only: assms(1))
  then have "tag = tag' \<and> length (der_header tag (length data)) = length (der_header tag' (length data'))"
    by blast
  then show ?thesis using assms(1) by (auto simp: der_tlv_header)
qed

lemma CBS_get_asn1_iff:
  "CBS_get_asn1 cbs tag = (Some data, rest) \<longleftrightarrow> cbs = der_tlv tag data @ rest \<and> length data < 2 ^ 32"
proof
  assume "CBS_get_asn1 cbs tag = (Some data, rest)"
  then obtain out hl where e: "CBS_get_any_asn1_element cbs = (Some (out, tag, hl), rest)"
      "CBS_skip out hl = (Some (), data)"
    by (auto simp: CBS_get_asn1_def cbs_get_asn1_def split: option.splits prod.splits if_splits)
  then show "cbs = der_tlv tag data @ rest \<and> length data < 2 ^ 32"
    by (auto simp: CBS_get_any_asn1_element_iff)
next
  assume "cbs = der_tlv tag data @ rest \<and> length data < 2 ^ 32"
  then show "CBS_get_asn1 cbs tag = (Some data, rest)"
    by (simp add: CBS_get_asn1_def cbs_get_asn1_def CBS_get_any_asn1_element_complete)
qed

text \<open>C1: the DER parser is exact. \<open>CBS_get_any_asn1_element\<close> succeeds with an element, its
  tag and its header length precisely when the input starts with the canonical encoding of
  that tag and some content (low tag number form below 31, base 128 without leading zeros
  above; shortest length octets), and \<open>CBS_get_asn1\<close> hands out precisely the content of an
  element of the tag asked for. No second encoding of the same element is accepted.\<close>

theorem CBS_get_asn1_canonical:
  "(CBS_get_any_asn1_element cbs = (Some (out, tag, hl), rest) \<longleftrightarrow>
      (\<exists>data. out = der_tlv tag data \<and> hl = length (der_header tag (length data))
         \<and> cbs = out @ rest \<and> length data < 2 ^ 32))
   \<and> (CBS_get_asn1 cbs tag = (Some data, rest) \<longleftrightarrow>
        cbs = der_tlv tag data @ rest \<and> length data < 2 ^ 32)"
  by (simp only: CBS_get_any_asn1_element_iff CBS_get_asn1_iff)

section \<open>Integers and booleans\<close>

lemma asn1_uint64_loop_value:
  "asn1_uint64_loop bs out = Some v \<longleftrightarrow>
     unat v = unat out * 256 ^ length bs + be_val bs"
proof (induction bs arbitrary: out)
  case Nil
  then show ?case by (auto simp: word_unat_eq_iff)
next
  case (Cons b bs)
  have v: "unat v < 2 ^ 64" using unsigned_less [of v, where ?'a = nat] by simp
  show ?case
  proof (cases "unat out < 2 ^ 56")
    case True
    have "unat (push_bit 8 out OR ucast b) = unat out * 2 ^ 8 + unat (ucast b :: u64)"
      using True by (intro unat_push_bit_or) (simp_all add: unat_ucast_up)
    then have "unat (push_bit 8 out OR ucast b) = unat out * 256 + unat b"
      by (simp add: unat_ucast_up)
    with True Cons [of "push_bit 8 out OR ucast b"] show ?thesis
      by (simp add: drop_bit_eq_0_iff be_val_Cons algebra_simps)
  next
    case False
    have "unat v < 2 ^ 56 * 256" using v by simp
    also have "2 ^ 56 * 256 \<le> unat out * 256" using False by (intro mult_le_mono1) simp
    also have "\<dots> \<le> unat out * 256 ^ length (b # bs)" by simp
    finally have "unat v \<noteq> unat out * 256 ^ length (b # bs) + be_val (b # bs)" by simp
    with False show ?thesis by (simp add: drop_bit_eq_0_iff)
  qed
qed

lemma be_val_eq_0: "be_val bs = 0 \<Longrightarrow> bs \<noteq> [] \<Longrightarrow> hd bs = 0"
  by (cases bs) (auto simp: be_val_Cons unat_eq_0)

lemma min_be_be_val: "bs = [] \<or> hd bs \<noteq> 0 \<Longrightarrow> min_be (be_val bs) = bs"
proof (induction bs rule: rev_induct)
  case Nil
  then show ?case by (simp add: min_be.simps)
next
  case (snoc b bs)
  have h: "bs = [] \<or> hd bs \<noteq> 0" using snoc.prems by (cases bs) auto
  have nz: "be_val (bs @ [b]) \<noteq> 0"
    using snoc.prems be_val_eq_0 [of "bs @ [b]"] by (auto simp del: be_val_snoc)
  have "(be_val bs * 256 + unat b) div 256 = be_val bs"
    using unat_u8_less [of b] by (simp del: unat_u8_less)
  moreover have "byte (be_val bs * 256 + unat b) = b" by (rule byte_eqI) simp
  ultimately show ?case using nz snoc.IH [OF h] by (subst min_be.simps) simp
qed

lemma be_val_min_be: "be_val (min_be v) = v"
proof (induction v rule: min_be.induct)
  case (1 v)
  then show ?case by (subst min_be.simps) simp
qed

lemma min_be_Nil_iff [simp]: "min_be v = [] \<longleftrightarrow> v = 0"
  by (subst min_be.simps) simp

lemma hd_min_be: "v \<noteq> 0 \<Longrightarrow> hd (min_be v) \<noteq> 0"
proof (induction v rule: min_be.induct)
  case (1 v)
  show ?case
  proof (cases "v div 256 = 0")
    case True
    then have "unat (byte v) \<noteq> 0" using "1.prems" by simp
    then have "byte v \<noteq> 0" by (auto simp del: unat_byte)
    then show ?thesis using True "1.prems" by (subst min_be.simps) (auto simp: min_be.simps)
  next
    case False
    then show ?thesis using 1 by (subst min_be.simps) simp
  qed
qed

text \<open>The content octets the INTEGER parser accepts: not empty, not negative and without a
  superfluous leading zero. They are exactly \<open>der_uint\<close> of their value.\<close>

lemma der_uint_iff:
  "data = der_uint v \<longleftrightarrow>
     data \<noteq> [] \<and> unat (data ! 0) < 128
     \<and> \<not> (data ! 0 = 0 \<and> length data > 1 \<and> unat (data ! 1) < 128) \<and> be_val data = v"
proof
  assume d: "data = der_uint v"
  show "data \<noteq> [] \<and> unat (data ! 0) < 128
     \<and> \<not> (data ! 0 = 0 \<and> length data > 1 \<and> unat (data ! 1) < 128) \<and> be_val data = v"
  proof (cases "v = 0")
    case True
    with d show ?thesis by (simp add: der_uint_def be_val_Cons)
  next
    case False
    obtain m ms where m: "min_be v = m # ms" "m \<noteq> 0" using False hd_min_be [of v]
      by (cases "min_be v") auto
    with False d be_val_min_be [of v] show ?thesis by (auto simp: der_uint_def be_val_Cons)
  qed
next
  assume a: "data \<noteq> [] \<and> unat (data ! 0) < 128
     \<and> \<not> (data ! 0 = 0 \<and> length data > 1 \<and> unat (data ! 1) < 128) \<and> be_val data = v"
  then obtain b bs where d: "data = b # bs" by (cases data) auto
  show "data = der_uint v"
  proof (cases "b = 0")
    case False
    have "min_be v = data" using a d False min_be_be_val [of data] by auto
    moreover have "v \<noteq> 0" using \<open>min_be v = data\<close> a by auto
    ultimately show ?thesis using a d by (auto simp: der_uint_def)
  next
    case True
    show ?thesis
    proof (cases bs)
      case Nil
      with a d True show ?thesis by (auto simp: der_uint_def be_val_def)
    next
      case (Cons c cs)
      with a d True have c: "128 \<le> unat c" by auto
      then have "c \<noteq> 0" by auto
      have "be_val bs = v" using a d True by (simp add: be_val_Cons)
      with \<open>c \<noteq> 0\<close> Cons have "min_be v = bs" using min_be_be_val [of bs] by auto
      moreover have "v \<noteq> 0" using \<open>min_be v = bs\<close> Cons by (metis list.distinct(1) min_be_Nil_iff)
      ultimately show ?thesis using d True c Cons by (simp add: der_uint_def)
    qed
  qed
qed

lemma length_min_be: "v < 256 ^ n \<Longrightarrow> length (min_be v) \<le> n"
proof (induction n arbitrary: v)
  case 0
  then show ?case by simp
next
  case (Suc n)
  then have "v div 256 < 256 ^ n" by (simp add: less_mult_imp_div_less mult.commute)
  then show ?case using Suc.IH [of "v div 256"] by (subst min_be.simps) simp
qed

lemma length_der_uint: "v < 2 ^ 64 \<Longrightarrow> length (der_uint v) \<le> 9"
  using length_min_be [of v 8] by (simp add: der_uint_def)

text \<open>C9: \<open>CBS_get_asn1_uint64\<close> reads \<open>v\<close> exactly from the canonical DER encoding of
  \<open>v\<close>: tag INTEGER, shortest length, shortest non-negative two's complement content.
  Nothing else is accepted, and the bytes after the element are left in the \<open>CBS\<close>.\<close>

theorem CBS_get_asn1_uint64_canonical:
  "CBS_get_asn1_uint64 cbs = (Some v, rest) \<longleftrightarrow>
     cbs = der_tlv CBS_ASN1_INTEGER (der_uint (unat v)) @ rest"
proof -
  have v: "unat v < 2 ^ 64" using unsigned_less [of v, where ?'a = nat] by simp
  have "CBS_get_asn1_uint64 cbs = (Some v, rest) \<longleftrightarrow>
      (\<exists>data. CBS_get_asn1 cbs CBS_ASN1_INTEGER = (Some data, rest) \<and> data = der_uint (unat v))"
    by (auto simp: CBS_get_asn1_uint64_def der_uint_iff u8_msb_iff asn1_uint64_loop_value
        split: option.splits prod.splits if_splits)
  also have "\<dots> \<longleftrightarrow> cbs = der_tlv CBS_ASN1_INTEGER (der_uint (unat v)) @ rest"
    using length_der_uint [OF v] by (auto simp: CBS_get_asn1_iff)
  finally show ?thesis .
qed

lemma CBS_get_asn1_bool_iff:
  "CBS_get_asn1_bool cbs = (Some p, rest) \<longleftrightarrow>
     cbs = der_tlv CBS_ASN1_BOOLEAN [if p then 0xff else 0] @ rest"
proof -
  have "CBS_get_asn1_bool cbs = (Some p, rest) \<longleftrightarrow>
      CBS_get_asn1 cbs CBS_ASN1_BOOLEAN = (Some [if p then 0xff else 0], rest)"
    by (cases p)
      (auto simp: CBS_get_asn1_bool_def Let_def length_Suc_conv
        split: option.splits prod.splits if_splits)
  then show ?thesis by (simp add: CBS_get_asn1_iff)
qed

section \<open>Reads use what they consume\<close>

text \<open>A successful read consumes a prefix of its input, what it returns (its \<open>view\<close>) is a
  contiguous part of that prefix, and the same prefix is consumed with the same result
  whatever bytes follow it: nothing behind it had a say. A failing read leaves a suffix.\<close>

definition reads_only :: "(CBS \<Rightarrow> 'a option \<times> CBS) \<Rightarrow> ('a \<Rightarrow> CBS) \<Rightarrow> bool" where
  "reads_only f view \<longleftrightarrow>
     (\<forall>cbs. case f cbs of
              (None, rest) \<Rightarrow> \<exists>p. cbs = p @ rest
            | (Some x, rest) \<Rightarrow> \<exists>p. cbs = p @ rest \<and> (\<exists>a b. p = a @ view x @ b)
                \<and> (\<forall>ys. f (p @ ys) = (Some x, ys)))"

lemma reads_onlyI:
  assumes "\<And>cbs rest. f cbs = (None, rest) \<Longrightarrow> \<exists>p. cbs = p @ rest"
    and "\<And>cbs x rest. f cbs = (Some x, rest) \<Longrightarrow>
      \<exists>p. cbs = p @ rest \<and> (\<exists>a b. p = a @ view x @ b) \<and> (\<forall>ys. f (p @ ys) = (Some x, ys))"
  shows "reads_only f view"
  using assms by (auto simp: reads_only_def split: prod.split option.split)

lemma reads_only_Some:
  "reads_only f view \<Longrightarrow> f cbs = (Some x, rest) \<Longrightarrow>
     \<exists>p. cbs = p @ rest \<and> (\<exists>a b. p = a @ view x @ b) \<and> (\<forall>ys. f (p @ ys) = (Some x, ys))"
  unfolding reads_only_def by (drule spec [of _ cbs]) simp

lemma reads_only_rest:
  assumes "reads_only f view" and "f cbs = (r, rest)"
  shows "\<exists>p. cbs = p @ rest"
  using assms unfolding reads_only_def by (cases r) (auto dest!: spec [of _ cbs])

lemma CBS_get_bytes_eq: "CBS_get_bytes cbs n = cbs_get cbs n"
  by (auto simp: CBS_get_bytes_def split: option.splits prod.splits)

lemma reads_only_get: "reads_only (\<lambda>cbs. cbs_get cbs n) (\<lambda>x. x)"
proof (rule reads_onlyI)
  fix cbs x rest assume "cbs_get cbs n = (Some x, rest)"
  then have "cbs = x @ rest" "length x = n" by (auto simp: cbs_get_def split: if_splits)
  then show "\<exists>p. cbs = p @ rest \<and> (\<exists>a b. p = a @ x @ b) \<and> (\<forall>ys. cbs_get (p @ ys) n = (Some x, ys))"
    by (intro exI [of _ x] conjI exI [of _ "[]"]) (auto simp: cbs_get_def)
qed (auto simp: cbs_get_def split: if_splits)

text \<open>Two reads in sequence: the second on what the first left.\<close>

lemma reads_only_then:
  assumes f: "reads_only f v" and g: "\<And>x. reads_only (g x) w"
    and k: "\<And>cbs. k cbs = (case f cbs of (None, c) \<Rightarrow> (None, c) | (Some x, c) \<Rightarrow> g x c)"
  shows "reads_only k w"
proof (rule reads_onlyI)
  fix cbs rest
  assume "k cbs = (None, rest)"
  then consider "f cbs = (None, rest)" | x c where "f cbs = (Some x, c)" "g x c = (None, rest)"
    unfolding k by (auto split: prod.splits option.splits)
  then show "\<exists>p. cbs = p @ rest"
  proof cases
    case 1
    with f show ?thesis by (rule reads_only_rest)
  next
    case 2
    with reads_only_rest [OF f 2(1)] reads_only_rest [OF g 2(2)]
    obtain p q where "cbs = p @ c" "c = q @ rest" by blast
    then have "cbs = (p @ q) @ rest" by simp
    then show ?thesis by blast
  qed
next
  fix cbs y rest
  assume "k cbs = (Some y, rest)"
  then obtain x c where x: "f cbs = (Some x, c)" "g x c = (Some y, rest)"
    unfolding k by (auto split: prod.splits option.splits)
  obtain p where p: "cbs = p @ c" "\<forall>ys. f (p @ ys) = (Some x, ys)" using reads_only_Some [OF f x(1)] by blast
  obtain q a b where q: "c = q @ rest" "q = a @ w y @ b" "\<forall>ys. g x (q @ ys) = (Some y, ys)"
    using reads_only_Some [OF g x(2)] by blast
  have "cbs = (p @ q) @ rest" "p @ q = (p @ a) @ w y @ b" "\<forall>ys. k ((p @ q) @ ys) = (Some y, ys)"
    using p q by (simp_all add: k)
  then show "\<exists>p. cbs = p @ rest \<and> (\<exists>a b. p = a @ w y @ b) \<and> (\<forall>ys. k (p @ ys) = (Some y, ys))" by blast
qed

text \<open>A read followed by a step \<open>h\<close> on its result, which may narrow it or fail.\<close>

lemma reads_only_narrow:
  assumes f: "reads_only f v" and h: "\<And>x y. h x = Some y \<Longrightarrow> \<exists>a b. v x = a @ w y @ b"
    and k: "\<And>cbs. k cbs = (case f cbs of (None, c) \<Rightarrow> (None, c) | (Some x, c) \<Rightarrow> (h x, c))"
  shows "reads_only k w"
proof (rule reads_onlyI)
  fix cbs rest assume "k cbs = (None, rest)"
  then obtain r where "f cbs = (r, rest)"
    unfolding k by (cases "f cbs") (auto split: option.splits)
  with f show "\<exists>p. cbs = p @ rest" by (rule reads_only_rest)
next
  fix cbs y rest assume "k cbs = (Some y, rest)"
  then obtain x where x: "f cbs = (Some x, rest)" "h x = Some y"
    unfolding k by (cases "f cbs") (auto split: option.splits)
  obtain p a b where p: "cbs = p @ rest" "p = a @ v x @ b" "\<forall>ys. f (p @ ys) = (Some x, ys)"
    using reads_only_Some [OF f x(1)] by blast
  obtain c d where "v x = c @ w y @ d" using h [OF x(2)] by blast
  then have "p = (a @ c) @ w y @ (d @ b)" "\<forall>ys. k (p @ ys) = (Some y, ys)"
    using p(2,3) x(2) by (simp_all add: k)
  with p(1) show "\<exists>p. cbs = p @ rest \<and> (\<exists>a b. p = a @ w y @ b) \<and> (\<forall>ys. k (p @ ys) = (Some y, ys))" by blast
qed

text \<open>A result that hands out no bytes.\<close>

lemma reads_only_value:
  assumes "reads_only f v"
    and "\<And>cbs. k cbs = (case f cbs of (None, c) \<Rightarrow> (None, c) | (Some x, c) \<Rightarrow> (h x, c))"
  shows "reads_only k (\<lambda>_. [])"
  by (rule reads_only_narrow [OF assms(1) _ assms(2)]) (metis append_Nil append_Nil2)

lemma reads_only_get_bytes: "reads_only (\<lambda>cbs. CBS_get_bytes cbs n) (\<lambda>x. x)"
  unfolding CBS_get_bytes_eq by (rule reads_only_get)

lemma reads_only_get_u: "reads_only (\<lambda>cbs. cbs_get_u cbs n) (\<lambda>_. [])"
  by (rule reads_only_value [OF reads_only_get, where h = "\<lambda>d. Some (foldl (\<lambda>r b. push_bit 8 r OR ucast b) 0 d)"])
    (simp add: cbs_get_u_def)

lemma reads_only_length_prefixed: "reads_only (\<lambda>cbs. cbs_get_length_prefixed cbs n) (\<lambda>x. x)"
  by (rule reads_only_then [OF reads_only_get_u reads_only_get_bytes]) (simp add: cbs_get_length_prefixed_def)

text \<open>The length octets of an element never let it reach past what is there, and what follows
  it does not change it.\<close>

lemma cbs_take_element_local:
  assumes "cbs_take_element (pre @ h) n tag hl = (r, rest)" and "length pre \<le> n"
  shows "(r = None \<and> rest = pre @ h) \<or>
    (\<exists>h'. r = Some (pre @ h', tag, hl) \<and> h = h' @ rest \<and> n = length pre + length h'
       \<and> (\<forall>ys. cbs_take_element (pre @ h' @ ys) n tag hl = (Some (pre @ h', tag, hl), ys)))"
proof (cases "length (pre @ h) < n")
  case True
  with assms(1) show ?thesis by (auto simp: cbs_take_element_def CBS_get_bytes_def cbs_get_def)
next
  case False
  let ?h = "take (n - length pre) h"
  have "r = Some (pre @ ?h, tag, hl)" "rest = drop (n - length pre) h" "n = length pre + length ?h"
    using assms False by (auto simp: cbs_take_element_def CBS_get_bytes_def cbs_get_def)
  moreover have "cbs_take_element (pre @ ?h @ ys) n tag hl = (Some (pre @ ?h, tag, hl), ys)" for ys
    using calculation(3) by (auto simp: cbs_take_element_def CBS_get_bytes_def cbs_get_def)
  ultimately show ?thesis by (intro disjI2 exI [of _ ?h]) simp
qed

lemma any_element_local:
  assumes run: "cbs_get_any_asn1_element cbs ber = (r, rest)"
  shows "(r = None \<and> rest = cbs) \<or> (\<exists>out tag hl. r = Some (out, tag, hl) \<and> cbs = out @ rest
    \<and> (\<exists>c. out = der_tag tag @ c) \<and> (\<forall>ys. cbs_get_any_asn1_element (out @ ys) ber = (r, ys)))"
proof (cases "\<exists>tag lb h. cbs = der_tag tag @ lb # h")
  case True
  then obtain tag lb h where cbs: "cbs = (der_tag tag @ [lb]) @ h" by auto
  let ?hd = "der_tag tag @ [lb]"
  note u = any_element_header [OF refl, of tag lb]
  have local: ?thesis
    if eq: "\<And>x. k \<le> length x \<Longrightarrow> take k x = take k h \<Longrightarrow> cbs_get_any_asn1_element (?hd @ x) ber = cbs_take_element (?hd @ x) n tag hl"
      and n: "length ?hd + k \<le> n" and k: "k \<le> length h" for n hl k
  proof -
    have "cbs_take_element (?hd @ h) n tag hl = (r, rest)" using run eq [OF k refl] unfolding cbs by simp
    from cbs_take_element_local [OF this] n consider "r = None" "rest = ?hd @ h"
      | h' where "r = Some (?hd @ h', tag, hl)" "h = h' @ rest" "n = length ?hd + length h'"
          "\<And>ys. cbs_take_element (?hd @ h' @ ys) n tag hl = (Some (?hd @ h', tag, hl), ys)" by auto
    then show ?thesis
    proof cases
      case 2
      then have "k \<le> length h'" using n by simp
      then have "cbs_get_any_asn1_element (?hd @ h' @ ys) ber = (r, ys)" for ys
        using eq [of "h' @ ys"] 2(1,2) 2(4) [of ys] by simp
      with 2 cbs show ?thesis by auto
    qed (simp add: cbs)
  qed
  have none: ?thesis if "cbs_get_any_asn1_element (?hd @ h) ber = (None, ?hd @ h)" using run that unfolding cbs by simp
  let ?k = "unat lb mod 128" and ?hl = "length (der_tag tag) + 1"
  consider "unat lb < 128" | "128 \<le> unat lb" "ber \<and> tag AND CBS_ASN1_CONSTRUCTED \<noteq> 0 \<and> ?k = 0"
    | "128 \<le> unat lb" "\<not> (ber \<and> tag AND CBS_ASN1_CONSTRUCTED \<noteq> 0 \<and> ?k = 0)" "?k = 0 \<or> ?k > 4 \<or> length h < ?k"
    | "128 \<le> unat lb" "?k \<noteq> 0" "?k \<le> 4" "?k \<le> length h" by linarith
  then show ?thesis
  proof cases
    case 1
    show ?thesis by (rule local [of 0 "unat lb + ?hl" ?hl]) (use 1 in \<open>simp_all add: u Let_def\<close>)
  next
    case 2
    show ?thesis by (rule local [of 0 ?hl ?hl]) (use 2 in \<open>simp_all add: u Let_def\<close>)
  next
    case 3
    show ?thesis by (rule none) (use 3 in \<open>auto simp: u Let_def cbs_get_u_def cbs_get_def\<close>)
  next
    case 4
    define l :: u32 where "l = foldl (\<lambda>r b. push_bit 8 r OR ucast b) 0 (take ?k h)"
    have g: "cbs_get_u x ?k = (Some l, drop ?k x)" if "?k \<le> length x" "take ?k x = take ?k h" for x
      using that by (simp add: cbs_get_u_def cbs_get_def l_def)
    have fit: "size_add (unat l) (size_add ?hl ?k) = unat l + ?hl + ?k"
    proof -
      have "unat l < 2 ^ 32" using unsigned_less [of l, where ?'a = nat] by simp
      with 4(3) length_der_tag [of tag] show ?thesis by (simp add: size_add_exact SIZE_MAX_def)
    qed
    note e = 4 g fit
    show ?thesis
    proof (cases "(l < 128 \<or> drop_bit ((?k - 1) * 8) l = 0) \<or> size_add (size_add (unat l) ?hl) ?k < unat l")
      case True
      show ?thesis by (rule none) (use True e in \<open>auto simp: u Let_def\<close>)
    next
      case False
      show ?thesis
        by (rule local [of ?k "unat l + ?hl + ?k" "?hl + ?k"]) (use False e in \<open>auto simp: u Let_def\<close>)
    qed
  qed
next
  case False
  with assms show ?thesis using any_element_no_header [of cbs ber] by auto
qed

lemma any_element_read:
  assumes "cbs_get_any_asn1_element cbs ber = (r, rest)"
  shows "(r = None \<and> rest = cbs) \<or> (\<exists>out tag hl. r = Some (out, tag, hl) \<and> cbs = out @ rest)"
  using any_element_local [OF assms] by blast

lemma reads_only_any_element:
  "reads_only (\<lambda>cbs. cbs_get_any_asn1_element cbs ber) (\<lambda>(out, tag, hl). out)"
proof (rule reads_onlyI)
  fix cbs rest assume "cbs_get_any_asn1_element cbs ber = (None, rest)"
  from any_element_local [OF this] show "\<exists>p. cbs = p @ rest" by auto
next
  fix cbs x rest assume "cbs_get_any_asn1_element cbs ber = (Some x, rest)"
  from any_element_local [OF this] obtain out tag hl where "x = (out, tag, hl)" "cbs = out @ rest"
    "\<forall>ys. cbs_get_any_asn1_element (out @ ys) ber = (Some x, ys)" by auto
  then show "\<exists>p. cbs = p @ rest \<and> (\<exists>a b. p = a @ (case x of (out, tag, hl) \<Rightarrow> out) @ b)
      \<and> (\<forall>ys. cbs_get_any_asn1_element (p @ ys) ber = (Some x, ys))"
    by (intro exI [of _ out] conjI exI [of _ "[]"]) auto
qed

lemma reads_only_element_map:
  assumes "\<And>out tag hl y. h (out, tag, hl) = Some y \<Longrightarrow> \<exists>a b. out = a @ w y @ b"
    and "\<And>cbs. k cbs = (case cbs_get_any_asn1_element cbs ber of
            (None, c) \<Rightarrow> (None, c) | (Some x, c) \<Rightarrow> (h x, c))"
  shows "reads_only k w"
  by (rule reads_only_narrow [OF reads_only_any_element _ assms(2)]) (auto dest: assms(1))

lemma CBS_skip_Some: "CBS_skip cbs n = (Some (), c) \<Longrightarrow> \<exists>a. cbs = a @ c"
  by (auto simp: CBS_skip_def cbs_get_def split: if_splits intro: append_take_drop_id [symmetric])

lemma reads_only_get_asn1: "reads_only (\<lambda>cbs. cbs_get_asn1 cbs tag skip) (\<lambda>x. x)"
proof (rule reads_only_element_map)
  let ?h = "\<lambda>(out, t, hl). if t \<noteq> tag then None
      else if skip then (case CBS_skip out hl of (None, _) \<Rightarrow> None | (Some _, o') \<Rightarrow> Some o')
      else Some out"
  show "cbs_get_asn1 cbs tag skip = (case cbs_get_any_asn1_element cbs False of
            (None, c) \<Rightarrow> (None, c) | (Some x, c) \<Rightarrow> (?h x, c))" for cbs
    by (auto simp: cbs_get_asn1_def CBS_get_any_asn1_element_def split: option.splits prod.splits)
  show "\<exists>a b. out = a @ y @ b" if h: "?h (out, t, hl) = Some y" for out t hl y
  proof (cases skip)
    case True
    with h have "CBS_skip out hl = (Some (), y)" by (auto split: if_splits option.splits prod.splits)
    then obtain a where "out = a @ y @ []" by (auto dest: CBS_skip_Some)
    then show ?thesis by blast
  next
    case False
    with h have "out = [] @ y @ []" by (auto split: if_splits)
    then show ?thesis by blast
  qed
qed

lemma reads_only_any_asn1: "reads_only CBS_get_any_asn1 fst"
proof (rule reads_only_element_map)
  let ?h = "\<lambda>(out, t, hl). case CBS_skip out hl of (None, _) \<Rightarrow> None | (Some _, o') \<Rightarrow> Some (o', t)"
  show "CBS_get_any_asn1 cbs = (case cbs_get_any_asn1_element cbs False of
            (None, c) \<Rightarrow> (None, c) | (Some x, c) \<Rightarrow> (?h x, c))" for cbs
    by (auto simp: CBS_get_any_asn1_def CBS_get_any_asn1_element_def split: option.splits prod.splits)
  show "\<exists>a b. out = a @ fst y @ b" if "?h (out, t, hl) = Some y" for out t hl y
  proof -
    from that obtain o' where "CBS_skip out hl = (Some (), o')" "y = (o', t)"
      by (auto split: option.splits prod.splits)
    then obtain a where "out = a @ fst y @ []" by (auto dest: CBS_skip_Some)
    then show ?thesis by blast
  qed
qed

lemma reads_only_asn1: "reads_only (\<lambda>cbs. CBS_get_asn1 cbs tag) (\<lambda>x. x)"
  unfolding CBS_get_asn1_def by (rule reads_only_get_asn1)

text \<open>An element is there when the peek at its tag says so.\<close>

lemma CBS_get_asn1_peek: "CBS_get_asn1 cbs tag = (Some x, rest) \<Longrightarrow> CBS_peek_asn1_tag cbs tag"
proof -
  assume "CBS_get_asn1 cbs tag = (Some x, rest)"
  then obtain out hl where "cbs_get_any_asn1_element cbs False = (Some (out, tag, hl), rest)"
    by (auto simp: CBS_get_asn1_def cbs_get_asn1_def CBS_get_any_asn1_element_def split: if_splits option.splits prod.splits)
  from any_element_local [OF this] obtain c where "cbs = der_tag tag @ c" by auto
  then show ?thesis using parse_asn1_tag_iff [of cbs tag c]
    by (auto simp: CBS_peek_asn1_tag_def der_tag_eq split: option.splits prod.splits)
qed

text \<open>A reader of an optional element, where the element is there.\<close>

definition when_present :: "(CBS \<Rightarrow> u32 \<Rightarrow> 'a option \<times> CBS) \<Rightarrow> u32 \<Rightarrow> CBS \<Rightarrow> 'a option \<times> CBS" where
  "when_present f tag cbs = (if CBS_peek_asn1_tag cbs tag then f cbs tag else (None, cbs))"

lemma reads_only_present:
  assumes "\<And>x y. h x = Some y \<Longrightarrow> \<exists>a b. x = a @ w y @ b"
    and k: "\<And>cbs. CBS_peek_asn1_tag cbs tag \<Longrightarrow>
       f cbs tag = (case CBS_get_asn1 cbs tag of (None, c) \<Rightarrow> (None, c) | (Some x, c) \<Rightarrow> (h x, c))"
  shows "reads_only (when_present f tag) w"
proof (rule reads_onlyI)
  let ?k = "\<lambda>cbs. case CBS_get_asn1 cbs tag of (None, c) \<Rightarrow> (None, c) | (Some x, c) \<Rightarrow> (h x, c)"
  have r: "reads_only ?k w" by (rule reads_only_narrow [OF reads_only_asn1 assms(1) refl])
  show "\<exists>p. cbs = p @ rest" if "when_present f tag cbs = (None, rest)" for cbs rest
    using that reads_only_rest [OF r, of cbs None rest] k [of cbs] by (auto simp: when_present_def split: if_splits)
  fix cbs x rest assume a: "when_present f tag cbs = (Some x, rest)"
  then have "?k cbs = (Some x, rest)" using k [of cbs] by (auto simp: when_present_def split: if_splits)
  from reads_only_Some [OF r this] obtain p a b where
    p: "cbs = p @ rest" "p = a @ w x @ b" "\<forall>ys. ?k (p @ ys) = (Some x, ys)" by blast
  have "when_present f tag (p @ ys) = (Some x, ys)" for ys
  proof -
    have q: "?k (p @ ys) = (Some x, ys)" using p(3) by blast
    then obtain y where "CBS_get_asn1 (p @ ys) tag = (Some y, ys)"
      by (cases "CBS_get_asn1 (p @ ys) tag") (auto split: option.splits)
    from CBS_get_asn1_peek [OF this] show ?thesis using q k [of "p @ ys"] by (simp add: when_present_def)
  qed
  with p(1,2) show "\<exists>p. cbs = p @ rest \<and> (\<exists>a b. p = a @ w x @ b) \<and> (\<forall>ys. when_present f tag (p @ ys) = (Some x, ys))"
    by blast
qed

lemma reads_only_optionals:
  shows "reads_only (when_present CBS_get_optional_asn1 tag) (\<lambda>x. case x of None \<Rightarrow> [] | Some out \<Rightarrow> out)"
    and "reads_only (when_present CBS_get_optional_asn1_octet_string tag) snd"
    and "reads_only (when_present (\<lambda>cbs tag. CBS_get_optional_asn1_uint64 cbs tag u) tag) (\<lambda>_. [])"
    and "reads_only (when_present (\<lambda>cbs tag. CBS_get_optional_asn1_bool cbs tag p) tag) (\<lambda>_. [])"
proof -
  have octets: "\<exists>a b. x = a @ snd y @ b"
    if "(case CBS_get_asn1 x CBS_ASN1_OCTETSTRING of (None, _) \<Rightarrow> None
        | (Some out, c) \<Rightarrow> if length c \<noteq> 0 then None else Some (True, out)) = Some y" for x and y :: "bool \<times> CBS"
  proof -
    from that obtain c where "CBS_get_asn1 x CBS_ASN1_OCTETSTRING = (Some (snd y), c)"
      by (auto split: option.splits prod.splits if_splits)
    from reads_only_Some [OF reads_only_asn1 this] obtain p a b where "x = p @ c" "p = a @ snd y @ b" by blast
    then have "x = a @ snd y @ (b @ c)" by simp
    then show ?thesis by blast
  qed
  show "reads_only (when_present CBS_get_optional_asn1 tag) (\<lambda>x. case x of None \<Rightarrow> [] | Some out \<Rightarrow> out)"
    by (rule reads_only_present [where h = "\<lambda>x. Some (Some x)"])
      (auto simp: CBS_get_optional_asn1_def intro: exI [of _ "[]"])
  show "reads_only (when_present CBS_get_optional_asn1_octet_string tag) snd"
    by (rule reads_only_present [OF octets])
      (auto simp: CBS_get_optional_asn1_octet_string_def CBS_get_optional_asn1_def split: option.splits prod.splits)
  show "reads_only (when_present (\<lambda>cbs tag. CBS_get_optional_asn1_uint64 cbs tag u) tag) (\<lambda>_. [])"
    by (rule reads_only_present [where h = "\<lambda>child. case CBS_get_asn1_uint64 child of (None, _) \<Rightarrow> None
        | (Some out, c) \<Rightarrow> if length c \<noteq> 0 then None else Some out"])
      (auto simp: CBS_get_optional_asn1_uint64_def CBS_get_optional_asn1_def split: option.splits prod.splits)
  show "reads_only (when_present (\<lambda>cbs tag. CBS_get_optional_asn1_bool cbs tag p) tag) (\<lambda>_. [])"
    by (rule reads_only_present [where h = "\<lambda>child. case CBS_get_asn1 child CBS_ASN1_BOOLEAN of (None, _) \<Rightarrow> None
        | (Some d, c) \<Rightarrow> if length d \<noteq> 1 \<or> length c \<noteq> 0 then None
            else if d ! 0 = 0 then Some False else if d ! 0 = 0xff then Some True else None"])
      (auto simp: CBS_get_optional_asn1_bool_def CBS_get_optional_asn1_def Let_def split: option.splits prod.splits)
qed

text \<open>C10: a read depends on nothing behind what it consumes. Each reading operation that succeeds
  has consumed a prefix of its input, hands out a contiguous part of it, and would have done
  the same whatever followed, so neither the length octets of an element nor a length prefix
  makes it reach past the bytes that are there; a failing read leaves a suffix of its input. The
  optional readers do so where the element is there and consume nothing where it is not;
  \<open>CBS_get_last_u8\<close> takes the last byte.\<close>

theorem CBS_reads_in_bounds:
  "reads_only (\<lambda>cbs. CBS_skip cbs n) (\<lambda>_. []) \<and> reads_only (\<lambda>cbs. CBS_get_bytes cbs n) (\<lambda>x. x)
   \<and> reads_only (\<lambda>cbs. CBS_copy_bytes cbs n) (\<lambda>x. x)
   \<and> reads_only CBS_get_u8 (\<lambda>_. []) \<and> reads_only CBS_get_u16 (\<lambda>_. [])
   \<and> reads_only CBS_get_u24 (\<lambda>_. []) \<and> reads_only CBS_get_u32 (\<lambda>_. [])
   \<and> reads_only CBS_get_u8_length_prefixed (\<lambda>x. x)
   \<and> reads_only CBS_get_u16_length_prefixed (\<lambda>x. x)
   \<and> reads_only CBS_get_u24_length_prefixed (\<lambda>x. x)
   \<and> reads_only CBS_get_any_asn1_element (\<lambda>(out, tag, hl). out)
   \<and> reads_only CBS_get_any_ber_asn1_element (\<lambda>(out, tag, hl). out)
   \<and> reads_only CBS_get_any_asn1 fst
   \<and> reads_only (\<lambda>cbs. CBS_get_asn1 cbs tag) (\<lambda>x. x)
   \<and> reads_only (\<lambda>cbs. CBS_get_asn1_element cbs tag) (\<lambda>x. x)
   \<and> reads_only CBS_get_asn1_uint64 (\<lambda>_. []) \<and> reads_only CBS_get_asn1_bool (\<lambda>_. [])
   \<and> reads_only (when_present CBS_get_optional_asn1 tag) (\<lambda>x. case x of None \<Rightarrow> [] | Some out \<Rightarrow> out)
   \<and> reads_only (when_present CBS_get_optional_asn1_octet_string tag) snd
   \<and> reads_only (when_present (\<lambda>cbs tag. CBS_get_optional_asn1_uint64 cbs tag u) tag) (\<lambda>_. [])
   \<and> reads_only (when_present (\<lambda>cbs tag. CBS_get_optional_asn1_bool cbs tag p) tag) (\<lambda>_. [])
   \<and> (\<not> CBS_peek_asn1_tag cbs tag \<longrightarrow> CBS_get_optional_asn1 cbs tag = (Some None, cbs)
        \<and> CBS_get_optional_asn1_octet_string cbs tag = (Some (False, []), cbs)
        \<and> CBS_get_optional_asn1_uint64 cbs tag u = (Some u, cbs)
        \<and> CBS_get_optional_asn1_bool cbs tag p = (Some p, cbs))
   \<and> (CBS_get_last_u8 cbs = (Some b, rest) \<longleftrightarrow> cbs = rest @ [b])"
proof (intro conjI)
  show "reads_only (\<lambda>cbs. CBS_skip cbs n) (\<lambda>_. [])"
    by (rule reads_only_value [OF reads_only_get, where h = "\<lambda>_. Some ()"]) (simp add: CBS_skip_def)
  show "reads_only (\<lambda>cbs. CBS_get_bytes cbs n) (\<lambda>x. x)" by (rule reads_only_get_bytes)
  show "reads_only (\<lambda>cbs. CBS_copy_bytes cbs n) (\<lambda>x. x)"
    using reads_only_get_bytes [of n] by (simp add: CBS_copy_bytes_def CBS_get_bytes_def)
  show "reads_only CBS_get_u8 (\<lambda>_. [])"
    by (rule reads_only_value [OF reads_only_get, where h = "\<lambda>v. Some (v ! 0)"]) (simp add: CBS_get_u8_def)
  show "reads_only CBS_get_u16 (\<lambda>_. [])"
    by (rule reads_only_value [OF reads_only_get_u, where h = "\<lambda>v. Some (ucast v)"]) (simp add: CBS_get_u16_def)
  show "reads_only CBS_get_u24 (\<lambda>_. [])" "reads_only CBS_get_u32 (\<lambda>_. [])"
    using reads_only_get_u by (simp_all add: CBS_get_u24_def [abs_def] CBS_get_u32_def [abs_def])
  show "reads_only CBS_get_u8_length_prefixed (\<lambda>x. x)" "reads_only CBS_get_u16_length_prefixed (\<lambda>x. x)"
    "reads_only CBS_get_u24_length_prefixed (\<lambda>x. x)"
    using reads_only_length_prefixed
    by (simp_all add: CBS_get_u8_length_prefixed_def [abs_def] CBS_get_u16_length_prefixed_def [abs_def]
        CBS_get_u24_length_prefixed_def [abs_def])
  show "reads_only CBS_get_any_asn1_element (\<lambda>(out, tag, hl). out)"
    "reads_only CBS_get_any_ber_asn1_element (\<lambda>(out, tag, hl). out)"
    using reads_only_any_element
    by (simp_all add: CBS_get_any_asn1_element_def [abs_def] CBS_get_any_ber_asn1_element_def [abs_def])
  show "reads_only CBS_get_any_asn1 fst" by (rule reads_only_any_asn1)
  show "reads_only (\<lambda>cbs. CBS_get_asn1 cbs tag) (\<lambda>x. x)" by (rule reads_only_asn1)
  show "reads_only (\<lambda>cbs. CBS_get_asn1_element cbs tag) (\<lambda>x. x)"
    using reads_only_get_asn1 by (simp add: CBS_get_asn1_element_def)
  show "reads_only CBS_get_asn1_uint64 (\<lambda>_. [])"
    by (rule reads_only_value [OF reads_only_asn1 [of CBS_ASN1_INTEGER], where h = "\<lambda>data. if length data = 0 then None
        else if data ! 0 AND 0x80 \<noteq> 0 then None
        else if data ! 0 = 0 \<and> length data > 1 \<and> data ! 1 AND 0x80 = 0 then None else asn1_uint64_loop data 0"])
      (simp add: CBS_get_asn1_uint64_def split: option.split prod.split)
  show "reads_only CBS_get_asn1_bool (\<lambda>_. [])"
    by (rule reads_only_value [OF reads_only_asn1 [of CBS_ASN1_BOOLEAN], where h = "\<lambda>data. if length data \<noteq> 1 then None
        else if data ! 0 \<noteq> 0 \<and> data ! 0 \<noteq> 0xff then None else Some (data ! 0 \<noteq> 0)"])
      (auto simp: CBS_get_asn1_bool_def Let_def split: option.splits prod.splits)
  show "reads_only (when_present CBS_get_optional_asn1 tag) (\<lambda>x. case x of None \<Rightarrow> [] | Some out \<Rightarrow> out)"
    "reads_only (when_present CBS_get_optional_asn1_octet_string tag) snd"
    "reads_only (when_present (\<lambda>cbs tag. CBS_get_optional_asn1_uint64 cbs tag u) tag) (\<lambda>_. [])"
    "reads_only (when_present (\<lambda>cbs tag. CBS_get_optional_asn1_bool cbs tag p) tag) (\<lambda>_. [])"
    by (rule reads_only_optionals)+
  show "\<not> CBS_peek_asn1_tag cbs tag \<longrightarrow> CBS_get_optional_asn1 cbs tag = (Some None, cbs)
        \<and> CBS_get_optional_asn1_octet_string cbs tag = (Some (False, []), cbs)
        \<and> CBS_get_optional_asn1_uint64 cbs tag u = (Some u, cbs)
        \<and> CBS_get_optional_asn1_bool cbs tag p = (Some p, cbs)"
    by (simp add: CBS_get_optional_asn1_def CBS_get_optional_asn1_octet_string_def
        CBS_get_optional_asn1_uint64_def CBS_get_optional_asn1_bool_def)
  show "CBS_get_last_u8 cbs = (Some b, rest) \<longleftrightarrow> cbs = rest @ [b]"
    by (cases cbs rule: rev_cases) (auto simp: CBS_get_last_u8_def)
qed

theorem CBS_reads_in_bounds_witness:
  "CBS_get_optional_asn1 [4, 1, 7] CBS_ASN1_INTEGER = (Some None, [4, 1, 7])"
proof -
  have "\<not> CBS_peek_asn1_tag [4, 1, 7] CBS_ASN1_INTEGER" by code_simp
  with CBS_reads_in_bounds [of 0 CBS_ASN1_INTEGER 0 False "[4, 1, 7]" 0 "[]"] show ?thesis by simp
qed

end
