(* ===== verification/CBB.thy ===== *)
theory CBB
  imports DER
begin

text \<open>
  The byte-string builder of \<open>crypto/bytestring/cbb.c\<close> and \<open>asn1_compat.c\<close>.

  All \<open>CBB\<close>s of one builder share a buffer (\<open>cbb_buffer_st\<close>) and form a chain: the
  top-level one, its pending child, the child's pending child, and so on, because a \<open>CBB\<close>
  has at most one pending child. The state is the shared buffer (\<open>None\<close> once finished or
  cleaned up) and the chain; a C pointer to a live \<open>CBB\<close> is its depth in the chain, and a
  depth beyond the chain is a detached \<open>CBB\<close> whose \<open>base\<close> the code has set to NULL.
  Every operation returns the C return value and the new state.
\<close>

section \<open>State\<close>

record cbb_buffer =
  b_buf :: "u8 list"
  b_len :: nat
  b_cap :: nat
  b_can_resize :: bool
  b_error :: bool

record cbb_node =
  n_offset :: nat
  n_pending_len_len :: nat
  n_pending_is_asn1 :: bool

record CBB =
  cbb_base :: "cbb_buffer option"
  cbb_chain :: "cbb_node list"

text \<open>The short-circuit sequencing of calls: the second runs only if the first returned 1.\<close>

definition cbb_then :: "bool \<times> 's \<Rightarrow> ('s \<Rightarrow> bool \<times> 's) \<Rightarrow> bool \<times> 's" where
  "cbb_then r f = (if fst r then f (snd r) else r)"

definition CBB_zero :: CBB where
  "CBB_zero = \<lparr>cbb_base = None,
     cbb_chain = [\<lparr>n_offset = 0, n_pending_len_len = 0, n_pending_is_asn1 = False\<rparr>]\<rparr>"

definition cbb_init :: "env \<Rightarrow> CBB \<Rightarrow> u8 list \<Rightarrow> nat \<Rightarrow> bool \<times> CBB" where
  "cbb_init e s buf cp =
     (case OPENSSL_malloc e 32 of
        None \<Rightarrow> (False, s)
      | Some _ \<Rightarrow>
          (True, s\<lparr>cbb_base := Some \<lparr>b_buf = buf, b_len = 0, b_cap = cp, b_can_resize = True,
                                     b_error = False\<rparr>\<rparr>))"

definition CBB_init :: "env \<Rightarrow> nat \<Rightarrow> bool \<times> CBB" where
  "CBB_init e initial_capacity =
     (let buf = OPENSSL_malloc e initial_capacity
      in if initial_capacity > 0 \<and> buf = None then (False, CBB_zero)
         else cbb_init e CBB_zero (blk_bytes buf) initial_capacity)"

definition CBB_init_fixed :: "env \<Rightarrow> u8 list \<Rightarrow> nat \<Rightarrow> bool \<times> CBB" where
  "CBB_init_fixed e buf n =
     cbb_then (cbb_init e CBB_zero buf n)
       (\<lambda>s. (True, s\<lparr>cbb_base := map_option (\<lambda>b. b\<lparr>b_can_resize := False\<rparr>) (cbb_base s)\<rparr>))"

definition CBB_cleanup :: "CBB \<Rightarrow> CBB" where
  "CBB_cleanup s = s\<lparr>cbb_base := None\<rparr>"

section \<open>The shared buffer\<close>

definition cbb_buffer_reserve :: "env \<Rightarrow> cbb_buffer \<Rightarrow> nat \<Rightarrow> bool \<times> cbb_buffer" where
  "cbb_buffer_reserve e b n =
     (let newlen = size_add (b_len b) n
      in if newlen < b_len b then (False, b\<lparr>b_error := True\<rparr>)
         else if newlen > b_cap b then
           (if \<not> b_can_resize b then (False, b\<lparr>b_error := True\<rparr>)
            else let newcap0 = size_mul (b_cap b) 2;
                     newcap = (if newcap0 < b_cap b \<or> newcap0 < newlen then newlen else newcap0)
                 in (case OPENSSL_realloc e (Some \<lparr>blk_size = b_cap b, blk_data = b_buf b\<rparr>) newcap of
                       None \<Rightarrow> (False, b\<lparr>b_error := True\<rparr>)
                     | Some newbuf \<Rightarrow> (True, b\<lparr>b_buf := blk_data newbuf, b_cap := newcap\<rparr>)))
         else (True, b))"

definition cbb_buffer_add :: "env \<Rightarrow> cbb_buffer \<Rightarrow> nat \<Rightarrow> bool \<times> cbb_buffer" where
  "cbb_buffer_add e b n =
     cbb_then (cbb_buffer_reserve e b n) (\<lambda>b. (True, b\<lparr>b_len := b_len b + n\<rparr>))"

text \<open>The byte loop \<open>for (i = n - 1; i < n; i--) { buf[off + i] = v; v >>= 8; }\<close>: the buffer
  and what is left of \<open>v\<close>.\<close>

fun cbb_put_be :: "u8 list \<Rightarrow> nat \<Rightarrow> nat \<Rightarrow> nat \<Rightarrow> u8 list \<times> nat" where
  "cbb_put_be buf off 0 v = (buf, v)"
| "cbb_put_be buf off (Suc i) v = cbb_put_be (buf[off + i := byte v]) off i (v div 256)"

definition cbb_buffer_add_u :: "env \<Rightarrow> cbb_buffer \<Rightarrow> nat \<Rightarrow> nat \<Rightarrow> bool \<times> cbb_buffer" where
  "cbb_buffer_add_u e b v len_len =
     (if len_len = 0 then (True, b)
      else cbb_then (cbb_buffer_add e b len_len)
        (\<lambda>b1. let (buf, v') = cbb_put_be (b_buf b1) (b_len b) len_len v;
                 b2 = b1\<lparr>b_buf := buf\<rparr>
             in if v' \<noteq> 0 then (False, b2\<lparr>b_error := True\<rparr>) else (True, b2)))"

section \<open>Flushing\<close>

text \<open>The part of \<open>CBB_flush\<close> after the child has been flushed: write the pending length
  prefix of \<open>child\<close>, for ASN.1 after making room for a long-form length.\<close>

definition cbb_write_length :: "env \<Rightarrow> cbb_buffer \<Rightarrow> cbb_node \<Rightarrow> nat \<Rightarrow> bool \<times> cbb_buffer" where
  "cbb_write_length e b child child_start =
     (let n = b_len b - child_start
      in if n_pending_is_asn1 child then
           (if n > 0xfffffffe then (False, b)
            else let (len_len, initial_length_byte, n') =
                       (if n > 0xffffff then (5, 0x84, n)
                        else if n > 0xffff then (4, 0x83, n)
                        else if n > 0xff then (3, 0x82, n)
                        else if n > 0x7f then (2, 0x81, n)
                        else (1, byte n, 0 :: nat))
                 in cbb_then
                      (if len_len \<noteq> 1
                       then let extra_bytes = len_len - 1
                            in cbb_then (cbb_buffer_add e b extra_bytes)
                                 (\<lambda>b1. (True, b1\<lparr>b_buf := overwrite (b_buf b1)
                                           (child_start + extra_bytes)
                                           (take n' (drop child_start (b_buf b1)))\<rparr>))
                       else (True, b))
                      (\<lambda>b1. let (buf, v) = cbb_put_be ((b_buf b1)[n_offset child := initial_length_byte])
                                             (n_offset child + 1) (len_len - 1) n'
                           in (v = 0, b1\<lparr>b_buf := buf\<rparr>)))
         else (let (buf, v) = cbb_put_be (b_buf b) (n_offset child) (n_pending_len_len child) n
               in (v = 0, b\<lparr>b_buf := buf\<rparr>)))"

text \<open>\<open>CBB_flush\<close> on a \<open>CBB\<close> whose pending descendants are the given list; the result has
  the descendants that stay pending. Where it fails the buffer's error flag is set, so no
  later call looks at the chain, and the model leaves the chain as it was.\<close>

fun cbb_flush_kids :: "env \<Rightarrow> cbb_buffer \<Rightarrow> cbb_node list \<Rightarrow> bool \<times> cbb_buffer \<times> cbb_node list" where
  "cbb_flush_kids e b [] = (\<not> b_error b, b, [])"
| "cbb_flush_kids e b (child # kids) =
     (if b_error b then (False, b, child # kids)
      else if n_pending_len_len child = 0 then (True, b, child # kids)
      else let child_start = size_add (n_offset child) (n_pending_len_len child)
           in (case cbb_flush_kids e b kids of (ok, b1, _) \<Rightarrow>
                 if \<not> ok \<or> child_start < n_offset child \<or> b_len b1 < child_start
                 then (False, b1\<lparr>b_error := True\<rparr>, child # kids)
                 else (case cbb_write_length e b1 child child_start of (ok, b2) \<Rightarrow>
                         if ok then (True, b2, [])
                         else (False, b2\<lparr>b_error := True\<rparr>, child # kids))))"

definition CBB_flush :: "env \<Rightarrow> CBB \<Rightarrow> nat \<Rightarrow> bool \<times> CBB" where
  "CBB_flush e s d =
     (case cbb_base s of
        None \<Rightarrow> (False, s)
      | Some b \<Rightarrow>
          (if length (cbb_chain s) \<le> d then (False, s)
           else case cbb_flush_kids e b (drop (Suc d) (cbb_chain s)) of
                  (ok, b', kids) \<Rightarrow>
                    (ok, s\<lparr>cbb_base := Some b', cbb_chain := take (Suc d) (cbb_chain s) @ kids\<rparr>)))"

text \<open>Run a buffer operation on \<open>cbb->base\<close>.\<close>

definition cbb_with_base :: "(cbb_buffer \<Rightarrow> bool \<times> cbb_buffer) \<Rightarrow> CBB \<Rightarrow> bool \<times> CBB" where
  "cbb_with_base f s =
     (case cbb_base s of
        None \<Rightarrow> (False, s)
      | Some b \<Rightarrow> (case f b of (ok, b') \<Rightarrow> (ok, s\<lparr>cbb_base := Some b'\<rparr>)))"

text \<open>\<open>out\<close> is the buffer and the length handed to the caller; a caller that passes a NULL
  out-parameter is \<open>want_out = False\<close>.\<close>

definition CBB_finish :: "env \<Rightarrow> CBB \<Rightarrow> nat \<Rightarrow> bool \<Rightarrow> (u8 list \<times> nat) option \<times> CBB" where
  "CBB_finish e s d want_out =
     (if d \<noteq> 0 then (None, s)
      else case CBB_flush e s d of
             (False, s') \<Rightarrow> (None, s')
           | (True, s') \<Rightarrow>
               (case cbb_base s' of
                  None \<Rightarrow> (None, s')
                | Some b \<Rightarrow>
                    (if b_can_resize b \<and> \<not> want_out then (None, s')
                     else (Some (b_buf b, b_len b), CBB_cleanup s'))))"

definition CBB_data :: "CBB \<Rightarrow> nat \<Rightarrow> u8 list" where
  "CBB_data s d =
     (case cbb_base s of
        None \<Rightarrow> []
      | Some b \<Rightarrow> drop (n_offset (cbb_chain s ! d) + n_pending_len_len (cbb_chain s ! d)) (b_buf b))"

definition CBB_len :: "CBB \<Rightarrow> nat \<Rightarrow> nat" where
  "CBB_len s d =
     (case cbb_base s of
        None \<Rightarrow> 0
      | Some b \<Rightarrow> b_len b - n_offset (cbb_chain s ! d) - n_pending_len_len (cbb_chain s ! d))"

section \<open>Adding data and children\<close>

text \<open>Make \<open>node\<close> the pending child of the \<open>CBB\<close> at depth \<open>d\<close>.\<close>

definition cbb_set_child :: "nat \<Rightarrow> cbb_node \<Rightarrow> CBB \<Rightarrow> CBB" where
  "cbb_set_child d node s = s\<lparr>cbb_chain := take (Suc d) (cbb_chain s) @ [node]\<rparr>"

definition cbb_base_len :: "CBB \<Rightarrow> nat" where
  "cbb_base_len s = (case cbb_base s of None \<Rightarrow> 0 | Some b \<Rightarrow> b_len b)"

definition cbb_add_length_prefixed :: "env \<Rightarrow> CBB \<Rightarrow> nat \<Rightarrow> nat \<Rightarrow> bool \<times> CBB" where
  "cbb_add_length_prefixed e s d len_len =
     cbb_then (CBB_flush e s d) (\<lambda>s1.
       let offset = cbb_base_len s1
       in cbb_then
            (cbb_with_base (\<lambda>b. cbb_then (cbb_buffer_add e b len_len)
               (\<lambda>b1. (True, b1\<lparr>b_buf := overwrite (b_buf b1) offset (replicate len_len 0)\<rparr>))) s1)
            (\<lambda>s2. (True, cbb_set_child d \<lparr>n_offset = offset, n_pending_len_len = len_len,
                                          n_pending_is_asn1 = False\<rparr> s2)))"

definition CBB_add_u8_length_prefixed :: "env \<Rightarrow> CBB \<Rightarrow> nat \<Rightarrow> bool \<times> CBB" where
  "CBB_add_u8_length_prefixed e s d = cbb_add_length_prefixed e s d 1"

definition CBB_add_u16_length_prefixed :: "env \<Rightarrow> CBB \<Rightarrow> nat \<Rightarrow> bool \<times> CBB" where
  "CBB_add_u16_length_prefixed e s d = cbb_add_length_prefixed e s d 2"

definition CBB_add_u24_length_prefixed :: "env \<Rightarrow> CBB \<Rightarrow> nat \<Rightarrow> bool \<times> CBB" where
  "CBB_add_u24_length_prefixed e s d = cbb_add_length_prefixed e s d 3"

definition CBB_add_bytes :: "env \<Rightarrow> CBB \<Rightarrow> nat \<Rightarrow> u8 list \<Rightarrow> bool \<times> CBB" where
  "CBB_add_bytes e s d data =
     cbb_then (CBB_flush e s d)
       (cbb_with_base (\<lambda>b. cbb_then (cbb_buffer_add e b (length data))
          (\<lambda>b1. (True, b1\<lparr>b_buf := overwrite (b_buf b1) (b_len b) data\<rparr>))))"

definition CBB_add_space :: "env \<Rightarrow> CBB \<Rightarrow> nat \<Rightarrow> nat \<Rightarrow> bool \<times> CBB" where
  "CBB_add_space e s d n =
     cbb_then (CBB_flush e s d) (cbb_with_base (\<lambda>b. cbb_buffer_add e b n))"

definition CBB_reserve :: "env \<Rightarrow> CBB \<Rightarrow> nat \<Rightarrow> nat \<Rightarrow> bool \<times> CBB" where
  "CBB_reserve e s d n =
     cbb_then (CBB_flush e s d) (cbb_with_base (\<lambda>b. cbb_buffer_reserve e b n))"

definition CBB_did_write :: "CBB \<Rightarrow> nat \<Rightarrow> nat \<Rightarrow> bool \<times> CBB" where
  "CBB_did_write s d n =
     cbb_with_base (\<lambda>b.
       let newlen = size_add (b_len b) n
       in if length (cbb_chain s) > Suc d \<or> newlen < b_len b \<or> newlen > b_cap b
          then (False, b) else (True, b\<lparr>b_len := newlen\<rparr>)) s"

definition CBB_add_u8 :: "env \<Rightarrow> CBB \<Rightarrow> nat \<Rightarrow> u8 \<Rightarrow> bool \<times> CBB" where
  "CBB_add_u8 e s d v =
     cbb_then (CBB_flush e s d) (cbb_with_base (\<lambda>b. cbb_buffer_add_u e b (unat v) 1))"

definition CBB_add_u16 :: "env \<Rightarrow> CBB \<Rightarrow> nat \<Rightarrow> u16 \<Rightarrow> bool \<times> CBB" where
  "CBB_add_u16 e s d v =
     cbb_then (CBB_flush e s d) (cbb_with_base (\<lambda>b. cbb_buffer_add_u e b (unat v) 2))"

definition CBB_add_u24 :: "env \<Rightarrow> CBB \<Rightarrow> nat \<Rightarrow> u32 \<Rightarrow> bool \<times> CBB" where
  "CBB_add_u24 e s d v =
     cbb_then (CBB_flush e s d) (cbb_with_base (\<lambda>b. cbb_buffer_add_u e b (unat v) 3))"

definition CBB_add_u32 :: "env \<Rightarrow> CBB \<Rightarrow> nat \<Rightarrow> u32 \<Rightarrow> bool \<times> CBB" where
  "CBB_add_u32 e s d v =
     cbb_then (CBB_flush e s d) (cbb_with_base (\<lambda>b. cbb_buffer_add_u e b (unat v) 4))"

definition CBB_discard_child :: "CBB \<Rightarrow> nat \<Rightarrow> CBB" where
  "CBB_discard_child s d =
     (if length (cbb_chain s) \<le> Suc d then s
      else s\<lparr>cbb_base := map_option (\<lambda>b. b\<lparr>b_len := n_offset (cbb_chain s ! Suc d)\<rparr>) (cbb_base s),
             cbb_chain := take (Suc d) (cbb_chain s)\<rparr>)"

section \<open>ASN.1\<close>

text \<open>The counting loop and the emitting loop of \<open>add_base128_integer\<close>.\<close>

fun base128_len_loop :: "nat \<Rightarrow> nat" where
  "base128_len_loop copy = (if copy > 0 then Suc (base128_len_loop (copy div 128)) else 0)"

declare base128_len_loop.simps [simp del]

fun base128_emit_loop :: "env \<Rightarrow> CBB \<Rightarrow> nat \<Rightarrow> nat \<Rightarrow> nat \<Rightarrow> bool \<times> CBB" where
  "base128_emit_loop e s d v 0 = (True, s)"
| "base128_emit_loop e s d v (Suc i) =
     (let b = byte (v div 2 ^ (7 * i)) AND 0x7f
      in cbb_then (CBB_add_u8 e s d (if i \<noteq> 0 then b OR 0x80 else b))
           (\<lambda>s1. base128_emit_loop e s1 d v i))"

definition add_base128_integer :: "env \<Rightarrow> CBB \<Rightarrow> nat \<Rightarrow> u64 \<Rightarrow> bool \<times> CBB" where
  "add_base128_integer e s d v =
     (let len_len0 = base128_len_loop (unat v);
          len_len = (if len_len0 = 0 then 1 else len_len0)
      in base128_emit_loop e s d (unat v) len_len)"

definition CBB_add_asn1 :: "env \<Rightarrow> CBB \<Rightarrow> nat \<Rightarrow> u32 \<Rightarrow> bool \<times> CBB" where
  "CBB_add_asn1 e s d tag =
     cbb_then (CBB_flush e s d) (\<lambda>s1.
       let tag_bits = (ucast (drop_bit CBS_ASN1_TAG_SHIFT tag AND 0xe0) :: u8);
           tag_number = tag AND CBS_ASN1_TAG_NUMBER_MASK
       in cbb_then
            (if tag_number \<ge> 0x1f
             then cbb_then (CBB_add_u8 e s1 d (tag_bits OR 0x1f))
                    (\<lambda>s2. add_base128_integer e s2 d (ucast tag_number))
             else CBB_add_u8 e s1 d (tag_bits OR ucast tag_number))
            (\<lambda>s2. let offset = cbb_base_len s2
                 in cbb_then (CBB_add_u8 e s2 d 0)
                      (\<lambda>s3. (True, cbb_set_child d \<lparr>n_offset = offset, n_pending_len_len = 1,
                                                    n_pending_is_asn1 = True\<rparr> s3))))"

text \<open>The byte loop of \<open>CBB_add_asn1_uint64\<close>, over the bytes from the most significant one
  on, with the flag \<open>started\<close>; its result is that flag with the state.\<close>

fun asn1_uint64_emit :: "env \<Rightarrow> CBB \<Rightarrow> nat \<Rightarrow> u8 list \<Rightarrow> bool \<Rightarrow> (bool \<times> bool) \<times> CBB" where
  "asn1_uint64_emit e s d [] started = ((True, started), s)"
| "asn1_uint64_emit e s d (b # bs) started =
     (if \<not> started \<and> b = 0 then asn1_uint64_emit e s d bs started
      else case (if \<not> started \<and> b AND 0x80 \<noteq> 0 then CBB_add_u8 e s d 0 else (True, s)) of
             (False, s1) \<Rightarrow> ((False, started), s1)
           | (True, s1) \<Rightarrow>
               (case CBB_add_u8 e s1 d b of
                  (False, s2) \<Rightarrow> ((False, True), s2)
                | (True, s2) \<Rightarrow> asn1_uint64_emit e s2 d bs True))"

definition CBB_add_asn1_uint64 :: "env \<Rightarrow> CBB \<Rightarrow> nat \<Rightarrow> u64 \<Rightarrow> bool \<times> CBB" where
  "CBB_add_asn1_uint64 e s d v =
     cbb_then (CBB_add_asn1 e s d CBS_ASN1_INTEGER) (\<lambda>s1.
       case asn1_uint64_emit e s1 (Suc d)
              (map (\<lambda>i. ucast (drop_bit (8 * (7 - i)) v AND 0xff)) [0..<8]) False of
         ((ok, started), s2) \<Rightarrow>
           cbb_then (ok, s2) (\<lambda>s2.
             cbb_then (if \<not> started then CBB_add_u8 e s2 (Suc d) 0 else (True, s2))
               (\<lambda>s3. CBB_flush e s3 d)))"

definition CBB_add_asn1_octet_string :: "env \<Rightarrow> CBB \<Rightarrow> nat \<Rightarrow> u8 list \<Rightarrow> bool \<times> CBB" where
  "CBB_add_asn1_octet_string e s d data =
     cbb_then (CBB_add_asn1 e s d CBS_ASN1_OCTETSTRING) (\<lambda>s1.
       cbb_then (CBB_add_bytes e s1 (Suc d) data) (\<lambda>s2. CBB_flush e s2 d))"

definition CBB_add_asn1_bool :: "env \<Rightarrow> CBB \<Rightarrow> nat \<Rightarrow> int \<Rightarrow> bool \<times> CBB" where
  "CBB_add_asn1_bool e s d v =
     cbb_then (CBB_add_asn1 e s d CBS_ASN1_BOOLEAN) (\<lambda>s1.
       cbb_then (CBB_add_u8 e s1 (Suc d) (if v \<noteq> 0 then 0xff else 0)) (\<lambda>s2. CBB_flush e s2 d))"

section \<open>Finishing an i2d function\<close>

text \<open>\<open>outp\<close> is NULL (\<open>None\<close>), points to NULL (\<open>Some None\<close>) or points to memory of the
  caller (\<open>Some (Some dst)\<close>). The result is the return value and what \<open>*outp\<close> designates.\<close>

definition CBB_finish_i2d ::
    "env \<Rightarrow> CBB \<Rightarrow> u8 list option option \<Rightarrow> int \<times> u8 list option option" where
  "CBB_finish_i2d e s outp =
     (case CBB_finish e s 0 True of
        (None, _) \<Rightarrow> (- 1, outp)
      | (Some (der, n), _) \<Rightarrow>
          (if n > INT_MAX then (- 1, outp)
           else (int n,
                 case outp of
                   None \<Rightarrow> None
                 | Some None \<Rightarrow> Some (Some der)
                 | Some (Some dst) \<Rightarrow> Some (Some (overwrite dst 0 (take n der))))))"

end
