(* ===== verification/CBB_Refine.thy ===== *)
theory CBB_Refine
  imports CBB
begin

text \<open>
  What the builder of theory CBB promises, and that it keeps it. Abstractly a builder is
  a stack of open byte strings, each with the length prefix it still has to get; closing
  the inner ones appends their prefix and contents to the outer one. No offset, capacity
  or placeholder byte appears at that level. The relation \<open>cbb_rep\<close> ties such a stack to
  the C state, \<open>cbb_refines\<close> states that an operation simulates an abstract one (and that
  it fails only where the abstract one does or where the granted room is exceeded), and
  the lemmas of the collection \<open>cbb_refine\<close> give this for every operation.
\<close>

named_theorems cbb_refine \<open>operations of the builder against their abstract counterparts\<close>

section \<open>The abstract builder\<close>

record bb_frame =
  f_width :: nat
  f_asn1 :: bool
  f_data :: "u8 list"

definition frame_prefix :: "bb_frame \<Rightarrow> nat \<Rightarrow> u8 list option" where
  "frame_prefix f n =
     (if f_asn1 f then (if n > 0xfffffffe then None else Some (der_len n))
      else if n < 256 ^ f_width f then Some (be_bytes (f_width f) n) else None)"

text \<open>The bytes that a stack of open children contributes to the string around it.\<close>

fun close_frames :: "bb_frame list \<Rightarrow> u8 list option" where
  "close_frames [] = Some []"
| "close_frames (f # fs) =
     (case close_frames fs of
        None \<Rightarrow> None
      | Some inner \<Rightarrow>
          map_option (\<lambda>p. p @ f_data f @ inner)
            (frame_prefix f (length (f_data f @ inner))))"

definition abs_append :: "nat \<Rightarrow> u8 list \<Rightarrow> bb_frame list \<Rightarrow> bb_frame list option" where
  "abs_append d bs fs =
     map_option (\<lambda>inner. take d fs @ [(fs ! d)\<lparr>f_data := f_data (fs ! d) @ inner @ bs\<rparr>])
       (close_frames (drop (Suc d) fs))"

definition abs_open :: "nat \<Rightarrow> u8 list \<Rightarrow> nat \<Rightarrow> bool \<Rightarrow> bb_frame list \<Rightarrow> bb_frame list option" where
  "abs_open d bs w a fs =
     map_option (\<lambda>fs1. fs1 @ [\<lparr>f_width = w, f_asn1 = a, f_data = []\<rparr>]) (abs_append d bs fs)"

text \<open>The bytes in the buffer: a placeholder for every prefix still to come.\<close>

definition frames_bytes :: "bb_frame list \<Rightarrow> u8 list" where
  "frames_bytes fs = concat (map (\<lambda>f. replicate (f_width f) 0 @ f_data f) fs)"

fun frame_nodes :: "nat \<Rightarrow> bb_frame list \<Rightarrow> cbb_node list" where
  "frame_nodes off [] = []"
| "frame_nodes off (f # fs) =
     \<lparr>n_offset = off, n_pending_len_len = f_width f, n_pending_is_asn1 = f_asn1 f\<rparr>
       # frame_nodes (off + f_width f + length (f_data f)) fs"

definition frame_ok :: "bb_frame \<Rightarrow> bool" where
  "frame_ok f \<longleftrightarrow> 0 < f_width f \<and> f_width f \<le> 8 \<and> (f_asn1 f \<longrightarrow> f_width f = 1)"

section \<open>The representation relation\<close>

text \<open>The buffer can grow to \<open>N\<close> bytes: they fit already, or it may be resized and the
  allocator serves what doubling asks for.\<close>

definition cbb_room :: "env \<Rightarrow> cbb_buffer \<Rightarrow> nat \<Rightarrow> bool" where
  "cbb_room e b N \<longleftrightarrow>
     N \<le> b_cap b
     \<or> (b_can_resize b \<and> b_cap b \<le> 2 * N
        \<and> (\<forall>n \<le> 2 * N + OPENSSL_MALLOC_PREFIX. malloc_ok e n))"

definition buf_rep :: "env \<Rightarrow> nat \<Rightarrow> cbb_buffer \<Rightarrow> u8 list \<Rightarrow> bool" where
  "buf_rep e N b c \<longleftrightarrow>
     malloc_sane e \<and> \<not> b_error b \<and> length (b_buf b) = b_cap b
     \<and> b_len b \<le> b_cap b \<and> b_cap b + OPENSSL_MALLOC_PREFIX \<le> 9223372036854775807
     \<and> cbb_room e b N \<and> take (b_len b) (b_buf b) = c"

definition cbb_rep :: "env \<Rightarrow> nat \<Rightarrow> CBB \<Rightarrow> bb_frame list \<Rightarrow> bool" where
  "cbb_rep e N s fs \<longleftrightarrow>
     (case cbb_base s of None \<Rightarrow> False | Some b \<Rightarrow> buf_rep e N b (frames_bytes fs))
     \<and> cbb_chain s = frame_nodes 0 fs \<and> fs \<noteq> [] \<and> f_width (hd fs) = 0
     \<and> list_all frame_ok (tl fs)"

text \<open>A builder that has failed, been finished or been cleaned up.\<close>

definition cbb_dead :: "CBB \<Rightarrow> bool" where
  "cbb_dead s \<longleftrightarrow> (case cbb_base s of None \<Rightarrow> True | Some b \<Rightarrow> b_error b)"

section \<open>The buffer\<close>

lemma buf_rep_len: "buf_rep e N b c \<Longrightarrow> b_len b = length c"
  by (auto simp: buf_rep_def)

lemma buf_rep_le: "buf_rep e N b c \<Longrightarrow> length c + OPENSSL_MALLOC_PREFIX \<le> 9223372036854775807"
  by (auto simp: buf_rep_def)

lemma size_max_num: "SIZE_MAX = 18446744073709551615" by (simp add: SIZE_MAX_def)

lemma reserve_realloc:
  assumes r: "buf_rep e N b c" and n: "b_cap b \<le> m" "m + OPENSSL_MALLOC_PREFIX \<le> SIZE_MAX"
  shows "(case OPENSSL_realloc e (Some \<lparr>blk_size = b_cap b, blk_data = b_buf b\<rparr>) m of
            None \<Rightarrow> \<not> malloc_ok e (m + OPENSSL_MALLOC_PREFIX)
          | Some nb \<Rightarrow> m + OPENSSL_MALLOC_PREFIX \<le> 9223372036854775807
               \<and> length (blk_data nb) = m \<and> take (b_len b) (blk_data nb) = c)"
proof (cases "OPENSSL_realloc e (Some \<lparr>blk_size = b_cap b, blk_data = b_buf b\<rparr>) m")
  case None
  then have "OPENSSL_malloc e m = None" by (simp add: OPENSSL_realloc_None_iff)
  then have "\<not> malloc_ok e (m + OPENSSL_MALLOC_PREFIX)"
    using n(2) OPENSSL_malloc_Some_iff by blast
  with None show ?thesis by simp
next
  case (Some nb)
  then have "OPENSSL_malloc e m \<noteq> None" by (metis OPENSSL_realloc_None_iff option.distinct(1))
  then have ok: "m + OPENSSL_MALLOC_PREFIX \<le> 9223372036854775807"
    using r OPENSSL_malloc_Some_iff [OF n(2)] by (auto simp: buf_rep_def malloc_sane_def)
  have g: "length (blk_data nb) = m" "take (b_cap b) (blk_data nb) = b_buf b"
    using OPENSSL_realloc_grow [OF Some] r n by (auto simp: buf_rep_def)
  have "take (b_len b) (blk_data nb) = take (b_len b) (take (b_cap b) (blk_data nb))"
    using r by (simp add: buf_rep_def min_def)
  with g ok r Some show ?thesis by (simp add: buf_rep_def)
qed

lemma cbb_buffer_reserve_ok:
  assumes r: "buf_rep e N b c" and n: "n \<le> 9223372036854775807"
  shows "case cbb_buffer_reserve e b n of
           (True, b') \<Rightarrow> buf_rep e N b' c \<and> length c + n \<le> b_cap b'
         | (False, b') \<Rightarrow> b_error b' \<and> N < length c + n"
proof -
  have len: "b_len b = length c" by (rule buf_rep_len [OF r])
  have cap: "length c \<le> b_cap b" "b_cap b + OPENSSL_MALLOC_PREFIX \<le> 9223372036854775807"
    using r len by (auto simp: buf_rep_def)
  have P: "OPENSSL_MALLOC_PREFIX = 8" by (simp add: OPENSSL_MALLOC_PREFIX_def)
  have newlen: "size_add (length c) n = length c + n"
    using cap n by (simp add: size_add_exact size_max_num P)
  have dbl: "size_mul (b_cap b) 2 = b_cap b * 2"
    using cap by (simp add: size_mul_exact size_max_num P)
  show ?thesis
  proof (cases "length c + n \<le> b_cap b")
    case True
    then show ?thesis using r by (simp add: cbb_buffer_reserve_def Let_def newlen len)
  next
    case grow: False
    show ?thesis
    proof (cases "b_can_resize b")
      case False
      with grow r have "N < length c + n" by (auto simp: buf_rep_def cbb_room_def)
      with False grow show ?thesis by (simp add: cbb_buffer_reserve_def Let_def newlen len)
    next
      case True
      define m where "m = max (b_cap b * 2) (length c + n)"
      have m: "b_cap b \<le> m" "m + OPENSSL_MALLOC_PREFIX \<le> SIZE_MAX"
        using cap n by (auto simp: m_def P size_max_num)
      have res: "cbb_buffer_reserve e b n =
          (case OPENSSL_realloc e (Some \<lparr>blk_size = b_cap b, blk_data = b_buf b\<rparr>) m of
             None \<Rightarrow> (False, b\<lparr>b_error := True\<rparr>)
           | Some nb \<Rightarrow> (True, b\<lparr>b_buf := blk_data nb, b_cap := m\<rparr>))"
        using grow True by (auto simp: cbb_buffer_reserve_def Let_def newlen len dbl m_def max_def split: option.splits)
      show ?thesis
      proof (cases "OPENSSL_realloc e (Some \<lparr>blk_size = b_cap b, blk_data = b_buf b\<rparr>) m")
        case None
        with reserve_realloc [OF r m] have "\<not> malloc_ok e (m + OPENSSL_MALLOC_PREFIX)" by simp
        moreover have "m \<le> 2 * N" if "length c + n \<le> N" "b_cap b \<le> 2 * N" "\<not> N \<le> b_cap b"
          using that by (auto simp: m_def)
        ultimately have "N < length c + n"
          using r grow by (fastforce simp: buf_rep_def cbb_room_def not_le [symmetric])
        with None show ?thesis by (simp add: res)
      next
        case (Some nb)
        with reserve_realloc [OF r m] have
          s: "m + OPENSSL_MALLOC_PREFIX \<le> 9223372036854775807" "length (blk_data nb) = m"
             "take (b_len b) (blk_data nb) = c" by auto
        have "cbb_room e (b\<lparr>b_buf := blk_data nb, b_cap := m\<rparr>) N"
          using r grow by (auto simp: buf_rep_def cbb_room_def m_def max_def)
        moreover have "b_len b \<le> m" "length c + n \<le> m" using m(1) cap len by (auto simp: m_def)
        ultimately have "buf_rep e N (b\<lparr>b_buf := blk_data nb, b_cap := m\<rparr>) c"
          using s r by (simp add: buf_rep_def)
        with Some \<open>length c + n \<le> m\<close> show ?thesis by (simp add: res)
      qed
    qed
  qed
qed


lemma cbb_buffer_add_ok:
  assumes r: "buf_rep e N b c" and n: "n \<le> 9223372036854775807"
  shows "case cbb_buffer_add e b n of
           (True, b') \<Rightarrow> \<exists>g. length g = n \<and> buf_rep e N b' (c @ g)
         | (False, b') \<Rightarrow> b_error b' \<and> N < length c + n"
proof (cases "cbb_buffer_reserve e b n")
  case (Pair ok b1)
  show ?thesis
  proof (cases ok)
    case True
    with cbb_buffer_reserve_ok [OF r n] Pair
    have b1: "buf_rep e N b1 c" and fit: "length c + n \<le> b_cap b1" by auto
    let ?g = "take n (drop (length c) (b_buf b1))"
    have "take (length c + n) (b_buf b1) = c @ ?g"
      using b1 buf_rep_len [OF b1] by (simp add: take_add buf_rep_def)
    then have "buf_rep e N (b1\<lparr>b_len := length c + n\<rparr>) (c @ ?g)"
      using b1 fit by (simp add: buf_rep_def cbb_room_def)
    moreover have "length ?g = n" using b1 fit by (simp add: buf_rep_def)
    ultimately have "\<exists>g. length g = n \<and> buf_rep e N (b1\<lparr>b_len := length c + n\<rparr>) (c @ g)"
      by blast
    with True Pair buf_rep_len [OF b1] show ?thesis
      by (simp add: cbb_buffer_add_def cbb_then_def)
  next
    case False
    with cbb_buffer_reserve_ok [OF r n] Pair show ?thesis
      by (simp add: cbb_buffer_add_def cbb_then_def)
  qed
qed

lemma overwrite_append [simp]: "overwrite (p @ q) (length p + k) src = p @ overwrite q k src"
  by (simp add: overwrite_def)

lemma overwrite_append_0 [simp]: "overwrite (p @ q) (length p) src = p @ overwrite q 0 src"
  by (simp add: overwrite_def)

lemma overwrite_take:
  "off + length src \<le> n \<Longrightarrow> n \<le> length xs \<Longrightarrow>
     take n (overwrite xs off src) = overwrite (take n xs) off src"
  by (cases "n = off") (auto simp: overwrite_def min_def drop_take)

lemma overwrite_front:
  "length src = length q \<Longrightarrow> overwrite (q @ r) 0 src = src @ r"
  by (simp add: overwrite_def)

lemma list_update_overwrite: "i < length xs \<Longrightarrow> xs[i := x] = overwrite xs i [x]"
  by (simp add: overwrite_def upd_conv_take_nth_drop)

lemma buf_rep_overwrite:
  assumes "buf_rep e N b c" and "off + length src \<le> length c"
  shows "buf_rep e N (b\<lparr>b_buf := overwrite (b_buf b) off src\<rparr>) (overwrite c off src)"
proof -
  have "take (b_len b) (overwrite (b_buf b) off src) = overwrite c off src"
    using assms buf_rep_len [OF assms(1)] by (subst overwrite_take) (auto simp: buf_rep_def)
  with assms buf_rep_len [OF assms(1)] show ?thesis by (simp add: buf_rep_def cbb_room_def)
qed

lemma length_put_be [simp]: "length (fst (cbb_put_be buf off n v)) = length buf"
  by (induction buf off n v rule: cbb_put_be.induct) auto

lemma overwrite_overwrite_prefix:
  "off + n < length buf \<Longrightarrow> length src = n \<Longrightarrow>
     overwrite (buf[off + n := x]) off src = overwrite buf off (src @ [x])"
  by (simp add: overwrite_def take_update_swap list_update_beyond upd_conv_take_nth_drop)

lemma cbb_put_be_eq:
  "off + n \<le> length buf \<Longrightarrow>
     cbb_put_be buf off n v = (overwrite buf off (be_bytes n v), v div 256 ^ n)"
proof (induction n arbitrary: buf v)
  case 0
  then show ?case by (simp add: overwrite_def)
next
  case (Suc n)
  then show ?case
    by (simp add: overwrite_overwrite_prefix div_mult2_eq)
qed

text \<open>An operation on the buffer against the bytes it should leave there.\<close>

definition buf_result :: "env \<Rightarrow> nat \<Rightarrow> bool \<times> cbb_buffer \<Rightarrow> u8 list option \<Rightarrow> bool" where
  "buf_result e N r c' \<longleftrightarrow>
     (if fst r then (case c' of None \<Rightarrow> False | Some x \<Rightarrow> buf_rep e N (snd r) x)
      else b_error (snd r) \<and> (case c' of None \<Rightarrow> True | Some x \<Rightarrow> N < length x))"

lemma cbb_buffer_add_u_ok:
  assumes r: "buf_rep e N b c" and n: "0 < n" "n \<le> 8"
  shows "buf_result e N (cbb_buffer_add_u e b v n)
           (if v < 256 ^ n then Some (c @ be_bytes n v) else None)"
proof (cases "cbb_buffer_add e b n")
  case (Pair ok b1)
  note add = cbb_buffer_add_ok [OF r, of n]
  show ?thesis
  proof (cases ok)
    case True
    with add Pair n obtain g where g: "length g = n" "buf_rep e N b1 (c @ g)" by auto
    let ?b = "b1\<lparr>b_buf := overwrite (b_buf b1) (length c) (be_bytes n v)\<rparr>"
    have "cbb_put_be (b_buf b1) (b_len b) n v
        = (overwrite (b_buf b1) (length c) (be_bytes n v), v div 256 ^ n)"
      using g(1) buf_rep_len [OF r] buf_rep_len [OF g(2)] g(2)
      by (subst cbb_put_be_eq) (simp_all add: buf_rep_def)
    moreover have "buf_rep e N ?b (c @ be_bytes n v)"
      using buf_rep_overwrite [OF g(2), of "length c" "be_bytes n v"] g(1) by simp
    ultimately show ?thesis using True Pair n
      by (auto simp: cbb_buffer_add_u_def cbb_then_def buf_result_def Let_def div_eq_0_iff)
  next
    case False
    with add Pair n show ?thesis
      by (auto simp: cbb_buffer_add_u_def cbb_then_def buf_result_def)
  qed
qed

section \<open>Length prefixes\<close>

lemma der_len_form:
  "der_len n = (if n < 128 then [byte n]
                else byte (128 + der_len_bytes n) # be_bytes (der_len_bytes n) n)"
  by (simp add: der_len_def)

lemma cbb_write_length_long:
  assumes "n_pending_is_asn1 child" and "b_len b - cs = n" and "0x7f < n" and "n \<le> 0xfffffffe"
  shows "cbb_write_length e b child cs =
     cbb_then
       (cbb_then (cbb_buffer_add e b (der_len_bytes n))
          (\<lambda>b1. (True, b1\<lparr>b_buf := overwrite (b_buf b1) (cs + der_len_bytes n)
                                     (take n (drop cs (b_buf b1)))\<rparr>)))
       (\<lambda>b1. let (buf, v) = cbb_put_be ((b_buf b1)[n_offset child := byte (128 + der_len_bytes n)])
                              (n_offset child + 1) (der_len_bytes n) n
            in (v = 0, b1\<lparr>b_buf := buf\<rparr>))"
proof -
  have [simp]: "byte 129 = 0x81" "byte 130 = 0x82" "byte 131 = 0x83" "byte 132 = 0x84"
    by (simp_all add: byte_eqI)
  show ?thesis
    using assms by (auto simp: cbb_write_length_def Let_def der_len_bytes_def)
qed

lemma cbb_write_length_huge:
  "n_pending_is_asn1 child \<Longrightarrow> b_len b - cs = n \<Longrightarrow> n > 0xfffffffe \<Longrightarrow>
     cbb_write_length e b child cs = (False, b)"
  by (simp add: cbb_write_length_def)

lemma cbb_write_length_short:
  "n_pending_is_asn1 child \<Longrightarrow> b_len b - cs = n \<Longrightarrow> n \<le> 0x7f \<Longrightarrow>
     cbb_write_length e b child cs = (True, b\<lparr>b_buf := (b_buf b)[n_offset child := byte n]\<rparr>)"
  by (simp add: cbb_write_length_def cbb_then_def)

lemma cbb_write_length_plain:
  "\<not> n_pending_is_asn1 child \<Longrightarrow> b_len b - cs = n \<Longrightarrow>
     cbb_write_length e b child cs =
       (let (buf, v) = cbb_put_be (b_buf b) (n_offset child) (n_pending_len_len child) n
        in (v = 0, b\<lparr>b_buf := buf\<rparr>))"
  by (simp add: cbb_write_length_def)

lemma buf_rep_move_prefix:
  assumes r: "buf_rep e N b (pre @ z # body @ g)" and g: "length g = k" "length ib = Suc k"
  shows "buf_rep e N
     (b\<lparr>b_buf := overwrite (overwrite (b_buf b) (length pre + 1 + k)
                   (take (length body) (drop (length pre + 1) (b_buf b)))) (length pre) ib\<rparr>)
     (pre @ ib @ body)"
proof -
  have "take (length body) (drop (length pre + 1) (b_buf b))
      = take (length body) (drop (length pre + 1) (take (b_len b) (b_buf b)))"
    using buf_rep_len [OF r] by (simp add: drop_take min_def)
  also have "take (b_len b) (b_buf b) = pre @ z # body @ g" using r by (simp add: buf_rep_def)
  finally have body: "take (length body) (drop (length pre + 1) (b_buf b)) = body" by simp
  let ?b1 = "b\<lparr>b_buf := overwrite (b_buf b) (length pre + 1 + k) body\<rparr>"
  have "buf_rep e N ?b1 (overwrite (pre @ z # body @ g) (length pre + 1 + k) body)"
    using g by (intro buf_rep_overwrite [OF r]) simp
  also have "overwrite (pre @ z # body @ g) (length pre + 1 + k) body
      = pre @ (z # take k (body @ g)) @ body"
    using g by (simp add: overwrite_def)
  finally have b1: "buf_rep e N ?b1 (pre @ (z # take k (body @ g)) @ body)" .
  have "buf_rep e N (?b1\<lparr>b_buf := overwrite (b_buf ?b1) (length pre) ib\<rparr>)
          (overwrite (pre @ (z # take k (body @ g)) @ body) (length pre) ib)"
    using g by (intro buf_rep_overwrite [OF b1]) simp
  also have "overwrite (pre @ (z # take k (body @ g)) @ body) (length pre) ib = pre @ ib @ body"
    using g by (simp add: overwrite_front del: append.simps)
  finally show ?thesis using body by simp
qed

definition length_result :: "env \<Rightarrow> nat \<Rightarrow> bool \<times> cbb_buffer \<Rightarrow> u8 list option \<Rightarrow> bool" where
  "length_result e N r c' \<longleftrightarrow>
     (if fst r then (case c' of None \<Rightarrow> False | Some x \<Rightarrow> buf_rep e N (snd r) x)
      else (case c' of None \<Rightarrow> True | Some x \<Rightarrow> N < length x))"

lemma overwrite_head_tail:
  "off < length xs \<Longrightarrow> overwrite (xs[off := x]) (Suc off) ys = overwrite xs off (x # ys)"
  by (simp add: overwrite_def take_Suc_conv_app_nth list_update_append)

lemma cbb_write_length_asn1_ok:
  assumes r: "buf_rep e N b (pre @ 0 # body)"
  shows "length_result e N
     (cbb_write_length e b \<lparr>n_offset = length pre, n_pending_len_len = 1, n_pending_is_asn1 = True\<rparr>
        (length pre + 1))
     (if length body > 0xfffffffe then None else Some (pre @ der_len (length body) @ body))"
    (is "length_result e N (cbb_write_length e b ?child ?cs) _")
proof -
  let ?n = "length body"
  have n: "b_len b - ?cs = ?n" using buf_rep_len [OF r] by simp
  consider "?n > 0xfffffffe" | "?n \<le> 0x7f" | "0x7f < ?n" "?n \<le> 0xfffffffe" by linarith
  then show ?thesis
  proof cases
    case 1
    then show ?thesis by (subst cbb_write_length_huge [OF _ n]) (simp_all add: length_result_def)
  next
    case 2
    have "(b_buf b)[length pre := byte ?n] = overwrite (b_buf b) (length pre) [byte ?n]"
      using r buf_rep_len [OF r] by (intro list_update_overwrite) (auto simp: buf_rep_def)
    moreover have "overwrite (pre @ 0 # body) (length pre) [byte ?n] = pre @ byte ?n # body"
      by (simp add: overwrite_def)
    ultimately have "buf_rep e N (b\<lparr>b_buf := (b_buf b)[length pre := byte ?n]\<rparr>) (pre @ byte ?n # body)"
      using buf_rep_overwrite [OF r, of "length pre" "[byte ?n]"] by simp
    with 2 show ?thesis
      by (subst cbb_write_length_short [OF _ n]) (simp_all add: length_result_def der_len_form)
  next
    case 3
    let ?k = "der_len_bytes ?n"
    have k: "?k \<le> 4" "?n < 256 ^ ?k"
      using 3 by (simp_all add: der_len_bytes_range der_len_bytes_bound)
    obtain ok b1 where add: "cbb_buffer_add e b ?k = (ok, b1)" by force
    have kk: "?k \<le> 9223372036854775807" using k by linarith
    note addok = cbb_buffer_add_ok [OF r kk]
    show ?thesis
    proof (cases ok)
      case False
      with addok add have "N < length (pre @ 0 # body) + ?k" by simp
      with False add 3 show ?thesis
        by (subst cbb_write_length_long [OF _ n])
          (simp_all add: cbb_then_def length_result_def der_len_form)
    next
      case True
      with addok add obtain g where g: "length g = ?k" "buf_rep e N b1 (pre @ 0 # body @ g)" by auto
      let ?ib = "byte (128 + ?k) # be_bytes ?k ?n"
      let ?buf = "overwrite (b_buf b1) (length pre + 1 + ?k) (take ?n (drop ?cs (b_buf b1)))"
      have len: "length ?buf = length (b_buf b1)" "length pre + 1 + ?k \<le> length (b_buf b1)"
        using g buf_rep_len [OF g(2)] by (auto simp: buf_rep_def overwrite_def)
      have "cbb_put_be (?buf[length pre := byte (128 + ?k)]) (length pre + 1) ?k ?n
          = (overwrite ?buf (length pre) ?ib, 0)"
        using len k by (subst cbb_put_be_eq) (auto simp: overwrite_head_tail)
      moreover have "buf_rep e N (b1\<lparr>b_buf := overwrite ?buf (length pre) ?ib\<rparr>) (pre @ ?ib @ body)"
        by (rule buf_rep_move_prefix [OF g(2) g(1)]) simp
      ultimately show ?thesis using True add 3
        by (subst cbb_write_length_long [OF _ n])
          (simp_all add: cbb_then_def length_result_def der_len_form)
    qed
  qed
qed

lemma cbb_write_length_ok:
  assumes f: "frame_ok f" and r: "buf_rep e N b (pre @ replicate (f_width f) 0 @ body)"
  shows "length_result e N
     (cbb_write_length e b \<lparr>n_offset = length pre, n_pending_len_len = f_width f,
                            n_pending_is_asn1 = f_asn1 f\<rparr> (length pre + f_width f))
     (map_option (\<lambda>p. pre @ p @ body) (frame_prefix f (length body)))"
proof (cases "f_asn1 f")
  case True
  with f r cbb_write_length_asn1_ok [of e N b pre body] show ?thesis
    by (simp add: frame_ok_def frame_prefix_def split: if_splits)
next
  case False
  let ?w = "f_width f"
  let ?n = "length body"
  have n: "b_len b - (length pre + ?w) = ?n" using buf_rep_len [OF r] by simp
  have "cbb_put_be (b_buf b) (length pre) ?w ?n
      = (overwrite (b_buf b) (length pre) (be_bytes ?w ?n), ?n div 256 ^ ?w)"
    using r buf_rep_len [OF r] by (subst cbb_put_be_eq) (auto simp: buf_rep_def)
  moreover have "overwrite (pre @ replicate ?w 0 @ body) (length pre) (be_bytes ?w ?n)
      = pre @ be_bytes ?w ?n @ body"
    by (simp add: overwrite_def)
  moreover have "buf_rep e N (b\<lparr>b_buf := overwrite (b_buf b) (length pre) (be_bytes ?w ?n)\<rparr>)
      (overwrite (pre @ replicate ?w 0 @ body) (length pre) (be_bytes ?w ?n))"
    by (rule buf_rep_overwrite [OF r]) simp
  ultimately show ?thesis using False
    by (subst cbb_write_length_plain [OF _ n])
      (auto simp: length_result_def frame_prefix_def div_eq_0_iff)
qed

section \<open>Flushing\<close>

lemma frame_prefix_length:
  "frame_ok f \<Longrightarrow> frame_prefix f n = Some p \<Longrightarrow> f_width f \<le> length p"
  by (auto simp: frame_prefix_def frame_ok_def der_len_def split: if_splits)

lemma frames_bytes_simps [simp]:
  "frames_bytes [] = []"
  "frames_bytes (f # fs) = replicate (f_width f) 0 @ f_data f @ frames_bytes fs"
  "frames_bytes (fs @ gs) = frames_bytes fs @ frames_bytes gs"
  by (simp_all add: frames_bytes_def)

lemma close_frames_length:
  "list_all frame_ok fs \<Longrightarrow> close_frames fs = Some x \<Longrightarrow> length (frames_bytes fs) \<le> length x"
  by (induction fs arbitrary: x) (fastforce dest: frame_prefix_length split: option.splits)+

lemma frame_nodes_append:
  "frame_nodes off (fs @ gs) = frame_nodes off fs @ frame_nodes (off + length (frames_bytes fs)) gs"
  by (induction fs arbitrary: off) (simp_all add: add.assoc)

lemma length_frame_nodes [simp]: "length (frame_nodes off fs) = length fs"
  by (induction fs arbitrary: off) simp_all

lemma cbb_flush_kids_ok:
  assumes "list_all frame_ok fs" and "buf_rep e N b (pre @ frames_bytes fs)"
  shows "case cbb_flush_kids e b (frame_nodes (length pre) fs) of
           (ok, b', kids) \<Rightarrow>
             buf_result e N (ok, b') (map_option (\<lambda>x. pre @ x) (close_frames fs)) \<and> (ok \<longrightarrow> kids = [])"
  using assms
proof (induction fs arbitrary: b pre)
  case Nil
  then have "\<not> b_error b" by (simp add: buf_rep_def)
  with Nil show ?case by (simp add: buf_result_def)
next
  case (Cons f fs)
  let ?w = "f_width f"
  let ?pre = "pre @ replicate ?w 0 @ f_data f"
  have f: "frame_ok f" and fs: "list_all frame_ok fs" using Cons.prems by auto
  have w: "0 < ?w" "?w \<le> 8" using f by (auto simp: frame_ok_def)
  have r: "buf_rep e N b (?pre @ frames_bytes fs)" using Cons.prems(2) by simp
  have noerr: "\<not> b_error b" using r by (simp add: buf_rep_def)
  have start: "size_add (length pre) ?w = length pre + ?w"
    using buf_rep_le [OF r] w by (simp add: size_add_exact size_max_num OPENSSL_MALLOC_PREFIX_def)
  let ?inner = "frame_nodes (length pre + ?w + length (f_data f)) fs"
  obtain ok b1 kids where kids: "cbb_flush_kids e b ?inner = (ok, b1, kids)"
    by (metis prod_cases3)
  have off: "length ?pre = length pre + ?w + length (f_data f)" by simp
  let ?nd = "\<lparr>n_offset = length pre, n_pending_len_len = ?w, n_pending_is_asn1 = f_asn1 f\<rparr>"
  let ?kids = "?nd # ?inner"
  have step: "cbb_flush_kids e b (frame_nodes (length pre) (f # fs)) =
      (if \<not> ok \<or> b_len b1 < length pre + ?w then (False, b1\<lparr>b_error := True\<rparr>, ?kids)
       else case cbb_write_length e b1 ?nd (length pre + ?w) of (ok, b2) \<Rightarrow>
              if ok then (True, b2, []) else (False, b2\<lparr>b_error := True\<rparr>, ?kids))"
    using noerr w start kids by (simp add: Let_def split del: if_split)
  have IH: "buf_result e N (ok, b1) (map_option (\<lambda>x. ?pre @ x) (close_frames fs))"
    using Cons.IH [OF fs r] kids unfolding off by simp
  show ?case
  proof (cases ok)
    case False
    have "N < length (pre @ p @ f_data f @ x)"
      if "close_frames fs = Some x" "frame_prefix f (length (f_data f @ x)) = Some p" for x p
      using IH False that frame_prefix_length [OF f that(2)] by (simp add: buf_result_def)
    with False show ?thesis unfolding step
      by (auto simp: buf_result_def split: option.splits)
  next
    case True
    then obtain x where x: "close_frames fs = Some x" "buf_rep e N b1 (?pre @ x)"
      using IH by (auto simp: buf_result_def split: option.splits)
    let ?body = "f_data f @ x"
    have b1: "buf_rep e N b1 (pre @ replicate ?w 0 @ ?body)" using x(2) by simp
    have len: "\<not> b_len b1 < length pre + ?w" using buf_rep_len [OF b1] by simp
    obtain ok2 b2 where wl: "cbb_write_length e b1 ?nd (length pre + ?w) = (ok2, b2)" by force
    have "length_result e N (ok2, b2) (map_option (\<lambda>p. pre @ p @ ?body) (frame_prefix f (length ?body)))"
      using cbb_write_length_ok [OF f b1] wl by simp
    with True x len wl show ?thesis unfolding step
      by (auto simp: buf_result_def length_result_def split: option.splits)
  qed
qed

section \<open>Operations on a whole builder\<close>

text \<open>An abstract operation never takes bytes away, and keeps the frames well-formed.\<close>

definition abs_grows :: "nat \<Rightarrow> nat \<Rightarrow> (bb_frame list \<Rightarrow> bb_frame list option) \<Rightarrow> bool" where
  "abs_grows d d' a \<longleftrightarrow>
     (\<forall>fs fs'. d < length fs \<and> list_all frame_ok (tl fs) \<and> a fs = Some fs' \<longrightarrow>
        length (frames_bytes fs) \<le> length (frames_bytes fs') \<and> list_all frame_ok (tl fs')
        \<and> d' < length fs')"

text \<open>\<open>f\<close>, called on the \<open>CBB\<close> at depth \<open>d\<close>, does what \<open>a\<close> does, and leaves at least
  \<open>d' + 1\<close> strings open.\<close>

definition cbb_refines ::
    "env \<Rightarrow> nat \<Rightarrow> nat \<Rightarrow> nat \<Rightarrow> (CBB \<Rightarrow> bool \<times> CBB)
       \<Rightarrow> (bb_frame list \<Rightarrow> bb_frame list option) \<Rightarrow> bool" where
  "cbb_refines e N d d' f a \<longleftrightarrow> abs_grows d d' a \<and>
     (\<forall>s fs. cbb_rep e N s fs \<and> d < length fs \<longrightarrow>
        (if fst (f s) then (\<exists>fs'. a fs = Some fs' \<and> cbb_rep e N (snd (f s)) fs')
         else cbb_dead (snd (f s)) \<and> (\<forall>fs'. a fs = Some fs' \<longrightarrow> N < length (frames_bytes fs'))))"

lemma cbb_repD:
  "cbb_rep e N s fs \<Longrightarrow> list_all frame_ok (tl fs)"
  by (simp add: cbb_rep_def)

lemma cbb_refinesD:
  assumes "cbb_refines e N d d' f a" and "cbb_rep e N s fs" and "d < length fs"
  shows "if fst (f s) then (\<exists>fs'. a fs = Some fs' \<and> cbb_rep e N (snd (f s)) fs' \<and> d' < length fs')
         else cbb_dead (snd (f s)) \<and> (\<forall>fs'. a fs = Some fs' \<longrightarrow> N < length (frames_bytes fs'))"
proof (cases "fst (f s)")
  case True
  then obtain fs' where fs': "a fs = Some fs'" "cbb_rep e N (snd (f s)) fs'"
    using assms unfolding cbb_refines_def by metis
  moreover have "d' < length fs'"
    using assms cbb_repD [OF assms(2)] fs'(1) unfolding cbb_refines_def abs_grows_def by blast
  ultimately show ?thesis using True by simp
next
  case False
  with assms show ?thesis unfolding cbb_refines_def by metis
qed

lemma abs_grows_then:
  "abs_grows d d1 a \<Longrightarrow> abs_grows d1 d2 b \<Longrightarrow> abs_grows d d2 (\<lambda>fs. Option.bind (a fs) b)"
  unfolding abs_grows_def bind_eq_Some_conv by (meson le_trans)

text \<open>Sequencing: a failure of the first call is one of the sequence, and if it came from
  the lack of room then the whole sequence needs too much room as well.\<close>

lemma cbb_refines_then:
  assumes f: "cbb_refines e N d d1 f a" and g: "cbb_refines e N d1 d2 g b"
  shows "cbb_refines e N d d2 (\<lambda>s. cbb_then (f s) g) (\<lambda>fs. Option.bind (a fs) b)"
  unfolding cbb_refines_def
proof (intro conjI allI impI)
  show "abs_grows d d2 (\<lambda>fs. Option.bind (a fs) b)"
    using f g abs_grows_then by (auto simp: cbb_refines_def)
next
  fix s fs
  assume r: "cbb_rep e N s fs \<and> d < length fs"
  note F = cbb_refinesD [OF f conjunct1 [OF r] conjunct2 [OF r]]
  show "if fst (cbb_then (f s) g)
        then \<exists>fs'. Option.bind (a fs) b = Some fs' \<and> cbb_rep e N (snd (cbb_then (f s) g)) fs'
        else cbb_dead (snd (cbb_then (f s) g))
          \<and> (\<forall>fs'. Option.bind (a fs) b = Some fs' \<longrightarrow> N < length (frames_bytes fs'))"
  proof (cases "fst (f s)")
    case True
    with F obtain fs1 where fs1: "a fs = Some fs1" "cbb_rep e N (snd (f s)) fs1" "d1 < length fs1"
      by auto
    from cbb_refinesD [OF g fs1(2,3)] True fs1(1) show ?thesis by (auto simp: cbb_then_def)
  next
    case False
    have "N < length (frames_bytes fs')" if ab: "Option.bind (a fs) b = Some fs'" for fs'
    proof -
      obtain fs1 where fs1: "a fs = Some fs1" "b fs1 = Some fs'"
        using ab by (auto simp: bind_eq_Some_conv)
      have "d1 < length fs1" "list_all frame_ok (tl fs1)"
        using f r fs1(1) cbb_repD unfolding cbb_refines_def abs_grows_def by blast+
      then have "length (frames_bytes fs1) \<le> length (frames_bytes fs')"
        using g fs1(2) unfolding cbb_refines_def abs_grows_def by blast
      moreover have "N < length (frames_bytes fs1)" using F False fs1(1) by simp
      ultimately show ?thesis by simp
    qed
    with F False show ?thesis by (simp add: cbb_then_def)
  qed
qed

lemma abs_append_SomeD:
  assumes "abs_append d bs fs = Some fs'" and "d < length fs"
  obtains inner where "close_frames (drop (Suc d) fs) = Some inner"
    and "fs' = take d fs @ [(fs ! d)\<lparr>f_data := f_data (fs ! d) @ inner @ bs\<rparr>]"
    and "frames_bytes fs' = frames_bytes (take (Suc d) fs) @ inner @ bs"
    and "frame_nodes 0 fs' = take (Suc d) (frame_nodes 0 fs)"
proof -
  from assms(1) obtain inner where inner: "close_frames (drop (Suc d) fs) = Some inner"
    "fs' = take d fs @ [(fs ! d)\<lparr>f_data := f_data (fs ! d) @ inner @ bs\<rparr>]"
    by (auto simp: abs_append_def)
  have "fs = take d fs @ fs ! d # drop (Suc d) fs" using assms(2) by (simp add: id_take_nth_drop)
  then have n: "frame_nodes 0 fs = frame_nodes 0 (take d fs @ fs ! d # drop (Suc d) fs)" by simp
  have "frames_bytes fs' = frames_bytes (take (Suc d) fs) @ inner @ bs"
    using inner(2) assms(2) by (simp add: take_Suc_conv_app_nth)
  moreover have "frame_nodes 0 fs' = take (Suc d) (frame_nodes 0 fs)"
    using inner(2) assms(2) unfolding n by (simp add: frame_nodes_append)
  ultimately show ?thesis using inner that by blast
qed

lemma frame_ok_data [simp]: "frame_ok (f\<lparr>f_data := x\<rparr>) = frame_ok f"
  by (simp add: frame_ok_def)

lemma abs_append_wf:
  assumes "abs_append d bs fs = Some fs'" and "d < length fs" and "list_all frame_ok (tl fs)"
  shows "list_all frame_ok (tl fs') \<and> length fs' = Suc d \<and> f_width (hd fs') = f_width (hd fs)
    \<and> length (frames_bytes fs) \<le> length (frames_bytes fs')"
proof -
  obtain inner where i: "close_frames (drop (Suc d) fs) = Some inner"
    "fs' = take d fs @ [(fs ! d)\<lparr>f_data := f_data (fs ! d) @ inner @ bs\<rparr>]"
    "frames_bytes fs' = frames_bytes (take (Suc d) fs) @ inner @ bs"
    by (rule abs_append_SomeD [OF assms(1,2)])
  have ok: "list_all frame_ok (drop (Suc d) fs)"
    using assms(3) by (simp add: list_all_length nth_tl drop_Suc)
  have "length (frames_bytes fs) \<le> length (frames_bytes fs')"
  proof -
    have "frames_bytes fs = frames_bytes (take (Suc d) fs) @ frames_bytes (drop (Suc d) fs)"
      by (simp only: frames_bytes_simps(3) [symmetric] append_take_drop_id)
    then show ?thesis using close_frames_length [OF ok i(1)] i(3) by simp
  qed
  moreover have "list_all frame_ok (tl fs')"
  proof (cases d)
    case 0 then show ?thesis using i(2) by simp
  next
    case (Suc k)
    then have "tl fs' = take k (tl fs) @ [(tl fs ! k)\<lparr>f_data := f_data (fs ! d) @ inner @ bs\<rparr>]"
      using i(2) assms(2) by (cases fs) auto
    moreover have "list_all frame_ok (take k (tl fs))" "frame_ok (tl fs ! k)"
      using assms(2,3) Suc by (auto simp: list_all_length)
    ultimately show ?thesis by simp
  qed
  moreover have "f_width (hd fs') = f_width (hd fs)"
    using i(2) assms(2) by (cases fs; cases d) auto
  ultimately show ?thesis using i(2) assms(2) by simp
qed

lemma abs_append_grows: "abs_grows d d (abs_append d bs)"
  unfolding abs_grows_def using abs_append_wf by (metis lessI)

lemma CBB_flush_refines [cbb_refine]:
  "cbb_refines e N d d (\<lambda>s. CBB_flush e s d) (abs_append d [])"
  unfolding cbb_refines_def
proof (intro conjI allI impI abs_append_grows)
  fix s fs assume "cbb_rep e N s fs \<and> d < length fs"
  then have r: "cbb_rep e N s fs" and d: "d < length fs" by auto
  from r obtain b where b: "cbb_base s = Some b" "buf_rep e N b (frames_bytes fs)"
    by (auto simp: cbb_rep_def split: option.splits)
  let ?pre = "frames_bytes (take (Suc d) fs)"
  have split: "fs = take (Suc d) fs @ drop (Suc d) fs" by simp
  have bytes: "buf_rep e N b (?pre @ frames_bytes (drop (Suc d) fs))"
    using b(2) by (metis frames_bytes_simps(3) split)
  have kids: "drop (Suc d) (cbb_chain s) = frame_nodes (length ?pre) (drop (Suc d) fs)"
  proof -
    have "cbb_chain s = frame_nodes 0 (take (Suc d) fs @ drop (Suc d) fs)"
      using r by (simp add: cbb_rep_def)
    also have "\<dots> = frame_nodes 0 (take (Suc d) fs) @ frame_nodes (length ?pre) (drop (Suc d) fs)"
      by (simp only: frame_nodes_append) simp
    finally show ?thesis using d by simp
  qed
  have ok: "list_all frame_ok (drop (Suc d) fs)"
    using cbb_repD [OF r] by (simp add: list_all_length nth_tl drop_Suc)
  obtain ok1 b1 kids1 where fl: "cbb_flush_kids e b (drop (Suc d) (cbb_chain s)) = (ok1, b1, kids1)"
    by (metis prod_cases3)
  have len: "length (cbb_chain s) = length fs" using r by (simp add: cbb_rep_def)
  have res: "CBB_flush e s d = (ok1, s\<lparr>cbb_base := Some b1, cbb_chain := take (Suc d) (cbb_chain s) @ kids1\<rparr>)"
    using b d len fl by (simp add: CBB_flush_def)
  have br: "buf_result e N (ok1, b1) (map_option ((@) ?pre) (close_frames (drop (Suc d) fs))) \<and> (ok1 \<longrightarrow> kids1 = [])"
    using cbb_flush_kids_ok [OF ok bytes] fl kids by simp
  show "if fst (CBB_flush e s d)
        then \<exists>fs'. abs_append d [] fs = Some fs' \<and> cbb_rep e N (snd (CBB_flush e s d)) fs'
        else cbb_dead (snd (CBB_flush e s d))
          \<and> (\<forall>fs'. abs_append d [] fs = Some fs' \<longrightarrow> N < length (frames_bytes fs'))"
  proof (cases ok1)
    case True
    with br obtain inner where inner: "close_frames (drop (Suc d) fs) = Some inner"
      "buf_rep e N b1 (?pre @ inner)" by (auto simp: buf_result_def split: option.splits)
    then obtain fs' where fs': "abs_append d [] fs = Some fs'" by (simp add: abs_append_def)
    note D = abs_append_SomeD [OF fs' d]
    note W = abs_append_wf [OF fs' d cbb_repD [OF r]]
    have "frames_bytes fs' = ?pre @ inner \<and> frame_nodes 0 fs' = take (Suc d) (frame_nodes 0 fs)"
      using inner(1) by (rule_tac D) simp
    then have "cbb_rep e N (snd (CBB_flush e s d)) fs'"
      using True br res inner(2) r W by (auto simp: cbb_rep_def)
    with True res fs' show ?thesis by simp
  next
    case False
    have "N < length (frames_bytes fs')" if fs': "abs_append d [] fs = Some fs'" for fs'
    proof -
      obtain inner where "close_frames (drop (Suc d) fs) = Some inner" "frames_bytes fs' = ?pre @ inner"
        using abs_append_SomeD [OF fs' d] by (metis append_Nil2)
      with br False show ?thesis by (simp add: buf_result_def)
    qed
    with False res br show ?thesis by (simp add: cbb_dead_def buf_result_def)
  qed
qed

section \<open>Adding bytes\<close>

lemma cbb_refines_cong:
  assumes "\<And>fs. d < length fs \<Longrightarrow> a fs = a' fs" and "cbb_refines e N d d' f a"
  shows "cbb_refines e N d d' f a'"
proof -
  have "abs_grows d d' a'" using assms unfolding abs_grows_def cbb_refines_def by metis
  with assms show ?thesis unfolding cbb_refines_def by metis
qed

lemma abs_append_append:
  assumes "d < length fs"
  shows "Option.bind (abs_append d xs fs) (abs_append d ys) = abs_append d (xs @ ys) fs"
  using assms
  by (cases "close_frames (drop (Suc d) fs)") (simp_all add: abs_append_def nth_append min_def)

lemma abs_append_add:
  assumes "abs_append d [] fs = Some fs1" and "d < length fs"
  shows "\<exists>fs'. abs_append d bs fs = Some fs' \<and> frames_bytes fs' = frames_bytes fs1 @ bs
    \<and> frame_nodes 0 fs' = frame_nodes 0 fs1"
proof -
  obtain inner where i: "close_frames (drop (Suc d) fs) = Some inner"
    "frames_bytes fs1 = frames_bytes (take (Suc d) fs) @ inner @ []"
    "frame_nodes 0 fs1 = take (Suc d) (frame_nodes 0 fs)"
    by (rule abs_append_SomeD [OF assms])
  then obtain fs' where fs': "abs_append d bs fs = Some fs'" by (simp add: abs_append_def)
  obtain inner' where "close_frames (drop (Suc d) fs) = Some inner'"
    "frames_bytes fs' = frames_bytes (take (Suc d) fs) @ inner' @ bs"
    "frame_nodes 0 fs' = take (Suc d) (frame_nodes 0 fs)"
    by (rule abs_append_SomeD [OF fs' assms(2)])
  with i fs' show ?thesis by auto
qed

lemma cbb_with_base_ok:
  assumes r: "cbb_rep e N s fs" and "buf_result e N (f b) (map_option ((@) (frames_bytes fs)) bs)"
    and "cbb_base s = Some b"
  shows "if fst (cbb_with_base f s)
     then \<exists>x b'. bs = Some x \<and> cbb_base (snd (cbb_with_base f s)) = Some b'
            \<and> buf_rep e N b' (frames_bytes fs @ x)
            \<and> cbb_chain (snd (cbb_with_base f s)) = frame_nodes 0 fs
     else cbb_dead (snd (cbb_with_base f s))
       \<and> (\<forall>x. bs = Some x \<longrightarrow> N < length (frames_bytes fs @ x))"
  using assms by (cases "f b")
    (auto simp: cbb_with_base_def buf_result_def cbb_dead_def cbb_rep_def split: if_splits option.splits)

lemma cbb_refines_add:
  assumes f: "\<And>b c. buf_rep e N b c \<Longrightarrow> buf_result e N (f b) (map_option ((@) c) bs)"
  shows "cbb_refines e N d d (\<lambda>s. cbb_then (CBB_flush e s d) (cbb_with_base f))
           (\<lambda>fs. case bs of None \<Rightarrow> None | Some x \<Rightarrow> abs_append d x fs)"
  unfolding cbb_refines_def
proof (intro conjI allI impI)
  show "abs_grows d d (\<lambda>fs. case bs of None \<Rightarrow> None | Some x \<Rightarrow> abs_append d x fs)"
  proof (cases bs)
    case None then show ?thesis by (simp add: abs_grows_def)
  next
    case (Some x) with abs_append_grows [of d x] show ?thesis by simp
  qed
next
  fix s fs assume "cbb_rep e N s fs \<and> d < length fs"
  then have r: "cbb_rep e N s fs" and d: "d < length fs" by auto
  let ?r = "cbb_then (CBB_flush e s d) (cbb_with_base f)"
  let ?a = "case bs of None \<Rightarrow> None | Some x \<Rightarrow> abs_append d x fs"
  let ?s1 = "snd (CBB_flush e s d)"
  note F = cbb_refinesD [OF CBB_flush_refines r d]
  show "if fst ?r then \<exists>fs'. ?a = Some fs' \<and> cbb_rep e N (snd ?r) fs'
        else cbb_dead (snd ?r) \<and> (\<forall>fs'. ?a = Some fs' \<longrightarrow> N < length (frames_bytes fs'))"
  proof (cases "fst (CBB_flush e s d)")
    case True
    with F obtain fs1 where fs1: "abs_append d [] fs = Some fs1" "cbb_rep e N ?s1 fs1" by auto
    then obtain b where b: "cbb_base ?s1 = Some b" "buf_rep e N b (frames_bytes fs1)"
      by (auto simp: cbb_rep_def split: option.splits)
    note A = cbb_with_base_ok [where f = f, OF fs1(2) f [OF b(2)] b(1)]
    have eq: "?r = cbb_with_base f ?s1" using True by (simp add: cbb_then_def)
    have grown: "\<exists>fs'. ?a = Some fs' \<and> frames_bytes fs' = frames_bytes fs1 @ x
        \<and> frame_nodes 0 fs' = frame_nodes 0 fs1 \<and> list_all frame_ok (tl fs') \<and> fs' \<noteq> [] \<and> f_width (hd fs') = 0"
      if x: "bs = Some x" for x
    proof -
      obtain fs' where fs': "abs_append d x fs = Some fs'" "frames_bytes fs' = frames_bytes fs1 @ x"
        "frame_nodes 0 fs' = frame_nodes 0 fs1" using abs_append_add [OF fs1(1) d] by blast
      with abs_append_wf [OF fs'(1) d cbb_repD [OF r]] x r show ?thesis
        by (auto simp: cbb_rep_def)
    qed
    show ?thesis unfolding eq
    proof (cases "fst (cbb_with_base f ?s1)")
      case ok: True
      with A obtain x b' where "bs = Some x" "cbb_base (snd (cbb_with_base f ?s1)) = Some b'"
        "buf_rep e N b' (frames_bytes fs1 @ x)" "cbb_chain (snd (cbb_with_base f ?s1)) = frame_nodes 0 fs1"
        by auto
      with grown [of x] ok show "if fst (cbb_with_base f ?s1)
          then \<exists>fs'. ?a = Some fs' \<and> cbb_rep e N (snd (cbb_with_base f ?s1)) fs'
          else cbb_dead (snd (cbb_with_base f ?s1)) \<and> (\<forall>fs'. ?a = Some fs' \<longrightarrow> N < length (frames_bytes fs'))"
        by (auto simp: cbb_rep_def)
    next
      case False
      with A grown show "if fst (cbb_with_base f ?s1)
          then \<exists>fs'. ?a = Some fs' \<and> cbb_rep e N (snd (cbb_with_base f ?s1)) fs'
          else cbb_dead (snd (cbb_with_base f ?s1)) \<and> (\<forall>fs'. ?a = Some fs' \<longrightarrow> N < length (frames_bytes fs'))"
        by (fastforce split: option.splits)
    qed
  next
    case False
    have "N < length (frames_bytes fs')" if a: "?a = Some fs'" for fs'
    proof -
      obtain x where x: "abs_append d x fs = Some fs'" using a by (auto split: option.splits)
      then obtain fs1 where fs1: "abs_append d [] fs = Some fs1" by (auto simp: abs_append_def)
      have "N < length (frames_bytes fs1)" using F False fs1 by simp
      moreover have "frames_bytes fs' = frames_bytes fs1 @ x"
        using abs_append_add [OF fs1 d, of x] x by simp
      ultimately show ?thesis by simp
    qed
    with F False show ?thesis by (simp add: cbb_then_def)
  qed
qed

lemma cbb_refines_add_bytes:
  assumes "\<And>b c. buf_rep e N b c \<Longrightarrow> buf_result e N (f b) (Some (c @ x))"
  shows "cbb_refines e N d d (\<lambda>s. cbb_then (CBB_flush e s d) (cbb_with_base f)) (abs_append d x)"
  using cbb_refines_add [where bs = "Some x" and f = f and d = d] assms by simp

lemma be_bytes_1 [simp]: "be_bytes (Suc 0) (unat v) = [v]"
  by simp

lemma CBB_add_u8_refines [cbb_refine]:
  "cbb_refines e N d d (\<lambda>s. CBB_add_u8 e s d v) (abs_append d [v])"
  unfolding CBB_add_u8_def
  by (rule cbb_refines_add_bytes)
    (use cbb_buffer_add_u_ok [where v = "unat v" and n = 1] in \<open>simp add: be_bytes.simps\<close>)

lemma CBB_add_u16_refines [cbb_refine]:
  "cbb_refines e N d d (\<lambda>s. CBB_add_u16 e s d v) (abs_append d (be_bytes 2 (unat v)))"
  unfolding CBB_add_u16_def
  by (rule cbb_refines_add_bytes)
    (use cbb_buffer_add_u_ok [where v = "unat v" and n = 2] unsigned_less [of v, where ?'a = nat]
      in \<open>simp del: be_bytes.simps\<close>)

lemma CBB_add_u24_refines [cbb_refine]:
  "cbb_refines e N d d (\<lambda>s. CBB_add_u24 e s d v)
     (\<lambda>fs. if unat v < 2 ^ 24 then abs_append d (be_bytes 3 (unat v)) fs else None)"
  unfolding CBB_add_u24_def
  by (rule cbb_refines_cong [OF _ cbb_refines_add
        [where bs = "if unat v < 2 ^ 24 then Some (be_bytes 3 (unat v)) else None"]])
    (use cbb_buffer_add_u_ok [where v = "unat v" and n = 3] in \<open>auto simp del: be_bytes.simps\<close>)

lemma CBB_add_u32_refines [cbb_refine]:
  "cbb_refines e N d d (\<lambda>s. CBB_add_u32 e s d v) (abs_append d (be_bytes 4 (unat v)))"
  unfolding CBB_add_u32_def
  by (rule cbb_refines_add_bytes)
    (use cbb_buffer_add_u_ok [where v = "unat v" and n = 4] unsigned_less [of v, where ?'a = nat]
      in \<open>simp del: be_bytes.simps\<close>)

lemma CBB_add_bytes_refines [cbb_refine]:
  assumes "length data \<le> 9223372036854775807"
  shows "cbb_refines e N d d (\<lambda>s. CBB_add_bytes e s d data) (abs_append d data)"
  unfolding CBB_add_bytes_def
proof (rule cbb_refines_add_bytes)
  fix b c assume r: "buf_rep e N b c"
  obtain ok b1 where add: "cbb_buffer_add e b (length data) = (ok, b1)" by force
  note ok = cbb_buffer_add_ok [OF r assms]
  show "buf_result e N (cbb_then (cbb_buffer_add e b (length data))
          (\<lambda>b1. (True, b1\<lparr>b_buf := overwrite (b_buf b1) (b_len b) data\<rparr>))) (Some (c @ data))"
  proof (cases ok)
    case True
    with ok add obtain g where g: "length g = length data" "buf_rep e N b1 (c @ g)" by auto
    with buf_rep_overwrite [OF g(2), of "length c" data]
    have "buf_rep e N (b1\<lparr>b_buf := overwrite (b_buf b1) (length c) data\<rparr>) (c @ data)" by simp
    with True add buf_rep_len [OF r] show ?thesis by (simp add: cbb_then_def buf_result_def)
  next
    case False
    with ok add show ?thesis by (simp add: cbb_then_def buf_result_def)
  qed
qed

section \<open>Opening children\<close>

lemma cbb_refines_then_open:
  assumes f: "cbb_refines e N d d f (abs_append d bs)" and w: "frame_ok new" "f_data new = []"
    and g: "\<And>s fs. cbb_rep e N s fs \<Longrightarrow> length fs = Suc d \<Longrightarrow>
          if fst (g s) then cbb_rep e N (snd (g s)) (fs @ [new])
          else cbb_dead (snd (g s)) \<and> N < length (frames_bytes (fs @ [new]))"
  shows "cbb_refines e N d (Suc d) (\<lambda>s. cbb_then (f s) g) (abs_open d bs (f_width new) (f_asn1 new))"
proof -
  have new: "\<lparr>f_width = f_width new, f_asn1 = f_asn1 new, f_data = []\<rparr> = new" using w by simp
  have grows: "abs_grows d (Suc d) (abs_open d bs (f_width new) (f_asn1 new))"
    unfolding abs_grows_def
  proof (intro allI impI)
    fix fs fs' assume a: "d < length fs \<and> list_all frame_ok (tl fs)
        \<and> abs_open d bs (f_width new) (f_asn1 new) fs = Some fs'"
    then obtain fs1 where fs1: "abs_append d bs fs = Some fs1" "fs' = fs1 @ [new]"
      by (auto simp: abs_open_def new)
    with abs_append_wf [OF fs1(1)] a w
    show "length (frames_bytes fs) \<le> length (frames_bytes fs') \<and> list_all frame_ok (tl fs')
        \<and> Suc d < length fs'"
      by (cases fs1) auto
  qed
  show ?thesis unfolding cbb_refines_def
  proof (intro conjI allI impI grows)
    fix s fs assume "cbb_rep e N s fs \<and> d < length fs"
    then have r: "cbb_rep e N s fs" and d: "d < length fs" by auto
    note F = cbb_refinesD [OF f r d]
    show "if fst (cbb_then (f s) g)
          then \<exists>fs'. abs_open d bs (f_width new) (f_asn1 new) fs = Some fs'
                  \<and> cbb_rep e N (snd (cbb_then (f s) g)) fs'
          else cbb_dead (snd (cbb_then (f s) g))
            \<and> (\<forall>fs'. abs_open d bs (f_width new) (f_asn1 new) fs = Some fs' \<longrightarrow> N < length (frames_bytes fs'))"
    proof (cases "fst (f s)")
      case True
      with F obtain fs1 where fs1: "abs_append d bs fs = Some fs1" "cbb_rep e N (snd (f s)) fs1" by auto
      have "length fs1 = Suc d" using abs_append_wf [OF fs1(1) d cbb_repD [OF r]] by simp
      from g [OF fs1(2) this] fs1(1) True show ?thesis
        by (auto simp: abs_open_def cbb_then_def new)
    next
      case False
      with F show ?thesis by (auto simp: abs_open_def cbb_then_def)
    qed
  qed
qed

lemma cbb_rep_set_child:
  assumes r: "cbb_rep e N s fs" and l: "length fs = Suc d" and new: "frame_ok new" "f_data new = []"
    and s': "cbb_base s' = Some b'" "buf_rep e N b' (frames_bytes fs @ replicate (f_width new) 0)"
      "cbb_chain s' = cbb_chain s"
  shows "cbb_rep e N (cbb_set_child d \<lparr>n_offset = cbb_base_len s, n_pending_len_len = f_width new,
                                     n_pending_is_asn1 = f_asn1 new\<rparr> s') (fs @ [new])"
proof -
  obtain b where "cbb_base s = Some b" "buf_rep e N b (frames_bytes fs)"
    using r by (auto simp: cbb_rep_def split: option.splits)
  then have "cbb_base_len s = length (frames_bytes fs)"
    by (simp add: cbb_base_len_def buf_rep_len)
  moreover have "fs \<noteq> []" using r by (simp add: cbb_rep_def)
  ultimately show ?thesis using r l new s'
    by (simp add: cbb_rep_def cbb_set_child_def frame_nodes_append)
qed

lemma cbb_add_length_prefixed_refines:
  assumes w: "0 < w" "w \<le> 8"
  shows "cbb_refines e N d (Suc d) (\<lambda>s. cbb_add_length_prefixed e s d w) (abs_open d [] w False)"
proof -
  let ?new = "\<lparr>f_width = w, f_asn1 = False, f_data = []\<rparr>"
  let ?f = "\<lambda>off b. cbb_then (cbb_buffer_add e b w)
               (\<lambda>b1. (True, b1\<lparr>b_buf := overwrite (b_buf b1) off (replicate w 0)\<rparr>))"
  let ?g = "\<lambda>s1. cbb_then (cbb_with_base (?f (cbb_base_len s1)) s1)
      (\<lambda>s2. (True, cbb_set_child d \<lparr>n_offset = cbb_base_len s1, n_pending_len_len = w,
                                    n_pending_is_asn1 = False\<rparr> s2))"
  have new: "frame_ok ?new" using w by (simp add: frame_ok_def)
  have "cbb_refines e N d (Suc d) (\<lambda>s. cbb_then (CBB_flush e s d) ?g)
          (abs_open d [] (f_width ?new) (f_asn1 ?new))"
  proof (rule cbb_refines_then_open [OF CBB_flush_refines new])
    fix s fs assume r: "cbb_rep e N s fs" and l: "length fs = Suc d"
    obtain b where b: "cbb_base s = Some b" "buf_rep e N b (frames_bytes fs)"
      using r by (auto simp: cbb_rep_def split: option.splits)
    then have off: "cbb_base_len s = length (frames_bytes fs)"
      by (simp add: cbb_base_len_def buf_rep_len)
    obtain ok b1 where add: "cbb_buffer_add e b w = (ok, b1)" by force
    have ww: "w \<le> 9223372036854775807" using w by simp
    note A = cbb_buffer_add_ok [OF b(2) ww]
    show "if fst (?g s) then cbb_rep e N (snd (?g s)) (fs @ [?new])
          else cbb_dead (snd (?g s)) \<and> N < length (frames_bytes (fs @ [?new]))"
    proof (cases ok)
      case True
      with A add obtain g where g: "length g = w" "buf_rep e N b1 (frames_bytes fs @ g)" by auto
      let ?b = "b1\<lparr>b_buf := overwrite (b_buf b1) (cbb_base_len s) (replicate w 0)\<rparr>"
      let ?s = "s\<lparr>cbb_base := Some ?b\<rparr>"
      have "buf_rep e N ?b (frames_bytes fs @ replicate w 0)"
        using buf_rep_overwrite [OF g(2), of "length (frames_bytes fs)" "replicate w 0"] g(1) off by simp
      then have "cbb_rep e N (cbb_set_child d \<lparr>n_offset = cbb_base_len s, n_pending_len_len = f_width ?new,
          n_pending_is_asn1 = f_asn1 ?new\<rparr> ?s) (fs @ [?new])"
        by (intro cbb_rep_set_child [OF r l new, where b' = ?b]) simp_all
      moreover have "?g s = (True, cbb_set_child d \<lparr>n_offset = cbb_base_len s,
          n_pending_len_len = f_width ?new, n_pending_is_asn1 = f_asn1 ?new\<rparr> ?s)"
        using True add b by (simp add: cbb_with_base_def cbb_then_def)
      ultimately show ?thesis by simp
    next
      case False
      with A add b have "fst (?g s) = False" "cbb_base (snd (?g s)) = Some b1" "b_error b1"
          "N < length (frames_bytes fs) + w"
        by (simp_all add: cbb_with_base_def cbb_then_def)
      then show ?thesis by (simp add: cbb_dead_def)
    qed
  qed simp
  then show ?thesis by (simp add: cbb_add_length_prefixed_def Let_def)
qed

lemma CBB_add_length_prefixed_refines [cbb_refine]:
  "cbb_refines e N d (Suc d) (\<lambda>s. CBB_add_u8_length_prefixed e s d) (abs_open d [] 1 False)"
  "cbb_refines e N d (Suc d) (\<lambda>s. CBB_add_u16_length_prefixed e s d) (abs_open d [] 2 False)"
  "cbb_refines e N d (Suc d) (\<lambda>s. CBB_add_u24_length_prefixed e s d) (abs_open d [] 3 False)"
  unfolding CBB_add_u8_length_prefixed_def CBB_add_u16_length_prefixed_def
    CBB_add_u24_length_prefixed_def
  by (simp_all add: cbb_add_length_prefixed_refines)

end
