(* ===== verification/CBB_ASN1.thy ===== *)
theory CBB_ASN1
  imports CBB_Refine
begin

text \<open>
  The ASN.1 writers of theory CBB against the reference encoders of theory DER, and the
  round trips between the builder and the parser of theory CBS.
\<close>

section \<open>Base 128 and tags\<close>

text \<open>What the emitting loop writes.\<close>

fun base128_digits :: "nat \<Rightarrow> nat \<Rightarrow> u8 list" where
  "base128_digits v 0 = []"
| "base128_digits v (Suc i) =
     (let b = byte (v div 2 ^ (7 * i)) AND 0x7f
      in (if i \<noteq> 0 then b OR 0x80 else b) # base128_digits v i)"

lemma cbb_refines_append_then:
  assumes "cbb_refines e N d d f (abs_append d xs)" and "cbb_refines e N d d g (abs_append d ys)"
  shows "cbb_refines e N d d (\<lambda>s. cbb_then (f s) g) (abs_append d (xs @ ys))"
  using cbb_refines_then [OF assms] by (rule cbb_refines_cong [rotated]) (rule abs_append_append)

lemma cbb_then_return: "cbb_then r (\<lambda>s. (True, s)) = r"
  by (cases r) (simp add: cbb_then_def)

lemma base128_emit_loop_refines:
  "0 < n \<Longrightarrow> cbb_refines e N d d (\<lambda>s. base128_emit_loop e s d v n) (abs_append d (base128_digits v n))"
proof (induction n)
  case 0
  then show ?case by simp
next
  case (Suc n)
  show ?case
  proof (cases "n = 0")
    case True
    then show ?thesis by (simp add: cbb_then_return CBB_add_u8_refines)
  next
    case False
    let ?b = "byte (v div 2 ^ (7 * n)) AND 0x7f OR 0x80"
    have "cbb_refines e N d d (\<lambda>s. cbb_then (CBB_add_u8 e s d ?b) (\<lambda>s1. base128_emit_loop e s1 d v n))
        (abs_append d ([?b] @ base128_digits v n))"
      using Suc False by (intro cbb_refines_append_then CBB_add_u8_refines) simp
    with False show ?thesis by (simp add: Let_def)
  qed
qed

lemma byte_7f: "byte n AND 0x7f = byte (n mod 128)"
proof (rule unat_inject)
  have "n mod 256 mod 128 = n mod 128" by (rule mod_mod_cancel) simp
  moreover have "n mod 128 mod 256 = n mod 128"
    using mod_less_divisor [of 128 n] by (intro mod_less) linarith
  ultimately show "unat (byte n AND 0x7f) = unat (byte (n mod 128))" by simp
qed

lemma byte_or_80: "n < 128 \<Longrightarrow> byte n OR 0x80 = byte (n + 128)"
proof (rule unat_inject)
  assume n: "n < 128"
  have "unat (push_bit 7 1 OR byte n) = unat (1 :: u8) * 2 ^ 7 + unat (byte n)"
    using n by (intro unat_push_bit_or) auto
  with n show "unat (byte n OR 0x80) = unat (byte (n + 128))" by (simp add: or.commute)
qed

text \<open>The digits after the first \<open>n\<close>: those of the quotient, then the last one.\<close>

fun high_digits :: "nat \<Rightarrow> nat \<Rightarrow> u8 list" where
  "high_digits v 0 = []"
| "high_digits v (Suc i) = byte (v div 128 ^ i mod 128 + 128) # high_digits v i"

lemma high_digits_snoc:
  "high_digits v (Suc n) = high_digits (v div 128) n @ [byte (v mod 128 + 128)]"
  by (induction n) (simp_all add: div_mult2_eq)

lemma base128_digits_Suc:
  "base128_digits v (Suc n) = high_digits (v div 128) n @ [byte (v mod 128)]"
proof (induction n)
  case 0
  show ?case by (simp add: byte_7f)
next
  case (Suc n)
  have e: "v div 2 ^ (7 * Suc n) = v div 128 div 128 ^ n"
  proof -
    have "(2 :: nat) ^ (7 * Suc n) = (2 ^ 7) ^ Suc n" by (simp only: power_mult)
    then show ?thesis by (simp add: div_mult2_eq)
  qed
  show ?case
    using Suc by (subst base128_digits.simps) (simp add: Let_def byte_7f byte_or_80 e [simplified] del: base128_digits.simps)
qed

lemma high_digits_len_loop: "high_digits v (base128_len_loop v) = base128_high v"
proof (induction v rule: base128_high.induct)
  case (1 v)
  show ?case
  proof (cases "v = 0")
    case True
    then show ?thesis by (simp add: base128_len_loop.simps base128_high.simps)
  next
    case False
    have "high_digits v (base128_len_loop v) = high_digits v (Suc (base128_len_loop (v div 128)))"
      using False by (subst base128_len_loop.simps) simp
    also have "\<dots> = high_digits (v div 128) (base128_len_loop (v div 128)) @ [byte (v mod 128 + 128)]"
      by (rule high_digits_snoc)
    also have "\<dots> = base128_high v"
      using 1 False by (simp add: base128_high.simps [of v])
    finally show ?thesis .
  qed
qed

lemma base128_digits_len:
  "base128_digits v (if base128_len_loop v = 0 then 1 else base128_len_loop v) = base128 v"
proof (cases "v = 0")
  case True
  then show ?thesis by (simp add: base128_len_loop.simps base128_def base128_high.simps byte_7f)
next
  case False
  then have "base128_len_loop v = Suc (base128_len_loop (v div 128))"
    by (subst base128_len_loop.simps) simp
  then show ?thesis
    by (simp add: base128_digits_Suc high_digits_len_loop base128_def del: base128_digits.simps)
qed

lemma add_base128_integer_refines [cbb_refine]:
  "cbb_refines e N d d (\<lambda>s. add_base128_integer e s d v) (abs_append d (base128 (unat v)))"
  unfolding add_base128_integer_def Let_def base128_digits_len [symmetric]
  by (rule base128_emit_loop_refines) simp

lemma tag_class_byte:
  "(ucast (drop_bit CBS_ASN1_TAG_SHIFT tag AND 0xe0) :: u8) = push_bit 5 (ucast (drop_bit 29 (tag :: u32)))"
proof -
  have e: "(0xe0 :: u32) = push_bit 5 (mask 3)" by (simp add: mask_eq_exp_minus_1)
  show ?thesis unfolding e CBS_ASN1_TAG_SHIFT_def
    by (intro bit_word_eqI) (auto simp: bit_simps dest: bit_imp_le_length)
qed

lemma tag_class_or:
  assumes "unat m < 32"
  shows "(ucast (drop_bit CBS_ASN1_TAG_SHIFT tag AND 0xe0) OR m :: u8) = byte (tag_high tag * 32 + unat m)"
proof (rule unat_inject)
  have h: "unat (drop_bit 29 tag) = tag_high tag"
    by (simp only: unat_drop_bit_eq tag_high_def) (simp add: drop_bit_eq_div)
  then have "unat (ucast (drop_bit 29 tag) :: u8) = tag_high tag"
    using tag_high_less [of tag] by (simp only: unsigned_ucast_eq) (simp add: take_bit_eq_mod)
  then have "unat (push_bit 5 (ucast (drop_bit 29 tag) :: u8) OR m) = tag_high tag * 2 ^ 5 + unat m"
    using tag_high_less [of tag] assms by (subst unat_push_bit_or) simp_all
  then show "unat (ucast (drop_bit CBS_ASN1_TAG_SHIFT tag AND 0xe0) OR m :: u8)
      = unat (byte (tag_high tag * 32 + unat m))"
    using tag_high_less [of tag] assms by (simp add: tag_class_byte)
qed

section \<open>Elements\<close>

lemma tag_word_ge: "(tag AND CBS_ASN1_TAG_NUMBER_MASK) \<ge> 0x1f \<longleftrightarrow> \<not> tag_number tag < 31"
proof -
  have "unat (tag AND CBS_ASN1_TAG_NUMBER_MASK) = tag_number tag"
    by (simp only: tag_number_mask unat_and_mask tag_number_def)
  then show ?thesis by (simp add: word_le_nat_alt not_less)
qed

lemma tag_octets_refines:
  "cbb_refines e N d d
     (\<lambda>s. let tag_bits = (ucast (drop_bit CBS_ASN1_TAG_SHIFT tag AND 0xe0) :: u8);
              n = tag AND CBS_ASN1_TAG_NUMBER_MASK
          in if n \<ge> 0x1f
             then cbb_then (CBB_add_u8 e s d (tag_bits OR 0x1f)) (\<lambda>s2. add_base128_integer e s2 d (ucast n))
             else CBB_add_u8 e s d (tag_bits OR ucast n))
     (abs_append d (der_tag tag))"
proof -
  have n: "unat (tag AND CBS_ASN1_TAG_NUMBER_MASK) = tag_number tag"
    by (simp only: tag_number_mask unat_and_mask tag_number_def)
  show ?thesis
  proof (cases "tag_number tag < 31")
    case True
    have "unat (ucast (tag AND CBS_ASN1_TAG_NUMBER_MASK) :: u8) = tag_number tag"
      using True n by (simp only: unsigned_ucast_eq) (simp add: take_bit_eq_mod)
    then have "der_tag tag = [ucast (drop_bit CBS_ASN1_TAG_SHIFT tag AND 0xe0) OR
        ucast (tag AND CBS_ASN1_TAG_NUMBER_MASK)]"
      using True by (simp add: tag_class_or der_tag_eq)
    with True show ?thesis by (simp add: Let_def tag_word_ge CBB_add_u8_refines)
  next
    case False
    have "unat (ucast (tag AND CBS_ASN1_TAG_NUMBER_MASK) :: u64) = tag_number tag"
      using n by (simp add: unat_ucast_up)
    then have "der_tag tag = [ucast (drop_bit CBS_ASN1_TAG_SHIFT tag AND 0xe0) OR 0x1f]
        @ base128 (unat (ucast (tag AND CBS_ASN1_TAG_NUMBER_MASK) :: u64))"
      using False by (simp add: tag_class_or der_tag_eq)
    moreover have "cbb_refines e N d d
       (\<lambda>s. cbb_then (CBB_add_u8 e s d (ucast (drop_bit CBS_ASN1_TAG_SHIFT tag AND 0xe0) OR 0x1f))
              (\<lambda>s2. add_base128_integer e s2 d (ucast (tag AND CBS_ASN1_TAG_NUMBER_MASK))))
       (abs_append d ([ucast (drop_bit CBS_ASN1_TAG_SHIFT tag AND 0xe0) OR 0x1f]
          @ base128 (unat (ucast (tag AND CBS_ASN1_TAG_NUMBER_MASK) :: u64))))"
      by (intro cbb_refines_append_then cbb_refine)
    ultimately show ?thesis using False by (simp add: Let_def tag_word_ge)
  qed
qed

lemma abs_append_last:
  assumes "length fs = Suc d"
  shows "abs_append d bs fs = Some (take d fs @ [(fs ! d)\<lparr>f_data := f_data (fs ! d) @ bs\<rparr>])"
  using assms by (simp add: abs_append_def)

lemma CBB_add_asn1_refines [cbb_refine]:
  "cbb_refines e N d (Suc d) (\<lambda>s. CBB_add_asn1 e s d tag) (abs_open d (der_tag tag) 1 True)"
proof -
  let ?new = "\<lparr>f_width = 1, f_asn1 = True, f_data = []\<rparr>"
  let ?tags = "\<lambda>s. let tag_bits = (ucast (drop_bit CBS_ASN1_TAG_SHIFT tag AND 0xe0) :: u8);
              n = tag AND CBS_ASN1_TAG_NUMBER_MASK
          in if n \<ge> 0x1f
             then cbb_then (CBB_add_u8 e s d (tag_bits OR 0x1f)) (\<lambda>s2. add_base128_integer e s2 d (ucast n))
             else CBB_add_u8 e s d (tag_bits OR ucast n)"
  let ?g = "\<lambda>s2. let offset = cbb_base_len s2
                 in cbb_then (CBB_add_u8 e s2 d 0)
                      (\<lambda>s3. (True, cbb_set_child d \<lparr>n_offset = offset, n_pending_len_len = 1,
                                                    n_pending_is_asn1 = True\<rparr> s3))"
  have new: "frame_ok ?new" by (simp add: frame_ok_def)
  have head: "cbb_refines e N d d (\<lambda>s. cbb_then (CBB_flush e s d) ?tags) (abs_append d ([] @ der_tag tag))"
    by (intro cbb_refines_append_then CBB_flush_refines tag_octets_refines)
  have "cbb_refines e N d (Suc d) (\<lambda>s. cbb_then (cbb_then (CBB_flush e s d) ?tags) ?g)
          (abs_open d ([] @ der_tag tag) (f_width ?new) (f_asn1 ?new))"
  proof (rule cbb_refines_then_open [OF head new])
    fix s fs assume r: "cbb_rep e N s fs" and l: "length fs = Suc d"
    have d: "d < length fs" using l by simp
    obtain fs1 where fs1: "abs_append d [0] fs = Some fs1" using l by (simp add: abs_append_last)
    have fs0: "abs_append d [] fs = Some fs"
      using l by (simp add: abs_append_last id_take_nth_drop [of d fs, symmetric] take_Suc_conv_app_nth [symmetric])
    have fb: "frames_bytes fs1 = frames_bytes fs @ [0]" "frame_nodes 0 fs1 = frame_nodes 0 fs"
      using abs_append_add [OF fs0 d, of "[0]"] fs1 by auto
    note F = cbb_refinesD [OF CBB_add_u8_refines [where v = 0] r d]
    show "if fst (?g s) then cbb_rep e N (snd (?g s)) (fs @ [?new])
          else cbb_dead (snd (?g s)) \<and> N < length (frames_bytes (fs @ [?new]))"
    proof (cases "fst (CBB_add_u8 e s d 0)")
      case True
      with F fs1 have r1: "cbb_rep e N (snd (CBB_add_u8 e s d 0)) fs1" by simp
      then obtain b1 where b1: "cbb_base (snd (CBB_add_u8 e s d 0)) = Some b1"
        "buf_rep e N b1 (frames_bytes fs @ replicate (f_width ?new) 0)"
        "cbb_chain (snd (CBB_add_u8 e s d 0)) = cbb_chain s"
        using r fb by (auto simp: cbb_rep_def split: option.splits)
      with True cbb_rep_set_child [OF r l new _ b1] show ?thesis by (simp add: cbb_then_def Let_def)
    next
      case False
      with F fs1 fb show ?thesis by (simp add: cbb_then_def Let_def)
    qed
  qed simp
  moreover have "cbb_then (cbb_then r f) g = cbb_then r (\<lambda>s. cbb_then (f s) g)"
    for r :: "bool \<times> CBB" and f g by (simp add: cbb_then_def)
  ultimately show ?thesis by (simp add: CBB_add_asn1_def Let_def)
qed

lemma close_frames_one:
  "close_frames [f] = map_option (\<lambda>p. p @ f_data f) (frame_prefix f (length (f_data f)))"
  by simp

lemma abs_tlv:
  assumes "d < length fs"
  shows "Option.bind (abs_open d (der_tag tag) 1 True fs)
           (\<lambda>fs1. Option.bind (abs_append (Suc d) data fs1) (abs_append d []))
     = (if length data \<le> 0xfffffffe then abs_append d (der_tlv tag data) fs else None)"
proof (cases "abs_append d (der_tag tag) fs")
  case None
  then have "close_frames (drop (Suc d) fs) = None" by (simp add: abs_append_def)
  with None show ?thesis by (simp add: abs_open_def abs_append_def)
next
  case (Some fs1)
  let ?f = "\<lparr>f_width = 1, f_asn1 = True, f_data = data\<rparr>"
  have l: "length fs1 = Suc d" using Some assms by (auto simp: abs_append_def)
  have "Option.bind (abs_open d (der_tag tag) 1 True fs)
           (\<lambda>fs1. Option.bind (abs_append (Suc d) data fs1) (abs_append d []))
      = abs_append d [] (fs1 @ [?f])"
    using Some l by (simp add: abs_open_def abs_append_last nth_append)
  also have "\<dots> = (if length data \<le> 0xfffffffe then abs_append d (der_len (length data) @ data) fs1 else None)"
    using l by (simp add: abs_append_def nth_append frame_prefix_def)
  also have "\<dots> = (if length data \<le> 0xfffffffe then
       Option.bind (abs_append d (der_tag tag) fs) (abs_append d (der_len (length data) @ data)) else None)"
    using Some by simp
  also have "Option.bind (abs_append d (der_tag tag) fs) (abs_append d (der_len (length data) @ data))
      = abs_append d (der_tlv tag data) fs"
    unfolding abs_append_append [OF assms] der_tlv_def by simp
  finally show ?thesis .
qed

lemma cbb_refines_deeper: "cbb_refines e N d d' f a \<Longrightarrow> cbb_refines e N (Suc d) d' f a"
  unfolding cbb_refines_def abs_grows_def by (meson Suc_lessD)

text \<open>Writing a whole element: open it, fill it, flush it.\<close>

lemma cbb_refines_tlv:
  assumes "cbb_refines e N (Suc d) (Suc d) f (abs_append (Suc d) data)"
    and "length data \<le> 0xfffffffe"
  shows "cbb_refines e N d d
     (\<lambda>s. cbb_then (CBB_add_asn1 e s d tag) (\<lambda>s1. cbb_then (f s1) (\<lambda>s2. CBB_flush e s2 d)))
     (abs_append d (der_tlv tag data))"
proof -
  have fl: "cbb_refines e N (Suc d) d (\<lambda>s. CBB_flush e s d) (abs_append d [])"
    by (rule cbb_refines_deeper [OF CBB_flush_refines])
  show ?thesis
    by (rule cbb_refines_cong [OF _ cbb_refines_then [OF CBB_add_asn1_refines cbb_refines_then [OF assms(1) fl]]])
      (use assms(2) in \<open>simp add: abs_tlv del: One_nat_def\<close>)
qed

lemma CBB_add_asn1_octet_string_refines [cbb_refine]:
  "length data \<le> 0xfffffffe \<Longrightarrow>
     cbb_refines e N d d (\<lambda>s. CBB_add_asn1_octet_string e s d data)
       (abs_append d (der_tlv CBS_ASN1_OCTETSTRING data))"
  unfolding CBB_add_asn1_octet_string_def
  by (intro cbb_refines_tlv CBB_add_bytes_refines) simp_all

lemma CBB_add_asn1_bool_refines [cbb_refine]:
  "cbb_refines e N d d (\<lambda>s. CBB_add_asn1_bool e s d v)
     (abs_append d (der_tlv CBS_ASN1_BOOLEAN [if v \<noteq> 0 then 0xff else 0]))"
  unfolding CBB_add_asn1_bool_def
  by (intro cbb_refines_tlv CBB_add_u8_refines) simp

section \<open>Integers\<close>

lemma min_be_0: "min_be 0 = []"
  by simp

lemma dropWhile_be_bytes: "v < 256 ^ n \<Longrightarrow> dropWhile (\<lambda>b. b = 0) (be_bytes n v) = min_be v"
proof (induction n arbitrary: v)
  case 0
  then show ?case by (simp add: min_be_0)
next
  case (Suc n)
  have IH: "dropWhile (\<lambda>b. b = 0) (be_bytes n (v div 256)) = min_be (v div 256)"
    using Suc by (simp add: less_mult_imp_div_less mult.commute)
  show ?case
  proof (cases "v div 256 = 0")
    case True
    then have "\<forall>b \<in> set (be_bytes n (v div 256)). b = 0" using IH by (simp add: min_be_0 dropWhile_eq_Nil_conv)
    moreover have "byte v = 0 \<longleftrightarrow> v = 0"
      using True by (simp add: word_unat_eq_iff div_eq_0_iff)
    ultimately show ?thesis using True
      by (auto simp: dropWhile_append2 min_be.simps [of v] min_be_0)
  next
    case False
    then have "\<exists>b \<in> set (be_bytes n (v div 256)). b \<noteq> 0"
    proof -
      have "min_be (v div 256) \<noteq> []" using False by simp
      then have "dropWhile (\<lambda>b. b = 0) (be_bytes n (v div 256)) \<noteq> []" by (simp only: IH not_False_eq_True)
      then show ?thesis by (simp only: dropWhile_eq_Nil_conv) blast
    qed
    then obtain b where "b \<in> set (be_bytes n (v div 256))" "b \<noteq> 0" by blast
    then have "dropWhile (\<lambda>b. b = 0) (be_bytes (Suc n) v) = min_be (v div 256) @ [byte v]"
      using IH by (simp add: dropWhile_append1)
    moreover have "min_be v = min_be (v div 256) @ [byte v]"
    proof -
      have "v \<noteq> 0" using False by auto
      then show ?thesis by (subst min_be.simps) simp
    qed
    ultimately show ?thesis by simp
  qed
qed

text \<open>The bytes of the value in the order of the loop.\<close>

lemma be_bytes_nth: "be_bytes n v = map (\<lambda>i. byte (v div 256 ^ (n - 1 - i))) [0..<n]"
proof (induction n arbitrary: v)
  case 0
  then show ?case by simp
next
  case (Suc n)
  have "v div 256 div 256 ^ (n - 1 - i) = v div 256 ^ (n - i)" if "i < n" for i
  proof -
    have "n - i = Suc (n - 1 - i)" using that by simp
    then show ?thesis by (simp only: power_Suc div_mult2_eq)
  qed
  then show ?case using Suc [of "v div 256"] by simp
qed

lemma uint64_bytes:
  "map (\<lambda>i. ucast (drop_bit (8 * (7 - i)) v AND 0xff) :: u8) [0..<8] = be_bytes 8 (unat (v :: u64))"
proof -
  have b: "(ucast (drop_bit k v AND 0xff) :: u8) = byte (unat v div 2 ^ k)" for k
  proof (rule unat_inject)
    have "unat (drop_bit k v AND 0xff) = unat v div 2 ^ k mod 256"
    proof -
      have "unat (drop_bit k v AND 0xff) = unat (drop_bit k v) mod 256"
        using unat_and_mask [of "drop_bit k v" 8] by (simp add: mask_eq_exp_minus_1)
      also have "unat (drop_bit k v) = unat v div 2 ^ k"
        by (simp only: unat_drop_bit_eq) (simp add: drop_bit_eq_div)
      finally show ?thesis .
    qed
    then show "unat (ucast (drop_bit k v AND 0xff) :: u8) = unat (byte (unat v div 2 ^ k))"
      by (simp only: unsigned_ucast_eq) (simp add: take_bit_eq_mod)
  qed
  have p: "(2 :: nat) ^ (8 * (7 - i)) = 256 ^ (8 - 1 - i)" for i :: nat
    using power_mult [of "2 :: nat" 8 "7 - i"] by simp
  show ?thesis unfolding b p be_bytes_nth ..
qed

definition uint64_content :: "u8 list \<Rightarrow> bool \<Rightarrow> u8 list" where
  "uint64_content bs started =
     (if started then bs
      else let r = dropWhile (\<lambda>b. b = 0) bs in if r \<noteq> [] \<and> 128 \<le> unat (hd r) then 0 # r else r)"

text \<open>The loop without its flag, over the bytes it really writes.\<close>

fun add_all :: "env \<Rightarrow> CBB \<Rightarrow> nat \<Rightarrow> u8 list \<Rightarrow> bool \<times> CBB" where
  "add_all e s d [] = (True, s)"
| "add_all e s d (b # bs) = cbb_then (CBB_add_u8 e s d b) (\<lambda>s1. add_all e s1 d bs)"

lemma add_all_refines:
  "bs \<noteq> [] \<Longrightarrow> cbb_refines e N d d (\<lambda>s. add_all e s d bs) (abs_append d bs)"
proof (induction bs)
  case Nil
  then show ?case by simp
next
  case (Cons b bs)
  show ?case
  proof (cases "bs = []")
    case True
    then show ?thesis by (simp add: cbb_then_return CBB_add_u8_refines)
  next
    case False
    have "cbb_refines e N d d (\<lambda>s. cbb_then (CBB_add_u8 e s d b) (\<lambda>s1. add_all e s1 d bs))
        (abs_append d ([b] @ bs))"
      using Cons.IH False by (intro cbb_refines_append_then CBB_add_u8_refines)
    then show ?thesis by simp
  qed
qed

lemma asn1_uint64_emit_started:
  "asn1_uint64_emit e s d bs True = ((fst (add_all e s d bs), True), snd (add_all e s d bs))"
proof (induction bs arbitrary: s)
  case (Cons b bs)
  then show ?case by (cases "CBB_add_u8 e s d b") (auto simp: cbb_then_def)
qed simp

lemma ex_not: "\<exists>b. \<not> b"
  by (rule exI [of _ False]) simp

lemma asn1_uint64_emit_eq:
  "\<exists>st. asn1_uint64_emit e s d bs False =
     ((fst (add_all e s d (uint64_content bs False)), st), snd (add_all e s d (uint64_content bs False)))
   \<and> (fst (add_all e s d (uint64_content bs False)) \<longrightarrow> st = (uint64_content bs False \<noteq> []))"
proof (induction bs arbitrary: s)
  case Nil
  then show ?case by (simp add: uint64_content_def ex_not)
next
  case (Cons b bs)
  show ?case
  proof (cases "b = 0")
    case True
    then show ?thesis using Cons by (simp add: uint64_content_def)
  next
    case False
    obtain ok0 s0 where z: "CBB_add_u8 e s d 0 = (ok0, s0)" by force
    obtain ok1 s1 where a: "CBB_add_u8 e s d b = (ok1, s1)" by force
    obtain ok2 s2 where c: "CBB_add_u8 e s0 d b = (ok2, s2)" by force
    show ?thesis using False z a c
      by (cases ok0; cases ok1; cases ok2)
        (auto simp: uint64_content_def asn1_uint64_emit_started cbb_then_def u8_msb_iff ex_not)
  qed
qed

lemma CBB_add_asn1_uint64_eq:
  "CBB_add_asn1_uint64 e s d v =
     cbb_then (CBB_add_asn1 e s d CBS_ASN1_INTEGER) (\<lambda>s1.
       cbb_then (add_all e s1 (Suc d) (der_uint (unat v))) (\<lambda>s2. CBB_flush e s2 d))"
proof -
  let ?bs = "be_bytes 8 (unat v)"
  let ?c = "uint64_content ?bs False"
  have vb: "unat v < 2 ^ 64" using unsigned_less [of v, where ?'a = nat] by simp
  have "dropWhile (\<lambda>b. b = 0) ?bs = min_be (unat v)"
    using vb by (intro dropWhile_be_bytes) simp
  then have c: "der_uint (unat v) = (if ?c = [] then [0] else ?c)"
    by (auto simp: uint64_content_def der_uint_def)
  have "(case asn1_uint64_emit e s1 (Suc d) ?bs False of ((ok, started), s2) \<Rightarrow>
           cbb_then (ok, s2) (\<lambda>s2.
             cbb_then (if \<not> started then CBB_add_u8 e s2 (Suc d) 0 else (True, s2))
               (\<lambda>s3. CBB_flush e s3 d)))
      = cbb_then (add_all e s1 (Suc d) (der_uint (unat v))) (\<lambda>s2. CBB_flush e s2 d)" for s1
    using asn1_uint64_emit_eq [of e s1 "Suc d" ?bs] unfolding c
    by (cases "add_all e s1 (Suc d) ?c"; cases "?c = []") (auto simp: cbb_then_def)
  then show ?thesis by (simp only: CBB_add_asn1_uint64_def uint64_bytes)
qed

lemma CBB_add_asn1_uint64_refines [cbb_refine]:
  "cbb_refines e N d d (\<lambda>s. CBB_add_asn1_uint64 e s d v)
     (abs_append d (der_tlv CBS_ASN1_INTEGER (der_uint (unat v))))"
proof -
  have "unat v < 2 ^ 64" using unsigned_less [of v, where ?'a = nat] by simp
  from length_der_uint [OF this] show ?thesis
    unfolding CBB_add_asn1_uint64_eq
    by (intro cbb_refines_tlv add_all_refines) (auto simp: der_uint_def)
qed

end
