(* ===== verification/CBB_Props.thy ===== *)
theory CBB_Props
  imports CBB_ASN1
begin

text \<open>
  The properties of the builder: the simulation of the abstract builder by every
  operation, the behaviour after an error, and the end-to-end round trip of nested DER
  elements through \<open>CBB_init\<close>, the writers, \<open>CBB_finish\<close> and the parser.
\<close>

section \<open>Beginning and finishing\<close>

definition cbb_top :: "bb_frame list" where
  "cbb_top = [\<lparr>f_width = 0, f_asn1 = False, f_data = []\<rparr>]"

definition cbb_grant :: "env \<Rightarrow> nat \<Rightarrow> nat \<Rightarrow> bool" where
  "cbb_grant e N cp \<longleftrightarrow> N \<le> cp \<or> (cp \<le> 2 * N \<and> (\<forall>n \<le> 2 * N + OPENSSL_MALLOC_PREFIX. malloc_ok e n))"

lemma CBB_init_rep:
  assumes e: "malloc_sane e" and cap: "cp + OPENSSL_MALLOC_PREFIX \<le> 9223372036854775807"
    and g: "cbb_grant e N cp"
  shows "fst (CBB_init e cp) \<Longrightarrow> cbb_rep e N (snd (CBB_init e cp)) cbb_top"
proof -
  assume ok: "fst (CBB_init e cp)"
  have "length (blk_bytes (OPENSSL_malloc e cp)) = cp"
  proof (cases "OPENSSL_malloc e cp")
    case None
    with ok show ?thesis by (auto simp: CBB_init_def blk_bytes_def split: if_splits)
  next
    case (Some b)
    moreover have "length (blk_data b) = cp"
      using OPENSSL_malloc_size [OF Some] cap by (simp add: size_max_num)
    ultimately show ?thesis by (simp add: blk_bytes_def)
  qed
  with ok e cap g show ?thesis
    by (auto simp: CBB_init_def cbb_init_def cbb_rep_def cbb_top_def buf_rep_def cbb_room_def
        cbb_grant_def CBB_zero_def Let_def split: if_splits option.splits)
qed

lemma CBB_init_ok:
  "malloc_ok e (cp + OPENSSL_MALLOC_PREFIX) \<Longrightarrow> malloc_ok e 40 \<Longrightarrow>
     cp + OPENSSL_MALLOC_PREFIX \<le> SIZE_MAX \<Longrightarrow> fst (CBB_init e cp)"
  by (auto simp: CBB_init_def cbb_init_def OPENSSL_malloc_def Let_def size_simps
      OPENSSL_MALLOC_PREFIX_def size_add_exact size_max_num split: option.splits)

lemma CBB_init_fixed_rep:
  assumes "malloc_sane e" and "length buf = n" and "n + OPENSSL_MALLOC_PREFIX \<le> 9223372036854775807"
    and "N \<le> n" and "fst (CBB_init_fixed e buf n)"
  shows "cbb_rep e N (snd (CBB_init_fixed e buf n)) cbb_top"
  using assms
  by (auto simp: CBB_init_fixed_def cbb_init_def cbb_rep_def cbb_top_def buf_rep_def cbb_room_def
      CBB_zero_def cbb_then_def split: if_splits option.splits)

lemma CBB_finish_rep:
  assumes r: "cbb_rep e N s fs"
  shows "case CBB_finish e s 0 True of
           (Some (buf, n), s') \<Rightarrow> \<exists>inner. close_frames (tl fs) = Some inner \<and> n \<le> length buf
                \<and> take n buf = f_data (hd fs) @ inner \<and> cbb_base s' = None
         | (None, s') \<Rightarrow> cbb_dead s' \<and>
             (\<forall>inner. close_frames (tl fs) = Some inner \<longrightarrow> N < length (f_data (hd fs) @ inner))"
proof -
  obtain f fs1 where fs: "fs = f # fs1" "f_width f = 0"
    using r by (cases fs) (auto simp: cbb_rep_def)
  obtain ok s1 where fl: "CBB_flush e s 0 = (ok, s1)" by force
  have d: "0 < length fs" using fs by simp
  note F = cbb_refinesD [OF CBB_flush_refines r d]
  show ?thesis
  proof (cases ok)
    case True
    with F fl obtain fs' where fs': "abs_append 0 [] fs = Some fs'" "cbb_rep e N s1 fs'" by auto
    then obtain inner where inner: "close_frames fs1 = Some inner" "frames_bytes fs' = f_data f @ inner"
      using fs by (auto simp: abs_append_def)
    obtain b where b: "cbb_base s1 = Some b" "buf_rep e N b (frames_bytes fs')"
      using fs'(2) by (auto simp: cbb_rep_def split: option.splits)
    with True fl inner fs show ?thesis
      by (auto simp: CBB_finish_def CBB_cleanup_def buf_rep_def)
  next
    case False
    with F fl fs show ?thesis by (auto simp: CBB_finish_def abs_append_def)
  qed
qed

lemma CBB_discard_child_rep:
  assumes r: "cbb_rep e N s fs" and d: "d < length fs"
  shows "cbb_rep e N (CBB_discard_child s d) (take (Suc d) fs)"
proof (cases "length fs \<le> Suc d")
  case True
  with r show ?thesis by (simp add: CBB_discard_child_def cbb_rep_def)
next
  case False
  obtain b where b: "cbb_base s = Some b" "buf_rep e N b (frames_bytes fs)"
    using r by (auto simp: cbb_rep_def split: option.splits)
  let ?p = "take (Suc d) fs"
  have nodes: "cbb_chain s = frame_nodes 0 (?p @ drop (Suc d) fs)"
    and bytes: "frames_bytes fs = frames_bytes ?p @ frames_bytes (drop (Suc d) fs)"
    using r by (simp_all add: cbb_rep_def frames_bytes_simps(3) [symmetric] del: frames_bytes_simps)
  obtain g gs where g: "drop (Suc d) fs = g # gs" using False by (cases "drop (Suc d) fs") auto
  have "cbb_chain s ! Suc d = \<lparr>n_offset = length (frames_bytes ?p), n_pending_len_len = f_width g,
      n_pending_is_asn1 = f_asn1 g\<rparr>"
    unfolding nodes frame_nodes_append g using d False by (simp add: nth_append min_def)
  moreover have "take (Suc d) (cbb_chain s) = frame_nodes 0 ?p"
    unfolding nodes frame_nodes_append using False by simp
  moreover have "buf_rep e N (b\<lparr>b_len := length (frames_bytes ?p)\<rparr>) (frames_bytes ?p)"
  proof -
    have "take (length (frames_bytes ?p)) (b_buf b) = take (length (frames_bytes ?p)) (take (b_len b) (b_buf b))"
      using buf_rep_len [OF b(2)] bytes by (simp add: min_def)
    also have "\<dots> = frames_bytes ?p" using b(2) bytes by (simp add: buf_rep_def)
    finally show ?thesis using b(2) buf_rep_len [OF b(2)] bytes
      by (auto simp: buf_rep_def cbb_room_def)
  qed
  moreover have "list_all frame_ok (tl ?p)"
    using cbb_repD [OF r] by (simp add: list_all_length nth_tl)
  ultimately show ?thesis using b r False d
    by (cases fs) (auto simp: CBB_discard_child_def cbb_rep_def)
qed

lemma cbb_repD_base:
  assumes "cbb_rep e N s fs"
  obtains b where "cbb_base s = Some b" and "buf_rep e N b (frames_bytes fs)"
  using assms by (auto simp: cbb_rep_def split: option.splits)

text \<open>Room set aside, and bytes taken over from it.\<close>

lemma CBB_reserve_rep:
  assumes r: "cbb_rep e N s fs" and d: "d < length fs" and n: "n \<le> 9223372036854775807"
  shows "case CBB_reserve e s d n of
      (True, s') \<Rightarrow> \<exists>fs'. abs_append d [] fs = Some fs' \<and> cbb_rep e N s' fs' \<and> length fs' = Suc d
        \<and> (\<exists>b. cbb_base s' = Some b \<and> length (frames_bytes fs') + n \<le> b_cap b)
    | (False, s') \<Rightarrow> cbb_dead s' \<and> (\<forall>fs'. abs_append d [] fs = Some fs' \<longrightarrow> N < length (frames_bytes fs') + n)"
proof (cases "fst (CBB_flush e s d)")
  case True
  let ?s1 = "snd (CBB_flush e s d)"
  from cbb_refinesD [OF CBB_flush_refines r d] True obtain fs1 where
    fs1: "abs_append d [] fs = Some fs1" "cbb_rep e N ?s1 fs1" by auto
  obtain b where b: "cbb_base ?s1 = Some b" "buf_rep e N b (frames_bytes fs1)" by (rule cbb_repD_base [OF fs1(2)])
  have l: "length fs1 = Suc d" using abs_append_wf [OF fs1(1) d cbb_repD [OF r]] by simp
  have eq: "CBB_reserve e s d n = (case cbb_buffer_reserve e b n of (ok, b') \<Rightarrow> (ok, ?s1\<lparr>cbb_base := Some b'\<rparr>))"
    using True b(1) by (simp add: CBB_reserve_def cbb_then_def cbb_with_base_def)
  show ?thesis using cbb_buffer_reserve_ok [OF b(2) n] fs1 l unfolding eq
    by (auto simp: cbb_rep_def cbb_dead_def split: prod.splits bool.splits)
next
  case False
  with cbb_refinesD [OF CBB_flush_refines r d] show ?thesis
    by (cases "CBB_flush e s d") (auto simp: CBB_reserve_def cbb_then_def intro: trans_less_add1)
qed

lemma abs_append_nothing:
  "length fs = Suc d \<Longrightarrow> abs_append d [] fs = Some fs"
  by (simp add: abs_append_last id_take_nth_drop [of d fs, symmetric] take_Suc_conv_app_nth [symmetric])

text \<open>Bytes are taken over where no child is open; the builder is left as it was otherwise.\<close>

lemma CBB_did_write_rep:
  assumes r: "cbb_rep e N s fs" and d: "d < length fs" and n: "n \<le> 9223372036854775807"
    and b: "cbb_base s = Some b"
  shows "if length fs = Suc d \<and> length (frames_bytes fs) + n \<le> b_cap b
     then \<exists>g fs'. CBB_did_write s d n = (True, s\<lparr>cbb_base := Some (b\<lparr>b_len := b_len b + n\<rparr>)\<rparr>) \<and> length g = n
       \<and> abs_append d g fs = Some fs' \<and> cbb_rep e N (s\<lparr>cbb_base := Some (b\<lparr>b_len := b_len b + n\<rparr>)\<rparr>) fs'
     else CBB_did_write s d n = (False, s)"
proof -
  have br: "buf_rep e N b (frames_bytes fs)" using cbb_repD_base [OF r] b by auto
  note len = buf_rep_len [OF br]
  have chain: "length (cbb_chain s) = length fs" using r by (simp add: cbb_rep_def)
  have cap: "b_len b \<le> 9223372036854775807" using buf_rep_le [OF br] len by simp
  have add: "size_add (b_len b) n = b_len b + n" using cap n by (simp add: size_add_exact size_max_num)
  let ?b = "b\<lparr>b_len := b_len b + n\<rparr>"
  have run: "CBB_did_write s d n = (if Suc d < length fs \<or> b_cap b < b_len b + n then (False, s)
      else (True, s\<lparr>cbb_base := Some ?b\<rparr>))"
    using b chain by (cases s) (simp add: CBB_did_write_def cbb_with_base_def Let_def add)
  show ?thesis
  proof (cases "length fs = Suc d \<and> length (frames_bytes fs) + n \<le> b_cap b")
    case True
    let ?g = "take n (drop (b_len b) (b_buf b))"
    have "take (b_len b + n) (b_buf b) = frames_bytes fs @ ?g" using br by (simp add: take_add buf_rep_def)
    then have b': "buf_rep e N ?b (frames_bytes fs @ ?g)" using br True len by (simp add: buf_rep_def cbb_room_def)
    have "length (b_buf b) = b_cap b" using br by (simp add: buf_rep_def)
    then have "n \<le> length (b_buf b) - b_len b" using True len by linarith
    then have g: "length ?g = n" by simp
    from abs_append_nothing [of fs d] True have "abs_append d [] fs = Some fs" by simp
    from abs_append_add [OF this d, of ?g] obtain fs' where
      fs': "abs_append d ?g fs = Some fs'" "frames_bytes fs' = frames_bytes fs @ ?g" "frame_nodes 0 fs' = frame_nodes 0 fs"
      by blast
    from abs_append_wf [OF fs'(1) d cbb_repD [OF r]] r b' fs'(2,3)
    have "cbb_rep e N (s\<lparr>cbb_base := Some ?b\<rparr>) fs'" by (auto simp: cbb_rep_def)
    with True run fs'(1) g len show ?thesis by (simp only: if_True simp_thms not_less [symmetric]) (rule exI [of _ ?g], auto)
  next
    case False
    with run d len show ?thesis by auto
  qed
qed

lemma CBB_add_space_eq:
  assumes "cbb_rep e N s fs" and "d < length fs" and "n \<le> 9223372036854775807"
  shows "CBB_add_space e s d n = cbb_then (CBB_reserve e s d n) (\<lambda>s. CBB_did_write s d n)"
proof (cases "CBB_reserve e s d n")
  case (Pair ok s1)
  show ?thesis
  proof (cases ok)
    case True
    with CBB_reserve_rep [OF assms] Pair obtain fs1 b where
      f: "cbb_rep e N s1 fs1" "length fs1 = Suc d" "cbb_base s1 = Some b" "length (frames_bytes fs1) + n \<le> b_cap b" by auto
    have "CBB_did_write s1 d n = (True, s1\<lparr>cbb_base := Some (b\<lparr>b_len := b_len b + n\<rparr>)\<rparr>)"
      using CBB_did_write_rep [OF f(1) _ assms(3) f(3), of d] f(2,4) by auto
    moreover have "CBB_add_space e s d n = (True, s1\<lparr>cbb_base := Some (b\<lparr>b_len := b_len b + n\<rparr>)\<rparr>)"
      using Pair True f(3)
      by (auto simp: CBB_add_space_def CBB_reserve_def cbb_then_def cbb_with_base_def cbb_buffer_add_def
          split: if_splits option.splits prod.splits)
    ultimately show ?thesis using Pair True by (simp add: cbb_then_def)
  next
    case False
    with Pair show ?thesis
      by (auto simp: CBB_add_space_def CBB_reserve_def cbb_then_def cbb_with_base_def cbb_buffer_add_def
          split: if_splits option.splits prod.splits)
  qed
qed

lemma CBB_add_space_rep:
  assumes r: "cbb_rep e N s fs" and d: "d < length fs" and n: "n \<le> 9223372036854775807"
  shows "case CBB_add_space e s d n of
      (True, s') \<Rightarrow> \<exists>g fs'. length g = n \<and> abs_append d g fs = Some fs' \<and> cbb_rep e N s' fs'
    | (False, s') \<Rightarrow> cbb_dead s' \<and> (\<forall>g fs'. length g = n \<and> abs_append d g fs = Some fs' \<longrightarrow> N < length (frames_bytes fs'))"
proof (cases "CBB_reserve e s d n")
  case (Pair ok s1)
  note R = CBB_reserve_rep [OF assms]
  show ?thesis
  proof (cases ok)
    case True
    with R Pair obtain fs1 b where
      f: "abs_append d [] fs = Some fs1" "cbb_rep e N s1 fs1" "length fs1 = Suc d" "cbb_base s1 = Some b"
        "length (frames_bytes fs1) + n \<le> b_cap b" by auto
    from CBB_did_write_rep [OF f(2) _ n f(4), of d] f(3,5) obtain g fs' where
      w: "CBB_did_write s1 d n = (True, s1\<lparr>cbb_base := Some (b\<lparr>b_len := b_len b + n\<rparr>)\<rparr>)" "length g = n"
        "abs_append d g fs1 = Some fs'" "cbb_rep e N (s1\<lparr>cbb_base := Some (b\<lparr>b_len := b_len b + n\<rparr>)\<rparr>) fs'" by auto
    have "abs_append d g fs = Some fs'" using abs_append_append [OF d, of "[]" g] f(1) w(3) by simp
    then show ?thesis using w Pair True by (auto simp: CBB_add_space_eq [OF assms] cbb_then_def)
  next
    case False
    have "N < length (frames_bytes fs')" if "length g = n" "abs_append d g fs = Some fs'" for g fs'
    proof -
      from that(2) obtain fs1 where f: "abs_append d [] fs = Some fs1" by (auto simp: abs_append_def)
      from abs_append_add [OF f d, of g] that have "length (frames_bytes fs') = length (frames_bytes fs1) + n" by auto
      with R Pair False f show ?thesis by auto
    qed
    with R Pair False show ?thesis by (auto simp: CBB_add_space_eq [OF assms] cbb_then_def)
  qed
qed


text \<open>An allocator that serves up to a megabyte.\<close>

definition small_env :: env where
  "small_env = \<lparr>malloc_ok = (\<lambda>n. n \<le> 1048576), fresh = (\<lambda>_. 0xaa)\<rparr>"

text \<open>C2: the operations of the builder simulate their abstract counterparts. The C
  state keeps one shared buffer with offsets, placeholder length bytes, growth by doubling
  and contents moved when a long-form ASN.1 length turns out to be needed; the abstract
  builder is a stack of open strings. Flushing, writing bytes, integers and whole ASN.1 values, and
  opening a child, on the \<open>CBB\<close> at depth \<open>d\<close>, either succeed and leave a state that represents
  the abstract result, or fail and leave a builder in the error state, and the latter only if the
  abstract operation has no result (a content too long for its length prefix, a 24-bit value out
  of range) or the result exceeds the granted room \<open>N\<close>. \<open>CBB_add_space\<close> appends \<open>n\<close> bytes of
  unspecified content under the same terms. \<open>CBB_reserve\<close> flushes and makes room; \<open>CBB_did_write\<close>
  then takes over the \<open>n\<close> bytes in that room, exactly when no child is open and they are within
  the capacity, and leaves the builder unchanged, without an error, otherwise. \<open>CBB_discard_child\<close>
  drops the open children and their bytes. (\<open>CBB_add_asn1_oid_from_text\<close> and the SET OF writer have
  theorems of their own.)\<close>

theorem CBB_operations_refine:
  assumes "length data \<le> 0xfffffffe" and "n \<le> 9223372036854775807"
  shows "cbb_refines e N d d (\<lambda>s. CBB_flush e s d) (abs_append d [])
    \<and> cbb_refines e N d d (\<lambda>s. CBB_add_bytes e s d data) (abs_append d data)
    \<and> cbb_refines e N d d (\<lambda>s. CBB_add_u8 e s d b) (abs_append d [b])
    \<and> cbb_refines e N d d (\<lambda>s. CBB_add_u16 e s d h) (abs_append d (be_bytes 2 (unat h)))
    \<and> cbb_refines e N d d (\<lambda>s. CBB_add_u24 e s d w)
        (\<lambda>fs. if unat w < 2 ^ 24 then abs_append d (be_bytes 3 (unat w)) fs else None)
    \<and> cbb_refines e N d d (\<lambda>s. CBB_add_u32 e s d w) (abs_append d (be_bytes 4 (unat w)))
    \<and> cbb_refines e N d (Suc d) (\<lambda>s. CBB_add_u8_length_prefixed e s d) (abs_open d [] 1 False)
    \<and> cbb_refines e N d (Suc d) (\<lambda>s. CBB_add_u16_length_prefixed e s d) (abs_open d [] 2 False)
    \<and> cbb_refines e N d (Suc d) (\<lambda>s. CBB_add_u24_length_prefixed e s d) (abs_open d [] 3 False)
    \<and> cbb_refines e N d (Suc d) (\<lambda>s. CBB_add_asn1 e s d tag) (abs_open d (der_tag tag) 1 True)
    \<and> cbb_refines e N d d (\<lambda>s. CBB_add_asn1_uint64 e s d v)
        (abs_append d (der_tlv CBS_ASN1_INTEGER (der_uint (unat v))))
    \<and> cbb_refines e N d d (\<lambda>s. CBB_add_asn1_bool e s d p)
        (abs_append d (der_tlv CBS_ASN1_BOOLEAN [if p \<noteq> 0 then 0xff else 0]))
    \<and> cbb_refines e N d d (\<lambda>s. CBB_add_asn1_octet_string e s d data)
        (abs_append d (der_tlv CBS_ASN1_OCTETSTRING data))
    \<and> (cbb_rep e N s fs \<and> d < length fs \<longrightarrow>
        (case CBB_add_space e s d n of
           (True, s') \<Rightarrow> \<exists>g fs'. length g = n \<and> abs_append d g fs = Some fs' \<and> cbb_rep e N s' fs'
         | (False, s') \<Rightarrow> cbb_dead s' \<and>
             (\<forall>g fs'. length g = n \<and> abs_append d g fs = Some fs' \<longrightarrow> N < length (frames_bytes fs')))
      \<and> (case CBB_reserve e s d n of
           (True, s') \<Rightarrow> \<exists>fs'. abs_append d [] fs = Some fs' \<and> cbb_rep e N s' fs' \<and> length fs' = Suc d
             \<and> (\<exists>b. cbb_base s' = Some b \<and> length (frames_bytes fs') + n \<le> b_cap b)
         | (False, s') \<Rightarrow> cbb_dead s' \<and>
             (\<forall>fs'. abs_append d [] fs = Some fs' \<longrightarrow> N < length (frames_bytes fs') + n))
      \<and> (\<exists>b. cbb_base s = Some b \<and>
           (if length fs = Suc d \<and> length (frames_bytes fs) + n \<le> b_cap b
            then \<exists>g fs' s'. CBB_did_write s d n = (True, s') \<and> length g = n
              \<and> abs_append d g fs = Some fs' \<and> cbb_rep e N s' fs'
            else CBB_did_write s d n = (False, s)))
      \<and> cbb_rep e N (CBB_discard_child s d) (take (Suc d) fs))"
proof (intro conjI impI)
  assume "cbb_rep e N s fs \<and> d < length fs"
  then have r: "cbb_rep e N s fs" and d: "d < length fs" by simp_all
  obtain b where b: "cbb_base s = Some b" by (rule cbb_repD_base [OF r])
  show "\<exists>b. cbb_base s = Some b \<and>
           (if length fs = Suc d \<and> length (frames_bytes fs) + n \<le> b_cap b
            then \<exists>g fs' s'. CBB_did_write s d n = (True, s') \<and> length g = n
              \<and> abs_append d g fs = Some fs' \<and> cbb_rep e N s' fs'
            else CBB_did_write s d n = (False, s))"
    using CBB_did_write_rep [OF r d assms(2) b] b by (auto split: if_splits)
  show "case CBB_add_space e s d n of
           (True, s') \<Rightarrow> \<exists>g fs'. length g = n \<and> abs_append d g fs = Some fs' \<and> cbb_rep e N s' fs'
         | (False, s') \<Rightarrow> cbb_dead s' \<and>
             (\<forall>g fs'. length g = n \<and> abs_append d g fs = Some fs' \<longrightarrow> N < length (frames_bytes fs'))"
    by (rule CBB_add_space_rep [OF r d assms(2)])
  show "case CBB_reserve e s d n of
           (True, s') \<Rightarrow> \<exists>fs'. abs_append d [] fs = Some fs' \<and> cbb_rep e N s' fs' \<and> length fs' = Suc d
             \<and> (\<exists>b. cbb_base s' = Some b \<and> length (frames_bytes fs') + n \<le> b_cap b)
         | (False, s') \<Rightarrow> cbb_dead s' \<and>
             (\<forall>fs'. abs_append d [] fs = Some fs' \<longrightarrow> N < length (frames_bytes fs') + n)"
    by (rule CBB_reserve_rep [OF r d assms(2)])
  show "cbb_rep e N (CBB_discard_child s d) (take (Suc d) fs)" by (rule CBB_discard_child_rep [OF r d])
qed (rule cbb_refine; use assms(1) in simp)+

theorem CBB_operations_refine_witness:
  "cbb_refines small_env 100 0 0 (\<lambda>s. CBB_add_bytes small_env s 0 [1, 2, 3]) (abs_append 0 [1, 2, 3])"
  using CBB_operations_refine [of "[1, 2, 3]" 0 small_env 100 0] by simp

section \<open>After an error\<close>

lemma CBB_flush_dead: "cbb_dead s \<Longrightarrow> \<not> fst (CBB_flush e s d) \<and> cbb_dead (snd (CBB_flush e s d))"
  by (cases "drop (Suc d) (cbb_chain s)")
    (auto simp: cbb_dead_def CBB_flush_def split: option.splits)

lemma cbb_then_dead:
  "cbb_dead s \<Longrightarrow> \<not> fst (cbb_then (CBB_flush e s d) f) \<and> cbb_dead (snd (cbb_then (CBB_flush e s d) f))"
  using CBB_flush_dead by (simp add: cbb_then_def)

text \<open>How an operation on the \<open>CBB\<close> at depth \<open>d\<close> treats errors: if it fails on a builder of that
  depth the builder is dead afterwards, and on a dead builder it fails and leaves it dead.\<close>

definition cbb_sticky :: "nat \<Rightarrow> (CBB \<Rightarrow> bool \<times> CBB) \<Rightarrow> bool" where
  "cbb_sticky d f \<longleftrightarrow>
     (\<forall>s. (d < length (cbb_chain s) \<and> \<not> fst (f s) \<longrightarrow> cbb_dead (snd (f s)))
        \<and> (cbb_dead s \<longrightarrow> \<not> fst (f s) \<and> cbb_dead (snd (f s)))
        \<and> (d < length (cbb_chain s) \<longrightarrow> d < length (cbb_chain (snd (f s)))))"

lemma cbb_stickyI:
  assumes "\<And>s. d < length (cbb_chain s) \<Longrightarrow> \<not> fst (f s) \<Longrightarrow> cbb_dead (snd (f s))"
    and "\<And>s. cbb_dead s \<Longrightarrow> \<not> fst (f s) \<and> cbb_dead (snd (f s))"
    and "\<And>s. d < length (cbb_chain s) \<Longrightarrow> d < length (cbb_chain (snd (f s)))"
  shows "cbb_sticky d f"
  using assms by (auto simp: cbb_sticky_def)

lemma cbb_sticky_then:
  assumes "cbb_sticky d f" and "cbb_sticky d g"
  shows "cbb_sticky d (\<lambda>s. cbb_then (f s) g)"
  using assms unfolding cbb_sticky_def cbb_then_def by simp

lemma cbb_flush_kids_sticky:
  "\<not> fst (cbb_flush_kids e b kids) \<Longrightarrow> b_error (fst (snd (cbb_flush_kids e b kids)))"
  by (induction e b kids rule: cbb_flush_kids.induct)
    (auto simp: Let_def split: prod.splits if_splits)

lemma CBB_flush_sticky: "cbb_sticky d (\<lambda>s. CBB_flush e s d)"
proof (rule cbb_stickyI)
  fix s :: CBB assume d: "d < length (cbb_chain s)"
  show "cbb_dead (snd (CBB_flush e s d))" if "\<not> fst (CBB_flush e s d)"
  proof (cases "cbb_base s")
    case (Some b)
    with that d cbb_flush_kids_sticky [of e b "drop (Suc d) (cbb_chain s)"] show ?thesis
      by (auto simp: CBB_flush_def cbb_dead_def split: prod.splits)
  qed (simp add: CBB_flush_def cbb_dead_def)
  show "d < length (cbb_chain (snd (CBB_flush e s d)))"
    using d by (auto simp: CBB_flush_def split: option.splits prod.splits)
qed (rule CBB_flush_dead)

lemma cbb_buffer_reserve_sticky: "\<not> fst (cbb_buffer_reserve e b n) \<Longrightarrow> b_error (snd (cbb_buffer_reserve e b n))"
  by (auto simp: cbb_buffer_reserve_def Let_def split: option.splits if_splits)

lemma cbb_buffer_add_sticky: "\<not> fst (cbb_buffer_add e b n) \<Longrightarrow> b_error (snd (cbb_buffer_add e b n))"
  using cbb_buffer_reserve_sticky [of e b n] by (auto simp: cbb_buffer_add_def cbb_then_def split: if_splits)

lemma cbb_buffer_add_u_sticky: "\<not> fst (cbb_buffer_add_u e b v n) \<Longrightarrow> b_error (snd (cbb_buffer_add_u e b v n))"
  using cbb_buffer_add_sticky [of e b n]
  by (auto simp: cbb_buffer_add_u_def cbb_then_def Let_def split: if_splits prod.splits)

text \<open>A flush and then a step on the shared buffer.\<close>

lemma cbb_sticky_base:
  assumes "\<And>b. \<not> fst (f b) \<Longrightarrow> b_error (snd (f b))"
  shows "cbb_sticky d (\<lambda>s. cbb_then (CBB_flush e s d) (cbb_with_base f))"
proof (rule cbb_stickyI)
  fix s :: CBB assume d: "d < length (cbb_chain s)"
  have fl: "\<not> fst (CBB_flush e s d) \<Longrightarrow> cbb_dead (snd (CBB_flush e s d))"
    "d < length (cbb_chain (snd (CBB_flush e s d)))"
    using CBB_flush_sticky [of d e] d by (auto simp: cbb_sticky_def)
  then show "d < length (cbb_chain (snd (cbb_then (CBB_flush e s d) (cbb_with_base f))))"
    by (auto simp: cbb_then_def cbb_with_base_def split: option.splits prod.splits)
  show "cbb_dead (snd (cbb_then (CBB_flush e s d) (cbb_with_base f)))"
    if "\<not> fst (cbb_then (CBB_flush e s d) (cbb_with_base f))"
  proof (cases "fst (CBB_flush e s d)")
    case True
    then have r: "cbb_then (CBB_flush e s d) (cbb_with_base f) = cbb_with_base f (snd (CBB_flush e s d))"
      by (simp add: cbb_then_def)
    show ?thesis
    proof (cases "cbb_base (snd (CBB_flush e s d))")
      case (Some b)
      with that assms [of b] show ?thesis unfolding r by (cases "f b") (simp add: cbb_with_base_def cbb_dead_def)
    qed (simp add: r cbb_with_base_def cbb_dead_def)
  next
    case False
    with fl(1) show ?thesis by (simp add: cbb_then_def)
  qed
qed (rule cbb_then_dead)

lemma CBB_add_u8_sticky: "cbb_sticky d (\<lambda>s. CBB_add_u8 e s d b)"
  unfolding CBB_add_u8_def by (rule cbb_sticky_base) (rule cbb_buffer_add_u_sticky)

text \<open>A last step that cannot fail, and steps on a child just opened.\<close>

lemma cbb_sticky_done:
  assumes "cbb_sticky d f" and "\<And>s s'. d < length (cbb_chain s') \<Longrightarrow> d < length (cbb_chain (h s s'))"
  shows "cbb_sticky d (\<lambda>s. cbb_then (f s) (\<lambda>s'. (True, h s s')))"
  using assms unfolding cbb_sticky_def cbb_then_def by simp

lemma cbb_sticky_child:
  assumes "cbb_sticky d f" and "\<And>s. d < length (cbb_chain s) \<Longrightarrow> fst (f s) \<Longrightarrow> Suc d < length (cbb_chain (snd (f s)))"
    and "cbb_sticky (Suc d) g" and "cbb_sticky d h"
  shows "cbb_sticky d (\<lambda>s. cbb_then (f s) (\<lambda>s1. cbb_then (g s1) h))"
proof (rule cbb_stickyI)
  let ?r = "\<lambda>s. cbb_then (f s) (\<lambda>s1. cbb_then (g s1) h)"
  fix s :: CBB
  note f = assms(1) [unfolded cbb_sticky_def, rule_format, of s]
    and g = assms(3) [unfolded cbb_sticky_def, rule_format, of "snd (f s)"]
    and h = assms(4) [unfolded cbb_sticky_def, rule_format, of "snd (g (snd (f s)))"]
  show "\<not> fst (?r s) \<and> cbb_dead (snd (?r s))" if "cbb_dead s" using that f by (simp add: cbb_then_def)
  assume d: "d < length (cbb_chain s)"
  have gd: "d < length (cbb_chain (snd (g (snd (f s)))))" if "fst (f s)"
    using assms(2) [OF d that] g by (simp add: Suc_lessD)
  show "d < length (cbb_chain (snd (?r s)))" using f d gd h by (simp add: cbb_then_def)
  show "cbb_dead (snd (?r s))" if "\<not> fst (?r s)"
    using that f g h gd assms(2) [OF d] d by (simp add: cbb_then_def split: if_splits)
qed

lemma base128_emit_sticky: "cbb_sticky d (\<lambda>s. base128_emit_loop e s d v (Suc n))"
proof (induction n)
  case 0
  show ?case unfolding base128_emit_loop.simps Let_def
    by (rule cbb_sticky_done [OF CBB_add_u8_sticky, where h = "\<lambda>s s'. s'"])
next
  case (Suc n)
  show ?case unfolding base128_emit_loop.simps(2) [of e _ d v "Suc n"] Let_def
    by (rule cbb_sticky_then [OF CBB_add_u8_sticky Suc])
qed

lemma add_base128_sticky: "cbb_sticky d (\<lambda>s. add_base128_integer e s d v)"
proof -
  obtain n where "(let l = base128_len_loop (unat v) in if l = 0 then 1 else l) = Suc n"
    by (cases "base128_len_loop (unat v)") auto
  then show ?thesis using base128_emit_sticky [of d e "unat v" n] by (simp add: add_base128_integer_def Let_def)
qed

lemma length_set_child: "d < length (cbb_chain s) \<Longrightarrow> length (cbb_chain (cbb_set_child d node s)) = d + 2"
  by (simp add: cbb_set_child_def)

text \<open>The identifier octets, and then the placeholder and the new child.\<close>

lemma CBB_add_asn1_parts:
  obtains f g where "\<And>s. CBB_add_asn1 e s d tag = cbb_then (f s) g" and "cbb_sticky d f" and "cbb_sticky d g"
    and "\<And>s. d < length (cbb_chain s) \<Longrightarrow> fst (g s) \<Longrightarrow> Suc d < length (cbb_chain (snd (g s)))"
proof -
  let ?n = "tag AND CBS_ASN1_TAG_NUMBER_MASK"
  let ?t = "ucast (drop_bit CBS_ASN1_TAG_SHIFT tag AND 0xe0) :: u8"
  let ?id = "\<lambda>s1. if ?n \<ge> 0x1f then cbb_then (CBB_add_u8 e s1 d (?t OR 0x1f)) (\<lambda>s2. add_base128_integer e s2 d (ucast ?n))
      else CBB_add_u8 e s1 d (?t OR ucast ?n)"
  let ?g = "\<lambda>s2. cbb_then (CBB_add_u8 e s2 d 0) (\<lambda>s3. (True, cbb_set_child d
      \<lparr>n_offset = cbb_base_len s2, n_pending_len_len = 1, n_pending_is_asn1 = True\<rparr> s3))"
  have id: "cbb_sticky d ?id"
    by (cases "?n \<ge> 0x1f")
      (simp_all only: if_True if_False cbb_sticky_then [OF CBB_add_u8_sticky add_base128_sticky] CBB_add_u8_sticky)
  show ?thesis
  proof (rule that)
    show "CBB_add_asn1 e s d tag = cbb_then (cbb_then (CBB_flush e s d) ?id) ?g" for s
      by (simp add: CBB_add_asn1_def Let_def cbb_then_def)
    show "cbb_sticky d (\<lambda>s. cbb_then (CBB_flush e s d) ?id)" by (rule cbb_sticky_then [OF CBB_flush_sticky id])
    show "cbb_sticky d ?g" by (rule cbb_sticky_done [OF CBB_add_u8_sticky]) (simp add: length_set_child)
    fix s :: CBB assume "d < length (cbb_chain s)" and ok: "fst (?g s)"
    then have "d < length (cbb_chain (snd (CBB_add_u8 e s d 0)))"
      using CBB_add_u8_sticky [of d e 0] by (simp add: cbb_sticky_def)
    with ok show "Suc d < length (cbb_chain (snd (?g s)))" by (simp add: cbb_then_def length_set_child split: if_splits)
  qed
qed

lemma CBB_add_asn1_sticky: "cbb_sticky d (\<lambda>s. CBB_add_asn1 e s d tag)"
  by (rule CBB_add_asn1_parts [of e d tag]) (simp add: cbb_sticky_then)

lemma CBB_add_asn1_opens:
  assumes d: "d < length (cbb_chain s)" and ok: "fst (CBB_add_asn1 e s d tag)"
  shows "Suc d < length (cbb_chain (snd (CBB_add_asn1 e s d tag)))"
proof (rule CBB_add_asn1_parts [of e d tag])
  fix f g
  assume p: "\<And>s. CBB_add_asn1 e s d tag = cbb_then (f s) g" "cbb_sticky d f"
    "\<And>s. d < length (cbb_chain s) \<Longrightarrow> fst (g s) \<Longrightarrow> Suc d < length (cbb_chain (snd (g s)))"
  then have "d < length (cbb_chain (snd (f s)))" using d by (simp add: cbb_sticky_def)
  with p(3) ok show ?thesis by (simp add: p(1) cbb_then_def split: if_splits)
qed

lemma add_all_sticky: "bs \<noteq> [] \<Longrightarrow> cbb_sticky d (\<lambda>s. add_all e s d bs)"
proof (induction bs rule: list_nonempty_induct)
  case (single b)
  show ?case using cbb_sticky_done [OF CBB_add_u8_sticky, where h = "\<lambda>s s'. s'"] by simp
next
  case (cons b bs)
  from cbb_sticky_then [OF CBB_add_u8_sticky cons(2)] show ?case by simp
qed

lemma CBB_add_asn1_child_sticky:
  "cbb_sticky (Suc d) g \<Longrightarrow> cbb_sticky d (\<lambda>s. cbb_then (CBB_add_asn1 e s d tag) (\<lambda>s1. cbb_then (g s1) (\<lambda>s2. CBB_flush e s2 d)))"
  by (rule cbb_sticky_child [OF CBB_add_asn1_sticky CBB_add_asn1_opens _ CBB_flush_sticky])

lemma cbb_add_length_prefixed_sticky: "cbb_sticky d (\<lambda>s. cbb_add_length_prefixed e s d k)"
proof -
  let ?w = "\<lambda>s1. cbb_with_base (\<lambda>b. cbb_then (cbb_buffer_add e b k)
      (\<lambda>b1. (True, b1\<lparr>b_buf := overwrite (b_buf b1) (cbb_base_len s1) (replicate k 0)\<rparr>))) s1"
  have w: "(\<not> fst (?w s) \<longrightarrow> cbb_dead (snd (?w s))) \<and> cbb_chain (snd (?w s)) = cbb_chain s" for s :: CBB
  proof (cases "cbb_base s")
    case (Some b)
    with cbb_buffer_add_sticky [of e b k] show ?thesis
      by (cases "cbb_buffer_add e b k") (auto simp: cbb_with_base_def cbb_then_def cbb_dead_def)
  qed (simp add: cbb_with_base_def cbb_dead_def)
  show ?thesis
  proof (rule cbb_stickyI)
    fix s :: CBB
    note fl = CBB_flush_sticky [of d e, unfolded cbb_sticky_def, rule_format, of s]
    show "\<not> fst (cbb_add_length_prefixed e s d k) \<and> cbb_dead (snd (cbb_add_length_prefixed e s d k))" if "cbb_dead s"
      using that fl by (simp add: cbb_add_length_prefixed_def cbb_then_def)
    assume d: "d < length (cbb_chain s)"
    show "cbb_dead (snd (cbb_add_length_prefixed e s d k))" if "\<not> fst (cbb_add_length_prefixed e s d k)"
      using that fl d w [of "snd (CBB_flush e s d)"]
      by (auto simp: cbb_add_length_prefixed_def cbb_then_def Let_def split: if_splits)
    show "d < length (cbb_chain (snd (cbb_add_length_prefixed e s d k)))"
      using fl d w [of "snd (CBB_flush e s d)"]
      by (auto simp: cbb_add_length_prefixed_def cbb_then_def Let_def length_set_child split: if_splits)
  qed
qed

lemma CBB_bytes_sticky:
  shows "cbb_sticky d (\<lambda>s. CBB_add_bytes e s d data)" and "cbb_sticky d (\<lambda>s. CBB_add_space e s d n)"
    and "cbb_sticky d (\<lambda>s. CBB_reserve e s d n)" and "cbb_sticky d (\<lambda>s. CBB_add_u16 e s d h)"
    and "cbb_sticky d (\<lambda>s. CBB_add_u24 e s d w)" and "cbb_sticky d (\<lambda>s. CBB_add_u32 e s d w)"
proof -
  have "\<not> fst (cbb_then (cbb_buffer_add e b n) (\<lambda>b. (True, f b))) \<Longrightarrow>
      b_error (snd (cbb_then (cbb_buffer_add e b n) (\<lambda>b. (True, f b))))" for b n and f :: "cbb_buffer \<Rightarrow> cbb_buffer"
    using cbb_buffer_add_sticky [of e b n] by (simp add: cbb_then_def split: if_splits)
  then show "cbb_sticky d (\<lambda>s. CBB_add_bytes e s d data)"
    unfolding CBB_add_bytes_def by (intro cbb_sticky_base)
  show "cbb_sticky d (\<lambda>s. CBB_add_space e s d n)"
    unfolding CBB_add_space_def by (intro cbb_sticky_base cbb_buffer_add_sticky)
  show "cbb_sticky d (\<lambda>s. CBB_reserve e s d n)"
    unfolding CBB_reserve_def by (intro cbb_sticky_base cbb_buffer_reserve_sticky)
  show "cbb_sticky d (\<lambda>s. CBB_add_u16 e s d h)" "cbb_sticky d (\<lambda>s. CBB_add_u24 e s d w)"
    "cbb_sticky d (\<lambda>s. CBB_add_u32 e s d w)"
    unfolding CBB_add_u16_def CBB_add_u24_def CBB_add_u32_def
    by (rule cbb_sticky_base, rule cbb_buffer_add_u_sticky, assumption)+
qed


text \<open>A fixed buffer of one byte, and a second byte that does not fit.\<close>

definition full_builder :: CBB where
  "full_builder = snd (CBB_add_u16 small_env (snd (CBB_init_fixed small_env [0] 1)) 0 7)"


section \<open>Writing nested elements and reading them back\<close>

text \<open>A client that writes a tree of elements, each inner one into the \<open>CBB\<close> that
  \<open>CBB_add_asn1\<close> hands out for the outer one, and the encoding it should produce.\<close>

datatype der_value = DPrim u32 "u8 list" | DNode u32 "der_value list"

fun cbb_write :: "env \<Rightarrow> nat \<Rightarrow> der_value \<Rightarrow> CBB \<Rightarrow> bool \<times> CBB"
  and cbb_write_all :: "env \<Rightarrow> nat \<Rightarrow> der_value list \<Rightarrow> CBB \<Rightarrow> bool \<times> CBB" where
  "cbb_write e d (DPrim tag data) s =
     cbb_then (CBB_add_asn1 e s d tag) (\<lambda>s1.
       cbb_then (CBB_add_bytes e s1 (Suc d) data) (\<lambda>s2. CBB_flush e s2 d))"
| "cbb_write e d (DNode tag vs) s =
     cbb_then (CBB_add_asn1 e s d tag) (\<lambda>s1.
       cbb_then (cbb_write_all e (Suc d) vs s1) (\<lambda>s2. CBB_flush e s2 d))"
| "cbb_write_all e d [] s = CBB_flush e s d"
| "cbb_write_all e d (v # vs) s = cbb_then (cbb_write e d v s) (cbb_write_all e d vs)"

fun der_tag_of :: "der_value \<Rightarrow> u32" where
  "der_tag_of (DPrim tag data) = tag"
| "der_tag_of (DNode tag vs) = tag"

fun der_encode :: "der_value \<Rightarrow> u8 list" and der_content :: "der_value \<Rightarrow> u8 list" where
  "der_content (DPrim tag data) = data"
| "der_content (DNode tag vs) = concat (map der_encode vs)"
| "der_encode v = der_tlv (der_tag_of v) (der_content v)"

declare der_encode.simps [simp del]

fun der_fits :: "der_value \<Rightarrow> bool" where
  "der_fits (DPrim tag data) = (length data \<le> 0xfffffffe)"
| "der_fits (DNode tag vs) =
     (length (der_content (DNode tag vs)) \<le> 0xfffffffe \<and> list_all der_fits vs)"

lemma cbb_write_all_refines:
  "(\<And>v d. v \<in> set vs \<Longrightarrow> cbb_refines e N d d (cbb_write e d v) (abs_append d (der_encode v))) \<Longrightarrow>
     cbb_refines e N d d (cbb_write_all e d vs) (abs_append d (concat (map der_encode vs)))"
proof (induction vs)
  case Nil
  then show ?case using CBB_flush_refines [of e N d] by simp
next
  case (Cons v vs)
  have "cbb_refines e N d d (\<lambda>s. cbb_then (cbb_write e d v s) (cbb_write_all e d vs))
      (abs_append d (der_encode v @ concat (map der_encode vs)))"
    by (rule cbb_refines_append_then) (use Cons in auto)
  then show ?case by simp
qed

lemma cbb_write_refines:
  "der_fits v \<Longrightarrow> cbb_refines e N d d (cbb_write e d v) (abs_append d (der_encode v))"
proof (induction v arbitrary: d)
  case (DPrim tag data)
  then have "cbb_refines e N d d
     (\<lambda>s. cbb_then (CBB_add_asn1 e s d tag)
        (\<lambda>s1. cbb_then (CBB_add_bytes e s1 (Suc d) data) (\<lambda>s2. CBB_flush e s2 d)))
     (abs_append d (der_tlv tag data))"
    by (intro cbb_refines_tlv CBB_add_bytes_refines) simp_all
  then show ?case by (simp add: der_encode.simps)
next
  case (DNode tag vs)
  have "cbb_refines e N (Suc d) (Suc d) (cbb_write_all e (Suc d) vs)
      (abs_append (Suc d) (concat (map der_encode vs)))"
    by (rule cbb_write_all_refines) (use DNode in \<open>auto simp: list_all_iff\<close>)
  moreover have "length (concat (map der_encode vs)) \<le> 0xfffffffe" using DNode.prems by simp
  ultimately have "cbb_refines e N d d
     (\<lambda>s. cbb_then (CBB_add_asn1 e s d tag)
        (\<lambda>s1. cbb_then (cbb_write_all e (Suc d) vs s1) (\<lambda>s2. CBB_flush e s2 d)))
     (abs_append d (der_tlv tag (concat (map der_encode vs))))"
    by (rule cbb_refines_tlv)
  then show ?case by (simp add: der_encode.simps)
qed

lemma der_fits_content: "der_fits v \<Longrightarrow> length (der_content v) \<le> 0xfffffffe"
  by (cases v) simp_all

text \<open>C3: the end-to-end round trip. With an allocator that grants what doubling up to the
  size of the encoding asks for, writing any tree of elements through the builder never
  fails, \<open>CBB_finish\<close> hands out exactly its DER encoding, and \<open>CBS_get_asn1\<close> reads the
  content of the outer element back from it, whatever bytes follow.\<close>

theorem CBB_der_roundtrip:
  assumes "malloc_sane e" and "cp + OPENSSL_MALLOC_PREFIX \<le> 9223372036854775807"
    and "malloc_ok e (cp + OPENSSL_MALLOC_PREFIX)" and "malloc_ok e 40"
    and "cbb_grant e (length (der_encode v)) cp" and "der_fits v"
  shows "\<exists>s1 s2 s3 buf n. CBB_init e cp = (True, s1) \<and> cbb_write e 0 v s1 = (True, s2)
    \<and> CBB_finish e s2 0 True = (Some (buf, n), s3) \<and> take n buf = der_encode v
    \<and> CBS_get_asn1 (take n buf @ rest) (der_tag_of v) = (Some (der_content v), rest)"
proof -
  let ?N = "length (der_encode v)"
  let ?top = "\<lparr>f_width = 0, f_asn1 = False, f_data = der_encode v\<rparr>"
  obtain s1 where s1: "CBB_init e cp = (True, s1)"
    using CBB_init_ok [OF assms(3,4)] assms(2) by (cases "CBB_init e cp") (auto simp: size_max_num)
  with CBB_init_rep [OF assms(1,2,5)] have r1: "cbb_rep e ?N s1 cbb_top" by simp
  obtain ok s2 where s2: "cbb_write e 0 v s1 = (ok, s2)" by force
  have a: "abs_append 0 (der_encode v) cbb_top = Some [?top]"
    by (simp add: abs_append_def cbb_top_def)
  have "frames_bytes [?top] = der_encode v" by simp
  with a cbb_refinesD [OF cbb_write_refines [OF assms(6)] r1, of 0] s2
  have w: "ok" "cbb_rep e ?N s2 [?top]"
    by (auto simp: cbb_top_def split: if_splits)
  obtain r s3 where fin: "CBB_finish e s2 0 True = (r, s3)" by force
  from CBB_finish_rep [OF w(2)] fin obtain buf n where f: "r = Some (buf, n)" "take n buf = der_encode v"
    by (cases r) auto
  have "CBS_get_asn1 (der_encode v @ rest) (der_tag_of v) = (Some (der_content v), rest)"
    using der_fits_content [OF assms(6)] by (simp add: CBS_get_asn1_iff der_encode.simps)
  with s1 s2 w(1) fin f show ?thesis by auto
qed

theorem CBB_der_roundtrip_witness:
  "\<exists>s1 s2 s3 buf n. CBB_init small_env 0 = (True, s1)
    \<and> cbb_write small_env 0 (DNode 0x20000010 [DPrim CBS_ASN1_INTEGER [5], DPrim 0x8000001f []]) s1 = (True, s2)
    \<and> CBB_finish small_env s2 0 True = (Some (buf, n), s3)
    \<and> take n buf = der_encode (DNode 0x20000010 [DPrim CBS_ASN1_INTEGER [5], DPrim 0x8000001f []])
    \<and> CBS_get_asn1 (take n buf @ []) 0x20000010
        = (Some (der_content (DNode 0x20000010 [DPrim CBS_ASN1_INTEGER [5], DPrim 0x8000001f []])), [])"
proof -
  let ?v = "DNode 0x20000010 [DPrim CBS_ASN1_INTEGER [5], DPrim 0x8000001f []]"
  have len: "length (der_encode ?v) = 8" by code_simp
  have "malloc_sane small_env" by (simp add: malloc_sane_def small_env_def)
  moreover have "cbb_grant small_env (length (der_encode ?v)) 0"
    unfolding len by (simp add: cbb_grant_def small_env_def OPENSSL_MALLOC_PREFIX_def)
  moreover have "der_fits ?v" using len by (simp add: der_encode.simps der_tlv_def)
  ultimately show ?thesis
    using CBB_der_roundtrip [of small_env 0 ?v "[]"]
    by (simp add: small_env_def OPENSSL_MALLOC_PREFIX_def del: der_content.simps)
qed

end
