(* ===== verification/Libc.thy ===== *)
theory Libc
  imports Prelude
begin

text \<open>
  The contracts of \<open>qsort\<close> and \<open>bsearch\<close>, which the containers and the SET OF writer call
  with a comparison function. The C standard fixes neither the algorithm nor the order of
  elements that compare equal, so the two functions are parameters and these locales state
  what their documentation promises; both promise something only for a comparison function
  that is a total preorder. The reference functions at the end satisfy the contracts.
\<close>

section \<open>Comparison functions\<close>

text \<open>A comparison function orders the elements of \<open>A\<close>: its sign is antisymmetric and
  \<open>\<le> 0\<close> is transitive.\<close>

definition cmp_order :: "('a \<Rightarrow> 'a \<Rightarrow> int) \<Rightarrow> 'a set \<Rightarrow> bool" where
  "cmp_order cmp A \<longleftrightarrow>
     (\<forall>x\<in>A. \<forall>y\<in>A. cmp x y < 0 \<longleftrightarrow> 0 < cmp y x)
     \<and> (\<forall>x\<in>A. \<forall>y\<in>A. \<forall>z\<in>A. cmp x y \<le> 0 \<longrightarrow> cmp y z \<le> 0 \<longrightarrow> cmp x z \<le> 0)"

abbreviation cmp_sorted :: "('a \<Rightarrow> 'a \<Rightarrow> int) \<Rightarrow> 'a list \<Rightarrow> bool" where
  "cmp_sorted cmp \<equiv> sorted_wrt (\<lambda>x y. cmp x y \<le> 0)"

lemma cmp_order_subset: "cmp_order cmp A \<Longrightarrow> B \<subseteq> A \<Longrightarrow> cmp_order cmp B"
  unfolding cmp_order_def by blast

lemma cmp_flip: "cmp_order cmp A \<Longrightarrow> x \<in> A \<Longrightarrow> y \<in> A \<Longrightarrow> cmp x y < 0 \<longleftrightarrow> 0 < cmp y x"
  unfolding cmp_order_def by blast

lemma cmp_trans:
  "cmp_order cmp A \<Longrightarrow> x \<in> A \<Longrightarrow> y \<in> A \<Longrightarrow> z \<in> A \<Longrightarrow> cmp x y \<le> 0 \<Longrightarrow> cmp y z \<le> 0 \<Longrightarrow> cmp x z \<le> 0"
  unfolding cmp_order_def by blast

lemma cmp_total: "cmp_order cmp A \<Longrightarrow> x \<in> A \<Longrightarrow> y \<in> A \<Longrightarrow> cmp x y \<le> 0 \<or> cmp y x \<le> 0"
  using cmp_flip [of cmp A x y] by auto

lemma cmp_refl: "cmp_order cmp A \<Longrightarrow> x \<in> A \<Longrightarrow> cmp x x = 0"
  using cmp_flip [of cmp A x x] by (cases "cmp x x" "0 :: int" rule: linorder_cases) auto

lemma cmp_eq_0: "cmp_order cmp A \<Longrightarrow> x \<in> A \<Longrightarrow> y \<in> A \<Longrightarrow> cmp x y = 0 \<longleftrightarrow> cmp x y \<le> 0 \<and> cmp y x \<le> 0"
  using cmp_flip [of cmp A x y] cmp_flip [of cmp A y x] by (auto simp: not_less [symmetric])

lemma cmp_order_by_key:
  fixes key :: "'a \<Rightarrow> 'b :: linorder"
  assumes "\<And>x y. (cmp x y < 0) = (key x < key y)" and "\<And>x y. (0 < cmp x y) = (key y < key x)"
  shows "cmp_order cmp A"
proof -
  have "cmp x y \<le> 0 \<longleftrightarrow> key x \<le> key y" for x y
    using assms(2) [of x y] by (simp add: not_less [symmetric])
  with assms show ?thesis by (auto simp: cmp_order_def)
qed

text \<open>What \<open>bsearch\<close> asks of the array: the elements below the key, the elements equal to
  it and the elements above it come in this order.\<close>

definition cmp_partitioned :: "('a \<Rightarrow> 'a \<Rightarrow> int) \<Rightarrow> 'a \<Rightarrow> 'a list \<Rightarrow> bool" where
  "cmp_partitioned cmp key xs \<longleftrightarrow>
     sorted_wrt (\<lambda>x y. (cmp key x \<le> 0 \<longrightarrow> cmp key y \<le> 0) \<and> (cmp key x < 0 \<longrightarrow> cmp key y < 0)) xs"

lemma cmp_sorted_partitioned:
  assumes o: "cmp_order cmp (insert key (set xs))" and s: "cmp_sorted cmp xs"
  shows "cmp_partitioned cmp key xs"
  unfolding cmp_partitioned_def
proof (rule sorted_wrt_mono_rel [OF _ s])
  fix x y assume xy: "x \<in> set xs" "y \<in> set xs" "cmp x y \<le> 0"
  have le: "cmp key x \<le> 0 \<longrightarrow> cmp key y \<le> 0" using cmp_trans [OF o, of key x y] xy by simp
  have "cmp key y < 0" if "cmp key x < 0"
  proof (rule ccontr)
    assume "\<not> cmp key y < 0"
    then have "cmp y key \<le> 0" using cmp_flip [OF o, of y key] cmp_flip [OF o, of key y] xy by auto
    then have "cmp x key \<le> 0" using cmp_trans [OF o, of x y key] xy by simp
    then show False using that cmp_flip [OF o, of key x] xy by auto
  qed
  with le show "(cmp key x \<le> 0 \<longrightarrow> cmp key y \<le> 0) \<and> (cmp key x < 0 \<longrightarrow> cmp key y < 0)" by simp
qed

section \<open>The contracts\<close>

locale c_sort =
  fixes qsort :: "('a \<Rightarrow> 'a \<Rightarrow> int) \<Rightarrow> 'a list \<Rightarrow> 'a list"
  assumes qsort_mset: "cmp_order cmp (set xs) \<Longrightarrow> mset (qsort cmp xs) = mset xs"
    and qsort_sorted: "cmp_order cmp (set xs) \<Longrightarrow> cmp_sorted cmp (qsort cmp xs)"

locale c_search =
  fixes bsearch :: "('a \<Rightarrow> 'a \<Rightarrow> int) \<Rightarrow> 'a \<Rightarrow> 'a list \<Rightarrow> nat option"
  assumes bsearch_Some: "cmp_partitioned cmp key xs \<Longrightarrow> bsearch cmp key xs = Some i \<Longrightarrow>
      i < length xs \<and> cmp key (xs ! i) = 0"
    and bsearch_None: "cmp_partitioned cmp key xs \<Longrightarrow> bsearch cmp key xs = None \<Longrightarrow>
      \<forall>x\<in>set xs. cmp key x \<noteq> 0"

locale c_sort_search = c_sort qsort + c_search bsearch
  for qsort :: "('a \<Rightarrow> 'a \<Rightarrow> int) \<Rightarrow> 'a list \<Rightarrow> 'a list" and bsearch

context c_sort begin

lemma qsort_set: "cmp_order cmp (set xs) \<Longrightarrow> set (qsort cmp xs) = set xs"
  by (metis qsort_mset set_mset_mset)

lemma qsort_length: "cmp_order cmp (set xs) \<Longrightarrow> length (qsort cmp xs) = length xs"
  by (metis qsort_mset size_mset)

text \<open>Where only equal elements compare equal the result is the one sorted arrangement.\<close>

lemma qsort_unique:
  assumes o: "cmp_order cmp (set xs)"
    and anti: "\<And>x y. x \<in> set xs \<Longrightarrow> y \<in> set xs \<Longrightarrow> cmp x y = 0 \<Longrightarrow> x = y"
    and ys: "mset ys = mset xs" "cmp_sorted cmp ys"
  shows "qsort cmp xs = ys"
proof -
  have uniq: "as = bs" if "mset as = mset bs" "cmp_sorted cmp as" "cmp_sorted cmp bs" "set as \<subseteq> set xs"
    for as bs using that
  proof (induction as arbitrary: bs)
    case (Cons a as)
    then obtain b bs' where b: "bs = b # bs'" by (cases bs) auto
    have mem: "set bs = set (a # as)" using Cons.prems(1) by (metis set_mset_mset)
    have "cmp a b \<le> 0" "cmp b a \<le> 0"
      using Cons.prems mem b cmp_refl [OF o, of a] by auto
    moreover have "a \<in> set xs" "b \<in> set xs" using Cons.prems(4) mem b by auto
    ultimately have "a = b" using anti [of a b] cmp_eq_0 [OF o, of a b] by blast
    with Cons b show ?case by auto
  qed simp
  show ?thesis using uniq [of "qsort cmp xs" ys] qsort_mset [OF o] qsort_sorted [OF o] qsort_set [OF o] ys by simp
qed

end

section \<open>Reference functions\<close>

fun insert_by :: "('a \<Rightarrow> 'a \<Rightarrow> int) \<Rightarrow> 'a \<Rightarrow> 'a list \<Rightarrow> 'a list" where
  "insert_by cmp x [] = [x]"
| "insert_by cmp x (y # ys) = (if cmp x y \<le> 0 then x # y # ys else y # insert_by cmp x ys)"

definition sort_by :: "('a \<Rightarrow> 'a \<Rightarrow> int) \<Rightarrow> 'a list \<Rightarrow> 'a list" where
  "sort_by cmp xs = foldr (insert_by cmp) xs []"

function search_from :: "('a \<Rightarrow> 'a \<Rightarrow> int) \<Rightarrow> 'a \<Rightarrow> 'a list \<Rightarrow> nat \<Rightarrow> nat \<Rightarrow> nat option" where
  "search_from cmp key xs lo hi =
     (if lo < hi then
        (let mid = lo + (hi - lo) div 2
         in if cmp key (xs ! mid) = 0 then Some mid
            else if cmp key (xs ! mid) < 0 then search_from cmp key xs lo mid
            else search_from cmp key xs (Suc mid) hi)
      else None)"
  by pat_completeness auto
termination by (relation "measure (\<lambda>(cmp, key, xs, lo, hi). hi - lo)") auto

declare search_from.simps [simp del]

definition search_by :: "('a \<Rightarrow> 'a \<Rightarrow> int) \<Rightarrow> 'a \<Rightarrow> 'a list \<Rightarrow> nat option" where
  "search_by cmp key xs = search_from cmp key xs 0 (length xs)"

lemma mset_insert_by [simp]: "mset (insert_by cmp x xs) = add_mset x (mset xs)"
  by (induction xs) auto

lemma mset_sort_by [simp]: "mset (sort_by cmp xs) = mset xs"
  by (induction xs) (auto simp: sort_by_def)

lemma set_insert_by [simp]: "set (insert_by cmp x xs) = insert x (set xs)"
  by (induction xs) auto

lemma sorted_insert_by:
  "cmp_order cmp (insert x (set xs)) \<Longrightarrow> cmp_sorted cmp xs \<Longrightarrow> cmp_sorted cmp (insert_by cmp x xs)"
proof (induction xs)
  case (Cons y ys)
  have "cmp_order cmp (insert x (set ys))" using Cons.prems(1) by (rule cmp_order_subset) auto
  moreover have "cmp y x \<le> 0" if "\<not> cmp x y \<le> 0" using cmp_total [OF Cons.prems(1), of x y] that by auto
  moreover have "cmp x z \<le> 0" if "cmp x y \<le> 0" "z \<in> set ys" for z
    using cmp_trans [OF Cons.prems(1), of x y z] Cons.prems(2) that by auto
  ultimately show ?case using Cons by auto
qed simp

lemma sorted_sort_by: "cmp_order cmp (set xs) \<Longrightarrow> cmp_sorted cmp (sort_by cmp xs)"
proof (induction xs)
  case (Cons x xs)
  have s: "set (sort_by cmp xs) = set xs" using mset_sort_by [of cmp xs] by (metis set_mset_mset)
  have "cmp_order cmp (set xs)" using Cons.prems by (rule cmp_order_subset) auto
  with Cons show ?case using sorted_insert_by [of cmp x "sort_by cmp xs"] s by (simp add: sort_by_def)
qed (simp add: sort_by_def)

lemma search_from_Some:
  "search_from cmp key xs lo hi = Some i \<Longrightarrow> lo \<le> i \<and> i < hi \<and> cmp key (xs ! i) = 0"
proof (induction cmp key xs lo hi rule: search_from.induct)
  case (1 cmp key xs lo hi)
  from 1(3) show ?case
    using 1(1,2) by (subst (asm) search_from.simps) (force simp: Let_def split: if_splits)
qed

lemma search_from_None:
  "search_from cmp key xs lo hi = None \<Longrightarrow> cmp_partitioned cmp key xs \<Longrightarrow> hi \<le> length xs \<Longrightarrow>
     lo \<le> i \<Longrightarrow> i < hi \<Longrightarrow> cmp key (xs ! i) \<noteq> 0"
proof (induction cmp key xs lo hi rule: search_from.induct)
  case (1 cmp key xs lo hi)
  let ?mid = "lo + (hi - lo) div 2"
  have mid: "?mid < hi" "lo \<le> ?mid" using 1(6,7) by auto
  have part: "(cmp key (xs ! j) \<le> 0 \<longrightarrow> cmp key (xs ! k) \<le> 0) \<and> (cmp key (xs ! j) < 0 \<longrightarrow> cmp key (xs ! k) < 0)"
    if "j < k" "k < length xs" for j k
    using 1(4) that by (auto simp: cmp_partitioned_def sorted_wrt_iff_nth_less)
  note eq = 1(3) [unfolded search_from.simps [of cmp key xs lo hi]]
  consider "cmp key (xs ! ?mid) < 0" | "0 < cmp key (xs ! ?mid)"
    using eq mid by (auto simp: Let_def split: if_splits)
  then show ?case
  proof cases
    case 1
    show ?thesis
    proof (cases "i < ?mid")
      case True
      with "1.IH"(1) [of ?mid] 1 eq "1.prems" mid show ?thesis by (auto simp: Let_def)
    next
      case False
      then have "cmp key (xs ! i) < 0" using part [of ?mid i] 1 "1.prems" by (cases "i = ?mid") auto
      then show ?thesis by simp
    qed
  next
    case 2
    show ?thesis
    proof (cases "i \<le> ?mid")
      case True
      then have "\<not> cmp key (xs ! i) \<le> 0"
        using part [of i ?mid] 2 "1.prems" mid by (cases "i = ?mid") auto
      then show ?thesis by simp
    next
      case False
      with "1.IH"(2) [of ?mid] 2 eq "1.prems" mid show ?thesis by (auto simp: Let_def)
    qed
  qed
qed

interpretation ref_sort: c_sort sort_by
  by unfold_locales (auto simp: sorted_sort_by)

interpretation ref_search: c_search search_by
  by unfold_locales
    (auto simp: search_by_def in_set_conv_nth dest: search_from_Some search_from_None)

interpretation ref_sort_search: c_sort_search sort_by search_by
  by unfold_locales

end
