(* ===== verification/CBB_SetOf.thy ===== *)
theory CBB_SetOf
  imports CBB_Props Libc "HOL-Library.List_Lexorder"
begin

text \<open>
  \<open>CBB_flush_asn1_set_of\<close> of \<open>crypto/bytestring/cbb.c\<close>: the children of a SET OF are parsed
  back from the builder's buffer, sorted by their encodings with the C library's \<open>qsort\<close>
  (a parameter, contract \<open>c_sort\<close>) and written again in that order.
\<close>

section \<open>Operations\<close>

text \<open>\<open>memcmp\<close> of \<open>n\<close> bytes; of its result only the sign is used.\<close>

fun c_memcmp :: "u8 list \<Rightarrow> u8 list \<Rightarrow> nat \<Rightarrow> int" where
  "c_memcmp (a # as) (b # bs) (Suc n) =
     (if a = b then c_memcmp as bs n else uint a - uint b)"
| "c_memcmp _ _ _ = 0"

definition compare_set_of_element :: "CBS \<Rightarrow> CBS \<Rightarrow> int" where
  "compare_set_of_element a b =
     (let a_len = length a; b_len = length b;
          min_len = (if a_len < b_len then a_len else b_len);
          ret = c_memcmp a b min_len
      in if ret \<noteq> 0 then ret
         else if a_len = b_len then 0
         else if a_len < b_len then - 1 else 1)"

text \<open>The loop that counts the children, and the one that parses as many again.\<close>

function set_of_count :: "CBS \<Rightarrow> nat \<Rightarrow> nat option" where
  "set_of_count cbs num_children =
     (if cbs = [] then Some num_children
      else case CBS_get_any_asn1_element cbs of
             (None, _) \<Rightarrow> None
           | (Some _, cbs') \<Rightarrow> set_of_count cbs' (num_children + 1))"
  by pat_completeness auto

lemma any_element_shorter: "CBS_get_any_asn1_element cbs = (Some x, rest) \<Longrightarrow> length rest < length cbs"
  by (cases x) (auto simp: CBS_get_any_asn1_element_iff der_tlv_header der_tag_def der_header_def Let_def)

termination set_of_count
  by (relation "measure (\<lambda>(cbs, n). length cbs)") (auto dest: any_element_shorter [OF sym])

declare set_of_count.simps [simp del]

fun set_of_parse :: "nat \<Rightarrow> CBS \<Rightarrow> CBS list option" where
  "set_of_parse 0 cbs = Some []"
| "set_of_parse (Suc n) cbs =
     (case CBS_get_any_asn1_element cbs of
        (None, _) \<Rightarrow> None
      | (Some (child, _, _), cbs') \<Rightarrow> map_option ((#) child) (set_of_parse n cbs'))"

fun set_of_write :: "env \<Rightarrow> nat \<Rightarrow> CBS list \<Rightarrow> CBB \<Rightarrow> bool \<times> CBB" where
  "set_of_write e d [] s = (True, s)"
| "set_of_write e d (child # children) s =
     cbb_then (CBB_add_bytes e s d child) (set_of_write e d children)"

definition CBB_flush_asn1_set_of ::
    "env \<Rightarrow> ((CBS \<Rightarrow> CBS \<Rightarrow> int) \<Rightarrow> CBS list \<Rightarrow> CBS list) \<Rightarrow> CBB \<Rightarrow> nat \<Rightarrow> bool \<times> CBB" where
  "CBB_flush_asn1_set_of e qsort s d =
     cbb_then (CBB_flush e s d) (\<lambda>s1.
       let buf_len = CBB_len s1 d;
           cbs = take buf_len (CBB_data s1 d)
       in case set_of_count cbs 0 of
            None \<Rightarrow> (False, s1)
          | Some num_children \<Rightarrow>
              (if num_children < 2 then (True, s1)
               else if num_children > SIZE_MAX div 16 then (False, s1)
               else
                 (case (BUF_memdup e cbs, OPENSSL_malloc e (size_mul num_children 16)) of
                    (Some buf, Some _) \<Rightarrow>
                      (case set_of_parse num_children buf of
                         None \<Rightarrow> (False, s1)
                       | Some children \<Rightarrow>
                           set_of_write e d (qsort compare_set_of_element children)
                             (s1\<lparr>cbb_base := map_option (\<lambda>b. b\<lparr>b_len :=
                                   n_offset (cbb_chain s1 ! d) + n_pending_len_len (cbb_chain s1 ! d)\<rparr>)
                                 (cbb_base s1)\<rparr>))
                  | _ \<Rightarrow> (False, s1))))"

section \<open>The order of encodings\<close>

lemma c_memcmp_prefix:
  "c_memcmp a b (min (length a) (length b)) < 0 \<or>
     (c_memcmp a b (min (length a) (length b)) = 0 \<and> length a < length b) \<longleftrightarrow> a < b"
proof (induction a arbitrary: b)
  case Nil
  then show ?case by (cases b) auto
next
  case (Cons x xs)
  show ?case
  proof (cases b)
    case (Cons y ys)
    then show ?thesis using Cons.IH [of ys] by (auto simp: word_less_def word_uint_eq_iff)
  qed simp
qed

lemma c_memcmp_swap: "c_memcmp b a n = - c_memcmp a b n"
proof (induction a arbitrary: b n)
  case Nil
  then show ?case by (cases b) auto
next
  case (Cons x xs)
  then show ?case by (cases b; cases n) auto
qed

lemma compare_set_of_less: "compare_set_of_element a b < 0 \<longleftrightarrow> a < b"
  using c_memcmp_prefix [of a b] by (auto simp: compare_set_of_element_def Let_def min_def split: if_splits)

lemma compare_set_of_swap: "compare_set_of_element b a = - compare_set_of_element a b"
  using c_memcmp_swap [of b a] by (auto simp: compare_set_of_element_def Let_def)

lemma compare_set_of_greater: "0 < compare_set_of_element a b \<longleftrightarrow> b < a"
  using compare_set_of_less [of b a] compare_set_of_swap [of a b] by simp

lemma compare_set_of_order: "cmp_order compare_set_of_element A"
  by (rule cmp_order_by_key [where key = "\<lambda>x. x", OF compare_set_of_less compare_set_of_greater])

lemma compare_set_of_eq: "compare_set_of_element a b = 0 \<longleftrightarrow> a = b"
  using compare_set_of_less [of a b] compare_set_of_less [of b a] compare_set_of_swap [of a b]
  by (cases a b rule: linorder_cases) auto

lemma compare_set_of_le: "compare_set_of_element a b \<le> 0 \<longleftrightarrow> a \<le> b"
  using compare_set_of_less [of b a] compare_set_of_swap [of a b] by auto

lemma qsort_set_of:
  assumes "c_sort qs"
  shows "qs compare_set_of_element els = sort els"
proof (rule c_sort.qsort_unique [OF assms compare_set_of_order])
  have "(\<lambda>x y. compare_set_of_element x y \<le> 0) = (\<le>)" by (intro ext) (rule compare_set_of_le)
  then show "cmp_sorted compare_set_of_element (sort els)" by simp
qed (simp_all only: compare_set_of_eq mset_sort)

section \<open>Correctness\<close>

definition der_element :: "u8 list \<Rightarrow> bool" where
  "der_element x \<longleftrightarrow> (\<exists>tag data. x = der_tlv tag data \<and> length data < 2 ^ 32)"

lemma der_element_get:
  assumes "der_element x"
  shows "\<exists>tag hl. CBS_get_any_asn1_element (x @ rest) = (Some (x, tag, hl), rest)"
  using assms unfolding der_element_def by (metis CBS_get_any_asn1_element_iff)

lemma der_element_neq_Nil: "der_element x \<Longrightarrow> x \<noteq> []"
  by (auto simp: der_element_def der_tlv_header der_tag_def der_header_def Let_def split: if_splits)

lemma set_of_count_elements:
  "list_all der_element els \<Longrightarrow> set_of_count (concat els) k = Some (length els + k)"
proof (induction els arbitrary: k)
  case Nil
  then show ?case by (simp add: set_of_count.simps)
next
  case (Cons x els)
  obtain tag hl where "CBS_get_any_asn1_element (x @ concat els) = (Some (x, tag, hl), concat els)"
    using Cons.prems der_element_get [of x "concat els"] by auto
  with Cons der_element_neq_Nil [of x] show ?case by (subst set_of_count.simps) simp
qed

lemma set_of_parse_elements:
  "list_all der_element els \<Longrightarrow> set_of_parse (length els) (concat els) = Some els"
proof (induction els)
  case (Cons x els)
  obtain tag hl where "CBS_get_any_asn1_element (x @ concat els) = (Some (x, tag, hl), concat els)"
    using Cons.prems der_element_get [of x "concat els"] by auto
  with Cons show ?case by simp
qed simp

lemma set_of_write_refines:
  "(\<And>x. x \<in> set els \<Longrightarrow> length x \<le> 9223372036854775807) \<Longrightarrow> cbb_rep e N s (fs @ [f]) \<Longrightarrow>
     length (frames_bytes (fs @ [f])) + length (concat els) \<le> N \<Longrightarrow>
     \<exists>s'. set_of_write e (length fs) els s = (True, s')
       \<and> cbb_rep e N s' (fs @ [f\<lparr>f_data := f_data f @ concat els\<rparr>])"
proof (induction els arbitrary: s f)
  case (Cons x els)
  let ?f = "f\<lparr>f_data := f_data f @ x\<rparr>"
  have a: "abs_append (length fs) x (fs @ [f]) = Some (fs @ [?f])" by (simp add: abs_append_def)
  have x: "length x \<le> 9223372036854775807" using Cons.prems(1) by simp
  have "\<not> N < length (frames_bytes (fs @ [?f]))" using Cons.prems(3) by simp
  with cbb_refinesD [OF CBB_add_bytes_refines [OF x] Cons.prems(2), of "length fs"] a
  obtain s1 where s1: "CBB_add_bytes e s (length fs) x = (True, s1)" "cbb_rep e N s1 (fs @ [?f])"
    by (cases "CBB_add_bytes e s (length fs) x") (auto split: if_splits)
  with Cons.IH [OF _ s1(2)] Cons.prems(1,3) show ?case by (auto simp: cbb_then_def)
qed auto

text \<open>Reading and rewinding the innermost open string.\<close>

lemma cbb_rep_content:
  assumes r: "cbb_rep e N s (fs @ [f])"
  shows "take (CBB_len s (length fs)) (CBB_data s (length fs)) = f_data f \<and> CBB_len s (length fs) = length (f_data f)"
    and "cbb_rep e N (s\<lparr>cbb_base := map_option (\<lambda>b. b\<lparr>b_len := n_offset (cbb_chain s ! length fs)
            + n_pending_len_len (cbb_chain s ! length fs)\<rparr>) (cbb_base s)\<rparr>) (fs @ [f\<lparr>f_data := []\<rparr>])"
proof -
  obtain b where b: "cbb_base s = Some b" "buf_rep e N b (frames_bytes (fs @ [f]))"
    using r by (auto simp: cbb_rep_def split: option.splits)
  have chain: "cbb_chain s = frame_nodes 0 fs @ [\<lparr>n_offset = length (frames_bytes fs),
      n_pending_len_len = f_width f, n_pending_is_asn1 = f_asn1 f\<rparr>]"
    using r by (simp add: cbb_rep_def frame_nodes_append)
  then have n: "n_offset (cbb_chain s ! length fs) = length (frames_bytes fs)"
    "n_pending_len_len (cbb_chain s ! length fs) = f_width f"
    using length_frame_nodes [of 0 fs] by (simp_all add: nth_append)
  have buf: "take (b_len b) (b_buf b) = frames_bytes fs @ replicate (f_width f) 0 @ f_data f"
    "b_len b = length (frames_bytes fs) + f_width f + length (f_data f)"
    using b(2) buf_rep_len [OF b(2)] by (simp_all add: buf_rep_def)
  show "take (CBB_len s (length fs)) (CBB_data s (length fs)) = f_data f \<and> CBB_len s (length fs) = length (f_data f)"
    using arg_cong [OF buf(1), of "drop (length (frames_bytes fs) + f_width f)"] buf(2)
    by (simp add: CBB_len_def CBB_data_def b n drop_take)
  have "take (length (frames_bytes fs) + f_width f) (b_buf b) = frames_bytes fs @ replicate (f_width f) 0"
    using arg_cong [OF buf(1), of "take (length (frames_bytes fs) + f_width f)"] buf(2)
    by (simp add: min_def)
  then have "buf_rep e N (b\<lparr>b_len := length (frames_bytes fs) + f_width f\<rparr>) (frames_bytes (fs @ [f\<lparr>f_data := []\<rparr>]))"
    using b(2) buf(2) by (auto simp: buf_rep_def cbb_room_def)
  moreover have "list_all frame_ok (tl (fs @ [f\<lparr>f_data := []\<rparr>]))" "f_width (hd (fs @ [f\<lparr>f_data := []\<rparr>])) = 0"
    using r by (cases fs; auto simp: cbb_rep_def)+
  ultimately show "cbb_rep e N (s\<lparr>cbb_base := map_option (\<lambda>b. b\<lparr>b_len := n_offset (cbb_chain s ! length fs)
            + n_pending_len_len (cbb_chain s ! length fs)\<rparr>) (cbb_base s)\<rparr>) (fs @ [f\<lparr>f_data := []\<rparr>])"
    by (simp add: n) (simp add: cbb_rep_def b chain frame_nodes_append)
qed

lemma sort_concat_short:
  "length els < 2 \<Longrightarrow> concat (sort els) = concat els"
  by (cases els; cases "tl els") auto

text \<open>C23: a SET OF comes out in DER order. On a builder whose innermost open string holds
  a sequence of DER elements, in whatever order they were written, and given the memory
  for a copy, \<open>CBB_flush_asn1_set_of\<close> succeeds and that string then holds the same
  elements sorted by their encodings; everything around it is as a plain flush leaves
  it. Any \<open>qsort\<close> that keeps its contract gives the same bytes.\<close>

theorem CBB_set_of_sorted:
  assumes "c_sort qs" and "cbb_rep e N s fs" and "d < length fs"
    and "abs_append d [] fs = Some (fs1 @ [f])" and "f_data f = concat els" and "list_all der_element els"
    and "length (frames_bytes (fs1 @ [f])) \<le> N"
    and "malloc_ok e (length (concat els) + OPENSSL_MALLOC_PREFIX)"
    and "malloc_ok e (length els * 16 + OPENSSL_MALLOC_PREFIX)" and "malloc_sane e"
  shows "\<exists>s'. CBB_flush_asn1_set_of e qs s d = (True, s')
    \<and> cbb_rep e N s' (fs1 @ [f\<lparr>f_data := concat (sort els)\<rparr>])"
proof -
  have small: "length (concat els) + OPENSSL_MALLOC_PREFIX \<le> SIZE_MAX"
    "length els * 16 + OPENSSL_MALLOC_PREFIX \<le> SIZE_MAX"
    using assms(8-10) by (auto simp: malloc_sane_def SIZE_MAX_def)
  have d: "d = length fs1" using abs_append_wf [OF assms(4,3)] cbb_repD [OF assms(2)] by simp
  obtain s1 where s1: "CBB_flush e s d = (True, s1)" "cbb_rep e N s1 (fs1 @ [f])"
    using cbb_refinesD [OF CBB_flush_refines assms(2,3)] assms(4,7)
    by (cases "CBB_flush e s d") (auto split: if_splits)
  note content = cbb_rep_content [OF s1(2)]
  have cbs: "take (CBB_len s1 d) (CBB_data s1 d) = concat els"
    using conjunct1 [OF content(1)] assms(5) d by simp
  have count: "set_of_count (concat els) 0 = Some (length els)"
    using set_of_count_elements [OF assms(6), of 0] by simp
  show ?thesis
  proof (cases "length els < 2")
    case True
    then have "CBB_flush_asn1_set_of e qs s d = (True, s1)"
      by (simp add: CBB_flush_asn1_set_of_def cbb_then_def s1(1) cbs count)
    moreover have "f\<lparr>f_data := concat (sort els)\<rparr> = f" using sort_concat_short [OF True] assms(5) by simp
    ultimately show ?thesis using s1(2) by simp
  next
    case False
    let ?s2 = "s1\<lparr>cbb_base := map_option (\<lambda>b. b\<lparr>b_len := n_offset (cbb_chain s1 ! d)
        + n_pending_len_len (cbb_chain s1 ! d)\<rparr>) (cbb_base s1)\<rparr>"
    obtain x xs where els: "els = x # xs" using False by (cases els) auto
    then have "concat els \<noteq> []" using assms(6) der_element_neq_Nil [of x] by auto
    moreover have "OPENSSL_malloc e (length (concat els)) \<noteq> None"
      using OPENSSL_malloc_Some_iff [OF small(1)] assms(8) by blast
    ultimately have "BUF_memdup e (concat els) \<noteq> None" by (auto simp: BUF_memdup_def)
    then have dup: "BUF_memdup e (concat els) = Some (concat els)" using BUF_memdup_Some [OF small(1)] by auto
    have mul: "size_mul (length els) 16 = length els * 16" using small(2) by (simp add: size_simps)
    obtain ch where ch: "OPENSSL_malloc e (length els * 16) = Some ch"
      using OPENSSL_malloc_Some_iff [OF small(2)] assms(9) by blast
    have "\<not> SIZE_MAX div 16 < length els" using small(2) by (simp add: SIZE_MAX_def)
    then have run: "CBB_flush_asn1_set_of e qs s d = set_of_write e d (sort els) ?s2"
      using False by (simp add: CBB_flush_asn1_set_of_def cbb_then_def s1(1) cbs count dup mul ch
          set_of_parse_elements [OF assms(6)] qsort_set_of [OF assms(1)] Let_def)
    have len: "length (concat (sort els)) = length (concat els)"
      unfolding length_concat sum_mset_sum_list [symmetric] mset_map mset_sort ..
    have "length x \<le> 9223372036854775807" if "x \<in> set (sort els)" for x
    proof -
      have "x \<in> set els" using that by simp
      then have "length x \<le> length (concat els)" by (induction els) auto
      then show ?thesis using assms(8,10) by (auto simp: malloc_sane_def)
    qed
    moreover have "cbb_rep e N ?s2 (fs1 @ [f\<lparr>f_data := []\<rparr>])" using content(2) d by simp
    ultimately obtain s' where "set_of_write e (length fs1) (sort els) ?s2 = (True, s')"
      "cbb_rep e N s' (fs1 @ [f\<lparr>f_data := concat (sort els)\<rparr>])"
      using set_of_write_refines [of "sort els" e N ?s2 fs1 "f\<lparr>f_data := []\<rparr>"] len assms(5,7) by auto
    then show ?thesis using run d by auto
  qed
qed

text \<open>Two INTEGERs written in the wrong order.\<close>

definition set_of_builder :: CBB where
  "set_of_builder = \<lparr>cbb_base = Some \<lparr>b_buf = [2, 1, 5, 2, 1, 3, 0, 0], b_len = 6, b_cap = 8,
       b_can_resize = False, b_error = False\<rparr>,
     cbb_chain = [\<lparr>n_offset = 0, n_pending_len_len = 0, n_pending_is_asn1 = False\<rparr>]\<rparr>"

theorem CBB_set_of_sorted_witness:
  "\<exists>s'. CBB_flush_asn1_set_of small_env sort_by set_of_builder 0 = (True, s')
    \<and> (case cbb_base s' of None \<Rightarrow> False | Some b \<Rightarrow> take 6 (b_buf b) = [2, 1, 3, 2, 1, 5])"
proof -
  let ?f = "\<lparr>f_width = 0, f_asn1 = False, f_data = [2, 1, 5, 2, 1, 3]\<rparr>"
  have rep: "cbb_rep small_env 8 set_of_builder [?f]"
    by (simp add: cbb_rep_def set_of_builder_def buf_rep_def cbb_room_def malloc_sane_def small_env_def
        OPENSSL_MALLOC_PREFIX_def frames_bytes_def)
  have flush: "abs_append 0 [] [?f] = Some ([] @ [?f])" by (simp add: abs_append_def)
  have "[2, 1, 5] = der_tlv 2 [5]" "[2, 1, 3] = der_tlv 2 [3]" by code_simp+
  then have "der_element [2, 1, 5]" "der_element [2, 1, 3]"
    unfolding der_element_def by (intro exI [of _ 2] exI [of _ "[_]"]; simp)+
  then have els: "list_all der_element [[2, 1, 5], [2, 1, 3]]" by simp
  have sorted: "sort [[2, 1, 5], [2, 1, 3]] = [[2, 1, 3 :: u8], [2, 1, 5]]" by code_simp
  obtain s' where s': "CBB_flush_asn1_set_of small_env sort_by set_of_builder 0 = (True, s')"
    "cbb_rep small_env 8 s' ([] @ [?f\<lparr>f_data := concat (sort [[2, 1, 5], [2, 1, 3]])\<rparr>])"
    using CBB_set_of_sorted [OF ref_sort.c_sort_axioms rep _ flush _ els]
    by (auto simp: malloc_sane_def small_env_def OPENSSL_MALLOC_PREFIX_def frames_bytes_def)
  then obtain b where b: "cbb_base s' = Some b" "buf_rep small_env 8 b [2, 1, 3, 2, 1, 5]"
    unfolding sorted by (auto simp: cbb_rep_def frames_bytes_def split: option.splits)
  have "b_len b = 6" using buf_rep_len [OF b(2)] by simp
  with s'(1) b show ?thesis by (simp add: buf_rep_def)
qed

end
