(* ===== verification/OID.thy ===== *)
theory OID
  imports CBB_Props
begin

text \<open>
  Object identifiers: the conversion of the content octets to dotted decimal text
  (\<open>CBS_asn1_oid_to_text\<close> in \<open>crypto/bytestring/cbs.c\<close>) and the writer that parses such text
  (\<open>CBB_add_asn1_oid_from_text\<close> in \<open>cbb.c\<close>), both against one list of components.
\<close>

section \<open>The code\<close>

text \<open>\<open>printf("%lu")\<close> of the C library.\<close>

fun decimal :: "nat \<Rightarrow> u8 list" where
  "decimal v = (if v < 10 then [byte (48 + v)] else decimal (v div 10) @ [byte (48 + v mod 10)])"

declare decimal.simps [simp del]

definition add_decimal :: "env \<Rightarrow> CBB \<Rightarrow> nat \<Rightarrow> u64 \<Rightarrow> bool \<times> CBB" where
  "add_decimal e s d v = CBB_add_bytes e s d (decimal (unat v))"

text \<open>The loop over the components after the first; \<open>46\<close> is the dot.\<close>

lemma parse_base128_integer_shorter:
  "parse_base128_integer cbs = (Some v, rest) \<Longrightarrow> length rest < length cbs"
  by (simp add: parse_base128_integer_iff base128_def)

function oid_text_loop :: "env \<Rightarrow> CBS \<Rightarrow> CBB \<Rightarrow> bool \<times> CBB" where
  "oid_text_loop e copy s =
     (if copy = [] then (True, s)
      else case parse_base128_integer copy of
             (None, _) \<Rightarrow> (False, s)
           | (Some v, copy') \<Rightarrow>
               cbb_then (cbb_then (CBB_add_u8 e s 0 46) (\<lambda>s1. add_decimal e s1 0 v))
                 (oid_text_loop e copy'))"
  by pat_completeness auto
termination
  by (relation "measure (\<lambda>(e, copy, s). length copy)")
    (auto dest: parse_base128_integer_shorter [OF sym])

declare oid_text_loop.simps [simp del]

definition CBS_asn1_oid_to_text :: "env \<Rightarrow> CBS \<Rightarrow> (u8 list \<times> nat) option" where
  "CBS_asn1_oid_to_text e cbs =
     (case CBB_init e 32 of
        (False, _) \<Rightarrow> None
      | (True, s) \<Rightarrow>
          (case parse_base128_integer cbs of
             (None, _) \<Rightarrow> None
           | (Some v, copy) \<Rightarrow>
               (let first =
                  (if v \<ge> 80
                   then cbb_then (CBB_add_bytes e s 0 [50, 46]) (\<lambda>s1. add_decimal e s1 0 (v - 80))
                   else cbb_then (cbb_then (add_decimal e s 0 (v div 40)) (\<lambda>s1. CBB_add_u8 e s1 0 46))
                          (\<lambda>s2. add_decimal e s2 0 (v mod 40)))
                in case cbb_then (cbb_then first (oid_text_loop e copy)) (\<lambda>s3. CBB_add_u8 e s3 0 0) of
                     (False, _) \<Rightarrow> None
                   | (True, s4) \<Rightarrow> fst (CBB_finish e s4 0 True))))"

fun parse_dotted_loop :: "CBS \<Rightarrow> u64 \<Rightarrow> bool \<Rightarrow> u64 option \<times> CBS" where
  "parse_dotted_loop [] out seen_digit = (if seen_digit then Some out else None, [])"
| "parse_dotted_loop (u # cbs) out seen_digit =
     (if u = 46 \<and> length cbs > 0 then (if seen_digit then Some out else None, cbs)
      else if u < 48 \<or> u > 57 \<or> (seen_digit \<and> out = 0)
              \<or> out > 0xffffffffffffffff div 10
              \<or> out * 10 > 0xffffffffffffffff - ucast (u - 48)
           then (None, cbs)
      else parse_dotted_loop cbs (out * 10 + ucast (u - 48)) True)"

definition parse_dotted_decimal :: "CBS \<Rightarrow> u64 option \<times> CBS" where
  "parse_dotted_decimal cbs = parse_dotted_loop cbs 0 False"

lemma parse_dotted_loop_shorter: "length (snd (parse_dotted_loop cbs out seen)) \<le> length cbs - 1"
  by (induction cbs out seen rule: parse_dotted_loop.induct) auto

lemma parse_dotted_decimal_shorter:
  "parse_dotted_decimal cbs = (r, rest) \<Longrightarrow> cbs \<noteq> [] \<Longrightarrow> length rest < length cbs"
  using parse_dotted_loop_shorter [of cbs 0 False] by (cases cbs) (auto simp: parse_dotted_decimal_def)

function oid_from_text_loop :: "env \<Rightarrow> nat \<Rightarrow> CBS \<Rightarrow> CBB \<Rightarrow> bool \<times> CBB" where
  "oid_from_text_loop e d cbs s =
     (if cbs = [] then (True, s)
      else case parse_dotted_decimal cbs of
             (None, _) \<Rightarrow> (False, s)
           | (Some a, cbs') \<Rightarrow>
               cbb_then (add_base128_integer e s d a) (oid_from_text_loop e d cbs'))"
  by pat_completeness auto
termination
  by (relation "measure (\<lambda>(e, d, cbs, s). length cbs)")
    (auto dest: parse_dotted_decimal_shorter [OF sym])

declare oid_from_text_loop.simps [simp del]

definition CBB_add_asn1_oid_from_text :: "env \<Rightarrow> CBB \<Rightarrow> nat \<Rightarrow> u8 list \<Rightarrow> bool \<times> CBB" where
  "CBB_add_asn1_oid_from_text e s d text =
     cbb_then (CBB_flush e s d) (\<lambda>s1.
       case parse_dotted_decimal text of
         (None, _) \<Rightarrow> (False, s1)
       | (Some a, cbs) \<Rightarrow>
           (case parse_dotted_decimal cbs of
              (None, _) \<Rightarrow> (False, s1)
            | (Some b, cbs') \<Rightarrow>
                (if a > 2 \<or> (a < 2 \<and> b > 39) \<or> b > 0xffffffffffffffff - 80 then (False, s1)
                 else cbb_then (add_base128_integer e s1 d (40 * a + b))
                        (oid_from_text_loop e d cbs'))))"

section \<open>Components\<close>

text \<open>Dotted text and content octets of a list of components, the first two apart.\<close>

fun dot_join :: "nat list \<Rightarrow> u8 list" where
  "dot_join [] = []"
| "dot_join [v] = decimal v"
| "dot_join (v # w # vs) = decimal v @ 46 # dot_join (w # vs)"

definition oid_text :: "nat \<Rightarrow> nat \<Rightarrow> nat list \<Rightarrow> u8 list" where
  "oid_text a b cs = dot_join (a # b # cs)"

definition oid_der :: "nat \<Rightarrow> nat \<Rightarrow> nat list \<Rightarrow> u8 list" where
  "oid_der a b cs = concat (map base128 ((40 * a + b) # cs))"

definition oid_ok :: "nat \<Rightarrow> nat \<Rightarrow> nat list \<Rightarrow> bool" where
  "oid_ok a b cs \<longleftrightarrow> a \<le> 2 \<and> (a < 2 \<longrightarrow> b \<le> 39) \<and> 40 * a + b < 2 ^ 64 \<and> (\<forall>c \<in> set cs. c < 2 ^ 64)"

section \<open>Decimal components\<close>

lemma decimal_neq_Nil [simp]: "decimal v \<noteq> []"
  by (subst decimal.simps) simp

lemma dotted_step:
  fixes out :: u64 and u :: u8
  assumes "48 \<le> unat u" and "unat u \<le> 57"
  shows "out > 0xffffffffffffffff div 10 \<or> out * 10 > 0xffffffffffffffff - ucast (u - 48)
           \<longleftrightarrow> 2 ^ 64 \<le> unat out * 10 + (unat u - 48)"
    and "unat out * 10 + (unat u - 48) < 2 ^ 64 \<Longrightarrow>
           unat (out * 10 + ucast (u - 48)) = unat out * 10 + (unat u - 48)"
proof -
  have d: "unat (ucast (u - 48) :: u64) = unat u - 48"
    using assms by (simp add: unat_ucast_up unat_sub word_le_nat_alt)
  have q: "unat (0xffffffffffffffff div 10 :: u64) = 1844674407370955161"
    by (simp add: unat_div_distrib)
  have m: "unat (0xffffffffffffffff - ucast (u - 48) :: u64) = 18446744073709551615 - (unat u - 48)"
    using assms by (subst unat_sub) (simp_all add: d word_le_nat_alt)
  have "unat (out * 10) = unat out * 10" if "\<not> out > 0xffffffffffffffff div 10"
  proof -
    have "unat out * 10 < 2 ^ 64" using that by (simp add: word_less_nat_alt q)
    then show ?thesis by (simp add: unat_word_ariths)
  qed
  with assms show "out > 0xffffffffffffffff div 10 \<or> out * 10 > 0xffffffffffffffff - ucast (u - 48)
           \<longleftrightarrow> 2 ^ 64 \<le> unat out * 10 + (unat u - 48)"
    by (cases "out > 0xffffffffffffffff div 10") (auto simp: word_less_nat_alt q m)
  show "unat (out * 10 + ucast (u - 48)) = unat out * 10 + (unat u - 48)"
    if "unat out * 10 + (unat u - 48) < 2 ^ 64"
    using that by (simp add: unat_word_ariths d)
qed

lemma parse_dotted_digit:
  assumes "48 \<le> unat u" and "unat u \<le> 57"
  shows "parse_dotted_loop (u # cbs) out seen =
     (if (seen \<and> out = 0) \<or> 2 ^ 64 \<le> unat out * 10 + (unat u - 48) then (None, cbs)
      else parse_dotted_loop cbs (word_of_nat (unat out * 10 + (unat u - 48))) True)"
proof -
  have n: "u \<noteq> 46" "\<not> u < 48" "\<not> u > 57"
    using assms by (auto simp: word_less_nat_alt)
  have w: "unat out * 10 + (unat u - 48) < 2 ^ 64 \<Longrightarrow>
      out * 10 + ucast (u - 48) = word_of_nat (unat out * 10 + (unat u - 48))"
    by (rule unat_inject) (simp only: dotted_step(2) [OF assms] unat_of_nat, simp)
  show ?thesis
    using n w dotted_step(1) [OF assms, of out] by (auto simp: not_le)
qed

lemma parse_dotted_bad:
  "u \<noteq> 46 \<or> cbs = [] \<Longrightarrow> unat u < 48 \<or> 57 < unat u \<Longrightarrow> parse_dotted_loop (u # cbs) out seen = (None, cbs)"
  by (auto simp: word_less_nat_alt)

lemma parse_dotted_dot:
  "cbs \<noteq> [] \<Longrightarrow> parse_dotted_loop (46 # cbs) out seen = (if seen then Some out else None, cbs)"
  by simp

declare parse_dotted_loop.simps(2) [simp del]

lemma parse_dotted_decimal_prefix:
  "v < 2 ^ 64 \<Longrightarrow> parse_dotted_loop (decimal v @ t) 0 False = parse_dotted_loop t (word_of_nat v) True"
proof (induction v arbitrary: t rule: decimal.induct)
  case (1 v)
  have m: "(48 + v mod 10) mod 256 = 48 + v mod 10" by (rule mod_less) simp
  have b: "48 \<le> unat (byte (48 + v mod 10))" "unat (byte (48 + v mod 10)) \<le> 57"
    using m by simp_all
  have dg: "unat (byte (48 + v mod 10)) - 48 = v mod 10" using m by simp
  show ?case
  proof (cases "v < 10")
    case True
    with b dg parse_dotted_digit [of "byte (48 + v)" t 0 False] show ?thesis
      by (simp add: decimal.simps [of v])
  next
    case False
    let ?w = "word_of_nat (v div 10) :: u64"
    have w: "unat ?w = v div 10" using "1.prems" by (simp add: unat_of_nat)
    then have nz: "?w \<noteq> 0" using False by auto
    have "parse_dotted_loop (decimal v @ t) 0 False
        = parse_dotted_loop (byte (48 + v mod 10) # t) ?w True"
      using "1.IH" [OF False, of "byte (48 + v mod 10) # t"] "1.prems" False
      by (simp add: decimal.simps [of v])
    also have "\<dots> = parse_dotted_loop t (word_of_nat (v div 10 * 10 + v mod 10)) True"
      using nz "1.prems" by (simp only: parse_dotted_digit [OF b] dg w) simp
    finally show ?thesis by simp
  qed
qed

lemma decimal_snoc:
  "k < 10 \<Longrightarrow> decimal (m * 10 + k) = (if m = 0 then [] else decimal m) @ [byte (48 + k)]"
  by (cases "m = 0") (simp_all add: decimal.simps [of "m * 10 + k"] decimal.simps [of k])

lemma parse_dotted_sound:
  "parse_dotted_loop cbs out seen = (Some r, rest) \<Longrightarrow> (\<not> seen \<longrightarrow> out = 0) \<Longrightarrow>
     \<exists>p. (if seen then decimal (unat out) else []) @ p = decimal (unat r)
       \<and> (if rest = [] then cbs = p else cbs = p @ 46 # rest)"
proof (induction cbs arbitrary: out seen)
  case Nil
  then show ?case by (auto split: if_splits)
next
  case (Cons u cbs)
  show ?case
  proof (cases "u = 46 \<and> cbs \<noteq> []")
    case True
    with Cons.prems show ?thesis by (auto simp: parse_dotted_dot split: if_splits)
  next
    case False
    then have u: "48 \<le> unat u" "unat u \<le> 57"
      using Cons.prems(1) parse_dotted_bad [of u cbs out seen] by force+
    let ?n = "unat out * 10 + (unat u - 48)"
    have ok: "\<not> (seen \<and> out = 0)" "?n < 2 ^ 64"
      and cont: "parse_dotted_loop cbs (word_of_nat ?n) True = (Some r, rest)"
      using Cons.prems(1) unfolding parse_dotted_digit [OF u] by (auto split: if_splits)
    have n: "unat (word_of_nat ?n :: u64) = ?n" using ok(2) by (simp only: unat_of_nat) simp
    obtain p where p: "decimal ?n @ p = decimal (unat r)"
      "if rest = [] then cbs = p else cbs = p @ 46 # rest"
      using Cons.IH [OF cont] n by auto
    have "byte (48 + (unat u - 48)) = u" using u by (intro byte_eqI) simp
    moreover have "unat u - 48 < 10" using u by linarith
    ultimately have "decimal ?n = (if seen then decimal (unat out) else []) @ [u]"
      using ok(1) Cons.prems(2) decimal_snoc [of "unat u - 48" "unat out"] by (auto simp: unat_eq_0)
    with p show ?thesis by (intro exI [of _ "u # p"]) (auto split: if_splits)
  qed
qed

lemma parse_dotted_decimal_iff:
  "parse_dotted_decimal cbs = (Some r, rest) \<longleftrightarrow>
     cbs = decimal (unat r) @ (if rest = [] then [] else 46 # rest)"
proof
  assume "parse_dotted_decimal cbs = (Some r, rest)"
  then show "cbs = decimal (unat r) @ (if rest = [] then [] else 46 # rest)"
    using parse_dotted_sound [of cbs 0 False r rest] by (auto simp: parse_dotted_decimal_def)
next
  assume c: "cbs = decimal (unat r) @ (if rest = [] then [] else 46 # rest)"
  have r: "unat r < 2 ^ 64" using unsigned_less [of r, where ?'a = nat] by simp
  show "parse_dotted_decimal cbs = (Some r, rest)"
    unfolding parse_dotted_decimal_def c parse_dotted_decimal_prefix [OF r]
    by (auto simp: parse_dotted_dot)
qed

section \<open>Content octets to text\<close>

lemma cbb_then_assoc: "cbb_then (cbb_then r f) g = cbb_then r (\<lambda>s. cbb_then (f s) g)"
  by (simp add: cbb_then_def)

lemma length_decimal: "v < 10 ^ n \<Longrightarrow> 0 < n \<Longrightarrow> length (decimal v) \<le> n"
proof (induction n arbitrary: v)
  case 0
  then show ?case by simp
next
  case (Suc n)
  show ?case
  proof (cases "v < 10")
    case True
    then show ?thesis by (simp add: decimal.simps [of v])
  next
    case False
    then have "0 < n" using Suc.prems by (cases n) auto
    moreover have "v div 10 < 10 ^ n" using Suc.prems by (simp add: less_mult_imp_div_less mult.commute)
    ultimately show ?thesis using Suc.IH [of "v div 10"] False by (simp add: decimal.simps [of v])
  qed
qed

lemma add_decimal_refines: "cbb_refines e N d d (\<lambda>s. add_decimal e s d v) (abs_append d (decimal (unat v)))"
proof -
  have "unat v < 10 ^ 20" using unsigned_less [of v, where ?'a = nat] by simp
  then have "length (decimal (unat v)) \<le> 20" by (rule length_decimal) simp
  then show ?thesis unfolding add_decimal_def by (intro CBB_add_bytes_refines) simp
qed

definition dot_text :: "nat list \<Rightarrow> u8 list" where
  "dot_text cs = concat (map (\<lambda>c. 46 # decimal c) cs)"

lemma dot_text_simps [simp]:
  "dot_text [] = []" "dot_text (c # cs) = 46 # decimal c @ dot_text cs"
  by (simp_all add: dot_text_def)

lemma dot_join_Cons: "dot_join (v # cs) = decimal v @ dot_text cs"
  by (induction cs arbitrary: v) simp_all

lemma oid_text_loop_Cons:
  assumes "c < 2 ^ 64"
  shows "oid_text_loop e (base128 c @ t) s =
     cbb_then (cbb_then (CBB_add_u8 e s 0 46) (\<lambda>s1. add_decimal e s1 0 (word_of_nat c))) (oid_text_loop e t)"
proof -
  have "base128 c @ t \<noteq> []" by (simp add: base128_def)
  with parse_base128_integer_base128 [OF assms, of t] show ?thesis
    by (subst oid_text_loop.simps) (simp del: append_is_Nil_conv)
qed

lemma oid_text_loop_refines:
  assumes "\<forall>c \<in> set cs. c < 2 ^ 64"
  shows "cbb_refines e N 0 0 (\<lambda>s. cbb_then (oid_text_loop e (concat (map base128 cs)) s) (\<lambda>s3. CBB_add_u8 e s3 0 0))
     (abs_append 0 (dot_text cs @ [0]))"
  using assms
proof (induction cs)
  case Nil
  then show ?case using CBB_add_u8_refines [of e N 0 0]
    by (simp add: oid_text_loop.simps cbb_then_def)
next
  case (Cons c cs)
  have c: "unat (word_of_nat c :: u64) = c" using Cons.prems by (simp add: unat_of_nat)
  have "cbb_refines e N 0 0
     (\<lambda>s. cbb_then (cbb_then (CBB_add_u8 e s 0 46) (\<lambda>s1. add_decimal e s1 0 (word_of_nat c)))
        (\<lambda>s2. cbb_then (oid_text_loop e (concat (map base128 cs)) s2) (\<lambda>s3. CBB_add_u8 e s3 0 0)))
     (abs_append 0 (([46] @ decimal (unat (word_of_nat c :: u64))) @ dot_text cs @ [0]))"
    by (rule cbb_refines_append_then
          [OF cbb_refines_append_then [OF CBB_add_u8_refines add_decimal_refines] Cons.IH])
      (use Cons.prems in simp)
  then show ?case using Cons.prems
    by (simp add: oid_text_loop_Cons cbb_then_assoc c)
qed

lemma oid_text_loop_sound:
  "fst (oid_text_loop e copy s) \<Longrightarrow> \<exists>cs. copy = concat (map base128 cs) \<and> (\<forall>c \<in> set cs. c < 2 ^ 64)"
proof (induction e copy s rule: oid_text_loop.induct)
  case (1 e copy s)
  show ?case
  proof (cases "copy = []")
    case True
    then have "copy = concat (map base128 [])" by simp
    then show ?thesis by fastforce
  next
    case False
    with "1.prems" obtain v copy' where v: "parse_base128_integer copy = (Some v, copy')"
      and f: "fst (cbb_then (cbb_then (CBB_add_u8 e s 0 46) (\<lambda>s1. add_decimal e s1 0 v)) (oid_text_loop e copy'))"
      by (subst (asm) oid_text_loop.simps) (auto split: option.splits prod.splits if_splits)
    then obtain s' where "fst (oid_text_loop e copy' s')" by (auto simp: cbb_then_def split: if_splits)
    with "1.IH" [OF False v [symmetric]] obtain cs where
      cs: "copy' = concat (map base128 cs)" "\<forall>c \<in> set cs. c < 2 ^ 64" using v by metis
    have "copy = concat (map base128 (unat v # cs))" using v cs by (simp add: parse_base128_integer_iff)
    moreover have "unat v < 2 ^ 64" using unsigned_less [of v, where ?'a = nat] by simp
    ultimately show ?thesis using cs(2) by (intro exI [of _ "unat v # cs"]) auto
  qed
qed

text \<open>The part of \<open>CBS_asn1_oid_to_text\<close> between initialising and finishing the builder.\<close>

definition oid_text_body :: "env \<Rightarrow> u64 \<Rightarrow> CBS \<Rightarrow> CBB \<Rightarrow> bool \<times> CBB" where
  "oid_text_body e v copy s =
     cbb_then (cbb_then
       (if v \<ge> 80
        then cbb_then (CBB_add_bytes e s 0 [50, 46]) (\<lambda>s1. add_decimal e s1 0 (v - 80))
        else cbb_then (cbb_then (add_decimal e s 0 (v div 40)) (\<lambda>s1. CBB_add_u8 e s1 0 46))
               (\<lambda>s2. add_decimal e s2 0 (v mod 40)))
       (oid_text_loop e copy)) (\<lambda>s3. CBB_add_u8 e s3 0 0)"

lemma CBS_asn1_oid_to_text_body:
  "CBS_asn1_oid_to_text e cbs =
     (case CBB_init e 32 of
        (False, _) \<Rightarrow> None
      | (True, s) \<Rightarrow>
          (case parse_base128_integer cbs of
             (None, _) \<Rightarrow> None
           | (Some v, copy) \<Rightarrow>
               (case oid_text_body e v copy s of
                  (False, _) \<Rightarrow> None
                | (True, s4) \<Rightarrow> fst (CBB_finish e s4 0 True))))"
  unfolding CBS_asn1_oid_to_text_def oid_text_body_def Let_def ..

definition first_text :: "nat \<Rightarrow> u8 list" where
  "first_text v = (if v \<ge> 80 then [50, 46] @ decimal (v - 80)
                   else (decimal (v div 40) @ [46]) @ decimal (v mod 40))"

lemma oid_text_body_refines:
  assumes "\<forall>c \<in> set cs. c < 2 ^ 64"
  shows "cbb_refines e N 0 0 (oid_text_body e v (concat (map base128 cs)))
           (abs_append 0 (first_text (unat v) @ dot_text cs @ [0]))"
proof -
  note loop = oid_text_loop_refines [OF assms, of e N]
  have num: "v \<ge> 80 \<longleftrightarrow> unat v \<ge> 80" "unat (v div 40) = unat v div 40" "unat (v mod 40) = unat v mod 40"
    "v \<ge> 80 \<Longrightarrow> unat (v - 80) = unat v - 80"
    by (simp_all add: word_le_nat_alt unat_div_distrib unat_mod_distrib unat_sub)
  show ?thesis
  proof (cases "v \<ge> 80")
    case True
    have two: "length [50, 46 :: u8] \<le> 9223372036854775807" by simp
    have "cbb_refines e N 0 0
        (\<lambda>s. cbb_then (cbb_then (CBB_add_bytes e s 0 [50, 46]) (\<lambda>s1. add_decimal e s1 0 (v - 80)))
           (\<lambda>s2. cbb_then (oid_text_loop e (concat (map base128 cs)) s2) (\<lambda>s3. CBB_add_u8 e s3 0 0)))
        (abs_append 0 (([50, 46] @ decimal (unat (v - 80))) @ dot_text cs @ [0]))"
      by (rule cbb_refines_append_then
          [OF cbb_refines_append_then [OF CBB_add_bytes_refines [OF two] add_decimal_refines] loop])
    moreover have "oid_text_body e v (concat (map base128 cs)) =
        (\<lambda>s. cbb_then (cbb_then (CBB_add_bytes e s 0 [50, 46]) (\<lambda>s1. add_decimal e s1 0 (v - 80)))
           (\<lambda>s2. cbb_then (oid_text_loop e (concat (map base128 cs)) s2) (\<lambda>s3. CBB_add_u8 e s3 0 0)))"
      using True by (intro ext) (simp add: oid_text_body_def cbb_then_assoc)
    ultimately show ?thesis using True num by (simp add: first_text_def)
  next
    case False
    have "cbb_refines e N 0 0
        (\<lambda>s. cbb_then (cbb_then (cbb_then (add_decimal e s 0 (v div 40)) (\<lambda>s1. CBB_add_u8 e s1 0 46))
                 (\<lambda>s2. add_decimal e s2 0 (v mod 40)))
           (\<lambda>s2. cbb_then (oid_text_loop e (concat (map base128 cs)) s2) (\<lambda>s3. CBB_add_u8 e s3 0 0)))
        (abs_append 0 (((decimal (unat (v div 40)) @ [46]) @ decimal (unat (v mod 40))) @ dot_text cs @ [0]))"
      by (rule cbb_refines_append_then
          [OF cbb_refines_append_then [OF cbb_refines_append_then
                [OF add_decimal_refines CBB_add_u8_refines] add_decimal_refines] loop])
    moreover have "oid_text_body e v (concat (map base128 cs)) =
        (\<lambda>s. cbb_then (cbb_then (cbb_then (add_decimal e s 0 (v div 40)) (\<lambda>s1. CBB_add_u8 e s1 0 46))
                 (\<lambda>s2. add_decimal e s2 0 (v mod 40)))
           (\<lambda>s2. cbb_then (oid_text_loop e (concat (map base128 cs)) s2) (\<lambda>s3. CBB_add_u8 e s3 0 0)))"
      using False by (intro ext) (simp add: oid_text_body_def cbb_then_assoc)
    ultimately show ?thesis using False num by (simp add: first_text_def)
  qed
qed

lemma oid_first:
  assumes "oid_ok a b cs"
  shows "first_text (40 * a + b) @ dot_text cs = oid_text a b cs"
proof -
  consider "a = 2" | "a = 0" "b \<le> 39" | "a = 1" "b \<le> 39" using assms by (force simp: oid_ok_def)
  moreover have "decimal 0 = [48]" "decimal 1 = [49]" "decimal 2 = [50]"
    by (subst decimal.simps, simp add: byte_eqI)+
  moreover have "(40 + b) div 40 = 1" "(40 + b) mod 40 = b" if "b \<le> 39" using that by auto
  ultimately show ?thesis
    by cases (simp_all add: first_text_def oid_text_def dot_join_Cons)
qed

lemma oid_first_sound:
  fixes v :: nat
  assumes "v < 2 ^ 64" and "\<forall>c \<in> set cs. c < 2 ^ 64"
  shows "\<exists>a b. oid_ok a b cs \<and> 40 * a + b = v"
proof (cases "v \<ge> 80")
  case True
  with assms have "oid_ok 2 (v - 80) cs \<and> 40 * 2 + (v - 80) = v" by (simp add: oid_ok_def)
  then show ?thesis by blast
next
  case False
  then have "v div 40 < 2" by simp
  with assms have "oid_ok (v div 40) (v mod 40) cs \<and> 40 * (v div 40) + v mod 40 = v"
    using mod_less_divisor [of 40 v] by (auto simp: oid_ok_def simp del: mod_less_divisor)
  then show ?thesis by blast
qed

lemma cbb_run:
  assumes r: "cbb_rep e N s cbb_top" and f: "cbb_refines e N 0 0 f (abs_append 0 x)"
  shows "case f s of
      (True, s') \<Rightarrow> (case CBB_finish e s' 0 True of
          (Some (buf, n), _) \<Rightarrow> n \<le> length buf \<and> take n buf = x | (None, _) \<Rightarrow> N < length x)
    | (False, s') \<Rightarrow> cbb_dead s' \<and> N < length x"
proof -
  let ?top = "\<lparr>f_width = 0, f_asn1 = False, f_data = x\<rparr>"
  have a: "abs_append 0 x cbb_top = Some [?top]" by (simp add: abs_append_def cbb_top_def)
  have d: "0 < length cbb_top" by (simp add: cbb_top_def)
  note F = cbb_refinesD [OF f r d]
  show ?thesis
  proof (cases "f s")
    case (Pair ok s')
    show ?thesis
    proof (cases ok)
      case True
      with F Pair a have "cbb_rep e N s' [?top]" by simp
      from CBB_finish_rep [OF this] True Pair show ?thesis
        by (auto split: prod.splits option.splits)
    next
      case False
      with F Pair a show ?thesis by simp
    qed
  qed
qed

lemma CBS_asn1_oid_to_text_Some:
  assumes e: "malloc_sane e" and ok: "oid_ok a b cs" and i: "fst (CBB_init e 32)"
    and g: "cbb_grant e N 32"
  shows "(case CBS_asn1_oid_to_text e (oid_der a b cs) of
       Some (buf, n) \<Rightarrow> n \<le> length buf \<and> take n buf = oid_text a b cs @ [0]
     | None \<Rightarrow> N < length (oid_text a b cs @ [0]))"
proof -
  obtain s where s: "CBB_init e 32 = (True, s)" using i by (cases "CBB_init e 32") auto
  have r: "cbb_rep e N s cbb_top"
    using CBB_init_rep [OF e _ g] s by (simp add: OPENSSL_MALLOC_PREFIX_def)
  let ?v = "word_of_nat (40 * a + b) :: u64"
  let ?copy = "concat (map base128 cs)"
  have v: "40 * a + b < 2 ^ 64" and cs: "\<forall>c \<in> set cs. c < 2 ^ 64" using ok by (auto simp: oid_ok_def)
  have uv: "unat ?v = 40 * a + b" using v by (simp only: unat_of_nat) simp
  have p: "parse_base128_integer (oid_der a b cs) = (Some ?v, ?copy)"
    unfolding oid_der_def using parse_base128_integer_base128 [OF v, of ?copy] by simp
  have x: "first_text (unat ?v) @ dot_text cs @ [0] = oid_text a b cs @ [0]"
    unfolding uv using oid_first [OF ok] by simp
  note R = cbb_run [OF r oid_text_body_refines [OF cs, of e N ?v], unfolded x]
  then show ?thesis unfolding CBS_asn1_oid_to_text_body s p
    by (auto simp: split_beta split: prod.splits option.splits bool.splits)
qed

lemma CBS_asn1_oid_to_text_sound:
  assumes e: "malloc_sane e" and t: "CBS_asn1_oid_to_text e cbs = Some (buf, n)"
  shows "\<exists>a b cs. oid_ok a b cs \<and> cbs = oid_der a b cs \<and> take n buf = oid_text a b cs @ [0]"
proof -
  from t obtain s v copy s4 where s: "CBB_init e 32 = (True, s)"
    and v: "parse_base128_integer cbs = (Some v, copy)" and b: "oid_text_body e v copy s = (True, s4)"
    by (auto simp: CBS_asn1_oid_to_text_body split: prod.splits option.splits bool.splits)
  have vb: "unat v < 2 ^ 64" using unsigned_less [of v, where ?'a = nat] by simp
  from b obtain s' where "fst (oid_text_loop e copy s')"
    by (auto simp: oid_text_body_def cbb_then_def split: if_splits)
  then obtain cs where cs: "copy = concat (map base128 cs)" "\<forall>c \<in> set cs. c < 2 ^ 64"
    using oid_text_loop_sound by blast
  obtain a b where ab: "oid_ok a b cs" "40 * a + b = unat v"
    using oid_first_sound [OF vb cs(2)] by blast
  have der: "cbs = oid_der a b cs"
    using v cs(1) ab(2) by (simp add: parse_base128_integer_iff oid_der_def)
  have "cbb_grant e 0 32" by (simp add: cbb_grant_def)
  from CBS_asn1_oid_to_text_Some [OF e ab(1) _ this] s t der ab(1) show ?thesis by auto
qed

section \<open>Text to content octets\<close>

lemma oid_from_text_loop_Nil: "oid_from_text_loop e d [] s = (True, s)"
  by (simp add: oid_from_text_loop.simps)

lemma oid_from_text_loop_Cons:
  assumes "c < 2 ^ 64"
  shows "oid_from_text_loop e d (dot_join (c # cs)) s =
     cbb_then (add_base128_integer e s d (word_of_nat c)) (oid_from_text_loop e d (dot_join cs))"
proof -
  have c: "unat (word_of_nat c :: u64) = c" using assms by (simp only: unat_of_nat) simp
  have "dot_join (c # cs) = decimal c @ (if dot_join cs = [] then [] else 46 # dot_join cs)"
    by (cases cs) (auto simp: dot_join_Cons)
  then have "parse_dotted_decimal (dot_join (c # cs)) = (Some (word_of_nat c), dot_join cs)"
    by (simp only: parse_dotted_decimal_iff c)
  moreover have "dot_join (c # cs) \<noteq> []" by (simp add: dot_join_Cons)
  ultimately show ?thesis by (subst oid_from_text_loop.simps) simp
qed

lemma oid_from_text_loop_refines:
  assumes "\<forall>c \<in> set cs. c < 2 ^ 64" and "cbb_refines e N d d f (abs_append d xs)"
  shows "cbb_refines e N d d (\<lambda>s. cbb_then (f s) (oid_from_text_loop e d (dot_join cs)))
     (abs_append d (xs @ concat (map base128 cs)))"
  using assms
proof (induction cs arbitrary: f xs)
  case Nil
  then show ?case by (simp add: oid_from_text_loop_Nil cbb_then_return)
next
  case (Cons c cs)
  let ?f = "\<lambda>s. cbb_then (f s) (\<lambda>s. add_base128_integer e s d (word_of_nat c))"
  have c: "unat (word_of_nat c :: u64) = c" using Cons.prems(1) by (simp add: unat_of_nat)
  have "cbb_refines e N d d ?f (abs_append d (xs @ base128 (unat (word_of_nat c :: u64))))"
    by (rule cbb_refines_append_then [OF Cons.prems(2) add_base128_integer_refines])
  from Cons.IH [OF _ this] Cons.prems(1) show ?case
    by (simp add: oid_from_text_loop_Cons cbb_then_assoc c)
qed

lemma word_40: "a \<le> 2 \<Longrightarrow> unat b + 80 < 2 ^ 64 \<Longrightarrow> unat (40 * a + b :: u64) = 40 * unat a + unat b"
proof -
  assume a: "a \<le> 2" and b: "unat b + 80 < 2 ^ 64"
  have "unat a \<le> 2" using a by (simp add: word_le_nat_alt)
  then show ?thesis using b by (simp add: unat_word_ariths)
qed

text \<open>The checks on the first two components.\<close>

lemma oid_first_check:
  "\<not> ((a :: u64) > 2 \<or> (a < 2 \<and> b > 39) \<or> b > 0xffffffffffffffff - (80 :: u64)) \<longleftrightarrow>
     unat a \<le> 2 \<and> (unat a < 2 \<longrightarrow> unat b \<le> 39) \<and> unat b + 80 < 2 ^ 64"
proof -
  have "unat (0xffffffffffffffff - 80 :: u64) = 18446744073709551535" by simp
  then show ?thesis by (auto simp: word_less_nat_alt)
qed

lemma oid_ok_first:
  "oid_ok a b cs \<longleftrightarrow> a \<le> 2 \<and> (a < 2 \<longrightarrow> b \<le> 39) \<and> b + 80 < 2 ^ 64 \<and> (\<forall>c \<in> set cs. c < 2 ^ 64)"
proof -
  have "a = 0 \<or> a = 1 \<or> a = 2" if "a \<le> 2" using that by auto
  then show ?thesis unfolding oid_ok_def by auto
qed

lemma CBB_add_asn1_oid_from_text_refines [cbb_refine]:
  assumes ok: "oid_ok a b cs"
  shows "cbb_refines e N d d (\<lambda>s. CBB_add_asn1_oid_from_text e s d (oid_text a b cs))
           (abs_append d (oid_der a b cs))"
proof -
  let ?a = "word_of_nat a :: u64" and ?b = "word_of_nat b :: u64"
  from ok have a: "a \<le> 2" and b: "b + 80 < 2 ^ 64" and lo: "a < 2 \<longrightarrow> b \<le> 39"
    and cs: "\<forall>c \<in> set cs. c < 2 ^ 64" by (auto simp: oid_ok_first)
  have ua: "unat ?a = a" using a by (simp add: unat_of_nat)
  have ub: "unat ?b = b" using b by (simp add: unat_of_nat)
  have pa: "parse_dotted_decimal (oid_text a b cs) = (Some ?a, dot_join (b # cs))"
    by (simp add: parse_dotted_decimal_iff ua oid_text_def dot_join_Cons)
  have "dot_join (b # cs) = decimal b @ (if dot_join cs = [] then [] else 46 # dot_join cs)"
    by (cases cs) (auto simp: dot_join_Cons)
  then have pb: "parse_dotted_decimal (dot_join (b # cs)) = (Some ?b, dot_join cs)"
    by (simp only: parse_dotted_decimal_iff ub)
  have chk: "\<not> (?a > 2 \<or> (?a < 2 \<and> ?b > 39) \<or> ?b > 0xffffffffffffffff - (80 :: u64))"
    unfolding oid_first_check ua ub using a b lo by simp
  have v: "unat (40 * ?a + ?b) = 40 * a + b"
    using word_40 [of ?a ?b] a b ua ub by (simp add: word_le_nat_alt del: of_nat_add of_nat_mult)
  have "cbb_refines e N d d
      (\<lambda>s. cbb_then (cbb_then (CBB_flush e s d) (\<lambda>s1. add_base128_integer e s1 d (40 * ?a + ?b)))
             (oid_from_text_loop e d (dot_join cs)))
      (abs_append d (([] @ base128 (unat (40 * ?a + ?b))) @ concat (map base128 cs)))"
    by (rule oid_from_text_loop_refines [OF cs cbb_refines_append_then
          [OF CBB_flush_refines add_base128_integer_refines]])
  moreover have "CBB_add_asn1_oid_from_text e s d (oid_text a b cs) =
      cbb_then (cbb_then (CBB_flush e s d) (\<lambda>s1. add_base128_integer e s1 d (40 * ?a + ?b)))
             (oid_from_text_loop e d (dot_join cs))" for s
    by (simp only: CBB_add_asn1_oid_from_text_def pa pb cbb_then_assoc prod.case option.case
        if_not_P [OF chk])
  ultimately show ?thesis unfolding v by (simp add: oid_der_def)
qed

lemma oid_from_text_loop_sound:
  "fst (oid_from_text_loop e d cbs s) \<Longrightarrow> \<exists>cs. cbs = dot_join cs \<and> (\<forall>c \<in> set cs. c < 2 ^ 64)"
proof (induction e d cbs s rule: oid_from_text_loop.induct)
  case (1 e d cbs s)
  show ?case
  proof (cases "cbs = []")
    case True
    then show ?thesis by (intro exI [of _ "[]"]) simp
  next
    case False
    with "1.prems" obtain v cbs' where v: "parse_dotted_decimal cbs = (Some v, cbs')"
      and f: "fst (cbb_then (add_base128_integer e s d v) (oid_from_text_loop e d cbs'))"
      by (subst (asm) oid_from_text_loop.simps) (auto split: option.splits prod.splits if_splits)
    then obtain s' where "fst (oid_from_text_loop e d cbs' s')" by (auto simp: cbb_then_def split: if_splits)
    with "1.IH" [OF False v [symmetric]] obtain cs where
      cs: "cbs' = dot_join cs" "\<forall>c \<in> set cs. c < 2 ^ 64" using v by metis
    have "cbs = dot_join (unat v # cs)"
      using v cs by (cases cs) (auto simp: parse_dotted_decimal_iff dot_join_Cons)
    moreover have "unat v < 2 ^ 64" using unsigned_less [of v, where ?'a = nat] by simp
    ultimately show ?thesis using cs(2) by (intro exI [of _ "unat v # cs"]) auto
  qed
qed

lemma dot_join_uncons: "cbs = dot_join cs \<Longrightarrow> cbs \<noteq> [] \<Longrightarrow> \<exists>c cs'. cs = c # cs'"
  by (cases cs) auto

lemma CBB_add_asn1_oid_from_text_sound:
  assumes "fst (CBB_add_asn1_oid_from_text e s d text)"
  shows "\<exists>a b cs. oid_ok a b cs \<and> text = oid_text a b cs"
proof -
  from assms obtain s1 a b cbs cbs' where a: "parse_dotted_decimal text = (Some a, cbs)"
    and b: "parse_dotted_decimal cbs = (Some b, cbs')"
    and chk: "\<not> (a > 2 \<or> (a < 2 \<and> b > 39) \<or> b > 0xffffffffffffffff - (80 :: u64))"
    and l: "fst (cbb_then (add_base128_integer e s1 d (40 * a + b)) (oid_from_text_loop e d cbs'))"
    by (auto simp: CBB_add_asn1_oid_from_text_def cbb_then_def [of "CBB_flush e s d"]
        simp del: de_Morgan_disj split: if_splits prod.splits option.splits)
  then obtain s2 where "fst (oid_from_text_loop e d cbs' s2)" by (auto simp: cbb_then_def split: if_splits)
  then obtain cs where cs: "cbs' = dot_join cs" "\<forall>c \<in> set cs. c < 2 ^ 64"
    using oid_from_text_loop_sound by blast
  have cb: "cbs = dot_join (unat b # cs)"
    using b cs(1) by (cases cs) (auto simp: parse_dotted_decimal_iff dot_join_Cons)
  then have "cbs \<noteq> []" by (simp add: dot_join_Cons)
  with a cb have "text = oid_text (unat a) (unat b) cs"
    by (simp add: parse_dotted_decimal_iff oid_text_def)
  moreover have "oid_ok (unat a) (unat b) cs"
    using chk [unfolded oid_first_check] cs(2) by (simp add: oid_ok_first)
  ultimately show ?thesis by blast
qed

section \<open>Properties\<close>

text \<open>C6: object identifiers survive the conversion to text and back. For a valid list of
  components (first at most 2, second at most 39 below an arc 0 or 1, the encoded values
  within 64 bits), and with the memory the builder asks for, \<open>CBS_asn1_oid_to_text\<close> turns the
  content octets into the NUL-terminated dotted text, and \<open>CBB_add_asn1_oid_from_text\<close> on
  that text, followed by \<open>CBB_finish\<close>, produces the content octets again.\<close>

theorem OID_text_roundtrip:
  assumes "malloc_sane e" and "oid_ok a b cs" and "malloc_ok e 40"
    and "cbb_grant e (length (oid_text a b cs) + 1) 32" and "cbb_grant e (length (oid_der a b cs)) 32"
  shows "(\<exists>buf n. CBS_asn1_oid_to_text e (oid_der a b cs) = Some (buf, n)
            \<and> take n buf = oid_text a b cs @ [0])
    \<and> (\<exists>s1 s2 s3 buf n. CBB_init e 32 = (True, s1)
            \<and> CBB_add_asn1_oid_from_text e s1 0 (oid_text a b cs) = (True, s2)
            \<and> CBB_finish e s2 0 True = (Some (buf, n), s3) \<and> take n buf = oid_der a b cs)"
proof
  have i: "fst (CBB_init e 32)"
    using assms(3) by (intro CBB_init_ok) (simp_all add: OPENSSL_MALLOC_PREFIX_def size_max_num)
  then obtain s1 where s1: "CBB_init e 32 = (True, s1)" by (cases "CBB_init e 32") auto
  show "\<exists>buf n. CBS_asn1_oid_to_text e (oid_der a b cs) = Some (buf, n)
            \<and> take n buf = oid_text a b cs @ [0]"
    using CBS_asn1_oid_to_text_Some [OF assms(1,2) i assms(4)] by (auto split: option.splits)
  have r: "cbb_rep e (length (oid_der a b cs)) s1 cbb_top"
    using CBB_init_rep [OF assms(1) _ assms(5)] s1 by (simp add: OPENSSL_MALLOC_PREFIX_def)
  from cbb_run [OF r CBB_add_asn1_oid_from_text_refines [OF assms(2)]] s1
  show "\<exists>s1 s2 s3 buf n. CBB_init e 32 = (True, s1)
            \<and> CBB_add_asn1_oid_from_text e s1 0 (oid_text a b cs) = (True, s2)
            \<and> CBB_finish e s2 0 True = (Some (buf, n), s3) \<and> take n buf = oid_der a b cs"
    by (auto split: option.splits prod.splits bool.splits)
qed

text \<open>C7: neither conversion accepts anything else. Text that \<open>CBB_add_asn1_oid_from_text\<close>
  accepts is the dotted text of a valid list of components (no empty component, no leading
  zero, no overflow, no trailing dot), and octets that \<open>CBS_asn1_oid_to_text\<close> accepts are the
  encoding of one (minimal base 128, not empty), whose text it returns.\<close>

theorem OID_text_canonical:
  assumes "malloc_sane e"
  shows "(fst (CBB_add_asn1_oid_from_text e s d text) \<longrightarrow>
            (\<exists>a b cs. oid_ok a b cs \<and> text = oid_text a b cs))
    \<and> (CBS_asn1_oid_to_text e octets = Some (buf, n) \<longrightarrow>
            (\<exists>a b cs. oid_ok a b cs \<and> octets = oid_der a b cs \<and> take n buf = oid_text a b cs @ [0]))"
  using CBB_add_asn1_oid_from_text_sound CBS_asn1_oid_to_text_sound [OF assms] by blast

lemma small_env_facts:
  "malloc_sane small_env" "malloc_ok small_env 40" "fst (CBB_init small_env 32)"
proof -
  show "malloc_sane small_env" "malloc_ok small_env 40"
    by (simp_all add: malloc_sane_def small_env_def)
  show "fst (CBB_init small_env 32)"
    by (rule CBB_init_ok) (simp_all add: small_env_def OPENSSL_MALLOC_PREFIX_def size_max_num)
qed

lemma small_oid:
  "oid_ok 1 2 [840]" "oid_der 1 2 [840] = [0x2a, 0x86, 0x48]"
  "oid_text 1 2 [840] = [49, 46, 50, 46, 56, 52, 48]"
  by (simp add: oid_ok_def, code_simp, code_simp)

lemma small_grant: "N \<le> 32 \<Longrightarrow> cbb_grant small_env N 32"
  by (simp add: cbb_grant_def)

theorem OID_text_roundtrip_witness:
  "(\<exists>buf n. CBS_asn1_oid_to_text small_env [0x2a, 0x86, 0x48] = Some (buf, n)
        \<and> take n buf = [49, 46, 50, 46, 56, 52, 48] @ [0])
    \<and> (\<exists>s1 s2 s3 buf n. CBB_init small_env 32 = (True, s1)
        \<and> CBB_add_asn1_oid_from_text small_env s1 0 [49, 46, 50, 46, 56, 52, 48] = (True, s2)
        \<and> CBB_finish small_env s2 0 True = (Some (buf, n), s3) \<and> take n buf = [0x2a, 0x86, 0x48])"
  using OID_text_roundtrip [OF small_env_facts(1) small_oid(1) small_env_facts(2)
      small_grant small_grant] unfolding small_oid by simp

theorem OID_text_canonical_witness:
  "\<exists>buf n. CBS_asn1_oid_to_text small_env [0x2a, 0x86, 0x48] = Some (buf, n)
     \<and> (\<exists>a b cs. oid_ok a b cs \<and> [0x2a, 0x86, 0x48] = oid_der a b cs \<and> take n buf = oid_text a b cs @ [0])"
proof -
  have "(case CBS_asn1_oid_to_text small_env [0x2a, 0x86, 0x48] of
       Some (buf, n) \<Rightarrow> n \<le> length buf \<and> take n buf = oid_text 1 2 [840] @ [0]
     | None \<Rightarrow> 32 < length (oid_text 1 2 [840] @ [0 :: u8]))"
    using CBS_asn1_oid_to_text_Some [OF small_env_facts(1) small_oid(1) small_env_facts(3) small_grant, of 32]
    unfolding small_oid by simp
  then obtain buf n where s: "CBS_asn1_oid_to_text small_env [0x2a, 0x86, 0x48] = Some (buf, n)"
    unfolding small_oid by (auto split: option.splits)
  with OID_text_canonical [OF small_env_facts(1), of _ _ _ "[0x2a, 0x86, 0x48]" buf n] show ?thesis by blast
qed

end
