(* ===== verification/BER.thy ===== *)
theory BER
  imports CBB_Props
begin

text \<open>
  BER to DER conversion, \<open>crypto/bytestring/ber.c\<close>: the search for indefinite lengths and
  constructed strings, the recursive conversion into a builder, and the reader of
  implicitly tagged strings. The reference side is a datatype of BER values with its
  encoding and its DER form.
\<close>

section \<open>The code\<close>

definition kMaxDepth :: nat where
  "kMaxDepth = 2048"

definition clear_constructed :: "u32 \<Rightarrow> u32" where
  "clear_constructed tag = tag AND NOT CBS_ASN1_CONSTRUCTED"

definition is_string_type :: "u32 \<Rightarrow> bool" where
  "is_string_type tag \<longleftrightarrow>
     clear_constructed tag \<in> {CBS_ASN1_BITSTRING, CBS_ASN1_OCTETSTRING, CBS_ASN1_UTF8STRING,
       CBS_ASN1_NUMERICSTRING, CBS_ASN1_PRINTABLESTRING, CBS_ASN1_T61STRING,
       CBS_ASN1_VIDEOTEXSTRING, CBS_ASN1_IA5STRING, CBS_ASN1_GRAPHICSTRING,
       CBS_ASN1_VISIBLESTRING, CBS_ASN1_GENERALSTRING, CBS_ASN1_UNIVERSALSTRING,
       CBS_ASN1_BMPSTRING}"

text \<open>The test for an indefinite-length element, as both functions write it.\<close>

definition is_indefinite :: "CBS \<Rightarrow> nat \<Rightarrow> bool" where
  "is_indefinite contents header_len \<longleftrightarrow>
     length contents = header_len \<and> header_len > 0 \<and> contents ! (header_len - 1) = 0x80"

lemma ber_element_shorter:
  assumes "CBS_get_any_ber_asn1_element in1 = (Some (contents, tag, hl), in2)"
  shows "in1 = contents @ in2" and "0 < hl" and "hl \<le> length contents"
proof -
  from any_element_read [OF assms [unfolded CBS_get_any_ber_asn1_element_def]]
  show split: "in1 = contents @ in2" by auto
  have "\<exists>t lb h. in1 = der_tag t @ lb # h"
  proof (rule ccontr)
    assume "\<nexists>t lb h. in1 = der_tag t @ lb # h"
    from any_element_no_header [OF this, of True] assms show False
      by (simp add: CBS_get_any_ber_asn1_element_def)
  qed
  then obtain t lb h where h: "in1 = der_tag t @ lb # h" by blast
  let ?h0 = "length (der_tag t) + 1"
  have h0: "?h0 \<le> 7" using length_der_tag [of t] by simp
  have fit: "size_add (unat (l :: u32)) (size_add ?h0 k) = unat l + ?h0 + k" if "k \<le> 4" for l k
  proof -
    have "unat l < 2 ^ 32" using unsigned_less [of l, where ?'a = nat] by simp
    with h0 that show ?thesis by (simp add: size_add_exact SIZE_MAX_def)
  qed
  note u = assms [unfolded CBS_get_any_ber_asn1_element_def any_element_header [OF h] Let_def]
  have "0 < hl \<and> hl \<le> length contents"
    using u fit
    by (auto simp: cbs_take_element_Some not_less not_le split: if_splits option.splits prod.splits)
  then show "0 < hl" "hl \<le> length contents" by auto
qed

lemma ber_skip_body:
  "CBS_skip contents hl = (Some (), body) \<Longrightarrow> length body = length contents - hl \<and> hl \<le> length contents"
  by (auto simp: CBS_skip_def cbs_get_def split: if_splits)

lemma ber_rest_shorter:
  "(Some (contents, tag, hl), in2) = CBS_get_any_ber_asn1_element in1 \<Longrightarrow> length in2 < length in1"
  using ber_element_shorter [of in1 contents tag hl in2] by auto

lemma ber_body_shorter:
  "(Some (contents, tag, hl), in2) = CBS_get_any_ber_asn1_element in1 \<Longrightarrow>
     (Some u, body) = CBS_skip contents hl \<Longrightarrow> length body < length in1"
  using ber_element_shorter [of in1 contents tag hl in2] ber_skip_body [of contents hl body] by auto

text \<open>\<open>cbs_find_ber\<close> with its loop: the return value and \<open>*ber_found\<close>.\<close>

function (sequential) cbs_find_ber :: "CBS \<Rightarrow> bool \<Rightarrow> nat \<Rightarrow> bool \<times> bool"
  and find_ber_loop :: "CBS \<Rightarrow> bool \<Rightarrow> nat \<Rightarrow> bool \<times> bool" where
  "cbs_find_ber orig_in ber_found depth =
     (if depth > kMaxDepth then (False, ber_found) else find_ber_loop orig_in False depth)"
| "find_ber_loop in1 ber_found depth =
     (if in1 = [] then (True, ber_found)
      else case CBS_get_any_ber_asn1_element in1 of
             (None, _) \<Rightarrow> (False, ber_found)
           | (Some (contents, tag, header_len), in2) \<Rightarrow>
               (if is_indefinite contents header_len then (True, True)
                else if tag AND CBS_ASN1_CONSTRUCTED \<noteq> 0 then
                  (if is_string_type tag then (True, True)
                   else case CBS_skip contents header_len of
                          (None, _) \<Rightarrow> (False, ber_found)
                        | (Some _, body) \<Rightarrow>
                            (case cbs_find_ber body ber_found (depth + 1) of
                               (False, found') \<Rightarrow> (False, found')
                             | (True, found') \<Rightarrow> find_ber_loop in2 found' depth))
                else find_ber_loop in2 ber_found depth))"
  by pat_completeness auto
termination
  by (relation "measure (\<lambda>x. case x of Inl (c, _, _) \<Rightarrow> 2 * length c + 1 | Inr (c, _, _) \<Rightarrow> 2 * length c)")
    (auto dest: ber_rest_shorter ber_body_shorter)

declare cbs_find_ber.simps [simp del] find_ber_loop.simps [simp del]

definition is_eoc :: "nat \<Rightarrow> CBS \<Rightarrow> bool" where
  "is_eoc header_len contents \<longleftrightarrow> header_len = 2 \<and> length contents = 2 \<and> contents = [0, 0]"

text \<open>Where the contents of an element go: into \<open>out\<close> itself inside a constructed string,
  into a new child otherwise. \<open>None\<close> is a fragment of another type.\<close>

definition ber_out_contents ::
    "env \<Rightarrow> CBB \<Rightarrow> nat \<Rightarrow> u32 \<Rightarrow> u32 \<Rightarrow> ((bool \<times> CBB) \<times> nat \<times> u32) option" where
  "ber_out_contents e s d string_tag tag =
     (if string_tag \<noteq> 0
      then (if clear_constructed tag \<noteq> string_tag then None else Some ((True, s), d, string_tag))
      else let is_str = (tag AND CBS_ASN1_CONSTRUCTED \<noteq> 0 \<and> is_string_type tag);
               out_tag = (if is_str then clear_constructed tag else tag);
               child_string_tag = (if is_str then out_tag else string_tag)
           in Some (CBB_add_asn1 e s d out_tag, Suc d, child_string_tag))"

text \<open>The result is the return value, what is left of \<open>in\<close>, and the builder.\<close>

function cbs_convert_ber ::
    "env \<Rightarrow> CBS \<Rightarrow> CBB \<Rightarrow> nat \<Rightarrow> u32 \<Rightarrow> bool \<Rightarrow> nat \<Rightarrow> bool \<times> CBS \<times> CBB" where
  "cbs_convert_ber e in1 s d string_tag looking_for_eoc depth =
     (if depth > kMaxDepth then (False, in1, s)
      else if in1 = [] then (\<not> looking_for_eoc, in1, s)
      else case CBS_get_any_ber_asn1_element in1 of
        (None, _) \<Rightarrow> (False, in1, s)
      | (Some (contents, tag, header_len), in2) \<Rightarrow>
     (if is_eoc header_len contents then (looking_for_eoc, in2, s)
      else case ber_out_contents e s d string_tag tag of
        None \<Rightarrow> (False, in2, s)
      | Some ((False, s1), _, _) \<Rightarrow> (False, in2, s1)
      | Some ((True, s1), oc, child_string_tag) \<Rightarrow>
     (if is_indefinite contents header_len then
        (case cbs_convert_ber e in2 s1 oc child_string_tag True (depth + 1) of
           (False, in3, s2) \<Rightarrow> (False, in3, s2)
         | (True, in3, s2) \<Rightarrow>
             (case CBB_flush e s2 d of
                (False, s3) \<Rightarrow> (False, in3, s3)
              | (True, s3) \<Rightarrow> cbs_convert_ber e in3 s3 d string_tag looking_for_eoc depth))
      else case CBS_skip contents header_len of
        (None, _) \<Rightarrow> (False, in2, s1)
      | (Some _, body) \<Rightarrow>
     (case (if tag AND CBS_ASN1_CONSTRUCTED \<noteq> 0
            then (case cbs_convert_ber e body s1 oc child_string_tag False (depth + 1) of
                    (ok, _, s2) \<Rightarrow> (ok, s2))
            else CBB_add_bytes e s1 oc body) of
        (False, s2) \<Rightarrow> (False, in2, s2)
      | (True, s2) \<Rightarrow>
          (case CBB_flush e s2 d of
             (False, s3) \<Rightarrow> (False, in2, s3)
           | (True, s3) \<Rightarrow> cbs_convert_ber e in2 s3 d string_tag looking_for_eoc depth)))))"
  by pat_completeness auto

text \<open>What a call leaves of \<open>in\<close> is never longer; with that the recursion terminates.\<close>

lemma cbs_convert_ber_remaining:
  "cbs_convert_ber_dom (e, in1, s, d, st, eoc, depth) \<Longrightarrow>
     (ok, in3, s3) = cbs_convert_ber e in1 s d st eoc depth \<Longrightarrow> length in3 \<le> length in1"
proof (induction arbitrary: ok in3 s3 rule: cbs_convert_ber.pinduct)
  case (1 e in1 s d st eoc depth)
  show ?case
  proof (cases "depth > kMaxDepth \<or> in1 = []")
    case True
    with 1 show ?thesis by (auto simp: cbs_convert_ber.psimps split: if_splits)
  next
    case False
    obtain r in2 where el: "CBS_get_any_ber_asn1_element in1 = (r, in2)" by force
    show ?thesis
    proof (cases r)
      case None
      with 1 False el show ?thesis by (auto simp: cbs_convert_ber.psimps)
    next
      case (Some x)
      obtain contents tag hl where x: "x = (contents, tag, hl)" by (cases x)
      have sh: "length in2 < length in1" using ber_rest_shorter el Some x by metis
      note dom = 1(1) and IH = 1(2-5) and prem = 1(6)
      note go = prem [unfolded cbs_convert_ber.psimps [OF dom]]
      show ?thesis
      proof (cases "is_eoc hl contents \<or> ber_out_contents e s d st tag = None")
        case True
        with go False el Some x sh show ?thesis by (auto split: if_splits)
      next
        case ne: False
        then obtain ok1 s1 oc cst where oc: "ber_out_contents e s d st tag = Some ((ok1, s1), oc, cst)"
          by auto
        show ?thesis
        proof (cases "ok1 \<and> is_indefinite contents hl")
          case True
          then have t: "ok1" "is_indefinite contents hl" by auto
          obtain ok2 in4 s2 where c: "cbs_convert_ber e in2 s1 oc cst True (depth + 1) = (ok2, in4, s2)"
            by (metis prod_cases3)
          obtain ok4 s4 where fl: "CBB_flush e s2 d = (ok4, s4)" by force
          have l4: "length in4 \<le> length in2" by (rule IH(1)) (use False el Some x ne oc t c in auto)
          have "length in3 \<le> length in4" if "ok2" "ok4"
            by (rule IH(2)) (use False el Some x ne oc t c fl that go in auto)
          with go False el Some x ne oc t c fl sh l4 show ?thesis
            by (cases ok2; cases ok4) auto
        next
          case nt: False
          obtain sk body where skip: "CBS_skip contents hl = (sk, body)" by force
          let ?r = "if tag AND CBS_ASN1_CONSTRUCTED \<noteq> 0
            then (case cbs_convert_ber e body s1 oc cst False (depth + 1) of (ok, _, s2) \<Rightarrow> (ok, s2))
            else CBB_add_bytes e s1 oc body"
          obtain ok2 s2 where r: "?r = (ok2, s2)" by force
          obtain ok4 s4 where fl: "CBB_flush e s2 d = (ok4, s4)" by force
          have "length in3 \<le> length in2" if "ok1" "sk \<noteq> None" "ok2" "ok4"
            by (rule IH(4)) (use False el Some x ne oc nt skip r fl that go in auto)
          with go False el Some x ne oc nt skip r fl sh show ?thesis
            by (cases ok1; cases ok2; cases ok4; cases sk) auto
        qed
      qed
    qed
  qed
qed

termination cbs_convert_ber
  by (relation "measure (\<lambda>(e, in1, s, d, st, eoc, depth). length in1)")
    (fastforce dest: ber_rest_shorter ber_body_shorter cbs_convert_ber_remaining)+

declare cbs_convert_ber.simps [simp del]

text \<open>\<open>None\<close> is failure, \<open>Some None\<close> success with \<open>*out\<close> NULL (nothing to convert), and
  \<open>Some (Some (buf, n))\<close> the converted bytes; the second result is \<open>*in\<close> afterwards.\<close>

definition CBS_asn1_ber_to_der :: "env \<Rightarrow> CBS \<Rightarrow> (u8 list \<times> nat) option option \<times> CBS" where
  "CBS_asn1_ber_to_der e in1 =
     (case cbs_find_ber in1 False 0 of
        (False, _) \<Rightarrow> (None, in1)
      | (True, False) \<Rightarrow> (Some None, in1)
      | (True, True) \<Rightarrow>
          (case CBB_init e (length in1) of
             (False, _) \<Rightarrow> (None, in1)
           | (True, s) \<Rightarrow>
               (case cbs_convert_ber e in1 s 0 0 False 0 of
                  (False, in2, _) \<Rightarrow> (None, in2)
                | (True, in2, s1) \<Rightarrow>
                    (case CBB_finish e s1 0 True of
                       (None, _) \<Rightarrow> (None, in2)
                     | (Some out, _) \<Rightarrow> (Some (Some out), in2)))))"

text \<open>The chunk loop of \<open>CBS_get_asn1_implicit_string\<close>.\<close>

lemma get_asn1_shorter:
  "(Some chunk, child') = CBS_get_asn1 child tag \<Longrightarrow> length child' < length child"
  using CBS_get_asn1_iff [of child tag chunk child'] by (auto simp: der_tlv_def der_tag_eq)

function implicit_chunks :: "env \<Rightarrow> CBS \<Rightarrow> u32 \<Rightarrow> CBB \<Rightarrow> bool \<times> CBB" where
  "implicit_chunks e child inner_tag s =
     (if child = [] then (True, s)
      else case CBS_get_asn1 child inner_tag of
             (None, _) \<Rightarrow> (False, s)
           | (Some chunk, child') \<Rightarrow>
               cbb_then (CBB_add_bytes e s 0 chunk) (implicit_chunks e child' inner_tag))"
  by pat_completeness auto
termination
  by (relation "measure (\<lambda>(e, child, tag, s). length child)") (auto dest: get_asn1_shorter)

declare implicit_chunks.simps [simp del]

text \<open>The bytes of \<open>*out\<close> and \<open>*out_storage\<close>.\<close>

definition CBS_get_asn1_implicit_string ::
    "env \<Rightarrow> CBS \<Rightarrow> u32 \<Rightarrow> u32 \<Rightarrow> (u8 list \<times> u8 list option) option \<times> CBS" where
  "CBS_get_asn1_implicit_string e in1 outer_tag inner_tag =
     (if CBS_peek_asn1_tag in1 outer_tag
      then (case CBS_get_asn1 in1 outer_tag of
              (None, in2) \<Rightarrow> (None, in2)
            | (Some out, in2) \<Rightarrow> (Some (out, None), in2))
      else case CBB_init e (length in1) of
        (False, _) \<Rightarrow> (None, in1)
      | (True, result) \<Rightarrow>
     (case CBS_get_asn1 in1 (outer_tag OR CBS_ASN1_CONSTRUCTED) of
        (None, in2) \<Rightarrow> (None, in2)
      | (Some child, in2) \<Rightarrow>
     (case implicit_chunks e child inner_tag result of
        (False, _) \<Rightarrow> (None, in2)
      | (True, result) \<Rightarrow>
     (case CBB_finish e result 0 True of
        (None, _) \<Rightarrow> (None, in2)
      | (Some (data, len), _) \<Rightarrow> (Some (take len data, Some data), in2)))))"

section \<open>BER values\<close>

text \<open>A primitive element, or a constructed one of definite or indefinite length.\<close>

datatype ber = BPrim u32 "u8 list" | BCons u32 bool "ber list"

fun ber_enc :: "ber \<Rightarrow> u8 list" where
  "ber_enc (BPrim tag content) = der_tlv tag content"
| "ber_enc (BCons tag False vs) = der_tlv tag (concat (map ber_enc vs))"
| "ber_enc (BCons tag True vs) = der_tag tag @ 0x80 # concat (map ber_enc vs) @ [0, 0]"

text \<open>The string tag the fragments below an element must have, \<open>0\<close> outside a string.\<close>

definition child_tag :: "u32 \<Rightarrow> u32 \<Rightarrow> u32" where
  "child_tag st tag =
     (if st \<noteq> 0 then st else if is_string_type tag then clear_constructed tag else 0)"

text \<open>What the conversion writes: definite lengths, and one primitive string for each constructed
  one, whose content is that of its fragments one after the other. For a BIT STRING this keeps
  the leading octet of every fragment, as the code does, so its value is not preserved.\<close>

fun ber_out :: "u32 \<Rightarrow> ber \<Rightarrow> u8 list" where
  "ber_out st (BPrim tag content) = (if st \<noteq> 0 then content else der_tlv tag content)"
| "ber_out st (BCons tag i vs) =
     (let body = concat (map (ber_out (child_tag st tag)) vs)
      in if st \<noteq> 0 then body
         else der_tlv (if is_string_type tag then clear_constructed tag else tag) body)"

fun ber_ok :: "u32 \<Rightarrow> nat \<Rightarrow> ber \<Rightarrow> bool" where
  "ber_ok st k (BPrim tag content) =
     (tag AND CBS_ASN1_CONSTRUCTED = 0 \<and> \<not> (tag = 0 \<and> content = [])
      \<and> length content \<le> 0xfffffffe \<and> (st \<noteq> 0 \<longrightarrow> tag = st))"
| "ber_ok st 0 (BCons tag i vs) = False"
| "ber_ok st (Suc k) (BCons tag i vs) =
     (tag AND CBS_ASN1_CONSTRUCTED \<noteq> 0 \<and> (st \<noteq> 0 \<longrightarrow> clear_constructed tag = st)
      \<and> (i \<or> length (concat (map ber_enc vs)) \<le> 0xfffffffe)
      \<and> length (concat (map (ber_out (child_tag st tag)) vs)) \<le> 0xfffffffe
      \<and> list_all (ber_ok (child_tag st tag) k) vs)"

section \<open>Reading one element\<close>

lemma any_element_ber:
  assumes "CBS_get_any_asn1_element cbs = (Some x, rest)"
  shows "CBS_get_any_ber_asn1_element cbs = (Some x, rest)"
proof -
  have "\<exists>tag lb h. cbs = der_tag tag @ lb # h"
    using any_element_no_header [of cbs False] assms by (auto simp: CBS_get_any_asn1_element_def)
  then obtain tag lb h where h: "cbs = der_tag tag @ lb # h" by blast
  show ?thesis
    using assms unfolding CBS_get_any_asn1_element_def CBS_get_any_ber_asn1_element_def
      any_element_header [OF h] Let_def
    by (auto split: if_splits)
qed

lemma ber_element_definite:
  "length data \<le> 0xfffffffe \<Longrightarrow>
     CBS_get_any_ber_asn1_element (der_tlv tag data @ rest)
       = (Some (der_tlv tag data, tag, length (der_header tag (length data))), rest)"
  by (intro any_element_ber CBS_get_any_asn1_element_complete) simp

lemma ber_element_indefinite:
  assumes "tag AND CBS_ASN1_CONSTRUCTED \<noteq> 0"
  shows "CBS_get_any_ber_asn1_element (der_tag tag @ 0x80 # rest)
       = (Some (der_tag tag @ [0x80], tag, length (der_tag tag) + 1), rest)"
  unfolding CBS_get_any_ber_asn1_element_def any_element_header [OF refl] Let_def
  using assms by (simp add: cbs_take_element_Some)

lemma clear_constructed_id: "tag AND CBS_ASN1_CONSTRUCTED = 0 \<Longrightarrow> clear_constructed tag = tag"
proof -
  assume "tag AND CBS_ASN1_CONSTRUCTED = 0"
  then have "\<not> (bit tag n \<and> bit CBS_ASN1_CONSTRUCTED n)" for n
    by (metis bit_0_eq bit_and_iff bot_apply bot_bool_def)
  then show ?thesis unfolding clear_constructed_def
    by (intro bit_word_eqI) (auto simp: bit_simps)
qed

lemma is_indefinite_definite:
  assumes "length data \<le> 0xfffffffe"
  shows "\<not> is_indefinite (der_tlv tag data) (length (der_header tag (length data)))"
proof (cases "data = []")
  case True
  then show ?thesis
    by (simp add: is_indefinite_def der_tlv_header der_header_short nth_append byte_def)
next
  case False
  then show ?thesis by (simp add: is_indefinite_def der_tlv_header)
qed

lemma is_indefinite_indefinite: "is_indefinite (der_tag tag @ [0x80]) (length (der_tag tag) + 1)"
  by (simp add: is_indefinite_def nth_append)

lemma is_eoc_definite:
  assumes "\<not> (tag = 0 \<and> data = [])"
  shows "\<not> is_eoc (length (der_header tag (length data))) (der_tlv tag data)"
proof
  assume "is_eoc (length (der_header tag (length data))) (der_tlv tag data)"
  then have "der_tlv tag data = [0, 0]" "length (der_header tag (length data)) = 2"
    by (auto simp: is_eoc_def)
  moreover have "der_tlv 0 [] = [0, 0]" by code_simp
  moreover have "length (der_tlv tag data) = length (der_header tag (length data)) + length data"
    by (simp add: der_tlv_header)
  ultimately have "der_tlv tag data = der_tlv 0 []" "data = []" by simp_all
  then show False using assms der_tlv_inject [of tag data 0 "[]"] by simp
qed

lemma is_eoc_indefinite: "\<not> is_eoc (length (der_tag tag) + 1) (der_tag tag @ [0x80])"
proof -
  have "der_tag tag @ [0x80] \<noteq> [0, 0]" by (cases "der_tag tag" rule: rev_cases) auto
  then show ?thesis by (simp add: is_eoc_def)
qed

section \<open>Builder operations with nothing pending\<close>

text \<open>The result \<open>r\<close> of an operation on the string at depth \<open>d\<close>, the innermost one: it has
  appended \<open>bs\<close>, or failed for lack of room.\<close>

definition emits :: "env \<Rightarrow> nat \<Rightarrow> nat \<Rightarrow> bb_frame list \<Rightarrow> bool \<times> CBB \<Rightarrow> u8 list \<Rightarrow> bool" where
  "emits e N d fs r bs \<longleftrightarrow>
     (if fst r then (\<exists>fs'. abs_append d bs fs = Some fs' \<and> cbb_rep e N (snd r) fs')
      else cbb_dead (snd r) \<and> (\<forall>fs'. abs_append d bs fs = Some fs' \<longrightarrow> N < length (frames_bytes fs')))"

lemma emits_Nil: "cbb_rep e N s fs \<Longrightarrow> length fs = Suc d \<Longrightarrow> emits e N d fs (True, s) []"
  by (simp add: emits_def abs_append_nothing)

lemma emits_then:
  assumes r: "cbb_rep e N s fs" and l: "length fs = Suc d"
    and f: "emits e N d fs r xs"
    and g: "\<And>fs1. fst r \<Longrightarrow> cbb_rep e N (snd r) fs1 \<Longrightarrow> length fs1 = Suc d \<Longrightarrow>
              emits e N d fs1 (g (snd r)) ys"
  shows "emits e N d fs (cbb_then r g) (xs @ ys)"
proof -
  have d: "d < length fs" using l by simp
  obtain fs1 where fs1: "abs_append d xs fs = Some fs1" using l by (simp add: abs_append_last)
  have W: "length fs1 = Suc d" "list_all frame_ok (tl fs1)"
    using abs_append_wf [OF fs1 d cbb_repD [OF r]] by auto
  have A: "abs_append d (xs @ ys) fs = abs_append d ys fs1"
    using abs_append_append [OF d, of xs ys] fs1 by simp
  show ?thesis
  proof (cases "fst r")
    case True
    with f fs1 have "cbb_rep e N (snd r) fs1" by (simp add: emits_def)
    from g [OF True this W(1)] show ?thesis using True A by (simp add: emits_def cbb_then_def)
  next
    case False
    obtain fs2 where fs2: "abs_append d ys fs1 = Some fs2" using W by (simp add: abs_append_last)
    have "length (frames_bytes fs1) \<le> length (frames_bytes fs2)"
      using abs_append_wf [OF fs2] W by simp
    with False f fs1 fs2 A show ?thesis by (auto simp: emits_def cbb_then_def)
  qed
qed

lemma emits_refines:
  assumes "cbb_refines e N d d f (abs_append d bs)" and "cbb_rep e N s fs" and "length fs = Suc d"
  shows "emits e N d fs (f s) bs"
  using cbb_refinesD [OF assms(1,2)] assms(3) by (auto simp: emits_def)

lemma refines_emits:
  assumes "\<And>s fs. cbb_rep e N s fs \<Longrightarrow> length fs = Suc d \<Longrightarrow> emits e N d fs (f s) bs"
    and "length bs \<le> 0xfffffffe"
  shows "cbb_refines e N d d
     (\<lambda>s. if length (cbb_chain s) = Suc d then f s else CBB_add_bytes e s d bs) (abs_append d bs)"
proof -
  have b: "cbb_refines e N d d (\<lambda>s. CBB_add_bytes e s d bs) (abs_append d bs)"
    using assms(2) by (intro CBB_add_bytes_refines) simp
  show ?thesis unfolding cbb_refines_def
  proof (intro conjI allI impI abs_append_grows)
    fix s fs assume r: "cbb_rep e N s fs \<and> d < length fs"
    then have l: "length (cbb_chain s) = length fs" by (simp add: cbb_rep_def)
    let ?r = "if length (cbb_chain s) = Suc d then f s else CBB_add_bytes e s d bs"
    show "if fst ?r then \<exists>fs'. abs_append d bs fs = Some fs' \<and> cbb_rep e N (snd ?r) fs'
        else cbb_dead (snd ?r) \<and> (\<forall>fs'. abs_append d bs fs = Some fs' \<longrightarrow> N < length (frames_bytes fs'))"
      using r l assms(1) [of s fs] cbb_refinesD [OF b, of s fs] by (auto simp: emits_def)
  qed
qed

lemma emits_tlv:
  assumes r: "cbb_rep e N s fs" and l: "length fs = Suc d"
    and f: "\<And>s1 fs1. cbb_rep e N s1 fs1 \<Longrightarrow> length fs1 = Suc (Suc d) \<Longrightarrow>
              emits e N (Suc d) fs1 (f s1) data"
    and n: "length data \<le> 0xfffffffe"
  shows "emits e N d fs
     (cbb_then (CBB_add_asn1 e s d tag) (\<lambda>s1. cbb_then (f s1) (\<lambda>s2. CBB_flush e s2 d)))
     (der_tlv tag data)"
proof -
  let ?f = "\<lambda>s. if length (cbb_chain s) = Suc (Suc d) then f s else CBB_add_bytes e s (Suc d) data"
  have d: "d < length fs" using l by simp
  have "emits e N d fs (cbb_then (CBB_add_asn1 e s d tag) (\<lambda>s1. cbb_then (?f s1) (\<lambda>s2. CBB_flush e s2 d)))
     (der_tlv tag data)"
    by (rule emits_refines [OF cbb_refines_tlv [OF refines_emits [OF f n] n] r l])
  moreover have "length (cbb_chain (snd (CBB_add_asn1 e s d tag))) = Suc (Suc d)"
    if ok: "fst (CBB_add_asn1 e s d tag)"
  proof -
    obtain fs1 where "abs_open d (der_tag tag) 1 True fs = Some fs1"
      "cbb_rep e N (snd (CBB_add_asn1 e s d tag)) fs1"
      using cbb_refinesD [OF CBB_add_asn1_refines r d, of tag] ok by (auto simp del: One_nat_def)
    with l show ?thesis by (auto simp: abs_open_def abs_append_last cbb_rep_def)
  qed
  ultimately show ?thesis by (simp add: cbb_then_def split: if_splits)
qed

section \<open>The conversion, element by element\<close>

lemma convert_definite:
  assumes "depth \<le> kMaxDepth" and "\<not> (tag = 0 \<and> data = [])" and n: "length data \<le> 0xfffffffe"
    and oc: "ber_out_contents e s d st tag = Some (r1, oc, cst)"
  shows "cbs_convert_ber e (der_tlv tag data @ t) s d st eoc depth =
    (let r = cbb_then r1 (\<lambda>s1. cbb_then
               (if tag AND CBS_ASN1_CONSTRUCTED \<noteq> 0
                then (case cbs_convert_ber e data s1 oc cst False (depth + 1) of (ok, _, s2) \<Rightarrow> (ok, s2))
                else CBB_add_bytes e s1 oc data) (\<lambda>s2. CBB_flush e s2 d))
     in if fst r then cbs_convert_ber e t (snd r) d st eoc depth else (False, t, snd r))"
proof -
  have ne: "der_tlv tag data @ t \<noteq> []" by (simp add: der_tlv_def der_tag_eq)
  show ?thesis
    unfolding cbs_convert_ber.simps [of e "der_tlv tag data @ t"]
    using assms ne ber_element_definite [OF n, of tag t] is_eoc_definite [OF assms(2)]
      is_indefinite_definite [OF n, of tag]
    by (simp add: Let_def cbb_then_def split_beta del: append_is_Nil_conv split: prod.splits bool.splits)
qed

lemma convert_indefinite:
  assumes "depth \<le> kMaxDepth" and c: "tag AND CBS_ASN1_CONSTRUCTED \<noteq> 0"
    and oc: "ber_out_contents e s d st tag = Some (r1, oc, cst)"
    and t: "\<And>ok in3 s1 s2. cbs_convert_ber e body s1 oc cst True (depth + 1) = (ok, in3, s2) \<Longrightarrow>
              fst r1 \<Longrightarrow> s1 = snd r1 \<Longrightarrow> ok \<Longrightarrow> in3 = t"
  shows "\<exists>x. cbs_convert_ber e (der_tag tag @ 0x80 # body) s d st eoc depth =
    (let r = cbb_then r1 (\<lambda>s1. cbb_then
               (case cbs_convert_ber e body s1 oc cst True (depth + 1) of (ok, _, s2) \<Rightarrow> (ok, s2))
               (\<lambda>s2. CBB_flush e s2 d))
     in if fst r then cbs_convert_ber e t (snd r) d st eoc depth else (False, x, snd r))"
proof -
  obtain ok1 s1 where r1: "r1 = (ok1, s1)" by force
  obtain ok2 in3 s2 where c2: "cbs_convert_ber e body s1 oc cst True (depth + 1) = (ok2, in3, s2)"
    by (metis prod_cases3)
  obtain ok3 s3 where fl: "CBB_flush e s2 d = (ok3, s3)" by force
  have t': "in3 = t" if "ok1" "ok2" by (rule t [OF c2]) (use that r1 in simp_all)
  have ne: "der_tag tag @ 0x80 # body \<noteq> []" by simp
  let ?r = "cbb_then r1 (\<lambda>s1. cbb_then
      (case cbs_convert_ber e body s1 oc cst True (depth + 1) of (ok, _, s2) \<Rightarrow> (ok, s2))
      (\<lambda>s2. CBB_flush e s2 d))"
  let ?x = "if ok1 then in3 else body"
  note unfold = cbs_convert_ber.simps [of e "der_tag tag @ 0x80 # body" s d st eoc depth]
    ber_element_indefinite [OF c, of body] if_not_P [OF is_eoc_indefinite [of tag]]
    if_P [OF is_indefinite_indefinite [of tag]] if_not_P [OF leD [OF assms(1)]] if_not_P [OF ne]
    oc r1 prod.case option.case
  have "cbs_convert_ber e (der_tag tag @ 0x80 # body) s d st eoc depth =
      (if fst ?r then cbs_convert_ber e t (snd ?r) d st eoc depth else (False, ?x, snd ?r))"
  proof (cases ok1)
    case True
    then show ?thesis using t' unfolding unfold
      by (cases ok2; cases ok3) (simp_all add: cbb_then_def c2 [simplified] fl)
  next
    case False
    then show ?thesis unfolding unfold by (simp add: cbb_then_def)
  qed
  then show ?thesis unfolding Let_def by blast
qed

definition ber_step :: "env \<Rightarrow> nat \<Rightarrow> u32 \<Rightarrow> nat \<Rightarrow> ber \<Rightarrow> bool" where
  "ber_step e N st k v \<longleftrightarrow>
     (\<forall>d s fs t eoc depth. cbb_rep e N s fs \<and> length fs = Suc d \<and> depth + k \<le> kMaxDepth \<longrightarrow>
        (\<exists>r x. emits e N d fs r (ber_out st v)
           \<and> cbs_convert_ber e (ber_enc v @ t) s d st eoc depth =
               (if fst r then cbs_convert_ber e t (snd r) d st eoc depth else (False, x, snd r))))"

text \<open>A sequence of elements, up to the end of the input or the end-of-contents marker.\<close>

lemma convert_end:
  assumes "depth \<le> kMaxDepth"
  shows "cbs_convert_ber e (if eoc then 0 # 0 # rest else []) s d st eoc depth
     = (True, if eoc then rest else [], s)"
proof -
  have "der_tlv 0 [] = [0, 0]" "length (der_header 0 (length [])) = 2" by code_simp+
  then have "CBS_get_any_ber_asn1_element (0 # 0 # rest) = (Some ([0, 0], 0, 2), rest)"
    using ber_element_definite [of "[]" 0 rest] by simp
  with assms show ?thesis by (simp add: cbs_convert_ber.simps is_eoc_def)
qed

lemma convert_list:
  assumes "\<forall>v \<in> set vs. ber_step e N st k v" and "cbb_rep e N s fs" and "length fs = Suc d"
    and "depth + k \<le> kMaxDepth"
  shows "\<exists>ok x s'. cbs_convert_ber e (concat (map ber_enc vs) @ (if eoc then 0 # 0 # rest else []))
            s d st eoc depth = (ok, x, s')
       \<and> emits e N d fs (ok, s') (concat (map (ber_out st) vs))
       \<and> (ok \<longrightarrow> x = (if eoc then rest else []))"
  using assms
proof (induction vs arbitrary: s fs)
  case Nil
  from convert_end [of depth e eoc rest s d st] emits_Nil [OF Nil(2,3)] Nil(4) show ?case by auto
next
  case (Cons v vs)
  let ?t = "concat (map ber_enc vs) @ (if eoc then 0 # 0 # rest else [])"
  from Cons.prems obtain r x where r: "emits e N d fs r (ber_out st v)"
    "cbs_convert_ber e (ber_enc v @ ?t) s d st eoc depth =
       (if fst r then cbs_convert_ber e ?t (snd r) d st eoc depth else (False, x, snd r))"
    unfolding ber_step_def by (metis list.set_intros(1))
  let ?g = "\<lambda>s1. (fst (cbs_convert_ber e ?t s1 d st eoc depth), snd (snd (cbs_convert_ber e ?t s1 d st eoc depth)))"
  have IH: "emits e N d fs1 (?g (snd r)) (concat (map (ber_out st) vs))"
    "fst (cbs_convert_ber e ?t (snd r) d st eoc depth) \<longrightarrow>
       fst (snd (cbs_convert_ber e ?t (snd r) d st eoc depth)) = (if eoc then rest else [])"
    if "cbb_rep e N (snd r) fs1" "length fs1 = Suc d" for fs1
    using Cons.IH [OF _ that Cons.prems(4)] Cons.prems(1) by auto
  have em: "emits e N d fs (cbb_then r ?g) (ber_out st v @ concat (map (ber_out st) vs))"
    by (rule emits_then [OF Cons.prems(2,3) r(1)]) (rule IH(1))
  show ?case
  proof (cases "fst r")
    case True
    obtain fs1 where "abs_append d (ber_out st v) fs = Some fs1" "cbb_rep e N (snd r) fs1"
      using r(1) True by (auto simp: emits_def)
    moreover from this have "length fs1 = Suc d" using Cons.prems(3) by (auto simp: abs_append_last)
    ultimately have "fst (cbs_convert_ber e ?t (snd r) d st eoc depth) \<longrightarrow>
       fst (snd (cbs_convert_ber e ?t (snd r) d st eoc depth)) = (if eoc then rest else [])"
      using IH(2) by blast
    with em r(2) True show ?thesis
      by (cases "cbs_convert_ber e ?t (snd r) d st eoc depth") (simp add: cbb_then_def)
  next
    case False
    then obtain b where b: "r = (False, b)" by (cases r) simp
    with em r(2) show ?thesis
      by (intro exI [of _ False] exI [of _ x] exI [of _ b]) (simp add: cbb_then_def)
  qed
qed

lemma ber_ok_tag: "is_string_type tag \<Longrightarrow> clear_constructed tag \<noteq> 0"
proof -
  assume "is_string_type tag"
  then show ?thesis unfolding is_string_type_def
    by (auto simp: CBS_ASN1_BITSTRING_def CBS_ASN1_OCTETSTRING_def CBS_ASN1_UTF8STRING_def
        CBS_ASN1_NUMERICSTRING_def CBS_ASN1_PRINTABLESTRING_def CBS_ASN1_T61STRING_def
        CBS_ASN1_VIDEOTEXSTRING_def CBS_ASN1_IA5STRING_def CBS_ASN1_GRAPHICSTRING_def
        CBS_ASN1_VISIBLESTRING_def CBS_ASN1_GENERALSTRING_def CBS_ASN1_UNIVERSALSTRING_def
        CBS_ASN1_BMPSTRING_def)
qed

text \<open>Where the contents of a well-formed element go.\<close>

definition ber_handle :: "u32 \<Rightarrow> nat \<Rightarrow> nat" where
  "ber_handle st d = (if st \<noteq> 0 then d else Suc d)"

lemma ber_out_contents_ok:
  assumes "st \<noteq> 0 \<longrightarrow> clear_constructed tag = st"
    and "tag AND CBS_ASN1_CONSTRUCTED \<noteq> 0"
  shows "ber_out_contents e s d st tag =
    Some (if st \<noteq> 0 then (True, s)
          else CBB_add_asn1 e s d (if is_string_type tag then clear_constructed tag else tag),
          ber_handle st d, child_tag st tag)"
  using assms by (auto simp: ber_out_contents_def child_tag_def ber_handle_def Let_def)

lemma emits_flush:
  assumes "cbb_rep e N s fs" and "length fs = Suc d" and "emits e N d fs r bs"
  shows "emits e N d fs (cbb_then r (\<lambda>s2. CBB_flush e s2 d)) bs"
proof -
  have "emits e N d fs (cbb_then r (\<lambda>s2. CBB_flush e s2 d)) (bs @ [])"
    by (rule emits_then [OF assms]) (rule emits_refines [OF CBB_flush_refines])
  then show ?thesis by simp
qed

lemma cbb_then_True: "cbb_then (True, s) g = g s"
  by (simp add: cbb_then_def)

text \<open>The element with its contents written: into \<open>out\<close> itself or into a child.\<close>

lemma emits_element:
  assumes r: "cbb_rep e N s fs" and l: "length fs = Suc d" and n: "length body \<le> 0xfffffffe"
    and f: "\<And>s1 fs1. cbb_rep e N s1 fs1 \<Longrightarrow> length fs1 = Suc (ber_handle st d) \<Longrightarrow>
              emits e N (ber_handle st d) fs1 (f s1) body"
  shows "emits e N d fs
     (cbb_then (if st \<noteq> 0 then (True, s) else CBB_add_asn1 e s d tag)
        (\<lambda>s1. cbb_then (f s1) (\<lambda>s2. CBB_flush e s2 d)))
     (if st \<noteq> 0 then body else der_tlv tag body)"
proof (cases "st = 0")
  case True
  with emits_tlv [OF r l _ n, of f] f show ?thesis by (simp add: ber_handle_def)
next
  case False
  then have "emits e N d fs (f s) body" using f [OF r] l by (simp add: ber_handle_def)
  from emits_flush [OF r l this] False show ?thesis by (simp add: cbb_then_True)
qed

lemma ber_step_all: "ber_ok st k v \<Longrightarrow> ber_step e N st k v"
proof (induction v arbitrary: st k)
  case (BPrim tag content)
  show ?case unfolding ber_step_def
  proof (intro allI impI, elim conjE)
    fix d s fs t eoc and depth :: nat
    assume r: "cbb_rep e N s fs" "length fs = Suc d" and dep: "depth + k \<le> kMaxDepth"
    have tag: "tag AND CBS_ASN1_CONSTRUCTED = 0" "\<not> (tag = 0 \<and> content = [])" "st \<noteq> 0 \<longrightarrow> tag = st"
      and n: "length content \<le> 0xfffffffe" using BPrim by auto
    have oc: "ber_out_contents e s d st tag =
        Some (if st \<noteq> 0 then (True, s) else CBB_add_asn1 e s d tag, ber_handle st d, if st \<noteq> 0 then st else 0)"
      using tag by (auto simp: ber_out_contents_def clear_constructed_id ber_handle_def Let_def)
    let ?r = "cbb_then (if st \<noteq> 0 then (True, s) else CBB_add_asn1 e s d tag)
        (\<lambda>s1. cbb_then (CBB_add_bytes e s1 (ber_handle st d) content) (\<lambda>s2. CBB_flush e s2 d))"
    have "emits e N d fs ?r
        (if st \<noteq> 0 then content else der_tlv tag content)"
      using n by (intro emits_element [OF r n] emits_refines [OF CBB_add_bytes_refines]) simp_all
    moreover have "depth \<le> kMaxDepth" using dep by simp
    note convert_definite [OF this tag(2) n oc, of t eoc]
    ultimately show "\<exists>r x. emits e N d fs r (ber_out st (BPrim tag content)) \<and>
         cbs_convert_ber e (ber_enc (BPrim tag content) @ t) s d st eoc depth =
         (if fst r then cbs_convert_ber e t (snd r) d st eoc depth else (False, x, snd r))"
      using tag(1) by (intro exI [of _ ?r] exI [of _ t]) (simp add: Let_def)
  qed
next
  case (BCons tag i vs)
  from BCons.prems obtain k' where k: "k = Suc k'" by (cases k) auto
  let ?cst = "child_tag st tag" and ?h = "ber_handle st"
  let ?body = "concat (map (ber_out ?cst) vs)"
  let ?otag = "if is_string_type tag then clear_constructed tag else tag"
  have tag: "tag AND CBS_ASN1_CONSTRUCTED \<noteq> 0" "st \<noteq> 0 \<longrightarrow> clear_constructed tag = st"
    and n: "length ?body \<le> 0xfffffffe" and ok: "list_all (ber_ok ?cst k') vs"
    and len: "\<not> i \<Longrightarrow> length (concat (map ber_enc vs)) \<le> 0xfffffffe"
    using BCons.prems k by auto
  have steps: "\<forall>v \<in> set vs. ber_step e N ?cst k' v"
    using BCons.IH ok by (auto simp: list_all_iff)
  show ?case unfolding ber_step_def
  proof (intro allI impI, elim conjE)
    fix d s fs t eoc and depth :: nat
    assume r: "cbb_rep e N s fs" "length fs = Suc d" and dep: "depth + k \<le> kMaxDepth"
    have dep': "depth \<le> kMaxDepth" "depth + 1 + k' \<le> kMaxDepth" using dep k by auto
    note oc = ber_out_contents_ok [OF tag(2,1), of e s d]
    let ?in = "concat (map ber_enc vs) @ (if i then 0 # 0 # t else [])"
    let ?f = "\<lambda>s1. case cbs_convert_ber e ?in s1 (?h d) ?cst i (depth + 1) of (ok, _, s2) \<Rightarrow> (ok, s2)"
    have conv: "\<exists>ok x s'. cbs_convert_ber e ?in s1 (?h d) ?cst i (depth + 1) = (ok, x, s')
       \<and> emits e N (?h d) fs1 (ok, s') ?body \<and> (ok \<longrightarrow> x = (if i then t else []))"
      if "cbb_rep e N s1 fs1" "length fs1 = Suc (?h d)" for s1 fs1
      by (rule convert_list [OF steps that dep'(2)])
    let ?r = "cbb_then (if st \<noteq> 0 then (True, s) else CBB_add_asn1 e s d ?otag)
        (\<lambda>s1. cbb_then (?f s1) (\<lambda>s2. CBB_flush e s2 d))"
    have em: "emits e N d fs ?r
        (if st \<noteq> 0 then ?body else der_tlv ?otag ?body)"
      by (rule emits_element [OF r n]) (use conv in fastforce)
    show "\<exists>r x. emits e N d fs r (ber_out st (BCons tag i vs)) \<and>
         cbs_convert_ber e (ber_enc (BCons tag i vs) @ t) s d st eoc depth =
         (if fst r then cbs_convert_ber e t (snd r) d st eoc depth else (False, x, snd r))"
    proof (cases i)
      case False
      have nz: "\<not> (tag = 0 \<and> concat (map ber_enc vs) = [])" using tag(1) by auto
      from convert_definite [OF dep'(1) nz len [OF False] oc, of t eoc] em tag(1) False
      show ?thesis by (intro exI [of _ ?r] exI [of _ t]) (simp add: Let_def)
    next
      case True
      let ?r1 = "if st \<noteq> 0 then (True, s) else CBB_add_asn1 e s d ?otag"
      have left: "in3 = t" if c: "cbs_convert_ber e ?in s1 (?h d) ?cst True (depth + 1) = (ok, in3, s2)"
        "fst ?r1" "s1 = snd ?r1" "ok" for ok in3 s1 s2
      proof -
        have "\<exists>fs1. cbb_rep e N s1 fs1 \<and> length fs1 = Suc (?h d)"
        proof (cases "st = 0")
          case True
          have d: "d < length fs" using r(2) by simp
          from cbb_refinesD [OF CBB_add_asn1_refines r(1) d, of ?otag] True c(2,3) r(2)
          show ?thesis by (auto simp: abs_open_def abs_append_last ber_handle_def)
        next
          case False
          with r c(3) show ?thesis by (auto simp: ber_handle_def)
        qed
        then obtain fs1 where "cbb_rep e N s1 fs1" "length fs1 = Suc (?h d)" by blast
        from conv [OF this] c(1,4) True show ?thesis by auto
      qed
      have enc: "ber_enc (BCons tag i vs) @ t = der_tag tag @ 0x80 # ?in" using True by simp
      have "\<exists>x. cbs_convert_ber e (der_tag tag @ 0x80 # ?in) s d st eoc depth =
         (let r = cbb_then ?r1 (\<lambda>s1. cbb_then
               (case cbs_convert_ber e ?in s1 (?h d) ?cst True (depth + 1) of (ok, _, s2) \<Rightarrow> (ok, s2))
               (\<lambda>s2. CBB_flush e s2 d))
          in if fst r then cbs_convert_ber e t (snd r) d st eoc depth else (False, x, snd r))"
        by (rule convert_indefinite [OF dep'(1) tag(1) oc]) (rule left)
      then have "\<exists>x. cbs_convert_ber e (der_tag tag @ 0x80 # ?in) s d st eoc depth =
         (if fst ?r then cbs_convert_ber e t (snd ?r) d st eoc depth else (False, x, snd ?r))"
        unfolding Let_def by (simp only: True)
      then obtain x where x: "cbs_convert_ber e (der_tag tag @ 0x80 # ?in) s d st eoc depth =
         (if fst ?r then cbs_convert_ber e t (snd ?r) d st eoc depth else (False, x, snd ?r))" ..
      have "emits e N d fs ?r (ber_out st (BCons tag i vs))" using em by (simp add: Let_def)
      with x show ?thesis unfolding enc by blast
    qed
  qed
qed

section \<open>The search\<close>

fun ber_definite :: "ber \<Rightarrow> bool" where
  "ber_definite (BPrim tag content) = True"
| "ber_definite (BCons tag i vs) = (\<not> i \<and> \<not> is_string_type tag \<and> list_all ber_definite vs)"

lemma find_definite:
  assumes "\<not> (tag = 0 \<and> data = [])" and n: "length data \<le> 0xfffffffe"
  shows "find_ber_loop (der_tlv tag data @ t) f depth =
    (if tag AND CBS_ASN1_CONSTRUCTED \<noteq> 0
     then (if is_string_type tag then (True, True)
           else case cbs_find_ber data f (depth + 1) of
                  (False, g) \<Rightarrow> (False, g) | (True, g) \<Rightarrow> find_ber_loop t g depth)
     else find_ber_loop t f depth)"
proof -
  have ne: "der_tlv tag data @ t \<noteq> []" by (simp add: der_tlv_def der_tag_eq)
  show ?thesis
    unfolding find_ber_loop.simps [of "der_tlv tag data @ t"]
    using ne ber_element_definite [OF n, of tag t] is_indefinite_definite [OF n, of tag]
    by (simp del: append_is_Nil_conv)
qed

lemma find_indefinite:
  assumes "tag AND CBS_ASN1_CONSTRUCTED \<noteq> 0"
  shows "find_ber_loop (der_tag tag @ 0x80 # t) f depth = (True, True)"
  unfolding find_ber_loop.simps [of "der_tag tag @ 0x80 # t"]
  using ber_element_indefinite [OF assms, of t] is_indefinite_indefinite [of tag] by simp

definition find_step :: "nat \<Rightarrow> ber \<Rightarrow> bool" where
  "find_step k v \<longleftrightarrow>
     (\<forall>t f depth. depth + k \<le> kMaxDepth \<longrightarrow>
        find_ber_loop (ber_enc v @ t) f depth = (True, True) \<or>
        (\<exists>g. find_ber_loop (ber_enc v @ t) f depth = find_ber_loop t g depth
           \<and> (ber_definite v \<and> \<not> f \<longrightarrow> \<not> g)))
   \<and> (ber_definite v \<longrightarrow>
        (\<forall>t depth. depth + k \<le> kMaxDepth \<longrightarrow>
           find_ber_loop (ber_enc v @ t) False depth = find_ber_loop t False depth))"

lemma find_list:
  assumes "\<forall>v \<in> set vs. find_step k v" and "depth + k \<le> kMaxDepth"
  shows "\<exists>g. find_ber_loop (concat (map ber_enc vs)) f depth = (True, g)
     \<and> (list_all ber_definite vs \<and> \<not> f \<longrightarrow> \<not> g)"
  using assms(1)
proof (induction vs arbitrary: f)
  case Nil
  then show ?case by (simp add: find_ber_loop.simps)
next
  case (Cons v vs)
  let ?t = "concat (map ber_enc vs)"
  have v: "find_step k v" using Cons.prems by simp
  show ?case
  proof (cases "ber_definite v \<and> \<not> f")
    case True
    then have "find_ber_loop (ber_enc v @ ?t) f depth = find_ber_loop ?t False depth"
      using v assms(2) by (simp add: find_step_def)
    moreover obtain g where "find_ber_loop ?t False depth = (True, g)" "list_all ber_definite vs \<longrightarrow> \<not> g"
      using Cons.IH [of False] Cons.prems by auto
    ultimately show ?thesis by auto
  next
    case False
    from v assms(2) have "find_ber_loop (ber_enc v @ ?t) f depth = (True, True)
        \<or> (\<exists>g. find_ber_loop (ber_enc v @ ?t) f depth = find_ber_loop ?t g depth)"
      unfolding find_step_def by blast
    then obtain g where "find_ber_loop (concat (map ber_enc (v # vs))) f depth = (True, g)"
      using Cons.IH Cons.prems by (auto simp: list_all_iff) (metis list.set_intros(2))
    with False show ?thesis by auto
  qed
qed

lemma find_step_all: "ber_ok st k v \<Longrightarrow> find_step k v"
proof (induction v arbitrary: st k)
  case (BPrim tag content)
  then show ?case
    using find_definite [of tag content] by (auto simp: find_step_def)
next
  case (BCons tag i vs)
  from BCons.prems obtain k' where k: "k = Suc k'" by (cases k) auto
  have tag: "tag AND CBS_ASN1_CONSTRUCTED \<noteq> 0" and ok: "list_all (ber_ok (child_tag st tag) k') vs"
    and len: "\<not> i \<Longrightarrow> length (concat (map ber_enc vs)) \<le> 0xfffffffe"
    using BCons.prems k by auto
  have steps: "\<forall>v \<in> set vs. find_step k' v" using BCons.IH ok by (auto simp: list_all_iff)
  show ?case
  proof (cases i)
    case True
    then have "ber_enc (BCons tag i vs) @ t = der_tag tag @ 0x80 # concat (map ber_enc vs) @ 0 # 0 # t" for t
      by simp
    with True find_indefinite [OF tag] show ?thesis unfolding find_step_def by (simp del: ber_enc.simps)
  next
    case False
    have nz: "\<not> (tag = 0 \<and> concat (map ber_enc vs) = [])" using tag by auto
    note fd = find_definite [OF nz len [OF False]]
    have sub: "\<exists>g. cbs_find_ber (concat (map ber_enc vs)) f (depth + 1) = (True, g)
        \<and> (list_all ber_definite vs \<longrightarrow> \<not> g)"
      if "depth + k \<le> kMaxDepth" for f depth
      using find_list [OF steps, of "depth + 1" False] that k by (auto simp: cbs_find_ber.simps)
    show ?thesis unfolding find_step_def
    proof (intro conjI allI impI)
      fix t f and depth :: nat assume d: "depth + k \<le> kMaxDepth"
      from sub [OF d, of f] fd [of t f depth] tag False
      show "find_ber_loop (ber_enc (BCons tag i vs) @ t) f depth = (True, True) \<or>
        (\<exists>g. find_ber_loop (ber_enc (BCons tag i vs) @ t) f depth = find_ber_loop t g depth
           \<and> (ber_definite (BCons tag i vs) \<and> \<not> f \<longrightarrow> \<not> g))"
        by (cases "is_string_type tag") auto
    next
      fix t and depth :: nat assume df: "ber_definite (BCons tag i vs)" and d: "depth + k \<le> kMaxDepth"
      from sub [OF d, of False] fd [of t False depth] tag False df
      show "find_ber_loop (ber_enc (BCons tag i vs) @ t) False depth = find_ber_loop t False depth"
        by auto
    qed
  qed
qed

lemma cbs_find_ber_ok:
  assumes "list_all (ber_ok 0 kMaxDepth) vs"
  shows "\<exists>g. cbs_find_ber (concat (map ber_enc vs)) f 0 = (True, g) \<and> (list_all ber_definite vs \<longrightarrow> \<not> g)"
proof -
  have "\<forall>v \<in> set vs. find_step kMaxDepth v"
    using assms find_step_all by (auto simp: list_all_iff)
  from find_list [OF this, of 0 False] show ?thesis by (auto simp: cbs_find_ber.simps)
qed

section \<open>What the search finds\<close>

text \<open>An element that is itself indefinite or a constructed string.\<close>

fun ber_top :: "ber \<Rightarrow> bool" where
  "ber_top (BPrim tag content) = False"
| "ber_top (BCons tag i vs) = (i \<or> is_string_type tag)"

text \<open>The answer of the search: an element of the list that is itself indefinite or a constructed
  string, or else what it finds in the contents of the \<^emph>\<open>last\<close> constructed element, because each
  descent starts by clearing the flag.\<close>

fun ber_prim :: "ber \<Rightarrow> bool" where
  "ber_prim (BPrim tag content) = True"
| "ber_prim (BCons tag i vs) = False"

fun last_found :: "ber list \<Rightarrow> bool" where
  "last_found [] = False"
| "last_found (BPrim tag content # vs) = last_found vs"
| "last_found (BCons tag i us # vs) =
     (if list_all ber_prim vs then list_ex ber_top us \<or> last_found us else last_found vs)"

definition ber_found :: "ber list \<Rightarrow> bool" where
  "ber_found vs \<longleftrightarrow> list_ex ber_top vs \<or> last_found vs"

lemma last_found_prim: "list_all ber_prim vs \<Longrightarrow> \<not> last_found vs"
  by (induction vs rule: last_found.induct) simp_all

lemma list_ex_top_prim: "list_all ber_prim vs \<Longrightarrow> \<not> list_ex ber_top vs"
  by (induction vs) (auto elim: ber_prim.elims)

lemma last_found_append:
  "list_all ber_prim ys \<Longrightarrow> last_found (us @ BCons tag i ws # ys) = (list_ex ber_top ws \<or> last_found ws)"
proof (induction us)
  case (Cons u us)
  then show ?case by (cases u) simp_all
qed simp

lemma find_prims:
  "list_all (ber_ok st k) vs \<Longrightarrow> list_all ber_prim vs \<Longrightarrow> find_ber_loop (concat (map ber_enc vs)) f depth = (True, f)"
proof (induction vs)
  case (Cons v vs)
  then obtain tag content where v: "v = BPrim tag content" by (cases v) auto
  from Cons v find_definite [of tag content "concat (map ber_enc vs)" f depth] show ?case by auto
qed (simp add: find_ber_loop.simps)

lemma find_exact:
  assumes "list_all (ber_ok st k) vs" and "depth + k \<le> kMaxDepth"
  shows "find_ber_loop (concat (map ber_enc vs)) f depth
    = (True, list_ex ber_top vs \<or> (if list_all ber_prim vs then f else last_found vs))"
  using assms
proof (induction vs arbitrary: st k depth f rule: last_found.induct)
  case 1
  then show ?case by (simp add: find_ber_loop.simps)
next
  case (2 tag content vs)
  then show ?case using find_definite [of tag content "concat (map ber_enc vs)" f depth] by auto
next
  case (3 tag i us vs)
  from 3(3) obtain k' where k: "k = Suc k'" by (cases k) auto
  have tag: "tag AND CBS_ASN1_CONSTRUCTED \<noteq> 0" and us: "list_all (ber_ok (child_tag st tag) k') us"
    and vs: "list_all (ber_ok st k) vs"
    and len: "\<not> i \<Longrightarrow> length (concat (map ber_enc us)) \<le> 0xfffffffe"
    using 3(3) k by auto
  let ?t = "concat (map ber_enc vs)" and ?u = "concat (map ber_enc us)"
  show ?case
  proof (cases "i \<or> is_string_type tag")
    case True
    then show ?thesis
    proof
      assume i
      then have "concat (map ber_enc (BCons tag i us # vs)) = der_tag tag @ 0x80 # ?u @ 0 # 0 # ?t" by simp
      with \<open>i\<close> find_indefinite [OF tag] show ?thesis by (simp del: ber_enc.simps)
    next
      assume s: "is_string_type tag"
      show ?thesis
      proof (cases i)
        case False
        have "\<not> (tag = 0 \<and> ?u = [])" using tag by auto
        from find_definite [OF this len [OF False], of ?t f depth] s tag False show ?thesis by simp
      next
        case True
        then have "concat (map ber_enc (BCons tag i us # vs)) = der_tag tag @ 0x80 # ?u @ 0 # 0 # ?t" by simp
        with True find_indefinite [OF tag] show ?thesis by (simp del: ber_enc.simps)
      qed
    qed
  next
    case False
    have "\<not> (tag = 0 \<and> ?u = [])" using tag by auto
    note fd = find_definite [OF this len, of ?t f depth]
    have d: "\<not> kMaxDepth < depth + 1" "depth + 1 + k' \<le> kMaxDepth" using 3(4) k by simp_all
    have "\<forall>v \<in> set us. find_step k' v" using us find_step_all by (auto simp: list_all_iff)
    from find_list [OF this d(2)] obtain g where g: "cbs_find_ber ?u f (depth + 1) = (True, g)"
      using d(1) by (auto simp: cbs_find_ber.simps)
    with fd tag False have run: "find_ber_loop (concat (map ber_enc (BCons tag i us # vs))) f depth = find_ber_loop ?t g depth"
      by simp
    show ?thesis
    proof (cases "list_all ber_prim vs")
      case True
      have "g = (list_ex ber_top us \<or> last_found us)"
        using g d 3(1) [OF True us d(2), of False] last_found_prim [of us] by (auto simp: cbs_find_ber.simps split: if_splits)
      moreover have "\<not> list_ex ber_top vs" by (rule list_ex_top_prim [OF True])
      ultimately show ?thesis unfolding run find_prims [OF vs True] using False True by simp
    next
      case np: False
      show ?thesis unfolding run 3(2) [OF np vs 3(4)] using False np by simp
    qed
  qed
qed

lemma find_ber_found:
  assumes "list_all (ber_ok 0 kMaxDepth) vs"
  shows "cbs_find_ber (concat (map ber_enc vs)) False 0 = (True, ber_found vs)"
  using find_exact [OF assms, of 0 False] last_found_prim [of vs] by (auto simp: cbs_find_ber.simps ber_found_def)

section \<open>The converted form\<close>

fun ber_norm :: "ber \<Rightarrow> ber" where
  "ber_norm (BPrim tag content) = BPrim tag content"
| "ber_norm (BCons tag i vs) =
     (if is_string_type tag
      then BPrim (clear_constructed tag) (concat (map (ber_out (clear_constructed tag)) vs))
      else BCons tag False (map ber_norm vs))"

lemma ber_enc_norm: "ber_enc (ber_norm v) = ber_out 0 v"
proof (induction v)
  case (BCons tag i vs)
  then show ?case by (simp add: child_tag_def Let_def comp_def cong: map_cong)
qed simp

lemma ber_definite_norm: "ber_definite (ber_norm v)"
  by (induction v) (auto simp: list_all_iff)

lemma clear_constructed_clear [simp]: "clear_constructed tag AND CBS_ASN1_CONSTRUCTED = 0"
  by (auto simp: clear_constructed_def bit_eq_iff bit_simps)

lemma ber_out_norm: "ber_out 0 (ber_norm v) = ber_out 0 v"
proof (induction v)
  case (BCons tag i vs)
  then show ?case by (simp add: child_tag_def Let_def comp_def cong: map_cong)
qed simp

lemma ber_ok_norm: "ber_ok 0 k v \<Longrightarrow> ber_ok 0 k (ber_norm v)"
proof (induction v arbitrary: k)
  case (BPrim tag content)
  then show ?case by simp
next
  case (BCons tag i vs)
  from BCons.prems obtain k' where k: "k = Suc k'" by (cases k) auto
  show ?case
  proof (cases "is_string_type tag")
    case True
    with BCons.prems k ber_ok_tag [OF True] show ?thesis by (simp add: child_tag_def)
  next
    case False
    then have c: "child_tag 0 tag = 0" by (simp add: child_tag_def)
    have "list_all (ber_ok 0 k') (map ber_norm vs)"
      using BCons.IH BCons.prems k c by (auto simp: list_all_iff)
    then show ?thesis using BCons.prems k False c
      by (simp add: comp_def ber_enc_norm ber_out_norm cong: map_cong)
  qed
qed

section \<open>Properties\<close>

text \<open>C4: what is converted, and to what. For any sequence of well-formed BER elements nested at
  most 2048 deep in which the search finds something (\<open>ber_found\<close>: an element of the sequence that
  is indefinite or a constructed string, or else one that it finds in the contents of the last
  constructed element), and with the memory the builder asks for, \<open>CBS_asn1_ber_to_der\<close> consumes
  its input and returns definite lengths throughout and, for each constructed string at any depth,
  a primitive one with the contents of its fragments one after the other. For strings of octets
  and characters that is the DER form; the fragments of a BIT STRING keep their leading octets.\<close>

theorem CBS_asn1_ber_to_der_converts:
  assumes "malloc_sane e" and "list_all (ber_ok 0 kMaxDepth) vs" and "ber_found vs"
    and "fst (CBB_init e (length (concat (map ber_enc vs))))"
    and "length (concat (map ber_enc vs)) + OPENSSL_MALLOC_PREFIX \<le> 9223372036854775807"
    and "cbb_grant e (length (concat (map (ber_out 0) vs))) (length (concat (map ber_enc vs)))"
  shows "\<exists>buf n. CBS_asn1_ber_to_der e (concat (map ber_enc vs)) = (Some (Some (buf, n)), [])
    \<and> take n buf = concat (map (ber_out 0) vs)"
proof -
  let ?in = "concat (map ber_enc vs)" and ?out = "concat (map (ber_out 0) vs)"
  have find: "cbs_find_ber ?in False 0 = (True, True)"
    using find_ber_found [OF assms(2)] assms(3) by simp
  obtain s where s: "CBB_init e (length ?in) = (True, s)"
    using assms(4) by (cases "CBB_init e (length ?in)") auto
  with CBB_init_rep [OF assms(1,5,6,4)] have r: "cbb_rep e (length ?out) s cbb_top" by simp
  have steps: "\<forall>v \<in> set vs. ber_step e (length ?out) 0 kMaxDepth v"
    using assms(2) ber_step_all by (auto simp: list_all_iff)
  have l: "length cbb_top = Suc 0" by (simp add: cbb_top_def)
  from convert_list [OF steps r l, of 0 False "[]"] obtain ok x s' where
    c: "cbs_convert_ber e ?in s 0 0 False 0 = (ok, x, s')"
      "emits e (length ?out) 0 cbb_top (ok, s') ?out" "ok \<longrightarrow> x = []" by auto
  let ?top = "\<lparr>f_width = 0, f_asn1 = False, f_data = ?out\<rparr>"
  have "abs_append 0 ?out cbb_top = Some [?top]" by (simp add: abs_append_def cbb_top_def)
  with c(2) have ok: "ok" and fin: "cbb_rep e (length ?out) s' [?top]"
    by (auto simp: emits_def split: if_splits)
  from CBB_finish_rep [OF fin] obtain buf n s3 where
    "CBB_finish e s' 0 True = (Some (buf, n), s3)" "take n buf = ?out"
    by (cases "CBB_finish e s' 0 True") (auto split: option.splits)
  with find s c ok show ?thesis by (simp add: CBS_asn1_ber_to_der_def)
qed

text \<open>Two fragments of an octet string in a string of indefinite length.\<close>

theorem CBS_asn1_ber_to_der_converts_witness:
  "\<exists>buf n. CBS_asn1_ber_to_der small_env [0x24, 0x80, 4, 2, 1, 2, 4, 1, 3, 0, 0] = (Some (Some (buf, n)), [])
     \<and> take n buf = [4, 3, 1, 2, 3]"
proof -
  let ?v = "BCons 0x20000004 True [BPrim 4 [1, 2], BPrim 4 [3]]"
  have enc: "concat (map ber_enc [?v]) = [0x24, 0x80, 4, 2, 1, 2, 4, 1, 3, 0, 0]"
    and out: "concat (map (ber_out 0) [?v]) = [4, 3, 1, 2, 3]" and top: "ber_found [?v]"
    by code_simp+
  have str: "is_string_type 0x20000004" "clear_constructed 0x20000004 = 4"
    "(0x20000004 :: u32) AND CBS_ASN1_CONSTRUCTED \<noteq> 0" "(4 :: u32) AND CBS_ASN1_CONSTRUCTED = 0"
    by code_simp+
  have k: "kMaxDepth = Suc 2047" by (simp add: kMaxDepth_def)
  have "ber_ok 0 kMaxDepth ?v" unfolding k
    by (simp add: str child_tag_def der_tlv_def der_tag_def der_len_def CBS_ASN1_TAG_NUMBER_MASK_def
        CBS_ASN1_TAG_SHIFT_def del: Suc_numeral)
  then have ok: "list_all (ber_ok 0 kMaxDepth) [?v]" by (simp only: list.pred_inject simp_thms)
  have "fst (CBB_init small_env (length (concat (map ber_enc [?v]))))"
    unfolding enc by (rule CBB_init_ok) (simp_all add: small_env_def OPENSSL_MALLOC_PREFIX_def size_max_num)
  with CBS_asn1_ber_to_der_converts [OF _ ok top] show ?thesis
    unfolding enc out by (simp add: malloc_sane_def small_env_def OPENSSL_MALLOC_PREFIX_def cbb_grant_def)
qed

text \<open>C5: DER is left alone, and the output of a conversion is DER. On the DER form of any
  well-formed BER value (which includes every DER value of that nesting, and every output
  of the conversion) the search finds nothing and \<open>CBS_asn1_ber_to_der\<close> returns success
  with no buffer and its input untouched; it never fails on well-formed input.\<close>

theorem CBS_asn1_ber_to_der_keeps_der:
  assumes "list_all (ber_ok 0 kMaxDepth) vs"
  shows "CBS_asn1_ber_to_der e (concat (map (ber_out 0) vs)) = (Some None, concat (map (ber_out 0) vs))
    \<and> fst (cbs_find_ber (concat (map ber_enc vs)) False 0)"
proof
  have "list_all (ber_ok 0 kMaxDepth) (map ber_norm vs)"
    using assms ber_ok_norm by (auto simp: list_all_iff)
  from cbs_find_ber_ok [OF this, of False]
  have "cbs_find_ber (concat (map (ber_out 0) vs)) False 0 = (True, False)"
    by (auto simp: comp_def ber_enc_norm ber_definite_norm list_all_iff)
  then show "CBS_asn1_ber_to_der e (concat (map (ber_out 0) vs)) = (Some None, concat (map (ber_out 0) vs))"
    by (simp add: CBS_asn1_ber_to_der_def)
  show "fst (cbs_find_ber (concat (map ber_enc vs)) False 0)"
    using cbs_find_ber_ok [OF assms, of False] by auto
qed

theorem CBS_asn1_ber_to_der_keeps_der_witness:
  "CBS_asn1_ber_to_der small_env [2, 1, 5] = (Some None, [2, 1, 5])"
proof -
  have "concat (map (ber_out 0) [BPrim 2 [5]]) = [2, 1, 5]" by code_simp
  moreover have "list_all (ber_ok 0 kMaxDepth) [BPrim 2 [5]]"
    by (simp add: CBS_ASN1_CONSTRUCTED_def CBS_ASN1_TAG_SHIFT_def)
  ultimately show ?thesis using CBS_asn1_ber_to_der_keeps_der [of "[BPrim 2 [5]]" small_env] by simp
qed

text \<open>C36: what the search answers on well-formed BER, exactly, and what it misses. \<open>cbs_find_ber\<close>
  clears \<open>*ber_found\<close> whenever it descends, and its caller goes on after a child that set it, so
  only the last constructed element of each level counts below that level. Where that leaves
  nothing, \<open>CBS_asn1_ber_to_der\<close> passes its input on as if it were DER. In particular, inside a
  constructed element of definite length, a last constructed element in which nothing is found
  hides whatever there is below the elements before it: no indefinite length and no constructed
  string in their contents is converted.\<close>

theorem cbs_find_ber_misses:
  assumes "list_all (ber_ok 0 kMaxDepth) vs"
  shows "cbs_find_ber (concat (map ber_enc vs)) False 0 = (True, ber_found vs)
    \<and> (\<not> ber_found vs \<longrightarrow>
        CBS_asn1_ber_to_der e (concat (map ber_enc vs)) = (Some None, concat (map ber_enc vs)))
    \<and> (vs = [BCons tag False (us @ BCons tag' False ws # ys)] \<and> \<not> is_string_type tag \<and> \<not> is_string_type tag'
        \<and> \<not> list_ex ber_top us \<and> list_all ber_prim ys \<and> \<not> ber_found ws \<longrightarrow> \<not> ber_found vs)"
proof (intro conjI impI)
  show f: "cbs_find_ber (concat (map ber_enc vs)) False 0 = (True, ber_found vs)"
    by (rule find_ber_found [OF assms])
  then show "CBS_asn1_ber_to_der e (concat (map ber_enc vs)) = (Some None, concat (map ber_enc vs))"
    if "\<not> ber_found vs" using that by (simp add: CBS_asn1_ber_to_der_def)
  show "\<not> ber_found vs"
    if "vs = [BCons tag False (us @ BCons tag' False ws # ys)] \<and> \<not> is_string_type tag \<and> \<not> is_string_type tag'
        \<and> \<not> list_ex ber_top us \<and> list_all ber_prim ys \<and> \<not> ber_found ws"
    using that last_found_append [of ys us tag' False ws] list_ex_top_prim [of ys] by (auto simp: ber_found_def)
qed

text \<open>A SEQUENCE of a SEQUENCE that holds an element of indefinite length, and an empty SEQUENCE.\<close>

theorem cbs_find_ber_misses_witness:
  "CBS_asn1_ber_to_der small_env [0x30, 8, 0x30, 4, 0x30, 0x80, 0, 0, 0x30, 0]
    = (Some None, [0x30, 8, 0x30, 4, 0x30, 0x80, 0, 0, 0x30, 0])"
proof -
  let ?vs = "[BCons 0x20000010 False ([BCons 0x20000010 False [BCons 0x20000010 True []]] @ BCons 0x20000010 False [] # [])]"
  have enc: "concat (map ber_enc ?vs) = [0x30, 8, 0x30, 4, 0x30, 0x80, 0, 0, 0x30, 0]" by code_simp
  have tag: "\<not> is_string_type 0x20000010" "(0x20000010 :: u32) AND CBS_ASN1_CONSTRUCTED \<noteq> 0" by code_simp+
  have k: "kMaxDepth = Suc (Suc (Suc 2045))" by (simp add: kMaxDepth_def)
  have "ber_ok 0 kMaxDepth (hd ?vs)" unfolding k
    by (simp add: tag child_tag_def der_tlv_def der_tag_def der_len_def CBS_ASN1_TAG_NUMBER_MASK_def
        CBS_ASN1_TAG_SHIFT_def del: Suc_numeral)
  then have ok: "list_all (ber_ok 0 kMaxDepth) ?vs" by (simp only: list.pred_inject simp_thms list.sel)
  show ?thesis
    using cbs_find_ber_misses [OF ok, of small_env "0x20000010" "[BCons 0x20000010 False [BCons 0x20000010 True []]]"
        "0x20000010" "[]" "[]"] tag(1) unfolding enc by (simp add: ber_found_def)
qed

end
