(* ===== verification/Base64.thy ===== *)
theory Base64
  imports Buf ConstTime
begin

text \<open>
  Base64, \<open>crypto/base64/base64.c\<close>: the constant-time character maps, the one-shot encoder
  and decoder, and the streaming contexts. Characters are bytes (\<open>43\<close> is \<open>+\<close>, \<open>47\<close> is
  \<open>/\<close>, \<open>61\<close> is \<open>=\<close>). A function that writes to \<open>out\<close> returns the bytes it wrote there,
  the terminating NUL included where it writes one.
\<close>

section \<open>Character maps\<close>

definition constant_time_lt_args_8 :: "u8 \<Rightarrow> u8 \<Rightarrow> u8" where
  "constant_time_lt_args_8 a b = ucast (constant_time_msb_w (ucast a - ucast b))"

definition constant_time_in_range_8 :: "u8 \<Rightarrow> u8 \<Rightarrow> u8 \<Rightarrow> u8" where
  "constant_time_in_range_8 a mn mx = constant_time_lt_args_8 (a - mn) (mx - mn + 1)"

definition conv_bin2ascii :: "u8 \<Rightarrow> u8" where
  "conv_bin2ascii a0 =
     (let a = a0 AND 0x3f;
          ret = constant_time_select_8 (constant_time_eq_8 (ucast a) 62) 43 47;
          ret = constant_time_select_8 (constant_time_lt_args_8 a 62) (a - 52 + 48) ret;
          ret = constant_time_select_8 (constant_time_lt_args_8 a 52) (a - 26 + 97) ret
      in constant_time_select_8 (constant_time_lt_args_8 a 26) (a + 65) ret)"

definition base64_ascii_to_bin :: "u8 \<Rightarrow> u8" where
  "base64_ascii_to_bin a =
     (let is_upper = constant_time_in_range_8 a 65 90;
          is_lower = constant_time_in_range_8 a 97 122;
          is_digit = constant_time_in_range_8 a 48 57;
          is_plus = constant_time_eq_8 (ucast a) 43;
          is_slash = constant_time_eq_8 (ucast a) 47;
          is_equals = constant_time_eq_8 (ucast a) 61;
          ret = 0xff;
          ret = constant_time_select_8 is_upper (a - 65) ret;
          ret = constant_time_select_8 is_lower (a - 97 + 26) ret;
          ret = constant_time_select_8 is_digit (a - 48 + 52) ret;
          ret = constant_time_select_8 is_plus 62 ret;
          ret = constant_time_select_8 is_slash 63 ret
      in constant_time_select_8 is_equals 0 ret)"

section \<open>Encoding\<close>

definition EVP_EncodedLength :: "nat \<Rightarrow> nat option" where
  "EVP_EncodedLength len0 =
     (if size_add len0 2 < len0 then None
      else let len1 = size_add len0 2 div 3
           in if size_mul len1 4 div 4 \<noteq> len1 then None
              else let len2 = size_mul len1 4
                   in if size_add len2 1 < len2 then None else Some (size_add len2 1))"

fun encode_block_loop :: "u8 list \<Rightarrow> u8 list" where
  "encode_block_loop [] = []"
| "encode_block_loop (s0 # s1 # s2 # src) =
     (let l = push_bit 16 (ucast s0 :: u32) OR push_bit 8 (ucast s1) OR ucast s2
      in conv_bin2ascii (ucast (drop_bit 18 l)) # conv_bin2ascii (ucast (drop_bit 12 l))
         # conv_bin2ascii (ucast (drop_bit 6 l)) # conv_bin2ascii (ucast l)
         # encode_block_loop src)"
| "encode_block_loop [s0, s1] =
     (let l = push_bit 16 (ucast s0 :: u32) OR push_bit 8 (ucast s1)
      in [conv_bin2ascii (ucast (drop_bit 18 l)), conv_bin2ascii (ucast (drop_bit 12 l)),
          conv_bin2ascii (ucast (drop_bit 6 l)), 61])"
| "encode_block_loop [s0] =
     (let l = push_bit 16 (ucast s0 :: u32)
      in [conv_bin2ascii (ucast (drop_bit 18 l)), conv_bin2ascii (ucast (drop_bit 12 l)), 61, 61])"

text \<open>The bytes at \<open>dst\<close> and the return value.\<close>

definition EVP_EncodeBlock :: "u8 list \<Rightarrow> u8 list \<times> nat" where
  "EVP_EncodeBlock src = (encode_block_loop src @ [0], length (encode_block_loop src))"

record EVP_ENCODE_CTX =
  data_used :: nat
  ctx_data :: "u8 list"
  eof_seen :: bool
  error_encountered :: bool

definition EVP_EncodeInit :: EVP_ENCODE_CTX where
  "EVP_EncodeInit =
     \<lparr>data_used = 0, ctx_data = replicate 48 0, eof_seen = False, error_encountered = False\<rparr>"

text \<open>The loop over whole lines: what it writes, the input left over, and \<open>total\<close>. The
  output so far always ends in the NUL that the next line overwrites; it is added once at
  the end. \<open>None\<close> for the total is the overflow exit.\<close>

function encode_lines_loop :: "u8 list \<Rightarrow> nat \<Rightarrow> u8 list \<times> u8 list \<times> nat option" where
  "encode_lines_loop inp tot =
     (if length inp \<ge> 48 then
        (let (blk, encoded) = EVP_EncodeBlock (take 48 inp); line = take encoded blk @ [10]
         in if size_add (size_add tot encoded) 1 < tot then (line, drop 48 inp, None)
            else case encode_lines_loop (drop 48 inp) (size_add tot (encoded + 1)) of
                   (out, rest, t) \<Rightarrow> (line @ out, rest, t))
      else ([], inp, Some tot))"
  by pat_completeness auto
termination by (relation "measure (\<lambda>(inp, _). length inp)") auto

declare encode_lines_loop.simps [simp del]

definition nul_terminated :: "u8 list \<Rightarrow> u8 list" where
  "nul_terminated out = (if out = [] then [] else out @ [0])"

text \<open>The result is the bytes at \<open>out\<close>, \<open>*out_len\<close> and the context.\<close>

definition EVP_EncodeUpdate :: "EVP_ENCODE_CTX \<Rightarrow> u8 list \<Rightarrow> u8 list \<times> nat \<times> EVP_ENCODE_CTX" where
  "EVP_EncodeUpdate ctx inp =
     (if inp = [] then ([], 0, ctx)
      else if 48 - data_used ctx > length inp then
        ([], 0, ctx\<lparr>ctx_data := overwrite (ctx_data ctx) (data_used ctx) inp,
                    data_used := data_used ctx + length inp\<rparr>)
      else
        (let todo = 48 - data_used ctx;
             ctx1 = ctx\<lparr>ctx_data := overwrite (ctx_data ctx) (data_used ctx) (take todo inp),
                        data_used := 0\<rparr>;
             (blk, encoded) = EVP_EncodeBlock (ctx_data ctx1);
             (first, inp1, tot, ctx2) =
               (if data_used ctx \<noteq> 0 then (take encoded blk @ [10], drop todo inp, encoded + 1, ctx1)
                else ([], inp, 0, ctx));
             (out, rest, t) = encode_lines_loop inp1 tot
         in case t of
              None \<Rightarrow> (nul_terminated (first @ out), 0, ctx2)
            | Some tot' \<Rightarrow>
                (nul_terminated (first @ out), if tot' > INT_MAX then 0 else tot',
                 ctx2\<lparr>ctx_data := overwrite (ctx_data ctx2) 0 rest, data_used := length rest\<rparr>)))"

definition EVP_EncodeFinal :: "EVP_ENCODE_CTX \<Rightarrow> u8 list \<times> nat \<times> EVP_ENCODE_CTX" where
  "EVP_EncodeFinal ctx =
     (if data_used ctx = 0 then ([], 0, ctx)
      else let (blk, encoded) = EVP_EncodeBlock (take (data_used ctx) (ctx_data ctx))
           in (take encoded blk @ [10, 0], encoded + 1, ctx\<lparr>data_used := 0\<rparr>))"

section \<open>Decoding\<close>

definition EVP_DecodedLength :: "nat \<Rightarrow> nat option" where
  "EVP_DecodedLength len = (if len mod 4 \<noteq> 0 then None else Some (len div 4 * 3))"

definition EVP_DecodeInit :: EVP_ENCODE_CTX where
  "EVP_DecodeInit =
     \<lparr>data_used = 0, ctx_data = replicate 48 0, eof_seen = False, error_encountered = False\<rparr>"

text \<open>The bytes written, as many as \<open>*out_num_bytes\<close>.\<close>

definition base64_decode_quad :: "u8 \<Rightarrow> u8 \<Rightarrow> u8 \<Rightarrow> u8 \<Rightarrow> u8 list option" where
  "base64_decode_quad i0 i1 i2 i3 =
     (let a = base64_ascii_to_bin i0; b = base64_ascii_to_bin i1;
          c = base64_ascii_to_bin i2; d = base64_ascii_to_bin i3
      in if a = 0xff \<or> b = 0xff \<or> c = 0xff \<or> d = 0xff then None
         else let v = push_bit 18 (ucast a :: u32) OR push_bit 12 (ucast b)
                      OR push_bit 6 (ucast c) OR ucast d;
                  padding_pattern = 8 * of_bool (i0 = 61) + 4 * of_bool (i1 = 61)
                      + 2 * of_bool (i2 = 61) + of_bool (i3 = 61) :: nat
              in if padding_pattern = 0
                 then Some [ucast (drop_bit 16 v), ucast (drop_bit 8 v), ucast v]
                 else if padding_pattern = 1 then Some [ucast (drop_bit 16 v), ucast (drop_bit 8 v)]
                 else if padding_pattern = 3 then Some [ucast (drop_bit 16 v)]
                 else None)"

definition is_base64_space :: "u8 \<Rightarrow> bool" where
  "is_base64_space c \<longleftrightarrow> c = 32 \<or> c = 9 \<or> c = 13 \<or> c = 10"

text \<open>The loop of \<open>EVP_DecodeUpdate\<close>: whether it ran to the end, the context and the bytes
  written.\<close>

fun decode_update_loop :: "EVP_ENCODE_CTX \<Rightarrow> u8 list \<Rightarrow> bool \<times> EVP_ENCODE_CTX \<times> u8 list" where
  "decode_update_loop ctx [] = (True, ctx, [])"
| "decode_update_loop ctx (c # inp) =
     (if is_base64_space c then decode_update_loop ctx inp
      else if eof_seen ctx then (False, ctx\<lparr>error_encountered := True\<rparr>, [])
      else let ctx1 = ctx\<lparr>ctx_data := (ctx_data ctx)[data_used ctx := c],
                          data_used := data_used ctx + 1\<rparr>
           in if data_used ctx1 = 4 then
                (case base64_decode_quad (ctx_data ctx1 ! 0) (ctx_data ctx1 ! 1)
                        (ctx_data ctx1 ! 2) (ctx_data ctx1 ! 3) of
                   None \<Rightarrow> (False, ctx1\<lparr>error_encountered := True\<rparr>, [])
                 | Some bs \<Rightarrow>
                     (let ctx2 = ctx1\<lparr>data_used := 0\<rparr>;
                          ctx3 = (if length bs < 3 then ctx2\<lparr>eof_seen := True\<rparr> else ctx2)
                      in case decode_update_loop ctx3 inp of
                           (ok, ctx4, out) \<Rightarrow> (ok, ctx4, bs @ out)))
              else decode_update_loop ctx1 inp)"

text \<open>The return value, \<open>*out_len\<close>, the bytes at \<open>out\<close> and the context.\<close>

definition EVP_DecodeUpdate ::
    "EVP_ENCODE_CTX \<Rightarrow> u8 list \<Rightarrow> int \<times> nat \<times> u8 list \<times> EVP_ENCODE_CTX" where
  "EVP_DecodeUpdate ctx inp =
     (if error_encountered ctx then (- 1, 0, [], ctx)
      else case decode_update_loop ctx inp of
             (False, ctx', out) \<Rightarrow> (- 1, 0, out, ctx')
           | (True, ctx', out) \<Rightarrow>
               (if length out > INT_MAX then (- 1, 0, out, ctx'\<lparr>error_encountered := True\<rparr>)
                else (if eof_seen ctx' then 0 else 1, length out, out, ctx')))"

definition EVP_DecodeFinal :: "EVP_ENCODE_CTX \<Rightarrow> int" where
  "EVP_DecodeFinal ctx = (if error_encountered ctx \<or> data_used ctx \<noteq> 0 then - 1 else 1)"

text \<open>The loop of \<open>EVP_DecodeBase64\<close> over whole quads.\<close>

fun decode_quads :: "u8 list \<Rightarrow> u8 list option" where
  "decode_quads (i0 # i1 # i2 # i3 # inp) =
     (case base64_decode_quad i0 i1 i2 i3 of
        None \<Rightarrow> None
      | Some bs \<Rightarrow>
          (if length bs \<noteq> 3 \<and> inp \<noteq> [] then None
           else map_option (\<lambda>out. bs @ out) (decode_quads inp)))"
| "decode_quads _ = Some []"

definition EVP_DecodeBase64 :: "nat \<Rightarrow> u8 list \<Rightarrow> u8 list option" where
  "EVP_DecodeBase64 max_out inp =
     (if length inp mod 4 \<noteq> 0 then None
      else case EVP_DecodedLength (length inp) of
             None \<Rightarrow> None
           | Some max_len \<Rightarrow> (if max_out < max_len then None else decode_quads inp))"

text \<open>The bytes at \<open>dst\<close>, as many as the return value; \<open>None\<close> is \<open>-1\<close>.\<close>

definition EVP_DecodeBlock :: "u8 list \<Rightarrow> u8 list option" where
  "EVP_DecodeBlock src0 =
     (let src1 = dropWhile (\<lambda>c. c = 32 \<or> c = 9) src0;
          src = rev (dropWhile is_base64_space (rev src1))
      in case EVP_DecodedLength (length src) of
           None \<Rightarrow> None
         | Some dst_len \<Rightarrow>
             (if dst_len > INT_MAX then None
              else case EVP_DecodeBase64 dst_len src of
                     None \<Rightarrow> None
                   | Some out \<Rightarrow> Some (out @ replicate ((3 - length out mod 3) mod 3) 0)))"

section \<open>The character maps are inverse\<close>

lemma lt_args_8_mask: "constant_time_lt_args_8 a b = mask_of (a < b)"
proof -
  have "\<not> bit (ucast a :: u64) 63" "\<not> bit (ucast b :: u64) 63"
    by (auto simp: bit_simps dest: bit_imp_le_length)
  then have "bit (ucast a - ucast b :: u64) 63 \<longleftrightarrow> (ucast a :: u64) < ucast b"
    by (simp add: bit_63_diff)
  also have "\<dots> \<longleftrightarrow> a < b" by (simp add: word_less_nat_alt unat_ucast_up)
  finally show ?thesis by (simp add: constant_time_lt_args_8_def msb_w_mask)
qed

lemma in_range_8_mask:
  assumes "unat mn \<le> unat mx" and "unat mx < 255"
  shows "constant_time_in_range_8 a mn mx = mask_of (mn \<le> a \<and> a \<le> mx)"
proof -
  have r: "unat (mx - mn + 1) = unat mx - unat mn + 1"
    using assms by (simp add: unat_word_ariths unat_sub_if')
  have "a - mn < mx - mn + 1 \<longleftrightarrow> mn \<le> a \<and> a \<le> mx"
    using assms unat_u8_less [of a] unat_u8_less [of mx]
    unfolding word_less_nat_alt word_le_nat_alt r unat_sub_if'
    by (auto simp del: unat_u8_less)
  then show ?thesis by (simp add: constant_time_in_range_8_def lt_args_8_mask)
qed

lemma ucast_u8_eq: "(ucast (a :: u8) :: u64) = ucast b \<longleftrightarrow> a = b"
  by (simp add: word_unat_eq_iff unat_ucast_up)

lemma conv_bin2ascii_eq:
  "conv_bin2ascii a =
     (let s = a AND 0x3f
      in if s < 26 then s + 65 else if s < 52 then s - 26 + 97
         else if s < 62 then s - 52 + 48 else if s = 62 then 43 else 47)"
proof -
  have "(ucast (a AND 0x3f) = (62 :: u64)) \<longleftrightarrow> a AND 0x3f = 62"
    using ucast_u8_eq [of "a AND 0x3f" 62] by simp
  then show ?thesis
    by (simp add: conv_bin2ascii_def Let_def lt_args_8_mask constant_time_eq_8_mask
        constant_time_select_8_mask)
qed

lemma base64_ascii_to_bin_eq:
  "base64_ascii_to_bin a =
     (if a = 61 then 0 else if a = 47 then 63 else if a = 43 then 62
      else if 48 \<le> a \<and> a \<le> 57 then a - 48 + 52
      else if 97 \<le> a \<and> a \<le> 122 then a - 97 + 26
      else if 65 \<le> a \<and> a \<le> 90 then a - 65 else 0xff)"
proof -
  have e: "(ucast a = (61 :: u64)) \<longleftrightarrow> a = 61" "(ucast a = (47 :: u64)) \<longleftrightarrow> a = 47"
    "(ucast a = (43 :: u64)) \<longleftrightarrow> a = 43"
    using ucast_u8_eq [of a 61] ucast_u8_eq [of a 47] ucast_u8_eq [of a 43] by simp_all
  show ?thesis
    by (simp add: base64_ascii_to_bin_def Let_def in_range_8_mask constant_time_eq_8_mask
        constant_time_select_8_mask e)
qed

lemma sextets:
  "list_all (\<lambda>n. base64_ascii_to_bin (conv_bin2ascii (byte n)) = byte n
      \<and> conv_bin2ascii (byte n) \<noteq> 61 \<and> \<not> is_base64_space (conv_bin2ascii (byte n))) [0..<64]"
  unfolding base64_ascii_to_bin_eq conv_bin2ascii_eq is_base64_space_def byte_def by code_simp

lemma sextet_roundtrip:
  "base64_ascii_to_bin (conv_bin2ascii s) = s AND 0x3f"
  "conv_bin2ascii s \<noteq> 61" "\<not> is_base64_space (conv_bin2ascii s)"
proof -
  let ?n = "unat (s AND 0x3f)"
  have "?n = unat s mod 64" using unat_and_mask [of s 6] by (simp add: mask_eq_exp_minus_1)
  then have n: "?n \<in> set [0..<64]" by simp
  have idem: "conv_bin2ascii s = conv_bin2ascii (s AND 0x3f)"
    by (simp add: conv_bin2ascii_eq and.assoc)
  from sextets n show "base64_ascii_to_bin (conv_bin2ascii s) = s AND 0x3f"
    "conv_bin2ascii s \<noteq> 61" "\<not> is_base64_space (conv_bin2ascii s)"
    unfolding idem list_all_iff by (metis byte_unat)+
qed

lemma ascii_to_bin_pad: "base64_ascii_to_bin 61 = 0"
  by (simp add: base64_ascii_to_bin_eq)

section \<open>One quad\<close>

lemma bit_3f: "bit (0x3f :: int) n \<longleftrightarrow> n < 6"
proof -
  have "(0x3f :: int) = mask 6" by (simp add: mask_eq_exp_minus_1)
  then show ?thesis by (simp only: bit_mask_iff) simp
qed

text \<open>The four sextets of a 24-bit group make the group again; a group of one or two bytes
  leaves the low sextets zero.\<close>

lemma sextets_join:
  fixes l :: u32
  assumes "\<And>n. 24 \<le> n \<Longrightarrow> \<not> bit l n"
  shows "push_bit 18 (ucast ((ucast (drop_bit 18 l) :: u8) AND 0x3f) :: u32)
       OR push_bit 12 (ucast ((ucast (drop_bit 12 l) :: u8) AND 0x3f))
       OR push_bit 6 (ucast ((ucast (drop_bit 6 l) :: u8) AND 0x3f))
       OR ucast ((ucast l :: u8) AND 0x3f) = l" (is "?v = l")
proof (rule bit_word_eqI)
  fix n
  assume n: "n < LENGTH(32)"
  consider "n < 6" | "6 \<le> n" "n < 12" | "12 \<le> n" "n < 18" | "18 \<le> n" "n < 24" | "24 \<le> n" by linarith
  then show "bit ?v n = bit l n"
    by cases (use assms in \<open>auto simp: bit_simps bit_3f\<close>)
qed

lemma sextet_zero: "(\<And>n. n < 6 + k \<Longrightarrow> k \<le> n \<Longrightarrow> \<not> bit (l :: u32) n) \<Longrightarrow> (ucast (drop_bit k l) :: u8) AND 0x3f = 0"
  by (rule bit_word_eqI) (auto simp: bit_simps bit_3f)

lemma sextet_not_ff: "s AND 0x3f \<noteq> (0xff :: u8)"
proof
  assume "s AND 0x3f = 0xff"
  then have "bit (s AND 0x3f) 7 = bit (0xff :: u8) 7" by simp
  moreover have "bit (0xff :: u8) 7" by (simp add: bit_iff_odd drop_bit_eq_div)
  ultimately show False by (simp add: bit_simps bit_3f)
qed

lemma decode_quad:
  fixes l :: u32
  assumes l: "\<And>n. 24 \<le> n \<Longrightarrow> \<not> bit l n"
  shows "base64_decode_quad (conv_bin2ascii (ucast (drop_bit 18 l))) (conv_bin2ascii (ucast (drop_bit 12 l)))
           (conv_bin2ascii (ucast (drop_bit 6 l))) (conv_bin2ascii (ucast l))
         = Some [ucast (drop_bit 16 l), ucast (drop_bit 8 l), ucast l]"
    and "(\<And>n. n < 8 \<Longrightarrow> \<not> bit l n) \<Longrightarrow>
         base64_decode_quad (conv_bin2ascii (ucast (drop_bit 18 l))) (conv_bin2ascii (ucast (drop_bit 12 l)))
           (conv_bin2ascii (ucast (drop_bit 6 l))) 61
         = Some [ucast (drop_bit 16 l), ucast (drop_bit 8 l)]"
    and "(\<And>n. n < 16 \<Longrightarrow> \<not> bit l n) \<Longrightarrow>
         base64_decode_quad (conv_bin2ascii (ucast (drop_bit 18 l))) (conv_bin2ascii (ucast (drop_bit 12 l)))
           61 61 = Some [ucast (drop_bit 16 l)]"
proof -
  note facts = base64_decode_quad_def Let_def sextet_roundtrip sextet_not_ff ascii_to_bin_pad
  note j = sextets_join [OF l]
  show "base64_decode_quad (conv_bin2ascii (ucast (drop_bit 18 l))) (conv_bin2ascii (ucast (drop_bit 12 l)))
           (conv_bin2ascii (ucast (drop_bit 6 l))) (conv_bin2ascii (ucast l))
         = Some [ucast (drop_bit 16 l), ucast (drop_bit 8 l), ucast l]"
    by (simp add: facts j)
  {
    assume z: "\<And>n. n < 8 \<Longrightarrow> \<not> bit l n"
    have "(ucast l :: u8) AND 0x3f = 0" using sextet_zero [of 0 l] z by simp
    with j show "base64_decode_quad (conv_bin2ascii (ucast (drop_bit 18 l))) (conv_bin2ascii (ucast (drop_bit 12 l)))
           (conv_bin2ascii (ucast (drop_bit 6 l))) 61
         = Some [ucast (drop_bit 16 l), ucast (drop_bit 8 l)]"
      by (simp add: facts)
  next
    assume z: "\<And>n. n < 16 \<Longrightarrow> \<not> bit l n"
    have "(ucast l :: u8) AND 0x3f = 0" "(ucast (drop_bit 6 l) :: u8) AND 0x3f = 0"
      using sextet_zero [of 0 l] sextet_zero [of 6 l] z by simp_all
    with j show "base64_decode_quad (conv_bin2ascii (ucast (drop_bit 18 l))) (conv_bin2ascii (ucast (drop_bit 12 l)))
           61 61 = Some [ucast (drop_bit 16 l)]"
      by (simp add: facts)
  }
qed

text \<open>The group of up to three bytes, and its bytes again.\<close>

definition group24 :: "u8 \<Rightarrow> u8 \<Rightarrow> u8 \<Rightarrow> u32" where
  "group24 s0 s1 s2 = push_bit 16 (ucast s0) OR push_bit 8 (ucast s1) OR ucast s2"

lemma group24_bits:
  "24 \<le> n \<Longrightarrow> \<not> bit (group24 s0 s1 s2) n"
  "n < 8 \<Longrightarrow> \<not> bit (group24 s0 s1 0) n"
  "n < 16 \<Longrightarrow> \<not> bit (group24 s0 0 0) n"
  by (auto simp: group24_def bit_simps dest: bit_imp_le_length)

lemma group24_bytes:
  "(ucast (drop_bit 16 (group24 s0 s1 s2)) :: u8) = s0"
  "(ucast (drop_bit 8 (group24 s0 s1 s2)) :: u8) = s1"
  "(ucast (group24 s0 s1 s2) :: u8) = s2"
  by (rule bit_word_eqI; auto simp: group24_def bit_simps dest: bit_imp_le_length)+

section \<open>One-shot encoding and decoding\<close>

lemma encode_block_loop_group:
  "encode_block_loop (s0 # s1 # s2 # src) =
     (let l = group24 s0 s1 s2
      in conv_bin2ascii (ucast (drop_bit 18 l)) # conv_bin2ascii (ucast (drop_bit 12 l))
         # conv_bin2ascii (ucast (drop_bit 6 l)) # conv_bin2ascii (ucast l)
         # encode_block_loop src)"
  "encode_block_loop [s0, s1] =
     (let l = group24 s0 s1 0
      in [conv_bin2ascii (ucast (drop_bit 18 l)), conv_bin2ascii (ucast (drop_bit 12 l)),
          conv_bin2ascii (ucast (drop_bit 6 l)), 61])"
  "encode_block_loop [s0] =
     (let l = group24 s0 0 0
      in [conv_bin2ascii (ucast (drop_bit 18 l)), conv_bin2ascii (ucast (drop_bit 12 l)), 61, 61])"
  by (simp_all add: group24_def Let_def)

declare encode_block_loop.simps(2-4) [simp del]

lemmas decode_group =
  decode_quad(1) [OF group24_bits(1), unfolded group24_bytes]
  decode_quad(2) [OF group24_bits(1) group24_bits(2), unfolded group24_bytes]
  decode_quad(3) [OF group24_bits(1) group24_bits(3), unfolded group24_bytes]

lemma length_encode_block: "length (encode_block_loop xs) = 4 * ((length xs + 2) div 3)"
proof (induction xs rule: encode_block_loop.induct)
  case (2 s0 s1 s2 src)
  have "(length src + 3 + 2) div 3 = (length src + 2) div 3 + 1" by simp
  with 2 show ?case by (simp add: encode_block_loop_group Let_def)
qed (simp_all add: encode_block_loop_group Let_def)

lemma decode_encode: "decode_quads (encode_block_loop xs) = Some xs"
proof (induction xs rule: encode_block_loop.induct)
  case (2 s0 s1 s2 src)
  then show ?case by (simp add: encode_block_loop_group Let_def decode_group group24_bytes)
qed (simp_all add: encode_block_loop_group Let_def decode_group)

lemma decoded_length: "EVP_DecodedLength (4 * n) = Some (n * 3)"
  by (simp add: EVP_DecodedLength_def)

lemma encoded_length:
  assumes m: "EVP_EncodedLength len = Some m" and len: "len \<le> SIZE_MAX"
  shows "m = 4 * ((len + 2) div 3) + 1"
proof -
  have "\<not> size_add len 2 < len" using m by (auto simp: EVP_EncodedLength_def split: if_splits)
  then have fit: "len + 2 \<le> SIZE_MAX" using size_add_less_iff [OF len, of 2] by (simp add: SIZE_MAX_def)
  let ?n = "(len + 2) div 3"
  have mul: "size_mul ?n 4 div 4 = ?n"
    using m by (auto simp: EVP_EncodedLength_def size_add_exact [OF fit] Let_def split: if_splits)
  have "?n * 4 \<le> SIZE_MAX"
  proof (rule ccontr)
    assume "\<not> ?n * 4 \<le> SIZE_MAX"
    then have "size_mul ?n 4 \<le> ?n * 4 - (SIZE_MAX + 1)"
      by (simp add: size_mul_def le_mod_geq)
    then have "size_mul ?n 4 div 4 \<le> (?n * 4 - (SIZE_MAX + 1)) div 4" by (rule div_le_mono)
    also have "\<dots> < ?n" using \<open>\<not> ?n * 4 \<le> SIZE_MAX\<close> by (simp add: SIZE_MAX_def)
    finally show False using mul by simp
  qed
  moreover have "?n * 4 \<noteq> SIZE_MAX"
  proof
    assume "?n * 4 = SIZE_MAX"
    then have "?n * 4 mod 4 = SIZE_MAX mod 4" by (rule arg_cong)
    then show False by (simp add: SIZE_MAX_def)
  qed
  ultimately have "?n * 4 + 1 \<le> SIZE_MAX" by linarith
  then have e: "size_mul ?n 4 = ?n * 4" "size_add (?n * 4) 1 = ?n * 4 + 1"
    by (simp_all add: size_mul_exact size_add_exact)
  have "EVP_EncodedLength len = Some (?n * 4 + 1)"
    unfolding EVP_EncodedLength_def size_add_exact [OF fit] Let_def e by simp
  with m show ?thesis by simp
qed

text \<open>C11: the one-shot functions are inverse. \<open>EVP_EncodeBlock\<close> writes four characters for
  every three bytes begun and a NUL, as many as \<open>EVP_EncodedLength\<close> announces, and
  \<open>EVP_DecodeBase64\<close> on these characters returns the bytes, for every length modulo three,
  whenever the output buffer has the size \<open>EVP_DecodedLength\<close> asks for.\<close>

theorem EVP_base64_roundtrip:
  assumes "EVP_EncodedLength (length xs) = Some m" and "(length xs + 2) div 3 * 3 \<le> max_out"
    and "length xs \<le> SIZE_MAX"
  shows "length (fst (EVP_EncodeBlock xs)) = m
    \<and> EVP_DecodeBase64 max_out (take (snd (EVP_EncodeBlock xs)) (fst (EVP_EncodeBlock xs))) = Some xs"
proof -
  have "m = 4 * ((length xs + 2) div 3) + 1" using encoded_length [OF assms(1)] assms(3) by simp
  then show ?thesis using assms(2)
    by (simp add: EVP_EncodeBlock_def length_encode_block EVP_DecodeBase64_def decoded_length
        decode_encode)
qed

theorem EVP_base64_roundtrip_witness:
  "length (fst (EVP_EncodeBlock [77, 97])) = 5
    \<and> EVP_DecodeBase64 3 (take (snd (EVP_EncodeBlock [77, 97])) (fst (EVP_EncodeBlock [77, 97]))) = Some [77, 97]"
  by (rule EVP_base64_roundtrip)
    (simp_all add: EVP_EncodedLength_def size_add_exact size_mul_exact SIZE_MAX_def Let_def)

section \<open>Streaming\<close>

function enc_lines :: "u8 list \<Rightarrow> u8 list" where
  "enc_lines xs =
     (if length xs \<ge> 48 then encode_block_loop (take 48 xs) @ 10 # enc_lines (drop 48 xs) else [])"
  by pat_completeness auto
termination by (relation "measure length") auto

function enc_rest :: "u8 list \<Rightarrow> u8 list" where
  "enc_rest xs = (if length xs \<ge> 48 then enc_rest (drop 48 xs) else xs)"
  by pat_completeness auto
termination by (relation "measure length") auto

declare enc_lines.simps [simp del] enc_rest.simps [simp del]

lemma length_enc_rest: "length (enc_rest xs) < 48"
  by (induction xs rule: enc_rest.induct) (subst enc_rest.simps, simp)

lemma enc_short: "length xs < 48 \<Longrightarrow> enc_lines xs = [] \<and> enc_rest xs = xs"
  by (simp add: enc_lines.simps enc_rest.simps)

lemma enc_block_48:
  assumes "length a = 48"
  shows "enc_lines (a @ b) = encode_block_loop a @ 10 # enc_lines b \<and> enc_rest (a @ b) = enc_rest b"
  using assms by (simp add: enc_lines.simps [of "a @ b"] enc_rest.simps [of "a @ b"])

lemma enc_append:
  "enc_lines (xs @ ys) = enc_lines xs @ enc_lines (enc_rest xs @ ys)
   \<and> enc_rest (xs @ ys) = enc_rest (enc_rest xs @ ys)"
proof (induction xs rule: enc_lines.induct)
  case (1 xs)
  show ?case
  proof (cases "length xs \<ge> 48")
    case True
    then show ?thesis using 1 [OF True]
      by (simp add: enc_lines.simps [of "xs @ ys"] enc_lines.simps [of xs]
          enc_rest.simps [of "xs @ ys"] enc_rest.simps [of xs])
  next
    case False
    then show ?thesis by (simp add: enc_short)
  qed
qed

lemma length_enc_lines: "length (enc_lines xs) = 65 * (length xs div 48)"
proof (induction xs rule: enc_lines.induct)
  case (1 xs)
  show ?case
  proof (cases "length xs \<ge> 48")
    case True
    then have "length xs div 48 = (length xs - 48) div 48 + 1" by (simp add: le_div_geq)
    with 1 [OF True] True show ?thesis
      by (simp add: enc_lines.simps [of xs] length_encode_block)
  next
    case False
    then show ?thesis by (simp add: enc_short)
  qed
qed

lemma encode_lines_loop_eq:
  "tot + length (enc_lines inp) \<le> SIZE_MAX \<Longrightarrow>
     encode_lines_loop inp tot = (enc_lines inp, enc_rest inp, Some (tot + length (enc_lines inp)))"
proof (induction inp tot rule: encode_lines_loop.induct)
  case (1 inp tot)
  show ?case
  proof (cases "length inp \<ge> 48")
    case True
    have lines: "enc_lines inp = encode_block_loop (take 48 inp) @ 10 # enc_lines (drop 48 inp)"
      and rest: "enc_rest inp = enc_rest (drop 48 inp)"
      using True by (simp_all add: enc_lines.simps [of inp] enc_rest.simps [of inp])
    have len: "length (encode_block_loop (take 48 inp)) = 64" using True by (simp add: length_encode_block)
    have fit: "tot + 65 + length (enc_lines (drop 48 inp)) \<le> SIZE_MAX"
      using "1.prems" by (simp add: lines len)
    have blk: "EVP_EncodeBlock (take 48 inp) = (encode_block_loop (take 48 inp) @ [0], 64)"
      by (simp add: EVP_EncodeBlock_def len)
    have IH: "encode_lines_loop (drop 48 inp) (tot + 65) =
        (enc_lines (drop 48 inp), enc_rest (drop 48 inp), Some (tot + 65 + length (enc_lines (drop 48 inp))))"
      using "1.IH" [OF True refl blk [symmetric] refl] fit by (simp add: size_add_exact len)
    show ?thesis
      using True fit by (simp add: encode_lines_loop.simps [of inp tot] blk size_add_exact IH lines rest len)
  next
    case False
    then show ?thesis by (simp add: encode_lines_loop.simps [of inp tot] enc_short)
  qed
qed

text \<open>The context of an encoder holds fewer bytes than a line.\<close>

definition enc_ctx_ok :: "EVP_ENCODE_CTX \<Rightarrow> bool" where
  "enc_ctx_ok ctx \<longleftrightarrow> length (ctx_data ctx) = 48 \<and> data_used ctx < 48"

definition enc_pending :: "EVP_ENCODE_CTX \<Rightarrow> u8 list" where
  "enc_pending ctx = take (data_used ctx) (ctx_data ctx)"

lemma take_nul_terminated: "n = length out \<Longrightarrow> take n (nul_terminated out) = out"
  by (simp add: nul_terminated_def)

lemma EVP_EncodeUpdate_ok:
  assumes c: "enc_ctx_ok ctx" and len: "length (enc_pending ctx @ inp) \<le> 1000000000"
  shows "case EVP_EncodeUpdate ctx inp of (out, n, ctx') \<Rightarrow>
     take n out = enc_lines (enc_pending ctx @ inp) \<and> enc_ctx_ok ctx'
     \<and> enc_pending ctx' = enc_rest (enc_pending ctx @ inp)"
proof -
  let ?p = "enc_pending ctx" and ?u = "data_used ctx"
  have u: "length ?p = ?u" "?u < 48" "length (ctx_data ctx) = 48"
    using c by (simp_all add: enc_ctx_ok_def enc_pending_def)
  have bound: "length (enc_lines xs) \<le> 2000000000" if "length xs \<le> 1000000000" for xs
  proof -
    have "length xs div 48 \<le> 1000000000 div 48" using that by (rule div_le_mono)
    then show ?thesis by (simp add: length_enc_lines)
  qed
  show ?thesis
  proof (cases "inp = [] \<or> 48 - ?u > length inp")
    case True
    then have s: "length (?p @ inp) < 48" using u by auto
    have o: "take (?u + length inp) (overwrite (ctx_data ctx) ?u inp) = ?p @ inp"
      using s u by (simp add: take_overwrite enc_pending_def)
    show ?thesis
    proof (cases "inp = []")
      case True
      with c s show ?thesis by (simp add: EVP_EncodeUpdate_def enc_short)
    next
      case False
      then have "EVP_EncodeUpdate ctx inp =
          ([], 0, ctx\<lparr>ctx_data := overwrite (ctx_data ctx) ?u inp, data_used := ?u + length inp\<rparr>)"
        using True by (simp add: EVP_EncodeUpdate_def)
      then show ?thesis using s o u enc_short [OF s] by (simp add: enc_ctx_ok_def enc_pending_def)
    qed
  next
    case False
    let ?todo = "48 - ?u"
    let ?d = "overwrite (ctx_data ctx) ?u (take ?todo inp)"
    have l: "?u \<noteq> 0 \<Longrightarrow> ?d = ?p @ take ?todo inp"
      using False u by (auto simp: overwrite_def enc_pending_def)
    show ?thesis
    proof (cases "?u = 0")
      case True
      then have p: "?p = []" using u by simp
      have b: "length (enc_lines inp) \<le> 2000000000" using bound len by simp
      then have loop: "encode_lines_loop inp 0 = (enc_lines inp, enc_rest inp, Some (length (enc_lines inp)))"
        using encode_lines_loop_eq [of 0 inp] by (simp add: SIZE_MAX_def)
      have "EVP_EncodeUpdate ctx inp =
          (nul_terminated (enc_lines inp), length (enc_lines inp),
           ctx\<lparr>ctx_data := overwrite (ctx_data ctx) 0 (enc_rest inp), data_used := length (enc_rest inp)\<rparr>)"
        using False True b by (simp add: EVP_EncodeUpdate_def Let_def loop INT_MAX_def split_beta)
      then show ?thesis using length_enc_rest [of inp] u p True
        by (simp add: take_nul_terminated enc_ctx_ok_def enc_pending_def overwrite_def)
    next
      case nz: False
      let ?rest = "drop ?todo inp"
      have all: "?p @ inp = (?p @ take ?todo inp) @ ?rest" by simp
      have l48: "length (?p @ take ?todo inp) = 48" using False u by auto
      then have one: "enc_lines (?p @ inp) = encode_block_loop (?p @ take ?todo inp) @ 10 # enc_lines ?rest"
        and rest: "enc_rest (?p @ inp) = enc_rest ?rest"
        unfolding all using enc_block_48 [OF l48] by blast+
      have e64: "length (encode_block_loop (?p @ take ?todo inp)) = 64"
        using l48 by (simp only: length_encode_block) simp
      have b: "length (enc_lines ?rest) \<le> 2000000000" using bound len by simp
      then have loop: "encode_lines_loop ?rest 65 = (enc_lines ?rest, enc_rest ?rest, Some (65 + length (enc_lines ?rest)))"
        using encode_lines_loop_eq [of 65 ?rest] by (simp add: SIZE_MAX_def)
      have blk: "EVP_EncodeBlock ?d = (encode_block_loop (?p @ take ?todo inp) @ [0], 64)"
        using l [OF nz] e64 by (simp add: EVP_EncodeBlock_def)
      have ld: "length ?d = 48" using l [OF nz] l48 by simp
      have tk: "take (65 + length (enc_lines ?rest))
          (nul_terminated ((encode_block_loop (?p @ take ?todo inp) @ [10]) @ enc_lines ?rest))
          = encode_block_loop (?p @ take ?todo inp) @ 10 # enc_lines ?rest"
        by (subst take_nul_terminated) (simp_all add: e64)
      have fit: "\<not> 65 + length (enc_lines ?rest) > INT_MAX" using b by (simp add: INT_MAX_def)
      have upd: "EVP_EncodeUpdate ctx inp =
          (nul_terminated ((encode_block_loop (?p @ take ?todo inp) @ [10]) @ enc_lines ?rest),
           65 + length (enc_lines ?rest),
           ctx\<lparr>ctx_data := overwrite ?d 0 (enc_rest ?rest), data_used := length (enc_rest ?rest)\<rparr>)"
        using False nz fit
        by (simp add: EVP_EncodeUpdate_def Let_def blk loop e64)
      have fits: "length (enc_rest ?rest) < 48" by (rule length_enc_rest)
      have over: "take (length (enc_rest ?rest)) (overwrite ?d 0 (enc_rest ?rest)) = enc_rest ?rest"
        "length (overwrite ?d 0 (enc_rest ?rest)) = 48"
        using take_overwrite [of 0 "enc_rest ?rest" ?d] length_overwrite [of 0 "enc_rest ?rest" ?d] fits ld
        by simp_all
      show ?thesis unfolding upd prod.case tk one rest using fits over
        by (simp add: enc_ctx_ok_def enc_pending_def del: length_overwrite)
    qed
  qed
qed

end
