(* ===== verification/SeqStore.thy ===== *)
theory SeqStore
  imports Main
begin

text \<open>
  The interface of a growable sequence, and what follows from it for pushing, popping,
  shifting and removing by value. \<open>Stack\<close> provides it and gets these four operations from it.
\<close>

text \<open>What a client of a growable sequence relies on, whoever provides it: insertion may be
  refused, and then nothing is promised about the state but that the old one is still
  there; everything else is the list.\<close>

locale seq_store =
  fixes good :: "'s \<Rightarrow> bool" and elems :: "'s \<Rightarrow> 'x list"
    and ins :: "'s \<Rightarrow> 'x \<Rightarrow> nat \<Rightarrow> 's option"
    and del :: "'s \<Rightarrow> nat \<Rightarrow> 'x \<times> 's"
  assumes ins_good: "good s \<Longrightarrow> ins s x i = Some s' \<Longrightarrow> good s'"
    and ins_elems: "good s \<Longrightarrow> ins s x i = Some s' \<Longrightarrow> elems s' = take i (elems s) @ x # drop i (elems s)"
    and del_good: "good s \<Longrightarrow> i < length (elems s) \<Longrightarrow> good (snd (del s i))"
    and del_elems: "good s \<Longrightarrow> i < length (elems s) \<Longrightarrow>
      elems (snd (del s i)) = take i (elems s) @ drop (Suc i) (elems s)"
    and del_value: "good s \<Longrightarrow> i < length (elems s) \<Longrightarrow> fst (del s i) = elems s ! i"

context seq_store begin

text \<open>Pushing at the end, popping from it, and shifting from the front.\<close>

lemma push_last:
  "good s \<Longrightarrow> ins s x (length (elems s)) = Some s' \<Longrightarrow> good s' \<and> elems s' = elems s @ [x]"
  using ins_good [of s] ins_elems [of s] by simp

lemma pop_last:
  assumes "good s" and "elems s \<noteq> []" and "del s (length (elems s) - 1) = (x, s')"
  shows "good s' \<and> x = last (elems s) \<and> elems s' = butlast (elems s)"
  using del_good [OF assms(1), of "length (elems s) - 1"] del_elems [OF assms(1), of "length (elems s) - 1"]
    del_value [OF assms(1), of "length (elems s) - 1"] assms
  by (simp add: last_conv_nth butlast_conv_take)

lemma shift_first:
  assumes "good s" and "elems s \<noteq> []" and "del s 0 = (x, s')"
  shows "good s' \<and> x = hd (elems s) \<and> elems s' = tl (elems s)"
  using del_good [OF assms(1), of 0] del_elems [OF assms(1), of 0] del_value [OF assms(1), of 0] assms
  by (simp add: hd_conv_nth drop_Suc)

text \<open>Taking out the first occurrence.\<close>

lemma del_first:
  assumes "good s" and "i < length (elems s)" and "elems s ! i = x" and "x \<notin> set (take i (elems s))"
    and "del s i = (y, s')"
  shows "good s' \<and> y = x \<and> elems s' = remove1 x (elems s)"
proof -
  have "elems s = take i (elems s) @ x # drop (Suc i) (elems s)" using assms(2,3) by (metis id_take_nth_drop)
  then have "remove1 x (elems s) = take i (elems s) @ drop (Suc i) (elems s)"
    using assms(4) by (metis remove1.simps(2) remove1_append)
  with del_good [OF assms(1,2)] del_elems [OF assms(1,2)] del_value [OF assms(1,2)] assms(3,5) show ?thesis
    by simp
qed

end

end
