(* ===== verification/Stack.thy ===== *)
theory Stack
  imports Mem Libc SeqStore
begin

text \<open>
  The pointer stacks of \<open>crypto/stack/stack.c\<close>. A pointer is an \<open>'a option\<close> (\<open>None\<close> is
  NULL), a \<open>_STACK *\<close> an optional record whose \<open>st_data\<close> is the whole allocated array of
  \<open>num_alloc\<close> slots. A comparison function is identified by its address (\<open>nat\<close>), since
  \<open>sk_set_cmp_func\<close> compares the pointers; \<open>se_cmp\<close> is the code at an address. \<open>qsort\<close>,
  \<open>bsearch\<close>, the allocator and the content of fresh slots are fields of the environment.
\<close>

type_synonym 'a ptr = "'a option"

record 'a stack_env =
  se_mem :: env
  se_stale :: "nat \<Rightarrow> 'a ptr"
  se_cmp :: "nat \<Rightarrow> 'a ptr \<Rightarrow> 'a ptr \<Rightarrow> int"
  se_qsort :: "('a ptr \<Rightarrow> 'a ptr \<Rightarrow> int) \<Rightarrow> 'a ptr list \<Rightarrow> 'a ptr list"
  se_bsearch :: "('a ptr \<Rightarrow> 'a ptr \<Rightarrow> int) \<Rightarrow> 'a ptr \<Rightarrow> 'a ptr list \<Rightarrow> nat option"

record 'a stack =
  st_num :: nat
  st_data :: "'a ptr list"
  st_sorted :: bool
  st_num_alloc :: nat
  st_comp :: "nat option"

section \<open>Operations\<close>

text \<open>Arrays of pointers, eight bytes each.\<close>

definition ptr_malloc :: "'a stack_env \<Rightarrow> nat \<Rightarrow> 'a ptr list option" where
  "ptr_malloc e n =
     map_option (\<lambda>b. map (se_stale e) [0..<length (blk_data b) div 8]) (OPENSSL_malloc (se_mem e) n)"

definition ptr_realloc :: "'a stack_env \<Rightarrow> 'a ptr list \<Rightarrow> nat \<Rightarrow> 'a ptr list option" where
  "ptr_realloc e data n =
     map_option (\<lambda>ret. take (n div 8) data @ drop (length data) ret) (ptr_malloc e n)"

definition kMinSize :: nat where
  "kMinSize = 4"

definition sk_new :: "'a stack_env \<Rightarrow> nat option \<Rightarrow> 'a stack option" where
  "sk_new e cmp =
     (case OPENSSL_malloc (se_mem e) 40 of
        None \<Rightarrow> None
      | Some _ \<Rightarrow>
          (case ptr_malloc e (8 * kMinSize) of
             None \<Rightarrow> None
           | Some data \<Rightarrow>
               Some \<lparr>st_num = 0, st_data = overwrite data 0 (replicate kMinSize None),
                     st_sorted = False, st_num_alloc = kMinSize, st_comp = cmp\<rparr>))"

definition sk_new_null :: "'a stack_env \<Rightarrow> 'a stack option" where
  "sk_new_null e = sk_new e None"

definition sk_num :: "'a stack option \<Rightarrow> nat" where
  "sk_num sk = (case sk of None \<Rightarrow> 0 | Some s \<Rightarrow> st_num s)"

definition sk_zero :: "'a stack option \<Rightarrow> 'a stack option" where
  "sk_zero sk =
     (case sk of
        None \<Rightarrow> None
      | Some s \<Rightarrow>
          if st_num s = 0 then Some s
          else Some (s\<lparr>st_data := overwrite (st_data s) 0 (replicate (st_num s) None),
                       st_num := 0, st_sorted := False\<rparr>))"

definition sk_value :: "'a stack option \<Rightarrow> nat \<Rightarrow> 'a ptr" where
  "sk_value sk i =
     (case sk of None \<Rightarrow> None | Some s \<Rightarrow> if i \<ge> st_num s then None else st_data s ! i)"

definition sk_set :: "'a stack option \<Rightarrow> nat \<Rightarrow> 'a ptr \<Rightarrow> 'a ptr \<times> 'a stack option" where
  "sk_set sk i v =
     (case sk of
        None \<Rightarrow> (None, None)
      | Some s \<Rightarrow>
          if i \<ge> st_num s then (None, Some s)
          else (v, Some (s\<lparr>st_data := (st_data s)[i := v]\<rparr>)))"

text \<open>\<open>sk_pop_free\<close> gives back the pointers it passes to \<open>func\<close>, in order.\<close>

definition sk_pop_free :: "'a stack option \<Rightarrow> 'a list" where
  "sk_pop_free sk =
     (case sk of None \<Rightarrow> [] | Some s \<Rightarrow> List.map_filter id (take (st_num s) (st_data s)))"

text \<open>\<open>sk_insert\<close> first makes room, then moves the tail up.\<close>

definition sk_make_room :: "'a stack_env \<Rightarrow> 'a stack \<Rightarrow> 'a stack option" where
  "sk_make_room e s =
     (if st_num_alloc s \<le> size_add (st_num s) 1 then
        (let doubled = size_mul (st_num_alloc s) 2;
             (new_alloc, alloc_size) =
               (if doubled < st_num_alloc s \<or> size_mul doubled 8 div 8 \<noteq> doubled
                then (size_add (st_num_alloc s) 1, size_mul (size_add (st_num_alloc s) 1) 8)
                else (doubled, size_mul doubled 8))
         in if new_alloc < st_num_alloc s \<or> alloc_size div 8 \<noteq> new_alloc then None
            else map_option (\<lambda>data. s\<lparr>st_data := data, st_num_alloc := new_alloc\<rparr>)
                   (ptr_realloc e (st_data s) alloc_size))
      else Some s)"

definition sk_insert :: "'a stack_env \<Rightarrow> 'a stack option \<Rightarrow> 'a ptr \<Rightarrow> nat \<Rightarrow> nat \<times> 'a stack option" where
  "sk_insert e sk p at =
     (case sk of
        None \<Rightarrow> (0, None)
      | Some s \<Rightarrow>
          (case sk_make_room e s of
             None \<Rightarrow> (0, Some s)
           | Some s1 \<Rightarrow>
               (let n = st_num s1; data = st_data s1;
                    data' = (if at \<ge> n then data[n := p]
                             else (overwrite data (at + 1) (take (n - at) (drop at data)))[at := p])
                in (size_add n 1, Some (s1\<lparr>st_data := data', st_num := size_add n 1, st_sorted := False\<rparr>)))))"

definition sk_delete :: "'a stack option \<Rightarrow> nat \<Rightarrow> 'a ptr \<times> 'a stack option" where
  "sk_delete sk at =
     (case sk of
        None \<Rightarrow> (None, None)
      | Some s \<Rightarrow>
          if at \<ge> st_num s then (None, Some s)
          else (st_data s ! at,
                Some (s\<lparr>st_data :=
                          (if at \<noteq> st_num s - 1
                           then overwrite (st_data s) at
                                  (take (st_num s - at - 1) (drop (at + 1) (st_data s)))
                           else st_data s),
                        st_num := st_num s - 1\<rparr>)))"

text \<open>Linear search for a pointer, the loop of \<open>sk_delete_ptr\<close> and \<open>sk_find\<close>.\<close>

fun ptr_index :: "'a ptr list \<Rightarrow> 'a ptr \<Rightarrow> nat \<Rightarrow> nat option" where
  "ptr_index (q # data) p i = (if q = p then Some i else ptr_index data p (Suc i))"
| "ptr_index [] p i = None"

definition sk_delete_ptr :: "'a stack option \<Rightarrow> 'a ptr \<Rightarrow> 'a ptr \<times> 'a stack option" where
  "sk_delete_ptr sk p =
     (case sk of
        None \<Rightarrow> (None, None)
      | Some s \<Rightarrow>
          (case ptr_index (take (st_num s) (st_data s)) p 0 of
             None \<Rightarrow> (None, Some s)
           | Some i \<Rightarrow> sk_delete sk i))"

definition sk_sort :: "'a stack_env \<Rightarrow> 'a stack option \<Rightarrow> 'a stack option" where
  "sk_sort e sk =
     (case sk of
        None \<Rightarrow> None
      | Some s \<Rightarrow>
          (case st_comp s of
             None \<Rightarrow> Some s
           | Some cmp \<Rightarrow>
               if st_sorted s then Some s
               else Some (s\<lparr>st_data := se_qsort e (se_cmp e cmp) (take (st_num s) (st_data s))
                                       @ drop (st_num s) (st_data s),
                            st_sorted := True\<rparr>)))"

text \<open>The loop that walks back from the element \<open>bsearch\<close> found to the first equal one.\<close>

fun sk_first_equal :: "('a ptr \<Rightarrow> 'a ptr \<Rightarrow> int) \<Rightarrow> 'a ptr \<Rightarrow> 'a ptr list \<Rightarrow> nat \<Rightarrow> nat" where
  "sk_first_equal cmp p data 0 = 0"
| "sk_first_equal cmp p data (Suc idx) =
     (if cmp p (data ! idx) = 0 then sk_first_equal cmp p data idx else Suc idx)"

definition sk_find :: "'a stack_env \<Rightarrow> 'a stack option \<Rightarrow> 'a ptr \<Rightarrow> nat option \<times> 'a stack option" where
  "sk_find e sk p =
     (case sk of
        None \<Rightarrow> (None, None)
      | Some s0 \<Rightarrow>
          (case st_comp s0 of
             None \<Rightarrow> (ptr_index (take (st_num s0) (st_data s0)) p 0, Some s0)
           | Some cmp \<Rightarrow>
               if p = None then (None, Some s0)
               else
                 (case sk_sort e (Some s0) of
                    None \<Rightarrow> (None, None)
                  | Some s \<Rightarrow>
                      (case se_bsearch e (se_cmp e cmp) p (take (st_num s) (st_data s)) of
                         None \<Rightarrow> (None, Some s)
                       | Some r \<Rightarrow> (Some (sk_first_equal (se_cmp e cmp) p (st_data s) r), Some s)))))"

definition sk_shift :: "'a stack option \<Rightarrow> 'a ptr \<times> 'a stack option" where
  "sk_shift sk =
     (case sk of
        None \<Rightarrow> (None, None)
      | Some s \<Rightarrow> if st_num s = 0 then (None, Some s) else sk_delete sk 0)"

definition sk_push :: "'a stack_env \<Rightarrow> 'a stack option \<Rightarrow> 'a ptr \<Rightarrow> nat \<times> 'a stack option" where
  "sk_push e sk p = sk_insert e sk p (sk_num sk)"

definition sk_pop :: "'a stack option \<Rightarrow> 'a ptr \<times> 'a stack option" where
  "sk_pop sk =
     (case sk of
        None \<Rightarrow> (None, None)
      | Some s \<Rightarrow> if st_num s = 0 then (None, Some s) else sk_delete sk (st_num s - 1))"

definition sk_dup :: "'a stack_env \<Rightarrow> 'a stack option \<Rightarrow> 'a stack option" where
  "sk_dup e sk =
     (case sk of
        None \<Rightarrow> None
      | Some s \<Rightarrow>
          (case sk_new e (st_comp s) of
             None \<Rightarrow> None
           | Some ret \<Rightarrow>
               (case ptr_realloc e (st_data ret) (size_mul 8 (st_num_alloc s)) of
                  None \<Rightarrow> None
                | Some data \<Rightarrow>
                    Some \<lparr>st_num = st_num s,
                          st_data = overwrite data 0 (take (st_num s) (st_data s)),
                          st_sorted = st_sorted s, st_num_alloc = st_num_alloc s,
                          st_comp = st_comp s\<rparr>)))"

definition sk_is_sorted :: "'a stack option \<Rightarrow> bool" where
  "sk_is_sorted sk = (case sk of None \<Rightarrow> True | Some s \<Rightarrow> st_sorted s)"

definition sk_set_cmp_func :: "'a stack \<Rightarrow> nat option \<Rightarrow> nat option \<times> 'a stack" where
  "sk_set_cmp_func s cmp =
     (st_comp s,
      (if st_comp s \<noteq> cmp then s\<lparr>st_sorted := False\<rparr> else s)\<lparr>st_comp := cmp\<rparr>)"

text \<open>The loop of \<open>sk_deep_copy\<close>: \<open>Inl\<close> lists the copies passed to \<open>free_func\<close> when one
  copy fails, \<open>Inr\<close> is the array of copies.\<close>

fun deep_copy_loop :: "('a \<Rightarrow> 'a ptr) \<Rightarrow> 'a ptr list \<Rightarrow> 'a ptr list \<Rightarrow> 'a list + 'a ptr list" where
  "deep_copy_loop copy copied [] = Inr copied"
| "deep_copy_loop copy copied (None # ps) = deep_copy_loop copy (copied @ [None]) ps"
| "deep_copy_loop copy copied (Some x # ps) =
     (case copy x of
        None \<Rightarrow> Inl (List.map_filter id copied)
      | Some y \<Rightarrow> deep_copy_loop copy (copied @ [Some y]) ps)"

definition sk_deep_copy ::
    "'a stack_env \<Rightarrow> 'a stack option \<Rightarrow> ('a \<Rightarrow> 'a ptr) \<Rightarrow> 'a list + 'a stack" where
  "sk_deep_copy e sk copy =
     (case sk_dup e sk of
        None \<Rightarrow> Inl []
      | Some ret \<Rightarrow>
          (case deep_copy_loop copy [] (take (st_num ret) (st_data ret)) of
             Inl freed \<Rightarrow> Inl freed
           | Inr data \<Rightarrow> Inr (ret\<lparr>st_data := overwrite (st_data ret) 0 data\<rparr>)))"

section \<open>The stack as a list\<close>

definition sk_items :: "'a stack \<Rightarrow> 'a ptr list" where
  "sk_items s = take (st_num s) (st_data s)"

text \<open>There is always a free slot, the array has the recorded size, and the allocator served
  it.\<close>

definition stack_wf :: "'a stack \<Rightarrow> bool" where
  "stack_wf s \<longleftrightarrow> st_num s < st_num_alloc s \<and> length (st_data s) = st_num_alloc s
     \<and> 8 * st_num_alloc s + OPENSSL_MALLOC_PREFIX \<le> 9223372036854775807"

lemma length_sk_items: "stack_wf s \<Longrightarrow> length (sk_items s) = st_num s"
  by (simp add: sk_items_def stack_wf_def)

lemma sk_items_nth: "stack_wf s \<Longrightarrow> i < st_num s \<Longrightarrow> sk_items s ! i = st_data s ! i"
  by (simp add: sk_items_def)

lemma ptr_malloc_length:
  assumes "ptr_malloc e (8 * n) = Some d" and "8 * n + OPENSSL_MALLOC_PREFIX \<le> SIZE_MAX"
  shows "length d = n"
  using assms OPENSSL_malloc_size [of "se_mem e" "8 * n"] by (auto simp: ptr_malloc_def)

lemma ptr_malloc_sane:
  assumes "malloc_sane (se_mem e)" and "ptr_malloc e (8 * n) = Some d"
    and "8 * n + OPENSSL_MALLOC_PREFIX \<le> SIZE_MAX"
  shows "8 * n + OPENSSL_MALLOC_PREFIX \<le> 9223372036854775807"
  using assms OPENSSL_malloc_Some_iff [of "8 * n" "se_mem e"] by (auto simp: ptr_malloc_def malloc_sane_def)

lemma sk_make_room_ok:
  assumes wf: "stack_wf s" and sane: "malloc_sane (se_mem e)" and room: "sk_make_room e s = Some s1"
  shows "stack_wf s1 \<and> Suc (st_num s1) < st_num_alloc s1 \<and> st_num s1 = st_num s
    \<and> sk_items s1 = sk_items s \<and> st_comp s1 = st_comp s \<and> st_sorted s1 = st_sorted s"
proof -
  let ?n = "st_num s" and ?a = "st_num_alloc s"
  have bounds: "?n < ?a" "length (st_data s) = ?a" "8 * ?a + 8 \<le> 9223372036854775807"
    using wf by (simp_all add: stack_wf_def OPENSSL_MALLOC_PREFIX_def)
  have arith: "size_add ?n (Suc 0) = Suc ?n" "size_mul ?a 2 = 2 * ?a" "size_mul (2 * ?a) 8 = 8 * (2 * ?a)"
    using bounds by (simp_all add: size_simps SIZE_MAX_def)
  show ?thesis
  proof (cases "?a \<le> Suc ?n")
    case False
    then show ?thesis using room wf arith by (simp add: sk_make_room_def)
  next
    case True
    obtain ret where ret: "ptr_malloc e (8 * (2 * ?a)) = Some ret"
      and s1: "s1 = s\<lparr>st_data := take (8 * (2 * ?a) div 8) (st_data s) @ drop ?a ret, st_num_alloc := 2 * ?a\<rparr>"
      using room True by (auto simp: sk_make_room_def arith Let_def ptr_realloc_def bounds)
    have fits: "8 * (2 * ?a) + OPENSSL_MALLOC_PREFIX \<le> SIZE_MAX"
      using bounds by (simp add: OPENSSL_MALLOC_PREFIX_def SIZE_MAX_def)
    have "length ret = 2 * ?a" "8 * (2 * ?a) + OPENSSL_MALLOC_PREFIX \<le> 9223372036854775807"
      using ptr_malloc_length [OF ret fits] ptr_malloc_sane [OF sane ret fits] by simp_all
    with bounds show ?thesis by (simp add: s1 stack_wf_def sk_items_def)
  qed
qed

lemma sk_insert_ok:
  assumes wf: "stack_wf s" and sane: "malloc_sane (se_mem e)"
    and ins: "sk_insert e (Some s) p i = (n, sk')" and ok: "n \<noteq> 0"
  shows "\<exists>s'. sk' = Some s' \<and> n = Suc (st_num s) \<and> stack_wf s'
    \<and> sk_items s' = take i (sk_items s) @ p # drop i (sk_items s)
    \<and> st_comp s' = st_comp s \<and> \<not> st_sorted s'"
proof -
  obtain s1 where room: "sk_make_room e s = Some s1"
    using ins ok by (auto simp: sk_insert_def split: option.splits)
  note r = sk_make_room_ok [OF wf sane room]
  let ?n = "st_num s1" and ?d = "st_data s1"
  have b: "Suc ?n < st_num_alloc s1" "length ?d = st_num_alloc s1" "8 * st_num_alloc s1 \<le> SIZE_MAX"
    using r by (auto simp: stack_wf_def SIZE_MAX_def)
  then have n1: "size_add ?n (Suc 0) = Suc ?n" by (simp add: size_simps)
  have "sk_items s = sk_items s1" using r by simp
  then have items: "sk_items s = take ?n ?d" by (simp only: sk_items_def)
  show ?thesis
  proof (cases "i \<ge> ?n")
    case True
    then have res: "n = Suc ?n" "sk' = Some (s1\<lparr>st_data := ?d[?n := p], st_num := Suc ?n, st_sorted := False\<rparr>)"
      using ins room by (auto simp: sk_insert_def Let_def n1)
    have "take (Suc ?n) (?d[?n := p]) = take ?n ?d @ [p]"
      using b by (simp add: take_Suc_conv_app_nth)
    with res b r True show ?thesis by (simp add: items) (simp add: sk_items_def stack_wf_def)
  next
    case False
    let ?w = "(overwrite ?d (Suc i) (take (?n - i) (drop i ?d)))[i := p]"
    have res: "n = Suc ?n" "sk' = Some (s1\<lparr>st_data := ?w, st_num := Suc ?n, st_sorted := False\<rparr>)"
      using ins room False by (auto simp: sk_insert_def Let_def n1)
    have i: "i < ?n" using False by simp
    then have "?w = take i ?d @ p # take (?n - i) (drop i ?d) @ drop (Suc ?n) ?d"
      using b by (simp add: overwrite_def take_Suc_conv_app_nth list_update_append min_def)
    then have "length ?w = length ?d" "take (Suc ?n) ?w = take i (take ?n ?d) @ p # drop i (take ?n ?d)"
      using b i by (simp_all add: min_def take_drop Suc_diff_le)
    with res b r show ?thesis by (simp add: items) (simp add: sk_items_def stack_wf_def)
  qed
qed

lemma sk_insert_fail: "stack_wf s \<Longrightarrow> sk_insert e (Some s) p i = (0, sk') \<Longrightarrow> malloc_sane (se_mem e) \<Longrightarrow> sk' = Some s"
  using sk_make_room_ok [of s e]
  by (auto simp: sk_insert_def size_add_exact stack_wf_def SIZE_MAX_def OPENSSL_MALLOC_PREFIX_def Let_def
      split: option.splits)

lemma sk_delete_ok:
  assumes wf: "stack_wf s" and i: "i < st_num s"
  shows "\<exists>s'. sk_delete (Some s) i = (sk_items s ! i, Some s') \<and> stack_wf s'
    \<and> sk_items s' = take i (sk_items s) @ drop (Suc i) (sk_items s)
    \<and> st_num s' = st_num s - 1 \<and> st_comp s' = st_comp s \<and> st_sorted s' = st_sorted s"
proof -
  let ?n = "st_num s" and ?d = "st_data s"
  have b: "?n < length ?d" "length ?d = st_num_alloc s" using wf by (simp_all add: stack_wf_def)
  show ?thesis
  proof (cases "i = ?n - 1")
    case True
    then have "min i ?n = i" "min (?n - 1) ?n = i" "Suc i = ?n" using i by auto
    with True show ?thesis using wf i b by (auto simp: sk_delete_def stack_wf_def sk_items_def)
  next
    case False
    let ?w = "overwrite ?d i (take (?n - i - 1) (drop (i + 1) ?d))"
    have "take (?n - 1) ?w = take i (take ?n ?d) @ drop (Suc i) (take ?n ?d)"
      using b i False by (cases "Suc i < ?n") (simp_all add: overwrite_def take_drop)
    moreover have "length ?w = length ?d" using b i by (simp add: length_overwrite)
    ultimately show ?thesis using wf i b False by (auto simp: sk_delete_def stack_wf_def sk_items_def)
  qed
qed

text \<open>The other operations.\<close>

lemma sk_new_ok:
  assumes "sk_new e cmp = Some s" and "malloc_sane (se_mem e)"
  shows "stack_wf s \<and> sk_items s = [] \<and> st_comp s = cmp \<and> \<not> st_sorted s \<and> st_num_alloc s = 4"
proof -
  obtain d where d: "ptr_malloc e (8 * 4) = Some d" and s: "s = \<lparr>st_num = 0,
      st_data = overwrite d 0 (replicate 4 None), st_sorted = False, st_num_alloc = 4, st_comp = cmp\<rparr>"
    using assms by (auto simp: sk_new_def kMinSize_def split: option.splits)
  have "length d = 4" using ptr_malloc_length [OF d] by (simp add: OPENSSL_MALLOC_PREFIX_def SIZE_MAX_def)
  then show ?thesis by (simp add: s stack_wf_def sk_items_def OPENSSL_MALLOC_PREFIX_def)
qed

lemma sk_dup_ok:
  assumes dup: "sk_dup e (Some s) = Some s'" and wf: "stack_wf s" and sane: "malloc_sane (se_mem e)"
  shows "stack_wf s' \<and> sk_items s' = sk_items s \<and> st_comp s' = st_comp s \<and> st_sorted s' = st_sorted s"
proof -
  let ?a = "st_num_alloc s"
  have b: "st_num s < ?a" "length (st_data s) = ?a" "8 * ?a + 8 \<le> 9223372036854775807"
    using wf by (simp_all add: stack_wf_def OPENSSL_MALLOC_PREFIX_def)
  then have m: "size_mul 8 ?a = 8 * ?a" by (simp add: size_simps SIZE_MAX_def)
  obtain r data where new: "sk_new e (st_comp s) = Some r"
    and d: "ptr_realloc e (st_data r) (8 * ?a) = Some data"
    and s': "s' = \<lparr>st_num = st_num s, st_data = overwrite data 0 (sk_items s),
      st_sorted = st_sorted s, st_num_alloc = ?a, st_comp = st_comp s\<rparr>"
    using dup by (auto simp: sk_dup_def m sk_items_def split: option.splits)
  obtain ret where "ptr_malloc e (8 * ?a) = Some ret" "data = take ?a (st_data r) @ drop (length (st_data r)) ret"
    using d by (auto simp: ptr_realloc_def)
  then have "length data = ?a"
    using ptr_malloc_length [of e ?a ret] b by (simp add: OPENSSL_MALLOC_PREFIX_def SIZE_MAX_def)
  then show ?thesis using b wf length_sk_items [OF wf]
    by (simp add: s' stack_wf_def) (simp add: sk_items_def overwrite_def)
qed

lemma sk_set_ok:
  assumes wf: "stack_wf s" and i: "i < st_num s"
  shows "sk_set (Some s) i v = (v, Some (s\<lparr>st_data := (st_data s)[i := v]\<rparr>))
    \<and> stack_wf (s\<lparr>st_data := (st_data s)[i := v]\<rparr>)
    \<and> sk_items (s\<lparr>st_data := (st_data s)[i := v]\<rparr>) = (sk_items s)[i := v]"
  using assms by (simp add: sk_set_def stack_wf_def sk_items_def take_update_swap)

lemma sk_value_items: "stack_wf s \<Longrightarrow> sk_value (Some s) i = (if i < length (sk_items s) then sk_items s ! i else None)"
  by (simp add: sk_value_def length_sk_items sk_items_nth)

lemma ptr_index_Some:
  "ptr_index xs p k = Some i \<longleftrightarrow> k \<le> i \<and> i < k + length xs \<and> xs ! (i - k) = p \<and> p \<notin> set (take (i - k) xs)"
proof (induction xs arbitrary: k)
  case (Cons x xs)
  show ?case
  proof (cases "i \<le> k")
    case True
    then show ?thesis using Cons by auto
  next
    case False
    then have "i - k = Suc (i - Suc k)" by simp
    then show ?thesis using Cons False by auto
  qed
qed simp

lemma ptr_index_None: "ptr_index xs p k = None \<longleftrightarrow> p \<notin> set xs"
  by (induction xs arbitrary: k) auto

text \<open>The stack with its environment is a growable sequence.\<close>

definition sk_good :: "'a stack_env \<times> 'a stack \<Rightarrow> bool" where
  "sk_good = (\<lambda>(e, s). malloc_sane (se_mem e) \<and> stack_wf s)"

definition sk_ins :: "'a stack_env \<times> 'a stack \<Rightarrow> 'a ptr \<Rightarrow> nat \<Rightarrow> ('a stack_env \<times> 'a stack) option" where
  "sk_ins = (\<lambda>(e, s) p i. case sk_insert e (Some s) p i of
     (n, sk') \<Rightarrow> if n = 0 then None else map_option (\<lambda>s'. (e, s')) sk')"

definition sk_del :: "'a stack_env \<times> 'a stack \<Rightarrow> nat \<Rightarrow> 'a ptr \<times> 'a stack_env \<times> 'a stack" where
  "sk_del = (\<lambda>(e, s) i. case sk_delete (Some s) i of
     (p, sk') \<Rightarrow> (p, e, case sk' of None \<Rightarrow> s | Some s' \<Rightarrow> s'))"

lemma sk_ins_Some:
  assumes "sk_good (e, s)" and "sk_ins (e, s) p i = Some es"
  shows "\<exists>s'. es = (e, s') \<and> sk_insert e (Some s) p i = (Suc (st_num s), Some s') \<and> stack_wf s'
    \<and> sk_items s' = take i (sk_items s) @ p # drop i (sk_items s)"
proof -
  obtain n sk' where ins: "sk_insert e (Some s) p i = (n, sk')" by force
  with assms have "n \<noteq> 0" by (auto simp: sk_ins_def split: if_splits)
  with sk_insert_ok [OF _ _ ins] assms ins show ?thesis by (auto simp: sk_good_def sk_ins_def)
qed

lemma sk_del_eq:
  assumes "sk_good (e, s)" and "i < length (sk_items s)"
  shows "\<exists>s'. sk_del (e, s) i = (sk_items s ! i, e, s') \<and> stack_wf s'
    \<and> sk_items s' = take i (sk_items s) @ drop (Suc i) (sk_items s)"
proof -
  have "stack_wf s" "i < st_num s" using assms by (auto simp: sk_good_def length_sk_items)
  from sk_delete_ok [OF this] show ?thesis by (auto simp: sk_del_def)
qed

interpretation sk: seq_store sk_good "\<lambda>es. sk_items (snd es)" sk_ins sk_del
proof (unfold_locales, goal_cases)
  case (1 es x i es')
  then show ?case using sk_ins_Some [of "fst es" "snd es" x i es'] by (auto simp: sk_good_def split_beta)
next
  case (2 es x i es')
  then show ?case using sk_ins_Some [of "fst es" "snd es" x i es'] by auto
next
  case (3 es i)
  then show ?case using sk_del_eq [of "fst es" "snd es" i] by (auto simp: sk_good_def split_beta)
next
  case (4 es i)
  then show ?case using sk_del_eq [of "fst es" "snd es" i] by auto
next
  case (5 es i)
  then show ?case using sk_del_eq [of "fst es" "snd es" i] by auto
qed

section \<open>Sorting and searching\<close>

text \<open>The \<open>sorted\<close> flag tells the truth.\<close>

definition sorted_flag_ok :: "'a stack_env \<Rightarrow> 'a stack \<Rightarrow> bool" where
  "sorted_flag_ok e s \<longleftrightarrow>
     (st_sorted s \<longrightarrow> (case st_comp s of None \<Rightarrow> True | Some c \<Rightarrow> cmp_sorted (se_cmp e c) (sk_items s)))"

lemma sorted_wrt_delete:
  assumes "sorted_wrt P xs"
  shows "sorted_wrt P (take i xs @ drop (Suc i) xs)"
proof (cases "i < length xs")
  case True
  then have "xs = take i xs @ xs ! i # drop (Suc i) xs" by (rule id_take_nth_drop)
  then have "sorted_wrt P (take i xs @ xs ! i # drop (Suc i) xs)" using assms by metis
  then show ?thesis by (auto simp: sorted_wrt_append)
next
  case False
  then show ?thesis using assms by simp
qed

lemma sk_sort_ok:
  assumes sorter: "c_sort_search (se_qsort e) (se_bsearch e)" and wf: "stack_wf s"
    and flag: "sorted_flag_ok e s" and c: "st_comp s = Some c"
    and order: "cmp_order (se_cmp e c) (set (sk_items s))"
  shows "\<exists>s'. sk_sort e (Some s) = Some s' \<and> stack_wf s' \<and> st_comp s' = Some c \<and> st_sorted s'
    \<and> mset (sk_items s') = mset (sk_items s) \<and> cmp_sorted (se_cmp e c) (sk_items s')"
proof (cases "st_sorted s")
  case True
  then show ?thesis using flag c wf by (auto simp: sk_sort_def sorted_flag_ok_def)
next
  case False
  have sort: "c_sort (se_qsort e)" using sorter by (simp add: c_sort_search_def)
  let ?xs = "se_qsort e (se_cmp e c) (sk_items s)"
  let ?s' = "s\<lparr>st_data := ?xs @ drop (st_num s) (st_data s), st_sorted := True\<rparr>"
  have l: "length ?xs = st_num s" using c_sort.qsort_length [OF sort order] wf by (simp add: length_sk_items)
  have "sk_sort e (Some s) = Some ?s'" using False c by (simp add: sk_sort_def sk_items_def)
  moreover have "sk_items ?s' = ?xs" using l by (simp add: sk_items_def)
  moreover have "stack_wf ?s'" using wf l by (auto simp: stack_wf_def)
  ultimately show ?thesis
    using c_sort.qsort_mset [OF sort order] c_sort.qsort_sorted [OF sort order] c by auto
qed

lemma sk_first_equal_ok:
  assumes "cmp p (data ! r) = 0"
  shows "sk_first_equal cmp p data r \<le> r \<and> cmp p (data ! sk_first_equal cmp p data r) = 0
    \<and> (\<forall>j. Suc j = sk_first_equal cmp p data r \<longrightarrow> cmp p (data ! j) \<noteq> 0)"
  using assms
proof (induction r)
  case (Suc r)
  then show ?case by (cases "cmp p (data ! r) = 0") auto
qed simp

text \<open>Below the element before the first of a run of equal ones, nothing is equal.\<close>

lemma partitioned_first:
  assumes p: "cmp_partitioned cmp key xs" and i: "i < length xs" "cmp key (xs ! i) = 0"
    and before: "\<And>j. Suc j = i \<Longrightarrow> cmp key (xs ! j) \<noteq> 0" and j: "j < i"
  shows "cmp key (xs ! j) \<noteq> 0"
proof -
  have part: "(cmp key (xs ! j) \<le> 0 \<longrightarrow> cmp key (xs ! k) \<le> 0) \<and> (cmp key (xs ! j) < 0 \<longrightarrow> cmp key (xs ! k) < 0)"
    if "j < k" "k < length xs" for j k
    using p that by (auto simp: cmp_partitioned_def sorted_wrt_iff_nth_less)
  obtain k where k: "i = Suc k" using j by (cases i) auto
  have "\<not> cmp key (xs ! k) < 0" using part [of k i] i k by auto
  then have "0 < cmp key (xs ! k)" using before k by (cases "cmp key (xs ! k)" "0::int" rule: linorder_cases) auto
  then show ?thesis using part [of j k] i j k by (cases "j = k") auto
qed

lemma sk_find_ok:
  assumes sorter: "c_sort_search (se_qsort e) (se_bsearch e)" and wf: "stack_wf s"
    and flag: "sorted_flag_ok e s" and c: "st_comp s = Some c" and p: "p \<noteq> None"
    and order: "cmp_order (se_cmp e c) (insert p (set (sk_items s)))"
  shows "\<exists>r s'. sk_find e (Some s) p = (r, Some s') \<and> stack_wf s' \<and> st_comp s' = Some c \<and> st_sorted s'
    \<and> mset (sk_items s') = mset (sk_items s) \<and> cmp_sorted (se_cmp e c) (sk_items s')
    \<and> (case r of None \<Rightarrow> \<forall>q\<in>set (sk_items s'). se_cmp e c p q \<noteq> 0
       | Some i \<Rightarrow> i < st_num s' \<and> se_cmp e c p (sk_items s' ! i) = 0
           \<and> (\<forall>j<i. se_cmp e c p (sk_items s' ! j) \<noteq> 0))"
proof -
  let ?cmp = "se_cmp e c"
  have "cmp_order ?cmp (set (sk_items s))" using order by (rule cmp_order_subset) auto
  from sk_sort_ok [OF sorter wf flag c this] obtain s' where s': "sk_sort e (Some s) = Some s'"
    "stack_wf s'" "st_comp s' = Some c" "st_sorted s'" "mset (sk_items s') = mset (sk_items s)"
    "cmp_sorted ?cmp (sk_items s')" by auto
  have search: "c_search (se_bsearch e)" using sorter by (simp add: c_sort_search_def)
  have "set (sk_items s') = set (sk_items s)" using s'(5) by (metis set_mset_mset)
  then have part: "cmp_partitioned ?cmp p (sk_items s')"
    using cmp_sorted_partitioned [OF _ s'(6)] order by simp
  show ?thesis
  proof (cases "se_bsearch e ?cmp p (sk_items s')")
    case None
    then have "sk_find e (Some s) p = (None, Some s')"
      using s'(1) c p by (auto simp: sk_find_def sk_items_def)
    with s' c_search.bsearch_None [OF search part None] show ?thesis by auto
  next
    case (Some r)
    let ?i = "sk_first_equal ?cmp p (st_data s') r"
    have r: "r < st_num s'" "?cmp p (sk_items s' ! r) = 0"
      using c_search.bsearch_Some [OF search part Some] length_sk_items [OF s'(2)] by auto
    then have "?cmp p (st_data s' ! r) = 0" by (simp add: sk_items_nth [OF s'(2)])
    note i = sk_first_equal_ok [of ?cmp p "st_data s'" r, OF this]
    have lt: "?i < st_num s'" using i r by simp
    have eq: "?cmp p (sk_items s' ! ?i) = 0" using i lt by (simp add: sk_items_nth [OF s'(2)])
    have "\<forall>j<?i. ?cmp p (sk_items s' ! j) \<noteq> 0"
      using partitioned_first [OF part _ eq] i lt length_sk_items [OF s'(2)] sk_items_nth [OF s'(2)] by auto
    moreover have "sk_find e (Some s) p = (Some ?i, Some s')" using s'(1) c p Some
      by (auto simp: sk_find_def sk_items_def)
    ultimately show ?thesis using s' lt eq by auto
  qed
qed

lemma deep_copy_loop_Inr:
  "deep_copy_loop copy copied ps = Inr qs \<longleftrightarrow>
     (\<forall>x. Some x \<in> set ps \<longrightarrow> copy x \<noteq> None) \<and> qs = copied @ map (\<lambda>p. Option.bind p copy) ps"
  by (induction copy copied ps rule: deep_copy_loop.induct) (auto split: option.splits)

lemma deep_copy_loop_Inl:
  "deep_copy_loop copy copied ps = Inl freed \<Longrightarrow>
     \<exists>as x bs. ps = as @ Some x # bs \<and> copy x = None
       \<and> freed = List.map_filter id copied @ List.map_filter (\<lambda>p. Option.bind p copy) as"
proof (induction copy copied ps rule: deep_copy_loop.induct)
  case (2 copy copied ps)
  then obtain as x bs where "ps = as @ Some x # bs \<and> copy x = None
    \<and> freed = List.map_filter id copied @ List.map_filter (\<lambda>p. Option.bind p copy) as"
    by (auto simp: map_filter_def)
  then show ?case by (intro exI [of _ "None # as"] exI [of _ x] exI [of _ bs]) (simp add: map_filter_def)
next
  case (3 copy copied x ps)
  show ?case
  proof (cases "copy x")
    case None
    with 3 show ?thesis
      by (intro exI [of "\<lambda>as. \<exists>x bs. _ as x bs" "[]"] exI [of _ x] exI [of _ ps])
        (simp add: map_filter_def comp_def)
  next
    case (Some y)
    with "3.prems" have "deep_copy_loop copy (copied @ [Some y]) ps = Inl freed" by simp
    from "3.IH" [OF Some this] obtain as z bs where "ps = as @ Some z # bs \<and> copy z = None
      \<and> freed = List.map_filter id (copied @ [Some y]) @ List.map_filter (\<lambda>p. Option.bind p copy) as"
      by blast
    with Some show ?thesis
      by (intro exI [of _ "Some x # as"] exI [of _ z] exI [of _ bs]) (simp add: map_filter_def)
  qed
qed simp

lemma sk_deep_copy_Inr:
  assumes "sk_deep_copy e (Some s) copy = Inr s'" and wf: "stack_wf s" and sane: "malloc_sane (se_mem e)"
  shows "stack_wf s' \<and> sk_items s' = map (\<lambda>p. Option.bind p copy) (sk_items s)
    \<and> st_comp s' = st_comp s \<and> st_sorted s' = st_sorted s"
proof -
  obtain r where r: "sk_dup e (Some s) = Some r"
    "deep_copy_loop copy [] (sk_items r) = Inr (map (\<lambda>p. Option.bind p copy) (sk_items r))"
    "s' = r\<lparr>st_data := overwrite (st_data r) 0 (map (\<lambda>p. Option.bind p copy) (sk_items r))\<rparr>"
    using assms(1) by (auto simp: sk_deep_copy_def deep_copy_loop_Inr sk_items_def
        split: option.splits sum.splits)
  note d = sk_dup_ok [OF r(1) wf sane]
  then have "length (sk_items r) = st_num r" using length_sk_items [of r] by simp
  with d show ?thesis
    by (simp add: r(3) stack_wf_def length_overwrite) (simp add: sk_items_def overwrite_def)
qed

text \<open>When a copy fails, the copies made so far are what is freed.\<close>

lemma sk_deep_copy_Inl:
  assumes "sk_deep_copy e (Some s) copy = Inl freed" and wf: "stack_wf s" and sane: "malloc_sane (se_mem e)"
  shows "sk_dup e (Some s) = None \<and> freed = []
    \<or> (\<exists>as x bs. sk_items s = as @ Some x # bs \<and> copy x = None
        \<and> freed = List.map_filter (\<lambda>p. Option.bind p copy) as)"
proof (cases "sk_dup e (Some s)")
  case None
  then show ?thesis using assms(1) by (simp add: sk_deep_copy_def)
next
  case (Some r)
  then have "deep_copy_loop copy [] (sk_items r) = Inl freed"
    using assms(1) by (auto simp: sk_deep_copy_def sk_items_def split: sum.splits)
  from deep_copy_loop_Inl [OF this] sk_dup_ok [OF Some wf sane] show ?thesis by (simp add: map_filter_def)
qed

text \<open>The four operations a client composes from insertion and deletion.\<close>

lemma sk_push_ok:
  fixes e :: "'a stack_env" and s :: "'a stack"
  assumes "stack_wf s" and "malloc_sane (se_mem e)"
  shows "case sk_push e (Some s) p of (n, sk') \<Rightarrow>
        if n = 0 then sk' = Some s
        else \<exists>s'. sk' = Some s' \<and> n = Suc (st_num s) \<and> stack_wf s' \<and> sk_items s' = sk_items s @ [p]"
proof -
  have good: "sk_good (e, s)" using assms by (simp add: sk_good_def)
  obtain n sk' where ins: "sk_push e (Some s) p = (n, sk')" by (rule prod.exhaust)
  then have i: "sk_insert e (Some s) p (length (sk_items s)) = (n, sk')"
    by (simp add: sk_push_def sk_num_def length_sk_items [OF assms(1)])
  show ?thesis
  proof (cases "n = 0")
    case True
    with i sk_insert_fail [OF assms(1) _ assms(2), of p "length (sk_items s)" sk'] ins show ?thesis by simp
  next
    case False
    with sk_insert_ok [OF assms i] obtain s' where s': "sk' = Some s'" "n = Suc (st_num s)" by auto
    then have "sk_ins (e, s) p (length (sk_items s)) = Some (e, s')" using i by (simp add: sk_ins_def)
    with sk.push_last [OF good, of p "(e, s')"] s' ins show ?thesis by (simp add: sk_good_def)
  qed
qed

lemma sk_del_Some:
  assumes "stack_wf s" and "i < length (sk_items s)"
  shows "\<exists>q s'. sk_delete (Some s) i = (q, Some s') \<and> sk_del (e, s) i = (q, e, s')"
  using sk_delete_ok [OF assms(1), of i] assms by (auto simp: length_sk_items sk_del_def)

lemma sk_pop_ok:
  fixes e :: "'a stack_env" and s :: "'a stack"
  assumes "stack_wf s" and "malloc_sane (se_mem e)"
  shows "if sk_items s = [] then sk_pop (Some s) = (None, Some s)
       else \<exists>s'. sk_pop (Some s) = (last (sk_items s), Some s') \<and> stack_wf s' \<and> sk_items s' = butlast (sk_items s)"
proof -
  have good: "sk_good (e, s)" using assms by (simp add: sk_good_def)
  have l: "st_num s = length (sk_items s)" using length_sk_items [OF assms(1)] by simp
  have "\<exists>s'. sk_pop (Some s) = (last (sk_items s), Some s') \<and> stack_wf s' \<and> sk_items s' = butlast (sk_items s)"
    if ne: "sk_items s \<noteq> []"
  proof -
    have "length (sk_items s) - 1 < length (sk_items s)" using ne by simp
    from sk_del_Some [OF assms(1) this, of e] obtain q s' where
      d: "sk_delete (Some s) (length (sk_items s) - 1) = (q, Some s')"
      "sk_del (e, s) (length (sk_items s) - 1) = (q, e, s')" by blast
    with sk.pop_last [OF good, of q "(e, s')"] ne l show ?thesis by (simp add: sk_pop_def sk_good_def)
  qed
  then show ?thesis using l by (simp add: sk_pop_def)
qed

lemma sk_shift_ok:
  fixes e :: "'a stack_env" and s :: "'a stack"
  assumes "stack_wf s" and "malloc_sane (se_mem e)"
  shows "if sk_items s = [] then sk_shift (Some s) = (None, Some s)
       else \<exists>s'. sk_shift (Some s) = (hd (sk_items s), Some s') \<and> stack_wf s' \<and> sk_items s' = tl (sk_items s)"
proof -
  have good: "sk_good (e, s)" using assms by (simp add: sk_good_def)
  have l: "st_num s = length (sk_items s)" using length_sk_items [OF assms(1)] by simp
  have "\<exists>s'. sk_shift (Some s) = (hd (sk_items s), Some s') \<and> stack_wf s' \<and> sk_items s' = tl (sk_items s)"
    if ne: "sk_items s \<noteq> []"
  proof -
    have "0 < length (sk_items s)" using ne by simp
    from sk_del_Some [OF assms(1) this, of e] obtain q s' where
      d: "sk_delete (Some s) 0 = (q, Some s')" "sk_del (e, s) 0 = (q, e, s')" by blast
    with sk.shift_first [OF good, of q "(e, s')"] ne l show ?thesis by (simp add: sk_shift_def sk_good_def)
  qed
  then show ?thesis using l by (simp add: sk_shift_def)
qed

lemma sk_delete_ptr_ok:
  fixes e :: "'a stack_env" and s :: "'a stack"
  assumes "stack_wf s" and "malloc_sane (se_mem e)"
  shows "if p \<in> set (sk_items s)
       then \<exists>s'. sk_delete_ptr (Some s) p = (p, Some s') \<and> stack_wf s' \<and> sk_items s' = remove1 p (sk_items s)
       else sk_delete_ptr (Some s) p = (None, Some s)"
proof (cases "ptr_index (sk_items s) p 0")
  case None
  then have "p \<notin> set (sk_items s)" by (rule ptr_index_None [THEN iffD1])
  with None show ?thesis by (simp add: sk_delete_ptr_def sk_items_def [symmetric])
next
  case (Some i)
  have good: "sk_good (e, s)" using assms by (simp add: sk_good_def)
  from Some have i: "i < length (sk_items s)" "sk_items s ! i = p" "p \<notin> set (take i (sk_items s))"
    by (simp_all add: ptr_index_Some)
  from sk_del_Some [OF assms(1) i(1), of e] obtain q s' where
    d: "sk_delete (Some s) i = (q, Some s')" "sk_del (e, s) i = (q, e, s')" by blast
  have "p \<in> set (sk_items s)" using i(1,2) by (metis nth_mem)
  with sk.del_first [OF good, of i p q "(e, s')"] i d Some show ?thesis
    by (simp add: sk_delete_ptr_def sk_items_def [symmetric] sk_good_def)
qed

section \<open>Properties\<close>

text \<open>C32: the stack is a list. On a well-formed stack each operation does to the pointers in
  use what it names, for every index and pointer: a new stack is empty, insertion at or
  beyond the end appends, as a push does, a refused allocation leaves the stack as it was,
  deletion closes the gap, pop takes the last pointer, shift the first and \<open>sk_delete_ptr\<close>
  the first occurrence of the one given, out-of-range accesses give NULL and change
  nothing, and copies hold the same pointers or their copies; a deep copy that fails frees
  the copies it had made. Each leaves the stack well-formed, so there is always room for
  the slot \<open>sk_insert\<close> writes. \<open>sk_sort\<close> and \<open>sk_find\<close> depend on the order and have
  their own theorems.\<close>

theorem sk_operations_list:
  assumes "stack_wf s" and "malloc_sane (se_mem e)"
  shows "(\<forall>s'. sk_new e cmp = Some s' \<longrightarrow> stack_wf s' \<and> sk_items s' = [] \<and> st_comp s' = cmp)
    \<and> (\<forall>s'. sk_new_null e = Some s' \<longrightarrow> stack_wf s' \<and> sk_items s' = [] \<and> st_comp s' = None)
    \<and> (case sk_insert e (Some s) p i of (n, sk') \<Rightarrow>
        if n = 0 then sk' = Some s
        else \<exists>s'. sk' = Some s' \<and> n = Suc (st_num s) \<and> stack_wf s'
          \<and> sk_items s' = take i (sk_items s) @ p # drop i (sk_items s))
    \<and> (case sk_push e (Some s) p of (n, sk') \<Rightarrow>
        if n = 0 then sk' = Some s
        else \<exists>s'. sk' = Some s' \<and> n = Suc (st_num s) \<and> stack_wf s' \<and> sk_items s' = sk_items s @ [p])
    \<and> (if i < length (sk_items s)
       then \<exists>s'. sk_delete (Some s) i = (sk_items s ! i, Some s') \<and> stack_wf s'
          \<and> sk_items s' = take i (sk_items s) @ drop (Suc i) (sk_items s)
       else sk_delete (Some s) i = (None, Some s))
    \<and> (if p \<in> set (sk_items s)
       then \<exists>s'. sk_delete_ptr (Some s) p = (p, Some s') \<and> stack_wf s' \<and> sk_items s' = remove1 p (sk_items s)
       else sk_delete_ptr (Some s) p = (None, Some s))
    \<and> (if sk_items s = [] then sk_pop (Some s) = (None, Some s)
       else \<exists>s'. sk_pop (Some s) = (last (sk_items s), Some s') \<and> stack_wf s' \<and> sk_items s' = butlast (sk_items s))
    \<and> (if sk_items s = [] then sk_shift (Some s) = (None, Some s)
       else \<exists>s'. sk_shift (Some s) = (hd (sk_items s), Some s') \<and> stack_wf s' \<and> sk_items s' = tl (sk_items s))
    \<and> (if i < length (sk_items s)
       then \<exists>s'. sk_set (Some s) i p = (p, Some s') \<and> stack_wf s' \<and> sk_items s' = (sk_items s)[i := p]
       else sk_set (Some s) i p = (None, Some s))
    \<and> sk_value (Some s) i = (if i < length (sk_items s) then sk_items s ! i else None)
    \<and> sk_num (Some s) = length (sk_items s)
    \<and> sk_pop_free (Some s) = List.map_filter id (sk_items s)
    \<and> (\<exists>s'. sk_zero (Some s) = Some s' \<and> stack_wf s' \<and> sk_items s' = [])
    \<and> (case sk_set_cmp_func s cmp of (old, s') \<Rightarrow>
        old = st_comp s \<and> stack_wf s' \<and> sk_items s' = sk_items s \<and> st_comp s' = cmp)
    \<and> (\<forall>s'. sk_dup e (Some s) = Some s' \<longrightarrow> stack_wf s' \<and> sk_items s' = sk_items s \<and> st_comp s' = st_comp s)
    \<and> (case sk_deep_copy e (Some s) copy of
         Inr s' \<Rightarrow> stack_wf s' \<and> sk_items s' = map (\<lambda>q. Option.bind q copy) (sk_items s)
       | Inl freed \<Rightarrow> sk_dup e (Some s) = None \<and> freed = []
           \<or> (\<exists>as x bs. sk_items s = as @ Some x # bs \<and> copy x = None
               \<and> freed = List.map_filter (\<lambda>q. Option.bind q copy) as))"
proof (intro conjI)
  have l: "length (sk_items s) = st_num s" using assms(1) by (rule length_sk_items)
  show "\<forall>s'. sk_new e cmp = Some s' \<longrightarrow> stack_wf s' \<and> sk_items s' = [] \<and> st_comp s' = cmp"
    "\<forall>s'. sk_new_null e = Some s' \<longrightarrow> stack_wf s' \<and> sk_items s' = [] \<and> st_comp s' = None"
    using sk_new_ok [OF _ assms(2)] by (auto simp: sk_new_null_def)
  show "case sk_insert e (Some s) p i of (n, sk') \<Rightarrow>
        if n = 0 then sk' = Some s
        else \<exists>s'. sk' = Some s' \<and> n = Suc (st_num s) \<and> stack_wf s'
          \<and> sk_items s' = take i (sk_items s) @ p # drop i (sk_items s)"
    using sk_insert_ok [OF assms, of p i] sk_insert_fail [OF assms(1) _ assms(2), of p i]
    by (cases "sk_insert e (Some s) p i") auto
  show "if i < length (sk_items s)
       then \<exists>s'. sk_delete (Some s) i = (sk_items s ! i, Some s') \<and> stack_wf s'
          \<and> sk_items s' = take i (sk_items s) @ drop (Suc i) (sk_items s)
       else sk_delete (Some s) i = (None, Some s)"
    using sk_delete_ok [OF assms(1), of i] by (auto simp: l sk_delete_def)
  show "if i < length (sk_items s)
       then \<exists>s'. sk_set (Some s) i p = (p, Some s') \<and> stack_wf s' \<and> sk_items s' = (sk_items s)[i := p]
       else sk_set (Some s) i p = (None, Some s)"
    using sk_set_ok [OF assms(1), of i p] by (auto simp: l sk_set_def)
  show "sk_num (Some s) = length (sk_items s)" by (simp add: sk_num_def l)
  show "sk_pop_free (Some s) = List.map_filter id (sk_items s)" by (simp add: sk_pop_free_def sk_items_def)
  show "\<exists>s'. sk_zero (Some s) = Some s' \<and> stack_wf s' \<and> sk_items s' = []"
    using assms(1) by (auto simp: sk_zero_def stack_wf_def sk_items_def length_overwrite)
  show "case sk_set_cmp_func s cmp of (old, s') \<Rightarrow>
        old = st_comp s \<and> stack_wf s' \<and> sk_items s' = sk_items s \<and> st_comp s' = cmp"
    using assms(1) by (auto simp: sk_set_cmp_func_def stack_wf_def sk_items_def)
  show "\<forall>s'. sk_dup e (Some s) = Some s' \<longrightarrow> stack_wf s' \<and> sk_items s' = sk_items s \<and> st_comp s' = st_comp s"
    using sk_dup_ok [OF _ assms] by blast
  show "case sk_deep_copy e (Some s) copy of
         Inr s' \<Rightarrow> stack_wf s' \<and> sk_items s' = map (\<lambda>q. Option.bind q copy) (sk_items s)
       | Inl freed \<Rightarrow> sk_dup e (Some s) = None \<and> freed = []
           \<or> (\<exists>as x bs. sk_items s = as @ Some x # bs \<and> copy x = None
               \<and> freed = List.map_filter (\<lambda>q. Option.bind q copy) as)"
    using sk_deep_copy_Inr [OF _ assms, of copy] sk_deep_copy_Inl [OF _ assms, of copy]
    by (simp split: sum.split)
qed (rule sk_value_items sk_push_ok sk_pop_ok sk_shift_ok sk_delete_ptr_ok; fact assms)+

text \<open>An environment and a stack for concrete instances.\<close>

definition nat_ptr_cmp :: "nat ptr \<Rightarrow> nat ptr \<Rightarrow> int" where
  "nat_ptr_cmp p q = int (case p of None \<Rightarrow> 0 | Some n \<Rightarrow> Suc n) - int (case q of None \<Rightarrow> 0 | Some n \<Rightarrow> Suc n)"

definition small_stack_env :: "nat stack_env" where
  "small_stack_env = \<lparr>se_mem = \<lparr>malloc_ok = \<lambda>n. n \<le> 4096, fresh = \<lambda>_. 0\<rparr>, se_stale = \<lambda>_. None,
     se_cmp = \<lambda>_. nat_ptr_cmp, se_qsort = sort_by, se_bsearch = search_by\<rparr>"

definition small_stack :: "nat stack" where
  "small_stack = \<lparr>st_num = 3, st_data = [Some 2, Some 3, Some 1, None, None], st_sorted = False,
     st_num_alloc = 5, st_comp = Some 7\<rparr>"

lemma small_stack_facts:
  "stack_wf small_stack" "malloc_sane (se_mem small_stack_env)"
  "sorted_flag_ok small_stack_env small_stack" "st_comp small_stack = Some 7"
  "c_sort_search (se_qsort small_stack_env) (se_bsearch small_stack_env)"
  "cmp_order (se_cmp small_stack_env c) A"
proof -
  show "c_sort_search (se_qsort small_stack_env) (se_bsearch small_stack_env)"
    using ref_sort_search.c_sort_search_axioms by (simp add: small_stack_env_def)
  show "cmp_order (se_cmp small_stack_env c) A"
    by (rule cmp_order_by_key [where key = "\<lambda>p. case p of None \<Rightarrow> 0 | Some n \<Rightarrow> Suc n"])
      (auto simp: small_stack_env_def nat_ptr_cmp_def)
qed (simp_all add: stack_wf_def small_stack_def small_stack_env_def malloc_sane_def sorted_flag_ok_def
    OPENSSL_MALLOC_PREFIX_def)

theorem sk_operations_list_witness:
  "(case sk_insert small_stack_env (Some small_stack) (Some 9) 1 of (n, sk') \<Rightarrow>
        n = 4 \<and> map_option sk_items sk' = Some [Some 2, Some 9, Some 3, Some 1])
   \<and> (\<exists>s'. sk_delete_ptr (Some small_stack) (Some 3) = (Some 3, Some s') \<and> sk_items s' = [Some 2, Some 1])"
proof -
  note w = sk_operations_list [OF small_stack_facts(1,2), where cmp = None and i = 1 and copy = Some]
  have i: "sk_items small_stack = [Some 2, Some 3, Some 1]" by (simp add: sk_items_def small_stack_def)
  have "fst (sk_insert small_stack_env (Some small_stack) (Some 9) 1) \<noteq> 0"
    by (simp add: sk_insert_def sk_make_room_def small_stack_def small_stack_env_def size_add_def
        size_mul_def SIZE_MAX_def ptr_realloc_def ptr_malloc_def OPENSSL_malloc_def OPENSSL_MALLOC_PREFIX_def)
  moreover have "st_num small_stack = 3" by (simp add: small_stack_def)
  moreover have "case sk_insert small_stack_env (Some small_stack) (Some 9) 1 of (n, sk') \<Rightarrow>
        if n = 0 then sk' = Some small_stack
        else \<exists>s'. sk' = Some s' \<and> n = Suc (st_num small_stack) \<and> stack_wf s'
          \<and> sk_items s' = take 1 (sk_items small_stack) @ Some 9 # drop 1 (sk_items small_stack)"
    using w [where p = "Some 9"] by (elim conjE)
  moreover have "\<exists>s'. sk_delete_ptr (Some small_stack) (Some 3) = (Some 3, Some s') \<and> sk_items s' = [Some 2, Some 1]"
    using w [where p = "Some 3"] by (auto simp: i)
  ultimately show ?thesis by (auto simp: i split: prod.splits)
qed

text \<open>C33: \<open>sk_find\<close> on a stack with a comparison function sorts it, keeps its elements, and
  finds the first element equal to the one asked for, or nothing when there is none,
  whichever of several equal elements \<open>bsearch\<close> hits. The library's \<open>qsort\<close> and \<open>bsearch\<close>
  need only keep their contracts.\<close>

theorem sk_find_first:
  assumes "c_sort_search (se_qsort e) (se_bsearch e)" and "stack_wf s" and "sorted_flag_ok e s"
    and "st_comp s = Some c" and "p \<noteq> None" and "cmp_order (se_cmp e c) (insert p (set (sk_items s)))"
  shows "\<exists>r s'. sk_find e (Some s) p = (r, Some s') \<and> stack_wf s'
    \<and> mset (sk_items s') = mset (sk_items s) \<and> cmp_sorted (se_cmp e c) (sk_items s')
    \<and> (case r of None \<Rightarrow> \<forall>q\<in>set (sk_items s'). se_cmp e c p q \<noteq> 0
       | Some i \<Rightarrow> i < st_num s' \<and> se_cmp e c p (sk_items s' ! i) = 0
           \<and> (\<forall>j<i. se_cmp e c p (sk_items s' ! j) \<noteq> 0))"
  using sk_find_ok [OF assms] by blast

theorem sk_find_first_witness:
  "\<exists>i s'. sk_find small_stack_env (Some small_stack) (Some 3) = (Some i, Some s')
    \<and> mset (sk_items s') = {#Some 1, Some 2, Some 3#} \<and> nat_ptr_cmp (Some 3) (sk_items s' ! i) = 0"
proof -
  have i: "sk_items small_stack = [Some 2, Some 3, Some 1]" by (simp add: sk_items_def small_stack_def)
  have c: "se_cmp small_stack_env 7 = nat_ptr_cmp" by (simp add: small_stack_env_def)
  from sk_find_first [OF small_stack_facts(5,1,3,4) _ small_stack_facts(6), of "Some 3"]
  obtain r s' where f: "sk_find small_stack_env (Some small_stack) (Some 3) = (r, Some s')"
    and m: "mset (sk_items s') = mset (sk_items small_stack)"
    and r: "case r of None \<Rightarrow> \<forall>q\<in>set (sk_items s'). nat_ptr_cmp (Some 3) q \<noteq> 0
       | Some i \<Rightarrow> nat_ptr_cmp (Some 3) (sk_items s' ! i) = 0"
    unfolding c by (auto split: option.splits)
  have "Some 3 \<in> set (sk_items s')" using m i by (metis list.set_intros(1,2) set_mset_mset)
  then have "\<not> (\<forall>q\<in>set (sk_items s'). nat_ptr_cmp (Some 3) q \<noteq> 0)" by (metis nat_ptr_cmp_def diff_self)
  then have "r \<noteq> None" using r by (cases r) auto
  with f m r i show ?thesis by (auto simp: add_mset_commute)
qed

text \<open>Searching sorts the stack and changes nothing else.\<close>

lemma sk_find_state:
  "snd (sk_find e (Some s) p) = (if st_comp s = None \<or> p = None then Some s else sk_sort e (Some s))"
  by (auto simp: sk_find_def sk_sort_def split: option.splits)

lemma sorted_flag_ok_items:
  "sk_items s' = sk_items s \<Longrightarrow> st_comp s' = st_comp s \<Longrightarrow> st_sorted s' = st_sorted s \<Longrightarrow>
     sorted_flag_ok e s' = sorted_flag_ok e s"
  by (simp add: sorted_flag_ok_def split: option.split)

lemma sk_insert_flag:
  assumes "stack_wf s" and "malloc_sane (se_mem e)" and "sorted_flag_ok e s"
    and "snd (sk_insert e (Some s) p i) = Some s'"
  shows "sorted_flag_ok e s'"
  using sk_insert_ok [OF assms(1,2), of p i] sk_insert_fail [OF assms(1) _ assms(2), of p i] assms(3,4)
  by (cases "sk_insert e (Some s) p i"; cases "fst (sk_insert e (Some s) p i) = 0")
    (auto simp: sorted_flag_ok_def)

lemma sk_delete_flag:
  assumes "stack_wf s" and "sorted_flag_ok e s" and "snd (sk_delete (Some s) i) = Some s'"
  shows "sorted_flag_ok e s'"
proof (cases "i < st_num s")
  case True
  with sk_delete_ok [OF assms(1) True] assms(2,3) show ?thesis
    by (auto simp: sorted_flag_ok_def split: option.splits intro: sorted_wrt_delete)
next
  case False
  with assms(2,3) show ?thesis by (simp add: sk_delete_def)
qed

lemma sk_sort_flag:
  assumes "c_sort_search (se_qsort e) (se_bsearch e)" and "stack_wf s" and "sorted_flag_ok e s"
    and "\<forall>c. st_comp s = Some c \<longrightarrow> cmp_order (se_cmp e c) (set (sk_items s))"
    and "sk_sort e (Some s) = Some s'"
  shows "sorted_flag_ok e s'"
proof (cases "st_comp s")
  case None
  with assms(3,5) show ?thesis by (simp add: sk_sort_def)
next
  case (Some c)
  with sk_sort_ok [OF assms(1-3) Some] assms(4,5) show ?thesis by (auto simp: sorted_flag_ok_def)
qed

text \<open>A deep copy keeps the order when copying does not change how elements compare.\<close>

lemma sk_deep_copy_flag:
  assumes "sk_deep_copy e (Some s) copy = Inr s'" and "stack_wf s" and "malloc_sane (se_mem e)"
    and "sorted_flag_ok e s"
    and "\<forall>c. st_comp s = Some c \<longrightarrow> (\<forall>p\<in>set (sk_items s). \<forall>q\<in>set (sk_items s).
        se_cmp e c (Option.bind p copy) (Option.bind q copy) = se_cmp e c p q)"
  shows "sorted_flag_ok e s'"
proof (cases "st_comp s")
  case None
  with sk_deep_copy_Inr [OF assms(1-3)] show ?thesis by (simp add: sorted_flag_ok_def)
next
  case (Some c)
  have "cmp_sorted (se_cmp e c) (map (\<lambda>p. Option.bind p copy) (sk_items s))" if "cmp_sorted (se_cmp e c) (sk_items s)"
    unfolding sorted_wrt_map by (rule sorted_wrt_mono_rel [OF _ that]) (use assms(5) Some in auto)
  with sk_deep_copy_Inr [OF assms(1-3)] assms(4) Some show ?thesis by (auto simp: sorted_flag_ok_def)
qed

text \<open>C34: the \<open>sorted\<close> flag stays true to the content under every operation but \<open>sk_set\<close>,
  and but for \<open>sk_deep_copy\<close> with a copy function that changes how elements compare: it
  holds of a new stack and is kept by insertion, pushing, every deletion, sorting,
  searching, clearing, a change of the comparison function and duplication, and by a deep
  copy whose copies compare as the originals do. After \<open>sk_sort\<close> on a stack with a
  comparison function the flag is set.\<close>

theorem sk_sorted_flag_invariant:
  assumes "stack_wf s" and "malloc_sane (se_mem e)" and "sorted_flag_ok e s"
    and "c_sort_search (se_qsort e) (se_bsearch e)"
    and "\<forall>c. st_comp s = Some c \<longrightarrow> cmp_order (se_cmp e c) (set (sk_items s))"
  shows "(\<forall>s'. sk_new e cmp = Some s' \<or> snd (sk_insert e (Some s) p i) = Some s'
        \<or> snd (sk_push e (Some s) p) = Some s' \<or> snd (sk_delete (Some s) i) = Some s'
        \<or> snd (sk_delete_ptr (Some s) p) = Some s' \<or> snd (sk_pop (Some s)) = Some s'
        \<or> snd (sk_shift (Some s)) = Some s' \<or> sk_sort e (Some s) = Some s'
        \<or> snd (sk_find e (Some s) p) = Some s' \<or> sk_zero (Some s) = Some s'
        \<or> snd (sk_set_cmp_func s cmp) = s' \<or> sk_dup e (Some s) = Some s' \<longrightarrow> sorted_flag_ok e s')
    \<and> (\<forall>s'. sk_deep_copy e (Some s) copy = Inr s' \<longrightarrow>
         (\<forall>c. st_comp s = Some c \<longrightarrow> (\<forall>p\<in>set (sk_items s). \<forall>q\<in>set (sk_items s).
            se_cmp e c (Option.bind p copy) (Option.bind q copy) = se_cmp e c p q)) \<longrightarrow>
         sorted_flag_ok e s')
    \<and> (st_comp s \<noteq> None \<longrightarrow> sk_is_sorted (sk_sort e (Some s)))"
proof (intro conjI allI impI)
  note del = sk_delete_flag [OF assms(1,3)]
  fix s' assume "sk_new e cmp = Some s' \<or> snd (sk_insert e (Some s) p i) = Some s'
        \<or> snd (sk_push e (Some s) p) = Some s' \<or> snd (sk_delete (Some s) i) = Some s'
        \<or> snd (sk_delete_ptr (Some s) p) = Some s' \<or> snd (sk_pop (Some s)) = Some s'
        \<or> snd (sk_shift (Some s)) = Some s' \<or> sk_sort e (Some s) = Some s'
        \<or> snd (sk_find e (Some s) p) = Some s' \<or> sk_zero (Some s) = Some s'
        \<or> snd (sk_set_cmp_func s cmp) = s' \<or> sk_dup e (Some s) = Some s'"
  then show "sorted_flag_ok e s'"
  proof (elim disjE)
    show "sorted_flag_ok e s'" if "sk_new e cmp = Some s'"
      using sk_new_ok [OF that assms(2)] by (simp add: sorted_flag_ok_def)
    show "sorted_flag_ok e s'" if "snd (sk_insert e (Some s) p i) = Some s'"
      by (rule sk_insert_flag [OF assms(1-3) that])
    show "sorted_flag_ok e s'" if "snd (sk_push e (Some s) p) = Some s'"
      by (rule sk_insert_flag [OF assms(1-3) that [unfolded sk_push_def]])
    show "sorted_flag_ok e s'" if "snd (sk_delete (Some s) i) = Some s'" by (rule del [OF that])
    show "sorted_flag_ok e s'" if "snd (sk_delete_ptr (Some s) p) = Some s'"
      using that del assms(3) by (auto simp: sk_delete_ptr_def split: option.splits)
    show "sorted_flag_ok e s'" if "snd (sk_pop (Some s)) = Some s'"
      using that del assms(3) by (auto simp: sk_pop_def split: if_splits)
    show "sorted_flag_ok e s'" if "snd (sk_shift (Some s)) = Some s'"
      using that del assms(3) by (auto simp: sk_shift_def split: if_splits)
    show "sorted_flag_ok e s'" if "sk_sort e (Some s) = Some s'"
      by (rule sk_sort_flag [OF assms(4,1,3,5) that])
    show "sorted_flag_ok e s'" if "snd (sk_find e (Some s) p) = Some s'"
      using that sk_sort_flag [OF assms(4,1,3,5)] assms(3) by (auto simp: sk_find_state split: if_splits)
    show "sorted_flag_ok e s'" if "sk_zero (Some s) = Some s'"
      using that assms(3) by (auto simp: sk_zero_def sorted_flag_ok_def split: if_splits)
    show "sorted_flag_ok e s'" if "snd (sk_set_cmp_func s cmp) = s'"
      using that assms(3) by (auto simp: sk_set_cmp_func_def sorted_flag_ok_def sk_items_def split: option.splits)
    show "sorted_flag_ok e s'" if "sk_dup e (Some s) = Some s'"
      using sorted_flag_ok_items [of s' s e] sk_dup_ok [OF that assms(1,2)] assms(3) by simp
  qed
next
  fix s' assume "sk_deep_copy e (Some s) copy = Inr s'"
    and "\<forall>c. st_comp s = Some c \<longrightarrow> (\<forall>p\<in>set (sk_items s). \<forall>q\<in>set (sk_items s).
            se_cmp e c (Option.bind p copy) (Option.bind q copy) = se_cmp e c p q)"
  then show "sorted_flag_ok e s'" using sk_deep_copy_flag [OF _ assms(1-3)] by blast
next
  assume "st_comp s \<noteq> None"
  then show "sk_is_sorted (sk_sort e (Some s))" by (auto simp: sk_sort_def sk_is_sorted_def)
qed

theorem sk_sorted_flag_invariant_witness:
  "sorted_flag_ok small_stack_env (snd (sk_set_cmp_func small_stack None))
    \<and> sk_is_sorted (sk_sort small_stack_env (Some small_stack))"
proof -
  have "\<forall>c. st_comp small_stack = Some c \<longrightarrow> cmp_order (se_cmp small_stack_env c) (set (sk_items small_stack))"
    using small_stack_facts(6) by blast
  note w = sk_sorted_flag_invariant [OF small_stack_facts(1-3,5) this, where cmp = None and p = None and i = 0
      and copy = Some]
  show ?thesis using w small_stack_facts(4) by blast
qed

text \<open>Overwriting position \<open>i\<close> of a sorted list with \<open>p\<close> keeps it sorted exactly when \<open>p\<close> is
  in order with everything before and after it.\<close>

lemma sorted_wrt_update:
  assumes "sorted_wrt P xs" and "i < length xs"
  shows "sorted_wrt P (xs[i := p]) \<longleftrightarrow> (\<forall>j<i. P (xs ! j) p) \<and> (\<forall>j. i < j \<and> j < length xs \<longrightarrow> P p (xs ! j))"
proof -
  have old: "P (xs ! j) (xs ! k)" if "j < k" "k < length xs" for j k
    using assms(1) that by (simp add: sorted_wrt_iff_nth_less)
  show ?thesis
  proof
    assume new: "sorted_wrt P (xs[i := p])"
    have "P (xs[i := p] ! j) (xs[i := p] ! k)" if "j < k" "k < length xs" for j k
      using new that by (simp add: sorted_wrt_iff_nth_less)
    from this [of _ i] this [of i] assms(2)
    show "(\<forall>j<i. P (xs ! j) p) \<and> (\<forall>j. i < j \<and> j < length xs \<longrightarrow> P p (xs ! j))" by simp
  next
    assume "(\<forall>j<i. P (xs ! j) p) \<and> (\<forall>j. i < j \<and> j < length xs \<longrightarrow> P p (xs ! j))"
    with old assms(2) show "sorted_wrt P (xs[i := p])" by (auto simp: sorted_wrt_iff_nth_less nth_list_update)
  qed
qed

text \<open>An array with the key somewhere and something on the wrong side of it is not one
  \<open>bsearch\<close> promises anything about.\<close>

lemma not_partitioned:
  assumes "xs ! i = p" and "i < length xs" and "cmp p p = 0"
    and "(\<exists>j<i. cmp p (xs ! j) < 0) \<or> (\<exists>j. i < j \<and> j < length xs \<and> 0 < cmp p (xs ! j))"
  shows "\<not> cmp_partitioned cmp p xs"
proof
  assume "cmp_partitioned cmp p xs"
  then have "(cmp p (xs ! j) \<le> 0 \<longrightarrow> cmp p (xs ! k) \<le> 0) \<and> (cmp p (xs ! j) < 0 \<longrightarrow> cmp p (xs ! k) < 0)"
    if "j < k" "k < length xs" for j k
    using that by (auto simp: cmp_partitioned_def sorted_wrt_iff_nth_less)
  from this [of _ i] this [of i] assms show False by force
qed

text \<open>A \<open>bsearch\<close> that finds nothing in such an array keeps the contract.\<close>

definition strict_bsearch ::
    "(('a \<Rightarrow> 'a \<Rightarrow> int) \<Rightarrow> 'a \<Rightarrow> 'a list \<Rightarrow> nat option) \<Rightarrow> ('a \<Rightarrow> 'a \<Rightarrow> int) \<Rightarrow> 'a \<Rightarrow> 'a list \<Rightarrow> nat option" where
  "strict_bsearch bs cmp key xs = (if cmp_partitioned cmp key xs then bs cmp key xs else None)"

lemma strict_bsearch_ok:
  assumes "c_sort_search q bs"
  shows "c_sort_search q (strict_bsearch bs)"
proof -
  have s: "c_sort q" "c_search bs" using assms by (simp_all add: c_sort_search_def)
  have "c_search (strict_bsearch bs)"
    by unfold_locales (auto simp: strict_bsearch_def dest: c_search.bsearch_Some [OF s(2)] c_search.bsearch_None [OF s(2)])
  with s(1) show ?thesis by (simp add: c_sort_search_def)
qed

text \<open>C35: \<open>sk_set\<close> does not keep it. Overwriting an element of a sorted stack leaves the flag
  set; the flag is then right exactly when the new pointer happens to be in order with
  what is before and after it. Right or wrong, \<open>sk_sort\<close> now does nothing and \<open>sk_find\<close>
  searches the array as it is. So when the new pointer is out of order, finding it is no
  longer guaranteed: some \<open>bsearch\<close> that keeps its contract answers that the pointer just
  stored is not in the stack.\<close>

theorem sk_set_breaks_find:
  assumes "stack_wf s" and "sorted_flag_ok e s" and "st_sorted s" and "st_comp s = Some c"
    and "cmp_order (se_cmp e c) (insert p (set (sk_items s)))" and "i < length (sk_items s)" and "p \<noteq> None"
    and "c_sort_search (se_qsort e) (se_bsearch e)"
  shows "\<exists>s'. sk_set (Some s) i p = (p, Some s') \<and> sk_items s' ! i = p \<and> i < length (sk_items s')
    \<and> sk_is_sorted (Some s') \<and> sk_sort e (Some s') = Some s' \<and> snd (sk_find e (Some s') q) = Some s'
    \<and> (sorted_flag_ok e s' \<longleftrightarrow> (\<forall>j<i. se_cmp e c (sk_items s ! j) p \<le> 0)
         \<and> (\<forall>j. i < j \<and> j < length (sk_items s) \<longrightarrow> se_cmp e c p (sk_items s ! j) \<le> 0))
    \<and> (\<not> sorted_flag_ok e s' \<longrightarrow> (\<exists>bs. c_sort_search (se_qsort e) bs
         \<and> sk_find (e\<lparr>se_bsearch := bs\<rparr>) (Some s') p = (None, Some s')))"
proof -
  let ?s' = "s\<lparr>st_data := (st_data s)[i := p]\<rparr>" and ?cmp = "se_cmp e c" and ?xs = "sk_items s"
  have i: "i < st_num s" using assms(1,6) by (simp add: length_sk_items)
  note set = sk_set_ok [OF assms(1) i, of p]
  then have items: "sk_items ?s' = ?xs[i := p]" by blast
  have sorted: "cmp_sorted ?cmp ?xs" using assms(2-4) by (simp add: sorted_flag_ok_def)
  have flag: "sorted_flag_ok e ?s' \<longleftrightarrow> (\<forall>j<i. ?cmp (?xs ! j) p \<le> 0)
         \<and> (\<forall>j. i < j \<and> j < length ?xs \<longrightarrow> ?cmp p (?xs ! j) \<le> 0)"
    using sorted_wrt_update [OF sorted assms(6), of p] assms(3,4) items by (simp add: sorted_flag_ok_def)
  have sort: "sk_sort e' (Some ?s') = Some ?s'" for e' using assms(3) by (simp add: sk_sort_def split: option.split)
  have miss: "sk_find (e\<lparr>se_bsearch := strict_bsearch (se_bsearch e)\<rparr>) (Some ?s') p = (None, Some ?s')"
    if "\<not> sorted_flag_ok e ?s'"
  proof -
    have flip: "?cmp (?xs ! j) p \<le> 0 \<longleftrightarrow> \<not> ?cmp p (?xs ! j) < 0" if "j < length ?xs" for j
      using cmp_flip [OF assms(5), of p "?xs ! j"] that by (auto simp: not_less)
    have "?cmp p p = 0" using cmp_refl [OF assms(5), of p] by simp
    moreover have "(\<exists>j<i. ?cmp p (?xs[i := p] ! j) < 0) \<or> (\<exists>j. i < j \<and> j < length (?xs[i := p]) \<and> 0 < ?cmp p (?xs[i := p] ! j))"
      using that flip assms(6) unfolding flag by (auto simp: not_le)
    ultimately have "\<not> cmp_partitioned ?cmp p (sk_items ?s')"
      unfolding items using not_partitioned [of "?xs[i := p]" i p ?cmp] assms(6) by simp
    then have "strict_bsearch (se_bsearch e) ?cmp p (take (st_num s) ((st_data s)[i := p])) = None"
      by (simp add: strict_bsearch_def sk_items_def)
    with sort assms(4,7) show ?thesis by (simp add: sk_find_def)
  qed
  have "snd (sk_find e (Some ?s') q) = Some ?s'" using sort by (simp add: sk_find_state)
  moreover have "sk_is_sorted (Some ?s')" using assms(3) by (simp add: sk_is_sorted_def)
  moreover have "sk_items ?s' ! i = p" "i < length (sk_items ?s')" using items assms(6) by simp_all
  ultimately show ?thesis using set flag sort [of e] miss strict_bsearch_ok [OF assms(8)] by blast
qed

theorem sk_set_breaks_find_witness:
  "\<exists>s s'. sk_sort small_stack_env (Some small_stack) = Some s \<and> sk_set (Some s) 0 (Some 5) = (Some 5, Some s')
    \<and> sk_items s' = [Some 5, Some 2, Some 3] \<and> sk_is_sorted (Some s') \<and> \<not> sorted_flag_ok small_stack_env s'"
proof -
  define s where "s = small_stack\<lparr>st_data := [Some 1, Some 2, Some 3, None, None], st_sorted := True\<rparr>"
  have sort: "sk_sort small_stack_env (Some small_stack) = Some s"
    by (simp add: s_def sk_sort_def small_stack_env_def small_stack_def sort_by_def nat_ptr_cmp_def)
  have items: "sk_items s = [Some 1, Some 2, Some 3]" by (simp add: s_def sk_items_def small_stack_def)
  have wf: "stack_wf s" using small_stack_facts(1) by (simp add: s_def stack_wf_def small_stack_def)
  have flag: "sorted_flag_ok small_stack_env s"
    unfolding sorted_flag_ok_def items by (simp add: small_stack_env_def nat_ptr_cmp_def split: option.split)
  have s: "st_sorted s" "st_comp s = Some 7" by (simp_all add: s_def small_stack_def)
  have "0 < length (sk_items s)" by (simp add: items)
  from sk_set_breaks_find [OF wf flag s small_stack_facts(6) this _ small_stack_facts(5), of "Some 5"]
  obtain s' where s': "sk_set (Some s) 0 (Some 5) = (Some 5, Some s')" "sk_is_sorted (Some s')"
    "sorted_flag_ok small_stack_env s' \<longrightarrow>
      (\<forall>j. 0 < j \<and> j < length (sk_items s) \<longrightarrow> se_cmp small_stack_env 7 (Some 5) (sk_items s ! j) \<le> 0)"
    by blast
  have "\<not> se_cmp small_stack_env 7 (Some 5) (sk_items s ! 1) \<le> 0"
    unfolding items by (simp add: small_stack_env_def nat_ptr_cmp_def)
  with s'(3) have "\<not> sorted_flag_ok small_stack_env s'" unfolding items by fastforce
  moreover have "sk_items s' = [Some 5, Some 2, Some 3]"
    using s'(1) by (auto simp: s_def sk_set_def sk_items_def small_stack_def)
  ultimately show ?thesis using sort s' by blast
qed

end
