(* ===== verification/KeyStore.thy ===== *)
theory KeyStore
  imports Main
begin

text \<open>
  The interface of a table of elements that carry their own key: two elements are the same
  entry when the table's equality says so. \<open>LHash\<close> provides it. The laws say what a lookup
  returns after each update; the lemmas are what a client that loads a table and looks
  elements up relies on.
\<close>

locale keyed_store =
  fixes good :: "'s \<Rightarrow> bool" and same :: "'s \<Rightarrow> 'a \<Rightarrow> 'a \<Rightarrow> bool"
    and look :: "'s \<Rightarrow> 'a \<Rightarrow> 'a option"
    and ins :: "'s \<Rightarrow> 'a \<Rightarrow> 's option" and del :: "'s \<Rightarrow> 'a \<Rightarrow> 's"
  assumes same_refl: "good s \<Longrightarrow> same s x x"
    and same_sym: "good s \<Longrightarrow> same s x y \<Longrightarrow> same s y x"
    and same_trans: "good s \<Longrightarrow> same s x y \<Longrightarrow> same s y z \<Longrightarrow> same s x z"
    and look_same: "good s \<Longrightarrow> look s x = Some y \<Longrightarrow> same s x y"
    and look_cong: "good s \<Longrightarrow> same s x y \<Longrightarrow> look s x = look s y"
    and ins_good: "good s \<Longrightarrow> ins s x = Some s' \<Longrightarrow> good s' \<and> same s' = same s"
    and ins_look: "good s \<Longrightarrow> ins s x = Some s' \<Longrightarrow> look s' y = (if same s x y then Some x else look s y)"
    and del_good: "good s \<Longrightarrow> good (del s x) \<and> same (del s x) = same s"
    and del_look: "good s \<Longrightarrow> look (del s x) y = (if same s x y then None else look s y)"

fun insert_all :: "('s \<Rightarrow> 'a \<Rightarrow> 's option) \<Rightarrow> 's \<Rightarrow> 'a list \<Rightarrow> 's option" where
  "insert_all ins s [] = Some s"
| "insert_all ins s (x # xs) = (case ins s x of None \<Rightarrow> None | Some s' \<Rightarrow> insert_all ins s' xs)"

context keyed_store begin

text \<open>After loading a list, a lookup gives its last entry that is the same, or what was there
  before.\<close>

lemma insert_all_look:
  "good s \<Longrightarrow> insert_all ins s xs = Some s' \<Longrightarrow> good s' \<and> same s' = same s
    \<and> look s' y = (case List.find (\<lambda>x. same s x y) (rev xs) of None \<Rightarrow> look s y | Some x \<Rightarrow> Some x)"
proof (induction xs arbitrary: s)
  case (Cons x xs)
  then obtain s1 where s1: "ins s x = Some s1" "insert_all ins s1 xs = Some s'" by (auto split: option.splits)
  have append: "List.find P (as @ bs) = (case List.find P as of None \<Rightarrow> List.find P bs | Some a \<Rightarrow> Some a)"
    for P and as bs :: "'a list" by (induction as) auto
  have "good s1" "same s1 = same s" "look s1 y = (if same s x y then Some x else look s y)"
    using ins_good ins_look Cons.prems(1) s1(1) by auto
  with Cons.IH [OF _ s1(2)] show ?case by (auto simp: append split: option.splits)
qed simp

text \<open>A new entry removed again leaves every lookup as it was; entries that are not the same
  do not disturb each other.\<close>

lemma del_ins:
  assumes "good s" and "ins s x = Some s'" and "look s x = None"
  shows "look (del s' x) y = look s y"
proof -
  have g: "good s'" "same s' = same s" using ins_good assms(1,2) by auto
  then show ?thesis
    using del_look [OF g(1), of x y] ins_look [OF assms(1,2), of y] look_cong [OF assms(1), of x y] assms(3)
    by auto
qed

lemma ins_commute:
  assumes "good s" and "ins s x = Some s1" and "ins s1 y = Some s2"
    and "ins s y = Some s3" and "ins s3 x = Some s4" and "\<not> same s x y"
  shows "look s2 z = look s4 z"
proof -
  have "good s1" "same s1 = same s" "good s3" "same s3 = same s" using ins_good assms by auto
  moreover have "\<not> (same s x z \<and> same s y z)"
    using same_sym same_trans assms(1,6) by blast
  ultimately show ?thesis
    using ins_look [OF _ assms(3), of z] ins_look [OF assms(1,2), of z]
      ins_look [OF _ assms(5), of z] ins_look [OF assms(1,4), of z] by auto
qed

end

end
