(* ===== verification/LHash.thy ===== *)
theory LHash
  imports Mem KeyStore
begin

text \<open>
  The chained hash tables of \<open>crypto/lhash/lhash.c\<close>. A bucket is the list of the items of
  its chain, each with the cached hash value of its data. The hash and comparison functions
  the table was created with are fields, as in the code; what the table relies on is the
  locale \<open>lhash_contract\<close>: the comparison is an equivalence and equal elements have equal
  hash values (\<open>lhash.h\<close>).
\<close>

section \<open>Operations\<close>

record 'a lhash_item =
  li_data :: 'a
  li_hash :: u32

record 'a lhash =
  lh_items :: nat
  lh_buckets :: "'a lhash_item list list"
  lh_num_buckets :: nat
  lh_callback_depth :: nat
  lh_comp :: "'a \<Rightarrow> 'a \<Rightarrow> int"
  lh_hash :: "'a \<Rightarrow> u32"

definition kMinNumBuckets :: nat where
  "kMinNumBuckets = 16"

definition kMaxAverageChainLength :: nat where
  "kMaxAverageChainLength = 2"

definition kMinAverageChainLength :: nat where
  "kMinAverageChainLength = 1"

definition UINT_MAX :: nat where
  "UINT_MAX = 4294967295"

definition lh_new :: "env \<Rightarrow> ('a \<Rightarrow> u32) \<Rightarrow> ('a \<Rightarrow> 'a \<Rightarrow> int) \<Rightarrow> 'a lhash option" where
  "lh_new e hash cmp =
     (case OPENSSL_malloc e 48 of
        None \<Rightarrow> None
      | Some _ \<Rightarrow>
          (case OPENSSL_malloc e (8 * kMinNumBuckets) of
             None \<Rightarrow> None
           | Some _ \<Rightarrow>
               Some \<lparr>lh_items = 0, lh_buckets = replicate kMinNumBuckets [],
                     lh_num_buckets = kMinNumBuckets, lh_callback_depth = 0,
                     lh_comp = cmp, lh_hash = hash\<rparr>))"

definition lh_num_items :: "'a lhash \<Rightarrow> nat" where
  "lh_num_items lh = lh_items lh"

text \<open>The search of a chain gives the position of the first equal item, the end of the chain
  where there is none: the place the code's pointer to a \<open>next\<close> pointer denotes.\<close>

fun chain_pos :: "('a \<Rightarrow> 'a \<Rightarrow> int) \<Rightarrow> 'a \<Rightarrow> 'a lhash_item list \<Rightarrow> nat" where
  "chain_pos cmp data [] = 0"
| "chain_pos cmp data (cur # chain) =
     (if cmp (li_data cur) data = 0 then 0 else Suc (chain_pos cmp data chain))"

definition get_next_ptr_and_hash :: "'a lhash \<Rightarrow> 'a \<Rightarrow> nat \<times> nat \<times> u32" where
  "get_next_ptr_and_hash lh data =
     (let hash = lh_hash lh data;
          bucket = unat hash mod lh_num_buckets lh
      in (bucket, chain_pos (lh_comp lh) data (lh_buckets lh ! bucket), hash))"

definition lh_retrieve :: "'a lhash \<Rightarrow> 'a \<Rightarrow> 'a option" where
  "lh_retrieve lh data =
     (case get_next_ptr_and_hash lh data of (b, i, _) \<Rightarrow>
        let chain = lh_buckets lh ! b
        in if i \<ge> length chain then None else Some (li_data (chain ! i)))"

text \<open>\<open>lh_rebucket\<close> pushes every item, in the order of the old table, on its new chain.\<close>

definition push_item :: "nat \<Rightarrow> 'a lhash_item list list \<Rightarrow> 'a lhash_item \<Rightarrow> 'a lhash_item list list" where
  "push_item n buckets cur =
     (let new_bucket = unat (li_hash cur) mod n
      in buckets[new_bucket := cur # buckets ! new_bucket])"

definition lh_rebucket :: "env \<Rightarrow> 'a lhash \<Rightarrow> nat \<Rightarrow> 'a lhash" where
  "lh_rebucket e lh new_num_buckets =
     (let alloc_size = size_mul 8 new_num_buckets
      in if alloc_size div 8 \<noteq> new_num_buckets then lh
         else case OPENSSL_malloc e alloc_size of
           None \<Rightarrow> lh
         | Some _ \<Rightarrow>
             lh\<lparr>lh_num_buckets := new_num_buckets,
                lh_buckets := foldl (push_item new_num_buckets) (replicate new_num_buckets [])
                                (concat (lh_buckets lh))\<rparr>)"

definition lh_maybe_resize :: "env \<Rightarrow> 'a lhash \<Rightarrow> 'a lhash" where
  "lh_maybe_resize e lh =
     (if lh_callback_depth lh > 0 then lh
      else
        (let avg_chain_length = lh_items lh div lh_num_buckets lh
         in if avg_chain_length > kMaxAverageChainLength then
              (let new_num_buckets = size_mul (lh_num_buckets lh) 2
               in if new_num_buckets > lh_num_buckets lh then lh_rebucket e lh new_num_buckets else lh)
            else if avg_chain_length < kMinAverageChainLength \<and> lh_num_buckets lh > kMinNumBuckets then
              (let half = lh_num_buckets lh div 2;
                   new_num_buckets = (if half < kMinNumBuckets then kMinNumBuckets else half)
               in lh_rebucket e lh new_num_buckets)
            else lh))"

text \<open>The results are the return value, \<open>*old_data\<close> and the table.\<close>

definition lh_insert :: "env \<Rightarrow> 'a lhash \<Rightarrow> 'a \<Rightarrow> bool \<times> 'a option \<times> 'a lhash" where
  "lh_insert e lh data =
     (case get_next_ptr_and_hash lh data of (b, i, hash) \<Rightarrow>
        let chain = lh_buckets lh ! b
        in if i < length chain then
             (True, Some (li_data (chain ! i)),
              lh\<lparr>lh_buckets := (lh_buckets lh)[b := chain[i := (chain ! i)\<lparr>li_data := data\<rparr>]]\<rparr>)
           else case OPENSSL_malloc e 24 of
             None \<Rightarrow> (False, None, lh)
           | Some _ \<Rightarrow>
               (True, None,
                lh_maybe_resize e
                  (lh\<lparr>lh_buckets := (lh_buckets lh)[b := chain @ [\<lparr>li_data = data, li_hash = hash\<rparr>]],
                      lh_items := lh_items lh + 1\<rparr>)))"

definition lh_delete :: "env \<Rightarrow> 'a lhash \<Rightarrow> 'a \<Rightarrow> 'a option \<times> 'a lhash" where
  "lh_delete e lh data =
     (case get_next_ptr_and_hash lh data of (b, i, _) \<Rightarrow>
        let chain = lh_buckets lh ! b
        in if i \<ge> length chain then (None, lh)
           else (Some (li_data (chain ! i)),
                 lh_maybe_resize e
                   (lh\<lparr>lh_buckets := (lh_buckets lh)[b := take i chain @ drop (Suc i) chain],
                       lh_items := lh_items lh - 1\<rparr>)))"

text \<open>\<open>lh_doall_arg\<close> for a callback that leaves the table alone and works on a state of its
  own; the saturating depth counter and the resize that follows are the code's.\<close>

definition lh_doall_internal :: "env \<Rightarrow> 'a lhash \<Rightarrow> ('a \<Rightarrow> 's \<Rightarrow> 's) \<Rightarrow> 's \<Rightarrow> 's \<times> 'a lhash" where
  "lh_doall_internal e lh func arg =
     (let lh1 = (if lh_callback_depth lh < UINT_MAX
                 then lh\<lparr>lh_callback_depth := lh_callback_depth lh + 1\<rparr> else lh);
          arg' = foldl (\<lambda>s cur. func (li_data cur) s) arg (concat (lh_buckets lh1));
          lh2 = (if lh_callback_depth lh1 < UINT_MAX
                 then lh1\<lparr>lh_callback_depth := lh_callback_depth lh1 - 1\<rparr> else lh1)
      in (arg', lh_maybe_resize e lh2))"

definition lh_doall_arg :: "env \<Rightarrow> 'a lhash \<Rightarrow> ('a \<Rightarrow> 's \<Rightarrow> 's) \<Rightarrow> 's \<Rightarrow> 's \<times> 'a lhash" where
  "lh_doall_arg e lh func arg = lh_doall_internal e lh func arg"

definition lh_strhash :: "u8 list option \<Rightarrow> u32 option" where
  "lh_strhash c =
     (case c of
        None \<Rightarrow> Some 0
      | Some s \<Rightarrow> map_option (\<lambda>n. OPENSSL_hash32 (take n s)) (c_strlen s))"

section \<open>Contract and invariant\<close>

locale lhash_contract =
  fixes hash :: "'a \<Rightarrow> u32" and cmp :: "'a \<Rightarrow> 'a \<Rightarrow> int"
  assumes cmp_refl: "cmp x x = 0"
    and cmp_sym: "cmp x y = 0 \<Longrightarrow> cmp y x = 0"
    and cmp_trans: "cmp x y = 0 \<Longrightarrow> cmp y z = 0 \<Longrightarrow> cmp x z = 0"
    and hash_cong: "cmp x y = 0 \<Longrightarrow> hash x = hash y"

text \<open>No two entries of a multiset are related.\<close>

definition pairwise_free :: "('a \<Rightarrow> 'a \<Rightarrow> bool) \<Rightarrow> 'a multiset \<Rightarrow> bool" where
  "pairwise_free R M \<longleftrightarrow> (\<forall>x\<in>#M. \<forall>y\<in>#M - {#x#}. \<not> R x y)"

definition lh_entries :: "'a lhash \<Rightarrow> 'a multiset" where
  "lh_entries lh = mset (map li_data (concat (lh_buckets lh)))"

text \<open>An item that caches the hash value of its data and belongs in bucket \<open>i\<close> of \<open>n\<close>.\<close>

definition lh_placed :: "('a \<Rightarrow> u32) \<Rightarrow> nat \<Rightarrow> nat \<Rightarrow> 'a lhash_item \<Rightarrow> bool" where
  "lh_placed hash n i it \<longleftrightarrow> li_hash it = hash (li_data it) \<and> unat (li_hash it) mod n = i"

definition lh_wf :: "'a lhash \<Rightarrow> bool" where
  "lh_wf lh \<longleftrightarrow>
     length (lh_buckets lh) = lh_num_buckets lh \<and> kMinNumBuckets \<le> lh_num_buckets lh
     \<and> lh_items lh = size (lh_entries lh)
     \<and> (\<forall>i<lh_num_buckets lh. \<forall>it\<in>set (lh_buckets lh ! i). lh_placed (lh_hash lh) (lh_num_buckets lh) i it)
     \<and> pairwise_free (\<lambda>x y. lh_comp lh x y = 0) (lh_entries lh)"

lemma pairwise_free_empty [simp]: "pairwise_free R {#}"
  by (simp add: pairwise_free_def)

lemma pairwise_free_add:
  assumes "\<And>x y. R x y \<Longrightarrow> R y x"
  shows "pairwise_free R (add_mset x M) \<longleftrightarrow> (\<forall>y\<in>#M. \<not> R x y) \<and> pairwise_free R M"
proof -
  have d: "add_mset x M - {#a#} = (if x = a then M else add_mset x (M - {#a#}))" for a by simp
  have sub: "y \<in># M - {#a#} \<Longrightarrow> y \<in># M" for y a by (rule in_diffD)
  show ?thesis
  proof
    assume l: "pairwise_free R (add_mset x M)"
    have "\<not> R a y" if "a \<in># M" "y \<in># M - {#a#}" for a y
      using l that by (auto simp: pairwise_free_def d dest: sub split: if_splits)
    with l show "(\<forall>y\<in>#M. \<not> R x y) \<and> pairwise_free R M" by (auto simp: pairwise_free_def)
  next
    assume r: "(\<forall>y\<in>#M. \<not> R x y) \<and> pairwise_free R M"
    then show "pairwise_free R (add_mset x M)"
      using assms by (auto simp: pairwise_free_def d split: if_splits)
  qed
qed

lemma mset_swap:
  "x \<in># A \<Longrightarrow> x \<in># C \<Longrightarrow> add_mset d (A - {#x#}) + C = A + add_mset d (C - {#x#})"
  by (auto dest!: multi_member_split)

lemma mset_drop: "x \<in># A \<Longrightarrow> C = add_mset x C' \<Longrightarrow> A - {#x#} + C = A + C'"
  by (auto dest!: multi_member_split)

lemma size_mset_swap: "x \<in># A \<Longrightarrow> size (add_mset d (A - {#x#})) = size A"
  by (auto dest!: multi_member_split)

lemma pairwise_free_remove:
  assumes sym: "\<And>x y. R x y \<Longrightarrow> R y x" and x: "x \<in># M" and free: "pairwise_free R M"
  shows "pairwise_free R (M - {#x#})" "\<forall>y\<in>#M - {#x#}. \<not> R x y"
proof -
  have "pairwise_free R (add_mset x (M - {#x#}))" using x free by simp
  with pairwise_free_add [of R x "M - {#x#}", OF sym]
  show "pairwise_free R (M - {#x#})" "\<forall>y\<in>#M - {#x#}. \<not> R x y" by blast+
qed

lemma pairwise_free_replace:
  assumes sym: "\<And>x y. R x y \<Longrightarrow> R y x" and trans: "\<And>x y z. R x y \<Longrightarrow> R y z \<Longrightarrow> R x z"
    and x: "x \<in># M" and free: "pairwise_free R M" and d: "R x d"
  shows "pairwise_free R (add_mset d (M - {#x#}))"
proof -
  have "\<not> R d y" if "y \<in># M - {#x#}" for y
    using pairwise_free_remove(2) [of R, OF sym x free] that trans [OF d] by blast
  with pairwise_free_remove(1) [of R, OF sym x free] pairwise_free_add [of R d "M - {#x#}", OF sym]
  show ?thesis by blast
qed

section \<open>The table as a set of entries\<close>

lemma chain_pos_le: "chain_pos cmp data chain \<le> length chain"
  by (induction chain) auto

lemma chain_pos_found:
  "chain_pos cmp data chain < length chain \<Longrightarrow> cmp (li_data (chain ! chain_pos cmp data chain)) data = 0"
  by (induction chain) auto

lemma chain_pos_missing:
  "\<not> chain_pos cmp data chain < length chain \<Longrightarrow> it \<in> set chain \<Longrightarrow> cmp (li_data it) data \<noteq> 0"
  by (induction chain) (auto split: if_splits)

text \<open>Replacing one bucket.\<close>

lemma mset_concat_update:
  "b < length bs \<Longrightarrow> mset (concat (bs[b := c])) + mset (bs ! b) = mset (concat bs) + mset c"
proof (induction bs arbitrary: b)
  case (Cons x bs)
  then show ?case by (cases b) (auto simp: ac_simps)
qed simp

lemma lh_wfD:
  assumes "lh_wf lh"
  shows "length (lh_buckets lh) = lh_num_buckets lh" "0 < lh_num_buckets lh"
    "lh_items lh = size (lh_entries lh)" "pairwise_free (\<lambda>x y. lh_comp lh x y = 0) (lh_entries lh)"
    "i < lh_num_buckets lh \<Longrightarrow> it \<in> set (lh_buckets lh ! i) \<Longrightarrow> lh_placed (lh_hash lh) (lh_num_buckets lh) i it"
  using assms unfolding lh_wf_def kMinNumBuckets_def by (blast | linarith)+

lemma lh_entries_iff:
  assumes "length (lh_buckets lh) = lh_num_buckets lh"
  shows "x \<in># lh_entries lh \<longleftrightarrow> (\<exists>i<lh_num_buckets lh. \<exists>it\<in>set (lh_buckets lh ! i). li_data it = x)"
proof -
  have "x \<in># lh_entries lh \<longleftrightarrow> (\<exists>chain\<in>set (lh_buckets lh). \<exists>it\<in>set chain. li_data it = x)"
    by (auto simp: lh_entries_def)
  also have "\<dots> \<longleftrightarrow> (\<exists>i<lh_num_buckets lh. \<exists>it\<in>set (lh_buckets lh ! i). li_data it = x)"
    using assms by (metis in_set_conv_nth)
  finally show ?thesis .
qed

text \<open>An entry is in the bucket of every element equal to it.\<close>

lemma lh_entry_bucket:
  assumes wf: "lh_wf lh" and contract: "lhash_contract (lh_hash lh) (lh_comp lh)"
    and x: "x \<in># lh_entries lh" "lh_comp lh x d = 0"
  shows "\<exists>it\<in>set (lh_buckets lh ! (unat (lh_hash lh d) mod lh_num_buckets lh)). li_data it = x"
proof -
  obtain i it where i: "i < lh_num_buckets lh" "it \<in> set (lh_buckets lh ! i)" "li_data it = x"
    using x(1) lh_entries_iff [OF lh_wfD(1) [OF wf]] by blast
  then have "unat (lh_hash lh d) mod lh_num_buckets lh = i"
    using lh_wfD(5) [OF wf i(1,2)] lhash_contract.hash_cong [OF contract x(2)]
    by (metis lh_placed_def)
  then show ?thesis using i by blast
qed

lemma lh_retrieve_iff:
  assumes wf: "lh_wf lh" and contract: "lhash_contract (lh_hash lh) (lh_comp lh)"
  shows "lh_retrieve lh d = Some x \<longleftrightarrow> x \<in># lh_entries lh \<and> lh_comp lh x d = 0"
proof -
  let ?b = "unat (lh_hash lh d) mod lh_num_buckets lh"
  let ?c = "lh_buckets lh ! ?b"
  let ?i = "chain_pos (lh_comp lh) d ?c"
  have b: "?b < lh_num_buckets lh" using lh_wfD(2) [OF wf] by simp
  have eq: "lh_retrieve lh d = (if ?i < length ?c then Some (li_data (?c ! ?i)) else None)"
    by (simp add: lh_retrieve_def get_next_ptr_and_hash_def Let_def)
  show ?thesis
  proof (cases "?i < length ?c")
    case False
    with lh_entry_bucket [OF wf contract, of x d] chain_pos_missing [OF False] show ?thesis by (auto simp: eq)
  next
    case True
    let ?y = "li_data (?c ! ?i)"
    have y: "?y \<in># lh_entries lh" "lh_comp lh ?y d = 0"
      using True b lh_entries_iff [OF lh_wfD(1) [OF wf]] chain_pos_found [OF True] by force+
    have "x = ?y" if "x \<in># lh_entries lh" "lh_comp lh x d = 0"
    proof (rule ccontr)
      assume ne: "x \<noteq> ?y"
      have "lh_comp lh x ?y = 0"
        using that(2) y(2) contract lhash_contract.cmp_sym lhash_contract.cmp_trans by metis
      moreover have "?y \<in># lh_entries lh - {#x#}" using y(1) ne by (simp add: in_diff_count)
      ultimately show False using lh_wfD(4) [OF wf] that(1) by (auto simp: pairwise_free_def)
    qed
    with y True show ?thesis by (auto simp: eq)
  qed
qed

lemma lh_retrieve_None:
  assumes "lh_wf lh" and "lhash_contract (lh_hash lh) (lh_comp lh)"
  shows "lh_retrieve lh d = None \<longleftrightarrow> (\<forall>x\<in>#lh_entries lh. lh_comp lh x d \<noteq> 0)"
  using lh_retrieve_iff [OF assms] by (metis option.exhaust option.distinct(1))

section \<open>Resizing\<close>

lemma push_items:
  assumes n: "0 < n"
  shows "length bs = n \<Longrightarrow> length (foldl (push_item n) bs its) = n
    \<and> mset (concat (foldl (push_item n) bs its)) = mset (concat bs) + mset its
    \<and> ((\<forall>i<n. \<forall>it\<in>set (bs ! i). unat (li_hash it) mod n = i) \<longrightarrow>
         (\<forall>i<n. \<forall>it\<in>set (foldl (push_item n) bs its ! i). unat (li_hash it) mod n = i))"
proof (induction its arbitrary: bs)
  case (Cons it its)
  let ?b = "unat (li_hash it) mod n"
  have b: "?b < length bs" using n Cons.prems by simp
  have push: "push_item n bs it = bs[?b := it # bs ! ?b]" by (simp add: push_item_def Let_def)
  have "mset (concat (push_item n bs it)) = add_mset it (mset (concat bs))"
    using mset_concat_update [OF b, of "it # bs ! ?b"] by (simp add: push)
  moreover have "length (push_item n bs it) = n" using Cons.prems by (simp add: push)
  moreover have "\<forall>i<n. \<forall>it'\<in>set (push_item n bs it ! i). unat (li_hash it') mod n = i"
    if "\<forall>i<n. \<forall>it\<in>set (bs ! i). unat (li_hash it) mod n = i"
    using that b Cons.prems by (auto simp: push nth_list_update)
  ultimately have push: "length (push_item n bs it) = n"
    "mset (concat (push_item n bs it)) = add_mset it (mset (concat bs))"
    "(\<forall>i<n. \<forall>it\<in>set (bs ! i). unat (li_hash it) mod n = i) \<longrightarrow>
       (\<forall>i<n. \<forall>it'\<in>set (push_item n bs it ! i). unat (li_hash it') mod n = i)" by blast+
  note IH = Cons.IH [OF push(1)]
  show ?case unfolding foldl_Cons
  proof (intro conjI impI)
    show "length (foldl (push_item n) (push_item n bs it) its) = n" using IH by blast
    show "mset (concat (foldl (push_item n) (push_item n bs it) its)) = mset (concat bs) + mset (it # its)"
      using IH push(2) by simp
  qed (use IH push(3) in blast)
qed simp

definition lh_same :: "'a lhash \<Rightarrow> 'a lhash \<Rightarrow> bool" where
  "lh_same lh lh' \<longleftrightarrow> lh_wf lh' \<and> lh_entries lh' = lh_entries lh \<and> lh_hash lh' = lh_hash lh
     \<and> lh_comp lh' = lh_comp lh \<and> lh_callback_depth lh' = lh_callback_depth lh"

lemma lh_same_refl [simp]: "lh_wf lh \<Longrightarrow> lh_same lh lh"
  by (simp add: lh_same_def)

lemma lh_rebucket_same:
  assumes wf: "lh_wf lh" and n: "kMinNumBuckets \<le> n"
  shows "lh_same lh (lh_rebucket e lh n)"
proof (cases "size_mul 8 n div 8 \<noteq> n \<or> OPENSSL_malloc e (size_mul 8 n) = None")
  case True
  with wf show ?thesis by (auto simp: lh_rebucket_def Let_def)
next
  case False
  let ?bs = "foldl (push_item n) (replicate n []) (concat (lh_buckets lh))"
  let ?lh = "lh\<lparr>lh_num_buckets := n, lh_buckets := ?bs\<rparr>"
  have eq: "lh_rebucket e lh n = ?lh" using False by (auto simp: lh_rebucket_def Let_def)
  have n0: "0 < n" using n by (simp add: kMinNumBuckets_def)
  have "concat (replicate n []) = ([] :: 'a lhash_item list)" by simp
  with push_items [OF n0, of "replicate n []" "concat (lh_buckets lh)"]
  have bs: "length ?bs = n" "mset (concat ?bs) = mset (concat (lh_buckets lh))"
    and place: "\<forall>i<n. \<forall>it\<in>set (?bs ! i). unat (li_hash it) mod n = i" by auto
  have cached: "li_hash it = lh_hash lh (li_data it)" if it: "i < n" "it \<in> set (?bs ! i)" for i it
  proof -
    have "it \<in> set (concat ?bs)" using it bs(1) by force
    then have "it \<in> set (concat (lh_buckets lh))" using bs(2) by (metis set_mset_mset)
    then obtain c where "c \<in> set (lh_buckets lh)" "it \<in> set c" by auto
    then obtain j where "j < lh_num_buckets lh" "it \<in> set (lh_buckets lh ! j)"
      using lh_wfD(1) [OF wf] by (metis in_set_conv_nth)
    then show ?thesis using lh_wfD(5) [OF wf] by (simp add: lh_placed_def)
  qed
  have entries: "lh_entries ?lh = lh_entries lh" using bs(2) by (simp add: lh_entries_def)
  have "lh_wf ?lh"
    unfolding lh_wf_def entries using n bs(1) place cached lh_wfD(3,4) [OF wf] by (simp add: lh_placed_def)
  with entries show ?thesis by (simp add: eq lh_same_def)
qed

lemma lh_maybe_resize_same:
  assumes wf: "lh_wf lh"
  shows "lh_same lh (lh_maybe_resize e lh)"
proof -
  have "kMinNumBuckets \<le> lh_num_buckets lh" using wf by (simp add: lh_wf_def)
  then show ?thesis using wf by (auto simp: lh_maybe_resize_def Let_def intro!: lh_rebucket_same)
qed

section \<open>Updates\<close>

text \<open>A table whose bucket \<open>b\<close> becomes \<open>c\<close>.\<close>

lemma lh_bucket_update:
  assumes wf: "lh_wf lh" and b: "b < lh_num_buckets lh"
    and c: "\<And>it. it \<in> set c \<Longrightarrow> lh_placed (lh_hash lh) (lh_num_buckets lh) b it"
    and M: "M + mset (map li_data (lh_buckets lh ! b)) = lh_entries lh + mset (map li_data c)"
    and free: "pairwise_free (\<lambda>x y. lh_comp lh x y = 0) M" and n: "n = size M"
  shows "lh_wf (lh\<lparr>lh_buckets := (lh_buckets lh)[b := c], lh_items := n\<rparr>)
    \<and> lh_entries (lh\<lparr>lh_buckets := (lh_buckets lh)[b := c], lh_items := n\<rparr>) = M"
proof -
  let ?bs = "(lh_buckets lh)[b := c]"
  let ?lh = "lh\<lparr>lh_buckets := ?bs, lh_items := n\<rparr>"
  note l = lh_wfD(1) [OF wf]
  have "image_mset li_data (mset (concat ?bs)) + mset (map li_data (lh_buckets lh ! b))
      = M + mset (map li_data (lh_buckets lh ! b))"
    using arg_cong [OF mset_concat_update [of b "lh_buckets lh" c], of "image_mset li_data"] b l M
    by (simp add: lh_entries_def)
  then have entries: "lh_entries ?lh = M" by (simp add: lh_entries_def)
  have "lh_placed (lh_hash lh) (lh_num_buckets lh) i it"
    if "i < lh_num_buckets lh" "it \<in> set (?bs ! i)" for i it
    using that c lh_wfD(5) [OF wf that(1)] l by (cases "i = b") auto
  then have "lh_wf ?lh"
    using wf l free n entries unfolding lh_wf_def by auto
  with entries show ?thesis by simp
qed

lemma lh_place:
  assumes wf: "lh_wf lh" and g: "get_next_ptr_and_hash lh d = (b, i, h)"
  shows "b < lh_num_buckets lh" "h = lh_hash lh d" "unat h mod lh_num_buckets lh = b"
    "i = chain_pos (lh_comp lh) d (lh_buckets lh ! b)"
  using g lh_wfD(2) [OF wf] by (auto simp: get_next_ptr_and_hash_def Let_def)

lemma lh_insert_ok:
  assumes wf: "lh_wf lh" and contract: "lhash_contract (lh_hash lh) (lh_comp lh)"
    and ins: "lh_insert e lh d = (True, old, lh')"
  shows "lh_wf lh' \<and> lh_hash lh' = lh_hash lh \<and> lh_comp lh' = lh_comp lh
    \<and> lh_callback_depth lh' = lh_callback_depth lh \<and> old = lh_retrieve lh d
    \<and> lh_entries lh' = add_mset d (lh_entries lh - (case old of None \<Rightarrow> {#} | Some x \<Rightarrow> {#x#}))"
proof -
  note sym = lhash_contract.cmp_sym [OF contract] and trans = lhash_contract.cmp_trans [OF contract]
  obtain b i h where g: "get_next_ptr_and_hash lh d = (b, i, h)" by (rule prod_cases3)
  note p = lh_place [OF wf g]
  let ?c = "lh_buckets lh ! b" and ?R = "\<lambda>x y. lh_comp lh x y = 0"
  have free: "pairwise_free ?R (lh_entries lh)" by (rule lh_wfD(4) [OF wf])
  have placed: "\<And>it. it \<in> set ?c \<Longrightarrow> lh_placed (lh_hash lh) (lh_num_buckets lh) b it"
    using lh_wfD(5) [OF wf p(1)] by blast
  show ?thesis
  proof (cases "i < length ?c")
    case True
    let ?x = "li_data (?c ! i)" and ?c' = "?c[i := (?c ! i)\<lparr>li_data := d\<rparr>]"
    have xd: "lh_comp lh ?x d = 0" using True p(4) chain_pos_found by metis
    have x: "?x \<in># lh_entries lh" using True p(1) lh_entries_iff [OF lh_wfD(1) [OF wf]] nth_mem by blast
    have res: "old = Some ?x" "lh' = lh\<lparr>lh_buckets := (lh_buckets lh)[b := ?c'], lh_items := lh_items lh\<rparr>"
      using ins True by (auto simp: lh_insert_def g Let_def)
    let ?M = "add_mset d (lh_entries lh - {#?x#})"
    have "lh_placed (lh_hash lh) (lh_num_buckets lh) b ((?c ! i)\<lparr>li_data := d\<rparr>)"
      using placed [of "?c ! i"] True lhash_contract.hash_cong [OF contract xd] p(2,3)
      by (simp add: lh_placed_def)
    then have c': "lh_placed (lh_hash lh) (lh_num_buckets lh) b it" if "it \<in> set ?c'" for it
      using that placed set_update_subset_insert [of ?c i] by blast
    have "mset (map li_data ?c') = add_mset d (mset (map li_data ?c) - {#?x#})"
      using True by (simp add: map_update mset_update)
    moreover have "?x \<in># mset (map li_data ?c)" using True by simp
    ultimately have M: "?M + mset (map li_data ?c) = lh_entries lh + mset (map li_data ?c')"
      using mset_swap [OF x, of "mset (map li_data ?c)" d] by simp
    have "pairwise_free ?R ?M" by (rule pairwise_free_replace [OF _ _ x free]) (fact sym trans xd)+
    moreover have "lh_items lh = size ?M" using size_mset_swap [OF x] lh_wfD(3) [OF wf] by metis
    ultimately have "lh_wf lh' \<and> lh_entries lh' = ?M"
      unfolding res(2) by (intro lh_bucket_update [OF wf p(1) c' M])
    moreover have "lh_retrieve lh d = Some ?x" using lh_retrieve_iff [OF wf contract] x xd by blast
    ultimately show ?thesis using res by simp
  next
    case False
    let ?c' = "?c @ [\<lparr>li_data = d, li_hash = h\<rparr>]"
    let ?lh1 = "lh\<lparr>lh_buckets := (lh_buckets lh)[b := ?c'], lh_items := lh_items lh + 1\<rparr>"
    have res: "old = None" "lh' = lh_maybe_resize e ?lh1"
      using ins False by (auto simp: lh_insert_def g Let_def split: option.splits)
    have none: "lh_retrieve lh d = None" using False by (simp add: lh_retrieve_def g Let_def)
    then have new: "\<forall>y\<in>#lh_entries lh. \<not> ?R d y" using lh_retrieve_None [OF wf contract] sym by blast
    have c': "lh_placed (lh_hash lh) (lh_num_buckets lh) b it" if "it \<in> set ?c'" for it
      using that placed p(2,3) by (auto simp: lh_placed_def)
    have M: "add_mset d (lh_entries lh) + mset (map li_data ?c) = lh_entries lh + mset (map li_data ?c')" by simp
    have "pairwise_free ?R (add_mset d (lh_entries lh))"
      using pairwise_free_add [of ?R d "lh_entries lh"] sym free new by blast
    then have "lh_wf ?lh1 \<and> lh_entries ?lh1 = add_mset d (lh_entries lh)"
      by (intro lh_bucket_update [OF wf p(1) c' M]) (simp_all add: lh_wfD(3) [OF wf])
    moreover from this have "lh_same ?lh1 lh'" unfolding res(2) by (intro lh_maybe_resize_same) simp
    ultimately show ?thesis using res(1) none by (simp add: lh_same_def)
  qed
qed

lemma lh_insert_fail: "lh_insert e lh d = (False, old, lh') \<Longrightarrow> lh' = lh \<and> old = None"
  by (auto simp: lh_insert_def Let_def split: prod.splits if_splits option.splits)

lemma lh_delete_ok:
  assumes wf: "lh_wf lh" and contract: "lhash_contract (lh_hash lh) (lh_comp lh)"
    and del: "lh_delete e lh d = (old, lh')"
  shows "lh_wf lh' \<and> lh_hash lh' = lh_hash lh \<and> lh_comp lh' = lh_comp lh
    \<and> lh_callback_depth lh' = lh_callback_depth lh \<and> old = lh_retrieve lh d
    \<and> lh_entries lh' = lh_entries lh - (case old of None \<Rightarrow> {#} | Some x \<Rightarrow> {#x#})"
proof -
  obtain b i h where g: "get_next_ptr_and_hash lh d = (b, i, h)" by (rule prod_cases3)
  note p = lh_place [OF wf g]
  let ?c = "lh_buckets lh ! b" and ?R = "\<lambda>x y. lh_comp lh x y = 0"
  have placed: "\<And>it. it \<in> set ?c \<Longrightarrow> lh_placed (lh_hash lh) (lh_num_buckets lh) b it"
    using lh_wfD(5) [OF wf p(1)] by blast
  show ?thesis
  proof (cases "i < length ?c")
    case False
    then have "lh_retrieve lh d = None" by (simp add: lh_retrieve_def g Let_def)
    moreover have "lh_delete e lh d = (None, lh)" using False by (simp add: lh_delete_def g Let_def)
    ultimately show ?thesis using wf del by simp
  next
    case True
    let ?x = "li_data (?c ! i)" and ?c' = "take i ?c @ drop (Suc i) ?c"
    let ?lh1 = "lh\<lparr>lh_buckets := (lh_buckets lh)[b := ?c'], lh_items := lh_items lh - 1\<rparr>"
    have xd: "lh_comp lh ?x d = 0" using True p(4) chain_pos_found by metis
    have x: "?x \<in># lh_entries lh" using True p(1) lh_entries_iff [OF lh_wfD(1) [OF wf]] nth_mem by blast
    have res: "old = Some ?x" "lh' = lh_maybe_resize e ?lh1" using del True by (auto simp: lh_delete_def g Let_def)
    have c': "lh_placed (lh_hash lh) (lh_num_buckets lh) b it" if "it \<in> set ?c'" for it
      using that placed by (auto dest: in_set_takeD in_set_dropD)
    have "mset (map li_data ?c) = add_mset ?x (mset (map li_data ?c'))"
      by (subst id_take_nth_drop [OF True]) simp
    then have M: "lh_entries lh - {#?x#} + mset (map li_data ?c) = lh_entries lh + mset (map li_data ?c')"
      by (rule mset_drop [OF x])
    have "pairwise_free ?R (lh_entries lh - {#?x#})"
      by (rule pairwise_free_remove(1) [OF _ x lh_wfD(4) [OF wf]]) (rule lhash_contract.cmp_sym [OF contract])
    then have "lh_wf ?lh1 \<and> lh_entries ?lh1 = lh_entries lh - {#?x#}"
      by (intro lh_bucket_update [OF wf p(1) c' M]) (simp_all add: lh_wfD(3) [OF wf] size_Diff_singleton x)
    moreover from this have "lh_same ?lh1 lh'" unfolding res(2) by (intro lh_maybe_resize_same) simp
    moreover have "lh_retrieve lh d = Some ?x" using lh_retrieve_iff [OF wf contract] x xd by blast
    ultimately show ?thesis using res(1) by (simp add: lh_same_def)
  qed
qed

lemma option_eqI: "(\<And>z. a = Some z \<longleftrightarrow> b = Some z) \<Longrightarrow> a = b"
  by (cases a; cases b) auto

lemma lh_entry_alone:
  assumes "lh_wf lh" and "x \<in># lh_entries lh" and "z \<in># lh_entries lh - {#x#}"
  shows "lh_comp lh x z \<noteq> 0"
  using lh_wfD(4) [OF assms(1)] assms(2,3) by (auto simp: pairwise_free_def)

lemma lh_insert_look:
  assumes wf: "lh_wf lh" and contract: "lhash_contract (lh_hash lh) (lh_comp lh)"
    and ins: "lh_insert e lh d = (True, old, lh')"
  shows "lh_retrieve lh' y = (if lh_comp lh d y = 0 then Some d else lh_retrieve lh y)"
proof -
  note sym = lhash_contract.cmp_sym [OF contract] and trans = lhash_contract.cmp_trans [OF contract]
  let ?E = "lh_entries lh - (case old of None \<Rightarrow> {#} | Some x \<Rightarrow> {#x#})"
  note ok = lh_insert_ok [OF wf contract ins]
  have look': "lh_retrieve lh' y = Some z \<longleftrightarrow> (z = d \<or> z \<in># ?E) \<and> lh_comp lh z y = 0" for z
    using lh_retrieve_iff [of lh' y z] ok contract by auto
  have old: "old = Some x \<longleftrightarrow> x \<in># lh_entries lh \<and> lh_comp lh x d = 0" for x
    using lh_retrieve_iff [OF wf contract] ok by simp
  show ?thesis
  proof (cases "lh_comp lh d y = 0")
    case True
    have "lh_comp lh z d \<noteq> 0" if z: "z \<in># ?E" for z
    proof
      assume zd: "lh_comp lh z d = 0"
      have "z \<in># lh_entries lh" using z by (auto split: option.splits dest: in_diffD)
      with zd old have "old = Some z" by blast
      with z lh_entry_alone [OF wf \<open>z \<in># lh_entries lh\<close>] lhash_contract.cmp_refl [OF contract]
      show False by auto
    qed
    then show ?thesis using True look' [of d] by simp
  next
    case False
    have "lh_retrieve lh' y = Some z \<longleftrightarrow> lh_retrieve lh y = Some z" for z
    proof -
      have "z \<in># ?E \<longleftrightarrow> z \<in># lh_entries lh" if "lh_comp lh z y = 0"
      proof (cases old)
        case (Some x)
        have "x \<noteq> z" using False Some old that sym trans by blast
        then show ?thesis using Some by (simp add: in_diff_count)
      qed simp
      then show ?thesis using look' [of z] lh_retrieve_iff [OF wf contract, of y z] False by auto
    qed
    then show ?thesis using False by (simp add: option_eqI)
  qed
qed

lemma lh_delete_look:
  assumes wf: "lh_wf lh" and contract: "lhash_contract (lh_hash lh) (lh_comp lh)"
    and del: "lh_delete e lh d = (old, lh')"
  shows "lh_retrieve lh' y = (if lh_comp lh d y = 0 then None else lh_retrieve lh y)"
proof -
  note sym = lhash_contract.cmp_sym [OF contract] and trans = lhash_contract.cmp_trans [OF contract]
  let ?E = "lh_entries lh - (case old of None \<Rightarrow> {#} | Some x \<Rightarrow> {#x#})"
  note ok = lh_delete_ok [OF wf contract del]
  have old: "old = Some x \<longleftrightarrow> x \<in># lh_entries lh \<and> lh_comp lh x d = 0" for x
    using lh_retrieve_iff [OF wf contract] ok by simp
  have "z \<in># ?E \<and> lh_comp lh z y = 0 \<longleftrightarrow> lh_comp lh d y \<noteq> 0 \<and> z \<in># lh_entries lh \<and> lh_comp lh z y = 0" for z
  proof (cases "z \<in># lh_entries lh \<and> lh_comp lh z y = 0")
    case True
    show ?thesis
    proof (cases "lh_comp lh z d = 0")
      case zd: True
      then have "old = Some z" "lh_comp lh d y = 0" using True old sym trans by blast+
      with lh_entry_alone [OF wf] lhash_contract.cmp_refl [OF contract] True show ?thesis by auto
    next
      case False
      then have "lh_comp lh d y \<noteq> 0" using True sym trans by blast
      moreover have "z \<in># ?E" using False old True by (cases old) (auto simp: in_diff_count)
      ultimately show ?thesis using True by simp
    qed
  qed (auto split: option.splits dest: in_diffD)
  then have "lh_retrieve lh' y = Some z \<longleftrightarrow> lh_comp lh d y \<noteq> 0 \<and> lh_retrieve lh y = Some z" for z
    using lh_retrieve_iff [of lh' y z] lh_retrieve_iff [OF wf contract, of y z] ok contract by simp
  then show ?thesis by (auto intro: option_eqI)
qed

lemma lh_retrieve_cong:
  assumes wf: "lh_wf lh" and contract: "lhash_contract (lh_hash lh) (lh_comp lh)" and xy: "lh_comp lh x y = 0"
  shows "lh_retrieve lh x = lh_retrieve lh y"
proof (rule option_eqI)
  fix z
  have "lh_comp lh z x = 0 \<longleftrightarrow> lh_comp lh z y = 0"
    using lhash_contract.cmp_sym [OF contract xy] lhash_contract.cmp_trans [OF contract] xy by blast
  then show "lh_retrieve lh x = Some z \<longleftrightarrow> lh_retrieve lh y = Some z"
    by (simp add: lh_retrieve_iff [OF wf contract])
qed

section \<open>The interface\<close>

definition lh_good :: "env \<times> 'a lhash \<Rightarrow> bool" where
  "lh_good = (\<lambda>(e, lh). lh_wf lh \<and> lhash_contract (lh_hash lh) (lh_comp lh))"

definition lh_equal :: "env \<times> 'a lhash \<Rightarrow> 'a \<Rightarrow> 'a \<Rightarrow> bool" where
  "lh_equal = (\<lambda>(e, lh) x y. lh_comp lh x y = 0)"

definition lh_look :: "env \<times> 'a lhash \<Rightarrow> 'a \<Rightarrow> 'a option" where
  "lh_look = (\<lambda>(e, lh). lh_retrieve lh)"

definition lh_ins :: "env \<times> 'a lhash \<Rightarrow> 'a \<Rightarrow> (env \<times> 'a lhash) option" where
  "lh_ins = (\<lambda>(e, lh) d. case lh_insert e lh d of (ok, _, lh') \<Rightarrow> if ok then Some (e, lh') else None)"

definition lh_del :: "env \<times> 'a lhash \<Rightarrow> 'a \<Rightarrow> env \<times> 'a lhash" where
  "lh_del = (\<lambda>(e, lh) d. (e, snd (lh_delete e lh d)))"

lemmas lh_store_defs = lh_good_def lh_equal_def lh_look_def lh_ins_def lh_del_def

lemma lh_ins_Some: "lh_ins (e, lh) d = Some es' \<longleftrightarrow> (\<exists>old lh'. lh_insert e lh d = (True, old, lh') \<and> es' = (e, lh'))"
  by (auto simp: lh_ins_def split: prod.splits)

interpretation lh: keyed_store lh_good lh_equal lh_look lh_ins lh_del
proof (unfold_locales, goal_cases)
  case (1 es x)
  then show ?case by (auto simp: lh_store_defs lhash_contract.cmp_refl)
next
  case (2 es x y)
  then show ?case by (auto simp: lh_store_defs intro: lhash_contract.cmp_sym)
next
  case (3 es x y z)
  then show ?case by (auto simp: lh_store_defs intro: lhash_contract.cmp_trans)
next
  case (4 es x y)
  then show ?case
    using lh_retrieve_iff [of "snd es" x y] lhash_contract.cmp_sym
    by (auto simp: lh_good_def lh_equal_def lh_look_def split_beta)
next
  case (5 es x y)
  then show ?case using lh_retrieve_cong [of "snd es" x y]
    by (auto simp: lh_good_def lh_equal_def lh_look_def split_beta)
next
  case (6 es x es')
  obtain e lh where es: "es = (e, lh)" by (rule prod.exhaust)
  with 6 obtain old lh' where ins: "lh_insert e lh x = (True, old, lh')" "es' = (e, lh')"
    by (auto simp: lh_ins_Some)
  from 6 es have "lh_wf lh" "lhash_contract (lh_hash lh) (lh_comp lh)" by (auto simp: lh_good_def)
  from lh_insert_ok [OF this ins(1)] this(2) show ?case by (simp add: es ins(2) lh_good_def lh_equal_def)
next
  case (7 es x es' y)
  obtain e lh where es: "es = (e, lh)" by (rule prod.exhaust)
  with 7 obtain old lh' where ins: "lh_insert e lh x = (True, old, lh')" "es' = (e, lh')"
    by (auto simp: lh_ins_Some)
  from 7 es have "lh_wf lh" "lhash_contract (lh_hash lh) (lh_comp lh)" by (auto simp: lh_good_def)
  from lh_insert_look [OF this ins(1)] show ?case by (simp add: es ins(2) lh_equal_def lh_look_def)
next
  case (8 es x)
  obtain e lh where es: "es = (e, lh)" by (rule prod.exhaust)
  obtain old lh' where del: "lh_delete e lh x = (old, lh')" by (rule prod.exhaust)
  from 8 es have "lh_wf lh" "lhash_contract (lh_hash lh) (lh_comp lh)" by (auto simp: lh_good_def)
  from lh_delete_ok [OF this del] this(2) show ?case by (simp add: es del lh_good_def lh_equal_def lh_del_def)
next
  case (9 es x y)
  obtain e lh where es: "es = (e, lh)" by (rule prod.exhaust)
  obtain old lh' where del: "lh_delete e lh x = (old, lh')" by (rule prod.exhaust)
  from 9 es have "lh_wf lh" "lhash_contract (lh_hash lh) (lh_comp lh)" by (auto simp: lh_good_def)
  from lh_delete_look [OF this del] show ?case by (simp add: es del lh_equal_def lh_look_def lh_del_def)
qed

section \<open>Load factor\<close>

text \<open>Chains are at most two long on average, and a table that has grown does not stay
  larger than its content.\<close>

definition lh_load_ok :: "'a lhash \<Rightarrow> bool" where
  "lh_load_ok lh \<longleftrightarrow> lh_items lh < 3 * lh_num_buckets lh
     \<and> (lh_num_buckets lh = kMinNumBuckets \<or> lh_num_buckets lh \<le> lh_items lh)"

lemma lh_rebucket_granted:
  assumes "malloc_ok e (8 * n + OPENSSL_MALLOC_PREFIX)" and "8 * n + OPENSSL_MALLOC_PREFIX \<le> SIZE_MAX"
  shows "lh_num_buckets (lh_rebucket e lh n) = n \<and> lh_items (lh_rebucket e lh n) = lh_items lh"
proof -
  have m: "size_mul 8 n = 8 * n" using assms(2) by (simp add: size_simps)
  have "OPENSSL_malloc e (8 * n) \<noteq> None" using assms OPENSSL_malloc_Some_iff [of "8 * n" e] by blast
  then show ?thesis by (auto simp: lh_rebucket_def m Let_def)
qed

lemma lh_resize_grow:
  assumes items: "lh_items lh \<le> 3 * n" and n: "lh_num_buckets lh = n" "16 \<le> n" "n = 16 \<or> n \<le> lh_items lh"
    and depth: "lh_callback_depth lh = 0"
    and grant: "malloc_ok e (8 * (2 * n) + OPENSSL_MALLOC_PREFIX)" "8 * (2 * n) + OPENSSL_MALLOC_PREFIX \<le> SIZE_MAX"
  shows "lh_load_ok (lh_maybe_resize e lh)"
proof (cases "lh_items lh = 3 * n")
  case True
  have "size_mul n 2 = 2 * n" using grant(2) by (simp add: size_simps)
  moreover have "lh_items lh div n = 3" using True n by simp
  ultimately have "lh_maybe_resize e lh = lh_rebucket e lh (2 * n)"
    using n depth by (simp add: lh_maybe_resize_def kMaxAverageChainLength_def)
  then show ?thesis using lh_rebucket_granted [OF grant, of lh] True n by (simp add: lh_load_ok_def)
next
  case False
  then have "lh_items lh < 3 * n" using items by simp
  then have "lh_items lh div n < 3" using n by (simp add: less_mult_imp_div_less)
  moreover have "\<not> (lh_items lh div n < 1 \<and> 16 < n)" using n by (auto simp: div_eq_0_iff)
  ultimately have "lh_maybe_resize e lh = lh"
    using n depth by (auto simp: lh_maybe_resize_def Let_def kMaxAverageChainLength_def
        kMinAverageChainLength_def kMinNumBuckets_def)
  then show ?thesis using False items n by (auto simp: lh_load_ok_def kMinNumBuckets_def)
qed

lemma lh_resize_shrink:
  assumes items: "lh_items lh < 3 * n" and n: "lh_num_buckets lh = n" "16 \<le> n" "n = 16 \<or> n \<le> Suc (lh_items lh)"
    and depth: "lh_callback_depth lh = 0"
    and grant: "\<And>k. k \<le> n \<Longrightarrow> malloc_ok e (8 * k + OPENSSL_MALLOC_PREFIX)" "8 * n + OPENSSL_MALLOC_PREFIX \<le> SIZE_MAX"
  shows "lh_load_ok (lh_maybe_resize e lh)"
proof -
  have avg: "lh_items lh div n < 3" using items n by (simp add: less_mult_imp_div_less)
  let ?k = "if n div 2 < 16 then 16 else n div 2"
  show ?thesis
  proof (cases "lh_items lh < n \<and> 16 < n")
    case True
    then have "lh_maybe_resize e lh = lh_rebucket e lh ?k"
      using n depth by (simp add: lh_maybe_resize_def Let_def kMaxAverageChainLength_def
          kMinAverageChainLength_def kMinNumBuckets_def)
    moreover have "?k \<le> n" using True by auto
    then have "lh_num_buckets (lh_rebucket e lh ?k) = ?k \<and> lh_items (lh_rebucket e lh ?k) = lh_items lh"
      using grant by (intro lh_rebucket_granted) auto
    ultimately show ?thesis using True n by (auto simp: lh_load_ok_def kMinNumBuckets_def)
  next
    case False
    then have "\<not> (lh_items lh div n < 1 \<and> 16 < n)" using n by (auto simp: div_eq_0_iff)
    then have "lh_maybe_resize e lh = lh"
      using n depth avg by (auto simp: lh_maybe_resize_def Let_def kMaxAverageChainLength_def
          kMinAverageChainLength_def kMinNumBuckets_def)
    then show ?thesis using False items n by (auto simp: lh_load_ok_def kMinNumBuckets_def)
  qed
qed

section \<open>Properties\<close>

text \<open>C28: the table is a map from elements up to the comparison. On a well-formed table
  whose functions keep their contract, an insertion that succeeds makes exactly the
  elements equal to the new one map to it and reports what it replaced; one that fails
  for lack of memory changes nothing; a deletion unmaps exactly the elements equal to
  its argument and returns the entry removed; the item count follows; and growing or
  shrinking the bucket array on the way changes no lookup.\<close>

theorem lh_refines_map:
  assumes "lh_wf lh" and "lhash_contract (lh_hash lh) (lh_comp lh)"
  shows "(case lh_insert e lh d of (ok, old, lh') \<Rightarrow>
       if ok then lh_wf lh' \<and> old = lh_retrieve lh d
         \<and> (\<forall>y. lh_retrieve lh' y = (if lh_comp lh d y = 0 then Some d else lh_retrieve lh y))
         \<and> lh_num_items lh' = lh_num_items lh + (if old = None then 1 else 0)
       else lh' = lh \<and> old = None)
    \<and> (case lh_delete e lh d of (old, lh') \<Rightarrow> lh_wf lh' \<and> old = lh_retrieve lh d
         \<and> (\<forall>y. lh_retrieve lh' y = (if lh_comp lh d y = 0 then None else lh_retrieve lh y))
         \<and> lh_num_items lh' = lh_num_items lh - (if old = None then 0 else 1))
    \<and> (\<forall>x. lh_retrieve lh d = Some x \<longrightarrow> lh_comp lh x d = 0)"
proof (intro conjI)
  have size: "lh_num_items l = size (lh_entries l)" if "lh_wf l" for l :: "'a lhash"
    using lh_wfD(3) [OF that] by (simp add: lh_num_items_def)
  have found: "lh_retrieve lh d = Some x \<Longrightarrow> x \<in># lh_entries lh" for x
    by (simp add: lh_retrieve_iff [OF assms])
  obtain ok old lh' where ins: "lh_insert e lh d = (ok, old, lh')" by (rule prod_cases3)
  have "lh_wf lh' \<and> old = lh_retrieve lh d
         \<and> (\<forall>y. lh_retrieve lh' y = (if lh_comp lh d y = 0 then Some d else lh_retrieve lh y))
         \<and> lh_num_items lh' = lh_num_items lh + (if old = None then 1 else 0)" if ok
  proof -
    from ins that have i: "lh_insert e lh d = (True, old, lh')" by simp
    note ok = lh_insert_ok [OF assms i]
    have "lh_num_items lh' = lh_num_items lh + (if old = None then 1 else 0)"
      using ok size [OF assms(1)] size [of lh'] found size_mset_swap [of _ "lh_entries lh" d]
      by (cases "lh_retrieve lh d") auto
    with ok lh_insert_look [OF assms i] show ?thesis by simp
  qed
  note granted = this
  show "case lh_insert e lh d of (ok, old, lh') \<Rightarrow>
       if ok then lh_wf lh' \<and> old = lh_retrieve lh d
         \<and> (\<forall>y. lh_retrieve lh' y = (if lh_comp lh d y = 0 then Some d else lh_retrieve lh y))
         \<and> lh_num_items lh' = lh_num_items lh + (if old = None then 1 else 0)
       else lh' = lh \<and> old = None"
  proof (cases ok)
    case True
    show ?thesis unfolding ins prod.case if_P [OF True] by (rule granted [OF True])
  next
    case False
    show ?thesis unfolding ins prod.case if_not_P [OF False] 
      by (rule lh_insert_fail) (use ins False in simp)
  qed
  obtain old lh' where del: "lh_delete e lh d = (old, lh')" by (rule prod.exhaust)
  note ok = lh_delete_ok [OF assms del]
  have "lh_num_items lh' = lh_num_items lh - (if old = None then 0 else 1)"
    using ok size [OF assms(1)] size [of lh'] found
    by (cases "lh_retrieve lh d") (auto simp: size_Diff_singleton)
  with ok lh_delete_look [OF assms del]
  show "case lh_delete e lh d of (old, lh') \<Rightarrow> lh_wf lh' \<and> old = lh_retrieve lh d
         \<and> (\<forall>y. lh_retrieve lh' y = (if lh_comp lh d y = 0 then None else lh_retrieve lh y))
         \<and> lh_num_items lh' = lh_num_items lh - (if old = None then 0 else 1)"
    by (simp add: del)
qed (simp add: lh_retrieve_iff [OF assms])

text \<open>A table of numbers that are equal modulo sixteen, for concrete instances.\<close>

definition small_lhash :: "nat lhash" where
  "small_lhash = \<lparr>lh_items = 1, lh_buckets = (replicate 16 [])[3 := [\<lparr>li_data = 35, li_hash = 3\<rparr>]],
     lh_num_buckets = 16, lh_callback_depth = 0, lh_comp = (\<lambda>x y. int (x mod 16) - int (y mod 16)),
     lh_hash = (\<lambda>x. word_of_nat (x mod 16))\<rparr>"

lemma small_lhash_facts:
  "lh_wf small_lhash" "lhash_contract (lh_hash small_lhash) (lh_comp small_lhash)"
  "lh_entries small_lhash = {#35#}"
proof -
  have "mset (concat (lh_buckets small_lhash)) = {#\<lparr>li_data = 35, li_hash = 3\<rparr>#}"
    using mset_concat_update [of 3 "replicate 16 []" "[\<lparr>li_data = 35, li_hash = 3\<rparr> :: nat lhash_item]"]
    by (simp add: small_lhash_def)
  then show e: "lh_entries small_lhash = {#35#}" by (simp add: lh_entries_def)
  have "\<forall>i<16. \<forall>it\<in>set (lh_buckets small_lhash ! i). lh_placed (lh_hash small_lhash) 16 i it"
    by (auto simp: small_lhash_def nth_list_update lh_placed_def split: if_splits)
  then show "lh_wf small_lhash"
    using e by (simp add: lh_wf_def small_lhash_def kMinNumBuckets_def pairwise_free_def)
  show "lhash_contract (lh_hash small_lhash) (lh_comp small_lhash)"
    by unfold_locales (auto simp: small_lhash_def)
qed

theorem lh_refines_map_witness:
  "case lh_delete \<lparr>malloc_ok = \<lambda>_. True, fresh = \<lambda>_. 0\<rparr> small_lhash 19 of (old, lh') \<Rightarrow>
     old = Some 35 \<and> lh_retrieve lh' 51 = None \<and> lh_num_items lh' = 0"
proof -
  have "lh_retrieve small_lhash 19 = Some 35"
    by (simp add: lh_retrieve_def get_next_ptr_and_hash_def small_lhash_def)
  moreover have "lh_comp small_lhash 19 51 = 0" "lh_num_items small_lhash = 1"
    by (simp_all add: small_lhash_def lh_num_items_def)
  ultimately show ?thesis
    using lh_refines_map [OF small_lhash_facts(1,2), where e = "\<lparr>malloc_ok = \<lambda>_. True, fresh = \<lambda>_. 0\<rparr>" and d = 19]
    by (auto split: prod.splits)
qed

text \<open>C29: load and look up. A table made by \<open>lh_new\<close> and loaded with a list of elements
  gives, for every key, the last element of the list equal to it, and nothing for the
  others; that the table may have been rebucketed several times while loading is not
  visible.\<close>

theorem lh_load_lookup:
  assumes "lhash_contract hash cmp" and "lh_new e hash cmp = Some lh"
    and "insert_all lh_ins (e, lh) xs = Some es"
  shows "lh_retrieve (snd es) y = List.find (\<lambda>x. cmp x y = 0) (rev xs)"
proof -
  have lh: "lh = \<lparr>lh_items = 0, lh_buckets = replicate 16 [], lh_num_buckets = 16, lh_callback_depth = 0,
      lh_comp = cmp, lh_hash = hash\<rparr>"
    using assms(2) by (auto simp: lh_new_def kMinNumBuckets_def split: option.splits)
  have "concat (replicate 16 []) = ([] :: 'a lhash_item list)" by simp
  then have "lh_wf lh" by (auto simp: lh lh_wf_def lh_entries_def kMinNumBuckets_def)
  with assms(1) have good: "lh_good (e, lh)" by (simp add: lh lh_good_def)
  have none: "lh_look (e, lh) y = None"
    by (simp add: lh_look_def lh lh_retrieve_def get_next_ptr_and_hash_def Let_def)
  have same: "lh_equal (e, lh) = (\<lambda>x y. cmp x y = 0)" by (simp add: lh_equal_def lh)
  have look: "lh_retrieve (snd es) y = lh_look es y" by (simp add: lh_look_def split_beta)
  show ?thesis
    using lh.insert_all_look [OF good assms(3), of y] unfolding look
    by (simp add: none same split: option.splits)
qed

theorem lh_load_lookup_witness:
  "\<exists>lh es. lh_new \<lparr>malloc_ok = \<lambda>n. n \<le> 4096, fresh = \<lambda>_. 0\<rparr> (lh_hash small_lhash) (lh_comp small_lhash) = Some lh
    \<and> insert_all lh_ins (\<lparr>malloc_ok = \<lambda>n. n \<le> 4096, fresh = \<lambda>_. 0\<rparr>, lh) [5, 7, 21] = Some es
    \<and> lh_retrieve (snd es) 37 = Some 21"
proof -
  let ?e = "\<lparr>malloc_ok = \<lambda>n. n \<le> 4096, fresh = \<lambda>_. 0\<rparr>"
  obtain lh where lh: "lh_new ?e (lh_hash small_lhash) (lh_comp small_lhash) = Some lh"
    by (simp add: lh_new_def OPENSSL_malloc_def Let_def size_add_def SIZE_MAX_def OPENSSL_MALLOC_PREFIX_def
        kMinNumBuckets_def)
  have g: "OPENSSL_malloc ?e 24 \<noteq> None"
    by (simp add: OPENSSL_malloc_def size_add_def SIZE_MAX_def OPENSSL_MALLOC_PREFIX_def)
  have ins: "lh_ins (?e, l) x \<noteq> None \<and> (\<forall>es. lh_ins (?e, l) x = Some es \<longrightarrow> fst es = ?e)" for l :: "nat lhash" and x
    using g by (auto simp: lh_ins_def lh_insert_def Let_def split: prod.splits option.splits)
  have "\<exists>es'. insert_all lh_ins es xs = Some es'" if "fst es = ?e" for es :: "env \<times> nat lhash" and xs
    using that
  proof (induction xs arbitrary: es)
    case (Cons x xs)
    then obtain es1 where "lh_ins es x = Some es1" "fst es1 = ?e" using ins [of "snd es" x] by (cases es) auto
    with Cons.IH show ?case by simp
  qed simp
  then obtain es where es: "insert_all lh_ins (?e, lh) [5, 7, 21] = Some es" by (metis fst_conv)
  have "lh_retrieve (snd es) 37 = Some 21"
    using lh_load_lookup [OF small_lhash_facts(2) lh es, of 37] by (simp add: small_lhash_def)
  with lh es show ?thesis by blast
qed

text \<open>C30: chains stay short. Outside callbacks, and when the allocator serves the new
  bucket array, insertion and deletion keep the average chain below three, and keep a
  table of more than sixteen buckets no larger than its number of items.\<close>

theorem lh_load_bounded:
  assumes "lh_wf lh" and "lh_load_ok lh" and "lh_callback_depth lh = 0"
    and "\<forall>k\<le>2 * lh_num_buckets lh. malloc_ok e (8 * k + OPENSSL_MALLOC_PREFIX)"
    and "16 * lh_num_buckets lh + OPENSSL_MALLOC_PREFIX \<le> SIZE_MAX"
  shows "lh_load_ok (snd (snd (lh_insert e lh d))) \<and> lh_load_ok (snd (lh_delete e lh d))"
proof
  obtain b i h where g: "get_next_ptr_and_hash lh d = (b, i, h)" by (rule prod_cases3)
  let ?n = "lh_num_buckets lh" and ?c = "lh_buckets lh ! b"
  have n: "16 \<le> ?n" using assms(1) by (simp add: lh_wf_def kMinNumBuckets_def)
  have load: "lh_items lh < 3 * ?n" "?n = 16 \<or> ?n \<le> lh_items lh"
    using assms(2) by (auto simp: lh_load_ok_def kMinNumBuckets_def)
  show "lh_load_ok (snd (snd (lh_insert e lh d)))"
  proof (cases "i < length ?c \<or> OPENSSL_malloc e 24 = None")
    case True
    with assms(2) show ?thesis by (auto simp: lh_insert_def g Let_def lh_load_ok_def)
  next
    case False
    let ?lh1 = "lh\<lparr>lh_buckets := (lh_buckets lh)[b := ?c @ [\<lparr>li_data = d, li_hash = h\<rparr>]], lh_items := lh_items lh + 1\<rparr>"
    have "lh_load_ok (lh_maybe_resize e ?lh1)"
      by (rule lh_resize_grow [of _ ?n]) (use n load assms(3-5) in auto)
    with False show ?thesis by (auto simp: lh_insert_def g Let_def)
  qed
  show "lh_load_ok (snd (lh_delete e lh d))"
  proof (cases "i < length ?c")
    case False
    with assms(2) show ?thesis by (simp add: lh_delete_def g Let_def)
  next
    case True
    let ?lh1 = "lh\<lparr>lh_buckets := (lh_buckets lh)[b := take i ?c @ drop (Suc i) ?c], lh_items := lh_items lh - 1\<rparr>"
    have "lh_load_ok (lh_maybe_resize e ?lh1)"
      by (rule lh_resize_shrink [of _ ?n]) (use n load assms(3-5) in auto)
    with True show ?thesis by (auto simp: lh_delete_def g Let_def)
  qed
qed

theorem lh_load_bounded_witness:
  "lh_load_ok (snd (lh_delete \<lparr>malloc_ok = \<lambda>_. True, fresh = \<lambda>_. 0\<rparr> small_lhash 3))"
proof -
  have "lh_load_ok small_lhash" "lh_callback_depth small_lhash = 0" "lh_num_buckets small_lhash = 16"
    by (simp_all add: lh_load_ok_def small_lhash_def kMinNumBuckets_def)
  with lh_load_bounded [OF small_lhash_facts(1), of "\<lparr>malloc_ok = \<lambda>_. True, fresh = \<lambda>_. 0\<rparr>" 3] show ?thesis
    by (simp add: OPENSSL_MALLOC_PREFIX_def SIZE_MAX_def)
qed

text \<open>C31: \<open>lh_doall_arg\<close> visits every entry exactly once and changes no entry, whatever
  resize it does at the end.\<close>

theorem lh_doall_visits:
  assumes "lh_wf lh"
  shows "\<exists>xs. mset xs = lh_entries lh \<and> fst (lh_doall_arg e lh func arg) = fold func xs arg
    \<and> lh_wf (snd (lh_doall_arg e lh func arg)) \<and> lh_entries (snd (lh_doall_arg e lh func arg)) = lh_entries lh"
proof -
  let ?l = "snd (lh_doall_arg e lh func arg)"
  have step: "foldl (\<lambda>s cur. func (li_data cur) s) arg its = fold func (map li_data its) arg" for its :: "'a lhash_item list"
    by (induction its arbitrary: arg) auto
  have wf: "lh_wf (lh\<lparr>lh_callback_depth := k\<rparr>)" for k using assms by (simp add: lh_wf_def lh_entries_def)
  have "lh_same (lh\<lparr>lh_callback_depth := k\<rparr>) (lh_maybe_resize e (lh\<lparr>lh_callback_depth := k\<rparr>))" for k
    by (rule lh_maybe_resize_same [OF wf])
  then have r: "lh_wf (lh_maybe_resize e (lh\<lparr>lh_callback_depth := k\<rparr>))
      \<and> lh_entries (lh_maybe_resize e (lh\<lparr>lh_callback_depth := k\<rparr>)) = lh_entries lh" for k
    by (simp add: lh_same_def lh_entries_def)
  have "\<exists>k. ?l = lh_maybe_resize e (lh\<lparr>lh_callback_depth := k\<rparr>)"
    by (auto simp: lh_doall_arg_def lh_doall_internal_def Let_def intro: exI [of _ "lh_callback_depth lh"])
  then have "lh_wf ?l \<and> lh_entries ?l = lh_entries lh" using r by auto
  then show ?thesis
    by (intro exI [of _ "map li_data (concat (lh_buckets lh))"])
      (simp add: lh_doall_arg_def lh_doall_internal_def Let_def step lh_entries_def)
qed

theorem lh_doall_visits_witness:
  "fst (lh_doall_arg \<lparr>malloc_ok = \<lambda>_. True, fresh = \<lambda>_. 0\<rparr> small_lhash (+) 7) = 42"
proof -
  from lh_doall_visits [OF small_lhash_facts(1), of "\<lparr>malloc_ok = \<lambda>_. True, fresh = \<lambda>_. 0\<rparr>" "(+)" 7]
  show ?thesis by (auto simp: small_lhash_facts(3) mset_single_iff)
qed

end
