(* ===== verification/ByteQueue.thy ===== *)
theory ByteQueue
  imports Prelude
begin

text \<open>
  The interface of a bounded byte queue with a writing and a reading end: a write is taken
  up to the free space, a read gives what is there up to what was asked for, and neither
  end changes anything else. The lemmas are about whole runs: the bytes read are the bytes
  accepted, in order, whatever the interleaving and whatever the sizes.
\<close>

locale byte_queue =
  fixes good :: "'s \<Rightarrow> bool" and content :: "'s \<Rightarrow> u8 list" and capacity :: "'s \<Rightarrow> nat"
    and put :: "'s \<Rightarrow> u8 list \<Rightarrow> nat \<times> 's" and get :: "'s \<Rightarrow> nat \<Rightarrow> u8 list \<times> 's"
  assumes content_le: "good s \<Longrightarrow> length (content s) \<le> capacity s"
    and put_good: "good s \<Longrightarrow> put s xs = (n, s') \<Longrightarrow> good s' \<and> capacity s' = capacity s"
    and put_count: "good s \<Longrightarrow> put s xs = (n, s') \<Longrightarrow> n = min (length xs) (capacity s - length (content s))"
    and put_content: "good s \<Longrightarrow> put s xs = (n, s') \<Longrightarrow> content s' = content s @ take n xs"
    and get_good: "good s \<Longrightarrow> get s k = (ys, s') \<Longrightarrow> good s' \<and> capacity s' = capacity s"
    and get_bytes: "good s \<Longrightarrow> get s k = (ys, s') \<Longrightarrow> ys = take k (content s)"
    and get_content: "good s \<Longrightarrow> get s k = (ys, s') \<Longrightarrow> content s' = drop k (content s)"

text \<open>A run is a list of writes and reads; it gives the bytes accepted and the bytes read.\<close>

datatype queue_op = Put "u8 list" | Get nat

fun run_queue ::
    "('s \<Rightarrow> u8 list \<Rightarrow> nat \<times> 's) \<Rightarrow> ('s \<Rightarrow> nat \<Rightarrow> u8 list \<times> 's) \<Rightarrow> 's \<Rightarrow> queue_op list
       \<Rightarrow> u8 list \<times> u8 list \<times> 's" where
  "run_queue put get s [] = ([], [], s)"
| "run_queue put get s (Put xs # ops) =
     (case put s xs of (n, s1) \<Rightarrow>
        case run_queue put get s1 ops of (inp, out, s2) \<Rightarrow> (take n xs @ inp, out, s2))"
| "run_queue put get s (Get k # ops) =
     (case get s k of (ys, s1) \<Rightarrow>
        case run_queue put get s1 ops of (inp, out, s2) \<Rightarrow> (inp, ys @ out, s2))"

context byte_queue begin

lemma run_fifo:
  "good s \<Longrightarrow> run_queue put get s ops = (inp, out, s') \<Longrightarrow>
     good s' \<and> capacity s' = capacity s \<and> content s @ inp = out @ content s'"
proof (induction ops arbitrary: s inp out s')
  case (Cons opn ops)
  show ?case
  proof (cases opn)
    case (Put xs)
    obtain n s1 where p: "put s xs = (n, s1)" by (rule prod.exhaust)
    obtain i o1 s2 where r: "run_queue put get s1 ops = (i, o1, s2)" by (rule prod_cases3)
    have "inp = take n xs @ i" "out = o1" "s' = s2" using Cons.prems(2) Put p r by auto
    moreover have "good s1" "capacity s1 = capacity s" "content s1 = content s @ take n xs"
      using put_good [OF Cons.prems(1) p] put_content [OF Cons.prems(1) p] by auto
    ultimately show ?thesis using Cons.IH [OF _ r] by simp
  next
    case (Get k)
    obtain ys s1 where g: "get s k = (ys, s1)" by (rule prod.exhaust)
    obtain i o1 s2 where r: "run_queue put get s1 ops = (i, o1, s2)" by (rule prod_cases3)
    have e: "inp = i" "out = ys @ o1" "s' = s2" using Cons.prems(2) Get g r by auto
    have s1: "good s1" "content s1 = drop k (content s)" "ys = take k (content s)" "capacity s1 = capacity s"
      using get_good [OF Cons.prems(1) g] get_content [OF Cons.prems(1) g] get_bytes [OF Cons.prems(1) g] by auto
    have "good s' \<and> capacity s' = capacity s \<and> content s1 @ inp = o1 @ content s'"
      using Cons.IH [OF s1(1) r] e s1(4) by simp
    then show ?thesis using e(2) s1 by (metis append.assoc append_take_drop_id)
  qed
qed simp

text \<open>Nothing is lost: reading until the queue is empty gives everything accepted.\<close>

lemma run_drained:
  assumes "good s" and "run_queue put get s ops = (inp, out, s')" and "content s' = []"
  shows "out = content s @ inp"
  using run_fifo [OF assms(1,2)] assms(3) by simp

text \<open>Reads alone: \<open>n\<close> reads of \<open>k\<close> bytes give the first \<open>n * k\<close> bytes.\<close>

lemma run_reads:
  "good s \<Longrightarrow> run_queue put get s (replicate n (Get k)) = (inp, out, s') \<Longrightarrow>
     good s' \<and> inp = [] \<and> out = take (n * k) (content s) \<and> content s' = drop (n * k) (content s)"
proof (induction n arbitrary: s inp out)
  case (Suc n)
  obtain ys s1 where g: "get s k = (ys, s1)" by (rule prod.exhaust)
  obtain i o1 s2 where r: "run_queue put get s1 (replicate n (Get k)) = (i, o1, s2)" by (rule prod_cases3)
  have e: "inp = i" "out = ys @ o1" "s2 = s'" using Suc.prems(2) g r by auto
  have s1: "good s1" "content s1 = drop k (content s)" "ys = take k (content s)"
    using get_good [OF Suc.prems(1) g] get_content [OF Suc.prems(1) g] get_bytes [OF Suc.prems(1) g] by auto
  show ?case using Suc.IH [OF s1(1) r [unfolded e(3)]] e(1,2) s1
    by (simp add: take_add add.commute)
qed simp

text \<open>A queue that is not full takes at least a byte; one that is not empty gives one.\<close>

lemma put_progress:
  assumes "good s" and "put s xs = (n, s')" and "xs \<noteq> []" and "length (content s) < capacity s"
  shows "0 < n"
  using put_count [OF assms(1,2)] assms(3,4) by simp

lemma get_progress:
  assumes "good s" and "get s k = (ys, s')" and "0 < k" and "content s \<noteq> []"
  shows "ys \<noteq> []"
  using get_bytes [OF assms(1,2)] assms(3,4) by simp

end

end
