(* ===== verification/BioPair.thy ===== *)
theory BioPair
  imports Mem ByteQueue
begin

text \<open>
  BIO pairs, \<open>crypto/bio/pair.c\<close>, with the parts of \<open>crypto/bio/bio.c\<close> that call it. A \<open>BIO\<close>
  is an address in the heap; the \<open>bio_bio_st\<close> it owns through \<open>ptr\<close> is embedded in it. The
  state is the heap and the error queue. The loops around the ring buffer need not end on a
  corrupt structure, so they are partial functions: \<open>None\<close> is a loop that never returns.
\<close>

section \<open>State\<close>

datatype bio_error = BIO_R_UNINITIALIZED | BIO_R_BROKEN_PIPE | BIO_R_IN_USE | ERR_R_MALLOC_FAILURE

record bio_bio_st =
  bb_peer :: "nat option"
  bb_closed :: bool
  bb_len :: nat
  bb_offset :: nat
  bb_size :: nat
  bb_buf :: "u8 list option"
  bb_request :: nat

record bio_st =
  bio_init :: bool
  bio_shutdown :: int
  bio_flags :: u32
  bio_retry_reason :: int
  bio_ptr :: bio_bio_st
  bio_num_read :: nat
  bio_num_write :: nat

record bio_state =
  bs_heap :: "nat \<Rightarrow> bio_st"
  bs_errors :: "bio_error list"

definition bio_put :: "nat \<Rightarrow> bio_st \<Rightarrow> bio_state \<Rightarrow> bio_state" where
  "bio_put i b st = st\<lparr>bs_heap := (bs_heap st)(i := b)\<rparr>"

definition bio_put_ptr :: "nat \<Rightarrow> bio_bio_st \<Rightarrow> bio_state \<Rightarrow> bio_state" where
  "bio_put_ptr i p st = bio_put i ((bs_heap st i)\<lparr>bio_ptr := p\<rparr>) st"

definition put_error :: "bio_error \<Rightarrow> bio_state \<Rightarrow> bio_state" where
  "put_error r st = st\<lparr>bs_errors := bs_errors st @ [r]\<rparr>"

section \<open>Retry flags\<close>

definition BIO_FLAGS_READ :: u32 where "BIO_FLAGS_READ = 0x01"
definition BIO_FLAGS_WRITE :: u32 where "BIO_FLAGS_WRITE = 0x02"
definition BIO_FLAGS_IO_SPECIAL :: u32 where "BIO_FLAGS_IO_SPECIAL = 0x04"
definition BIO_FLAGS_RWS :: u32 where
  "BIO_FLAGS_RWS = BIO_FLAGS_READ OR BIO_FLAGS_WRITE OR BIO_FLAGS_IO_SPECIAL"
definition BIO_FLAGS_SHOULD_RETRY :: u32 where "BIO_FLAGS_SHOULD_RETRY = 0x08"

definition kRetryFlags :: u32 where
  "kRetryFlags = BIO_FLAGS_RWS OR BIO_FLAGS_SHOULD_RETRY"

definition BIO_set_flags :: "bio_st \<Rightarrow> u32 \<Rightarrow> bio_st" where
  "BIO_set_flags b flags = b\<lparr>bio_flags := bio_flags b OR flags\<rparr>"

definition BIO_test_flags :: "bio_st \<Rightarrow> u32 \<Rightarrow> u32" where
  "BIO_test_flags b flags = bio_flags b AND flags"

definition BIO_clear_flags :: "bio_st \<Rightarrow> u32 \<Rightarrow> bio_st" where
  "BIO_clear_flags b flags = b\<lparr>bio_flags := bio_flags b AND NOT flags\<rparr>"

definition BIO_should_read :: "bio_st \<Rightarrow> u32" where
  "BIO_should_read b = BIO_test_flags b BIO_FLAGS_READ"

definition BIO_should_write :: "bio_st \<Rightarrow> u32" where
  "BIO_should_write b = BIO_test_flags b BIO_FLAGS_WRITE"

definition BIO_should_retry :: "bio_st \<Rightarrow> u32" where
  "BIO_should_retry b = BIO_test_flags b BIO_FLAGS_SHOULD_RETRY"

definition BIO_set_retry_read :: "bio_st \<Rightarrow> bio_st" where
  "BIO_set_retry_read b = b\<lparr>bio_flags := bio_flags b OR (BIO_FLAGS_READ OR BIO_FLAGS_SHOULD_RETRY)\<rparr>"

definition BIO_set_retry_write :: "bio_st \<Rightarrow> bio_st" where
  "BIO_set_retry_write b = b\<lparr>bio_flags := bio_flags b OR (BIO_FLAGS_WRITE OR BIO_FLAGS_SHOULD_RETRY)\<rparr>"

definition BIO_get_retry_flags :: "bio_st \<Rightarrow> u32" where
  "BIO_get_retry_flags b = bio_flags b AND kRetryFlags"

definition BIO_clear_retry_flags :: "bio_st \<Rightarrow> bio_st" where
  "BIO_clear_retry_flags b = b\<lparr>bio_flags := bio_flags b AND NOT kRetryFlags, bio_retry_reason := 0\<rparr>"

section \<open>Pairs\<close>

definition bio_new :: "env \<Rightarrow> bio_st \<Rightarrow> bio_st option" where
  "bio_new e bio =
     (case OPENSSL_malloc e 56 of
        None \<Rightarrow> None
      | Some _ \<Rightarrow> Some (bio\<lparr>bio_ptr := \<lparr>bb_peer = None, bb_closed = False, bb_len = 0, bb_offset = 0,
                                          bb_size = 17 * 1024, bb_buf = None, bb_request = 0\<rparr>\<rparr>))"

text \<open>\<open>BIO_new\<close> for the pair method, at the address \<open>i\<close> the allocator returned: zeroed, then
  \<open>shutdown\<close> set, then \<open>bio_new\<close>.\<close>

definition BIO_new :: "env \<Rightarrow> nat \<Rightarrow> bio_state \<Rightarrow> bool \<times> bio_state" where
  "BIO_new e i st =
     (case OPENSSL_malloc e 80 of
        None \<Rightarrow> (False, put_error ERR_R_MALLOC_FAILURE st)
      | Some _ \<Rightarrow>
          (case bio_new e ((bs_heap st i)\<lparr>bio_init := False, bio_shutdown := 1, bio_flags := 0,
                             bio_retry_reason := 0, bio_num_read := 0, bio_num_write := 0\<rparr>) of
             None \<Rightarrow> (False, st)
           | Some b \<Rightarrow> (True, bio_put i b st)))"

definition bio_destroy_pair :: "nat \<Rightarrow> bio_state \<Rightarrow> bio_state" where
  "bio_destroy_pair bio st =
     (let b = bio_ptr (bs_heap st bio)
      in case bb_peer b of
           None \<Rightarrow> st
         | Some peer_bio \<Rightarrow>
             (let pb = bs_heap st peer_bio;
                  st1 = bio_put peer_bio (pb\<lparr>bio_init := False,
                          bio_ptr := (bio_ptr pb)\<lparr>bb_peer := None, bb_len := 0, bb_offset := 0\<rparr>\<rparr>) st;
                  me = bs_heap st1 bio
              in bio_put bio (me\<lparr>bio_init := False,
                   bio_ptr := (bio_ptr me)\<lparr>bb_peer := None, bb_len := 0, bb_offset := 0\<rparr>\<rparr>) st1))"

text \<open>One iteration of the loop of \<open>bio_read\<close>, and the loop.\<close>

definition bio_read_chunk :: "bio_bio_st \<Rightarrow> nat \<Rightarrow> nat" where
  "bio_read_chunk peer_b rest =
     (if bb_offset peer_b + rest \<le> bb_size peer_b then rest else bb_size peer_b - bb_offset peer_b)"

definition bio_read_step :: "bio_bio_st \<Rightarrow> nat \<Rightarrow> u8 list \<times> bio_bio_st" where
  "bio_read_step peer_b chunk =
     (let n = bb_len peer_b - chunk; off = bb_offset peer_b + chunk
      in (take chunk (drop (bb_offset peer_b) (case bb_buf peer_b of None \<Rightarrow> [] | Some buf \<Rightarrow> buf)),
          peer_b\<lparr>bb_len := n,
                 bb_offset := (if n \<noteq> 0 then (if off = bb_size peer_b then 0 else off) else 0)\<rparr>))"

partial_function (option) bio_read_loop :: "bio_bio_st \<Rightarrow> nat \<Rightarrow> (u8 list \<times> bio_bio_st) option" where
  "bio_read_loop peer_b rest =
     (let chunk = bio_read_chunk peer_b rest
      in case bio_read_step peer_b chunk of (bytes, b1) \<Rightarrow>
           if rest - chunk = 0 then Some (bytes, b1)
           else Option.bind (bio_read_loop b1 (rest - chunk)) (\<lambda>(more, b2). Some (bytes @ more, b2)))"

text \<open>\<open>buf_null\<close> says that the caller's buffer is NULL. The result has the return value, the
  bytes written to the buffer and the state.\<close>

definition bio_read :: "nat \<Rightarrow> bool \<Rightarrow> nat \<Rightarrow> bio_state \<Rightarrow> (int \<times> u8 list \<times> bio_state) option" where
  "bio_read bio buf_null want st0 =
     (let st = bio_put bio (BIO_clear_retry_flags (bs_heap st0 bio)) st0
      in if \<not> bio_init (bs_heap st bio) then Some (0, [], st)
         else case bb_peer (bio_ptr (bs_heap st bio)) of
           None \<Rightarrow> Some (0, [], st)
         | Some peer \<Rightarrow>
        (let peer_b = (bio_ptr (bs_heap st peer))\<lparr>bb_request := 0\<rparr>;
             st1 = bio_put_ptr peer peer_b st
         in if buf_null \<or> want = 0 then Some (0, [], st1)
            else if bb_len peer_b = 0 then
              (if bb_closed peer_b then Some (0, [], st1)
               else let st2 = bio_put bio (BIO_set_retry_read (bs_heap st1 bio)) st1;
                        ask = (if want \<le> bb_size peer_b then want else bb_size peer_b)
                    in Some (- 1, [], bio_put_ptr peer (peer_b\<lparr>bb_request := ask\<rparr>) st2))
            else
              (let size' = (if bb_len peer_b < want then bb_len peer_b else want)
               in Option.bind (bio_read_loop peer_b size') (\<lambda>(bytes, b').
                    Some (int size', bytes, bio_put_ptr peer b' st1)))))"

definition bio_write_offset :: "bio_bio_st \<Rightarrow> nat" where
  "bio_write_offset b =
     (let write_offset = bb_offset b + bb_len b
      in if write_offset \<ge> bb_size b then write_offset - bb_size b else write_offset)"

definition bio_write_chunk :: "bio_bio_st \<Rightarrow> nat \<Rightarrow> nat" where
  "bio_write_chunk b rest =
     (if bio_write_offset b + rest \<le> bb_size b then rest else bb_size b - bio_write_offset b)"

definition bio_write_step :: "bio_bio_st \<Rightarrow> u8 list \<Rightarrow> bio_bio_st" where
  "bio_write_step b bytes =
     b\<lparr>bb_buf := map_option (\<lambda>buf. overwrite buf (bio_write_offset b) bytes) (bb_buf b),
       bb_len := bb_len b + length bytes\<rparr>"

partial_function (option) bio_write_loop :: "bio_bio_st \<Rightarrow> u8 list \<Rightarrow> nat \<Rightarrow> bio_bio_st option" where
  "bio_write_loop b data rest =
     (let chunk = bio_write_chunk b rest;
          b1 = bio_write_step b (take chunk data)
      in if rest - chunk = 0 then Some b1 else bio_write_loop b1 (drop chunk data) (rest - chunk))"

definition bio_write :: "nat \<Rightarrow> u8 list option \<Rightarrow> bio_state \<Rightarrow> (int \<times> bio_state) option" where
  "bio_write bio data st0 =
     (let st = bio_put bio (BIO_clear_retry_flags (bs_heap st0 bio)) st0
      in case data of
           None \<Rightarrow> Some (0, st)
         | Some buf \<Rightarrow>
        (if \<not> bio_init (bs_heap st bio) \<or> length buf = 0 then Some (0, st)
         else
           (let b = (bio_ptr (bs_heap st bio))\<lparr>bb_request := 0\<rparr>;
                st1 = bio_put_ptr bio b st
            in if bb_closed b then Some (- 1, put_error BIO_R_BROKEN_PIPE st1)
               else if bb_len b = bb_size b then
                 Some (- 1, bio_put bio (BIO_set_retry_write (bs_heap st1 bio)) st1)
               else
                 (let num = (if length buf > bb_size b - bb_len b then bb_size b - bb_len b else length buf)
                  in Option.bind (bio_write_loop b buf num) (\<lambda>b'.
                       Some (int num, bio_put_ptr bio b' st1))))))"

text \<open>The buffer of one end of a new pair: \<open>None\<close> is an allocation failure.\<close>

definition bio_pair_buffer :: "env \<Rightarrow> bio_bio_st \<Rightarrow> nat \<Rightarrow> bool \<times> bio_bio_st" where
  "bio_pair_buffer e b writebuf_len =
     (case bb_buf b of
        Some _ \<Rightarrow> (True, b)
      | None \<Rightarrow>
          (let b1 = (if writebuf_len \<noteq> 0 then b\<lparr>bb_size := writebuf_len\<rparr> else b)
           in case OPENSSL_malloc e (bb_size b1) of
                None \<Rightarrow> (False, b1)
              | Some blk \<Rightarrow> (True, b1\<lparr>bb_buf := Some (blk_data blk), bb_len := 0, bb_offset := 0\<rparr>)))"

definition bio_make_pair :: "env \<Rightarrow> nat \<Rightarrow> nat \<Rightarrow> nat \<Rightarrow> nat \<Rightarrow> bio_state \<Rightarrow> bool \<times> bio_state" where
  "bio_make_pair e bio1 bio2 writebuf1_len writebuf2_len st =
     (if bb_peer (bio_ptr (bs_heap st bio1)) \<noteq> None \<or> bb_peer (bio_ptr (bs_heap st bio2)) \<noteq> None
      then (False, put_error BIO_R_IN_USE st)
      else case bio_pair_buffer e (bio_ptr (bs_heap st bio1)) writebuf1_len of
        (False, b1) \<Rightarrow> (False, put_error ERR_R_MALLOC_FAILURE (bio_put_ptr bio1 b1 st))
      | (True, b1) \<Rightarrow>
     (let st1 = bio_put_ptr bio1 b1 st
      in case bio_pair_buffer e (bio_ptr (bs_heap st1 bio2)) writebuf2_len of
           (False, b2) \<Rightarrow> (False, put_error ERR_R_MALLOC_FAILURE (bio_put_ptr bio2 b2 st1))
         | (True, b2) \<Rightarrow>
             (let st2 = bio_put_ptr bio2 b2 st1;
                  x = bs_heap st2 bio1;
                  st3 = bio_put bio1 (x\<lparr>bio_init := True, bio_ptr := (bio_ptr x)\<lparr>bb_peer := Some bio2,
                          bb_closed := False, bb_request := 0\<rparr>\<rparr>) st2;
                  y = bs_heap st3 bio2
              in (True, bio_put bio2 (y\<lparr>bio_init := True, bio_ptr := (bio_ptr y)\<lparr>bb_peer := Some bio1,
                          bb_closed := False, bb_request := 0\<rparr>\<rparr>) st3))))"

datatype bio_cmd = BIO_C_GET_WRITE_BUF_SIZE | BIO_C_GET_WRITE_GUARANTEE | BIO_C_GET_READ_REQUEST
  | BIO_C_RESET_READ_REQUEST | BIO_C_SHUTDOWN_WR | BIO_CTRL_GET_CLOSE | BIO_CTRL_SET_CLOSE
  | BIO_CTRL_PENDING | BIO_CTRL_WPENDING | BIO_CTRL_FLUSH | BIO_CTRL_EOF | BIO_CTRL_OTHER

definition bio_ctrl :: "nat \<Rightarrow> bio_cmd \<Rightarrow> int \<Rightarrow> nat option \<Rightarrow> bio_state \<Rightarrow> int \<times> bio_state" where
  "bio_ctrl bio cmd num ptr st =
     (let b = bio_ptr (bs_heap st bio)
      in case cmd of
           BIO_C_GET_WRITE_BUF_SIZE \<Rightarrow> (int (bb_size b), st)
         | BIO_C_GET_WRITE_GUARANTEE \<Rightarrow>
             (if bb_peer b = None \<or> bb_closed b then 0 else int (bb_size b) - int (bb_len b), st)
         | BIO_C_GET_READ_REQUEST \<Rightarrow> (int (bb_request b), st)
         | BIO_C_RESET_READ_REQUEST \<Rightarrow> (1, bio_put_ptr bio (b\<lparr>bb_request := 0\<rparr>) st)
         | BIO_C_SHUTDOWN_WR \<Rightarrow> (1, bio_put_ptr bio (b\<lparr>bb_closed := True\<rparr>) st)
         | BIO_CTRL_GET_CLOSE \<Rightarrow> (bio_shutdown (bs_heap st bio), st)
         | BIO_CTRL_SET_CLOSE \<Rightarrow> (1, bio_put bio ((bs_heap st bio)\<lparr>bio_shutdown := num\<rparr>) st)
         | BIO_CTRL_PENDING \<Rightarrow>
             (case bb_peer b of None \<Rightarrow> 0 | Some p \<Rightarrow> int (bb_len (bio_ptr (bs_heap st p))), st)
         | BIO_CTRL_WPENDING \<Rightarrow> (if bb_buf b \<noteq> None then int (bb_len b) else 0, st)
         | BIO_CTRL_FLUSH \<Rightarrow> (1, st)
         | BIO_CTRL_EOF \<Rightarrow>
             (case ptr of
                None \<Rightarrow> 1
              | Some other \<Rightarrow> (let ob = bio_ptr (bs_heap st other)
                               in if bb_len ob = 0 \<and> bb_closed ob then 1 else 0), st)
         | BIO_CTRL_OTHER \<Rightarrow> (0, st))"

text \<open>\<open>bio_free\<close> leaves the peer, if any, unpaired. \<open>BIO_free\<close> is called here only on BIOs
  with one reference and no next BIO.\<close>

definition bio_free :: "nat \<Rightarrow> bio_state \<Rightarrow> bio_state" where
  "bio_free bio st =
     (if bb_peer (bio_ptr (bs_heap st bio)) \<noteq> None then bio_destroy_pair bio st else st)"

definition BIO_new_bio_pair ::
    "env \<Rightarrow> nat \<Rightarrow> nat \<Rightarrow> nat \<Rightarrow> nat \<Rightarrow> bio_state \<Rightarrow> bool \<times> bio_state" where
  "BIO_new_bio_pair e bio1 writebuf1_len bio2 writebuf2_len st =
     (case BIO_new e bio1 st of (ok1, st1) \<Rightarrow>
        case BIO_new e bio2 st1 of (ok2, st2) \<Rightarrow>
          if \<not> ok1 \<or> \<not> ok2
          then (False, (if ok2 then bio_free bio2 else id) ((if ok1 then bio_free bio1 else id) st2))
          else case bio_make_pair e bio1 bio2 writebuf1_len writebuf2_len st2 of
            (True, st3) \<Rightarrow> (True, st3)
          | (False, st3) \<Rightarrow> (False, bio_free bio2 (bio_free bio1 st3)))"

section \<open>The calls of bio.c\<close>

definition BIO_ctrl :: "nat \<Rightarrow> bio_cmd \<Rightarrow> int \<Rightarrow> nat option \<Rightarrow> bio_state \<Rightarrow> int \<times> bio_state" where
  "BIO_ctrl bio cmd larg parg st = bio_ctrl bio cmd larg parg st"

definition BIO_read :: "nat \<Rightarrow> int \<Rightarrow> bio_state \<Rightarrow> (int \<times> u8 list \<times> bio_state) option" where
  "BIO_read bio len st =
     (if \<not> bio_init (bs_heap st bio) then Some (- 2, [], put_error BIO_R_UNINITIALIZED st)
      else if len \<le> 0 then Some (0, [], st)
      else Option.bind (bio_read bio False (nat len) st) (\<lambda>(ret, bytes, st1).
        Some (ret, bytes,
          if ret > 0 then bio_put bio ((bs_heap st1 bio)\<lparr>bio_num_read := bio_num_read (bs_heap st1 bio) + nat ret\<rparr>) st1
          else st1)))"

definition BIO_write :: "nat \<Rightarrow> u8 list \<Rightarrow> bio_state \<Rightarrow> (int \<times> bio_state) option" where
  "BIO_write bio inp st =
     (if \<not> bio_init (bs_heap st bio) then Some (- 2, put_error BIO_R_UNINITIALIZED st)
      else if inp = [] then Some (0, st)
      else Option.bind (bio_write bio (Some inp) st) (\<lambda>(ret, st1).
        Some (ret,
          if ret > 0 then bio_put bio ((bs_heap st1 bio)\<lparr>bio_num_write := bio_num_write (bs_heap st1 bio) + nat ret\<rparr>) st1
          else st1)))"

definition BIO_flush :: "nat \<Rightarrow> bio_state \<Rightarrow> int \<times> bio_state" where
  "BIO_flush bio st = BIO_ctrl bio BIO_CTRL_FLUSH 0 None st"

definition BIO_eof :: "nat \<Rightarrow> bio_state \<Rightarrow> int \<times> bio_state" where
  "BIO_eof bio st = BIO_ctrl bio BIO_CTRL_EOF 0 None st"

definition BIO_pending :: "nat \<Rightarrow> bio_state \<Rightarrow> nat" where
  "BIO_pending bio st =
     (let r = fst (BIO_ctrl bio BIO_CTRL_PENDING 0 None st) in if r < 0 then 0 else nat r)"

definition BIO_wpending :: "nat \<Rightarrow> bio_state \<Rightarrow> nat" where
  "BIO_wpending bio st =
     (let r = fst (BIO_ctrl bio BIO_CTRL_WPENDING 0 None st) in if r < 0 then 0 else nat r)"

definition BIO_number_read :: "nat \<Rightarrow> bio_state \<Rightarrow> nat" where
  "BIO_number_read bio st = bio_num_read (bs_heap st bio)"

definition BIO_number_written :: "nat \<Rightarrow> bio_state \<Rightarrow> nat" where
  "BIO_number_written bio st = bio_num_write (bs_heap st bio)"

definition BIO_ctrl_get_read_request :: "nat \<Rightarrow> bio_state \<Rightarrow> nat" where
  "BIO_ctrl_get_read_request bio st = nat (fst (BIO_ctrl bio BIO_C_GET_READ_REQUEST 0 None st))"

definition BIO_ctrl_get_write_guarantee :: "nat \<Rightarrow> bio_state \<Rightarrow> nat" where
  "BIO_ctrl_get_write_guarantee bio st = nat (fst (BIO_ctrl bio BIO_C_GET_WRITE_GUARANTEE 0 None st))"

definition BIO_shutdown_wr :: "nat \<Rightarrow> bio_state \<Rightarrow> int \<times> bio_state" where
  "BIO_shutdown_wr bio st = BIO_ctrl bio BIO_C_SHUTDOWN_WR 0 None st"

section \<open>The ring buffer\<close>

definition ring_bytes :: "u8 list \<Rightarrow> nat \<Rightarrow> nat \<Rightarrow> u8 list" where
  "ring_bytes buf off n = take n (drop off buf @ take off buf)"

definition bb_content :: "bio_bio_st \<Rightarrow> u8 list" where
  "bb_content b = (case bb_buf b of None \<Rightarrow> [] | Some buf \<Rightarrow> ring_bytes buf (bb_offset b) (bb_len b))"

definition ring_wf :: "bio_bio_st \<Rightarrow> bool" where
  "ring_wf b \<longleftrightarrow> (case bb_buf b of None \<Rightarrow> False | Some buf \<Rightarrow> length buf = bb_size b)
     \<and> bb_offset b < bb_size b \<and> bb_len b \<le> bb_size b"

text \<open>The fields a transfer leaves alone.\<close>

definition ring_same :: "bio_bio_st \<Rightarrow> bio_bio_st \<Rightarrow> bool" where
  "ring_same b b' \<longleftrightarrow> bb_peer b' = bb_peer b \<and> bb_closed b' = bb_closed b \<and> bb_size b' = bb_size b
     \<and> bb_request b' = bb_request b"

lemma length_bb_content: "ring_wf b \<Longrightarrow> length (bb_content b) = bb_len b"
  by (auto simp: ring_wf_def bb_content_def ring_bytes_def split: option.splits)

lemma ring_bytes_append [simp]: "ring_bytes (A @ B) (length A) n = take n (B @ A)"
  by (simp add: ring_bytes_def)

lemma overwrite_middle: "length Q = length c \<Longrightarrow> overwrite (X @ Q @ R) (length X) c = X @ c @ R"
  by (simp add: overwrite_def)

lemma ring_read:
  assumes "off < length buf" and "n \<le> length buf" and "chunk \<le> n" and "off + chunk \<le> length buf"
  shows "take chunk (drop off buf) = take chunk (ring_bytes buf off n)"
    and "ring_bytes buf (if n - chunk \<noteq> 0 then (if off + chunk = length buf then 0 else off + chunk) else 0)
           (n - chunk) = drop chunk (ring_bytes buf off n)"
proof -
  define A where "A = take off buf"
  define C where "C = take chunk (drop off buf)"
  define D where "D = drop (off + chunk) buf"
  have buf: "buf = A @ C @ D" unfolding A_def C_def D_def by (metis add.commute append_take_drop_id drop_drop)
  have l: "length A = off" "length C = chunk" using assms by (simp_all add: A_def C_def)
  have r: "ring_bytes buf off n = take n (C @ D @ A)" using ring_bytes_append [of A "C @ D" n] by (simp add: buf l)
  show "take chunk (drop off buf) = take chunk (ring_bytes buf off n)"
    unfolding r C_def [symmetric] using assms(3) l by (simp add: min_absorb1)
  show "ring_bytes buf (if n - chunk \<noteq> 0 then (if off + chunk = length buf then 0 else off + chunk) else 0)
           (n - chunk) = drop chunk (ring_bytes buf off n)"
  proof (cases "n = chunk")
    case True
    then show ?thesis by (simp add: r l ring_bytes_def)
  next
    case n: False
    show ?thesis
    proof (cases "off + chunk = length buf")
      case True
      then have "D = []" by (simp add: D_def)
      with n True assms(2) l show ?thesis by (simp add: r ring_bytes_def) (simp add: buf)
    next
      case False
      have "ring_bytes buf (off + chunk) (n - chunk) = take (n - chunk) (D @ A @ C)"
        using ring_bytes_append [of "A @ C" D "n - chunk"] by (simp add: buf l add_ac)
      moreover have "n - chunk \<le> length (D @ A)" using assms(2) l by (simp add: buf)
      ultimately show ?thesis using n False assms(3) l by (simp add: r)
    qed
  qed
qed

lemma ring_write:
  assumes "off < length buf" and "n + length c \<le> length buf"
    and "at = (if off + n \<ge> length buf then off + n - length buf else off + n)"
    and "at + length c \<le> length buf"
  shows "ring_bytes (overwrite buf at c) off (n + length c) = ring_bytes buf off n @ c"
proof -
  define P where "P = take at buf"
  define Q where "Q = take (length c) (drop at buf)"
  define R where "R = drop (at + length c) buf"
  have buf: "buf = P @ Q @ R" unfolding P_def Q_def R_def by (metis add.commute append_take_drop_id drop_drop)
  have l: "length P = at" "length Q = length c" using assms(4) by (simp_all add: P_def Q_def)
  have over: "overwrite buf at c = P @ c @ R" using overwrite_middle [OF l(2), of P R] by (simp add: buf l(1))
  show ?thesis
  proof (cases "off + n \<ge> length buf")
    case True
    then have at: "at + length c \<le> off" "n = length buf - off + at" using assms by auto
    define S where "S = take (off - at - length c) R"
    define B where "B = drop (off - at - length c) R"
    have R: "R = S @ B" by (simp add: S_def B_def)
    have S: "length S = off - at - length c" "length B = length buf - off"
      using at assms(1) by (simp_all add: S_def B_def R_def)
    have n: "n = length B + length P" using at(2) S(2) l(1) by simp
    have "length (P @ c @ S) = off" "length (P @ Q @ S) = off" using at(1) S(1) l by simp_all
    then have "ring_bytes (P @ c @ S @ B) off (n + length c) = take (n + length c) (B @ P @ c @ S)"
      "ring_bytes (P @ Q @ S @ B) off n = take n (B @ P @ Q @ S)"
      using ring_bytes_append [of "P @ c @ S" B] ring_bytes_append [of "P @ Q @ S" B] by simp_all
    then have "ring_bytes (P @ c @ R) off (n + length c) = B @ P @ c" "ring_bytes (P @ Q @ R) off n = B @ P"
      unfolding R n by simp_all
    then show ?thesis unfolding over unfolding buf by simp
  next
    case False
    then have at: "at = off + n" using assms(3) by simp
    define A where "A = take off P"
    define B where "B = drop off P"
    have P: "P = A @ B" "length A = off" "length B = n" using at l by (simp_all add: A_def B_def)
    have "ring_bytes (A @ B @ c @ R) off (n + length c) = take (n + length c) (B @ c @ R @ A)"
      "ring_bytes (A @ B @ Q @ R) off n = take n (B @ Q @ R @ A)"
      using ring_bytes_append [of A "B @ c @ R"] ring_bytes_append [of A "B @ Q @ R"] P by simp_all
    then show ?thesis using P by (simp add: over) (simp add: buf)
  qed
qed

lemma bio_read_step_ok:
  assumes wf: "ring_wf b" and c: "chunk \<le> bb_len b" "bb_offset b + chunk \<le> bb_size b"
  shows "\<exists>b'. bio_read_step b chunk = (take chunk (bb_content b), b') \<and> ring_wf b' \<and> ring_same b b'
    \<and> bb_content b' = drop chunk (bb_content b)"
proof -
  obtain buf where buf: "bb_buf b = Some buf" "length buf = bb_size b"
    using wf by (auto simp: ring_wf_def split: option.splits)
  have l: "bb_offset b < length buf" "bb_len b \<le> length buf" using wf buf by (auto simp: ring_wf_def)
  show ?thesis
    using ring_read [OF l c(1)] c(2) l buf
    by (auto simp: bio_read_step_def Let_def bb_content_def ring_wf_def ring_same_def)
qed

lemma ring_same_trans: "ring_same a b \<Longrightarrow> ring_same b c \<Longrightarrow> ring_same a c"
  by (simp add: ring_same_def)

lemma bio_read_loop_ok:
  "ring_wf b \<Longrightarrow> 0 < rest \<Longrightarrow> rest \<le> bb_len b \<Longrightarrow>
     \<exists>b'. bio_read_loop b rest = Some (take rest (bb_content b), b') \<and> ring_wf b' \<and> ring_same b b'
       \<and> bb_content b' = drop rest (bb_content b)"
proof (induction rest arbitrary: b rule: less_induct)
  case (less rest)
  let ?chunk = "bio_read_chunk b rest"
  have chunk: "0 < ?chunk" "?chunk \<le> rest" "bb_offset b + ?chunk \<le> bb_size b"
    using less.prems by (auto simp: bio_read_chunk_def ring_wf_def)
  obtain b1 where b1: "bio_read_step b ?chunk = (take ?chunk (bb_content b), b1)" "ring_wf b1" "ring_same b b1"
    "bb_content b1 = drop ?chunk (bb_content b)"
    using bio_read_step_ok [OF less.prems(1) _ chunk(3)] chunk(2) less.prems(3) by fastforce
  show ?case
  proof (cases "rest - ?chunk = 0")
    case True
    then have "?chunk = rest" using chunk(2) by simp
    with b1 show ?thesis by (subst bio_read_loop.simps) simp
  next
    case False
    have "bb_len b1 = bb_len b - ?chunk"
      using length_bb_content [OF b1(2)] length_bb_content [OF less.prems(1)] b1(4) by simp
    then obtain b2 where b2: "bio_read_loop b1 (rest - ?chunk) = Some (take (rest - ?chunk) (bb_content b1), b2)"
      "ring_wf b2" "ring_same b1 b2" "bb_content b2 = drop (rest - ?chunk) (bb_content b1)"
      using less.IH [of "rest - ?chunk" b1] b1(2) chunk(1,2) diff_le_mono [OF less.prems(3), of ?chunk] False by auto
    have "take rest (bb_content b) = take ?chunk (bb_content b) @ take (rest - ?chunk) (bb_content b1)"
      using chunk(2) by (simp add: b1(4) take_add [symmetric])
    moreover have "bb_content b2 = drop rest (bb_content b)" using chunk(2) by (simp add: b2(4) b1(4))
    ultimately show ?thesis using False b1(1) b2 ring_same_trans [OF b1(3) b2(3)]
      by (subst bio_read_loop.simps) (simp add: Let_def)
  qed
qed

lemma bio_write_step_ok:
  assumes wf: "ring_wf b" and c: "length bytes \<le> bb_size b - bb_len b" "bio_write_offset b + length bytes \<le> bb_size b"
  shows "ring_wf (bio_write_step b bytes) \<and> ring_same b (bio_write_step b bytes)
    \<and> bb_len (bio_write_step b bytes) = bb_len b + length bytes
    \<and> bb_content (bio_write_step b bytes) = bb_content b @ bytes"
proof -
  obtain buf where buf: "bb_buf b = Some buf" "length buf = bb_size b"
    using wf by (auto simp: ring_wf_def split: option.splits)
  have l: "bb_offset b < length buf" "bb_len b \<le> length buf" using wf buf by (auto simp: ring_wf_def)
  have at: "bio_write_offset b = (if bb_offset b + bb_len b \<ge> length buf
      then bb_offset b + bb_len b - length buf else bb_offset b + bb_len b)"
    by (simp add: bio_write_offset_def Let_def buf)
  have "ring_bytes (overwrite buf (bio_write_offset b) bytes) (bb_offset b) (bb_len b + length bytes)
      = ring_bytes buf (bb_offset b) (bb_len b) @ bytes"
    by (rule ring_write [OF l(1) _ at]) (use c l buf in auto)
  then show ?thesis using l c buf
    by (auto simp: bio_write_step_def bb_content_def ring_wf_def ring_same_def length_overwrite)
qed

lemma bio_write_loop_ok:
  "ring_wf b \<Longrightarrow> 0 < rest \<Longrightarrow> rest \<le> bb_size b - bb_len b \<Longrightarrow> rest \<le> length data \<Longrightarrow>
     \<exists>b'. bio_write_loop b data rest = Some b' \<and> ring_wf b' \<and> ring_same b b'
       \<and> bb_content b' = bb_content b @ take rest data"
proof (induction rest arbitrary: b data rule: less_induct)
  case (less rest)
  let ?chunk = "bio_write_chunk b rest"
  let ?b1 = "bio_write_step b (take ?chunk data)"
  have "bio_write_offset b < bb_size b"
    using less.prems(1) by (auto simp: bio_write_offset_def Let_def ring_wf_def)
  then have chunk: "0 < ?chunk" "?chunk \<le> rest" "bio_write_offset b + ?chunk \<le> bb_size b"
    using less.prems(2) by (auto simp: bio_write_chunk_def)
  then have l: "length (take ?chunk data) = ?chunk" using less.prems(4) by simp
  have step: "ring_wf ?b1" "ring_same b ?b1" "bb_len ?b1 = bb_len b + ?chunk"
    "bb_content ?b1 = bb_content b @ take ?chunk data"
    using bio_write_step_ok [OF less.prems(1), of "take ?chunk data"] l chunk less.prems(3) by auto
  show ?case
  proof (cases "rest - ?chunk = 0")
    case True
    then have "?chunk = rest" using chunk(2) by simp
    with step show ?thesis by (subst bio_write_loop.simps) simp
  next
    case False
    have "bb_size ?b1 = bb_size b" using step(2) by (simp add: ring_same_def)
    then have "rest - ?chunk \<le> bb_size ?b1 - bb_len ?b1" using step(3) less.prems(3) by simp
    then obtain b2 where b2: "bio_write_loop ?b1 (drop ?chunk data) (rest - ?chunk) = Some b2" "ring_wf b2"
      "ring_same ?b1 b2" "bb_content b2 = bb_content ?b1 @ take (rest - ?chunk) (drop ?chunk data)"
      using less.IH [of "rest - ?chunk" ?b1 "drop ?chunk data"] step(1) chunk
        diff_le_mono [OF less.prems(4), of ?chunk] False by auto
    have "take rest data = take ?chunk data @ take (rest - ?chunk) (drop ?chunk data)"
      using chunk(2) by (simp only: take_add [symmetric]) simp
    then have "bb_content b2 = bb_content b @ take rest data" by (simp add: b2(4) step(4))
    with b2 ring_same_trans [OF step(2) b2(3)] False show ?thesis
      by (subst bio_write_loop.simps) (simp add: Let_def)
  qed
qed

section \<open>The pair\<close>

text \<open>What the \<open>BIO\<close> at \<open>i\<close> has written and its peer has not read yet.\<close>

abbreviation chan :: "bio_state \<Rightarrow> nat \<Rightarrow> bio_bio_st" where
  "chan st i \<equiv> bio_ptr (bs_heap st i)"

definition pair_wf :: "bio_state \<Rightarrow> nat \<Rightarrow> nat \<Rightarrow> bool" where
  "pair_wf st i j \<longleftrightarrow> i \<noteq> j \<and> bio_init (bs_heap st i) \<and> bio_init (bs_heap st j)
     \<and> bb_peer (chan st i) = Some j \<and> bb_peer (chan st j) = Some i
     \<and> ring_wf (chan st i) \<and> ring_wf (chan st j)"

lemma pair_wf_sym: "pair_wf st i j \<Longrightarrow> pair_wf st j i"
  by (auto simp: pair_wf_def)

text \<open>The parts of a \<open>bio_bio_st\<close> that decide how the pair behaves; \<open>request\<close> is advisory.\<close>

definition chan_view :: "bio_bio_st \<Rightarrow> u8 list \<times> nat \<times> bool" where
  "chan_view b = (bb_content b, bb_size b, bb_closed b)"

lemmas bio_frame_defs = bio_put_def bio_put_ptr_def put_error_def BIO_clear_retry_flags_def
  BIO_set_retry_read_def BIO_set_retry_write_def

lemma ring_wf_request [simp]: "ring_wf (b\<lparr>bb_request := r\<rparr>) = ring_wf b"
  by (cases "bb_buf b") (simp_all add: ring_wf_def)

lemma bb_content_request [simp]: "bb_content (b\<lparr>bb_request := r\<rparr>) = bb_content b"
  by (cases "bb_buf b") (simp_all add: bb_content_def)

text \<open>The retry flags after a call that had to wait.\<close>

lemmas flag_defs = BIO_should_retry_def BIO_should_write_def BIO_should_read_def BIO_test_flags_def
  BIO_clear_retry_flags_def BIO_set_retry_write_def BIO_set_retry_read_def kRetryFlags_def
  BIO_FLAGS_RWS_def BIO_FLAGS_READ_def BIO_FLAGS_WRITE_def BIO_FLAGS_IO_SPECIAL_def
  BIO_FLAGS_SHOULD_RETRY_def

lemma retry_write_flags:
  "BIO_should_retry (BIO_set_retry_write (BIO_clear_retry_flags b)) \<noteq> 0"
  "BIO_should_write (BIO_set_retry_write (BIO_clear_retry_flags b)) \<noteq> 0"
  "BIO_should_read (BIO_set_retry_write (BIO_clear_retry_flags b)) = 0"
  by (simp_all add: flag_defs bit.conj_disj_distrib2 or_eq_0_iff and.assoc)

lemma retry_read_flags:
  "BIO_should_retry (BIO_set_retry_read (BIO_clear_retry_flags b)) \<noteq> 0"
  "BIO_should_read (BIO_set_retry_read (BIO_clear_retry_flags b)) \<noteq> 0"
  "BIO_should_write (BIO_set_retry_read (BIO_clear_retry_flags b)) = 0"
  by (simp_all add: flag_defs bit.conj_disj_distrib2 or_eq_0_iff and.assoc)

lemma retry_cleared: "BIO_should_retry (BIO_clear_retry_flags b) = 0"
  by (simp add: flag_defs and.assoc)

lemma BIO_write_cases:
  assumes wf: "pair_wf st i j" and data: "data \<noteq> []"
  shows "\<exists>ret st'. BIO_write i data st = Some (ret, st') \<and> pair_wf st' i j
    \<and> chan_view (chan st' j) = chan_view (chan st j)
    \<and> (if bb_closed (chan st i) then
         ret = - 1 \<and> bs_errors st' = bs_errors st @ [BIO_R_BROKEN_PIPE] \<and> chan_view (chan st' i) = chan_view (chan st i)
       else if bb_len (chan st i) = bb_size (chan st i) then
         ret = - 1 \<and> bio_flags (bs_heap st' i) = bio_flags (BIO_set_retry_write (BIO_clear_retry_flags (bs_heap st i)))
         \<and> chan_view (chan st' i) = chan_view (chan st i)
       else ret = int (min (length data) (bb_size (chan st i) - bb_len (chan st i)))
         \<and> chan_view (chan st' i) = (bb_content (chan st i) @ take (nat ret) data, bb_size (chan st i), False))"
proof -
  let ?b = "(chan st i)\<lparr>bb_request := 0\<rparr>"
  let ?num = "if length data > bb_size ?b - bb_len ?b then bb_size ?b - bb_len ?b else length data"
  have ring: "ring_wf ?b" using wf by (simp add: pair_wf_def)
  show ?thesis
  proof (cases "bb_closed ?b \<or> bb_len ?b = bb_size ?b")
    case True
    then show ?thesis using wf data
      by (auto simp: BIO_write_def bio_write_def bio_frame_defs pair_wf_def Let_def chan_view_def)
  next
    case False
    have "0 < ?num" "?num \<le> bb_size ?b - bb_len ?b" "?num \<le> length data"
      using False data ring by (auto simp: ring_wf_def)
    from bio_write_loop_ok [OF ring this] obtain b' where b': "bio_write_loop ?b data ?num = Some b'"
      "ring_wf b'" "ring_same ?b b'" "bb_content b' = bb_content ?b @ take ?num data" by blast
    have num: "?num = min (length data) (bb_size (chan st i) - bb_len (chan st i))" by simp
    show ?thesis using wf data False b' unfolding num
      by (auto simp: BIO_write_def bio_write_def bio_frame_defs pair_wf_def Let_def chan_view_def ring_same_def)
  qed
qed

lemma BIO_read_cases:
  assumes wf: "pair_wf st i j" and k: "0 < k"
  shows "\<exists>ret bytes st'. BIO_read j (int k) st = Some (ret, bytes, st') \<and> pair_wf st' i j
    \<and> chan_view (chan st' j) = chan_view (chan st j)
    \<and> (if bb_content (chan st i) = [] then
         bytes = [] \<and> chan_view (chan st' i) = chan_view (chan st i)
         \<and> (if bb_closed (chan st i) then ret = 0 \<and> bio_flags (bs_heap st' j) = bio_flags (BIO_clear_retry_flags (bs_heap st j))
            else ret = - 1 \<and> bio_flags (bs_heap st' j) = bio_flags (BIO_set_retry_read (BIO_clear_retry_flags (bs_heap st j)))
              \<and> bb_request (chan st' i) = min k (bb_size (chan st i)))
       else ret = int (length bytes) \<and> bytes = take k (bb_content (chan st i))
         \<and> chan_view (chan st' i) = (drop k (bb_content (chan st i)), bb_size (chan st i), bb_closed (chan st i)))"
proof -
  let ?b = "(chan st i)\<lparr>bb_request := 0\<rparr>"
  have ring: "ring_wf ?b" "ring_wf (chan st i)" using wf by (simp_all add: pair_wf_def)
  have len: "length (bb_content (chan st i)) = bb_len (chan st i)" by (rule length_bb_content [OF ring(2)])
  show ?thesis
  proof (cases "bb_len ?b = 0")
    case True
    then have "bb_content (chan st i) = []" using len by simp
    then show ?thesis using wf k True
      by (auto simp: BIO_read_def bio_read_def bio_frame_defs pair_wf_def Let_def chan_view_def)
  next
    case False
    let ?n = "if bb_len ?b < k then bb_len ?b else k"
    have n: "0 < ?n" "?n \<le> bb_len ?b" using False k by auto
    from bio_read_loop_ok [OF ring(1) n] obtain b' where b': "bio_read_loop ?b ?n = Some (take ?n (bb_content ?b), b')"
      "ring_wf b'" "ring_same ?b b'" "bb_content b' = drop ?n (bb_content ?b)" by blast
    have "take ?n (bb_content ?b) = take k (bb_content (chan st i))"
      "drop ?n (bb_content ?b) = drop k (bb_content (chan st i))" "length (take k (bb_content (chan st i))) = ?n"
      "bb_content (chan st i) \<noteq> []"
      using len False by auto
    then show ?thesis using wf False b' k
      by (auto simp: BIO_read_def bio_read_def bio_frame_defs pair_wf_def Let_def chan_view_def ring_same_def)
  qed
qed

section \<open>One direction as a byte queue\<close>

definition dir_good :: "bio_state \<times> nat \<times> nat \<Rightarrow> bool" where
  "dir_good = (\<lambda>(st, i, j). pair_wf st i j \<and> \<not> bb_closed (chan st i))"

definition dir_content :: "bio_state \<times> nat \<times> nat \<Rightarrow> u8 list" where
  "dir_content = (\<lambda>(st, i, j). bb_content (chan st i))"

definition dir_capacity :: "bio_state \<times> nat \<times> nat \<Rightarrow> nat" where
  "dir_capacity = (\<lambda>(st, i, j). bb_size (chan st i))"

definition dir_put :: "bio_state \<times> nat \<times> nat \<Rightarrow> u8 list \<Rightarrow> nat \<times> bio_state \<times> nat \<times> nat" where
  "dir_put = (\<lambda>(st, i, j) xs. case BIO_write i xs st of
     None \<Rightarrow> (0, st, i, j) | Some (ret, st') \<Rightarrow> (nat ret, st', i, j))"

definition dir_get :: "bio_state \<times> nat \<times> nat \<Rightarrow> nat \<Rightarrow> u8 list \<times> bio_state \<times> nat \<times> nat" where
  "dir_get = (\<lambda>(st, i, j) k. case BIO_read j (int k) st of
     None \<Rightarrow> ([], st, i, j) | Some (ret, bytes, st') \<Rightarrow> (bytes, st', i, j))"

lemmas dir_defs = dir_good_def dir_content_def dir_capacity_def

lemma dir_put_ok:
  assumes "dir_good s" and "dir_put s xs = (n, s')"
  shows "dir_good s' \<and> dir_capacity s' = dir_capacity s
    \<and> n = min (length xs) (dir_capacity s - length (dir_content s)) \<and> dir_content s' = dir_content s @ take n xs"
proof -
  obtain st i j where s: "s = (st, i, j)" by (rule prod_cases3)
  have wf: "pair_wf st i j" "\<not> bb_closed (chan st i)" using assms(1) by (auto simp: s dir_good_def)
  have len: "length (bb_content (chan st i)) = bb_len (chan st i)" "bb_len (chan st i) \<le> bb_size (chan st i)"
    using wf length_bb_content by (auto simp: pair_wf_def ring_wf_def)
  show ?thesis
  proof (cases "xs = []")
    case True
    then have "BIO_write i xs st = Some (0, st)" using wf by (simp add: BIO_write_def pair_wf_def)
    with assms True show ?thesis by (auto simp: s dir_put_def)
  next
    case False
    from BIO_write_cases [OF wf(1) False] obtain ret st' where w: "BIO_write i xs st = Some (ret, st')"
      "pair_wf st' i j"
      "if bb_len (chan st i) = bb_size (chan st i)
       then ret = - 1 \<and> chan_view (chan st' i) = chan_view (chan st i)
       else ret = int (min (length xs) (bb_size (chan st i) - bb_len (chan st i)))
         \<and> chan_view (chan st' i) = (bb_content (chan st i) @ take (nat ret) xs, bb_size (chan st i), False)"
      using wf(2) by (auto split: if_splits)
    have "n = nat ret" "s' = (st', i, j)" using assms(2) w(1) by (auto simp: s dir_put_def)
    with w wf len show ?thesis
      by (cases "bb_len (chan st i) = bb_size (chan st i)") (auto simp: s dir_defs chan_view_def)
  qed
qed

lemma dir_get_ok:
  assumes "dir_good s" and "dir_get s k = (ys, s')"
  shows "dir_good s' \<and> dir_capacity s' = dir_capacity s
    \<and> ys = take k (dir_content s) \<and> dir_content s' = drop k (dir_content s)"
proof -
  obtain st i j where s: "s = (st, i, j)" by (rule prod_cases3)
  have wf: "pair_wf st i j" "\<not> bb_closed (chan st i)" using assms(1) by (auto simp: s dir_good_def)
  show ?thesis
  proof (cases "k = 0")
    case True
    then have "BIO_read j (int k) st = Some (0, [], st)" using wf by (simp add: BIO_read_def pair_wf_def)
    with assms True show ?thesis by (auto simp: s dir_get_def)
  next
    case False
    then have "0 < k" by simp
    from BIO_read_cases [OF wf(1) this] obtain ret bytes st' where w: "BIO_read j (int k) st = Some (ret, bytes, st')"
      "pair_wf st' i j"
      "if bb_content (chan st i) = [] then bytes = [] \<and> chan_view (chan st' i) = chan_view (chan st i)
       else bytes = take k (bb_content (chan st i))
         \<and> chan_view (chan st' i) = (drop k (bb_content (chan st i)), bb_size (chan st i), bb_closed (chan st i))"
      by (auto split: if_splits)
    have "ys = bytes" "s' = (st', i, j)" using assms(2) w(1) by (auto simp: s dir_get_def)
    with w wf show ?thesis
      by (cases "bb_content (chan st i) = []") (auto simp: s dir_defs chan_view_def)
  qed
qed

interpretation dir: byte_queue dir_good dir_content dir_capacity dir_put dir_get
proof (unfold_locales, goal_cases)
  case (1 s)
  then show ?case using length_bb_content by (auto simp: dir_defs pair_wf_def ring_wf_def)
qed (use dir_put_ok dir_get_ok in blast)+

section \<open>Control calls\<close>

lemma BIO_ctrl_frame:
  assumes wf: "pair_wf st i j" and c: "BIO_ctrl x cmd num ptr st = (r, st')" and x: "x = i \<or> x = j"
  shows "pair_wf st' i j \<and> bb_content (chan st' i) = bb_content (chan st i)
    \<and> bb_content (chan st' j) = bb_content (chan st j)"
proof -
  have closed: "ring_wf (b\<lparr>bb_closed := q\<rparr>) = ring_wf b" "bb_content (b\<lparr>bb_closed := q\<rparr>) = bb_content b" for b q
    by (cases "bb_buf b"; simp add: ring_wf_def bb_content_def)+
  show ?thesis using assms
    by (cases cmd) (auto simp: BIO_ctrl_def bio_ctrl_def pair_wf_def bio_frame_defs closed Let_def)
qed

lemma BIO_pair_guarantee:
  assumes "pair_wf st i j"
  shows "BIO_ctrl_get_write_guarantee i st =
      (if bb_closed (chan st i) then 0 else bb_size (chan st i) - length (bb_content (chan st i)))"
    and "BIO_pending j st = length (bb_content (chan st i))"
  using assms length_bb_content [of "chan st i"]
  by (auto simp: BIO_ctrl_get_write_guarantee_def BIO_pending_def BIO_ctrl_def bio_ctrl_def pair_wf_def Let_def
      nat_diff_distrib ring_wf_def)

lemma bio_pair_buffer_ok:
  assumes "bio_pair_buffer e b w = (True, b')" and "bb_buf b = None" and "bb_size b = 17408"
    and "w + OPENSSL_MALLOC_PREFIX \<le> SIZE_MAX"
  shows "\<exists>buf. b' = b\<lparr>bb_size := (if w = 0 then 17408 else w), bb_buf := Some buf, bb_len := 0, bb_offset := 0\<rparr>
    \<and> length buf = (if w = 0 then 17408 else w)"
proof -
  have "17408 + OPENSSL_MALLOC_PREFIX \<le> SIZE_MAX" by (simp add: OPENSSL_MALLOC_PREFIX_def SIZE_MAX_def)
  with assms show ?thesis
    by (cases b) (auto simp: bio_pair_buffer_def Let_def dest!: OPENSSL_malloc_size split: option.splits if_splits)
qed

lemma BIO_new_ok:
  assumes "BIO_new e i st = (True, st')"
  shows "bb_peer (chan st' i) = None \<and> bb_buf (chan st' i) = None \<and> bb_size (chan st' i) = 17408
    \<and> (\<forall>x. x \<noteq> i \<longrightarrow> bs_heap st' x = bs_heap st x)"
  using assms by (auto simp: BIO_new_def bio_new_def bio_put_def put_error_def split: option.splits)

lemma BIO_new_bio_pair_ok:
  assumes new: "BIO_new_bio_pair e i w1 j w2 st0 = (True, st)" and ij: "i \<noteq> j"
    and w: "w1 + OPENSSL_MALLOC_PREFIX \<le> SIZE_MAX" "w2 + OPENSSL_MALLOC_PREFIX \<le> SIZE_MAX"
  shows "pair_wf st i j \<and> bb_content (chan st i) = [] \<and> bb_content (chan st j) = []
    \<and> \<not> bb_closed (chan st i) \<and> \<not> bb_closed (chan st j)
    \<and> bb_size (chan st i) = (if w1 = 0 then 17408 else w1) \<and> bb_size (chan st j) = (if w2 = 0 then 17408 else w2)"
proof -
  obtain st1 st2 where n: "BIO_new e i st0 = (True, st1)" "BIO_new e j st1 = (True, st2)"
    "bio_make_pair e i j w1 w2 st2 = (True, st)"
    using new by (auto simp: BIO_new_bio_pair_def split: prod.splits if_splits bool.splits)
  have i: "bb_peer (chan st2 i) = None" "bb_buf (chan st2 i) = None" "bb_size (chan st2 i) = 17408"
    and j: "bb_peer (chan st2 j) = None" "bb_buf (chan st2 j) = None" "bb_size (chan st2 j) = 17408"
    using BIO_new_ok [OF n(1)] BIO_new_ok [OF n(2)] ij by auto
  obtain b1 where b1: "bio_pair_buffer e (chan st2 i) w1 = (True, b1)"
    using n(3) i j by (auto simp: bio_make_pair_def split: prod.splits bool.splits)
  have other: "chan (bio_put_ptr i b1 st2) j = chan st2 j" using ij by (simp add: bio_put_ptr_def bio_put_def)
  obtain b2 where b2: "bio_pair_buffer e (chan st2 j) w2 = (True, b2)"
    using n(3) i j b1 other by (auto simp: bio_make_pair_def Let_def split: prod.splits bool.splits)
  obtain x y where "b1 = (chan st2 i)\<lparr>bb_size := (if w1 = 0 then 17408 else w1), bb_buf := Some x, bb_len := 0, bb_offset := 0\<rparr>"
    "length x = (if w1 = 0 then 17408 else w1)"
    "b2 = (chan st2 j)\<lparr>bb_size := (if w2 = 0 then 17408 else w2), bb_buf := Some y, bb_len := 0, bb_offset := 0\<rparr>"
    "length y = (if w2 = 0 then 17408 else w2)"
    using bio_pair_buffer_ok [OF b1 i(2,3) w(1)] bio_pair_buffer_ok [OF b2 j(2,3) w(2)] by auto
  moreover have "st = snd (bio_make_pair e i j w1 w2 st2)" using n(3) by simp
  ultimately show ?thesis using ij i j b1 b2 other
    by (simp add: bio_make_pair_def Let_def bio_put_ptr_def bio_put_def pair_wf_def ring_wf_def bb_content_def ring_bytes_def)
qed

section \<open>Properties\<close>

text \<open>C25: transfers at either end of a pair. A write to an open end takes as many bytes as
  there is room for and puts them behind those already written, wrapping around the end
  of the buffer; one to a full end fails, asks for a retry and changes no byte. A read
  from the other end gives the oldest bytes; an empty one fails with a retry request and
  records how many bytes were wanted. Neither loop can run forever, neither call touches
  the other direction, and the write guarantee is exactly what the next write takes.\<close>

theorem BIO_pair_transfer:
  assumes "pair_wf st i j" and "data \<noteq> []" and "0 < k" and "\<not> bb_closed (chan st i)"
  shows "(\<exists>ret st'. BIO_write i data st = Some (ret, st') \<and> pair_wf st' i j
      \<and> bb_content (chan st' j) = bb_content (chan st j)
      \<and> (if BIO_ctrl_get_write_guarantee i st = 0
         then ret = - 1 \<and> BIO_should_retry (bs_heap st' i) \<noteq> 0 \<and> BIO_should_write (bs_heap st' i) \<noteq> 0
           \<and> bb_content (chan st' i) = bb_content (chan st i)
         else ret = int (min (length data) (BIO_ctrl_get_write_guarantee i st))
           \<and> bb_content (chan st' i) = bb_content (chan st i) @ take (nat ret) data))
    \<and> (\<exists>ret bytes st'. BIO_read j (int k) st = Some (ret, bytes, st') \<and> pair_wf st' i j
      \<and> bb_content (chan st' j) = bb_content (chan st j)
      \<and> (if BIO_pending j st = 0
         then ret = - 1 \<and> bytes = [] \<and> BIO_should_retry (bs_heap st' j) \<noteq> 0 \<and> BIO_should_read (bs_heap st' j) \<noteq> 0
           \<and> bb_content (chan st' i) = [] \<and> BIO_ctrl_get_read_request i st' = min k (bb_size (chan st i))
         else ret = int (length bytes) \<and> bytes = take k (bb_content (chan st i))
           \<and> bb_content (chan st' i) = drop k (bb_content (chan st i))))"
proof
  note g = BIO_pair_guarantee [OF assms(1)]
  have len: "length (bb_content (chan st i)) = bb_len (chan st i)" "bb_len (chan st i) \<le> bb_size (chan st i)"
    using assms(1) length_bb_content by (auto simp: pair_wf_def ring_wf_def)
  have flags: "BIO_should_retry b = bio_flags b AND BIO_FLAGS_SHOULD_RETRY"
    "BIO_should_write b = bio_flags b AND BIO_FLAGS_WRITE" "BIO_should_read b = bio_flags b AND BIO_FLAGS_READ" for b
    by (simp_all add: BIO_should_retry_def BIO_should_write_def BIO_should_read_def BIO_test_flags_def)
  from BIO_write_cases [OF assms(1,2)] obtain ret st' where w: "BIO_write i data st = Some (ret, st')"
    "pair_wf st' i j" "chan_view (chan st' j) = chan_view (chan st j)"
    "if bb_len (chan st i) = bb_size (chan st i) then
       ret = - 1 \<and> bio_flags (bs_heap st' i) = bio_flags (BIO_set_retry_write (BIO_clear_retry_flags (bs_heap st i)))
         \<and> chan_view (chan st' i) = chan_view (chan st i)
     else ret = int (min (length data) (bb_size (chan st i) - bb_len (chan st i)))
         \<and> chan_view (chan st' i) = (bb_content (chan st i) @ take (nat ret) data, bb_size (chan st i), False)"
    using assms(4) by (auto split: if_splits)
  then show "\<exists>ret st'. BIO_write i data st = Some (ret, st') \<and> pair_wf st' i j
      \<and> bb_content (chan st' j) = bb_content (chan st j)
      \<and> (if BIO_ctrl_get_write_guarantee i st = 0
         then ret = - 1 \<and> BIO_should_retry (bs_heap st' i) \<noteq> 0 \<and> BIO_should_write (bs_heap st' i) \<noteq> 0
           \<and> bb_content (chan st' i) = bb_content (chan st i)
         else ret = int (min (length data) (BIO_ctrl_get_write_guarantee i st))
           \<and> bb_content (chan st' i) = bb_content (chan st i) @ take (nat ret) data)"
    using len assms(4) retry_write_flags [of "bs_heap st i"] unfolding g flags
    by (auto simp: chan_view_def split: if_splits)
  from BIO_read_cases [OF assms(1,3)] assms(4) obtain ret bytes st' where r: "BIO_read j (int k) st = Some (ret, bytes, st')"
    "pair_wf st' i j" "chan_view (chan st' j) = chan_view (chan st j)"
    "if bb_content (chan st i) = [] then bytes = [] \<and> chan_view (chan st' i) = chan_view (chan st i)
       \<and> ret = - 1 \<and> bio_flags (bs_heap st' j) = bio_flags (BIO_set_retry_read (BIO_clear_retry_flags (bs_heap st j)))
       \<and> bb_request (chan st' i) = min k (bb_size (chan st i))
     else ret = int (length bytes) \<and> bytes = take k (bb_content (chan st i))
       \<and> chan_view (chan st' i) = (drop k (bb_content (chan st i)), bb_size (chan st i), bb_closed (chan st i))"
    by (auto split: if_splits)
  moreover have "BIO_ctrl_get_read_request i st' = bb_request (chan st' i)"
    by (simp add: BIO_ctrl_get_read_request_def BIO_ctrl_def bio_ctrl_def)
  ultimately show "\<exists>ret bytes st'. BIO_read j (int k) st = Some (ret, bytes, st') \<and> pair_wf st' i j
      \<and> bb_content (chan st' j) = bb_content (chan st j)
      \<and> (if BIO_pending j st = 0
         then ret = - 1 \<and> bytes = [] \<and> BIO_should_retry (bs_heap st' j) \<noteq> 0 \<and> BIO_should_read (bs_heap st' j) \<noteq> 0
           \<and> bb_content (chan st' i) = [] \<and> BIO_ctrl_get_read_request i st' = min k (bb_size (chan st i))
         else ret = int (length bytes) \<and> bytes = take k (bb_content (chan st i))
           \<and> bb_content (chan st' i) = drop k (bb_content (chan st i)))"
    using retry_read_flags [of "bs_heap st j"] unfolding g flags
    by (auto simp: chan_view_def split: if_splits)
qed

text \<open>A pair with a wrapped buffer, for concrete instances.\<close>

definition small_bio :: "nat \<Rightarrow> u8 list \<Rightarrow> bio_st" where
  "small_bio peer buf = \<lparr>bio_init = True, bio_shutdown = 1, bio_flags = 0, bio_retry_reason = 0,
     bio_ptr = \<lparr>bb_peer = Some peer, bb_closed = False, bb_len = 2, bb_offset = 3, bb_size = 4,
       bb_buf = Some buf, bb_request = 0\<rparr>, bio_num_read = 0, bio_num_write = 0\<rparr>"

definition small_pair :: bio_state where
  "small_pair = \<lparr>bs_heap = (\<lambda>x. if x = 0 then small_bio 1 [22, 0, 0, 11] else small_bio 0 [44, 0, 0, 33]),
     bs_errors = []\<rparr>"

lemma small_pair_facts:
  "pair_wf small_pair 0 1" "\<not> bb_closed (chan small_pair 0)" "bb_content (chan small_pair 0) = [11, 22]"
  "bb_size (chan small_pair 0) = 4"
  by (simp_all add: small_pair_def small_bio_def pair_wf_def ring_wf_def bb_content_def ring_bytes_def)

theorem BIO_pair_transfer_witness:
  "\<exists>st'. BIO_write 0 [55, 66, 77] small_pair = Some (2, st') \<and> bb_content (chan st' 0) = [11, 22, 55, 66]"
proof -
  have "BIO_ctrl_get_write_guarantee 0 small_pair = 2"
    using BIO_pair_guarantee(1) [OF small_pair_facts(1)] by (simp add: small_pair_facts)
  with BIO_pair_transfer [OF small_pair_facts(1), of "[55, 66, 77]" 1] show ?thesis
    by (auto simp: small_pair_facts)
qed

text \<open>A history of a pair: the bytes accepted and the bytes read at either end.\<close>

inductive pair_trace ::
    "bio_state \<Rightarrow> nat \<Rightarrow> nat \<Rightarrow> bio_state \<Rightarrow> u8 list \<Rightarrow> u8 list \<Rightarrow> u8 list \<Rightarrow> u8 list \<Rightarrow> bool"
  for st0 i j where
  trace_start: "pair_trace st0 i j st0 [] [] [] []"
| trace_write_i: "pair_trace st0 i j st wi rj wj ri \<Longrightarrow> BIO_write i xs st = Some (ret, st') \<Longrightarrow>
     pair_trace st0 i j st' (wi @ take (nat ret) xs) rj wj ri"
| trace_read_j: "pair_trace st0 i j st wi rj wj ri \<Longrightarrow> BIO_read j k st = Some (ret, ys, st') \<Longrightarrow>
     pair_trace st0 i j st' wi (rj @ ys) wj ri"
| trace_write_j: "pair_trace st0 i j st wi rj wj ri \<Longrightarrow> BIO_write j xs st = Some (ret, st') \<Longrightarrow>
     pair_trace st0 i j st' wi rj (wj @ take (nat ret) xs) ri"
| trace_read_i: "pair_trace st0 i j st wi rj wj ri \<Longrightarrow> BIO_read i k st = Some (ret, ys, st') \<Longrightarrow>
     pair_trace st0 i j st' wi rj wj (ri @ ys)"
| trace_ctrl: "pair_trace st0 i j st wi rj wj ri \<Longrightarrow> x = i \<or> x = j \<Longrightarrow> BIO_ctrl x cmd num p st = (r, st') \<Longrightarrow>
     pair_trace st0 i j st' wi rj wj ri"

lemma BIO_write_frame:
  assumes "pair_wf st i j" and "BIO_write i xs st = Some (ret, st')"
  shows "pair_wf st' i j \<and> bb_content (chan st' j) = bb_content (chan st j)
    \<and> bb_content (chan st' i) = bb_content (chan st i) @ take (nat ret) xs"
proof (cases "xs = []")
  case True
  with assms show ?thesis by (auto simp: BIO_write_def pair_wf_def)
next
  case False
  from BIO_write_cases [OF assms(1) this] assms(2) show ?thesis
    by (auto simp: chan_view_def split: if_splits)
qed

lemma BIO_read_frame:
  assumes "pair_wf st i j" and "BIO_read j k st = Some (ret, ys, st')"
  shows "pair_wf st' i j \<and> bb_content (chan st' j) = bb_content (chan st j)
    \<and> bb_content (chan st i) = ys @ bb_content (chan st' i)"
proof (cases "k \<le> 0")
  case True
  with assms show ?thesis by (auto simp: BIO_read_def pair_wf_def)
next
  case False
  then obtain n where k: "k = int n" "0 < n" by (metis nat_0_less_mult_iff not_le pos_int_cases)
  from BIO_read_cases [OF assms(1) k(2)] assms(2) show ?thesis
    by (auto simp: chan_view_def k(1) split: if_splits)
qed

lemma pair_trace_streams:
  assumes "pair_trace st0 i j st wi rj wj ri" and "pair_wf st0 i j"
  shows "pair_wf st i j \<and> bb_content (chan st0 i) @ wi = rj @ bb_content (chan st i)
    \<and> bb_content (chan st0 j) @ wj = ri @ bb_content (chan st j)"
  using assms
proof (induction rule: pair_trace.induct)
  case (trace_write_i st wi rj wj ri xs ret st')
  with BIO_write_frame [of st i j xs ret st'] show ?case by simp
next
  case (trace_read_j st wi rj wj ri k ret ys st')
  with BIO_read_frame [of st i j k ret ys st'] show ?case by simp
next
  case (trace_write_j st wi rj wj ri xs ret st')
  with BIO_write_frame [of st j i xs ret st'] pair_wf_sym show ?case by auto
next
  case (trace_read_i st wi rj wj ri k ret ys st')
  with BIO_read_frame [of st j i k ret ys st'] pair_wf_sym show ?case by auto
next
  case (trace_ctrl st wi rj wj ri x cmd num p r st')
  with BIO_ctrl_frame [of st i j x cmd num p r st'] show ?case by simp
qed simp

text \<open>An end that is closed stays closed, whatever is called at either end, and takes no more
  bytes.\<close>

lemma BIO_write_closed:
  assumes "pair_wf st i j" and "BIO_write i xs st = Some (ret, st')"
  shows "bb_closed (chan st' i) = bb_closed (chan st i)" and "bb_closed (chan st' j) = bb_closed (chan st j)"
    and "bb_closed (chan st i) \<Longrightarrow> ret \<le> 0"
proof -
  have "bb_closed (chan st' i) = bb_closed (chan st i) \<and> bb_closed (chan st' j) = bb_closed (chan st j)
    \<and> (bb_closed (chan st i) \<longrightarrow> ret \<le> 0)"
  proof (cases "xs = []")
    case True
    with assms show ?thesis by (auto simp: BIO_write_def pair_wf_def)
  next
    case False
    from BIO_write_cases [OF assms(1) this] assms(2) show ?thesis
      by (auto simp: chan_view_def split: if_splits)
  qed
  then show "bb_closed (chan st' i) = bb_closed (chan st i)" "bb_closed (chan st' j) = bb_closed (chan st j)"
    "bb_closed (chan st i) \<Longrightarrow> ret \<le> 0" by auto
qed

lemma BIO_read_closed:
  assumes "pair_wf st i j" and "BIO_read j k st = Some (ret, ys, st')"
  shows "bb_closed (chan st' i) = bb_closed (chan st i)" and "bb_closed (chan st' j) = bb_closed (chan st j)"
proof -
  have "bb_closed (chan st' i) = bb_closed (chan st i) \<and> bb_closed (chan st' j) = bb_closed (chan st j)"
  proof (cases "k \<le> 0")
    case True
    with assms show ?thesis by (auto simp: BIO_read_def pair_wf_def)
  next
    case False
    then obtain n where k: "k = int n" "0 < n" by (metis nat_0_less_mult_iff not_le pos_int_cases)
    from BIO_read_cases [OF assms(1) k(2)] assms(2) show ?thesis
      by (auto simp: chan_view_def k(1) split: if_splits)
  qed
  then show "bb_closed (chan st' i) = bb_closed (chan st i)" "bb_closed (chan st' j) = bb_closed (chan st j)"
    by auto
qed

lemma BIO_ctrl_closed:
  assumes "BIO_ctrl x cmd num ptr st = (r, st')" and "bb_closed (chan st i)"
  shows "bb_closed (chan st' i)"
  using assms by (cases cmd) (auto simp: BIO_ctrl_def bio_ctrl_def bio_frame_defs Let_def)

lemma closed_persists:
  assumes "pair_trace st0 i j st wi rj wj ri" and "pair_wf st0 i j" and "bb_closed (chan st0 i)"
  shows "bb_closed (chan st i) \<and> wi = []"
  using assms
proof (induction rule: pair_trace.induct)
  case (trace_write_i st wi rj wj ri xs ret st')
  with BIO_write_closed [of st i j xs ret st'] pair_trace_streams [of st0 i j st] show ?case by simp
next
  case (trace_read_j st wi rj wj ri k ret ys st')
  with BIO_read_closed [of st i j k ret ys st'] pair_trace_streams [of st0 i j st] show ?case by simp
next
  case (trace_write_j st wi rj wj ri xs ret st')
  with BIO_write_closed [of st j i xs ret st'] pair_trace_streams [of st0 i j st] pair_wf_sym show ?case by simp
next
  case (trace_read_i st wi rj wj ri k ret ys st')
  with BIO_read_closed [of st j i k ret ys st'] pair_trace_streams [of st0 i j st] pair_wf_sym show ?case by simp
next
  case (trace_ctrl st wi rj wj ri x cmd num p r st')
  with BIO_ctrl_closed [of x cmd num p st r st' i] show ?case by simp
qed simp

text \<open>C24: both directions are byte streams. Over any interleaving of writes, reads and
  control calls at both ends, with any sizes and any number of full, empty or refused
  calls, the bytes accepted at one end are those read at the other followed by those still
  in the buffer, and the pair stays well-formed.\<close>

theorem BIO_pair_streams:
  assumes "pair_trace st0 i j st wi rj wj ri" and "pair_wf st0 i j"
  shows "pair_wf st i j \<and> bb_content (chan st0 i) @ wi = rj @ bb_content (chan st i)
    \<and> bb_content (chan st0 j) @ wj = ri @ bb_content (chan st j)"
  using assms by (rule pair_trace_streams)

theorem BIO_pair_streams_witness:
  "\<exists>st' st''. BIO_write 0 [55, 66, 77] small_pair = Some (2, st')
    \<and> (\<exists>ret ys. BIO_read 1 3 st' = Some (ret, ys, st'') \<and> ys @ bb_content (chan st'' 0) = [11, 22, 55, 66])"
proof -
  obtain ret st' where w: "BIO_write 0 [55, 66, 77] small_pair = Some (ret, st')" "ret = 2" "pair_wf st' 0 1"
    using BIO_write_cases [OF small_pair_facts(1), of "[55, 66, 77]"]
    by (auto simp: small_pair_def small_bio_def)
  obtain r ys st'' where r: "BIO_read 1 3 st' = Some (r, ys, st'')"
    using BIO_read_cases [OF w(3), of 3] by auto
  have "pair_trace small_pair 0 1 st'' ([] @ take (nat ret) [55, 66, 77]) ([] @ ys) [] []"
    by (rule trace_read_j [OF trace_write_i [OF trace_start w(1)] r])
  from BIO_pair_streams [OF this small_pair_facts(1)] w r show ?thesis by (auto simp: small_pair_facts)
qed

text \<open>C27: closing one end, for good. After \<open>BIO_shutdown_wr\<close>, and after any further sequence of
  writes, reads and control calls at both ends, no byte is accepted at the closed end: the
  write guarantee is zero and every write fails with a broken pipe and adds nothing. The
  peer reads, in order, exactly what had been written before; once that is drained every
  read returns 0 without asking for a retry, which tells end-of-file from an empty open
  pair. The shutdown leaves the other direction untouched. \<open>BIO_eof\<close> alone cannot tell: it
  always says yes for a pair.\<close>

theorem BIO_pair_shutdown:
  assumes "pair_wf st0 i j" and "BIO_shutdown_wr i st0 = (r, st1)"
    and "pair_trace st1 i j st wi rj wj ri" and "data \<noteq> []" and "0 < k"
  shows "r = 1 \<and> chan st1 j = chan st0 j
    \<and> wi = [] \<and> bb_content (chan st0 i) = rj @ bb_content (chan st i)
    \<and> BIO_ctrl_get_write_guarantee i st = 0
    \<and> (\<exists>st2. BIO_write i data st = Some (- 1, st2) \<and> bs_errors st2 = bs_errors st @ [BIO_R_BROKEN_PIPE]
        \<and> bb_content (chan st2 i) = bb_content (chan st i))
    \<and> (\<exists>ret bytes st2. BIO_read j (int k) st = Some (ret, bytes, st2)
        \<and> bytes = take k (bb_content (chan st i)) \<and> ret = int (length bytes)
        \<and> bb_content (chan st2 i) = drop k (bb_content (chan st i))
        \<and> (ret = 0 \<longrightarrow> BIO_should_retry (bs_heap st2 j) = 0))
    \<and> BIO_eof i st = (1, st)"
proof -
  have st1: "st1 = bio_put_ptr i ((chan st0 i)\<lparr>bb_closed := True\<rparr>) st0" and r: "r = 1"
    using assms(2) by (simp_all add: BIO_shutdown_wr_def BIO_ctrl_def bio_ctrl_def Let_def)
  have "BIO_ctrl i BIO_C_SHUTDOWN_WR 0 None st0 = (r, st1)" using assms(2) by (simp add: BIO_shutdown_wr_def)
  note f = BIO_ctrl_frame [OF assms(1) this]
  have closed: "bb_closed (chan st1 i)" "chan st1 j = chan st0 j"
    using assms(1) by (simp_all add: st1 bio_put_ptr_def bio_put_def pair_wf_def)
  have wf1: "pair_wf st1 i j" and content: "bb_content (chan st1 i) = bb_content (chan st0 i)" using f by auto
  note run = pair_trace_streams [OF assms(3) wf1] closed_persists [OF assms(3) wf1 closed(1)]
  then have wf: "pair_wf st i j" and cl: "bb_closed (chan st i)" and wi: "wi = []"
    and left: "bb_content (chan st0 i) = rj @ bb_content (chan st i)" using content by auto
  have w: "\<exists>st2. BIO_write i data st = Some (- 1, st2) \<and> bs_errors st2 = bs_errors st @ [BIO_R_BROKEN_PIPE]
        \<and> bb_content (chan st2 i) = bb_content (chan st i)"
    using BIO_write_cases [OF wf assms(4)] cl by (auto simp: chan_view_def)
  have retry: "BIO_should_retry b = 0" if "bio_flags b = bio_flags (BIO_clear_retry_flags b')" for b b'
    using that retry_cleared [of b'] by (simp add: BIO_should_retry_def BIO_test_flags_def)
  have "\<exists>ret bytes st2. BIO_read j (int k) st = Some (ret, bytes, st2)
        \<and> bytes = take k (bb_content (chan st i)) \<and> ret = int (length bytes)
        \<and> bb_content (chan st2 i) = drop k (bb_content (chan st i))
        \<and> (ret = 0 \<longrightarrow> BIO_should_retry (bs_heap st2 j) = 0)"
  proof (cases "bb_content (chan st i) = []")
    case True
    with BIO_read_cases [OF wf assms(5)] cl show ?thesis by (auto simp: chan_view_def intro: retry)
  next
    case False
    with BIO_read_cases [OF wf assms(5)] assms(5) show ?thesis
      by (auto simp: take_eq_Nil min_def chan_view_def split: if_splits)
  qed
  moreover have "BIO_eof i st = (1, st)" by (simp add: BIO_eof_def BIO_ctrl_def bio_ctrl_def Let_def)
  moreover have "BIO_ctrl_get_write_guarantee i st = 0" using BIO_pair_guarantee(1) [OF wf] cl by simp
  ultimately show ?thesis using r closed(2) wi left w by blast
qed

theorem BIO_pair_shutdown_witness:
  "\<exists>st1 st2 st3. BIO_shutdown_wr 0 small_pair = (1, st1)
    \<and> BIO_read 1 5 st1 = Some (2, [11, 22], st2)
    \<and> BIO_read 1 5 st2 = Some (0, [], st3) \<and> BIO_should_retry (bs_heap st3 1) = 0"
proof -
  obtain r st1 where s: "BIO_shutdown_wr 0 small_pair = (r, st1)" by (rule prod.exhaust)
  note at = BIO_pair_shutdown [OF small_pair_facts(1) s, of _ _ _ _ _ "[9]" 5]
  from at [OF trace_start] have c1: "r = 1" "bb_content (chan st1 0) = [11, 22]"
    and rd: "\<exists>ret bytes st2. BIO_read 1 (int 5) st1 = Some (ret, bytes, st2)
      \<and> bytes = take 5 (bb_content (chan st1 0)) \<and> ret = int (length bytes)"
    unfolding small_pair_facts by auto
  then obtain st2 where r1: "BIO_read 1 5 st1 = Some (2, [11, 22], st2)" by (auto simp: c1(2))
  from at [OF trace_read_j [OF trace_start r1]] have c2: "bb_content (chan st2 0) = []"
    and rd2: "\<exists>ret bytes st3. BIO_read 1 (int 5) st2 = Some (ret, bytes, st3)
      \<and> bytes = take 5 (bb_content (chan st2 0)) \<and> ret = int (length bytes)
      \<and> (ret = 0 \<longrightarrow> BIO_should_retry (bs_heap st3 1) = 0)"
    unfolding small_pair_facts by auto
  from rd2 obtain st3 where "BIO_read 1 5 st2 = Some (0, [], st3)" "BIO_should_retry (bs_heap st3 1) = 0"
    unfolding c2 by auto
  with s r1 c1(1) show ?thesis by auto
qed

text \<open>C26: a new pair delivers. From \<open>BIO_new_bio_pair\<close>, after any run of writes at one end
  and reads at the other, enough further reads of any positive size give the rest: what
  was read in all is exactly what was accepted, and the buffer is empty.\<close>

theorem BIO_pair_delivers:
  assumes "BIO_new_bio_pair e i w1 j w2 st0 = (True, st)" and "i \<noteq> j"
    and "w1 + OPENSSL_MALLOC_PREFIX \<le> SIZE_MAX" and "w2 + OPENSSL_MALLOC_PREFIX \<le> SIZE_MAX"
    and "run_queue dir_put dir_get (st, i, j) ops = (inp, out, s1)"
    and "length (dir_content s1) \<le> n * k"
    and "run_queue dir_put dir_get s1 (replicate n (Get k)) = (inp2, out2, s2)"
  shows "out @ out2 = inp \<and> dir_content s2 = []"
proof -
  note new = BIO_new_bio_pair_ok [OF assms(1-4)]
  then have good: "dir_good (st, i, j)" "dir_content (st, i, j) = []" by (auto simp: dir_good_def dir_content_def)
  from dir.run_fifo [OF good(1) assms(5)] have s1: "dir_good s1" "inp = out @ dir_content s1"
    by (simp_all add: good(2))
  from dir.run_reads [OF s1(1) assms(7)] assms(6) s1(2) show ?thesis by simp
qed

theorem BIO_pair_delivers_witness:
  "\<exists>st inp out s1 s2 out2. BIO_new_bio_pair \<lparr>malloc_ok = \<lambda>_. True, fresh = \<lambda>_. 0\<rparr> 0 4 1 4 small_pair = (True, st)
    \<and> run_queue dir_put dir_get (st, 0, 1) [Put [1, 2, 3], Get 1, Put [4, 5]] = (inp, out, s1)
    \<and> run_queue dir_put dir_get s1 (replicate 2 (Get 2)) = ([], out2, s2) \<and> out @ out2 = inp"
proof -
  let ?e = "\<lparr>malloc_ok = \<lambda>_. True, fresh = \<lambda>_. 0\<rparr>"
  have m: "OPENSSL_malloc ?e n \<noteq> None" for n by (simp add: OPENSSL_malloc_def Let_def)
  have "fst (BIO_new_bio_pair ?e 0 4 1 4 small_pair)"
    by (simp add: BIO_new_bio_pair_def BIO_new_def bio_new_def bio_make_pair_def bio_pair_buffer_def
        OPENSSL_malloc_def Let_def bio_put_def bio_put_ptr_def)
  then obtain st where st: "BIO_new_bio_pair ?e 0 4 1 4 small_pair = (True, st)" by (metis prod.collapse)
  have p: "(4 :: nat) + OPENSSL_MALLOC_PREFIX \<le> SIZE_MAX" by (simp add: OPENSSL_MALLOC_PREFIX_def SIZE_MAX_def)
  obtain inp out s1 where r: "run_queue dir_put dir_get (st, 0, 1) [Put [1, 2, 3], Get 1, Put [4, 5]] = (inp, out, s1)"
    by (rule prod_cases3)
  obtain inp2 out2 s2 where r2: "run_queue dir_put dir_get s1 (replicate 2 (Get 2)) = (inp2, out2, s2)" by (rule prod_cases3)
  note new = BIO_new_bio_pair_ok [OF st _ p p]
  have good: "dir_good (st, 0, 1)" "dir_capacity (st, 0, 1) = 4"
    using new by (simp_all add: dir_good_def dir_capacity_def)
  have s1: "dir_good s1" "dir_capacity s1 = 4" using dir.run_fifo [OF good(1) r] good(2) by simp_all
  then have "length (dir_content s1) \<le> 2 * 2" using dir.content_le [OF s1(1)] by simp
  then have "out @ out2 = inp" using BIO_pair_delivers [OF st _ p p r _ r2] by simp
  moreover have "inp2 = []" using dir.run_reads [OF s1(1) r2] by simp
  ultimately show ?thesis using st r r2
    by (intro exI [of _ st] exI [of _ inp] exI [of _ out] exI [of _ s1] exI [of _ s2] exI [of _ out2])
      (simp only: simp_thms)
qed

end
