(* ===== verification/PbStream.thy ===== *)
theory PbStream
  imports Prelude
begin

text \<open>
  The streams and the wire format of nanopb (\<open>pb_decode.c\<close> and \<open>pb_encode.c\<close> in
  \<open>Pods/nanopb\<close>, which the Firestore and transport pods use for every message they
  store or send), in the configuration the pods are built with (\<open>PB_FIELD_32BIT\<close>,
  \<open>PB_ENABLE_MALLOC\<close>, error messages and custom streams on, 64-bit integers).

  A stream is the C structure: where the bytes come from or go to, the counter that limits
  them and the error message. The source of an input stream is a buffer, read by
  \<open>buf_read\<close>, or the state of a callback of the caller; an output stream has in addition the
  sizing stream, whose callback is \<open>NULL\<close>. The callbacks are arguments of the operations.
  One that reads delivers the bytes asked for, or fails and may then report the end of the
  input by setting \<open>bytes_left\<close> to zero, as its documentation allows.

  An operation returns what it stores through its pointers, \<open>None\<close> when it returns false,
  and the stream after it. \<open>uint_fast8_t\<close> has 8 bits, as on the platforms of the pods.
\<close>

section \<open>Input streams\<close>

datatype 's pb_source = BufSource "u8 list" | UserSource 's

datatype 's pb_delivery = Delivered "u8 list" 's | Failed bool 's

type_synonym 's pb_reader = "'s \<Rightarrow> nat \<Rightarrow> 's pb_delivery"

record 's pb_istream =
  is_state :: "'s pb_source"
  is_bytes_left :: nat
  is_errmsg :: "string option"

text \<open>The end of a function that returns false with a message: the first message stays.\<close>

definition is_fail :: "string \<Rightarrow> 's pb_istream \<Rightarrow> 'a option \<times> 's pb_istream" where
  "is_fail msg s = (None, s\<lparr>is_errmsg := (case is_errmsg s of None \<Rightarrow> Some msg | Some m \<Rightarrow> Some m)\<rparr>)"

definition pb_istream_from_buffer :: "u8 list \<Rightarrow> nat \<Rightarrow> 's pb_istream" where
  "pb_istream_from_buffer buf bufsize =
     \<lparr>is_state = BufSource buf, is_bytes_left = bufsize, is_errmsg = None\<rparr>"

definition buf_read :: "u8 list \<Rightarrow> nat \<Rightarrow> u8 list \<times> u8 list" where
  "buf_read source n = (take n source, drop n source)"

text \<open>\<open>stream->callback(stream, buf, count)\<close>.\<close>

definition is_callback :: "'s pb_reader \<Rightarrow> 's pb_istream \<Rightarrow> nat \<Rightarrow> u8 list option \<times> 's pb_istream" where
  "is_callback cb s n =
     (case is_state s of
        BufSource b \<Rightarrow> (let (bs, b') = buf_read b n in (Some bs, s\<lparr>is_state := BufSource b'\<rparr>))
      | UserSource u \<Rightarrow>
          (case cb u n of
             Delivered bs u' \<Rightarrow> (Some bs, s\<lparr>is_state := UserSource u'\<rparr>)
           | Failed at_end u' \<Rightarrow>
               (None, s\<lparr>is_state := UserSource u',
                        is_bytes_left := (if at_end then 0 else is_bytes_left s)\<rparr>)))"

text \<open>The part of \<open>pb_read\<close> after the skipping branch.\<close>

definition pb_read_into :: "'s pb_reader \<Rightarrow> 's pb_istream \<Rightarrow> nat \<Rightarrow> u8 list option \<times> 's pb_istream" where
  "pb_read_into cb s len =
     (if is_bytes_left s < len then is_fail ''end-of-stream'' s
      else case is_callback cb s len of
        (None, s) \<Rightarrow> is_fail ''io error'' s
      | (Some bs, s) \<Rightarrow> (Some bs, s\<lparr>is_bytes_left := is_bytes_left s - len\<rparr>))"

text \<open>Skipping on a stream that is not a buffer: sixteen bytes at a time.\<close>

fun pb_read_skip :: "'s pb_reader \<Rightarrow> 's pb_istream \<Rightarrow> nat \<Rightarrow> u8 list option \<times> 's pb_istream" where
  "pb_read_skip cb s len =
     (if len > 16 then
        (case pb_read_into cb s 16 of
           (None, s) \<Rightarrow> (None, s)
         | (Some _, s) \<Rightarrow> pb_read_skip cb s (len - 16))
      else pb_read_into cb s len)"

declare pb_read_skip.simps [simp del]

definition is_buffer :: "'s pb_istream \<Rightarrow> bool" where
  "is_buffer s = (case is_state s of BufSource _ \<Rightarrow> True | UserSource _ \<Rightarrow> False)"

text \<open>\<open>pb_read\<close>; the flag says whether \<open>buf\<close> is \<open>NULL\<close>.\<close>

definition pb_read :: "'s pb_reader \<Rightarrow> 's pb_istream \<Rightarrow> bool \<Rightarrow> nat \<Rightarrow> u8 list option \<times> 's pb_istream" where
  "pb_read cb s is_null len =
     (if is_null \<and> \<not> is_buffer s then pb_read_skip cb s len
      else pb_read_into cb s len)"

definition pb_readbyte :: "'s pb_reader \<Rightarrow> 's pb_istream \<Rightarrow> u8 option \<times> 's pb_istream" where
  "pb_readbyte cb s =
     (if is_bytes_left s = 0 then is_fail ''end-of-stream'' s
      else case is_callback cb s 1 of
        (None, s) \<Rightarrow> is_fail ''io error'' s
      | (Some bs, s) \<Rightarrow> (Some (hd (bs @ [0])), s\<lparr>is_bytes_left := is_bytes_left s - 1\<rparr>))"

lemma pb_read_not_null [simp]: "pb_read cb s False n = pb_read_into cb s n"
  by (simp add: pb_read_def)

text \<open>The loops over a stream end because each byte read lowers \<open>bytes_left\<close>.\<close>

lemma is_callback_bytes_left:
  "is_callback cb s n = (Some bs, s') \<Longrightarrow> is_bytes_left s' = is_bytes_left s"
  by (auto simp: is_callback_def buf_read_def split: pb_source.splits pb_delivery.splits)

lemma pb_readbyte_bytes_left:
  "pb_readbyte cb s = (Some b, s') \<Longrightarrow> is_bytes_left s = Suc (is_bytes_left s')"
  by (auto simp: pb_readbyte_def is_fail_def dest: is_callback_bytes_left
      split: if_splits prod.splits option.splits)

lemma pb_read_into_bytes_left:
  "pb_read_into cb s n = (Some bs, s') \<Longrightarrow> is_bytes_left s = is_bytes_left s' + n"
  by (auto simp: pb_read_into_def is_fail_def dest: is_callback_bytes_left
      split: if_splits prod.splits option.splits)

section \<open>Varints\<close>

text \<open>The loop of the multibyte case of \<open>pb_decode_varint32_eof\<close>. A \<open>do\<close> loop: the byte is
  read, checked or accumulated, and \<open>bitpos\<close> advanced in 8 bits; the loop returns the
  result, the last byte and the final \<open>bitpos\<close>.\<close>

function varint32_loop :: "'s pb_reader \<Rightarrow> u32 \<Rightarrow> u8 \<Rightarrow> 's pb_istream \<Rightarrow>
    (u32 \<times> u8 \<times> u8) option \<times> 's pb_istream" where
  "varint32_loop cb result bitpos s =
     (case pb_readbyte cb s of
        (None, s) \<Rightarrow> (None, s)
      | (Some b, s) \<Rightarrow>
          let sign_extension = (if bitpos < 63 then 0xFF else 0x01) :: u8 in
          if bitpos \<ge> 32 \<and> b AND 0x7F \<noteq> 0 \<and> (drop_bit 31 result = 0 \<or> b \<noteq> sign_extension) then
            is_fail ''varint overflow'' s
          else
            let result = (if bitpos \<ge> 32 then result
                          else result OR push_bit (unat bitpos) (ucast (b AND 0x7F)));
                bitpos = bitpos + 7
            in if b AND 0x80 \<noteq> 0 then varint32_loop cb result bitpos s
               else (Some (result, b, bitpos), s))"
  by pat_completeness auto
termination
  by (relation "measure (\<lambda>(cb, result, bitpos, s). is_bytes_left s)")
    (auto dest!: pb_readbyte_bytes_left [OF sym])

declare varint32_loop.simps [simp del]

text \<open>\<open>pb_decode_varint32_eof\<close>: the value, whether \<open>*eof\<close> was set, and the stream.\<close>

definition pb_decode_varint32_eof ::
    "'s pb_reader \<Rightarrow> 's pb_istream \<Rightarrow> u32 option \<times> bool \<times> 's pb_istream" where
  "pb_decode_varint32_eof cb s =
     (case pb_readbyte cb s of
        (None, s) \<Rightarrow> (None, is_bytes_left s = 0, s)
      | (Some b, s) \<Rightarrow>
          if b AND 0x80 = 0 then (Some (ucast b), False, s)
          else
            case varint32_loop cb (ucast (b AND 0x7F)) 7 s of
              (None, s) \<Rightarrow> (None, False, s)
            | (Some (result, b, bitpos), s) \<Rightarrow>
                if bitpos = 35 \<and> b AND 0x70 \<noteq> 0 then
                  (case is_fail ''varint overflow'' s of (r, s) \<Rightarrow> (r, False, s))
                else (Some result, False, s))"

definition pb_decode_varint32 :: "'s pb_reader \<Rightarrow> 's pb_istream \<Rightarrow> u32 option \<times> 's pb_istream" where
  "pb_decode_varint32 cb s =
     (case pb_decode_varint32_eof cb s of (r, _, s) \<Rightarrow> (r, s))"

function varint_loop :: "'s pb_reader \<Rightarrow> u64 \<Rightarrow> u8 \<Rightarrow> 's pb_istream \<Rightarrow> u64 option \<times> 's pb_istream" where
  "varint_loop cb result bitpos s =
     (if bitpos \<ge> 64 then is_fail ''varint overflow'' s
      else case pb_readbyte cb s of
        (None, s) \<Rightarrow> (None, s)
      | (Some b, s) \<Rightarrow>
          let result = result OR push_bit (unat bitpos) (ucast (b AND 0x7F));
              bitpos = bitpos + 7
          in if b AND 0x80 \<noteq> 0 then varint_loop cb result bitpos s else (Some result, s))"
  by pat_completeness auto
termination varint_loop
  by (relation "measure (\<lambda>(cb, result, bitpos, s). is_bytes_left s)")
    (auto dest!: pb_readbyte_bytes_left [OF sym])

declare varint_loop.simps [simp del]

definition pb_decode_varint :: "'s pb_reader \<Rightarrow> 's pb_istream \<Rightarrow> u64 option \<times> 's pb_istream" where
  "pb_decode_varint cb s = varint_loop cb 0 0 s"

definition pb_decode_svarint :: "'s pb_reader \<Rightarrow> 's pb_istream \<Rightarrow> u64 option \<times> 's pb_istream" where
  "pb_decode_svarint cb s =
     (case pb_decode_varint cb s of
        (None, s) \<Rightarrow> (None, s)
      | (Some v, s) \<Rightarrow> (Some (if v AND 1 \<noteq> 0 then NOT (drop_bit 1 v) else drop_bit 1 v), s))"

section \<open>Fixed-width values\<close>

definition pb_decode_fixed32 :: "'s pb_reader \<Rightarrow> 's pb_istream \<Rightarrow> u32 option \<times> 's pb_istream" where
  "pb_decode_fixed32 cb s =
     (case pb_read cb s False 4 of
        (None, s) \<Rightarrow> (None, s)
      | (Some bytes, s) \<Rightarrow>
          (Some (push_bit 0 (ucast (bytes ! 0)) OR push_bit 8 (ucast (bytes ! 1)) OR
                 push_bit 16 (ucast (bytes ! 2)) OR push_bit 24 (ucast (bytes ! 3))), s))"

definition pb_decode_fixed64 :: "'s pb_reader \<Rightarrow> 's pb_istream \<Rightarrow> u64 option \<times> 's pb_istream" where
  "pb_decode_fixed64 cb s =
     (case pb_read cb s False 8 of
        (None, s) \<Rightarrow> (None, s)
      | (Some bytes, s) \<Rightarrow>
          (Some (push_bit 0 (ucast (bytes ! 0)) OR push_bit 8 (ucast (bytes ! 1)) OR
                 push_bit 16 (ucast (bytes ! 2)) OR push_bit 24 (ucast (bytes ! 3)) OR
                 push_bit 32 (ucast (bytes ! 4)) OR push_bit 40 (ucast (bytes ! 5)) OR
                 push_bit 48 (ucast (bytes ! 6)) OR push_bit 56 (ucast (bytes ! 7))), s))"

section \<open>Tags, skipping and substreams\<close>

text \<open>\<open>pb_wire_type_t\<close> is the low three bits of a tag, of which four values are named.\<close>

type_synonym pb_wire_type = u32

definition PB_WT_VARINT :: pb_wire_type where "PB_WT_VARINT = 0"
definition PB_WT_64BIT :: pb_wire_type where "PB_WT_64BIT = 1"
definition PB_WT_STRING :: pb_wire_type where "PB_WT_STRING = 2"
definition PB_WT_32BIT :: pb_wire_type where "PB_WT_32BIT = 5"

lemmas pb_wire_types [simp] = PB_WT_VARINT_def PB_WT_64BIT_def PB_WT_STRING_def PB_WT_32BIT_def

text \<open>\<open>pb_decode_tag\<close>: wire type and tag, and \<open>*eof\<close>.\<close>

definition pb_decode_tag :: "'s pb_reader \<Rightarrow> 's pb_istream \<Rightarrow>
    (pb_wire_type \<times> u32) option \<times> bool \<times> 's pb_istream" where
  "pb_decode_tag cb s =
     (case pb_decode_varint32_eof cb s of
        (None, eof, s) \<Rightarrow> (None, eof, s)
      | (Some temp, _, s) \<Rightarrow>
          if temp = 0 then (None, True, s)
          else (Some (temp AND 7, drop_bit 3 temp), False, s))"

function pb_skip_varint :: "'s pb_reader \<Rightarrow> 's pb_istream \<Rightarrow> unit option \<times> 's pb_istream" where
  "pb_skip_varint cb s =
     (case pb_read cb s False 1 of
        (None, s) \<Rightarrow> (None, s)
      | (Some bs, s) \<Rightarrow>
          if hd (bs @ [0]) AND 0x80 \<noteq> 0 then pb_skip_varint cb s else (Some (), s))"
  by pat_completeness auto
termination pb_skip_varint
  by (relation "measure (\<lambda>(cb, s). is_bytes_left s)") (auto dest!: pb_read_into_bytes_left [OF sym])

declare pb_skip_varint.simps [simp del]

definition pb_skip_bytes :: "'s pb_reader \<Rightarrow> 's pb_istream \<Rightarrow> nat \<Rightarrow> unit option \<times> 's pb_istream" where
  "pb_skip_bytes cb s n = (case pb_read cb s True n of (r, s) \<Rightarrow> (map_option (\<lambda>_. ()) r, s))"

definition pb_skip_string :: "'s pb_reader \<Rightarrow> 's pb_istream \<Rightarrow> unit option \<times> 's pb_istream" where
  "pb_skip_string cb s =
     (case pb_decode_varint32 cb s of
        (None, s) \<Rightarrow> (None, s)
      | (Some len, s) \<Rightarrow> pb_skip_bytes cb s (unat len))"

definition pb_skip_field :: "'s pb_reader \<Rightarrow> 's pb_istream \<Rightarrow> pb_wire_type \<Rightarrow>
    unit option \<times> 's pb_istream" where
  "pb_skip_field cb s wire_type =
     (if wire_type = PB_WT_VARINT then pb_skip_varint cb s
      else if wire_type = PB_WT_64BIT then pb_skip_bytes cb s 8
      else if wire_type = PB_WT_STRING then pb_skip_string cb s
      else if wire_type = PB_WT_32BIT then pb_skip_bytes cb s 4
      else is_fail ''invalid wire_type'' s)"

text \<open>The loop of \<open>read_raw_value\<close> for a varint; \<open>n\<close> is the room left in the buffer.\<close>

fun raw_varint_loop :: "'s pb_reader \<Rightarrow> nat \<Rightarrow> u8 list \<Rightarrow> 's pb_istream \<Rightarrow>
    u8 list option \<times> 's pb_istream" where
  "raw_varint_loop cb 0 acc s = (None, s)"
| "raw_varint_loop cb (Suc n) acc s =
     (case pb_read cb s False 1 of
        (None, s) \<Rightarrow> (None, s)
      | (Some bs, s) \<Rightarrow>
          let b = hd (bs @ [0])
          in if b AND 0x80 \<noteq> 0 then raw_varint_loop cb n (acc @ [b]) s else (Some (acc @ [b]), s))"

definition read_raw_value :: "'s pb_reader \<Rightarrow> 's pb_istream \<Rightarrow> pb_wire_type \<Rightarrow> nat \<Rightarrow>
    u8 list option \<times> 's pb_istream" where
  "read_raw_value cb s wire_type max_size =
     (if wire_type = PB_WT_VARINT then raw_varint_loop cb max_size [] s
      else if wire_type = PB_WT_64BIT then pb_read cb s False 8
      else if wire_type = PB_WT_32BIT then pb_read cb s False 4
      else is_fail ''invalid wire_type'' s)"

text \<open>\<open>pb_make_string_substream\<close>: the substream, and the parent after it.\<close>

definition pb_make_string_substream :: "'s pb_reader \<Rightarrow> 's pb_istream \<Rightarrow>
    's pb_istream option \<times> 's pb_istream" where
  "pb_make_string_substream cb s =
     (case pb_decode_varint32 cb s of
        (None, s) \<Rightarrow> (None, s)
      | (Some len, s) \<Rightarrow>
          if is_bytes_left s < unat len then is_fail ''parent stream too short'' s
          else (Some (s\<lparr>is_bytes_left := unat len\<rparr>),
                s\<lparr>is_bytes_left := is_bytes_left s - unat len\<rparr>))"

definition pb_close_string_substream :: "'s pb_reader \<Rightarrow> 's pb_istream \<Rightarrow> 's pb_istream \<Rightarrow>
    unit option \<times> 's pb_istream" where
  "pb_close_string_substream cb s sub =
     (case (if is_bytes_left sub \<noteq> 0 then pb_skip_bytes cb sub (is_bytes_left sub) else (Some (), sub)) of
        (None, _) \<Rightarrow> (None, s)
      | (Some _, sub) \<Rightarrow> (Some (), s\<lparr>is_state := is_state sub, is_errmsg := is_errmsg sub\<rparr>))"

section \<open>Output streams\<close>

text \<open>The sink of an output stream: none (\<open>callback = NULL\<close>, a sizing stream), a buffer, as
  the bytes stored before \<open>stream->state\<close>, or the state of a callback of the caller.\<close>

datatype 's pb_sink = SizingSink | BufSink "u8 list" | UserSink 's

type_synonym 's pb_writer = "'s \<Rightarrow> u8 list \<Rightarrow> bool \<times> 's"

record 's pb_ostream =
  os_state :: "'s pb_sink"
  os_max_size :: nat
  os_bytes_written :: nat
  os_errmsg :: "string option"

definition os_fail :: "string \<Rightarrow> 's pb_ostream \<Rightarrow> bool \<times> 's pb_ostream" where
  "os_fail msg s = (False, s\<lparr>os_errmsg := (case os_errmsg s of None \<Rightarrow> Some msg | Some m \<Rightarrow> Some m)\<rparr>)"

text \<open>Two writing steps, the second one only when the first returned true.\<close>

definition pb_then :: "('s pb_ostream \<Rightarrow> bool \<times> 's pb_ostream) \<Rightarrow>
    ('s pb_ostream \<Rightarrow> bool \<times> 's pb_ostream) \<Rightarrow> 's pb_ostream \<Rightarrow> bool \<times> 's pb_ostream" where
  "pb_then f g s = (case f s of (False, s) \<Rightarrow> (False, s) | (True, s) \<Rightarrow> g s)"

definition PB_OSTREAM_SIZING :: "'s pb_ostream" where
  "PB_OSTREAM_SIZING =
     \<lparr>os_state = SizingSink, os_max_size = 0, os_bytes_written = 0, os_errmsg = None\<rparr>"

definition pb_ostream_from_buffer :: "nat \<Rightarrow> 's pb_ostream" where
  "pb_ostream_from_buffer bufsize =
     \<lparr>os_state = BufSink [], os_max_size = bufsize, os_bytes_written = 0, os_errmsg = None\<rparr>"

definition buf_write :: "u8 list \<Rightarrow> u8 list \<Rightarrow> nat \<Rightarrow> u8 list" where
  "buf_write dest buf n = dest @ take n buf"

text \<open>\<open>pb_write\<close>; a sizing stream does not look at \<open>buf\<close>, which may then be \<open>NULL\<close>.\<close>

definition pb_write :: "'s pb_writer \<Rightarrow> 's pb_ostream \<Rightarrow> u8 list \<Rightarrow> nat \<Rightarrow> bool \<times> 's pb_ostream" where
  "pb_write cb s buf len =
     (if os_state s = SizingSink then
        (True, s\<lparr>os_bytes_written := size_add (os_bytes_written s) len\<rparr>)
      else if size_add (os_bytes_written s) len > os_max_size s then os_fail ''stream full'' s
      else
        case (case os_state s of
                BufSink dest \<Rightarrow> (True, s\<lparr>os_state := BufSink (buf_write dest buf len)\<rparr>)
              | UserSink u \<Rightarrow> (case cb u (take len buf) of (ok, u) \<Rightarrow> (ok, s\<lparr>os_state := UserSink u\<rparr>))
              | SizingSink \<Rightarrow> (True, s)) of
          (False, s) \<Rightarrow> os_fail ''io error'' s
        | (True, s) \<Rightarrow> (True, s\<lparr>os_bytes_written := size_add (os_bytes_written s) len\<rparr>))"

text \<open>The bytes of \<open>pb_encode_varint\<close> before the top bit of the last one is cleared.\<close>

function varint_bytes :: "u64 \<Rightarrow> u8 list" where
  "varint_bytes v =
     (if v = 0 then [] else (ucast (v AND 0x7F) OR 0x80) # varint_bytes (drop_bit 7 v))"
  by auto
termination varint_bytes
proof (relation "measure unat")
  fix v :: u64
  assume "v \<noteq> 0"
  then have "0 < unat v" by (simp add: unat_gt_0)
  then show "(drop_bit 7 v, v) \<in> measure unat"
    by (simp add: unat_drop_bit_eq drop_bit_eq_div [where 'a = nat])
qed simp

declare varint_bytes.simps [simp del]

definition pb_encode_varint :: "'s pb_writer \<Rightarrow> 's pb_ostream \<Rightarrow> u64 \<Rightarrow> bool \<times> 's pb_ostream" where
  "pb_encode_varint cb s v =
     (if v \<le> 0x7F then pb_write cb s [ucast v] 1
      else
        let buffer = varint_bytes v; i = length buffer;
            buffer = buffer[i - 1 := (buffer ! (i - 1)) AND 0x7F]
        in pb_write cb s buffer i)"

definition pb_encode_svarint :: "'s pb_writer \<Rightarrow> 's pb_ostream \<Rightarrow> u64 \<Rightarrow> bool \<times> 's pb_ostream" where
  "pb_encode_svarint cb s v =
     pb_encode_varint cb s (if v <s 0 then NOT (push_bit 1 v) else push_bit 1 v)"

definition pb_encode_fixed32 :: "'s pb_writer \<Rightarrow> 's pb_ostream \<Rightarrow> u32 \<Rightarrow> bool \<times> 's pb_ostream" where
  "pb_encode_fixed32 cb s v =
     pb_write cb s
       [ucast (v AND 0xFF), ucast (drop_bit 8 v AND 0xFF), ucast (drop_bit 16 v AND 0xFF),
        ucast (drop_bit 24 v AND 0xFF)] 4"

definition pb_encode_fixed64 :: "'s pb_writer \<Rightarrow> 's pb_ostream \<Rightarrow> u64 \<Rightarrow> bool \<times> 's pb_ostream" where
  "pb_encode_fixed64 cb s v =
     pb_write cb s
       [ucast (v AND 0xFF), ucast (drop_bit 8 v AND 0xFF), ucast (drop_bit 16 v AND 0xFF),
        ucast (drop_bit 24 v AND 0xFF), ucast (drop_bit 32 v AND 0xFF),
        ucast (drop_bit 40 v AND 0xFF), ucast (drop_bit 48 v AND 0xFF),
        ucast (drop_bit 56 v AND 0xFF)] 8"

definition pb_encode_tag :: "'s pb_writer \<Rightarrow> 's pb_ostream \<Rightarrow> pb_wire_type \<Rightarrow> u32 \<Rightarrow>
    bool \<times> 's pb_ostream" where
  "pb_encode_tag cb s wiretype field_number =
     pb_encode_varint cb s (push_bit 3 (ucast field_number) OR ucast wiretype)"

text \<open>\<open>pb_encode_string\<close>; \<open>buffer\<close> may be \<open>NULL\<close> for a size of zero.\<close>

definition pb_encode_string :: "'s pb_writer \<Rightarrow> 's pb_ostream \<Rightarrow> u8 list \<Rightarrow> nat \<Rightarrow>
    bool \<times> 's pb_ostream" where
  "pb_encode_string cb s buffer sz =
     pb_then (\<lambda>s. pb_encode_varint cb s (of_nat sz)) (\<lambda>s. pb_write cb s buffer sz) s"

section \<open>Streams over a buffer\<close>

text \<open>An input stream that has the bytes \<open>xs\<close> left, in a buffer that goes on with \<open>rest\<close>; an
  output stream over a buffer or for sizing.\<close>

definition ibuf :: "u8 list \<Rightarrow> u8 list \<Rightarrow> string option \<Rightarrow> 's pb_istream" where
  "ibuf xs rest e = \<lparr>is_state = BufSource (xs @ rest), is_bytes_left = length xs, is_errmsg = e\<rparr>"

lemma pb_istream_from_buffer_ibuf: "pb_istream_from_buffer buf (length buf) = ibuf buf [] None"
  by (simp add: pb_istream_from_buffer_def ibuf_def)

lemma ibuf_sel [simp]:
  "is_state (ibuf xs rest e) = BufSource (xs @ rest)" "is_bytes_left (ibuf xs rest e) = length xs"
  "is_errmsg (ibuf xs rest e) = e" "is_buffer (ibuf xs rest e)"
  by (simp_all add: ibuf_def is_buffer_def)

lemma is_callback_ibuf:
  "is_callback cb (ibuf xs rest e) n =
     (Some (take n (xs @ rest)), (ibuf xs rest e)\<lparr>is_state := BufSource (drop n (xs @ rest))\<rparr>)"
  by (simp add: is_callback_def buf_read_def)

lemma ibuf_after:
  "n \<le> length xs \<Longrightarrow>
     (ibuf xs rest e)\<lparr>is_state := BufSource (drop n (xs @ rest)), is_bytes_left := length xs - n\<rparr> =
     ibuf (drop n xs) rest e"
  by (simp add: ibuf_def)

lemma pb_read_into_ibuf:
  "pb_read_into cb (ibuf xs rest e) n =
     (if length xs < n then is_fail ''end-of-stream'' (ibuf xs rest e)
      else (Some (take n xs), ibuf (drop n xs) rest e))"
  by (simp add: pb_read_into_def is_callback_ibuf ibuf_after del: drop_append)

lemma pb_read_ibuf:
  "pb_read cb (ibuf xs rest e) is_null n = pb_read_into cb (ibuf xs rest e) n"
  by (simp add: pb_read_def)

lemma pb_readbyte_ibuf [simp]:
  "pb_readbyte cb (ibuf [] rest e) = is_fail ''end-of-stream'' (ibuf [] rest e)"
  "pb_readbyte cb (ibuf (b # xs) rest e) = (Some b, ibuf xs rest e)"
  using ibuf_after [of 1 "b # xs"] by (simp_all add: pb_readbyte_def is_callback_ibuf)

end
