(* ===== verification/PbWire.thy ===== *)
theory PbWire
  imports PbStream
begin

text \<open>
  The wire format against its reference: base-128 numbers as lists of bytes, what the
  varint readers of theory PbStream accept and return, and what the writers emit. The
  round trips and the skipping of whole fields follow.
\<close>

section \<open>Base-128 numbers\<close>

fun leb :: "nat \<Rightarrow> u8 list" where
  "leb n = (if n < 128 then [byte n] else byte (n mod 128 + 128) # leb (n div 128))"

declare leb.simps [simp del]

definition leb_val :: "u8 list \<Rightarrow> nat" where
  "leb_val bs = foldr (\<lambda>b v. unat b mod 128 + 128 * v) bs 0"

text \<open>A varint: the top bit is set in all bytes but the last.\<close>

fun is_varint :: "u8 list \<Rightarrow> bool" where
  "is_varint [] = False"
| "is_varint (b # bs) = (if unat b < 128 then bs = [] else is_varint bs)"

lemma leb_val_simps [simp]:
  "leb_val [] = 0" "leb_val (b # bs) = unat b mod 128 + 128 * leb_val bs"
  by (simp_all add: leb_val_def)

lemma is_varint_leb [simp]: "is_varint (leb n)"
  by (induction n rule: leb.induct) (subst leb.simps, simp)

lemma leb_val_leb [simp]: "leb_val (leb n) = n"
proof (induction n rule: leb.induct)
  case (1 n)
  then show ?case by (subst leb.simps) simp
qed

lemma length_leb_le: "n < 128 ^ k \<Longrightarrow> 0 < k \<Longrightarrow> length (leb n) \<le> k"
proof (induction n arbitrary: k rule: leb.induct)
  case (1 n)
  show ?case
  proof (cases "n < 128")
    case True
    then show ?thesis using 1 by (subst leb.simps) simp
  next
    case False
    then obtain j where k: "k = Suc j" "0 < j"
      using 1(2,3) by (cases k; cases "k - 1") auto
    then have "n div 128 < 128 ^ j" using 1(2) by (simp add: div_less_iff_less_mult mult.commute)
    then show ?thesis using 1(1) [OF False, of j] False k by (subst leb.simps) simp
  qed
qed

lemma length_leb_pos [simp]: "0 < length (leb n)"
  by (subst leb.simps) simp

lemma is_varint_append_unique:
  "is_varint a \<Longrightarrow> is_varint b \<Longrightarrow> a @ x = b @ y \<Longrightarrow> a = b \<and> x = y"
proof (induction a arbitrary: b)
  case Nil
  then show ?case by simp
next
  case (Cons c a)
  then show ?case by (cases b) (auto split: if_splits)
qed

section \<open>Reading varints\<close>

lemma u8_msb_nonzero: "(b :: u8) AND 0x80 \<noteq> 0 \<longleftrightarrow> 128 \<le> unat b"
  by (simp add: u8_msb_iff not_less)

text \<open>Accumulating a group above the groups read so far.\<close>

lemma or_group:
  fixes r :: "'a::len word"
  assumes "\<And>i. n \<le> i \<Longrightarrow> \<not> bit r i"
  shows "r OR push_bit n w = r + w * 2 ^ n"
proof -
  have "r AND push_bit n w = 0"
    using assms by (auto simp: bit_eq_iff bit_simps)
  then have "r + push_bit n w = r OR push_bit n w" by (rule disjunctive_add_eq_or)
  then show ?thesis by (simp add: push_bit_eq_mult)
qed

lemma or_group_bits:
  fixes r :: "'a::len word" and b :: u8
  assumes "\<And>i. n \<le> i \<Longrightarrow> \<not> bit r i" and "n + 7 \<le> i"
  shows "\<not> bit (r OR push_bit n (ucast (b AND 0x7F))) i"
proof -
  have "unat (b AND 0x7F) < 2 ^ 7" by simp
  then have "\<not> bit (b AND 0x7F) (i - n)" by (rule small_not_bit) (use assms(2) in simp)
  then show ?thesis using assms by (auto simp: bit_simps)
qed

lemma ucast_group: "(ucast (b AND 0x7F :: u8) :: 'a::len word) = of_nat (unat b mod 128)"
  by (simp flip: u8_and_7f)

text \<open>\<open>bitpos\<close> after \<open>k\<close> groups.\<close>

definition bitpos :: "nat \<Rightarrow> u8" where
  "bitpos k = of_nat (7 * k)"

lemma bitpos_simps [simp]: "bitpos 0 = 0" "bitpos (Suc 0) = 7" "bitpos k + 7 = bitpos (Suc k)"
  by (simp_all add: bitpos_def)

lemma unat_bitpos [simp]: "k \<le> 36 \<Longrightarrow> unat (bitpos k) = 7 * k"
  by (simp only: bitpos_def unat_of_nat) simp

lemma bitpos_le_iff: "k \<le> 36 \<Longrightarrow> w \<le> bitpos k \<longleftrightarrow> unat w \<le> 7 * k"
  by (simp add: word_le_nat_alt)

lemma bitpos_less_iff: "k \<le> 36 \<Longrightarrow> bitpos k < w \<longleftrightarrow> 7 * k < unat w"
  by (simp add: word_less_nat_alt)

lemma varint_loop_full:
  "varint_loop cb r (bitpos 10) s = is_fail ''varint overflow'' s"
  by (subst varint_loop.simps) (simp add: bitpos_le_iff)

lemma varint_loop_Nil:
  "k \<le> 9 \<Longrightarrow> varint_loop cb r (bitpos k) (ibuf [] rest e) =
     is_fail ''end-of-stream'' (ibuf [] rest e)"
  by (subst varint_loop.simps) (simp add: bitpos_le_iff is_fail_def)

lemma varint_loop_Cons:
  "k \<le> 9 \<Longrightarrow> varint_loop cb r (bitpos k) (ibuf (b # xs) rest e) =
     (let r' = r OR push_bit (7 * k) (ucast (b AND 0x7F)) in
      if unat b < 128 then (Some r', ibuf xs rest e)
      else varint_loop cb r' (bitpos (Suc k)) (ibuf xs rest e))"
  by (subst varint_loop.simps) (simp add: bitpos_le_iff u8_msb_iff Let_def)

lemma varint_loop_value:
  assumes "is_varint gs" and "k + length gs \<le> 10" and "\<And>i. 7 * k \<le> i \<Longrightarrow> \<not> bit r i"
  shows "varint_loop cb r (bitpos k) (ibuf (gs @ ys) rest e) =
     (Some (r + of_nat (leb_val gs) * 2 ^ (7 * k)), ibuf ys rest e)"
  using assms
proof (induction gs arbitrary: k r)
  case Nil
  then show ?case by simp
next
  case (Cons b gs)
  let ?r = "r OR push_bit (7 * k) (ucast (b AND 0x7F)) :: u64"
  have k: "k \<le> 9" using Cons.prems(2) by simp
  have r: "?r = r + of_nat (unat b mod 128) * 2 ^ (7 * k)"
    using or_group [where w = "ucast (b AND 0x7F)", OF Cons.prems(3)] by (simp only: ucast_group)
  have above: "\<And>i. 7 * Suc k \<le> i \<Longrightarrow> \<not> bit ?r i"
    using or_group_bits [OF Cons.prems(3)] by simp
  show ?case
  proof (cases "unat b < 128")
    case True
    then have "gs = []" using Cons.prems(1) by simp
    then show ?thesis using True k r by (simp add: varint_loop_Cons mult.commute)
  next
    case False
    then have gs: "is_varint gs" "Suc k + length gs \<le> 10" using Cons.prems by simp_all
    have "varint_loop cb r (bitpos k) (ibuf ((b # gs) @ ys) rest e) =
        (Some (?r + of_nat (leb_val gs) * 2 ^ (7 * Suc k)), ibuf ys rest e)"
      using Cons.IH [OF gs above] False k by (simp add: varint_loop_Cons)
    moreover have "?r + of_nat (leb_val gs) * 2 ^ (7 * Suc k) =
        r + of_nat (leb_val (b # gs)) * 2 ^ (7 * k)"
      unfolding r by (simp add: power_add algebra_simps)
    ultimately show ?thesis by simp
  qed
qed

lemma varint_loop_none:
  assumes "\<And>gs ys. xs = gs @ ys \<Longrightarrow> is_varint gs \<Longrightarrow> 10 < k + length gs" and "k \<le> 10"
  shows "fst (varint_loop cb r (bitpos k) (ibuf xs rest e)) = None"
  using assms
proof (induction xs arbitrary: k r)
  case Nil
  then show ?case by (cases "k = 10") (auto simp: varint_loop_full varint_loop_Nil is_fail_def)
next
  case (Cons b xs)
  show ?case
  proof (cases "k = 10")
    case True
    then show ?thesis by (simp add: varint_loop_full is_fail_def)
  next
    case False
    then have k: "k \<le> 9" using Cons.prems(2) by simp
    have b: "\<not> unat b < 128" using Cons.prems(1) [of "[b]" xs] k by auto
    have "10 < Suc k + length gs" if "xs = gs @ ys" "is_varint gs" for gs ys
      using Cons.prems(1) [of "b # gs" ys] that b by simp
    then show ?thesis using Cons.IH k b by (simp add: varint_loop_Cons)
  qed
qed

text \<open>\<open>pb_decode_varint\<close> accepts exactly the varints of at most ten bytes.\<close>

lemma pb_decode_varint_ok:
  "is_varint gs \<Longrightarrow> length gs \<le> 10 \<Longrightarrow>
     pb_decode_varint cb (ibuf (gs @ ys) rest e) = (Some (of_nat (leb_val gs)), ibuf ys rest e)"
  using varint_loop_value [of gs 0 0 cb ys rest e] by (simp add: pb_decode_varint_def)

lemma pb_decode_varint_iff:
  "pb_decode_varint cb (ibuf xs rest e) = (Some v, s) \<longleftrightarrow>
     (\<exists>gs ys. xs = gs @ ys \<and> is_varint gs \<and> length gs \<le> 10 \<and> v = of_nat (leb_val gs) \<and>
        s = ibuf ys rest e)" (is "?lhs \<longleftrightarrow> ?rhs")
proof
  assume ?lhs
  then have "fst (varint_loop cb 0 (bitpos 0) (ibuf xs rest e)) \<noteq> None"
    by (simp add: pb_decode_varint_def)
  then have "\<not> (\<forall>gs ys. xs = gs @ ys \<longrightarrow> is_varint gs \<longrightarrow> 10 < 0 + length gs)"
    using varint_loop_none [of xs 0 cb 0 rest e] by (intro notI) (simp del: bitpos_simps)
  then obtain gs ys where "xs = gs @ ys" "is_varint gs" "length gs \<le> 10"
    by (auto simp: not_less)
  with \<open>?lhs\<close> show ?rhs by (auto simp: pb_decode_varint_ok)
qed (auto simp: pb_decode_varint_ok)

lemma pb_decode_varint_leb:
  "pb_decode_varint cb (ibuf (leb (unat v) @ ys) rest e) = (Some v, ibuf ys rest e)"
proof -
  have "unat v < 128 ^ 10" using unsigned_less [of v, where ?'a = nat] by simp
  then show ?thesis by (simp add: pb_decode_varint_ok length_leb_le)
qed

section \<open>Reading 32-bit varints\<close>

lemma u8_and_70:
  assumes "unat (b :: u8) < 128"
  shows "b AND 0x70 = 0 \<longleftrightarrow> unat b < 16"
proof -
  have "take_bit 7 b = b" using assms by (simp add: word_unat_eq_iff unsigned_take_bit_eq take_bit_nat_eq_self)
  then have "b AND mask 7 = b" by (simp add: take_bit_eq_mask)
  moreover have "(0x70 :: u8) = mask 7 AND NOT (mask 4)" by (simp add: mask_eq_exp_minus_1)
  ultimately have "b AND 0x70 = b AND NOT (mask 4)" by (metis and.assoc)
  also have "\<dots> = 0 \<longleftrightarrow> b AND mask 4 = b" by (auto simp: bit_eq_iff bit_simps)
  also have "\<dots> \<longleftrightarrow> unat b mod 2 ^ 4 = unat b" by (simp only: word_unat_eq_iff unat_and_mask)
  also have "\<dots> \<longleftrightarrow> unat b < 2 ^ 4" by (metis mod_less mod_less_divisor zero_less_numeral zero_less_power)
  finally show ?thesis by simp
qed

lemma varint32_loop_Cons_low:
  "1 \<le> k \<Longrightarrow> k \<le> 4 \<Longrightarrow> varint32_loop cb r (bitpos k) (ibuf (b # xs) rest e) =
     (let r' = r OR push_bit (7 * k) (ucast (b AND 0x7F)) in
      if unat b < 128 then (Some (r', b, bitpos (Suc k)), ibuf xs rest e)
      else varint32_loop cb r' (bitpos (Suc k)) (ibuf xs rest e))"
  by (subst varint32_loop.simps) (simp add: bitpos_le_iff u8_msb_iff Let_def)

lemma varint32_loop_value:
  assumes "is_varint gs" and "1 \<le> k" and "k + length gs \<le> 5" and "\<And>i. 7 * k \<le> i \<Longrightarrow> \<not> bit r i"
  shows "varint32_loop cb r (bitpos k) (ibuf (gs @ ys) rest e) =
     (Some (r + of_nat (leb_val gs) * 2 ^ (7 * k), last gs, bitpos (k + length gs)), ibuf ys rest e)"
  using assms
proof (induction gs arbitrary: k r)
  case Nil
  then show ?case by simp
next
  case (Cons b gs)
  let ?r = "r OR push_bit (7 * k) (ucast (b AND 0x7F)) :: u32"
  have k: "1 \<le> k" "k \<le> 4" using Cons.prems(2,3) by simp_all
  have r: "?r = r + of_nat (unat b mod 128) * 2 ^ (7 * k)"
    using or_group [where w = "ucast (b AND 0x7F)", OF Cons.prems(4)] by (simp only: ucast_group)
  have above: "\<And>i. 7 * Suc k \<le> i \<Longrightarrow> \<not> bit ?r i"
    using or_group_bits [OF Cons.prems(4)] by simp
  show ?case
  proof (cases "unat b < 128")
    case True
    then have "gs = []" using Cons.prems(1) by simp
    then show ?thesis using True k r by (simp add: varint32_loop_Cons_low mult.commute)
  next
    case False
    then have gs: "is_varint gs" "1 \<le> Suc k" "Suc k + length gs \<le> 5" using Cons.prems by simp_all
    have "varint32_loop cb r (bitpos k) (ibuf ((b # gs) @ ys) rest e) =
        (Some (?r + of_nat (leb_val gs) * 2 ^ (7 * Suc k), last gs, bitpos (Suc k + length gs)),
         ibuf ys rest e)"
      using Cons.IH [OF gs above] False k by (simp add: varint32_loop_Cons_low)
    moreover have "?r + of_nat (leb_val gs) * 2 ^ (7 * Suc k) =
        r + of_nat (leb_val (b # gs)) * 2 ^ (7 * k)"
      unfolding r by (simp add: power_add algebra_simps)
    moreover have "gs \<noteq> []" using gs(1) by auto
    ultimately show ?thesis by simp
  qed
qed

lemma leb_val_last:
  "is_varint gs \<Longrightarrow> \<exists>low < 128 ^ (length gs - 1).
     leb_val gs = low + unat (last gs) * 128 ^ (length gs - 1) \<and> unat (last gs) < 128"
proof (induction gs)
  case Nil
  then show ?case by simp
next
  case (Cons b gs)
  show ?case
  proof (cases "unat b < 128")
    case True
    then show ?thesis using Cons.prems by simp
  next
    case False
    then have gs: "is_varint gs" using Cons.prems by simp
    then obtain low where low: "low < 128 ^ (length gs - 1)"
      "leb_val gs = low + unat (last gs) * 128 ^ (length gs - 1)" "unat (last gs) < 128"
      using Cons.IH by blast
    from gs obtain n where n: "length gs = Suc n" "gs \<noteq> []" by (cases gs) auto
    have "unat b mod 128 + 128 * low < 128 ^ Suc n"
      using low(1) n mod_less_divisor [of 128 "unat b"] by simp
    then show ?thesis using low n
      by (intro exI [of _ "unat b mod 128 + 128 * low"]) (simp add: algebra_simps)
  qed
qed

text \<open>On varints of at most five bytes \<open>pb_decode_varint32\<close> returns the value, or fails when it
  does not fit.\<close>

lemma pb_decode_varint32_eof_short:
  assumes "is_varint gs" and "length gs \<le> 5"
  shows "pb_decode_varint32_eof cb (ibuf (gs @ ys) rest e) =
     (if leb_val gs < 2 ^ 32 then (Some (of_nat (leb_val gs)), False, ibuf ys rest e)
      else (None, False, snd (is_fail ''varint overflow'' (ibuf ys rest e))))"
proof (cases gs)
  case Nil
  then show ?thesis using assms by simp
next
  case (Cons b hs)
  show ?thesis
  proof (cases "unat b < 128")
    case True
    then show ?thesis using assms Cons
      by (simp add: pb_decode_varint32_eof_def u8_msb_iff unsigned_ucast_eq)
  next
    case False
    then have hs: "is_varint hs" "1 + length hs \<le> 5" "hs \<noteq> []" using assms Cons by auto
    have low: "\<not> bit (ucast (b AND 0x7F) :: u32) i" if "7 * 1 \<le> i" for i
      using or_group_bits [of 0 0 i b] that by simp
    obtain lo where lo: "lo < 128 ^ length hs" "leb_val gs = lo + unat (last hs) * 128 ^ length hs"
      "unat (last hs) < 128"
      using leb_val_last [OF assms(1)] Cons hs(3) by auto
    have fits: "leb_val gs < 2 ^ 32 \<longleftrightarrow> \<not> (length hs = 4 \<and> 16 \<le> unat (last hs))"
    proof (cases "length hs = 4")
      case True
      then show ?thesis using lo by auto
    next
      case False
      then have "length gs \<le> 4" using hs(2) Cons by simp
      have "leb_val gs < (unat (last hs) + 1) * 128 ^ length hs" using lo(1,2) by simp
      also have "\<dots> \<le> 128 * 128 ^ length hs" using lo(3) by (intro mult_le_mono1) simp
      finally have "leb_val gs < 128 ^ Suc (length hs)" by simp
      also have "\<dots> \<le> 128 ^ 4" using \<open>length gs \<le> 4\<close> Cons by (intro power_increasing) simp_all
      finally show ?thesis using False by simp
    qed
    have five: "bitpos (1 + length hs) = 35 \<longleftrightarrow> length hs = 4"
      using hs(2) by (subst word_unat_eq_iff) (simp del: bitpos_simps)
    have val: "(ucast (b AND 0x7F) :: u32) + of_nat (leb_val hs) * 2 ^ (7 * 1) = of_nat (leb_val gs)"
      unfolding ucast_group Cons by (simp add: mult.commute)
    have loop: "varint32_loop cb (ucast (b AND 0x7F)) (bitpos 1) (ibuf (hs @ ys) rest e) =
        (Some (of_nat (leb_val gs), last hs, bitpos (1 + length hs)), ibuf ys rest e)"
      using varint32_loop_value [of hs 1 "ucast (b AND 0x7F)" cb ys rest e, OF hs(1) _ hs(2) low] val
      by simp
    have "pb_decode_varint32_eof cb (ibuf (gs @ ys) rest e) =
        (if bitpos (1 + length hs) = 35 \<and> last hs AND 0x70 \<noteq> 0
         then (None, False, snd (is_fail ''varint overflow'' (ibuf ys rest e)))
         else (Some (of_nat (leb_val gs)), False, ibuf ys rest e))"
      using loop False Cons
      by (simp add: pb_decode_varint32_eof_def u8_msb_iff is_fail_def)
    then show ?thesis using lo(3) by (simp only: five fits u8_and_70 not_less) auto
  qed
qed

lemma pb_decode_varint32_ok:
  "is_varint gs \<Longrightarrow> length gs \<le> 5 \<Longrightarrow> leb_val gs < 2 ^ 32 \<Longrightarrow>
     pb_decode_varint32 cb (ibuf (gs @ ys) rest e) = (Some (of_nat (leb_val gs)), ibuf ys rest e)"
  using pb_decode_varint32_eof_short [of gs cb ys rest e] by (simp add: pb_decode_varint32_def)

lemma pb_decode_varint32_leb:
  "n < 2 ^ 32 \<Longrightarrow>
     pb_decode_varint32 cb (ibuf (leb n @ ys) rest e) = (Some (of_nat n), ibuf ys rest e)"
  using length_leb_le [of n 5] by (simp add: pb_decode_varint32_ok)

section \<open>Tags, fixed-width values, strings and skipping\<close>

lemma pb_decode_tag_leb:
  assumes "f < 2 ^ 29" and "wt < 8" and "0 < 8 * f + wt"
  shows "pb_decode_tag cb (ibuf (leb (8 * f + wt) @ ys) rest e) =
     (Some (of_nat wt, of_nat f), False, ibuf ys rest e)"
proof -
  let ?n = "8 * f + wt"
  let ?w = "of_nat ?n :: u32"
  have n: "?n < 2 ^ 32" using assms by simp
  then have u: "unat ?w = ?n" by (simp only: unat_of_nat) simp
  have "unat (?w AND mask 3) = wt" using assms by (simp only: unat_and_mask u) simp
  then have wt: "?w AND 7 = of_nat wt" using assms(2)
    by (simp add: word_unat_eq_iff unat_of_nat mask_eq_exp_minus_1)
  have "unat (drop_bit 3 ?w) = drop_bit 3 ?n" by (simp only: unat_drop_bit_eq u)
  also have "\<dots> = f" using assms(2) by (simp add: drop_bit_eq_div)
  finally have "unat (drop_bit 3 ?w) = f" .
  then have f: "drop_bit 3 ?w = of_nat f" using assms(1)
    by (intro unat_inject) (simp add: unat_of_nat)
  have nz: "?w \<noteq> 0" using u assms(3) by (metis unat_0 less_irrefl)
  have "pb_decode_varint32_eof cb (ibuf (leb ?n @ ys) rest e) = (Some ?w, False, ibuf ys rest e)"
    using n length_leb_le [of ?n 5] pb_decode_varint32_eof_short [of "leb ?n" cb ys rest e] by simp
  then show ?thesis unfolding pb_decode_tag_def using nz f wt by (simp del: of_nat_add of_nat_mult)
qed

text \<open>What can follow a tag: the payload of its wire type.\<close>

definition pb_payload :: "pb_wire_type \<Rightarrow> u8 list \<Rightarrow> bool" where
  "pb_payload wt bs \<longleftrightarrow>
     (if wt = PB_WT_VARINT then is_varint bs
      else if wt = PB_WT_64BIT then length bs = 8
      else if wt = PB_WT_STRING then
        (\<exists>len data. bs = len @ data \<and> is_varint len \<and> length len \<le> 5 \<and> leb_val len = length data \<and>
           length data < 2 ^ 32)
      else wt = PB_WT_32BIT \<and> length bs = 4)"

lemma pb_skip_varint_ok:
  "is_varint gs \<Longrightarrow> pb_skip_varint cb (ibuf (gs @ ys) rest e) = (Some (), ibuf ys rest e)"
proof (induction gs)
  case Nil
  then show ?case by simp
next
  case (Cons b gs)
  then show ?case
    by (subst pb_skip_varint.simps) (auto simp: pb_read_into_ibuf u8_msb_iff split: if_splits)
qed

lemma pb_skip_bytes_ibuf:
  "n \<le> length xs \<Longrightarrow> pb_skip_bytes cb (ibuf xs rest e) n = (Some (), ibuf (drop n xs) rest e)"
  by (simp add: pb_skip_bytes_def pb_read_ibuf pb_read_into_ibuf)

lemma pb_skip_field_ok:
  assumes "pb_payload wt bs"
  shows "pb_skip_field cb (ibuf (bs @ ys) rest e) wt = (Some (), ibuf ys rest e)"
proof (cases "wt = PB_WT_STRING")
  case True
  then obtain len data where "bs = len @ data" "is_varint len" "length len \<le> 5"
    "leb_val len = length data" "length data < 2 ^ 32"
    using assms by (auto simp: pb_payload_def)
  then show ?thesis using True pb_decode_varint32_ok [of len cb "data @ ys" rest e]
    by (simp add: pb_skip_field_def pb_skip_string_def pb_skip_bytes_ibuf unat_of_nat)
next
  case False
  then show ?thesis using assms
    by (auto simp: pb_payload_def pb_skip_field_def pb_skip_varint_ok pb_skip_bytes_ibuf
        split: if_splits)
qed

section \<open>Readers stay inside their stream\<close>

text \<open>A reader in bounds leaves a suffix of the bytes of its stream, and neither its result nor
  what it leaves depends on the bytes behind them.\<close>

definition in_bounds :: "('s pb_istream \<Rightarrow> 'a option \<times> 's pb_istream) \<Rightarrow> bool" where
  "in_bounds f \<longleftrightarrow>
     (\<forall>xs e. \<exists>r pre ys e'. xs = pre @ ys \<and> (\<forall>rest. f (ibuf xs rest e) = (r, ibuf ys rest e')))"

definition pb_bind :: "('s pb_istream \<Rightarrow> 'a option \<times> 's pb_istream) \<Rightarrow>
    ('a \<Rightarrow> 's pb_istream \<Rightarrow> 'b option \<times> 's pb_istream) \<Rightarrow> 's pb_istream \<Rightarrow> 'b option \<times> 's pb_istream" where
  "pb_bind f g s = (case f s of (None, s) \<Rightarrow> (None, s) | (Some v, s) \<Rightarrow> g v s)"

lemma in_boundsI:
  "(\<And>xs e. \<exists>r pre ys e'. xs = pre @ ys \<and> (\<forall>rest. f (ibuf xs rest e) = (r, ibuf ys rest e'))) \<Longrightarrow>
     in_bounds f"
  by (simp add: in_bounds_def)

lemma in_bounds_at:
  "xs = pre @ ys \<Longrightarrow> (\<And>rest. f (ibuf xs rest e) = (r, ibuf ys rest e')) \<Longrightarrow>
     \<exists>r pre ys e'. xs = pre @ ys \<and> (\<forall>rest. f (ibuf xs rest e) = (r, ibuf ys rest e'))"
  by blast

lemma in_bounds_bind:
  assumes "in_bounds f" and "\<And>v. in_bounds (g v)"
  shows "in_bounds (pb_bind f g)"
proof (rule in_boundsI)
  fix xs e
  obtain r pre ys e' where 1: "xs = pre @ ys" "\<And>rest. f (ibuf xs rest e) = (r, ibuf ys rest e')"
    using assms(1) unfolding in_bounds_def by blast
  show "\<exists>r pre ys e'. xs = pre @ ys \<and> (\<forall>rest. pb_bind f g (ibuf xs rest e) = (r, ibuf ys rest e'))"
  proof (cases r)
    case None
    then show ?thesis using 1 by (auto simp: pb_bind_def)
  next
    case (Some v)
    obtain r2 pre2 zs e2 where "ys = pre2 @ zs" "\<And>rest. g v (ibuf ys rest e') = (r2, ibuf zs rest e2)"
      using assms(2) [of v] unfolding in_bounds_def by blast
    then show ?thesis using 1 Some
      by (intro exI [of _ r2] exI [of _ "pre @ pre2"] exI [of _ zs] exI [of _ e2])
        (simp add: pb_bind_def)
  qed
qed

definition first_msg :: "string option \<Rightarrow> string \<Rightarrow> string option" where
  "first_msg e msg = (case e of None \<Rightarrow> Some msg | Some m \<Rightarrow> Some m)"

lemma is_fail_ibuf: "is_fail msg (ibuf xs rest e) = (None, ibuf xs rest (first_msg e msg))"
  by (simp add: is_fail_def ibuf_def first_msg_def)

lemma in_bounds_fail: "in_bounds (is_fail msg)"
  by (rule in_boundsI) (rule in_bounds_at [OF append_Nil [symmetric]], rule is_fail_ibuf)

lemma in_bounds_return: "in_bounds (\<lambda>s. (Some v, s))"
  by (rule in_boundsI) auto

lemma in_bounds_if: "in_bounds f \<Longrightarrow> in_bounds g \<Longrightarrow> in_bounds (\<lambda>s. if b then f s else g s)"
  by (cases b) simp_all

lemma in_bounds_readbyte: "in_bounds (pb_readbyte cb)"
proof (rule in_boundsI)
  fix xs e
  show "\<exists>r pre ys e'. xs = pre @ ys \<and> (\<forall>rest. pb_readbyte cb (ibuf xs rest e) = (r, ibuf ys rest e'))"
  proof (cases xs)
    case Nil
    show ?thesis unfolding Nil pb_readbyte_ibuf
      by (rule in_bounds_at [OF append_Nil [symmetric]]) (rule is_fail_ibuf)
  next
    case (Cons b ys)
    then show ?thesis by (intro in_bounds_at [of xs "[b]" ys _ e "Some b" e]) simp_all
  qed
qed

lemma in_bounds_read: "in_bounds (\<lambda>s. pb_read cb s is_null n)"
proof (rule in_boundsI)
  fix xs e
  show "\<exists>r pre ys e'. xs = pre @ ys \<and> (\<forall>rest. pb_read cb (ibuf xs rest e) is_null n = (r, ibuf ys rest e'))"
  proof (cases "length xs < n")
    case True
    then show ?thesis
      by (intro in_bounds_at [of xs "[]" xs _ e None "first_msg e ''end-of-stream''"])
        (simp_all add: pb_read_ibuf pb_read_into_ibuf is_fail_ibuf)
  next
    case False
    then show ?thesis
      by (intro in_bounds_at [of xs "take n xs" "drop n xs" _ e "Some (take n xs)" e])
        (simp_all add: pb_read_ibuf pb_read_into_ibuf)
  qed
qed

text \<open>Loops are in bounds because the step behind a byte is, for the shorter input.\<close>

definition in_bounds_on :: "nat \<Rightarrow> ('s pb_istream \<Rightarrow> 'a option \<times> 's pb_istream) \<Rightarrow> bool" where
  "in_bounds_on n f \<longleftrightarrow>
     (\<forall>xs e. length xs \<le> n \<longrightarrow>
        (\<exists>r pre ys e'. xs = pre @ ys \<and> (\<forall>rest. f (ibuf xs rest e) = (r, ibuf ys rest e'))))"

lemma in_bounds_on_all: "(\<And>n. in_bounds_on n f) \<Longrightarrow> in_bounds f"
  unfolding in_bounds_def in_bounds_on_def by blast

lemma in_bounds_onI: "in_bounds f \<Longrightarrow> in_bounds_on n f"
  unfolding in_bounds_def in_bounds_on_def by blast

lemma in_bounds_on_if:
  "in_bounds_on n f \<Longrightarrow> in_bounds_on n g \<Longrightarrow> in_bounds_on n (\<lambda>s. if b then f s else g s)"
  by (cases b) simp_all

lemma in_bounds_on_byte:
  assumes "\<And>b m. n = Suc m \<Longrightarrow> in_bounds_on m (g b)"
  shows "in_bounds_on n (pb_bind (pb_readbyte cb) g)"
  unfolding in_bounds_on_def
proof (intro allI impI)
  fix xs :: "u8 list" and e
  assume n: "length xs \<le> n"
  show "\<exists>r pre ys e'. xs = pre @ ys \<and>
      (\<forall>rest. pb_bind (pb_readbyte cb) g (ibuf xs rest e) = (r, ibuf ys rest e'))"
  proof (cases xs)
    case Nil
    then show ?thesis
      by (intro in_bounds_at [of xs "[]" "[]" _ e None "first_msg e ''end-of-stream''"])
        (simp_all add: pb_bind_def is_fail_ibuf)
  next
    case (Cons b ys)
    then obtain m where m: "n = Suc m" "length ys \<le> m" using n by (cases n) simp_all
    obtain r pre zs e' where "ys = pre @ zs" "\<And>rest. g b (ibuf ys rest e) = (r, ibuf zs rest e')"
      using assms [OF m(1), of b] m(2) unfolding in_bounds_on_def by blast
    then show ?thesis using Cons
      by (intro in_bounds_at [of xs "b # pre" zs _ e r e']) (simp_all add: pb_bind_def)
  qed
qed

lemma varint_loop_bind:
  "varint_loop cb r p =
     (\<lambda>s. if p \<ge> 64 then is_fail ''varint overflow'' s
          else pb_bind (pb_readbyte cb)
            (\<lambda>b s. let r' = r OR push_bit (unat p) (ucast (b AND 0x7F)); p' = p + 7 in
               if b AND 0x80 \<noteq> 0 then varint_loop cb r' p' s else (Some r', s)) s)"
  by (rule ext, subst varint_loop.simps, unfold Let_def pb_bind_def, rule refl)

lemma in_bounds_varint_loop: "in_bounds (varint_loop cb r p)"
proof (rule in_bounds_on_all)
  fix n
  show "in_bounds_on n (varint_loop cb r p)"
  proof (induction n arbitrary: r p rule: less_induct)
    case (less n)
    have loop: "in_bounds_on m (varint_loop cb r p)" if "n = Suc m" for m r p
      using less.IH [of m] that by simp
    show ?case
      unfolding varint_loop_bind [of cb r p] Let_def
      by (intro in_bounds_on_if in_bounds_on_byte loop in_bounds_onI [OF in_bounds_fail]
          in_bounds_onI [OF in_bounds_return])
  qed
qed

lemma varint32_loop_bind:
  "varint32_loop cb r p =
     pb_bind (pb_readbyte cb)
       (\<lambda>b s. if p \<ge> 32 \<and> b AND 0x7F \<noteq> 0 \<and> (drop_bit 31 r = 0 \<or> b \<noteq> (if p < 63 then 0xFF else 0x01))
             then is_fail ''varint overflow'' s
             else if b AND 0x80 \<noteq> 0 then
               varint32_loop cb (if p \<ge> 32 then r else r OR push_bit (unat p) (ucast (b AND 0x7F))) (p + 7) s
             else (Some (if p \<ge> 32 then r else r OR push_bit (unat p) (ucast (b AND 0x7F)), b, p + 7), s))"
  by (rule ext, subst varint32_loop.simps, unfold Let_def pb_bind_def, rule refl)

lemma in_bounds_varint32_loop: "in_bounds (varint32_loop cb r p)"
proof (rule in_bounds_on_all)
  fix n
  show "in_bounds_on n (varint32_loop cb r p)"
  proof (induction n arbitrary: r p rule: less_induct)
    case (less n)
    have loop: "in_bounds_on m (varint32_loop cb r p)" if "n = Suc m" for m r p
      using less.IH [of m] that by simp
    show ?case
      unfolding varint32_loop_bind [of cb r p]
      by (intro in_bounds_on_if in_bounds_on_byte loop in_bounds_onI [OF in_bounds_fail]
          in_bounds_onI [OF in_bounds_return])
  qed
qed

lemma pb_skip_varint_bind:
  "pb_skip_varint cb =
     pb_bind (\<lambda>s. pb_read cb s False 1)
       (\<lambda>bs s. if hd (bs @ [0]) AND 0x80 \<noteq> 0 then pb_skip_varint cb s else (Some (), s))"
  by (rule ext, subst pb_skip_varint.simps) (simp add: pb_bind_def)

lemma pb_skip_varint_byte:
  "pb_skip_varint cb (ibuf xs rest e) =
     pb_bind (pb_readbyte cb) (\<lambda>b s. if b AND 0x80 \<noteq> 0 then pb_skip_varint cb s else (Some (), s))
       (ibuf xs rest e)"
  by (cases xs; subst pb_skip_varint.simps)
    (simp_all add: pb_bind_def pb_read_into_ibuf is_fail_ibuf)

lemma in_bounds_skip_varint: "in_bounds (pb_skip_varint cb)"
proof (rule in_bounds_on_all)
  fix n
  show "in_bounds_on n (pb_skip_varint cb)"
  proof (induction n rule: less_induct)
    case (less n)
    have "in_bounds_on n
       (pb_bind (pb_readbyte cb) (\<lambda>b s. if b AND 0x80 \<noteq> 0 then pb_skip_varint cb s else (Some (), s)))"
      by (intro in_bounds_on_if in_bounds_on_byte in_bounds_onI [OF in_bounds_return] less.IH) simp
    then show ?case unfolding in_bounds_on_def pb_skip_varint_byte .
  qed
qed

text \<open>\<open>pb_decode_varint32_eof\<close> returns the flag beside its result; without it, it is a chain of
  readers.\<close>

lemma pb_decode_varint32_bind:
  "pb_decode_varint32 cb =
     pb_bind (pb_readbyte cb)
       (\<lambda>b s. if b AND 0x80 = 0 then (Some (ucast b), s)
             else pb_bind (varint32_loop cb (ucast (b AND 0x7F)) 7)
               (\<lambda>v s. if snd (snd v) = 35 \<and> fst (snd v) AND 0x70 \<noteq> 0
                      then is_fail ''varint overflow'' s else (Some (fst v), s)) s)"
  by (rule ext)
    (simp add: pb_decode_varint32_def pb_decode_varint32_eof_def pb_bind_def is_fail_def
      split: option.split prod.split)

lemma in_bounds_varint32: "in_bounds (pb_decode_varint32 cb)"
  unfolding pb_decode_varint32_bind
  by (intro in_bounds_bind in_bounds_if in_bounds_readbyte in_bounds_varint32_loop in_bounds_fail
      in_bounds_return)

lemma in_bounds_varint: "in_bounds (pb_decode_varint cb)"
  unfolding pb_decode_varint_def by (rule in_bounds_varint_loop)

lemma pb_decode_svarint_bind:
  "pb_decode_svarint cb =
     pb_bind (pb_decode_varint cb)
       (\<lambda>v s. (Some (if v AND 1 \<noteq> 0 then NOT (drop_bit 1 v) else drop_bit 1 v), s))"
  by (rule ext) (simp add: pb_decode_svarint_def pb_bind_def)

lemma in_bounds_svarint: "in_bounds (pb_decode_svarint cb)"
  unfolding pb_decode_svarint_bind by (intro in_bounds_bind in_bounds_varint in_bounds_return)

lemma in_bounds_skip_bytes: "in_bounds (\<lambda>s. pb_skip_bytes cb s n)"
proof -
  have "(\<lambda>s. pb_skip_bytes cb s n) = pb_bind (\<lambda>s. pb_read cb s True n) (\<lambda>_ s. (Some (), s))"
    by (rule ext) (auto simp: pb_skip_bytes_def pb_bind_def split: prod.split option.split)
  then show ?thesis using in_bounds_bind [OF in_bounds_read in_bounds_return] by simp
qed

lemma pb_skip_string_bind:
  "pb_skip_string cb =
     pb_bind (pb_decode_varint32 cb) (\<lambda>len s. pb_skip_bytes cb s (unat len))"
  by (rule ext) (simp add: pb_skip_string_def pb_bind_def)

lemma in_bounds_skip_string: "in_bounds (pb_skip_string cb)"
  unfolding pb_skip_string_bind by (intro in_bounds_bind in_bounds_varint32 in_bounds_skip_bytes)

lemma in_bounds_skip_field: "in_bounds (\<lambda>s. pb_skip_field cb s wt)"
  unfolding pb_skip_field_def
  by (intro in_bounds_if in_bounds_skip_varint in_bounds_skip_string in_bounds_skip_bytes in_bounds_fail)

lemma in_bounds_fixed32: "in_bounds (pb_decode_fixed32 cb)"
proof -
  have "pb_decode_fixed32 cb = pb_bind (\<lambda>s. pb_read cb s False 4)
      (\<lambda>bytes s. (Some (push_bit 0 (ucast (bytes ! 0)) OR push_bit 8 (ucast (bytes ! 1)) OR
                 push_bit 16 (ucast (bytes ! 2)) OR push_bit 24 (ucast (bytes ! 3))), s))"
    by (rule ext) (simp only: pb_decode_fixed32_def pb_bind_def)
  then show ?thesis by (simp only: in_bounds_bind [OF in_bounds_read in_bounds_return])
qed

lemma in_bounds_fixed64: "in_bounds (pb_decode_fixed64 cb)"
proof -
  have "pb_decode_fixed64 cb = pb_bind (\<lambda>s. pb_read cb s False 8)
      (\<lambda>bytes s. (Some (push_bit 0 (ucast (bytes ! 0)) OR push_bit 8 (ucast (bytes ! 1)) OR
                 push_bit 16 (ucast (bytes ! 2)) OR push_bit 24 (ucast (bytes ! 3)) OR
                 push_bit 32 (ucast (bytes ! 4)) OR push_bit 40 (ucast (bytes ! 5)) OR
                 push_bit 48 (ucast (bytes ! 6)) OR push_bit 56 (ucast (bytes ! 7))), s))"
    by (rule ext) (simp only: pb_decode_fixed64_def pb_bind_def)
  then show ?thesis by (simp only: in_bounds_bind [OF in_bounds_read in_bounds_return])
qed

text \<open>A substream takes its bytes from the front of its parent, and closing it puts the parent
  behind them, however much of them was read.\<close>

lemma pb_make_string_substream_ok:
  "is_varint len \<Longrightarrow> length len \<le> 5 \<Longrightarrow> leb_val len = length data \<Longrightarrow> length data < 2 ^ 32 \<Longrightarrow>
     pb_make_string_substream cb (ibuf (len @ data @ ys) rest e) =
       (Some (ibuf data (ys @ rest) e),
        (ibuf ys rest e)\<lparr>is_state := BufSource (data @ ys @ rest)\<rparr>)"
  using pb_decode_varint32_ok [of len cb "data @ ys" rest e]
  by (simp add: pb_make_string_substream_def unat_of_nat ibuf_def)

lemma pb_close_string_substream_ok:
  "pb_close_string_substream cb ((ibuf ys rest e0)\<lparr>is_state := b\<rparr>) (ibuf data (ys @ rest) e) =
     (Some (), ibuf ys rest e)"
  by (simp add: pb_close_string_substream_def pb_skip_bytes_ibuf)

section \<open>Writing\<close>

text \<open>What a writing operation promises on a sizing stream and on a buffer: it accounts for its
  bytes and stores them behind the others, or returns false when they do not fit.\<close>

definition os_fits :: "'s pb_ostream \<Rightarrow> nat \<Rightarrow> bool" where
  "os_fits s n \<longleftrightarrow> os_state s = SizingSink \<or> os_bytes_written s + n \<le> os_max_size s"

definition os_put :: "'s pb_ostream \<Rightarrow> u8 list \<Rightarrow> 's pb_ostream" where
  "os_put s bs = s\<lparr>os_state := (case os_state s of BufSink d \<Rightarrow> BufSink (d @ bs) | k \<Rightarrow> k),
                   os_bytes_written := os_bytes_written s + length bs\<rparr>"

definition os_plain :: "'s pb_ostream \<Rightarrow> bool" where
  "os_plain s \<longleftrightarrow> (\<forall>u. os_state s \<noteq> UserSink u) \<and> os_fits s 0"

text \<open>What is left of a write that fails: a first part of the bytes, as many as fitted.\<close>

definition os_part :: "'s pb_ostream \<Rightarrow> 's pb_ostream \<Rightarrow> u8 list \<Rightarrow> bool" where
  "os_part s s' bs \<longleftrightarrow>
     (\<exists>ys zs. bs = ys @ zs \<and> os_fits s (length ys) \<and>
        s'\<lparr>os_errmsg := None\<rparr> = (os_put s ys)\<lparr>os_errmsg := None\<rparr>)"

definition pb_emits :: "('s pb_ostream \<Rightarrow> bool \<times> 's pb_ostream) \<Rightarrow> u8 list \<Rightarrow> bool" where
  "pb_emits f bs \<longleftrightarrow>
     (\<forall>s. os_plain s \<longrightarrow> os_bytes_written s + length bs \<le> SIZE_MAX \<longrightarrow>
        (if os_fits s (length bs) then f s = (True, os_put s bs)
         else \<not> fst (f s) \<and> os_part s (snd (f s)) bs))"

lemma pb_emitsD:
  assumes "pb_emits f bs" and "os_plain s" and "os_bytes_written s + length bs \<le> SIZE_MAX"
  shows "os_fits s (length bs) \<Longrightarrow> f s = (True, os_put s bs)"
    and "\<not> os_fits s (length bs) \<Longrightarrow> \<not> fst (f s)"
    and "\<not> os_fits s (length bs) \<Longrightarrow> os_part s (snd (f s)) bs"
  using assms unfolding pb_emits_def by (metis (full_types))+

lemma os_put_simps [simp]:
  "os_plain s \<Longrightarrow> os_fits s (length bs) \<Longrightarrow> os_plain (os_put s bs)"
  "os_bytes_written (os_put s bs) = os_bytes_written s + length bs"
  "os_put (os_put s bs) cs = os_put s (bs @ cs)"
  "os_fits (os_put s bs) n = os_fits s (length bs + n)"
  "os_put s [] = s"
  by (auto simp: os_put_def os_fits_def os_plain_def split: pb_sink.splits)

lemma os_fits_mono: "os_fits s (m + n) \<Longrightarrow> os_fits s m"
  by (auto simp: os_fits_def)

lemma os_part_nothing: "os_plain s \<Longrightarrow> os_part s (s\<lparr>os_errmsg := e\<rparr>) bs"
  unfolding os_part_def by (intro exI [of _ "[]"] exI [of _ bs]) (simp add: os_plain_def)

lemma os_part_self: "os_plain s \<Longrightarrow> os_part s s bs"
  unfolding os_part_def by (intro exI [of _ "[]"] exI [of _ bs]) (simp add: os_plain_def)

lemma os_part_append: "os_part s s' bs \<Longrightarrow> os_part s s' (bs @ cs)"
  unfolding os_part_def by (metis append.assoc)

lemma os_part_put:
  assumes "os_part (os_put s bs) s' cs"
  shows "os_part s s' (bs @ cs)"
proof -
  obtain ys zs where "cs = ys @ zs" "os_fits (os_put s bs) (length ys)"
    "s'\<lparr>os_errmsg := None\<rparr> = (os_put (os_put s bs) ys)\<lparr>os_errmsg := None\<rparr>"
    using assms unfolding os_part_def by blast
  then show ?thesis unfolding os_part_def
    by (intro exI [of _ "bs @ ys"] exI [of _ zs]) simp
qed

lemma pb_emits_write: "pb_emits (\<lambda>s. pb_write cb s bs (length bs)) bs"
  unfolding pb_emits_def
  by (auto simp: pb_write_def os_fits_def os_plain_def os_put_def buf_write_def os_fail_def size_simps
      intro!: os_part_nothing [unfolded os_plain_def os_fits_def]
      split: pb_sink.splits)

lemma pb_emits_then:
  assumes "pb_emits f bs" and "pb_emits g cs"
  shows "pb_emits (pb_then f g) (bs @ cs)"
  unfolding pb_emits_def
proof (intro allI impI)
  fix s :: "'a pb_ostream"
  assume s: "os_plain s" "os_bytes_written s + length (bs @ cs) \<le> SIZE_MAX"
  show "if os_fits s (length (bs @ cs)) then pb_then f g s = (True, os_put s (bs @ cs))
        else \<not> fst (pb_then f g s) \<and> os_part s (snd (pb_then f g s)) (bs @ cs)"
  proof (cases "os_fits s (length bs)")
    case True
    then have "f s = (True, os_put s bs)" using pb_emitsD(1) [OF assms(1)] s by simp
    then have then_g: "pb_then f g s = g (os_put s bs)" by (simp add: pb_then_def)
    have p: "os_plain (os_put s bs)" "os_bytes_written (os_put s bs) + length cs \<le> SIZE_MAX"
      using s True by simp_all
    show ?thesis unfolding then_g
      using pb_emitsD [OF assms(2) p] by (simp add: os_part_put)
  next
    case False
    then have "\<not> fst (f s)" "os_part s (snd (f s)) bs" using pb_emitsD(2,3) [OF assms(1)] s by simp_all
    moreover have "\<not> os_fits s (length (bs @ cs))" using False os_fits_mono by auto
    ultimately show ?thesis by (cases "f s") (simp add: pb_then_def os_part_append)
  qed
qed

lemma pb_emits_return: "pb_emits (\<lambda>s. (True, s)) []"
  by (simp add: pb_emits_def os_plain_def)

subsection \<open>Varints\<close>

lemma unat_group: "unat (ucast ((v :: u64) AND 0x7F) :: u8) = unat v mod 128"
proof -
  have "unat (v AND mask 7) = unat v mod 2 ^ 7" by (rule unat_and_mask)
  then have "unat (v AND 0x7F) = unat v mod 128" by (simp add: mask_eq_exp_minus_1)
  then show ?thesis by (simp add: unsigned_ucast_eq take_bit_nat_eq_self)
qed

lemma or_0x80: "unat (m :: u8) < 128 \<Longrightarrow> m OR 0x80 = byte (unat m + 128)"
proof -
  assume m: "unat m < 128"
  have "unat (push_bit 7 1 OR m) = unat (1 :: u8) * 2 ^ 7 + unat m"
    using m by (intro unat_push_bit_or) simp_all
  then show ?thesis using m by (intro unat_inject) (simp add: or.commute)
qed

lemma varint_bytes_last:
  "v \<noteq> 0 \<Longrightarrow>
     (varint_bytes v)[length (varint_bytes v) - 1 :=
        varint_bytes v ! (length (varint_bytes v) - 1) AND 0x7F] = leb (unat v)"
proof (induction v rule: varint_bytes.induct)
  case (1 v)
  have d: "unat (drop_bit 7 v) = unat v div 128"
    by (simp only: unat_drop_bit_eq) (simp add: drop_bit_eq_div)
  let ?b = "ucast (v AND 0x7F) OR 0x80 :: u8"
  have b: "?b = byte (unat v mod 128 + 128)" by (subst or_0x80) (simp_all add: unat_group)
  have vb: "varint_bytes v = ?b # varint_bytes (drop_bit 7 v)"
    using 1(2) by (subst varint_bytes.simps) simp
  show ?case
  proof (cases "drop_bit 7 v = 0")
    case True
    then have small: "unat v < 128" using d by (metis div_eq_0_iff unat_0 zero_neq_numeral)
    have "varint_bytes (drop_bit 7 v) = []" using True by (subst varint_bytes.simps) simp
    moreover have "?b AND 0x7F = byte (unat v)"
      using small by (intro unat_inject) (simp add: b)
    ultimately show ?thesis using small vb by (subst leb.simps) simp
  next
    case False
    then have big: "\<not> unat v < 128" using d by (metis div_less unat_eq_0)
    have "varint_bytes (drop_bit 7 v) \<noteq> []" using False by (subst varint_bytes.simps) simp
    then obtain n where n: "length (varint_bytes (drop_bit 7 v)) = Suc n"
      by (cases "varint_bytes (drop_bit 7 v)") simp_all
    show ?thesis using 1(1) [OF 1(2) False] n big
      by (subst leb.simps) (simp add: vb b d)
  qed
qed

lemma pb_emits_varint: "pb_emits (\<lambda>s. pb_encode_varint cb s v) (leb (unat v))"
proof (cases "v \<le> 0x7F")
  case True
  then have "unat v < 128" by (simp add: word_le_nat_alt)
  then have "leb (unat v) = [ucast v]"
    by (subst leb.simps) (auto intro!: byte_eqI simp: unsigned_ucast_eq take_bit_nat_eq_self)
  then show ?thesis using pb_emits_write [of cb "[ucast v]"] True by (simp add: pb_encode_varint_def)
next
  case False
  then have "v \<noteq> 0" by auto
  have len: "length (leb (unat v)) = length (varint_bytes v)"
    using varint_bytes_last [OF \<open>v \<noteq> 0\<close>] by (metis length_list_update)
  show ?thesis using pb_emits_write [of cb "leb (unat v)"] False
    by (simp add: pb_encode_varint_def Let_def varint_bytes_last [OF \<open>v \<noteq> 0\<close>, unfolded One_nat_def] len)
qed

subsection \<open>Signed varints\<close>

text \<open>The zigzag code: non-negative numbers at the even, negative ones at the odd places.\<close>

definition zigzag :: "int \<Rightarrow> nat" where
  "zigzag i = (if i < 0 then nat (- 2 * i - 1) else nat (2 * i))"

lemma sless_0_iff_bit: "(v :: u64) <s 0 \<longleftrightarrow> bit v 63"
  using bit_last_iff [of v] by (simp add: word_sless_alt)

lemma nat_of_unshifted: "int n = s \<Longrightarrow> s < 2 ^ 63 \<Longrightarrow> n < 2 ^ 63"
  by simp

lemma nat_of_shifted: "int n = s + 2 ^ 64 \<Longrightarrow> - (2 ^ 63) \<le> s \<Longrightarrow> 2 ^ 63 \<le> n"
  by simp

lemma sint_unat:
  "sint (v :: u64) = (if bit v 63 then int (unat v) - 2 ^ 64 else int (unat v)) \<and>
     (bit v 63 \<longleftrightarrow> 2 ^ 63 \<le> unat v)"
proof -
  have u: "int (unat v) = sint v mod 2 ^ 64"
    using uint_sint [of v] by (simp add: take_bit_eq_mod)
  have r: "- (2 ^ 63) \<le> sint v" "sint v < 2 ^ 63"
    using sint_range_size [of v] by (simp_all add: word_size)
  have b: "bit v 63 \<longleftrightarrow> sint v < 0" using bit_last_iff [of v] by simp
  show ?thesis
  proof (cases "sint v < 0")
    case True
    have "(sint v + 2 ^ 64) mod 2 ^ 64 = sint v + 2 ^ 64"
      using True r by (intro mod_pos_pos_trivial) simp_all
    with u have v: "int (unat v) = sint v + 2 ^ 64" by (metis mod_add_self2)
    then have "2 ^ 63 \<le> unat v" using r by (intro nat_of_shifted)
    then show ?thesis using True b v by simp
  next
    case False
    then have "sint v mod 2 ^ 64 = sint v" using r by (intro mod_pos_pos_trivial) simp_all
    with u have v: "int (unat v) = sint v" by metis
    then have "unat v < 2 ^ 63" using r(2) by (rule nat_of_unshifted)
    then show ?thesis using False b v by simp
  qed
qed

lemma nat_diff_twice:
  "2 ^ 63 \<le> n \<Longrightarrow> n < 2 ^ 64 \<Longrightarrow>
     2 ^ 64 - 1 - (2 * n - 2 ^ 64) = nat (- 2 * (int n - 2 ^ 64) - 1)"
  by (simp add: nat_diff_distrib nat_mult_distrib algebra_simps)

lemma zigzag_positive: "zigzag (int n) = 2 * n"
  by (simp add: zigzag_def nat_mult_distrib)

lemma zigzag_negative: "n < 2 ^ 64 \<Longrightarrow> zigzag (int n - 2 ^ 64) = nat (- 2 * (int n - 2 ^ 64) - 1)"
  by (simp add: zigzag_def)

lemma svarint_word:
  "unat (if (v :: u64) <s 0 then NOT (push_bit 1 v) else push_bit 1 v) = zigzag (sint v)"
proof -
  have d: "unat (push_bit 1 v) = 2 * unat v mod 2 ^ 64"
    by (simp only: unsigned_push_bit_eq) (simp add: take_bit_eq_mod push_bit_eq_mult mult.commute)
  have lt: "unat v < 2 ^ 64" using unsigned_less [of v, where ?'a = nat] by simp
  show ?thesis
  proof (cases "bit v 63")
    case True
    then have hi: "2 ^ 63 \<le> unat v" and s: "sint v = int (unat v) - 2 ^ 64"
      using sint_unat [of v] by simp_all
    have "2 * unat v mod 2 ^ 64 = 2 * unat v - 2 ^ 64" using hi lt by (simp add: mod_if)
    moreover have "unat (NOT w) = 2 ^ 64 - 1 - unat w" for w :: u64
    proof -
      have "NOT w = - w - 1" by (simp add: not_eq_complement)
      also have "\<dots> = of_nat (2 ^ 64 - 1 - unat w)"
        using unsigned_less [of w, where ?'a = nat] by (simp add: of_nat_diff)
      also have "unat (of_nat (2 ^ 64 - 1 - unat w) :: u64) = 2 ^ 64 - 1 - unat w"
        by (simp only: unat_of_nat) simp
      finally show ?thesis by simp
    qed
    ultimately have "unat (NOT (push_bit 1 v)) = 2 ^ 64 - 1 - (2 * unat v - 2 ^ 64)"
      using d by metis
    also have "\<dots> = nat (- 2 * sint v - 1)" unfolding s by (rule nat_diff_twice [OF hi lt])
    also have "\<dots> = zigzag (sint v)" unfolding s by (rule zigzag_negative [OF lt, symmetric])
    finally show ?thesis using True by (simp add: sless_0_iff_bit del: push_bit_Suc)
  next
    case False
    then have s: "sint v = int (unat v)" and "2 * unat v < 2 ^ 64" using sint_unat [of v] by simp_all
    then have "unat (push_bit 1 v) = 2 * unat v" using d by simp
    also have "\<dots> = zigzag (sint v)" unfolding s by (rule zigzag_positive [symmetric])
    finally show ?thesis using False by (simp add: sless_0_iff_bit del: push_bit_Suc)
  qed
qed

lemma svarint_word_back:
  fixes v :: u64
  defines "w \<equiv> if v <s 0 then NOT (push_bit 1 v) else push_bit 1 v"
  shows "(if w AND 1 \<noteq> 0 then NOT (drop_bit 1 w) else drop_bit 1 w) = v"
proof -
  have b: "w AND 1 = 0 \<longleftrightarrow> \<not> bit w 0" by (simp add: and_one_eq even_iff_mod_2_eq_zero bit_0)
  have w0: "bit w 0 \<longleftrightarrow> bit v 63"
    unfolding w_def sless_0_iff_bit by (simp add: bit_simps del: push_bit_Suc)
  have "bit (if bit v 63 then NOT (drop_bit 1 w) else drop_bit 1 w) i = bit v i" if "i < 64" for i
    using that unfolding w_def sless_0_iff_bit
    by (cases "i = 63") (auto simp: bit_simps simp del: push_bit_Suc drop_bit_Suc)
  then show ?thesis unfolding b w0 by (auto simp: bit_eq_iff)
qed

lemma pb_emits_svarint: "pb_emits (\<lambda>s. pb_encode_svarint cb s v) (leb (zigzag (sint v)))"
  unfolding pb_encode_svarint_def svarint_word [symmetric] by (rule pb_emits_varint)

lemma pb_decode_svarint_ok:
  "pb_decode_svarint cb (ibuf (leb (zigzag (sint v)) @ ys) rest e) = (Some v, ibuf ys rest e)"
  unfolding svarint_word [symmetric]
  by (simp add: pb_decode_svarint_def pb_decode_varint_leb svarint_word_back del: push_bit_Suc drop_bit_Suc)

subsection \<open>Tags, fixed-width values and strings\<close>

lemma pb_tag_word:
  "unat (wt :: u32) < 8 \<Longrightarrow>
     unat (push_bit 3 (ucast (f :: u32)) OR ucast wt :: u64) = 8 * unat f + unat wt"
proof -
  assume wt: "unat wt < 8"
  have f: "unat (ucast f :: u64) = unat f" and w: "unat (ucast wt :: u64) = unat wt"
    by (simp_all add: unat_ucast_up)
  have "unat f < 2 ^ 32" using unsigned_less [of f, where ?'a = nat] by simp
  then show ?thesis using unat_push_bit_or [of "ucast wt :: u64" 3 "ucast f"] wt f w by simp
qed

lemma pb_emits_tag:
  "unat wt < 8 \<Longrightarrow> pb_emits (\<lambda>s. pb_encode_tag cb s wt f) (leb (8 * unat f + unat wt))"
  using pb_emits_varint [of cb "push_bit 3 (ucast f) OR ucast wt"]
  by (simp only: pb_encode_tag_def pb_tag_word)

lemma ucast_and_ff: "(ucast (x AND 0xFF :: 'a::len word) :: u8) = ucast x"
proof -
  have "(ucast (x AND mask 8) :: u8) = ucast x"
    by (rule bit_word_eqI) (auto simp: bit_simps dest: bit_imp_le_length)
  then show ?thesis by (simp add: mask_eq_exp_minus_1)
qed

lemma ucast_ucast_byte: "(ucast (ucast (x :: 'a::len word) :: u8) :: 'a word) = take_bit 8 x"
  by (rule bit_word_eqI) (auto simp: bit_simps dest: bit_imp_le_length)

lemma take_bit_or_next:
  "take_bit m (x :: 'a::len word) OR push_bit m (take_bit 8 (drop_bit m x)) = take_bit (m + 8) x"
  by (rule bit_word_eqI) (auto simp: bit_simps)

lemma fixed32_bytes:
  fixes v :: u32
  shows "push_bit 0 (ucast (ucast v :: u8)) OR push_bit 8 (ucast (ucast (drop_bit 8 v) :: u8)) OR
    push_bit 16 (ucast (ucast (drop_bit 16 v) :: u8)) OR push_bit 24 (ucast (ucast (drop_bit 24 v) :: u8)) = v"
  using take_bit_or_next [of 8 v] take_bit_or_next [of 16 v] take_bit_or_next [of 24 v]
    take_bit_length_eq [of v]
  by (simp only: ucast_ucast_byte or.assoc [symmetric] push_bit_0_id id_apply) simp

lemma fixed64_bytes:
  fixes v :: u64
  shows "push_bit 0 (ucast (ucast v :: u8)) OR push_bit 8 (ucast (ucast (drop_bit 8 v) :: u8)) OR
    push_bit 16 (ucast (ucast (drop_bit 16 v) :: u8)) OR push_bit 24 (ucast (ucast (drop_bit 24 v) :: u8)) OR
    push_bit 32 (ucast (ucast (drop_bit 32 v) :: u8)) OR push_bit 40 (ucast (ucast (drop_bit 40 v) :: u8)) OR
    push_bit 48 (ucast (ucast (drop_bit 48 v) :: u8)) OR push_bit 56 (ucast (ucast (drop_bit 56 v) :: u8)) = v"
  using take_bit_or_next [of 8 v] take_bit_or_next [of 16 v] take_bit_or_next [of 24 v]
    take_bit_or_next [of 32 v] take_bit_or_next [of 40 v] take_bit_or_next [of 48 v]
    take_bit_or_next [of 56 v] take_bit_length_eq [of v]
  by (simp only: ucast_ucast_byte or.assoc [symmetric] push_bit_0_id id_apply) simp

definition fixed32 :: "u32 \<Rightarrow> u8 list" where
  "fixed32 v = map (\<lambda>k. ucast (drop_bit (8 * k) v)) [0, 1, 2, 3]"

definition fixed64 :: "u64 \<Rightarrow> u8 list" where
  "fixed64 v = map (\<lambda>k. ucast (drop_bit (8 * k) v)) [0, 1, 2, 3, 4, 5, 6, 7]"

lemma length_fixed [simp]: "length (fixed32 v) = 4" "length (fixed64 w) = 8"
  by (simp_all add: fixed32_def fixed64_def)

lemma pb_emits_fixed32: "pb_emits (\<lambda>s. pb_encode_fixed32 cb s v) (fixed32 v)"
  using pb_emits_write [of cb "fixed32 v"]
  by (simp add: pb_encode_fixed32_def ucast_and_ff) (simp add: fixed32_def)

lemma pb_emits_fixed64: "pb_emits (\<lambda>s. pb_encode_fixed64 cb s v) (fixed64 v)"
  using pb_emits_write [of cb "fixed64 v"]
  by (simp add: pb_encode_fixed64_def ucast_and_ff) (simp add: fixed64_def)

lemma pb_decode_fixed32_ok:
  "pb_decode_fixed32 cb (ibuf (fixed32 v @ ys) rest e) = (Some v, ibuf ys rest e)"
  using fixed32_bytes [of v] by (simp add: pb_decode_fixed32_def pb_read_into_ibuf) (simp add: fixed32_def)

lemma pb_decode_fixed64_ok:
  "pb_decode_fixed64 cb (ibuf (fixed64 v @ ys) rest e) = (Some v, ibuf ys rest e)"
  using fixed64_bytes [of v] by (simp add: pb_decode_fixed64_def pb_read_into_ibuf) (simp add: fixed64_def)

lemma pb_emits_string:
  "length data < 2 ^ 64 \<Longrightarrow>
     pb_emits (\<lambda>s. pb_encode_string cb s data (length data)) (leb (length data) @ data)"
  unfolding pb_encode_string_def
  using pb_emits_then [OF pb_emits_varint pb_emits_write, of cb "of_nat (length data)" cb data]
  by (simp only: unat_of_nat) simp

section \<open>Tags, raw values and substreams stay inside too\<close>

lemma pb_decode_varint32_eof_Cons:
  "pb_decode_varint32_eof cb (ibuf (b # xs) rest e) =
     (fst (pb_decode_varint32 cb (ibuf (b # xs) rest e)), False,
      snd (pb_decode_varint32 cb (ibuf (b # xs) rest e)))"
  by (auto simp: pb_decode_varint32_def pb_decode_varint32_eof_def is_fail_def
      split: prod.split option.split)

lemma pb_decode_varint32_eof_Nil:
  "pb_decode_varint32_eof cb (ibuf [] rest e) = (None, True, ibuf [] rest (first_msg e ''end-of-stream''))"
  by (simp add: pb_decode_varint32_eof_def is_fail_ibuf)

text \<open>\<open>pb_decode_tag\<close> with its flag kept in the result.\<close>

definition tag_or_eof :: "'s pb_reader \<Rightarrow> 's pb_istream \<Rightarrow>
    ((pb_wire_type \<times> u32) option \<times> bool) option \<times> 's pb_istream" where
  "tag_or_eof cb s = (case pb_decode_tag cb s of (r, eof, s) \<Rightarrow> (Some (r, eof), s))"

lemma in_bounds_tag: "in_bounds (tag_or_eof cb)"
proof (rule in_boundsI)
  fix xs e
  show "\<exists>r pre ys e'. xs = pre @ ys \<and> (\<forall>rest. tag_or_eof cb (ibuf xs rest e) = (r, ibuf ys rest e'))"
  proof (cases xs)
    case Nil
    then show ?thesis
      by (intro in_bounds_at [of xs "[]" "[]" _ e "Some (None, True)" "first_msg e ''end-of-stream''"])
        (simp_all add: tag_or_eof_def pb_decode_tag_def pb_decode_varint32_eof_Nil)
  next
    case (Cons b zs)
    obtain r pre ys e' where x: "xs = pre @ ys"
      and d: "\<And>rest. pb_decode_varint32 cb (ibuf xs rest e) = (r, ibuf ys rest e')"
      using in_bounds_varint32 [of cb] unfolding in_bounds_def by blast
    have "tag_or_eof cb (ibuf xs rest e) =
        (Some (case r of None \<Rightarrow> (None, False)
               | Some w \<Rightarrow> if w = 0 then (None, True) else (Some (w AND 7, drop_bit 3 w), False)),
         ibuf ys rest e')" for rest
      using d [of rest] unfolding Cons tag_or_eof_def pb_decode_tag_def pb_decode_varint32_eof_Cons
      by (cases r) simp_all
    from in_bounds_at [OF x this] show ?thesis .
  qed
qed

lemma raw_varint_loop_byte:
  "raw_varint_loop cb (Suc n) acc (ibuf xs rest e) =
     pb_bind (pb_readbyte cb)
       (\<lambda>b s. if b AND 0x80 \<noteq> 0 then raw_varint_loop cb n (acc @ [b]) s else (Some (acc @ [b]), s))
       (ibuf xs rest e)"
  by (cases xs) (simp_all add: pb_bind_def pb_read_into_ibuf is_fail_ibuf)

lemma in_bounds_raw_varint: "in_bounds (raw_varint_loop cb n acc)"
proof (induction n arbitrary: acc)
  case 0
  have "in_bounds (\<lambda>s. (None, s))"
    by (rule in_boundsI) (rule in_bounds_at [OF append_Nil [symmetric]], rule refl)
  then show ?case by simp
next
  case (Suc n)
  have "in_bounds (pb_bind (pb_readbyte cb)
       (\<lambda>b s. if b AND 0x80 \<noteq> 0 then raw_varint_loop cb n (acc @ [b]) s else (Some (acc @ [b]), s)))"
    by (intro in_bounds_bind in_bounds_readbyte in_bounds_if Suc.IH in_bounds_return)
  then show ?case unfolding in_bounds_def raw_varint_loop_byte .
qed

lemma in_bounds_raw_value: "in_bounds (\<lambda>s. read_raw_value cb s wt n)"
  unfolding read_raw_value_def
  by (intro in_bounds_if in_bounds_raw_varint in_bounds_read in_bounds_fail)

text \<open>A substream is cut out of what its parent has left, and the parent keeps the rest.\<close>

definition cuts_substream :: "('s pb_istream \<Rightarrow> 's pb_istream option \<times> 's pb_istream) \<Rightarrow> bool" where
  "cuts_substream f \<longleftrightarrow>
     (\<forall>xs e. \<exists>pre ys e'. xs = pre @ ys \<and>
        ((\<forall>rest. f (ibuf xs rest e) = (None, ibuf ys rest e')) \<or>
         (\<exists>n \<le> length ys. \<forall>rest. f (ibuf xs rest e) =
            (Some (ibuf (take n ys) (drop n ys @ rest) e'),
             (ibuf (drop n ys) rest e')\<lparr>is_state := BufSource (ys @ rest)\<rparr>))))"

lemma cuts_substream_make: "cuts_substream (pb_make_string_substream cb)"
  unfolding cuts_substream_def
proof (intro allI)
  fix xs e
  obtain r pre ys e' where xs: "xs = pre @ ys" and v: "\<And>rest. pb_decode_varint32 cb (ibuf xs rest e) = (r, ibuf ys rest e')"
    using in_bounds_varint32 [of cb] unfolding in_bounds_def by blast
  show "\<exists>pre ys e'. xs = pre @ ys \<and>
        ((\<forall>rest. pb_make_string_substream cb (ibuf xs rest e) = (None, ibuf ys rest e')) \<or>
         (\<exists>n \<le> length ys. \<forall>rest. pb_make_string_substream cb (ibuf xs rest e) =
            (Some (ibuf (take n ys) (drop n ys @ rest) e'),
             (ibuf (drop n ys) rest e')\<lparr>is_state := BufSource (ys @ rest)\<rparr>)))"
  proof (cases r)
    case None
    then show ?thesis using xs v by (intro exI [of _ pre] exI [of _ ys] exI [of _ e']) (simp add: pb_make_string_substream_def)
  next
    case (Some len)
    show ?thesis
    proof (cases "length ys < unat len")
      case True
      then show ?thesis using xs v Some
        by (intro exI [of _ pre] exI [of _ ys] exI [of _ "first_msg e' ''parent stream too short''"])
          (simp add: pb_make_string_substream_def is_fail_ibuf)
    next
      case False
      have "pb_make_string_substream cb (ibuf xs rest e) =
            (Some (ibuf (take (unat len) ys) (drop (unat len) ys @ rest) e'),
             (ibuf (drop (unat len) ys) rest e')\<lparr>is_state := BufSource (ys @ rest)\<rparr>)" for rest
        using v [of rest] Some False
        by (simp add: pb_make_string_substream_def)
      with False xs show ?thesis
        by (intro exI [of _ pre] exI [of _ ys] exI [of _ e'] conjI disjI2 exI [of _ "unat len"]) simp_all
    qed
  qed
qed

section \<open>Properties\<close>

text \<open>C18: the reading functions of the wire format stay inside their stream: bytes, varints,
  fixed-width values, tags, skipping and raw values. Whatever the bytes are, each of them leaves a
  suffix of what the stream had, and its result, its error and what it leaves do not depend on the
  memory behind the stream, malformed and truncated input included. A substream is a part of
  what its parent has left after the length, never longer, and the parent keeps exactly the bytes
  after it; closing the substream, however much of it was read, puts the parent there.\<close>

theorem pb_readers_in_bounds:
  "in_bounds (pb_readbyte cb) \<and> in_bounds (\<lambda>s. pb_read cb s is_null n) \<and>
   in_bounds (pb_decode_varint cb) \<and> in_bounds (pb_decode_varint32 cb) \<and>
   in_bounds (pb_decode_svarint cb) \<and> in_bounds (pb_decode_fixed32 cb) \<and>
   in_bounds (pb_decode_fixed64 cb) \<and> in_bounds (tag_or_eof cb) \<and>
   in_bounds (pb_skip_varint cb) \<and> in_bounds (pb_skip_string cb) \<and>
   in_bounds (\<lambda>s. pb_skip_field cb s wt) \<and> in_bounds (\<lambda>s. read_raw_value cb s wt n) \<and>
   cuts_substream (pb_make_string_substream cb) \<and>
   pb_close_string_substream cb ((ibuf ys rest e0)\<lparr>is_state := b\<rparr>) (ibuf data (ys @ rest) e) = (Some (), ibuf ys rest e)"
  by (intro conjI in_bounds_readbyte in_bounds_read in_bounds_varint in_bounds_varint32 in_bounds_svarint
      in_bounds_fixed32 in_bounds_fixed64 in_bounds_tag in_bounds_skip_varint in_bounds_skip_string
      in_bounds_skip_field in_bounds_raw_value cuts_substream_make pb_close_string_substream_ok)

text \<open>C17: \<open>pb_decode_varint\<close> accepts exactly the base-128 numbers of at most ten bytes and returns
  their value modulo \<open>2 ^ 64\<close>; on numbers of at most five bytes \<open>pb_decode_varint32\<close> returns the
  value when it fits 32 bits and otherwise fails.\<close>

theorem pb_decode_varint_exact:
  "(pb_decode_varint cb (ibuf xs rest e) = (Some v, s) \<longleftrightarrow>
     (\<exists>gs ys. xs = gs @ ys \<and> is_varint gs \<and> length gs \<le> 10 \<and> v = of_nat (leb_val gs) \<and>
        s = ibuf ys rest e)) \<and>
   (is_varint gs \<and> length gs \<le> 5 \<longrightarrow>
     pb_decode_varint32 cb (ibuf (gs @ ys) rest e) =
       (if leb_val gs < 2 ^ 32 then (Some (of_nat (leb_val gs)), ibuf ys rest e)
        else (None, ibuf ys rest (first_msg e ''varint overflow''))))"
  using pb_decode_varint_iff [of cb xs rest e v s] pb_decode_varint32_eof_short [of gs cb ys rest e]
  by (auto simp: pb_decode_varint32_def is_fail_ibuf)

theorem pb_decode_varint_exact_witness:
  "pb_decode_varint32 (\<lambda>u n. Failed True (u :: unit)) (ibuf ([0xAC, 0x02] @ [7]) [] None) =
     (Some 300, ibuf [7] [] None)"
  using conjunct2 [OF pb_decode_varint_exact, of "[0xAC, 0x02]" "\<lambda>u n. Failed True (u :: unit)" "[7]" "[]" None]
  by simp

text \<open>What a writer emits, on a sizing stream or into a buffer with room, a reader reads back as
  the value \<open>v\<close>, whatever follows it.\<close>

definition reads_back :: "('s pb_ostream \<Rightarrow> bool \<times> 's pb_ostream) \<Rightarrow>
    ('t pb_istream \<Rightarrow> 'a option \<times> 't pb_istream) \<Rightarrow> 'a \<Rightarrow> bool" where
  "reads_back f g v \<longleftrightarrow>
     (\<exists>bs. pb_emits f bs \<and> (\<forall>ys rest e. g (ibuf (bs @ ys) rest e) = (Some v, ibuf ys rest e)))"

lemma reads_backI:
  "pb_emits f bs \<Longrightarrow> (\<And>ys rest e. g (ibuf (bs @ ys) rest e) = (Some v, ibuf ys rest e)) \<Longrightarrow>
     reads_back f g v"
  unfolding reads_back_def by blast

text \<open>A client that reads a string: a substream, all of its bytes, and back to the parent.\<close>

definition read_string :: "'s pb_reader \<Rightarrow> 's pb_istream \<Rightarrow> u8 list option \<times> 's pb_istream" where
  "read_string cb s =
     (case pb_make_string_substream cb s of
        (None, s) \<Rightarrow> (None, s)
      | (Some sub, s) \<Rightarrow>
          (case pb_read cb sub False (is_bytes_left sub) of
             (None, _) \<Rightarrow> (None, s)
           | (Some bs, sub) \<Rightarrow>
               (case pb_close_string_substream cb s sub of (r, s) \<Rightarrow> (map_option (\<lambda>_. bs) r, s))))"

definition read_tag :: "'s pb_reader \<Rightarrow> 's pb_istream \<Rightarrow> (pb_wire_type \<times> u32) option \<times> 's pb_istream" where
  "read_tag cb s = (case pb_decode_tag cb s of (r, eof, s) \<Rightarrow> (if eof then None else r, s))"

lemma read_string_ok:
  "length data < 2 ^ 32 \<Longrightarrow>
     read_string cb (ibuf ((leb (length data) @ data) @ ys) rest e) = (Some data, ibuf ys rest e)"
  using pb_make_string_substream_ok [of "leb (length data)" data cb ys rest e]
    length_leb_le [of "length data" 5]
    pb_close_string_substream_ok [of cb "BufSource (data @ ys @ rest)" ys rest e "[]" e]
  by (simp add: read_string_def pb_read_into_ibuf)

lemma read_tag_ok:
  fixes f wt :: u32
  assumes "unat f < 2 ^ 29" and "unat wt < 8" and "(f, wt) \<noteq> (0, 0)"
  shows "read_tag cb (ibuf (leb (8 * unat f + unat wt) @ ys) rest e) = (Some (wt, f), ibuf ys rest e)"
proof -
  have "0 < 8 * unat f + unat wt" using assms(3) by (auto simp: unat_gt_0)
  then show ?thesis using pb_decode_tag_leb [of "unat f" "unat wt" cb ys rest e] assms(1,2)
    by (simp add: read_tag_def)
qed

lemma payload_leb: "pb_payload PB_WT_VARINT (leb n)"
  by (simp add: pb_payload_def)

lemma payload_string:
  "length data < 2 ^ 32 \<Longrightarrow> pb_payload PB_WT_STRING (leb (length data) @ data)"
  using length_leb_le [of "length data" 5]
  by (simp add: pb_payload_def) (intro exI conjI, auto)

text \<open>C16: what the writers emit, on a sizing stream or into a buffer with room, the readers read
  back, whatever follows it, and \<open>pb_skip_field\<close> skips: varints of 64 and 32 bits, zigzag
  varints, little-endian words, length-prefixed strings, and tags, whose field number must be
  below \<open>2 ^ 29\<close> for the 32-bit reader.\<close>

theorem pb_wire_roundtrip:
  assumes "unat f < 2 ^ 29" and "unat wt < 8" and "(f, wt) \<noteq> (0, 0)" and "length data < 2 ^ 32"
  shows
    "reads_back (\<lambda>s. pb_encode_varint wr s v) (pb_decode_varint rd) v \<and>
     reads_back (\<lambda>s. pb_encode_varint wr s (ucast w)) (pb_decode_varint32 rd) w \<and>
     reads_back (\<lambda>s. pb_encode_svarint wr s v) (pb_decode_svarint rd) v \<and>
     reads_back (\<lambda>s. pb_encode_fixed32 wr s w) (pb_decode_fixed32 rd) w \<and>
     reads_back (\<lambda>s. pb_encode_fixed64 wr s v) (pb_decode_fixed64 rd) v \<and>
     reads_back (\<lambda>s. pb_encode_tag wr s wt f) (read_tag rd) (wt, f) \<and>
     reads_back (\<lambda>s. pb_encode_string wr s data (length data)) (read_string rd) data \<and>
     reads_back (\<lambda>s. pb_encode_varint wr s v) (\<lambda>s. pb_skip_field rd s PB_WT_VARINT) () \<and>
     reads_back (\<lambda>s. pb_encode_fixed32 wr s w) (\<lambda>s. pb_skip_field rd s PB_WT_32BIT) () \<and>
     reads_back (\<lambda>s. pb_encode_fixed64 wr s v) (\<lambda>s. pb_skip_field rd s PB_WT_64BIT) () \<and>
     reads_back (\<lambda>s. pb_encode_string wr s data (length data)) (\<lambda>s. pb_skip_field rd s PB_WT_STRING) ()"
proof -
  have w: "unat (ucast w :: u64) = unat w" by (simp add: unat_ucast_up)
  have "unat w < 2 ^ 32" using unsigned_less [of w, where ?'a = nat] by simp
  then have w32: "pb_decode_varint32 rd (ibuf (leb (unat (ucast w :: u64)) @ ys) rest e) =
      (Some w, ibuf ys rest e)" for ys rest e
    using pb_decode_varint32_leb [of "unat w" rd ys rest e] by (simp add: w)
  have d64: "length data < 2 ^ 64" using assms(4) by simp
  have p: "pb_payload PB_WT_32BIT (fixed32 w)" "pb_payload PB_WT_64BIT (fixed64 v)"
    by (simp_all add: pb_payload_def)
  note emits = pb_emits_varint pb_emits_svarint pb_emits_fixed32 pb_emits_fixed64
    pb_emits_tag [OF assms(2)] pb_emits_string [OF d64]
  note reads = pb_decode_varint_leb w32 pb_decode_svarint_ok pb_decode_fixed32_ok
    pb_decode_fixed64_ok read_tag_ok [OF assms(1-3)] read_string_ok [OF assms(4)]
    pb_skip_field_ok [OF payload_leb] pb_skip_field_ok [OF p(1)] pb_skip_field_ok [OF p(2)]
    pb_skip_field_ok [OF payload_string [OF assms(4)]]
  show ?thesis by (intro conjI; rule reads_backI, rule emits, rule reads)
qed

theorem pb_wire_roundtrip_witness:
  "\<exists>bs. pb_emits (\<lambda>s. pb_encode_tag (\<lambda>u bs. (True, u :: unit)) s PB_WT_STRING 5) bs \<and>
     (\<forall>ys rest e. read_tag (\<lambda>u n. Failed True (u :: unit)) (ibuf (bs @ ys) rest e) =
        (Some (PB_WT_STRING, 5), ibuf ys rest e))"
  using pb_wire_roundtrip [of 5 PB_WT_STRING "[1]" "\<lambda>u bs. (True, u :: unit)" 0 "\<lambda>u n. Failed True (u :: unit)" 0]
  by (simp add: reads_back_def)

text \<open>Groups that are not the last, padding behind bit 31, and the group after the position has
  wrapped.\<close>

lemma varint32_loop_prefix:
  assumes "\<forall>g \<in> set gs. 128 \<le> unat g" and "1 \<le> k" and "k + length gs \<le> 5" and "\<And>i. 7 * k \<le> i \<Longrightarrow> \<not> bit r i"
  shows "varint32_loop cb r (bitpos k) (ibuf (gs @ ys) rest e) =
     varint32_loop cb (r + of_nat (leb_val gs) * 2 ^ (7 * k)) (bitpos (k + length gs)) (ibuf ys rest e)"
  using assms
proof (induction gs arbitrary: k r)
  case (Cons b gs)
  let ?r = "r OR push_bit (7 * k) (ucast (b AND 0x7F)) :: u32"
  have k: "1 \<le> k" "k \<le> 4" using Cons.prems(2,3) by simp_all
  have r: "?r = r + of_nat (unat b mod 128) * 2 ^ (7 * k)"
    using or_group [where w = "ucast (b AND 0x7F)", OF Cons.prems(4)] by (simp only: ucast_group)
  have above: "\<And>i. 7 * Suc k \<le> i \<Longrightarrow> \<not> bit ?r i"
    using or_group_bits [OF Cons.prems(4)] by simp
  have "varint32_loop cb r (bitpos k) (ibuf ((b # gs) @ ys) rest e) =
      varint32_loop cb (?r + of_nat (leb_val gs) * 2 ^ (7 * Suc k)) (bitpos (Suc k + length gs)) (ibuf ys rest e)"
    using Cons.IH [of "Suc k" ?r] above Cons.prems k by (simp add: varint32_loop_Cons_low)
  moreover have "?r + of_nat (leb_val gs) * 2 ^ (7 * Suc k) = r + of_nat (leb_val (b # gs)) * 2 ^ (7 * k)"
    unfolding r by (simp add: power_add algebra_simps)
  ultimately show ?case by simp
qed simp

lemma varint32_loop_zero:
  assumes "5 \<le> k" and "k \<le> 36" and "b = 0x80 \<or> b = 0"
  shows "varint32_loop cb r (bitpos k) (ibuf (b # ys) rest e) =
     (if b = 0 then (Some (r, 0, bitpos (Suc k)), ibuf ys rest e)
      else varint32_loop cb r (bitpos (Suc k)) (ibuf ys rest e))"
  using assms by (subst varint32_loop.simps) (auto simp: bitpos_le_iff Let_def)

lemma varint32_loop_padding:
  "5 \<le> k \<Longrightarrow> k + n \<le> 37 \<Longrightarrow>
     varint32_loop cb r (bitpos k) (ibuf (replicate n 0x80 @ ys) rest e) = varint32_loop cb r (bitpos (k + n)) (ibuf ys rest e)"
  by (induction n arbitrary: k) (simp_all add: varint32_loop_zero)

lemma bitpos_wrap: "bitpos 37 = 3" "bitpos 38 = 10"
  by (simp_all add: bitpos_def)

lemma bitpos_not_35: "6 \<le> k \<Longrightarrow> k \<le> 37 \<Longrightarrow> bitpos k \<noteq> 35"
proof (cases "k = 37")
  case False
  assume "6 \<le> k" "k \<le> 37"
  with False have "unat (bitpos k) = 7 * k" by simp
  with \<open>6 \<le> k\<close> show ?thesis by (auto simp: word_unat_eq_iff)
qed (simp add: bitpos_wrap)

text \<open>Five groups, none of them the last, and then the loop at bit 35.\<close>

lemma varint32_five:
  assumes "length as = 5" and "\<forall>a \<in> set as. 128 \<le> unat a"
  shows "pb_decode_varint32 cb (ibuf (as @ xs) rest e) =
     (case varint32_loop cb (of_nat (leb_val as)) (bitpos 5) (ibuf xs rest e) of
        (None, s) \<Rightarrow> (None, s)
      | (Some (result, b, p), s) \<Rightarrow>
          if p = 35 \<and> b AND 0x70 \<noteq> 0 then is_fail ''varint overflow'' s else (Some result, s))"
proof -
  from assms(1) obtain a gs where as: "as = a # gs" "length gs = 4" by (auto simp: numeral_eq_Suc length_Suc_conv)
  have low: "\<not> bit (ucast (a AND 0x7F) :: u32) i" if "7 * 1 \<le> i" for i
    using or_group_bits [of 0 0 i a] that by simp
  have "varint32_loop cb (ucast (a AND 0x7F)) (bitpos 1) (ibuf (gs @ xs) rest e)
      = varint32_loop cb (ucast (a AND 0x7F) + of_nat (leb_val gs) * 2 ^ (7 * 1)) (bitpos (1 + length gs)) (ibuf xs rest e)"
    by (rule varint32_loop_prefix [OF _ _ _ low]) (use assms as in auto)
  moreover have "(ucast (a AND 0x7F) :: u32) + of_nat (leb_val gs) * 2 ^ (7 * 1) = of_nat (leb_val as)"
    unfolding ucast_group as by (simp add: mult.commute)
  moreover have "a AND 0x80 \<noteq> 0" using assms as by (simp add: u8_msb_nonzero)
  ultimately have run: "varint32_loop cb (ucast (a AND 0x7F)) 7 (ibuf (gs @ xs) rest e)
      = varint32_loop cb (of_nat (leb_val as)) (bitpos 5) (ibuf xs rest e)" and "a AND 0x80 \<noteq> 0"
    using as(2) by simp_all
  then have "pb_decode_varint32_eof cb (ibuf (as @ xs) rest e) =
      (case varint32_loop cb (of_nat (leb_val as)) (bitpos 5) (ibuf xs rest e) of
         (None, s) \<Rightarrow> (None, False, s)
       | (Some (result, b, p), s) \<Rightarrow>
           if p = 35 \<and> b AND 0x70 \<noteq> 0 then (case is_fail ''varint overflow'' s of (r, s) \<Rightarrow> (r, False, s))
           else (Some result, False, s))"
    by (simp add: as(1) pb_decode_varint32_eof_def del: leb_val_simps)
  then show ?thesis unfolding pb_decode_varint32_def
    by (cases "varint32_loop cb (of_nat (leb_val as)) (bitpos 5) (ibuf xs rest e)")
      (auto simp del: leb_val_simps split: option.splits prod.splits)
qed

lemma leb_val_append: "leb_val (xs @ ys) = leb_val xs + 128 ^ length xs * leb_val ys"
  by (induction xs) (simp_all add: algebra_simps)

lemma leb_val_padding: "leb_val (replicate n 0x80) = 0"
  by (induction n) simp_all

lemma is_varint_append: "\<forall>x \<in> set xs. 128 \<le> unat x \<Longrightarrow> is_varint (xs @ ys) = is_varint ys"
  by (induction xs) auto

lemma is_varint_all_high: "\<forall>x \<in> set xs. 128 \<le> unat x \<Longrightarrow> \<not> is_varint xs"
  by (induction xs) auto

text \<open>C19: numbers \<open>pb_decode_varint32\<close> misreads. Of a fifth byte that is not the last it drops the
  three bits above bit 31 without a check, so five groups followed by up to 31 bytes of padding
  and a zero are accepted with the value modulo \<open>2 ^ 32\<close>, whatever the value is (the bytes of
  \<open>7 * 2 ^ 32\<close> read as zero), where \<open>pb_decode_varint\<close> returns it in full. Its 8-bit \<open>bitpos\<close>
  wraps at the 38th byte, so after 32 bytes of padding one more group is accepted and its bits
  are put at bit 3, where \<open>pb_decode_varint\<close> refuses the number.\<close>

theorem pb_decode_varint32_misreads:
  assumes "length as = 5" and "\<forall>a \<in> set as. 128 \<le> unat a" and "n \<le> 31" and "unat b < 128"
  shows "pb_decode_varint32 cb (ibuf (as @ replicate n 0x80 @ 0 # ys) rest e) =
        (Some (of_nat (leb_val as)), ibuf ys rest e)
    \<and> leb_val (as @ replicate n 0x80 @ [0]) = leb_val as
    \<and> (n \<le> 4 \<longrightarrow> pb_decode_varint cb (ibuf (as @ replicate n 0x80 @ 0 # ys) rest e) =
        (Some (of_nat (leb_val as)), ibuf ys rest e))
    \<and> pb_decode_varint32 cb (ibuf (as @ replicate 32 0x80 @ b # ys) rest e) =
        (Some (of_nat (leb_val as) OR push_bit 3 (ucast b)), ibuf ys rest e)
    \<and> leb_val (as @ replicate 32 0x80 @ [b]) = leb_val as + unat b * 2 ^ 259
    \<and> fst (pb_decode_varint cb (ibuf (as @ replicate 32 0x80 @ b # ys) rest e)) = None"
proof (intro conjI impI)
  have k: "5 + n \<le> 36" "5 \<le> 5 + n" using assms(3) by simp_all
  have "varint32_loop cb (of_nat (leb_val as)) (bitpos 5) (ibuf (replicate n 0x80 @ 0 # ys) rest e)
      = varint32_loop cb (of_nat (leb_val as)) (bitpos (5 + n)) (ibuf (0 # ys) rest e)"
    by (rule varint32_loop_padding) (use k in simp_all)
  also have "\<dots> = (Some (of_nat (leb_val as), 0, bitpos (Suc (5 + n))), ibuf ys rest e)"
    using varint32_loop_zero [OF k(2,1), of 0] by simp
  finally show "pb_decode_varint32 cb (ibuf (as @ replicate n 0x80 @ 0 # ys) rest e) =
        (Some (of_nat (leb_val as)), ibuf ys rest e)"
    unfolding varint32_five [OF assms(1,2)] by simp
  show v: "leb_val (as @ replicate n 0x80 @ [0]) = leb_val as"
    by (simp add: leb_val_append leb_val_padding)
  have vi: "is_varint (as @ replicate n 0x80 @ [0])"
    using is_varint_append [of "as @ replicate n 0x80" "[0]"] assms(2) by (auto simp: set_replicate_conv_if)
  show "pb_decode_varint cb (ibuf (as @ replicate n 0x80 @ 0 # ys) rest e) = (Some (of_nat (leb_val as)), ibuf ys rest e)"
    if "n \<le> 4"
    using pb_decode_varint_ok [OF vi, of cb ys rest e] that assms(1) v by simp
  have last: "varint32_loop cb r 3 (ibuf (b # ys) rest e) = (Some (r OR push_bit 3 (ucast b), b, 10), ibuf ys rest e)" for r
  proof -
    have "b AND 0x7F = b" using assms(4) by (simp add: word_unat_eq_iff u8_and_7f)
    then show ?thesis using assms(4) by (subst varint32_loop.simps) (simp add: u8_msb_iff Let_def)
  qed
  show "pb_decode_varint32 cb (ibuf (as @ replicate 32 0x80 @ b # ys) rest e) =
        (Some (of_nat (leb_val as) OR push_bit 3 (ucast b)), ibuf ys rest e)"
    unfolding varint32_five [OF assms(1,2)]
    using varint32_loop_padding [of 5 32 cb _ "b # ys" rest e] last by (simp add: bitpos_wrap)
  show "leb_val (as @ replicate 32 0x80 @ [b]) = leb_val as + unat b * 2 ^ 259"
    using assms(1,4) by (simp add: leb_val_append leb_val_padding)
  show "fst (pb_decode_varint cb (ibuf (as @ replicate 32 0x80 @ b # ys) rest e)) = None"
  proof (rule ccontr)
    assume "fst (pb_decode_varint cb (ibuf (as @ replicate 32 0x80 @ b # ys) rest e)) \<noteq> None"
    then obtain v s where "pb_decode_varint cb (ibuf (as @ replicate 32 0x80 @ b # ys) rest e) = (Some v, s)"
      by (cases "pb_decode_varint cb (ibuf (as @ replicate 32 0x80 @ b # ys) rest e)") auto
    then obtain gs zs where g: "(as @ replicate 32 0x80) @ b # ys = gs @ zs" "is_varint gs" "length gs \<le> 10"
      by (auto simp: pb_decode_varint_iff)
    have "gs = take (length gs) (as @ replicate 32 0x80)"
      using arg_cong [OF g(1), of "take (length gs)"] g(3) assms(1) by simp
    then have "\<forall>x \<in> set gs. 128 \<le> unat x" using assms(2) set_take_subset [of "length gs" "as @ replicate 32 0x80"]
      by auto
    with is_varint_all_high g(2) show False by blast
  qed
qed

theorem pb_decode_varint32_misreads_witness:
  "pb_decode_varint32 (\<lambda>u n. Failed True (u :: unit)) (ibuf [0x80, 0x80, 0x80, 0x80, 0xF0, 0x00] [] None) =
     (Some 0, ibuf [] [] None) \<and>
   pb_decode_varint (\<lambda>u n. Failed True (u :: unit)) (ibuf [0x80, 0x80, 0x80, 0x80, 0xF0, 0x00] [] None) =
     (Some (7 * 2 ^ 32), ibuf [] [] None)"
  using pb_decode_varint32_misreads [of "[0x80, 0x80, 0x80, 0x80, 0xF0]" 0 0 "\<lambda>u n. Failed True (u :: unit)" "[]" "[]" None]
  by simp

end
