(* ===== verification/PbField.thy ===== *)
theory PbField
  imports PbStream
begin

text \<open>
  Field descriptions and the field iterator of nanopb (\<open>pb.h\<close>, \<open>pb_common.c\<close>), and the memory
  the messages live in. Memory is a map from addresses to bytes, numbers are little-endian,
  pointers have eight bytes and \<open>NULL\<close> is zero, as on the platforms of the pods. The
  constant tables of descriptions are not in that memory: a table is the list of its
  entries, found by its address in the environment of the operations.
\<close>

section \<open>Memory\<close>

type_synonym pb_mem = "int \<Rightarrow> u8"

definition mem_read :: "pb_mem \<Rightarrow> int \<Rightarrow> nat \<Rightarrow> u8 list" where
  "mem_read m p n = map (\<lambda>i. m (p + int i)) [0..<n]"

definition mem_write :: "pb_mem \<Rightarrow> int \<Rightarrow> u8 list \<Rightarrow> pb_mem" where
  "mem_write m p bs = (\<lambda>a. if p \<le> a \<and> a < p + int (length bs) then bs ! nat (a - p) else m a)"

definition le_val :: "u8 list \<Rightarrow> nat" where
  "le_val bs = foldr (\<lambda>b v. unat b + 256 * v) bs 0"

definition le_bytes :: "nat \<Rightarrow> nat \<Rightarrow> u8 list" where
  "le_bytes n v = map (\<lambda>i. byte (v div 256 ^ i)) [0..<n]"

definition load :: "pb_mem \<Rightarrow> int \<Rightarrow> nat \<Rightarrow> nat" where
  "load m p n = le_val (mem_read m p n)"

definition store :: "pb_mem \<Rightarrow> int \<Rightarrow> nat \<Rightarrow> nat \<Rightarrow> pb_mem" where
  "store m p n v = mem_write m p (le_bytes n v)"

definition load_ptr :: "pb_mem \<Rightarrow> int \<Rightarrow> int" where
  "load_ptr m p = int (load m p 8)"

definition store_ptr :: "pb_mem \<Rightarrow> int \<Rightarrow> int \<Rightarrow> pb_mem" where
  "store_ptr m p q = store m p 8 (nat q)"

section \<open>Field descriptions\<close>

record pb_field =
  f_tag :: nat
  f_type :: u8
  f_data_offset :: nat
  f_size_offset :: int
  f_data_size :: nat
  f_array_size :: nat
  f_ptr :: int

definition PB_LAST_FIELD :: pb_field where
  "PB_LAST_FIELD = \<lparr>f_tag = 0, f_type = 0, f_data_offset = 0, f_size_offset = 0,
     f_data_size = 0, f_array_size = 0, f_ptr = 0\<rparr>"

definition PB_SIZE_MAX :: nat where "PB_SIZE_MAX = 4294967295"

definition PB_LTYPE_VARINT :: u8 where "PB_LTYPE_VARINT = 0x00"
definition PB_LTYPE_UVARINT :: u8 where "PB_LTYPE_UVARINT = 0x01"
definition PB_LTYPE_SVARINT :: u8 where "PB_LTYPE_SVARINT = 0x02"
definition PB_LTYPE_FIXED32 :: u8 where "PB_LTYPE_FIXED32 = 0x03"
definition PB_LTYPE_FIXED64 :: u8 where "PB_LTYPE_FIXED64 = 0x04"
definition PB_LTYPE_LAST_PACKABLE :: u8 where "PB_LTYPE_LAST_PACKABLE = 0x04"
definition PB_LTYPE_BYTES :: u8 where "PB_LTYPE_BYTES = 0x05"
definition PB_LTYPE_STRING :: u8 where "PB_LTYPE_STRING = 0x06"
definition PB_LTYPE_SUBMESSAGE :: u8 where "PB_LTYPE_SUBMESSAGE = 0x07"
definition PB_LTYPE_EXTENSION :: u8 where "PB_LTYPE_EXTENSION = 0x08"
definition PB_LTYPE_FIXED_LENGTH_BYTES :: u8 where "PB_LTYPE_FIXED_LENGTH_BYTES = 0x09"

definition PB_HTYPE_REQUIRED :: u8 where "PB_HTYPE_REQUIRED = 0x00"
definition PB_HTYPE_OPTIONAL :: u8 where "PB_HTYPE_OPTIONAL = 0x10"
definition PB_HTYPE_REPEATED :: u8 where "PB_HTYPE_REPEATED = 0x20"
definition PB_HTYPE_ONEOF :: u8 where "PB_HTYPE_ONEOF = 0x30"

definition PB_ATYPE_STATIC :: u8 where "PB_ATYPE_STATIC = 0x00"
definition PB_ATYPE_POINTER :: u8 where "PB_ATYPE_POINTER = 0x80"
definition PB_ATYPE_CALLBACK :: u8 where "PB_ATYPE_CALLBACK = 0x40"

definition PB_ATYPE :: "u8 \<Rightarrow> u8" where "PB_ATYPE x = x AND 0xC0"
definition PB_HTYPE :: "u8 \<Rightarrow> u8" where "PB_HTYPE x = x AND 0x30"
definition PB_LTYPE :: "u8 \<Rightarrow> u8" where "PB_LTYPE x = x AND 0x0F"

lemmas pb_ltypes = PB_LTYPE_VARINT_def PB_LTYPE_UVARINT_def PB_LTYPE_SVARINT_def
  PB_LTYPE_FIXED32_def PB_LTYPE_FIXED64_def PB_LTYPE_LAST_PACKABLE_def PB_LTYPE_BYTES_def
  PB_LTYPE_STRING_def PB_LTYPE_SUBMESSAGE_def PB_LTYPE_EXTENSION_def PB_LTYPE_FIXED_LENGTH_BYTES_def

lemmas pb_htypes = PB_HTYPE_REQUIRED_def PB_HTYPE_OPTIONAL_def PB_HTYPE_REPEATED_def
  PB_HTYPE_ONEOF_def

lemmas pb_atypes = PB_ATYPE_STATIC_def PB_ATYPE_POINTER_def PB_ATYPE_CALLBACK_def

section \<open>The iterator\<close>

text \<open>The iterator holds its table and an index into it. While the decoder counts the entries
  of a repeated field of fixed size it points \<open>pSize\<close> at a variable of its own, which
  \<open>it_fixed\<close> records.\<close>

record pb_iter =
  it_start :: "pb_field list"
  it_pos :: nat
  it_required_field_index :: nat
  it_dest_struct :: int
  it_pData :: int
  it_pSize :: int
  it_fixed :: bool

definition field_at :: "pb_field list \<Rightarrow> nat \<Rightarrow> pb_field" where
  "field_at fs i = (if i < length fs then fs ! i else PB_LAST_FIELD)"

definition it_field :: "pb_iter \<Rightarrow> pb_field" where
  "it_field it = field_at (it_start it) (it_pos it)"

definition pb_field_iter_begin :: "pb_field list \<Rightarrow> int \<Rightarrow> bool \<times> pb_iter" where
  "pb_field_iter_begin fs dest =
     (let f = field_at fs 0; pData = dest + int (f_data_offset f) in
      (f_tag f \<noteq> 0,
       \<lparr>it_start = fs, it_pos = 0, it_required_field_index = 0, it_dest_struct = dest,
        it_pData = pData, it_pSize = pData + f_size_offset f, it_fixed = False\<rparr>))"

definition pb_field_iter_next :: "pb_iter \<Rightarrow> bool \<times> pb_iter" where
  "pb_field_iter_next it =
     (let prev_field = it_field it in
      if f_tag prev_field = 0 then (False, it)
      else
        let it = it\<lparr>it_pos := it_pos it + 1\<rparr>; f = it_field it in
        if f_tag f = 0 then (False, snd (pb_field_iter_begin (it_start it) (it_dest_struct it)))
        else if PB_HTYPE (f_type prev_field) = PB_HTYPE_ONEOF \<and> PB_HTYPE (f_type f) = PB_HTYPE_ONEOF \<and>
                f_data_offset f = PB_SIZE_MAX then
          (True, it)
        else
          let prev_size =
                (if PB_ATYPE (f_type prev_field) = PB_ATYPE_STATIC \<and>
                    PB_HTYPE (f_type prev_field) = PB_HTYPE_REPEATED then
                   f_data_size prev_field * f_array_size prev_field
                 else if PB_ATYPE (f_type prev_field) = PB_ATYPE_POINTER then 8
                 else f_data_size prev_field);
              req = (if PB_HTYPE (f_type prev_field) = PB_HTYPE_REQUIRED then 1 else 0);
              pData = it_pData it + int prev_size + int (f_data_offset f)
          in (True, it\<lparr>it_required_field_index := it_required_field_index it + req,
                       it_pData := pData, it_pSize := pData + f_size_offset f, it_fixed := False\<rparr>))"

text \<open>The loop of \<open>pb_field_iter_find\<close>, and of the other searches that go round the table once:
  look at the field, step, stop where the search began. The bound is the length of the
  table plus one, more than a round takes; \<open>None\<close> is a search that did not come back.\<close>

fun iter_search :: "nat \<Rightarrow> (pb_field \<Rightarrow> bool) \<Rightarrow> nat \<Rightarrow> pb_iter \<Rightarrow> (bool \<times> pb_iter) option" where
  "iter_search 0 found start it = None"
| "iter_search (Suc n) found start it =
     (if found (it_field it) then Some (True, it)
      else
        let it = snd (pb_field_iter_next it) in
        if it_pos it \<noteq> start then iter_search n found start it else Some (False, it))"

definition pb_field_iter_find :: "pb_iter \<Rightarrow> nat \<Rightarrow> (bool \<times> pb_iter) option" where
  "pb_field_iter_find it tag =
     iter_search (Suc (length (it_start it)))
       (\<lambda>f. f_tag f = tag \<and> PB_LTYPE (f_type f) \<noteq> PB_LTYPE_EXTENSION) (it_pos it) it"

definition find_extension_field :: "pb_iter \<Rightarrow> (bool \<times> pb_iter) option" where
  "find_extension_field it =
     iter_search (Suc (length (it_start it)))
       (\<lambda>f. PB_LTYPE (f_type f) = PB_LTYPE_EXTENSION) (it_pos it) it"

text \<open>\<open>do ... while (pb_field_iter_next(&iter))\<close>: the step at every field of the table from the
  current one on. The bound is the length of the table, plus one.\<close>

fun iter_each :: "nat \<Rightarrow> (pb_iter \<Rightarrow> 'a \<Rightarrow> 'a option) \<Rightarrow> pb_iter \<Rightarrow> 'a \<Rightarrow> 'a option" where
  "iter_each 0 g it x = None"
| "iter_each (Suc n) g it x =
     (case g it x of
        None \<Rightarrow> None
      | Some x \<Rightarrow>
          (case pb_field_iter_next it of
             (False, it) \<Rightarrow> Some x
           | (True, it) \<Rightarrow> iter_each n g it x))"

end
