(* ===== verification/PbDecode.thy ===== *)
theory PbDecode
  imports PbField
begin

text \<open>
  The message decoder of nanopb, \<open>pb_decode.c\<close>, with \<open>PB_ENABLE_MALLOC\<close>. What is not in the
  file is in an environment: the constant tables, the allocator and the callbacks of the
  caller. A step of the decoder takes the stream, the memory, the iterator of the message
  being decoded and its count of a fixed-size repeated field, and returns whether the C
  function returns true and the state after it.

  Messages nest through tables and memory, so the recursion is on a bound that the entry
  points take: \<open>None\<close> says that it was too small, or that the C code has no result, as when
  it calls the decoder of an extension field, which is \<open>NULL\<close>.
\<close>

section \<open>Environment and state\<close>

record pb_extension_type =
  x_decode :: int
  x_encode :: int
  x_arg :: int

record 's pb_env =
  e_read :: "'s pb_reader"
  e_table :: "int \<Rightarrow> pb_field list"
  e_ext_type :: "int \<Rightarrow> pb_extension_type"
  e_realloc :: "pb_mem \<Rightarrow> int \<Rightarrow> nat \<Rightarrow> int \<times> pb_mem"
  e_free :: "pb_mem \<Rightarrow> int \<Rightarrow> pb_mem"
  e_decode :: "int \<Rightarrow> 's pb_istream \<Rightarrow> pb_field \<Rightarrow> int \<Rightarrow> pb_mem \<Rightarrow> bool \<times> 's pb_istream \<times> pb_mem"
  e_ext_decode :: "int \<Rightarrow> 's pb_istream \<Rightarrow> int \<Rightarrow> nat \<Rightarrow> pb_wire_type \<Rightarrow> pb_mem \<Rightarrow>
    bool \<times> 's pb_istream \<times> pb_mem"

record 's pb_dec =
  d_in :: "'s pb_istream"
  d_mem :: pb_mem
  d_iter :: pb_iter
  d_fixed :: nat

type_synonym 's pb_step = "'s pb_dec \<Rightarrow> (bool \<times> 's pb_dec) option"

text \<open>\<open>PB_RETURN_ERROR\<close>; a statement whose failure is returned; a reader of the stream whose
  failure is returned; a change of memory.\<close>

definition d_fail :: "string \<Rightarrow> 's pb_step" where
  "d_fail msg st = Some (False, st\<lparr>d_in := snd (is_fail msg (d_in st) :: unit option \<times> _)\<rparr>)"

definition d_then :: "(bool \<times> 's pb_dec) option \<Rightarrow> 's pb_step \<Rightarrow> (bool \<times> 's pb_dec) option" where
  "d_then r k = (case r of Some (True, st) \<Rightarrow> k st | _ \<Rightarrow> r)"

definition d_get :: "('s pb_istream \<Rightarrow> 'a option \<times> 's pb_istream) \<Rightarrow> ('a \<Rightarrow> 's pb_step) \<Rightarrow> 's pb_step" where
  "d_get f k st =
     (case f (d_in st) of
        (None, s) \<Rightarrow> Some (False, st\<lparr>d_in := s\<rparr>)
      | (Some v, s) \<Rightarrow> k v (st\<lparr>d_in := s\<rparr>))"

definition d_done :: "'s pb_step" where
  "d_done st = Some (True, st)"

definition d_upd :: "(pb_mem \<Rightarrow> pb_mem) \<Rightarrow> 's pb_dec \<Rightarrow> 's pb_dec" where
  "d_upd f st = st\<lparr>d_mem := f (d_mem st)\<rparr>"

text \<open>\<open>pb_read\<close> into memory.\<close>

definition d_read_to :: "'s pb_env \<Rightarrow> int \<Rightarrow> nat \<Rightarrow> 's pb_step" where
  "d_read_to env p n =
     d_get (\<lambda>s. pb_read (e_read env) s False n) (\<lambda>bs st. d_done (d_upd (\<lambda>m. mem_write m p bs) st))"

text \<open>\<open>*(pb_size_t*)iter->pSize\<close>, and whether \<open>iter->pSize == iter->pData\<close>.\<close>

definition get_size :: "'s pb_dec \<Rightarrow> nat" where
  "get_size st = (if it_fixed (d_iter st) then d_fixed st else load (d_mem st) (it_pSize (d_iter st)) 4)"

definition set_size :: "nat \<Rightarrow> 's pb_dec \<Rightarrow> 's pb_dec" where
  "set_size v st =
     (if it_fixed (d_iter st) then st\<lparr>d_fixed := v mod 2 ^ 32\<rparr>
      else d_upd (\<lambda>m. store m (it_pSize (d_iter st)) 4 v) st)"

definition size_is_data :: "pb_iter \<Rightarrow> bool" where
  "size_is_data it \<longleftrightarrow> \<not> it_fixed it \<and> it_pSize it = it_pData it"

definition d_field :: "'s pb_dec \<Rightarrow> pb_field" where
  "d_field st = it_field (d_iter st)"

text \<open>A body that runs on a substream \<open>sub\<close> of the stream: its result, the substream after it,
  and the state with the stream of the parent put back.\<close>

definition d_on_sub :: "'s pb_istream \<Rightarrow> 's pb_step \<Rightarrow> (bool \<Rightarrow> 's pb_istream \<Rightarrow> 's pb_step) \<Rightarrow> 's pb_step" where
  "d_on_sub sub body k st =
     (case body (st\<lparr>d_in := sub\<rparr>) of
        None \<Rightarrow> None
      | Some (r, st') \<Rightarrow> k r (d_in st') (st'\<lparr>d_in := d_in st\<rparr>))"

definition d_close :: "'s pb_env \<Rightarrow> 's pb_istream \<Rightarrow> bool \<Rightarrow> 's pb_step" where
  "d_close env sub status =
     d_get (\<lambda>s. pb_close_string_substream (e_read env) s sub) (\<lambda>_ st. Some (status, st))"

section \<open>Scalar fields\<close>

text \<open>The low bytes of a value, and the value read back from them with or without sign.\<close>

definition clamp_u :: "nat \<Rightarrow> u64 \<Rightarrow> u64" where
  "clamp_u n v = take_bit (8 * n) v"

definition clamp_s :: "nat \<Rightarrow> u64 \<Rightarrow> u64" where
  "clamp_s n v = signed_take_bit (8 * n - 1) v"

definition store_int :: "'s pb_step \<Rightarrow> (nat \<Rightarrow> u64 \<Rightarrow> u64) \<Rightarrow> pb_field \<Rightarrow> int \<Rightarrow> u64 \<Rightarrow> 's pb_step" where
  "store_int bad clamp field dest v st =
     (let n = f_data_size field in
      if n = 8 \<or> n = 4 \<or> n = 2 \<or> n = 1 then
        let st = d_upd (\<lambda>m. store m dest n (unat (clamp n v))) st in
        if clamp n v \<noteq> v then d_fail ''integer too large'' st else d_done st
      else bad st)"

definition pb_dec_varint :: "'s pb_env \<Rightarrow> pb_field \<Rightarrow> int \<Rightarrow> 's pb_step" where
  "pb_dec_varint env field dest =
     d_get (pb_decode_varint (e_read env)) (\<lambda>value.
       let svalue = (if f_data_size field = 8 then value else clamp_s 4 value)
       in store_int (d_fail ''invalid data_size'') clamp_s field dest svalue)"

definition pb_dec_uvarint :: "'s pb_env \<Rightarrow> pb_field \<Rightarrow> int \<Rightarrow> 's pb_step" where
  "pb_dec_uvarint env field dest =
     d_get (pb_decode_varint (e_read env))
       (store_int (d_fail ''invalid data_size'') clamp_u field dest)"

definition pb_dec_svarint :: "'s pb_env \<Rightarrow> pb_field \<Rightarrow> int \<Rightarrow> 's pb_step" where
  "pb_dec_svarint env field dest =
     d_get (pb_decode_svarint (e_read env))
       (store_int (d_fail ''invalid data_size'') clamp_s field dest)"

definition pb_dec_fixed32 :: "'s pb_env \<Rightarrow> pb_field \<Rightarrow> int \<Rightarrow> 's pb_step" where
  "pb_dec_fixed32 env field dest =
     d_get (pb_decode_fixed32 (e_read env)) (\<lambda>v st. d_done (d_upd (\<lambda>m. store m dest 4 (unat v)) st))"

definition pb_dec_fixed64 :: "'s pb_env \<Rightarrow> pb_field \<Rightarrow> int \<Rightarrow> 's pb_step" where
  "pb_dec_fixed64 env field dest =
     d_get (pb_decode_fixed64 (e_read env)) (\<lambda>v st. d_done (d_upd (\<lambda>m. store m dest 8 (unat v)) st))"

section \<open>Allocation\<close>

definition allocate_field :: "'s pb_env \<Rightarrow> int \<Rightarrow> nat \<Rightarrow> nat \<Rightarrow> 's pb_step" where
  "allocate_field env pData data_size array_size st =
     (let ptr = load_ptr (d_mem st) pData in
      if data_size = 0 \<or> array_size = 0 then d_fail ''invalid size'' st
      else
        let check_limit = 2 ^ 32 in
        if (data_size \<ge> check_limit \<or> array_size \<ge> check_limit) \<and> SIZE_MAX div array_size < data_size then
          d_fail ''size too large'' st
        else
          let (ptr, m) = e_realloc env (d_mem st) ptr (size_mul array_size data_size); st = st\<lparr>d_mem := m\<rparr> in
          if ptr = 0 then d_fail ''realloc failed'' st
          else d_done (d_upd (\<lambda>m. store_ptr m pData ptr) st))"

definition pb_bytes_offset :: nat where "pb_bytes_offset = 4"

definition PB_BYTES_ARRAY_T_ALLOCSIZE :: "nat \<Rightarrow> nat" where
  "PB_BYTES_ARRAY_T_ALLOCSIZE n = size_add n pb_bytes_offset"

definition pb_dec_bytes :: "'s pb_env \<Rightarrow> pb_field \<Rightarrow> int \<Rightarrow> 's pb_step" where
  "pb_dec_bytes env field dest =
     d_get (pb_decode_varint32 (e_read env)) (\<lambda>w st.
       let sz = unat w; alloc_size = PB_BYTES_ARRAY_T_ALLOCSIZE sz in
       if sz > PB_SIZE_MAX then d_fail ''bytes overflow'' st
       else if sz > alloc_size then d_fail ''size too large'' st
       else
         let rest = (\<lambda>bdest st. d_read_to env (bdest + int pb_bytes_offset) sz (d_upd (\<lambda>m. store m bdest 4 sz) st))
         in if PB_ATYPE (f_type field) = PB_ATYPE_POINTER then
              d_then (allocate_field env dest alloc_size 1 st) (\<lambda>st. rest (load_ptr (d_mem st) dest) st)
            else if alloc_size > f_data_size field then d_fail ''bytes overflow'' st
            else rest dest st)"

definition pb_dec_string :: "'s pb_env \<Rightarrow> pb_field \<Rightarrow> int \<Rightarrow> 's pb_step" where
  "pb_dec_string env field dest =
     d_get (pb_decode_varint32 (e_read env)) (\<lambda>w st.
       let sz = unat w; alloc_size = unat (w + 1) in
       if alloc_size < sz then d_fail ''size too large'' st
       else
         let rest = (\<lambda>dest st.
               case d_read_to env dest sz st of
                 None \<Rightarrow> None
               | Some (status, st) \<Rightarrow> Some (status, d_upd (\<lambda>m. store m (dest + int sz) 1 0) st))
         in if PB_ATYPE (f_type field) = PB_ATYPE_POINTER then
              d_then (allocate_field env dest alloc_size 1 st) (\<lambda>st. rest (load_ptr (d_mem st) dest) st)
            else if alloc_size > f_data_size field then d_fail ''string overflow'' st
            else rest dest st)"

definition pb_dec_fixed_length_bytes :: "'s pb_env \<Rightarrow> pb_field \<Rightarrow> int \<Rightarrow> 's pb_step" where
  "pb_dec_fixed_length_bytes env field dest =
     d_get (pb_decode_varint32 (e_read env)) (\<lambda>w st.
       let sz = unat w in
       if sz > PB_SIZE_MAX then d_fail ''bytes overflow'' st
       else if sz = 0 then d_done (d_upd (\<lambda>m. mem_write m dest (replicate (f_data_size field) 0)) st)
       else if sz \<noteq> f_data_size field then d_fail ''incorrect fixed length bytes size'' st
       else d_read_to env dest (f_data_size field) st)"

text \<open>\<open>pb_dec_submessage\<close>; the decoder of messages is an argument, with the flag that says
  whether it sets the defaults first.\<close>

type_synonym 's pb_message_decoder = "bool \<Rightarrow> pb_field list \<Rightarrow> int \<Rightarrow> 's pb_step"

definition pb_dec_submessage :: "'s pb_env \<Rightarrow> 's pb_message_decoder \<Rightarrow> pb_field \<Rightarrow> int \<Rightarrow> 's pb_step" where
  "pb_dec_submessage env dec field dest =
     d_get (pb_make_string_substream (e_read env)) (\<lambda>sub st.
       if f_ptr field = 0 then d_fail ''invalid field descriptor'' st
       else d_on_sub sub
         (dec (PB_HTYPE (f_type field) = PB_HTYPE_REPEATED) (e_table env (f_ptr field)) dest)
         (\<lambda>status sub. d_close env sub status) st)"

text \<open>\<open>PB_DECODERS[PB_LTYPE(type)]\<close>.\<close>

definition PB_DECODERS :: "'s pb_env \<Rightarrow> 's pb_message_decoder \<Rightarrow> pb_field \<Rightarrow> int \<Rightarrow> 's pb_step" where
  "PB_DECODERS env dec field dest =
     (let t = PB_LTYPE (f_type field) in
      if t = PB_LTYPE_VARINT then pb_dec_varint env field dest
      else if t = PB_LTYPE_UVARINT then pb_dec_uvarint env field dest
      else if t = PB_LTYPE_SVARINT then pb_dec_svarint env field dest
      else if t = PB_LTYPE_FIXED32 then pb_dec_fixed32 env field dest
      else if t = PB_LTYPE_FIXED64 then pb_dec_fixed64 env field dest
      else if t = PB_LTYPE_BYTES then pb_dec_bytes env field dest
      else if t = PB_LTYPE_STRING then pb_dec_string env field dest
      else if t = PB_LTYPE_SUBMESSAGE then pb_dec_submessage env dec field dest
      else if t = PB_LTYPE_FIXED_LENGTH_BYTES then pb_dec_fixed_length_bytes env field dest
      else (\<lambda>st. None))"

section \<open>Defaults\<close>

definition ext_dest :: "pb_mem \<Rightarrow> int \<Rightarrow> int" where "ext_dest m ext = load_ptr m (ext + 8)"
definition ext_next :: "pb_mem \<Rightarrow> int \<Rightarrow> int" where "ext_next m ext = load_ptr m (ext + 16)"
definition ext_found :: "int \<Rightarrow> int" where "ext_found ext = ext + 24"

definition ext_fields :: "'s pb_env \<Rightarrow> pb_mem \<Rightarrow> int \<Rightarrow> pb_field list" where
  "ext_fields env m ext = e_table env (x_arg (e_ext_type env (load_ptr m ext)))"

definition iter_from_extension :: "'s pb_env \<Rightarrow> pb_mem \<Rightarrow> int \<Rightarrow> pb_iter" where
  "iter_from_extension env m ext =
     (let fs = ext_fields env m ext; it = snd (pb_field_iter_begin fs (ext_dest m ext)) in
      it\<lparr>it_pData := (if PB_ATYPE (f_type (field_at fs 0)) = PB_ATYPE_POINTER then ext + 8
                     else ext_dest m ext),
         it_pSize := ext_found ext\<rparr>)"

text \<open>\<open>pb_message_set_to_defaults\<close>, \<open>pb_field_set_to_default\<close> and its loop over a list of
  extensions.\<close>

fun pb_message_set_to_defaults :: "'s pb_env \<Rightarrow> nat \<Rightarrow> pb_field list \<Rightarrow> int \<Rightarrow> pb_mem \<Rightarrow> pb_mem option"
  and pb_field_set_to_default :: "'s pb_env \<Rightarrow> nat \<Rightarrow> pb_iter \<Rightarrow> pb_mem \<Rightarrow> pb_mem option"
  and default_extensions :: "'s pb_env \<Rightarrow> nat \<Rightarrow> int \<Rightarrow> pb_mem \<Rightarrow> pb_mem option" where
  "pb_message_set_to_defaults env 0 fs dest m = None"
| "pb_message_set_to_defaults env (Suc n) fs dest m =
     (case pb_field_iter_begin fs dest of
        (False, _) \<Rightarrow> Some m
      | (True, it) \<Rightarrow> iter_each (Suc (length fs)) (\<lambda>it m. pb_field_set_to_default env n it m) it m)"
| "pb_field_set_to_default env 0 it m = None"
| "pb_field_set_to_default env (Suc n) it m =
     (let f = it_field it; t = f_type f in
      if PB_LTYPE t = PB_LTYPE_EXTENSION then default_extensions env n (load_ptr m (it_pData it)) m
      else if PB_ATYPE t = PB_ATYPE_STATIC then
        if PB_HTYPE t = PB_HTYPE_REPEATED \<or> PB_HTYPE t = PB_HTYPE_ONEOF then
          Some (store m (it_pSize it) 4 0)
        else
          let m = (if PB_HTYPE t = PB_HTYPE_OPTIONAL \<and> \<not> size_is_data it
                   then store m (it_pSize it) 1 0 else m) in
          if PB_LTYPE t = PB_LTYPE_SUBMESSAGE then
            pb_message_set_to_defaults env n (e_table env (f_ptr f)) (it_pData it) m
          else if f_ptr f \<noteq> 0 then
            Some (mem_write m (it_pData it) (mem_read m (f_ptr f) (f_data_size f)))
          else Some (mem_write m (it_pData it) (replicate (f_data_size f) 0))
      else if PB_ATYPE t = PB_ATYPE_POINTER then
        let m = store_ptr m (it_pData it) 0 in
        Some (if PB_HTYPE t = PB_HTYPE_REPEATED \<or> PB_HTYPE t = PB_HTYPE_ONEOF
              then store m (it_pSize it) 4 0 else m)
      else Some m)"
| "default_extensions env 0 ext m = None"
| "default_extensions env (Suc n) ext m =
     (if ext = 0 then Some m
      else
        let m = store m (ext_found ext) 1 0 in
        case pb_field_set_to_default env n (iter_from_extension env m ext) m of
          None \<Rightarrow> None
        | Some m \<Rightarrow> default_extensions env n (ext_next m ext) m)"

section \<open>Releasing\<close>

text \<open>\<open>pb_free\<close> of the entries of a repeated string or bytes array, each pointer set to \<open>NULL\<close>.\<close>

fun free_items :: "'s pb_env \<Rightarrow> nat \<Rightarrow> int \<Rightarrow> pb_mem \<Rightarrow> pb_mem" where
  "free_items env 0 pItem m = m"
| "free_items env (Suc k) pItem m =
     (let m = e_free env m (load_ptr m pItem) in free_items env k (pItem + 8) (store_ptr m pItem 0))"

definition release_pointer :: "'s pb_env \<Rightarrow> pb_iter \<Rightarrow> pb_mem \<Rightarrow> pb_mem" where
  "release_pointer env it m =
     (let t = f_type (it_field it) in
      if PB_ATYPE t = PB_ATYPE_POINTER then
        let m = (if PB_HTYPE t = PB_HTYPE_REPEATED \<and> (PB_LTYPE t = PB_LTYPE_STRING \<or> PB_LTYPE t = PB_LTYPE_BYTES)
                 then free_items env (load m (it_pSize it) 4) (load_ptr m (it_pData it)) m else m);
            m = (if PB_HTYPE t = PB_HTYPE_REPEATED then store m (it_pSize it) 4 0 else m);
            m = e_free env m (load_ptr m (it_pData it))
        in store_ptr m (it_pData it) 0
      else m)"

definition release_count :: "pb_iter \<Rightarrow> pb_mem \<Rightarrow> nat" where
  "release_count it m =
     (let f = it_field it; t = f_type f in
      if PB_HTYPE t = PB_HTYPE_REPEATED then
        let cnt = (if PB_ATYPE t = PB_ATYPE_STATIC \<and> size_is_data it then f_array_size f
                   else load m (it_pSize it) 4)
        in if PB_ATYPE t = PB_ATYPE_STATIC \<and> cnt > f_array_size f then f_array_size f else cnt
      else 1)"

text \<open>\<open>pb_release\<close>, \<open>pb_release_single_field\<close>, its loop over extensions and its loop over the
  submessages of an array.\<close>

function pb_release :: "'s pb_env \<Rightarrow> nat \<Rightarrow> pb_field list \<Rightarrow> int \<Rightarrow> pb_mem \<Rightarrow> pb_mem option"
  and pb_release_single_field :: "'s pb_env \<Rightarrow> nat \<Rightarrow> pb_iter \<Rightarrow> pb_mem \<Rightarrow> pb_mem option"
  and release_extensions :: "'s pb_env \<Rightarrow> nat \<Rightarrow> int \<Rightarrow> pb_mem \<Rightarrow> pb_mem option"
  and release_items :: "'s pb_env \<Rightarrow> nat \<Rightarrow> nat \<Rightarrow> pb_field \<Rightarrow> int \<Rightarrow> pb_mem \<Rightarrow> pb_mem option" where
  "pb_release env 0 fs dest m = None"
| "pb_release env (Suc n) fs dest m =
     (if dest = 0 then Some m
      else case pb_field_iter_begin fs dest of
        (False, _) \<Rightarrow> Some m
      | (True, it) \<Rightarrow> iter_each (Suc (length fs)) (\<lambda>it m. pb_release_single_field env n it m) it m)"
| "pb_release_single_field env 0 it m = None"
| "pb_release_single_field env (Suc n) it m =
     (let f = it_field it; t = f_type f in
      if PB_HTYPE t = PB_HTYPE_ONEOF \<and> load m (it_pSize it) 4 \<noteq> f_tag f then Some m
      else
        let inner = (if PB_LTYPE t = PB_LTYPE_EXTENSION then release_extensions env n (load_ptr m (it_pData it)) m
                     else if PB_LTYPE t = PB_LTYPE_SUBMESSAGE then
                       let pItem = (if PB_ATYPE t = PB_ATYPE_POINTER then load_ptr m (it_pData it) else it_pData it)
                       in if pItem \<noteq> 0 then release_items env n (release_count it m) f pItem m else Some m
                     else Some m)
        in map_option (release_pointer env it) inner)"
| "release_extensions env 0 ext m = None"
| "release_extensions env (Suc n) ext m =
     (if ext = 0 then Some m
      else case pb_release_single_field env n (iter_from_extension env m ext) m of
        None \<Rightarrow> None
      | Some m \<Rightarrow> release_extensions env n (ext_next m ext) m)"
| "release_items env n 0 f pItem m = Some m"
| "release_items env n (Suc k) f pItem m =
     (case n of
        0 \<Rightarrow> None
      | Suc n' \<Rightarrow>
          (case pb_release env n' (e_table env (f_ptr f)) pItem m of
             None \<Rightarrow> None
           | Some m \<Rightarrow> release_items env n k f (pItem + int (f_data_size f)) m))"
  by pat_completeness auto
termination pb_release
  by (relation "measures [\<lambda>x. case x of Inl (Inl (_, n, _)) \<Rightarrow> n | Inl (Inr (_, n, _)) \<Rightarrow> n
        | Inr (Inl (_, n, _)) \<Rightarrow> n | Inr (Inr (_, n, _)) \<Rightarrow> n,
      \<lambda>x. case x of Inr (Inr (_, _, k, _)) \<Rightarrow> k | _ \<Rightarrow> 0]") auto

definition pb_release_union_field :: "'s pb_env \<Rightarrow> nat \<Rightarrow> 's pb_step" where
  "pb_release_union_field env n st =
     (let old_tag = get_size st; new_tag = f_tag (d_field st) in
      if old_tag = 0 \<or> old_tag = new_tag then d_done st
      else case pb_field_iter_find (d_iter st) old_tag of
        None \<Rightarrow> None
      | Some (found, it) \<Rightarrow>
          let st = st\<lparr>d_iter := it\<rparr> in
          if \<not> found then d_fail ''invalid union tag'' st
          else case pb_release_single_field env n it (d_mem st) of
            None \<Rightarrow> None
          | Some m \<Rightarrow>
              (case pb_field_iter_find it new_tag of
                 None \<Rightarrow> None
               | Some (found, it) \<Rightarrow>
                   let st = st\<lparr>d_mem := m, d_iter := it\<rparr> in
                   if found then d_done st else d_fail ''iterator error'' st))"

section \<open>One field\<close>

text \<open>A field decoder at an entry of the array at \<open>pData\<close>.\<close>

definition item_at :: "int \<Rightarrow> pb_field \<Rightarrow> nat \<Rightarrow> int" where
  "item_at pData f i = pData + int (f_data_size f) * int i"

text \<open>The loop over a packed array in static memory, on the substream. Each round that goes on
  reads at least a byte, so the bytes left bound the rounds.\<close>

fun packed_loop :: "(int \<Rightarrow> 's pb_step) \<Rightarrow> nat \<Rightarrow> 's pb_step" where
  "packed_loop func 0 st = None"
| "packed_loop func (Suc n) st =
     (let f = d_field st in
      if is_bytes_left (d_in st) > 0 \<and> get_size st < f_array_size f then
        d_then (func (item_at (it_pData (d_iter st)) f (get_size st)) st)
          (\<lambda>st. packed_loop func n (set_size (get_size st + 1) st))
      else d_done st)"

definition decode_static_field :: "'s pb_env \<Rightarrow> nat \<Rightarrow> 's pb_message_decoder \<Rightarrow> pb_wire_type \<Rightarrow> 's pb_step" where
  "decode_static_field env n dec wire_type st =
     (let f = d_field st; t = f_type f; it = d_iter st; func = PB_DECODERS env dec f in
      if PB_HTYPE t = PB_HTYPE_REQUIRED then func (it_pData it) st
      else if PB_HTYPE t = PB_HTYPE_OPTIONAL then
        func (it_pData it)
          (if size_is_data it then st else d_upd (\<lambda>m. store m (it_pSize it) 1 1) st)
      else if PB_HTYPE t = PB_HTYPE_REPEATED then
        if wire_type = PB_WT_STRING \<and> PB_LTYPE t \<le> PB_LTYPE_LAST_PACKABLE then
          d_get (pb_make_string_substream (e_read env)) (\<lambda>sub st.
            d_on_sub sub (packed_loop func (Suc (is_bytes_left sub)))
              (\<lambda>status sub st.
                 if is_bytes_left sub \<noteq> 0 then d_fail ''array overflow'' st
                 else d_close env sub status st) st) st
        else
          let i = get_size st; st = set_size (i + 1) st in
          if i \<ge> f_array_size f then d_fail ''array overflow'' st
          else func (item_at (it_pData it) f i) st
      else if PB_HTYPE t = PB_HTYPE_ONEOF then
        let st = d_upd (\<lambda>m. store m (it_pSize it) 4 (f_tag f)) st in
        if PB_LTYPE t = PB_LTYPE_SUBMESSAGE then
          case pb_message_set_to_defaults env n (e_table env (f_ptr f)) (it_pData it)
                 (mem_write (d_mem st) (it_pData it) (replicate (f_data_size f) 0)) of
            None \<Rightarrow> None
          | Some m \<Rightarrow> func (it_pData it) (st\<lparr>d_mem := m\<rparr>)
        else func (it_pData it) st
      else d_fail ''invalid field type'' st)"

definition initialize_pointer_field :: "'s pb_env \<Rightarrow> nat \<Rightarrow> int \<Rightarrow> pb_field \<Rightarrow> pb_mem \<Rightarrow> pb_mem option" where
  "initialize_pointer_field env n pItem f m =
     (let t = PB_LTYPE (f_type f) in
      if t = PB_LTYPE_STRING \<or> t = PB_LTYPE_BYTES then Some (store_ptr m pItem 0)
      else if t = PB_LTYPE_SUBMESSAGE then
        pb_message_set_to_defaults env n (e_table env (f_ptr f)) pItem
          (mem_write m pItem (replicate (f_data_size f) 0))
      else Some m)"

definition d_init_pointer :: "'s pb_env \<Rightarrow> nat \<Rightarrow> int \<Rightarrow> pb_field \<Rightarrow> 's pb_step" where
  "d_init_pointer env n pItem f st =
     (case initialize_pointer_field env n pItem f (d_mem st) of
        None \<Rightarrow> None
      | Some m \<Rightarrow> d_done (st\<lparr>d_mem := m\<rparr>))"

text \<open>The loop over a packed array in allocated memory, which grows by a guess of the entries
  that remain. The message ''too many array entries'' goes to the parent stream, which is
  the last argument of the loop's result.\<close>

fun packed_pointer_loop :: "'s pb_env \<Rightarrow> nat \<Rightarrow> (int \<Rightarrow> 's pb_step) \<Rightarrow> nat \<Rightarrow> nat \<Rightarrow> 's pb_dec \<Rightarrow>
    (bool \<times> bool \<times> 's pb_dec) option" where
  "packed_pointer_loop env n func allocated_size 0 st = None"
| "packed_pointer_loop env n func allocated_size (Suc k) st =
     (let f = d_field st; pData = it_pData (d_iter st) in
      if is_bytes_left (d_in st) = 0 then Some (True, False, st)
      else
        let grow = get_size st + 1 > allocated_size;
            allocated_size = (if grow then
                size_add allocated_size ((is_bytes_left (d_in st) - 1) div f_data_size f + 1)
              else allocated_size)
        in case (if grow then allocate_field env pData (f_data_size f) allocated_size st else d_done st) of
             None \<Rightarrow> None
           | Some (False, st) \<Rightarrow> Some (False, False, st)
           | Some (True, st) \<Rightarrow>
               let pItem = item_at (load_ptr (d_mem st) pData) f (get_size st) in
               (case d_then (d_init_pointer env n pItem f st) (func pItem) of
                  None \<Rightarrow> None
                | Some (False, st) \<Rightarrow> Some (False, False, st)
                | Some (True, st) \<Rightarrow>
                    if get_size st = PB_SIZE_MAX then Some (False, True, st)
                    else packed_pointer_loop env n func allocated_size k (set_size (get_size st + 1) st)))"

definition decode_pointer_field :: "'s pb_env \<Rightarrow> nat \<Rightarrow> 's pb_message_decoder \<Rightarrow> pb_wire_type \<Rightarrow> 's pb_step" where
  "decode_pointer_field env n dec wire_type st =
     (let f = d_field st; t = f_type f; it = d_iter st; pData = it_pData it; func = PB_DECODERS env dec f in
      if PB_HTYPE t = PB_HTYPE_REQUIRED \<or> PB_HTYPE t = PB_HTYPE_OPTIONAL \<or> PB_HTYPE t = PB_HTYPE_ONEOF then
        case (if PB_LTYPE t = PB_LTYPE_SUBMESSAGE \<and> load_ptr (d_mem st) pData \<noteq> 0
              then pb_release_single_field env n it (d_mem st) else Some (d_mem st)) of
          None \<Rightarrow> None
        | Some m \<Rightarrow>
            let st = st\<lparr>d_mem := m\<rparr>;
                st = (if PB_HTYPE t = PB_HTYPE_ONEOF then set_size (f_tag f) st else st)
            in if PB_LTYPE t = PB_LTYPE_STRING \<or> PB_LTYPE t = PB_LTYPE_BYTES then func pData st
               else
                 d_then (allocate_field env pData (f_data_size f) 1 st) (\<lambda>st.
                   let p = load_ptr (d_mem st) pData in
                   d_then (d_init_pointer env n p f st) (func p))
      else if PB_HTYPE t = PB_HTYPE_REPEATED then
        if wire_type = PB_WT_STRING \<and> PB_LTYPE t \<le> PB_LTYPE_LAST_PACKABLE then
          d_get (pb_make_string_substream (e_read env)) (\<lambda>sub st.
            case packed_pointer_loop env n func (get_size st) (Suc (is_bytes_left sub)) (st\<lparr>d_in := sub\<rparr>) of
              None \<Rightarrow> None
            | Some (status, too_many, st') \<Rightarrow>
                let s = (if too_many then (d_in st)\<lparr>is_errmsg := Some ''too many array entries''\<rparr> else d_in st)
                in d_close env (d_in st') status (st'\<lparr>d_in := s\<rparr>)) st
        else if get_size st = PB_SIZE_MAX then d_fail ''too many array entries'' st
        else
          let st = set_size (get_size st + 1) st in
          d_then (allocate_field env pData (f_data_size f) (get_size st) st) (\<lambda>st.
            let pItem = item_at (load_ptr (d_mem st) pData) f (get_size st - 1) in
            d_then (d_init_pointer env n pItem f st) (func pItem))
      else d_fail ''invalid field type'' st)"

text \<open>A callback of the caller, on the stream of the state.\<close>

definition d_user_decode :: "'s pb_env \<Rightarrow> int \<Rightarrow> pb_field \<Rightarrow> int \<Rightarrow> 's pb_dec \<Rightarrow> bool \<times> 's pb_dec" where
  "d_user_decode env fn f arg st =
     (case e_decode env fn (d_in st) f arg (d_mem st) of
        (ok, s, m) \<Rightarrow> (ok, st\<lparr>d_in := s, d_mem := m\<rparr>))"

text \<open>\<open>do ... while (substream.bytes_left)\<close>: the callback decides when that is, so the bound of
  the decoder bounds it.\<close>

fun callback_loop :: "('s pb_dec \<Rightarrow> bool \<times> 's pb_dec) \<Rightarrow> nat \<Rightarrow> 's pb_step" where
  "callback_loop call 0 st = None"
| "callback_loop call (Suc n) st =
     (case call st of
        (False, st) \<Rightarrow> Some (False, st)
      | (True, st) \<Rightarrow> if is_bytes_left (d_in st) \<noteq> 0 then callback_loop call n st else d_done st)"

definition decode_callback_field :: "'s pb_env \<Rightarrow> nat \<Rightarrow> pb_wire_type \<Rightarrow> 's pb_step" where
  "decode_callback_field env n wire_type st =
     (let f = d_field st; pCallback = it_pData (d_iter st); arg = pCallback + 8;
          fn = (if pCallback = 0 then 0 else load_ptr (d_mem st) pCallback)
      in if fn = 0 then
           d_get (\<lambda>s. pb_skip_field (e_read env) s wire_type) (\<lambda>_. d_done) st
         else if wire_type = PB_WT_STRING then
           d_get (pb_make_string_substream (e_read env)) (\<lambda>sub st.
             d_on_sub sub (callback_loop (d_user_decode env fn f arg) n)
               (\<lambda>ok sub st. if ok then d_close env sub True st else d_fail ''callback failed'' st) st) st
         else
           d_get (\<lambda>s. read_raw_value (e_read env) s wire_type 10) (\<lambda>buffer st.
             d_on_sub (pb_istream_from_buffer buffer (length buffer))
               (\<lambda>st. Some (d_user_decode env fn f arg st)) (\<lambda>ok sub st. Some (ok, st)) st) st)"

definition decode_field :: "'s pb_env \<Rightarrow> nat \<Rightarrow> 's pb_message_decoder \<Rightarrow> pb_wire_type \<Rightarrow> 's pb_step" where
  "decode_field env n dec wire_type st =
     d_then (if PB_HTYPE (f_type (d_field st)) = PB_HTYPE_ONEOF then pb_release_union_field env n st
             else d_done st)
       (\<lambda>st. let t = PB_ATYPE (f_type (d_field st)) in
          if t = PB_ATYPE_STATIC then decode_static_field env n dec wire_type st
          else if t = PB_ATYPE_POINTER then decode_pointer_field env n dec wire_type st
          else if t = PB_ATYPE_CALLBACK then decode_callback_field env n wire_type st
          else d_fail ''invalid field type'' st)"

section \<open>Extensions\<close>

definition default_extension_decoder :: "'s pb_env \<Rightarrow> nat \<Rightarrow> 's pb_message_decoder \<Rightarrow> int \<Rightarrow> nat \<Rightarrow>
    pb_wire_type \<Rightarrow> 's pb_step" where
  "default_extension_decoder env n dec ext tag wire_type st =
     (if f_tag (field_at (ext_fields env (d_mem st) ext) 0) \<noteq> tag then d_done st
      else
        let it = d_iter st;
            st = d_upd (\<lambda>m. store m (ext_found ext) 1 1) (st\<lparr>d_iter := iter_from_extension env (d_mem st) ext\<rparr>)
        in case decode_field env n dec wire_type st of
             None \<Rightarrow> None
           | Some (r, st) \<Rightarrow> Some (r, st\<lparr>d_iter := it\<rparr>))"

fun extension_loop :: "'s pb_env \<Rightarrow> nat \<Rightarrow> 's pb_message_decoder \<Rightarrow> nat \<Rightarrow> nat \<Rightarrow> pb_wire_type \<Rightarrow>
    nat \<Rightarrow> int \<Rightarrow> 's pb_step" where
  "extension_loop env n dec pos tag wire_type 0 ext st = None"
| "extension_loop env n dec pos tag wire_type (Suc k) ext st =
     (if ext = 0 \<or> pos \<noteq> is_bytes_left (d_in st) then d_done st
      else
        let fn = x_decode (e_ext_type env (load_ptr (d_mem st) ext)) in
        d_then
          (if fn \<noteq> 0 then
             (case e_ext_decode env fn (d_in st) ext tag wire_type (d_mem st) of
                (ok, s, m) \<Rightarrow> Some (ok, st\<lparr>d_in := s, d_mem := m\<rparr>))
           else default_extension_decoder env n dec ext tag wire_type st)
          (\<lambda>st. extension_loop env n dec pos tag wire_type k (ext_next (d_mem st) ext) st))"

definition decode_extension :: "'s pb_env \<Rightarrow> nat \<Rightarrow> 's pb_message_decoder \<Rightarrow> nat \<Rightarrow> pb_wire_type \<Rightarrow> 's pb_step" where
  "decode_extension env n dec tag wire_type st =
     extension_loop env n dec (is_bytes_left (d_in st)) tag wire_type n
       (load_ptr (d_mem st) (it_pData (d_iter st))) st"

section \<open>All fields\<close>

text \<open>The variables of \<open>pb_decode_noinit\<close> that live across its loop, beside the iterator and
  \<open>fixed_count_size\<close> of the state.\<close>

record pb_loop =
  l_fields_seen :: "u32 list"
  l_extension_range_start :: nat
  l_fixed_count_field :: "nat option"

definition PB_MAX_REQUIRED_FIELDS :: nat where "PB_MAX_REQUIRED_FIELDS = 64"

definition fixed_count_bad :: "pb_loop \<Rightarrow> 's pb_dec \<Rightarrow> bool" where
  "fixed_count_bad l st =
     (case l_fixed_count_field l of
        None \<Rightarrow> False
      | Some i \<Rightarrow> d_fixed st \<noteq> f_array_size (field_at (it_start (d_iter st)) i))"

text \<open>A tag that the table does not have: an extension may take it, or it is skipped.\<close>

definition decode_unknown :: "'s pb_env \<Rightarrow> nat \<Rightarrow> 's pb_message_decoder \<Rightarrow> nat \<Rightarrow> pb_wire_type \<Rightarrow> pb_loop \<Rightarrow>
    's pb_dec \<Rightarrow> (pb_loop \<times> bool \<times> 's pb_dec) option" where
  "decode_unknown env n dec tag wire_type l st =
     (let skip = (\<lambda>l st. map_option (Pair l)
            (d_get (\<lambda>s. pb_skip_field (e_read env) s wire_type) (\<lambda>_. d_done) st))
      in if tag \<ge> l_extension_range_start l then
           case find_extension_field (d_iter st) of
             None \<Rightarrow> None
           | Some (found, it) \<Rightarrow>
               let st = st\<lparr>d_iter := it\<rparr>;
                   l = l\<lparr>l_extension_range_start := (if found then f_tag (it_field it) else 2 ^ 32 - 1)\<rparr>
               in if tag \<ge> l_extension_range_start l then
                    let pos = is_bytes_left (d_in st) in
                    (case decode_extension env n dec tag wire_type st of
                       None \<Rightarrow> None
                     | Some (False, st) \<Rightarrow> Some (l, False, st)
                     | Some (True, st) \<Rightarrow>
                         if pos \<noteq> is_bytes_left (d_in st) then Some (l, True, st) else skip l st)
                  else skip l st
         else skip l st)"

text \<open>A tag that the table has.\<close>

definition decode_known :: "'s pb_env \<Rightarrow> nat \<Rightarrow> 's pb_message_decoder \<Rightarrow> pb_wire_type \<Rightarrow> pb_loop \<Rightarrow>
    's pb_dec \<Rightarrow> (pb_loop \<times> bool \<times> 's pb_dec) option" where
  "decode_known env n dec wire_type l st =
     (let it = d_iter st; h = PB_HTYPE (f_type (it_field it)) in
      if h = PB_HTYPE_REPEATED \<and> size_is_data it \<and> l_fixed_count_field l \<noteq> Some (it_pos it) \<and>
         fixed_count_bad l st then
        map_option (Pair l) (d_fail ''wrong size for fixed count field'' st)
      else
        let fixed = (h = PB_HTYPE_REPEATED \<and> size_is_data it);
            st = (if fixed \<and> l_fixed_count_field l \<noteq> Some (it_pos it) then st\<lparr>d_fixed := 0\<rparr> else st);
            l = (if fixed then l\<lparr>l_fixed_count_field := Some (it_pos it)\<rparr> else l);
            st = (if fixed then st\<lparr>d_iter := it\<lparr>it_fixed := True\<rparr>\<rparr> else st);
            i = it_required_field_index it;
            l = (if h = PB_HTYPE_REQUIRED \<and> i < PB_MAX_REQUIRED_FIELDS then
                   l\<lparr>l_fields_seen := (l_fields_seen l)[i div 32 :=
                       (l_fields_seen l ! (i div 32)) OR push_bit (i mod 32) 1]\<rparr>
                 else l)
        in map_option (Pair l) (decode_field env n dec wire_type st))"

fun decode_loop :: "'s pb_env \<Rightarrow> nat \<Rightarrow> 's pb_message_decoder \<Rightarrow> nat \<Rightarrow> pb_loop \<Rightarrow> 's pb_dec \<Rightarrow>
    (pb_loop \<times> bool \<times> 's pb_dec) option" where
  "decode_loop env n dec 0 l st = None"
| "decode_loop env n dec (Suc k) l st =
     (if is_bytes_left (d_in st) = 0 then Some (l, True, st)
      else
        case pb_decode_tag (e_read env) (d_in st) of
          (None, eof, s) \<Rightarrow> Some (l, eof, st\<lparr>d_in := s\<rparr>)
        | (Some (wire_type, tag), _, s) \<Rightarrow>
            let st = st\<lparr>d_in := s\<rparr> in
            (case pb_field_iter_find (d_iter st) (unat tag) of
               None \<Rightarrow> None
             | Some (found, it) \<Rightarrow>
                 let st = st\<lparr>d_iter := it\<rparr> in
                 (case (if found then decode_known env n dec wire_type l st
                        else decode_unknown env n dec (unat tag) wire_type l st) of
                    None \<Rightarrow> None
                  | Some (l, False, st) \<Rightarrow> Some (l, False, st)
                  | Some (l, True, st) \<Rightarrow> decode_loop env n dec k l st)))"

text \<open>The iterator goes on to the end of the table: the count of required fields before the
  last one, its type, and the iterator back at the first field.\<close>

fun seek_end :: "nat \<Rightarrow> pb_iter \<Rightarrow> (nat \<times> u8 \<times> pb_iter) option" where
  "seek_end 0 it = None"
| "seek_end (Suc n) it =
     (case pb_field_iter_next it of
        (False, it') \<Rightarrow> Some (it_required_field_index it, f_type (it_field it), it')
      | (True, it') \<Rightarrow> seek_end n it')"

definition required_seen :: "u32 list \<Rightarrow> nat \<Rightarrow> bool" where
  "required_seen seen req_field_count \<longleftrightarrow>
     (\<forall>i<req_field_count div 32. seen ! i = NOT 0) \<and>
     (req_field_count mod 32 \<noteq> 0 \<longrightarrow>
        seen ! (req_field_count div 32) = drop_bit (32 - req_field_count mod 32) (NOT 0))"

definition check_required :: "pb_loop \<Rightarrow> 's pb_step" where
  "check_required l st =
     (case seek_end (Suc (length (it_start (d_iter st)))) (d_iter st) of
        None \<Rightarrow> None
      | Some (cnt, last_type, it) \<Rightarrow>
          let st = st\<lparr>d_iter := it\<rparr>;
              cnt = (if PB_HTYPE last_type = PB_HTYPE_REQUIRED \<and> f_tag (it_field it) \<noteq> 0 then cnt + 1 else cnt);
              cnt = min cnt PB_MAX_REQUIRED_FIELDS
          in if required_seen (l_fields_seen l) cnt then d_done st
             else d_fail ''missing required field'' st)"

definition initial_loop :: pb_loop where
  "initial_loop = \<lparr>l_fields_seen = [0, 0], l_extension_range_start = 0, l_fixed_count_field = None\<rparr>"

text \<open>The body of \<open>pb_decode_noinit\<close>, with the decoder of nested messages as an argument; the
  iterator and the count of the caller are put back.\<close>

definition decode_fields :: "'s pb_env \<Rightarrow> nat \<Rightarrow> 's pb_message_decoder \<Rightarrow> pb_field list \<Rightarrow> int \<Rightarrow> 's pb_step" where
  "decode_fields env n dec fs dest st =
     (let it = snd (pb_field_iter_begin fs dest); back = (\<lambda>st'. st'\<lparr>d_iter := d_iter st, d_fixed := d_fixed st\<rparr>) in
      map_option (map_prod id back)
        (case decode_loop env n dec (Suc (is_bytes_left (d_in st))) initial_loop (st\<lparr>d_iter := it, d_fixed := 0\<rparr>) of
           None \<Rightarrow> None
         | Some (l, False, st) \<Rightarrow> Some (False, st)
         | Some (l, True, st) \<Rightarrow>
             if fixed_count_bad l st then d_fail ''wrong size for fixed count field'' st
             else check_required l st))"

text \<open>\<open>pb_decode\<close> (with the flag) and \<open>pb_decode_noinit\<close> (without it); the bound is that of the
  nesting of messages and of the lists in memory.\<close>

fun decode_message :: "'s pb_env \<Rightarrow> nat \<Rightarrow> bool \<Rightarrow> pb_field list \<Rightarrow> int \<Rightarrow> 's pb_step" where
  "decode_message env 0 init fs dest st = None"
| "decode_message env (Suc n) init fs dest st =
     (case (if init then pb_message_set_to_defaults env n fs dest (d_mem st) else Some (d_mem st)) of
        None \<Rightarrow> None
      | Some m \<Rightarrow>
          (case decode_fields env n (decode_message env n) fs dest (st\<lparr>d_mem := m\<rparr>) of
             None \<Rightarrow> None
           | Some (status, st) \<Rightarrow>
               if init \<and> \<not> status then
                 (case pb_release env n fs dest (d_mem st) of
                    None \<Rightarrow> None
                  | Some m \<Rightarrow> Some (False, st\<lparr>d_mem := m\<rparr>))
               else Some (status, st)))"

text \<open>The entry points: the stream and the memory go in, the result, stream and memory come
  out.\<close>

definition run_decode :: "'s pb_step \<Rightarrow> 's pb_istream \<Rightarrow> pb_mem \<Rightarrow>
    (bool \<times> 's pb_istream \<times> pb_mem) option" where
  "run_decode f s m =
     map_option (\<lambda>(r, st). (r, d_in st, d_mem st))
       (f \<lparr>d_in = s, d_mem = m, d_iter = snd (pb_field_iter_begin [] 0), d_fixed = 0\<rparr>)"

definition pb_decode_noinit :: "'s pb_env \<Rightarrow> nat \<Rightarrow> pb_field list \<Rightarrow> int \<Rightarrow> 's pb_istream \<Rightarrow> pb_mem \<Rightarrow>
    (bool \<times> 's pb_istream \<times> pb_mem) option" where
  "pb_decode_noinit env n fs dest = run_decode (decode_message env n False fs dest)"

definition pb_decode :: "'s pb_env \<Rightarrow> nat \<Rightarrow> pb_field list \<Rightarrow> int \<Rightarrow> 's pb_istream \<Rightarrow> pb_mem \<Rightarrow>
    (bool \<times> 's pb_istream \<times> pb_mem) option" where
  "pb_decode env n fs dest = run_decode (decode_message env n True fs dest)"

definition decode_delimited :: "'s pb_env \<Rightarrow> nat \<Rightarrow> bool \<Rightarrow> pb_field list \<Rightarrow> int \<Rightarrow> 's pb_step" where
  "decode_delimited env n init fs dest =
     d_get (pb_make_string_substream (e_read env)) (\<lambda>sub.
       d_on_sub sub (decode_message env n init fs dest) (\<lambda>status sub. d_close env sub status))"

definition pb_decode_delimited_noinit :: "'s pb_env \<Rightarrow> nat \<Rightarrow> pb_field list \<Rightarrow> int \<Rightarrow> 's pb_istream \<Rightarrow> pb_mem \<Rightarrow>
    (bool \<times> 's pb_istream \<times> pb_mem) option" where
  "pb_decode_delimited_noinit env n fs dest = run_decode (decode_delimited env n False fs dest)"

definition pb_decode_delimited :: "'s pb_env \<Rightarrow> nat \<Rightarrow> pb_field list \<Rightarrow> int \<Rightarrow> 's pb_istream \<Rightarrow> pb_mem \<Rightarrow>
    (bool \<times> 's pb_istream \<times> pb_mem) option" where
  "pb_decode_delimited env n fs dest = run_decode (decode_delimited env n True fs dest)"

definition pb_decode_nullterminated :: "'s pb_env \<Rightarrow> nat \<Rightarrow> pb_field list \<Rightarrow> int \<Rightarrow> 's pb_istream \<Rightarrow> pb_mem \<Rightarrow>
    (bool \<times> 's pb_istream \<times> pb_mem) option" where
  "pb_decode_nullterminated = pb_decode"

end
