(* ===== verification/PbBounds.thy ===== *)
theory PbBounds
  imports PbDecode PbWire
begin

text \<open>
  Two facts the safety of the message decoder rests on. The iterator goes round the fields of a
  table at fixed offsets, and every search of it ends; and no reader puts bytes back into its
  stream, the ones that return a value take at least one, whatever the callback of the stream
  does within its contract.
\<close>

section \<open>The fields of a table\<close>

fun iters_from :: "nat \<Rightarrow> pb_iter \<Rightarrow> pb_iter list" where
  "iters_from 0 it = []"
| "iters_from (Suc n) it =
     it # (case pb_field_iter_next it of (False, _) \<Rightarrow> [] | (True, it) \<Rightarrow> iters_from n it)"

text \<open>The positions of the iterator, one for each field before the terminator, or the
  terminator of an empty table.\<close>

definition table_iters :: "pb_field list \<Rightarrow> int \<Rightarrow> pb_iter list" where
  "table_iters fs dest = iters_from (Suc (length fs)) (snd (pb_field_iter_begin fs dest))"

lemma field_at_beyond: "length fs \<le> i \<Longrightarrow> f_tag (field_at fs i) = 0"
  by (simp add: field_at_def PB_LAST_FIELD_def)

lemma iter_begin_simps [simp]:
  "it_start (snd (pb_field_iter_begin fs dest)) = fs"
  "it_pos (snd (pb_field_iter_begin fs dest)) = 0"
  "it_dest_struct (snd (pb_field_iter_begin fs dest)) = dest"
  "it_fixed (snd (pb_field_iter_begin fs dest)) = False"
  by (simp_all add: pb_field_iter_begin_def Let_def)

lemma iter_begin_fst: "fst (pb_field_iter_begin fs dest) \<longleftrightarrow> f_tag (field_at fs 0) \<noteq> 0"
  by (simp add: pb_field_iter_begin_def Let_def)

lemma iter_next_True:
  assumes "pb_field_iter_next it = (True, it')"
  shows "it_start it' = it_start it" "it_dest_struct it' = it_dest_struct it"
    "it_pos it' = Suc (it_pos it)" "it_pos it' < length (it_start it)" "f_tag (it_field it') \<noteq> 0"
proof -
  have "f_tag (field_at (it_start it) (Suc (it_pos it))) \<noteq> 0"
    using assms by (auto simp: pb_field_iter_next_def Let_def it_field_def split: if_splits)
  then have lt: "Suc (it_pos it) < length (it_start it)"
    using field_at_beyond by (meson not_less)
  have "it_pos it' = Suc (it_pos it)"
    using assms by (auto simp: pb_field_iter_next_def Let_def it_field_def split: if_splits)
  with lt show "it_pos it' < length (it_start it)" by simp
qed (use assms in \<open>auto simp: pb_field_iter_next_def Let_def it_field_def split: if_splits\<close>)

lemma iter_next_False:
  "pb_field_iter_next it = (False, it') \<Longrightarrow> f_tag (it_field it) \<noteq> 0 \<Longrightarrow>
     it' = snd (pb_field_iter_begin (it_start it) (it_dest_struct it))"
  by (auto simp: pb_field_iter_next_def Let_def it_field_def split: if_splits)

lemma iter_next_empty: "f_tag (it_field it) = 0 \<Longrightarrow> pb_field_iter_next it = (False, it)"
  by (simp add: pb_field_iter_next_def Let_def)

lemma iters_from_step:
  assumes "it_start it = fs" and "it_dest_struct it = dest" and "it_pos it + n = Suc (length fs)"
    and "i < length (iters_from n it)"
  shows "it_start (iters_from n it ! i) = fs \<and> it_dest_struct (iters_from n it ! i) = dest \<and>
     it_pos (iters_from n it ! i) = it_pos it + i \<and>
     (if Suc i < length (iters_from n it)
      then pb_field_iter_next (iters_from n it ! i) = (True, iters_from n it ! Suc i)
      else \<exists>it'. pb_field_iter_next (iters_from n it ! i) = (False, it'))"
  using assms
proof (induction n arbitrary: it i)
  case 0
  then show ?case by simp
next
  case (Suc n)
  show ?case
  proof (cases "pb_field_iter_next it")
    case (Pair b it')
    show ?thesis
    proof (cases b)
      case False
      then show ?thesis using Suc.prems Pair by simp
    next
      case True
      then have "pb_field_iter_next it = (True, it')" using Pair by simp
      note nx = iter_next_True [OF this]
      have n: "n \<noteq> 0" using nx(3,4) Suc.prems(1,3) by auto
      then have ne: "iters_from n it' \<noteq> []" by (cases n) simp_all
      show ?thesis
      proof (cases i)
        case 0
        then show ?thesis using Suc.prems Pair True ne n by (cases n) auto
      next
        case (Suc j)
        have "j < length (iters_from n it')" using Suc.prems(4) Suc Pair True by simp
        then show ?thesis using Suc.IH [of it' j] nx Suc.prems(1,2,3) Pair True Suc by simp
      qed
    qed
  qed
qed

lemma length_iters_from: "length (iters_from n it) \<le> n"
  by (induction n arbitrary: it) (auto split: prod.split bool.split)

lemma table_iters_step:
  assumes "i < length (table_iters fs dest)"
  shows "it_start (table_iters fs dest ! i) = fs" "it_dest_struct (table_iters fs dest ! i) = dest"
    "it_pos (table_iters fs dest ! i) = i"
    "Suc i < length (table_iters fs dest) \<Longrightarrow>
       pb_field_iter_next (table_iters fs dest ! i) = (True, table_iters fs dest ! Suc i)"
    "Suc i = length (table_iters fs dest) \<Longrightarrow> \<exists>it'. pb_field_iter_next (table_iters fs dest ! i) = (False, it')"
  using iters_from_step [of "snd (pb_field_iter_begin fs dest)" fs dest "Suc (length fs)" i] assms
  by (auto simp: table_iters_def)

lemma table_iters_0: "table_iters fs dest ! 0 = snd (pb_field_iter_begin fs dest)"
  by (simp add: table_iters_def)

lemma table_iters_nonempty: "0 < length (table_iters fs dest)"
  by (simp add: table_iters_def)

lemma table_iters_tag:
  "i < length (table_iters fs dest) \<Longrightarrow> f_tag (field_at fs 0) \<noteq> 0 \<Longrightarrow>
     f_tag (it_field (table_iters fs dest ! i)) \<noteq> 0"
proof (cases i)
  case 0
  assume "f_tag (field_at fs 0) \<noteq> 0"
  then show ?thesis using 0 by (simp add: table_iters_0 it_field_def)
next
  case (Suc j)
  assume "i < length (table_iters fs dest)"
  then show ?thesis using table_iters_step(4) [of j fs dest] Suc iter_next_True(5) by fastforce
qed

lemma table_iters_bound:
  "length (table_iters fs dest) \<le> Suc (length fs)"
  unfolding table_iters_def by (rule length_iters_from)

text \<open>The step goes round.\<close>

lemma table_iters_next:
  assumes "i < length (table_iters fs dest)"
  shows "snd (pb_field_iter_next (table_iters fs dest ! i)) =
     table_iters fs dest ! (if Suc i < length (table_iters fs dest) then Suc i else 0)"
proof (cases "Suc i < length (table_iters fs dest)")
  case True
  then show ?thesis using table_iters_step(4) [OF assms] by simp
next
  case False
  then have last: "Suc i = length (table_iters fs dest)" using assms by simp
  obtain it' where n: "pb_field_iter_next (table_iters fs dest ! i) = (False, it')"
    using table_iters_step(5) [OF assms last] by blast
  show ?thesis
  proof (cases "f_tag (field_at fs 0) = 0")
    case True
    have e: "f_tag (it_field (table_iters fs dest ! 0)) = 0"
      using True by (simp add: table_iters_0 it_field_def)
    have "i = 0"
    proof (rule ccontr)
      assume "i \<noteq> 0"
      then have "pb_field_iter_next (table_iters fs dest ! 0) = (True, table_iters fs dest ! Suc 0)"
        using assms by (intro table_iters_step(4)) (simp_all add: table_iters_nonempty del: length_greater_0_conv)
      then show False using iter_next_empty [OF e] by simp
    qed
    then show ?thesis using iter_next_empty [OF e] last by simp
  next
    case False
    then show ?thesis
      using iter_next_False [OF n table_iters_tag [OF assms]] n last table_iters_step(1,2) [OF assms]
      by (simp add: table_iters_0)
  qed
qed

text \<open>The iterators the decoder reaches: the positions, also with \<open>pSize\<close> pointed at the count of
  a repeated field.\<close>

definition valid_iter :: "pb_field list \<Rightarrow> int \<Rightarrow> pb_iter \<Rightarrow> bool" where
  "valid_iter fs dest it \<longleftrightarrow>
     it\<lparr>it_fixed := False\<rparr> \<in> set (table_iters fs dest) \<and>
     (it_fixed it \<longrightarrow> f_tag (it_field it) \<noteq> 0 \<and> PB_HTYPE (f_type (it_field it)) = PB_HTYPE_REPEATED)"

lemma it_field_fixed [simp]: "it_field (it\<lparr>it_fixed := b\<rparr>) = it_field it"
  by (simp add: it_field_def)

lemma iter_next_fixed:
  "it_fixed it \<longrightarrow> f_tag (it_field it) \<noteq> 0 \<and> PB_HTYPE (f_type (it_field it)) = PB_HTYPE_REPEATED \<Longrightarrow>
     pb_field_iter_next it = pb_field_iter_next (it\<lparr>it_fixed := False\<rparr>)"
  by (cases "it_fixed it")
    (auto simp: pb_field_iter_next_def Let_def it_field_def pb_htypes)

lemma it_fixed_False: "\<not> it_fixed it \<Longrightarrow> it\<lparr>it_fixed := False\<rparr> = it"
  by (cases it) simp

lemma iter_next_keeps_fixed:
  "pb_field_iter_next it = (True, it') \<Longrightarrow> \<not> it_fixed it \<Longrightarrow> \<not> it_fixed it'"
  by (auto simp: pb_field_iter_next_def Let_def split: if_splits)

lemma table_iters_fixed [simp]:
  "i < length (table_iters fs dest) \<Longrightarrow> it_fixed (table_iters fs dest ! i) = False"
proof (induction i)
  case 0
  then show ?case by (simp add: table_iters_0)
next
  case (Suc i)
  then have "pb_field_iter_next (table_iters fs dest ! i) = (True, table_iters fs dest ! Suc i)"
    by (intro table_iters_step(4)) simp_all
  then show ?case using Suc iter_next_keeps_fixed by simp
qed

lemma valid_iter_nth: "i < length (table_iters fs dest) \<Longrightarrow> valid_iter fs dest (table_iters fs dest ! i)"
proof -
  assume "i < length (table_iters fs dest)"
  then show ?thesis by (simp add: valid_iter_def it_fixed_False)
qed

lemma valid_iter_begin: "valid_iter fs dest (snd (pb_field_iter_begin fs dest))"
  using valid_iter_nth [of 0 fs dest] table_iters_nonempty [of fs dest]
  by (simp add: table_iters_0)

lemma valid_iterE:
  assumes "valid_iter fs dest it"
  obtains k where "k < length (table_iters fs dest)" "it\<lparr>it_fixed := False\<rparr> = table_iters fs dest ! k"
    "it_pos it = k" "it_start it = fs"
    "snd (pb_field_iter_next it) =
       table_iters fs dest ! (if Suc k < length (table_iters fs dest) then Suc k else 0)"
proof -
  obtain k where k: "k < length (table_iters fs dest)" "it\<lparr>it_fixed := False\<rparr> = table_iters fs dest ! k"
    using assms by (auto simp: valid_iter_def in_set_conv_nth)
  moreover have "it_pos it = k" "it_start it = fs"
    using table_iters_step(1,3) [OF k(1)] arg_cong [OF k(2), of it_pos] arg_cong [OF k(2), of it_start]
    by simp_all
  moreover have "snd (pb_field_iter_next it) =
      table_iters fs dest ! (if Suc k < length (table_iters fs dest) then Suc k else 0)"
    using iter_next_fixed [of it] assms table_iters_next [OF k(1)] k(2) by (simp add: valid_iter_def)
  ultimately show ?thesis using that by blast
qed

lemma iter_search_valid:
  assumes "valid_iter fs dest it" and "s < length (table_iters fs dest)"
    and "(if it_pos it < s then s - it_pos it else length (table_iters fs dest) - it_pos it + s) \<le> n"
  shows "\<exists>r it'. iter_search n found s it = Some (r, it') \<and> valid_iter fs dest it' \<and>
     (r \<longrightarrow> found (it_field it'))"
  using assms
proof (induction n arbitrary: it)
  case 0
  then show ?case using valid_iterE [OF 0(1)] by (auto split: if_splits)
next
  case (Suc n)
  let ?L = "table_iters fs dest"
  obtain k where k: "k < length ?L" "it_pos it = k"
    "snd (pb_field_iter_next it) = ?L ! (if Suc k < length ?L then Suc k else 0)"
    using valid_iterE [OF Suc.prems(1)] by metis
  define k' where "k' = (if Suc k < length ?L then Suc k else 0)"
  have k': "k' < length ?L" using k(1) by (simp add: k'_def del: length_greater_0_conv)
  have nx: "snd (pb_field_iter_next it) = ?L ! k'" using k(3) by (simp add: k'_def)
  show ?case
  proof (cases "found (it_field it) \<or> k' = s")
    case True
    then show ?thesis using Suc.prems(1) nx valid_iter_nth [OF k'] table_iters_step(3) [OF k']
      by auto
  next
    case False
    have "(if k' < s then s - k' else length ?L - k' + s) \<le> n"
      using Suc.prems(2,3) k(1,2) False by (auto simp: k'_def split: if_splits)
    then have "\<exists>r it'. iter_search n found s (?L ! k') = Some (r, it') \<and> valid_iter fs dest it' \<and>
        (r \<longrightarrow> found (it_field it'))"
      using Suc.IH [OF valid_iter_nth [OF k'] Suc.prems(2)] by (simp only: table_iters_step(3) [OF k'])
    then show ?thesis using False nx table_iters_step(3) [OF k'] by simp
  qed
qed

lemma iter_search_round:
  assumes "valid_iter fs dest it"
  shows "\<exists>r it'. iter_search (Suc (length (it_start it))) found (it_pos it) it = Some (r, it') \<and>
     valid_iter fs dest it' \<and> (r \<longrightarrow> found (it_field it'))"
proof -
  obtain k where k: "k < length (table_iters fs dest)" "it_pos it = k" "it_start it = fs"
    using valid_iterE [OF assms] by metis
  then show ?thesis
    using iter_search_valid [OF assms, of k "Suc (length fs)" found] table_iters_bound [of fs dest] by simp
qed

lemma iter_each_total:
  assumes "\<And>i x. i < length (table_iters fs dest) \<Longrightarrow> P x \<Longrightarrow> \<exists>y. g (table_iters fs dest ! i) x = Some y \<and> P y"
    and "P x"
  shows "\<exists>y. iter_each (Suc (length fs)) g (snd (pb_field_iter_begin fs dest)) x = Some y \<and> P y"
proof -
  let ?L = "table_iters fs dest"
  have "\<exists>y. iter_each n g (?L ! k) x = Some y \<and> P y"
    if "k < length ?L" "P x" "length ?L - k \<le> n" for n k x
    using that
  proof (induction n arbitrary: k x)
    case 0
    then show ?case by simp
  next
    case (Suc n)
    obtain y where y: "g (?L ! k) x = Some y" "P y" using assms(1) [OF Suc.prems(1,2)] by blast
    show ?case
    proof (cases "Suc k < length ?L")
      case True
      then show ?thesis using Suc.IH [of "Suc k" y] Suc.prems(3) y table_iters_step(4) [OF Suc.prems(1)]
        by simp
    next
      case False
      then show ?thesis using Suc.prems(1) y table_iters_step(5) [OF Suc.prems(1)] by auto
    qed
  qed
  from this [of 0 x "Suc (length fs)"] show ?thesis
    using assms(2) table_iters_nonempty [of fs dest] table_iters_bound [of fs dest]
    by (simp add: table_iters_0)
qed

lemma seek_end_valid:
  assumes "valid_iter fs dest it"
  shows "\<exists>c t it'. seek_end (Suc (length (it_start it))) it = Some (c, t, it') \<and> valid_iter fs dest it'"
proof -
  let ?L = "table_iters fs dest"
  have main: "\<exists>c t it'. seek_end n it = Some (c, t, it') \<and> valid_iter fs dest it'"
    if "valid_iter fs dest it" "length ?L - it_pos it \<le> n" for n it
    using that
  proof (induction n arbitrary: it)
    case 0
    then show ?case using valid_iterE [OF 0(1)] by (metis diff_is_0_eq le_zero_eq not_le)
  next
    case (Suc n)
    obtain k where k: "k < length ?L" "it_pos it = k"
      "snd (pb_field_iter_next it) = ?L ! (if Suc k < length ?L then Suc k else 0)"
      using valid_iterE [OF Suc.prems(1)] by metis
    have k': "(if Suc k < length ?L then Suc k else 0) < length ?L"
      using k(1) by (simp del: length_greater_0_conv)
    show ?case
    proof (cases "pb_field_iter_next it")
      case (Pair b it')
      have v: "valid_iter fs dest it'" using Pair k(3) valid_iter_nth [OF k'] by simp
      show ?thesis
      proof (cases b)
        case False
        then show ?thesis using Pair v by simp
      next
        case True
        then have "it_pos it' = Suc k" using Pair iter_next_True(3) [of it it'] k(2) by simp
        then show ?thesis using Suc.IH [OF v] Suc.prems(2) Pair True k(2) by simp
      qed
    qed
  qed
  obtain k where "it_pos it = k" "it_start it = fs" using valid_iterE [OF assms] by metis
  then show ?thesis using main [OF assms, of "Suc (length fs)"] table_iters_bound [of fs dest] by simp
qed

text \<open>A search that fails has looked at every field.\<close>

lemma iter_search_back: "iter_search n found s it = Some (False, it') \<Longrightarrow> it_pos it' = s"
  by (induction n arbitrary: it) (auto simp: Let_def split: if_splits)

lemma iter_search_False:
  assumes "iter_search n found s it = Some (False, it')" and "valid_iter fs dest it"
    and "s < length (table_iters fs dest)" and "j < length (table_iters fs dest)"
    and "if it_pos it < s then it_pos it \<le> j \<and> j < s else it_pos it \<le> j \<or> j < s"
  shows "\<not> found (it_field (table_iters fs dest ! j))"
  using assms
proof (induction n arbitrary: it)
  case 0
  then show ?case by simp
next
  case (Suc n)
  let ?L = "table_iters fs dest"
  obtain k where k: "k < length ?L" "it\<lparr>it_fixed := False\<rparr> = ?L ! k" "it_pos it = k"
    "snd (pb_field_iter_next it) = ?L ! (if Suc k < length ?L then Suc k else 0)"
    using valid_iterE [OF Suc.prems(2)] by metis
  define k' where "k' = (if Suc k < length ?L then Suc k else 0)"
  have k': "k' < length ?L" using k(1) by (simp add: k'_def del: length_greater_0_conv)
  have nx: "snd (pb_field_iter_next it) = ?L ! k'" "it_pos (?L ! k') = k'"
    using k(4) table_iters_step(3) [OF k'] by (simp_all add: k'_def)
  have nf: "\<not> found (it_field it)" using Suc.prems(1) by (auto split: if_splits)
  then have nk: "\<not> found (it_field (?L ! k))" using k(2) by (metis it_field_fixed)
  show ?case
  proof (cases "k' = s")
    case True
    then have "j = k" using Suc.prems(3-5) k(1,3) by (auto simp: k'_def split: if_splits)
    then show ?thesis using nk by simp
  next
    case False
    then have e: "iter_search n found s (?L ! k') = Some (False, it')" using Suc.prems(1) nf nx by simp
    show ?thesis
    proof (cases "j = k")
      case True
      then show ?thesis using nk by simp
    next
      case False
      then have "if k' < s then k' \<le> j \<and> j < s else k' \<le> j \<or> j < s"
        using Suc.prems(3-5) k(1,3) \<open>k' \<noteq> s\<close> by (auto simp: k'_def split: if_splits)
      then show ?thesis using Suc.IH [OF e valid_iter_nth [OF k'] Suc.prems(3,4)] nx(2) by simp
    qed
  qed
qed
text \<open>C15: on a table of any kind, \<open>pb_field_iter_find\<close> returns from wherever the iterator stands
  after any number of steps and searches: it finds the tag exactly when a field of the table
  has it, extension fields apart (the terminator of an empty table counts, with tag 0), and leaves the iterator on that field with the very
  pointers a walk from the first field computes; on a failed search it is back where it was.\<close>

theorem pb_field_iter_find_correct:
  assumes "valid_iter fs dest it"
  shows "\<exists>r it'. pb_field_iter_find it tag = Some (r, it') \<and> valid_iter fs dest it' \<and>
     (r \<longleftrightarrow> (\<exists>i\<in>set (table_iters fs dest). f_tag (it_field i) = tag \<and>
        PB_LTYPE (f_type (it_field i)) \<noteq> PB_LTYPE_EXTENSION)) \<and>
     (r \<longrightarrow> f_tag (it_field it') = tag) \<and> (\<not> r \<longrightarrow> it_pos it' = it_pos it)"
proof -
  let ?found = "\<lambda>f. f_tag f = tag \<and> PB_LTYPE (f_type f) \<noteq> PB_LTYPE_EXTENSION"
  obtain r it' where it': "iter_search (Suc (length (it_start it))) ?found (it_pos it) it = Some (r, it')"
    "valid_iter fs dest it'" "r \<longrightarrow> ?found (it_field it')"
    using iter_search_round [OF assms] by blast
  obtain k where k: "k < length (table_iters fs dest)" "it_pos it = k" using valid_iterE [OF assms] by metis
  have "\<not> ?found (it_field i)" if "\<not> r" "i \<in> set (table_iters fs dest)" for i
  proof -
    obtain j where j: "j < length (table_iters fs dest)" "i = table_iters fs dest ! j"
      using \<open>i \<in> _\<close> by (auto simp: in_set_conv_nth)
    have "iter_search (Suc (length (it_start it))) ?found (it_pos it) it = Some (False, it')"
      using it'(1) \<open>\<not> r\<close> by simp
    from iter_search_False [OF this assms _ j(1)] show ?thesis using k j(2) le_less_linear [of "it_pos it" j] by auto
  qed
  moreover have "it'\<lparr>it_fixed := False\<rparr> \<in> set (table_iters fs dest)" using it'(2) by (simp add: valid_iter_def)
  then have "\<exists>i\<in>set (table_iters fs dest). ?found (it_field i)" if r
    using that it'(3) it_field_fixed by metis
  moreover have "it_pos it' = it_pos it" if "\<not> r"
    using that it'(1) by (auto simp del: iter_search.simps dest: iter_search_back)
  ultimately show ?thesis using it' unfolding pb_field_iter_find_def by blast
qed

theorem pb_field_iter_find_correct_witness:
  "\<exists>r it'. pb_field_iter_find (snd (pb_field_iter_begin [PB_LAST_FIELD\<lparr>f_tag := 7\<rparr>] 0)) 7 = Some (r, it') \<and> r"
proof -
  let ?fs = "[PB_LAST_FIELD\<lparr>f_tag := 7\<rparr>]"
  have "snd (pb_field_iter_begin ?fs 0) \<in> set (table_iters ?fs 0)"
    using table_iters_nonempty [of ?fs 0] by (metis nth_mem table_iters_0)
  moreover have "f_tag (it_field (snd (pb_field_iter_begin ?fs 0))) = 7 \<and>
      PB_LTYPE (f_type (it_field (snd (pb_field_iter_begin ?fs 0)))) \<noteq> PB_LTYPE_EXTENSION"
    by (simp add: it_field_def field_at_def PB_LAST_FIELD_def PB_LTYPE_def pb_ltypes)
  ultimately have found: "\<exists>i\<in>set (table_iters ?fs 0). f_tag (it_field i) = 7 \<and>
      PB_LTYPE (f_type (it_field i)) \<noteq> PB_LTYPE_EXTENSION"
    by (rule bexI [rotated])
  obtain r it' where "pb_field_iter_find (snd (pb_field_iter_begin ?fs 0)) 7 = Some (r, it')"
    "r \<longleftrightarrow> (\<exists>i\<in>set (table_iters ?fs 0). f_tag (it_field i) = 7 \<and>
      PB_LTYPE (f_type (it_field i)) \<noteq> PB_LTYPE_EXTENSION)"
    using pb_field_iter_find_correct [OF valid_iter_begin [of ?fs 0], of 7] by (elim exE conjE) (rule that)
  then show ?thesis using found by (intro exI conjI) simp_all
qed

section \<open>Tables anywhere in memory\<close>

definition shift_iter :: "int \<Rightarrow> pb_iter \<Rightarrow> pb_iter" where
  "shift_iter k it = it\<lparr>it_dest_struct := it_dest_struct it + k, it_pData := it_pData it + k,
     it_pSize := it_pSize it + k\<rparr>"

lemma shift_iter_sel [simp]:
  "it_start (shift_iter k it) = it_start it" "it_pos (shift_iter k it) = it_pos it"
  "it_field (shift_iter k it) = it_field it" "it_pData (shift_iter k it) = it_pData it + k"
  "it_pSize (shift_iter k it) = it_pSize it + k" "it_dest_struct (shift_iter k it) = it_dest_struct it + k"
  by (simp_all add: shift_iter_def it_field_def)

lemma shift_iter_begin:
  "pb_field_iter_begin fs (dest + k) = map_prod id (shift_iter k) (pb_field_iter_begin fs dest)"
  by (simp add: pb_field_iter_begin_def Let_def shift_iter_def)

lemma shift_iter_next:
  "pb_field_iter_next (shift_iter k it) = map_prod id (shift_iter k) (pb_field_iter_next it)"
proof -
  have "shift_iter k it\<lparr>it_pos := i\<rparr> = shift_iter k (it\<lparr>it_pos := i\<rparr>)" for i
    by (simp add: shift_iter_def)
  then show ?thesis
    unfolding pb_field_iter_next_def Let_def
    by (simp add: shift_iter_begin) (simp add: shift_iter_def)
qed

lemma shift_iters_from: "iters_from n (shift_iter k it) = map (shift_iter k) (iters_from n it)"
  by (induction n arbitrary: it) (auto simp: shift_iter_next split: prod.split bool.split)

lemma shift_table_iters: "table_iters fs dest = map (shift_iter dest) (table_iters fs 0)"
  using shift_iter_begin [of fs 0 dest] by (simp add: table_iters_def shift_iters_from)

section \<open>Frames and streams that only shrink\<close>

text \<open>Nothing outside the region from \<open>lo\<close> to \<open>hi\<close> has changed.\<close>

definition frame :: "int \<Rightarrow> int \<Rightarrow> pb_mem \<Rightarrow> pb_mem \<Rightarrow> bool" where
  "frame lo hi m m' \<longleftrightarrow> (\<forall>a. a < lo \<or> hi \<le> a \<longrightarrow> m' a = m a)"

named_theorems frame_intros \<open>changes of memory inside a region\<close>

lemma frame_refl [simp, frame_intros]: "frame lo hi m m"
  by (simp add: frame_def)

lemma frame_trans: "frame lo hi m m' \<Longrightarrow> frame lo hi m' m'' \<Longrightarrow> frame lo hi m m''"
  by (simp add: frame_def)

lemma frame_mono: "frame a b m m' \<Longrightarrow> lo \<le> a \<Longrightarrow> b \<le> hi \<Longrightarrow> frame lo hi m m'"
  by (auto simp: frame_def)

lemma frame_write [frame_intros]:
  "lo \<le> p \<Longrightarrow> p + int (length bs) \<le> hi \<Longrightarrow> frame lo hi m (mem_write m p bs)"
  by (auto simp: frame_def mem_write_def)

lemma length_le_bytes [simp]: "length (le_bytes n v) = n"
  by (simp add: le_bytes_def)

lemma frame_store [frame_intros]:
  "lo \<le> p \<Longrightarrow> p + int n \<le> hi \<Longrightarrow> frame lo hi m (store m p n v)"
  by (simp add: store_def frame_write)

text \<open>A callback that delivers no more than it was asked for, as its contract says.\<close>

definition reader_ok :: "'s pb_reader \<Rightarrow> bool" where
  "reader_ok cb \<longleftrightarrow> (\<forall>u n bs u'. cb u n = Delivered bs u' \<longrightarrow> length bs \<le> n)"

definition shrinks :: "('s pb_istream \<Rightarrow> 'a option \<times> 's pb_istream) \<Rightarrow> bool" where
  "shrinks f \<longleftrightarrow> (\<forall>s. is_bytes_left (snd (f s)) \<le> is_bytes_left s)"

definition consumes :: "('s pb_istream \<Rightarrow> 'a option \<times> 's pb_istream) \<Rightarrow> bool" where
  "consumes f \<longleftrightarrow> shrinks f \<and> (\<forall>s v s'. f s = (Some v, s') \<longrightarrow> is_bytes_left s' < is_bytes_left s)"

lemma is_fail_bytes_left [simp]: "is_bytes_left (snd (is_fail msg s)) = is_bytes_left s"
  by (simp add: is_fail_def)

lemma consumes_shrinks: "consumes f \<Longrightarrow> shrinks f"
  by (simp add: consumes_def)

lemma shrinks_bind:
  "shrinks f \<Longrightarrow> (\<And>v. shrinks (g v)) \<Longrightarrow> shrinks (pb_bind f g)"
  unfolding shrinks_def pb_bind_def
  by (auto split: prod.split option.split) (metis le_trans snd_conv)+

lemma consumes_bind:
  assumes "consumes f" and "\<And>v. shrinks (g v)"
  shows "consumes (pb_bind f g)"
  unfolding consumes_def
proof (intro conjI allI impI)
  show "shrinks (pb_bind f g)" using assms(2) by (intro shrinks_bind consumes_shrinks [OF assms(1)])
next
  fix s v s'
  assume "pb_bind f g s = (Some v, s')"
  then obtain w t where f: "f s = (Some w, t)" and g: "g w t = (Some v, s')"
    by (auto simp: pb_bind_def split: prod.splits option.splits)
  have "is_bytes_left s' \<le> is_bytes_left t" using assms(2) [of w] g unfolding shrinks_def by (metis snd_conv)
  moreover have "is_bytes_left t < is_bytes_left s" using assms(1) f by (simp add: consumes_def)
  ultimately show "is_bytes_left s' < is_bytes_left s" by simp
qed

lemma shrinks_return [simp]: "shrinks (\<lambda>s. (r, s))"
  by (simp add: shrinks_def)

lemma shrinks_fail [simp]: "shrinks (is_fail msg)"
  by (simp add: shrinks_def)

lemma shrinks_if: "shrinks f \<Longrightarrow> shrinks g \<Longrightarrow> shrinks (\<lambda>s. if b then f s else g s)"
  by (cases b) simp_all

lemma is_callback_None_bytes_left:
  "is_callback cb s n = (None, s') \<Longrightarrow> is_bytes_left s' \<le> is_bytes_left s"
  by (auto simp: is_callback_def buf_read_def split: pb_source.splits pb_delivery.splits if_splits)

lemma is_callback_shrinks: "is_callback cb s n = (r, s') \<Longrightarrow> is_bytes_left s' \<le> is_bytes_left s"
  by (cases r) (auto dest: is_callback_None_bytes_left is_callback_bytes_left)

lemma consumes_readbyte: "consumes (pb_readbyte cb)"
  unfolding consumes_def shrinks_def
proof (intro conjI allI impI)
  fix s
  show "is_bytes_left (snd (pb_readbyte cb s)) \<le> is_bytes_left s"
    using is_callback_shrinks [of cb s 1]
    by (auto simp: pb_readbyte_def split: prod.split option.split)
next
  fix s v s'
  assume "pb_readbyte cb s = (Some v, s')"
  then show "is_bytes_left s' < is_bytes_left s" by (drule_tac pb_readbyte_bytes_left) simp
qed

lemma shrinks_read_into: "shrinks (\<lambda>s. pb_read_into cb s n)"
  unfolding shrinks_def
proof
  fix s
  show "is_bytes_left (snd (pb_read_into cb s n)) \<le> is_bytes_left s"
    using is_callback_shrinks [of cb s n]
    by (auto simp: pb_read_into_def split: prod.split option.split)
qed

lemma consumes_read_into: "0 < n \<Longrightarrow> consumes (\<lambda>s. pb_read_into cb s n)"
  using shrinks_read_into [of cb n] unfolding consumes_def by (auto dest: pb_read_into_bytes_left)

lemma shrinks_read_skip: "shrinks (\<lambda>s. pb_read_skip cb s n)"
proof (induction n rule: less_induct)
  case (less n)
  show ?case
  proof (cases "16 < n")
    case True
    then have "(\<lambda>s. pb_read_skip cb s n) =
        pb_bind (\<lambda>s. pb_read_into cb s 16) (\<lambda>_ s. pb_read_skip cb s (n - 16))"
      by (intro ext, subst pb_read_skip.simps) (simp add: pb_bind_def)
    then show ?thesis using True less.IH [of "n - 16"]
      by (simp add: shrinks_bind shrinks_read_into)
  next
    case False
    then have "(\<lambda>s. pb_read_skip cb s n) = (\<lambda>s. pb_read_into cb s n)"
      by (intro ext, subst pb_read_skip.simps) simp
    then show ?thesis by (simp add: shrinks_read_into)
  qed
qed

lemma shrinks_read: "shrinks (\<lambda>s. pb_read cb s is_null n)"
  using shrinks_read_into [of cb n] shrinks_read_skip [of cb n]
  by (simp add: pb_read_def shrinks_def)

lemma consumes_fail [simp]: "consumes (is_fail msg)"
  by (simp add: consumes_def is_fail_def)

lemma consumes_if: "consumes f \<Longrightarrow> consumes g \<Longrightarrow> consumes (\<lambda>s. if b then f s else g s)"
  by (cases b) simp_all

text \<open>Loops, as in theory PbWire: by induction on the bytes left.\<close>

definition shrinks_on :: "nat \<Rightarrow> ('s pb_istream \<Rightarrow> 'a option \<times> 's pb_istream) \<Rightarrow> bool" where
  "shrinks_on n f \<longleftrightarrow> (\<forall>s. is_bytes_left s \<le> n \<longrightarrow> is_bytes_left (snd (f s)) \<le> is_bytes_left s)"

lemma shrinks_on_all: "(\<And>n. shrinks_on n f) \<Longrightarrow> shrinks f"
  by (auto simp: shrinks_on_def shrinks_def)

lemma shrinks_onI: "shrinks f \<Longrightarrow> shrinks_on n f"
  by (auto simp: shrinks_on_def shrinks_def)

lemma shrinks_on_if: "shrinks_on n f \<Longrightarrow> shrinks_on n g \<Longrightarrow> shrinks_on n (\<lambda>s. if b then f s else g s)"
  by (cases b) simp_all

lemma shrinks_on_bind:
  assumes "consumes f" and "\<And>v m. m < n \<Longrightarrow> shrinks_on m (g v)"
  shows "shrinks_on n (pb_bind f g)"
  unfolding shrinks_on_def
proof (intro allI impI)
  fix s :: "'a pb_istream"
  assume n: "is_bytes_left s \<le> n"
  show "is_bytes_left (snd (pb_bind f g s)) \<le> is_bytes_left s"
  proof (cases "f s")
    case (Pair w t)
    show ?thesis
    proof (cases w)
      case None
      then show ?thesis using Pair assms(1) unfolding consumes_def shrinks_def pb_bind_def
        by simp (metis snd_conv)
    next
      case (Some v)
      then have t: "is_bytes_left t < is_bytes_left s" using Pair assms(1) by (simp add: consumes_def)
      then have "is_bytes_left (snd (g v t)) \<le> is_bytes_left t"
        using assms(2) [of "is_bytes_left t" v] n by (simp add: shrinks_on_def)
      then show ?thesis using t Pair Some by (simp add: pb_bind_def)
    qed
  qed
qed

lemma shrinks_varint_loop: "shrinks (varint_loop cb r p)"
proof (rule shrinks_on_all)
  fix n
  show "shrinks_on n (varint_loop cb r p)"
    by (induction n arbitrary: r p rule: less_induct)
      (subst varint_loop_bind, unfold Let_def, intro shrinks_on_if shrinks_on_bind consumes_readbyte
        shrinks_onI [OF shrinks_fail] shrinks_onI [OF shrinks_return])
qed

lemma consumes_varint: "consumes (pb_decode_varint cb)"
proof -
  have "consumes (varint_loop cb 0 0)"
    unfolding varint_loop_bind [of cb 0 0] Let_def
    by (intro consumes_if consumes_fail consumes_bind consumes_readbyte shrinks_if shrinks_varint_loop
        shrinks_return)
  then show ?thesis by (simp add: pb_decode_varint_def [abs_def])
qed

lemma shrinks_varint32_loop: "shrinks (varint32_loop cb r p)"
proof (rule shrinks_on_all)
  fix n
  show "shrinks_on n (varint32_loop cb r p)"
    by (induction n arbitrary: r p rule: less_induct)
      (subst varint32_loop_bind, intro shrinks_on_if shrinks_on_bind consumes_readbyte
        shrinks_onI [OF shrinks_fail] shrinks_onI [OF shrinks_return])
qed

lemma consumes_varint32: "consumes (pb_decode_varint32 cb)"
  unfolding pb_decode_varint32_bind
  by (intro consumes_bind consumes_readbyte shrinks_if shrinks_bind shrinks_varint32_loop
      shrinks_return shrinks_fail)

lemma consumes_svarint: "consumes (pb_decode_svarint cb)"
  unfolding pb_decode_svarint_bind by (intro consumes_bind consumes_varint shrinks_return)

lemma consumes_fixed32: "consumes (pb_decode_fixed32 cb)"
proof -
  have "pb_decode_fixed32 cb = pb_bind (\<lambda>s. pb_read_into cb s 4)
      (\<lambda>bytes s. (Some (push_bit 0 (ucast (bytes ! 0)) OR push_bit 8 (ucast (bytes ! 1)) OR
                 push_bit 16 (ucast (bytes ! 2)) OR push_bit 24 (ucast (bytes ! 3))), s))"
    by (rule ext) (simp only: pb_decode_fixed32_def pb_bind_def pb_read_not_null)
  then show ?thesis by (simp only: consumes_bind [OF consumes_read_into shrinks_return])
qed

lemma consumes_fixed64: "consumes (pb_decode_fixed64 cb)"
proof -
  have "pb_decode_fixed64 cb = pb_bind (\<lambda>s. pb_read_into cb s 8)
      (\<lambda>bytes s. (Some (push_bit 0 (ucast (bytes ! 0)) OR push_bit 8 (ucast (bytes ! 1)) OR
                 push_bit 16 (ucast (bytes ! 2)) OR push_bit 24 (ucast (bytes ! 3)) OR
                 push_bit 32 (ucast (bytes ! 4)) OR push_bit 40 (ucast (bytes ! 5)) OR
                 push_bit 48 (ucast (bytes ! 6)) OR push_bit 56 (ucast (bytes ! 7))), s))"
    by (rule ext) (simp only: pb_decode_fixed64_def pb_bind_def pb_read_not_null)
  then show ?thesis by (simp only: consumes_bind [OF consumes_read_into shrinks_return])
qed

lemma shrinks_skip_varint: "shrinks (pb_skip_varint cb)"
proof (rule shrinks_on_all)
  fix n
  have read: "consumes (\<lambda>s. pb_read cb s False 1)" by (simp add: consumes_read_into)
  show "shrinks_on n (pb_skip_varint cb)"
    by (induction n rule: less_induct)
      (subst pb_skip_varint_bind, intro shrinks_on_if shrinks_on_bind read shrinks_onI [OF shrinks_return])
qed

lemma shrinks_skip_bytes: "shrinks (\<lambda>s. pb_skip_bytes cb s n)"
  using shrinks_read [of cb True n] unfolding shrinks_def pb_skip_bytes_def
  by (simp split: prod.split) (metis snd_conv)

lemma shrinks_skip_field: "shrinks (\<lambda>s. pb_skip_field cb s wt)"
  unfolding pb_skip_field_def pb_skip_string_bind
  by (intro shrinks_if shrinks_skip_varint shrinks_skip_bytes shrinks_bind
      consumes_shrinks [OF consumes_varint32] shrinks_fail)

lemma shrinks_substream: "shrinks (pb_make_string_substream cb)"
proof -
  have "is_bytes_left (snd (pb_make_string_substream cb s)) \<le> is_bytes_left (snd (pb_decode_varint32 cb s))" for s
    by (auto simp: pb_make_string_substream_def split: prod.split option.split)
  then show ?thesis using consumes_shrinks [OF consumes_varint32 [of cb]] unfolding shrinks_def
    by (meson le_trans)
qed

lemma shrinks_close: "shrinks (\<lambda>s. pb_close_string_substream cb s sub)"
  by (auto simp: shrinks_def pb_close_string_substream_def split: prod.split option.split)

text \<open>A tag takes at least a byte.\<close>

lemma pb_decode_varint32_eof_bytes_left:
  "pb_decode_varint32_eof cb s = (r, eof, s') \<Longrightarrow>
     is_bytes_left s' \<le> is_bytes_left s \<and> (r \<noteq> None \<longrightarrow> is_bytes_left s' < is_bytes_left s)"
proof -
  assume "pb_decode_varint32_eof cb s = (r, eof, s')"
  then have "pb_decode_varint32 cb s = (r, s')" by (simp add: pb_decode_varint32_def)
  then show ?thesis using consumes_varint32 [of cb] unfolding consumes_def shrinks_def
    by (metis option.exhaust snd_conv)
qed

lemma pb_decode_tag_bytes_left:
  "pb_decode_tag cb s = (r, eof, s') \<Longrightarrow>
     is_bytes_left s' \<le> is_bytes_left s \<and> (r \<noteq> None \<longrightarrow> is_bytes_left s' < is_bytes_left s)"
  by (auto simp: pb_decode_tag_def dest: pb_decode_varint32_eof_bytes_left
      split: prod.splits option.splits if_splits)

end
