(* ===== verification/PbSafe.thy ===== *)
theory PbSafe
  imports PbBounds
begin

text \<open>
  The message decoder on any input: decoding into a message of static fields returns, and
  changes no memory outside the message, whatever the bytes of the stream are.
\<close>

section \<open>Contracts of steps\<close>

text \<open>A step that returns, changes memory only between \<open>lo\<close> and \<open>hi\<close>, puts no bytes back and
  leaves an iterator with \<open>I\<close>.\<close>

definition safe :: "(pb_iter \<Rightarrow> bool) \<Rightarrow> int \<Rightarrow> int \<Rightarrow> 's pb_dec \<Rightarrow> (bool \<times> 's pb_dec) option \<Rightarrow> bool" where
  "safe I lo hi st r \<longleftrightarrow>
     (\<exists>b st'. r = Some (b, st') \<and> frame lo hi (d_mem st) (d_mem st') \<and>
        is_bytes_left (d_in st') \<le> is_bytes_left (d_in st) \<and> I (d_iter st'))"

lemma safeI:
  "r = Some (b, st') \<Longrightarrow> frame lo hi (d_mem st) (d_mem st') \<Longrightarrow>
     is_bytes_left (d_in st') \<le> is_bytes_left (d_in st) \<Longrightarrow> I (d_iter st') \<Longrightarrow> safe I lo hi st r"
  by (auto simp: safe_def)

lemma safeE:
  assumes "safe I lo hi st r"
  obtains b st' where "r = Some (b, st')" "frame lo hi (d_mem st) (d_mem st')"
    "is_bytes_left (d_in st') \<le> is_bytes_left (d_in st)" "I (d_iter st')"
  using assms by (auto simp: safe_def)

lemma safe_trans:
  assumes "safe I lo hi st' r" and "frame lo hi (d_mem st) (d_mem st')"
    and "is_bytes_left (d_in st') \<le> is_bytes_left (d_in st)"
  shows "safe I lo hi st r"
  using assms by (auto simp: safe_def intro: frame_trans)

lemma safe_mono:
  "safe I a b st r \<Longrightarrow> lo \<le> a \<Longrightarrow> b \<le> hi \<Longrightarrow> safe I lo hi st r"
  by (auto simp: safe_def intro: frame_mono)

named_theorems safe_intros \<open>steps that are safe\<close>

lemma d_upd_sel [simp]:
  "d_in (d_upd f st) = d_in st" "d_mem (d_upd f st) = f (d_mem st)"
  "d_iter (d_upd f st) = d_iter st" "d_fixed (d_upd f st) = d_fixed st"
  by (simp_all add: d_upd_def)

lemma safe_fail [safe_intros]: "I (d_iter st) \<Longrightarrow> safe I lo hi st (d_fail msg st)"
  by (auto simp: safe_def d_fail_def)

lemma safe_done [safe_intros]: "I (d_iter st) \<Longrightarrow> safe I lo hi st (d_done st)"
  by (auto simp: safe_def d_done_def)

lemma safe_Some [safe_intros]: "I (d_iter st) \<Longrightarrow> safe I lo hi st (Some (b, st))"
  by (simp add: safe_def)

lemma safe_upd:
  "safe I lo hi (d_upd f st) r \<Longrightarrow> frame lo hi (d_mem st) (f (d_mem st)) \<Longrightarrow> safe I lo hi st r"
  by (rule safe_trans [where st' = "d_upd f st"]) simp_all

lemma safe_then:
  assumes "safe J lo hi st r"
    and "\<And>st'. frame lo hi (d_mem st) (d_mem st') \<Longrightarrow> is_bytes_left (d_in st') \<le> is_bytes_left (d_in st) \<Longrightarrow>
      J (d_iter st') \<Longrightarrow> safe I lo hi st' (k st')"
    and "\<And>it. J it \<Longrightarrow> I it"
  shows "safe I lo hi st (d_then r k)"
proof -
  obtain b st' where r: "r = Some (b, st')" "frame lo hi (d_mem st) (d_mem st')"
    "is_bytes_left (d_in st') \<le> is_bytes_left (d_in st)" "J (d_iter st')"
    using safeE [OF assms(1)] by metis
  show ?thesis
  proof (cases b)
    case True
    then show ?thesis using r safe_trans [OF assms(2) [OF r(2-4)] r(2,3)] by (simp add: d_then_def)
  next
    case False
    then show ?thesis using r assms(3) by (auto simp: d_then_def intro: safeI)
  qed
qed

lemma safe_get:
  assumes "shrinks f" and "I (d_iter st)"
    and "\<And>v s. f (d_in st) = (Some v, s) \<Longrightarrow> safe I lo hi (st\<lparr>d_in := s\<rparr>) (k v (st\<lparr>d_in := s\<rparr>))"
  shows "safe I lo hi st (d_get f k st)"
proof (cases "f (d_in st)")
  case (Pair w s)
  then have s: "is_bytes_left s \<le> is_bytes_left (d_in st)"
    using assms(1) unfolding shrinks_def by (metis snd_conv)
  show ?thesis
  proof (cases w)
    case None
    then show ?thesis using Pair s assms(2) by (auto simp: safe_def d_get_def)
  next
    case (Some v)
    then show ?thesis using Pair s assms(3) [of v s]
      by (auto simp: d_get_def intro: safe_trans [where st' = "st\<lparr>d_in := s\<rparr>"])
  qed
qed

lemma safe_on_sub:
  assumes "safe J lo hi (st\<lparr>d_in := sub\<rparr>) (body (st\<lparr>d_in := sub\<rparr>))"
    and "\<And>b s st'. frame lo hi (d_mem st) (d_mem st') \<Longrightarrow> J (d_iter st') \<Longrightarrow> d_in st' = d_in st \<Longrightarrow>
      safe I lo hi st' (k b s st')"
  shows "safe I lo hi st (d_on_sub sub body k st)"
proof -
  obtain b st' where r: "body (st\<lparr>d_in := sub\<rparr>) = Some (b, st')" "frame lo hi (d_mem st) (d_mem st')"
    "J (d_iter st')"
    using safeE [OF assms(1)] by (metis pb_dec.select_convs(2) pb_dec.surjective pb_dec.update_convs(1))
  then have "safe I lo hi (st'\<lparr>d_in := d_in st\<rparr>) (k b (d_in st') (st'\<lparr>d_in := d_in st\<rparr>))"
    by (intro assms(2)) simp_all
  then show ?thesis using r
    by (auto simp: d_on_sub_def intro: safe_trans [where st' = "st'\<lparr>d_in := d_in st\<rparr>"])
qed

lemma safe_close: "I (d_iter st) \<Longrightarrow> safe I lo hi st (d_close env sub status st)"
  unfolding d_close_def by (rule safe_get [OF shrinks_close]) (auto intro: safe_intros)

lemma shrinks_read_env: "shrinks (\<lambda>s. pb_read (e_read env) s False n)"
  by (rule shrinks_read)

lemma pb_read_into_length:
  "reader_ok cb \<Longrightarrow> pb_read_into cb s n = (Some bs, s') \<Longrightarrow> length bs \<le> n"
  by (auto simp: pb_read_into_def is_fail_def is_callback_def buf_read_def reader_ok_def
      split: if_splits prod.splits option.splits pb_source.splits pb_delivery.splits)

lemma safe_read_to:
  assumes "reader_ok (e_read env)" and "lo \<le> p" and "p + int n \<le> hi" and "I (d_iter st)"
  shows "safe I lo hi st (d_read_to env p n st)"
  unfolding d_read_to_def
proof (rule safe_get, rule shrinks_read, rule assms(4))
  fix bs s
  assume "pb_read (e_read env) (d_in st) False n = (Some bs, s)"
  then have "length bs \<le> n" using pb_read_into_length [OF assms(1)] by simp
  then show "safe I lo hi (st\<lparr>d_in := s\<rparr>)
      (d_done (d_upd (\<lambda>m. mem_write m p bs) (st\<lparr>d_in := s\<rparr>)))"
    using assms(2-4) by (intro safe_upd [OF safe_done]) (auto intro: frame_write)
qed

section \<open>Scalar decoders\<close>

lemma safe_store_int:
  assumes "lo \<le> p" and "p + int (f_data_size f) \<le> hi" and "I (d_iter st)"
  shows "safe I lo hi st (store_int (d_fail msg) clamp f p v st)"
  using assms
  by (auto simp: store_int_def Let_def intro!: safe_fail safe_upd [OF safe_fail] safe_upd [OF safe_done]
      frame_store)

lemmas safe_gets = safe_get [OF consumes_shrinks [OF consumes_varint]]
  safe_get [OF consumes_shrinks [OF consumes_svarint]]
  safe_get [OF consumes_shrinks [OF consumes_varint32]]
  safe_get [OF consumes_shrinks [OF consumes_fixed32]]
  safe_get [OF consumes_shrinks [OF consumes_fixed64]]

lemma safe_dec_scalars:
  assumes "lo \<le> p" and "p + int (f_data_size f) \<le> hi" and "I (d_iter st)"
  shows "safe I lo hi st (pb_dec_varint env f p st)" "safe I lo hi st (pb_dec_uvarint env f p st)"
    "safe I lo hi st (pb_dec_svarint env f p st)"
    "4 \<le> f_data_size f \<Longrightarrow> safe I lo hi st (pb_dec_fixed32 env f p st)"
    "8 \<le> f_data_size f \<Longrightarrow> safe I lo hi st (pb_dec_fixed64 env f p st)"
  unfolding pb_dec_varint_def pb_dec_uvarint_def pb_dec_svarint_def pb_dec_fixed32_def pb_dec_fixed64_def
  using assms
  by (auto intro!: safe_gets safe_store_int safe_upd [OF safe_done] frame_store simp: Let_def)

lemma unat_Suc_no_wrap:
  assumes "\<not> unat (w + 1) < unat w"
  shows "unat (w + 1 :: u32) = unat w + 1"
proof -
  have "1 + w \<noteq> 0"
  proof
    assume z: "1 + w = 0"
    then have "unat w = 0" using assms by (simp add: add.commute)
    then show False using z by (simp add: unat_eq_zero)
  qed
  then show ?thesis using unatSuc [of w] by (simp add: add.commute)
qed

lemma static_not_pointer:
  "PB_ATYPE t = PB_ATYPE_STATIC \<Longrightarrow> PB_ATYPE t \<noteq> PB_ATYPE_POINTER \<and> PB_ATYPE t \<noteq> PB_ATYPE_CALLBACK"
  by (simp add: pb_atypes)

lemma unat_u32_le: "unat (w :: u32) \<le> PB_SIZE_MAX"
  using unsigned_less [of w, where ?'a = nat] by (simp add: PB_SIZE_MAX_def)

lemma safe_dec_bytes:
  assumes "reader_ok (e_read env)" and "lo \<le> p" and "p + int (f_data_size f) \<le> hi" and "I (d_iter st)"
    and "PB_ATYPE (f_type f) = PB_ATYPE_STATIC"
  shows "safe I lo hi st (pb_dec_bytes env f p st)"
proof -
  have alloc: "PB_BYTES_ARRAY_T_ALLOCSIZE (unat (w :: u32)) = unat w + 4" for w
    using unat_u32_le [of w]
    by (simp add: PB_BYTES_ARRAY_T_ALLOCSIZE_def pb_bytes_offset_def size_simps SIZE_MAX_def PB_SIZE_MAX_def)
  have np: "PB_ATYPE (f_type f) \<noteq> PB_ATYPE_POINTER" by (rule static_not_pointer [OF assms(5), THEN conjunct1])
  have main: "safe I lo hi st' (d_read_to env (p + int pb_bytes_offset) n (d_upd (\<lambda>m. store m p 4 n) st'))"
    if "I (d_iter st')" "n + 4 \<le> f_data_size f" for st' n
    using that assms(1-3)
    by (intro safe_upd [OF safe_read_to] frame_store) (simp_all add: pb_bytes_offset_def)
  show ?thesis
    unfolding pb_dec_bytes_def Let_def alloc if_not_P [OF np]
    by (intro safe_gets(3) assms(4)) (simp add: assms(4) safe_fail main del: of_nat_unat)
qed

lemma safe_dec_string:
  assumes "reader_ok (e_read env)" and "lo \<le> p" and "p + int (f_data_size f) \<le> hi" and "I (d_iter st)"
    and "PB_ATYPE (f_type f) = PB_ATYPE_STATIC"
  shows "safe I lo hi st (pb_dec_string env f p st)"
  unfolding pb_dec_string_def
proof (rule safe_gets(3), rule assms(4))
  fix w :: u32 and s
  let ?st = "st\<lparr>d_in := s\<rparr>"
  have np: "PB_ATYPE (f_type f) \<noteq> PB_ATYPE_POINTER"
    by (rule static_not_pointer [OF assms(5), THEN conjunct1])
  have body: "safe I lo hi ?st (case d_read_to env p n ?st of None \<Rightarrow> None
      | Some (status, st) \<Rightarrow> Some (status, d_upd (\<lambda>m. store m (p + int n) 1 0) st))"
    if n: "n + 1 \<le> f_data_size f" for n
  proof -
    have "safe I lo hi ?st (d_read_to env p n ?st)"
      using assms n by (intro safe_read_to) simp_all
    then obtain b st' where r: "d_read_to env p n ?st = Some (b, st')"
      "frame lo hi (d_mem ?st) (d_mem st')" "is_bytes_left (d_in st') \<le> is_bytes_left (d_in ?st)"
      "I (d_iter st')"
      by (rule safeE)
    have "frame lo hi (d_mem st') (store (d_mem st') (p + int n) 1 0)"
      using assms(2,3) n by (intro frame_store) simp_all
    then show ?thesis using r by (auto simp: safe_def intro: frame_trans)
  qed
  have "safe I lo hi ?st (d_fail msg ?st)" for msg using assms(4) by (intro safe_fail) simp
  then show "safe I lo hi ?st
     (let sz = unat w; alloc_size = unat (w + 1) in
      if alloc_size < sz then d_fail ''size too large'' ?st
      else
        let rest = \<lambda>dest st. case d_read_to env dest sz st of None \<Rightarrow> None
              | Some (status, st) \<Rightarrow> Some (status, d_upd (\<lambda>m. store m (dest + int sz) 1 0) st)
        in if PB_ATYPE (f_type f) = PB_ATYPE_POINTER
           then d_then (allocate_field env p alloc_size 1 ?st) (\<lambda>st. rest (load_ptr (d_mem st) p) st)
           else if f_data_size f < alloc_size then d_fail ''string overflow'' ?st else rest p ?st)"
    using body [of "unat w"] unat_Suc_no_wrap [of w] np unfolding Let_def
    by (cases "unat (w + 1) < unat w"; cases "f_data_size f < unat (w + 1)") (simp_all del: of_nat_unat)
qed

lemma safe_dec_fixed_length_bytes:
  assumes "reader_ok (e_read env)" and "lo \<le> p" and "p + int (f_data_size f) \<le> hi" and "I (d_iter st)"
  shows "safe I lo hi st (pb_dec_fixed_length_bytes env f p st)"
  unfolding pb_dec_fixed_length_bytes_def Let_def
  using assms
  by (auto intro!: safe_gets safe_fail safe_read_to safe_upd [OF safe_done] frame_write)

text \<open>The decoder of nested messages is safe on the messages below.\<close>

definition safe_messages :: "(pb_field list \<Rightarrow> nat \<Rightarrow> bool) \<Rightarrow> 's pb_message_decoder \<Rightarrow> bool" where
  "safe_messages sub dec \<longleftrightarrow>
     (\<forall>fs n init p st. sub fs n \<longrightarrow> safe (\<lambda>it. it = d_iter st) p (p + int n) st (dec init fs p st))"

lemma safe_dec_submessage:
  assumes "safe_messages sub dec" and "sub (e_table env (f_ptr f)) (f_data_size f)"
    and "lo \<le> p" and "p + int (f_data_size f) \<le> hi" and "I (d_iter st)"
  shows "safe I lo hi st (pb_dec_submessage env dec f p st)"
  unfolding pb_dec_submessage_def
proof (rule safe_get, rule shrinks_substream, rule assms(5))
  fix sub' s
  let ?st = "st\<lparr>d_in := s\<rparr>"
  let ?body = "dec (PB_HTYPE (f_type f) = PB_HTYPE_REPEATED) (e_table env (f_ptr f)) p"
  have "safe (\<lambda>it. it = d_iter st) lo hi (?st\<lparr>d_in := sub'\<rparr>) (?body (?st\<lparr>d_in := sub'\<rparr>))"
  proof (rule safe_mono)
    have "safe (\<lambda>it. it = d_iter (?st\<lparr>d_in := sub'\<rparr>)) p (p + int (f_data_size f)) (?st\<lparr>d_in := sub'\<rparr>)
        (?body (?st\<lparr>d_in := sub'\<rparr>))"
      using assms(1,2) unfolding safe_messages_def by blast
    then show "safe (\<lambda>it. it = d_iter st) p (p + int (f_data_size f)) (?st\<lparr>d_in := sub'\<rparr>)
        (?body (?st\<lparr>d_in := sub'\<rparr>))" by simp
  qed (use assms(3,4) in simp_all)
  then have "safe I lo hi ?st (d_on_sub sub' ?body (\<lambda>status sub. d_close env sub status) ?st)"
    by (rule safe_on_sub) (rule safe_close, use assms(5) in simp)
  then show "safe I lo hi ?st
     (if f_ptr f = 0 then d_fail ''invalid field descriptor'' ?st
      else d_on_sub sub' ?body (\<lambda>status sub. d_close env sub status) ?st)"
    using safe_fail [of I ?st] assms(5) by simp
qed

section \<open>Static fields\<close>

text \<open>A field of static allocation that lies between \<open>lo\<close> and \<open>hi\<close> at the place where the
  iterator points, with its \<open>has_\<close>, \<open>_count\<close> or \<open>which_\<close> variable; \<open>sub\<close> says it of the messages
  nested in it.\<close>

definition static_field :: "'s pb_env \<Rightarrow> (pb_field list \<Rightarrow> nat \<Rightarrow> bool) \<Rightarrow> int \<Rightarrow> int \<Rightarrow> pb_iter \<Rightarrow> bool" where
  "static_field env sub lo hi it \<longleftrightarrow>
     (let f = it_field it; t = f_type f; a = it_pData it; b = it_pSize it;
          cnt = (if PB_HTYPE t = PB_HTYPE_REPEATED then f_array_size f else 1)
      in PB_ATYPE t = PB_ATYPE_STATIC \<and> (PB_HTYPE t = PB_HTYPE_REPEATED \<longrightarrow> f_tag f \<noteq> 0) \<and>
         PB_LTYPE t \<in> {PB_LTYPE_VARINT, PB_LTYPE_UVARINT, PB_LTYPE_SVARINT, PB_LTYPE_FIXED32,
           PB_LTYPE_FIXED64, PB_LTYPE_BYTES, PB_LTYPE_STRING, PB_LTYPE_SUBMESSAGE,
           PB_LTYPE_FIXED_LENGTH_BYTES} \<and>
         lo \<le> a \<and> a + int (f_data_size f * cnt) \<le> hi \<and>
         (PB_LTYPE t = PB_LTYPE_FIXED32 \<longrightarrow> 4 \<le> f_data_size f) \<and>
         (PB_LTYPE t = PB_LTYPE_FIXED64 \<longrightarrow> 8 \<le> f_data_size f) \<and>
         (PB_HTYPE t = PB_HTYPE_OPTIONAL \<longrightarrow> b = a \<or> lo \<le> b \<and> b + 1 \<le> hi) \<and>
         (PB_HTYPE t = PB_HTYPE_REPEATED \<or> PB_HTYPE t = PB_HTYPE_ONEOF \<longrightarrow> lo \<le> b \<and> b + 4 \<le> hi) \<and>
         (PB_LTYPE t = PB_LTYPE_SUBMESSAGE \<longrightarrow> f_ptr f \<noteq> 0 \<and> sub (e_table env (f_ptr f)) (f_data_size f)))"

text \<open>A table whose fields are all static, in a structure of the size given, with messages nested
  at most \<open>d\<close> deep.\<close>

fun static_table :: "'s pb_env \<Rightarrow> nat \<Rightarrow> pb_field list \<Rightarrow> nat \<Rightarrow> bool" where
  "static_table env 0 fs n = False"
| "static_table env (Suc d) fs n =
     (\<forall>it\<in>set (table_iters fs 0). static_field env (static_table env d) 0 (int n) it)"

lemma safe_if_app:
  "(b \<Longrightarrow> safe I lo hi st (f st)) \<Longrightarrow> (\<not> b \<Longrightarrow> safe I lo hi st (g st)) \<Longrightarrow>
     safe I lo hi st ((if b then f else g) st)"
  by simp

lemma safe_decoders:
  assumes "reader_ok (e_read env)" and "safe_messages sub dec" and "static_field env sub flo fhi it"
    and "f = it_field it" and "lo \<le> p" and "p + int (f_data_size f) \<le> hi" and "I (d_iter st)"
  shows "safe I lo hi st (PB_DECODERS env dec f p st)"
proof -
  have l: "PB_LTYPE (f_type f) \<in> {PB_LTYPE_VARINT, PB_LTYPE_UVARINT, PB_LTYPE_SVARINT, PB_LTYPE_FIXED32,
           PB_LTYPE_FIXED64, PB_LTYPE_BYTES, PB_LTYPE_STRING, PB_LTYPE_SUBMESSAGE,
           PB_LTYPE_FIXED_LENGTH_BYTES}" and a: "PB_ATYPE (f_type f) = PB_ATYPE_STATIC"
    and f32: "PB_LTYPE (f_type f) = PB_LTYPE_FIXED32 \<longrightarrow> 4 \<le> f_data_size f"
    and f64: "PB_LTYPE (f_type f) = PB_LTYPE_FIXED64 \<longrightarrow> 8 \<le> f_data_size f"
    and s: "PB_LTYPE (f_type f) = PB_LTYPE_SUBMESSAGE \<longrightarrow> sub (e_table env (f_ptr f)) (f_data_size f)"
    using assms(3,4) by (simp_all add: static_field_def Let_def)
  note ok = safe_dec_scalars [where I = I, OF assms(5-7)] safe_dec_bytes [where I = I, OF assms(1,5-7) a]
    safe_dec_string [where I = I, OF assms(1,5-7) a]
    safe_dec_fixed_length_bytes [where I = I, OF assms(1,5-7)]
    safe_dec_submessage [where I = I, OF assms(2) _ assms(5-7)]
  show ?thesis
    unfolding PB_DECODERS_def Let_def
    by (intro safe_if_app; (rule ok)?) (use l f32 f64 s in simp_all)
qed

text \<open>A packed array of numbers: each of them takes at least a byte.\<close>

definition eats :: "'s pb_step \<Rightarrow> bool" where
  "eats f \<longleftrightarrow> (\<forall>st st'. f st = Some (True, st') \<longrightarrow> is_bytes_left (d_in st') < is_bytes_left (d_in st))"

lemma eats_get:
  assumes "consumes f" and "\<And>v st b st'. k v st = Some (b, st') \<Longrightarrow> d_in st' = d_in st \<or> \<not> b"
  shows "eats (d_get f k)"
  unfolding eats_def d_get_def
proof (intro allI impI)
  fix st st'
  assume *: "(case f (d_in st) of (None, s) \<Rightarrow> Some (False, st\<lparr>d_in := s\<rparr>)
     | (Some v, s) \<Rightarrow> k v (st\<lparr>d_in := s\<rparr>)) = Some (True, st')"
  then obtain v s where f: "f (d_in st) = (Some v, s)" and k: "k v (st\<lparr>d_in := s\<rparr>) = Some (True, st')"
    by (auto split: prod.splits option.splits)
  have "is_bytes_left s < is_bytes_left (d_in st)" using assms(1) f by (simp add: consumes_def)
  then show "is_bytes_left (d_in st') < is_bytes_left (d_in st)" using assms(2) [OF k] by simp
qed

lemma eats_store_int:
  "store_int (d_fail msg) clamp f p v st = Some (b, st') \<Longrightarrow> d_in st' = d_in st \<or> \<not> b"
  by (auto simp: store_int_def Let_def d_fail_def d_done_def split: if_splits)

lemma eats_packable:
  assumes "PB_LTYPE (f_type f) \<le> PB_LTYPE_LAST_PACKABLE"
    and "PB_LTYPE (f_type f) \<in> {PB_LTYPE_VARINT, PB_LTYPE_UVARINT, PB_LTYPE_SVARINT, PB_LTYPE_FIXED32,
           PB_LTYPE_FIXED64, PB_LTYPE_BYTES, PB_LTYPE_STRING, PB_LTYPE_SUBMESSAGE,
           PB_LTYPE_FIXED_LENGTH_BYTES}"
  shows "eats (PB_DECODERS env dec f p)"
proof -
  have "eats (pb_dec_varint env f p)" "eats (pb_dec_uvarint env f p)" "eats (pb_dec_svarint env f p)"
    "eats (pb_dec_fixed32 env f p)" "eats (pb_dec_fixed64 env f p)"
    unfolding pb_dec_varint_def pb_dec_uvarint_def pb_dec_svarint_def pb_dec_fixed32_def
      pb_dec_fixed64_def Let_def
    by (intro eats_get consumes_varint consumes_svarint consumes_fixed32 consumes_fixed64;
        auto dest: eats_store_int simp: d_done_def)+
  then show ?thesis using assms
    by (auto simp: PB_DECODERS_def Let_def pb_ltypes)
qed

lemma set_size_sel [simp]: "d_in (set_size v st) = d_in st" "d_iter (set_size v st) = d_iter st"
  by (simp_all add: set_size_def)

lemma frame_set_size:
  "lo \<le> it_pSize (d_iter st) \<Longrightarrow> it_pSize (d_iter st) + 4 \<le> hi \<Longrightarrow>
     frame lo hi (d_mem st) (d_mem (set_size v st))"
  by (auto simp: set_size_def intro: frame_store)

lemma item_region:
  assumes "lo \<le> a" and "a + int (f_data_size f * cnt) \<le> hi" and "i < cnt"
  shows "lo \<le> item_at a f i" "item_at a f i + int (f_data_size f) \<le> hi"
proof -
  have "0 \<le> int (f_data_size f) * int i" by simp
  then show "lo \<le> item_at a f i" using assms(1) unfolding item_at_def by linarith
  have "f_data_size f * (i + 1) \<le> f_data_size f * cnt" using assms(3) by (intro mult_le_mono2) simp
  then have "int (f_data_size f * (i + 1)) \<le> int (f_data_size f * cnt)" by (simp only: of_nat_le_iff)
  then show "item_at a f i + int (f_data_size f) \<le> hi"
    using assms(2) by (simp add: item_at_def algebra_simps)
qed

lemma safe_packed_loop:
  assumes "lo \<le> it_pSize it" and "it_pSize it + 4 \<le> hi"
    and "lo \<le> it_pData it" and "it_pData it + int (f_data_size (it_field it) * f_array_size (it_field it)) \<le> hi"
    and "\<And>p st. lo \<le> p \<Longrightarrow> p + int (f_data_size (it_field it)) \<le> hi \<Longrightarrow> d_iter st = it \<Longrightarrow>
      safe (\<lambda>it'. it' = it) lo hi st (func p st)"
    and "\<And>p. eats (func p)"
    and "d_iter st = it" and "is_bytes_left (d_in st) < n"
  shows "safe (\<lambda>it'. it' = it) lo hi st (packed_loop func n st)"
  using assms(7,8)
proof (induction n arbitrary: st)
  case 0
  then show ?case by simp
next
  case (Suc n)
  let ?f = "it_field it"
  show ?case
  proof (cases "is_bytes_left (d_in st) > 0 \<and> get_size st < f_array_size ?f")
    case True
    let ?p = "item_at (it_pData it) ?f (get_size st)"
    have "safe (\<lambda>it'. it' = it) lo hi st (func ?p st)"
      using True item_region [OF assms(3,4)] Suc.prems(1) by (intro assms(5)) simp_all
    then obtain b st' where r: "func ?p st = Some (b, st')" "frame lo hi (d_mem st) (d_mem st')"
      "is_bytes_left (d_in st') \<le> is_bytes_left (d_in st)" "d_iter st' = it"
      by (rule safeE)
    show ?thesis
    proof (cases b)
      case True2: True
      then have less: "is_bytes_left (d_in st') < is_bytes_left (d_in st)"
        using assms(6) r(1) by (simp add: eats_def)
      let ?st = "set_size (get_size st' + 1) st'"
      have "safe (\<lambda>it'. it' = it) lo hi ?st (packed_loop func n ?st)"
        using less Suc.prems(2) r(4) by (intro Suc.IH) simp_all
      moreover have "frame lo hi (d_mem st) (d_mem ?st)"
      proof (rule frame_trans [OF r(2)])
        have "lo \<le> it_pSize (d_iter st')" "it_pSize (d_iter st') + 4 \<le> hi"
          unfolding r(4) by (rule assms(1), rule assms(2))
        then show "frame lo hi (d_mem st') (d_mem ?st)" by (rule frame_set_size)
      qed
      ultimately have "safe (\<lambda>it'. it' = it) lo hi st (packed_loop func n ?st)"
        by (rule safe_trans) (use less in simp)
      then show ?thesis using True r True2 Suc.prems(1) by (simp add: d_field_def d_then_def Let_def)
    next
      case False
      then show ?thesis using True r Suc.prems(1)
        by (auto simp: safe_def d_field_def d_then_def Let_def)
    qed
  next
    case False
    then show ?thesis using Suc.prems(1) by (auto simp: d_field_def Let_def intro: safe_done)
  qed
qed

text \<open>The defaults of a nested message, when a \<open>oneof\<close> changes.\<close>

definition safe_defaults :: "'s pb_env \<Rightarrow> (pb_field list \<Rightarrow> nat \<Rightarrow> bool) \<Rightarrow> nat \<Rightarrow> bool" where
  "safe_defaults env sub n \<longleftrightarrow>
     (\<forall>fs k p m. sub fs k \<longrightarrow>
        (\<exists>m'. pb_message_set_to_defaults env n fs p m = Some m' \<and> frame p (p + int k) m m'))"

end
