(* ===== verification/PbTotal.thy ===== *)
theory PbTotal
  imports PbSafe
begin

text \<open>
  The decoder of messages is total and stays inside the message, for every table of static
  fields: the steps of theory PbSafe put together along \<open>pb_decode\<close>, with the defaults and the
  release that it calls.
\<close>

section \<open>Static fields\<close>

lemma static_fieldD:
  assumes "static_field env sub lo hi it"
  shows "PB_ATYPE (f_type (it_field it)) = PB_ATYPE_STATIC"
    and "lo \<le> it_pData it"
    and "PB_HTYPE (f_type (it_field it)) \<noteq> PB_HTYPE_REPEATED \<Longrightarrow>
      it_pData it + int (f_data_size (it_field it)) \<le> hi"
    and "PB_HTYPE (f_type (it_field it)) = PB_HTYPE_REPEATED \<Longrightarrow>
      it_pData it + int (f_data_size (it_field it) * f_array_size (it_field it)) \<le> hi"
    and "PB_HTYPE (f_type (it_field it)) = PB_HTYPE_OPTIONAL \<Longrightarrow>
      it_pSize it = it_pData it \<or> lo \<le> it_pSize it \<and> it_pSize it + 1 \<le> hi"
    and "PB_HTYPE (f_type (it_field it)) = PB_HTYPE_REPEATED \<or> PB_HTYPE (f_type (it_field it)) = PB_HTYPE_ONEOF \<Longrightarrow>
      lo \<le> it_pSize it \<and> it_pSize it + 4 \<le> hi"
    and "PB_LTYPE (f_type (it_field it)) = PB_LTYPE_SUBMESSAGE \<Longrightarrow>
      f_ptr (it_field it) \<noteq> 0 \<and> sub (e_table env (f_ptr (it_field it))) (f_data_size (it_field it))"
    and "PB_HTYPE (f_type (it_field it)) = PB_HTYPE_REPEATED \<Longrightarrow> f_tag (it_field it) \<noteq> 0"
    and "PB_LTYPE (f_type (it_field it)) \<noteq> PB_LTYPE_EXTENSION"
    and "PB_LTYPE (f_type (it_field it)) \<in> {PB_LTYPE_VARINT, PB_LTYPE_UVARINT, PB_LTYPE_SVARINT,
      PB_LTYPE_FIXED32, PB_LTYPE_FIXED64, PB_LTYPE_BYTES, PB_LTYPE_STRING, PB_LTYPE_SUBMESSAGE,
      PB_LTYPE_FIXED_LENGTH_BYTES}"
proof -
  have "PB_LTYPE (f_type (it_field it)) \<in> {PB_LTYPE_VARINT, PB_LTYPE_UVARINT, PB_LTYPE_SVARINT,
      PB_LTYPE_FIXED32, PB_LTYPE_FIXED64, PB_LTYPE_BYTES, PB_LTYPE_STRING, PB_LTYPE_SUBMESSAGE,
      PB_LTYPE_FIXED_LENGTH_BYTES}"
    using assms unfolding static_field_def Let_def by blast
  moreover from this show "PB_LTYPE (f_type (it_field it)) \<noteq> PB_LTYPE_EXTENSION"
    unfolding pb_ltypes by (elim insertE emptyE) (simp_all only:, simp_all)
  ultimately show "PB_LTYPE (f_type (it_field it)) \<in> {PB_LTYPE_VARINT, PB_LTYPE_UVARINT, PB_LTYPE_SVARINT,
      PB_LTYPE_FIXED32, PB_LTYPE_FIXED64, PB_LTYPE_BYTES, PB_LTYPE_STRING, PB_LTYPE_SUBMESSAGE,
      PB_LTYPE_FIXED_LENGTH_BYTES}" by blast
qed (use assms in \<open>(simp add: static_field_def Let_def; fail) | (unfold static_field_def Let_def, metis mult.right_neutral)\<close>)+

lemma frame_optional:
  assumes "static_field env sub lo hi it" and "PB_HTYPE (f_type (it_field it)) = PB_HTYPE_OPTIONAL"
    and "\<not> it_fixed it"
  shows "frame lo hi m (if size_is_data it then m else store m (it_pSize it) 1 v)"
  using static_fieldD(5) [OF assms(1,2)] assms(3) by (auto simp: size_is_data_def intro: frame_store)

lemma safe_static_repeated:
  assumes "static_field env sub lo hi it" and "d_iter st = it" and "PB_HTYPE (f_type (it_field it)) = PB_HTYPE_REPEATED"
    and func: "\<And>p st. lo \<le> p \<Longrightarrow> p + int (f_data_size (it_field it)) \<le> hi \<Longrightarrow> d_iter st = it \<Longrightarrow>
      safe (\<lambda>it'. it' = it) lo hi st (PB_DECODERS env dec (it_field it) p st)"
  shows "safe (\<lambda>it'. it' = it) lo hi st (decode_static_field env n dec wt st)"
proof -
  define f where "f = it_field it"
  note sf = static_fieldD [OF assms(1), folded f_def] and func = func [folded f_def]
  have df: "d_field st = f" using assms(2) by (simp add: d_field_def f_def)
  note h = assms(3) [folded f_def]
  note size = conjunct1 [OF sf(6) [OF disjI1 [OF h]]] conjunct2 [OF sf(6) [OF disjI1 [OF h]]]
  show ?thesis
  proof (cases "wt = PB_WT_STRING \<and> PB_LTYPE (f_type f) \<le> PB_LTYPE_LAST_PACKABLE")
    case True
    have "decode_static_field env n dec wt st = d_get (pb_make_string_substream (e_read env)) (\<lambda>sub st.
          d_on_sub sub (packed_loop (PB_DECODERS env dec f) (Suc (is_bytes_left sub)))
            (\<lambda>status sub st.
               if is_bytes_left sub \<noteq> 0 then d_fail ''array overflow'' st
               else d_close env sub status st) st) st"
      using h True by (simp add: decode_static_field_def Let_def df assms(2) f_def pb_htypes)
    also have "safe (\<lambda>it'. it' = it) lo hi st \<dots>"
    proof (rule safe_get, rule shrinks_substream, rule assms(2))
      fix sub' s
      let ?st = "st\<lparr>d_in := s\<rparr>"
      have "safe (\<lambda>it'. it' = it) lo hi (?st\<lparr>d_in := sub'\<rparr>)
          (packed_loop (PB_DECODERS env dec f) (Suc (is_bytes_left sub')) (?st\<lparr>d_in := sub'\<rparr>))"
        using size sf(2) sf(4) [OF h] eats_packable [OF conjunct2 [OF True] sf(10)] func assms(2)
        by (intro safe_packed_loop) (simp_all add: f_def)
      then show "safe (\<lambda>it'. it' = it) lo hi ?st (d_on_sub sub' (packed_loop (PB_DECODERS env dec f) (Suc (is_bytes_left sub')))
            (\<lambda>status sub st.
               if is_bytes_left sub \<noteq> 0 then d_fail ''array overflow'' st
               else d_close env sub status st) ?st)"
        by (rule safe_on_sub) (simp add: safe_fail safe_close)
    qed
    finally show ?thesis .
  next
    case False
    let ?st = "set_size (get_size st + 1) st"
    have "decode_static_field env n dec wt st =
        (if get_size st \<ge> f_array_size f then d_fail ''array overflow'' ?st
         else PB_DECODERS env dec f (item_at (it_pData it) f (get_size st)) ?st)"
      using h False by (auto simp add: decode_static_field_def Let_def df assms(2) f_def pb_htypes)
    moreover have "safe (\<lambda>it'. it' = it) lo hi ?st \<dots>"
      using item_region [OF sf(2) sf(4) [OF h], of "get_size st"] assms(2)
      by (cases "f_array_size f \<le> get_size st") (simp_all add: func safe_fail)
    moreover have "frame lo hi (d_mem st) (d_mem ?st)"
      using size assms(2) by (intro frame_set_size) simp_all
    ultimately show ?thesis by (simp only:) (rule safe_trans, assumption+, simp)
  qed
qed

lemma safe_static_oneof:
  assumes "static_field env sub lo hi it" and "d_iter st = it" and "PB_HTYPE (f_type (it_field it)) = PB_HTYPE_ONEOF"
    and "safe_defaults env sub n"
    and func: "\<And>p st. lo \<le> p \<Longrightarrow> p + int (f_data_size (it_field it)) \<le> hi \<Longrightarrow> d_iter st = it \<Longrightarrow>
      safe (\<lambda>it'. it' = it) lo hi st (PB_DECODERS env dec (it_field it) p st)"
  shows "safe (\<lambda>it'. it' = it) lo hi st (decode_static_field env n dec wt st)"
proof -
  define f where "f = it_field it"
  note sf = static_fieldD [OF assms(1), folded f_def] and func = func [folded f_def]
  have df: "d_field st = f" using assms(2) by (simp add: d_field_def f_def)
  note h = assms(3) [folded f_def]
  note size = conjunct1 [OF sf(6) [OF disjI2 [OF h]]] conjunct2 [OF sf(6) [OF disjI2 [OF h]]]
  have data: "it_pData it + int (f_data_size f) \<le> hi" using sf(3) h by (simp add: pb_htypes)
  let ?m = "store (d_mem st) (it_pSize it) 4 (f_tag f)"
  have m: "frame lo hi (d_mem st) ?m" using size by (intro frame_store) simp_all
  show ?thesis
  proof (cases "PB_LTYPE (f_type f) = PB_LTYPE_SUBMESSAGE")
    case True
    let ?m1 = "mem_write ?m (it_pData it) (replicate (f_data_size f) 0)"
    obtain m' where m': "pb_message_set_to_defaults env n (e_table env (f_ptr f)) (it_pData it) ?m1 = Some m'"
      "frame (it_pData it) (it_pData it + int (f_data_size f)) ?m1 m'"
      using assms(4) sf(7) [OF True] unfolding safe_defaults_def by blast
    have "frame lo hi ?m ?m1" using sf(2) data by (intro frame_write) simp_all
    then have "frame lo hi (d_mem st) m'"
      using frame_trans [OF m] frame_trans frame_mono [OF m'(2) sf(2) data] by blast
    moreover have "decode_static_field env n dec wt st =
        PB_DECODERS env dec f (it_pData it) (st\<lparr>d_mem := m'\<rparr>)"
      using h True m'(1) by (simp add: decode_static_field_def Let_def df assms(2) f_def pb_htypes d_upd_def)
    moreover have "safe (\<lambda>it'. it' = it) lo hi (st\<lparr>d_mem := m'\<rparr>) (PB_DECODERS env dec f (it_pData it) (st\<lparr>d_mem := m'\<rparr>))"
      using sf(2) data assms(2) by (intro func) simp_all
    ultimately show ?thesis by (simp only:) (rule safe_trans, assumption, simp_all)
  next
    case False
    then have "decode_static_field env n dec wt st = PB_DECODERS env dec f (it_pData it) (st\<lparr>d_mem := ?m\<rparr>)"
      using h by (simp add: decode_static_field_def Let_def df assms(2) f_def pb_htypes d_upd_def)
    moreover have "safe (\<lambda>it'. it' = it) lo hi (st\<lparr>d_mem := ?m\<rparr>) (PB_DECODERS env dec f (it_pData it) (st\<lparr>d_mem := ?m\<rparr>))"
      using sf(2) data assms(2) by (intro func) simp_all
    ultimately show ?thesis using m by (simp only:) (rule safe_trans, assumption, simp_all)
  qed
qed

lemma safe_decode_static_field:
  assumes "reader_ok (e_read env)" and "safe_messages sub dec" and "safe_defaults env sub n"
    and "static_field env sub lo hi it" and "d_iter st = it"
    and "it_fixed it \<longrightarrow> PB_HTYPE (f_type (it_field it)) = PB_HTYPE_REPEATED"
  shows "safe (\<lambda>it'. it' = it) lo hi st (decode_static_field env n dec wt st)"
proof -
  define f where "f = it_field it"
  define h where "h = PB_HTYPE (f_type f)"
  let ?I = "\<lambda>it'. it' = it"
  note sf = static_fieldD [OF assms(4), folded f_def, folded h_def]
  have func: "safe ?I lo hi st (PB_DECODERS env dec f p st)"
    if "lo \<le> p" "p + int (f_data_size f) \<le> hi" "d_iter st = it" for p st
    using that by (intro safe_decoders [OF assms(1,2,4)]) (simp_all add: f_def)
  have df: "d_field st = f" using assms(5) by (simp add: d_field_def f_def)
  consider "h = PB_HTYPE_REQUIRED" | "h = PB_HTYPE_OPTIONAL" | "h = PB_HTYPE_REPEATED" | "h = PB_HTYPE_ONEOF"
    | "h \<notin> {PB_HTYPE_REQUIRED, PB_HTYPE_OPTIONAL, PB_HTYPE_REPEATED, PB_HTYPE_ONEOF}" by blast
  then show ?thesis
  proof cases
    case 1
    then have "decode_static_field env n dec wt st = PB_DECODERS env dec f (it_pData it) st"
      by (simp add: decode_static_field_def Let_def df assms(5) h_def)
    then show ?thesis using func [OF sf(2) _ assms(5)] sf(3) 1 by (simp add: pb_htypes)
  next
    case 2
    let ?st = "if size_is_data it then st else d_upd (\<lambda>m. store m (it_pSize it) 1 1) st"
    have "decode_static_field env n dec wt st = PB_DECODERS env dec f (it_pData it) ?st"
      using 2 by (simp add: decode_static_field_def Let_def df assms(5) h_def pb_htypes)
    moreover have "safe ?I lo hi ?st (PB_DECODERS env dec f (it_pData it) ?st)"
      using sf(2,3) 2 assms(5) by (intro func) (simp_all add: pb_htypes)
    moreover have "frame lo hi (d_mem st) (d_mem ?st)"
      using frame_optional [OF assms(4), of "d_mem st" 1] assms(6) 2 by (auto simp: f_def h_def pb_htypes)
    ultimately show ?thesis by (simp only:) (rule safe_trans, assumption+, simp)
  next
    case 3
    then show ?thesis by (intro safe_static_repeated [OF assms(4,5)]) (simp_all add: func [unfolded f_def] f_def h_def)
  next
    case 4
    then show ?thesis by (intro safe_static_oneof [OF assms(4,5) _ assms(3)]) (simp_all add: func [unfolded f_def] f_def h_def)
  next
    case 5
    then have "decode_static_field env n dec wt st = d_fail ''invalid field type'' st"
      by (simp add: decode_static_field_def Let_def df h_def)
    then show ?thesis using safe_fail [of ?I st] assms(5) by simp
  qed
qed


section \<open>Static tables anywhere in memory\<close>

lemma shift_static_field:
  "static_field env sub lo hi it \<Longrightarrow> static_field env sub (lo + k) (hi + k) (shift_iter k it)"
  by (simp add: static_field_def Let_def)

lemma static_table_iter:
  assumes "static_table env (Suc d) fs sz" and "valid_iter fs dest it"
  shows "static_field env (static_table env d) dest (dest + int sz) it"
proof -
  have "it\<lparr>it_fixed := False\<rparr> \<in> set (table_iters fs dest)" using assms(2) by (simp add: valid_iter_def)
  then obtain it' where it': "it' \<in> set (table_iters fs 0)" "it\<lparr>it_fixed := False\<rparr> = shift_iter dest it'"
    unfolding shift_table_iters [of fs dest] by auto
  have "static_field env (static_table env d) 0 (int sz) it'" using assms(1) it'(1) by simp
  from shift_static_field [OF this, of dest]
  have "static_field env (static_table env d) dest (dest + int sz) (it\<lparr>it_fixed := False\<rparr>)"
    by (simp add: it'(2) add.commute)
  then show ?thesis by (simp add: static_field_def)
qed


section \<open>Defaults and release\<close>

lemma field_default_safe:
  assumes "static_field env sub lo hi it" and "\<not> it_fixed it" and "safe_defaults env sub n"
  shows "\<exists>m'. pb_field_set_to_default env (Suc n) it m = Some m' \<and> frame lo hi m m'"
proof -
  define f where "f = it_field it"
  define h where "h = PB_HTYPE (f_type f)"
  note sf = static_fieldD [OF assms(1), folded f_def, folded h_def]
  show ?thesis
  proof (cases "h = PB_HTYPE_REPEATED \<or> h = PB_HTYPE_ONEOF")
    case True
    then have "frame lo hi m (store m (it_pSize it) 4 0)" using sf(6) by (intro frame_store) auto
    then show ?thesis using True sf(1,9) by (simp add: Let_def f_def h_def)
  next
    case False
    let ?m = "if h = PB_HTYPE_OPTIONAL \<and> \<not> size_is_data it then store m (it_pSize it) 1 0 else m"
    have m: "frame lo hi m ?m" using frame_optional [OF assms(1) _ assms(2), of m 0]
      by (auto simp: h_def f_def)
    have data: "it_pData it + int (f_data_size f) \<le> hi" using sf(3) False by blast
    have w: "frame lo hi m (mem_write ?m (it_pData it) bs)" if "length bs = f_data_size f" for bs
      using frame_trans [OF m frame_write] sf(2) data that by simp
    have e: "pb_field_set_to_default env (Suc n) it m =
        (if PB_LTYPE (f_type f) = PB_LTYPE_SUBMESSAGE then
           pb_message_set_to_defaults env n (e_table env (f_ptr f)) (it_pData it) ?m
         else if f_ptr f \<noteq> 0 then Some (mem_write ?m (it_pData it) (mem_read ?m (f_ptr f) (f_data_size f)))
         else Some (mem_write ?m (it_pData it) (replicate (f_data_size f) 0)))"
      using False sf(1,9) by (simp add: Let_def f_def h_def)
    show ?thesis
    proof (cases "PB_LTYPE (f_type f) = PB_LTYPE_SUBMESSAGE")
      case True
      then obtain m' where "pb_message_set_to_defaults env n (e_table env (f_ptr f)) (it_pData it) ?m = Some m'"
        "frame (it_pData it) (it_pData it + int (f_data_size f)) ?m m'"
        using assms(3) sf(7) unfolding safe_defaults_def by blast
      then show ?thesis using e True frame_trans [OF m frame_mono [OF _ sf(2) data]] by auto
    qed (use e w in \<open>simp add: mem_read_def\<close>)
  qed
qed

lemma begin_each:
  assumes "\<exists>y. iter_each (Suc (length fs)) g (snd (pb_field_iter_begin fs p)) m = Some y \<and> P y" and "P m"
  shows "\<exists>y. (case pb_field_iter_begin fs p of
       (False, _) \<Rightarrow> Some m
     | (True, it) \<Rightarrow> iter_each (Suc (length fs)) g it m) = Some y \<and> P y"
proof (cases "pb_field_iter_begin fs p")
  case (Pair b it)
  then show ?thesis using assms by (cases b) (simp_all del: iter_each.simps)
qed

lemma safe_defaults_static: "2 * d \<le> n \<Longrightarrow> safe_defaults env (static_table env d) n"
proof (induction d arbitrary: n)
  case 0
  then show ?case by (simp add: safe_defaults_def)
next
  case (Suc d)
  then obtain k where n: "n = Suc (Suc k)" "2 * d \<le> k" by (cases n; cases "n - 1") auto
  show ?case unfolding safe_defaults_def
  proof (intro allI impI)
    fix fs sz p m
    assume tab: "static_table env (Suc d) fs sz"
    let ?g = "\<lambda>it m. pb_field_set_to_default env (Suc k) it m"
    have "\<exists>y. ?g (table_iters fs p ! i) x = Some y \<and> frame p (p + int sz) m y"
      if "i < length (table_iters fs p)" "frame p (p + int sz) m x" for i x
      using field_default_safe [OF static_table_iter [OF tab valid_iter_nth [OF that(1)]] _ Suc.IH [OF n(2)], of x]
        that frame_trans [OF that(2)] by auto
    from begin_each [OF iter_each_total [of fs p "frame p (p + int sz) m" ?g m, OF this]]
    show "\<exists>m'. pb_message_set_to_defaults env n fs p m = Some m' \<and> frame p (p + int sz) m m'"
      unfolding n(1) pb_message_set_to_defaults.simps by simp
  qed
qed

text \<open>A message of static fields holds no memory of its own, so its release does nothing.\<close>

lemma release_items_nothing:
  assumes "\<And>p m. pb_release env n (e_table env (f_ptr f)) p m = Some m"
  shows "release_items env (Suc n) k f p m = Some m"
  using assms by (induction k arbitrary: p) simp_all

lemma release_pointer_static: "PB_ATYPE (f_type (it_field it)) = PB_ATYPE_STATIC \<Longrightarrow> release_pointer env it m = m"
  by (simp add: release_pointer_def pb_atypes)

lemma release_field_static:
  assumes "static_field env sub lo hi it"
    and "\<And>fs k p m. sub fs k \<Longrightarrow> pb_release env n fs p m = Some m"
  shows "pb_release_single_field env (Suc (Suc n)) it m = Some m"
proof -
  note sf = static_fieldD [OF assms(1)]
  have "release_items env (Suc n) k (it_field it) p m = Some m"
    if "PB_LTYPE (f_type (it_field it)) = PB_LTYPE_SUBMESSAGE" for k p
    using assms(2) sf(7) [OF that] by (intro release_items_nothing) blast
  then show ?thesis using sf(1,9) by (simp add: Let_def release_pointer_static)
qed

lemma release_static:
  "static_table env d fs sz \<Longrightarrow> 3 * d \<le> n \<Longrightarrow> pb_release env n fs p m = Some m"
proof (induction d arbitrary: n fs sz p m)
  case 0
  then show ?case by simp
next
  case (Suc d)
  then obtain k where n: "n = Suc (Suc (Suc k))" "3 * d \<le> k"
    by (cases n; cases "n - 1"; cases "n - 2") auto
  have "\<exists>y. pb_release_single_field env (Suc (Suc k)) (table_iters fs p ! i) x = Some y \<and> y = m"
    if "i < length (table_iters fs p)" "x = m" for i x
    using release_field_static [OF static_table_iter [OF Suc.prems(1) valid_iter_nth [OF that(1)]], of k x]
      Suc.IH n(2) that(2) by blast
  from begin_each [OF iter_each_total [of fs p "\<lambda>x. x = m" "pb_release_single_field env (Suc (Suc k))" m, OF this]]
  show ?case unfolding n(1) pb_release.simps by simp
qed


section \<open>One field\<close>

lemma iter_find_round:
  assumes "valid_iter fs dest it"
  obtains r it' where "pb_field_iter_find it tag = Some (r, it')" "valid_iter fs dest it'"
    "r \<Longrightarrow> f_tag (it_field it') = tag"
  using iter_search_round [OF assms, of "\<lambda>f. f_tag f = tag \<and> PB_LTYPE (f_type f) \<noteq> PB_LTYPE_EXTENSION"]
  unfolding pb_field_iter_find_def by blast

lemma safe_release_union:
  assumes "static_table env (Suc d) fs sz" and "3 * d + 2 \<le> n" and "valid_iter fs dest (d_iter st)"
  shows "safe (valid_iter fs dest) lo hi st (pb_release_union_field env n st)"
proof (cases "get_size st = 0 \<or> get_size st = f_tag (d_field st)")
  case True
  then have "pb_release_union_field env n st = d_done st" by (simp add: pb_release_union_field_def Let_def)
  then show ?thesis using safe_done [of "valid_iter fs dest" st] assms(3) by simp
next
  case False
  obtain r it where it: "pb_field_iter_find (d_iter st) (get_size st) = Some (r, it)" "valid_iter fs dest it"
    using iter_find_round [OF assms(3)] by metis
  obtain q it' where it': "pb_field_iter_find it (f_tag (d_field st)) = Some (q, it')" "valid_iter fs dest it'"
    using iter_find_round [OF it(2)] by metis
  obtain k where k: "n = Suc (Suc k)" "3 * d \<le> k" using assms(2) by (cases n; cases "n - 1") auto
  have "pb_release_single_field env n it (d_mem st) = Some (d_mem st)"
    unfolding k(1) by (rule release_field_static [OF static_table_iter [OF assms(1) it(2)]])
      (rule release_static, assumption, rule k(2))
  then show ?thesis using False it it'
    by (auto simp: pb_release_union_field_def Let_def intro!: safeI [OF refl] simp: d_done_def d_fail_def)
qed

lemma safe_decode_field:
  assumes "reader_ok (e_read env)" and "safe_messages (static_table env d) dec" and "3 * d + 2 \<le> n"
    and "static_table env (Suc d) fs sz" and "valid_iter fs dest (d_iter st)"
  shows "safe (valid_iter fs dest) dest (dest + int sz) st (decode_field env n dec wt st)"
proof -
  have "safe (valid_iter fs dest) dest (dest + int sz) st'
      (let t = PB_ATYPE (f_type (d_field st')) in
          if t = PB_ATYPE_STATIC then decode_static_field env n dec wt st'
          else if t = PB_ATYPE_POINTER then decode_pointer_field env n dec wt st'
          else if t = PB_ATYPE_CALLBACK then decode_callback_field env n wt st'
          else d_fail ''invalid field type'' st')"
    if v: "valid_iter fs dest (d_iter st')" for st'
  proof -
    note sf = static_table_iter [OF assms(4) v]
    have "2 * d \<le> n" using assms(3) by simp
    then have "safe (\<lambda>it'. it' = d_iter st') dest (dest + int sz) st' (decode_static_field env n dec wt st')"
      using v by (intro safe_decode_static_field [OF assms(1,2) safe_defaults_static sf])
        (simp_all add: valid_iter_def)
    then have "safe (valid_iter fs dest) dest (dest + int sz) st' (decode_static_field env n dec wt st')"
      using v by (auto simp: safe_def)
    then show ?thesis using static_fieldD(1) [OF sf] by (simp add: d_field_def)
  qed
  then show ?thesis unfolding decode_field_def
    using safe_release_union [OF assms(4,3,5)] safe_done [of "valid_iter fs dest" st] assms(5)
    by (intro safe_then [where J = "valid_iter fs dest"]) simp_all
qed

section \<open>All fields\<close>

lemma pb_decode_tag_bound:
  assumes "pb_decode_tag cb s = (Some (wt, tag), eof, s')"
  shows "unat tag < 2 ^ 29"
proof -
  obtain temp where t: "tag = drop_bit 3 (temp :: u32)"
    using assms by (auto simp: pb_decode_tag_def split: prod.splits option.splits if_splits)
  have "unat temp < 2 ^ 32" using unsigned_less [of temp, where ?'a = nat] by simp
  moreover have "unat tag = drop_bit 3 (unat temp)" unfolding t by (rule unat_drop_bit_eq)
  ultimately show ?thesis by (simp add: drop_bit_eq_div)
qed

lemma safe_same:
  "safe I lo hi st' r \<Longrightarrow> d_in st' = d_in st \<Longrightarrow> d_mem st' = d_mem st \<Longrightarrow> safe I lo hi st r"
  by (simp add: safe_def)

lemma safe_decode_unknown:
  assumes "static_table env (Suc d) fs sz" and "valid_iter fs dest (d_iter st)" and "tag < 2 ^ 29"
  shows "safe (valid_iter fs dest) lo hi st (map_option snd (decode_unknown env n dec tag wt l st))"
proof -
  let ?skip = "\<lambda>st. d_get (\<lambda>s. pb_skip_field (e_read env) s wt) (\<lambda>_. d_done) st"
  obtain r it where it: "find_extension_field (d_iter st) = Some (r, it)" "valid_iter fs dest it"
    "r \<longrightarrow> PB_LTYPE (f_type (it_field it)) = PB_LTYPE_EXTENSION"
    using iter_search_round [OF assms(2)] unfolding find_extension_field_def by blast
  have "\<not> r" using it(3) static_fieldD(9) [OF static_table_iter [OF assms(1) it(2)]] by blast
  then have "map_option snd (decode_unknown env n dec tag wt l st) =
      ?skip (if l_extension_range_start l \<le> tag then st\<lparr>d_iter := it\<rparr> else st)"
    using it(1) assms(3) by (simp add: decode_unknown_def Let_def option.map_comp o_def option.map_ident)
  moreover have "safe (valid_iter fs dest) lo hi st' (?skip st')" if "valid_iter fs dest (d_iter st')" for st'
    using that by (intro safe_get [OF shrinks_skip_field]) (auto intro: safe_done)
  ultimately show ?thesis using assms(2) it(2)
    by (cases "l_extension_range_start l \<le> tag")
      (simp_all add: safe_same [where st' = "st\<lparr>d_iter := it\<rparr>"])
qed

lemma safe_decode_known:
  assumes "reader_ok (e_read env)" and "safe_messages (static_table env d) dec" and "3 * d + 2 \<le> n"
    and "static_table env (Suc d) fs sz" and "valid_iter fs dest (d_iter st)"
  shows "safe (valid_iter fs dest) dest (dest + int sz) st (map_option snd (decode_known env n dec wt l st))"
proof -
  let ?it = "d_iter st"
  let ?fixed = "PB_HTYPE (f_type (it_field ?it)) = PB_HTYPE_REPEATED \<and> size_is_data ?it"
  have v: "valid_iter fs dest (?it\<lparr>it_fixed := True\<rparr>)" if ?fixed
    using assms(5) that static_fieldD(8) [OF static_table_iter [OF assms(4,5)]] by (simp add: valid_iter_def)
  have f: "safe (valid_iter fs dest) dest (dest + int sz) st (decode_field env n dec wt st')"
    if "d_in st' = d_in st" "d_mem st' = d_mem st" "valid_iter fs dest (d_iter st')" for st'
    by (rule safe_same [OF safe_decode_field [OF assms(1-4) that(3)] that(1,2)])
  show ?thesis
  proof (cases "?fixed \<and> l_fixed_count_field l \<noteq> Some (it_pos ?it) \<and> fixed_count_bad l st")
    case True
    then show ?thesis using safe_fail [of "valid_iter fs dest" st] assms(5)
      by (simp add: decode_known_def Let_def option.map_comp o_def option.map_ident)
  next
    case False
    then show ?thesis using assms(5) v
      by (cases ?fixed) (auto simp: decode_known_def Let_def option.map_comp o_def option.map_ident intro!: f)
  qed
qed


text \<open>Each round of the loop takes a tag, of at least a byte.\<close>

lemma safe_decode_loop:
  assumes "reader_ok (e_read env)" and "safe_messages (static_table env d) dec" and "3 * d + 2 \<le> n"
    and "static_table env (Suc d) fs sz" and "valid_iter fs dest (d_iter st)"
    and "is_bytes_left (d_in st) < k"
  shows "safe (valid_iter fs dest) dest (dest + int sz) st (map_option snd (decode_loop env n dec k l st))"
  using assms(5,6)
proof (induction k arbitrary: l st)
  case 0
  then show ?case by simp
next
  case (Suc k)
  let ?lo = dest and ?hi = "dest + int sz" and ?I = "valid_iter fs dest"
  obtain w eof s where tag: "pb_decode_tag (e_read env) (d_in st) = (w, eof, s)" by (rule prod_cases3)
  note left = pb_decode_tag_bytes_left [OF tag]
  consider "is_bytes_left (d_in st) = 0" | "is_bytes_left (d_in st) \<noteq> 0" "w = None"
    | wt tg where "is_bytes_left (d_in st) \<noteq> 0" "w = Some (wt, tg)" by (cases w) auto
  then show ?case
  proof cases
    case 1
    then show ?thesis using safe_Some [of ?I st _ _ True] Suc.prems(1) by simp
  next
    case 2
    then show ?thesis using Suc.prems(1) tag left by (simp add: safe_def)
  next
    case 3
    obtain r it where it: "pb_field_iter_find (d_iter st) (unat tg) = Some (r, it)" "?I it"
      using iter_find_round [OF Suc.prems(1)] by metis
    let ?st = "st\<lparr>d_in := s, d_iter := it\<rparr>"
    let ?step = "if r then decode_known env n dec wt l ?st else decode_unknown env n dec (unat tg) wt l ?st"
    have "safe ?I ?lo ?hi ?st (map_option snd ?step)"
      using safe_decode_known [OF assms(1-4), of dest ?st wt l]
        safe_decode_unknown [OF assms(4), of dest ?st "unat tg"] pb_decode_tag_bound [OF tag [unfolded 3(2)]] it(2)
      by simp
    then obtain l' b st' where step: "?step = Some (l', b, st')" "frame ?lo ?hi (d_mem st) (d_mem st')"
      "is_bytes_left (d_in st') \<le> is_bytes_left s" "?I (d_iter st')"
      by (auto simp: safe_def)
    have e: "decode_loop env n dec (Suc k) l st = (if b then decode_loop env n dec k l' st' else Some (l', False, st'))"
      using 3 tag it(1) step(1) by (simp split: bool.split)
    show ?thesis
    proof (cases b)
      case True
      have "safe ?I ?lo ?hi st' (map_option snd (decode_loop env n dec k l' st'))"
        using left 3 step(3) Suc.prems(2) by (intro Suc.IH step(4)) simp
      then show ?thesis unfolding e using True step(2,3) left by (simp add: safe_trans)
    next
      case False
      then show ?thesis unfolding e using step left by (auto simp: safe_def)
    qed
  qed
qed

lemma safe_check_required:
  assumes "valid_iter fs dest (d_iter st)"
  shows "safe (valid_iter fs dest) lo hi st (check_required l st)"
proof -
  obtain c t it where it: "seek_end (Suc (length (it_start (d_iter st)))) (d_iter st) = Some (c, t, it)"
    "valid_iter fs dest it"
    using seek_end_valid [OF assms] by blast
  have "safe (valid_iter fs dest) lo hi (st\<lparr>d_iter := it\<rparr>) (d_done (st\<lparr>d_iter := it\<rparr>))"
    "safe (valid_iter fs dest) lo hi (st\<lparr>d_iter := it\<rparr>) (d_fail msg (st\<lparr>d_iter := it\<rparr>))" for msg
    using it(2) by (simp_all add: safe_done safe_fail)
  then have "safe (valid_iter fs dest) lo hi (st\<lparr>d_iter := it\<rparr>) (check_required l st)"
    unfolding check_required_def it(1) Let_def by simp
  then show ?thesis by (rule safe_same) simp_all
qed

lemma safe_decode_fields:
  assumes "reader_ok (e_read env)" and "safe_messages (static_table env d) dec" and "3 * d + 2 \<le> n"
    and "static_table env (Suc d) fs sz"
  shows "safe (\<lambda>it. it = d_iter st) dest (dest + int sz) st (decode_fields env n dec fs dest st)"
proof -
  let ?st = "st\<lparr>d_iter := snd (pb_field_iter_begin fs dest), d_fixed := 0\<rparr>"
  have "safe (valid_iter fs dest) dest (dest + int sz) ?st
      (map_option snd (decode_loop env n dec (Suc (is_bytes_left (d_in st))) initial_loop ?st))"
    by (intro safe_decode_loop [OF assms]) (simp_all add: valid_iter_begin)
  then obtain l b st' where loop:
    "decode_loop env n dec (Suc (is_bytes_left (d_in st))) initial_loop ?st = Some (l, b, st')"
    "frame dest (dest + int sz) (d_mem st) (d_mem st')"
    "is_bytes_left (d_in st') \<le> is_bytes_left (d_in st)" "valid_iter fs dest (d_iter st')"
    by (auto simp: safe_def simp del: decode_loop.simps)
  let ?fin = "if b then if fixed_count_bad l st' then d_fail ''wrong size for fixed count field'' st'
      else check_required l st' else Some (False, st')"
  have "safe (valid_iter fs dest) dest (dest + int sz) st' ?fin"
    using loop(4) by (simp add: safe_check_required safe_fail safe_Some)
  then obtain c st'' where fin: "?fin = Some (c, st'')" "frame dest (dest + int sz) (d_mem st') (d_mem st'')"
    "is_bytes_left (d_in st'') \<le> is_bytes_left (d_in st')"
    by (rule safeE)
  have "decode_fields env n dec fs dest st = Some (c, st''\<lparr>d_iter := d_iter st, d_fixed := d_fixed st\<rparr>)"
    unfolding decode_fields_def Let_def loop(1) using fin(1) by (cases b) simp_all
  moreover have "frame dest (dest + int sz) (d_mem st) (d_mem st'')"
    by (rule frame_trans [OF loop(2) fin(2)])
  ultimately show ?thesis using loop(3) fin(3) by (simp add: safe_def)
qed

section \<open>Messages\<close>

lemma safe_decode_message:
  assumes "reader_ok (e_read env)" and "static_table env d fs sz" and "3 * d < n"
  shows "safe (\<lambda>it. it = d_iter st) dest (dest + int sz) st (decode_message env n init fs dest st)"
  using assms(2,3)
proof (induction d arbitrary: n fs sz dest st init)
  case 0
  then show ?case by simp
next
  case (Suc d)
  obtain k where n: "n = Suc k" "3 * Suc d \<le> k" using Suc.prems(2) by (cases n) auto
  let ?hi = "dest + int sz"
  obtain m where m: "(if init then pb_message_set_to_defaults env k fs dest (d_mem st) else Some (d_mem st)) = Some m"
    "frame dest ?hi (d_mem st) m"
  proof (cases init)
    case True
    have "safe_defaults env (static_table env (Suc d)) k" using n(2) by (intro safe_defaults_static) simp
    then show ?thesis using that True Suc.prems(1) unfolding safe_defaults_def by metis
  qed (use that in simp)
  let ?st = "st\<lparr>d_mem := m\<rparr>"
  have "safe_messages (static_table env d) (decode_message env k)"
    unfolding safe_messages_def using Suc.IH n(2) by simp
  then have "safe (\<lambda>it. it = d_iter ?st) dest ?hi ?st (decode_fields env k (decode_message env k) fs dest ?st)"
    using n(2) by (intro safe_decode_fields [OF assms(1) _ _ Suc.prems(1)]) simp_all
  then obtain b st' where f: "decode_fields env k (decode_message env k) fs dest ?st = Some (b, st')"
    "frame dest ?hi m (d_mem st')" "is_bytes_left (d_in st') \<le> is_bytes_left (d_in st)" "d_iter st' = d_iter st"
    by (rule safeE) simp
  have "pb_release env k fs dest (d_mem st') = Some (d_mem st')"
    by (rule release_static [OF Suc.prems(1) n(2)])
  then have "decode_message env n init fs dest st = Some (b, st')"
    using m(1) f(1) n(1) by simp
  moreover have "frame dest ?hi (d_mem st) (d_mem st')" by (rule frame_trans [OF m(2) f(2)])
  ultimately show ?case using f(3,4) by (simp add: safe_def)
qed


lemma safe_decode_delimited:
  assumes "reader_ok (e_read env)" and "static_table env d fs sz" and "3 * d < n"
  shows "safe (\<lambda>it. it = d_iter st) dest (dest + int sz) st (decode_delimited env n init fs dest st)"
  unfolding decode_delimited_def
proof (rule safe_get, rule shrinks_substream, rule refl)
  fix sub s
  let ?st = "st\<lparr>d_in := s\<rparr>"
  show "safe (\<lambda>it. it = d_iter st) dest (dest + int sz) ?st
     (d_on_sub sub (decode_message env n init fs dest) (\<lambda>status sub. d_close env sub status) ?st)"
    using safe_decode_message [OF assms, of "?st\<lparr>d_in := sub\<rparr>" dest init]
    by (intro safe_on_sub [where J = "\<lambda>it. it = d_iter st"]) (simp_all add: safe_close)
qed

lemma safe_run:
  assumes "\<And>st. safe (I st) lo hi st (f st)"
  shows "\<exists>ok s' m'. run_decode f s m = Some (ok, s', m') \<and> frame lo hi m m' \<and>
     is_bytes_left s' \<le> is_bytes_left s"
  using assms [of "\<lparr>d_in = s, d_mem = m, d_iter = snd (pb_field_iter_begin [] 0), d_fixed = 0\<rparr>"]
  by (auto simp: run_decode_def safe_def)

text \<open>C12: decoding into a message of static fields returns on every input, whatever bytes the
  stream delivers and whether they parse or not, and changes no byte outside the message;
  nested messages, packed and repeated arrays, strings, \<open>oneof\<close> fields and fixed-count
  arrays included. The bound on the nesting is three for each level of the tables.\<close>

theorem pb_decode_stays_inside:
  assumes "reader_ok (e_read env)" and "static_table env d fs sz" and "3 * d < n"
    and "f \<in> {pb_decode env n fs dest, pb_decode_noinit env n fs dest,
      pb_decode_delimited env n fs dest, pb_decode_delimited_noinit env n fs dest}"
  shows "\<exists>ok s' m'. f s m = Some (ok, s', m') \<and> frame dest (dest + int sz) m m' \<and>
     is_bytes_left s' \<le> is_bytes_left s"
  using assms(4) safe_run [OF safe_decode_message [OF assms(1-3)]] safe_run [OF safe_decode_delimited [OF assms(1-3)]]
  unfolding pb_decode_def pb_decode_noinit_def pb_decode_delimited_def pb_decode_delimited_noinit_def
  by auto

text \<open>A message \<open>{int32 id; uint32 list[3]; sub {uint32 x}}\<close> as the generator of nanopb lays it
  out: \<open>id\<close> at 0, \<open>list_count\<close> at 4, \<open>list\<close> at 8, \<open>has_sub\<close> at 20, \<open>sub\<close> at 24.\<close>

definition demo_fields :: "pb_field list" where
  "demo_fields =
     [\<lparr>f_tag = 1, f_type = 0x00, f_data_offset = 0, f_size_offset = 0, f_data_size = 4,
       f_array_size = 0, f_ptr = 0\<rparr>,
      \<lparr>f_tag = 2, f_type = 0x21, f_data_offset = 4, f_size_offset = - 4, f_data_size = 4,
       f_array_size = 3, f_ptr = 0\<rparr>,
      \<lparr>f_tag = 3, f_type = 0x17, f_data_offset = 4, f_size_offset = - 4, f_data_size = 4,
       f_array_size = 0, f_ptr = 64\<rparr>]"

definition demo_sub_fields :: "pb_field list" where
  "demo_sub_fields =
     [\<lparr>f_tag = 1, f_type = 0x01, f_data_offset = 0, f_size_offset = 0, f_data_size = 4,
       f_array_size = 0, f_ptr = 0\<rparr>]"

definition demo_env :: "unit pb_env" where
  "demo_env =
     \<lparr>e_read = (\<lambda>u n. Failed True u), e_table = (\<lambda>p. if p = 64 then demo_sub_fields else []),
      e_ext_type = (\<lambda>p. \<lparr>x_decode = 0, x_encode = 0, x_arg = 0\<rparr>),
      e_realloc = (\<lambda>m p n. (0, m)), e_free = (\<lambda>m p. m),
      e_decode = (\<lambda>fn s f p m. (False, s, m)), e_ext_decode = (\<lambda>fn s p tag wt m. (False, s, m))\<rparr>"

lemma demo_static: "static_table demo_env 2 demo_fields 28"
  by code_simp

theorem pb_decode_stays_inside_witness:
  "\<exists>ok s' m'. pb_decode demo_env 7 demo_fields 1000
       (ibuf [0x08, 0x05, 0x12, 0x03, 0x01, 0x02, 0x03, 0x1A, 0x02, 0x08, 0x07] [] None) (\<lambda>_. 0) =
       Some (ok, s', m') \<and> frame 1000 1028 (\<lambda>_. 0) m'"
  using pb_decode_stays_inside [of demo_env 2 demo_fields 28 7 "pb_decode demo_env 7 demo_fields 1000" 1000
      "ibuf [0x08, 0x05, 0x12, 0x03, 0x01, 0x02, 0x03, 0x1A, 0x02, 0x08, 0x07] [] None" "\<lambda>_. 0"]
  by (force simp: reader_ok_def demo_env_def [THEN arg_cong, of e_read] demo_static)

end
