(* ===== verification/PbEncode.thy ===== *)
theory PbEncode
  imports PbField
begin

text \<open>
  The message encoder of nanopb, \<open>pb_encode.c\<close>. As in the decoder the constant tables and the
  callbacks of the caller are in an environment, and messages nest up to a bound: \<open>None\<close> says
  that it was too small, or that the C code has no result, as when it calls the encoder of an
  extension field, which is \<open>NULL\<close>.

  A step takes the output stream and the memory and returns whether the C function returns
  true, and both after it. The encoder itself writes no memory, but a callback may, through
  its argument.
\<close>

section \<open>Environment and state\<close>

record 's pb_enc_env =
  n_write :: "'s pb_writer"
  n_table :: "int \<Rightarrow> pb_field list"
  n_ext_encode_fn :: "int \<Rightarrow> int"
  n_ext_arg :: "int \<Rightarrow> int"
  n_encode :: "int \<Rightarrow> 's pb_ostream \<Rightarrow> pb_field \<Rightarrow> int \<Rightarrow> pb_mem \<Rightarrow> bool \<times> 's pb_ostream \<times> pb_mem"
  n_ext_encode :: "int \<Rightarrow> 's pb_ostream \<Rightarrow> int \<Rightarrow> pb_mem \<Rightarrow> bool \<times> 's pb_ostream \<times> pb_mem"

record 's pb_enc =
  c_out :: "'s pb_ostream"
  c_mem :: pb_mem

type_synonym 's pb_enc_step = "'s pb_enc \<Rightarrow> (bool \<times> 's pb_enc) option"

text \<open>A writer of the stream; \<open>PB_RETURN_ERROR\<close>; two steps, the second only when the first
  returned true.\<close>

definition c_do :: "('s pb_ostream \<Rightarrow> bool \<times> 's pb_ostream) \<Rightarrow> 's pb_enc_step" where
  "c_do f c = (case f (c_out c) of (ok, s) \<Rightarrow> Some (ok, c\<lparr>c_out := s\<rparr>))"

definition c_done :: "'s pb_enc_step" where
  "c_done c = Some (True, c)"

definition c_fail :: "string \<Rightarrow> 's pb_enc_step" where
  "c_fail msg = c_do (os_fail msg)"

definition c_then :: "(bool \<times> 's pb_enc) option \<Rightarrow> 's pb_enc_step \<Rightarrow> (bool \<times> 's pb_enc) option" where
  "c_then r k = (case r of Some (True, c) \<Rightarrow> k c | _ \<Rightarrow> r)"

section \<open>Scalar fields\<close>

definition pb_encode_tag_for_field :: "'s pb_enc_env \<Rightarrow> pb_field \<Rightarrow> 's pb_enc_step" where
  "pb_encode_tag_for_field env field =
     (let t = PB_LTYPE (f_type field); tag = (\<lambda>wt. c_do (\<lambda>s. pb_encode_tag (n_write env) s wt (of_nat (f_tag field))))
      in if t = PB_LTYPE_VARINT \<or> t = PB_LTYPE_UVARINT \<or> t = PB_LTYPE_SVARINT then tag PB_WT_VARINT
         else if t = PB_LTYPE_FIXED32 then tag PB_WT_32BIT
         else if t = PB_LTYPE_FIXED64 then tag PB_WT_64BIT
         else if t = PB_LTYPE_BYTES \<or> t = PB_LTYPE_STRING \<or> t = PB_LTYPE_SUBMESSAGE \<or>
                 t = PB_LTYPE_FIXED_LENGTH_BYTES then tag PB_WT_STRING
         else c_fail ''invalid field type'')"

text \<open>The value of a signed or unsigned variable of one, two, four or eight bytes, as 64 bits.\<close>

definition signed_value :: "nat \<Rightarrow> nat \<Rightarrow> u64" where
  "signed_value n v = signed_take_bit (8 * n - 1) (of_nat v)"

definition unsigned_value :: "nat \<Rightarrow> nat \<Rightarrow> u64" where
  "unsigned_value n v = of_nat v"

definition load_int :: "(nat \<Rightarrow> nat \<Rightarrow> u64) \<Rightarrow> pb_field \<Rightarrow> int \<Rightarrow> (u64 \<Rightarrow> 's pb_enc_step) \<Rightarrow> 's pb_enc_step" where
  "load_int value field src k c =
     (let n = f_data_size field in
      if n = 1 \<or> n = 2 \<or> n = 4 \<or> n = 8 then k (value n (load (c_mem c) src n)) c
      else c_fail ''invalid data_size'' c)"

definition pb_enc_varint :: "'s pb_enc_env \<Rightarrow> pb_field \<Rightarrow> int \<Rightarrow> 's pb_enc_step" where
  "pb_enc_varint env field src =
     load_int signed_value field src (\<lambda>v. c_do (\<lambda>s. pb_encode_varint (n_write env) s v))"

definition pb_enc_uvarint :: "'s pb_enc_env \<Rightarrow> pb_field \<Rightarrow> int \<Rightarrow> 's pb_enc_step" where
  "pb_enc_uvarint env field src =
     load_int unsigned_value field src (\<lambda>v. c_do (\<lambda>s. pb_encode_varint (n_write env) s v))"

definition pb_enc_svarint :: "'s pb_enc_env \<Rightarrow> pb_field \<Rightarrow> int \<Rightarrow> 's pb_enc_step" where
  "pb_enc_svarint env field src =
     load_int signed_value field src (\<lambda>v. c_do (\<lambda>s. pb_encode_svarint (n_write env) s v))"

definition pb_enc_fixed32 :: "'s pb_enc_env \<Rightarrow> pb_field \<Rightarrow> int \<Rightarrow> 's pb_enc_step" where
  "pb_enc_fixed32 env field src c =
     c_do (\<lambda>s. pb_encode_fixed32 (n_write env) s (of_nat (load (c_mem c) src 4))) c"

definition pb_enc_fixed64 :: "'s pb_enc_env \<Rightarrow> pb_field \<Rightarrow> int \<Rightarrow> 's pb_enc_step" where
  "pb_enc_fixed64 env field src c =
     c_do (\<lambda>s. pb_encode_fixed64 (n_write env) s (of_nat (load (c_mem c) src 8))) c"

section \<open>Bytes and strings\<close>

definition pb_enc_bytes :: "'s pb_enc_env \<Rightarrow> pb_field \<Rightarrow> int \<Rightarrow> 's pb_enc_step" where
  "pb_enc_bytes env field src c =
     (if src = 0 then c_do (\<lambda>s. pb_encode_string (n_write env) s [] 0) c
      else
        let sz = load (c_mem c) src 4 in
        if PB_ATYPE (f_type field) = PB_ATYPE_STATIC \<and> size_add sz 4 > f_data_size field then
          c_fail ''bytes size exceeded'' c
        else c_do (\<lambda>s. pb_encode_string (n_write env) s (mem_read (c_mem c) (src + 4) sz) sz) c)"

text \<open>The loop that stands in for \<open>strnlen\<close>.\<close>

fun c_strnlen :: "pb_mem \<Rightarrow> int \<Rightarrow> nat \<Rightarrow> nat" where
  "c_strnlen m p 0 = 0"
| "c_strnlen m p (Suc max_size) = (if m p \<noteq> 0 then Suc (c_strnlen m (p + 1) max_size) else 0)"

definition pb_enc_string :: "'s pb_enc_env \<Rightarrow> pb_field \<Rightarrow> int \<Rightarrow> 's pb_enc_step" where
  "pb_enc_string env field src c =
     (let max_size = (if PB_ATYPE (f_type field) = PB_ATYPE_POINTER then SIZE_MAX else f_data_size field);
          sz = (if src = 0 then 0 else c_strnlen (c_mem c) src max_size)
      in c_do (\<lambda>s. pb_encode_string (n_write env) s (mem_read (c_mem c) src sz) sz) c)"

definition pb_enc_fixed_length_bytes :: "'s pb_enc_env \<Rightarrow> pb_field \<Rightarrow> int \<Rightarrow> 's pb_enc_step" where
  "pb_enc_fixed_length_bytes env field src c =
     c_do (\<lambda>s. pb_encode_string (n_write env) s (mem_read (c_mem c) src (f_data_size field)) (f_data_size field)) c"

section \<open>Submessages\<close>

text \<open>The encoder of nested messages is an argument. The message goes to a sizing stream first,
  then its length and the message itself to a substream that has just that room.\<close>

type_synonym 's pb_message_encoder = "pb_field list \<Rightarrow> int \<Rightarrow> 's pb_enc_step"

definition encode_substream :: "'s pb_enc_env \<Rightarrow> 's pb_message_encoder \<Rightarrow> pb_field list \<Rightarrow> int \<Rightarrow> nat \<Rightarrow>
    's pb_enc_step" where
  "encode_substream env enc fs src sz c =
     (let s = c_out c in
      if os_state s = SizingSink then c_do (\<lambda>s. pb_write (n_write env) s [] sz) c
      else if size_add (os_bytes_written s) sz > os_max_size s then c_fail ''stream full'' c
      else
        case enc fs src (c\<lparr>c_out := \<lparr>os_state = os_state s, os_max_size = sz,
                 os_bytes_written = 0, os_errmsg = None\<rparr>\<rparr>) of
          None \<Rightarrow> None
        | Some (status, sub) \<Rightarrow>
            let w = os_bytes_written (c_out sub);
                c = sub\<lparr>c_out := s\<lparr>os_bytes_written := size_add (os_bytes_written s) w,
                      os_state := os_state (c_out sub), os_errmsg := os_errmsg (c_out sub)\<rparr>\<rparr>
            in if w \<noteq> sz then c_fail ''submsg size changed'' c else Some (status, c))"

definition pb_encode_submessage :: "'s pb_enc_env \<Rightarrow> 's pb_message_encoder \<Rightarrow> pb_field list \<Rightarrow> int \<Rightarrow>
    's pb_enc_step" where
  "pb_encode_submessage env enc fs src c =
     (case enc fs src (c\<lparr>c_out := PB_OSTREAM_SIZING\<rparr>) of
        None \<Rightarrow> None
      | Some (False, sub) \<Rightarrow>
          Some (False, sub\<lparr>c_out := (c_out c)\<lparr>os_errmsg := os_errmsg (c_out sub)\<rparr>\<rparr>)
      | Some (True, sub) \<Rightarrow>
          let sz = os_bytes_written (c_out sub) in
          c_then (c_do (\<lambda>s. pb_encode_varint (n_write env) s (of_nat sz)) (sub\<lparr>c_out := c_out c\<rparr>))
            (encode_substream env enc fs src sz))"

definition pb_enc_submessage :: "'s pb_enc_env \<Rightarrow> 's pb_message_encoder \<Rightarrow> pb_field \<Rightarrow> int \<Rightarrow> 's pb_enc_step" where
  "pb_enc_submessage env enc field src =
     (if f_ptr field = 0 then c_fail ''invalid field descriptor''
      else pb_encode_submessage env enc (n_table env (f_ptr field)) src)"

text \<open>\<open>PB_ENCODERS[PB_LTYPE(type)]\<close>.\<close>

definition PB_ENCODERS :: "'s pb_enc_env \<Rightarrow> 's pb_message_encoder \<Rightarrow> pb_field \<Rightarrow> int \<Rightarrow> 's pb_enc_step" where
  "PB_ENCODERS env enc field src =
     (let t = PB_LTYPE (f_type field) in
      if t = PB_LTYPE_VARINT then pb_enc_varint env field src
      else if t = PB_LTYPE_UVARINT then pb_enc_uvarint env field src
      else if t = PB_LTYPE_SVARINT then pb_enc_svarint env field src
      else if t = PB_LTYPE_FIXED32 then pb_enc_fixed32 env field src
      else if t = PB_LTYPE_FIXED64 then pb_enc_fixed64 env field src
      else if t = PB_LTYPE_BYTES then pb_enc_bytes env field src
      else if t = PB_LTYPE_STRING then pb_enc_string env field src
      else if t = PB_LTYPE_SUBMESSAGE then pb_enc_submessage env enc field src
      else if t = PB_LTYPE_FIXED_LENGTH_BYTES then pb_enc_fixed_length_bytes env field src
      else (\<lambda>c. None))"

section \<open>Arrays\<close>

text \<open>The loops of \<open>encode_array\<close>: a step at each of \<open>cnt\<close> entries of \<open>sz\<close> bytes.\<close>

fun encode_items :: "(int \<Rightarrow> 's pb_enc_step) \<Rightarrow> nat \<Rightarrow> nat \<Rightarrow> int \<Rightarrow> 's pb_enc_step" where
  "encode_items f sz 0 p c = c_done c"
| "encode_items f sz (Suc cnt) p c = c_then (f p c) (encode_items f sz cnt (p + int sz))"

text \<open>The size of a packed array: known for fixed-width entries, else found by writing the
  entries to a sizing stream.\<close>

definition packed_size :: "pb_field \<Rightarrow> (int \<Rightarrow> 's pb_enc_step) \<Rightarrow> nat \<Rightarrow> int \<Rightarrow> 's pb_enc \<Rightarrow>
    (nat option \<times> 's pb_enc) option" where
  "packed_size field func cnt pData c =
     (if PB_LTYPE (f_type field) = PB_LTYPE_FIXED32 then Some (Some (size_mul 4 cnt), c)
      else if PB_LTYPE (f_type field) = PB_LTYPE_FIXED64 then Some (Some (size_mul 8 cnt), c)
      else
        case encode_items func (f_data_size field) cnt pData (c\<lparr>c_out := PB_OSTREAM_SIZING\<rparr>) of
          None \<Rightarrow> None
        | Some (ok, sub) \<Rightarrow>
            Some (if ok then Some (os_bytes_written (c_out sub)) else None, sub\<lparr>c_out := c_out c\<rparr>))"

text \<open>The length of a packed array and, unless the stream is sizing, its entries.\<close>

definition encode_packed :: "'s pb_enc_env \<Rightarrow> pb_field \<Rightarrow> int \<Rightarrow> nat \<Rightarrow> (int \<Rightarrow> 's pb_enc_step) \<Rightarrow> 's pb_enc_step" where
  "encode_packed env field pData cnt func c =
     (case packed_size field func cnt pData c of
        None \<Rightarrow> None
      | Some (None, c) \<Rightarrow> Some (False, c)
      | Some (Some sz, c) \<Rightarrow>
          c_then (c_do (\<lambda>s. pb_encode_varint (n_write env) s (of_nat sz)) c) (\<lambda>c.
            if os_state (c_out c) = SizingSink then c_do (\<lambda>s. pb_write (n_write env) s [] sz) c
            else encode_items func (f_data_size field) cnt pData c))"

definition encode_array :: "'s pb_enc_env \<Rightarrow> pb_field \<Rightarrow> int \<Rightarrow> nat \<Rightarrow> (int \<Rightarrow> 's pb_enc_step) \<Rightarrow> 's pb_enc_step" where
  "encode_array env field pData cnt func c =
     (let t = f_type field in
      if cnt = 0 then c_done c
      else if PB_ATYPE t \<noteq> PB_ATYPE_POINTER \<and> cnt > f_array_size field then
        c_fail ''array max size exceeded'' c
      else if PB_LTYPE t \<le> PB_LTYPE_LAST_PACKABLE then
        c_then (c_do (\<lambda>s. pb_encode_tag (n_write env) s PB_WT_STRING (of_nat (f_tag field))) c)
          (encode_packed env field pData cnt func)
      else
        encode_items
          (\<lambda>p c. c_then (pb_encode_tag_for_field env field c) (\<lambda>c.
             if PB_ATYPE t = PB_ATYPE_POINTER \<and> (PB_LTYPE t = PB_LTYPE_STRING \<or> PB_LTYPE t = PB_LTYPE_BYTES)
             then func (load_ptr (c_mem c) p) c else func p c))
          (f_data_size field) cnt pData c)"

section \<open>Fields\<close>

text \<open>A check at every field of a table from the current one on, until one fails.\<close>

fun iter_all :: "nat \<Rightarrow> (pb_iter \<Rightarrow> bool option) \<Rightarrow> pb_iter \<Rightarrow> bool option" where
  "iter_all 0 g it = None"
| "iter_all (Suc n) g it =
     (case g it of
        Some True \<Rightarrow>
          (case pb_field_iter_next it of
             (False, it) \<Rightarrow> Some True
           | (True, it) \<Rightarrow> iter_all n g it)
      | r \<Rightarrow> r)"

fun pb_check_proto3_default_value :: "'s pb_enc_env \<Rightarrow> nat \<Rightarrow> pb_mem \<Rightarrow> pb_field \<Rightarrow> int \<Rightarrow> bool option" where
  "pb_check_proto3_default_value env 0 m field pData = None"
| "pb_check_proto3_default_value env (Suc n) m field pData =
     (let t = f_type field; pSize = pData + f_size_offset field;
          zeros = list_all (\<lambda>b. b = 0) (mem_read m pData (f_data_size field))
      in if PB_HTYPE t = PB_HTYPE_REQUIRED then Some False
         else if PB_HTYPE t = PB_HTYPE_REPEATED \<or> PB_HTYPE t = PB_HTYPE_ONEOF then Some (load m pSize 4 = 0)
         else if PB_HTYPE t = PB_HTYPE_OPTIONAL \<and> f_size_offset field \<noteq> 0 then Some (load m pSize 1 = 0)
         else if PB_ATYPE t = PB_ATYPE_STATIC then
           if PB_LTYPE t = PB_LTYPE_BYTES then Some (load m pData 4 = 0)
           else if PB_LTYPE t = PB_LTYPE_STRING then Some (m pData = 0)
           else if PB_LTYPE t = PB_LTYPE_FIXED_LENGTH_BYTES then Some (f_data_size field = 0)
           else if PB_LTYPE t = PB_LTYPE_SUBMESSAGE then
             let fs = n_table env (f_ptr field) in
             (case pb_field_iter_begin fs pData of
                (False, _) \<Rightarrow> Some True
              | (True, it) \<Rightarrow>
                  iter_all (Suc (length fs))
                    (\<lambda>it. pb_check_proto3_default_value env n m (it_field it) (it_pData it)) it)
           else Some zeros
         else Some zeros)"

text \<open>What \<open>pSize\<close> of \<open>encode_basic_field\<close> points to: a variable beside the data, or the local
  \<open>implicit_has\<close>, which is one byte.\<close>

definition encode_basic_field :: "'s pb_enc_env \<Rightarrow> nat \<Rightarrow> 's pb_message_encoder \<Rightarrow> pb_field \<Rightarrow> int \<Rightarrow>
    's pb_enc_step" where
  "encode_basic_field env n enc field pData c =
     (let t = f_type field; m = c_mem c; func = PB_ENCODERS env enc field;
          pSize = pData + f_size_offset field;
          implicit = (if f_size_offset field \<noteq> 0 then Some False
                      else if PB_HTYPE t = PB_HTYPE_OPTIONAL then
                        map_option Not (pb_check_proto3_default_value env n m field pData)
                      else Some True);
          is_ptr = (PB_ATYPE t = PB_ATYPE_POINTER);
          data = (if is_ptr then load_ptr m pData else pData);
          tagged = (\<lambda>c. c_then (pb_encode_tag_for_field env field c) (func data))
      in case implicit of
           None \<Rightarrow> None
         | Some implicit \<Rightarrow>
             let implicit_has = (if is_ptr then data \<noteq> 0 else implicit) in
             if PB_HTYPE t = PB_HTYPE_REQUIRED then
               if data = 0 then c_fail ''missing required field'' c else tagged c
             else if PB_HTYPE t = PB_HTYPE_OPTIONAL then
               if (if f_size_offset field \<noteq> 0 then load m pSize 1 \<noteq> 0 else implicit_has) then tagged c
               else c_done c
             else if PB_HTYPE t = PB_HTYPE_REPEATED then
               encode_array env field data
                 (if f_size_offset field \<noteq> 0 then load m pSize 4 else f_array_size field) func c
             else if PB_HTYPE t = PB_HTYPE_ONEOF then
               if f_size_offset field = 0 then None
               else if load m pSize 4 = f_tag field then tagged c
               else c_done c
             else c_fail ''invalid field type'' c)"

definition encode_callback_field :: "'s pb_enc_env \<Rightarrow> pb_field \<Rightarrow> int \<Rightarrow> 's pb_enc_step" where
  "encode_callback_field env field pData c =
     (let fn = load_ptr (c_mem c) pData in
      if fn \<noteq> 0 then
        case n_encode env fn (c_out c) field (pData + 8) (c_mem c) of
          (ok, s, m) \<Rightarrow>
            let c = \<lparr>c_out = s, c_mem = m\<rparr> in if ok then c_done c else c_fail ''callback error'' c
      else c_done c)"

definition encode_field :: "'s pb_enc_env \<Rightarrow> nat \<Rightarrow> 's pb_message_encoder \<Rightarrow> pb_field \<Rightarrow> int \<Rightarrow> 's pb_enc_step" where
  "encode_field env n enc field pData =
     (let t = PB_ATYPE (f_type field) in
      if t = PB_ATYPE_STATIC \<or> t = PB_ATYPE_POINTER then encode_basic_field env n enc field pData
      else if t = PB_ATYPE_CALLBACK then encode_callback_field env field pData
      else c_fail ''invalid field type'')"

section \<open>Extensions\<close>

definition default_extension_encoder :: "'s pb_enc_env \<Rightarrow> nat \<Rightarrow> 's pb_message_encoder \<Rightarrow> int \<Rightarrow> 's pb_enc_step" where
  "default_extension_encoder env n enc ext c =
     (let field = field_at (n_table env (n_ext_arg env (load_ptr (c_mem c) ext))) 0 in
      if PB_ATYPE (f_type field) = PB_ATYPE_POINTER then encode_field env n enc field (ext + 8) c
      else encode_field env n enc field (load_ptr (c_mem c) (ext + 8)) c)"

fun encode_extensions :: "'s pb_enc_env \<Rightarrow> nat \<Rightarrow> 's pb_message_encoder \<Rightarrow> nat \<Rightarrow> int \<Rightarrow> 's pb_enc_step" where
  "encode_extensions env n enc 0 ext c = None"
| "encode_extensions env n enc (Suc k) ext c =
     (if ext = 0 then c_done c
      else
        let fn = n_ext_encode_fn env (load_ptr (c_mem c) ext) in
        c_then
          (if fn \<noteq> 0 then
             (case n_ext_encode env fn (c_out c) ext (c_mem c) of
                (ok, s, m) \<Rightarrow> Some (ok, \<lparr>c_out = s, c_mem = m\<rparr>))
           else default_extension_encoder env n enc ext c)
          (\<lambda>c. encode_extensions env n enc k (load_ptr (c_mem c) (ext + 16)) c))"

definition encode_extension_field :: "'s pb_enc_env \<Rightarrow> nat \<Rightarrow> 's pb_message_encoder \<Rightarrow> int \<Rightarrow> 's pb_enc_step" where
  "encode_extension_field env n enc pData c = encode_extensions env n enc n (load_ptr (c_mem c) pData) c"

section \<open>Messages\<close>

text \<open>The loop of \<open>pb_encode\<close> over the fields of the table.\<close>

fun encode_each :: "nat \<Rightarrow> (pb_iter \<Rightarrow> 's pb_enc_step) \<Rightarrow> pb_iter \<Rightarrow> 's pb_enc_step" where
  "encode_each 0 g it c = None"
| "encode_each (Suc k) g it c =
     c_then (g it c) (\<lambda>c.
       case pb_field_iter_next it of
         (False, it) \<Rightarrow> c_done c
       | (True, it) \<Rightarrow> encode_each k g it c)"

definition encode_iter :: "'s pb_enc_env \<Rightarrow> nat \<Rightarrow> 's pb_message_encoder \<Rightarrow> pb_iter \<Rightarrow> 's pb_enc_step" where
  "encode_iter env n enc it =
     (if PB_LTYPE (f_type (it_field it)) = PB_LTYPE_EXTENSION then encode_extension_field env n enc (it_pData it)
      else encode_field env n enc (it_field it) (it_pData it))"

fun encode_message :: "'s pb_enc_env \<Rightarrow> nat \<Rightarrow> 's pb_message_encoder" where
  "encode_message env 0 fs src c = None"
| "encode_message env (Suc n) fs src c =
     (case pb_field_iter_begin fs src of
        (False, _) \<Rightarrow> c_done c
      | (True, it) \<Rightarrow> encode_each (Suc (length fs)) (encode_iter env n (encode_message env n)) it c)"

definition run_encode :: "'s pb_enc_step \<Rightarrow> 's pb_ostream \<Rightarrow> pb_mem \<Rightarrow> (bool \<times> 's pb_ostream \<times> pb_mem) option" where
  "run_encode f s m = map_option (\<lambda>(ok, c). (ok, c_out c, c_mem c)) (f \<lparr>c_out = s, c_mem = m\<rparr>)"

definition pb_encode :: "'s pb_enc_env \<Rightarrow> nat \<Rightarrow> pb_field list \<Rightarrow> int \<Rightarrow> 's pb_ostream \<Rightarrow> pb_mem \<Rightarrow>
    (bool \<times> 's pb_ostream \<times> pb_mem) option" where
  "pb_encode env n fs src = run_encode (encode_message env n fs src)"

definition pb_encode_delimited :: "'s pb_enc_env \<Rightarrow> nat \<Rightarrow> pb_field list \<Rightarrow> int \<Rightarrow> 's pb_ostream \<Rightarrow> pb_mem \<Rightarrow>
    (bool \<times> 's pb_ostream \<times> pb_mem) option" where
  "pb_encode_delimited env n fs src = run_encode (pb_encode_submessage env (encode_message env n) fs src)"

definition pb_encode_nullterminated :: "'s pb_enc_env \<Rightarrow> nat \<Rightarrow> pb_field list \<Rightarrow> int \<Rightarrow> 's pb_ostream \<Rightarrow> pb_mem \<Rightarrow>
    (bool \<times> 's pb_ostream \<times> pb_mem) option" where
  "pb_encode_nullterminated env n fs src =
     run_encode (\<lambda>c. c_then (encode_message env n fs src c) (c_do (\<lambda>s. pb_write (n_write env) s [0] 1)))"

text \<open>The size that \<open>pb_get_encoded_size\<close> stores, \<open>None\<close> when it returns false.\<close>

definition pb_get_encoded_size :: "'s pb_enc_env \<Rightarrow> nat \<Rightarrow> pb_field list \<Rightarrow> int \<Rightarrow> pb_mem \<Rightarrow>
    nat option option" where
  "pb_get_encoded_size env n fs src m =
     map_option (\<lambda>(ok, s, m). if ok then Some (os_bytes_written s) else None)
       (pb_encode env n fs src PB_OSTREAM_SIZING m)"

end
