(* ===== verification/PbFormat.thy ===== *)
theory PbFormat
  imports PbEncode PbTotal "HOL-Library.Code_Target_Nat"
begin

text \<open>
  What \<open>pb_encode\<close> promises: the message in the protocol buffer format, defined without
  streams, sizing passes and substreams, and the refinement. The reference writer gives for
  every field the bytes and whether the value can be written at all; the encoder gives on a
  sizing stream their number and on a buffer the bytes when they fit.
\<close>

section \<open>The reference writer\<close>

text \<open>The bytes of a value, and whether it can be written; when it cannot, the bytes are those
  before the error.\<close>

type_synonym wire = "u8 list \<times> bool"

definition w_seq :: "wire \<Rightarrow> wire \<Rightarrow> wire" where
  "w_seq w w' = (if snd w then (fst w @ fst w', snd w') else w)"

definition w_fail :: wire where "w_fail = ([], False)"

definition w_concat :: "wire list \<Rightarrow> wire" where
  "w_concat ws = foldr w_seq ws ([], True)"

text \<open>A payload with its length in front.\<close>

definition w_len :: "wire \<Rightarrow> wire" where
  "w_len w = (if snd w then (leb (length (fst w)) @ fst w, True) else w)"

definition wire_int :: "pb_field \<Rightarrow> (nat \<Rightarrow> nat) \<Rightarrow> wire" where
  "wire_int f v = (if f_data_size f \<in> {1, 2, 4, 8} then (leb (v (f_data_size f)), True) else w_fail)"

definition wire_string :: "u8 list \<Rightarrow> wire" where
  "wire_string bs = w_len (bs, True)"

definition wire_value :: "'s pb_enc_env \<Rightarrow> (pb_field list \<Rightarrow> int \<Rightarrow> wire) \<Rightarrow> pb_mem \<Rightarrow> pb_field \<Rightarrow> int \<Rightarrow> wire" where
  "wire_value env sub m f p =
     (let t = PB_LTYPE (f_type f) in
      if t = PB_LTYPE_VARINT then wire_int f (\<lambda>n. unat (signed_value n (load m p n)))
      else if t = PB_LTYPE_UVARINT then wire_int f (load m p)
      else if t = PB_LTYPE_SVARINT then wire_int f (\<lambda>n. zigzag (sint (signed_value n (load m p n))))
      else if t = PB_LTYPE_FIXED32 then (mem_read m p 4, True)
      else if t = PB_LTYPE_FIXED64 then (mem_read m p 8, True)
      else if t = PB_LTYPE_BYTES then
        if p = 0 then wire_string []
        else if PB_ATYPE (f_type f) = PB_ATYPE_STATIC \<and> load m p 4 + 4 > f_data_size f then w_fail
        else wire_string (mem_read m (p + 4) (load m p 4))
      else if t = PB_LTYPE_STRING then
        let n = (if PB_ATYPE (f_type f) = PB_ATYPE_POINTER then SIZE_MAX else f_data_size f) in
        wire_string (if p = 0 then [] else mem_read m p (c_strnlen m p n))
      else if t = PB_LTYPE_SUBMESSAGE then
        if f_ptr f = 0 then w_fail else w_len (sub (n_table env (f_ptr f)) p)
      else wire_string (mem_read m p (f_data_size f)))"

definition wire_type_of :: "u8 \<Rightarrow> nat" where
  "wire_type_of t =
     (if t = PB_LTYPE_VARINT \<or> t = PB_LTYPE_UVARINT \<or> t = PB_LTYPE_SVARINT then 0
      else if t = PB_LTYPE_FIXED32 then 5 else if t = PB_LTYPE_FIXED64 then 1 else 2)"

definition wire_tag :: "nat \<Rightarrow> nat \<Rightarrow> wire" where
  "wire_tag tag wt = (leb (8 * tag + wt), True)"

definition wire_tagged :: "pb_field \<Rightarrow> wire \<Rightarrow> wire" where
  "wire_tagged f w = w_seq (wire_tag (f_tag f) (wire_type_of (PB_LTYPE (f_type f)))) w"

text \<open>The entries of an array: packed into one string when they are numbers, else each with
  its tag.\<close>

definition wire_array :: "(int \<Rightarrow> wire) \<Rightarrow> pb_mem \<Rightarrow> pb_field \<Rightarrow> int \<Rightarrow> nat \<Rightarrow> wire" where
  "wire_array value m f p cnt =
     (let t = f_type f; at = map (\<lambda>i. p + int (f_data_size f) * int i) [0..<cnt] in
      if cnt = 0 then ([], True)
      else if PB_ATYPE t \<noteq> PB_ATYPE_POINTER \<and> cnt > f_array_size f then w_fail
      else if PB_LTYPE t \<le> PB_LTYPE_LAST_PACKABLE then
        w_seq (wire_tag (f_tag f) 2) (w_len (w_concat (map value at)))
      else
        let entry = (\<lambda>q. if PB_ATYPE t = PB_ATYPE_POINTER \<and> (PB_LTYPE t = PB_LTYPE_STRING \<or> PB_LTYPE t = PB_LTYPE_BYTES)
                        then load_ptr m q else q)
        in w_concat (map (\<lambda>q. wire_tagged f (value (entry q))) at))"

text \<open>The zero value of a proto3 field, in a table nested at most \<open>d\<close> deep.\<close>

fun proto3_default :: "'s pb_enc_env \<Rightarrow> nat \<Rightarrow> pb_mem \<Rightarrow> pb_field \<Rightarrow> int \<Rightarrow> bool" where
  "proto3_default env d m f p =
     (let t = f_type f; pSize = p + f_size_offset f in
      if PB_HTYPE t = PB_HTYPE_REQUIRED then False
      else if PB_HTYPE t = PB_HTYPE_REPEATED \<or> PB_HTYPE t = PB_HTYPE_ONEOF then load m pSize 4 = 0
      else if f_size_offset f \<noteq> 0 then load m pSize 1 = 0
      else if PB_ATYPE t = PB_ATYPE_STATIC \<and> PB_LTYPE t = PB_LTYPE_BYTES then load m p 4 = 0
      else if PB_ATYPE t = PB_ATYPE_STATIC \<and> PB_LTYPE t = PB_LTYPE_STRING then m p = 0
      else if PB_ATYPE t = PB_ATYPE_STATIC \<and> PB_LTYPE t = PB_LTYPE_FIXED_LENGTH_BYTES then f_data_size f = 0
      else if PB_ATYPE t = PB_ATYPE_STATIC \<and> PB_LTYPE t = PB_LTYPE_SUBMESSAGE then
        (case d of
           0 \<Rightarrow> True
         | Suc d \<Rightarrow>
             let fs = n_table env (f_ptr f) in
             f_tag (field_at fs 0) \<noteq> 0 \<longrightarrow>
               (\<forall>it\<in>set (table_iters fs p). proto3_default env d m (it_field it) (it_pData it)))
      else list_all (\<lambda>b. b = 0) (mem_read m p (f_data_size f)))"

declare proto3_default.simps [simp del]

text \<open>One field: whether it is there, and where its data is.\<close>

definition wire_field :: "'s pb_enc_env \<Rightarrow> nat \<Rightarrow> (pb_field list \<Rightarrow> int \<Rightarrow> wire) \<Rightarrow> pb_mem \<Rightarrow> pb_field \<Rightarrow> int \<Rightarrow> wire" where
  "wire_field env d sub m f p =
     (let t = f_type f; pSize = p + f_size_offset f;
          data = (if PB_ATYPE t = PB_ATYPE_POINTER then load_ptr m p else p);
          value = wire_value env sub m f
      in if PB_HTYPE t = PB_HTYPE_REQUIRED then
           if data = 0 then w_fail else wire_tagged f (value data)
         else if PB_HTYPE t = PB_HTYPE_OPTIONAL then
           if (if f_size_offset f \<noteq> 0 then load m pSize 1 \<noteq> 0
               else if PB_ATYPE t = PB_ATYPE_POINTER then data \<noteq> 0
               else \<not> proto3_default env d m f p)
           then wire_tagged f (value data) else ([], True)
         else if PB_HTYPE t = PB_HTYPE_REPEATED then
           wire_array value m f data (if f_size_offset f \<noteq> 0 then load m pSize 4 else f_array_size f)
         else if load m pSize 4 = f_tag f then wire_tagged f (value data)
         else ([], True))"

fun wire_message :: "'s pb_enc_env \<Rightarrow> nat \<Rightarrow> pb_mem \<Rightarrow> pb_field list \<Rightarrow> int \<Rightarrow> wire" where
  "wire_message env 0 m fs p = w_fail"
| "wire_message env (Suc d) m fs p =
     (if f_tag (field_at fs 0) = 0 then ([], True)
      else w_concat (map (\<lambda>it. wire_field env d (wire_message env d m) m (it_field it) (it_pData it))
             (table_iters fs p)))"

text \<open>A table the theorem is about: static and pointer fields, nested at most \<open>d\<close> deep.\<close>

definition plain_field :: "'s pb_enc_env \<Rightarrow> (pb_field list \<Rightarrow> bool) \<Rightarrow> pb_field \<Rightarrow> bool" where
  "plain_field env sub f \<longleftrightarrow>
     (let t = f_type f in
      (PB_ATYPE t = PB_ATYPE_STATIC \<or> PB_ATYPE t = PB_ATYPE_POINTER) \<and>
      PB_LTYPE t \<in> {PB_LTYPE_VARINT, PB_LTYPE_UVARINT, PB_LTYPE_SVARINT, PB_LTYPE_FIXED32,
        PB_LTYPE_FIXED64, PB_LTYPE_BYTES, PB_LTYPE_STRING, PB_LTYPE_SUBMESSAGE,
        PB_LTYPE_FIXED_LENGTH_BYTES} \<and>
      f_tag f < 2 ^ 32 \<and>
      (PB_HTYPE t = PB_HTYPE_ONEOF \<longrightarrow> f_size_offset f \<noteq> 0) \<and>
      (PB_LTYPE t = PB_LTYPE_SUBMESSAGE \<longrightarrow> f_ptr f \<noteq> 0 \<and> sub (n_table env (f_ptr f))))"

fun plain_table :: "'s pb_enc_env \<Rightarrow> nat \<Rightarrow> pb_field list \<Rightarrow> bool" where
  "plain_table env 0 fs = False"
| "plain_table env (Suc d) fs = (\<forall>it\<in>set (table_iters fs 0). plain_field env (plain_table env d) (it_field it))"

section \<open>What a step emits\<close>

text \<open>On a stream that is no callback of the caller and has no error, a step gives the bytes
  when they are all there and fit, and otherwise fails, with a first part of them written; the
  memory stays.\<close>

definition enc_emits :: "'s pb_enc_step \<Rightarrow> pb_mem \<Rightarrow> wire \<Rightarrow> bool" where
  "enc_emits f m w \<longleftrightarrow>
     (\<forall>s. os_plain s \<longrightarrow> os_errmsg s = None \<longrightarrow> os_bytes_written s + length (fst w) \<le> SIZE_MAX \<longrightarrow>
        (\<exists>ok s'. f \<lparr>c_out = s, c_mem = m\<rparr> = Some (ok, \<lparr>c_out = s', c_mem = m\<rparr>) \<and>
           (if snd w \<and> os_fits s (length (fst w)) then ok \<and> s' = os_put s (fst w) else \<not> ok \<and> os_part s s' (fst w))))"

lemma enc_emitsI:
  assumes "\<And>s. os_plain s \<Longrightarrow> os_errmsg s = None \<Longrightarrow> os_bytes_written s + length (fst w) \<le> SIZE_MAX \<Longrightarrow>
    \<exists>ok s'. f \<lparr>c_out = s, c_mem = m\<rparr> = Some (ok, \<lparr>c_out = s', c_mem = m\<rparr>) \<and>
      (if snd w \<and> os_fits s (length (fst w)) then ok \<and> s' = os_put s (fst w) else \<not> ok \<and> os_part s s' (fst w))"
  shows "enc_emits f m w"
  unfolding enc_emits_def using assms by blast

lemma enc_emitsE:
  assumes "enc_emits f m w" and "os_plain s" and "os_errmsg s = None"
    and "os_bytes_written s + length (fst w) \<le> SIZE_MAX"
  obtains ok s' where "f \<lparr>c_out = s, c_mem = m\<rparr> = Some (ok, \<lparr>c_out = s', c_mem = m\<rparr>)"
    "if snd w \<and> os_fits s (length (fst w)) then ok \<and> s' = os_put s (fst w) else \<not> ok \<and> os_part s s' (fst w)"
  using assms unfolding enc_emits_def by blast

lemma enc_emits_cong:
  "enc_emits g m w \<Longrightarrow> (\<And>s. f \<lparr>c_out = s, c_mem = m\<rparr> = g \<lparr>c_out = s, c_mem = m\<rparr>) \<Longrightarrow> enc_emits f m w"
  by (simp add: enc_emits_def)

lemma enc_emits_do:
  fixes f :: "'s pb_ostream \<Rightarrow> bool \<times> 's pb_ostream"
  shows "pb_emits f bs \<Longrightarrow> enc_emits (c_do f) m (bs, True)"
proof (rule enc_emitsI)
  fix s :: "'s pb_ostream"
  assume f: "pb_emits f bs" and s: "os_plain s" "os_bytes_written s + length (fst (bs, True)) \<le> SIZE_MAX"
  show "\<exists>ok s'. c_do f \<lparr>c_out = s, c_mem = m\<rparr> = Some (ok, \<lparr>c_out = s', c_mem = m\<rparr>) \<and>
      (if snd (bs, True) \<and> os_fits s (length (fst (bs, True))) then ok \<and> s' = os_put s (fst (bs, True)) else \<not> ok \<and> os_part s s' (fst (bs, True)))"
    using pb_emitsD [OF f s(1)] s(2) by (cases "f s") (auto simp: c_do_def)
qed

lemma enc_emits_done: "enc_emits c_done m ([], True)"
  by (rule enc_emitsI) (auto simp add: c_done_def os_plain_def)

lemma enc_emits_fail: "enc_emits (c_fail msg) m (bs, False)"
  by (rule enc_emitsI) (auto simp add: c_fail_def c_do_def os_fail_def intro: os_part_nothing)

lemma os_put_errmsg [simp]: "os_errmsg (os_put s bs) = os_errmsg s"
  by (simp add: os_put_def)

text \<open>More bytes than the counters can hold are no concern.\<close>

lemma enc_emits_long: "SIZE_MAX < length (fst w) \<Longrightarrow> enc_emits f m w"
  by (rule enc_emitsI) simp

text \<open>The first pass over a value, on a sizing stream.\<close>

lemma enc_emits_first_pass:
  fixes f :: "'s pb_enc_step"
  assumes "enc_emits f m w" and "length (fst w) \<le> SIZE_MAX"
  obtains s' where "f \<lparr>c_out = PB_OSTREAM_SIZING, c_mem = m\<rparr> = Some (snd w, \<lparr>c_out = s', c_mem = m\<rparr>)"
    "snd w \<longrightarrow> os_bytes_written s' = length (fst w)"
proof -
  have "os_plain (PB_OSTREAM_SIZING :: 's pb_ostream)" "os_errmsg (PB_OSTREAM_SIZING :: 's pb_ostream) = None"
    "os_bytes_written (PB_OSTREAM_SIZING :: 's pb_ostream) + length (fst w) \<le> SIZE_MAX"
    "os_fits (PB_OSTREAM_SIZING :: 's pb_ostream) (length (fst w))"
    using assms(2) by (simp_all add: PB_OSTREAM_SIZING_def os_plain_def os_fits_def)
  note fits = this
  obtain ok s' where "f \<lparr>c_out = PB_OSTREAM_SIZING, c_mem = m\<rparr> = Some (ok, \<lparr>c_out = s', c_mem = m\<rparr>)"
    "if snd w \<and> os_fits (PB_OSTREAM_SIZING :: 's pb_ostream) (length (fst w))
     then ok \<and> s' = os_put PB_OSTREAM_SIZING (fst w) else \<not> ok \<and> os_part PB_OSTREAM_SIZING s' (fst w)"
    by (rule enc_emitsE [OF assms(1) fits(1-3)])
  then show ?thesis using that [of s'] fits(4) by (cases "snd w") (simp_all add: PB_OSTREAM_SIZING_def)
qed

lemma enc_emits_then:
  assumes "enc_emits f m w" and "snd w \<Longrightarrow> enc_emits k m w'"
  shows "enc_emits (\<lambda>c. c_then (f c) k) m (w_seq w w')"
proof (rule enc_emitsI)
  fix s :: "'a pb_ostream"
  assume s: "os_plain s" "os_errmsg s = None" "os_bytes_written s + length (fst (w_seq w w')) \<le> SIZE_MAX"
  have "os_bytes_written s + length (fst w) \<le> SIZE_MAX" using s(3) by (auto simp: w_seq_def split: if_splits)
  from enc_emitsE [OF assms(1) s(1,2) this] obtain ok s' where
    f: "f \<lparr>c_out = s, c_mem = m\<rparr> = Some (ok, \<lparr>c_out = s', c_mem = m\<rparr>)" and
    r: "if snd w \<and> os_fits s (length (fst w)) then ok \<and> s' = os_put s (fst w) else \<not> ok \<and> os_part s s' (fst w)" .
  show "\<exists>ok s'. c_then (f \<lparr>c_out = s, c_mem = m\<rparr>) k = Some (ok, \<lparr>c_out = s', c_mem = m\<rparr>) \<and>
      (if snd (w_seq w w') \<and> os_fits s (length (fst (w_seq w w'))) then ok \<and> s' = os_put s (fst (w_seq w w')) else \<not> ok \<and> os_part s s' (fst (w_seq w w')))"
  proof (cases "snd w \<and> os_fits s (length (fst w))")
    case True
    then have ok: "ok" "s' = os_put s (fst w)" using r by simp_all
    have p: "os_plain s'" "os_errmsg s' = None" "os_bytes_written s' + length (fst w') \<le> SIZE_MAX"
      using True s ok(2) by (simp_all add: w_seq_def)
    from enc_emitsE [OF assms(2) p] True obtain ok' s'' where
      "k \<lparr>c_out = s', c_mem = m\<rparr> = Some (ok', \<lparr>c_out = s'', c_mem = m\<rparr>)"
      "if snd w' \<and> os_fits s' (length (fst w')) then ok' \<and> s'' = os_put s' (fst w') else \<not> ok' \<and> os_part s' s'' (fst w')" by blast
    then show ?thesis using True f ok by (auto simp: c_then_def w_seq_def os_part_put)
  next
    case False
    then have "\<not> ok" "os_part s s' (fst w)" using r by simp_all
    then show ?thesis using False f os_fits_mono [of s "length (fst w)"]
      by (auto simp: c_then_def w_seq_def os_part_append)
  qed
qed


section \<open>Numbers in memory\<close>

lemma byte_drop:
  assumes "k + 8 \<le> LENGTH('a::len)"
  shows "(ucast (drop_bit k (of_nat v :: 'a word)) :: u8) = byte (v div 2 ^ k)"
  using assms
  by (intro bit_word_eqI) (auto simp: byte_def bit_simps drop_bit_eq_div [symmetric])

lemma fixed_le_bytes:
  "fixed32 (of_nat v) = le_bytes 4 v" "fixed64 (of_nat v) = le_bytes 8 v"
proof -
  have u: "[0..<4] = [0, 1, 2, 3]" "[0..<8] = [0, 1, 2, 3, 4, 5, 6, 7]" by (simp_all add: upt_rec)
  have e: "256 ^ k = (2 :: nat) ^ (8 * k)" for k by (simp add: power_mult)
  show "fixed32 (of_nat v) = le_bytes 4 v" unfolding fixed32_def le_bytes_def u(1) [symmetric] e
    by (intro map_cong refl byte_drop) simp
  show "fixed64 (of_nat v) = le_bytes 8 v" unfolding fixed64_def le_bytes_def u(2) [symmetric] e
    by (intro map_cong refl byte_drop) simp
qed

lemma le_bytes_Suc: "le_bytes (Suc n) v = byte v # le_bytes n (v div 256)"
  by (simp add: le_bytes_def upt_conv_Cons map_Suc_upt [symmetric] div_mult2_eq o_def del: upt_Suc map_Suc_upt)

lemma le_bytes_le_val: "le_bytes (length bs) (le_val bs) = bs"
proof (induction bs)
  case (Cons b bs)
  have "byte (unat b + 256 * v) = b" for v
    by (rule unat_inject) (use unsigned_less [of b, where ?'a = nat] in simp)
  moreover have "(unat b + 256 * v) div 256 = v" for v
    using unsigned_less [of b, where ?'a = nat] by simp
  ultimately show ?case using Cons by (simp add: le_bytes_Suc le_val_def)
qed (simp add: le_bytes_def)

lemma le_val_le_bytes: "le_val (le_bytes n v) = v mod 256 ^ n"
proof (induction n arbitrary: v)
  case (Suc n)
  then show ?case by (simp add: le_bytes_Suc le_val_def) (simp add: mod_mult2_eq)
qed (simp add: le_bytes_def le_val_def)
section \<open>Values\<close>

lemma load_le: "load m p n < 256 ^ n"
proof -
  have "le_val bs < 256 ^ length bs" for bs
  proof (induction bs)
    case Nil
    then show ?case by (simp add: le_val_def)
  next
    case (Cons b bs)
    have "unat b < 256" using unsigned_less [of b, where ?'a = nat] by simp
    then have "unat b + 256 * v < 256 * 256 ^ length bs" if "v < 256 ^ length bs" for v
      using that by linarith
    then show ?case using Cons by (simp add: le_val_def)
  qed
  from this [of "mem_read m p n"] show ?thesis by (simp add: load_def mem_read_def)
qed

lemma length_mem_read [simp]: "length (mem_read m p n) = n"
  by (simp add: mem_read_def)

lemma enc_emits_string:
  assumes "length bs = n"
  shows "enc_emits (c_do (\<lambda>s. pb_encode_string wr s bs n)) m (wire_string bs)"
proof (cases "length bs < 2 ^ 64")
  case True
  then show ?thesis using enc_emits_do [OF pb_emits_string, of bs wr m] assms
    by (simp add: wire_string_def w_len_def)
next
  case False
  then show ?thesis by (intro enc_emits_long) (simp add: wire_string_def w_len_def SIZE_MAX_def)
qed

lemma enc_emits_int:
  assumes "\<And>v. pb_emits (g v) (leb (h v))"
  shows "enc_emits (load_int value f p (\<lambda>v. c_do (g v))) m (wire_int f (\<lambda>n. h (value n (load m p n))))"
proof (cases "f_data_size f \<in> {1, 2, 4, 8}")
  case True
  show ?thesis
    by (rule enc_emits_cong [of "c_do (g (value (f_data_size f) (load m p (f_data_size f))))"])
      (use True enc_emits_do [OF assms] in \<open>auto simp: load_int_def wire_int_def\<close>)
next
  case False
  show ?thesis
    by (rule enc_emits_cong [of "c_fail ''invalid data_size''"])
      (use False enc_emits_fail in \<open>auto simp: load_int_def wire_int_def w_fail_def\<close>)
qed

lemma enc_emits_substream:
  fixes enc :: "'s pb_message_encoder"
  assumes "enc_emits (enc fs p) m (bs, True)"
  shows "enc_emits (encode_substream env enc fs p (length bs)) m (bs, True)"
proof (rule enc_emitsI)
  fix s :: "'s pb_ostream"
  assume s: "os_plain s" "os_errmsg s = None" "os_bytes_written s + length (fst (bs, True)) \<le> SIZE_MAX"
  let ?n = "length bs"
  let ?sub = "\<lparr>os_state = os_state s, os_max_size = ?n, os_bytes_written = 0, os_errmsg = None\<rparr> :: 's pb_ostream"
  have n: "size_add (os_bytes_written s) ?n = os_bytes_written s + ?n" using s(3) by (simp add: size_simps)
  consider (sizing) "os_state s = SizingSink" | (full) "os_state s \<noteq> SizingSink" "\<not> os_fits s ?n"
    | (fits) "os_state s \<noteq> SizingSink" "os_fits s ?n" by blast
  then show "\<exists>ok s'. encode_substream env enc fs p ?n \<lparr>c_out = s, c_mem = m\<rparr> = Some (ok, \<lparr>c_out = s', c_mem = m\<rparr>) \<and>
      (if snd (bs, True) \<and> os_fits s (length (fst (bs, True))) then ok \<and> s' = os_put s (fst (bs, True)) else \<not> ok \<and> os_part s s' (fst (bs, True)))"
  proof cases
    case sizing
    then show ?thesis using n
      by (auto simp: encode_substream_def c_do_def pb_write_def os_fits_def os_put_def)
  next
    case full
    then show ?thesis using n
      using os_part_nothing [OF s(1)]
      by (auto simp: encode_substream_def os_fits_def c_fail_def c_do_def os_fail_def)
  next
    case fits
    have "os_plain ?sub" "os_errmsg ?sub = None" "os_bytes_written ?sub + length (fst (bs, True)) \<le> SIZE_MAX"
      "os_fits ?sub ?n"
      using s by (simp_all add: os_plain_def os_fits_def)
    from enc_emitsE [OF assms this(1-3)] this(4)
    have "enc fs p \<lparr>c_out = ?sub, c_mem = m\<rparr> = Some (True, \<lparr>c_out = os_put ?sub bs, c_mem = m\<rparr>)" by auto
    moreover have "s\<lparr>os_bytes_written := os_bytes_written s + ?n, os_state := os_state (os_put ?sub bs), os_errmsg := None\<rparr> =
        os_put s bs"
      using s(2) by (cases s) (simp add: os_put_def)
    ultimately show ?thesis using fits n
      by (auto simp: encode_substream_def os_fits_def)
  qed
qed

lemma enc_emits_submessage:
  fixes enc :: "'s pb_message_encoder"
  assumes "enc_emits (enc fs p) m w"
  shows "enc_emits (pb_encode_submessage env enc fs p) m (w_len w)"
proof (cases "length (fst w) \<le> SIZE_MAX")
  case False
  then show ?thesis by (intro enc_emits_long) (simp add: w_len_def)
next
  case n: True
  let ?n = "length (fst w)"
  obtain s1 where first: "enc fs p \<lparr>c_out = PB_OSTREAM_SIZING, c_mem = m\<rparr> = Some (snd w, \<lparr>c_out = s1, c_mem = m\<rparr>)"
    "snd w \<longrightarrow> os_bytes_written s1 = ?n"
    by (rule enc_emits_first_pass [OF assms n])
  show ?thesis
  proof (cases "snd w")
    case False
    then show ?thesis using first
      by (auto simp: enc_emits_def pb_encode_submessage_def w_len_def os_part_nothing)
  next
    case True
    then have w: "w = (fst w, True)" and size: "os_bytes_written s1 = ?n"
      using first(2) by (simp_all add: prod_eq_iff)
    have n64: "unat (of_nat ?n :: u64) = ?n" using n by (simp add: SIZE_MAX_def unsigned_of_nat take_bit_nat_eq_self)
    have "enc_emits (\<lambda>c. c_then (c_do (\<lambda>s. pb_encode_varint (n_write env) s (of_nat ?n)) c)
        (encode_substream env enc fs p ?n)) m (w_seq (leb ?n, True) (fst w, True))"
      using enc_emits_do [OF pb_emits_varint, of "n_write env" "of_nat ?n" m] assms w n64
      by (intro enc_emits_then enc_emits_substream) simp_all
    moreover have "w_len w = w_seq (leb ?n, True) (fst w, True)" using True by (simp add: w_len_def w_seq_def)
    ultimately show ?thesis
      by (simp only:) (erule enc_emits_cong, use first(1) True size in \<open>simp add: pb_encode_submessage_def Let_def\<close>)
  qed
qed

lemma fixed_read:
  "fixed32 (of_nat (load m p 4)) = mem_read m p 4" "fixed64 (of_nat (load m p 8)) = mem_read m p 8"
  using le_bytes_le_val [of "mem_read m p 4"] le_bytes_le_val [of "mem_read m p 8"]
  by (simp_all add: fixed_le_bytes load_def)

lemma enc_emits_value:
  fixes enc :: "'s pb_message_encoder"
  assumes "plain_field env P f" and "\<And>fs p. P fs \<Longrightarrow> enc_emits (enc fs p) m (sub fs p)"
  shows "enc_emits (PB_ENCODERS env enc f p) m (wire_value env sub m f p)"
proof -
  have l: "PB_LTYPE (f_type f) \<in> {PB_LTYPE_VARINT, PB_LTYPE_UVARINT, PB_LTYPE_SVARINT, PB_LTYPE_FIXED32,
        PB_LTYPE_FIXED64, PB_LTYPE_BYTES, PB_LTYPE_STRING, PB_LTYPE_SUBMESSAGE, PB_LTYPE_FIXED_LENGTH_BYTES}"
    and s: "PB_LTYPE (f_type f) = PB_LTYPE_SUBMESSAGE \<longrightarrow> f_ptr f \<noteq> 0 \<and> P (n_table env (f_ptr f))"
    using assms(1) by (simp_all add: plain_field_def Let_def)
  have "unat (unsigned_value n (load m p n)) = load m p n" if "n \<in> {1, 2, 4, 8}" for n
    using that load_le [of m p n] by (auto simp: unsigned_value_def unsigned_of_nat take_bit_nat_eq_self)
  then have u: "wire_int f (\<lambda>n. unat (unsigned_value n (load m p n))) = wire_int f (load m p)"
    by (simp add: wire_int_def)
  have varints: "enc_emits (pb_enc_varint env f p) m (wire_int f (\<lambda>n. unat (signed_value n (load m p n))))"
    "enc_emits (pb_enc_uvarint env f p) m (wire_int f (load m p))"
    "enc_emits (pb_enc_svarint env f p) m (wire_int f (\<lambda>n. zigzag (sint (signed_value n (load m p n)))))"
    unfolding pb_enc_varint_def pb_enc_uvarint_def pb_enc_svarint_def u [symmetric]
    by (intro enc_emits_int pb_emits_varint pb_emits_svarint)+
  have fixeds: "enc_emits (pb_enc_fixed32 env f p) m (mem_read m p 4, True)"
    "enc_emits (pb_enc_fixed64 env f p) m (mem_read m p 8, True)"
    using enc_emits_do [OF pb_emits_fixed32, of "n_write env" "of_nat (load m p 4)" m]
      enc_emits_do [OF pb_emits_fixed64, of "n_write env" "of_nat (load m p 8)" m]
    by (auto simp: fixed_read pb_enc_fixed32_def pb_enc_fixed64_def intro: enc_emits_cong)
  have "size_add (load m p 4) 4 = load m p 4 + 4" using load_le [of m p 4] by (simp add: size_simps SIZE_MAX_def)
  then have bytes: "enc_emits (pb_enc_bytes env f p) m
      (if p = 0 then wire_string []
       else if PB_ATYPE (f_type f) = PB_ATYPE_STATIC \<and> load m p 4 + 4 > f_data_size f then w_fail
       else wire_string (mem_read m (p + 4) (load m p 4)))"
    using enc_emits_string [of "[]" 0 "n_write env" m] enc_emits_fail [of "''bytes size exceeded''" m "[]"]
      enc_emits_string [of "mem_read m (p + 4) (load m p 4)" "load m p 4" "n_write env" m]
    by (auto simp: pb_enc_bytes_def Let_def w_fail_def intro: enc_emits_cong)
  have str: "enc_emits (pb_enc_string env f p) m
      (let n = (if PB_ATYPE (f_type f) = PB_ATYPE_POINTER then SIZE_MAX else f_data_size f) in
        wire_string (if p = 0 then [] else mem_read m p (c_strnlen m p n)))"
    unfolding Let_def
    by (rule enc_emits_cong, rule enc_emits_string [OF refl]) (auto simp: pb_enc_string_def mem_read_def Let_def)
  have flb: "enc_emits (pb_enc_fixed_length_bytes env f p) m (wire_string (mem_read m p (f_data_size f)))"
    by (rule enc_emits_cong, rule enc_emits_string [OF refl]) (simp add: pb_enc_fixed_length_bytes_def)
  have subm: "enc_emits (pb_enc_submessage env enc f p) m (w_len (sub (n_table env (f_ptr f)) p))"
    if "PB_LTYPE (f_type f) = PB_LTYPE_SUBMESSAGE"
    using s that assms(2) by (simp add: pb_enc_submessage_def enc_emits_submessage)
  show ?thesis
    using l by (elim insertE emptyE)
      (simp_all add: PB_ENCODERS_def wire_value_def pb_ltypes varints fixeds bytes str flb
        subm [unfolded pb_ltypes] s [unfolded pb_ltypes], use str in \<open>auto simp: Let_def split: if_splits\<close>)
qed


section \<open>Arrays and fields\<close>

lemma w_concat_simps [simp]:
  "w_concat [] = ([], True)" "w_concat (w # ws) = w_seq w (w_concat ws)"
  by (simp_all add: w_concat_def)

lemma enc_emits_tag:
  assumes "tag < 2 ^ 32" and "unat wt < 8"
  shows "enc_emits (c_do (\<lambda>s. pb_encode_tag wr s wt (of_nat tag))) m (wire_tag tag (unat wt))"
  using enc_emits_do [OF pb_emits_tag [OF assms(2), of wr "of_nat tag"], of m] assms(1)
  by (simp add: wire_tag_def unsigned_of_nat take_bit_nat_eq_self)

lemma enc_emits_tag_for_field:
  assumes "plain_field env P f"
  shows "enc_emits (pb_encode_tag_for_field env f) m (wire_tag (f_tag f) (wire_type_of (PB_LTYPE (f_type f))))"
proof -
  have l: "PB_LTYPE (f_type f) \<in> {PB_LTYPE_VARINT, PB_LTYPE_UVARINT, PB_LTYPE_SVARINT, PB_LTYPE_FIXED32,
        PB_LTYPE_FIXED64, PB_LTYPE_BYTES, PB_LTYPE_STRING, PB_LTYPE_SUBMESSAGE, PB_LTYPE_FIXED_LENGTH_BYTES}"
    and "f_tag f < 2 ^ 32"
    using assms by (simp_all add: plain_field_def Let_def)
  note tag = enc_emits_tag [OF this(2), of 0 "n_write env" m] enc_emits_tag [OF this(2), of 1 "n_write env" m]
    enc_emits_tag [OF this(2), of 2 "n_write env" m] enc_emits_tag [OF this(2), of 5 "n_write env" m]
  show ?thesis using l tag
    by (elim insertE emptyE) (simp_all add: pb_encode_tag_for_field_def Let_def wire_type_of_def pb_ltypes)
qed

lemma enc_emits_tagged:
  assumes "plain_field env P f" and "enc_emits g m w"
  shows "enc_emits (\<lambda>c. c_then (pb_encode_tag_for_field env f c) g) m (wire_tagged f w)"
  unfolding wire_tagged_def using assms by (intro enc_emits_then enc_emits_tag_for_field)

lemma map_shift_upt:
  "map (\<lambda>i. p + int sz * int i) [0..<Suc n] = p # map (\<lambda>i. (p + int sz) + int sz * int i) [0..<n]"
  by (simp add: upt_conv_Cons map_Suc_upt [symmetric] o_def algebra_simps del: upt_Suc map_Suc_upt)

lemma enc_emits_items:
  assumes "\<And>p. enc_emits (func p) m (w p)"
  shows "enc_emits (encode_items func sz cnt p) m (w_concat (map w (map (\<lambda>i. p + int sz * int i) [0..<cnt])))"
proof (induction cnt arbitrary: p)
  case 0
  show ?case using enc_emits_done [of m] by (simp add: enc_emits_def)
next
  case (Suc cnt)
  have "enc_emits (\<lambda>c. c_then (func p c) (encode_items func sz cnt (p + int sz))) m
      (w_seq (w p) (w_concat (map w (map (\<lambda>i. (p + int sz) + int sz * int i) [0..<cnt]))))"
    by (intro enc_emits_then assms Suc.IH)
  then show ?case unfolding map_shift_upt by (simp add: enc_emits_def)
qed

lemma packed_fixed_size:
  assumes "\<And>p. w p = (mem_read m p k, True)"
  shows "w_concat (map w ps) = (concat (map (\<lambda>p. mem_read m p k) ps), True)"
  using assms by (induction ps) (simp_all add: w_seq_def)


lemma enc_emits_sizing:
  assumes "enc_emits g m (bs, True)"
  shows "enc_emits (\<lambda>c. if os_state (c_out c) = SizingSink then c_do (\<lambda>s. pb_write wr s [] (length bs)) c else g c) m (bs, True)"
proof (rule enc_emitsI)
  fix s :: "'a pb_ostream"
  assume s: "os_plain s" "os_errmsg s = None" "os_bytes_written s + length (fst (bs, True)) \<le> SIZE_MAX"
  let ?c = "\<lparr>c_out = s, c_mem = m\<rparr>"
  show "\<exists>ok s'. (if os_state (c_out ?c) = SizingSink then c_do (\<lambda>s. pb_write wr s [] (length bs)) ?c else g ?c) =
        Some (ok, \<lparr>c_out = s', c_mem = m\<rparr>) \<and>
      (if snd (bs, True) \<and> os_fits s (length (fst (bs, True))) then ok \<and> s' = os_put s (fst (bs, True)) else \<not> ok \<and> os_part s s' (fst (bs, True)))"
  proof (cases "os_state s = SizingSink")
    case True
    then show ?thesis using s(3) by (auto simp: c_do_def pb_write_def os_fits_def os_put_def size_simps)
  next
    case False
    obtain ok s' where "g ?c = Some (ok, \<lparr>c_out = s', c_mem = m\<rparr>)"
      "if snd (bs, True) \<and> os_fits s (length (fst (bs, True))) then ok \<and> s' = os_put s (fst (bs, True)) else \<not> ok \<and> os_part s s' (fst (bs, True))"
      by (rule enc_emitsE [OF assms s])
    then show ?thesis using False by (intro exI conjI) simp_all
  qed
qed

text \<open>The first pass of a packed array finds the number of bytes of the second one.\<close>

lemma packed_size_ok:
  assumes "enc_emits (encode_items func (f_data_size f) cnt p) m w" and "length (fst w) \<le> SIZE_MAX"
    and "PB_LTYPE (f_type f) = PB_LTYPE_FIXED32 \<Longrightarrow> snd w \<and> length (fst w) = 4 * cnt"
    and "PB_LTYPE (f_type f) = PB_LTYPE_FIXED64 \<Longrightarrow> snd w \<and> length (fst w) = 8 * cnt"
  shows "packed_size f func cnt p \<lparr>c_out = s, c_mem = m\<rparr> =
    Some (if snd w then Some (length (fst w)) else None, \<lparr>c_out = s, c_mem = m\<rparr>)"
proof -
  obtain s1 where "encode_items func (f_data_size f) cnt p \<lparr>c_out = PB_OSTREAM_SIZING, c_mem = m\<rparr> =
      Some (snd w, \<lparr>c_out = s1, c_mem = m\<rparr>)" "snd w \<longrightarrow> os_bytes_written s1 = length (fst w)"
    by (rule enc_emits_first_pass [OF assms(1,2)])
  then show ?thesis using assms(2-4)
    by (cases "PB_LTYPE (f_type f) = PB_LTYPE_FIXED32"; cases "PB_LTYPE (f_type f) = PB_LTYPE_FIXED64")
      (auto simp: packed_size_def size_simps)
qed

lemma enc_emits_packed:
  assumes "enc_emits (encode_items func (f_data_size f) cnt p) m w"
    and "PB_LTYPE (f_type f) = PB_LTYPE_FIXED32 \<Longrightarrow> snd w \<and> length (fst w) = 4 * cnt"
    and "PB_LTYPE (f_type f) = PB_LTYPE_FIXED64 \<Longrightarrow> snd w \<and> length (fst w) = 8 * cnt"
  shows "enc_emits (encode_packed env f p cnt func) m (w_len w)"
proof (cases "length (fst w) \<le> SIZE_MAX")
  case False
  then show ?thesis by (intro enc_emits_long) (simp add: w_len_def)
next
  case n: True
  let ?n = "length (fst w)"
  note size = packed_size_ok [OF assms(1) n assms(2,3)]
  show ?thesis
  proof (cases "snd w")
    case False
    then show ?thesis using size os_part_self
      by (auto simp: enc_emits_def encode_packed_def w_len_def)
  next
    case True
    then have w: "w = (fst w, True)" by (simp add: prod_eq_iff)
    have n64: "unat (of_nat ?n :: u64) = ?n" using n by (simp add: SIZE_MAX_def unsigned_of_nat take_bit_nat_eq_self)
    have "enc_emits (\<lambda>c. c_then (c_do (\<lambda>s. pb_encode_varint (n_write env) s (of_nat ?n)) c) (\<lambda>c.
            if os_state (c_out c) = SizingSink then c_do (\<lambda>s. pb_write (n_write env) s [] ?n) c
            else encode_items func (f_data_size f) cnt p c)) m (w_seq (leb ?n, True) (fst w, True))"
      using enc_emits_do [OF pb_emits_varint, of "n_write env" "of_nat ?n" m] assms(1) w n64
      by (intro enc_emits_then enc_emits_sizing) simp_all
    moreover have "w_len w = w_seq (leb ?n, True) (fst w, True)" using True by (simp add: w_len_def w_seq_def)
    ultimately show ?thesis
      by (simp only:) (erule enc_emits_cong, use size True in \<open>simp add: encode_packed_def\<close>)
  qed
qed


lemma enc_emits_if:
  "enc_emits f m w \<Longrightarrow> enc_emits g m w' \<Longrightarrow> enc_emits (if b then f else g) m (if b then w else w')"
  by simp

lemma enc_emits_array:
  assumes "plain_field env P f" and "\<And>p. enc_emits (PB_ENCODERS env enc f p) m (wire_value env sub m f p)"
  shows "enc_emits (encode_array env f p cnt (PB_ENCODERS env enc f)) m (wire_array (wire_value env sub m f) m f p cnt)"
proof -
  let ?w = "wire_value env sub m f" and ?func = "PB_ENCODERS env enc f"
  let ?at = "map (\<lambda>i. p + int (f_data_size f) * int i) [0..<cnt]"
  let ?ptr = "PB_ATYPE (f_type f) = PB_ATYPE_POINTER \<and>
      (PB_LTYPE (f_type f) = PB_LTYPE_STRING \<or> PB_LTYPE (f_type f) = PB_LTYPE_BYTES)"
  have tag: "f_tag f < 2 ^ 32" using assms(1) by (simp add: plain_field_def Let_def)
  have l: "snd (w_concat (map ?w ?at)) \<and> length (fst (w_concat (map ?w ?at))) = k * cnt"
    if "\<And>p. ?w p = (mem_read m p k, True)" for k
    using packed_fixed_size [OF that, where ps = ?at] by (simp add: length_concat o_def sum_list_triv)
  have "enc_emits (encode_packed env f p cnt ?func) m (w_len (w_concat (map ?w ?at)))"
    by (rule enc_emits_packed [OF enc_emits_items [OF assms(2)]]; rule l)
      (simp_all add: wire_value_def pb_ltypes)
  then have packed: "enc_emits (\<lambda>c. c_then (c_do (\<lambda>s. pb_encode_tag (n_write env) s PB_WT_STRING (of_nat (f_tag f))) c)
      (encode_packed env f p cnt ?func)) m (w_seq (wire_tag (f_tag f) 2) (w_len (w_concat (map ?w ?at))))"
    using enc_emits_tag [OF tag, of 2 "n_write env" m] by (intro enc_emits_then) simp_all
  let ?entry = "\<lambda>q. if ?ptr then load_ptr m q else q"
  have "enc_emits (\<lambda>c. if ?ptr then ?func (load_ptr (c_mem c) q) c else ?func q c) m (?w (?entry q))" for q
    by (rule enc_emits_cong [OF assms(2)]) auto
  then have items: "enc_emits (encode_items (\<lambda>q c. c_then (pb_encode_tag_for_field env f c)
        (\<lambda>c. if ?ptr then ?func (load_ptr (c_mem c) q) c else ?func q c)) (f_data_size f) cnt p) m
      (w_concat (map (\<lambda>q. wire_tagged f (?w (?entry q))) ?at))"
    by (intro enc_emits_items enc_emits_tagged [OF assms(1)])
  have e: "encode_array env f p cnt ?func =
      (if cnt = 0 then c_done
       else if PB_ATYPE (f_type f) \<noteq> PB_ATYPE_POINTER \<and> cnt > f_array_size f then c_fail ''array max size exceeded''
       else if PB_LTYPE (f_type f) \<le> PB_LTYPE_LAST_PACKABLE then
         \<lambda>c. c_then (c_do (\<lambda>s. pb_encode_tag (n_write env) s PB_WT_STRING (of_nat (f_tag f))) c)
           (encode_packed env f p cnt ?func)
       else encode_items (\<lambda>q c. c_then (pb_encode_tag_for_field env f c)
         (\<lambda>c. if ?ptr then ?func (load_ptr (c_mem c) q) c else ?func q c)) (f_data_size f) cnt p)"
    by (intro ext) (simp add: encode_array_def Let_def)
  show ?thesis unfolding e wire_array_def Let_def
    by (intro enc_emits_if packed items enc_emits_done enc_emits_fail [of _ m "[]", folded w_fail_def])
qed

section \<open>Walks over a table\<close>

lemma table_walk:
  assumes "k < length (table_iters fs dest)"
  shows "drop k (table_iters fs dest) = table_iters fs dest ! k #
    (case pb_field_iter_next (table_iters fs dest ! k) of
       (False, _) \<Rightarrow> [] | (True, it) \<Rightarrow> drop (Suc k) (table_iters fs dest)) \<and>
    (\<forall>it. pb_field_iter_next (table_iters fs dest ! k) = (True, it) \<longrightarrow>
       Suc k < length (table_iters fs dest) \<and> it = table_iters fs dest ! Suc k)"
proof (cases "Suc k < length (table_iters fs dest)")
  case True
  then show ?thesis using table_iters_step(4) [OF assms True] assms by (simp add: Cons_nth_drop_Suc)
next
  case False
  then show ?thesis using table_iters_step(5) [OF assms] assms Cons_nth_drop_Suc [OF assms] by auto
qed

lemma iter_all_table:
  assumes "\<And>it. it \<in> set (table_iters fs dest) \<Longrightarrow> g it = Some (P it)"
  shows "iter_all (Suc (length fs)) g (snd (pb_field_iter_begin fs dest)) = Some (\<forall>it\<in>set (table_iters fs dest). P it)"
proof -
  let ?L = "table_iters fs dest"
  have "iter_all n g (?L ! k) = Some (\<forall>it\<in>set (drop k ?L). P it)" if "k < length ?L" "length ?L - k \<le> n" for n k
    using that
  proof (induction n arbitrary: k)
    case 0
    then show ?case by simp
  next
    case (Suc n)
    note w = table_walk [OF Suc.prems(1)]
    have g: "g (?L ! k) = Some (P (?L ! k))" using assms Suc.prems(1) by simp
    show ?case
    proof (cases "pb_field_iter_next (?L ! k)")
      case (Pair b it)
      then show ?thesis using w g Suc.IH [of "Suc k"] Suc.prems(2) by (cases b) (auto split: bool.split)
    qed
  qed
  from this [of 0 "Suc (length fs)"] show ?thesis
    using table_iters_nonempty [of fs dest] table_iters_bound [of fs dest] by (simp add: table_iters_0)
qed

lemma enc_emits_each:
  assumes "\<And>it. it \<in> set (table_iters fs dest) \<Longrightarrow> enc_emits (g it) m (w it)"
  shows "enc_emits (encode_each (Suc (length fs)) g (snd (pb_field_iter_begin fs dest))) m
    (w_concat (map w (table_iters fs dest)))"
proof -
  let ?L = "table_iters fs dest"
  have "enc_emits (encode_each n g (?L ! k)) m (w_concat (map w (drop k ?L)))"
    if "k < length ?L" "length ?L - k \<le> n" for n k
    using that
  proof (induction n arbitrary: k)
    case 0
    then show ?case by simp
  next
    case (Suc n)
    note wk = table_walk [OF Suc.prems(1)]
    have g: "enc_emits (g (?L ! k)) m (w (?L ! k))" using assms Suc.prems(1) by simp
    have "enc_emits (\<lambda>c. case pb_field_iter_next (?L ! k) of
         (False, it) \<Rightarrow> c_done c | (True, it) \<Rightarrow> encode_each n g it c) m (w_concat (map w (tl (drop k ?L))))"
    proof (cases "pb_field_iter_next (?L ! k)")
      case (Pair b it)
      then show ?thesis using wk Suc.IH [of "Suc k"] Suc.prems(2) enc_emits_done [of m]
        by (cases b) (auto simp: drop_Suc tl_drop)
    qed
    from enc_emits_then [OF g this] show ?case using wk
      by (simp add: enc_emits_def)
  qed
  from this [of 0 "Suc (length fs)"] show ?thesis
    using table_iters_nonempty [of fs dest] table_iters_bound [of fs dest] by (simp add: table_iters_0)
qed


section \<open>Messages\<close>

lemma plain_table_iter:
  "plain_table env (Suc d) fs \<Longrightarrow> it \<in> set (table_iters fs p) \<Longrightarrow> plain_field env (plain_table env d) (it_field it)"
  by (auto simp: shift_table_iters [of fs p])

lemma htype_cases:
  "PB_HTYPE t \<in> {PB_HTYPE_REQUIRED, PB_HTYPE_OPTIONAL, PB_HTYPE_REPEATED, PB_HTYPE_ONEOF}"
proof -
  have "PB_HTYPE t = (if bit t 4 then 0x10 else 0) OR (if bit t 5 then 0x20 else 0)"
    unfolding PB_HTYPE_def
    by (rule bit_word_eqI) (auto simp: bit_simps bit_numeral_rec numeral_eq_Suc less_Suc_eq)
  then show ?thesis by (auto simp: pb_htypes)
qed

lemma check_default:
  assumes "plain_field env (plain_table env d) f" and "d < n"
  shows "pb_check_proto3_default_value env n m f p = Some (proto3_default env d m f p)"
  using assms
proof (induction d arbitrary: n f p)
  case 0
  then obtain k where n: "n = Suc k" by (cases n) auto
  have "PB_LTYPE (f_type f) \<noteq> PB_LTYPE_SUBMESSAGE" using 0(1) by (auto simp: plain_field_def Let_def)
  then show ?case unfolding n using htype_cases [of "f_type f"]
    by (auto simp: proto3_default.simps Let_def pb_htypes)
next
  case (Suc d)
  then obtain k where n: "n = Suc k" "d < k" by (cases n) auto
  let ?fs = "n_table env (f_ptr f)"
  have sub: "(case pb_field_iter_begin ?fs p of (False, _) \<Rightarrow> Some True
      | (True, it) \<Rightarrow> iter_all (Suc (length ?fs))
          (\<lambda>it. pb_check_proto3_default_value env k m (it_field it) (it_pData it)) it) =
      Some (f_tag (field_at ?fs 0) \<noteq> 0 \<longrightarrow>
         (\<forall>it\<in>set (table_iters ?fs p). proto3_default env d m (it_field it) (it_pData it)))"
    if "PB_LTYPE (f_type f) = PB_LTYPE_SUBMESSAGE"
  proof -
    have t: "plain_table env (Suc d) ?fs" using Suc.prems(1) that by (simp add: plain_field_def Let_def)
    have "iter_all (Suc (length ?fs)) (\<lambda>it. pb_check_proto3_default_value env k m (it_field it) (it_pData it))
        (snd (pb_field_iter_begin ?fs p)) =
        Some (\<forall>it\<in>set (table_iters ?fs p). proto3_default env d m (it_field it) (it_pData it))"
      by (rule iter_all_table, rule Suc.IH [OF plain_table_iter [OF t] n(2)])
    then show ?thesis using iter_begin_fst [of ?fs p]
      by (cases "pb_field_iter_begin ?fs p") (auto simp del: iter_all.simps split: bool.split)
  qed
  show ?case unfolding n(1) using htype_cases [of "f_type f"]
    by (auto simp: proto3_default.simps Let_def pb_htypes sub simp del: iter_all.simps)
qed

lemma enc_emits_field:
  fixes enc :: "'s pb_message_encoder"
  assumes "plain_field env (plain_table env d) f" and "d < n"
    and "\<And>fs p. plain_table env d fs \<Longrightarrow> enc_emits (enc fs p) m (sub fs p)"
  shows "enc_emits (encode_field env n enc f p) m (wire_field env d sub m f p)"
proof -
  let ?h = "PB_HTYPE (f_type f)" and ?is_ptr = "PB_ATYPE (f_type f) = PB_ATYPE_POINTER"
  let ?data = "if ?is_ptr then load_ptr m p else p"
  have static: "PB_ATYPE (f_type f) = PB_ATYPE_STATIC \<or> ?is_ptr"
    and oneof: "?h = PB_HTYPE_ONEOF \<longrightarrow> f_size_offset f \<noteq> 0"
    using assms(1) by (simp_all add: plain_field_def Let_def)
  note val = enc_emits_value [OF assms(1,3)]
  have tagged: "enc_emits (\<lambda>c. c_then (pb_encode_tag_for_field env f c) (PB_ENCODERS env enc f q)) m
      (wire_tagged f (wire_value env sub m f q))" for q
    by (rule enc_emits_tagged [OF assms(1) val])
  have array: "enc_emits (encode_array env f q k (PB_ENCODERS env enc f)) m (wire_array (wire_value env sub m f) m f q k)"
    for q k by (rule enc_emits_array [OF assms(1) val])
  note dflt = check_default [OF assms(1,2), of m p]
  note facts = tagged array enc_emits_done [of m] enc_emits_fail [of _ m "[]", folded w_fail_def]
  have "enc_emits (encode_basic_field env n enc f p) m (wire_field env d sub m f p)"
  proof -
    consider "?h = PB_HTYPE_REQUIRED" | "?h = PB_HTYPE_OPTIONAL" | "?h = PB_HTYPE_REPEATED" | "?h = PB_HTYPE_ONEOF"
      using htype_cases by blast
    then show ?thesis
    proof cases
      case 1
      then have "wire_field env d sub m f p = (if ?data = 0 then w_fail else wire_tagged f (wire_value env sub m f ?data))"
        by (simp add: wire_field_def Let_def pb_htypes)
      moreover have "enc_emits (if ?data = 0 then c_fail ''missing required field'' else (\<lambda>c. c_then (pb_encode_tag_for_field env f c) (PB_ENCODERS env enc f ?data))) m (if ?data = 0 then w_fail else wire_tagged f (wire_value env sub m f ?data))"
        by (intro enc_emits_if facts)
      ultimately show ?thesis
        by (simp only:) (erule enc_emits_cong, use 1 in \<open>auto simp: encode_basic_field_def Let_def pb_htypes\<close>)
    next
      case 2
      then have "wire_field env d sub m f p = (if (if f_size_offset f \<noteq> 0 then load m (p + f_size_offset f) 1 \<noteq> 0 else if ?is_ptr then ?data \<noteq> 0 else \<not> proto3_default env d m f p) then wire_tagged f (wire_value env sub m f ?data) else ([], True))"
        by (simp add: wire_field_def Let_def pb_htypes)
      moreover have "enc_emits (if (if f_size_offset f \<noteq> 0 then load m (p + f_size_offset f) 1 \<noteq> 0 else if ?is_ptr then ?data \<noteq> 0 else \<not> proto3_default env d m f p) then (\<lambda>c. c_then (pb_encode_tag_for_field env f c) (PB_ENCODERS env enc f ?data)) else c_done) m (if (if f_size_offset f \<noteq> 0 then load m (p + f_size_offset f) 1 \<noteq> 0 else if ?is_ptr then ?data \<noteq> 0 else \<not> proto3_default env d m f p) then wire_tagged f (wire_value env sub m f ?data) else ([], True))"
        by (intro enc_emits_if facts)
      ultimately show ?thesis
        by (simp only:) (erule enc_emits_cong, use 2 dflt in \<open>auto simp: encode_basic_field_def Let_def pb_htypes\<close>)
    next
      case 3
      then have "wire_field env d sub m f p = (wire_array (wire_value env sub m f) m f ?data (if f_size_offset f \<noteq> 0 then load m (p + f_size_offset f) 4 else f_array_size f))"
        by (simp add: wire_field_def Let_def pb_htypes)
      moreover have "enc_emits (encode_array env f ?data (if f_size_offset f \<noteq> 0 then load m (p + f_size_offset f) 4 else f_array_size f) (PB_ENCODERS env enc f)) m (wire_array (wire_value env sub m f) m f ?data (if f_size_offset f \<noteq> 0 then load m (p + f_size_offset f) 4 else f_array_size f))"
        by (intro enc_emits_if facts)
      ultimately show ?thesis
        by (simp only:) (erule enc_emits_cong, use 3 in \<open>auto simp: encode_basic_field_def Let_def pb_htypes\<close>)
    next
      case 4
      then have "wire_field env d sub m f p = (if load m (p + f_size_offset f) 4 = f_tag f then wire_tagged f (wire_value env sub m f ?data) else ([], True))"
        by (simp add: wire_field_def Let_def pb_htypes)
      moreover have "enc_emits (if load m (p + f_size_offset f) 4 = f_tag f then (\<lambda>c. c_then (pb_encode_tag_for_field env f c) (PB_ENCODERS env enc f ?data)) else c_done) m (if load m (p + f_size_offset f) 4 = f_tag f then wire_tagged f (wire_value env sub m f ?data) else ([], True))"
        by (intro enc_emits_if facts)
      ultimately show ?thesis
        by (simp only:) (erule enc_emits_cong, use 4 oneof in \<open>auto simp: encode_basic_field_def Let_def pb_htypes\<close>)
    qed
  qed
  then show ?thesis using static by (auto simp: encode_field_def Let_def)
qed

lemma enc_emits_message:
  "plain_table env d fs \<Longrightarrow> d < n \<Longrightarrow> enc_emits (encode_message env n fs p) m (wire_message env d m fs p)"
proof (induction d arbitrary: n fs p)
  case 0
  then show ?case by simp
next
  case (Suc d)
  then obtain k where n: "n = Suc k" "d < k" by (cases n) auto
  have "enc_emits (encode_iter env k (encode_message env k) it) m
      (wire_field env d (wire_message env d m) m (it_field it) (it_pData it))"
    if "it \<in> set (table_iters fs p)" for it
  proof -
    note pf = plain_table_iter [OF Suc.prems(1) that]
    have "PB_LTYPE (f_type (it_field it)) \<noteq> PB_LTYPE_EXTENSION"
      using pf by (auto simp: plain_field_def Let_def pb_ltypes)
    then show ?thesis using enc_emits_field [OF pf n(2), of "encode_message env k" m "wire_message env d m"]
      Suc.IH [OF _ n(2)] by (simp add: encode_iter_def)
  qed
  from enc_emits_each [OF this, where fs = fs] have each: "enc_emits
      (encode_each (Suc (length fs)) (encode_iter env k (encode_message env k)) (snd (pb_field_iter_begin fs p))) m
      (w_concat (map (\<lambda>it. wire_field env d (wire_message env d m) m (it_field it) (it_pData it)) (table_iters fs p)))" .
  show ?case
  proof (cases "f_tag (field_at fs 0) = 0")
    case True
    then have "encode_message env n fs p = c_done" using iter_begin_fst [of fs p] unfolding n(1)
      by (intro ext) (cases "pb_field_iter_begin fs p", simp)
    then show ?thesis using True enc_emits_done by simp
  next
    case False
    then have "encode_message env n fs p =
        encode_each (Suc (length fs)) (encode_iter env k (encode_message env k)) (snd (pb_field_iter_begin fs p))"
      using iter_begin_fst [of fs p] unfolding n(1)
      by (intro ext) (cases "pb_field_iter_begin fs p", simp del: encode_each.simps)
    then show ?thesis using False each by (simp del: encode_each.simps)
  qed
qed


lemma enc_emits_run:
  assumes "enc_emits f m w" and "length (fst w) \<le> SIZE_MAX"
  shows "\<exists>r s'. run_encode f (pb_ostream_from_buffer room) m = Some (r, s', m) \<and>
     (r \<longleftrightarrow> snd w \<and> length (fst w) \<le> room) \<and>
     (\<exists>ys zs. fst w = ys @ zs \<and> os_state s' = BufSink ys \<and> length ys \<le> room \<and> (r \<longrightarrow> zs = []))"
proof -
  let ?s = "pb_ostream_from_buffer room :: 'a pb_ostream"
  have s: "os_plain ?s" "os_errmsg ?s = None" "os_bytes_written ?s + length (fst w) \<le> SIZE_MAX"
    and fits: "os_fits ?s k \<longleftrightarrow> k \<le> room" and put: "os_state (os_put ?s ys) = BufSink ys" for k ys
    using assms(2) by (simp_all add: pb_ostream_from_buffer_def os_plain_def os_fits_def os_put_def)
  obtain r s' where f: "f \<lparr>c_out = ?s, c_mem = m\<rparr> = Some (r, \<lparr>c_out = s', c_mem = m\<rparr>)" and
    r: "if snd w \<and> os_fits ?s (length (fst w)) then r \<and> s' = os_put ?s (fst w)
        else \<not> r \<and> os_part ?s s' (fst w)"
    by (rule enc_emitsE [OF assms(1) s])
  have run: "run_encode f ?s m = Some (r, s', m)" using f by (simp add: run_encode_def)
  show ?thesis
  proof (cases "snd w \<and> length (fst w) \<le> room")
    case True
    then show ?thesis using run r fits put by auto
  next
    case False
    then obtain ys zs where p: "fst w = ys @ zs" "os_fits ?s (length ys)"
      "s'\<lparr>os_errmsg := None\<rparr> = (os_put ?s ys)\<lparr>os_errmsg := None\<rparr>"
      using r fits unfolding os_part_def by auto
    have "os_state s' = BufSink ys" using arg_cong [OF p(3), of os_state] put by simp
    then show ?thesis using False run r fits p(1,2) by auto
  qed
qed

lemma leb_length_10: "n \<le> SIZE_MAX \<Longrightarrow> length (leb n) \<le> 10"
  using length_leb_le [of n 10] by (simp add: SIZE_MAX_def)

text \<open>C13: for every table of static and pointer fields, nested messages, packed arrays, strings
  and \<open>oneof\<close> fields included, the encoder writes the message format. \<open>pb_get_encoded_size\<close>
  gives the number of bytes, or fails when a value cannot be written; \<open>pb_encode\<close> returns, its
  buffer then holds the bytes exactly when they can be written and fit, and otherwise a first
  part of them, never more than the room of the buffer; with \<open>pb_encode_delimited\<close> the length
  stands in front, with \<open>pb_encode_nullterminated\<close> a zero at the end. The size of a submessage
  never changes between its two passes.\<close>

theorem pb_encode_writes_format:
  assumes "plain_table env d fs" and "d < n" and "wire_message env d m fs p = (bs, ok)"
    and "length bs + 10 \<le> SIZE_MAX"
    and "(enc, out) \<in> {(pb_encode env n fs p, bs), (pb_encode_delimited env n fs p, if ok then leb (length bs) @ bs else bs),
      (pb_encode_nullterminated env n fs p, if ok then bs @ [0] else bs)}"
  shows "pb_get_encoded_size env n fs p m = Some (if ok then Some (length bs) else None) \<and>
    (\<exists>r s'. enc (pb_ostream_from_buffer room) m = Some (r, s', m) \<and> (r \<longleftrightarrow> ok \<and> length out \<le> room) \<and>
       (\<exists>ys zs. out = ys @ zs \<and> os_state s' = BufSink ys \<and> length ys \<le> room \<and> (r \<longrightarrow> zs = [])))"
proof
  note msg = enc_emits_message [OF assms(1,2), of p m, unfolded assms(3)]
  have "length (fst (bs, ok)) \<le> SIZE_MAX" using assms(4) by simp
  then obtain s' where "encode_message env n fs p \<lparr>c_out = PB_OSTREAM_SIZING, c_mem = m\<rparr> =
      Some (ok, \<lparr>c_out = s', c_mem = m\<rparr>)" "ok \<longrightarrow> os_bytes_written s' = length bs"
    using enc_emits_first_pass [OF msg] by (metis fst_conv snd_conv)
  then show "pb_get_encoded_size env n fs p m = Some (if ok then Some (length bs) else None)"
    by (simp add: pb_get_encoded_size_def pb_encode_def run_encode_def)
  note sub = enc_emits_submessage [where enc = "encode_message env n" and fs = fs and p = p and env = env, OF msg]
  have null: "enc_emits (\<lambda>c. c_then (encode_message env n fs p c) (c_do (\<lambda>s. pb_write (n_write env) s [0] 1))) m
      (w_seq (bs, ok) ([0], True))"
    using enc_emits_do [OF pb_emits_write, of "n_write env" "[0]" m] by (intro enc_emits_then msg) simp
  have "length (leb (length bs)) \<le> 10" using assms(4) by (intro leb_length_10) simp
  then have l: "length (fst (w_len (bs, ok))) \<le> SIZE_MAX" "length (fst (w_seq (bs, ok) ([0], True))) \<le> SIZE_MAX"
    using assms(4) by (simp_all add: w_len_def w_seq_def)
  have ok: "snd (w_len (bs, ok)) = ok" "snd (w_seq (bs, ok) ([0], True)) = ok"
    by (simp_all add: w_len_def w_seq_def)
  consider "enc = pb_encode env n fs p" "out = bs"
    | "enc = pb_encode_delimited env n fs p" "out = fst (w_len (bs, ok))"
    | "enc = pb_encode_nullterminated env n fs p" "out = fst (w_seq (bs, ok) ([0], True))"
    using assms(5) by (auto simp: w_len_def w_seq_def)
  then show "\<exists>r s'. enc (pb_ostream_from_buffer room) m = Some (r, s', m) \<and> (r \<longleftrightarrow> ok \<and> length out \<le> room) \<and>
       (\<exists>ys zs. out = ys @ zs \<and> os_state s' = BufSink ys \<and> length ys \<le> room \<and> (r \<longrightarrow> zs = []))"
  proof cases
    case 1
    then show ?thesis using enc_emits_run [OF msg, of room] assms(4) by (simp add: pb_encode_def)
  next
    case 2
    then show ?thesis using enc_emits_run [OF sub l(1), of room] ok(1) by (simp add: pb_encode_delimited_def)
  next
    case 3
    then show ?thesis using enc_emits_run [OF null l(2), of room] ok(2) by (simp add: pb_encode_nullterminated_def)
  qed
qed

definition demo_enc_env :: "unit pb_enc_env" where
  "demo_enc_env =
     \<lparr>n_write = (\<lambda>u bs. (True, u)), n_table = e_table demo_env, n_ext_encode_fn = (\<lambda>_. 0), n_ext_arg = (\<lambda>_. 0),
      n_encode = (\<lambda>fn s f p m. (False, s, m)), n_ext_encode = (\<lambda>fn s p m. (False, s, m))\<rparr>"

definition demo_message :: pb_mem where
  "demo_message = mem_write (\<lambda>_. 0) 1000
     [5, 0, 0, 0, 3, 0, 0, 0, 1, 0, 0, 0, 2, 0, 0, 0, 3, 0, 0, 0, 1, 0, 0, 0, 7, 0, 0, 0]"

lemma demo_plain: "plain_table demo_enc_env 2 demo_fields"
  by code_simp

lemma demo_wire:
  "wire_message demo_enc_env 2 demo_message demo_fields 1000 = ([8, 5, 18, 3, 1, 2, 3, 26, 2, 8, 7], True)"
  by code_simp

theorem pb_encode_writes_format_witness:
  "pb_get_encoded_size demo_enc_env 3 demo_fields 1000 demo_message = Some (Some 11) \<and>
   (\<exists>s'. pb_encode demo_enc_env 3 demo_fields 1000 (pb_ostream_from_buffer 11) demo_message =
      Some (True, s', demo_message) \<and> os_state s' = BufSink [8, 5, 18, 3, 1, 2, 3, 26, 2, 8, 7])"
  using pb_encode_writes_format [OF demo_plain _ demo_wire, of 3 "pb_encode demo_enc_env 3 demo_fields 1000"
      "[8, 5, 18, 3, 1, 2, 3, 26, 2, 8, 7]" 11]
  by (auto simp: SIZE_MAX_def)

end
