(* ===== verification/PbContents.thy ===== *)
theory PbContents
  imports PbFormat
begin

text \<open>
  The contents of a message in memory, what the generator promises of a table of static proto3
  fields, and the facts that frames give about both: contents and defaults of a field depend
  on its own bytes only. The last section proves that \<open>pb_message_set_to_defaults\<close> makes a
  message fresh.
\<close>

section \<open>The contents of a message\<close>

text \<open>The places of the values a field has: none or one of a singular field, and as many as the
  count says of a repeated one.\<close>

definition entries :: "pb_mem \<Rightarrow> pb_field \<Rightarrow> int \<Rightarrow> int list" where
  "entries m f p =
     (let pSize = p + f_size_offset f in
      if PB_HTYPE (f_type f) = PB_HTYPE_REPEATED then map (item_at p f) [0..<load m pSize 4]
      else if f_size_offset f \<noteq> 0 \<and> load m pSize 1 = 0 then []
      else [p])"

type_synonym pb_tables = "int \<Rightarrow> pb_field list"

text \<open>The same value at \<open>p\<close> in \<open>m\<close> and at \<open>q\<close> in \<open>m'\<close>, where it fits.\<close>

definition same_value :: "pb_tables \<Rightarrow> (pb_field list \<Rightarrow> pb_mem \<Rightarrow> int \<Rightarrow> pb_mem \<Rightarrow> int \<Rightarrow> bool) \<Rightarrow>
    pb_mem \<Rightarrow> pb_mem \<Rightarrow> pb_field \<Rightarrow> int \<Rightarrow> int \<Rightarrow> bool" where
  "same_value T sub m m' f p q \<longleftrightarrow>
     (let t = PB_LTYPE (f_type f) in
      if t = PB_LTYPE_BYTES then
        load m' q 4 = load m p 4 \<and> load m p 4 + 4 \<le> f_data_size f \<and>
        mem_read m' (q + 4) (load m p 4) = mem_read m (p + 4) (load m p 4)
      else if t = PB_LTYPE_STRING then
        (let n = c_strnlen m p (f_data_size f) in
         n < f_data_size f \<and> mem_read m' q (Suc n) = mem_read m p (Suc n))
      else if t = PB_LTYPE_SUBMESSAGE then sub (T (f_ptr f)) m p m' q
      else mem_read m' q (f_data_size f) = mem_read m p (f_data_size f))"

text \<open>The same values of a field, no more of them than its array has room for.\<close>

definition same_field :: "pb_tables \<Rightarrow> (pb_field list \<Rightarrow> pb_mem \<Rightarrow> int \<Rightarrow> pb_mem \<Rightarrow> int \<Rightarrow> bool) \<Rightarrow>
    pb_mem \<Rightarrow> pb_mem \<Rightarrow> pb_field \<Rightarrow> int \<Rightarrow> int \<Rightarrow> bool" where
  "same_field T sub m m' f p q \<longleftrightarrow>
     list_all2 (same_value T sub m m' f) (entries m f p) (entries m' f q) \<and>
     (PB_HTYPE (f_type f) = PB_HTYPE_REPEATED \<longrightarrow> length (entries m' f q) \<le> f_array_size f)"

fun same_message :: "pb_tables \<Rightarrow> nat \<Rightarrow> pb_field list \<Rightarrow> pb_mem \<Rightarrow> int \<Rightarrow> pb_mem \<Rightarrow> int \<Rightarrow> bool" where
  "same_message T 0 fs m p m' q = False"
| "same_message T (Suc d) fs m p m' q =
     (\<forall>it\<in>set (table_iters fs 0).
        same_field T (same_message T d) m m' (it_field it) (p + it_pData it) (q + it_pData it))"

text \<open>The strings of a message end within their arrays.\<close>

fun strings_end :: "pb_tables \<Rightarrow> nat \<Rightarrow> pb_field list \<Rightarrow> pb_mem \<Rightarrow> int \<Rightarrow> bool" where
  "strings_end T 0 fs m p = False"
| "strings_end T (Suc d) fs m p =
     (\<forall>it\<in>set (table_iters fs 0). \<forall>q\<in>set (entries m (it_field it) (p + it_pData it)).
        (PB_LTYPE (f_type (it_field it)) = PB_LTYPE_STRING \<longrightarrow>
           c_strnlen m q (f_data_size (it_field it)) < f_data_size (it_field it)) \<and>
        (PB_LTYPE (f_type (it_field it)) = PB_LTYPE_SUBMESSAGE \<longrightarrow>
           strings_end T d (T (f_ptr (it_field it))) m q))"

section \<open>Tables\<close>

text \<open>The bytes of a field at \<open>p\<close>, its \<open>has_\<close> or \<open>_count\<close> variable in front.\<close>

definition place_lo :: "pb_field \<Rightarrow> int \<Rightarrow> int" where
  "place_lo f p = p + f_size_offset f"

definition place_hi :: "pb_field \<Rightarrow> int \<Rightarrow> int" where
  "place_hi f p = p + int (f_data_size f * (if PB_HTYPE (f_type f) = PB_HTYPE_REPEATED then f_array_size f else 1))"

abbreviation field_lo :: "pb_iter \<Rightarrow> int" where
  "field_lo it \<equiv> place_lo (it_field it) (it_pData it)"

abbreviation field_hi :: "pb_iter \<Rightarrow> int" where
  "field_hi it \<equiv> place_hi (it_field it) (it_pData it)"

definition proto3_field :: "pb_tables \<Rightarrow> (pb_field list \<Rightarrow> nat \<Rightarrow> bool) \<Rightarrow> pb_field \<Rightarrow> bool" where
  "proto3_field T sub f \<longleftrightarrow>
     (let t = f_type f; n = f_data_size f in
      PB_ATYPE t = PB_ATYPE_STATIC \<and> 0 < f_tag f \<and> f_tag f < 2 ^ 29 \<and> n < 2 ^ 32 \<and>
      (PB_HTYPE t = PB_HTYPE_OPTIONAL \<and> f_size_offset f \<le> 0 \<or>
       PB_HTYPE t = PB_HTYPE_REPEATED \<and> f_size_offset f \<le> - 4) \<and>
      (if PB_LTYPE t = PB_LTYPE_VARINT \<or> PB_LTYPE t = PB_LTYPE_UVARINT \<or> PB_LTYPE t = PB_LTYPE_SVARINT
       then n = 1 \<or> n = 2 \<or> n = 4 \<or> n = 8
       else if PB_LTYPE t = PB_LTYPE_FIXED32 then n = 4
       else if PB_LTYPE t = PB_LTYPE_FIXED64 then n = 8
       else if PB_LTYPE t = PB_LTYPE_BYTES then 4 \<le> n
       else if PB_LTYPE t = PB_LTYPE_STRING then 1 \<le> n
       else if PB_LTYPE t = PB_LTYPE_SUBMESSAGE then f_ptr f \<noteq> 0 \<and> sub (T (f_ptr f)) n
       else PB_LTYPE t = PB_LTYPE_FIXED_LENGTH_BYTES) \<and>
      (PB_LTYPE t \<noteq> PB_LTYPE_SUBMESSAGE \<longrightarrow> f_ptr f = 0))"

text \<open>The fields of the structure, of \<open>sz\<close> bytes, stand one behind the other and have tags of
  their own.\<close>

fun proto3_table :: "pb_tables \<Rightarrow> nat \<Rightarrow> pb_field list \<Rightarrow> nat \<Rightarrow> bool" where
  "proto3_table T 0 fs sz = False"
| "proto3_table T (Suc d) fs sz \<longleftrightarrow>
     (let its = table_iters fs 0 in
      distinct (map (\<lambda>it. f_tag (it_field it)) its) \<and>
      sorted_wrt (\<lambda>i j. field_hi i \<le> field_lo j) its \<and>
      (\<forall>it\<in>set its. proto3_field T (proto3_table T d) (it_field it) \<and> 0 \<le> field_lo it \<and> field_hi it \<le> int sz))"

text \<open>The message as \<open>pb_message_set_to_defaults\<close> leaves it: nothing is set, numbers and strings
  that are always there are zero, submessages have their defaults.\<close>

definition fresh_field :: "pb_tables \<Rightarrow> (pb_field list \<Rightarrow> pb_mem \<Rightarrow> int \<Rightarrow> bool) \<Rightarrow> pb_mem \<Rightarrow> pb_field \<Rightarrow> int \<Rightarrow> bool" where
  "fresh_field T sub m f p \<longleftrightarrow>
     (if PB_HTYPE (f_type f) = PB_HTYPE_REPEATED then load m (p + f_size_offset f) 4 = 0
      else
        (f_size_offset f \<noteq> 0 \<longrightarrow> load m (p + f_size_offset f) 1 = 0) \<and>
        (if PB_LTYPE (f_type f) = PB_LTYPE_SUBMESSAGE then sub (T (f_ptr f)) m p
         else mem_read m p (f_data_size f) = replicate (f_data_size f) 0))"

fun fresh_message :: "pb_tables \<Rightarrow> nat \<Rightarrow> pb_field list \<Rightarrow> pb_mem \<Rightarrow> int \<Rightarrow> bool" where
  "fresh_message T 0 fs m p = False"
| "fresh_message T (Suc d) fs m p =
     (\<forall>it\<in>set (table_iters fs 0). fresh_field T (fresh_message T d) m (it_field it) (p + it_pData it))"

section \<open>Memory that agrees\<close>

definition agree :: "int \<Rightarrow> int \<Rightarrow> pb_mem \<Rightarrow> pb_mem \<Rightarrow> bool" where
  "agree lo hi m m' \<longleftrightarrow> (\<forall>a. lo \<le> a \<longrightarrow> a < hi \<longrightarrow> m' a = m a)"

lemma agree_mono: "agree a b m m' \<Longrightarrow> a \<le> lo \<Longrightarrow> hi \<le> b \<Longrightarrow> agree lo hi m m'"
  by (auto simp: agree_def)

lemma agree_frame: "frame lo hi m m' \<Longrightarrow> b \<le> lo \<or> hi \<le> a \<Longrightarrow> agree a b m m'"
  by (auto simp: frame_def agree_def)

lemma mem_read_agree: "agree lo hi m m' \<Longrightarrow> lo \<le> p \<Longrightarrow> p + int n \<le> hi \<Longrightarrow> mem_read m' p n = mem_read m p n"
  by (auto simp: agree_def mem_read_def)

lemma load_agree: "agree lo hi m m' \<Longrightarrow> lo \<le> p \<Longrightarrow> p + int n \<le> hi \<Longrightarrow> load m' p n = load m p n"
  by (simp add: load_def mem_read_agree [where lo = lo and hi = hi])

lemma c_strnlen_le: "c_strnlen m p n \<le> n"
  by (induction n arbitrary: p) simp_all

lemma mem_read_eq_iff: "mem_read m' q n = mem_read m p n \<longleftrightarrow> (\<forall>i<n. m' (q + int i) = m (p + int i))"
  by (auto simp: mem_read_def)

text \<open>The iterators of a table of proto3 fields.\<close>

lemma proto3_fieldD:
  assumes "proto3_field T sub f"
  shows "PB_ATYPE (f_type f) = PB_ATYPE_STATIC" "0 < f_tag f" "f_tag f < 2 ^ 29" "f_data_size f < 2 ^ 32"
    "PB_HTYPE (f_type f) \<noteq> PB_HTYPE_REPEATED \<Longrightarrow> PB_HTYPE (f_type f) = PB_HTYPE_OPTIONAL"
    "f_size_offset f \<le> 0"
    "PB_HTYPE (f_type f) = PB_HTYPE_REPEATED \<Longrightarrow> f_size_offset f \<le> - 4"
    "PB_LTYPE (f_type f) = PB_LTYPE_VARINT \<or> PB_LTYPE (f_type f) = PB_LTYPE_UVARINT \<or> PB_LTYPE (f_type f) = PB_LTYPE_SVARINT \<Longrightarrow>
       f_data_size f \<in> {1, 2, 4, 8}"
    "PB_LTYPE (f_type f) = PB_LTYPE_FIXED32 \<Longrightarrow> f_data_size f = 4"
    "PB_LTYPE (f_type f) = PB_LTYPE_FIXED64 \<Longrightarrow> f_data_size f = 8"
    "PB_LTYPE (f_type f) = PB_LTYPE_BYTES \<Longrightarrow> 4 \<le> f_data_size f"
    "PB_LTYPE (f_type f) = PB_LTYPE_STRING \<Longrightarrow> 1 \<le> f_data_size f"
    "PB_LTYPE (f_type f) = PB_LTYPE_SUBMESSAGE \<Longrightarrow> f_ptr f \<noteq> 0 \<and> sub (T (f_ptr f)) (f_data_size f)"
    "PB_LTYPE (f_type f) \<noteq> PB_LTYPE_SUBMESSAGE \<Longrightarrow> f_ptr f = 0"
    "PB_LTYPE (f_type f) \<in> {PB_LTYPE_VARINT, PB_LTYPE_UVARINT, PB_LTYPE_SVARINT,
      PB_LTYPE_FIXED32, PB_LTYPE_FIXED64, PB_LTYPE_BYTES, PB_LTYPE_STRING, PB_LTYPE_SUBMESSAGE,
      PB_LTYPE_FIXED_LENGTH_BYTES}"
  using assms by (auto simp: proto3_field_def Let_def pb_ltypes pb_htypes split: if_splits)

lemma proto3_tableD:
  assumes "proto3_table T (Suc d) fs sz"
  shows "distinct (map (\<lambda>it. f_tag (it_field it)) (table_iters fs 0))"
    "sorted_wrt (\<lambda>i j. field_hi i \<le> field_lo j) (table_iters fs 0)"
    "it \<in> set (table_iters fs 0) \<Longrightarrow> proto3_field T (proto3_table T d) (it_field it)"
    "it \<in> set (table_iters fs 0) \<Longrightarrow> 0 \<le> field_lo it"
    "it \<in> set (table_iters fs 0) \<Longrightarrow> field_hi it \<le> int sz"
  using assms by (simp_all add: Let_def)

lemma same_value_agree:
  assumes "same_value T sub m m1 f p q" and "agree q (q + int (f_data_size f)) m1 m2"
    and "PB_LTYPE (f_type f) = PB_LTYPE_SUBMESSAGE \<Longrightarrow> sub (T (f_ptr f)) m p m1 q \<Longrightarrow> sub (T (f_ptr f)) m p m2 q"
  shows "same_value T sub m m2 f p q"
proof -
  have r: "mem_read m2 (q + int k) n = mem_read m1 (q + int k) n" if "k + n \<le> f_data_size f" for k n
    using mem_read_agree [OF assms(2), of "q + int k" n] that by simp
  then have "load m2 q 4 = load m1 q 4" if "4 \<le> f_data_size f" using that r [of 0 4] by (simp add: load_def)
  moreover note r [of 4 "load m p 4"] r [of 0 "Suc (c_strnlen m p (f_data_size f))"] r [of 0 "f_data_size f"]
  ultimately show ?thesis using assms(1,3)
    unfolding same_value_def Let_def by (auto split: if_splits)
qed

lemma item_at_less:
  "i < j \<Longrightarrow> item_at p f i + int (f_data_size f) \<le> item_at p f j"
  using mult_left_mono [of "int (Suc i)" "int j" "int (f_data_size f)"] by (simp add: item_at_def algebra_simps)

text \<open>The bytes of a field are all that its contents and its defaults depend on.\<close>

lemma place_shift: "place_lo f (q + p) = q + place_lo f p" "place_hi f (q + p) = q + place_hi f p"
  by (simp_all add: place_lo_def place_hi_def)

lemma place_item:
  assumes "PB_HTYPE (f_type f) = PB_HTYPE_REPEATED" and "i < f_array_size f"
  shows "p \<le> item_at p f i" "item_at p f i + int (f_data_size f) \<le> place_hi f p"
  using assms item_region [of p p f "f_array_size f" "place_hi f p" i] by (simp_all add: place_hi_def)

lemma place_size:
  assumes "proto3_field T P f"
  shows "p \<le> place_hi f p" "place_lo f p \<le> p"
    "PB_HTYPE (f_type f) = PB_HTYPE_REPEATED \<Longrightarrow> place_lo f p + 4 \<le> p"
    "f_size_offset f \<noteq> 0 \<Longrightarrow> place_lo f p + 1 \<le> p"
    "PB_HTYPE (f_type f) \<noteq> PB_HTYPE_REPEATED \<Longrightarrow> place_hi f p = p + int (f_data_size f)"
  using proto3_fieldD(6,7) [OF assms] by (simp_all add: place_lo_def place_hi_def)

lemma size_agree:
  assumes "proto3_field T P f" and "agree (place_lo f p) (place_hi f p) m m'"
  shows "PB_HTYPE (f_type f) = PB_HTYPE_REPEATED \<Longrightarrow> load m' (p + f_size_offset f) 4 = load m (p + f_size_offset f) 4"
    "f_size_offset f \<noteq> 0 \<Longrightarrow> load m' (p + f_size_offset f) 1 = load m (p + f_size_offset f) 1"
  using place_size [OF assms(1), of p] unfolding place_lo_def
  by (auto intro!: load_agree [OF assms(2)] simp: place_lo_def)

lemma entries_agree:
  assumes "proto3_field T P f" and "agree (place_lo f p) (place_hi f p) m m'"
  shows "entries m' f p = entries m f p"
  using size_agree [OF assms] by (auto simp: entries_def Let_def)

lemma entries_place:
  assumes "proto3_field T P f" and "q \<in> set (entries m f p)"
    and "PB_HTYPE (f_type f) = PB_HTYPE_REPEATED \<longrightarrow> length (entries m f p) \<le> f_array_size f"
  shows "p \<le> q" "q + int (f_data_size f) \<le> place_hi f p"
proof -
  have "p \<le> q \<and> q + int (f_data_size f) \<le> place_hi f p"
  proof (cases "PB_HTYPE (f_type f) = PB_HTYPE_REPEATED")
    case True
    then have "load m (p + f_size_offset f) 4 \<le> f_array_size f" using assms(3) by (simp add: entries_def Let_def)
    moreover obtain i where "i < load m (p + f_size_offset f) 4" "q = item_at p f i"
      using assms(2) True by (auto simp: entries_def Let_def)
    ultimately show ?thesis using place_item [OF True, of i p] by auto
  next
    case False
    then show ?thesis using assms(2) place_size(5) [OF assms(1) False, of p]
      by (auto simp: entries_def Let_def split: if_splits)
  qed
  then show "p \<le> q" "q + int (f_data_size f) \<le> place_hi f p" by simp_all
qed

lemma same_field_agree:
  assumes "proto3_field T P f" and "agree (place_lo f q) (place_hi f q) m1 m2"
    and "\<And>fs sz p q. P fs sz \<Longrightarrow> agree q (q + int sz) m1 m2 \<Longrightarrow> sub fs m p m1 q \<Longrightarrow> sub fs m p m2 q"
    and "same_field T sub m m1 f p q"
  shows "same_field T sub m m2 f p q"
proof -
  have e: "entries m2 f q = entries m1 f q" by (rule entries_agree [OF assms(1,2)])
  have v: "same_value T sub m m2 f a b" if "same_value T sub m m1 f a b" "b \<in> set (entries m1 f q)" for a b
  proof -
    have "agree b (b + int (f_data_size f)) m1 m2"
      using entries_place [OF assms(1) that(2)] assms(4) place_size(2) [OF assms(1), of q]
      by (intro agree_mono [OF assms(2)]) (auto simp: same_field_def)
    note a = this
    show ?thesis
      by (rule same_value_agree [OF that(1) a], rule assms(3) [OF _ a])
        (use proto3_fieldD(13) [OF assms(1)] in simp_all)
  qed
  have "list_all2 (same_value T sub m m2 f) (entries m f p) (entries m1 f q)"
    using assms(4) v by (auto simp: same_field_def list_all2_conv_all_nth)
  then show ?thesis using assms(4) by (simp add: same_field_def e)
qed

lemma proto3_place:
  assumes "proto3_table T (Suc d) fs sz" and "it \<in> set (table_iters fs 0)"
    and "agree q (q + int sz) m1 m2"
  shows "agree (place_lo (it_field it) (q + it_pData it)) (place_hi (it_field it) (q + it_pData it)) m1 m2"
  using proto3_tableD(4,5) [OF assms(1,2)] by (intro agree_mono [OF assms(3)]) (simp_all add: place_shift)

lemma same_message_agree:
  "proto3_table T d fs sz \<Longrightarrow> agree q (q + int sz) m1 m2 \<Longrightarrow> same_message T d fs m p m1 q \<Longrightarrow>
     same_message T d fs m p m2 q"
proof (induction d arbitrary: fs sz p q)
  case (Suc d)
  show ?case unfolding same_message.simps
  proof
    fix it
    assume it: "it \<in> set (table_iters fs 0)"
    show "same_field T (same_message T d) m m2 (it_field it) (p + it_pData it) (q + it_pData it)"
      by (rule same_field_agree [where P = "proto3_table T d" and sub = "same_message T d" and ?m1.0 = m1])
        (use Suc.IH Suc.prems(3) it proto3_tableD(3) [OF Suc.prems(1) it] proto3_place [OF Suc.prems(1) it Suc.prems(2)] in simp_all)
  qed
qed simp

lemma fresh_field_agree:
  assumes "proto3_field T P f" and "agree (place_lo f q) (place_hi f q) m1 m2"
    and "\<And>fs sz q. P fs sz \<Longrightarrow> agree q (q + int sz) m1 m2 \<Longrightarrow> sub fs m1 q \<Longrightarrow> sub fs m2 q"
    and "fresh_field T sub m1 f q"
  shows "fresh_field T sub m2 f q"
proof (cases "PB_HTYPE (f_type f) = PB_HTYPE_REPEATED")
  case True
  then show ?thesis using assms(4) size_agree(1) [OF assms(1,2)] by (simp add: fresh_field_def)
next
  case False
  then have a: "agree q (q + int (f_data_size f)) m1 m2"
    using place_size(2,5) [OF assms(1), of q] by (intro agree_mono [OF assms(2)]) auto
  moreover have "mem_read m2 q (f_data_size f) = mem_read m1 q (f_data_size f)"
    by (rule mem_read_agree [OF a]) simp_all
  ultimately show ?thesis using assms(3,4) False proto3_fieldD(13) [OF assms(1)] size_agree(2) [OF assms(1,2)]
    by (auto simp: fresh_field_def)
qed

lemma fresh_message_agree:
  "proto3_table T d fs sz \<Longrightarrow> agree q (q + int sz) m1 m2 \<Longrightarrow> fresh_message T d fs m1 q \<Longrightarrow> fresh_message T d fs m2 q"
proof (induction d arbitrary: fs sz q)
  case (Suc d)
  show ?case unfolding fresh_message.simps
  proof
    fix it
    assume it: "it \<in> set (table_iters fs 0)"
    show "fresh_field T (fresh_message T d) m2 (it_field it) (q + it_pData it)"
      by (rule fresh_field_agree [where P = "proto3_table T d" and sub = "fresh_message T d" and ?m1.0 = m1])
        (use Suc.IH Suc.prems(3) it proto3_tableD(3) [OF Suc.prems(1) it] proto3_place [OF Suc.prems(1) it Suc.prems(2)] in simp_all)
  qed
qed simp

section \<open>The table at a place in memory\<close>

lemma iter_next_single:
  "pb_field_iter_next it = (True, it') \<Longrightarrow> PB_HTYPE (f_type (it_field it)) \<noteq> PB_HTYPE_ONEOF \<Longrightarrow>
     PB_HTYPE (f_type (it_field it)) \<noteq> PB_HTYPE_REQUIRED \<Longrightarrow>
     it_pSize it' = place_lo (it_field it') (it_pData it') \<and>
     it_required_field_index it' = it_required_field_index it"
  by (auto simp: pb_field_iter_next_def Let_def it_field_def place_lo_def split: if_splits)

lemma proto3_at:
  assumes "proto3_table T (Suc d) fs sz" and "i < length (table_iters fs q)"
  defines "it \<equiv> table_iters fs q ! i"
  shows "proto3_field T (proto3_table T d) (it_field it)" "q \<le> field_lo it" "field_hi it \<le> q + int sz"
    "it_pSize it = place_lo (it_field it) (it_pData it)" "it_required_field_index it = 0" "it_start it = fs"
    "\<not> it_fixed it"
proof -
  have f: "proto3_field T (proto3_table T d) (it_field it) \<and> q \<le> field_lo it \<and> field_hi it \<le> q + int sz"
    if it: "it \<in> set (table_iters fs q)" for it
  proof -
    obtain it0 where "it0 \<in> set (table_iters fs 0)" "it = shift_iter q it0"
      using it unfolding shift_table_iters [of fs q] by auto
    then show ?thesis using proto3_tableD(3-5) [OF assms(1), of it0]
      by (simp add: place_shift add.commute [of _ q])
  qed
  have "table_iters fs q ! i \<in> set (table_iters fs q)" using assms(2) by simp
  from f [OF this] show "proto3_field T (proto3_table T d) (it_field it)" "q \<le> field_lo it"
    "field_hi it \<le> q + int sz" by (simp_all add: it_def)
  have "it_pSize (table_iters fs q ! i) = place_lo (it_field (table_iters fs q ! i)) (it_pData (table_iters fs q ! i)) \<and>
      it_required_field_index (table_iters fs q ! i) = 0"
    using assms(2)
  proof (induction i)
    case 0
    then show ?case
      by (simp add: table_iters_0 pb_field_iter_begin_def Let_def it_field_def place_lo_def)
  next
    case (Suc i)
    then have nx: "pb_field_iter_next (table_iters fs q ! i) = (True, table_iters fs q ! Suc i)"
      by (intro table_iters_step(4)) simp_all
    have "proto3_field T (proto3_table T d) (it_field (table_iters fs q ! i))" using f Suc.prems by simp
    then have "PB_HTYPE (f_type (it_field (table_iters fs q ! i))) \<noteq> PB_HTYPE_ONEOF"
      "PB_HTYPE (f_type (it_field (table_iters fs q ! i))) \<noteq> PB_HTYPE_REQUIRED"
      by (auto dest!: proto3_fieldD(5) simp: pb_htypes)
    then show ?case using iter_next_single [OF nx] Suc.IH Suc.prems by simp
  qed
  then show "it_pSize it = place_lo (it_field it) (it_pData it)" "it_required_field_index it = 0"
    by (simp_all add: it_def)
  show "it_start it = fs" "\<not> it_fixed it" using assms(2) table_iters_step(1) by (simp_all add: it_def)
qed

lemma proto3_disjoint:
  assumes "proto3_table T (Suc d) fs sz" and "i < length (table_iters fs q)" and "j < length (table_iters fs q)"
    and "i \<noteq> j" and "frame (field_lo (table_iters fs q ! i)) (field_hi (table_iters fs q ! i)) m m'"
  shows "agree (field_lo (table_iters fs q ! j)) (field_hi (table_iters fs q ! j)) m m'"
proof (rule agree_frame [OF assms(5)])
  have "field_hi (table_iters fs q ! i) \<le> field_lo (table_iters fs q ! j)" if "i < j" "j < length (table_iters fs q)" for i j
    using that sorted_wrt_nth_less [OF proto3_tableD(2) [OF assms(1)], of i j]
    unfolding shift_table_iters [of fs q] by (simp add: place_shift add.commute [of _ q])
  then show "field_hi (table_iters fs q ! j) \<le> field_lo (table_iters fs q ! i) \<or>
      field_hi (table_iters fs q ! i) \<le> field_lo (table_iters fs q ! j)"
    using assms(2-4) by (cases "i < j") auto
qed

text \<open>The same, of the fields one by one.\<close>

lemma table_iters_ball0: "(\<forall>it\<in>set (table_iters fs 0). P (it_field it) (q + it_pData it)) \<longleftrightarrow>
    (\<forall>i<length (table_iters fs q). P (it_field (table_iters fs q ! i)) (it_pData (table_iters fs q ! i)))"
  unfolding shift_table_iters [of fs q] by (auto simp: all_set_conv_all_nth add.commute)

lemma same_message_nth:
  assumes "length (table_iters fs p) = length (table_iters fs q)"
  shows "same_message T (Suc d) fs m p m' q \<longleftrightarrow> (\<forall>i<length (table_iters fs q).
     same_field T (same_message T d) m m' (it_field (table_iters fs q ! i))
       (it_pData (table_iters fs p ! i)) (it_pData (table_iters fs q ! i)))"
  unfolding shift_table_iters [of fs q] shift_table_iters [of fs p]
  by (auto simp: all_set_conv_all_nth add.commute)

lemma length_table_iters: "length (table_iters fs p) = length (table_iters fs q)"
  unfolding shift_table_iters [of fs q] shift_table_iters [of fs p] by simp

section \<open>Defaults\<close>

lemma iter_each_steps:
  assumes "\<And>i x. i < length (table_iters fs dest) \<Longrightarrow> P i x \<Longrightarrow> \<exists>y. g (table_iters fs dest ! i) x = Some y \<and> P (Suc i) y"
    and "P 0 x"
  shows "\<exists>y. iter_each (Suc (length fs)) g (snd (pb_field_iter_begin fs dest)) x = Some y \<and> P (length (table_iters fs dest)) y"
proof -
  let ?L = "table_iters fs dest"
  have "\<exists>y. iter_each n g (?L ! k) x = Some y \<and> P (length ?L) y"
    if "k < length ?L" "P k x" "length ?L - k \<le> n" for n k x
    using that
  proof (induction n arbitrary: k x)
    case 0
    then show ?case by simp
  next
    case (Suc n)
    obtain y where y: "g (?L ! k) x = Some y" "P (Suc k) y" using assms(1) [OF Suc.prems(1,2)] by blast
    show ?case
    proof (cases "Suc k < length ?L")
      case True
      then show ?thesis using Suc.IH [of "Suc k" y] Suc.prems(3) y table_iters_step(4) [OF Suc.prems(1)]
        by simp
    next
      case False
      then have "Suc k = length ?L" using Suc.prems(1) by simp
      then show ?thesis using Suc.prems(1) y table_iters_step(5) [OF Suc.prems(1)] by auto
    qed
  qed
  from this [of 0 x "Suc (length fs)"] show ?thesis
    using assms(2) table_iters_nonempty [of fs dest] table_iters_bound [of fs dest]
    by (simp add: table_iters_0)
qed

lemma store_frame_load: "load (store m p n v) p n = v mod 256 ^ n"
proof -
  have "mem_read (mem_write m p bs) p (length bs) = bs" for bs
    by (rule nth_equalityI) (simp_all add: mem_read_def mem_write_def)
  from this [of "le_bytes n v"] show ?thesis by (simp add: store_def load_def le_val_le_bytes)
qed

lemma mem_read_write: "n = length bs \<Longrightarrow> mem_read (mem_write m p bs) p n = bs"
  by (rule nth_equalityI) (simp_all add: mem_read_def mem_write_def)

lemma fresh_default_field:
  assumes "proto3_field T P f" and "f = it_field it" and "p = it_pData it" and "\<not> it_fixed it" and "it_pSize it = place_lo f p"
    and "T = e_table env"
    and "\<And>fs sz q m. P fs sz \<Longrightarrow> \<exists>M. pb_message_set_to_defaults env n fs q m = Some M \<and> frame q (q + int sz) m M \<and> sub fs M q"
  shows "\<exists>M. pb_field_set_to_default env (Suc n) it m = Some M \<and> frame (place_lo f p) (place_hi f p) m M \<and>
     fresh_field T sub M f p"
proof -
  note pf = proto3_fieldD [OF assms(1)] and sz = place_size [OF assms(1), of p]
  have st: "PB_LTYPE (f_type f) \<noteq> PB_LTYPE_EXTENSION" using pf(15) by (auto simp: pb_ltypes)
  show ?thesis
  proof (cases "PB_HTYPE (f_type f) = PB_HTYPE_REPEATED")
    case True
    let ?M = "store m (place_lo f p) 4 0"
    have "pb_field_set_to_default env (Suc n) it m = Some ?M"
      using True st pf(1) assms(2-5) by (simp add: Let_def)
    moreover have "frame (place_lo f p) (place_hi f p) m ?M" using sz True by (intro frame_store) simp_all
    moreover have "fresh_field T sub ?M f p"
      using True store_frame_load [of m "place_lo f p" 4 0] by (simp add: fresh_field_def place_lo_def)
    ultimately show ?thesis by blast
  next
    case False
    note h = pf(5) [OF False]
    define m1 where "m1 = (if f_size_offset f \<noteq> 0 then store m (place_lo f p) 1 0 else m)"
    have m1: "frame (place_lo f p) (place_hi f p) m m1" using sz False
      by (auto simp: m1_def intro!: frame_store)
    have l1: "load m1 (place_lo f p) 1 = 0" if "f_size_offset f \<noteq> 0"
      using that store_frame_load [of m "place_lo f p" 1 0] by (simp add: m1_def)
    have e: "pb_field_set_to_default env (Suc n) it m =
        (if PB_LTYPE (f_type f) = PB_LTYPE_SUBMESSAGE then pb_message_set_to_defaults env n (T (f_ptr f)) p m1
         else Some (mem_write m1 p (replicate (f_data_size f) 0)))"
      using h st pf(1,14) assms(2-6) by (auto simp: Let_def m1_def size_is_data_def pb_htypes place_lo_def)
    have fin: ?thesis if "pb_field_set_to_default env (Suc n) it m = Some M" "frame p (p + int (f_data_size f)) m1 M"
      "if PB_LTYPE (f_type f) = PB_LTYPE_SUBMESSAGE then sub (T (f_ptr f)) M p
         else mem_read M p (f_data_size f) = replicate (f_data_size f) 0" for M
    proof -
      have "frame (place_lo f p) (place_hi f p) m M"
        using frame_trans [OF m1 frame_mono [OF that(2)]] sz False by simp
      moreover have l: "load M (place_lo f p) 1 = 0" if "f_size_offset f \<noteq> 0"
        using l1 [OF that] load_agree [OF agree_frame [OF \<open>frame p _ m1 M\<close>, of p "place_lo f p"], of "place_lo f p" 1]
          sz(4) that by simp
      moreover have "fresh_field T sub M f p"
        using l that(3) False by (auto simp: fresh_field_def place_lo_def split: if_splits)
      ultimately show ?thesis using that(1) by blast
    qed
    show ?thesis
    proof (cases "PB_LTYPE (f_type f) = PB_LTYPE_SUBMESSAGE")
      case True
      then obtain M where M: "pb_message_set_to_defaults env n (T (f_ptr f)) p m1 = Some M"
        "frame p (p + int (f_data_size f)) m1 M" "sub (T (f_ptr f)) M p"
        using assms(7) pf(13) by blast
      then show ?thesis using True e by (intro fin [of M]) simp_all
    next
      case F: False
      show ?thesis by (rule fin) (use F e in \<open>auto intro: frame_write mem_read_write\<close>)
    qed
  qed
qed

lemma fresh_defaults:
  assumes "T = e_table env"
  shows "proto3_table T d fs sz \<Longrightarrow> 2 * d \<le> n \<Longrightarrow>
    \<exists>M. pb_message_set_to_defaults env n fs q m = Some M \<and> frame q (q + int sz) m M \<and> fresh_message T d fs M q"
proof (induction d arbitrary: n fs sz q m)
  case 0
  then show ?case by simp
next
  case (Suc d)
  then obtain k where n: "n = Suc (Suc k)" "2 * d \<le> k" by (cases n; cases "n - 1") auto
  let ?L = "table_iters fs q" and ?g = "\<lambda>it m. pb_field_set_to_default env (Suc k) it m"
  let ?fresh = "\<lambda>x i. fresh_field T (fresh_message T d) x (it_field (?L ! i)) (it_pData (?L ! i))"
  let ?P = "\<lambda>i x. frame q (q + int sz) m x \<and> (\<forall>j<i. ?fresh x j)"
  note at = proto3_at [OF Suc.prems(1), of _ q]
  have step: "\<exists>y. ?g (?L ! i) x = Some y \<and> ?P (Suc i) y" if i: "i < length ?L" and x: "?P i x" for i x
  proof -
    obtain y where y: "?g (?L ! i) x = Some y" "frame (field_lo (?L ! i)) (field_hi (?L ! i)) x y" "?fresh y i"
      using fresh_default_field [OF at(1) [OF i] refl refl at(7) [OF i] at(4) [OF i] assms Suc.IH [OF _ n(2)], of x] by blast
    have "?fresh y j" if j: "j < i" for j
      by (rule fresh_field_agree [OF at(1) proto3_disjoint [OF Suc.prems(1) i _ _ y(2)] fresh_message_agree])
        (use i j x in simp_all)
    moreover have "frame q (q + int sz) m y"
      using x frame_trans frame_mono [OF y(2) at(2,3) [OF i]] by blast
    ultimately show ?thesis using y by (auto simp: less_Suc_eq)
  qed
  have "\<exists>y. iter_each (Suc (length fs)) ?g (snd (pb_field_iter_begin fs q)) m = Some y \<and> ?P (length ?L) y"
    by (rule iter_each_steps [where P = ?P, OF step]) simp_all
  then obtain y where y: "iter_each (Suc (length fs)) ?g (snd (pb_field_iter_begin fs q)) m = Some y" "?P (length ?L) y"
    by blast
  have b: "fst (pb_field_iter_begin fs q)"
    using proto3_fieldD(2) [OF at(1) [of 0]] table_iters_nonempty [of fs q]
    by (simp add: iter_begin_fst table_iters_0 it_field_def)
  then have "pb_message_set_to_defaults env n fs q m = Some y"
    using y(1) unfolding n(1)
    by (cases "pb_field_iter_begin fs q") (simp del: iter_each.simps pb_field_set_to_default.simps)
  then show ?case using y(2) by (simp add: table_iters_ball0)
qed

end
