(* ===== verification/PbValues.thy ===== *)
theory PbValues
  imports PbContents
begin

text \<open>
  Reading back what the encoder wrote, value by value: every decoder of \<open>PB_DECODERS\<close> takes the
  bytes that the reference writer gives for a value, no more, and leaves the same value in
  memory. Nested messages are a contract here that theory PbRound discharges.
\<close>

section \<open>Values\<close>

text \<open>A step that, at an iterator with \<open>I\<close>, takes just these bytes, changes memory only between \<open>lo\<close> and \<open>hi\<close>, and from
  memory with \<open>Pre\<close> leaves memory with \<open>Post\<close>.\<close>

definition takes :: "(pb_iter \<Rightarrow> bool) \<Rightarrow> 's pb_step \<Rightarrow> u8 list \<Rightarrow> int \<Rightarrow> int \<Rightarrow> (pb_mem \<Rightarrow> bool) \<Rightarrow> (pb_mem \<Rightarrow> bool) \<Rightarrow> bool" where
  "takes I g bs lo hi Pre Post \<longleftrightarrow>
     (\<forall>st ys rest e. I (d_iter st) \<longrightarrow> d_in st = ibuf (bs @ ys) rest e \<longrightarrow> Pre (d_mem st) \<longrightarrow>
        (\<exists>M. g st = Some (True, st\<lparr>d_in := ibuf ys rest e, d_mem := M\<rparr>) \<and> frame lo hi (d_mem st) M \<and> Post M))"

lemma takesI:
  "(\<And>st ys rest e. I (d_iter st) \<Longrightarrow> d_in st = ibuf (bs @ ys) rest e \<Longrightarrow> Pre (d_mem st) \<Longrightarrow>
     \<exists>M. g st = Some (True, st\<lparr>d_in := ibuf ys rest e, d_mem := M\<rparr>) \<and> frame lo hi (d_mem st) M \<and> Post M) \<Longrightarrow>
   takes I g bs lo hi Pre Post"
  by (simp add: takes_def)

lemma takesE:
  assumes "takes I g bs lo hi Pre Post" and "I (d_iter st)" and "d_in st = ibuf (bs @ ys) rest e" and "Pre (d_mem st)"
  obtains M where "g st = Some (True, st\<lparr>d_in := ibuf ys rest e, d_mem := M\<rparr>)" "frame lo hi (d_mem st) M" "Post M"
  using assms unfolding takes_def by blast

lemma takes_get:
  assumes "\<And>ys rest e. f (ibuf (as @ ys) rest e) = (Some v, ibuf ys rest e)" and "takes I (k v) bs lo hi Pre Post"
  shows "takes I (d_get f k) (as @ bs) lo hi Pre Post"
proof (rule takesI)
  fix st :: "'b pb_dec" and ys rest e
  assume it: "I (d_iter st)" and st: "d_in st = ibuf ((as @ bs) @ ys) rest e" and pre: "Pre (d_mem st)"
  have f: "f (d_in st) = (Some v, ibuf (bs @ ys) rest e)" using assms(1) [of "bs @ ys"] st by simp
  obtain M where "k v (st\<lparr>d_in := ibuf (bs @ ys) rest e\<rparr>) =
      Some (True, st\<lparr>d_in := ibuf (bs @ ys) rest e\<rparr>\<lparr>d_in := ibuf ys rest e, d_mem := M\<rparr>)"
    "frame lo hi (d_mem (st\<lparr>d_in := ibuf (bs @ ys) rest e\<rparr>)) M" "Post M"
    by (rule takesE [OF assms(2), of "st\<lparr>d_in := ibuf (bs @ ys) rest e\<rparr>" ys rest e]) (use it pre in simp_all)
  then show "\<exists>M. d_get f k st = Some (True, st\<lparr>d_in := ibuf ys rest e, d_mem := M\<rparr>) \<and> frame lo hi (d_mem st) M \<and> Post M"
    using f by (intro exI [of _ M]) (simp add: d_get_def)
qed

lemma takes_upd:
  assumes "\<And>M. Pre M \<Longrightarrow> frame lo hi M (g M) \<and> Post (g M)"
  shows "takes I (\<lambda>st. d_done (d_upd g st)) [] lo hi Pre Post"
proof (rule takesI)
  fix st :: "'a pb_dec" and ys rest e
  assume it: "I (d_iter st)" and "d_in st = ibuf ([] @ ys) rest e" "Pre (d_mem st)"
  then show "\<exists>M. d_done (d_upd g st) = Some (True, st\<lparr>d_in := ibuf ys rest e, d_mem := M\<rparr>) \<and>
      frame lo hi (d_mem st) M \<and> Post M"
    using assms [of "d_mem st"] by (intro exI [of _ "g (d_mem st)"]) (simp add: d_done_def d_upd_def)
qed

lemma takes_read_to:
  assumes "lo \<le> p" and "p + int (length bs) \<le> hi" and "\<And>M. Pre M \<Longrightarrow> Post (mem_write M p bs)"
  shows "takes I (d_read_to env p (length bs)) bs lo hi Pre Post"
proof -
  have "takes I (d_read_to env p (length bs)) (bs @ []) lo hi Pre Post"
    unfolding d_read_to_def
    by (rule takes_get, simp add: pb_read_ibuf pb_read_into_ibuf, rule takes_upd)
      (use assms in \<open>auto intro: frame_write\<close>)
  then show ?thesis by simp
qed

lemma takes_cong:
  "takes I g bs lo hi Pre Post \<Longrightarrow> (\<And>st. I (d_iter st) \<Longrightarrow> Pre (d_mem st) \<Longrightarrow> f st = g st) \<Longrightarrow> takes I f bs lo hi Pre Post"
  by (simp add: takes_def)

lemma takes_store_int:
  assumes "f_data_size f \<in> {1, 2, 4, 8}" and "clamp (f_data_size f) v = v"
    and "le_bytes (f_data_size f) (unat v) = mem_read m p (f_data_size f)"
  shows "takes I (store_int bad clamp f q v) [] q (q + int (f_data_size f)) Pre
    (\<lambda>M. mem_read M q (f_data_size f) = mem_read m p (f_data_size f))"
proof (rule takes_cong)
  show "takes I (\<lambda>st. d_done (d_upd (\<lambda>M. store M q (f_data_size f) (unat v)) st)) [] q (q + int (f_data_size f)) Pre
    (\<lambda>M. mem_read M q (f_data_size f) = mem_read m p (f_data_size f))"
    by (rule takes_upd) (use assms(3) in \<open>auto simp: store_def mem_read_write intro: frame_write\<close>)
qed (use assms(1,2) in \<open>auto simp: store_int_def Let_def\<close>)

text \<open>The bytes of a number in memory and its value as 64 bits.\<close>

lemma le_bytes_mod: "le_bytes n (v mod 256 ^ n) = le_bytes n v"
proof -
  have "le_bytes n (le_val (le_bytes n v)) = le_bytes n v"
    using le_bytes_le_val [of "le_bytes n v"] by simp
  then show ?thesis by (simp add: le_val_le_bytes)
qed

lemma le_bytes_load: "le_bytes n (load m p n) = mem_read m p n"
  using le_bytes_le_val [of "mem_read m p n"] by (simp add: load_def)

lemma take_bit_signed_value:
  "n \<in> {1, 2, 4, 8} \<Longrightarrow> v < 256 ^ n \<Longrightarrow> unat (signed_value n v) mod 256 ^ n = v"
proof -
  assume n: "n \<in> {1, 2, 4, 8}" and v: "v < 256 ^ n"
  have "take_bit (8 * n) (signed_value n v) = take_bit (8 * n) (of_nat v)"
    unfolding signed_value_def using n by (auto simp: take_bit_signed_take_bit)
  then have "take_bit (8 * n) (unat (signed_value n v)) = take_bit (8 * n) (unat (of_nat v :: u64))"
    by (metis unsigned_take_bit_eq)
  moreover have "v < 2 ^ 64" using n v by auto
  then have "unat (of_nat v :: u64) = v" by (simp add: unsigned_of_nat take_bit_nat_eq_self)
  moreover have "(256 :: nat) ^ n = 2 ^ (8 * n)" by (simp add: power_mult)
  ultimately show ?thesis using v by (simp add: take_bit_eq_mod)
qed

lemma signed_value_bytes:
  "n \<in> {1, 2, 4, 8} \<Longrightarrow> le_bytes n (unat (signed_value n (load m p n))) = mem_read m p n"
  using take_bit_signed_value [OF _ load_le] le_bytes_mod [of n "unat (signed_value n (load m p n))"]
  by (simp add: le_bytes_load)

lemma clamp_signed_value: "n \<in> {1, 2, 4, 8} \<Longrightarrow> clamp_s n (signed_value n v) = signed_value n v"
  "n \<in> {1, 2, 4} \<Longrightarrow> clamp_s 4 (signed_value n v) = signed_value n v"
  by (auto simp: clamp_s_def signed_value_def signed_take_bit_signed_take_bit)

lemma clamp_unsigned_value:
  "n \<in> {1, 2, 4, 8} \<Longrightarrow> v < 256 ^ n \<Longrightarrow> clamp_u n (of_nat v) = of_nat v \<and> unat (of_nat v :: u64) = v"
proof -
  assume n: "n \<in> {1, 2, 4, 8}" and v: "v < 256 ^ n"
  have e: "(256 :: nat) ^ n = 2 ^ (8 * n)" by (simp add: power_mult)
  have "v < 2 ^ 64" using n v by auto
  then have u: "unat (of_nat v :: u64) = v" by (simp add: unsigned_of_nat take_bit_nat_eq_self)
  have "unat (take_bit (8 * n) (of_nat v :: u64)) = v"
    using v u unfolding e by (simp add: unsigned_take_bit_eq take_bit_nat_eq_self)
  then show ?thesis using u unfolding clamp_u_def by (metis unat_inject)
qed

lemma takes_after:
  assumes "takes I g bs lo hi Pre' Post" and "\<And>M. Pre M \<Longrightarrow> frame lo hi M (h M) \<and> Pre' (h M)"
  shows "takes I (\<lambda>st. g (d_upd h st)) bs lo hi Pre Post"
proof (rule takesI)
  fix st :: "'a pb_dec" and ys rest e
  assume it: "I (d_iter st)" and st: "d_in st = ibuf (bs @ ys) rest e" and pre: "Pre (d_mem st)"
  obtain M where "g (d_upd h st) = Some (True, d_upd h st\<lparr>d_in := ibuf ys rest e, d_mem := M\<rparr>)"
    "frame lo hi (d_mem (d_upd h st)) M" "Post M"
    by (rule takesE [OF assms(1), of "d_upd h st" ys rest e]) (use it st assms(2) [OF pre] in simp_all)
  then show "\<exists>M. g (d_upd h st) = Some (True, st\<lparr>d_in := ibuf ys rest e, d_mem := M\<rparr>) \<and> frame lo hi (d_mem st) M \<and> Post M"
    using assms(2) [OF pre] frame_trans by (intro exI [of _ M]) (auto simp: d_upd_def)
qed

lemma takes_before:
  assumes "takes I g bs lo hi Pre Post'" and "\<And>M. Post' M \<Longrightarrow> frame lo hi M (h M) \<and> Post (h M)"
  shows "takes I (\<lambda>st. case g st of None \<Rightarrow> None | Some (status, st) \<Rightarrow> Some (status, d_upd h st)) bs lo hi Pre Post"
proof (rule takesI)
  fix st :: "'a pb_dec" and ys rest e
  assume it: "I (d_iter st)" and st: "d_in st = ibuf (bs @ ys) rest e" "Pre (d_mem st)"
  obtain M where "g st = Some (True, st\<lparr>d_in := ibuf ys rest e, d_mem := M\<rparr>)" "frame lo hi (d_mem st) M" "Post' M"
    by (rule takesE [OF assms(1) it st])
  then show "\<exists>M. (case g st of None \<Rightarrow> None | Some (status, st) \<Rightarrow> Some (status, d_upd h st)) =
      Some (True, st\<lparr>d_in := ibuf ys rest e, d_mem := M\<rparr>) \<and> frame lo hi (d_mem st) M \<and> Post M"
    using assms(2) frame_trans by (intro exI [of _ "h M"]) (auto simp: d_upd_def)
qed

lemma unat_u32: "n < 2 ^ 32 \<Longrightarrow> unat (of_nat n :: u32) = n"
  by (simp add: unsigned_of_nat take_bit_nat_eq_self)

lemma takes_varint32:
  assumes "n < 2 ^ 32" and "takes I (k (of_nat n)) bs lo hi Pre Post"
  shows "takes I (d_get (pb_decode_varint32 cb) k) (leb n @ bs) lo hi Pre Post"
  by (rule takes_get, rule pb_decode_varint32_leb, rule assms(1), rule assms(2))

lemma takes_ints:
  assumes "f_data_size f \<in> {1, 2, 4, 8}"
  defines "n \<equiv> f_data_size f"
  shows "takes I (pb_dec_varint env f q) (leb (unat (signed_value n (load m p n)))) q (q + int n) Pre
      (\<lambda>M. mem_read M q n = mem_read m p n)" (is ?varint)
    and "takes I (pb_dec_uvarint env f q) (leb (load m p n)) q (q + int n) Pre
      (\<lambda>M. mem_read M q n = mem_read m p n)" (is ?uvarint)
    and "takes I (pb_dec_svarint env f q) (leb (zigzag (sint (signed_value n (load m p n))))) q (q + int n) Pre
      (\<lambda>M. mem_read M q n = mem_read m p n)" (is ?svarint)
proof -
  have n: "n \<in> {1, 2, 4, 8}" using assms by simp
  let ?v = "signed_value n (load m p n)"
  have s: "takes I (store_int bad clamp_s f q ?v) [] q (q + int n) Pre (\<lambda>M. mem_read M q n = mem_read m p n)" for bad
    unfolding n_def using clamp_signed_value(1) [OF n] signed_value_bytes [OF n]
    by (intro takes_store_int assms(1)) (simp_all add: n_def)
  have c: "(if n = 8 then ?v else clamp_s 4 ?v) = ?v" using n clamp_signed_value(2) [of n] by auto
  have "takes I (pb_dec_varint env f q) (leb (unat ?v) @ []) q (q + int n) Pre (\<lambda>M. mem_read M q n = mem_read m p n)"
    unfolding pb_dec_varint_def
    by (rule takes_get [OF pb_decode_varint_leb]) (use s c in \<open>simp add: n_def Let_def\<close>)
  then show ?varint by simp
  have "takes I (pb_dec_svarint env f q) (leb (zigzag (sint ?v)) @ []) q (q + int n) Pre (\<lambda>M. mem_read M q n = mem_read m p n)"
    unfolding pb_dec_svarint_def by (rule takes_get, rule pb_decode_svarint_ok, rule s)
  then show ?svarint by simp
  let ?u = "of_nat (load m p n) :: u64"
  note u = clamp_unsigned_value [OF n load_le [of m p n]]
  have "takes I (store_int bad clamp_u f q ?u) [] q (q + int n) Pre (\<lambda>M. mem_read M q n = mem_read m p n)" for bad
    unfolding n_def using u le_bytes_load by (intro takes_store_int assms(1)) (simp_all add: n_def)
  then have "takes I (pb_dec_uvarint env f q) (leb (unat ?u) @ []) q (q + int n) Pre (\<lambda>M. mem_read M q n = mem_read m p n)"
    unfolding pb_dec_uvarint_def by (intro takes_get [where f = "pb_decode_varint (e_read env)" and v = ?u] pb_decode_varint_leb)
  then show ?uvarint using u by simp
qed

lemma takes_fixed:
  "takes I (pb_dec_fixed32 env f q) (mem_read m p 4) q (q + 4) Pre (\<lambda>M. mem_read M q 4 = mem_read m p 4)"
  "takes I (pb_dec_fixed64 env f q) (mem_read m p 8) q (q + 8) Pre (\<lambda>M. mem_read M q 8 = mem_read m p 8)"
proof -
  have u4: "unat (of_nat (load m p 4) :: u32) = load m p 4" and u8: "unat (of_nat (load m p 8) :: u64) = load m p 8"
    using load_le [of m p 4] load_le [of m p 8] by (simp_all add: unsigned_of_nat take_bit_nat_eq_self)
  have "takes I (pb_dec_fixed32 env f q) (fixed32 (of_nat (load m p 4)) @ []) q (q + 4) Pre (\<lambda>M. mem_read M q 4 = mem_read m p 4)"
    unfolding pb_dec_fixed32_def
    by (rule takes_get [OF pb_decode_fixed32_ok], rule takes_upd)
      (unfold u4, auto simp: store_def mem_read_write le_bytes_load intro: frame_write)
  then show "takes I (pb_dec_fixed32 env f q) (mem_read m p 4) q (q + 4) Pre (\<lambda>M. mem_read M q 4 = mem_read m p 4)"
    by (simp add: fixed_read)
  have "takes I (pb_dec_fixed64 env f q) (fixed64 (of_nat (load m p 8)) @ []) q (q + 8) Pre (\<lambda>M. mem_read M q 8 = mem_read m p 8)"
    unfolding pb_dec_fixed64_def
    by (rule takes_get [OF pb_decode_fixed64_ok], rule takes_upd)
      (unfold u8, auto simp: store_def mem_read_write le_bytes_load intro: frame_write)
  then show "takes I (pb_dec_fixed64 env f q) (mem_read m p 8) q (q + 8) Pre (\<lambda>M. mem_read M q 8 = mem_read m p 8)"
    by (simp add: fixed_read)
qed

text \<open>Writes behind what is read.\<close>

lemma mem_read_write_other:
  "q + int n \<le> p \<or> p + int (length bs) \<le> q \<Longrightarrow> mem_read (mem_write m p bs) q n = mem_read m q n"
  by (auto simp: mem_read_def mem_write_def)

lemma takes_bytes:
  assumes "PB_ATYPE (f_type f) = PB_ATYPE_STATIC" and "n + 4 \<le> f_data_size f" and "n < 2 ^ 32" and "length data = n"
  shows "takes I (pb_dec_bytes env f q) (leb n @ data) q (q + int (f_data_size f)) Pre
    (\<lambda>M. load M q 4 = n \<and> mem_read M (q + 4) n = data)"
proof -
  note w = unat_u32 [OF assms(3)]
  have a: "PB_BYTES_ARRAY_T_ALLOCSIZE n = n + 4"
    using assms(3) by (simp add: PB_BYTES_ARRAY_T_ALLOCSIZE_def pb_bytes_offset_def size_simps SIZE_MAX_def)
  note np = static_not_pointer [OF assms(1), THEN conjunct1]
  have k: "takes I (\<lambda>st. d_read_to env (q + int pb_bytes_offset) n (d_upd (\<lambda>m. store m q 4 n) st)) data
      q (q + int (f_data_size f)) Pre (\<lambda>M. load M q 4 = n \<and> mem_read M (q + 4) n = data)"
  proof (rule takes_after)
    show "takes I (d_read_to env (q + int pb_bytes_offset) n) data q (q + int (f_data_size f)) (\<lambda>M. load M q 4 = n)
        (\<lambda>M. load M q 4 = n \<and> mem_read M (q + 4) n = data)"
      unfolding assms(4) [symmetric]
      by (rule takes_read_to) (use assms(2,4) in \<open>simp_all add: pb_bytes_offset_def load_def mem_read_write mem_read_write_other\<close>)
  qed (use assms(2,3) store_frame_load in \<open>auto intro: frame_store\<close>)
  show ?thesis unfolding pb_dec_bytes_def
    by (rule takes_varint32 [OF assms(3)], rule takes_cong [OF k])
      (use w a np assms(2,3) in \<open>simp add: PB_SIZE_MAX_def Let_def\<close>)
qed

lemma c_strnlen_end: "c_strnlen m p k < k \<Longrightarrow> m (p + int (c_strnlen m p k)) = 0"
proof (induction k arbitrary: p)
  case (Suc k)
  then show ?case using Suc.IH [of "p + 1"] by (simp add: add.assoc split: if_splits)
qed simp

lemma mem_read_Suc: "mem_read m p (Suc n) = mem_read m p n @ [m (p + int n)]"
  by (simp add: mem_read_def)

lemma takes_string:
  assumes "PB_ATYPE (f_type f) = PB_ATYPE_STATIC" and "n < f_data_size f" and "f_data_size f < 2 ^ 32" and "length data = n"
  shows "takes I (pb_dec_string env f q) (leb n @ data) q (q + int (f_data_size f)) Pre
    (\<lambda>M. mem_read M q (Suc n) = data @ [0])"
proof -
  have w: "unat (of_nat n :: u32) = n" "unat (of_nat n + 1 :: u32) = n + 1"
    using assms(2,3) unat_u32 [of n] unat_u32 [of "n + 1"] by (simp_all add: add.commute)
  note np = static_not_pointer [OF assms(1), THEN conjunct1]
  have k: "takes I (\<lambda>st. case d_read_to env q n st of None \<Rightarrow> None
      | Some (status, st) \<Rightarrow> Some (status, d_upd (\<lambda>m. store m (q + int n) 1 0) st)) data
      q (q + int (f_data_size f)) Pre (\<lambda>M. mem_read M q (Suc n) = data @ [0])"
  proof (rule takes_before)
    show "takes I (d_read_to env q n) data q (q + int (f_data_size f)) Pre (\<lambda>M. mem_read M q n = data)"
      unfolding assms(4) [symmetric]
      by (rule takes_read_to) (use assms(2,4) in \<open>simp_all add: mem_read_write\<close>)
    fix M
    assume "mem_read M q n = data"
    moreover have "le_bytes 1 0 = [0]" by (simp add: le_bytes_def byte_def)
    then have "store M (q + int n) 1 0 = mem_write M (q + int n) [0]" by (simp only: store_def)
    moreover have "mem_write M (q + int n) [0] (q + int n) = 0" by (simp add: mem_write_def)
    ultimately show "frame q (q + int (f_data_size f)) M (store M (q + int n) 1 0) \<and>
        mem_read (store M (q + int n) 1 0) q (Suc n) = data @ [0]"
      using assms(2) by (simp only: mem_read_Suc) (simp add: mem_read_write_other frame_write)
  qed
  show ?thesis unfolding pb_dec_string_def
    by (rule takes_varint32, use assms(2,3) in simp, rule takes_cong [OF k])
      (use w np assms(2) in \<open>simp add: Let_def\<close>)
qed

lemma takes_fixed_length_bytes:
  assumes "length data = f_data_size f" and "f_data_size f < 2 ^ 32"
  shows "takes I (pb_dec_fixed_length_bytes env f q) (leb (f_data_size f) @ data) q (q + int (f_data_size f)) Pre
    (\<lambda>M. mem_read M q (f_data_size f) = data)"
proof -
  note w = unat_u32 [OF assms(2)]
  have k: "takes I (if f_data_size f = 0 then \<lambda>st. d_done (d_upd (\<lambda>m. mem_write m q (replicate (f_data_size f) 0)) st)
      else d_read_to env q (f_data_size f)) data q (q + int (f_data_size f)) Pre
      (\<lambda>M. mem_read M q (f_data_size f) = data)"
  proof (cases "f_data_size f = 0")
    case True
    then have "data = []" using assms(1) by simp
    then show ?thesis using True by (simp, intro takes_upd) (auto simp: mem_read_def intro: frame_write)
  next
    case False
    then show ?thesis
      using takes_read_to [of q q data "q + int (f_data_size f)" Pre "\<lambda>M. mem_read M q (f_data_size f) = data" I env] assms(1)
      by (simp add: mem_read_write)
  qed
  show ?thesis unfolding pb_dec_fixed_length_bytes_def
    by (rule takes_varint32 [OF assms(2)], rule takes_cong [OF k])
      (use w assms(2) in \<open>simp add: PB_SIZE_MAX_def Let_def\<close>)
qed

text \<open>A step that takes the whole stream, as on a substream, and the contract of the decoder of
  nested messages.\<close>

definition takes_all :: "(pb_iter \<Rightarrow> bool) \<Rightarrow> 's pb_step \<Rightarrow> u8 list \<Rightarrow> int \<Rightarrow> int \<Rightarrow> (pb_mem \<Rightarrow> bool) \<Rightarrow> (pb_mem \<Rightarrow> bool) \<Rightarrow> bool" where
  "takes_all I g bs lo hi Pre Post \<longleftrightarrow>
     (\<forall>st rest e. I (d_iter st) \<longrightarrow> d_in st = ibuf bs rest e \<longrightarrow> Pre (d_mem st) \<longrightarrow>
        (\<exists>M. g st = Some (True, st\<lparr>d_in := ibuf [] rest e, d_mem := M\<rparr>) \<and> frame lo hi (d_mem st) M \<and> Post M))"

lemma takes_allI:
  "(\<And>st rest e. I (d_iter st) \<Longrightarrow> d_in st = ibuf bs rest e \<Longrightarrow> Pre (d_mem st) \<Longrightarrow>
     \<exists>M. g st = Some (True, st\<lparr>d_in := ibuf [] rest e, d_mem := M\<rparr>) \<and> frame lo hi (d_mem st) M \<and> Post M) \<Longrightarrow>
   takes_all I g bs lo hi Pre Post"
  by (simp add: takes_all_def)

lemma takes_allE:
  assumes "takes_all I g bs lo hi Pre Post" and "I (d_iter st)" and "d_in st = ibuf bs rest e" and "Pre (d_mem st)"
  obtains M where "g st = Some (True, st\<lparr>d_in := ibuf [] rest e, d_mem := M\<rparr>)" "frame lo hi (d_mem st) M" "Post M"
  using assms unfolding takes_all_def by blast

lemma d_dec_commute: "(st :: 's pb_dec)\<lparr>d_mem := M, d_in := s\<rparr> = st\<lparr>d_in := s, d_mem := M\<rparr>"
  by (cases st) simp

lemma takes_substream:
  assumes "\<And>rest e. takes_all I (body (ibuf bs rest e)) bs lo hi Pre Post" and "length bs < 2 ^ 32"
    and "\<And>sub st. is_bytes_left sub = 0 \<Longrightarrow> k True sub st = d_close env sub True st"
  shows "takes I (d_get (pb_make_string_substream (e_read env)) (\<lambda>sub. d_on_sub sub (body sub) k))
    (leb (length bs) @ bs) lo hi Pre Post"
proof (rule takesI)
  fix st :: "'a pb_dec" and ys rest e
  assume it: "I (d_iter st)" and st: "d_in st = ibuf ((leb (length bs) @ bs) @ ys) rest e" and pre: "Pre (d_mem st)"
  let ?sub = "ibuf bs (ys @ rest) e" and ?parent = "(ibuf ys rest e)\<lparr>is_state := BufSource (bs @ ys @ rest)\<rparr>"
  have sub: "pb_make_string_substream (e_read env) (d_in st) = (Some ?sub, ?parent)"
    using pb_make_string_substream_ok [of "leb (length bs)" bs "e_read env" ys rest e] assms(2)
      length_leb_le [of "length bs" 5] st by simp
  obtain M where M: "body ?sub (st\<lparr>d_in := ?sub\<rparr>) = Some (True, st\<lparr>d_in := ibuf [] (ys @ rest) e, d_mem := M\<rparr>)"
    "frame lo hi (d_mem st) M" "Post M"
    by (rule takes_allE [OF assms(1), of "st\<lparr>d_in := ?sub\<rparr>" "ys @ rest" e "ys @ rest" e]) (use it pre in simp_all)
  have "d_get (pb_make_string_substream (e_read env)) (\<lambda>sub. d_on_sub sub (body sub) k) st =
      d_close env (ibuf [] (ys @ rest) e) True (st\<lparr>d_in := ?parent, d_mem := M\<rparr>)"
    using sub M(1) by (simp add: d_get_def d_on_sub_def assms(3) d_dec_commute)
  also have "\<dots> = Some (True, st\<lparr>d_in := ibuf ys rest e, d_mem := M\<rparr>)"
    by (simp add: d_close_def d_get_def pb_close_string_substream_ok)
  finally show "\<exists>M. d_get (pb_make_string_substream (e_read env)) (\<lambda>sub. d_on_sub sub (body sub) k) st =
      Some (True, st\<lparr>d_in := ibuf ys rest e, d_mem := M\<rparr>) \<and> frame lo hi (d_mem st) M \<and> Post M"
    using M by (intro exI [of _ M]) simp
qed

definition reads_messages :: "pb_tables \<Rightarrow> nat \<Rightarrow> 't pb_enc_env \<Rightarrow> pb_mem \<Rightarrow> 's pb_message_decoder \<Rightarrow> bool" where
  "reads_messages T d eenv m dec \<longleftrightarrow>
     (\<forall>fs sz p bs q init. proto3_table T d fs sz \<longrightarrow> wire_message eenv d m fs p = (bs, True) \<longrightarrow> length bs < 2 ^ 32 \<longrightarrow>
        strings_end T d fs m p \<longrightarrow> 0 < p \<longrightarrow>
        takes_all (\<lambda>_. True) (dec init fs q) bs q (q + int sz) (\<lambda>M. init \<or> fresh_message T d fs M q)
          (\<lambda>M. same_message T d fs m p M q))"

text \<open>A value of any type.\<close>

definition value_end :: "pb_tables \<Rightarrow> (pb_field list \<Rightarrow> pb_mem \<Rightarrow> int \<Rightarrow> bool) \<Rightarrow> pb_mem \<Rightarrow> pb_field \<Rightarrow> int \<Rightarrow> bool" where
  "value_end T sub m f q \<longleftrightarrow>
     (PB_LTYPE (f_type f) = PB_LTYPE_STRING \<longrightarrow> c_strnlen m q (f_data_size f) < f_data_size f) \<and>
     (PB_LTYPE (f_type f) = PB_LTYPE_SUBMESSAGE \<longrightarrow> sub (T (f_ptr f)) m q)"

definition value_fresh :: "pb_tables \<Rightarrow> nat \<Rightarrow> pb_field \<Rightarrow> int \<Rightarrow> pb_mem \<Rightarrow> bool" where
  "value_fresh T d f q M \<longleftrightarrow>
     (PB_LTYPE (f_type f) = PB_LTYPE_SUBMESSAGE \<longrightarrow> PB_HTYPE (f_type f) \<noteq> PB_HTYPE_REPEATED \<longrightarrow>
        fresh_message T d (T (f_ptr f)) M q)"

lemma takes_value:
  assumes "proto3_field T (proto3_table T d) f" and "reads_messages T d eenv m dec"
    and "n_table eenv = T" and "e_table env = T"
    and "wire_value eenv (wire_message eenv d m) m f p = (bs, True)" and "length bs < 2 ^ 32" and "0 < p"
    and "value_end T (strings_end T d) m f p"
  shows "takes I (PB_DECODERS env dec f q) bs q (q + int (f_data_size f)) (value_fresh T d f q)
    (\<lambda>M. same_value T (same_message T d) m M f p q)"
proof -
  note pf = proto3_fieldD [OF assms(1)]
  let ?n = "f_data_size f" and ?t = "PB_LTYPE (f_type f)"
  consider (int) "?t = PB_LTYPE_VARINT \<or> ?t = PB_LTYPE_UVARINT \<or> ?t = PB_LTYPE_SVARINT"
    | (fixed) "?t = PB_LTYPE_FIXED32 \<or> ?t = PB_LTYPE_FIXED64" | (bytes) "?t = PB_LTYPE_BYTES"
    | (str) "?t = PB_LTYPE_STRING" | (sub) "?t = PB_LTYPE_SUBMESSAGE" | (flb) "?t = PB_LTYPE_FIXED_LENGTH_BYTES"
    using pf(15) by blast
  then show ?thesis
  proof cases
    case int
    then have n: "?n \<in> {1, 2, 4, 8}" by (rule pf(8))
    have same: "same_value T (same_message T d) m M f p q \<longleftrightarrow> mem_read M q ?n = mem_read m p ?n" for M
      using int by (auto simp: same_value_def pb_ltypes)
    have "bs = (if ?t = PB_LTYPE_VARINT then leb (unat (signed_value ?n (load m p ?n)))
        else if ?t = PB_LTYPE_UVARINT then leb (load m p ?n) else leb (zigzag (sint (signed_value ?n (load m p ?n)))))"
      using assms(5) n int by (auto simp: wire_value_def Let_def wire_int_def pb_ltypes)
    then show ?thesis using takes_ints [OF n, of I env q m p "value_fresh T d f q"] int unfolding same
      by (auto simp: PB_DECODERS_def pb_ltypes)
  next
    case fixed
    then have same: "same_value T (same_message T d) m M f p q \<longleftrightarrow> mem_read M q ?n = mem_read m p ?n" for M
      by (auto simp: same_value_def pb_ltypes)
    have "bs = mem_read m p ?n" using assms(5) fixed pf(9,10) by (auto simp: wire_value_def Let_def pb_ltypes)
    then show ?thesis using takes_fixed [of I env f q m p "value_fresh T d f q"] fixed pf(9,10) unfolding same
      by (auto simp: PB_DECODERS_def pb_ltypes)
  next
    case bytes
    let ?k = "load m p 4"
    have e: "PB_DECODERS env dec f q = pb_dec_bytes env f q" using bytes by (simp add: PB_DECODERS_def pb_ltypes)
    have k: "?k + 4 \<le> ?n" "bs = leb ?k @ mem_read m (p + 4) ?k"
      using assms(5,7) bytes pf(1) by (auto simp: wire_value_def Let_def pb_ltypes wire_string_def w_len_def w_fail_def split: if_splits)
    have "takes I (pb_dec_bytes env f q) bs q (q + int ?n) (value_fresh T d f q)
        (\<lambda>M. load M q 4 = ?k \<and> mem_read M (q + 4) ?k = mem_read m (p + 4) ?k)"
      unfolding k(2) using k(1) pf(4) by (intro takes_bytes pf(1)) simp_all
    then show ?thesis unfolding e same_value_def using bytes k(1) by (simp add: pb_ltypes)
  next
    case str
    let ?k = "c_strnlen m p ?n"
    have e: "PB_DECODERS env dec f q = pb_dec_string env f q" using str by (simp add: PB_DECODERS_def pb_ltypes)
    have k: "?k < ?n" using assms(8) str by (simp add: value_end_def)
    have bs: "bs = leb ?k @ mem_read m p ?k"
      using assms(5,7) str pf(1) by (auto simp: wire_value_def Let_def pb_ltypes pb_atypes wire_string_def w_len_def)
    have "takes I (pb_dec_string env f q) bs q (q + int ?n) (value_fresh T d f q)
        (\<lambda>M. mem_read M q (Suc ?k) = mem_read m p ?k @ [0])"
      unfolding bs using k pf(4) by (intro takes_string pf(1)) simp_all
    moreover have "mem_read m p (Suc ?k) = mem_read m p ?k @ [0]" using c_strnlen_end [OF k] by (simp add: mem_read_Suc)
    ultimately show ?thesis unfolding e same_value_def using str k by (simp add: pb_ltypes Let_def)
  next
    case sub
    have ptr: "f_ptr f \<noteq> 0" "proto3_table T d (T (f_ptr f)) ?n" using pf(13) [OF sub] by simp_all
    obtain ds where ds: "wire_message eenv d m (T (f_ptr f)) p = (ds, True)" "bs = leb (length ds) @ ds"
      using assms(3,5) ptr(1) sub
      by (cases "wire_message eenv d m (T (f_ptr f)) p") (auto simp: wire_value_def Let_def pb_ltypes w_len_def split: if_splits)
    have e: "PB_DECODERS env dec f q st = d_get (pb_make_string_substream (e_read env)) (\<lambda>sub. d_on_sub sub
        (dec (PB_HTYPE (f_type f) = PB_HTYPE_REPEATED) (T (f_ptr f)) q) (\<lambda>status sub. d_close env sub status)) st" for st
      using sub ptr(1) assms(4) by (simp add: PB_DECODERS_def pb_ltypes pb_dec_submessage_def)
    have "takes_all (\<lambda>_. True) (dec (PB_HTYPE (f_type f) = PB_HTYPE_REPEATED) (T (f_ptr f)) q) ds q (q + int ?n)
        (\<lambda>M. PB_HTYPE (f_type f) = PB_HTYPE_REPEATED \<or> fresh_message T d (T (f_ptr f)) M q)
        (\<lambda>M. same_message T d (T (f_ptr f)) m p M q)"
      using assms(2,6,7,8) ptr(2) ds sub unfolding reads_messages_def value_end_def by simp
    then have "takes_all I (dec (PB_HTYPE (f_type f) = PB_HTYPE_REPEATED) (T (f_ptr f)) q) ds q (q + int ?n)
        (value_fresh T d f q) (\<lambda>M. same_value T (same_message T d) m M f p q)"
      using sub by (auto simp: takes_all_def value_fresh_def same_value_def pb_ltypes)
    then show ?thesis unfolding ds(2)
      by (intro takes_cong [OF takes_substream e]) (use assms(6) ds(2) in simp_all)
  next
    case flb
    have e: "PB_DECODERS env dec f q = pb_dec_fixed_length_bytes env f q" using flb by (simp add: PB_DECODERS_def pb_ltypes)
    have bs: "bs = leb ?n @ mem_read m p ?n"
      using assms(5) flb by (auto simp: wire_value_def Let_def pb_ltypes wire_string_def w_len_def)
    have "takes I (pb_dec_fixed_length_bytes env f q) bs q (q + int ?n) (value_fresh T d f q)
        (\<lambda>M. mem_read M q ?n = mem_read m p ?n)"
      unfolding bs using pf(4) by (intro takes_fixed_length_bytes) simp_all
    then show ?thesis unfolding e same_value_def using flb by (simp add: pb_ltypes)
  qed
qed

lemma takes_keep:
  assumes "takes I g bs lo hi Pre Post" and "a \<le> lo" and "hi \<le> b"
    and "\<And>M. Pre' M \<Longrightarrow> Pre M" and "\<And>M M'. Pre' M \<Longrightarrow> frame lo hi M M' \<Longrightarrow> Post M' \<Longrightarrow> Post' M'"
  shows "takes I g bs a b Pre' Post'"
proof (rule takesI)
  fix st :: "'a pb_dec" and ys rest e
  assume st: "I (d_iter st)" "d_in st = ibuf (bs @ ys) rest e" and pre: "Pre' (d_mem st)"
  obtain M where "g st = Some (True, st\<lparr>d_in := ibuf ys rest e, d_mem := M\<rparr>)" "frame lo hi (d_mem st) M" "Post M"
    by (rule takesE [OF assms(1) st assms(4) [OF pre]])
  then show "\<exists>M. g st = Some (True, st\<lparr>d_in := ibuf ys rest e, d_mem := M\<rparr>) \<and> frame a b (d_mem st) M \<and> Post' M"
    using assms(5) [OF pre] frame_mono assms(2,3) by blast
qed

end
