(* ===== verification/PbRound.thy ===== *)
theory PbRound
  imports PbValues
begin

text \<open>
  The round trip of messages: fields, the loop over the tags, and the message as a whole. What
  \<open>pb_encode\<close> writes, \<open>pb_decode\<close> reads back, wherever the two messages are and whatever was in
  the memory before.
\<close>

section \<open>Fields that are left out\<close>

lemma zero_bytes: "list_all (\<lambda>b. b = 0) xs \<longleftrightarrow> xs = replicate (length xs) 0"
  by (induction xs) auto

lemma le_val_zero: "le_val (replicate n 0) = 0"
  by (induction n) (simp_all add: le_val_def)

lemma mem_read_part: "k \<le> n \<Longrightarrow> mem_read m p k = take k (mem_read m p n)"
  by (simp add: mem_read_def take_map)

lemma absent_value:
  assumes "proto3_field T P f" and "PB_HTYPE (f_type f) = PB_HTYPE_OPTIONAL" and "f_size_offset f = 0"
    and "proto3_default eenv d m f p" and "mem_read M q (f_data_size f) = replicate (f_data_size f) 0"
    and "PB_LTYPE (f_type f) \<noteq> PB_LTYPE_SUBMESSAGE"
  shows "same_value T sub m M f p q"
proof -
  note pf = proto3_fieldD [OF assms(1)]
  let ?n = "f_data_size f" and ?t = "PB_LTYPE (f_type f)"
  have r: "mem_read M q k = replicate k 0" if "k \<le> ?n" for k
    using mem_read_part [OF that, of M q] assms(5) that by (simp add: take_replicate min_def)
  have default: "if ?t = PB_LTYPE_BYTES then load m p 4 = 0 else if ?t = PB_LTYPE_STRING then m p = 0
      else if ?t = PB_LTYPE_FIXED_LENGTH_BYTES then ?n = 0 else mem_read m p ?n = replicate ?n 0"
    using assms(2-4,6) pf(1) zero_bytes [of "mem_read m p ?n"]
    by (auto simp: proto3_default.simps Let_def pb_htypes pb_ltypes)
  consider "?t = PB_LTYPE_BYTES" | "?t = PB_LTYPE_STRING" | "?t = PB_LTYPE_FIXED_LENGTH_BYTES"
    | "?t \<notin> {PB_LTYPE_BYTES, PB_LTYPE_STRING, PB_LTYPE_FIXED_LENGTH_BYTES}" by blast
  then show ?thesis
  proof cases
    case 1
    then show ?thesis using default r [of 4] pf(11)
      by (simp add: same_value_def load_def le_val_zero mem_read_def)
  next
    case 2
    then have "m p = 0" using default by (simp add: pb_ltypes)
    then have "c_strnlen m p ?n = 0" by (cases ?n) simp_all
    moreover have "mem_read m p 1 = [0]" using \<open>m p = 0\<close> by (simp add: mem_read_def)
    ultimately show ?thesis using 2 r [of 1] pf(12) by (simp add: same_value_def pb_ltypes)
  next
    case 3
    then show ?thesis using default by (simp add: same_value_def pb_ltypes mem_read_def)
  next
    case 4
    then show ?thesis using default assms(5,6) by (simp add: same_value_def)
  qed
qed

lemma absent_field_cases:
  assumes "proto3_field T P f" and "proto3_default eenv d m f p" and "fresh_field T fsub M f q"
    and "PB_HTYPE (f_type f) \<noteq> PB_HTYPE_REPEATED \<Longrightarrow> f_size_offset f = 0 \<Longrightarrow> same_value T sub m M f p q"
  shows "same_field T sub m M f p q"
proof -
  note pf = proto3_fieldD [OF assms(1)]
  consider "PB_HTYPE (f_type f) = PB_HTYPE_REPEATED"
    | "PB_HTYPE (f_type f) = PB_HTYPE_OPTIONAL" "f_size_offset f \<noteq> 0"
    | "PB_HTYPE (f_type f) = PB_HTYPE_OPTIONAL" "f_size_offset f = 0" using pf(5) by blast
  then show ?thesis
  proof cases
    case 1
    then have "entries m f p = []" "entries M f q = []" using assms(2,3)
      by (simp_all add: entries_def fresh_field_def proto3_default.simps Let_def pb_htypes)
    then show ?thesis by (simp add: same_field_def)
  next
    case 2
    then have "entries m f p = []" "entries M f q = []" using assms(2,3)
      by (simp_all add: entries_def fresh_field_def proto3_default.simps Let_def pb_htypes)
    then show ?thesis by (simp add: same_field_def)
  next
    case 3
    then show ?thesis using assms(4) by (simp add: same_field_def entries_def Let_def pb_htypes)
  qed
qed

lemma absent_field:
  assumes "n_table eenv = T"
  shows "proto3_field T (proto3_table T d) f \<Longrightarrow> proto3_default eenv d m f p \<Longrightarrow>
    fresh_field T (fresh_message T d) M f q \<Longrightarrow> same_field T (same_message T d) m M f p q"
proof (induction d arbitrary: f p q)
  case 0
  note pf = proto3_fieldD [OF 0(1)]
  have "PB_LTYPE (f_type f) \<noteq> PB_LTYPE_SUBMESSAGE" using pf(13) by auto
  then show ?case using absent_value [OF 0(1) pf(5) _ 0(2)] 0(3)
    by (intro absent_field_cases [OF 0]) (simp add: fresh_field_def)
next
  case (Suc d)
  note pf = proto3_fieldD [OF Suc.prems(1)]
  show ?case
  proof (rule absent_field_cases [OF Suc.prems])
    assume True: "PB_HTYPE (f_type f) \<noteq> PB_HTYPE_REPEATED" "f_size_offset f = 0"
    then have h: "PB_HTYPE (f_type f) = PB_HTYPE_OPTIONAL" using pf(5) by simp
    show "same_value T (same_message T (Suc d)) m M f p q"
    proof (cases "PB_LTYPE (f_type f) = PB_LTYPE_SUBMESSAGE")
      case False
      then show ?thesis using absent_value [OF Suc.prems(1) h _ Suc.prems(2)] True Suc.prems(3)
        by (simp add: fresh_field_def)
    next
      case sub: True
      let ?fs = "T (f_ptr f)"
      have tab: "proto3_table T (Suc d) ?fs (f_data_size f)" using pf(13) [OF sub] by simp
      have "f_tag (field_at ?fs 0) \<noteq> 0"
        using proto3_fieldD(2) [OF proto3_at(1) [OF tab table_iters_nonempty [of ?fs 0]]]
        by (simp add: table_iters_0 it_field_def)
      then have "\<forall>it\<in>set (table_iters ?fs p). proto3_default eenv d m (it_field it) (it_pData it)"
        using Suc.prems(2) True h sub pf(1) assms
        by (simp add: proto3_default.simps [of _ "Suc d"] Let_def pb_htypes pb_ltypes)
      then have "\<forall>it\<in>set (table_iters ?fs 0). proto3_default eenv d m (it_field it) (p + it_pData it)"
        unfolding table_iters_ball0 by simp
      moreover have "\<forall>it\<in>set (table_iters ?fs 0). fresh_field T (fresh_message T d) M (it_field it) (q + it_pData it)"
        using Suc.prems(3) True sub by (simp add: fresh_field_def)
      ultimately have "same_message T (Suc d) ?fs m p M q"
        using Suc.IH proto3_tableD(3) [OF tab] by simp
      then show ?thesis using sub by (simp add: same_value_def pb_ltypes)
    qed
  qed
qed

section \<open>Fields\<close>

text \<open>The first \<open>i\<close> entries of an array have been read, and the count says \<open>c\<close>.\<close>

definition read_so_far :: "pb_tables \<Rightarrow> nat \<Rightarrow> pb_mem \<Rightarrow> pb_field \<Rightarrow> int \<Rightarrow> int \<Rightarrow> nat \<Rightarrow> nat \<Rightarrow> pb_mem \<Rightarrow> bool" where
  "read_so_far T d m f p q c i M \<longleftrightarrow> load M (place_lo f q) 4 = c \<and>
     (\<forall>j<i. same_value T (same_message T d) m M f (item_at p f j) (item_at q f j))"

lemma same_value_frame:
  assumes "proto3_field T (proto3_table T d) f" and "frame lo hi M M'" and "q + int (f_data_size f) \<le> lo \<or> hi \<le> q"
    and "same_value T (same_message T d) m M f p q"
  shows "same_value T (same_message T d) m M' f p q"
proof -
  have a: "agree q (q + int (f_data_size f)) M M'" by (rule agree_frame [OF assms(2,3)])
  show ?thesis
    by (rule same_value_agree [OF assms(4) a], rule same_message_agree [OF _ a])
      (use proto3_fieldD(13) [OF assms(1)] in simp_all)
qed

lemma read_so_far_count:
  assumes "proto3_field T (proto3_table T d) f" and "PB_HTYPE (f_type f) = PB_HTYPE_REPEATED"
    and "read_so_far T d m f p q c i M" and "c' < 2 ^ 32"
  shows "read_so_far T d m f p q c' i (store M (place_lo f q) 4 c')"
    "frame (place_lo f q) (place_hi f q) M (store M (place_lo f q) 4 c')"
proof -
  note sz = place_size [OF assms(1), of q]
  have fr: "frame (place_lo f q) (place_lo f q + 4) M (store M (place_lo f q) 4 c')" by (rule frame_store) simp_all
  have "q \<le> item_at q f j" for j by (simp add: item_at_def)
  then have "place_lo f q + 4 \<le> item_at q f j" for j using sz(3) [OF assms(2)] by (rule order_trans [rotated])
  then show "read_so_far T d m f p q c' i (store M (place_lo f q) 4 c')"
    using assms(3,4) same_value_frame [OF assms(1) fr] store_frame_load [of M "place_lo f q" 4 c']
    by (simp add: read_so_far_def)
  show "frame (place_lo f q) (place_hi f q) M (store M (place_lo f q) 4 c')"
    using sz(1) sz(3) [OF assms(2)] by (intro frame_store) simp_all
qed

lemma read_so_far_value:
  assumes "proto3_field T (proto3_table T d) f" and "PB_HTYPE (f_type f) = PB_HTYPE_REPEATED"
    and "read_so_far T d m f p q c i M" and "frame (item_at q f i) (item_at q f i + int (f_data_size f)) M M'"
    and "same_value T (same_message T d) m M' f (item_at p f i) (item_at q f i)"
  shows "read_so_far T d m f p q c (Suc i) M'"
proof -
  have "q \<le> item_at q f i" by (simp add: item_at_def)
  then have l: "place_lo f q + 4 \<le> item_at q f i" using place_size(3) [OF assms(1,2), of q] by simp
  then have "load M' (place_lo f q) 4 = load M (place_lo f q) 4"
    by (intro load_agree [OF agree_frame [OF assms(4)], of "item_at q f i" "place_lo f q"]) simp_all
  moreover have "same_value T (same_message T d) m M' f (item_at p f j) (item_at q f j)" if "j < i" for j
    using same_value_frame [OF assms(1,4)] item_at_less [OF that, of q f] assms(3) that
    by (simp add: read_so_far_def)
  ultimately show ?thesis using assms(3,5) by (auto simp: read_so_far_def less_Suc_eq)
qed

lemma read_all_same:
  assumes "PB_HTYPE (f_type f) = PB_HTYPE_REPEATED" and "c = load m (place_lo f p) 4" and "c \<le> f_array_size f"
    and "read_so_far T d m f p q c c M"
  shows "same_field T (same_message T d) m M f p q"
  using assms by (auto simp: same_field_def entries_def Let_def read_so_far_def place_lo_def list_all2_conv_all_nth)

text \<open>The iterator stands at the field.\<close>

definition at_field :: "pb_field \<Rightarrow> int \<Rightarrow> pb_iter \<Rightarrow> bool" where
  "at_field f q it \<longleftrightarrow> it_field it = f \<and> it_pData it = q \<and> it_pSize it = place_lo f q \<and> \<not> it_fixed it"

text \<open>What the decoding of the values of a field rests on.\<close>

definition readable :: "pb_tables \<Rightarrow> nat \<Rightarrow> 's pb_env \<Rightarrow> 't pb_enc_env \<Rightarrow> 's pb_message_decoder \<Rightarrow> pb_mem \<Rightarrow> pb_field \<Rightarrow> bool" where
  "readable T d env eenv dec m f \<longleftrightarrow>
     proto3_field T (proto3_table T d) f \<and> reads_messages T d eenv m dec \<and> n_table eenv = T \<and> e_table env = T"

definition value_bytes :: "pb_tables \<Rightarrow> nat \<Rightarrow> 's pb_enc_env \<Rightarrow> pb_mem \<Rightarrow> pb_field \<Rightarrow> int \<Rightarrow> u8 list \<Rightarrow> bool" where
  "value_bytes T d eenv m f p bs \<longleftrightarrow>
     wire_value eenv (wire_message eenv d m) m f p = (bs, True) \<and> length bs < 2 ^ 32 \<and> 0 < p \<and>
     value_end T (strings_end T d) m f p"

lemma takes_readable:
  "readable T d env eenv dec m f \<Longrightarrow> value_bytes T d eenv m f p bs \<Longrightarrow>
     takes I (PB_DECODERS env dec f q) bs q (q + int (f_data_size f)) (value_fresh T d f q)
       (\<lambda>M. same_value T (same_message T d) m M f p q)"
  by (auto simp: readable_def value_bytes_def intro!: takes_value)

lemma d_upd_field [simp]: "d_field (d_upd h st) = d_field st"
  by (simp add: d_field_def)

lemma takes_optional:
  assumes "readable T d env eenv dec m f" and "value_bytes T d eenv m f p bs"
    and "PB_HTYPE (f_type f) = PB_HTYPE_OPTIONAL" and "entries m f p = [p]"
  shows "takes (at_field f q) (decode_static_field env n dec wt) bs (place_lo f q) (place_hi f q)
    (\<lambda>M. fresh_field T (fresh_message T d) M f q) (\<lambda>M. same_field T (same_message T d) m M f p q)"
proof -
  have pf: "proto3_field T (proto3_table T d) f" using assms(1) by (simp add: readable_def)
  have h: "PB_HTYPE (f_type f) \<noteq> PB_HTYPE_REPEATED" using assms(3) by (simp add: pb_htypes)
  note sz = place_size [OF pf, of q] and hi = place_size(5) [OF pf h, of q]
  let ?upd = "\<lambda>M. if f_size_offset f = 0 then M else store M (place_lo f q) 1 1"
  let ?set = "\<lambda>M. value_fresh T d f q M \<and> entries M f q = [q]"
  have set: "frame (place_lo f q) (place_hi f q) M (?upd M) \<and> ?set (?upd M)"
    if fresh: "fresh_field T (fresh_message T d) M f q" for M
  proof (cases "f_size_offset f = 0")
    case True
    then show ?thesis using fresh h by (auto simp: value_fresh_def fresh_field_def entries_def Let_def)
  next
    case False
    then have fr: "frame (place_lo f q) (place_lo f q + 1) M (?upd M)" by (auto intro: frame_store)
    have "value_fresh T d f q (?upd M)"
      using fresh h proto3_fieldD(13) [OF pf] fresh_message_agree [OF _ agree_frame [OF fr]] sz(4) [OF False]
      by (auto simp: value_fresh_def fresh_field_def)
    moreover have "load (?upd M) (place_lo f q) 1 = 1" using False store_frame_load [of M "place_lo f q" 1 1] by simp
    ultimately show ?thesis using False h frame_mono [OF fr] sz(1) sz(4) [OF False]
      by (simp add: entries_def Let_def place_lo_def)
  qed
  have keep: "same_field T (same_message T d) m M' f p q"
    if M: "?set M" "frame q (q + int (f_data_size f)) M M'" "same_value T (same_message T d) m M' f p q" for M M'
  proof -
    have "load M' (place_lo f q) 1 = load M (place_lo f q) 1" if "f_size_offset f \<noteq> 0"
      using sz(4) [OF that] by (intro load_agree [OF agree_frame [OF M(2)], of q "place_lo f q"]) simp_all
    then have "entries M' f q = [q]" using M(1) h
      by (cases "f_size_offset f = 0") (auto simp: entries_def Let_def place_lo_def split: if_splits)
    then show ?thesis using M(3) assms(4) h by (simp add: same_field_def)
  qed
  have "takes (at_field f q) (PB_DECODERS env dec f q) bs (place_lo f q) (place_hi f q) ?set
      (\<lambda>M. same_field T (same_message T d) m M f p q)"
    by (rule takes_keep [OF takes_readable [OF assms(1,2)]]) (use sz(2) hi keep in auto)
  then have "takes (at_field f q) (\<lambda>st. PB_DECODERS env dec f q (d_upd ?upd st)) bs (place_lo f q) (place_hi f q)
      (\<lambda>M. fresh_field T (fresh_message T d) M f q) (\<lambda>M. same_field T (same_message T d) m M f p q)"
    by (rule takes_after) (rule set)
  then show ?thesis
  proof (rule takes_cong)
    fix st :: "'a pb_dec"
    assume it: "at_field f q (d_iter st)"
    have "(if size_is_data (d_iter st) then st else d_upd (\<lambda>m. store m (it_pSize (d_iter st)) 1 1) st) = d_upd ?upd st"
      using it by (auto simp: at_field_def size_is_data_def place_lo_def d_upd_def)
    then show "decode_static_field env n dec wt st = PB_DECODERS env dec f q (d_upd ?upd st)"
      using it assms(3) by (simp add: decode_static_field_def Let_def d_field_def at_field_def pb_htypes)
  qed
qed

lemma set_size_at:
  "at_field f q (d_iter st) \<Longrightarrow> set_size v st = d_upd (\<lambda>M. store M (place_lo f q) 4 v) st"
  by (simp add: set_size_def at_field_def)

lemma get_size_at:
  "at_field f q (d_iter st) \<Longrightarrow> read_so_far T d m f p q c i (d_mem st) \<Longrightarrow> get_size st = c"
  by (simp add: get_size_def at_field_def read_so_far_def)

lemma value_fresh_repeated: "PB_HTYPE (f_type f) = PB_HTYPE_REPEATED \<Longrightarrow> value_fresh T d f q M"
  by (simp add: value_fresh_def)

lemma takes_entry:
  assumes "readable T d env eenv dec m f" and "value_bytes T d eenv m f (item_at p f i) bs"
    and "PB_HTYPE (f_type f) = PB_HTYPE_REPEATED" and "i < f_array_size f"
  shows "takes I (PB_DECODERS env dec f (item_at q f i)) bs (place_lo f q) (place_hi f q)
    (read_so_far T d m f p q c i) (read_so_far T d m f p q c (Suc i))"
proof -
  have pf: "proto3_field T (proto3_table T d) f" using assms(1) by (simp add: readable_def)
  show ?thesis
    by (rule takes_keep [OF takes_readable [OF assms(1,2)]])
      (use place_size(2) [OF pf, of q] place_item [OF assms(3,4), of q] value_fresh_repeated [OF assms(3)]
        read_so_far_value [OF pf assms(3)] in auto)
qed

lemma takes_item:
  assumes "readable T d env eenv dec m f" and "value_bytes T d eenv m f (item_at p f i) bs"
    and "PB_HTYPE (f_type f) = PB_HTYPE_REPEATED" and "i < f_array_size f" and "Suc i < 2 ^ 32"
    and "PB_LTYPE (f_type f) > PB_LTYPE_LAST_PACKABLE"
  shows "takes (at_field f q) (decode_static_field env n dec wt) bs (place_lo f q) (place_hi f q)
    (read_so_far T d m f p q i i) (read_so_far T d m f p q (Suc i) (Suc i))"
proof -
  have pf: "proto3_field T (proto3_table T d) f" using assms(1) by (simp add: readable_def)
  have "takes (at_field f q) (\<lambda>st. PB_DECODERS env dec f (item_at q f i) (d_upd (\<lambda>M. store M (place_lo f q) 4 (Suc i)) st)) bs
      (place_lo f q) (place_hi f q) (read_so_far T d m f p q i i) (read_so_far T d m f p q (Suc i) (Suc i))"
    by (rule takes_after [OF takes_entry [OF assms(1-4)]])
      (use read_so_far_count [OF pf assms(3) _ assms(5)] in blast)
  then show ?thesis
  proof (rule takes_cong)
    fix st :: "'a pb_dec"
    assume it: "at_field f q (d_iter st)" and r: "read_so_far T d m f p q i i (d_mem st)"
    show "decode_static_field env n dec wt st =
        PB_DECODERS env dec f (item_at q f i) (d_upd (\<lambda>M. store M (place_lo f q) 4 (Suc i)) st)"
      using it assms(3,4,6) set_size_at [OF it] get_size_at [OF it r]
      by (auto simp add: decode_static_field_def Let_def d_field_def at_field_def pb_htypes)
  qed
qed

text \<open>A packed array: the entries from \<open>i\<close> on.\<close>

lemma item_bytes_pos:
  assumes "PB_LTYPE (f_type f) \<le> PB_LTYPE_LAST_PACKABLE" and "proto3_field T P f"
    and "wire_value eenv sub m f p = (bs, True)"
  shows "bs \<noteq> []"
proof -
  have "leb n \<noteq> []" for n using length_leb_pos [of n] by (metis length_greater_0_conv)
  moreover have "mem_read m p 4 \<noteq> []" "mem_read m p 8 \<noteq> []"
    by (simp_all flip: length_greater_0_conv)
  ultimately show ?thesis using assms proto3_fieldD(15) [OF assms(2)]
    by (auto simp: wire_value_def Let_def wire_int_def w_fail_def pb_ltypes split: if_splits)
qed

lemma takes_packed_loop:
  assumes "readable T d env eenv dec m f" and "PB_HTYPE (f_type f) = PB_HTYPE_REPEATED"
    and "PB_LTYPE (f_type f) \<le> PB_LTYPE_LAST_PACKABLE" and "c \<le> f_array_size f" and "c < 2 ^ 32" and "0 < p"
    and "i \<le> c" and "w_concat (map (\<lambda>i. wire_value eenv (wire_message eenv d m) m f (item_at p f i)) [i..<c]) = (bs, True)"
    and "length bs < 2 ^ 32" and "length bs < k"
  shows "takes_all (at_field f q) (packed_loop (PB_DECODERS env dec f) k) bs (place_lo f q) (place_hi f q)
    (read_so_far T d m f p q i i) (read_so_far T d m f p q c c)"
  using assms(7-10)
proof (induction k arbitrary: i bs)
  case 0
  then show ?case by simp
next
  case (Suc k)
  have pf: "proto3_field T (proto3_table T d) f" using assms(1) by (simp add: readable_def)
  show ?case
  proof (cases "i = c")
    case True
    then have "bs = []" using Suc.prems(2) by simp
    then show ?thesis using True
      by (auto simp: takes_all_def d_done_def Let_def intro!: exI [of _ "d_mem _"])
  next
    case False
    then have ic: "i < c" using Suc.prems(1) by simp
    let ?w = "\<lambda>i. wire_value eenv (wire_message eenv d m) m f (item_at p f i)"
    have "[i..<c] = i # [Suc i..<c]" using ic by (rule upt_conv_Cons)
    then obtain as ds where as: "?w i = (as, True)" "w_concat (map ?w [Suc i..<c]) = (ds, True)" "bs = as @ ds"
      using Suc.prems(2) by (cases "?w i"; cases "w_concat (map ?w [Suc i..<c])") (auto simp: w_seq_def split: if_splits)
    have ne: "as \<noteq> []" by (rule item_bytes_pos [OF assms(3) pf as(1)])
    then have lens: "length as < 2 ^ 32" "length ds < 2 ^ 32" "length ds < k"
      using Suc.prems(3,4) as(3) by (cases as; simp)+
    have "0 < item_at p f i" using assms(6) by (simp add: item_at_def add_pos_nonneg)
    moreover have "PB_LTYPE (f_type f) \<noteq> PB_LTYPE_STRING" "PB_LTYPE (f_type f) \<noteq> PB_LTYPE_SUBMESSAGE"
      using assms(3) by (auto simp: pb_ltypes)
    ultimately have "value_bytes T d eenv m f (item_at p f i) as"
      using as(1) lens(1) by (simp add: value_bytes_def value_end_def)
    then have entry: "takes (at_field f q) (PB_DECODERS env dec f (item_at q f i)) as (place_lo f q) (place_hi f q)
        (read_so_far T d m f p q i i) (read_so_far T d m f p q i (Suc i))"
      using ic assms(4) by (intro takes_entry [OF assms(1) _ assms(2)]) simp_all
    note rec = Suc.IH [OF _ as(2) lens(2,3)]
    show ?thesis
    proof (rule takes_allI)
      fix st :: "'a pb_dec" and rest e
      assume it: "at_field f q (d_iter st)" and st: "d_in st = ibuf bs rest e"
        and r: "read_so_far T d m f p q i i (d_mem st)"
      let ?stm = "\<lambda>xs M. st\<lparr>d_in := ibuf xs rest e, d_mem := M\<rparr>"
      obtain M where M: "PB_DECODERS env dec f (item_at q f i) st = Some (True, ?stm ds M)"
        "frame (place_lo f q) (place_hi f q) (d_mem st) M" "read_so_far T d m f p q i (Suc i) M"
        by (rule takesE [OF entry it st [unfolded as(3)] r])
      let ?M = "store M (place_lo f q) 4 (Suc i)"
      have "Suc i < 2 ^ 32" using ic assms(5) by simp
      note cnt = read_so_far_count [OF pf assms(2) M(3) this]
      have it': "at_field f q (d_iter (?stm ds M))" using it by simp
      obtain M' where M': "packed_loop (PB_DECODERS env dec f) k (?stm ds ?M) = Some (True, ?stm [] M')"
        "frame (place_lo f q) (place_hi f q) ?M M'" "read_so_far T d m f p q c c M'"
        by (rule takes_allE [OF rec, of "?stm ds ?M" rest e]) (use it cnt(1) ic in simp_all)
      have "packed_loop (PB_DECODERS env dec f) (Suc k) st = packed_loop (PB_DECODERS env dec f) k (?stm ds ?M)"
        using it st ne M(1) as(3) ic assms(4) get_size_at [OF it r] get_size_at [OF it', of T d m p i "Suc i"] M(3) set_size_at [OF it']
        by (simp add: Let_def d_field_def at_field_def d_then_def d_upd_def)
      then show "\<exists>M. packed_loop (PB_DECODERS env dec f) (Suc k) st = Some (True, ?stm [] M) \<and>
          frame (place_lo f q) (place_hi f q) (d_mem st) M \<and> read_so_far T d m f p q c c M"
        using M' frame_trans [OF frame_trans [OF M(2) cnt(2)] M'(2)] by (intro exI [of _ M']) simp
    qed
  qed
qed

lemma takes_packed:
  assumes "readable T d env eenv dec m f" and "PB_HTYPE (f_type f) = PB_HTYPE_REPEATED"
    and "PB_LTYPE (f_type f) \<le> PB_LTYPE_LAST_PACKABLE" and "c \<le> f_array_size f" and "c < 2 ^ 32" and "0 < p"
    and "w_concat (map (\<lambda>i. wire_value eenv (wire_message eenv d m) m f (item_at p f i)) [0..<c]) = (bs, True)"
    and "length bs < 2 ^ 32"
  shows "takes (at_field f q) (decode_static_field env n dec PB_WT_STRING) (leb (length bs) @ bs) (place_lo f q) (place_hi f q)
    (read_so_far T d m f p q 0 0) (read_so_far T d m f p q c c)"
proof -
  let ?fin = "\<lambda>status sub st. if is_bytes_left sub \<noteq> 0 then d_fail ''array overflow'' st else d_close env sub status st"
  have "takes (at_field f q) (d_get (pb_make_string_substream (e_read env)) (\<lambda>sub. d_on_sub sub
      (packed_loop (PB_DECODERS env dec f) (Suc (is_bytes_left sub))) ?fin)) (leb (length bs) @ bs)
      (place_lo f q) (place_hi f q) (read_so_far T d m f p q 0 0) (read_so_far T d m f p q c c)"
  proof (rule takes_substream)
    fix rest e
    show "takes_all (at_field f q) (packed_loop (PB_DECODERS env dec f) (Suc (is_bytes_left (ibuf bs rest e)))) bs
        (place_lo f q) (place_hi f q) (read_so_far T d m f p q 0 0) (read_so_far T d m f p q c c)"
      by (rule takes_packed_loop [OF assms(1-6) _ assms(7,8)]) simp_all
  qed (use assms(8) in simp_all)
  then show ?thesis
    by (rule takes_cong) (use assms(2,3) in \<open>simp add: decode_static_field_def Let_def d_field_def at_field_def pb_htypes\<close>)
qed

section \<open>The loop over the tags\<close>

text \<open>A search from any field of the table ends at the one field with the tag.\<close>

lemma iter_search_fixed: "iter_search n found s it = Some (r, it') \<Longrightarrow> \<not> it_fixed it \<Longrightarrow> \<not> it_fixed it'"
proof (induction n arbitrary: it)
  case (Suc n)
  have "\<not> it_fixed (snd (pb_field_iter_next it))" using Suc.prems(2)
    by (auto simp: pb_field_iter_next_def Let_def)
  then show ?case using Suc by (auto simp: Let_def split: if_splits)
qed simp

lemma iter_find_at:
  assumes "distinct (map (\<lambda>it. f_tag (it_field it)) (table_iters fs q))" and "i < length (table_iters fs q)"
    and "it \<in> set (table_iters fs q)" and "PB_LTYPE (f_type (it_field (table_iters fs q ! i))) \<noteq> PB_LTYPE_EXTENSION"
  shows "pb_field_iter_find it (f_tag (it_field (table_iters fs q ! i))) = Some (True, table_iters fs q ! i)"
proof -
  let ?L = "table_iters fs q"
  let ?found = "\<lambda>f. f_tag f = f_tag (it_field (?L ! i)) \<and> PB_LTYPE (f_type f) \<noteq> PB_LTYPE_EXTENSION"
  obtain j where j: "j < length ?L" "it = ?L ! j" using assms(3) by (auto simp: in_set_conv_nth)
  then have v: "valid_iter fs q it" and pos: "it_pos it = j" and nf: "\<not> it_fixed it"
    using valid_iter_nth table_iters_step(3) by simp_all
  obtain r it' where it': "iter_search (Suc (length (it_start it))) ?found (it_pos it) it = Some (r, it')"
    "valid_iter fs q it'" "r \<longrightarrow> ?found (it_field it')"
    using iter_search_round [OF v] by blast
  have r
  proof (rule ccontr)
    assume "\<not> r"
    then have "iter_search (Suc (length (it_start it))) ?found (it_pos it) it = Some (False, it')" using it'(1) by simp
    from iter_search_False [OF this v _ assms(2)] show False
      using j pos assms(4) le_less_linear [of j i] by auto
  qed
  have "\<not> it_fixed it'" using iter_search_fixed [OF it'(1) nf] .
  then have "it' \<in> set ?L" using it'(2) it_fixed_False [of it'] by (simp add: valid_iter_def)
  then obtain k where k: "k < length ?L" "it' = ?L ! k" by (auto simp: in_set_conv_nth)
  then have "k = i" using assms(1,2) it'(3) \<open>r\<close> by (auto simp: distinct_conv_nth)
  then show ?thesis using it'(1) k \<open>r\<close> by (simp add: pb_field_iter_find_def)
qed

text \<open>The loop of \<open>pb_decode_noinit\<close> gets from one state to another, whatever its bound is as long
  as it exceeds the bytes left.\<close>

definition loops_to :: "'s pb_env \<Rightarrow> nat \<Rightarrow> 's pb_message_decoder \<Rightarrow> 's pb_dec \<Rightarrow> 's pb_dec \<Rightarrow> bool" where
  "loops_to env n dec st st' \<longleftrightarrow>
     (\<forall>k > is_bytes_left (d_in st). \<exists>k' > is_bytes_left (d_in st').
        decode_loop env n dec k initial_loop st = decode_loop env n dec k' initial_loop st')"

lemma loops_to_refl: "loops_to env n dec st st"
  by (auto simp: loops_to_def)

lemma loops_to_trans: "loops_to env n dec st st' \<Longrightarrow> loops_to env n dec st' st'' \<Longrightarrow> loops_to env n dec st st''"
  unfolding loops_to_def by metis

text \<open>A table of proto3 fields at \<open>q\<close>, field \<open>i\<close> of it, and the loop at any field.\<close>

lemma at_field_nth:
  assumes "proto3_table T (Suc d) fs sz" and "i < length (table_iters fs q)"
  shows "at_field (it_field (table_iters fs q ! i)) (it_pData (table_iters fs q ! i)) (table_iters fs q ! i)"
  using proto3_at(4,7) [OF assms] by (simp add: at_field_def)

lemma decode_known_proto3:
  assumes "proto3_field T P f" and "at_field f p (d_iter st)"
    and "decode_static_field env n dec wt st = Some (True, st')"
  shows "decode_known env n dec wt l st = Some (l, True, st')"
proof -
  note pf = proto3_fieldD [OF assms(1)]
  have f: "it_field (d_iter st) = f" "d_field st = f" using assms(2) by (simp_all add: at_field_def d_field_def)
  have "PB_HTYPE (f_type f) = PB_HTYPE_REPEATED \<Longrightarrow> \<not> size_is_data (d_iter st)"
    using pf(7) assms(2) by (simp add: size_is_data_def at_field_def place_lo_def)
  moreover have "PB_HTYPE (f_type f) \<noteq> PB_HTYPE_ONEOF"
    using pf(5) by (auto simp: pb_htypes)
  moreover have "PB_HTYPE (f_type f) \<noteq> PB_HTYPE_REQUIRED" using pf(5) by (auto simp: pb_htypes)
  moreover from calculation(2) have "decode_field env n dec wt st = Some (True, st')"
    using pf(1) assms(3) by (simp add: decode_field_def Let_def f d_then_def d_done_def)
  ultimately show ?thesis
    by (cases "PB_HTYPE (f_type f) = PB_HTYPE_REPEATED") (simp_all add: decode_known_def Let_def f)
qed

lemma loop_step:
  assumes tab: "proto3_table T (Suc d) fs sz" and i: "i < length (table_iters fs q)"
    and f: "f = it_field (table_iters fs q ! i)" "p = it_pData (table_iters fs q ! i)"
    and takes: "takes (at_field f p) (decode_static_field env n dec (of_nat wt)) bs lo hi Pre Post" and "wt < 8"
    and st: "d_in st = ibuf (leb (8 * f_tag f + wt) @ bs @ ys) rest e" "d_iter st \<in> set (table_iters fs q)" "Pre (d_mem st)"
  shows "\<exists>M it. it \<in> set (table_iters fs q) \<and> loops_to env n dec st (st\<lparr>d_in := ibuf ys rest e, d_mem := M, d_iter := it\<rparr>) \<and>
     frame lo hi (d_mem st) M \<and> Post M"
proof -
  let ?it = "table_iters fs q ! i" and ?s = "ibuf (bs @ ys) rest e :: 'a pb_istream"
  note pf0 = proto3_at(1) [OF tab i] and pf = proto3_fieldD [OF proto3_at(1) [OF tab i], folded f(1)]
  have it: "at_field f p ?it" using at_field_nth [OF tab i] by (simp add: f)
  obtain M where M: "decode_static_field env n dec (of_nat wt) (st\<lparr>d_in := ?s, d_iter := ?it\<rparr>) =
      Some (True, st\<lparr>d_in := ?s, d_iter := ?it\<rparr>\<lparr>d_in := ibuf ys rest e, d_mem := M\<rparr>)"
    "frame lo hi (d_mem (st\<lparr>d_in := ?s, d_iter := ?it\<rparr>)) M" "Post M"
    by (rule takesE [OF takes, of "st\<lparr>d_in := ?s, d_iter := ?it\<rparr>" ys rest e]) (use it st(3) in simp_all)
  let ?st = "st\<lparr>d_in := ibuf ys rest e, d_mem := M, d_iter := ?it\<rparr>"
  have same: "st\<lparr>d_in := ?s, d_iter := ?it\<rparr>\<lparr>d_in := ibuf ys rest e, d_mem := M\<rparr> = ?st" by (cases st) simp
  have known: "decode_known env n dec (of_nat wt) initial_loop (st\<lparr>d_in := ?s, d_iter := ?it\<rparr>) = Some (initial_loop, True, ?st)"
    by (rule decode_known_proto3 [OF pf0]) (use it M(1) in \<open>simp_all add: f same [unfolded f]\<close>)
  have tag: "pb_decode_tag (e_read env) (d_in st) = (Some (of_nat wt, of_nat (f_tag f)), False, ?s)"
    unfolding st(1) using pb_decode_tag_leb [of "f_tag f" wt "e_read env" "bs @ ys" rest e] pf(2,3) assms(6) by simp
  have "unat (of_nat (f_tag f) :: u32) = f_tag f" using pf(3) by (intro unat_u32) simp
  moreover have "pb_field_iter_find (d_iter st) (f_tag f) = Some (True, ?it)"
    unfolding f(1)
  proof (rule iter_find_at [OF _ i st(2)])
    show "distinct (map (\<lambda>it. f_tag (it_field it)) (table_iters fs q))"
      using proto3_tableD(1) [OF tab] unfolding shift_table_iters [of fs q] by (simp add: o_def)
    show "PB_LTYPE (f_type (it_field ?it)) \<noteq> PB_LTYPE_EXTENSION" using pf(15) unfolding f(1) by (auto simp: pb_ltypes)
  qed
  ultimately have step: "decode_loop env n dec (Suc k) initial_loop st = decode_loop env n dec k initial_loop ?st" for k
    using tag known st(1) length_leb_pos [of "8 * f_tag f + wt"] by (simp add: Let_def)
  have "loops_to env n dec st ?st" unfolding loops_to_def
  proof (intro allI impI)
    fix k
    assume k: "is_bytes_left (d_in st) < k"
    then obtain k' where "k = Suc k'" by (cases k) auto
    moreover have "length ys < k'" using k st(1) length_leb_pos [of "8 * f_tag f + wt"] calculation
      by (simp del: length_leb_pos length_greater_0_conv)
    ultimately show "\<exists>k'>is_bytes_left (d_in ?st). decode_loop env n dec k initial_loop st = decode_loop env n dec k' initial_loop ?st"
      using step by (intro exI [of _ k']) simp
  qed
  moreover have "?it \<in> set (table_iters fs q)" using i by simp
  ultimately show ?thesis using M(2,3) by (intro exI [of _ M] exI [of _ ?it]) simp
qed

text \<open>One field of the message: whatever the encoder wrote for it, none, one or many tags.\<close>

lemma w_seqD: "w_seq w w' = (bs, True) \<Longrightarrow> \<exists>as cs. w = (as, True) \<and> w' = (cs, True) \<and> bs = as @ cs"
  by (cases w; cases w') (auto simp: w_seq_def split: if_splits)

lemma w_lenD: "w_len w = (bs, True) \<Longrightarrow> \<exists>ds. w = (ds, True) \<and> bs = leb (length ds) @ ds"
  by (cases w) (auto simp: w_len_def split: if_splits)

lemma wire_taggedD:
  "wire_tagged f w = (bs, True) \<Longrightarrow>
     \<exists>ds. w = (ds, True) \<and> bs = leb (8 * f_tag f + wire_type_of (PB_LTYPE (f_type f))) @ ds"
  by (drule w_seqD [OF trans [OF wire_tagged_def [symmetric]]]) (auto simp: wire_tag_def)

lemma wire_type_less: "wire_type_of t < 8"
  by (simp add: wire_type_of_def)

lemma loops_to_same: "d_in st = s \<Longrightarrow> loops_to env n dec st (st\<lparr>d_in := s, d_mem := d_mem st, d_iter := d_iter st\<rparr>)"
proof -
  assume "d_in st = s"
  then have "st\<lparr>d_in := s, d_mem := d_mem st, d_iter := d_iter st\<rparr> = st" by (cases st) simp
  then show ?thesis using loops_to_refl by simp
qed

lemma loop_items:
  assumes tab: "proto3_table T (Suc d) fs sz" and i: "i < length (table_iters fs q')"
    and f: "f = it_field (table_iters fs q' ! i)" "q = it_pData (table_iters fs q' ! i)"
    and ok: "readable T d env eenv dec m f" "PB_HTYPE (f_type f) = PB_HTYPE_REPEATED" "PB_LTYPE (f_type f) > PB_LTYPE_LAST_PACKABLE"
    and c: "c \<le> f_array_size f" "c < 2 ^ 32" "0 < p"
    and ends: "\<And>j. j < c \<Longrightarrow> value_end T (strings_end T d) m f (item_at p f j)"
    and st: "k \<le> c" "w_concat (map (\<lambda>j. wire_tagged f (wire_value eenv (wire_message eenv d m) m f (item_at p f j))) [k..<c]) = (bs, True)"
      "length bs < 2 ^ 32" "d_in st = ibuf (bs @ ys) rest e" "d_iter st \<in> set (table_iters fs q')"
      "read_so_far T d m f p q k k (d_mem st)"
  shows "\<exists>M it. it \<in> set (table_iters fs q') \<and> loops_to env n dec st (st\<lparr>d_in := ibuf ys rest e, d_mem := M, d_iter := it\<rparr>) \<and>
     frame (place_lo f q) (place_hi f q) (d_mem st) M \<and> read_so_far T d m f p q c c M"
  using st
proof (induction "c - k" arbitrary: k bs st)
  case 0
  then have "k = c" "bs = []" by simp_all
  then have "d_in st = ibuf ys rest e" using 0 by simp
  from loops_to_same [OF this] show ?case using 0 \<open>k = c\<close>
    by (intro exI [of _ "d_mem st"] exI [of _ "d_iter st"]) (simp del: pb_dec.update_convs)
next
  case (Suc x)
  then have kc: "k < c" by simp
  then have "[k..<c] = k # [Suc k..<c]" by (rule upt_conv_Cons)
  then obtain as ds where w: "wire_tagged f (wire_value eenv (wire_message eenv d m) m f (item_at p f k)) = (as, True)"
    "w_concat (map (\<lambda>j. wire_tagged f (wire_value eenv (wire_message eenv d m) m f (item_at p f j))) [Suc k..<c]) = (ds, True)"
    "bs = as @ ds"
    using Suc.prems(2) by (auto dest: w_seqD)
  let ?wt = "wire_type_of (PB_LTYPE (f_type f))"
  obtain vs where vs: "wire_value eenv (wire_message eenv d m) m f (item_at p f k) = (vs, True)"
    "as = leb (8 * f_tag f + ?wt) @ vs"
    using wire_taggedD [OF w(1)] by blast
  have "0 < item_at p f k" using c(3) by (simp add: item_at_def add_pos_nonneg)
  then have "value_bytes T d eenv m f (item_at p f k) vs"
    using vs w(3) Suc.prems(3) ends [OF kc] by (simp add: value_bytes_def)
  then have takes: "takes (at_field f q) (decode_static_field env n dec (of_nat ?wt)) vs (place_lo f q) (place_hi f q)
      (read_so_far T d m f p q k k) (read_so_far T d m f p q (Suc k) (Suc k))"
    using kc c by (intro takes_item [OF ok(1) _ ok(2) _ _ ok(3)]) simp_all
  obtain M it where M: "it \<in> set (table_iters fs q')"
    "loops_to env n dec st (st\<lparr>d_in := ibuf (ds @ ys) rest e, d_mem := M, d_iter := it\<rparr>)"
    "frame (place_lo f q) (place_hi f q) (d_mem st) M" "read_so_far T d m f p q (Suc k) (Suc k) M"
    using loop_step [OF tab i f takes wire_type_less, of st "ds @ ys" rest e] Suc.prems(4-6) w(3) vs(2) by auto
  let ?st = "st\<lparr>d_in := ibuf (ds @ ys) rest e, d_mem := M, d_iter := it\<rparr>"
  have "x = c - Suc k" using Suc.hyps(2) by simp
  from Suc.hyps(1) [OF this _ w(2), of ?st] obtain M' it' where M': "it' \<in> set (table_iters fs q')"
    "loops_to env n dec ?st (st\<lparr>d_in := ibuf ys rest e, d_mem := M', d_iter := it'\<rparr>)"
    "frame (place_lo f q) (place_hi f q) M M'" "read_so_far T d m f p q c c M'"
    using kc w(3) Suc.prems(3) M by auto
  then show ?case using loops_to_trans [OF M(2) M'(2)] frame_trans [OF M(3) M'(3)]
    by (intro exI [of _ M'] exI [of _ it']) simp
qed

lemma loop_repeated:
  assumes tab: "proto3_table T (Suc d) fs sz" and i: "i < length (table_iters fs q')"
    and f: "f = it_field (table_iters fs q' ! i)" "q = it_pData (table_iters fs q' ! i)"
    and ok: "readable T d env eenv dec m f" "PB_HTYPE (f_type f) = PB_HTYPE_REPEATED"
    and ends: "\<And>x. x \<in> set (entries m f p) \<Longrightarrow> value_end T (strings_end T d) m f x" and p: "0 < p"
    and w: "wire_field eenv d (wire_message eenv d m) m f p = (bs, True)" "length bs < 2 ^ 32"
    and st: "d_in st = ibuf (bs @ ys) rest e" "d_iter st \<in> set (table_iters fs q')"
      "fresh_field T (fresh_message T d) (d_mem st) f q"
  shows "\<exists>M it. it \<in> set (table_iters fs q') \<and> loops_to env n dec st (st\<lparr>d_in := ibuf ys rest e, d_mem := M, d_iter := it\<rparr>) \<and>
     frame (place_lo f q) (place_hi f q) (d_mem st) M \<and> same_field T (same_message T d) m M f p q"
proof -
  have pf0: "proto3_field T (proto3_table T d) f" using ok(1) by (simp add: readable_def)
  note pf = proto3_fieldD [OF pf0]
  define c where "c = load m (place_lo f p) 4"
  let ?v = "\<lambda>j. wire_value eenv (wire_message eenv d m) m f (item_at p f j)"
  have c32: "c < 2 ^ 32" using load_le [of m "place_lo f p" 4] by (simp add: c_def)
  have start: "read_so_far T d m f p q 0 0 (d_mem st)" using st(3) ok(2) by (simp add: read_so_far_def fresh_field_def place_lo_def)
  have at: "map (\<lambda>i. p + int (f_data_size f) * int i) [0..<c] = map (item_at p f) [0..<c]" by (simp add: item_at_def)
  have wf: "wire_array (wire_value eenv (wire_message eenv d m) m f) m f p c = (bs, True)"
    using w(1) ok(2) pf(1,7) by (simp add: wire_field_def Let_def c_def place_lo_def pb_htypes pb_atypes)
  then have le: "c \<le> f_array_size f" using pf(1)
    by (auto simp: wire_array_def Let_def pb_atypes w_fail_def split: if_splits)
  note fin = read_all_same [OF ok(2) c_def le]
  consider "c = 0" | "c \<noteq> 0" "PB_LTYPE (f_type f) \<le> PB_LTYPE_LAST_PACKABLE"
    | "c \<noteq> 0" "PB_LTYPE (f_type f) > PB_LTYPE_LAST_PACKABLE" by fastforce
  then show ?thesis
  proof cases
    case 1
    then have "bs = []" using wf by (simp add: wire_array_def)
    then have "d_in st = ibuf ys rest e" using st(1) by simp
    then show ?thesis using loops_to_same fin [of T d q "d_mem st"] start 1 st(2)
      by (intro exI [of _ "d_mem st"] exI [of _ "d_iter st"]) (simp del: pb_dec.update_convs)
  next
    case 2
    then have "w_seq (wire_tag (f_tag f) 2) (w_len (w_concat (map ?v [0..<c]))) = (bs, True)"
      using wf le unfolding wire_array_def Let_def at by (simp add: o_def)
    then obtain ds where ds: "w_concat (map ?v [0..<c]) = (ds, True)" "bs = leb (8 * f_tag f + 2) @ leb (length ds) @ ds"
      by (auto dest!: w_seqD w_lenD simp: wire_tag_def)
    have "takes (at_field f q) (decode_static_field env n dec (of_nat 2)) (leb (length ds) @ ds) (place_lo f q) (place_hi f q)
      (read_so_far T d m f p q 0 0) (read_so_far T d m f p q c c)"
      using takes_packed [OF ok 2(2) le c32 p ds(1)] w(2) ds(2) by simp
    from loop_step [OF tab i f this, of st ys rest e] obtain M it where "it \<in> set (table_iters fs q')"
      "loops_to env n dec st (st\<lparr>d_in := ibuf ys rest e, d_mem := M, d_iter := it\<rparr>)"
      "frame (place_lo f q) (place_hi f q) (d_mem st) M" "read_so_far T d m f p q c c M"
      using st(1,2) start by (auto simp: ds(2))
    then show ?thesis using fin by blast
  next
    case 3
    have "wire_array (wire_value eenv (wire_message eenv d m) m f) m f p c = w_concat (map (\<lambda>j. wire_tagged f (?v j)) [0..<c])"
      unfolding wire_array_def Let_def at using 3 le pf(1) by (auto simp: pb_atypes o_def)
    then have cat: "w_concat (map (\<lambda>j. wire_tagged f (?v j)) [0..<c]) = (bs, True)" using wf by simp
    have "value_end T (strings_end T d) m f (item_at p f j)" if "j < c" for j
      using that ok(2) by (intro ends) (simp add: entries_def Let_def c_def place_lo_def)
    from loop_items [OF tab i f ok 3(2) le c32 p this _ cat w(2) st(1,2) start]
    show ?thesis using fin by blast
  qed
qed

lemma loop_optional:
  assumes tab: "proto3_table T (Suc d) fs sz" and i: "i < length (table_iters fs q')"
    and f: "f = it_field (table_iters fs q' ! i)" "q = it_pData (table_iters fs q' ! i)"
    and ok: "readable T d env eenv dec m f" "PB_HTYPE (f_type f) = PB_HTYPE_OPTIONAL"
    and ends: "\<And>x. x \<in> set (entries m f p) \<Longrightarrow> value_end T (strings_end T d) m f x" and p: "0 < p"
    and w: "wire_field eenv d (wire_message eenv d m) m f p = (bs, True)" "length bs < 2 ^ 32"
    and st: "d_in st = ibuf (bs @ ys) rest e" "d_iter st \<in> set (table_iters fs q')"
      "fresh_field T (fresh_message T d) (d_mem st) f q"
  shows "\<exists>M it. it \<in> set (table_iters fs q') \<and> loops_to env n dec st (st\<lparr>d_in := ibuf ys rest e, d_mem := M, d_iter := it\<rparr>) \<and>
     frame (place_lo f q) (place_hi f q) (d_mem st) M \<and> same_field T (same_message T d) m M f p q"
proof -
  have pf0: "proto3_field T (proto3_table T d) f" and nt: "n_table eenv = T" using ok(1) by (simp_all add: readable_def)
  note pf = proto3_fieldD [OF pf0]
  let ?v = "wire_value eenv (wire_message eenv d m) m f p"
  let ?absent = "if f_size_offset f \<noteq> 0 then load m (p + f_size_offset f) 1 = 0 else proto3_default eenv d m f p"
  have wf: "(if ?absent then ([], True) else wire_tagged f ?v) = (bs, True)"
    using w(1) ok(2) pf(1) by (simp add: wire_field_def Let_def pb_htypes pb_atypes split: if_splits)
  show ?thesis
  proof (cases ?absent)
    case True
    then have "proto3_default eenv d m f p" using ok(2) by (auto simp: proto3_default.simps Let_def pb_htypes split: if_splits)
    then have "same_field T (same_message T d) m (d_mem st) f p q" by (rule absent_field [OF nt pf0 _ st(3)])
    moreover have "bs = []" using wf unfolding if_P [OF True] by simp
    then have "d_in st = ibuf ys rest e" using st(1) by simp
    ultimately show ?thesis using loops_to_same st(2)
      by (intro exI [of _ "d_mem st"] exI [of _ "d_iter st"]) (simp del: pb_dec.update_convs)
  next
    case False
    then have en: "entries m f p = [p]" using ok(2) by (auto simp: entries_def Let_def pb_htypes split: if_splits)
    have "wire_tagged f ?v = (bs, True)" using wf False by presburger
    then obtain vs where vs: "?v = (vs, True)" "bs = leb (8 * f_tag f + wire_type_of (PB_LTYPE (f_type f))) @ vs"
      using wire_taggedD by blast
    have "value_bytes T d eenv m f p vs" using vs w(2) p ends en by (simp add: value_bytes_def)
    from loop_step [OF tab i f takes_optional [OF ok(1) this ok(2) en] wire_type_less]
    show ?thesis using vs(2) st by simp
  qed
qed

lemma table_iters_nth:
  "i < length (table_iters fs 0) \<Longrightarrow> it_field (table_iters fs q ! i) = it_field (table_iters fs 0 ! i)"
  "i < length (table_iters fs 0) \<Longrightarrow> it_pData (table_iters fs q ! i) = q + it_pData (table_iters fs 0 ! i)"
  unfolding shift_table_iters [of fs q] by simp_all

lemma loop_field:
  assumes tab: "proto3_table T (Suc d) fs sz" and i: "i < length (table_iters fs 0)"
    and f: "f = it_field (table_iters fs 0 ! i)" "p = p' + it_pData (table_iters fs 0 ! i)" "q = q' + it_pData (table_iters fs 0 ! i)"
    and ok: "reads_messages T d eenv m dec" "n_table eenv = T" "e_table env = T" "strings_end T (Suc d) fs m p'" "0 < p'"
    and w: "wire_field eenv d (wire_message eenv d m) m f p = (bs, True)" "length bs < 2 ^ 32"
    and st: "d_in st = ibuf (bs @ ys) rest e" "d_iter st \<in> set (table_iters fs q')"
      "fresh_field T (fresh_message T d) (d_mem st) f q"
  shows "\<exists>M it. it \<in> set (table_iters fs q') \<and> loops_to env n dec st (st\<lparr>d_in := ibuf ys rest e, d_mem := M, d_iter := it\<rparr>) \<and>
     frame (place_lo f q) (place_hi f q) (d_mem st) M \<and> same_field T (same_message T d) m M f p q"
proof -
  have i': "i < length (table_iters fs q')" "i < length (table_iters fs p')" using i length_table_iters by metis+
  have fq: "f = it_field (table_iters fs q' ! i)" "q = it_pData (table_iters fs q' ! i)"
    and fp: "f = it_field (table_iters fs p' ! i)" "p = it_pData (table_iters fs p' ! i)"
    using table_iters_nth [OF i, of q'] table_iters_nth [OF i, of p'] f by simp_all
  have pf: "proto3_field T (proto3_table T d) f" using proto3_at(1) [OF tab i'(1)] by (simp add: fq)
  then have r: "readable T d env eenv dec m f" using ok by (simp add: readable_def)
  have p: "0 < p" using proto3_at(2) [OF tab i'(2), folded fp] place_size(2) [OF pf, of p] ok(5) by simp
  have "table_iters fs 0 ! i \<in> set (table_iters fs 0)" using i by simp
  from bspec [OF ok(4) [unfolded strings_end.simps] this]
  have ends: "value_end T (strings_end T d) m f x" if "x \<in> set (entries m f p)" for x
    using that unfolding value_end_def f(1,2) by blast
  show ?thesis
  proof (cases "PB_HTYPE (f_type f) = PB_HTYPE_REPEATED")
    case True
    show ?thesis by (rule loop_repeated [OF tab i'(1) fq r True ends p w st])
  next
    case False
    show ?thesis by (rule loop_optional [OF tab i'(1) fq r proto3_fieldD(5) [OF pf False] ends p w st])
  qed
qed

lemma loop_fields:
  fixes q' :: int
  assumes tab: "proto3_table T (Suc d) fs sz"
    and ok: "reads_messages T d eenv m dec" "n_table eenv = T" "e_table env = T" "strings_end T (Suc d) fs m p'" "0 < p'"
  defines "L \<equiv> table_iters fs 0"
  defines "wire \<equiv> \<lambda>it. wire_field eenv d (wire_message eenv d m) m (it_field it) (p' + it_pData it)"
    and "fresh \<equiv> \<lambda>M it. fresh_field T (fresh_message T d) M (it_field it) (q' + it_pData it)"
    and "same \<equiv> \<lambda>M it. same_field T (same_message T d) m M (it_field it) (p' + it_pData it) (q' + it_pData it)"
  shows "k \<le> length L \<Longrightarrow> w_concat (map wire (drop k L)) = (bs, True) \<Longrightarrow> length bs < 2 ^ 32 \<Longrightarrow>
    d_in st = ibuf bs rest e \<Longrightarrow> d_iter st \<in> set (table_iters fs q') \<Longrightarrow>
    (\<And>j. k \<le> j \<Longrightarrow> j < length L \<Longrightarrow> fresh (d_mem st) (L ! j)) \<Longrightarrow> (\<And>j. j < k \<Longrightarrow> same (d_mem st) (L ! j)) \<Longrightarrow>
    \<exists>M it. it \<in> set (table_iters fs q') \<and> loops_to env n dec st (st\<lparr>d_in := ibuf [] rest e, d_mem := M, d_iter := it\<rparr>) \<and>
      frame q' (q' + int sz) (d_mem st) M \<and> (\<forall>j<length L. same M (L ! j))"
proof (induction "length L - k" arbitrary: k bs st)
  case 0
  then have "k = length L" "bs = []" by simp_all
  then show ?case using 0 loops_to_same [of st "ibuf [] rest e" env n dec]
    by (intro exI [of _ "d_mem st"] exI [of _ "d_iter st"]) (simp del: pb_dec.update_convs)
next
  case (Suc x)
  then have k: "k < length L" by simp
  have len: "length (table_iters fs q') = length L" unfolding L_def by (rule length_table_iters)
  have k': "k < length (table_iters fs q')" using k len by simp
  have "drop k L = L ! k # drop (Suc k) L" using k by (simp add: Cons_nth_drop_Suc)
  then obtain as ds where w: "wire (L ! k) = (as, True)" "w_concat (map wire (drop (Suc k) L)) = (ds, True)" "bs = as @ ds"
    using Suc.prems(2) by (auto dest: w_seqD)
  have "fresh (d_mem st) (L ! k)" using Suc.prems(6) k by simp
  with loop_field [OF tab k [unfolded L_def] refl refl refl ok w(1) [unfolded wire_def L_def], of st ds rest e q' n]
  obtain M it where M: "it \<in> set (table_iters fs q')"
    "loops_to env n dec st (st\<lparr>d_in := ibuf ds rest e, d_mem := M, d_iter := it\<rparr>)"
    "frame (place_lo (it_field (L ! k)) (q' + it_pData (L ! k))) (place_hi (it_field (L ! k)) (q' + it_pData (L ! k))) (d_mem st) M"
    "same M (L ! k)"
    using Suc.prems(3-5) w(3) unfolding fresh_def same_def L_def by auto
  let ?st = "st\<lparr>d_in := ibuf ds rest e, d_mem := M, d_iter := it\<rparr>"
  have fr: "frame (field_lo (table_iters fs q' ! k)) (field_hi (table_iters fs q' ! k)) (d_mem st) M"
    using M(3) table_iters_nth [OF k [unfolded L_def], of q'] by (simp add: L_def)
  have ag: "agree (place_lo (it_field (L ! j)) (q' + it_pData (L ! j))) (place_hi (it_field (L ! j)) (q' + it_pData (L ! j))) (d_mem st) M"
    if "j < length L" "j \<noteq> k" for j
    using proto3_disjoint [OF tab k' _ _ fr, of j] that len table_iters_nth [of j fs q'] by (simp add: L_def)
  have pf: "proto3_field T (proto3_table T d) (it_field (L ! j))" if "j < length L" for j
    using proto3_at(1) [OF tab, of j 0] that by (simp add: L_def)
  have F: "fresh M (L ! j)" if "Suc k \<le> j" "j < length L" for j
    unfolding fresh_def
    by (rule fresh_field_agree [OF pf ag fresh_message_agree]) (use Suc.prems(6) that in \<open>simp_all add: fresh_def\<close>)
  have S: "same M (L ! j)" if "j < Suc k" for j
  proof (cases "j = k")
    case False
    show ?thesis unfolding same_def
      by (rule same_field_agree [OF pf ag same_message_agree]) (use Suc.prems(7) that False k in \<open>simp_all add: same_def\<close>)
  qed (use M(4) in simp)
  have "x = length L - Suc k" using Suc.hyps(2) by simp
  from Suc.hyps(1) [OF this _ w(2), of ?st] obtain M' it' where M': "it' \<in> set (table_iters fs q')"
    "loops_to env n dec ?st (st\<lparr>d_in := ibuf [] rest e, d_mem := M', d_iter := it'\<rparr>)"
    "frame q' (q' + int sz) M M'" "\<forall>j<length L. same M' (L ! j)"
    using k w(3) Suc.prems(3) M(1) F S by auto
  have "frame q' (q' + int sz) (d_mem st) M" by (rule frame_mono [OF fr proto3_at(2,3) [OF tab k']])
  then show ?case using loops_to_trans [OF M(2) M'(2)] frame_trans [OF _ M'(3)] M'(1,4)
    by (intro exI [of _ M'] exI [of _ it']) simp
qed

section \<open>Messages\<close>

text \<open>No field is required, so none can be missing.\<close>

lemma seek_end_at:
  assumes "seek_end n it = Some (c, t, it')" and "it \<in> set (table_iters fs q)"
  shows "\<exists>i\<in>set (table_iters fs q). c = it_required_field_index i \<and> t = f_type (it_field i)"
  using assms
proof (induction n arbitrary: it)
  case (Suc n)
  show ?case
  proof (cases "pb_field_iter_next it")
    case (Pair b it1)
    show ?thesis
    proof (cases b)
      case True
      obtain j where j: "j < length (table_iters fs q)" "it = table_iters fs q ! j"
        using Suc.prems(2) by (auto simp: in_set_conv_nth)
      then have "it1 \<in> set (table_iters fs q)"
        using table_iters_step(4,5) [OF j(1)] Pair True j by (cases "Suc j < length (table_iters fs q)") auto
      then show ?thesis using Suc Pair True by simp
    qed (use Suc.prems Pair in auto)
  qed
qed simp

lemma check_required_proto3:
  assumes "proto3_table T (Suc d) fs sz" and "d_iter st \<in> set (table_iters fs q)"
  shows "\<exists>it. check_required initial_loop st = Some (True, st\<lparr>d_iter := it\<rparr>)"
proof -
  obtain j where j: "j < length (table_iters fs q)" "d_iter st = table_iters fs q ! j"
    using assms(2) by (auto simp: in_set_conv_nth)
  then have "valid_iter fs q (d_iter st)" using valid_iter_nth by simp
  then obtain c t it where it: "seek_end (Suc (length (it_start (d_iter st)))) (d_iter st) = Some (c, t, it)"
    using seek_end_valid by blast
  obtain i where i: "i < length (table_iters fs q)" "c = it_required_field_index (table_iters fs q ! i)"
    "t = f_type (it_field (table_iters fs q ! i))"
    using seek_end_at [OF it assms(2)] by (auto simp: in_set_conv_nth)
  have "c = 0" "PB_HTYPE t \<noteq> PB_HTYPE_REQUIRED"
    using i proto3_at(5) [OF assms(1) i(1)] proto3_fieldD(5) [OF proto3_at(1) [OF assms(1) i(1)]]
    by (auto simp: pb_htypes)
  moreover have "required_seen [0, 0] 0" by (simp add: required_seen_def)
  ultimately show ?thesis using it
    by (intro exI [of _ it]) (simp add: check_required_def d_done_def initial_loop_def del: seek_end.simps)
qed

lemma fields_read:
  fixes env :: "'s pb_env" and eenv :: "'t pb_enc_env"
  assumes tab: "proto3_table T (Suc d) fs sz"
    and ok: "reads_messages T d eenv m dec" "n_table eenv = T" "e_table env = T" "strings_end T (Suc d) fs m p" "0 < p"
    and w: "wire_message eenv (Suc d) m fs p = (bs, True)" "length bs < 2 ^ 32"
  shows "takes_all I (decode_fields env n dec fs q) bs q (q + int sz) (\<lambda>M. fresh_message T (Suc d) fs M q)
    (\<lambda>M. same_message T (Suc d) fs m p M q)"
proof (rule takes_allI)
  fix st :: "'s pb_dec" and rest e
  assume st: "d_in st = ibuf bs rest e" and fresh: "fresh_message T (Suc d) fs (d_mem st) q"
  let ?it = "snd (pb_field_iter_begin fs q)"
  let ?st = "st\<lparr>d_iter := ?it, d_fixed := 0\<rparr>"
  let ?wire = "\<lambda>it. wire_field eenv d (wire_message eenv d m) m (it_field it) (p + it_pData it)"
  have it: "?it \<in> set (table_iters fs q)"
    using table_iters_nonempty [of fs q] by (metis nth_mem table_iters_0)
  have "f_tag (field_at fs 0) \<noteq> 0"
    using proto3_fieldD(2) [OF proto3_at(1) [OF tab table_iters_nonempty [of fs 0]]]
    by (simp add: table_iters_0 it_field_def)
  then have cat: "w_concat (map ?wire (drop 0 (table_iters fs 0))) = (bs, True)"
    using w(1) unfolding wire_message.simps shift_table_iters [of fs p] by (simp add: o_def add.commute)
  have nth: "table_iters fs 0 ! j \<in> set (table_iters fs 0)" if "j < length (table_iters fs 0)" for j
    using that by simp
  obtain M it' where M: "it' \<in> set (table_iters fs q)"
    "loops_to env n dec ?st (?st\<lparr>d_in := ibuf [] rest e, d_mem := M, d_iter := it'\<rparr>)"
    "frame q (q + int sz) (d_mem st) M"
    "\<forall>j<length (table_iters fs 0). same_field T (same_message T d) m M (it_field (table_iters fs 0 ! j))
        (p + it_pData (table_iters fs 0 ! j)) (q + it_pData (table_iters fs 0 ! j))"
    using loop_fields [OF tab ok _ cat w(2), of ?st rest e q n] st it fresh nth by auto
  let ?st1 = "?st\<lparr>d_in := ibuf [] rest e, d_mem := M, d_iter := it'\<rparr>"
  obtain k where k: "decode_loop env n dec (Suc (is_bytes_left (d_in st))) initial_loop ?st =
      decode_loop env n dec k initial_loop ?st1" "0 < k"
    using M(2) [unfolded loops_to_def, rule_format, of "Suc (is_bytes_left (d_in st))"] by auto
  then have loop: "decode_loop env n dec (Suc (is_bytes_left (d_in st))) initial_loop ?st = Some (initial_loop, True, ?st1)"
    by (cases k) (simp_all del: decode_loop.simps(2), simp add: decode_loop.simps(2))
  obtain it2 where "check_required initial_loop ?st1 = Some (True, ?st1\<lparr>d_iter := it2\<rparr>)"
    using check_required_proto3 [OF tab, of ?st1 q] M(1) by auto
  moreover have "\<not> fixed_count_bad initial_loop ?st1" by (simp add: fixed_count_bad_def initial_loop_def)
  moreover have "(?st1\<lparr>d_iter := it2\<rparr>)\<lparr>d_iter := d_iter st, d_fixed := d_fixed st\<rparr> = st\<lparr>d_in := ibuf [] rest e, d_mem := M\<rparr>"
    by (cases st) simp
  ultimately have "decode_fields env n dec fs q st = Some (True, st\<lparr>d_in := ibuf [] rest e, d_mem := M\<rparr>)"
    unfolding decode_fields_def Let_def loop by simp
  moreover have "same_message T (Suc d) fs m p M q"
    using M(4) by (auto simp: in_set_conv_nth)
  ultimately show "\<exists>M. decode_fields env n dec fs q st = Some (True, st\<lparr>d_in := ibuf [] rest e, d_mem := M\<rparr>) \<and>
      frame q (q + int sz) (d_mem st) M \<and> same_message T (Suc d) fs m p M q"
    using M(3) by blast
qed

lemma messages_read:
  fixes env :: "'s pb_env" and eenv :: "'t pb_enc_env"
  assumes "n_table eenv = T" and "e_table env = T"
  shows "2 * d < n \<Longrightarrow> reads_messages T d eenv m (decode_message env n)"
proof (induction d arbitrary: n)
  case 0
  then show ?case by (simp add: reads_messages_def)
next
  case (Suc d)
  then obtain k where n: "n = Suc k" "2 * d < k" "2 * Suc d \<le> k" by (cases n) auto
  show ?case unfolding reads_messages_def
  proof (intro allI impI takes_allI)
    fix fs sz p bs q init and st :: "'s pb_dec" and rest e
    assume tab: "proto3_table T (Suc d) fs sz" and w: "wire_message eenv (Suc d) m fs p = (bs, True)" "length bs < 2 ^ 32"
      and p: "strings_end T (Suc d) fs m p" "0 < p"
      and st: "d_in st = ibuf bs rest e" "init \<or> fresh_message T (Suc d) fs (d_mem st) q"
    obtain M0 where M0: "(if init then pb_message_set_to_defaults env k fs q (d_mem st) else Some (d_mem st)) = Some M0"
      "frame q (q + int sz) (d_mem st) M0" "fresh_message T (Suc d) fs M0 q"
      using fresh_defaults [OF assms(2) [symmetric] tab n(3), of q "d_mem st"] st(2) by (cases init) auto
    have fields: "takes_all (\<lambda>_. True) (decode_fields env k (decode_message env k) fs q) bs q (q + int sz)
        (\<lambda>M. fresh_message T (Suc d) fs M q) (\<lambda>M. same_message T (Suc d) fs m p M q)"
      by (rule fields_read [OF tab Suc.IH [OF n(2)] assms p w])
    obtain M where M: "decode_fields env k (decode_message env k) fs q (st\<lparr>d_mem := M0\<rparr>) =
        Some (True, st\<lparr>d_mem := M0\<rparr>\<lparr>d_in := ibuf [] rest e, d_mem := M\<rparr>)" "frame q (q + int sz) M0 M"
      "same_message T (Suc d) fs m p M q"
      by (rule takes_allE [OF fields, of "st\<lparr>d_mem := M0\<rparr>" rest e])
        (use st M0(3) in simp_all)
    have "decode_message env n init fs q st = Some (True, st\<lparr>d_in := ibuf [] rest e, d_mem := M\<rparr>)"
      unfolding n(1) decode_message.simps M0(1) using M(1) by (simp add: d_dec_commute)
    then show "\<exists>M. decode_message env n init fs q st = Some (True, st\<lparr>d_in := ibuf [] rest e, d_mem := M\<rparr>) \<and>
        frame q (q + int sz) (d_mem st) M \<and> same_message T (Suc d) fs m p M q"
      using M(3) frame_trans [OF M0(2) M(2)] by blast
  qed
qed

lemma proto3_plain:
  assumes "n_table eenv = T"
  shows "proto3_table T d fs sz \<Longrightarrow> plain_table eenv d fs"
proof (induction d arbitrary: fs sz)
  case (Suc d)
  have "plain_field eenv (plain_table eenv d) (it_field it)" if "it \<in> set (table_iters fs 0)" for it
  proof -
    note pf = proto3_fieldD [OF proto3_tableD(3) [OF Suc.prems that]]
    have "PB_HTYPE (f_type (it_field it)) \<noteq> PB_HTYPE_ONEOF" using pf(5) by (auto simp: pb_htypes)
    moreover have "f_tag (it_field it) < 2 ^ 32" using pf(3) by simp
    ultimately show ?thesis using pf(1,13,15) Suc.IH assms unfolding plain_field_def Let_def by blast
  qed
  then show ?case by simp
qed simp

text \<open>C14: for every table of static proto3 fields, singular or repeated, packed or not, of any
  type and with messages nested to any depth, what the encoder writes to a buffer with room for
  it the decoder reads back, \<open>pb_encode\<close> with \<open>pb_decode\<close> and \<open>pb_encode_delimited\<close> with
  \<open>pb_decode_delimited\<close>. Both return true; the decoder takes all the bytes and changes
  nothing outside of the message at \<open>dest\<close>; and the message there has the contents of the one
  at \<open>src\<close>, whatever was in the memory before: the same fields are set, the arrays have the
  same counts, and every number, string, byte array and nested message is the same. The strings
  must end within their arrays, for the decoder rejects a string that fills its array, which
  the encoder writes.\<close>

theorem pb_message_roundtrip:
  assumes "proto3_table (e_table env) d fs sz" and "n_table eenv = e_table env"
    and "strings_end (e_table env) d fs m src" and "0 < src"
    and "wire_message eenv d m fs src = (bs, True)" and "length bs < 2 ^ 32"
    and "d < n" and "2 * d < k"
    and "(enc, dec, out) \<in> {(pb_encode eenv n fs src, pb_decode env k fs dest, bs),
      (pb_encode_delimited eenv n fs src, pb_decode_delimited env k fs dest, leb (length bs) @ bs)}"
    and "length out \<le> room"
  shows "\<exists>s M. enc (pb_ostream_from_buffer room) m = Some (True, s, m) \<and> os_state s = BufSink out \<and>
    dec (pb_istream_from_buffer out (length out)) m0 = Some (True, ibuf [] [] None, M) \<and>
    frame dest (dest + int sz) m0 M \<and> same_message (e_table env) d fs m src M dest"
proof -
  note msg = enc_emits_message [OF proto3_plain [OF assms(2,1)] assms(7), of src m, unfolded assms(5)]
  have "length (leb (length bs)) \<le> 10" using assms(6) by (intro leb_length_10) (simp add: SIZE_MAX_def)
  then have len: "length (fst (bs, True)) \<le> SIZE_MAX" "length (fst (w_len (bs, True))) \<le> SIZE_MAX"
    using assms(6) by (simp_all add: SIZE_MAX_def w_len_def)
  have all: "takes_all (\<lambda>_. True) (decode_message env k True fs dest) bs dest (dest + int sz)
      (\<lambda>M. True \<or> fresh_message (e_table env) d fs M dest) (\<lambda>M. same_message (e_table env) d fs m src M dest)"
    using messages_read [OF assms(2) refl assms(8), of m] assms(1,3-6) unfolding reads_messages_def by blast
  let ?st = "\<lambda>xs. \<lparr>d_in = ibuf xs [] None, d_mem = m0, d_iter = snd (pb_field_iter_begin [] 0), d_fixed = 0\<rparr> :: 'a pb_dec"
  consider "enc = pb_encode eenv n fs src" "dec = pb_decode env k fs dest" "out = bs"
    | "enc = pb_encode_delimited eenv n fs src" "dec = pb_decode_delimited env k fs dest" "out = leb (length bs) @ bs"
    using assms(9) by auto
  then show ?thesis
  proof cases
    case 1
    obtain s where s: "pb_encode eenv n fs src (pb_ostream_from_buffer room) m = Some (True, s, m)" "os_state s = BufSink bs"
      using enc_emits_run [OF msg len(1), of room] assms(10) 1(3) by (auto simp: pb_encode_def)
    obtain M where "decode_message env k True fs dest (?st bs) = Some (True, ?st bs\<lparr>d_in := ibuf [] [] None, d_mem := M\<rparr>)"
      "frame dest (dest + int sz) m0 M" "same_message (e_table env) d fs m src M dest"
      by (rule takes_allE [OF all, of "?st bs" "[]" None]) simp_all
    then show ?thesis using s 1 by (simp add: pb_decode_def run_decode_def pb_istream_from_buffer_ibuf)
  next
    case 2
    note sub = enc_emits_submessage [where enc = "encode_message eenv n" and fs = fs and p = src and env = eenv, OF msg]
    obtain s where s: "pb_encode_delimited eenv n fs src (pb_ostream_from_buffer room) m = Some (True, s, m)" "os_state s = BufSink out"
      using enc_emits_run [OF sub len(2), of room] assms(10) 2(3) by (auto simp: pb_encode_delimited_def w_len_def)
    have "takes (\<lambda>_. True) (decode_delimited env k True fs dest) (leb (length bs) @ bs) dest (dest + int sz)
        (\<lambda>M. True \<or> fresh_message (e_table env) d fs M dest) (\<lambda>M. same_message (e_table env) d fs m src M dest)"
      unfolding decode_delimited_def by (rule takes_substream [OF all assms(6)]) simp
    then obtain M where "decode_delimited env k True fs dest (?st out) = Some (True, ?st out\<lparr>d_in := ibuf [] [] None, d_mem := M\<rparr>)"
      "frame dest (dest + int sz) m0 M" "same_message (e_table env) d fs m src M dest"
      by (rule takesE [of _ _ _ _ _ _ _ "?st out" "[]" "[]" None]) (simp_all add: 2(3))
    then show ?thesis using s unfolding 2(1,2) pb_istream_from_buffer_ibuf
      by (simp add: pb_decode_delimited_def run_decode_def)
  qed
qed

definition round_fields :: "pb_field list" where
  "round_fields =
     [\<lparr>f_tag = 1, f_type = 0x10, f_data_offset = 0, f_size_offset = 0, f_data_size = 4,
       f_array_size = 0, f_ptr = 0\<rparr>,
      \<lparr>f_tag = 2, f_type = 0x21, f_data_offset = 4, f_size_offset = - 4, f_data_size = 4,
       f_array_size = 3, f_ptr = 0\<rparr>,
      \<lparr>f_tag = 3, f_type = 0x17, f_data_offset = 4, f_size_offset = - 4, f_data_size = 4,
       f_array_size = 0, f_ptr = 64\<rparr>,
      \<lparr>f_tag = 4, f_type = 0x16, f_data_offset = 0, f_size_offset = 0, f_data_size = 4,
       f_array_size = 0, f_ptr = 0\<rparr>]"

definition round_sub_fields :: "pb_field list" where
  "round_sub_fields =
     [\<lparr>f_tag = 1, f_type = 0x12, f_data_offset = 0, f_size_offset = 0, f_data_size = 4,
       f_array_size = 0, f_ptr = 0\<rparr>]"

definition round_table :: pb_tables where
  "round_table p = (if p = 64 then round_sub_fields else [])"

definition round_message :: pb_mem where
  "round_message = mem_write (\<lambda>_. 0) 1000
     [5, 0, 0, 0, 3, 0, 0, 0, 1, 0, 0, 0, 2, 0, 0, 0, 3, 0, 0, 0, 1, 0, 0, 0, 7, 0, 0, 0, 104, 105, 0, 0]"

lemma round_demo:
  "proto3_table round_table 2 round_fields 32"
  "strings_end round_table 2 round_fields round_message 1000"
  "wire_message (demo_enc_env\<lparr>n_table := round_table\<rparr>) 2 round_message round_fields 1000 =
     ([8, 5, 18, 3, 1, 2, 3, 26, 2, 8, 14, 34, 2, 104, 105], True)"
  by code_simp+

theorem pb_message_roundtrip_witness:
  "\<exists>s M. pb_encode (demo_enc_env\<lparr>n_table := round_table\<rparr>) 3 round_fields 1000 (pb_ostream_from_buffer 15) round_message =
      Some (True, s, round_message) \<and>
    os_state s = BufSink [8, 5, 18, 3, 1, 2, 3, 26, 2, 8, 14, 34, 2, 104, 105] \<and>
    pb_decode (demo_env\<lparr>e_table := round_table\<rparr>) 5 round_fields 2000
      (pb_istream_from_buffer [8, 5, 18, 3, 1, 2, 3, 26, 2, 8, 14, 34, 2, 104, 105]
        (length [8, 5, 18, 3, 1, 2, 3, 26, 2, 8, 14, 34, 2, 104, 105 :: u8])) (\<lambda>_. 0xFF) =
      Some (True, ibuf [] [] None, M) \<and>
    same_message round_table 2 round_fields round_message 1000 M 2000"
proof -
  let ?bs = "[8, 5, 18, 3, 1, 2, 3, 26, 2, 8, 14, 34, 2, 104, 105] :: u8 list"
  let ?env = "demo_env\<lparr>e_table := round_table\<rparr>" and ?eenv = "demo_enc_env\<lparr>n_table := round_table\<rparr>"
  show ?thesis
    using pb_message_roundtrip [of ?env 2 round_fields 32 ?eenv round_message 1000 ?bs 3 5
        "pb_encode ?eenv 3 round_fields 1000" "pb_decode ?env 5 round_fields 2000" ?bs 2000 15 "\<lambda>_. 0xFF"]
    by (simp add: round_demo) blast
qed

section \<open>Strings that fill their array\<close>

lemma c_strnlen_full: "(\<And>i. i < n \<Longrightarrow> m (p + int i) \<noteq> 0) \<Longrightarrow> c_strnlen m p n = n"
proof (induction n arbitrary: p)
  case (Suc n)
  have "m (p + 1 + int i) \<noteq> 0" if "i < n" for i using Suc.prems [of "Suc i"] that by (simp add: add.assoc)
  then show ?case using Suc.IH [of "p + 1"] Suc.prems [of 0] by simp
qed simp

text \<open>C20: a string that fills its array and has no terminator is written by the encoder, as if
  it were a good one: \<open>PB_ENCODERS\<close> succeeds on any stream with room, a sizing stream or a
  buffer, and puts the length and all the bytes of the array there. These very bytes are
  refused by the decoder of the very same field, which wants room for the terminator:
  \<open>string overflow\<close>, with no memory changed.\<close>

theorem pb_full_string_refused:
  assumes "PB_ATYPE (f_type f) = PB_ATYPE_STATIC" and "PB_LTYPE (f_type f) = PB_LTYPE_STRING" and "p \<noteq> 0"
    and "f_data_size f < 2 ^ 32 - 1" and "\<forall>i<f_data_size f. m (p + int i) \<noteq> 0"
    and "bytes = leb (f_data_size f) @ mem_read m p (f_data_size f)"
    and "os_plain out" and "os_errmsg out = None" and "os_fits out (length bytes)"
    and "os_bytes_written out + length bytes \<le> SIZE_MAX"
    and "d_in st = ibuf (bytes @ ys) rest None"
  shows "PB_ENCODERS eenv enc f p \<lparr>c_out = out, c_mem = m\<rparr> = Some (True, \<lparr>c_out = os_put out bytes, c_mem = m\<rparr>) \<and>
    (\<exists>st'. PB_DECODERS env dec f q st = Some (False, st') \<and> is_errmsg (d_in st') = Some ''string overflow'' \<and>
       d_mem st' = d_mem st)"
proof
  let ?n = "f_data_size f"
  have n: "c_strnlen m p ?n = ?n" by (rule c_strnlen_full) (use assms(5) in simp)
  have "enc_emits (PB_ENCODERS eenv enc f p) m (wire_string (mem_read m p ?n))"
    by (rule enc_emits_cong, rule enc_emits_string [OF refl])
      (use assms(2,3) n static_not_pointer [OF assms(1)] in
        \<open>simp add: PB_ENCODERS_def pb_ltypes pb_enc_string_def Let_def\<close>)
  then have "enc_emits (PB_ENCODERS eenv enc f p) m (bytes, True)"
    using assms(4,6) by (simp add: wire_string_def w_len_def)
  from this assms(7,8) obtain ok out' where
    "PB_ENCODERS eenv enc f p \<lparr>c_out = out, c_mem = m\<rparr> = Some (ok, \<lparr>c_out = out', c_mem = m\<rparr>)"
    "if os_fits out (length bytes) then ok \<and> out' = os_put out bytes else \<not> ok \<and> os_part out out' bytes"
    by (rule enc_emitsE [where w = "(bytes, True)", unfolded fst_conv snd_conv simp_thms]) (rule assms(10), blast)
  then show "PB_ENCODERS eenv enc f p \<lparr>c_out = out, c_mem = m\<rparr> = Some (True, \<lparr>c_out = os_put out bytes, c_mem = m\<rparr>)"
    using assms(9) by simp
  have w: "unat (of_nat ?n :: u32) = ?n" "unat (of_nat ?n + 1 :: u32) = ?n + 1"
    using assms(4) unat_u32 [of ?n] unat_u32 [of "?n + 1"] by (simp_all add: add.commute)
  have "pb_decode_varint32 (e_read env) (d_in st) = (Some (of_nat ?n), ibuf (mem_read m p ?n @ ys) rest None)"
    unfolding assms(11) assms(6) append_assoc using assms(4) by (intro pb_decode_varint32_leb) simp
  then show "\<exists>st'. PB_DECODERS env dec f q st = Some (False, st') \<and> is_errmsg (d_in st') = Some ''string overflow'' \<and>
       d_mem st' = d_mem st"
    using assms(1,2) w static_not_pointer [OF assms(1)]
    by (simp add: PB_DECODERS_def pb_ltypes pb_dec_string_def d_get_def Let_def d_fail_def is_fail_def ibuf_def)
qed

theorem pb_full_string_refused_witness:
  "(\<exists>out'. PB_ENCODERS demo_enc_env (\<lambda>_ _ _. None) (round_fields ! 3) 1000
      \<lparr>c_out = pb_ostream_from_buffer 5, c_mem = mem_write (\<lambda>_. 0) 1000 [116, 101, 120, 116]\<rparr> =
      Some (True, \<lparr>c_out = out', c_mem = mem_write (\<lambda>_. 0) 1000 [116, 101, 120, 116]\<rparr>)
      \<and> os_state out' = BufSink [4, 116, 101, 120, 116]) \<and>
   (\<exists>st'. PB_DECODERS demo_env (\<lambda>_ _ _ _. None) (round_fields ! 3) 2000
      \<lparr>d_in = ibuf [4, 116, 101, 120, 116] [] None, d_mem = \<lambda>_. 0, d_iter = snd (pb_field_iter_begin [] 0), d_fixed = 0\<rparr> =
      Some (False, st') \<and> is_errmsg (d_in st') = Some ''string overflow'')"
proof -
  let ?m = "mem_write (\<lambda>_. 0) 1000 [116, 101, 120, 116]" and ?f = "round_fields ! 3"
  let ?out = "pb_ostream_from_buffer 5 :: unit pb_ostream"
  let ?st = "\<lparr>d_in = ibuf [4, 116, 101, 120, 116] [] None, d_mem = \<lambda>_. 0,
      d_iter = snd (pb_field_iter_begin [] 0), d_fixed = 0\<rparr>"
  have f: "PB_ATYPE (f_type ?f) = PB_ATYPE_STATIC" "PB_LTYPE (f_type ?f) = PB_LTYPE_STRING" "f_data_size ?f = 4"
    "\<forall>i<4. ?m (1000 + int i) \<noteq> 0" "leb 4 @ mem_read ?m 1000 4 = [4, 116, 101, 120, 116]"
    by code_simp+
  have out: "os_plain ?out" "os_errmsg ?out = None" "os_fits ?out 5" "os_bytes_written ?out = 0"
    "os_state ?out = BufSink []"
    by (simp_all add: pb_ostream_from_buffer_def os_plain_def os_fits_def)
  have five: "length [4, 116, 101, 120, 116 :: u8] = 5" by simp
  have put: "os_state (os_put ?out bs) = BufSink bs" for bs using out(5) by (simp add: os_put_def)
  have fits: "os_fits ?out (length [4, 116, 101, 120, 116 :: u8])" unfolding five by (rule out(3))
  have written: "os_bytes_written ?out + length [4, 116, 101, 120, 116 :: u8] \<le> SIZE_MAX"
    unfolding five using out(4) by (simp add: SIZE_MAX_def)
  have inp: "d_in ?st = ibuf ([4, 116, 101, 120, 116] @ []) [] None" by simp
  have sz: "f_data_size ?f < 2 ^ 32 - 1" "\<forall>i<f_data_size ?f. ?m (1000 + int i) \<noteq> 0"
    "[4, 116, 101, 120, 116] = leb (f_data_size ?f) @ mem_read ?m 1000 (f_data_size ?f)"
    unfolding f(3) using f(4,5) by simp_all
  have "(1000 :: int) \<noteq> 0" by simp
  note at = pb_full_string_refused [OF f(1,2) this sz out(1,2) fits written inp, of demo_enc_env "\<lambda>_ _ _. None"
      demo_env "\<lambda>_ _ _ _. None" 2000]
  show ?thesis using at put by blast
qed

end
