(* ===== verification/BnWords.thy ===== *)
theory BnWords
  imports Prelude ConstTime
begin

text \<open>
  The word routines of the bignum code (\<open>crypto/fipsmodule/bn/generic.c\<close>, and the tail loops
  of \<open>add.c\<close>, \<open>shift.c\<close> and \<open>bn.c\<close> of the same shape). The build defines \<open>OPENSSL_NO_ASM\<close>, a
  \<open>BN_ULONG\<close> is 64 bits wide and a \<open>BN_ULLONG\<close> 128 bits.

  Word memory maps an array to its words, and a pointer into it is an array with an offset,
  so that operands which overlap the result are seen to overlap. A loop of the code that
  takes four words at a time and then the rest is written that way (\<open>words_loop4\<close>) and shown
  to be the plain loop; \<open>words_loop_carry\<close> then gives its effect for every overlap the code
  allows: the carry runs through the words the operands had at the start.
\<close>

type_synonym BN_ULONG = u64
type_synonym BN_ULLONG = "128 word"
type_synonym wmem = "nat \<Rightarrow> BN_ULONG list"
type_synonym wptr = "nat \<times> nat"

definition BN_BITS2 :: nat where "BN_BITS2 = 64"

definition Lw :: "BN_ULLONG \<Rightarrow> BN_ULONG" where "Lw t = ucast t"
definition Hw :: "BN_ULLONG \<Rightarrow> BN_ULONG" where "Hw t = ucast (drop_bit BN_BITS2 t)"

section \<open>Word memory\<close>

definition rd :: "wmem \<Rightarrow> wptr \<Rightarrow> nat \<Rightarrow> BN_ULONG" where
  "rd m p i = m (fst p) ! (snd p + i)"

definition wr :: "wmem \<Rightarrow> wptr \<Rightarrow> nat \<Rightarrow> BN_ULONG \<Rightarrow> wmem" where
  "wr m p i x = m(fst p := (m (fst p))[snd p + i := x])"

definition wadd :: "wptr \<Rightarrow> nat \<Rightarrow> wptr" where
  "wadd p k = (fst p, snd p + k)"

definition words_at :: "wmem \<Rightarrow> wptr \<Rightarrow> nat \<Rightarrow> BN_ULONG list" where
  "words_at m p n = take n (drop (snd p) (m (fst p)))"

definition words_put :: "wmem \<Rightarrow> wptr \<Rightarrow> BN_ULONG list \<Rightarrow> wmem" where
  "words_put m p xs = m(fst p := overwrite (m (fst p)) (snd p) xs)"

definition in_words :: "wmem \<Rightarrow> wptr \<Rightarrow> nat \<Rightarrow> bool" where
  "in_words m p n \<longleftrightarrow> snd p + n \<le> length (m (fst p))"

text \<open>Words written upwards from \<open>r\<close> are not read again through \<open>a\<close>: the arrays differ, or
  the result starts no later than the operand, or behind its end.\<close>

definition behind :: "wptr \<Rightarrow> wptr \<Rightarrow> nat \<Rightarrow> bool" where
  "behind r a n \<longleftrightarrow> fst r \<noteq> fst a \<or> snd r \<le> snd a \<or> snd a + n \<le> snd r"

section \<open>Loops\<close>

text \<open>\<open>k\<close> is how far the pointers have been advanced; \<open>n & ~3\<close>, the count without its two
  low bits, is tested as \<open>n div 4\<close>.\<close>

fun words_loop :: "(nat \<Rightarrow> 's \<Rightarrow> 's) \<Rightarrow> nat \<Rightarrow> nat \<Rightarrow> 's \<Rightarrow> 's" where
  "words_loop f k 0 s = s"
| "words_loop f k (Suc n) s = words_loop f (k + 1) n (f k s)"

fun words_loop4 :: "(nat \<Rightarrow> 's \<Rightarrow> 's) \<Rightarrow> nat \<Rightarrow> nat \<Rightarrow> 's \<Rightarrow> 's" where
  "words_loop4 f k n s =
     (if n div 4 \<noteq> 0
      then words_loop4 f (k + 4) (n - 4) (f (k + 3) (f (k + 2) (f (k + 1) (f k s))))
      else words_loop f k n s)"

text \<open>A pass that reads a word through each operand and the carry, and writes one word.\<close>

definition word_step ::
  "('c \<Rightarrow> BN_ULONG \<Rightarrow> BN_ULONG \<Rightarrow> BN_ULONG \<times> 'c) \<Rightarrow> wptr \<Rightarrow> wptr \<Rightarrow> wptr
    \<Rightarrow> nat \<Rightarrow> 'c \<times> wmem \<Rightarrow> 'c \<times> wmem" where
  "word_step g r a b k s =
     (let (x, c) = g (fst s) (rd (snd s) a k) (rd (snd s) b k) in (c, wr (snd s) r k x))"

declare words_loop4.simps [simp del]

section \<open>generic.c\<close>

definition mul_add_limb :: "BN_ULONG \<Rightarrow> BN_ULONG \<Rightarrow> BN_ULONG \<Rightarrow> BN_ULONG \<Rightarrow> BN_ULONG \<times> BN_ULONG" where
  "mul_add_limb w c r a =
     (let t = ucast w * ucast a + ucast r + ucast c :: BN_ULLONG in (Lw t, Hw t))"

definition mul_limb :: "BN_ULONG \<Rightarrow> BN_ULONG \<Rightarrow> BN_ULONG \<Rightarrow> BN_ULONG \<times> BN_ULONG" where
  "mul_limb w c a = (let t = ucast w * ucast a + ucast c :: BN_ULLONG in (Lw t, Hw t))"

definition sqr_limb :: "BN_ULONG \<Rightarrow> BN_ULONG \<times> BN_ULONG" where
  "sqr_limb a = (let t = ucast a * ucast a :: BN_ULLONG in (Lw t, Hw t))"

definition bn_mul_add_words ::
  "wptr \<Rightarrow> wptr \<Rightarrow> nat \<Rightarrow> BN_ULONG \<Rightarrow> wmem \<Rightarrow> BN_ULONG \<times> wmem" where
  "bn_mul_add_words rp ap num w m =
     (if num = 0 then (0, m)
      else words_loop4 (word_step (mul_add_limb w) rp rp ap) 0 num (0, m))"

definition bn_mul_words ::
  "wptr \<Rightarrow> wptr \<Rightarrow> nat \<Rightarrow> BN_ULONG \<Rightarrow> wmem \<Rightarrow> BN_ULONG \<times> wmem" where
  "bn_mul_words rp ap num w m =
     (if num = 0 then (0, m)
      else words_loop4 (word_step (\<lambda>c x y. mul_limb w c y) rp ap ap) 0 num (0, m))"

definition sqr_step :: "wptr \<Rightarrow> wptr \<Rightarrow> nat \<Rightarrow> wmem \<Rightarrow> wmem" where
  "sqr_step r a k m =
     (let (lo, hi) = sqr_limb (rd m a k) in wr (wr m r (2 * k) lo) r (2 * k + 1) hi)"

definition bn_sqr_words :: "wptr \<Rightarrow> wptr \<Rightarrow> nat \<Rightarrow> wmem \<Rightarrow> wmem" where
  "bn_sqr_words r a n m = (if n = 0 then m else words_loop4 (sqr_step r a) 0 n m)"

definition add_limb :: "BN_ULLONG \<Rightarrow> BN_ULONG \<Rightarrow> BN_ULONG \<Rightarrow> BN_ULONG \<times> BN_ULLONG" where
  "add_limb ll a b =
     (let ll = ll + (ucast a + ucast b) in (ucast ll, drop_bit BN_BITS2 ll))"

definition bn_add_words ::
  "wptr \<Rightarrow> wptr \<Rightarrow> wptr \<Rightarrow> nat \<Rightarrow> wmem \<Rightarrow> BN_ULONG \<times> wmem" where
  "bn_add_words r a b n m =
     (if n = 0 then (0, m)
      else let (ll, m) = words_loop4 (word_step add_limb r a b) 0 n (0, m) in (ucast ll, m))"

definition sub_limb :: "bool \<Rightarrow> BN_ULONG \<Rightarrow> BN_ULONG \<Rightarrow> BN_ULONG \<times> bool" where
  "sub_limb c t1 t2 = (t1 - t2 - of_bool c, if t1 \<noteq> t2 then t1 < t2 else c)"

definition bn_sub_words ::
  "wptr \<Rightarrow> wptr \<Rightarrow> wptr \<Rightarrow> nat \<Rightarrow> wmem \<Rightarrow> BN_ULONG \<times> wmem" where
  "bn_sub_words r a b n m =
     (if n = 0 then (0, m)
      else let (c, m) = words_loop4 (word_step sub_limb r a b) 0 n (False, m) in (of_bool c, m))"

text \<open>\<open>bn_select_words\<close> of \<open>bn.c\<close>.\<close>

definition bn_select_words ::
  "wptr \<Rightarrow> BN_ULONG \<Rightarrow> wptr \<Rightarrow> wptr \<Rightarrow> nat \<Rightarrow> wmem \<Rightarrow> wmem" where
  "bn_select_words r msk a b num m =
     snd (words_loop (word_step (\<lambda>c x y. (constant_time_select_w msk x y, ())) r a b) 0 num ((), m))"

section \<open>The value of a list of words\<close>

abbreviation BN_BASE :: nat where "BN_BASE \<equiv> 18446744073709551616"

fun words_val :: "BN_ULONG list \<Rightarrow> nat" where
  "words_val [] = 0"
| "words_val (w # ws) = unat w + BN_BASE * words_val ws"

lemma unat_lt_base [simp]: "unat (w :: BN_ULONG) < BN_BASE"
  using unsigned_less [of w, where ?'a = nat] by simp

lemma words_val_append: "words_val (xs @ ys) = words_val xs + BN_BASE ^ length xs * words_val ys"
  by (induction xs) (simp_all add: algebra_simps)

lemma words_val_replicate_0 [simp]: "words_val (replicate n 0) = 0"
  by (induction n) simp_all

lemma words_val_bound: "words_val xs < BN_BASE ^ length xs"
proof (induction xs)
  case (Cons x xs)
  have "unat x + BN_BASE * words_val xs < BN_BASE * (words_val xs + 1)"
    using unat_lt_base [of x] by (simp del: unat_lt_base)
  also have "\<dots> \<le> BN_BASE * BN_BASE ^ length xs" using Cons by (intro mult_le_mono2) simp
  finally show ?case by simp
qed simp

lemma words_val_zero_iff: "words_val xs = 0 \<longleftrightarrow> (\<forall>x \<in> set xs. x = 0)"
  by (induction xs) (auto simp: unat_eq_0)

lemma words_val_inject:
  "length xs = length ys \<Longrightarrow> words_val xs = words_val ys \<longleftrightarrow> xs = ys"
proof (induction xs ys rule: list_induct2)
  case (Cons x xs y ys)
  have "words_val (x # xs) = words_val (y # ys) \<longleftrightarrow> unat x = unat y \<and> words_val xs = words_val ys"
  proof
    assume e: "words_val (x # xs) = words_val (y # ys)"
    have "(unat x + BN_BASE * words_val xs) mod BN_BASE = unat x"
      and "(unat y + BN_BASE * words_val ys) mod BN_BASE = unat y" by simp_all
    with e have "unat x = unat y" by simp
    with e show "unat x = unat y \<and> words_val xs = words_val ys" by simp
  qed simp
  with Cons show ?case by (simp add: word_unat_eq_iff)
qed simp

lemma words_val_less_append:
  "words_val (xs @ ys) < BN_BASE ^ length xs \<longleftrightarrow> words_val ys = 0"
proof (cases "words_val ys")
  case 0
  then show ?thesis using words_val_bound [of xs] by (simp add: words_val_append)
qed (simp add: words_val_append)

section \<open>Memory\<close>

lemma length_words_at [simp]: "in_words m p n \<Longrightarrow> length (words_at m p n) = n"
  by (simp add: words_at_def in_words_def)

lemma words_at_0 [simp]: "words_at m p 0 = []"
  by (simp add: words_at_def)

lemma words_at_Suc:
  "in_words m p (Suc n) \<Longrightarrow> words_at m p (Suc n) = rd m p 0 # words_at m (wadd p (Suc 0)) n"
  by (simp add: words_at_def in_words_def rd_def wadd_def Cons_nth_drop_Suc [symmetric])

lemma rd_wadd: "rd m (wadd p k) i = rd m p (k + i)"
  by (simp add: rd_def wadd_def add.assoc)

lemma wr_wadd: "wr m (wadd p k) i x = wr m p (k + i) x"
  by (simp add: wr_def wadd_def add.assoc)

lemma wadd_wadd [simp]: "wadd (wadd p j) k = wadd p (j + k)"
  by (simp add: wadd_def add.assoc)

lemma wadd_0 [simp]: "wadd p 0 = p"
  by (simp add: wadd_def)

lemma words_put_Nil [simp]: "words_put m p [] = m"
  by (simp add: words_put_def overwrite_def)

lemma in_words_wr [simp]: "in_words (wr m q i x) p n = in_words m p n"
  by (simp add: in_words_def wr_def)

lemma words_at_wr:
  assumes "fst q \<noteq> fst p \<or> snd q + i < snd p \<or> snd p + n \<le> snd q + i"
  shows "words_at (wr m q i x) p n = words_at m p n"
  using assms by (auto simp: words_at_def wr_def drop_update_swap take_update_cancel)

lemma words_put_Cons:
  assumes "in_words m p (Suc (length xs))"
  shows "words_put (wr m p 0 x) (wadd p (Suc 0)) xs = words_put m p (x # xs)"
proof -
  from assms have "snd p < length (m (fst p))" by (simp add: in_words_def)
  then have "take (Suc (snd p)) ((m (fst p))[snd p := x]) = take (snd p) (m (fst p)) @ [x]"
    by (simp add: take_Suc_conv_app_nth)
  then show ?thesis by (auto simp: words_put_def wr_def wadd_def overwrite_def fun_eq_iff)
qed

lemma behind_step: "behind r a (Suc n) \<Longrightarrow> behind (wadd r (Suc 0)) (wadd a (Suc 0)) n"
  by (auto simp: behind_def wadd_def)

lemma in_words_step: "in_words m p (Suc n) \<Longrightarrow> in_words m (wadd p (Suc 0)) n"
  by (simp add: in_words_def wadd_def)

lemma words_at_write_behind:
  assumes "behind r a (Suc n)"
  shows "words_at (wr m r 0 x) (wadd a (Suc 0)) n = words_at m (wadd a (Suc 0)) n"
  by (rule words_at_wr) (use assms in \<open>auto simp: behind_def wadd_def\<close>)

section \<open>Loops as list functions\<close>

fun carry_map ::
  "('c \<Rightarrow> BN_ULONG \<Rightarrow> BN_ULONG \<Rightarrow> BN_ULONG \<times> 'c) \<Rightarrow> 'c \<Rightarrow> BN_ULONG list \<Rightarrow> BN_ULONG list
    \<Rightarrow> 'c \<times> BN_ULONG list" where
  "carry_map g c (x # xs) (y # ys) =
     (let (z, c1) = g c x y; (c2, zs) = carry_map g c1 xs ys in (c2, z # zs))"
| "carry_map g c _ _ = (c, [])"

lemma length_carry_map [simp]: "length (snd (carry_map g c xs ys)) = min (length xs) (length ys)"
  by (induction xs ys arbitrary: c rule: list_induct2') (simp_all add: Let_def split_beta)

lemma words_loop_add: "words_loop f k (i + j) s = words_loop f (k + i) j (words_loop f k i s)"
  by (induction i arbitrary: k s) simp_all

lemma words_loop4_loop: "words_loop4 f k n s = words_loop f k n s"
proof (induction f k n s rule: words_loop4.induct)
  case (1 f k n s)
  have four: "words_loop f k 4 s = f (k + 3) (f (k + 2) (f (k + 1) (f k s)))"
    by (simp add: numeral_eq_Suc)
  show ?case
  proof (cases "4 \<le> n")
    case True
    then have "n div 4 \<noteq> 0" by simp
    with 1 have "words_loop4 f k n s = words_loop f (k + 4) (n - 4) (words_loop f k 4 s)"
      by (subst words_loop4.simps) (simp only: if_True four not_False_eq_True)
    also have "\<dots> = words_loop f k (4 + (n - 4)) s" by (simp only: words_loop_add)
    finally show ?thesis using True by simp
  next
    case False
    then show ?thesis by (subst words_loop4.simps) simp
  qed
qed

lemma word_step_wadd: "word_step g r a b (Suc k) = word_step g (wadd r (Suc 0)) (wadd a (Suc 0)) (wadd b (Suc 0)) k"
  by (simp add: word_step_def rd_wadd wr_wadd fun_eq_iff split_beta)

lemma words_loop_step_shift:
  "words_loop (word_step g r a b) (Suc k) n s
   = words_loop (word_step g (wadd r (Suc 0)) (wadd a (Suc 0)) (wadd b (Suc 0))) k n s"
  by (induction n arbitrary: k s) (simp_all add: word_step_wadd)

text \<open>The pass over \<open>n\<close> words: the carry and the words written are those of the operands as
  they were before it, and only the \<open>n\<close> words of the result change.\<close>

lemma words_loop_carry:
  assumes "in_words m r n" and "in_words m a n" and "in_words m b n"
    and "behind r a n" and "behind r b n"
  shows "words_loop (word_step g r a b) 0 n (c, m)
    = (let (c', zs) = carry_map g c (words_at m a n) (words_at m b n) in (c', words_put m r zs))"
  using assms
proof (induction n arbitrary: c m r a b)
  case 0
  then show ?case by simp
next
  case (Suc n)
  obtain x c1 where g: "g c (rd m a 0) (rd m b 0) = (x, c1)" by fastforce
  let ?m = "wr m r 0 x"
  obtain c2 zs where cm: "carry_map g c1 (words_at m (wadd a (Suc 0)) n) (words_at m (wadd b (Suc 0)) n) = (c2, zs)"
    by fastforce
  have "length zs = n"
    using length_carry_map [of g c1 "words_at m (wadd a (Suc 0)) n" "words_at m (wadd b (Suc 0)) n"] Suc.prems
    by (simp add: cm in_words_step)
  then have put: "words_put ?m (wadd r (Suc 0)) zs = words_put m r (x # zs)"
    using Suc.prems(1) by (intro words_put_Cons) simp
  have "words_loop (word_step g r a b) 0 (Suc n) (c, m)
      = words_loop (word_step g (wadd r (Suc 0)) (wadd a (Suc 0)) (wadd b (Suc 0))) 0 n (c1, ?m)"
    by (simp add: words_loop_step_shift word_step_def [of g r a b] g)
  also have "\<dots> = (let (c', zs) = carry_map g c1 (words_at ?m (wadd a (Suc 0)) n) (words_at ?m (wadd b (Suc 0)) n)
                   in (c', words_put ?m (wadd r (Suc 0)) zs))"
    by (rule Suc.IH) (use Suc.prems in \<open>simp_all add: in_words_step behind_step\<close>)
  also have "words_at ?m (wadd a (Suc 0)) n = words_at m (wadd a (Suc 0)) n"
    using Suc.prems(4) by (rule words_at_write_behind)
  also have "words_at ?m (wadd b (Suc 0)) n = words_at m (wadd b (Suc 0)) n"
    using Suc.prems(5) by (rule words_at_write_behind)
  finally show ?case
    using Suc.prems by (simp add: words_at_Suc g cm put)
qed

section \<open>What the passes compute\<close>

text \<open>A pass whose step is linear in the two words, with the carry counted in the next word's
  place, is linear in the two numbers.\<close>

definition linear_step ::
  "('c \<Rightarrow> bool) \<Rightarrow> ('c \<Rightarrow> int) \<Rightarrow> int \<Rightarrow> int
    \<Rightarrow> ('c \<Rightarrow> BN_ULONG \<Rightarrow> BN_ULONG \<Rightarrow> BN_ULONG \<times> 'c) \<Rightarrow> bool" where
  "linear_step ok cv p q g \<longleftrightarrow> (\<forall>c x y z c'. ok c \<longrightarrow> g c x y = (z, c') \<longrightarrow>
      ok c' \<and> int (unat z) + int BN_BASE * cv c' = p * int (unat x) + q * int (unat y) + cv c)"

lemma carry_map_linear:
  assumes step: "linear_step ok cv p q g"
    and "length xs = length ys" and "ok c" and "carry_map g c xs ys = (c', zs)"
  shows "ok c' \<and> length zs = length xs
    \<and> int (words_val zs) + int BN_BASE ^ length xs * cv c'
        = p * int (words_val xs) + q * int (words_val ys) + cv c"
  using assms(2-4)
proof (induction xs ys arbitrary: c c' zs rule: list_induct2)
  case Nil
  then show ?case by simp
next
  case (Cons x xs y ys)
  obtain z c1 where g: "g c x y = (z, c1)" by fastforce
  obtain c2 ws where cm: "carry_map g c1 xs ys = (c2, ws)" by fastforce
  from Cons.prems g cm have e: "c' = c2" "zs = z # ws" by simp_all
  from step Cons.prems(1) g have c1: "ok c1"
    and s: "int (unat z) + int BN_BASE * cv c1 = p * int (unat x) + q * int (unat y) + cv c"
    unfolding linear_step_def by blast+
  from Cons.IH [OF c1 cm] have c2: "ok c2" "length ws = length xs"
    and i: "int (words_val ws) + int BN_BASE ^ length xs * cv c2
        = p * int (words_val xs) + q * int (words_val ys) + cv c1" by auto
  have "int (words_val (z # ws)) + int BN_BASE ^ length (x # xs) * cv c2
      = int (unat z) + int BN_BASE * (int (words_val ws) + int BN_BASE ^ length xs * cv c2)"
    by (simp add: algebra_simps)
  also have "\<dots> = p * int (words_val (x # xs)) + q * int (words_val (y # ys)) + cv c"
    using s unfolding i by (simp add: algebra_simps)
  finally show ?case using c2 e by simp
qed

lemma unat_double [simp]: "unat (ucast (a :: BN_ULONG) :: BN_ULLONG) = unat a"
  by (simp add: unsigned_ucast_eq take_bit_nat_eq_self_iff less_trans [OF unat_lt_base])

lemma unat_drop_bit_div: "unat (drop_bit n w) = unat w div 2 ^ n"
  by (simp only: unat_drop_bit_eq) (simp add: drop_bit_eq_div)

lemma unat_Lw: "unat (Lw t) = unat t mod BN_BASE"
  by (simp add: Lw_def unsigned_ucast_eq take_bit_eq_mod)

lemma unat_Hw: "unat (Hw t) = unat t div BN_BASE"
proof -
  have "unat t < BN_BASE * BN_BASE"
    using unsigned_less [of t, where ?'a = nat] by simp
  then have "unat t div BN_BASE < BN_BASE" by (simp add: less_mult_imp_div_less)
  then show ?thesis
    by (simp add: Hw_def BN_BITS2_def unsigned_ucast_eq take_bit_eq_mod unat_drop_bit_div)
qed

lemma unat_Lw_Hw: "unat (Lw t) + BN_BASE * unat (Hw t) = unat t"
  by (simp add: unat_Lw unat_Hw)

text \<open>The double word has room for a product of two words and two words more.\<close>

lemma mult_word_bound: "unat (w :: BN_ULONG) * unat (a :: BN_ULONG) \<le> (BN_BASE - 1) * (BN_BASE - 1)"
  by (rule mult_le_mono) (use unat_lt_base [of w] unat_lt_base [of a] in \<open>simp_all del: unat_lt_base\<close>)

lemma unat_double_mult_add:
  "unat (ucast (w :: BN_ULONG) * ucast (a :: BN_ULONG) + ucast (r :: BN_ULONG) + ucast (c :: BN_ULONG) :: BN_ULLONG)
   = unat w * unat a + unat r + unat c"
proof -
  have "unat w * unat a + unat r + unat c < 2 ^ 128"
    using mult_word_bound [of w a] unat_lt_base [of r] unat_lt_base [of c] by (simp del: unat_lt_base)
  then show ?thesis by (simp add: unat_word_ariths)
qed

lemma mul_add_limb_val:
  "mul_add_limb w c r a = (z, c') \<Longrightarrow> unat z + BN_BASE * unat c' = unat r + unat w * unat a + unat c"
  using unat_Lw_Hw [of "ucast w * ucast a + ucast r + ucast c"]
  by (auto simp: mul_add_limb_def Let_def unat_double_mult_add)

lemma mul_limb_val:
  "mul_limb w c a = (z, c') \<Longrightarrow> unat z + BN_BASE * unat c' = unat w * unat a + unat c"
  using unat_Lw_Hw [of "ucast w * ucast a + ucast c"] unat_double_mult_add [of w a 0 c]
  by (auto simp: mul_limb_def Let_def)

lemma sqr_limb_val:
  "sqr_limb a = (z, c') \<Longrightarrow> unat z + BN_BASE * unat c' = unat a * unat a"
  using unat_Lw_Hw [of "ucast a * ucast a"] unat_double_mult_add [of a a 0 0]
  by (auto simp: sqr_limb_def Let_def)

lemma add_limb_val:
  assumes "unat ll \<le> 1" and "add_limb ll a b = (z, ll')"
  shows "unat ll' \<le> 1 \<and> unat z + BN_BASE * unat ll' = unat a + unat b + unat ll"
proof -
  let ?s = "unat a + unat b + unat ll"
  have s: "?s < 2 * BN_BASE" using unat_lt_base [of a] unat_lt_base [of b] assms(1) by linarith
  then have "unat (ucast a + ucast b :: BN_ULLONG) = unat a + unat b"
    by (simp add: unat_word_ariths)
  with s have u: "unat (ll + (ucast a + ucast b)) = ?s"
    by (simp add: unat_word_ariths)
  from assms(2) have z: "z = Lw (ll + (ucast a + ucast b))" and l: "ll' = drop_bit 64 (ll + (ucast a + ucast b))"
    by (auto simp: add_limb_def Let_def Lw_def BN_BITS2_def)
  have "unat ll' = ?s div BN_BASE" unfolding l by (simp add: unat_drop_bit_div u)
  moreover have "unat z = ?s mod BN_BASE" unfolding z by (simp only: unat_Lw u)
  moreover have "?s div BN_BASE < 2" using s by (simp add: less_mult_imp_div_less)
  ultimately show ?thesis by simp
qed

lemma borrow_iff: "(if u \<noteq> v then u < v else c) \<longleftrightarrow> int u - int v - of_bool c < 0" for u v :: nat
  by (cases c) auto

lemma mod_one_period: "- b \<le> d \<Longrightarrow> d < b \<Longrightarrow> d mod b = (if d < 0 then d + b else d)" for b d :: int
  using mod_pos_pos_trivial [of "d + b" b] by (auto simp: mod_pos_pos_trivial)

lemma sub_limb_val:
  assumes "sub_limb c a b = (z, c')"
  shows "int (unat z) - int BN_BASE * of_bool c' = int (unat a) - int (unat b) - of_bool c"
proof -
  have z: "z = a - b - of_bool c" and c': "c' = (if a \<noteq> b then a < b else c)"
    using assms by (auto simp: sub_limb_def)
  let ?d = "int (unat a) - int (unat b) - of_bool c"
  have "int (unat z) = ?d mod int BN_BASE"
    unfolding z by (simp only: uint_nat [symmetric]) (simp add: uint_word_ariths mod_simps)
  moreover have "?d mod int BN_BASE = (if ?d < 0 then ?d + int BN_BASE else ?d)"
  proof (rule mod_one_period)
    have "int (unat a) < int BN_BASE" "int (unat b) < int BN_BASE"
      using unat_lt_base [of a] unat_lt_base [of b] by linarith+
    moreover have "(0 :: int) \<le> of_bool c" "of_bool c \<le> (1 :: int)" by simp_all
    ultimately show "- int BN_BASE \<le> ?d" "?d < int BN_BASE" by linarith+
  qed
  moreover have "c' \<longleftrightarrow> ?d < 0"
    unfolding c' word_less_nat_alt word_unat_eq_iff [of a b] by (rule borrow_iff)
  ultimately show ?thesis by (cases c') simp_all
qed

text \<open>The routines: the words written are those of the sum, difference or product of what the
  operands held before the call, with the carry or borrow returned.\<close>

lemma words_loop_linear:
  assumes "linear_step ok cv p q g" and "ok c"
    and r: "in_words m r n" "in_words m a n" "in_words m b n" "behind r a n" "behind r b n"
  shows "\<exists>c' zs. words_loop (word_step g r a b) 0 n (c, m) = (c', words_put m r zs)
    \<and> ok c' \<and> length zs = n
    \<and> int (words_val zs) + int BN_BASE ^ n * cv c'
      = p * int (words_val (words_at m a n)) + q * int (words_val (words_at m b n)) + cv c"
proof -
  obtain c' zs where cm: "carry_map g c (words_at m a n) (words_at m b n) = (c', zs)" by fastforce
  have "length (words_at m a n) = length (words_at m b n)" using r by simp
  from carry_map_linear [OF assms(1) this assms(2) cm] r(2)
  have "ok c' \<and> length zs = n \<and> int (words_val zs) + int BN_BASE ^ n * cv c'
      = p * int (words_val (words_at m a n)) + q * int (words_val (words_at m b n)) + cv c" by simp
  moreover have "words_loop (word_step g r a b) 0 n (c, m) = (c', words_put m r zs)"
    using words_loop_carry [OF r, of g c] cm by simp
  ultimately show ?thesis by blast
qed

lemma add_limb_linear: "linear_step (\<lambda>c. unat c \<le> 1) (\<lambda>c. int (unat c)) 1 1 add_limb"
  unfolding linear_step_def
proof (intro allI impI)
  fix c x y z c'
  assume "unat c \<le> 1" and "add_limb c x y = (z, c')"
  from add_limb_val [OF this] have "unat c' \<le> 1"
    and "unat z + BN_BASE * unat c' = unat x + unat y + unat c" by auto
  then show "unat c' \<le> 1 \<and> int (unat z) + int BN_BASE * int (unat c')
      = 1 * int (unat x) + 1 * int (unat y) + int (unat c)" by linarith
qed

lemma sub_limb_linear: "linear_step (\<lambda>c. True) (\<lambda>c. - of_bool c) 1 (- 1) sub_limb"
  unfolding linear_step_def
proof (intro allI impI)
  fix c x y z c'
  assume "sub_limb c x y = (z, c')"
  from sub_limb_val [OF this] show "True \<and> int (unat z) + int BN_BASE * (- of_bool c')
      = 1 * int (unat x) + (- 1) * int (unat y) + (- of_bool c)" by simp
qed

lemma mul_limb_linear:
  "linear_step (\<lambda>c. True) (\<lambda>c. int (unat c)) 0 (int (unat w)) (\<lambda>c x y. mul_limb w c y)"
  unfolding linear_step_def
proof (intro allI impI)
  fix c x y z c'
  assume "mul_limb w c y = (z, c')"
  from mul_limb_val [OF this] show "True \<and> int (unat z) + int BN_BASE * int (unat c')
      = 0 * int (unat x) + int (unat w) * int (unat y) + int (unat c)"
    by (simp only: mult_zero_left add_0 flip: of_nat_mult of_nat_add)
qed

lemma mul_add_limb_linear:
  "linear_step (\<lambda>c. True) (\<lambda>c. int (unat c)) 1 (int (unat w)) (mul_add_limb w)"
  unfolding linear_step_def
proof (intro allI impI)
  fix c x y z c'
  assume "mul_add_limb w c x y = (z, c')"
  from mul_add_limb_val [OF this] show "True \<and> int (unat z) + int BN_BASE * int (unat c')
      = 1 * int (unat x) + int (unat w) * int (unat y) + int (unat c)"
    by (simp only: mult_1 flip: of_nat_mult of_nat_add)
qed

lemma int_words_eq: "int x + int BN_BASE ^ n * int y = int z \<longleftrightarrow> x + BN_BASE ^ n * y = z"
proof -
  have "int x + int BN_BASE ^ n * int y = int (x + BN_BASE ^ n * y)"
    by (simp only: of_nat_add of_nat_mult of_nat_power)
  then show ?thesis by (simp only: of_nat_eq_iff)
qed

lemma bn_add_words_val:
  assumes "in_words m r n" "in_words m a n" "in_words m b n" "behind r a n" "behind r b n"
  shows "\<exists>c zs. bn_add_words r a b n m = (c, words_put m r zs) \<and> length zs = n \<and> unat c \<le> 1
    \<and> words_val zs + BN_BASE ^ n * unat c = words_val (words_at m a n) + words_val (words_at m b n)"
proof -
  from words_loop_linear [OF add_limb_linear _ assms, of 0]
  obtain ll zs where w: "words_loop (word_step add_limb r a b) 0 n (0, m) = (ll, words_put m r zs)"
    and ll: "unat ll \<le> 1" and zs: "length zs = n"
    and v: "int (words_val zs) + int BN_BASE ^ n * int (unat ll)
      = int (words_val (words_at m a n) + words_val (words_at m b n))" by auto
  have "unat (ucast ll :: BN_ULONG) = unat ll"
    using ll by (simp add: unsigned_ucast_eq take_bit_nat_eq_self_iff)
  moreover have "bn_add_words r a b n m = (ucast ll, words_put m r zs)"
    using w by (cases "n = 0") (simp_all add: bn_add_words_def words_loop4_loop)
  ultimately show ?thesis using v ll zs unfolding int_words_eq
    by (intro exI [of _ "ucast ll"] exI [of _ zs]) simp
qed

lemma bn_sub_words_val:
  assumes "in_words m r n" "in_words m a n" "in_words m b n" "behind r a n" "behind r b n"
  shows "\<exists>c zs. bn_sub_words r a b n m = (of_bool c, words_put m r zs) \<and> length zs = n
    \<and> words_val zs + words_val (words_at m b n) = words_val (words_at m a n) + BN_BASE ^ n * of_bool c"
proof -
  from words_loop_linear [OF sub_limb_linear TrueI assms, of False]
  obtain c zs where w: "words_loop (word_step sub_limb r a b) 0 n (False, m) = (c, words_put m r zs)"
    and zs: "length zs = n"
    and v: "int (words_val zs) + int BN_BASE ^ n * (- of_bool c)
      = 1 * int (words_val (words_at m a n)) + (- 1) * int (words_val (words_at m b n)) + (- of_bool False)"
    by blast
  from v have "int (words_val zs) + int (words_val (words_at m b n))
      = int (words_val (words_at m a n)) + int BN_BASE ^ n * of_bool c"
    unfolding mult_minus_right of_bool_eq by linarith
  then have "int (words_val zs + words_val (words_at m b n))
      = int (words_val (words_at m a n) + BN_BASE ^ n * of_bool c)"
    by (simp only: of_nat_add of_nat_mult of_nat_power of_nat_of_bool)
  then have "words_val zs + words_val (words_at m b n)
      = words_val (words_at m a n) + BN_BASE ^ n * of_bool c" by (simp only: of_nat_eq_iff)
  moreover have "bn_sub_words r a b n m = (of_bool c, words_put m r zs)"
    using w by (cases "n = 0") (auto simp: bn_sub_words_def words_loop4_loop)
  ultimately show ?thesis using zs by blast
qed

lemma bn_mul_words_val:
  assumes "in_words m r n" "in_words m a n" "behind r a n"
  shows "\<exists>c zs. bn_mul_words r a n w m = (c, words_put m r zs) \<and> length zs = n
    \<and> words_val zs + BN_BASE ^ n * unat c = words_val (words_at m a n) * unat w"
proof -
  from words_loop_linear [OF mul_limb_linear TrueI assms(1,2,2,3,3), of w 0]
  obtain c zs where l: "words_loop (word_step (\<lambda>c x y. mul_limb w c y) r a a) 0 n (0, m) = (c, words_put m r zs)"
    and zs: "length zs = n"
    and "int (words_val zs) + int BN_BASE ^ n * int (unat c)
      = 0 * int (words_val (words_at m a n)) + int (unat w) * int (words_val (words_at m a n)) + int (unat (0 :: BN_ULONG))"
    by blast
  then have v: "int (words_val zs) + int BN_BASE ^ n * int (unat c) = int (words_val (words_at m a n) * unat w)"
    by (simp only: mult_zero_left unsigned_0 of_nat_0 add_0 add_0_right of_nat_mult mult.commute)
  have "bn_mul_words r a n w m = (c, words_put m r zs)"
    using l by (cases "n = 0") (simp_all add: bn_mul_words_def words_loop4_loop)
  with v zs show ?thesis unfolding int_words_eq by blast
qed

lemma bn_mul_add_words_val:
  assumes "in_words m r n" "in_words m a n" "behind r a n"
  shows "\<exists>c zs. bn_mul_add_words r a n w m = (c, words_put m r zs) \<and> length zs = n
    \<and> words_val zs + BN_BASE ^ n * unat c
      = words_val (words_at m r n) + words_val (words_at m a n) * unat w"
proof -
  have rr: "behind r r n" by (simp add: behind_def)
  from words_loop_linear [OF mul_add_limb_linear TrueI assms(1,1,2) rr assms(3), of w 0]
  obtain c zs where l: "words_loop (word_step (mul_add_limb w) r r a) 0 n (0, m) = (c, words_put m r zs)"
    and zs: "length zs = n"
    and "int (words_val zs) + int BN_BASE ^ n * int (unat c)
      = 1 * int (words_val (words_at m r n)) + int (unat w) * int (words_val (words_at m a n)) + int (unat (0 :: BN_ULONG))"
    by blast
  then have v: "int (words_val zs) + int BN_BASE ^ n * int (unat c)
      = int (words_val (words_at m r n) + words_val (words_at m a n) * unat w)"
    by (simp only: mult_1 unsigned_0 of_nat_0 add_0_right of_nat_mult of_nat_add mult.commute)
  have "bn_mul_add_words r a n w m = (c, words_put m r zs)"
    using l by (cases "n = 0") (simp_all add: bn_mul_add_words_def words_loop4_loop)
  with v zs show ?thesis unfolding int_words_eq by blast
qed

lemma bn_select_words_eq:
  assumes "in_words m r n" "in_words m a n" "in_words m b n" "behind r a n" "behind r b n"
  shows "bn_select_words r (mask_of p) a b n m = words_put m r (if p then words_at m a n else words_at m b n)"
proof -
  let ?g = "\<lambda>c x y. (constant_time_select_w (mask_of p) x y, ())"
  have "length xs = length ys \<Longrightarrow> carry_map ?g () xs ys = ((), if p then xs else ys)" for xs ys
    by (induction xs ys rule: list_induct2) (simp_all add: constant_time_select_w_mask)
  then show ?thesis
    using words_loop_carry [OF assms, of ?g "()"] assms by (simp add: bn_select_words_def)
qed

lemma in_words_put [simp]: "in_words m q (length xs) \<Longrightarrow> in_words (words_put m q xs) p n = in_words m p n"
  by (auto simp: in_words_def words_put_def)

lemma words_at_put [simp]: "in_words m p (length xs) \<Longrightarrow> words_at (words_put m p xs) p (length xs) = xs"
  by (simp add: words_at_def words_put_def in_words_def overwrite_def)

lemma words_at_put_other:
  assumes "in_words m q (length xs)"
    and "fst q \<noteq> fst p \<or> snd q + length xs \<le> snd p \<or> snd p + n \<le> snd q"
  shows "words_at (words_put m q xs) p n = words_at m p n"
proof (cases "fst q = fst p")
  case True
  let ?d = "m (fst p)"
  have l: "length (overwrite ?d (snd q) xs) = length ?d" using assms(1) True by (simp add: in_words_def)
  have "take n (drop (snd p) (overwrite ?d (snd q) xs)) = take n (drop (snd p) ?d)"
  proof (rule nth_equalityI)
    fix i assume "i < length (take n (drop (snd p) (overwrite ?d (snd q) xs)))"
    then have "i < n" "snd p + i < length ?d" using l by auto
    with assms True show "take n (drop (snd p) (overwrite ?d (snd q) xs)) ! i = take n (drop (snd p) ?d) ! i"
      by (auto simp: overwrite_def in_words_def nth_append)
  qed (simp add: l)
  with True show ?thesis by (simp add: words_at_def words_put_def)
qed (simp add: words_at_def words_put_def)

lemma words_put_append:
  assumes "in_words m p (length xs + length ys)"
  shows "words_put (words_put m p xs) (wadd p (length xs)) ys = words_put m p (xs @ ys)"
  using assms by (auto simp: words_put_def wadd_def overwrite_def in_words_def fun_eq_iff ac_simps)

lemma wr_as_put:
  assumes "in_words m p (Suc i)"
  shows "wr m p i x = words_put m (wadd p i) [x]"
  using assms by (auto simp: wr_def words_put_def wadd_def overwrite_def in_words_def upd_conv_take_nth_drop fun_eq_iff)

lemma words_at_add:
  "in_words m p (i + j) \<Longrightarrow> words_at m p (i + j) = words_at m p i @ words_at m (wadd p i) j"
  by (simp add: words_at_def wadd_def take_add add.commute)

lemma behind_same [simp]: "behind (r, i) (a, i) n" "behind (r, i) (r, i) n"
  by (simp_all add: behind_def)

lemma in_words_le: "in_words m (p, i) n \<Longrightarrow> j + k \<le> i + n \<Longrightarrow> in_words m (p, j) k"
  by (simp add: in_words_def)

text \<open>The second pass of the consttime routines, over the words only the first operand has.\<close>

lemma tail_pass:
  assumes lin: "linear_step ok cv 1 0 g" and "ok c" and "k \<le> n"
    and r: "in_words m (r, 0) n" and a: "in_words m (a, 0) n" and xs: "length xs = k"
  shows "\<exists>c' ys. words_loop (word_step g (r, k) (a, k) (a, k)) 0 (n - k) (c, words_put m (r, 0) xs)
      = (c', words_put m (r, 0) (xs @ ys)) \<and> ok c' \<and> length ys = n - k
    \<and> int (words_val ys) + int BN_BASE ^ (n - k) * cv c' = int (words_val (words_at m (a, k) (n - k))) + cv c"
proof -
  let ?m = "words_put m (r, 0) xs"
  have rk: "in_words m (r, 0) (length xs)" using r xs assms(3) by (auto intro: in_words_le)
  have i: "in_words ?m (r, k) (n - k)" "in_words ?m (a, k) (n - k)"
    using r a assms(3) rk by (auto intro: in_words_le)
  have same: "words_at ?m (a, k) (n - k) = words_at m (a, k) (n - k)"
    by (rule words_at_put_other [OF rk]) (simp add: xs)
  from words_loop_linear [OF lin assms(2) i(1) i(2) i(2) behind_same(1) behind_same(1)]
  obtain c' ys where "words_loop (word_step g (r, k) (a, k) (a, k)) 0 (n - k) (c, ?m) = (c', words_put ?m (r, k) ys)"
    and o: "ok c'" "length ys = n - k"
    and "int (words_val ys) + int BN_BASE ^ (n - k) * cv c'
      = 1 * int (words_val (words_at ?m (a, k) (n - k))) + 0 * int (words_val (words_at ?m (a, k) (n - k))) + cv c"
    by blast
  moreover have "words_put ?m (r, k) ys = words_put m (r, 0) (xs @ ys)"
    using words_put_append [of m "(r, 0)" xs ys] r xs o(2) assms(3) by (simp add: wadd_def)
  ultimately show ?thesis unfolding same by auto
qed

lemma words_val_split:
  assumes "in_words m (a, 0) n" and "k \<le> n"
  shows "words_val (words_at m (a, 0) n)
    = words_val (words_at m (a, 0) k) + BN_BASE ^ k * words_val (words_at m (a, k) (n - k))"
proof -
  have "words_at m (a, 0) n = words_at m (a, 0) k @ words_at m (a, k) (n - k)"
    using words_at_add [of m "(a, 0)" k "n - k"] assms by (simp add: wadd_def)
  moreover have "in_words m (a, 0) k" using assms by (auto intro: in_words_le)
  ultimately show ?thesis by (simp add: words_val_append)
qed

end
