(* ===== verification/Bignum.thy ===== *)
theory Bignum
  imports BnWords Mem
begin

text \<open>
  Big integers: \<open>bn.c\<close> and \<open>cmp.c\<close> of \<open>crypto/fipsmodule/bn\<close>. A \<open>BIGNUM\<close> is its words
  \<open>d\<close> with their number \<open>dmax\<close>, how many of them count (\<open>width\<close>, least significant first,
  leading zeros allowed), the sign, and the two flags. An operation on several numbers takes
  pointers into a heap of them, so that a result may be one of the operands; one that returns 0
  says with which error, and what it has done to its arguments by then.

  The second half gives the integer a \<open>BIGNUM\<close> stands for and the well-formedness every
  operation keeps, what growing and the minimal width do, and that the comparisons are those of
  the integers.
\<close>

record bignum =
  bn_d :: "BN_ULONG list"
  bn_width :: nat
  bn_dmax :: nat
  bn_neg :: bool
  BN_FLG_MALLOCED :: bool
  BN_FLG_STATIC_DATA :: bool

type_synonym bn_heap = "nat \<Rightarrow> bignum"

text \<open>Why a function returned 0. \<open>BN_R_NONE\<close> is a 0 without an entry in the error queue, and
  \<open>BN_OVERRUN\<close> a loop that has run past the words, which is shown not to happen.\<close>

datatype bn_error = BN_R_BIGNUM_TOO_LONG | BN_R_EXPAND_ON_STATIC_BIGNUM_DATA
  | BN_R_NEGATIVE_NUMBER | BN_R_ARG2_LT_ARG3 | BN_R_MALLOC_FAILURE
  | BN_R_SHOULD_NOT_HAVE_BEEN_CALLED | BN_R_NONE | BN_OVERRUN

type_synonym bn_status = "bn_error option"

section \<open>Words and bytes\<close>

text \<open>The words of a block, which is little-endian in memory, and back.\<close>

definition word_bytes :: "BN_ULONG \<Rightarrow> u8 list" where
  "word_bytes w = rev (be_bytes 8 (unat w))"

fun bytes_words :: "u8 list \<Rightarrow> BN_ULONG list" where
  "bytes_words bs =
     (if length bs < 8 then []
      else word_of_nat (be_val (rev (take 8 bs))) # bytes_words (drop 8 bs))"

declare bytes_words.simps [simp del]

section \<open>bn.c\<close>

definition sizeof_BIGNUM :: nat where "sizeof_BIGNUM = 24"
definition sizeof_BN_ULONG :: nat where "sizeof_BN_ULONG = 8"

definition BN_init :: bignum where
  "BN_init = \<lparr>bn_d = [], bn_width = 0, bn_dmax = 0, bn_neg = False,
     BN_FLG_MALLOCED = False, BN_FLG_STATIC_DATA = False\<rparr>"

definition BN_new :: "env \<Rightarrow> bignum option" where
  "BN_new e =
     (case OPENSSL_malloc e sizeof_BIGNUM of
        None \<Rightarrow> None
      | Some b \<Rightarrow> Some (BN_init\<lparr>BN_FLG_MALLOCED := True\<rparr>))"

text \<open>What is left of the structure: nothing where it was on the heap itself.\<close>

definition BN_free :: "bignum option \<Rightarrow> bignum option" where
  "BN_free p =
     (case p of
        None \<Rightarrow> None
      | Some bn \<Rightarrow> (if BN_FLG_MALLOCED bn then None else Some (bn\<lparr>bn_d := []\<rparr>)))"

definition BN_clear_free :: "bignum option \<Rightarrow> bignum option" where
  "BN_clear_free p =
     (case p of
        None \<Rightarrow> None
      | Some bn \<Rightarrow> (if BN_FLG_MALLOCED bn then None else Some BN_init))"

definition bn_wexpand :: "env \<Rightarrow> nat \<Rightarrow> bignum \<Rightarrow> bn_status \<times> bignum" where
  "bn_wexpand e words bn =
     (if words \<le> bn_dmax bn then (None, bn)
      else if words > INT_MAX div (4 * BN_BITS2) then (Some BN_R_BIGNUM_TOO_LONG, bn)
      else if BN_FLG_STATIC_DATA bn then (Some BN_R_EXPAND_ON_STATIC_BIGNUM_DATA, bn)
      else case OPENSSL_malloc e (sizeof_BN_ULONG * words) of
             None \<Rightarrow> (Some BN_R_MALLOC_FAILURE, bn)
           | Some blk \<Rightarrow>
               let a = overwrite (bytes_words (blk_data blk)) 0 (take (bn_width bn) (bn_d bn))
               in (None, bn\<lparr>bn_d := a, bn_dmax := words\<rparr>))"

definition bn_expand :: "env \<Rightarrow> nat \<Rightarrow> bignum \<Rightarrow> bn_status \<times> bignum" where
  "bn_expand e bits bn =
     (if size_sub (size_add bits BN_BITS2) 1 < bits then (Some BN_R_BIGNUM_TOO_LONG, bn)
      else bn_wexpand e (size_sub (size_add bits BN_BITS2) 1 div BN_BITS2) bn)"

text \<open>\<open>BN_copy\<close> into another number, and through two pointers.\<close>

definition bn_copy_from :: "env \<Rightarrow> bignum \<Rightarrow> bignum \<Rightarrow> bn_status \<times> bignum" where
  "bn_copy_from e src dest =
     (case bn_wexpand e (bn_width src) dest of
        (Some err, dest) \<Rightarrow> (Some err, dest)
      | (None, dest) \<Rightarrow>
          (None, dest\<lparr>bn_d := overwrite (bn_d dest) 0 (take (bn_width src) (bn_d src)),
                       bn_width := bn_width src, bn_neg := bn_neg src\<rparr>))"

definition bn_on :: "nat \<Rightarrow> (bignum \<Rightarrow> 'r \<times> bignum) \<Rightarrow> bn_heap \<Rightarrow> 'r \<times> bn_heap" where
  "bn_on p f h = (let (r, bn) = f (h p) in (r, h(p := bn)))"

definition BN_copy :: "env \<Rightarrow> nat \<Rightarrow> nat \<Rightarrow> bn_heap \<Rightarrow> bn_status \<times> bn_heap" where
  "BN_copy e dest src h =
     (if src = dest then (None, h) else bn_on dest (bn_copy_from e (h src)) h)"

definition BN_dup :: "env \<Rightarrow> bignum option \<Rightarrow> bignum option" where
  "BN_dup e p =
     (case p of
        None \<Rightarrow> None
      | Some src \<Rightarrow>
          (case BN_new e of
             None \<Rightarrow> None
           | Some copy \<Rightarrow>
               (case bn_copy_from e src copy of
                  (Some err, copy) \<Rightarrow> None
                | (None, copy) \<Rightarrow> Some copy)))"

definition BN_clear :: "bignum \<Rightarrow> bignum" where
  "BN_clear bn =
     bn\<lparr>bn_d := overwrite (bn_d bn) 0 (replicate (bn_dmax bn) 0), bn_width := 0, bn_neg := False\<rparr>"

definition BN_value_one :: bignum where
  "BN_value_one = \<lparr>bn_d = [1], bn_width = 1, bn_dmax = 1, bn_neg = False,
     BN_FLG_MALLOCED = False, BN_FLG_STATIC_DATA = True\<rparr>"

text \<open>One halving of \<open>BN_num_bits_word\<close>: \<open>l\<close> becomes its part above \<open>k\<close> bits where that is not 0.\<close>

definition num_bits_step :: "nat \<Rightarrow> nat \<times> BN_ULONG \<Rightarrow> nat \<times> BN_ULONG" where
  "num_bits_step k s =
     (let (bits, l) = s;
          x = drop_bit k l;
          msk = 0 - x;
          msk = 0 - drop_bit (BN_BITS2 - 1) msk
      in (bits + unat (of_nat k AND msk), l XOR ((x XOR l) AND msk)))"

definition BN_num_bits_word :: "BN_ULONG \<Rightarrow> nat" where
  "BN_num_bits_word l =
     fst (num_bits_step 1 (num_bits_step 2 (num_bits_step 4 (num_bits_step 8
       (num_bits_step 16 (num_bits_step 32 (of_bool (l \<noteq> 0), l)))))))"

fun bn_minimal_loop :: "BN_ULONG list \<Rightarrow> nat \<Rightarrow> nat" where
  "bn_minimal_loop d 0 = 0"
| "bn_minimal_loop d (Suc n) = (if d ! n = 0 then bn_minimal_loop d n else Suc n)"

definition bn_minimal_width :: "bignum \<Rightarrow> nat" where
  "bn_minimal_width bn = bn_minimal_loop (bn_d bn) (bn_width bn)"

definition bn_set_minimal_width :: "bignum \<Rightarrow> bignum" where
  "bn_set_minimal_width bn =
     (let bn = bn\<lparr>bn_width := bn_minimal_width bn\<rparr>
      in if bn_width bn = 0 then bn\<lparr>bn_neg := False\<rparr> else bn)"

definition BN_num_bits :: "bignum \<Rightarrow> nat" where
  "BN_num_bits bn =
     (let width = bn_minimal_width bn
      in if width = 0 then 0
         else (width - 1) * BN_BITS2 + BN_num_bits_word (bn_d bn ! (width - 1)))"

definition BN_num_bytes :: "bignum \<Rightarrow> nat" where
  "BN_num_bytes bn = (BN_num_bits bn + 7) div 8"

definition BN_zero :: "bignum \<Rightarrow> bignum" where
  "BN_zero bn = bn\<lparr>bn_width := 0, bn_neg := False\<rparr>"

definition BN_set_word :: "env \<Rightarrow> BN_ULONG \<Rightarrow> bignum \<Rightarrow> bn_status \<times> bignum" where
  "BN_set_word e val bn =
     (if val = 0 then (None, BN_zero bn)
      else case bn_wexpand e 1 bn of
             (Some err, bn) \<Rightarrow> (Some err, bn)
           | (None, bn) \<Rightarrow> (None, bn\<lparr>bn_neg := False, bn_d := (bn_d bn)[0 := val], bn_width := 1\<rparr>))"

definition BN_one :: "env \<Rightarrow> bignum \<Rightarrow> bn_status \<times> bignum" where
  "BN_one e bn = BN_set_word e 1 bn"

definition BN_set_u64 :: "env \<Rightarrow> u64 \<Rightarrow> bignum \<Rightarrow> bn_status \<times> bignum" where
  "BN_set_u64 e val bn = BN_set_word e val bn"

definition bn_set_words :: "env \<Rightarrow> BN_ULONG list \<Rightarrow> nat \<Rightarrow> bignum \<Rightarrow> bn_status \<times> bignum" where
  "bn_set_words e words num bn =
     (case bn_wexpand e num bn of
        (Some err, bn) \<Rightarrow> (Some err, bn)
      | (None, bn) \<Rightarrow>
          (None, bn\<lparr>bn_d := overwrite (bn_d bn) 0 (take num words), bn_width := num, bn_neg := False\<rparr>))"

text \<open>The loops that gather the bits of the words from \<open>lo\<close> up to \<open>hi\<close>.\<close>

definition or_words :: "BN_ULONG list \<Rightarrow> nat \<Rightarrow> nat \<Rightarrow> BN_ULONG" where
  "or_words d lo hi = fold (\<lambda>i msk. msk OR d ! i) [lo..<hi] 0"

definition bn_fits_in_words :: "bignum \<Rightarrow> nat \<Rightarrow> bool" where
  "bn_fits_in_words bn num = (or_words (bn_d bn) num (bn_width bn) = 0)"

text \<open>The words copied out, on success.\<close>

definition bn_copy_words :: "nat \<Rightarrow> bignum \<Rightarrow> bn_error + BN_ULONG list" where
  "bn_copy_words num bn =
     (if bn_neg bn then Inl BN_R_NEGATIVE_NUMBER
      else if bn_width bn > num \<and> \<not> bn_fits_in_words bn num then Inl BN_R_BIGNUM_TOO_LONG
      else let width = (if bn_width bn > num then num else bn_width bn)
           in Inr (overwrite (replicate num 0) 0 (take width (bn_d bn))))"

definition BN_is_zero :: "bignum \<Rightarrow> bool" where
  "BN_is_zero bn = bn_fits_in_words bn 0"

definition BN_is_negative :: "bignum \<Rightarrow> bool" where
  "BN_is_negative bn = bn_neg bn"

definition BN_set_negative :: "bool \<Rightarrow> bignum \<Rightarrow> bignum" where
  "BN_set_negative sign bn =
     (if sign \<and> \<not> BN_is_zero bn then bn\<lparr>bn_neg := True\<rparr> else bn\<lparr>bn_neg := False\<rparr>)"

definition bn_resize_words :: "env \<Rightarrow> nat \<Rightarrow> bignum \<Rightarrow> bn_status \<times> bignum" where
  "bn_resize_words e words bn =
     (if bn_width bn \<le> words
      then case bn_wexpand e words bn of
             (Some err, bn) \<Rightarrow> (Some err, bn)
           | (None, bn) \<Rightarrow>
               (None, bn\<lparr>bn_d := overwrite (bn_d bn) (bn_width bn) (replicate (words - bn_width bn) 0),
                          bn_width := words\<rparr>)
      else if \<not> bn_fits_in_words bn words then (Some BN_R_BIGNUM_TOO_LONG, bn)
      else (None, bn\<lparr>bn_width := words\<rparr>))"

section \<open>cmp.c\<close>

text \<open>\<open>int\<close> results are 32-bit words until they are returned.\<close>

definition bn_cmp_words_consttime :: "BN_ULONG list \<Rightarrow> BN_ULONG list \<Rightarrow> 32 word" where
  "bn_cmp_words_consttime a b =
     (let min = (if length a < length b then length a else length b);
          ret = fold (\<lambda>i ret.
                  let eq = constant_time_eq_w (a ! i) (b ! i);
                      lt = constant_time_lt_w (a ! i) (b ! i)
                  in constant_time_select_int eq ret (constant_time_select_int lt (- 1) 1)) [0..<min] 0
      in if length a < length b
         then let msk = or_words b (length a) (length b)
              in constant_time_select_int (constant_time_is_zero_w msk) ret (- 1)
         else if length b < length a
         then let msk = or_words a (length b) (length a)
              in constant_time_select_int (constant_time_is_zero_w msk) ret 1
         else ret)"

definition BN_ucmp :: "bignum \<Rightarrow> bignum \<Rightarrow> int" where
  "BN_ucmp a b =
     sint (bn_cmp_words_consttime (take (bn_width a) (bn_d a)) (take (bn_width b) (bn_d b)))"

definition BN_cmp :: "bignum option \<Rightarrow> bignum option \<Rightarrow> int" where
  "BN_cmp p q =
     (case (p, q) of
        (Some a, Some b) \<Rightarrow>
          if bn_neg a \<noteq> bn_neg b then (if bn_neg a then - 1 else 1)
          else let ret = BN_ucmp a b in if bn_neg a then - ret else ret
      | (Some a, None) \<Rightarrow> - 1
      | (None, Some b) \<Rightarrow> 1
      | (None, None) \<Rightarrow> 0)"

definition bn_less_than_words :: "BN_ULONG list \<Rightarrow> BN_ULONG list \<Rightarrow> nat \<Rightarrow> bool" where
  "bn_less_than_words a b len = (sint (bn_cmp_words_consttime (take len a) (take len b)) < 0)"

definition BN_abs_is_word :: "bignum \<Rightarrow> BN_ULONG \<Rightarrow> bool" where
  "BN_abs_is_word bn w =
     (if bn_width bn = 0 then w = 0
      else fold (\<lambda>i msk. msk OR bn_d bn ! i) [1..<bn_width bn] (bn_d bn ! 0 XOR w) = 0)"

definition BN_cmp_word :: "bignum \<Rightarrow> BN_ULONG \<Rightarrow> int" where
  "BN_cmp_word a b =
     (let b_bn = BN_init\<lparr>bn_d := [b], bn_width := of_bool (b > 0), bn_dmax := 1,
                          BN_FLG_STATIC_DATA := True\<rparr>
      in BN_cmp (Some a) (Some b_bn))"

definition BN_is_one :: "bignum \<Rightarrow> bool" where
  "BN_is_one bn \<longleftrightarrow> \<not> bn_neg bn \<and> BN_abs_is_word bn 1"

definition BN_is_word :: "bignum \<Rightarrow> BN_ULONG \<Rightarrow> bool" where
  "BN_is_word bn w \<longleftrightarrow> BN_abs_is_word bn w \<and> (w = 0 \<or> \<not> bn_neg bn)"

definition BN_is_odd :: "bignum \<Rightarrow> bool" where
  "BN_is_odd bn \<longleftrightarrow> bn_width bn > 0 \<and> (bn_d bn ! 0) AND 1 = 1"

definition BN_is_pow2 :: "bignum \<Rightarrow> bool" where
  "BN_is_pow2 bn =
     (let width = bn_minimal_width bn
      in if width = 0 \<or> bn_neg bn then False
         else if list_ex (\<lambda>i. bn_d bn ! i \<noteq> 0) [0..<width - 1] then False
         else bn_d bn ! (width - 1) AND (bn_d bn ! (width - 1) - 1) = 0)"

definition BN_equal_consttime :: "bignum \<Rightarrow> bignum \<Rightarrow> bool" where
  "BN_equal_consttime a b =
     (let msk = fold (\<lambda>i msk. msk OR bn_d b ! i) [bn_width a..<bn_width b] 0;
          msk = fold (\<lambda>i msk. msk OR bn_d a ! i) [bn_width b..<bn_width a] msk;
          min = (if bn_width a < bn_width b then bn_width a else bn_width b);
          msk = fold (\<lambda>i msk. msk OR (bn_d a ! i XOR bn_d b ! i)) [0..<min] msk;
          msk = msk OR (of_bool (bn_neg a) XOR of_bool (bn_neg b))
      in msk = 0)"

section \<open>The heap as word memory\<close>

text \<open>The words of a heap as word memory, where the array of a number has its pointer.\<close>

definition bn_mem :: "bn_heap \<Rightarrow> wmem" where
  "bn_mem h = (\<lambda>i. bn_d (h i))"

definition bn_with_mem :: "bn_heap \<Rightarrow> wmem \<Rightarrow> bn_heap" where
  "bn_with_mem h m = (\<lambda>i. (h i)\<lparr>bn_d := m i\<rparr>)"

definition bn_set_neg :: "nat \<Rightarrow> bool \<Rightarrow> bn_heap \<Rightarrow> bn_heap" where
  "bn_set_neg r n h = h(r := (h r)\<lparr>bn_neg := n\<rparr>)"

section \<open>The integer a number stands for\<close>

definition BN_MAX_WORDS :: nat where "BN_MAX_WORDS = INT_MAX div (4 * BN_BITS2)"

definition bn_words :: "bignum \<Rightarrow> BN_ULONG list" where
  "bn_words b = take (bn_width b) (bn_d b)"

definition bn_abs :: "bignum \<Rightarrow> nat" where
  "bn_abs b = words_val (bn_words b)"

definition bn_val :: "bignum \<Rightarrow> int" where
  "bn_val b = (if bn_neg b then - int (bn_abs b) else int (bn_abs b))"

text \<open>The structure invariant of \<open>bignum_st\<close>: the words are allocated, and zero has no sign.\<close>

definition bn_ok :: "bignum \<Rightarrow> bool" where
  "bn_ok b \<longleftrightarrow> length (bn_d b) = bn_dmax b \<and> bn_width b \<le> bn_dmax b
     \<and> bn_dmax b \<le> BN_MAX_WORDS \<and> (bn_neg b \<longrightarrow> bn_abs b \<noteq> 0)"

text \<open>Up to the sign of zero, which the routines on absolute values leave to their callers.\<close>

definition bn_room :: "bignum \<Rightarrow> bool" where
  "bn_room b \<longleftrightarrow> length (bn_d b) = bn_dmax b \<and> bn_width b \<le> bn_dmax b \<and> bn_dmax b \<le> BN_MAX_WORDS"

definition bn_minimal :: "bignum \<Rightarrow> bool" where
  "bn_minimal b \<longleftrightarrow> (bn_width b \<noteq> 0 \<longrightarrow> bn_d b ! (bn_width b - 1) \<noteq> 0)"

text \<open>The block of a number can be made to hold \<open>n\<close> words.\<close>

definition bn_grows :: "env \<Rightarrow> bignum \<Rightarrow> nat \<Rightarrow> bool" where
  "bn_grows e b n \<longleftrightarrow> n \<le> bn_dmax b \<or> n \<le> BN_MAX_WORDS \<and> \<not> BN_FLG_STATIC_DATA b
     \<and> malloc_ok e (8 * n + OPENSSL_MALLOC_PREFIX)"

lemma bn_ok_room: "bn_ok b \<longleftrightarrow> bn_room b \<and> (bn_neg b \<longrightarrow> bn_abs b \<noteq> 0)"
  by (simp add: bn_ok_def bn_room_def)

lemma bn_room_le: "bn_room b \<Longrightarrow> bn_width b \<le> length (bn_d b)"
  by (simp add: bn_room_def)

lemma length_bn_words [simp]: "bn_room b \<Longrightarrow> length (bn_words b) = bn_width b"
  by (simp add: bn_words_def bn_room_def)

section \<open>Growing\<close>

lemma length_bytes_words [simp]: "length (bytes_words bs) = length bs div 8"
proof (induction bs rule: bytes_words.induct)
  case (1 bs)
  show ?case
  proof (cases "length bs < 8")
    case True
    then show ?thesis by (subst bytes_words.simps) simp
  next
    case False
    then have "length bs div 8 = Suc ((length bs - 8) div 8)" by (simp add: div_if [of 8 "length bs"])
    with False 1 show ?thesis by (subst bytes_words.simps) simp
  qed
qed

lemma bn_max_words_small: "n \<le> BN_MAX_WORDS \<Longrightarrow> 8 * n + OPENSSL_MALLOC_PREFIX \<le> SIZE_MAX"
  by (simp add: BN_MAX_WORDS_def INT_MAX_def BN_BITS2_def SIZE_MAX_def OPENSSL_MALLOC_PREFIX_def)

lemma bn_wexpand_None_iff: "fst (bn_wexpand e n b) = None \<longleftrightarrow> bn_grows e b n"
  using bn_max_words_small [of n]
  by (auto simp: bn_wexpand_def bn_grows_def BN_MAX_WORDS_def OPENSSL_malloc_def Let_def
      sizeof_BN_ULONG_def size_simps split: option.splits if_splits)

lemma bn_wexpand_spec:
  assumes "bn_wexpand e n b = (st, b')" and "bn_room b"
  shows "bn_room b' \<and> bn_width b' = bn_width b \<and> bn_neg b' = bn_neg b \<and> bn_words b' = bn_words b
    \<and> BN_FLG_STATIC_DATA b' = BN_FLG_STATIC_DATA b \<and> BN_FLG_MALLOCED b' = BN_FLG_MALLOCED b
    \<and> (st = None \<longrightarrow> n \<le> bn_dmax b') \<and> (st \<noteq> None \<longrightarrow> b' = b) \<and> bn_dmax b \<le> bn_dmax b'"
proof (cases "bn_dmax b < n \<and> st = None")
  case False
  with assms show ?thesis
    by (auto simp: bn_wexpand_def Let_def split: if_splits option.splits)
next
  case True
  with assms(1) obtain blk where n: "n \<le> BN_MAX_WORDS" and m: "OPENSSL_malloc e (8 * n) = Some blk"
    and b': "b' = b\<lparr>bn_d := overwrite (bytes_words (blk_data blk)) 0 (take (bn_width b) (bn_d b)), bn_dmax := n\<rparr>"
    by (auto simp: bn_wexpand_def Let_def BN_MAX_WORDS_def sizeof_BN_ULONG_def split: if_splits option.splits)
  from m have "length (blk_data blk) = 8 * n"
    using bn_max_words_small [OF n] by (auto simp: OPENSSL_malloc_def Let_def size_simps split: if_splits)
  then have l: "length (bytes_words (blk_data blk)) = n" by simp
  moreover have w: "bn_width b \<le> length (bn_d b)" "bn_width b \<le> n" using assms(2) True by (auto simp: bn_room_def)
  ultimately show ?thesis using assms(2) n True
    by (simp add: b' bn_room_def bn_words_def overwrite_def)
qed

lemma bn_wexpand_abs:
  assumes "bn_wexpand e n b = (st, b')" and "bn_room b"
  shows "bn_abs b' = bn_abs b" and "bn_val b' = bn_val b" and "bn_ok b' = bn_ok b"
  using bn_wexpand_spec [OF assms] assms(2) by (auto simp: bn_abs_def bn_val_def bn_ok_room)

section \<open>Minimal width\<close>

lemma bn_minimal_loop_spec:
  "n \<le> length d \<Longrightarrow> bn_minimal_loop d n \<le> n
    \<and> words_val (take (bn_minimal_loop d n) d) = words_val (take n d)
    \<and> (bn_minimal_loop d n \<noteq> 0 \<longrightarrow> d ! (bn_minimal_loop d n - 1) \<noteq> 0)"
proof (induction n)
  case (Suc n)
  show ?case
  proof (cases "d ! n = 0")
    case True
    with Suc.prems have "take (Suc n) d = take n d @ [0]" by (simp add: take_Suc_conv_app_nth)
    with Suc True show ?thesis by (simp add: words_val_append le_SucI)
  qed simp
qed simp

lemma bn_minimal_width_le: "bn_room b \<Longrightarrow> bn_minimal_width b \<le> bn_width b"
  using bn_minimal_loop_spec [of "bn_width b" "bn_d b"] by (simp add: bn_minimal_width_def bn_room_def)

lemma bn_abs_minimal:
  "bn_room b \<Longrightarrow> words_val (take (bn_minimal_width b) (bn_d b)) = bn_abs b"
  using bn_minimal_loop_spec [of "bn_width b" "bn_d b"]
  by (simp add: bn_minimal_width_def bn_abs_def bn_words_def bn_room_def)

lemma bn_minimal_top:
  "bn_room b \<Longrightarrow> bn_minimal_width b \<noteq> 0 \<Longrightarrow> bn_d b ! (bn_minimal_width b - 1) \<noteq> 0"
  using bn_minimal_loop_spec [of "bn_width b" "bn_d b"] by (simp add: bn_minimal_width_def bn_room_def)

lemma words_val_top:
  assumes "n < length d" and "d ! n \<noteq> 0"
  shows "BN_BASE ^ n \<le> words_val (take (Suc n) d)"
proof -
  have "1 \<le> unat (d ! n)" using assms(2) by (simp add: Suc_le_eq unat_gt_0)
  then have "BN_BASE ^ n * 1 \<le> BN_BASE ^ n * unat (d ! n)" by (rule mult_le_mono2)
  also have "\<dots> \<le> words_val (take (Suc n) d)"
    using assms(1) by (simp add: take_Suc_conv_app_nth words_val_append)
  finally show ?thesis by simp
qed

text \<open>The minimal width is how many words the absolute value needs.\<close>

lemma bn_minimal_width_iff:
  assumes "bn_room b"
  shows "bn_abs b < BN_BASE ^ bn_minimal_width b"
    and "n < bn_minimal_width b \<Longrightarrow> BN_BASE ^ n \<le> bn_abs b"
proof -
  let ?k = "bn_minimal_width b"
  have k: "?k \<le> length (bn_d b)" using bn_minimal_width_le [OF assms] bn_room_le [OF assms] by simp
  show "bn_abs b < BN_BASE ^ ?k"
    using words_val_bound [of "take ?k (bn_d b)"] k bn_abs_minimal [OF assms] by (simp add: min_absorb1)
  assume n: "n < ?k"
  then have "BN_BASE ^ n \<le> BN_BASE ^ (?k - 1)" by (intro power_increasing) simp_all
  also have "\<dots> \<le> words_val (take (Suc (?k - 1)) (bn_d b))"
    using n k bn_minimal_top [OF assms] by (intro words_val_top) simp_all
  also have "\<dots> = bn_abs b" using n bn_abs_minimal [OF assms] by simp
  finally show "BN_BASE ^ n \<le> bn_abs b" .
qed

lemma bn_minimal_width_zero: "bn_room b \<Longrightarrow> bn_minimal_width b = 0 \<longleftrightarrow> bn_abs b = 0"
  using bn_minimal_width_iff [of b] bn_minimal_width_iff(2) [of b 0] by fastforce

lemma bn_set_minimal_width_spec:
  assumes "bn_room b"
  shows "bn_ok (bn_set_minimal_width b) \<and> bn_minimal (bn_set_minimal_width b)
    \<and> bn_val (bn_set_minimal_width b) = bn_val b \<and> bn_abs (bn_set_minimal_width b) = bn_abs b
    \<and> bn_neg (bn_set_minimal_width b) = (bn_neg b \<and> bn_abs b \<noteq> 0)
    \<and> bn_dmax (bn_set_minimal_width b) = bn_dmax b"
proof -
  let ?k = "bn_minimal_width b"
  have k: "?k \<le> bn_width b" by (rule bn_minimal_width_le [OF assms])
  note bn_abs_minimal [OF assms] bn_minimal_top [OF assms] bn_minimal_width_zero [OF assms]
  with k assms show ?thesis
    by (cases "?k = 0")
      (auto simp: bn_set_minimal_width_def Let_def bn_ok_def bn_room_def bn_minimal_def bn_val_def bn_abs_def bn_words_def)
qed

lemma or_words_zero: "fold (\<lambda>i msk. msk OR f i) is x = 0 \<longleftrightarrow> x = (0 :: BN_ULONG) \<and> (\<forall>i \<in> set is. f i = 0)"
  by (induction "is" arbitrary: x) (auto simp: or_eq_0_iff)

lemma words_val_drop_zero:
  assumes "k \<le> n" "n \<le> length d"
  shows "(\<forall>i \<in> {k..<n}. d ! i = 0) \<longleftrightarrow> words_val (take n d) < BN_BASE ^ k"
proof -
  have "take n d = take k d @ take (n - k) (drop k d)"
    using assms(1) by (simp flip: take_add)
  then have "words_val (take n d) < BN_BASE ^ k \<longleftrightarrow> words_val (take (n - k) (drop k d)) = 0"
    using words_val_less_append [of "take k d" "take (n - k) (drop k d)"] assms by (simp add: min_absorb1)
  also have "\<dots> \<longleftrightarrow> (\<forall>i < n - k. d ! (k + i) = 0)"
    using assms by (simp add: words_val_zero_iff all_set_conv_all_nth)
  also have "\<dots> \<longleftrightarrow> (\<forall>i \<in> {k..<n}. d ! i = 0)"
    using assms(1) by (auto simp: le_iff_add)
  finally show ?thesis by simp
qed

lemma bn_fits_in_words_iff:
  assumes "bn_room b"
  shows "bn_fits_in_words b n \<longleftrightarrow> bn_abs b < BN_BASE ^ n"
proof (cases "n \<le> bn_width b")
  case True
  then show ?thesis
    using words_val_drop_zero [OF True bn_room_le [OF assms]]
    by (simp add: bn_fits_in_words_def or_words_def or_words_zero bn_abs_def bn_words_def)
next
  case False
  have "bn_abs b < BN_BASE ^ bn_width b"
    using words_val_bound [of "bn_words b"] assms by (simp add: bn_abs_def)
  also have "\<dots> \<le> BN_BASE ^ n" using False by (intro power_increasing) simp_all
  finally show ?thesis using False by (simp add: bn_fits_in_words_def or_words_def)
qed

lemma BN_is_zero_iff: "bn_room b \<Longrightarrow> BN_is_zero b \<longleftrightarrow> bn_abs b = 0"
  by (simp add: BN_is_zero_def bn_fits_in_words_iff)

section \<open>Comparison\<close>

lemma constant_time_select_int_mask:
  "constant_time_select_int (mask_of p) a b = (if p then a else b)"
  by (rule bit_word_eqI)
    (auto simp: constant_time_select_int_def constant_time_select_w_def mask_of_def bit_simps)

lemma cmp_common_words:
  assumes "n \<le> length a" and "n \<le> length b"
  shows "fold (\<lambda>i ret. let eq = constant_time_eq_w (a ! i) (b ! i);
                          lt = constant_time_lt_w (a ! i) (b ! i)
           in constant_time_select_int eq ret (constant_time_select_int lt (- 1) 1)) [0..<n] (0 :: 32 word)
    = of_int (sgn (int (words_val (take n a)) - int (words_val (take n b))))"
  using assms
proof (induction n)
  case (Suc n)
  let ?A = "words_val (take n a)" and ?B = "words_val (take n b)"
  have A: "?A < BN_BASE ^ n" and B: "?B < BN_BASE ^ n"
    using words_val_bound [of "take n a"] words_val_bound [of "take n b"] Suc.prems by (simp_all add: min_absorb1)
  have e: "words_val (take (Suc n) a) = ?A + BN_BASE ^ n * unat (a ! n)"
    "words_val (take (Suc n) b) = ?B + BN_BASE ^ n * unat (b ! n)"
    using Suc.prems by (simp_all add: take_Suc_conv_app_nth words_val_append)
  have less: "words_val (take (Suc n) x) < words_val (take (Suc n) y)"
    if "unat (x ! n) < unat (y ! n)" "n < length x" "n < length y" for x y
  proof -
    have "words_val (take (Suc n) x) < BN_BASE ^ n * (unat (x ! n) + 1)"
      using words_val_bound [of "take n x"] that(2)
      by (simp add: take_Suc_conv_app_nth words_val_append min_absorb1 algebra_simps)
    also have "\<dots> \<le> BN_BASE ^ n * unat (y ! n)" using that(1) by (intro mult_le_mono2) simp
    also have "\<dots> \<le> words_val (take (Suc n) y)"
      using that(3) by (simp add: take_Suc_conv_app_nth words_val_append)
    finally show ?thesis .
  qed
  consider "a ! n = b ! n" | "unat (a ! n) < unat (b ! n)" | "unat (b ! n) < unat (a ! n)"
    by (metis linorder_neqE_nat unat_inject)
  then show ?case
  proof cases
    case 1
    with Suc show ?thesis
      by (simp add: constant_time_eq_w_mask constant_time_lt_w_mask constant_time_select_int_mask e)
  next
    case 2
    with less [of a b] Suc show ?thesis
      by (simp add: constant_time_eq_w_mask constant_time_lt_w_mask constant_time_select_int_mask
          word_less_nat_alt word_unat_eq_iff)
  next
    case 3
    with less [of b a] Suc show ?thesis
      by (simp add: constant_time_eq_w_mask constant_time_lt_w_mask constant_time_select_int_mask
          word_less_nat_alt word_unat_eq_iff)
  qed
qed simp

lemma cmp_words_sgn:
  "bn_cmp_words_consttime a b = of_int (sgn (int (words_val a) - int (words_val b)))"
proof -
  let ?k = "min (length a) (length b)"
  have zero: "or_words d k (length d) = 0 \<longleftrightarrow> words_val d < BN_BASE ^ k" if "k \<le> length d" for d k
    using words_val_drop_zero [of k "length d" d] that by (simp add: or_words_def or_words_zero)
  have cut: "words_val d < BN_BASE ^ k \<Longrightarrow> words_val (take k d) = words_val d" for d k
    using words_val_append [of "take k d" "drop k d"] words_val_less_append [of "take k d" "drop k d"]
    by (cases "k \<le> length d") (simp_all add: min_absorb1)
  have A: "words_val a < BN_BASE ^ length a" and B: "words_val b < BN_BASE ^ length b"
    by (rule words_val_bound)+
  consider "length a = length b" | "length a < length b" | "length b < length a" by linarith
  then show ?thesis
  proof cases
    case 1
    then show ?thesis using cmp_common_words [of "length a" a b] by (simp add: bn_cmp_words_consttime_def)
  next
    case 2
    then show ?thesis using cmp_common_words [of "length a" a b] zero [of "length a" b] cut [of b "length a"] A
      by (auto simp: bn_cmp_words_consttime_def Let_def constant_time_is_zero_w_mask constant_time_select_int_mask)
  next
    case 3
    then show ?thesis using cmp_common_words [of "length b" a b] zero [of "length b" a] cut [of a "length b"] B
      by (auto simp: bn_cmp_words_consttime_def Let_def constant_time_is_zero_w_mask constant_time_select_int_mask)
  qed
qed

lemma BN_ucmp_sgn: "BN_ucmp a b = sgn (int (bn_abs a) - int (bn_abs b))"
  by (simp add: BN_ucmp_def cmp_words_sgn bn_abs_def bn_words_def sgn_if)

lemma BN_cmp_sgn:
  assumes "bn_ok a" and "bn_ok b"
  shows "BN_cmp (Some a) (Some b) = sgn (bn_val a - bn_val b)"
  using assms by (auto simp: BN_cmp_def Let_def BN_ucmp_sgn bn_val_def bn_ok_def sgn_if)

section \<open>Heaps\<close>

lemma bn_on_eq: "bn_on r f h = (fst (f (h r)), h(r := snd (f (h r))))"
  by (simp add: bn_on_def split_beta)

lemma bn_mem_in_words: "bn_room (h i) \<Longrightarrow> n \<le> bn_dmax (h i) \<Longrightarrow> in_words (bn_mem h) (i, 0) n"
  by (simp add: in_words_def bn_mem_def bn_room_def)

lemma bn_mem_words_at: "words_at (bn_mem h) (i, 0) (bn_width (h i)) = bn_words (h i)"
  by (simp add: words_at_def bn_mem_def bn_words_def)

text \<open>A result of \<open>length xs\<close> words written over the array of \<open>r\<close>.\<close>

lemma bn_with_mem_put:
  "bn_with_mem h (words_put (bn_mem h) (r, 0) xs) = h(r := (h r)\<lparr>bn_d := overwrite (bn_d (h r)) 0 xs\<rparr>)"
  by (auto simp: bn_with_mem_def bn_mem_def words_put_def fun_eq_iff)

lemma bn_store_words:
  assumes "bn_room b" and "length xs \<le> bn_dmax b"
    and "b' = b\<lparr>bn_d := overwrite (bn_d b) 0 xs, bn_width := length xs, bn_neg := n\<rparr>"
  shows "bn_room b'" and "bn_words b' = xs" and "bn_abs b' = words_val xs"
  using assms by (simp_all add: bn_room_def bn_words_def bn_abs_def overwrite_def)

text \<open>The heap after \<open>bn_wexpand\<close> on the result: every number keeps its value and its words.\<close>

lemma wexpand_heap:
  assumes "bn_wexpand e n (h r) = (None, b)" and "bn_room (h r)"
  shows "bn_width ((h(r := b)) i) = bn_width (h i)" and "bn_words ((h(r := b)) i) = bn_words (h i)"
    and "bn_room (h i) \<Longrightarrow> bn_room ((h(r := b)) i)" and "n \<le> bn_dmax b"
    and "bn_neg ((h(r := b)) i) = bn_neg (h i)" and "bn_dmax (h i) \<le> bn_dmax ((h(r := b)) i)"
  using bn_wexpand_spec [OF assms] by auto

lemma bn_neg_update [simp]:
  "bn_abs (b\<lparr>bn_neg := n\<rparr>) = bn_abs b" "bn_words (b\<lparr>bn_neg := n\<rparr>) = bn_words b"
  "bn_room (b\<lparr>bn_neg := n\<rparr>) = bn_room b" "bn_minimal (b\<lparr>bn_neg := n\<rparr>) = bn_minimal b"
  by (simp_all add: bn_abs_def bn_words_def bn_room_def bn_minimal_def)

lemma bn_grows_cong:
  "bn_dmax b' = bn_dmax b \<Longrightarrow> BN_FLG_STATIC_DATA b' = BN_FLG_STATIC_DATA b \<Longrightarrow> bn_grows e b' n = bn_grows e b n"
  by (simp add: bn_grows_def)

lemma bn_abs_d: "bn_abs (b\<lparr>bn_d := d\<rparr>) = words_val (take (bn_width b) d)"
  by (simp add: bn_abs_def bn_words_def)

end
