(* ===== verification/BnSet.thy ===== *)
theory BnSet
  imports Bignum
begin

text \<open>
  The rest of \<open>bn.c\<close> and \<open>cmp.c\<close>: copies, words and small numbers put in and taken out, the number of
  bits, the sign, and the predicates on one number, each with the integer it is about.
\<close>

lemma BN_set_word_spec:
  assumes "BN_set_word e w b = (st, b')" and "bn_room b"
  shows "(st = None \<longleftrightarrow> w = 0 \<or> bn_grows e b 1) \<and> (st \<noteq> None \<longrightarrow> b' = b)
    \<and> (st = None \<longrightarrow> bn_ok b' \<and> bn_minimal b' \<and> \<not> bn_neg b' \<and> bn_abs b' = unat w)"
proof (cases "w = 0")
  case True
  with assms show ?thesis
    by (auto simp: BN_set_word_def BN_zero_def bn_ok_room bn_room_def bn_minimal_def bn_abs_def bn_words_def)
next
  case False
  obtain st1 b1 where w: "bn_wexpand e 1 b = (st1, b1)" by fastforce
  note s = bn_wexpand_spec [OF w assms(2)]
  have g: "st1 = None \<longleftrightarrow> bn_grows e b 1" using bn_wexpand_None_iff [of e 1 b] unfolding w by simp
  show ?thesis
  proof (cases st1)
    case None
    with assms(1) False w have st: "st = None" and b': "b' = b1\<lparr>bn_neg := False, bn_d := (bn_d b1)[0 := w], bn_width := 1\<rparr>"
      by (simp_all add: BN_set_word_def)
    from s None have "bn_room b1" "1 \<le> bn_dmax b1" by auto
    then have d: "take 1 ((bn_d b1)[0 := w]) = [w]" "bn_d b1 \<noteq> []"
      by (cases "bn_d b1"; simp add: bn_room_def)+
    with \<open>bn_room b1\<close> \<open>1 \<le> bn_dmax b1\<close> show ?thesis using st g None False
      by (simp add: b' bn_ok_room bn_room_def bn_minimal_def bn_abs_def bn_words_def)
  next
    case (Some err)
    with assms(1) False w s g show ?thesis by (auto simp: BN_set_word_def)
  qed
qed

section \<open>Copies\<close>

lemma BN_init_facts [simp]:
  "bn_room BN_init" "bn_ok BN_init" "bn_abs BN_init = 0" "\<not> bn_neg BN_init" "bn_width BN_init = 0"
  "\<not> BN_FLG_STATIC_DATA BN_init" "bn_dmax BN_init = 0"
  by (simp_all add: BN_init_def bn_room_def bn_ok_def bn_abs_def bn_words_def)

lemma bn_malloced_update [simp]:
  "bn_room (b\<lparr>BN_FLG_MALLOCED := f\<rparr>) = bn_room b" "bn_abs (b\<lparr>BN_FLG_MALLOCED := f\<rparr>) = bn_abs b"
  "bn_ok (b\<lparr>BN_FLG_MALLOCED := f\<rparr>) = bn_ok b"
  by (simp_all add: bn_room_def bn_abs_def bn_words_def bn_ok_def)

lemma bn_copy_from_spec:
  assumes "bn_copy_from e src dest = (st, dest')" and "bn_ok src" and "bn_room dest"
  shows "(st = None \<longleftrightarrow> bn_grows e dest (bn_width src)) \<and> (st \<noteq> None \<longrightarrow> dest' = dest)
    \<and> (st = None \<longrightarrow> bn_ok dest' \<and> bn_words dest' = bn_words src \<and> bn_val dest' = bn_val src)"
proof -
  obtain st1 b1 where w: "bn_wexpand e (bn_width src) dest = (st1, b1)" by fastforce
  note s = bn_wexpand_spec [OF w assms(3)]
  have g: "st1 = None \<longleftrightarrow> bn_grows e dest (bn_width src)"
    using bn_wexpand_None_iff [of e "bn_width src" dest] unfolding w by simp
  show ?thesis
  proof (cases st1)
    case (Some err)
    with assms(1) w s g show ?thesis by (auto simp: bn_copy_from_def)
  next
    case None
    have src: "bn_room src" using assms(2) by (simp add: bn_ok_room)
    from None s have b1: "bn_room b1" "length (bn_words src) \<le> bn_dmax b1" using src by simp_all
    from assms(1) w None have st: "st = None"
      and d: "dest' = b1\<lparr>bn_d := overwrite (bn_d b1) 0 (bn_words src), bn_width := length (bn_words src),
                bn_neg := bn_neg src\<rparr>"
      by (simp_all add: bn_copy_from_def bn_words_def [symmetric] src)
    from bn_store_words [OF b1 d] have "bn_room dest'" "bn_words dest' = bn_words src" "bn_abs dest' = bn_abs src"
      by (simp_all add: bn_abs_def)
    moreover have "bn_neg dest' = bn_neg src" by (simp add: d)
    ultimately show ?thesis using st g None assms(2) by (simp add: bn_ok_room bn_val_def)
  qed
qed

lemma BN_copy_spec:
  assumes "BN_copy e dest src h = (st, h')" and "bn_ok (h src)" and "bn_room (h dest)"
  shows "(st \<noteq> None \<longrightarrow> h' = h) \<and> (\<forall>i. i \<noteq> dest \<longrightarrow> h' i = h i)
    \<and> (st = None \<longrightarrow> bn_ok (h' dest) \<and> bn_words (h' dest) = bn_words (h src)
        \<and> bn_val (h' dest) = bn_val (h src))"
proof (cases "src = dest")
  case True
  with assms show ?thesis by (simp add: BN_copy_def)
next
  case False
  obtain st1 b1 where c: "bn_copy_from e (h src) (h dest) = (st1, b1)" by fastforce
  with False assms(1) have "st = st1" "h' = h(dest := b1)" by (simp_all add: BN_copy_def bn_on_eq)
  with bn_copy_from_spec [OF c assms(2,3)] show ?thesis by auto
qed

lemma BN_dup_spec:
  assumes "BN_dup e (Some src) = Some c" and "bn_ok src"
  shows "bn_ok c \<and> bn_val c = bn_val src"
  using assms bn_copy_from_spec [of e src "BN_init\<lparr>BN_FLG_MALLOCED := True\<rparr>"]
  by (auto simp: BN_dup_def BN_new_def split: option.splits prod.splits)

lemma BN_clear_ok: "bn_room b \<Longrightarrow> bn_ok (BN_clear b) \<and> bn_val (BN_clear b) = 0"
  by (simp add: BN_clear_def bn_ok_def bn_val_def bn_abs_def bn_words_def bn_room_def)

lemma BN_zero_ok: "bn_room b \<Longrightarrow> bn_ok (BN_zero b) \<and> bn_val (BN_zero b) = 0"
  by (simp add: BN_zero_def bn_ok_def bn_val_def bn_abs_def bn_words_def bn_room_def)

lemma BN_value_one_ok: "bn_ok BN_value_one \<and> bn_val BN_value_one = 1"
  by (simp add: BN_value_one_def bn_ok_def bn_val_def bn_abs_def bn_words_def BN_MAX_WORDS_def INT_MAX_def BN_BITS2_def)

lemma BN_set_negative_spec:
  "bn_ok b \<Longrightarrow> bn_ok (BN_set_negative s b) \<and> bn_val (BN_set_negative s b) = (if s then - int (bn_abs b) else int (bn_abs b))"
  using BN_is_zero_iff [of b] by (auto simp: BN_set_negative_def bn_ok_room bn_val_def)

section \<open>Words in and out\<close>

lemma bn_set_words_spec:
  assumes "bn_set_words e ws n b = (st, b')" and "bn_room b" and "n \<le> length ws"
  shows "(st = None \<longleftrightarrow> bn_grows e b n) \<and> (st \<noteq> None \<longrightarrow> b' = b)
    \<and> (st = None \<longrightarrow> bn_ok b' \<and> bn_words b' = take n ws \<and> bn_val b' = int (words_val (take n ws)))"
proof -
  obtain st1 b1 where w: "bn_wexpand e n b = (st1, b1)" by fastforce
  note s = bn_wexpand_spec [OF w assms(2)]
  have g: "st1 = None \<longleftrightarrow> bn_grows e b n"
    using bn_wexpand_None_iff [of e n b] unfolding w by simp
  show ?thesis
  proof (cases st1)
    case (Some err)
    with assms(1) w s g show ?thesis by (auto simp: bn_set_words_def)
  next
    case None
    from None s have b1: "bn_room b1" "length (take n ws) \<le> bn_dmax b1" using assms(3) by simp_all
    from assms(1,3) w None have st: "st = None"
      and d: "b' = b1\<lparr>bn_d := overwrite (bn_d b1) 0 (take n ws), bn_width := length (take n ws), bn_neg := False\<rparr>"
      by (simp_all add: bn_set_words_def min_absorb2)
    from bn_store_words [OF b1 d] have "bn_room b'" "bn_words b' = take n ws" "bn_abs b' = words_val (take n ws)"
      by simp_all
    moreover have "\<not> bn_neg b'" by (simp add: d)
    ultimately show ?thesis using st g None by (simp add: bn_ok_room bn_val_def)
  qed
qed

lemma bn_copy_words_spec:
  assumes "bn_ok b"
  shows "(\<exists>ws. bn_copy_words n b = Inr ws \<and> length ws = n \<and> int (words_val ws) = bn_val b)
    \<longleftrightarrow> 0 \<le> bn_val b \<and> bn_val b < int (BN_BASE ^ n)"
    and "bn_copy_words n b = Inr ws \<Longrightarrow> length ws = n \<and> int (words_val ws) = bn_val b"
proof -
  have room: "bn_room b" using assms by (simp add: bn_ok_room)
  let ?w = "if bn_width b > n then n else bn_width b"
  have len: "?w \<le> length (bn_d b)" "?w \<le> n" using bn_room_le [OF room] by auto
  have v: "words_val (overwrite (replicate n 0) 0 (take ?w (bn_d b))) = words_val (take ?w (bn_d b))"
    "length (overwrite (replicate n (0 :: BN_ULONG)) 0 (take ?w (bn_d b))) = n"
    using len by (simp_all add: overwrite_def words_val_append)
  have cut: "words_val (take ?w (bn_d b)) = bn_abs b" if "bn_abs b < BN_BASE ^ n"
  proof (cases "bn_width b > n")
    case True
    have "bn_words b = take n (bn_d b) @ take (bn_width b - n) (drop n (bn_d b))"
      using True by (simp add: bn_words_def flip: take_add)
    moreover have "length (take n (bn_d b)) = n" using True len by simp
    ultimately show ?thesis
      using words_val_less_append [of "take n (bn_d b)" "take (bn_width b - n) (drop n (bn_d b))"] that True
      by (simp add: bn_abs_def words_val_append)
  qed (simp add: bn_abs_def bn_words_def)
  have fit: "\<not> (bn_width b > n \<and> \<not> bn_fits_in_words b n) \<longleftrightarrow> bn_abs b < BN_BASE ^ n"
  proof (cases "bn_width b > n")
    case False
    have "bn_abs b < BN_BASE ^ bn_width b"
      using words_val_bound [of "bn_words b"] room by (simp add: bn_abs_def)
    also have "\<dots> \<le> BN_BASE ^ n" using False by (intro power_increasing) simp_all
    finally show ?thesis using False by simp
  qed (simp add: bn_fits_in_words_iff [OF room])
  have nv: "0 \<le> bn_val b \<longleftrightarrow> \<not> bn_neg b" using assms by (auto simp: bn_val_def bn_ok_def)
  have run: "bn_copy_words n b = (if bn_neg b then Inl BN_R_NEGATIVE_NUMBER
      else if \<not> bn_abs b < BN_BASE ^ n then Inl BN_R_BIGNUM_TOO_LONG
      else Inr (overwrite (replicate n 0) 0 (take ?w (bn_d b))))"
    unfolding fit [symmetric] by (simp add: bn_copy_words_def Let_def)
  show two: "length ws = n \<and> int (words_val ws) = bn_val b" if "bn_copy_words n b = Inr ws" for ws
    using that v cut unfolding run by (auto simp: bn_val_def split: if_splits)
  have "(\<exists>ws. bn_copy_words n b = Inr ws) \<longleftrightarrow> \<not> bn_neg b \<and> bn_abs b < BN_BASE ^ n"
    unfolding run by simp
  moreover have "\<not> bn_neg b \<Longrightarrow> bn_val b < int (BN_BASE ^ n) \<longleftrightarrow> bn_abs b < BN_BASE ^ n"
    unfolding bn_val_def by (simp only: if_False of_nat_less_iff)
  ultimately show "(\<exists>ws. bn_copy_words n b = Inr ws \<and> length ws = n \<and> int (words_val ws) = bn_val b)
    \<longleftrightarrow> 0 \<le> bn_val b \<and> bn_val b < int (BN_BASE ^ n)"
    using two nv by blast
qed

lemma bn_resize_words_spec:
  assumes "bn_resize_words e n b = (st, b')" and "bn_ok b"
  shows "(st = None \<longrightarrow> bn_ok b' \<and> bn_val b' = bn_val b \<and> bn_width b' = n)
    \<and> (st \<noteq> None \<longrightarrow> b' = b)
    \<and> (st = None \<longleftrightarrow> bn_abs b < BN_BASE ^ n \<and> (bn_width b \<le> n \<longrightarrow> bn_grows e b n))"
proof -
  have room: "bn_room b" using assms(2) by (simp add: bn_ok_room)
  show ?thesis
  proof (cases "bn_width b \<le> n")
    case False
    have "bn_abs (b\<lparr>bn_width := n\<rparr>) = bn_abs b" if "bn_abs b < BN_BASE ^ n"
    proof -
      have "bn_words b = take n (bn_d b) @ take (bn_width b - n) (drop n (bn_d b))"
        using False by (simp add: bn_words_def flip: take_add)
      then show ?thesis
        using words_val_less_append [of "take n (bn_d b)" "take (bn_width b - n) (drop n (bn_d b))"] that False
          bn_room_le [OF room] by (simp add: bn_abs_def words_val_append bn_words_def)
    qed
    moreover have "bn_resize_words e n b = (if bn_abs b < BN_BASE ^ n then (None, b\<lparr>bn_width := n\<rparr>)
        else (Some BN_R_BIGNUM_TOO_LONG, b))"
      using False by (simp add: bn_resize_words_def bn_fits_in_words_iff [OF room])
    ultimately show ?thesis using False assms
      by (cases "bn_abs b < BN_BASE ^ n") (auto simp: bn_ok_room bn_room_def bn_val_def)
  next
    case True
    have lt: "bn_abs b < BN_BASE ^ n"
    proof -
      have "bn_abs b < BN_BASE ^ bn_width b"
        using words_val_bound [of "bn_words b"] room by (simp add: bn_abs_def)
      also have "\<dots> \<le> BN_BASE ^ n" using True by (intro power_increasing) simp_all
      finally show ?thesis .
    qed
    obtain st1 b1 where w: "bn_wexpand e n b = (st1, b1)" by fastforce
    note s = bn_wexpand_spec [OF w room]
    have g: "st1 = None \<longleftrightarrow> bn_grows e b n"
      using bn_wexpand_None_iff [of e n b] unfolding w by simp
    show ?thesis
    proof (cases st1)
      case (Some err)
      with assms(1) w s g True show ?thesis by (auto simp: bn_resize_words_def)
    next
      case None
      with s have b1: "bn_room b1" "n \<le> bn_dmax b1" "bn_width b1 = bn_width b" "bn_neg b1 = bn_neg b"
        "bn_words b1 = bn_words b" by simp_all
      let ?d = "overwrite (bn_d b1) (bn_width b) (replicate (n - bn_width b) 0)"
      have t: "take n ?d = bn_words b @ replicate (n - bn_width b) 0"
        using b1 True take_overwrite [of "bn_width b" "replicate (n - bn_width b) 0" "bn_d b1"]
        by (simp add: bn_words_def bn_room_def)
      from assms(1) w None True b1 have st: "st = None" and b': "b' = b1\<lparr>bn_d := ?d, bn_width := n\<rparr>"
        by (simp_all add: bn_resize_words_def)
      have "bn_abs b' = bn_abs b"
        by (simp add: b' bn_abs_def bn_words_def [of "_\<lparr>bn_width := n\<rparr>"] t words_val_append)
      moreover have "bn_room b'" using b1 True by (simp add: b' bn_room_def)
      moreover have "bn_neg b' = bn_neg b" "bn_width b' = n" using b1 by (simp_all add: b')
      ultimately show ?thesis using st g None lt assms(2) by (simp add: bn_ok_room bn_val_def)
    qed
  qed
qed

section \<open>Number of bits\<close>

fun bit_count :: "nat \<Rightarrow> nat" where
  "bit_count n = (if n = 0 then 0 else Suc (bit_count (n div 2)))"

declare bit_count.simps [simp del]

lemma bit_count_0 [simp]: "bit_count 0 = 0" by (simp add: bit_count.simps)

lemma bit_count_1 [simp]: "bit_count (Suc 0) = 1" by (simp add: bit_count.simps)

lemma bit_count_div: "n div 2 ^ k \<noteq> 0 \<Longrightarrow> bit_count n = k + bit_count (n div 2 ^ k)"
proof (induction k arbitrary: n)
  case (Suc k)
  from Suc.prems have d: "n div 2 div 2 ^ k \<noteq> 0" by (simp add: div_mult2_eq)
  then have n: "n \<noteq> 0" by (cases "n = 0") simp_all
  from Suc.IH [OF d] n show ?case by (simp add: bit_count.simps [of n] div_mult2_eq)
qed simp

text \<open>It is the length of the binary representation.\<close>

lemma bit_count_bounds: "n \<noteq> 0 \<Longrightarrow> 2 ^ (bit_count n - 1) \<le> n \<and> n < 2 ^ bit_count n"
proof (induction n rule: bit_count.induct)
  case (1 n)
  show ?case
  proof (cases "n div 2 = 0")
    case True
    with 1(2) have "n = 1" by linarith
    then show ?thesis by simp
  next
    case False
    then have "bit_count (n div 2) \<noteq> 0" by (simp add: bit_count.simps [of "n div 2"])
    moreover from False have "2 ^ (bit_count (n div 2) - 1) \<le> n div 2" "n div 2 < 2 ^ bit_count (n div 2)"
      using 1 by auto
    ultimately show ?thesis
      using 1(2) by (cases "bit_count (n div 2)") (auto simp: bit_count.simps [of n])
  qed
qed

lemma num_bits_mask:
  assumes "unat (x :: BN_ULONG) \<le> 2 ^ 63"
  shows "0 - drop_bit (BN_BITS2 - 1) (0 - x) = mask_of (x \<noteq> 0)"
proof -
  have "bit (0 - x) 63 \<longleftrightarrow> x \<noteq> 0"
  proof (cases "x = 0")
    case False
    then have "unat x \<noteq> 0" by (simp add: unat_eq_0)
    then have "unat (0 - x) = 2 ^ 64 - unat x" using unat_sub_if' [of 0 x] by simp
    with assms have "2 ^ 63 \<le> unat (0 - x)" by simp
    with False show ?thesis by (simp only: bit_63_iff simp_thms)
  qed (simp add: bit_63_iff)
  then show ?thesis using drop_bit_63 [of "0 - x"] by (simp add: BN_BITS2_def mask_of_def del: diff_0)
qed

lemma num_bits_step_spec:
  assumes "0 < k" and "k \<le> 32"
  shows "num_bits_step k (bits, l)
    = (bits + (if drop_bit k l \<noteq> 0 then k else 0), if drop_bit k l \<noteq> 0 then drop_bit k l else l)"
proof -
  let ?x = "drop_bit k l"
  have l: "unat l div 2 ^ 1 < 2 ^ 63" by (rule less_mult_imp_div_less) simp
  have "(2 :: nat) ^ 1 \<le> 2 ^ k" using assms by (intro power_increasing) simp_all
  then have "unat l div 2 ^ k \<le> unat l div 2 ^ 1" by (intro div_le_mono2) simp_all
  with l have "unat l div 2 ^ k \<le> 2 ^ 63" by linarith
  then have m: "0 - drop_bit (BN_BITS2 - 1) (0 - ?x) = mask_of (?x \<noteq> 0)"
    by (intro num_bits_mask) (simp add: unat_drop_bit_div)
  have k: "unat (word_of_nat k :: BN_ULONG) = k"
    using assms by (simp add: unat_of_nat)
  have "l XOR ((?x XOR l) AND mask_of (?x \<noteq> 0)) = (if ?x \<noteq> 0 then ?x else l)"
    by (rule bit_word_eqI) (auto simp: mask_of_def bit_simps)
  moreover have "unat (word_of_nat k AND mask_of (?x \<noteq> 0) :: BN_ULONG) = (if ?x \<noteq> 0 then k else 0)"
    using k by (simp add: mask_of_def)
  ultimately show ?thesis by (simp only: num_bits_step_def Let_def prod.case m)
qed

lemma num_bits_step_count:
  assumes "0 < k" and "k \<le> 32" and "unat l < 2 ^ (k + k)"
  shows "\<exists>l'. (\<forall>bits. num_bits_step k (bits, l) = (bits + (bit_count (unat l) - bit_count (unat l')), l'))
    \<and> unat l' < 2 ^ k \<and> bit_count (unat l') \<le> bit_count (unat l) \<and> (l' = 0 \<longleftrightarrow> l = 0)"
proof (cases "drop_bit k l = 0")
  case True
  then have "unat l div 2 ^ k = 0" using unat_drop_bit_div [of k l] by simp
  then have "unat l < 2 ^ k" by (simp add: div_eq_0_iff)
  with True show ?thesis using num_bits_step_spec [OF assms(1,2), of _ l] by (intro exI [of _ l]) simp
next
  case False
  let ?l = "drop_bit k l"
  have u: "unat ?l = unat l div 2 ^ k" by (rule unat_drop_bit_div)
  have nz: "unat l div 2 ^ k \<noteq> 0" using False unfolding u [symmetric] by (simp add: unat_eq_0)
  have "unat l < 2 ^ k * 2 ^ k" using assms(3) by (simp add: power_add)
  then have "unat ?l < 2 ^ k" unfolding u by (simp add: less_mult_imp_div_less)
  moreover have "l \<noteq> 0" using nz by (cases "l = 0") simp_all
  ultimately show ?thesis
    using num_bits_step_spec [OF assms(1,2), of _ l] False bit_count_div [OF nz]
    by (intro exI [of _ ?l]) (simp add: u [symmetric])
qed

lemma BN_num_bits_word_count: "BN_num_bits_word l = bit_count (unat l)"
proof -
  have "unat l < 2 ^ (32 + 32)" using unsigned_less [of l, where ?'a = nat] by simp
  from num_bits_step_count [OF _ _ this] obtain l1 where
    1: "\<And>bits. num_bits_step 32 (bits, l) = (bits + (bit_count (unat l) - bit_count (unat l1)), l1)"
      "unat l1 < 2 ^ (16 + 16)" "bit_count (unat l1) \<le> bit_count (unat l)" "l1 = 0 \<longleftrightarrow> l = 0" by auto
  from num_bits_step_count [OF _ _ 1(2)] obtain l2 where
    2: "\<And>bits. num_bits_step 16 (bits, l1) = (bits + (bit_count (unat l1) - bit_count (unat l2)), l2)"
      "unat l2 < 2 ^ (8 + 8)" "bit_count (unat l2) \<le> bit_count (unat l1)" "l2 = 0 \<longleftrightarrow> l1 = 0" by auto
  from num_bits_step_count [OF _ _ 2(2)] obtain l3 where
    3: "\<And>bits. num_bits_step 8 (bits, l2) = (bits + (bit_count (unat l2) - bit_count (unat l3)), l3)"
      "unat l3 < 2 ^ (4 + 4)" "bit_count (unat l3) \<le> bit_count (unat l2)" "l3 = 0 \<longleftrightarrow> l2 = 0" by auto
  from num_bits_step_count [OF _ _ 3(2)] obtain l4 where
    4: "\<And>bits. num_bits_step 4 (bits, l3) = (bits + (bit_count (unat l3) - bit_count (unat l4)), l4)"
      "unat l4 < 2 ^ (2 + 2)" "bit_count (unat l4) \<le> bit_count (unat l3)" "l4 = 0 \<longleftrightarrow> l3 = 0" by auto
  from num_bits_step_count [OF _ _ 4(2)] obtain l5 where
    5: "\<And>bits. num_bits_step 2 (bits, l4) = (bits + (bit_count (unat l4) - bit_count (unat l5)), l5)"
      "unat l5 < 2 ^ (1 + 1)" "bit_count (unat l5) \<le> bit_count (unat l4)" "l5 = 0 \<longleftrightarrow> l4 = 0" by auto
  from num_bits_step_count [OF _ _ 5(2)] obtain l6 where
    6: "\<And>bits. num_bits_step 1 (bits, l5) = (bits + (bit_count (unat l5) - bit_count (unat l6)), l6)"
      "unat l6 < 2 ^ 1" "bit_count (unat l6) \<le> bit_count (unat l5)" "l6 = 0 \<longleftrightarrow> l5 = 0" by auto
  have "bit_count (unat l6) = of_bool (l \<noteq> 0)"
  proof (cases "l = 0")
    case False
    with 1(4) 2(4) 3(4) 4(4) 5(4) 6(4) have "unat l6 \<noteq> 0" by (simp add: unat_eq_0)
    with 6(2) have "unat l6 = 1" by simp
    with False show ?thesis by simp
  qed (use 1(4) 2(4) 3(4) 4(4) 5(4) 6(4) in simp)
  with 1(3) 2(3) 3(3) 4(3) 5(3) 6(3) show ?thesis
    unfolding BN_num_bits_word_def 1(1) 2(1) 3(1) 4(1) 5(1) 6(1) fst_conv by linarith
qed

lemma bit_count_unique:
  assumes "n \<noteq> 0 \<Longrightarrow> 2 ^ (k - 1) \<le> n" and "n < 2 ^ k" and "n = 0 \<Longrightarrow> k = 0"
  shows "bit_count n = k"
proof (cases "n = 0")
  case False
  note b = bit_count_bounds [OF False]
  from assms(1) [OF False] b have "(2 :: nat) ^ (k - 1) < 2 ^ bit_count n" by (meson le_less_trans)
  then have 1: "k - 1 < bit_count n" by simp
  from assms(2) b have "(2 :: nat) ^ (bit_count n - 1) < 2 ^ k" by (meson le_less_trans)
  then have "bit_count n - 1 < k" by simp
  with 1 show ?thesis using assms(2) False by linarith
qed (use assms in simp)

text \<open>\<open>BN_num_bits\<close> is the length of the absolute value in binary.\<close>

lemma BN_num_bits_count:
  assumes "bn_room b"
  shows "BN_num_bits b = bit_count (bn_abs b)"
proof (cases "bn_minimal_width b")
  case 0
  then show ?thesis using bn_minimal_width_zero [OF assms] by (simp add: BN_num_bits_def)
next
  case (Suc k)
  let ?w = "bn_d b ! k"
  have len: "k < length (bn_d b)" using bn_minimal_width_le [OF assms] bn_room_le [OF assms] Suc by simp
  have w: "?w \<noteq> 0" using bn_minimal_top [OF assms] Suc by simp
  have v: "bn_abs b = words_val (take k (bn_d b)) + BN_BASE ^ k * unat ?w"
    using bn_abs_minimal [OF assms] Suc len by (simp add: take_Suc_conv_app_nth words_val_append)
  have lo: "words_val (take k (bn_d b)) < BN_BASE ^ k"
    using words_val_bound [of "take k (bn_d b)"] len by (simp add: min_absorb1)
  have B: "BN_BASE ^ k = 2 ^ (k * BN_BITS2)"
    using power_mult [of "2 :: nat" 64 k] by (simp add: BN_BITS2_def mult.commute)
  have "bn_abs b div 2 ^ (k * BN_BITS2) = unat ?w" unfolding v B [symmetric] using lo by simp
  moreover have "unat ?w \<noteq> 0" using w by (simp add: unat_eq_0)
  ultimately have "bit_count (bn_abs b) = k * BN_BITS2 + bit_count (unat ?w)"
    using bit_count_div [of "bn_abs b" "k * BN_BITS2"] by simp
  then show ?thesis using Suc by (simp add: BN_num_bits_def BN_num_bits_word_count)
qed

section \<open>Predicates\<close>

lemma words_val_eq_pad:
  assumes "length xs \<le> length ys"
  shows "words_val xs = words_val ys
    \<longleftrightarrow> (\<forall>i < length xs. xs ! i = ys ! i) \<and> (\<forall>i \<in> {length xs..<length ys}. ys ! i = 0)"
proof -
  let ?xs = "xs @ replicate (length ys - length xs) 0"
  have l: "length ?xs = length ys" using assms by simp
  have "words_val xs = words_val ?xs" by (simp add: words_val_append)
  also have "\<dots> = words_val ys \<longleftrightarrow> ?xs = ys" by (rule words_val_inject [OF l])
  also have "\<dots> \<longleftrightarrow> (\<forall>i < length ys. ?xs ! i = ys ! i)" using l by (simp add: list_eq_iff_nth_eq)
  also have "\<dots> \<longleftrightarrow> (\<forall>i < length xs. xs ! i = ys ! i) \<and> (\<forall>i \<in> {length xs..<length ys}. ys ! i = 0)"
    using assms by (auto simp: nth_append split: if_splits)
  finally show ?thesis .
qed

lemma BN_equal_consttime_iff:
  assumes "bn_ok a" and "bn_ok b"
  shows "BN_equal_consttime a b \<longleftrightarrow> bn_val a = bn_val b"
proof -
  have room: "bn_room a" "bn_room b" using assms by (simp_all add: bn_ok_room)
  have len: "length (bn_words a) = bn_width a" "length (bn_words b) = bn_width b" using room by simp_all
  have x: "x XOR y = 0 \<longleftrightarrow> x = y" for x y :: BN_ULONG by (auto simp: bit_eq_iff bit_simps)
  have n: "(of_bool p XOR of_bool q :: BN_ULONG) = 0 \<longleftrightarrow> p = q" for p q by (cases p; cases q) simp_all
  have abs: "bn_abs a = bn_abs b \<longleftrightarrow>
      (\<forall>i \<in> {bn_width a..<bn_width b}. bn_d b ! i = 0) \<and> (\<forall>i \<in> {bn_width b..<bn_width a}. bn_d a ! i = 0)
      \<and> (\<forall>i < min (bn_width a) (bn_width b). bn_d a ! i = bn_d b ! i)"
  proof (cases "bn_width a \<le> bn_width b")
    case True
    then show ?thesis using words_val_eq_pad [of "bn_words a" "bn_words b"] len
      by (auto simp: bn_abs_def bn_words_def)
  next
    case False
    then show ?thesis using words_val_eq_pad [of "bn_words b" "bn_words a"] len
      by (auto simp: bn_abs_def bn_words_def)
  qed
  have "BN_equal_consttime a b \<longleftrightarrow> bn_abs a = bn_abs b \<and> bn_neg a = bn_neg b"
    unfolding abs by (auto simp: BN_equal_consttime_def Let_def or_eq_0_iff or_words_zero x n)
  then show ?thesis using assms by (auto simp: bn_val_def bn_ok_def)
qed

lemma BN_abs_is_word_iff: "bn_room b \<Longrightarrow> BN_abs_is_word b w \<longleftrightarrow> bn_abs b = unat w"
proof (cases "bn_width b")
  case 0
  then show ?thesis using unat_eq_0 [of w] by (auto simp: BN_abs_is_word_def bn_abs_def bn_words_def)
next
  case (Suc k)
  assume room: "bn_room b"
  have x: "x XOR y = 0 \<longleftrightarrow> x = y" for x y :: BN_ULONG by (auto simp: bit_eq_iff bit_simps)
  have "bn_abs b = words_val [w] \<longleftrightarrow> bn_d b ! 0 = w \<and> (\<forall>i \<in> {1..<bn_width b}. bn_d b ! i = 0)"
    using words_val_eq_pad [of "[w]" "bn_words b"] bn_room_le [OF room] Suc
    by (auto simp: bn_abs_def bn_words_def)
  then show ?thesis using Suc by (auto simp: BN_abs_is_word_def or_words_zero x)
qed

lemma BN_is_word_iff: "bn_ok b \<Longrightarrow> BN_is_word b w \<longleftrightarrow> bn_val b = int (unat w)"
  using BN_abs_is_word_iff [of b w] unat_eq_0 [of w]
  by (cases "bn_neg b"; cases "unat w") (auto simp: BN_is_word_def bn_val_def bn_ok_room simp del: of_nat_unat)

lemma BN_is_one_iff: "bn_ok b \<Longrightarrow> BN_is_one b \<longleftrightarrow> bn_val b = 1"
  using BN_abs_is_word_iff [of b 1] by (auto simp: BN_is_one_def bn_val_def bn_ok_room)

lemma BN_cmp_word_sgn:
  assumes "bn_ok a"
  shows "BN_cmp_word a w = sgn (bn_val a - int (unat w))"
proof -
  let ?b = "BN_init\<lparr>bn_d := [w], bn_width := of_bool (w > 0), bn_dmax := 1, BN_FLG_STATIC_DATA := True\<rparr>"
  have "bn_ok ?b" and "bn_val ?b = int (unat w)"
    using unat_gt_0 [of w] word_gt_0 [of w]
    by (auto simp: bn_ok_def bn_val_def bn_abs_def bn_words_def BN_init_def BN_MAX_WORDS_def INT_MAX_def BN_BITS2_def)
  then show ?thesis using BN_cmp_sgn [OF assms, of ?b] by (simp add: BN_cmp_word_def)
qed

lemma BN_is_odd_iff: "bn_room b \<Longrightarrow> BN_is_odd b \<longleftrightarrow> odd (bn_abs b)"
proof (cases "bn_width b")
  case 0
  then show ?thesis by (simp add: BN_is_odd_def bn_abs_def bn_words_def)
next
  case (Suc k)
  assume "bn_room b"
  with Suc obtain x xs where "bn_d b = x # xs" by (cases "bn_d b") (auto simp: bn_room_def)
  moreover have "x AND 1 = 1 \<longleftrightarrow> odd (unat x)"
  proof -
    have "x AND 1 = 1 \<longleftrightarrow> unat (x AND 1) = 1" by (simp add: word_unat_eq_iff)
    also have "unat (x AND 1) = unat x mod 2" by (subst unsigned_and_eq) (simp add: and_one_eq)
    finally show ?thesis by (simp add: odd_iff_mod_2_eq_one)
  qed
  ultimately show ?thesis using Suc by (simp add: BN_is_odd_def bn_abs_def bn_words_def)
qed

text \<open>The heap \<open>h'\<close> differs from \<open>h\<close> in the number at \<open>r\<close> only, which is well-formed, of minimal
  width and stands for \<open>v\<close>.\<close>

definition bn_result :: "nat \<Rightarrow> bn_heap \<Rightarrow> bn_heap \<Rightarrow> int \<Rightarrow> bool" where
  "bn_result r h h' v \<longleftrightarrow> (\<forall>i. i \<noteq> r \<longrightarrow> h' i = h i) \<and> bn_ok (h' r) \<and> bn_minimal (h' r) \<and> bn_val (h' r) = v"

text \<open>Numbers and an allocator for concrete instances.\<close>

definition small_bn :: "BN_ULONG list \<Rightarrow> bool \<Rightarrow> bignum" where
  "small_bn ws neg = \<lparr>bn_d = ws, bn_width = length ws, bn_dmax = length ws, bn_neg = neg,
     BN_FLG_MALLOCED = True, BN_FLG_STATIC_DATA = False\<rparr>"

definition small_bn_env :: env where
  "small_bn_env = \<lparr>malloc_ok = \<lambda>n. True, fresh = \<lambda>i. 0\<rparr>"

lemma small_bn_ok:
  "length ws \<le> 8 \<Longrightarrow> \<exists>w \<in> set ws. w \<noteq> 0 \<Longrightarrow> bn_ok (small_bn ws neg)"
  by (auto simp: bn_ok_def small_bn_def bn_abs_def bn_words_def words_val_zero_iff BN_MAX_WORDS_def INT_MAX_def BN_BITS2_def)

end
