(* ===== verification/BnAdd.thy ===== *)
theory BnAdd
  imports BnSet
begin

text \<open>
  \<open>add.c\<close>: addition and subtraction, of absolute values, of numbers, and of a number and a word.
  The results are those of the integers for every overlap of result and operands, and the words
  they need are stated, so that it is known when they fail.
\<close>

section \<open>add.c\<close>

definition uadd_tail_limb :: "BN_ULONG \<Rightarrow> BN_ULONG \<Rightarrow> BN_ULONG \<Rightarrow> BN_ULONG \<times> BN_ULONG" where
  "uadd_tail_limb carry a a' = (let tmp = carry + a in (tmp, of_bool (tmp < a)))"

definition bn_uadd_consttime :: "env \<Rightarrow> nat \<Rightarrow> nat \<Rightarrow> nat \<Rightarrow> bn_heap \<Rightarrow> bn_status \<times> bn_heap" where
  "bn_uadd_consttime e r a b h =
     (let (a, b) = (if bn_width (h a) < bn_width (h b) then (b, a) else (a, b));
          max = bn_width (h a);
          min = bn_width (h b)
      in case bn_on r (bn_wexpand e (max + 1)) h of
           (Some err, h) \<Rightarrow> (Some err, h)
         | (None, h) \<Rightarrow>
             let h = h(r := (h r)\<lparr>bn_width := max + 1\<rparr>);
                 (carry, m) = bn_add_words (r, 0) (a, 0) (b, 0) min (bn_mem h);
                 (carry, m) = words_loop (word_step uadd_tail_limb (r, min) (a, min) (a, min)) 0
                   (max - min) (carry, m);
                 m = wr m (r, 0) max carry
             in (None, bn_with_mem h m))"

definition BN_uadd :: "env \<Rightarrow> nat \<Rightarrow> nat \<Rightarrow> nat \<Rightarrow> bn_heap \<Rightarrow> bn_status \<times> bn_heap" where
  "BN_uadd e r a b h =
     (case bn_uadd_consttime e r a b h of
        (Some err, h) \<Rightarrow> (Some err, h)
      | (None, h) \<Rightarrow> (None, h(r := bn_set_minimal_width (h r))))"

definition usub_tail_limb :: "BN_ULONG \<Rightarrow> BN_ULONG \<Rightarrow> BN_ULONG \<Rightarrow> BN_ULONG \<times> BN_ULONG" where
  "usub_tail_limb borrow a a' = (let tmp = a in (a - borrow, of_bool (tmp < a - borrow)))"

definition bn_usub_consttime :: "env \<Rightarrow> nat \<Rightarrow> nat \<Rightarrow> nat \<Rightarrow> bn_heap \<Rightarrow> bn_status \<times> bn_heap" where
  "bn_usub_consttime e r a b h =
     (let a_width = bn_width (h a);
          b_width = bn_width (h b)
      in if b_width > a_width \<and> \<not> bn_fits_in_words (h b) a_width then (Some BN_R_ARG2_LT_ARG3, h)
         else let b_width = (if b_width > a_width then a_width else b_width)
              in case bn_on r (bn_wexpand e a_width) h of
                   (Some err, h) \<Rightarrow> (Some err, h)
                 | (None, h) \<Rightarrow>
                     let (borrow, m) = bn_sub_words (r, 0) (a, 0) (b, 0) b_width (bn_mem h);
                         (borrow, m) = words_loop (word_step usub_tail_limb (r, b_width) (a, b_width) (a, b_width))
                           0 (a_width - b_width) (borrow, m);
                         h = bn_with_mem h m
                     in if borrow \<noteq> 0 then (Some BN_R_ARG2_LT_ARG3, h)
                        else (None, h(r := (h r)\<lparr>bn_width := bn_width (h a), bn_neg := False\<rparr>)))"

definition BN_usub :: "env \<Rightarrow> nat \<Rightarrow> nat \<Rightarrow> nat \<Rightarrow> bn_heap \<Rightarrow> bn_status \<times> bn_heap" where
  "BN_usub e r a b h =
     (case bn_usub_consttime e r a b h of
        (Some err, h) \<Rightarrow> (Some err, h)
      | (None, h) \<Rightarrow> (None, h(r := bn_set_minimal_width (h r))))"

text \<open>The common end of \<open>BN_add\<close> and \<open>BN_sub\<close>: the difference of the absolute values.\<close>

definition bn_diff :: "env \<Rightarrow> nat \<Rightarrow> nat \<Rightarrow> nat \<Rightarrow> bn_heap \<Rightarrow> bn_status \<times> bn_heap" where
  "bn_diff e r a b h =
     (if BN_ucmp (h a) (h b) < 0
      then case BN_usub e r b a h of
             (Some err, h) \<Rightarrow> (Some err, h)
           | (None, h) \<Rightarrow> (None, bn_set_neg r True h)
      else case BN_usub e r a b h of
             (Some err, h) \<Rightarrow> (Some err, h)
           | (None, h) \<Rightarrow> (None, bn_set_neg r False h))"

definition BN_add :: "env \<Rightarrow> nat \<Rightarrow> nat \<Rightarrow> nat \<Rightarrow> bn_heap \<Rightarrow> bn_status \<times> bn_heap" where
  "BN_add e r a b h =
     (let a_neg = bn_neg (h a)
      in if a_neg \<noteq> bn_neg (h b)
         then let (a, b) = (if a_neg then (b, a) else (a, b)) in bn_diff e r a b h
         else let (ret, h) = BN_uadd e r a b h in (ret, bn_set_neg r a_neg h))"

definition BN_sub :: "env \<Rightarrow> nat \<Rightarrow> nat \<Rightarrow> nat \<Rightarrow> bn_heap \<Rightarrow> bn_status \<times> bn_heap" where
  "BN_sub e r a b h =
     (let (add, neg, a, b) =
            (if bn_neg (h a)
             then if bn_neg (h b) then (False, False, b, a) else (True, True, a, b)
             else if bn_neg (h b) then (True, False, a, b) else (False, False, a, b))
      in if add
         then case BN_uadd e r a b h of
                (Some err, h) \<Rightarrow> (Some err, h)
              | (None, h) \<Rightarrow> (None, bn_set_neg r neg h)
         else bn_diff e r a b h)"

text \<open>The carry of \<open>BN_add_word\<close> and the borrow of \<open>BN_sub_word\<close> through the words. The loop
  of the latter has no bound of its own: \<open>None\<close> says that it has run past the block.\<close>

function add_word_loop :: "nat \<Rightarrow> BN_ULONG list \<Rightarrow> nat \<Rightarrow> BN_ULONG \<Rightarrow> BN_ULONG list \<times> nat \<times> BN_ULONG" where
  "add_word_loop width d i w =
     (if w \<noteq> 0 \<and> i < width
      then let l = d ! i + w
           in add_word_loop width (d[i := l]) (i + 1) (if w > l then 1 else 0)
      else (d, i, w))"
  by pat_completeness auto
termination by (relation "measure (\<lambda>(width, d, i, w). width - i)") auto

function sub_word_loop :: "BN_ULONG list \<Rightarrow> nat \<Rightarrow> BN_ULONG \<Rightarrow> (BN_ULONG list \<times> nat) option" where
  "sub_word_loop d i w =
     (if i \<ge> length d then None
      else if d ! i \<ge> w then Some (d[i := d ! i - w], i)
      else sub_word_loop (d[i := d ! i - w]) (i + 1) 1)"
  by pat_completeness auto
termination by (relation "measure (\<lambda>(d, i, w). length d - i)") auto

declare add_word_loop.simps [simp del] sub_word_loop.simps [simp del]

text \<open>Each calls the other on a negative number, after clearing its sign.\<close>

function BN_add_word :: "env \<Rightarrow> BN_ULONG \<Rightarrow> bignum \<Rightarrow> bn_status \<times> bignum"
  and BN_sub_word :: "env \<Rightarrow> BN_ULONG \<Rightarrow> bignum \<Rightarrow> bn_status \<times> bignum" where
  "BN_add_word e w a =
     (if w = 0 then (None, a)
      else if BN_is_zero a then BN_set_word e w a
      else if bn_neg a
      then let (i, a) = BN_sub_word e w (a\<lparr>bn_neg := False\<rparr>)
           in (i, if \<not> BN_is_zero a then a\<lparr>bn_neg := \<not> bn_neg a\<rparr> else a)
      else let (d, i, w) = add_word_loop (bn_width a) (bn_d a) 0 w;
               a = a\<lparr>bn_d := d\<rparr>
           in if w \<noteq> 0 \<and> i = bn_width a
              then case bn_wexpand e (bn_width a + 1) a of
                     (Some err, a) \<Rightarrow> (Some err, a)
                   | (None, a) \<Rightarrow> (None, a\<lparr>bn_width := bn_width a + 1, bn_d := (bn_d a)[i := w]\<rparr>)
              else (None, a))"
| "BN_sub_word e w a =
     (if w = 0 then (None, a)
      else if BN_is_zero a
      then let (i, a) = BN_set_word e w a
           in (i, if i = None then BN_set_negative True a else a)
      else if bn_neg a
      then let (i, a) = BN_add_word e w (a\<lparr>bn_neg := False\<rparr>) in (i, a\<lparr>bn_neg := True\<rparr>)
      else if bn_minimal_width a = 1 \<and> bn_d a ! 0 < w
      then (None, a\<lparr>bn_d := (bn_d a)[0 := w - bn_d a ! 0], bn_neg := True\<rparr>)
      else case sub_word_loop (bn_d a) 0 w of
             None \<Rightarrow> (Some BN_OVERRUN, a)
           | Some (d, i) \<Rightarrow>
               let a = a\<lparr>bn_d := d\<rparr>
               in (None, if bn_d a ! i = 0 \<and> i = bn_width a - 1
                         then a\<lparr>bn_width := bn_width a - 1\<rparr> else a))"
  by pat_completeness auto
termination
  by (relation "measure (case_sum (\<lambda>(e, w, a). of_bool (bn_neg a)) (\<lambda>(e, w, a). of_bool (bn_neg a)))") auto

declare BN_add_word.simps [simp del] BN_sub_word.simps [simp del]

section \<open>Passes over unequal operands\<close>

lemma uadd_tail_limb_linear: "linear_step (\<lambda>c. unat c \<le> 1) (\<lambda>c. int (unat c)) 1 0 uadd_tail_limb"
  unfolding linear_step_def
proof (intro allI impI)
  fix c x y z c'
  assume "unat c \<le> 1" and "uadd_tail_limb c x y = (z, c')"
  then have z: "z = c + x" "c' = of_bool (c + x < x)" and c: "unat c \<le> 1"
    by (auto simp: uadd_tail_limb_def Let_def)
  have x: "unat x < BN_BASE" by simp
  have u: "unat (c + x) = (unat c + unat x) mod BN_BASE" by (simp add: unat_word_ariths)
  show "unat c' \<le> 1 \<and> int (unat z) + int BN_BASE * int (unat c')
      = 1 * int (unat x) + 0 * int (unat y) + int (unat c)"
  proof (cases "unat c + unat x < BN_BASE")
    case True
    with u have "unat (c + x) = unat c + unat x" by simp
    then show ?thesis by (simp only: z word_less_nat_alt) simp
  next
    case False
    with x c have "unat c = 1" "unat x = BN_BASE - 1" by linarith+
    with u show ?thesis by (simp only: z word_less_nat_alt) simp
  qed
qed

lemma usub_tail_limb_linear: "linear_step (\<lambda>c. unat c \<le> 1) (\<lambda>c. - int (unat c)) 1 0 usub_tail_limb"
  unfolding linear_step_def
proof (intro allI impI)
  fix c x y z c'
  assume "unat c \<le> 1" and "usub_tail_limb c x y = (z, c')"
  then have z: "z = x - c" "c' = of_bool (x < x - c)" and c: "unat c \<le> 1"
    by (auto simp: usub_tail_limb_def Let_def)
  have x: "unat x < BN_BASE" by simp
  show "unat c' \<le> 1 \<and> int (unat z) + int BN_BASE * (- int (unat c'))
      = 1 * int (unat x) + 0 * int (unat y) + (- int (unat c))"
  proof (cases "unat c \<le> unat x")
    case True
    then have "unat (x - c) = unat x - unat c" by (simp add: unat_sub_if')
    with True show ?thesis by (simp only: z word_less_nat_alt) simp
  next
    case False
    with c have "unat c = 1" "unat x = 0" by linarith+
    moreover from False have "unat (x - c) = unat x + BN_BASE - unat c"
      by (simp add: unat_sub_if')
    ultimately show ?thesis by (simp only: z word_less_nat_alt) simp
  qed
qed

lemma uadd_words:
  assumes "k \<le> n" and r: "in_words m (r, 0) (n + 1)" and a: "in_words m (a, 0) n" and b: "in_words m (b, 0) k"
  shows "\<exists>c c' xs ys. bn_add_words (r, 0) (a, 0) (b, 0) k m = (c, words_put m (r, 0) xs)
    \<and> words_loop (word_step uadd_tail_limb (r, k) (a, k) (a, k)) 0 (n - k) (c, words_put m (r, 0) xs)
        = (c', words_put m (r, 0) (xs @ ys))
    \<and> wr (words_put m (r, 0) (xs @ ys)) (r, 0) n c' = words_put m (r, 0) (xs @ ys @ [c'])
    \<and> length (xs @ ys @ [c']) = n + 1
    \<and> words_val (xs @ ys @ [c']) = words_val (words_at m (a, 0) n) + words_val (words_at m (b, 0) k)"
proof -
  have i: "in_words m (r, 0) k" "in_words m (a, 0) k" "in_words m (r, 0) n"
    using r a assms(1) by (auto intro: in_words_le)
  from bn_add_words_val [OF i(1) i(2) b behind_same(1) behind_same(1)]
  obtain c xs where x: "bn_add_words (r, 0) (a, 0) (b, 0) k m = (c, words_put m (r, 0) xs)"
    "length xs = k" "unat c \<le> 1"
    and vx: "words_val xs + BN_BASE ^ k * unat c = words_val (words_at m (a, 0) k) + words_val (words_at m (b, 0) k)"
    by blast
  from tail_pass [OF uadd_tail_limb_linear x(3) assms(1) i(3) a x(2)]
  obtain c' ys where y: "words_loop (word_step uadd_tail_limb (r, k) (a, k) (a, k)) 0 (n - k) (c, words_put m (r, 0) xs)
        = (c', words_put m (r, 0) (xs @ ys))" "length ys = n - k"
    and vy: "int (words_val ys) + int BN_BASE ^ (n - k) * int (unat c')
      = int (words_val (words_at m (a, k) (n - k)) + unat c)"
    unfolding of_nat_add by blast
  have len: "length (xs @ ys) = n" using x(2) y(2) assms(1) by simp
  have "in_words (words_put m (r, 0) (xs @ ys)) (r, 0) (Suc n)"
    using r i(3) len by (subst in_words_put) simp_all
  then have "wr (words_put m (r, 0) (xs @ ys)) (r, 0) n c'
      = words_put (words_put m (r, 0) (xs @ ys)) (wadd (r, 0) (length (xs @ ys))) [c']"
    unfolding len by (rule wr_as_put)
  also have "\<dots> = words_put m (r, 0) ((xs @ ys) @ [c'])"
    using r len by (intro words_put_append) simp
  finally have w: "wr (words_put m (r, 0) (xs @ ys)) (r, 0) n c' = words_put m (r, 0) (xs @ ys @ [c'])" by simp
  have "words_val (xs @ ys @ [c']) = words_val xs + BN_BASE ^ k * (words_val ys + BN_BASE ^ (n - k) * unat c')"
    using x(2) y(2) by (simp add: words_val_append)
  also have "\<dots> = words_val xs + BN_BASE ^ k * unat c + BN_BASE ^ k * words_val (words_at m (a, k) (n - k))"
    using vy unfolding int_words_eq by (simp add: algebra_simps)
  also have "\<dots> = words_val (words_at m (a, 0) n) + words_val (words_at m (b, 0) k)"
    unfolding vx words_val_split [OF a assms(1)] by simp
  finally show ?thesis using x(1) y(1) w len by fastforce
qed

lemma usub_words:
  assumes "k \<le> n" and r: "in_words m (r, 0) n" and a: "in_words m (a, 0) n" and b: "in_words m (b, 0) k"
  shows "\<exists>c c' xs ys. bn_sub_words (r, 0) (a, 0) (b, 0) k m = (c, words_put m (r, 0) xs)
    \<and> words_loop (word_step usub_tail_limb (r, k) (a, k) (a, k)) 0 (n - k) (c, words_put m (r, 0) xs)
        = (c', words_put m (r, 0) (xs @ ys))
    \<and> length (xs @ ys) = n \<and> unat c' \<le> 1
    \<and> words_val (xs @ ys) + words_val (words_at m (b, 0) k)
        = words_val (words_at m (a, 0) n) + BN_BASE ^ n * unat c'"
proof -
  have i: "in_words m (r, 0) k" "in_words m (a, 0) k"
    using r a assms(1) by (auto intro: in_words_le)
  from bn_sub_words_val [OF i(1) i(2) b behind_same(1) behind_same(1)]
  obtain c xs where x: "bn_sub_words (r, 0) (a, 0) (b, 0) k m = (of_bool c, words_put m (r, 0) xs)"
    "length xs = k"
    and vx: "words_val xs + words_val (words_at m (b, 0) k)
      = words_val (words_at m (a, 0) k) + BN_BASE ^ k * of_bool c"
    by blast
  have c: "unat (of_bool c :: BN_ULONG) \<le> 1" "unat (of_bool c :: BN_ULONG) = of_bool c" by simp_all
  from tail_pass [OF usub_tail_limb_linear c(1) assms(1) r a x(2)]
  obtain c' ys where y: "words_loop (word_step usub_tail_limb (r, k) (a, k) (a, k)) 0 (n - k) (of_bool c, words_put m (r, 0) xs)
        = (c', words_put m (r, 0) (xs @ ys))" "unat c' \<le> 1" "length ys = n - k"
    and vy: "int (words_val ys) + int BN_BASE ^ (n - k) * (- int (unat c'))
      = int (words_val (words_at m (a, k) (n - k))) + (- int (unat (of_bool c :: BN_ULONG)))"
    by blast
  from vy have "int (words_val ys) + int (of_bool c)
      = int (words_val (words_at m (a, k) (n - k))) + int BN_BASE ^ (n - k) * int (unat c')"
    unfolding c(2) by simp
  then have vy': "words_val ys + of_bool c = words_val (words_at m (a, k) (n - k)) + BN_BASE ^ (n - k) * unat c'"
    by (simp only: of_nat_eq_iff flip: of_nat_add of_nat_mult of_nat_power)
  have p: "BN_BASE ^ k * BN_BASE ^ (n - k) = BN_BASE ^ n" using assms(1) by (simp flip: power_add)
  have "words_val (xs @ ys) + words_val (words_at m (b, 0) k)
      = (words_val xs + words_val (words_at m (b, 0) k)) + BN_BASE ^ k * words_val ys"
    using x(2) by (simp add: words_val_append)
  also have "\<dots> = words_val (words_at m (a, 0) k) + BN_BASE ^ k * (words_val ys + of_bool c)"
    unfolding vx by (simp add: algebra_simps)
  also have "\<dots> = words_val (words_at m (a, 0) n) + BN_BASE ^ n * unat c'"
    unfolding vy' words_val_split [OF a assms(1)] p [symmetric] by (simp add: algebra_simps)
  finally show ?thesis using x y assms(1) by fastforce
qed

section \<open>Sums and differences of absolute values\<close>

lemma bn_uadd_consttime_spec:
  assumes room: "bn_room (h r)" "bn_room (h a)" "bn_room (h b)"
    and run: "bn_uadd_consttime e r a b h = (st, h')"
  shows "(st = None \<longleftrightarrow> bn_grows e (h r) (max (bn_width (h a)) (bn_width (h b)) + 1))
    \<and> (st \<noteq> None \<longrightarrow> h' = h)
    \<and> (st = None \<longrightarrow> (\<forall>i. i \<noteq> r \<longrightarrow> h' i = h i) \<and> bn_room (h' r)
        \<and> bn_abs (h' r) = bn_abs (h a) + bn_abs (h b) \<and> bn_neg (h' r) = bn_neg (h r)
        \<and> bn_width (h' r) = max (bn_width (h a)) (bn_width (h b)) + 1)"
proof -
  define x where "x = (if bn_width (h a) < bn_width (h b) then b else a)"
  define y where "y = (if bn_width (h a) < bn_width (h b) then a else b)"
  let ?n = "bn_width (h x)" and ?k = "bn_width (h y)"
  have xy: "(if bn_width (h a) < bn_width (h b) then (b, a) else (a, b)) = (x, y)"
    by (simp add: x_def y_def)
  have k: "?k \<le> ?n" and n: "?n = max (bn_width (h a)) (bn_width (h b))"
    and rx: "bn_room (h x)" "bn_room (h y)" and s: "bn_abs (h x) + bn_abs (h y) = bn_abs (h a) + bn_abs (h b)"
    using room by (auto simp: x_def y_def)
  obtain st1 bn1 where w: "bn_wexpand e (?n + 1) (h r) = (st1, bn1)" by fastforce
  have g: "st1 = None \<longleftrightarrow> bn_grows e (h r) (?n + 1)"
    using bn_wexpand_None_iff [of e "?n + 1" "h r"] unfolding w by simp
  show ?thesis
  proof (cases st1)
    case (Some err)
    then have "st = Some err" and "h' = h"
      using run w bn_wexpand_spec [OF w room(1)] by (auto simp: bn_uadd_consttime_def xy bn_on_eq Let_def)
    with Some g n show ?thesis by simp
  next
    case None
    let ?h1 = "h(r := bn1)"
    let ?h2 = "?h1(r := (?h1 r)\<lparr>bn_width := ?n + 1\<rparr>)"
    note e1 = wexpand_heap [where h = h and r = r, OF w [unfolded None] room(1)]
    have m: "bn_mem ?h2 = bn_mem ?h1" by (auto simp: bn_mem_def)
    have ir: "in_words (bn_mem ?h1) (r, 0) (?n + 1)"
      using e1(3) [OF room(1)] e1(4) by (intro bn_mem_in_words) simp_all
    have ix: "in_words (bn_mem ?h1) (x, 0) ?n" "in_words (bn_mem ?h1) (y, 0) ?k"
      using e1(3) [OF rx(1)] e1(3) [OF rx(2)] e1(6) [of x] e1(6) [of y] rx unfolding bn_room_def
      by (intro bn_mem_in_words; simp add: bn_room_def)+
    have wx: "words_at (bn_mem ?h1) (x, 0) ?n = bn_words (h x)" "words_at (bn_mem ?h1) (y, 0) ?k = bn_words (h y)"
      using bn_mem_words_at [of ?h1 x] bn_mem_words_at [of ?h1 y] e1(1,2) [of x] e1(1,2) [of y] by simp_all
    from uadd_words [OF k ir ix] obtain c c' xs ys where
      run1: "bn_add_words (r, 0) (x, 0) (y, 0) ?k (bn_mem ?h1) = (c, words_put (bn_mem ?h1) (r, 0) xs)"
        "words_loop (word_step uadd_tail_limb (r, ?k) (x, ?k) (x, ?k)) 0 (?n - ?k) (c, words_put (bn_mem ?h1) (r, 0) xs)
          = (c', words_put (bn_mem ?h1) (r, 0) (xs @ ys))"
        "wr (words_put (bn_mem ?h1) (r, 0) (xs @ ys)) (r, 0) ?n c' = words_put (bn_mem ?h1) (r, 0) (xs @ ys @ [c'])"
      and zs: "length (xs @ ys @ [c']) = ?n + 1"
      and v: "words_val (xs @ ys @ [c']) = bn_abs (h x) + bn_abs (h y)"
      unfolding wx bn_abs_def by blast
    let ?zs = "xs @ ys @ [c']"
    have "bn_uadd_consttime e r a b h = (None, bn_with_mem ?h2 (words_put (bn_mem ?h2) (r, 0) ?zs))"
      by (simp only: bn_uadd_consttime_def xy Let_def prod.case bn_on_eq w None fst_conv snd_conv option.case m run1)
    then have st: "st = None" and h': "h' = ?h2(r := (?h2 r)\<lparr>bn_d := overwrite (bn_d (?h2 r)) 0 ?zs\<rparr>)"
      using run by (simp_all only: bn_with_mem_put prod.inject)
    have hr: "h' r = bn1\<lparr>bn_d := overwrite (bn_d bn1) 0 ?zs, bn_width := length ?zs, bn_neg := bn_neg bn1\<rparr>"
      unfolding zs h' by (cases bn1) simp
    have b1: "bn_room bn1" "length ?zs \<le> bn_dmax bn1"
      using e1(3) [OF room(1)] e1(4) unfolding zs by simp_all
    note bn_store_words [OF b1 hr]
    moreover have "bn_neg (h' r) = bn_neg (h r)" using e1(5) [of r] unfolding hr by simp
    moreover have "bn_width (h' r) = ?n + 1" unfolding hr zs [symmetric] by simp
    moreover have "\<forall>i. i \<noteq> r \<longrightarrow> h' i = h i" unfolding h' by simp
    ultimately show ?thesis using st g None v s n by simp
  qed
qed

lemma BN_uadd_spec:
  assumes room: "bn_room (h r)" "bn_room (h a)" "bn_room (h b)"
    and run: "BN_uadd e r a b h = (st, h')"
  shows "(st = None \<longleftrightarrow> bn_grows e (h r) (max (bn_width (h a)) (bn_width (h b)) + 1))
    \<and> (st \<noteq> None \<longrightarrow> h' = h)
    \<and> (st = None \<longrightarrow> (\<forall>i. i \<noteq> r \<longrightarrow> h' i = h i) \<and> bn_ok (h' r) \<and> bn_minimal (h' r)
        \<and> bn_abs (h' r) = bn_abs (h a) + bn_abs (h b))"
proof -
  obtain st1 h1 where u: "bn_uadd_consttime e r a b h = (st1, h1)" by fastforce
  note s = bn_uadd_consttime_spec [OF room u]
  show ?thesis
  proof (cases st1)
    case None
    with u run have "st = None" and h': "h' = h1(r := bn_set_minimal_width (h1 r))"
      by (simp_all add: BN_uadd_def)
    with None s bn_set_minimal_width_spec [of "h1 r"] show ?thesis by simp
  next
    case (Some err)
    with u run have "st = Some err" "h' = h1" by (simp_all add: BN_uadd_def)
    with s Some show ?thesis by simp
  qed
qed

lemma bn_usub_consttime_spec:
  assumes room: "bn_room (h r)" "bn_room (h a)" "bn_room (h b)"
    and run: "bn_usub_consttime e r a b h = (st, h')"
  shows "(st = None \<longleftrightarrow> bn_abs (h b) \<le> bn_abs (h a) \<and> bn_grows e (h r) (bn_width (h a)))
    \<and> (\<forall>i. i \<noteq> r \<longrightarrow> h' i = h i) \<and> bn_room (h' r)
    \<and> (bn_abs (h b) \<le> bn_abs (h a) \<and> st \<noteq> None \<longrightarrow> h' = h)
    \<and> (st = None \<longrightarrow> bn_abs (h' r) = bn_abs (h a) - bn_abs (h b) \<and> \<not> bn_neg (h' r)
        \<and> bn_width (h' r) = bn_width (h a))"
proof -
  let ?n = "bn_width (h a)"
  define k where "k = (if bn_width (h b) > ?n then ?n else bn_width (h b))"
  have k: "k \<le> ?n" "k \<le> bn_width (h b)" by (simp_all add: k_def)
  have va: "bn_abs (h a) < BN_BASE ^ ?n"
    using words_val_bound [of "bn_words (h a)"] room(2) by (simp add: bn_abs_def)
  obtain st1 bn1 where w: "bn_wexpand e ?n (h r) = (st1, bn1)" by fastforce
  have g: "st1 = None \<longleftrightarrow> bn_grows e (h r) ?n"
    using bn_wexpand_None_iff [of e "?n" "h r"] by (simp add: w)
  have fits: "bn_width (h b) > ?n \<and> \<not> bn_fits_in_words (h b) ?n \<longleftrightarrow> BN_BASE ^ ?n \<le> bn_abs (h b)"
  proof (cases "bn_width (h b) > ?n")
    case False
    then have "BN_BASE ^ bn_width (h b) \<le> BN_BASE ^ ?n" by (intro power_increasing) simp_all
    moreover have "bn_abs (h b) < BN_BASE ^ bn_width (h b)"
      using words_val_bound [of "bn_words (h b)"] room(3) by (simp add: bn_abs_def)
    ultimately have "bn_abs (h b) < BN_BASE ^ ?n" by (meson less_le_trans)
    with False show ?thesis by simp
  qed (simp add: bn_fits_in_words_iff [OF room(3)] not_less)
  show ?thesis
  proof (cases "BN_BASE ^ ?n \<le> bn_abs (h b)")
    case True
    with fits run have "st = Some BN_R_ARG2_LT_ARG3" "h' = h"
      by (auto simp: bn_usub_consttime_def Let_def)
    with True va room show ?thesis by simp
  next
    case f: False
    with fits have nf: "\<not> (bn_width (h b) > ?n \<and> \<not> bn_fits_in_words (h b) ?n)" by simp
    show ?thesis
    proof (cases st1)
      case (Some err)
      then have "st = Some err" and "h' = h"
        using run w nf bn_wexpand_spec [OF w room(1)] by (auto simp: bn_usub_consttime_def bn_on_eq Let_def)
      with Some g room show ?thesis by simp
    next
      case None
      let ?h1 = "h(r := bn1)"
      note e1 = wexpand_heap [where h = h and r = r, OF w [unfolded None] room(1)]
      have ir: "in_words (bn_mem ?h1) (r, 0) ?n"
        using e1(3) [OF room(1)] e1(4) by (intro bn_mem_in_words) simp_all
      have ix: "in_words (bn_mem ?h1) (a, 0) ?n" "in_words (bn_mem ?h1) (b, 0) (bn_width (h b))"
        using e1(3) [OF room(2)] e1(3) [OF room(3)] e1(6) [of a] e1(6) [of b] room unfolding bn_room_def
        by (intro bn_mem_in_words; simp add: bn_room_def)+
      have iy: "in_words (bn_mem ?h1) (b, 0) k" using ix(2) k by (auto intro: in_words_le)
      have wx: "words_at (bn_mem ?h1) (a, 0) ?n = bn_words (h a)"
        using bn_mem_words_at [of ?h1 a] e1(1,2) [of a] by simp
      have wy: "words_val (words_at (bn_mem ?h1) (b, 0) k) = bn_abs (h b)"
      proof -
        have b: "words_at (bn_mem ?h1) (b, 0) (bn_width (h b)) = bn_words (h b)"
          using bn_mem_words_at [of ?h1 b] e1(1,2) [of b] by simp
        show ?thesis
        proof (cases "bn_width (h b) > ?n")
          case True
          then have kn: "k = ?n" by (simp add: k_def)
          have e: "bn_abs (h b) = words_val (words_at (bn_mem ?h1) (b, 0) k)
              + BN_BASE ^ k * words_val (words_at (bn_mem ?h1) (b, k) (bn_width (h b) - k))"
            using words_val_split [OF ix(2) k(2)] by (simp only: b bn_abs_def)
          then have "words_val (words_at (bn_mem ?h1) (b, k) (bn_width (h b) - k)) = 0"
            using f unfolding kn
            by (cases "words_val (words_at (bn_mem ?h1) (b, ?n) (bn_width (h b) - ?n))") simp_all
          with e show ?thesis by simp
        next
          case False
          with b show ?thesis by (simp add: k_def bn_abs_def)
        qed
      qed
      from usub_words [OF k(1) ir ix(1) iy] obtain c c' xs ys where
        run1: "bn_sub_words (r, 0) (a, 0) (b, 0) k (bn_mem ?h1) = (c, words_put (bn_mem ?h1) (r, 0) xs)"
          "words_loop (word_step usub_tail_limb (r, k) (a, k) (a, k)) 0 (?n - k) (c, words_put (bn_mem ?h1) (r, 0) xs)
            = (c', words_put (bn_mem ?h1) (r, 0) (xs @ ys))"
        and zs: "length (xs @ ys) = ?n" and c': "unat c' \<le> 1"
        and v: "words_val (xs @ ys) + bn_abs (h b) = bn_abs (h a) + BN_BASE ^ ?n * unat c'"
        unfolding wx wy bn_abs_def by blast
      let ?zs = "xs @ ys"
      let ?h2 = "?h1(r := (?h1 r)\<lparr>bn_d := overwrite (bn_d (?h1 r)) 0 ?zs\<rparr>)"
      have r': "bn_usub_consttime e r a b h
          = (if c' \<noteq> 0 then (Some BN_R_ARG2_LT_ARG3, ?h2)
             else (None, ?h2(r := (?h2 r)\<lparr>bn_width := bn_width (?h2 a), bn_neg := False\<rparr>)))"
        by (simp only: bn_usub_consttime_def Let_def nf if_False k_def [symmetric] prod.case bn_on_eq w None
            fst_conv snd_conv option.case run1 bn_with_mem_put)
      have wa: "bn_width (?h2 a) = ?n" using e1(1) [of a] by auto
      have zv: "words_val ?zs < BN_BASE ^ ?n" using words_val_bound [of ?zs] unfolding zs .
      have c: "c' \<noteq> 0 \<longleftrightarrow> bn_abs (h a) < bn_abs (h b)"
      proof -
        have "c' \<noteq> 0 \<longleftrightarrow> unat c' = 1" using c' unat_eq_0 [of c'] by linarith
        moreover have "unat c' = 0 \<or> unat c' = 1" using c' by linarith
        ultimately show ?thesis using v zv f by auto
      qed
      have b1: "bn_room bn1" "length ?zs \<le> bn_dmax bn1"
        using e1(3) [OF room(1)] e1(4) unfolding zs by simp_all
      show ?thesis
      proof (cases "c' = 0")
        case False
        with r' run have "st = Some BN_R_ARG2_LT_ARG3" "h' = ?h2" by simp_all
        moreover have "bn_room (?h2 r)" using b1 by (simp add: bn_room_def)
        ultimately show ?thesis using c False by simp
      next
        case True
        with r' run have st: "st = None" and h': "h' = ?h2(r := (?h2 r)\<lparr>bn_width := ?n, bn_neg := False\<rparr>)"
          unfolding wa by simp_all
        have hr: "h' r = bn1\<lparr>bn_d := overwrite (bn_d bn1) 0 ?zs, bn_width := length ?zs, bn_neg := False\<rparr>"
          unfolding zs h' by (cases bn1) simp
        note bn_store_words [OF b1 hr]
        moreover have "\<not> bn_neg (h' r)" "bn_width (h' r) = ?n" unfolding hr zs [symmetric] by simp_all
        moreover have "\<forall>i. i \<noteq> r \<longrightarrow> h' i = h i" unfolding h' by simp
        moreover have "words_val ?zs = bn_abs (h a) - bn_abs (h b)" using v True by simp
        moreover have "bn_abs (h b) \<le> bn_abs (h a)" using c True by simp
        ultimately show ?thesis using st g None by simp
      qed
    qed
  qed
qed

lemma BN_usub_spec:
  assumes room: "bn_room (h r)" "bn_room (h a)" "bn_room (h b)"
    and run: "BN_usub e r a b h = (st, h')"
  shows "(st = None \<longleftrightarrow> bn_abs (h b) \<le> bn_abs (h a) \<and> bn_grows e (h r) (bn_width (h a)))
    \<and> (bn_abs (h b) \<le> bn_abs (h a) \<and> st \<noteq> None \<longrightarrow> h' = h)
    \<and> (st = None \<longrightarrow> (\<forall>i. i \<noteq> r \<longrightarrow> h' i = h i) \<and> bn_ok (h' r) \<and> bn_minimal (h' r)
        \<and> \<not> bn_neg (h' r) \<and> bn_abs (h' r) = bn_abs (h a) - bn_abs (h b))"
proof -
  obtain st1 h1 where u: "bn_usub_consttime e r a b h = (st1, h1)" by fastforce
  note s = bn_usub_consttime_spec [OF room u]
  show ?thesis
  proof (cases st1)
    case None
    with u run have "st = None" and h': "h' = h1(r := bn_set_minimal_width (h1 r))"
      by (simp_all add: BN_usub_def)
    with None s bn_set_minimal_width_spec [of "h1 r"] show ?thesis by simp
  next
    case (Some err)
    with u run have "st = Some err" "h' = h1" by (simp_all add: BN_usub_def)
    with s Some show ?thesis by simp
  qed
qed

lemma bn_set_neg_apply: "bn_set_neg r n h i = (if i = r then (h r)\<lparr>bn_neg := n\<rparr> else h i)"
  by (simp add: bn_set_neg_def)

lemma bn_diff_spec:
  assumes room: "bn_room (h r)" "bn_room (h a)" "bn_room (h b)"
    and run: "bn_diff e r a b h = (st, h')"
  shows "(st = None \<longleftrightarrow> bn_grows e (h r) (if bn_abs (h a) < bn_abs (h b) then bn_width (h b) else bn_width (h a)))
    \<and> (st \<noteq> None \<longrightarrow> h' = h)
    \<and> (st = None \<longrightarrow> bn_result r h h' (int (bn_abs (h a)) - int (bn_abs (h b))))"
proof (cases "bn_abs (h a) < bn_abs (h b)")
  case True
  then have c: "BN_ucmp (h a) (h b) < 0" by (simp add: BN_ucmp_sgn)
  obtain st1 h1 where u: "BN_usub e r b a h = (st1, h1)" by fastforce
  note s = BN_usub_spec [OF room(1,3,2) u]
  show ?thesis
  proof (cases st1)
    case None
    with c u run have "st = None" "h' = bn_set_neg r True h1" by (simp_all add: bn_diff_def)
    with True None s show ?thesis
      by (simp add: bn_result_def bn_set_neg_apply bn_ok_room bn_val_def of_nat_diff)
  next
    case (Some err)
    with c u run have "st = Some err" "h' = h1" by (simp_all add: bn_diff_def)
    with True Some s show ?thesis by simp
  qed
next
  case False
  then have c: "\<not> BN_ucmp (h a) (h b) < 0" by (simp add: BN_ucmp_sgn sgn_if)
  obtain st1 h1 where u: "BN_usub e r a b h = (st1, h1)" by fastforce
  note s = BN_usub_spec [OF room(1,2,3) u]
  show ?thesis
  proof (cases st1)
    case None
    with c u run have "st = None" "h' = bn_set_neg r False h1" by (simp_all add: bn_diff_def)
    with False None s show ?thesis
      by (simp add: bn_result_def bn_set_neg_apply bn_ok_room bn_val_def of_nat_diff)
  next
    case (Some err)
    with c u run have "st = Some err" "h' = h1" by (simp_all add: bn_diff_def)
    with False Some s show ?thesis by simp
  qed
qed

text \<open>The words \<open>BN_add\<close> asks for: one more than the wider operand has, where the signs agree,
  and those of the larger operand where they do not. \<open>BN_sub\<close> flips the second sign.\<close>

definition bn_sum_words :: "bignum \<Rightarrow> bignum \<Rightarrow> bool \<Rightarrow> nat" where
  "bn_sum_words a b same =
     (if same then max (bn_width a) (bn_width b) + 1
      else if bn_abs a < bn_abs b then bn_width b
      else if bn_abs b < bn_abs a \<or> \<not> bn_neg a then bn_width a else bn_width b)"

lemma BN_add_spec:
  assumes ok: "bn_ok (h r)" "bn_ok (h a)" "bn_ok (h b)" and run: "BN_add e r a b h = (st, h')"
  shows "(st = None \<longleftrightarrow> bn_grows e (h r) (bn_sum_words (h a) (h b) (bn_neg (h a) = bn_neg (h b))))
    \<and> (st = None \<longrightarrow> bn_result r h h' (bn_val (h a) + bn_val (h b)))
    \<and> (st \<noteq> None \<longrightarrow> h' = h \<or> h' = bn_set_neg r (bn_neg (h a)) h)"
proof -
  have room: "bn_room (h r)" "bn_room (h a)" "bn_room (h b)" using ok by (simp_all add: bn_ok_room)
  show ?thesis
  proof (cases "bn_neg (h a) = bn_neg (h b)")
    case True
    obtain st1 h1 where u: "BN_uadd e r a b h = (st1, h1)" by fastforce
    with True run have e: "st = st1" "h' = bn_set_neg r (bn_neg (h a)) h1" by (simp_all add: BN_add_def Let_def)
    note s = BN_uadd_spec [OF room u]
    have "bn_ok (h' r)" if "st1 = None" using s that ok True by (simp add: e bn_set_neg_apply bn_ok_room)
    with s e True show ?thesis
      by (auto simp: bn_result_def bn_set_neg_apply bn_val_def bn_sum_words_def)
  next
    case False
    show ?thesis
    proof (cases "bn_neg (h a)")
      case True
      with False run have "bn_diff e r b a h = (st, h')" by (simp add: BN_add_def Let_def)
      from bn_diff_spec [OF room(1,3,2) this] True False show ?thesis
        by (auto simp: bn_sum_words_def bn_val_def)
    next
      case n: False
      with False run have "bn_diff e r a b h = (st, h')" by (simp add: BN_add_def Let_def)
      from bn_diff_spec [OF room this] False n show ?thesis
        by (auto simp: bn_sum_words_def bn_val_def)
    qed
  qed
qed

lemma BN_sub_spec:
  assumes ok: "bn_ok (h r)" "bn_ok (h a)" "bn_ok (h b)" and run: "BN_sub e r a b h = (st, h')"
  shows "(st = None \<longleftrightarrow> bn_grows e (h r) (bn_sum_words (h a) (h b) (bn_neg (h a) \<noteq> bn_neg (h b))))
    \<and> (st = None \<longrightarrow> bn_result r h h' (bn_val (h a) - bn_val (h b)))
    \<and> (st \<noteq> None \<longrightarrow> h' = h)"
proof -
  have room: "bn_room (h r)" "bn_room (h a)" "bn_room (h b)" using ok by (simp_all add: bn_ok_room)
  show ?thesis
  proof (cases "bn_neg (h a) = bn_neg (h b)")
    case False
    obtain st1 h1 where u: "BN_uadd e r a b h = (st1, h1)" by fastforce
    note s = BN_uadd_spec [OF room u]
    from False u run have e: "(st, h') = (case st1 of Some err \<Rightarrow> (Some err, h1) | None \<Rightarrow> (None, bn_set_neg r (bn_neg (h a)) h1))"
      by (cases "bn_neg (h a)"; cases st1) (auto simp: BN_sub_def Let_def)
    show ?thesis
    proof (cases st1)
      case None
      have "bn_ok (h' r)" using s e None ok False by (auto simp: bn_set_neg_apply bn_ok_room)
      with s e None False show ?thesis
        by (auto simp: bn_result_def bn_set_neg_apply bn_val_def bn_sum_words_def)
    next
      case (Some err)
      with s e False show ?thesis by (auto simp: bn_sum_words_def)
    qed
  next
    case True
    show ?thesis
    proof (cases "bn_neg (h a)")
      case n: True
      with True run have "bn_diff e r b a h = (st, h')" by (simp add: BN_sub_def Let_def)
      from bn_diff_spec [OF room(1,3,2) this] True n show ?thesis
        by (auto simp: bn_sum_words_def bn_val_def)
    next
      case n: False
      with True run have "bn_diff e r a b h = (st, h')" by (simp add: BN_sub_def Let_def)
      from bn_diff_spec [OF room this] True n show ?thesis
        by (auto simp: bn_sum_words_def bn_val_def)
    qed
  qed
qed

section \<open>Setting and adjusting one number\<close>

lemma words_val_update:
  "i < length xs \<Longrightarrow> words_val (xs[i := x]) + BN_BASE ^ i * unat (xs ! i) = words_val xs + BN_BASE ^ i * unat x"
proof (induction xs arbitrary: i)
  case (Cons y ys)
  show ?case
  proof (cases i)
    case (Suc j)
    with Cons.prems Cons.IH [of j] have "BN_BASE * (words_val (ys[j := x]) + BN_BASE ^ j * unat (ys ! j))
        = BN_BASE * (words_val ys + BN_BASE ^ j * unat x)" by simp
    with Suc show ?thesis by (simp add: algebra_simps)
  qed simp
qed simp

lemma mod_over: "n \<le> s \<Longrightarrow> s < 2 * n \<Longrightarrow> s mod n = s - n" for s n :: nat
  by (simp add: le_mod_geq)

lemma word_add_carry:
  "unat (x + w) + BN_BASE * of_bool (w > x + w) = unat x + unat (w :: BN_ULONG)"
proof -
  have x: "unat x < BN_BASE" "unat w < BN_BASE" by simp_all
  have u: "unat (x + w) = (unat x + unat w) mod BN_BASE" by (simp add: unat_word_ariths)
  show ?thesis
  proof (cases "unat x + unat w < BN_BASE")
    case True
    with u have "unat (x + w) = unat x + unat w" by (simp only: mod_less)
    moreover from this have "\<not> w > x + w" by (simp only: word_less_nat_alt)
    ultimately show ?thesis by (simp only: of_bool_eq)
  next
    case False
    have "(unat x + unat w) mod BN_BASE = unat x + unat w - BN_BASE"
      by (rule mod_over) (use False x in linarith)+
    with u x False have "unat (x + w) + BN_BASE = unat x + unat w" by linarith
    moreover from this x have "w > x + w" unfolding word_less_nat_alt by linarith
    ultimately show ?thesis by (simp only: of_bool_eq)
  qed
qed

lemma add_word_loop_spec:
  assumes "add_word_loop n d i w = (d', i', w')" and "i \<le> n" and "n \<le> length d"
  shows "length d' = length d \<and> i' \<le> n \<and> (w' \<noteq> 0 \<longrightarrow> i' = n) \<and> (w' \<noteq> 0 \<longrightarrow> w \<noteq> 0)
    \<and> words_val (take n d') + BN_BASE ^ i' * unat w' = words_val (take n d) + BN_BASE ^ i * unat w"
  using assms
proof (induction n d i w rule: add_word_loop.induct)
  case (1 n d i w)
  show ?case
  proof (cases "w \<noteq> 0 \<and> i < n")
    case True
    let ?l = "d ! i + w" and ?w = "if w > d ! i + w then 1 else (0 :: BN_ULONG)"
    from 1(2) True have run: "add_word_loop n (d[i := ?l]) (i + 1) ?w = (d', i', w')"
      by (subst (asm) add_word_loop.simps) (simp only: if_True simp_thms Let_def)
    have ih: "length d' = length (d[i := ?l]) \<and> i' \<le> n \<and> (w' \<noteq> 0 \<longrightarrow> i' = n) \<and> (w' \<noteq> 0 \<longrightarrow> ?w \<noteq> 0)
        \<and> words_val (take n d') + BN_BASE ^ i' * unat w'
          = words_val (take n (d[i := ?l])) + BN_BASE ^ (i + 1) * unat ?w"
      by (rule 1(1) [OF True refl run]) (use True 1(4) in simp_all)
    have "words_val (take n (d[i := ?l])) + BN_BASE ^ i * unat (d ! i)
        = words_val (take n d) + BN_BASE ^ i * unat ?l"
      using words_val_update [of i "take n d" ?l] True 1(4) by (simp add: take_update_swap)
    moreover have "BN_BASE ^ i * (unat ?l + BN_BASE * unat ?w) = BN_BASE ^ i * (unat (d ! i) + unat w)"
      using word_add_carry [of "d ! i" w] by (simp only: if_distrib [of unat] of_bool_def unsigned_0 unsigned_1)
    ultimately have "words_val (take n (d[i := ?l])) + BN_BASE ^ (i + 1) * unat ?w
        = words_val (take n d) + BN_BASE ^ i * unat w"
      by (simp only: power_add power_one_right distrib_left mult.assoc)
    with ih True show ?thesis by simp
  next
    case False
    with 1 show ?thesis by (subst (asm) (2) add_word_loop.simps) auto
  qed
qed

lemma sub_word_loop_spec:
  assumes "w \<noteq> 0" and "i \<le> n" and "n \<le> length d" and "unat w \<le> words_val (drop i (take n d))"
  shows "\<exists>d' i'. sub_word_loop d i w = Some (d', i') \<and> i' < n \<and> length d' = length d
    \<and> take i d' = take i d \<and> words_val (drop i (take n d')) + unat w = words_val (drop i (take n d))"
  using assms
proof (induction d i w rule: sub_word_loop.induct)
  case (1 d i w)
  have i: "i < n"
  proof (rule ccontr)
    assume "\<not> i < n"
    with 1 have "unat w = 0" by simp
    with 1(2) show False by (simp add: unat_eq_0)
  qed
  have dr: "drop i (take n d) = d ! i # drop (Suc i) (take n d)"
    using i 1(4) by (simp add: Cons_nth_drop_Suc [symmetric])
  let ?l = "d ! i - w"
  have dr': "drop i (take n (d[i := ?l])) = ?l # drop (Suc i) (take n d)"
    using i 1(4) by (simp add: Cons_nth_drop_Suc [symmetric] take_update_swap)
  show ?case
  proof (cases "d ! i \<ge> w")
    case True
    then have "sub_word_loop d i w = Some (d[i := ?l], i)"
      using i 1(4) by (subst sub_word_loop.simps) simp
    moreover have "unat ?l + unat w = unat (d ! i)" using True by (simp add: unat_sub word_le_nat_alt)
    ultimately show ?thesis using i dr dr' by simp
  next
    case False
    have run: "sub_word_loop d i w = sub_word_loop (d[i := ?l]) (i + 1) 1"
      using False i 1(4) by (subst sub_word_loop.simps) simp
    from False have lt: "unat (d ! i) < unat w" by (simp add: word_le_nat_alt)
    have hi: "1 \<le> words_val (drop (Suc i) (take n d))"
      using 1(5) lt unfolding dr by (cases "words_val (drop (Suc i) (take n d))") simp_all
    have l: "unat ?l + unat w = unat (d ! i) + BN_BASE"
      using lt unat_lt_base [of w] by (simp add: unat_sub_if' del: unat_lt_base)
    have "\<exists>d' i'. sub_word_loop (d[i := ?l]) (i + 1) 1 = Some (d', i') \<and> i' < n \<and> length d' = length (d[i := ?l])
        \<and> take (i + 1) d' = take (i + 1) (d[i := ?l])
        \<and> words_val (drop (i + 1) (take n d')) + unat (1 :: BN_ULONG) = words_val (drop (i + 1) (take n (d[i := ?l])))"
      by (rule 1(1)) (use i 1(4) False hi in \<open>simp_all add: take_update_swap\<close>)
    then obtain d' i' where r: "sub_word_loop (d[i := ?l]) (i + 1) 1 = Some (d', i')" "i' < n" "length d' = length d"
      and t: "take (i + 1) d' = take (i + 1) (d[i := ?l])"
      and v: "words_val (drop (Suc i) (take n d')) + 1 = words_val (drop (Suc i) (take n d))"
      by (auto simp: take_update_swap)
    have "d' ! i = ?l" using arg_cong [OF t, of "\<lambda>xs. xs ! i"] i 1(4) by simp
    then have "drop i (take n d') = ?l # drop (Suc i) (take n d')"
      using i 1(4) r(3) by (simp add: Cons_nth_drop_Suc [symmetric])
    then have "words_val (drop i (take n d')) + unat w = words_val (drop i (take n d))"
      unfolding dr using v [symmetric] l by simp
    moreover have "take i d' = take i d" using arg_cong [OF t, of "take i"] by (simp add: min_def)
    ultimately show ?thesis using run r by simp
  qed
qed

text \<open>Words changed in place, and one word more on top.\<close>

lemma bn_push_word:
  assumes "bn_room b" and "bn_width b < bn_dmax b"
    and "b' = b\<lparr>bn_width := bn_width b + 1, bn_d := (bn_d b)[bn_width b := w]\<rparr>"
  shows "bn_room b'" and "bn_abs b' = bn_abs b + BN_BASE ^ bn_width b * unat w" and "bn_neg b' = bn_neg b"
  using assms by (simp_all add: bn_room_def bn_abs_def bn_words_def take_Suc_conv_app_nth words_val_append)

lemma BN_add_word_abs:
  assumes room: "bn_room a" and neg: "\<not> bn_neg a" and run: "BN_add_word e w a = (st, a')"
  shows "(bn_grows e a (bn_width a + 1) \<and> bn_grows e a 1 \<longrightarrow> st = None)
    \<and> (st = None \<longrightarrow> bn_room a' \<and> \<not> bn_neg a' \<and> bn_abs a' = bn_abs a + unat w)"
proof (cases "w = 0 \<or> BN_is_zero a")
  case True
  then consider "w = 0" | "w \<noteq> 0" "BN_is_zero a" by blast
  then show ?thesis
  proof cases
    case 1
    with run have "(st, a') = (None, a)" by (subst (asm) BN_add_word.simps) simp
    with 1 room neg show ?thesis by simp
  next
    case 2
    with run have "BN_set_word e w a = (st, a')" by (subst (asm) BN_add_word.simps) simp
    from BN_set_word_spec [OF this room] BN_is_zero_iff [OF room] 2 show ?thesis by (auto simp: bn_ok_room)
  qed
next
  case nz: False
  obtain d i w' where l: "add_word_loop (bn_width a) (bn_d a) 0 w = (d, i, w')"
    using prod_cases3 by blast
  note s = add_word_loop_spec [OF l _ bn_room_le [OF room], simplified]
  let ?a = "a\<lparr>bn_d := d\<rparr>"
  have ra: "bn_room ?a" using s room by (simp add: bn_room_def)
  have v: "bn_abs ?a + BN_BASE ^ i * unat w' = bn_abs a + unat w"
    using s by (simp add: bn_abs_d) (simp add: bn_abs_def bn_words_def)
  have step: "BN_add_word e w a =
      (if w' \<noteq> 0 \<and> i = bn_width a
       then case bn_wexpand e (bn_width a + 1) ?a of
              (Some err, a) \<Rightarrow> (Some err, a)
            | (None, a) \<Rightarrow> (None, a\<lparr>bn_width := bn_width a + 1, bn_d := (bn_d a)[i := w']\<rparr>)
       else (None, ?a))"
    using nz neg by (subst BN_add_word.simps) (simp add: l)
  show ?thesis
  proof (cases "w' = 0")
    case True
    with step run have "st = None" "a' = ?a" by simp_all
    with True v ra neg show ?thesis by simp
  next
    case w': False
    with s have i: "i = bn_width a" by simp
    obtain st1 a1 where x: "bn_wexpand e (bn_width a + 1) ?a = (st1, a1)" by fastforce
    note t = bn_wexpand_spec [OF x ra] and va = bn_wexpand_abs [OF x ra]
    have g: "st1 = None \<longleftrightarrow> bn_grows e a (bn_width a + 1)"
      using bn_wexpand_None_iff [of e "bn_width a + 1" ?a] bn_grows_cong [of ?a a] unfolding x by simp
    show ?thesis
    proof (cases st1)
      case None
      with step run x w' i t have st: "st = None"
        and a': "a' = a1\<lparr>bn_width := bn_width a1 + 1, bn_d := (bn_d a1)[bn_width a1 := w']\<rparr>" by simp_all
      have r1: "bn_room a1" "bn_width a1 < bn_dmax a1" using t None by simp_all
      from bn_push_word [OF r1 a'] va(1) v t i neg st show ?thesis by simp
    next
      case (Some err)
      with step run x w' i g show ?thesis by simp
    qed
  qed
qed

lemma BN_sub_word_abs:
  assumes room: "bn_room a" and neg: "\<not> bn_neg a" and run: "BN_sub_word e w a = (st, a')"
  shows "(bn_grows e a 1 \<longrightarrow> st = None)
    \<and> (st = None \<longrightarrow> bn_ok a' \<and> bn_val a' = int (bn_abs a) - int (unat w))"
proof (cases "w = 0 \<or> BN_is_zero a")
  case True
  then consider "w = 0" | "w \<noteq> 0" "BN_is_zero a" by blast
  then show ?thesis
  proof cases
    case 1
    with run have "(st, a') = (None, a)" by (subst (asm) BN_sub_word.simps) simp
    with 1 room neg show ?thesis by (simp add: bn_ok_room bn_val_def)
  next
    case 2
    obtain st1 a1 where x: "BN_set_word e w a = (st1, a1)" by fastforce
    with 2 have "BN_sub_word e w a = (st1, if st1 = None then BN_set_negative True a1 else a1)"
      by (subst BN_sub_word.simps) simp
    with run have r: "st = st1" "a' = (if st1 = None then BN_set_negative True a1 else a1)" by auto
    note s = BN_set_word_spec [OF x room]
    have "unat w \<noteq> 0" using 2 by (simp add: unat_eq_0)
    with s r 2 BN_is_zero_iff [OF room] BN_is_zero_iff [of a1] show ?thesis
      by (auto simp: bn_ok_room BN_set_negative_def bn_val_def)
  qed
next
  case nz: False
  then have w: "w \<noteq> 0" and z: "bn_abs a \<noteq> 0" using BN_is_zero_iff [OF room] by simp_all
  have len: "bn_width a \<le> length (bn_d a)" by (rule bn_room_le [OF room])
  let ?k = "bn_minimal_width a"
  have k: "?k \<le> bn_width a" "?k \<noteq> 0" using bn_minimal_width_le [OF room] bn_minimal_width_zero [OF room] z by simp_all
  have d0: "bn_abs a = unat (bn_d a ! 0)" if "?k = 1"
    using bn_abs_minimal [OF room] that k len by (cases "bn_d a") simp_all
  show ?thesis
  proof (cases "?k = 1 \<and> bn_d a ! 0 < w")
    case True
    let ?a = "a\<lparr>bn_d := (bn_d a)[0 := w - bn_d a ! 0], bn_neg := True\<rparr>"
    from nz neg True have "BN_sub_word e w a = (None, ?a)" by (subst BN_sub_word.simps) simp
    with run have r: "st = None" "a' = ?a" by simp_all
    have "words_val (take (bn_width a) ((bn_d a)[0 := w - bn_d a ! 0])) + unat (bn_d a ! 0)
        = bn_abs a + unat (w - bn_d a ! 0)"
      using words_val_update [of 0 "take (bn_width a) (bn_d a)" "w - bn_d a ! 0"] k len
      by (simp add: take_update_swap bn_abs_def bn_words_def)
    then have v: "bn_abs ?a = unat w - bn_abs a" and p: "bn_abs a < unat w"
      using True d0 by (simp_all add: bn_abs_d unat_sub word_less_nat_alt word_le_nat_alt less_imp_le)
    then show ?thesis using r room
      by (simp add: bn_ok_room bn_val_def of_nat_diff bn_room_def del: bn_neg_update)
  next
    case False
    have ge: "unat w \<le> bn_abs a"
    proof (cases "?k = 1")
      case True
      with False d0 show ?thesis by (simp add: word_le_nat_alt not_less)
    next
      case 2: False
      with k have "BN_BASE ^ 1 \<le> bn_abs a" by (intro bn_minimal_width_iff(2) [OF room]) linarith
      then have "BN_BASE \<le> bn_abs a" by simp
      with unat_lt_base [of w] show ?thesis by linarith
    qed
    from sub_word_loop_spec [OF w _ len, of 0] ge obtain d i where
      l: "sub_word_loop (bn_d a) 0 w = Some (d, i)" "i < bn_width a" "length d = length (bn_d a)"
      and v: "words_val (take (bn_width a) d) + unat w = bn_abs a"
      by (auto simp: bn_abs_def bn_words_def)
    let ?a = "a\<lparr>bn_d := d\<rparr>"
    have "BN_sub_word e w a
        = (None, if d ! i = 0 \<and> i = bn_width a - 1 then ?a\<lparr>bn_width := bn_width a - 1\<rparr> else ?a)"
      using nz neg False by (subst BN_sub_word.simps) (auto simp: l Let_def)
    with run have r: "st = None"
      "a' = (if d ! i = 0 \<and> i = bn_width a - 1 then ?a\<lparr>bn_width := bn_width a - 1\<rparr> else ?a)" by auto
    have ra: "bn_room ?a" "bn_abs ?a + unat w = bn_abs a" using room l v by (simp_all add: bn_room_def bn_abs_d)
    have "bn_room a' \<and> bn_abs a' = bn_abs ?a"
    proof (cases "d ! i = 0 \<and> i = bn_width a - 1")
      case True
      then have t: "take (bn_width a) d = take (bn_width a - 1) d @ [0]"
        using l len by (cases "bn_width a") (simp_all add: take_Suc_conv_app_nth)
      have a': "a' = ?a\<lparr>bn_width := bn_width a - 1\<rparr>" unfolding r(2) by (rule if_P [OF True])
      have "bn_abs a' = words_val (take (bn_width a - 1) d)" by (simp add: a' bn_abs_def bn_words_def)
      moreover have "bn_abs ?a = words_val (take (bn_width a - 1) d)"
        unfolding bn_abs_d by (subst t) (simp add: words_val_append)
      moreover have "bn_room a'" using ra(1) by (auto simp: a' bn_room_def)
      ultimately show ?thesis by simp
    next
      case False
      then have "a' = ?a" unfolding r(2) by (rule if_not_P)
      with ra show ?thesis by simp
    qed
    moreover have "\<not> bn_neg a'" using r neg by simp
    moreover have "int (bn_abs ?a) = int (bn_abs a) - int (unat w)" using ra(2) by linarith
    ultimately show ?thesis using r(1) by (simp add: bn_ok_room bn_val_def)
  qed
qed

lemma BN_add_word_spec:
  assumes ok: "bn_ok a" and run: "BN_add_word e w a = (st, a')"
  shows "(bn_grows e a (bn_width a + 1) \<and> bn_grows e a 1 \<longrightarrow> st = None)
    \<and> (st = None \<longrightarrow> bn_ok a' \<and> bn_val a' = bn_val a + int (unat w))"
proof (cases "w \<noteq> 0 \<and> \<not> BN_is_zero a \<and> bn_neg a")
  case True
  obtain st1 a1 where x: "BN_sub_word e w (a\<lparr>bn_neg := False\<rparr>) = (st1, a1)" by fastforce
  with True have "BN_add_word e w a = (st1, if \<not> BN_is_zero a1 then a1\<lparr>bn_neg := \<not> bn_neg a1\<rparr> else a1)"
    by (subst BN_add_word.simps) simp
  with run have r: "st = st1" "a' = (if \<not> BN_is_zero a1 then a1\<lparr>bn_neg := \<not> bn_neg a1\<rparr> else a1)" by auto
  have "bn_room (a\<lparr>bn_neg := False\<rparr>)" using ok by (simp add: bn_ok_room)
  note s = BN_sub_word_abs [OF this _ x, simplified]
  have "bn_ok a1 \<Longrightarrow> BN_is_zero a1 \<longleftrightarrow> bn_abs a1 = 0" by (simp add: BN_is_zero_iff bn_ok_room)
  with s r True show ?thesis
    by (auto simp: bn_val_def bn_ok_room bn_grows_def split: if_splits)
next
  case False
  show ?thesis
  proof (cases "bn_neg a")
    case False
    with BN_add_word_abs [OF _ False run] ok show ?thesis by (auto simp: bn_ok_room bn_val_def)
  next
    case n: True
    then have "\<not> BN_is_zero a" using ok BN_is_zero_iff [of a] by (simp add: bn_ok_room)
    with False n have "w = 0" by simp
    with run have "(st, a') = (None, a)" by (subst (asm) BN_add_word.simps) simp
    with \<open>w = 0\<close> ok show ?thesis by simp
  qed
qed

lemma BN_sub_word_spec:
  assumes ok: "bn_ok a" and run: "BN_sub_word e w a = (st, a')"
  shows "(bn_grows e a (bn_width a + 1) \<and> bn_grows e a 1 \<longrightarrow> st = None)
    \<and> (st = None \<longrightarrow> bn_ok a' \<and> bn_val a' = bn_val a - int (unat w))"
proof (cases "w \<noteq> 0 \<and> \<not> BN_is_zero a \<and> bn_neg a")
  case True
  obtain st1 a1 where x: "BN_add_word e w (a\<lparr>bn_neg := False\<rparr>) = (st1, a1)" by fastforce
  with True have "BN_sub_word e w a = (st1, a1\<lparr>bn_neg := True\<rparr>)" by (subst BN_sub_word.simps) simp
  with run have r: "st = st1" "a' = a1\<lparr>bn_neg := True\<rparr>" by simp_all
  have "bn_room (a\<lparr>bn_neg := False\<rparr>)" using ok by (simp add: bn_ok_room)
  note s = BN_add_word_abs [OF this _ x, simplified]
  have "bn_abs a \<noteq> 0" using ok True by (simp add: bn_ok_room)
  with s r True show ?thesis by (auto simp: bn_val_def bn_ok_room bn_grows_def)
next
  case False
  show ?thesis
  proof (cases "bn_neg a")
    case False
    with BN_sub_word_abs [OF _ False run] ok show ?thesis by (auto simp: bn_ok_room bn_val_def)
  next
    case n: True
    then have "\<not> BN_is_zero a" using ok BN_is_zero_iff [of a] by (simp add: bn_ok_room)
    with False n have "w = 0" by simp
    with run have "(st, a') = (None, a)" by (subst (asm) BN_sub_word.simps) simp
    with \<open>w = 0\<close> ok show ?thesis by simp
  qed
qed

section \<open>Properties\<close>

text \<open>C37: \<open>BN_add\<close> and \<open>BN_sub\<close> compute the sum and the difference of the integers, also where the result
  is one of the operands or both operands are the same number. They succeed just when the result can be
  given the words it may need; no other number changes, the result has minimal width and is never a
  negative zero; \<open>BN_sub\<close> leaves everything as it was on failure, and \<open>BN_add\<close> all but the sign of the
  result.\<close>

theorem BN_add_sub_correct:
  assumes "bn_ok (h r)" and "bn_ok (h a)" and "bn_ok (h b)"
  shows "(case BN_add e r a b h of (st, h') \<Rightarrow>
      (st = None \<longleftrightarrow> bn_grows e (h r) (bn_sum_words (h a) (h b) (bn_neg (h a) = bn_neg (h b))))
      \<and> (if st = None then bn_result r h h' (bn_val (h a) + bn_val (h b))
         else h' = h \<or> h' = bn_set_neg r (bn_neg (h a)) h))
    \<and> (case BN_sub e r a b h of (st, h') \<Rightarrow>
      (st = None \<longleftrightarrow> bn_grows e (h r) (bn_sum_words (h a) (h b) (bn_neg (h a) \<noteq> bn_neg (h b))))
      \<and> (if st = None then bn_result r h h' (bn_val (h a) - bn_val (h b)) else h' = h))"
proof
  obtain st h' where "BN_add e r a b h = (st, h')" by fastforce
  with BN_add_spec [OF assms this] show "case BN_add e r a b h of (st, h') \<Rightarrow>
      (st = None \<longleftrightarrow> bn_grows e (h r) (bn_sum_words (h a) (h b) (bn_neg (h a) = bn_neg (h b))))
      \<and> (if st = None then bn_result r h h' (bn_val (h a) + bn_val (h b))
         else h' = h \<or> h' = bn_set_neg r (bn_neg (h a)) h)" by (cases st) auto
  obtain st h' where "BN_sub e r a b h = (st, h')" by fastforce
  with BN_sub_spec [OF assms this] show "case BN_sub e r a b h of (st, h') \<Rightarrow>
      (st = None \<longleftrightarrow> bn_grows e (h r) (bn_sum_words (h a) (h b) (bn_neg (h a) \<noteq> bn_neg (h b))))
      \<and> (if st = None then bn_result r h h' (bn_val (h a) - bn_val (h b)) else h' = h)" by (cases st) auto
qed

theorem BN_add_sub_correct_witness:
  "bn_val (snd (BN_add small_bn_env 0 0 0 (\<lambda>i. small_bn [- 1, 5] True)) 0) = - 2 * (5 * 2 ^ 64 + (2 ^ 64 - 1))"
proof -
  let ?h = "\<lambda>i :: nat. small_bn [- 1, 5] True"
  have ok: "bn_ok (small_bn [- 1, 5] True)" by (rule small_bn_ok) simp_all
  have v: "bn_val (small_bn [- 1, 5] True) = - (5 * 2 ^ 64 + (2 ^ 64 - 1))"
    by (simp add: bn_val_def small_bn_def bn_abs_def bn_words_def unsigned_minus_1_eq_mask mask_eq_exp_minus_1)
  have "bn_grows small_bn_env (?h 0) (bn_sum_words (?h 0) (?h 0) True)"
    by (simp add: bn_grows_def small_bn_env_def bn_sum_words_def small_bn_def BN_MAX_WORDS_def INT_MAX_def BN_BITS2_def)
  with BN_add_sub_correct [of ?h 0 0 0 small_bn_env, OF ok ok ok]
  show ?thesis by (simp add: v bn_result_def split: prod.splits)
qed

end
