(* ===== verification/BnBytes.thy ===== *)
theory BnBytes
  imports BnSet
begin

text \<open>
  Bignums and byte strings: \<open>bytes.c\<close> of \<open>crypto/fipsmodule/bn\<close>. A function that returns its
  result in \<open>ret\<close> is given it, or nothing where the caller passes no number, and returns the
  number the pointer it returns leads to.
\<close>

definition BN_BYTES :: nat where "BN_BYTES = 8"

fun bin2bn_loop :: "u8 list \<Rightarrow> BN_ULONG \<Rightarrow> nat \<Rightarrow> nat \<Rightarrow> BN_ULONG list \<Rightarrow> BN_ULONG list" where
  "bin2bn_loop [] word m num_words d = d"
| "bin2bn_loop (b # bs) word m num_words d =
     (let word = push_bit 8 word OR ucast b
      in if m = 0 then bin2bn_loop bs 0 (BN_BYTES - 1) (num_words - 1) (d[num_words - 1 := word])
         else bin2bn_loop bs word (m - 1) num_words d)"

definition BN_bin2bn :: "env \<Rightarrow> u8 list \<Rightarrow> bignum option \<Rightarrow> bignum option" where
  "BN_bin2bn e bs p =
     (case (case p of None \<Rightarrow> BN_new e | Some bn \<Rightarrow> Some bn) of
        None \<Rightarrow> None
      | Some bn \<Rightarrow>
          if length bs = 0 then Some (bn\<lparr>bn_width := 0\<rparr>)
          else let num_words = (length bs - 1) div BN_BYTES + 1;
                   m = (length bs - 1) mod BN_BYTES
               in case bn_wexpand e num_words bn of
                    (Some err, bn) \<Rightarrow> None
                  | (None, bn) \<Rightarrow>
                      let bn = bn\<lparr>bn_width := num_words, bn_neg := False\<rparr>
                      in Some (bn\<lparr>bn_d := bin2bn_loop bs 0 m num_words (bn_d bn)\<rparr>))"

text \<open>The words of a number as the bytes of memory they are.\<close>

definition words_bytes :: "BN_ULONG list \<Rightarrow> u8 list" where
  "words_bytes ws = concat (map word_bytes ws)"

definition BN_le2bn :: "env \<Rightarrow> u8 list \<Rightarrow> bignum option \<Rightarrow> bignum option" where
  "BN_le2bn e bs p =
     (case (case p of None \<Rightarrow> BN_new e | Some bn \<Rightarrow> Some bn) of
        None \<Rightarrow> None
      | Some bn \<Rightarrow>
          if length bs = 0 then Some (bn\<lparr>bn_width := 0, bn_neg := False\<rparr>)
          else let num_words = (length bs - 1) div BN_BYTES + 1
               in case bn_wexpand e num_words bn of
                    (Some err, bn) \<Rightarrow> None
                  | (None, bn) \<Rightarrow>
                      let bn = bn\<lparr>bn_width := num_words, bn_d := (bn_d bn)[num_words - 1 := 0]\<rparr>
                      in Some (bn\<lparr>bn_d := bytes_words (overwrite (words_bytes (bn_d bn)) 0 bs)\<rparr>))"

definition BN_bn2bin :: "bignum \<Rightarrow> u8 list" where
  "BN_bn2bin bn =
     map (\<lambda>i. ucast (drop_bit (8 * (i mod BN_BYTES)) (bn_d bn ! (i div BN_BYTES))) AND 0xff)
       (rev [0..<BN_num_bytes bn])"

definition fits_in_bytes :: "u8 list \<Rightarrow> nat \<Rightarrow> nat \<Rightarrow> bool" where
  "fits_in_bytes bytes num_bytes len = (fold (\<lambda>i msk. msk OR bytes ! i) [len..<num_bytes] (0 :: u8) = 0)"

text \<open>\<open>None\<close> where the number does not fit.\<close>

definition BN_bn2le_padded :: "u8 list \<Rightarrow> nat \<Rightarrow> bignum \<Rightarrow> u8 list option" where
  "BN_bn2le_padded out len bn =
     (let bytes = words_bytes (bn_d bn);
          num_bytes = bn_width bn * BN_BYTES
      in if len < num_bytes \<and> \<not> fits_in_bytes bytes num_bytes len then None
         else let num_bytes = (if len < num_bytes then len else num_bytes);
                  out = overwrite out 0 (take num_bytes bytes)
              in Some (overwrite out num_bytes (replicate (len - num_bytes) 0)))"

definition BN_bn2bin_padded :: "u8 list \<Rightarrow> nat \<Rightarrow> bignum \<Rightarrow> u8 list option" where
  "BN_bn2bin_padded out len bn =
     (let bytes = words_bytes (bn_d bn);
          num_bytes = bn_width bn * BN_BYTES
      in if len < num_bytes \<and> \<not> fits_in_bytes bytes num_bytes len then None
         else let num_bytes = (if len < num_bytes then len else num_bytes);
                  out = fold (\<lambda>i out. out[len - i - 1 := bytes ! i]) [0..<num_bytes] out
              in Some (overwrite out 0 (replicate (len - num_bytes) 0)))"

definition BN_MASK2 :: BN_ULONG where "BN_MASK2 = 0xffffffffffffffff"

definition BN_get_word :: "bignum \<Rightarrow> BN_ULONG" where
  "BN_get_word bn =
     (let w = bn_minimal_width bn
      in if w = 0 then 0 else if w = 1 then bn_d bn ! 0 else BN_MASK2)"

definition BN_get_u64 :: "bignum \<Rightarrow> u64 option" where
  "BN_get_u64 bn =
     (let w = bn_minimal_width bn
      in if w = 0 then Some 0 else if w = 1 then Some (bn_d bn ! 0) else None)"

section \<open>Little-endian bytes and words\<close>

definition le_value :: "u8 list \<Rightarrow> nat" where "le_value bs = be_val (rev bs)"

lemma le_value_Nil [simp]: "le_value [] = 0" by (simp add: le_value_def)

lemma le_value_Cons: "le_value (b # bs) = unat b + 256 * le_value bs"
  by (simp add: le_value_def)

lemma le_value_append: "le_value (xs @ ys) = le_value xs + 256 ^ length xs * le_value ys"
  by (induction xs) (simp_all add: le_value_Cons algebra_simps)

lemma le_value_bound: "le_value bs < 256 ^ length bs"
  using be_val_bound [of "rev bs"] by (simp add: le_value_def)

lemma be_val_le_value: "be_val bs = le_value (rev bs)"
  by (simp add: le_value_def)

lemma BN_BASE_bytes: "BN_BASE ^ n = 256 ^ (8 * n)"
  using power_mult [of "256 :: nat" 8 n] by simp

lemma length_word_bytes [simp]: "length (word_bytes w) = 8"
  by (simp add: word_bytes_def)

lemma le_value_word_bytes: "le_value (word_bytes w) = unat w"
  by (simp add: le_value_def word_bytes_def be_val_be_bytes)

lemma length_words_bytes [simp]: "length (words_bytes ws) = 8 * length ws"
  by (induction ws) (simp_all add: words_bytes_def)

lemma words_bytes_simps [simp]:
  "words_bytes [] = []" "words_bytes (w # ws) = word_bytes w @ words_bytes ws"
  "words_bytes (xs @ ys) = words_bytes xs @ words_bytes ys"
  by (simp_all add: words_bytes_def)

lemma le_value_words_bytes: "le_value (words_bytes ws) = words_val ws"
  by (induction ws) (simp_all add: le_value_append le_value_word_bytes)

lemma take_words_bytes: "take (8 * n) (words_bytes ws) = words_bytes (take n ws)"
proof (cases "n \<le> length ws")
  case True
  have "words_bytes ws = words_bytes (take n ws) @ words_bytes (drop n ws)"
    by (simp flip: words_bytes_simps(3))
  then have "take (8 * n) (words_bytes ws) = take (8 * n) (words_bytes (take n ws) @ words_bytes (drop n ws))"
    by simp
  with True show ?thesis by simp
qed simp

lemma le_value_bytes_words: "8 dvd length bs \<Longrightarrow> words_val (bytes_words bs) = le_value bs"
proof (induction bs rule: bytes_words.induct)
  case (1 bs)
  show ?case
  proof (cases "length bs < 8")
    case True
    with 1(2) have "bs = []" by (auto elim: dvdE)
    then show ?thesis by (simp add: bytes_words.simps)
  next
    case False
    have l: "le_value (take 8 bs) < BN_BASE" using le_value_bound [of "take 8 bs"] False by simp
    have "words_val (bytes_words bs) = le_value (take 8 bs) + BN_BASE * le_value (drop 8 bs)"
      using 1 False l by (subst bytes_words.simps) (simp add: unat_of_nat le_value_def dvd_diff_nat)
    also have "\<dots> = le_value (take 8 bs @ drop 8 bs)" using False by (simp only: le_value_append) simp
    finally show ?thesis by simp
  qed
qed

lemma words_val_nth: "k < length ws \<Longrightarrow> words_val ws div BN_BASE ^ k mod BN_BASE = unat (ws ! k)"
proof (induction ws arbitrary: k)
  case (Cons w ws)
  show ?case
  proof (cases k)
    case (Suc j)
    have "words_val (w # ws) div BN_BASE ^ k = words_val (w # ws) div BN_BASE div BN_BASE ^ j"
      by (simp only: Suc power_Suc div_mult2_eq)
    also have "words_val (w # ws) div BN_BASE = words_val ws" by simp
    finally show ?thesis using Cons Suc by simp
  qed simp
qed simp

text \<open>Byte \<open>i\<close> of a number.\<close>

lemma words_val_byte:
  assumes "i < 8 * length ws"
  shows "ucast (drop_bit (8 * (i mod 8)) (ws ! (i div 8))) = byte (words_val ws div 256 ^ i)"
proof (rule byte_eqI [symmetric])
  let ?k = "i div 8" and ?j = "i mod 8"
  have k: "?k < length ws" using assms by (simp add: less_mult_imp_div_less mult.commute)
  have e: "(256 :: nat) ^ i = BN_BASE ^ ?k * 256 ^ ?j"
    unfolding BN_BASE_bytes by (simp flip: power_add)
  have p: "(2 :: nat) ^ (8 * ?j) = 256 ^ ?j" using power_mult [of "2 :: nat" 8 ?j] by simp
  have d: "BN_BASE = 256 ^ ?j * 256 ^ (8 - ?j)" "256 dvd (256 :: nat) ^ (8 - ?j)"
    by (simp_all flip: power_add)
  have "unat (ucast (drop_bit (8 * ?j) (ws ! ?k)) :: u8) = unat (ws ! ?k) div 256 ^ ?j mod 256"
    by (simp add: unsigned_ucast_eq take_bit_eq_mod unat_drop_bit_div p)
  also have "\<dots> = words_val ws div BN_BASE ^ ?k mod BN_BASE div 256 ^ ?j mod 256"
    using words_val_nth [OF k] by simp
  also have "\<dots> = words_val ws div BN_BASE ^ ?k div 256 ^ ?j mod 256 ^ (8 - ?j) mod 256"
    unfolding d(1) by (simp only: div_mult2_eq mod_mult2_eq) simp
  also have "\<dots> = words_val ws div 256 ^ i mod 256"
    using d(2) unfolding e by (simp only: div_mult2_eq mod_mod_cancel)
  finally show "unat (ucast (drop_bit (8 * ?j) (ws ! ?k)) :: u8) = words_val ws div 256 ^ i mod 256" .
qed

lemma be_bytes_map: "be_bytes n v = map (\<lambda>i. byte (v div 256 ^ i)) (rev [0..<n])"
proof (induction n arbitrary: v)
  case (Suc n)
  have "rev [0..<Suc n] = map Suc (rev [0..<n]) @ [0]"
    by (simp add: rev_map [symmetric] map_Suc_upt upt_conv_Cons del: upt_Suc)
  then show ?case by (simp add: Suc div_mult2_eq o_def del: upt_Suc)
qed simp

lemma take_bytes_words: "take n (bytes_words bs) = bytes_words (take (8 * n) bs)"
proof (induction n arbitrary: bs)
  case 0
  then show ?case by (simp add: bytes_words.simps)
next
  case (Suc n)
  show ?case
  proof (cases "length bs < 8")
    case True
    then show ?thesis by (subst (1 2) bytes_words.simps) simp
  next
    case False
    then show ?thesis using Suc [of "drop 8 bs"]
      by (subst (1 2) bytes_words.simps) (simp add: drop_take min_def)
  qed
qed

lemma word_bytes_0: "word_bytes 0 = replicate 8 0"
proof -
  have "be_bytes n 0 = replicate n 0" for n
    by (induction n) (simp_all add: byte_def replicate_append_same)
  then show ?thesis by (simp only: word_bytes_def unsigned_0 rev_replicate)
qed

lemma le_value_replicate_0 [simp]: "le_value (replicate n 0) = 0"
  by (induction n) (simp_all add: le_value_Cons)

section \<open>Reading\<close>

lemma bin2bn_loop_spec:
  assumes "length bs + 7 = 8 * n + m" and "m \<le> 7" and "unat word < 256 ^ (7 - m)" and "n \<le> length d"
  shows "length (bin2bn_loop bs word m n d) = length d \<and> drop n (bin2bn_loop bs word m n d) = drop n d
    \<and> words_val (take n (bin2bn_loop bs word m n d)) = unat word * 256 ^ length bs + be_val bs"
  using assms
proof (induction bs word m n d rule: bin2bn_loop.induct)
  case (1 word m n d)
  then have "8 * n + m = 7" by simp
  then have "n = 0" by (cases n) simp_all
  with 1 show ?case by simp
next
  case (2 b bs word m n d)
  let ?w = "push_bit 8 word OR ucast b :: BN_ULONG"
  have w: "unat ?w = unat word * 256 + unat b \<and> unat ?w < 256 ^ (8 - m)"
  proof -
    have "(256 :: nat) ^ (7 - m) \<le> 256 ^ 7" by (rule power_increasing) simp_all
    with 2(5) have "unat word < 256 ^ 7" by simp
    then have "unat ?w = unat word * 2 ^ 8 + unat (ucast b :: BN_ULONG)"
      by (intro unat_push_bit_or) (simp_all add: unat_ucast_up)
    then have e: "unat ?w = unat word * 256 + unat b" by (simp add: unat_ucast_up)
    have "(unat word + 1) * 256 \<le> 256 ^ (7 - m) * 256" using 2(5) by (intro mult_le_mono1) simp
    also have "\<dots> = 256 ^ (8 - m)"
    proof -
      have "8 - m = Suc (7 - m)" using 2(4) by simp
      then show ?thesis by (simp only: power_Suc2)
    qed
    finally show ?thesis using e unat_u8_less [of b] by (simp del: unat_u8_less)
  qed
  have n: "0 < n" using 2(3,4) by (cases n) simp_all
  show ?case
  proof (cases "m = 0")
    case True
    let ?d = "bin2bn_loop bs 0 (BN_BYTES - 1) (n - 1) (d[n - 1 := ?w])"
    have ih: "length ?d = length (d[n - 1 := ?w]) \<and> drop (n - 1) ?d = drop (n - 1) (d[n - 1 := ?w])
        \<and> words_val (take (n - 1) ?d) = unat (0 :: BN_ULONG) * 256 ^ length bs + be_val bs"
      by (rule 2(1) [OF refl True]) (use 2(3,6) True n in \<open>simp_all add: BN_BYTES_def\<close>)
    then have dr: "drop (n - 1) ?d = ?w # drop n d"
      using n 2(6) by (simp add: Cons_nth_drop_Suc [symmetric])
    then have "drop n ?d = drop n d" using n drop_drop [of 1 "n - 1" ?d] by simp
    moreover have "take n ?d = take (n - 1) ?d @ [?w]"
    proof -
      have "take n ?d = take (n - 1) ?d @ take 1 (drop (n - 1) ?d)"
        using n by (simp flip: take_add)
      then show ?thesis unfolding dr by simp
    qed
    moreover have "length bs = 8 * (n - 1)" using 2(3) True n by simp
    ultimately show ?thesis
      using ih w True n 2(6) by (simp add: Let_def words_val_append BN_BASE_bytes be_val_Cons algebra_simps)
  next
    case False
    let ?d = "bin2bn_loop bs ?w (m - 1) n d"
    have "length ?d = length d \<and> drop n ?d = drop n d
        \<and> words_val (take n ?d) = unat ?w * 256 ^ length bs + be_val bs"
      by (rule 2(2) [OF refl False]) (use 2(3,4,6) False w in \<open>simp_all add: Suc_diff_le\<close>)
    with False w show ?thesis by (simp add: Let_def be_val_Cons algebra_simps)
  qed
qed

text \<open>The number a string is read into; where the string is empty the sign flag is left as it was.\<close>

lemma BN_new_ok: "BN_new e = Some b \<Longrightarrow> bn_room b \<and> \<not> bn_neg b \<and> bn_ok b"
  by (auto simp: BN_new_def bn_ok_room split: option.splits)

lemma bin_words_exact: "bs \<noteq> [] \<Longrightarrow> length bs + 7 = 8 * ((length bs - 1) div 8 + 1) + (length bs - 1) mod 8"
  using mult_div_mod_eq [of 8 "length bs - 1"] by (cases bs) simp_all

lemma BN_bin2bn_spec:
  assumes "BN_bin2bn e bs p = Some b" and "\<And>r. p = Some r \<Longrightarrow> bn_room r"
    and "\<And>r. p = Some r \<Longrightarrow> bs = [] \<Longrightarrow> \<not> bn_neg r"
  shows "bn_ok b \<and> bn_val b = int (be_val bs)"
proof -
  obtain r where r: "(case p of None \<Rightarrow> BN_new e | Some bn \<Rightarrow> Some bn) = Some r" and room: "bn_room r"
    and neg: "bs = [] \<Longrightarrow> \<not> bn_neg r"
    using assms BN_new_ok [of e] by (cases p) (auto simp: BN_bin2bn_def split: option.splits)
  show ?thesis
  proof (cases "bs = []")
    case True
    with assms(1) r have "b = r\<lparr>bn_width := 0\<rparr>" by (simp add: BN_bin2bn_def)
    with room neg True show ?thesis
      by (simp add: bn_ok_room bn_room_def bn_val_def bn_abs_def bn_words_def)
  next
    case False
    let ?n = "(length bs - 1) div BN_BYTES + 1"
    from assms(1) r False obtain r1 where w: "bn_wexpand e ?n r = (None, r1)"
      and b: "b = r1\<lparr>bn_width := ?n, bn_neg := False,
                bn_d := bin2bn_loop bs 0 ((length bs - 1) mod BN_BYTES) ?n (bn_d r1)\<rparr>"
      by (auto simp: BN_bin2bn_def Let_def split: prod.splits option.splits)
    from bn_wexpand_spec [OF w room] have r1: "bn_room r1" "?n \<le> bn_dmax r1" by auto
    have "?n \<le> length (bn_d r1)" using r1 by (simp add: bn_room_def)
    from bin2bn_loop_spec [OF _ _ _ this, of bs "(length bs - 1) mod BN_BYTES" 0] bin_words_exact [OF False]
    have "length (bn_d b) = length (bn_d r1)" and "bn_abs b = be_val bs"
      by (simp_all add: b BN_BYTES_def bn_abs_def bn_words_def)
    moreover have "bn_width b = ?n" "\<not> bn_neg b" "bn_dmax b = bn_dmax r1" by (simp_all add: b)
    ultimately show ?thesis using r1 by (simp add: bn_ok_room bn_room_def bn_val_def)
  qed
qed

lemma BN_bin2bn_grows:
  assumes "bn_grows e b ((length bs - 1) div 8 + 1)"
  shows "BN_bin2bn e bs (Some b) \<noteq> None"
  using assms bn_wexpand_None_iff [of e "(length bs - 1) div 8 + 1" b]
  by (auto simp: BN_bin2bn_def Let_def BN_BYTES_def split: prod.splits option.splits)

lemma BN_le2bn_spec:
  assumes "BN_le2bn e bs p = Some b" and "\<And>r. p = Some r \<Longrightarrow> bn_room r"
  shows "bn_room b \<and> bn_abs b = le_value bs
    \<and> bn_neg b = (bs \<noteq> [] \<and> (case p of None \<Rightarrow> False | Some r \<Rightarrow> bn_neg r))"
proof -
  obtain r where r: "(case p of None \<Rightarrow> BN_new e | Some bn \<Rightarrow> Some bn) = Some r" and room: "bn_room r"
    and neg: "bn_neg r = (case p of None \<Rightarrow> False | Some r \<Rightarrow> bn_neg r)"
    using assms BN_new_ok [of e] by (cases p) (auto simp: BN_le2bn_def split: option.splits)
  show ?thesis
  proof (cases "bs = []")
    case True
    with assms(1) r have "b = r\<lparr>bn_width := 0, bn_neg := False\<rparr>" by (simp add: BN_le2bn_def)
    with room True show ?thesis by (simp add: bn_room_def bn_abs_def bn_words_def)
  next
    case False
    let ?n = "(length bs - 1) div 8 + 1"
    from assms(1) r False obtain r1 where w: "bn_wexpand e ?n r = (None, r1)"
      and b: "b = r1\<lparr>bn_width := ?n,
                bn_d := bytes_words (overwrite (words_bytes ((bn_d r1)[?n - 1 := 0])) 0 bs)\<rparr>"
      by (auto simp: BN_le2bn_def BN_BYTES_def Let_def split: prod.splits option.splits)
    from bn_wexpand_spec [OF w room] have r1: "bn_room r1" "?n \<le> bn_dmax r1" "bn_neg r1 = bn_neg r" by auto
    define d where "d = (bn_d r1)[?n - 1 := 0]"
    have len: "?n \<le> length d" "length d = bn_dmax r1" using r1 by (simp_all add: d_def bn_room_def)
    have bl: "length bs \<le> 8 * ?n" "8 * (?n - 1) < length bs" using False by (cases bs; simp; presburger)+
    have o: "length (overwrite (words_bytes d) 0 bs) = 8 * length d"
      using bl len by (subst length_overwrite) simp_all
    let ?ws = "bytes_words (overwrite (words_bytes d) 0 bs)"
    have tk: "take ?n d = take (?n - 1) d @ [0]"
    proof -
      have "d ! (?n - 1) = 0" using len unfolding d_def by simp
      then show ?thesis using len take_Suc_conv_app_nth [of "?n - 1" d] by simp
    qed
    have v: "bn_abs b = words_val (take ?n ?ws)" by (simp add: b bn_abs_def bn_words_def d_def)
    have "take (8 * ?n) (overwrite (words_bytes d) 0 bs) = bs @ drop (length bs) (words_bytes (take ?n d))"
      using bl(1) by (simp add: overwrite_def take_words_bytes [symmetric] drop_take)
    also have "drop (length bs) (words_bytes (take ?n d)) = replicate (8 * ?n - length bs) 0"
    proof -
      have "length (words_bytes (take (?n - 1) d)) = 8 * (?n - 1)" using len by simp
      then show ?thesis using bl unfolding tk words_bytes_simps word_bytes_0 by simp
    qed
    finally have t: "take (8 * ?n) (overwrite (words_bytes d) 0 bs) = bs @ replicate (8 * ?n - length bs) 0" .
    have "bn_abs b = le_value bs"
      unfolding v take_bytes_words t using bl(1)
      by (subst le_value_bytes_words) (simp_all add: le_value_append)
    moreover have "bn_room b" using r1 len o by (simp add: b bn_room_def d_def)
    moreover have "bn_neg b = bn_neg r" using r1 by (simp add: b)
    ultimately show ?thesis using neg False by simp
  qed
qed

section \<open>Writing\<close>

lemma bit_count_le: "n < 2 ^ k \<Longrightarrow> bit_count n \<le> k"
proof (rule ccontr)
  assume a: "n < 2 ^ k" "\<not> bit_count n \<le> k"
  then have "n \<noteq> 0" by (cases "n = 0") simp_all
  from bit_count_bounds [OF this] a(1) have "(2 :: nat) ^ (bit_count n - 1) < 2 ^ k" by (meson le_less_trans)
  then have "bit_count n - 1 < k" by simp
  with a(2) show False by linarith
qed

lemma bit_count_less: "n < 2 ^ bit_count n"
  using bit_count_bounds [of n] by (cases "n = 0") simp_all

lemma BN_num_bytes_bound:
  assumes "bn_room b"
  shows "bn_abs b < 256 ^ BN_num_bytes b" and "BN_num_bytes b \<le> 8 * bn_width b"
proof -
  let ?c = "bit_count (bn_abs b)"
  have n: "BN_num_bytes b = (?c + 7) div 8" by (simp add: BN_num_bytes_def BN_num_bits_count [OF assms])
  have "bn_abs b < 2 ^ ?c" by (rule bit_count_less)
  also have "\<dots> \<le> 2 ^ (8 * ((?c + 7) div 8))" by (rule power_increasing) (presburger, simp)
  finally show "bn_abs b < 256 ^ BN_num_bytes b" unfolding n by (simp add: power_mult)
  have "bn_abs b < 2 ^ (64 * bn_width b)"
    using words_val_bound [of "bn_words b"] assms power_mult [of "2 :: nat" 64 "bn_width b"] by (simp add: bn_abs_def)
  from bit_count_le [OF this] show "BN_num_bytes b \<le> 8 * bn_width b" unfolding n by linarith
qed

lemma bn_byte:
  assumes "bn_room b" and "i < 8 * bn_width b"
  shows "ucast (drop_bit (8 * (i mod 8)) (bn_d b ! (i div 8))) = byte (bn_abs b div 256 ^ i)"
proof -
  have "i div 8 < bn_width b" using assms(2) by (simp add: less_mult_imp_div_less mult.commute)
  then have "bn_d b ! (i div 8) = bn_words b ! (i div 8)" by (simp add: bn_words_def)
  then show ?thesis using words_val_byte [of i "bn_words b"] assms by (simp add: bn_abs_def)
qed

text \<open>The string written is the absolute value in base 256, without leading zeros.\<close>

lemma BN_bn2bin_be_bytes:
  assumes "bn_room b"
  shows "BN_bn2bin b = be_bytes (BN_num_bytes b) (bn_abs b)"
proof -
  have ff: "x AND 0xff = x" for x :: u8
  proof -
    have "(0xff :: u8) = - 1" by simp
    then show ?thesis by (simp only: bit.conj_one_right)
  qed
  show ?thesis unfolding be_bytes_map BN_bn2bin_def ff
    using bn_byte [OF assms] BN_num_bytes_bound(2) [OF assms] by (auto simp: BN_BYTES_def)
qed

lemma BN_num_bytes_least: "bn_room b \<Longrightarrow> bn_abs b < 256 ^ n \<Longrightarrow> BN_num_bytes b \<le> n"
  using bit_count_le [of "bn_abs b" "8 * n"] by (simp add: power_mult BN_num_bytes_def BN_num_bits_count)

lemma or_bytes_zero: "fold (\<lambda>i msk. msk OR f i) is x = 0 \<longleftrightarrow> x = (0 :: u8) \<and> (\<forall>i \<in> set is. f i = 0)"
  by (induction "is" arbitrary: x) (auto simp: or_eq_0_iff)

lemma le_value_zero_iff: "le_value bs = 0 \<longleftrightarrow> (\<forall>b \<in> set bs. b = 0)"
  by (induction bs) (auto simp: le_value_Cons unat_eq_0)

lemma le_value_take_zero:
  assumes "k \<le> length bs"
  shows "(\<forall>i \<in> {k..<length bs}. bs ! i = 0) \<longleftrightarrow> le_value bs < 256 ^ k"
    and "le_value bs < 256 ^ k \<Longrightarrow> le_value (take k bs) = le_value bs"
proof -
  have v: "le_value bs = le_value (take k bs) + 256 ^ k * le_value (drop k bs)"
    using le_value_append [of "take k bs" "drop k bs"] assms by (simp add: min_absorb1)
  have lo: "le_value (take k bs) < 256 ^ k" using le_value_bound [of "take k bs"] assms by (simp add: min_absorb1)
  have z: "le_value bs < 256 ^ k \<longleftrightarrow> le_value (drop k bs) = 0"
    using lo unfolding v by (cases "le_value (drop k bs)") simp_all
  have "le_value (drop k bs) = 0 \<longleftrightarrow> (\<forall>i < length bs - k. bs ! (k + i) = 0)"
    using assms by (simp add: le_value_zero_iff all_set_conv_all_nth)
  also have "\<dots> \<longleftrightarrow> (\<forall>i \<in> {k..<length bs}. bs ! i = 0)"
    using assms by (auto simp: le_iff_add)
  finally show "(\<forall>i \<in> {k..<length bs}. bs ! i = 0) \<longleftrightarrow> le_value bs < 256 ^ k" using z by simp
  show "le_value (take k bs) = le_value bs" if "le_value bs < 256 ^ k" using that z v by simp
qed

text \<open>The bytes of the words that count, cut to the room there is.\<close>

lemma padded_bytes:
  fixes len :: nat
  assumes "bn_room b"
  defines "n \<equiv> bn_width b * BN_BYTES" and "bytes \<equiv> words_bytes (bn_d b)"
  shows "len < n \<and> \<not> fits_in_bytes bytes n len \<longleftrightarrow> \<not> bn_abs b < 256 ^ len"
    and "bn_abs b < 256 ^ len \<Longrightarrow>
      take (if len < n then len else n) bytes @ replicate (len - (if len < n then len else n)) 0
        = rev (be_bytes len (bn_abs b))"
    and "(if len < n then len else n) \<le> length bytes"
proof -
  have n: "n = 8 * bn_width b" by (simp add: n_def BN_BYTES_def)
  have nl: "n \<le> length bytes" using bn_room_le [OF assms(1)] by (simp add: n bytes_def)
  then show "(if len < n then len else n) \<le> length bytes" by simp
  have tb: "take n bytes = words_bytes (bn_words b)" by (simp add: n bytes_def take_words_bytes bn_words_def)
  have v: "le_value (take n bytes) = bn_abs b" unfolding tb by (simp add: le_value_words_bytes bn_abs_def)
  have ln: "length (take n bytes) = n" using nl by simp
  have top: "bn_abs b < 256 ^ n" using le_value_bound [of "take n bytes"] unfolding v ln .
  show "len < n \<and> \<not> fits_in_bytes bytes n len \<longleftrightarrow> \<not> bn_abs b < 256 ^ len"
  proof (cases "len < n")
    case True
    then show ?thesis using le_value_take_zero(1) [of len "take n bytes"] ln v
      by (simp add: fits_in_bytes_def or_bytes_zero)
  next
    case False
    then have "(256 :: nat) ^ n \<le> 256 ^ len" by (intro power_increasing) simp_all
    with top have "bn_abs b < 256 ^ len" by (rule less_le_trans)
    with False show ?thesis by simp
  qed
  assume fits: "bn_abs b < 256 ^ len"
  let ?k = "if len < n then len else n"
  let ?out = "take ?k bytes @ replicate (len - ?k) 0"
  have lo: "length ?out = len" using nl by auto
  have "le_value ?out = bn_abs b"
  proof (cases "len < n")
    case True
    then have "?out = take len (take n bytes)" by simp
    moreover have "le_value (take len (take n bytes)) = le_value (take n bytes)"
      using True fits ln unfolding v [symmetric] by (intro le_value_take_zero(2)) simp_all
    ultimately show ?thesis unfolding v by simp
  qed (simp add: le_value_append v)
  then have "be_val (rev ?out) = bn_abs b" by (simp only: le_value_def)
  moreover have "be_bytes (length (rev ?out)) (be_val (rev ?out)) = rev ?out" by (rule be_bytes_be_val)
  ultimately show "?out = rev (be_bytes len (bn_abs b))" using lo by (simp only: length_rev rev_rev_ident)
qed

lemma BN_bn2le_padded_spec:
  assumes "bn_room b" and "length out = len"
  shows "BN_bn2le_padded out len b
    = (if bn_abs b < 256 ^ len then Some (rev (be_bytes len (bn_abs b))) else None)"
proof -
  let ?n = "bn_width b * BN_BYTES" and ?bytes = "words_bytes (bn_d b)"
  let ?k = "if len < ?n then len else ?n"
  note p = padded_bytes [OF assms(1), of len]
  have k: "?k \<le> len" by simp
  have "overwrite (overwrite out 0 (take ?k ?bytes)) ?k (replicate (len - ?k) 0)
      = take ?k ?bytes @ replicate (len - ?k) 0"
    using p(3) k assms(2) by (simp add: overwrite_def)
  with p show ?thesis unfolding BN_bn2le_padded_def Let_def by auto
qed

lemma rev_write_loop:
  assumes "n \<le> len" and "length out = len"
  shows "fold (\<lambda>i out. out[len - i - 1 := f i]) [0..<n] out = take (len - n) out @ rev (map f [0..<n])"
  using assms(1)
proof (induction n)
  case (Suc n)
  then have "take (len - n) out = take (len - Suc n) out @ [out ! (len - Suc n)]"
    using assms(2) take_Suc_conv_app_nth [of "len - Suc n" out] by (simp add: Suc_diff_Suc)
  with Suc assms(2) show ?case by (simp add: list_update_append)
qed (use assms in simp)

lemma BN_bn2bin_padded_spec:
  assumes "bn_room b" and "length out = len"
  shows "BN_bn2bin_padded out len b
    = (if bn_abs b < 256 ^ len then Some (be_bytes len (bn_abs b)) else None)"
proof -
  let ?n = "bn_width b * BN_BYTES" and ?bytes = "words_bytes (bn_d b)"
  let ?k = "if len < ?n then len else ?n"
  note p = padded_bytes [OF assms(1), of len]
  have k: "?k \<le> len" by simp
  have m: "map ((!) ?bytes) [0..<?k] = take ?k ?bytes" using p(3) by (intro nth_equalityI) simp_all
  have e: "overwrite (fold (\<lambda>i out. out[len - i - 1 := ?bytes ! i]) [0..<?k] out) 0 (replicate (len - ?k) 0)
      = rev (take ?k ?bytes @ replicate (len - ?k) 0)"
    using rev_write_loop [OF k assms(2), of "(!) ?bytes"] k assms(2) m by (simp add: overwrite_def)
  show ?thesis
  proof (cases "bn_abs b < 256 ^ len")
    case True
    have "rev (take ?k ?bytes @ replicate (len - ?k) 0) = be_bytes len (bn_abs b)"
      using arg_cong [OF p(2) [OF True], of rev] by (simp only: rev_rev_ident)
    with True show ?thesis unfolding BN_bn2bin_padded_def Let_def p(1) e by simp
  qed (simp only: BN_bn2bin_padded_def Let_def p(1) not_False_eq_True if_True if_False)
qed

lemma BN_get_u64_spec:
  assumes "bn_room b"
  shows "BN_get_u64 b = (if bn_abs b < BN_BASE then Some (word_of_nat (bn_abs b)) else None)"
    and "BN_get_word b = (if bn_abs b < BN_BASE then word_of_nat (bn_abs b) else - 1)"
proof -
  let ?k = "bn_minimal_width b"
  have len: "?k \<le> length (bn_d b)" using bn_minimal_width_le [OF assms] bn_room_le [OF assms] by simp
  have one: "bn_abs b = unat (bn_d b ! 0)" if "?k = 1"
    using bn_abs_minimal [OF assms] len that by (cases "bn_d b") simp_all
  have two: "BN_BASE \<le> bn_abs b" if "?k \<noteq> 0" "?k \<noteq> 1"
    using bn_minimal_width_iff(2) [OF assms, of 1] that by simp
  have zero: "bn_abs b = 0" if "?k = 0" using bn_minimal_width_zero [OF assms] that by simp
  show "BN_get_u64 b = (if bn_abs b < BN_BASE then Some (word_of_nat (bn_abs b)) else None)"
    using zero one two by (auto simp: BN_get_u64_def Let_def)
  show "BN_get_word b = (if bn_abs b < BN_BASE then word_of_nat (bn_abs b) else - 1)"
    using zero one two by (auto simp: BN_get_word_def Let_def BN_MASK2_def)
qed

section \<open>Round trips\<close>

lemma be_val_dropWhile: "be_val (dropWhile (\<lambda>b. b = 0) bs) = be_val bs"
  by (induction bs) (simp_all add: be_val_Cons)

lemma BN_bin2bn_abs:
  assumes "BN_bin2bn e bs (Some r) = Some c" and "bn_room r"
  shows "bn_room c" and "bn_abs c = be_val bs" and "bn_neg c = (bs = [] \<and> bn_neg r)"
proof -
  have "bn_room c \<and> bn_abs c = be_val bs \<and> bn_neg c = (bs = [] \<and> bn_neg r)"
  proof (cases "bs = []")
    case True
    with assms show ?thesis by (auto simp: BN_bin2bn_def bn_room_def bn_abs_def bn_words_def)
  next
    case False
    have "bn_ok c \<and> bn_val c = int (be_val bs)"
      by (rule BN_bin2bn_spec [OF assms(1)]) (use assms(2) False in auto)
    moreover from assms False have "\<not> bn_neg c"
      by (auto simp: BN_bin2bn_def Let_def split: prod.splits option.splits)
    ultimately show ?thesis using False by (simp add: bn_ok_room bn_val_def)
  qed
  then show "bn_room c" "bn_abs c = be_val bs" "bn_neg c = (bs = [] \<and> bn_neg r)" by simp_all
qed

text \<open>The string \<open>BN_bn2bin\<close> writes is the only one without leading zeros.\<close>

lemma BN_bn2bin_dropWhile:
  assumes "bn_room b" and "bn_abs b = be_val bs"
  shows "BN_bn2bin b = dropWhile (\<lambda>b. b = 0) bs"
proof -
  define ds where "ds = dropWhile (\<lambda>b. b = 0) bs"
  have v: "be_val ds = bn_abs b" unfolding ds_def assms(2) by (rule be_val_dropWhile)
  have "BN_num_bytes b \<le> length ds"
    using be_val_bound [of ds] v by (intro BN_num_bytes_least [OF assms(1)]) simp
  moreover have "length ds \<le> BN_num_bytes b"
  proof (cases ds)
    case (Cons d ds')
    then have "d \<noteq> 0" using hd_dropWhile [of "\<lambda>b. b = 0" bs] by (simp add: ds_def)
    then have "1 \<le> unat d" by (simp add: Suc_le_eq unat_gt_0)
    then have "1 * 256 ^ length ds' \<le> unat d * 256 ^ length ds'" by (rule mult_le_mono1)
    moreover have "bn_abs b = unat d * 256 ^ length ds' + be_val ds'" using v Cons by (simp add: be_val_Cons)
    ultimately have "256 ^ length ds' \<le> bn_abs b" by linarith
    also have "bn_abs b < 256 ^ BN_num_bytes b" by (rule BN_num_bytes_bound(1) [OF assms(1)])
    finally show ?thesis using Cons by simp
  qed simp
  ultimately have "BN_bn2bin b = be_bytes (length ds) (be_val ds)"
    using BN_bn2bin_be_bytes [OF assms(1)] v by simp
  then show ?thesis using be_bytes_be_val [of ds] by (simp add: ds_def)
qed



end
