(* ===== verification/BnShift.thy ===== *)
theory BnShift
  imports BnBytes
begin

text \<open>
  The shifts of \<open>shift.c\<close> in \<open>crypto/fipsmodule/bn\<close>. An \<open>int\<close> argument is an \<open>int\<close>,
  an unsigned one a \<open>nat\<close>. The temporary that \<open>BN_CTX_get\<close> hands out is an argument, \<open>None\<close>
  where it has none.
\<close>

section \<open>shift.c\<close>

definition lshift_step :: "nat \<Rightarrow> nat \<Rightarrow> nat \<Rightarrow> nat \<Rightarrow> nat \<Rightarrow> wmem \<Rightarrow> wmem" where
  "lshift_step nw lb r a i m =
     (let rb = BN_BITS2 - lb;
          l = rd m (a, 0) i;
          m = wr m (r, 0) (nw + i + 1) (rd m (r, 0) (nw + i + 1) OR drop_bit rb l)
      in wr m (r, 0) (nw + i) (push_bit lb l))"

definition BN_lshift :: "env \<Rightarrow> nat \<Rightarrow> nat \<Rightarrow> int \<Rightarrow> bn_heap \<Rightarrow> bn_status \<times> bn_heap" where
  "BN_lshift e r a n h =
     (if n < 0 then (Some BN_R_NEGATIVE_NUMBER, h)
      else let h = bn_set_neg r (bn_neg (h a)) h;
               nw = nat n div BN_BITS2
           in case bn_on r (bn_wexpand e (bn_width (h a) + nw + 1)) h of
                (Some err, h) \<Rightarrow> (Some err, h)
              | (None, h) \<Rightarrow>
                  let lb = nat n mod BN_BITS2;
                      m = wr (bn_mem h) (r, 0) (bn_width (h a) + nw) 0;
                      m = (if lb = 0
                           then fold (\<lambda>i m. wr m (r, 0) (nw + i) (rd m (a, 0) i)) (rev [0..<bn_width (h a)]) m
                           else fold (lshift_step nw lb r a) (rev [0..<bn_width (h a)]) m);
                      m = words_put m (r, 0) (replicate nw 0);
                      h = bn_with_mem h m;
                      h = h(r := (h r)\<lparr>bn_width := bn_width (h a) + nw + 1\<rparr>)
                  in (None, h(r := bn_set_minimal_width (h r))))"

definition lshift1_limb :: "BN_ULONG \<Rightarrow> BN_ULONG \<Rightarrow> BN_ULONG \<Rightarrow> BN_ULONG \<times> BN_ULONG" where
  "lshift1_limb c t t' = (push_bit 1 t OR c, drop_bit (BN_BITS2 - 1) t)"

definition BN_lshift1 :: "env \<Rightarrow> nat \<Rightarrow> nat \<Rightarrow> bn_heap \<Rightarrow> bn_status \<times> bn_heap" where
  "BN_lshift1 e r a h =
     (let h = (if r \<noteq> a then bn_set_neg r (bn_neg (h a)) h else h)
      in case bn_on r (bn_wexpand e (bn_width (h a) + 1)) h of
           (Some err, h) \<Rightarrow> (Some err, h)
         | (None, h) \<Rightarrow>
             let h = (if r \<noteq> a then h(r := (h r)\<lparr>bn_width := bn_width (h a)\<rparr>) else h);
                 (c, m) = words_loop (word_step lshift1_limb (r, 0) (a, 0) (a, 0)) 0 (bn_width (h a)) (0, bn_mem h)
             in if c \<noteq> 0
                then let h = bn_with_mem h (wr m (r, 0) (bn_width (h a)) 1)
                     in (None, h(r := (h r)\<lparr>bn_width := bn_width (h r) + 1\<rparr>))
                else (None, bn_with_mem h m))"

definition rshift_limb :: "nat \<Rightarrow> unit \<Rightarrow> BN_ULONG \<Rightarrow> BN_ULONG \<Rightarrow> BN_ULONG \<times> unit" where
  "rshift_limb shift_bits c x y = (drop_bit shift_bits x OR push_bit (BN_BITS2 - shift_bits) y, ())"

definition bn_rshift_words :: "wptr \<Rightarrow> wptr \<Rightarrow> nat \<Rightarrow> nat \<Rightarrow> wmem \<Rightarrow> wmem" where
  "bn_rshift_words r a shift num m =
     (let shift_bits = shift mod BN_BITS2;
          shift_words = shift div BN_BITS2
      in if shift_words \<ge> num then words_put m r (replicate num 0)
         else let m = (if shift_bits = 0
                       then words_put m r (words_at m (wadd a shift_words) (num - shift_words))
                       else let (_, m) = words_loop (word_step (rshift_limb shift_bits) r
                                   (wadd a shift_words) (wadd a (shift_words + 1))) 0
                                   (num - 1 - shift_words) ((), m)
                            in wr m r (num - 1 - shift_words) (drop_bit shift_bits (rd m a (num - 1))))
              in words_put m (wadd r (num - shift_words)) (replicate shift_words 0))"

definition BN_rshift :: "env \<Rightarrow> nat \<Rightarrow> nat \<Rightarrow> int \<Rightarrow> bn_heap \<Rightarrow> bn_status \<times> bn_heap" where
  "BN_rshift e r a n h =
     (if n < 0 then (Some BN_R_NEGATIVE_NUMBER, h)
      else case bn_on r (bn_wexpand e (bn_width (h a))) h of
             (Some err, h) \<Rightarrow> (Some err, h)
           | (None, h) \<Rightarrow>
               let h = bn_with_mem h (bn_rshift_words (r, 0) (a, 0) (nat n) (bn_width (h a)) (bn_mem h));
                   h = bn_set_neg r (bn_neg (h a)) h;
                   h = h(r := (h r)\<lparr>bn_width := bn_width (h a)\<rparr>)
               in (None, h(r := bn_set_minimal_width (h r))))"

definition rshift_secret_step :: "nat \<Rightarrow> nat \<Rightarrow> nat \<Rightarrow> nat \<Rightarrow> nat \<Rightarrow> wmem \<Rightarrow> wmem" where
  "rshift_secret_step r tmp n width i m =
     (let msk = (of_nat (drop_bit i n) AND 1 :: BN_ULONG);
          msk = 0 - msk;
          m = bn_rshift_words (tmp, 0) (r, 0) (2 ^ i) width m
      in bn_select_words (r, 0) msk (tmp, 0) (r, 0) width m)"

function rshift_secret_loop :: "nat \<Rightarrow> (nat \<Rightarrow> wmem \<Rightarrow> wmem) \<Rightarrow> nat \<Rightarrow> wmem \<Rightarrow> wmem" where
  "rshift_secret_loop max_bits f i m =
     (if drop_bit i max_bits \<noteq> 0 then rshift_secret_loop max_bits f (i + 1) (f i m) else m)"
  by pat_completeness auto
termination
  by (relation "measure (\<lambda>(max_bits, f, i, m). drop_bit i max_bits)")
    (auto simp: drop_bit_eq_div div_mult2_eq mult.commute[of 2])

declare rshift_secret_loop.simps [simp del]

definition bn_rshift_secret_shift ::
  "env \<Rightarrow> nat \<Rightarrow> nat \<Rightarrow> nat \<Rightarrow> nat option \<Rightarrow> bn_heap \<Rightarrow> bn_status \<times> bn_heap" where
  "bn_rshift_secret_shift e r a n ctx h =
     (case ctx of
        None \<Rightarrow> (Some BN_R_NONE, h)
      | Some tmp \<Rightarrow>
          (case BN_copy e r a h of
             (Some err, h) \<Rightarrow> (Some err, h)
           | (None, h) \<Rightarrow>
               (case bn_on tmp (bn_wexpand e (bn_width (h r))) h of
                  (Some err, h) \<Rightarrow> (Some err, h)
                | (None, h) \<Rightarrow>
                    let max_bits = BN_BITS2 * bn_width (h r)
                    in (None, bn_with_mem h
                          (rshift_secret_loop max_bits (rshift_secret_step r tmp n (bn_width (h r))) 0 (bn_mem h))))))"

definition bn_rshift1_words :: "wptr \<Rightarrow> wptr \<Rightarrow> nat \<Rightarrow> wmem \<Rightarrow> wmem" where
  "bn_rshift1_words r a num m =
     (if num = 0 then m
      else let (_, m) = words_loop (word_step (rshift_limb 1) r a (wadd a 1)) 0 (num - 1) ((), m)
           in wr m r (num - 1) (drop_bit 1 (rd m a (num - 1))))"

definition BN_rshift1 :: "env \<Rightarrow> nat \<Rightarrow> nat \<Rightarrow> bn_heap \<Rightarrow> bn_status \<times> bn_heap" where
  "BN_rshift1 e r a h =
     (case bn_on r (bn_wexpand e (bn_width (h a))) h of
        (Some err, h) \<Rightarrow> (Some err, h)
      | (None, h) \<Rightarrow>
          let h = bn_with_mem h (bn_rshift1_words (r, 0) (a, 0) (bn_width (h a)) (bn_mem h));
              h = h(r := (h r)\<lparr>bn_width := bn_width (h a)\<rparr>);
              h = bn_set_neg r (bn_neg (h a)) h
          in (None, h(r := bn_set_minimal_width (h r))))"

section \<open>Shifting right\<close>

lemma unat_push_bit: "unat (push_bit n (v :: BN_ULONG)) = unat v * 2 ^ n mod BN_BASE"
  by (simp only: unsigned_push_bit_eq) (simp add: take_bit_eq_mod push_bit_eq_mult)

lemma unat_add_fits: "unat a + unat b < BN_BASE \<Longrightarrow> unat (a + b :: BN_ULONG) = unat a + unat b"
  by (simp add: unat_word_ariths)

lemma base_split: "n \<le> 64 \<Longrightarrow> BN_BASE = 2 ^ n * 2 ^ (64 - n)"
  by (simp flip: power_add)

lemma rshift_limb_val:
  assumes "0 < n" and "n < 64"
  shows "unat (drop_bit n x OR push_bit (BN_BITS2 - n) y :: BN_ULONG)
    = unat x div 2 ^ n + 2 ^ (64 - n) * (unat y mod 2 ^ n)"
proof -
  have B: "BN_BASE = 2 ^ n * 2 ^ (64 - n)" using base_split [of n] assms by simp
  have lo: "unat x div 2 ^ n < 2 ^ (64 - n)"
    using unat_lt_base [of x] unfolding B by (simp add: less_mult_imp_div_less mult.commute)
  have hi: "unat (push_bit (64 - n) y) = 2 ^ (64 - n) * (unat y mod 2 ^ n)"
    unfolding unat_push_bit B by (simp add: mult.commute mod_mult_mult2)
  have "unat y mod 2 ^ n + 1 \<le> 2 ^ n" by (simp add: Suc_leI)
  then have "2 ^ (64 - n) * (unat y mod 2 ^ n + 1) \<le> 2 ^ (64 - n) * 2 ^ n" by (rule mult_le_mono2)
  then have "2 ^ (64 - n) * (unat y mod 2 ^ n) + unat x div 2 ^ n < BN_BASE"
    using lo unfolding B by (simp add: algebra_simps)
  moreover have "push_bit (64 - n) y OR drop_bit n x = push_bit (64 - n) y + drop_bit n x"
    using lo by (intro push_bit_or_eq_add) (simp add: unat_drop_bit_div)
  ultimately show ?thesis
    unfolding BN_BITS2_def or.commute [of "drop_bit n x"]
    by (simp only: unat_add_fits hi unat_drop_bit_div)
qed

lemma rshift_list_val:
  assumes "0 < n" and "n < 64" and "xs \<noteq> []"
  shows "words_val (snd (carry_map (rshift_limb n) () (butlast xs) (tl xs)) @ [drop_bit n (last xs)])
    = words_val xs div 2 ^ n"
  using assms(3)
proof (induction xs rule: list_nonempty_induct)
  case (single x)
  then show ?case by (simp add: unat_drop_bit_div)
next
  case (cons x xs)
  then obtain y ys where xs: "xs = y # ys" by (cases xs) auto
  let ?W = "words_val xs"
  have B: "BN_BASE = 2 ^ n * 2 ^ (64 - n)" using base_split [of n] assms by simp
  have ym: "?W mod 2 ^ n = unat y mod 2 ^ n"
    unfolding xs words_val.simps B by (simp only: mult.assoc mod_mult_self2)
  have "words_val (x # xs) div 2 ^ n = (unat x + 2 ^ n * (2 ^ (64 - n) * ?W)) div 2 ^ n"
    unfolding words_val.simps by (subst B) (simp only: mult.assoc)
  also have "\<dots> = unat x div 2 ^ n + 2 ^ (64 - n) * ?W" by simp
  also have "?W = ?W mod 2 ^ n + 2 ^ n * (?W div 2 ^ n)" by simp
  also have "unat x div 2 ^ n + 2 ^ (64 - n) * (?W mod 2 ^ n + 2 ^ n * (?W div 2 ^ n))
      = (unat x div 2 ^ n + 2 ^ (64 - n) * (unat y mod 2 ^ n)) + (2 ^ n * 2 ^ (64 - n)) * (?W div 2 ^ n)"
    unfolding ym by (simp only: algebra_simps)
  also have "\<dots> = unat (drop_bit n x OR push_bit (BN_BITS2 - n) y) + BN_BASE * (?W div 2 ^ n)"
    unfolding rshift_limb_val [OF assms(1,2)] B [symmetric] ..
  finally show ?case using cons by (simp add: xs rshift_limb_def Let_def split_beta)
qed

lemma words_at_tl: "tl (words_at m p n) = words_at m (wadd p 1) (n - 1)"
  by (simp add: words_at_def wadd_def tl_take drop_Suc tl_drop)

lemma words_at_butlast: "in_words m p n \<Longrightarrow> butlast (words_at m p n) = words_at m p (n - 1)"
  by (simp add: words_at_def in_words_def butlast_take)

lemma words_at_last: "in_words m p n \<Longrightarrow> 0 < n \<Longrightarrow> last (words_at m p n) = rd m p (n - 1)"
  by (simp add: words_at_def in_words_def rd_def last_conv_nth)

lemma rd_words_put:
  assumes "in_words m r (length xs)" and "fst r \<noteq> fst p \<or> snd r + length xs \<le> snd p + i"
  shows "rd (words_put m r xs) p i = rd m p i"
  using assms by (auto simp: rd_def words_put_def overwrite_def in_words_def nth_append)

text \<open>The result of a right shift may be the operand itself.\<close>

lemma rshift_pass:
  assumes n: "0 < n" "n < 64" and k: "0 < k" and r: "in_words m (r, 0) k" and a: "in_words m (a, j) k"
  shows "\<exists>xs. (let (_, m) = words_loop (word_step (rshift_limb n) (r, 0) (a, j) (wadd (a, j) 1)) 0 (k - 1) ((), m)
            in wr m (r, 0) (k - 1) (drop_bit n (rd m (a, j) (k - 1)))) = words_put m (r, 0) xs
    \<and> length xs = k \<and> words_val xs = words_val (words_at m (a, j) k) div 2 ^ n"
proof -
  let ?X = "words_at m (a, j) k"
  have i: "in_words m (r, 0) (k - 1)" "in_words m (a, j) (k - 1)" "in_words m (wadd (a, j) 1) (k - 1)"
    using r a k by (auto simp: in_words_def wadd_def)
  have b: "behind (r, 0) (a, j) (k - 1)" "behind (r, 0) (wadd (a, j) 1) (k - 1)"
    by (simp_all add: behind_def wadd_def)
  obtain c zs where cm: "carry_map (rshift_limb n) () (butlast ?X) (tl ?X) = (c, zs)" by (rule prod.exhaust)
  have X: "?X \<noteq> []" "last ?X = rd m (a, j) (k - 1)" "length ?X = k"
    using k words_at_last [OF a k] length_words_at [OF a] by (metis length_0_conv less_not_refl)+
  have zl: "length zs = k - 1"
    using length_carry_map [of "rshift_limb n" "()" "butlast ?X" "tl ?X"] X(3) by (simp add: cm)
  have l: "words_loop (word_step (rshift_limb n) (r, 0) (a, j) (wadd (a, j) 1)) 0 (k - 1) ((), m)
      = (c, words_put m (r, 0) zs)"
    using words_loop_carry [OF i b, of "rshift_limb n" "()"] cm
    by (simp add: words_at_butlast [OF a] words_at_tl)
  have rz: "in_words m (r, 0) (length zs)" using i(1) zl by simp
  have "rd (words_put m (r, 0) zs) (a, j) (k - 1) = last ?X"
    unfolding X(2) using zl by (intro rd_words_put [OF rz]) simp
  moreover have "wr (words_put m (r, 0) zs) (r, 0) (k - 1) w = words_put m (r, 0) (zs @ [w])" for w
  proof -
    have "in_words (words_put m (r, 0) zs) (r, 0) (Suc (k - 1))" using r k rz by simp
    then have "wr (words_put m (r, 0) zs) (r, 0) (k - 1) w = words_put (words_put m (r, 0) zs) (wadd (r, 0) (length zs)) [w]"
      unfolding zl by (rule wr_as_put)
    also have "\<dots> = words_put m (r, 0) (zs @ [w])" using r k zl by (intro words_put_append) simp
    finally show ?thesis .
  qed
  moreover have "words_val (zs @ [drop_bit n (last ?X)]) = words_val ?X div 2 ^ n"
    using rshift_list_val [OF n X(1)] by (simp only: cm snd_conv)
  ultimately show ?thesis using l zl k by (intro exI [of _ "zs @ [drop_bit n (last ?X)]"]) simp
qed

lemma bn_rshift_words_val:
  assumes r: "in_words m (r, 0) num" and a: "in_words m (a, 0) num"
  shows "\<exists>xs. bn_rshift_words (r, 0) (a, 0) s num m = words_put m (r, 0) xs \<and> length xs = num
    \<and> words_val xs = words_val (words_at m (a, 0) num) div 2 ^ s"
proof -
  let ?b = "s mod 64" and ?w = "s div 64"
  have p: "(2 :: nat) ^ s = BN_BASE ^ ?w * 2 ^ ?b"
  proof -
    have "(2 :: nat) ^ s = 2 ^ (64 * ?w + ?b)" by simp
    also have "\<dots> = (2 ^ 64) ^ ?w * 2 ^ ?b" by (simp only: power_add power_mult)
    finally show ?thesis by simp
  qed
  show ?thesis
  proof (cases "?w \<ge> num")
    case True
    have "words_val (words_at m (a, 0) num) < BN_BASE ^ num" using words_val_bound [of "words_at m (a, 0) num"] a by simp
    also have "\<dots> \<le> BN_BASE ^ ?w" using True by (intro power_increasing) simp_all
    finally have "words_val (words_at m (a, 0) num) div 2 ^ s = 0" unfolding p by (simp add: div_mult2_eq)
    with True show ?thesis
      by (intro exI [of _ "replicate num 0"]) (simp add: bn_rshift_words_def BN_BITS2_def)
  next
    case False
    let ?k = "num - ?w"
    let ?X = "words_at m (a, ?w) ?k"
    have k: "0 < ?k" "?w + ?k = num" using False by simp_all
    have aw: "in_words m (a, ?w) ?k" and rk: "in_words m (r, 0) ?k" using a r k by (auto simp: in_words_def)
    have v: "words_val ?X div 2 ^ ?b = words_val (words_at m (a, 0) num) div 2 ^ s"
    proof -
      have lo: "words_val (words_at m (a, 0) ?w) < BN_BASE ^ ?w"
        using words_val_bound [of "words_at m (a, 0) ?w"] a k by (simp add: in_words_le)
      have "words_val (words_at m (a, 0) num) = words_val (words_at m (a, 0) ?w) + BN_BASE ^ ?w * words_val ?X"
        using words_val_split [OF a, of ?w] k by simp
      then have "words_val (words_at m (a, 0) num) div BN_BASE ^ ?w = words_val ?X" using lo by simp
      then show ?thesis unfolding p by (simp only: div_mult2_eq)
    qed
    have "\<exists>xs. (if ?b = 0 then words_put m (r, 0) ?X
        else let (_, m) = words_loop (word_step (rshift_limb ?b) (r, 0) (a, ?w) (wadd (a, ?w) 1)) 0 (?k - 1) ((), m)
             in wr m (r, 0) (?k - 1) (drop_bit ?b (rd m (a, ?w) (?k - 1)))) = words_put m (r, 0) xs
      \<and> length xs = ?k \<and> words_val xs = words_val ?X div 2 ^ ?b"
    proof (cases "?b = 0")
      case True
      then show ?thesis using aw by (intro exI [of _ ?X]) simp
    next
      case b: False
      then show ?thesis using rshift_pass [OF _ _ k(1) rk aw, of ?b] by simp
    qed
    then obtain xs where x: "(if ?b = 0 then words_put m (r, 0) ?X
        else let (_, m) = words_loop (word_step (rshift_limb ?b) (r, 0) (a, ?w) (wadd (a, ?w) 1)) 0 (?k - 1) ((), m)
             in wr m (r, 0) (?k - 1) (drop_bit ?b (rd m (a, ?w) (?k - 1)))) = words_put m (r, 0) xs"
      and xl: "length xs = ?k" and xv: "words_val xs = words_val ?X div 2 ^ ?b" by blast
    have e: "num - 1 - ?w = ?k - 1" "wadd (a, 0) ?w = (a, ?w)" "wadd (a, 0) (?w + 1) = wadd (a, ?w) 1"
      using k by (simp_all add: wadd_def)
    have rd: "rd m' (a, 0) (num - 1) = rd m' (a, ?w) (?k - 1)" for m' using k by (simp add: rd_def)
    have "bn_rshift_words (r, 0) (a, 0) s num m = words_put (words_put m (r, 0) xs) (wadd (r, 0) ?k) (replicate ?w 0)"
      using False unfolding bn_rshift_words_def Let_def BN_BITS2_def e rd
      by (simp only: if_False x [unfolded Let_def])
    also have "\<dots> = words_put m (r, 0) (xs @ replicate ?w 0)"
      unfolding xl [symmetric] using r xl k by (intro words_put_append) simp
    finally show ?thesis using xl xv v k
      by (intro exI [of _ "xs @ replicate ?w 0"]) (simp add: words_val_append)
  qed
qed

lemma bn_rshift1_words_val:
  assumes r: "in_words m (r, 0) num" and a: "in_words m (a, 0) num"
  shows "\<exists>xs. bn_rshift1_words (r, 0) (a, 0) num m = words_put m (r, 0) xs \<and> length xs = num
    \<and> words_val xs = words_val (words_at m (a, 0) num) div 2 ^ 1"
proof (cases "num = 0")
  case True
  then show ?thesis by (intro exI [of _ "[]"]) (simp add: bn_rshift1_words_def)
next
  case False
  then show ?thesis using rshift_pass [OF _ _ _ r a, of 1] by (simp only: bn_rshift1_words_def if_False)
qed

text \<open>What the shifts leave: nothing but the result changed, a number of the operand's sign with
  the absolute value \<open>v\<close>, in minimal width.\<close>

definition bn_shifted :: "nat \<Rightarrow> bool \<Rightarrow> bn_heap \<Rightarrow> bn_heap \<Rightarrow> nat \<Rightarrow> bool" where
  "bn_shifted r neg h h' v \<longleftrightarrow> (\<forall>i. i \<noteq> r \<longrightarrow> h' i = h i) \<and> bn_ok (h' r) \<and> bn_minimal (h' r)
     \<and> bn_abs (h' r) = v \<and> bn_val (h' r) = (if neg then - int v else int v)"

lemma bn_shifted_store:
  assumes "bn_room b1" and "length xs \<le> bn_dmax b1"
  shows "bn_shifted r neg h (h(r := bn_set_minimal_width
      (b1\<lparr>bn_d := overwrite (bn_d b1) 0 xs, bn_width := length xs, bn_neg := neg\<rparr>))) (words_val xs)"
proof -
  note s = bn_store_words [OF assms refl, of neg]
  from bn_set_minimal_width_spec [OF s(1)] s show ?thesis
    by (auto simp: bn_shifted_def bn_val_def)
qed

lemma BN_rshift_spec:
  assumes room: "bn_room (h r)" "bn_room (h a)" and n: "0 \<le> n" and run: "BN_rshift e r a n h = (st, h')"
  shows "(st = None \<longleftrightarrow> bn_grows e (h r) (bn_width (h a))) \<and> (st \<noteq> None \<longrightarrow> h' = h)
    \<and> (st = None \<longrightarrow> bn_shifted r (bn_neg (h a)) h h' (bn_abs (h a) div 2 ^ nat n))"
proof -
  let ?n = "bn_width (h a)"
  obtain st1 bn1 where w: "bn_wexpand e ?n (h r) = (st1, bn1)" by fastforce
  have g: "st1 = None \<longleftrightarrow> bn_grows e (h r) ?n"
    using bn_wexpand_None_iff [of e ?n "h r"] unfolding w by simp
  show ?thesis
  proof (cases st1)
    case (Some err)
    then have "st = Some err" "h' = h"
      using run n w bn_wexpand_spec [OF w room(1)] by (auto simp: BN_rshift_def bn_on_eq)
    with Some g show ?thesis by simp
  next
    case None
    let ?h1 = "h(r := bn1)"
    note e1 = wexpand_heap [where h = h and r = r, OF w [unfolded None] room(1)]
    have ir: "in_words (bn_mem ?h1) (r, 0) ?n"
      using e1(3) [OF room(1)] e1(4) by (intro bn_mem_in_words) simp_all
    have ia: "in_words (bn_mem ?h1) (a, 0) ?n"
      using e1(3) [OF room(2)] e1(6) [of a] room unfolding bn_room_def
      by (intro bn_mem_in_words; simp add: bn_room_def)
    have wa: "words_at (bn_mem ?h1) (a, 0) ?n = bn_words (h a)"
      using bn_mem_words_at [of ?h1 a] e1(1,2) [of a] by simp
    from bn_rshift_words_val [OF ir ia, of "nat n"] obtain xs where
      x: "bn_rshift_words (r, 0) (a, 0) (nat n) ?n (bn_mem ?h1) = words_put (bn_mem ?h1) (r, 0) xs"
        "length xs = ?n" "words_val xs = bn_abs (h a) div 2 ^ nat n"
      unfolding wa bn_abs_def by blast
    have b1: "bn_room bn1" "length xs \<le> bn_dmax bn1" using e1(3) [OF room(1)] e1(4) x(2) by simp_all
    let ?h2 = "?h1(r := (?h1 r)\<lparr>bn_d := overwrite (bn_d (?h1 r)) 0 xs\<rparr>)"
    have wa2: "bn_width (?h1 a) = ?n" "bn_neg (?h2 a) = bn_neg (h a)" using e1(1,5) [of a] by auto
    let ?h3 = "bn_set_neg r (bn_neg (h a)) ?h2"
    have wa3: "bn_width (?h3 a) = ?n" using e1(1) [of a] by (auto simp: bn_set_neg_def)
    have "BN_rshift e r a n h = (None, (?h3(r := (?h3 r)\<lparr>bn_width := ?n\<rparr>))
        (r := bn_set_minimal_width ((?h3(r := (?h3 r)\<lparr>bn_width := ?n\<rparr>)) r)))"
      using n by (simp only: BN_rshift_def not_less [symmetric] if_False bn_on_eq w None fst_conv snd_conv
          prod.case option.case Let_def wa2 x(1) bn_with_mem_put wa3)
    also have "\<dots> = (None, h(r := bn_set_minimal_width
        (bn1\<lparr>bn_d := overwrite (bn_d bn1) 0 xs, bn_width := length xs, bn_neg := bn_neg (h a)\<rparr>)))"
      unfolding x(2) by (cases bn1) (auto simp: bn_set_neg_def fun_eq_iff)
    finally have "st = None" "h' = h(r := bn_set_minimal_width
        (bn1\<lparr>bn_d := overwrite (bn_d bn1) 0 xs, bn_width := length xs, bn_neg := bn_neg (h a)\<rparr>))"
      using run by simp_all
    with bn_shifted_store [OF b1, of r "bn_neg (h a)" h] g None x(3) show ?thesis by simp
  qed
qed

lemma wexpand_operands:
  assumes w: "bn_wexpand e n (h r) = (None, b1)" and room: "bn_room (h r)" "bn_room (h a)"
  shows "in_words (bn_mem (h(r := b1))) (r, 0) n" "in_words (bn_mem (h(r := b1))) (a, 0) (bn_width (h a))"
    and "words_at (bn_mem (h(r := b1))) (a, 0) (bn_width (h a)) = bn_words (h a)"
    and "bn_width ((h(r := b1)) a) = bn_width (h a)" "bn_neg ((h(r := b1)) a) = bn_neg (h a)"
    and "bn_room b1" "n \<le> bn_dmax b1" "bn_width b1 = bn_width (h r)" "bn_neg b1 = bn_neg (h r)"
proof -
  note e = wexpand_heap [where h = h and r = r, OF w room(1)]
  show b1: "bn_room b1" "n \<le> bn_dmax b1" using e(3) [of r] room(1) e(4) by simp_all
  show "in_words (bn_mem (h(r := b1))) (r, 0) n" using b1 by (intro bn_mem_in_words) simp_all
  show "in_words (bn_mem (h(r := b1))) (a, 0) (bn_width (h a))"
    using e(3) [OF room(2)] e(6) [of a] room unfolding bn_room_def
    by (intro bn_mem_in_words; simp add: bn_room_def)
  show "words_at (bn_mem (h(r := b1))) (a, 0) (bn_width (h a)) = bn_words (h a)"
    using bn_mem_words_at [of "h(r := b1)" a] e(1,2) [of a] by simp
  show "bn_width ((h(r := b1)) a) = bn_width (h a)" "bn_neg ((h(r := b1)) a) = bn_neg (h a)"
    using e(1,5) by auto
  show "bn_width b1 = bn_width (h r)" "bn_neg b1 = bn_neg (h r)" using e(1,5) [of r] by simp_all
qed

lemma BN_rshift1_spec:
  assumes room: "bn_room (h r)" "bn_room (h a)" and run: "BN_rshift1 e r a h = (st, h')"
  shows "(st = None \<longleftrightarrow> bn_grows e (h r) (bn_width (h a))) \<and> (st \<noteq> None \<longrightarrow> h' = h)
    \<and> (st = None \<longrightarrow> bn_shifted r (bn_neg (h a)) h h' (bn_abs (h a) div 2))"
proof -
  let ?n = "bn_width (h a)"
  obtain st1 bn1 where w: "bn_wexpand e ?n (h r) = (st1, bn1)" by fastforce
  have g: "st1 = None \<longleftrightarrow> bn_grows e (h r) ?n"
    using bn_wexpand_None_iff [of e ?n "h r"] unfolding w by simp
  show ?thesis
  proof (cases st1)
    case (Some err)
    then have "st = Some err" "h' = h"
      using run w bn_wexpand_spec [OF w room(1)] by (auto simp: BN_rshift1_def bn_on_eq)
    with Some g show ?thesis by simp
  next
    case None
    let ?h1 = "h(r := bn1)"
    note e1 = wexpand_operands [where h = h and r = r, OF w [unfolded None] room]
    from bn_rshift1_words_val [OF e1(1,2)] obtain xs where
      x: "bn_rshift1_words (r, 0) (a, 0) ?n (bn_mem ?h1) = words_put (bn_mem ?h1) (r, 0) xs"
        "length xs = ?n" "words_val xs = bn_abs (h a) div 2"
      unfolding e1(3) bn_abs_def power_one_right by blast
    have b1: "length xs \<le> bn_dmax bn1" using e1(7) x(2) by simp
    let ?h2 = "?h1(r := (?h1 r)\<lparr>bn_d := overwrite (bn_d (?h1 r)) 0 xs\<rparr>)"
    have wa2: "bn_width (?h2 a) = ?n" using e1(4) by auto
    let ?h3 = "?h2(r := (?h2 r)\<lparr>bn_width := ?n\<rparr>)"
    have wa3: "bn_neg (?h3 a) = bn_neg (h a)" using e1(5) by auto
    have "BN_rshift1 e r a h = (None, (bn_set_neg r (bn_neg (h a)) ?h3)
        (r := bn_set_minimal_width (bn_set_neg r (bn_neg (h a)) ?h3 r)))"
      by (simp only: BN_rshift1_def bn_on_eq w None fst_conv snd_conv
          prod.case option.case Let_def e1(4) x(1) bn_with_mem_put wa2 wa3)
    also have "\<dots> = (None, h(r := bn_set_minimal_width
        (bn1\<lparr>bn_d := overwrite (bn_d bn1) 0 xs, bn_width := length xs, bn_neg := bn_neg (h a)\<rparr>)))"
      unfolding x(2) by (cases bn1) (auto simp: bn_set_neg_def fun_eq_iff)
    finally have "st = None" "h' = h(r := bn_set_minimal_width
        (bn1\<lparr>bn_d := overwrite (bn_d bn1) 0 xs, bn_width := length xs, bn_neg := bn_neg (h a)\<rparr>))"
      using run by simp_all
    with bn_shifted_store [OF e1(6) b1, of r "bn_neg (h a)" h] g None x(3) show ?thesis by simp
  qed
qed

section \<open>Shifting right by a secret amount\<close>

lemma secret_mask: "0 - (of_nat (drop_bit i n) AND 1 :: BN_ULONG) = mask_of (bit n i)"
proof -
  have "(of_nat (drop_bit i n) AND 1 :: BN_ULONG) = of_bool (bit n i)"
    by (simp add: and_one_eq bit_iff_odd_drop_bit mod_2_eq_odd)
  then show ?thesis by (simp add: mask_of_def)
qed

lemma rshift_secret_step_val:
  assumes "tmp \<noteq> r" and t: "in_words m (tmp, 0) w" and r: "in_words m (r, 0) w"
  shows "\<exists>xs ys. rshift_secret_step r tmp n w i m = words_put (words_put m (tmp, 0) ys) (r, 0) xs
    \<and> length xs = w \<and> length ys = w
    \<and> words_val xs = words_val (words_at m (r, 0) w) div 2 ^ (of_bool (bit n i) * 2 ^ i)"
proof -
  from bn_rshift_words_val [OF t r, of "2 ^ i"] obtain ys where
    y: "bn_rshift_words (tmp, 0) (r, 0) (2 ^ i) w m = words_put m (tmp, 0) ys" "length ys = w"
      "words_val ys = words_val (words_at m (r, 0) w) div 2 ^ (2 ^ i)" by blast
  let ?m = "words_put m (tmp, 0) ys"
  have ty: "in_words m (tmp, 0) (length ys)" using t y(2) by simp
  then have i: "in_words ?m (r, 0) w" "in_words ?m (tmp, 0) w" using r t by simp_all
  have b: "behind (r, 0) (tmp, 0) w" "behind (r, 0) (r, 0) w" by (simp_all add: behind_def)
  have v: "words_at ?m (tmp, 0) w = ys" "words_at ?m (r, 0) w = words_at m (r, 0) w"
    using words_at_put [OF ty] words_at_put_other [OF ty, of "(r, 0)" w] assms(1) y(2) by simp_all
  let ?xs = "if bit n i then ys else words_at m (r, 0) w"
  have "rshift_secret_step r tmp n w i m = words_put ?m (r, 0) ?xs"
    unfolding rshift_secret_step_def Let_def secret_mask y(1) bn_select_words_eq [OF i(1) i(2) i(1) b] v ..
  moreover have "length ?xs = w" using y(2) r by simp
  ultimately show ?thesis using y by (intro exI [of _ ?xs] exI [of _ ys]) simp
qed

lemma bit_count_drop: "drop_bit i n \<noteq> 0 \<longleftrightarrow> i < bit_count n" for n :: nat
proof (cases "n = 0")
  case False
  note b = bit_count_bounds [OF False]
  have "drop_bit i n \<noteq> 0 \<longleftrightarrow> 2 ^ i \<le> n" by (simp add: drop_bit_eq_div div_eq_0_iff not_less)
  also have "\<dots> \<longleftrightarrow> i < bit_count n"
  proof
    assume "2 ^ i \<le> n"
    with b have "(2 :: nat) ^ i < 2 ^ bit_count n" by (meson le_less_trans)
    then show "i < bit_count n" by simp
  next
    assume "i < bit_count n"
    then have "(2 :: nat) ^ i \<le> 2 ^ (bit_count n - 1)" by (intro power_increasing) simp_all
    with b show "2 ^ i \<le> n" by linarith
  qed
  finally show ?thesis .
qed simp

lemma mod_power_step:
  fixes n :: nat
  assumes "i < k"
  shows "n div 2 ^ i mod 2 ^ (k - i) * 2 ^ i
    = of_bool (bit n i) * 2 ^ i + n div 2 ^ (i + 1) mod 2 ^ (k - (i + 1)) * 2 ^ (i + 1)"
proof -
  have "k - i = Suc (k - (i + 1))" using assms by simp
  then have "n div 2 ^ i mod 2 ^ (k - i) = n div 2 ^ i mod 2 + 2 * (n div 2 ^ i div 2 mod 2 ^ (k - (i + 1)))"
    by (simp only: power_Suc mod_mult2_eq)
  moreover have "n div 2 ^ i mod 2 = of_bool (bit n i)" by (simp add: bit_iff_odd mod_2_eq_odd)
  moreover have "n div 2 ^ i div 2 = n div 2 ^ (i + 1)" by (simp add: div_mult2_eq [symmetric] mult.commute)
  ultimately show ?thesis by (simp add: algebra_simps)
qed

lemma words_put_same: "in_words m p n \<Longrightarrow> words_put m p (words_at m p n) = m"
proof -
  assume "in_words m p n"
  then have "length (take n (drop (snd p) (m (fst p)))) = n" by (simp add: in_words_def)
  moreover have "take n (drop (snd p) (m (fst p))) @ drop (snd p + n) (m (fst p)) = drop (snd p) (m (fst p))"
    by (metis append_take_drop_id drop_drop add.commute)
  ultimately show ?thesis by (simp add: words_put_def words_at_def overwrite_def fun_eq_iff)
qed

lemma rshift_secret_loop_val:
  assumes "tmp \<noteq> r" and "in_words m (tmp, 0) w" and "in_words m (r, 0) w" and "i \<le> bit_count k"
  shows "\<exists>xs ys. rshift_secret_loop k (rshift_secret_step r tmp n w) i m
      = words_put (words_put m (tmp, 0) ys) (r, 0) xs \<and> length xs = w \<and> length ys = w
    \<and> words_val xs = words_val (words_at m (r, 0) w) div 2 ^ (n div 2 ^ i mod 2 ^ (bit_count k - i) * 2 ^ i)"
  using assms(2-4)
proof (induction "bit_count k - i" arbitrary: i m)
  case 0
  then have "\<not> drop_bit i k \<noteq> 0" using bit_count_drop [of i k] by simp
  then have "rshift_secret_loop k (rshift_secret_step r tmp n w) i m = m"
    by (subst rshift_secret_loop.simps) simp
  with 0 words_put_same show ?case
    by (intro exI [of _ "words_at m (r, 0) w"] exI [of _ "words_at m (tmp, 0) w"]) simp
next
  case (Suc d)
  from Suc(2) have lt: "i < bit_count k" by simp
  from rshift_secret_step_val [OF assms(1) Suc.prems(1,2), of n i] obtain xs ys where
    s: "rshift_secret_step r tmp n w i m = words_put (words_put m (tmp, 0) ys) (r, 0) xs"
      "length xs = w" "length ys = w"
    and v: "words_val xs = words_val (words_at m (r, 0) w) div 2 ^ (of_bool (bit n i) * 2 ^ i)" by blast
  let ?m = "words_put (words_put m (tmp, 0) ys) (r, 0) xs"
  have i: "in_words ?m (tmp, 0) w" "in_words ?m (r, 0) w" using Suc.prems s by simp_all
  have d: "d = bit_count k - (i + 1)" and le: "i + 1 \<le> bit_count k" using Suc(2) lt by linarith+
  from Suc(1) [OF d i le] obtain xs' ys' where
    l: "rshift_secret_loop k (rshift_secret_step r tmp n w) (i + 1) ?m
      = words_put (words_put ?m (tmp, 0) ys') (r, 0) xs'" "length xs' = w" "length ys' = w"
    and v': "words_val xs' = words_val (words_at ?m (r, 0) w)
      div 2 ^ (n div 2 ^ (i + 1) mod 2 ^ (bit_count k - (i + 1)) * 2 ^ (i + 1))"
    by blast
  have "words_at ?m (r, 0) w = xs" using words_at_put [of "words_put m (tmp, 0) ys" "(r, 0)" xs] Suc.prems s by simp
  then have "words_val xs' = words_val (words_at m (r, 0) w) div 2 ^ (n div 2 ^ i mod 2 ^ (bit_count k - i) * 2 ^ i)"
    unfolding v' mod_power_step [OF lt] by (simp only: v power_add div_mult2_eq)
  moreover have "words_put (words_put ?m (tmp, 0) ys') (r, 0) xs' = words_put (words_put m (tmp, 0) ys') (r, 0) xs'"
    using s l assms(1) by (auto simp: words_put_def overwrite_def fun_eq_iff)
  moreover have "rshift_secret_loop k (rshift_secret_step r tmp n w) i m
      = rshift_secret_loop k (rshift_secret_step r tmp n w) (i + 1) ?m"
    using lt by (subst rshift_secret_loop.simps) (simp only: bit_count_drop if_True s(1))
  ultimately show ?case using l by metis
qed

lemma bn_rshift_secret_shift_spec:
  assumes room: "bn_room (h r)" "bn_ok (h a)" "bn_room (h tmp)" and tmp: "tmp \<noteq> r" "tmp \<noteq> a"
    and run: "bn_rshift_secret_shift e r a n (Some tmp) h = (None, h')"
  shows "bn_room (h' r) \<and> bn_neg (h' r) = bn_neg (h a)
    \<and> bn_abs (h' r) = bn_abs (h a) div 2 ^ (n mod 2 ^ bit_count (BN_BITS2 * bn_width (h a)))
    \<and> bn_room (h' tmp) \<and> (\<forall>i. i \<noteq> r \<longrightarrow> i \<noteq> tmp \<longrightarrow> h' i = h i)"
proof -
  obtain st1 h1 where c: "BN_copy e r a h = (st1, h1)" by fastforce
  obtain st2 b2 where w: "bn_wexpand e (bn_width (h1 r)) (h1 tmp) = (st2, b2)" by fastforce
  let ?w = "bn_width (h1 r)"
  let ?h2 = "h1(tmp := b2)"
  have n: "st1 = None" "st2 = None"
    and h': "h' = bn_with_mem ?h2 (rshift_secret_loop (BN_BITS2 * ?w) (rshift_secret_step r tmp n ?w) 0 (bn_mem ?h2))"
    using run tmp(1)
    by (auto simp: bn_rshift_secret_shift_def c bn_on_eq w Let_def split: option.splits)
  note cs = BN_copy_spec [OF c room(2,1)]
  have h1: "bn_ok (h1 r)" "bn_words (h1 r) = bn_words (h a)" "bn_val (h1 r) = bn_val (h a)" "h1 tmp = h tmp"
    "\<forall>i. i \<noteq> r \<longrightarrow> h1 i = h i"
    using cs n tmp by auto
  have abs: "bn_abs (h1 r) = bn_abs (h a)" using h1(2) by (simp add: bn_abs_def)
  have neg: "bn_neg (h1 r) = bn_neg (h a)"
    using h1(1,3) room(2) abs by (auto simp: bn_val_def bn_ok_def split: if_splits)
  have rooms: "bn_room (h1 r)" "bn_room (h1 tmp)" "bn_room (h a)" using h1 room by (simp_all add: bn_ok_room)
  have wa: "?w = bn_width (h a)"
    using arg_cong [OF h1(2), of length] rooms by simp
  note e = wexpand_operands [where h = h1 and r = tmp and a = r, OF w [unfolded n] rooms(2,1)]
  have "0 \<le> bit_count (BN_BITS2 * ?w)" by simp
  from rshift_secret_loop_val [OF tmp(1) e(1) e(2) this, of n] obtain xs ys where
    l: "rshift_secret_loop (BN_BITS2 * ?w) (rshift_secret_step r tmp n ?w) 0 (bn_mem ?h2)
      = words_put (words_put (bn_mem ?h2) (tmp, 0) ys) (r, 0) xs" "length xs = ?w" "length ys = ?w"
    and v: "words_val xs = bn_abs (h a) div 2 ^ (n mod 2 ^ bit_count (BN_BITS2 * ?w))"
    unfolding e(3) h1(2) bn_abs_def by auto
  have m: "words_put (words_put (bn_mem ?h2) (tmp, 0) ys) (r, 0) xs
      = words_put (bn_mem (?h2(tmp := b2\<lparr>bn_d := overwrite (bn_d b2) 0 ys\<rparr>))) (r, 0) xs"
    by (auto simp: words_put_def bn_mem_def fun_eq_iff)
  have "h' = ?h2(tmp := b2\<lparr>bn_d := overwrite (bn_d b2) 0 ys\<rparr>, r := (h1 r)\<lparr>bn_d := overwrite (bn_d (h1 r)) 0 xs\<rparr>)"
    unfolding h' l(1) using tmp(1)
    by (auto simp: bn_with_mem_def words_put_def bn_mem_def fun_eq_iff)
  moreover have "length (overwrite (bn_d b2) 0 ys) = bn_dmax b2" "length (overwrite (bn_d (h1 r)) 0 xs) = bn_dmax (h1 r)"
    using e(6,7) rooms(1) l by (simp_all add: bn_room_def)
  moreover have "take ?w (overwrite (bn_d (h1 r)) 0 xs) = xs" using l(2) by (simp add: overwrite_def)
  ultimately show ?thesis
    using e(6) rooms h1(5) tmp neg v wa by (auto simp: bn_room_def bn_abs_def bn_words_def)
qed

lemma secret_shift_wraps:
  assumes "bn_room (h r)" "bn_ok (h a)" "bn_room (h tmp)" and "tmp \<noteq> r" "tmp \<noteq> a"
    and "n = 2 ^ bit_count (BN_BITS2 * bn_width (h a))"
    and "bn_rshift_secret_shift e r a n (Some tmp) h = (None, h')" and "BN_rshift e r a (int n) h = (None, h'')"
  shows "bn_abs (h' r) = bn_abs (h a) \<and> bn_abs (h'' r) = 0"
proof -
  have room: "bn_room (h a)" using assms(2) by (simp add: bn_ok_room)
  have "bn_abs (h a) < BN_BASE ^ bn_width (h a)" using words_val_bound [of "bn_words (h a)"] room by (simp add: bn_abs_def)
  also have "\<dots> = 2 ^ (64 * bn_width (h a))" using power_mult [of "2 :: nat" 64] by simp
  also have "\<dots> \<le> 2 ^ n"
    using bit_count_less [of "64 * bn_width (h a)"] assms(6) by (intro power_increasing) (simp_all add: BN_BITS2_def)
  finally have "bn_abs (h a) div 2 ^ n = 0" by simp
  then have "bn_abs (h'' r) = 0"
    using BN_rshift_spec [OF assms(1) room _ assms(8)] by (simp add: bn_shifted_def)
  moreover have "bn_abs (h' r) = bn_abs (h a)"
    using bn_rshift_secret_shift_spec [OF assms(1-5,7)] assms(6) by simp
  ultimately show ?thesis by simp
qed

section \<open>Shifting left\<close>

lemma lshift_or_val:
  assumes "0 < n" "n < 64" and "2 ^ n dvd unat t"
  shows "unat (t OR drop_bit (BN_BITS2 - n) l :: BN_ULONG) = unat t + unat l * 2 ^ n div BN_BASE"
proof -
  have B: "BN_BASE = 2 ^ (64 - n) * 2 ^ n" using base_split [of n] assms by (simp add: mult.commute)
  have d: "unat (drop_bit (64 - n) l) = unat l div 2 ^ (64 - n)" by (rule unat_drop_bit_div)
  have e: "unat l * 2 ^ n div BN_BASE = unat l div 2 ^ (64 - n)" unfolding B by (rule div_mult_mult2) simp
  have lo: "unat l div 2 ^ (64 - n) < 2 ^ n"
    using unat_lt_base [of l] unfolding B by (simp add: less_mult_imp_div_less mult.commute)
  have t: "t = push_bit n (drop_bit n t)"
  proof (rule unat_inject)
    have "unat t div 2 ^ n * 2 ^ n = unat t" using assms(3) by simp
    then show "unat t = unat (push_bit n (drop_bit n t))"
      by (simp add: unat_push_bit unat_drop_bit_div)
  qed
  have "t OR drop_bit (64 - n) l = t + drop_bit (64 - n) l"
    by (subst (1 2) t) (rule push_bit_or_eq_add, simp only: d lo)
  moreover have "unat t + unat l div 2 ^ (64 - n) < BN_BASE"
  proof -
    obtain q where q: "unat t = 2 ^ n * q" using assms(3) by (rule dvdE)
    with unat_lt_base [of t] have "2 ^ n * q < 2 ^ n * 2 ^ (64 - n)" unfolding B by (simp only: mult.commute)
    then have "q + 1 \<le> 2 ^ (64 - n)" by simp
    then have "2 ^ n * (q + 1) \<le> 2 ^ n * 2 ^ (64 - n)" by (rule mult_le_mono2)
    with lo q show ?thesis unfolding B by (simp add: algebra_simps)
  qed
  ultimately show ?thesis unfolding BN_BITS2_def e by (simp only: unat_add_fits d)
qed

lemma lshift_split: "2 ^ n * unat l = unat (push_bit n l :: BN_ULONG) + BN_BASE * (unat l * 2 ^ n div BN_BASE)"
  unfolding unat_push_bit by (simp add: mult.commute)

lemma rd_wr_same: "in_words m p (i + 1) \<Longrightarrow> rd (wr m p i x) p i = x"
  by (simp add: rd_def wr_def in_words_def)

lemma rd_wr_other: "fst p \<noteq> fst q \<or> snd p + i \<noteq> snd q + j \<Longrightarrow> rd (wr m p i x) q j = rd m q j"
  by (auto simp: rd_def wr_def)

lemma wr_other: "i \<noteq> fst p \<Longrightarrow> wr m p k x i = m i"
  by (simp add: wr_def)

text \<open>The words the descending loop has built when it has come down to word \<open>j\<close>.\<close>

lemma lshift_loop:
  assumes n: "0 < n" "n < 64" and a: "in_words m (a, 0) w" and r: "in_words m (r, 0) (nw + w + 1)"
    and top: "rd m (r, 0) (nw + w) = 0" and "j \<le> w"
  shows "(\<forall>k < j. rd (fold (lshift_step nw n r a) (rev [j..<w]) m) (a, 0) k = rd m (a, 0) k)
    \<and> (\<forall>i. i \<noteq> r \<longrightarrow> fold (lshift_step nw n r a) (rev [j..<w]) m i = m i)
    \<and> in_words (fold (lshift_step nw n r a) (rev [j..<w]) m) (r, 0) (nw + w + 1)
    \<and> length (fold (lshift_step nw n r a) (rev [j..<w]) m r) = length (m r)
    \<and> words_val (words_at (fold (lshift_step nw n r a) (rev [j..<w]) m) (r, nw + j) (w + 1 - j))
      = 2 ^ n * words_val (words_at m (a, j) (w - j))"
  using assms(6)
proof (induction "w - j" arbitrary: j)
  case 0
  then have "j = w" by simp
  moreover have "words_at m (r, nw + w) (Suc 0) = [0]"
    using words_at_Suc [of m "(r, nw + w)" 0] r top by (simp add: in_words_def rd_def)
  ultimately show ?case using r by simp
next
  case (Suc d)
  then have lt: "j < w" by simp
  let ?m1 = "fold (lshift_step nw n r a) (rev [Suc j..<w]) m"
  let ?m = "fold (lshift_step nw n r a) (rev [j..<w]) m"
  from Suc(1) [of "Suc j"] Suc(2) lt have ih:
    "\<forall>k < Suc j. rd ?m1 (a, 0) k = rd m (a, 0) k" "\<forall>i. i \<noteq> r \<longrightarrow> ?m1 i = m i"
    "in_words ?m1 (r, 0) (nw + w + 1)" "length (?m1 r) = length (m r)"
    "words_val (words_at ?m1 (r, nw + Suc j) (w - j)) = 2 ^ n * words_val (words_at m (a, Suc j) (w - Suc j))"
    by (simp_all add: Suc_diff_le)
  let ?l = "rd m (a, 0) j"
  let ?t = "rd ?m1 (r, 0) (nw + j + 1)"
  let ?t' = "?t OR drop_bit (BN_BITS2 - n) ?l"
  have "[j..<w] = j # [Suc j..<w]" using lt by (rule upt_conv_Cons)
  then have m: "?m = wr (wr ?m1 (r, 0) (nw + j + 1) ?t') (r, 0) (nw + j) (push_bit n ?l)"
    using ih(1) by (simp add: lshift_step_def Let_def)
  have len: "length (?m1 r) = length (m r)" by (rule ih(4))
  have i1: "in_words ?m1 (r, nw + j) (w + 1 - j)" using ih(3) lt by (auto simp: in_words_def)
  have wl: "w - j = Suc (w - Suc j)" "w + 1 - j = Suc (w - j)" using lt by simp_all
  have T: "words_at ?m1 (r, nw + Suc j) (w - j) = ?t # words_at ?m1 (r, nw + Suc (Suc j)) (w - Suc j)"
    using words_at_Suc [of ?m1 "(r, nw + Suc j)" "w - Suc j"] i1 wl by (simp add: in_words_def wadd_def rd_def)
  let ?ts = "words_at ?m1 (r, nw + Suc (Suc j)) (w - Suc j)"
  have B: "BN_BASE = 2 ^ n * 2 ^ (64 - n)" using base_split [of n] n by simp
  have t: "2 ^ n dvd unat ?t"
  proof -
    have "unat ?t + 2 ^ n * (2 ^ (64 - n) * words_val ?ts) = 2 ^ n * words_val (words_at m (a, Suc j) (w - Suc j))"
      using ih(5) unfolding T words_val.simps B by (simp only: mult.assoc)
    then show ?thesis by (metis dvd_add_left_iff dvd_triv_left)
  qed
  have new: "words_at ?m (r, nw + j) (w + 1 - j) = push_bit n ?l # ?t' # ?ts"
  proof -
    have im: "in_words ?m (r, nw + j) (Suc (Suc (w - Suc j)))" using i1 wl unfolding m by simp
    have "words_at ?m (r, nw + j) (Suc (Suc (w - Suc j)))
        = rd ?m (r, nw + j) 0 # rd ?m (wadd (r, nw + j) (Suc 0)) 0 # words_at ?m (wadd (wadd (r, nw + j) (Suc 0)) (Suc 0)) (w - Suc j)"
      using words_at_Suc [OF im] words_at_Suc [OF in_words_step [OF im]] by simp
    moreover have "rd ?m (r, nw + j) 0 = push_bit n ?l"
    proof -
      have "rd ?m (r, nw + j) 0 = rd ?m (r, 0) (nw + j)" by (simp add: rd_def)
      also have "\<dots> = push_bit n ?l" unfolding m using ih(3) lt by (intro rd_wr_same) (simp add: in_words_def wr_def)
      finally show ?thesis .
    qed
    moreover have "rd ?m (wadd (r, nw + j) (Suc 0)) 0 = ?t'"
    proof -
      have "rd ?m (wadd (r, nw + j) (Suc 0)) 0 = rd ?m (r, 0) (nw + j + 1)" by (simp add: rd_def wadd_def)
      also have "\<dots> = rd (wr ?m1 (r, 0) (nw + j + 1) ?t') (r, 0) (nw + j + 1)"
        unfolding m by (rule rd_wr_other) simp
      also have "\<dots> = ?t'" using ih(3) lt by (intro rd_wr_same) (simp add: in_words_def)
      finally show ?thesis .
    qed
    moreover have "words_at ?m (wadd (wadd (r, nw + j) (Suc 0)) (Suc 0)) (w - Suc j) = ?ts"
      unfolding m by (simp add: wadd_def words_at_wr)
    ultimately show ?thesis using wl by simp
  qed
  have va: "words_val (words_at m (a, j) (w - j)) = unat ?l + BN_BASE * words_val (words_at m (a, Suc j) (w - Suc j))"
    using words_at_Suc [of m "(a, j)" "w - Suc j"] a lt wl by (simp add: in_words_def wadd_def rd_def)
  have "words_val (words_at ?m (r, nw + j) (w + 1 - j))
      = unat (push_bit n ?l) + BN_BASE * (unat ?t + unat ?l * 2 ^ n div BN_BASE + BN_BASE * words_val ?ts)"
    unfolding new words_val.simps lshift_or_val [OF n t] ..
  also have "\<dots> = (unat (push_bit n ?l) + BN_BASE * (unat ?l * 2 ^ n div BN_BASE)) + BN_BASE * (unat ?t + BN_BASE * words_val ?ts)"
    by (simp only: distrib_left add.assoc add.commute add.left_commute)
  also have "unat ?t + BN_BASE * words_val ?ts = 2 ^ n * words_val (words_at m (a, Suc j) (w - Suc j))"
    using ih(5) unfolding T by simp
  also have "unat (push_bit n ?l) + BN_BASE * (unat ?l * 2 ^ n div BN_BASE) = 2 ^ n * unat ?l"
    by (rule lshift_split [symmetric])
  also have "2 ^ n * unat ?l + BN_BASE * (2 ^ n * words_val (words_at m (a, Suc j) (w - Suc j)))
      = 2 ^ n * words_val (words_at m (a, j) (w - j))" unfolding va by (simp only: distrib_left mult.left_commute)
  finally have v: "words_val (words_at ?m (r, nw + j) (w + 1 - j)) = 2 ^ n * words_val (words_at m (a, j) (w - j))" .
  have "rd ?m (a, 0) k = rd m (a, 0) k" if "k < j" for k
  proof -
    have "rd ?m (a, 0) k = rd ?m1 (a, 0) k" unfolding m using that by (simp add: rd_wr_other)
    then show ?thesis using ih(1) that by simp
  qed
  moreover have "?m i = m i" if "i \<noteq> r" for i unfolding m using that ih(2) by (simp add: wr_other)
  moreover have "length (?m r) = length (m r)" unfolding m using len by (simp add: wr_def)
  moreover have "in_words ?m (r, 0) (nw + w + 1)" using ih(3) unfolding m by simp
  ultimately show ?case using v by blast
qed

text \<open>Whole words moved up, from the top down.\<close>

lemma lcopy_loop:
  assumes a: "in_words m (a, 0) w" and r: "in_words m (r, 0) (nw + w + 1)"
    and top: "rd m (r, 0) (nw + w) = 0" and "j \<le> w"
  shows "(\<forall>k < j. rd (fold (\<lambda>i m. wr m (r, 0) (nw + i) (rd m (a, 0) i)) (rev [j..<w]) m) (a, 0) k = rd m (a, 0) k)
    \<and> (\<forall>i. i \<noteq> r \<longrightarrow> fold (\<lambda>i m. wr m (r, 0) (nw + i) (rd m (a, 0) i)) (rev [j..<w]) m i = m i)
    \<and> in_words (fold (\<lambda>i m. wr m (r, 0) (nw + i) (rd m (a, 0) i)) (rev [j..<w]) m) (r, 0) (nw + w + 1)
    \<and> length (fold (\<lambda>i m. wr m (r, 0) (nw + i) (rd m (a, 0) i)) (rev [j..<w]) m r) = length (m r)
    \<and> words_val (words_at (fold (\<lambda>i m. wr m (r, 0) (nw + i) (rd m (a, 0) i)) (rev [j..<w]) m) (r, nw + j) (w + 1 - j))
      = words_val (words_at m (a, j) (w - j))"
  using assms(4)
proof (induction "w - j" arbitrary: j)
  case 0
  then have "j = w" by simp
  moreover have "words_at m (r, nw + w) (Suc 0) = [0]"
    using words_at_Suc [of m "(r, nw + w)" 0] r top by (simp add: in_words_def rd_def)
  ultimately show ?case using r by simp
next
  case (Suc d)
  then have lt: "j < w" by simp
  let ?f = "\<lambda>i m. wr m (r, 0) (nw + i) (rd m (a, 0) i)"
  let ?m1 = "fold ?f (rev [Suc j..<w]) m"
  let ?m = "fold ?f (rev [j..<w]) m"
  from Suc(1) [of "Suc j"] Suc(2) lt have ih:
    "\<forall>k < Suc j. rd ?m1 (a, 0) k = rd m (a, 0) k" "\<forall>i. i \<noteq> r \<longrightarrow> ?m1 i = m i"
    "in_words ?m1 (r, 0) (nw + w + 1)" "length (?m1 r) = length (m r)"
    "words_val (words_at ?m1 (r, nw + Suc j) (w - j)) = words_val (words_at m (a, Suc j) (w - Suc j))"
    by (simp_all add: Suc_diff_le)
  let ?l = "rd m (a, 0) j"
  have "[j..<w] = j # [Suc j..<w]" using lt by (rule upt_conv_Cons)
  then have m: "?m = wr ?m1 (r, 0) (nw + j) ?l" using ih(1) by simp
  have wl: "w - j = Suc (w - Suc j)" "w + 1 - j = Suc (w - j)" using lt by simp_all
  have im: "in_words ?m (r, nw + j) (Suc (w - j))" using ih(3) lt unfolding m by (auto simp: in_words_def wr_def)
  have "rd ?m (r, nw + j) 0 = rd ?m (r, 0) (nw + j)" by (simp add: rd_def)
  also have "\<dots> = ?l" unfolding m using ih(3) lt by (intro rd_wr_same) (simp add: in_words_def)
  finally have new: "words_at ?m (r, nw + j) (w + 1 - j) = ?l # words_at ?m1 (r, nw + Suc j) (w - j)"
    using words_at_Suc [OF im] wl unfolding m by (simp add: wadd_def words_at_wr)
  have va: "words_val (words_at m (a, j) (w - j)) = unat ?l + BN_BASE * words_val (words_at m (a, Suc j) (w - Suc j))"
    using words_at_Suc [of m "(a, j)" "w - Suc j"] a lt wl by (simp add: in_words_def wadd_def rd_def)
  have v: "words_val (words_at ?m (r, nw + j) (w + 1 - j)) = words_val (words_at m (a, j) (w - j))"
    unfolding new va words_val.simps ih(5) ..
  have "rd ?m (a, 0) k = rd m (a, 0) k" if "k < j" for k
  proof -
    have "rd ?m (a, 0) k = rd ?m1 (a, 0) k" unfolding m using that by (simp add: rd_wr_other)
    then show ?thesis using ih(1) that by simp
  qed
  moreover have "?m i = m i" if "i \<noteq> r" for i unfolding m using that ih(2) by (simp add: wr_other)
  moreover have "length (?m r) = length (m r)" unfolding m using ih(4) by (simp add: wr_def)
  moreover have "in_words ?m (r, 0) (nw + w + 1)" using ih(3) unfolding m by simp
  ultimately show ?case using v by blast
qed

lemma drop_as_take_drop: "drop i xs = take k (drop i xs) @ drop (i + k) xs"
proof -
  have "drop (i + k) xs = drop k (drop i xs)" by (simp add: add.commute)
  then show ?thesis by (simp only: append_take_drop_id)
qed

text \<open>All of the pass: the result holds the operand, shifted, and nothing else has changed.\<close>

lemma lshift_words:
  assumes n: "n < 64" and a: "in_words m (a, 0) w" and r: "in_words m (r, 0) (nw + w + 1)"
  defines "m1 \<equiv> wr m (r, 0) (w + nw) 0"
  defines "m2 \<equiv> (if n = 0 then fold (\<lambda>i m. wr m (r, 0) (nw + i) (rd m (a, 0) i)) (rev [0..<w]) m1
                  else fold (lshift_step nw n r a) (rev [0..<w]) m1)"
  shows "\<exists>xs. words_put m2 (r, 0) (replicate nw 0) = m2(r := xs @ drop (nw + w + 1) (m2 r))
    \<and> length xs = nw + w + 1 \<and> length (m2 r) = length (m r) \<and> (\<forall>i. i \<noteq> r \<longrightarrow> m2 i = m i)
    \<and> words_val xs = words_val (words_at m (a, 0) w) * 2 ^ (64 * nw + n)"
proof -
  have r1: "in_words m1 (r, 0) (nw + w + 1)" and a1: "in_words m1 (a, 0) w" using a r by (simp_all add: m1_def)
  have top: "rd m1 (r, 0) (nw + w) = 0"
    using r rd_wr_same [of m "(r, 0)" "nw + w" 0] by (simp add: m1_def add.commute)
  have aw: "words_at m1 (a, 0) w = words_at m (a, 0) w" unfolding m1_def by (rule words_at_wr) auto
  have s: "(\<forall>i. i \<noteq> r \<longrightarrow> m2 i = m1 i) \<and> in_words m2 (r, 0) (nw + w + 1) \<and> length (m2 r) = length (m1 r)
      \<and> words_val (words_at m2 (r, nw) (w + 1)) = 2 ^ n * words_val (words_at m1 (a, 0) w)"
  proof (cases "n = 0")
    case True
    with lcopy_loop [OF a1 r1 top, of 0] show ?thesis by (simp add: m2_def)
  next
    case False
    then have "0 < n" by simp
    from lshift_loop [OF this n a1 r1 top, of 0] False show ?thesis by (simp add: m2_def)
  qed
  let ?xs = "replicate nw 0 @ words_at m2 (r, nw) (w + 1)"
  have l: "length (words_at m2 (r, nw) (w + 1)) = w + 1" using s by (simp add: in_words_def)
  have "drop nw (m2 r) = words_at m2 (r, nw) (w + 1) @ drop (nw + w + 1) (m2 r)"
    using drop_as_take_drop [of nw "m2 r" "w + 1"] by (simp add: words_at_def add.assoc)
  then have "words_put m2 (r, 0) (replicate nw 0) = m2(r := ?xs @ drop (nw + w + 1) (m2 r))"
    by (simp add: words_put_def overwrite_def)
  moreover have "length ?xs = nw + w + 1" using l by simp
  moreover have "words_val ?xs = words_val (words_at m (a, 0) w) * 2 ^ (64 * nw + n)"
    using s power_mult [of "2 :: nat" 64 nw] by (simp add: words_val_append aw power_add)
  moreover have "length (m2 r) = length (m r)" "\<forall>i. i \<noteq> r \<longrightarrow> m2 i = m i" using s by (simp_all add: m1_def wr_def)
  ultimately show ?thesis by blast
qed

lemma BN_lshift_spec:
  assumes room: "bn_room (h r)" "bn_room (h a)" and n: "0 \<le> n" and run: "BN_lshift e r a n h = (st, h')"
  shows "(st = None \<longleftrightarrow> bn_grows e (h r) (bn_width (h a) + nat n div 64 + 1))
    \<and> (st = None \<longrightarrow> bn_shifted r (bn_neg (h a)) h h' (bn_abs (h a) * 2 ^ nat n))"
proof -
  let ?w = "bn_width (h a)" and ?nw = "nat n div 64" and ?lb = "nat n mod 64"
  define h0 where "h0 = bn_set_neg r (bn_neg (h a)) h"
  have room0: "bn_room (h0 r)" "bn_room (h0 a)" using room by (simp_all add: h0_def bn_set_neg_def)
  have h0a: "bn_width (h0 a) = ?w" "bn_words (h0 a) = bn_words (h a)" "bn_neg (h0 a) = bn_neg (h a)"
    by (simp_all add: h0_def bn_set_neg_def)
  have g0: "bn_grows e (h0 r) k = bn_grows e (h r) k" for k by (rule bn_grows_cong) (simp_all add: h0_def bn_set_neg_def)
  let ?n = "bn_width (h0 a) + ?nw + 1"
  obtain st1 bn1 where w: "bn_wexpand e ?n (h0 r) = (st1, bn1)" by fastforce
  have g: "st1 = None \<longleftrightarrow> bn_grows e (h r) (?w + ?nw + 1)"
    using bn_wexpand_None_iff [of e ?n "h0 r"] unfolding w fst_conv g0 unfolding h0a(1) .
  show ?thesis
  proof (cases st1)
    case (Some err)
    then have "st = Some err"
      using run n w by (auto simp: BN_lshift_def bn_on_eq BN_BITS2_def Let_def h0_def [symmetric])
    with Some g show ?thesis by simp
  next
    case None
    let ?h1 = "h0(r := bn1)"
    note e1 = wexpand_operands [where h = h0 and r = r, OF w [unfolded None] room0]
    let ?m1 = "wr (bn_mem ?h1) (r, 0) (?w + ?nw) 0"
    define m2 where "m2 = (if ?lb = 0 then fold (\<lambda>i m. wr m (r, 0) (?nw + i) (rd m (a, 0) i)) (rev [0..<?w]) ?m1
                  else fold (lshift_step ?nw ?lb r a) (rev [0..<?w]) ?m1)"
    have ir: "in_words (bn_mem ?h1) (r, 0) (?nw + ?w + 1)" using e1(1) by (simp add: h0a add.commute)
    have "?lb < 64" by simp
    from lshift_words [OF this e1(2) [unfolded h0a] ir] obtain xs where
      x: "words_put m2 (r, 0) (replicate ?nw 0) = m2(r := xs @ drop (?nw + ?w + 1) (m2 r))"
        "length xs = ?nw + ?w + 1" "length (m2 r) = length (bn_mem ?h1 r)" "\<forall>i. i \<noteq> r \<longrightarrow> m2 i = bn_mem ?h1 i"
      and xv: "words_val xs = words_val (words_at (bn_mem ?h1) (a, 0) ?w) * 2 ^ (64 * ?nw + ?lb)"
      unfolding m2_def by blast
    have xv': "words_val xs = bn_abs (h a) * 2 ^ nat n"
      using xv e1(3) by (simp add: h0a bn_abs_def)
    let ?d = "xs @ drop (?nw + ?w + 1) (m2 r)"
    have dl: "length ?d = bn_dmax bn1"
      using x(2,3) e1(6,7) by (simp add: bn_mem_def bn_room_def h0a)
    let ?h2 = "?h1(r := bn1\<lparr>bn_d := ?d\<rparr>)"
    have h2: "bn_with_mem ?h1 (words_put m2 (r, 0) (replicate ?nw 0)) = ?h2"
      unfolding x(1) using x(4) by (auto simp: bn_with_mem_def bn_mem_def fun_eq_iff)
    have wa: "bn_width (?h1 a) = ?w" "bn_width (?h2 a) = ?w" using e1(4) h0a by auto
    have "BN_lshift e r a n h = (None, (?h2(r := (?h2 r)\<lparr>bn_width := ?w + ?nw + 1\<rparr>))
        (r := bn_set_minimal_width ((?h2(r := (?h2 r)\<lparr>bn_width := ?w + ?nw + 1\<rparr>)) r)))"
      using n unfolding BN_lshift_def Let_def BN_BITS2_def h0_def [symmetric] bn_on_eq
      by (simp only: not_less [symmetric] if_False w None fst_conv snd_conv prod.case option.case wa
          m2_def [symmetric] h2)
    also have "\<dots> = (None, h(r := bn_set_minimal_width (bn1\<lparr>bn_d := ?d, bn_width := ?w + ?nw + 1\<rparr>)))"
      by (auto simp: fun_eq_iff h0_def bn_set_neg_def)
    finally have st: "st = None" and h': "h' = h(r := bn_set_minimal_width (bn1\<lparr>bn_d := ?d, bn_width := ?w + ?nw + 1\<rparr>))"
      using run by simp_all
    have nb: "bn_neg bn1 = bn_neg (h a)" using e1(9) by (simp add: h0_def bn_set_neg_def)
    have r2: "bn_room (bn1\<lparr>bn_d := ?d, bn_width := ?w + ?nw + 1\<rparr>)" using e1(6,7) dl by (simp add: bn_room_def h0a)
    have abs: "bn_abs (bn1\<lparr>bn_d := ?d, bn_width := ?w + ?nw + 1\<rparr>) = bn_abs (h a) * 2 ^ nat n"
      using x(2) xv' by (simp add: bn_abs_def bn_words_def)
    from bn_set_minimal_width_spec [OF r2] abs nb st g None show ?thesis
      by (auto simp: h' bn_shifted_def bn_val_def)
  qed
qed

lemma lshift1_limb_linear: "linear_step (\<lambda>c. unat c \<le> 1) (\<lambda>c. int (unat c)) 2 0 lshift1_limb"
  unfolding linear_step_def
proof (intro allI impI)
  fix c x y z c'
  assume c: "unat c \<le> 1" and "lshift1_limb c x y = (z, c')"
  then have z: "z = push_bit 1 x OR c" "c' = drop_bit 63 x" by (auto simp: lshift1_limb_def BN_BITS2_def)
  have c': "unat c' = unat x * 2 div BN_BASE"
    using div_mult_mult2 [of 2 "unat x" "2 ^ 63"] by (simp add: z unat_drop_bit_div)
  have p: "unat (push_bit 1 x) = unat x * 2 mod BN_BASE" using unat_push_bit [of 1 x] by simp
  have "push_bit 1 x OR c = push_bit 1 x + c" using c by (intro push_bit_or_eq_add) simp
  moreover have "unat x * 2 mod BN_BASE + unat c < BN_BASE"
  proof -
    have "unat x * 2 mod BN_BASE = 2 * (unat x mod 9223372036854775808)"
      using mod_mult_mult1 [of 2 "unat x" "9223372036854775808"] by (simp add: mult.commute)
    moreover have "unat x mod 9223372036854775808 < 9223372036854775808" by simp
    ultimately show ?thesis using c by linarith
  qed
  ultimately have "unat z = unat x * 2 mod BN_BASE + unat c" unfolding z(1) by (simp only: unat_add_fits p)
  moreover have "unat x * 2 mod BN_BASE + BN_BASE * (unat x * 2 div BN_BASE) = unat x * 2"
    by (rule mod_mult_div_eq)
  ultimately have "unat z + BN_BASE * unat c' = 2 * unat x + unat c" unfolding c' by linarith
  moreover have "unat c' \<le> 1"
  proof -
    have "unat x * 2 < BN_BASE * 2" by simp
    then have "unat x * 2 div BN_BASE < 2" by (simp add: less_mult_imp_div_less mult.commute)
    then show ?thesis unfolding c' by linarith
  qed
  ultimately show "unat c' \<le> 1 \<and> int (unat z) + int BN_BASE * int (unat c')
      = 2 * int (unat x) + 0 * int (unat y) + int (unat c)" by linarith
qed

lemma BN_lshift1_spec:
  assumes room: "bn_room (h r)" "bn_room (h a)" and run: "BN_lshift1 e r a h = (st, h')"
  shows "(st = None \<longleftrightarrow> bn_grows e (h r) (bn_width (h a) + 1))
    \<and> (st = None \<longrightarrow> (\<forall>i. i \<noteq> r \<longrightarrow> h' i = h i) \<and> bn_room (h' r)
        \<and> bn_neg (h' r) = bn_neg (h a) \<and> bn_abs (h' r) = 2 * bn_abs (h a))"
proof -
  let ?w = "bn_width (h a)"
  define h0 where "h0 = (if r \<noteq> a then bn_set_neg r (bn_neg (h a)) h else h)"
  have room0: "bn_room (h0 r)" "bn_room (h0 a)" using room by (simp_all add: h0_def bn_set_neg_def)
  have h0a: "bn_width (h0 a) = ?w" "bn_words (h0 a) = bn_words (h a)" "bn_neg (h0 r) = bn_neg (h a)"
    "\<forall>i. i \<noteq> r \<longrightarrow> h0 i = h i"
    by (simp_all add: h0_def bn_set_neg_def)
  have g0: "bn_grows e (h0 r) k = bn_grows e (h r) k" for k by (rule bn_grows_cong) (simp_all add: h0_def bn_set_neg_def)
  obtain st1 bn1 where w: "bn_wexpand e (?w + 1) (h0 r) = (st1, bn1)" by fastforce
  have g: "st1 = None \<longleftrightarrow> bn_grows e (h r) (?w + 1)"
    using bn_wexpand_None_iff [of e "?w + 1" "h0 r"] unfolding w fst_conv g0 .
  show ?thesis
  proof (cases st1)
    case (Some err)
    then have "st = Some err"
      using run w by (auto simp: BN_lshift1_def bn_on_eq Let_def h0_def [symmetric] h0a)
    with Some g show ?thesis by simp
  next
    case None
    let ?h1 = "h0(r := bn1)"
    note e1 = wexpand_operands [where h = h0 and r = r, OF w [unfolded None] room0]
    define h2 where "h2 = (if r \<noteq> a then ?h1(r := (?h1 r)\<lparr>bn_width := bn_width (?h1 a)\<rparr>) else ?h1)"
    have m: "bn_mem h2 = bn_mem ?h1" by (auto simp: h2_def bn_mem_def)
    have h2r: "bn_width (h2 r) = ?w" "bn_width (h2 a) = ?w"
      using e1(4) h0a(1) unfolding h2_def by (cases "r = a"; simp)+
    have h2d: "bn_d (h2 r) = bn_d bn1" "bn_dmax (h2 r) = bn_dmax bn1" "bn_neg (h2 r) = bn_neg (h a)"
      "\<forall>i. i \<noteq> r \<longrightarrow> h2 i = h i"
      using e1(9) h0a(3,4) by (simp_all add: h2_def)
    have i: "in_words (bn_mem ?h1) (r, 0) ?w" using e1(1) by (rule in_words_le) simp
    from words_loop_linear [OF lshift1_limb_linear _ i e1(2) [unfolded h0a] e1(2) [unfolded h0a] behind_same(1) behind_same(1), of 0]
    obtain c zs where l: "words_loop (word_step lshift1_limb (r, 0) (a, 0) (a, 0)) 0 ?w (0, bn_mem ?h1)
        = (c, words_put (bn_mem ?h1) (r, 0) zs)"
      and c: "unat c \<le> 1" and zl: "length zs = ?w"
      and "int (words_val zs) + int BN_BASE ^ ?w * int (unat c) = int (2 * bn_abs (h a))"
      using e1(3) by (auto simp: h0a bn_abs_def)
    then have v: "words_val zs + BN_BASE ^ ?w * unat c = 2 * bn_abs (h a)" unfolding int_words_eq by simp
    have dl: "length (bn_d bn1) = bn_dmax bn1" "?w + 1 \<le> bn_dmax bn1" "bn_dmax bn1 \<le> BN_MAX_WORDS"
      using e1(6,7) by (simp_all add: bn_room_def)
    have step: "BN_lshift1 e r a h = (if c \<noteq> 0
        then (let h = bn_with_mem h2 (wr (words_put (bn_mem h2) (r, 0) zs) (r, 0) ?w 1)
              in (None, h(r := (h r)\<lparr>bn_width := bn_width (h r) + 1\<rparr>)))
        else (None, bn_with_mem h2 (words_put (bn_mem h2) (r, 0) zs)))"
      unfolding BN_lshift1_def h0_def [symmetric] Let_def h0a(1) bn_on_eq w None fst_conv snd_conv
      by (simp only: option.case prod.case h2_def [symmetric] h2r m l)
    show ?thesis
    proof (cases "c = 0")
      case True
      with step run have "st = None" "h' = h2(r := (h2 r)\<lparr>bn_d := overwrite (bn_d (h2 r)) 0 zs\<rparr>)"
        by (simp_all add: bn_with_mem_put)
      moreover have "bn_abs (h' r) = words_val zs"
        unfolding calculation(2) using zl by (simp add: bn_abs_def bn_words_def h2r overwrite_def)
      ultimately show ?thesis using g None h2d h2r dl zl v True by (simp add: bn_room_def)
    next
      case False
      with c have "unat c = 1" using unat_eq_0 [of c] by linarith
      have "in_words (bn_mem h2) (r, 0) (Suc ?w)" using e1(1) unfolding m by simp
      then have "wr (words_put (bn_mem h2) (r, 0) zs) (r, 0) ?w 1 = words_put (bn_mem h2) (r, 0) (zs @ [1])"
        using wr_as_put [of "words_put (bn_mem h2) (r, 0) zs" "(r, 0)" ?w 1] words_put_append [of "bn_mem h2" "(r, 0)" zs "[1]"]
          in_words_put [of "bn_mem h2" "(r, 0)" zs] zl i m by simp
      with step run False have st: "st = None"
        and h': "h' = (h2(r := (h2 r)\<lparr>bn_d := overwrite (bn_d (h2 r)) 0 (zs @ [1])\<rparr>))
          (r := (h2 r)\<lparr>bn_d := overwrite (bn_d (h2 r)) 0 (zs @ [1]), bn_width := ?w + 1\<rparr>)"
        by (simp_all add: bn_with_mem_put Let_def h2r)
      have "bn_abs (h' r) = words_val (zs @ [1])"
        unfolding h' using zl by (simp add: bn_abs_def bn_words_def overwrite_def)
      moreover have "words_val (zs @ [1]) = 2 * bn_abs (h a)"
        using v \<open>unat c = 1\<close> zl by (simp add: words_val_append)
      ultimately show ?thesis using g None h2d dl zl st by (simp add: bn_room_def h')
    qed
  qed
qed

section \<open>Shifts as arithmetic\<close>

text \<open>A left shift that fails has set the sign of the result at most.\<close>

lemma BN_lshift_fail:
  assumes "bn_room (h r)" and "BN_lshift e r a n h = (Some err, h')"
  shows "h' = h \<or> h' = bn_set_neg r (bn_neg (h a)) h"
proof (cases "n < 0")
  case False
  let ?h = "bn_set_neg r (bn_neg (h a)) h"
  obtain st1 bn1 where w: "bn_wexpand e (bn_width (?h a) + nat n div BN_BITS2 + 1) (?h r) = (st1, bn1)" by fastforce
  have "bn_room (?h r)" using assms(1) by (simp add: bn_set_neg_def)
  with bn_wexpand_spec [OF w] have "st1 \<noteq> None \<longrightarrow> bn1 = ?h r" by blast
  with assms(2) False w show ?thesis
    by (cases st1) (auto simp: BN_lshift_def bn_on_eq Let_def split: prod.splits)
qed (use assms in \<open>simp add: BN_lshift_def\<close>)

lemma BN_lshift1_fail:
  assumes "bn_room (h r)" and "BN_lshift1 e r a h = (Some err, h')"
  shows "h' = h \<or> h' = bn_set_neg r (bn_neg (h a)) h"
proof -
  let ?h = "if r \<noteq> a then bn_set_neg r (bn_neg (h a)) h else h"
  obtain st1 bn1 where w: "bn_wexpand e (bn_width (?h a) + 1) (?h r) = (st1, bn1)" by fastforce
  have "bn_room (?h r)" using assms(1) by (cases "r = a") (simp_all add: bn_set_neg_def)
  with bn_wexpand_spec [OF w] have "st1 \<noteq> None \<longrightarrow> bn1 = ?h r" by blast
  with assms(2) w show ?thesis
    by (cases st1; cases "r = a") (auto simp: BN_lshift1_def bn_on_eq Let_def split: prod.splits if_splits)
qed

text \<open>The signed value of a product and of a quotient rounded towards zero.\<close>

lemma bn_val_mult: "bn_val b * int m = (if bn_neg b then - int (bn_abs b * m) else int (bn_abs b * m))"
  by (simp add: bn_val_def)

lemma bn_val_quot:
  "bn_ok b \<Longrightarrow> sgn (bn_val b) * (\<bar>bn_val b\<bar> div int m) = (if bn_neg b then - int (bn_abs b div m) else int (bn_abs b div m))"
  by (cases "bn_abs b = 0") (simp_all add: bn_val_def bn_ok_def zdiv_int)

lemma bn_shifted_result:
  "bn_shifted r neg h h' v \<Longrightarrow> x = (if neg then - int v else int v) \<Longrightarrow> bn_result r h h' x"
  by (simp add: bn_shifted_def bn_result_def)

text \<open>C40: the shifts multiply and divide by powers of two, also in place: a left shift by \<open>n\<close> gives
  \<open>2 ^ n\<close> times the number, a right shift the quotient of its absolute value by \<open>2 ^ n\<close>, rounded towards
  zero, with the sign kept unless nothing is left. They refuse a negative count and otherwise fail
  just when the result cannot be given the words it may need; no other number ever changes, and a failed
  right shift changes nothing, a failed left shift at most the sign of the result. The results have
  minimal width, that of \<open>BN_lshift1\<close> where its operand has.\<close>

theorem BN_shift_correct:
  assumes "bn_ok (h r)" and "bn_ok (h a)"
  shows "(n < 0 \<longrightarrow> BN_lshift e r a n h = (Some BN_R_NEGATIVE_NUMBER, h)
        \<and> BN_rshift e r a n h = (Some BN_R_NEGATIVE_NUMBER, h))
    \<and> (0 \<le> n \<longrightarrow> (case BN_lshift e r a n h of (st, h') \<Rightarrow>
        (st = None \<longleftrightarrow> bn_grows e (h r) (bn_width (h a) + nat n div 64 + 1))
        \<and> (if st = None then bn_result r h h' (bn_val (h a) * 2 ^ nat n)
           else h' = h \<or> h' = bn_set_neg r (bn_neg (h a)) h)))
    \<and> (0 \<le> n \<longrightarrow> (case BN_rshift e r a n h of (st, h') \<Rightarrow>
        (st = None \<longleftrightarrow> bn_grows e (h r) (bn_width (h a)))
        \<and> (if st = None then bn_result r h h' (sgn (bn_val (h a)) * (\<bar>bn_val (h a)\<bar> div 2 ^ nat n)) else h' = h)))
    \<and> (case BN_lshift1 e r a h of (st, h') \<Rightarrow>
        (st = None \<longleftrightarrow> bn_grows e (h r) (bn_width (h a) + 1))
        \<and> (if st = None then (\<forall>i. i \<noteq> r \<longrightarrow> h' i = h i) \<and> bn_ok (h' r) \<and> bn_val (h' r) = bn_val (h a) * 2
           else h' = h \<or> h' = bn_set_neg r (bn_neg (h a)) h))
    \<and> (case BN_rshift1 e r a h of (st, h') \<Rightarrow>
        (st = None \<longleftrightarrow> bn_grows e (h r) (bn_width (h a)))
        \<and> (if st = None then bn_result r h h' (sgn (bn_val (h a)) * (\<bar>bn_val (h a)\<bar> div 2)) else h' = h))"
proof (intro conjI impI)
  have room: "bn_room (h r)" "bn_room (h a)" using assms by (simp_all add: bn_ok_room)
  show "BN_lshift e r a n h = (Some BN_R_NEGATIVE_NUMBER, h)" "BN_rshift e r a n h = (Some BN_R_NEGATIVE_NUMBER, h)"
    if "n < 0" using that by (simp_all add: BN_lshift_def BN_rshift_def)
  show "case BN_lshift e r a n h of (st, h') \<Rightarrow>
        (st = None \<longleftrightarrow> bn_grows e (h r) (bn_width (h a) + nat n div 64 + 1))
        \<and> (if st = None then bn_result r h h' (bn_val (h a) * 2 ^ nat n)
           else h' = h \<or> h' = bn_set_neg r (bn_neg (h a)) h)" if n: "0 \<le> n"
  proof -
    obtain st h' where l: "BN_lshift e r a n h = (st, h')" by fastforce
    have "bn_val (h a) * 2 ^ nat n =
        (if bn_neg (h a) then - int (bn_abs (h a) * 2 ^ nat n) else int (bn_abs (h a) * 2 ^ nat n))"
      using bn_val_mult [of "h a" "2 ^ nat n"] by simp
    with BN_lshift_spec [OF room n l] BN_lshift_fail [where h = h and r = r, OF room(1), of e a n _ h'] l bn_shifted_result show ?thesis
      by (cases st) auto
  qed
  show "case BN_rshift e r a n h of (st, h') \<Rightarrow>
        (st = None \<longleftrightarrow> bn_grows e (h r) (bn_width (h a)))
        \<and> (if st = None then bn_result r h h' (sgn (bn_val (h a)) * (\<bar>bn_val (h a)\<bar> div 2 ^ nat n)) else h' = h)"
    if n: "0 \<le> n"
  proof -
    obtain st h' where l: "BN_rshift e r a n h = (st, h')" by fastforce
    have "sgn (bn_val (h a)) * (\<bar>bn_val (h a)\<bar> div 2 ^ nat n) =
        (if bn_neg (h a) then - int (bn_abs (h a) div 2 ^ nat n) else int (bn_abs (h a) div 2 ^ nat n))"
      using bn_val_quot [OF assms(2), of "2 ^ nat n"] by simp
    with BN_rshift_spec [OF room n l] l bn_shifted_result show ?thesis by (cases st) auto
  qed
  show "case BN_lshift1 e r a h of (st, h') \<Rightarrow>
        (st = None \<longleftrightarrow> bn_grows e (h r) (bn_width (h a) + 1))
        \<and> (if st = None then (\<forall>i. i \<noteq> r \<longrightarrow> h' i = h i) \<and> bn_ok (h' r) \<and> bn_val (h' r) = bn_val (h a) * 2
           else h' = h \<or> h' = bn_set_neg r (bn_neg (h a)) h)"
  proof -
    obtain st h' where l: "BN_lshift1 e r a h = (st, h')" by fastforce
    note s = BN_lshift1_spec [OF room l]
    have "bn_ok (h' r) \<and> bn_val (h' r) = bn_val (h a) * 2" if "st = None"
      using s that assms(2) by (simp add: bn_ok_room bn_val_def)
    with s BN_lshift1_fail [where h = h and r = r, OF room(1), of e a _ h'] l show ?thesis by (cases st) auto
  qed
  show "case BN_rshift1 e r a h of (st, h') \<Rightarrow>
        (st = None \<longleftrightarrow> bn_grows e (h r) (bn_width (h a)))
        \<and> (if st = None then bn_result r h h' (sgn (bn_val (h a)) * (\<bar>bn_val (h a)\<bar> div 2)) else h' = h)"
  proof -
    obtain st h' where l: "BN_rshift1 e r a h = (st, h')" by fastforce
    have "sgn (bn_val (h a)) * (\<bar>bn_val (h a)\<bar> div 2) =
        (if bn_neg (h a) then - int (bn_abs (h a) div 2) else int (bn_abs (h a) div 2))"
      using bn_val_quot [OF assms(2), of 2] by simp
    with BN_rshift1_spec [OF room l] l bn_shifted_result show ?thesis by (cases st) auto
  qed
qed

theorem BN_shift_correct_witness:
  "bn_val (snd (BN_lshift small_bn_env 0 1 70 (\<lambda>i. small_bn [- 1, 5] True)) 0) = - (6 * 2 ^ 64 - 1) * 2 ^ 70
    \<and> bn_val (snd (BN_rshift small_bn_env 0 0 66 (\<lambda>i. small_bn [- 1, 5] True)) 0) = - 1"
proof -
  let ?h = "\<lambda>i :: nat. small_bn [- 1, 5] True"
  have ok: "bn_ok (small_bn [- 1, 5] True)" by (rule small_bn_ok) simp_all
  have v: "bn_val (small_bn [- 1, 5] True) = - (6 * 2 ^ 64 - 1)"
    by (simp add: bn_val_def small_bn_def bn_abs_def bn_words_def unsigned_minus_1_eq_mask mask_eq_exp_minus_1)
  have g: "bn_grows small_bn_env (?h 0) k" if "k \<le> 8" for k
    using that by (simp add: bn_grows_def small_bn_env_def small_bn_def BN_MAX_WORDS_def INT_MAX_def BN_BITS2_def)
  have w: "bn_width (?h 0) = 2" by (simp add: small_bn_def)
  have "case BN_lshift small_bn_env 0 1 70 ?h of (st, h') \<Rightarrow> bn_result 0 ?h h' (- (6 * 2 ^ 64 - 1) * 2 ^ 70)"
    using BN_shift_correct [of ?h 0 1 70 small_bn_env, OF ok ok] g w unfolding v by (simp split: prod.splits)
  moreover have "case BN_rshift small_bn_env 0 0 66 ?h of (st, h') \<Rightarrow> bn_result 0 ?h h' (- 1)"
    using BN_shift_correct [of ?h 0 0 66 small_bn_env, OF ok ok] g w unfolding v by (simp split: prod.splits)
  ultimately show ?thesis by (simp add: bn_result_def split_beta)
qed

end
