(* ===== verification/BnBits.thy ===== *)
theory BnBits
  imports BnShift
begin

text \<open>
  Single bits of a number, masking and the count of its low zero bits (\<open>shift.c\<close>), and the test for
  a power of two of \<open>cmp.c\<close>.
\<close>

section \<open>shift.c\<close>

definition BN_set_bit :: "env \<Rightarrow> int \<Rightarrow> bignum \<Rightarrow> bn_status \<times> bignum" where
  "BN_set_bit e n a =
     (if n < 0 then (Some BN_R_NONE, a)
      else let i = nat n div BN_BITS2;
               j = nat n mod BN_BITS2;
               put = (\<lambda>a. (None, a\<lparr>bn_d := (bn_d a)[i := bn_d a ! i OR push_bit j 1]\<rparr>))
           in if bn_width a \<le> i
              then case bn_wexpand e (i + 1) a of
                     (Some err, a) \<Rightarrow> (Some err, a)
                   | (None, a) \<Rightarrow>
                       put (a\<lparr>bn_d := fold (\<lambda>k d. d[k := 0]) [bn_width a..<i + 1] (bn_d a), bn_width := i + 1\<rparr>)
              else put a)"

definition BN_clear_bit :: "int \<Rightarrow> bignum \<Rightarrow> bn_status \<times> bignum" where
  "BN_clear_bit n a =
     (if n < 0 then (Some BN_R_NONE, a)
      else let i = nat n div BN_BITS2;
               j = nat n mod BN_BITS2
           in if bn_width a \<le> i then (Some BN_R_NONE, a)
              else (None, bn_set_minimal_width (a\<lparr>bn_d := (bn_d a)[i := bn_d a ! i AND NOT (push_bit j 1)]\<rparr>)))"

definition bn_is_bit_set_words :: "BN_ULONG list \<Rightarrow> nat \<Rightarrow> nat \<Rightarrow> bool" where
  "bn_is_bit_set_words a num n =
     (let i = n div BN_BITS2;
          j = n mod BN_BITS2
      in if i \<ge> num then False else drop_bit j (a ! i) AND 1 \<noteq> 0)"

definition BN_is_bit_set :: "bignum \<Rightarrow> int \<Rightarrow> bool" where
  "BN_is_bit_set a n = (if n < 0 then False else bn_is_bit_set_words (bn_d a) (bn_width a) (nat n))"

definition BN_mask_bits :: "int \<Rightarrow> bignum \<Rightarrow> bn_status \<times> bignum" where
  "BN_mask_bits n a =
     (if n < 0 then (Some BN_R_NONE, a)
      else let w = nat n div BN_BITS2;
               b = nat n mod BN_BITS2
           in if w \<ge> bn_width a then (None, a)
              else let a = (if b = 0 then a\<lparr>bn_width := w\<rparr>
                            else a\<lparr>bn_width := w + 1, bn_d := (bn_d a)[w := bn_d a ! w AND NOT (push_bit b BN_MASK2)]\<rparr>)
                   in (None, bn_set_minimal_width a))"

definition low_zero_step :: "nat \<Rightarrow> nat \<times> BN_ULONG \<Rightarrow> nat \<times> BN_ULONG" where
  "low_zero_step k s =
     (let (bits, l) = s;
          msk = constant_time_is_zero_w (push_bit (BN_BITS2 - k) l)
      in (bits + unat (of_nat k AND msk), constant_time_select_w msk (drop_bit k l) l))"

definition bn_count_low_zero_bits_word :: "BN_ULONG \<Rightarrow> nat" where
  "bn_count_low_zero_bits_word l =
     fst (low_zero_step 1 (low_zero_step 2 (low_zero_step 4 (low_zero_step 8
       (low_zero_step 16 (low_zero_step 32 (0, l)))))))"

definition BN_count_low_zero_bits :: "bignum \<Rightarrow> nat" where
  "BN_count_low_zero_bits bn =
     unat (snd (fold (\<lambda>i (saw_nonzero, ret).
       let nonzero = NOT (constant_time_is_zero_w (bn_d bn ! i));
           first_nonzero = NOT saw_nonzero AND nonzero;
           saw_nonzero = saw_nonzero OR nonzero;
           bits = bn_count_low_zero_bits_word (bn_d bn ! i)
       in (saw_nonzero, ret OR (first_nonzero AND of_nat (i * BN_BITS2 + bits))))
       [0..<bn_width bn] (0 :: crypto_word, 0 :: crypto_word)))"

section \<open>Single bits\<close>

lemma bit_words_val: "bit (words_val ws) n \<longleftrightarrow> n div 64 < length ws \<and> bit (ws ! (n div 64)) (n mod 64)"
proof (induction ws arbitrary: n)
  case (Cons w ws)
  show ?case
  proof (cases "n < 64")
    case True
    have B: "BN_BASE = 2 ^ n * (2 * 2 ^ (63 - n))"
    proof -
      have "BN_BASE = 2 ^ (n + Suc (63 - n))" using True by simp
      then show ?thesis by (simp only: power_add power_Suc)
    qed
    have "(unat w + BN_BASE * words_val ws) div 2 ^ n = unat w div 2 ^ n + 2 * (2 ^ (63 - n) * words_val ws)"
      unfolding B by (simp only: mult.assoc) simp
    then have "bit (words_val (w # ws)) n \<longleftrightarrow> bit (unat w) n"
      by (simp only: words_val.simps bit_iff_odd) simp
    also have "\<dots> \<longleftrightarrow> bit w n" using True by (simp add: bit_unsigned_iff)
    finally show ?thesis using True by simp
  next
    case False
    then obtain k where n: "n = 64 + k" by (metis le_add_diff_inverse not_less)
    have "words_val (w # ws) div 2 ^ n = words_val ws div 2 ^ k"
    proof -
      have "words_val (w # ws) div 2 ^ n = words_val (w # ws) div BN_BASE div 2 ^ k"
        unfolding n by (simp only: power_add div_mult2_eq) simp
      then show ?thesis by simp
    qed
    then have "bit (words_val (w # ws)) n \<longleftrightarrow> bit (words_val ws) k" by (simp only: bit_iff_odd)
    moreover have "n div 64 = Suc (k div 64)" "n mod 64 = k mod 64" unfolding n by simp_all
    ultimately show ?thesis using Cons [of k] by simp
  qed
qed simp

lemma bit_bn_abs:
  "bn_room b \<Longrightarrow> bit (bn_abs b) n \<longleftrightarrow> n div 64 < bn_width b \<and> bit (bn_d b ! (n div 64)) (n mod 64)"
  by (auto simp: bn_abs_def bit_words_val bn_words_def dest: bn_room_le)

lemma and_1_bit: "drop_bit j (x :: BN_ULONG) AND 1 = 0 \<longleftrightarrow> \<not> bit x j"
  by (simp add: and_one_eq bit_iff_odd_drop_bit mod_2_eq_odd)

lemma BN_is_bit_set_iff: "bn_room b \<Longrightarrow> BN_is_bit_set b n \<longleftrightarrow> 0 \<le> n \<and> bit (bn_abs b) (nat n)"
  by (auto simp: BN_is_bit_set_def bn_is_bit_set_words_def Let_def BN_BITS2_def bit_bn_abs and_1_bit)

lemma word_index_eq: "(n :: nat) div 64 = k div 64 \<Longrightarrow> n mod 64 = k mod 64 \<longleftrightarrow> n = k"
  by (metis div_mult_mod_eq)

lemma set_bit_words:
  assumes "n div 64 < length ws"
  shows "words_val (ws[n div 64 := ws ! (n div 64) OR push_bit (n mod 64) 1]) = set_bit n (words_val ws)"
proof (rule bit_eqI)
  fix k
  show "bit (words_val (ws[n div 64 := ws ! (n div 64) OR push_bit (n mod 64) 1])) k = bit (set_bit n (words_val ws)) k"
    using assms word_index_eq [of k n] by (cases "k div 64 = n div 64") (auto simp: bit_words_val bit_simps)
qed

lemma clear_bit_words:
  assumes "n div 64 < length ws"
  shows "words_val (ws[n div 64 := ws ! (n div 64) AND NOT (push_bit (n mod 64) 1)]) = unset_bit n (words_val ws)"
proof (rule bit_eqI)
  fix k
  show "bit (words_val (ws[n div 64 := ws ! (n div 64) AND NOT (push_bit (n mod 64) 1)])) k = bit (unset_bit n (words_val ws)) k"
    using assms word_index_eq [of k n] by (cases "k div 64 = n div 64") (auto simp: bit_words_val bit_simps)
qed

lemma zero_words_loop:
  "k \<le> n \<Longrightarrow> n \<le> length d \<Longrightarrow> fold (\<lambda>i d. d[i := 0]) [k..<n] d = overwrite d k (replicate (n - k) 0)"
proof (induction n)
  case (Suc n)
  show ?case
  proof (cases "k = Suc n")
    case False
    with Suc have k: "k \<le> n" by simp
    have "fold (\<lambda>i d. d[i := 0]) [k..<Suc n] d = (overwrite d k (replicate (n - k) 0))[n := 0]"
      using Suc k by simp
    also have "\<dots> = overwrite d k (replicate (n - k) 0 @ [0])"
      using k Suc.prems(2) by (simp add: overwrite_def list_update_append upd_conv_take_nth_drop
          Cons_nth_drop_Suc [symmetric] flip: replicate_append_same)
    also have "replicate (n - k) 0 @ [0] = replicate (Suc n - k) 0"
      using k by (simp add: Suc_diff_le replicate_append_same)
    finally show ?thesis .
  qed (simp add: overwrite_def)
qed (simp add: overwrite_def)

lemma BN_set_bit_spec:
  assumes ok: "bn_ok a" and n: "0 \<le> n" and run: "BN_set_bit e n a = (st, a')"
  shows "(st = None \<longleftrightarrow> bn_grows e a (nat n div 64 + 1)) \<and> (st \<noteq> None \<longrightarrow> a' = a)
    \<and> (st = None \<longrightarrow> bn_ok a' \<and> bn_neg a' = bn_neg a \<and> bn_abs a' = set_bit (nat n) (bn_abs a))"
proof -
  have room: "bn_room a" using ok by (simp add: bn_ok_room)
  let ?i = "nat n div 64" and ?j = "nat n mod 64"
  have nz: "set_bit m x \<noteq> (0 :: nat)" for m x
  proof
    assume z: "set_bit m x = 0"
    have "bit (set_bit m x) m" by (simp add: bit_simps)
    then show False unfolding z by simp
  qed
  have put: "bn_ok (b\<lparr>bn_d := (bn_d b)[?i := bn_d b ! ?i OR push_bit ?j 1]\<rparr>)
      \<and> bn_abs (b\<lparr>bn_d := (bn_d b)[?i := bn_d b ! ?i OR push_bit ?j 1]\<rparr>) = set_bit (nat n) (bn_abs b)"
    if b: "bn_room b" "?i < bn_width b" for b
  proof -
    have "take (bn_width b) ((bn_d b)[?i := bn_d b ! ?i OR push_bit ?j 1])
        = (bn_words b)[?i := bn_words b ! ?i OR push_bit ?j 1]"
      using b by (simp add: bn_words_def take_update_swap)
    then have "bn_abs (b\<lparr>bn_d := (bn_d b)[?i := bn_d b ! ?i OR push_bit ?j 1]\<rparr>) = set_bit (nat n) (bn_abs b)"
      using set_bit_words [of "nat n" "bn_words b"] b unfolding bn_abs_d by (simp add: bn_abs_def)
    with b nz show ?thesis by (simp add: bn_ok_room bn_room_def)
  qed
  show ?thesis
  proof (cases "bn_width a \<le> ?i")
    case False
    then have "st = None" "a' = a\<lparr>bn_d := (bn_d a)[?i := bn_d a ! ?i OR push_bit ?j 1]\<rparr>"
      using run n by (simp_all add: BN_set_bit_def Let_def BN_BITS2_def)
    moreover have "bn_grows e a (?i + 1)" using False room by (simp add: bn_grows_def bn_room_def)
    ultimately show ?thesis using put [OF room] False by simp
  next
    case True
    obtain st1 b1 where w: "bn_wexpand e (?i + 1) a = (st1, b1)" by fastforce
    note s = bn_wexpand_spec [OF w room]
    have g: "st1 = None \<longleftrightarrow> bn_grows e a (?i + 1)"
      using bn_wexpand_None_iff [of e "?i + 1" a] unfolding w fst_conv .
    show ?thesis
    proof (cases st1)
      case (Some err)
      then have "st = Some err" "a' = a"
        using run n True w s by (auto simp: BN_set_bit_def Let_def BN_BITS2_def)
      with Some g show ?thesis by simp
    next
      case None
      with s have b1: "bn_room b1" "?i + 1 \<le> bn_dmax b1" "bn_width b1 = bn_width a" "bn_words b1 = bn_words a"
        "bn_neg b1 = bn_neg a" by simp_all
      let ?b = "b1\<lparr>bn_d := overwrite (bn_d b1) (bn_width a) (replicate (?i + 1 - bn_width a) 0), bn_width := ?i + 1\<rparr>"
      have z: "fold (\<lambda>k d. d[k := 0]) [bn_width a..<?i + 1] (bn_d b1)
          = overwrite (bn_d b1) (bn_width a) (replicate (?i + 1 - bn_width a) 0)"
        using True b1 by (intro zero_words_loop) (simp_all add: bn_room_def)
      have "take (?i + 1) (overwrite (bn_d b1) (bn_width a) (replicate (?i + 1 - bn_width a) 0))
          = bn_words a @ replicate (?i + 1 - bn_width a) 0"
        using b1 True take_overwrite [of "bn_width a" "replicate (?i + 1 - bn_width a) 0" "bn_d b1"]
        by (simp add: bn_words_def bn_room_def)
      then have v: "bn_abs ?b = bn_abs a" by (simp add: bn_abs_def bn_words_def words_val_append)
      have r: "bn_room ?b" using b1 True by (simp add: bn_room_def)
      have "st = None" "a' = ?b\<lparr>bn_d := (bn_d ?b)[?i := bn_d ?b ! ?i OR push_bit ?j 1]\<rparr>"
        using run n True w None b1(3) by (simp_all add: BN_set_bit_def Let_def BN_BITS2_def z [unfolded Suc_eq_plus1 [symmetric]] del: fold_simps upt_Suc)
      with put [OF r] v g None b1(5) show ?thesis by simp
    qed
  qed
qed

lemma BN_clear_bit_spec:
  assumes ok: "bn_ok a" and n: "0 \<le> n" and run: "BN_clear_bit n a = (st, a')"
  shows "bn_ok a' \<and> bn_abs a' = unset_bit (nat n) (bn_abs a)
    \<and> bn_neg a' = (bn_neg a \<and> bn_abs a' \<noteq> 0) \<and> (st = None \<longleftrightarrow> nat n div 64 < bn_width a)"
proof -
  have room: "bn_room a" using ok by (simp add: bn_ok_room)
  let ?i = "nat n div 64" and ?j = "nat n mod 64"
  show ?thesis
  proof (cases "bn_width a \<le> ?i")
    case True
    then have "\<not> bit (bn_abs a) (nat n)" by (simp add: bit_bn_abs [OF room])
    then have "unset_bit (nat n) (bn_abs a) = bn_abs a" by (auto intro!: bit_eqI simp: bit_simps)
    moreover from True run n have "st = Some BN_R_NONE" "a' = a" by (simp_all add: BN_clear_bit_def BN_BITS2_def)
    ultimately show ?thesis using ok True by (auto simp: bn_ok_room)
  next
    case False
    let ?b = "a\<lparr>bn_d := (bn_d a)[?i := bn_d a ! ?i AND NOT (push_bit ?j 1)]\<rparr>"
    from False run n have e: "st = None" "a' = bn_set_minimal_width ?b"
      by (simp_all add: BN_clear_bit_def BN_BITS2_def Let_def)
    have "take (bn_width a) ((bn_d a)[?i := bn_d a ! ?i AND NOT (push_bit ?j 1)])
        = (bn_words a)[?i := bn_words a ! ?i AND NOT (push_bit ?j 1)]"
      using False room by (simp add: bn_words_def take_update_swap)
    then have "bn_abs ?b = unset_bit (nat n) (bn_abs a)"
      using clear_bit_words [of "nat n" "bn_words a"] room False unfolding bn_abs_d by (simp add: bn_abs_def)
    moreover have "bn_room ?b" using room by (simp add: bn_room_def)
    ultimately show ?thesis using bn_set_minimal_width_spec [of ?b] e False by auto
  qed
qed

lemma mask_word_bit:
  fixes x :: BN_ULONG
  assumes "k < 64"
  shows "bit (x AND NOT (push_bit b BN_MASK2)) k \<longleftrightarrow> bit x k \<and> k < b"
proof -
  have m: "BN_MASK2 = - 1" by (simp add: BN_MASK2_def)
  have "bit (push_bit b BN_MASK2) k \<longleftrightarrow> b \<le> k"
    using assms unfolding m by (simp add: bit_push_bit_iff bit_not_iff bit_mask_iff not_less)
  then show ?thesis using assms by (simp add: bit_and_iff bit_not_iff not_le)
qed

lemma BN_mask_bits_spec:
  assumes ok: "bn_ok a" and n: "0 \<le> n" and run: "BN_mask_bits n a = (st, a')"
  shows "st = None \<and> bn_ok a' \<and> bn_abs a' = bn_abs a mod 2 ^ nat n \<and> bn_neg a' = (bn_neg a \<and> bn_abs a' \<noteq> 0)"
proof -
  have room: "bn_room a" using ok by (simp add: bn_ok_room)
  let ?w = "nat n div 64" and ?b = "nat n mod 64"
  have len: "bn_width a \<le> length (bn_d a)" by (rule bn_room_le [OF room])
  show ?thesis
  proof (cases "?w \<ge> bn_width a")
    case True
    have "bn_abs a < BN_BASE ^ bn_width a" using words_val_bound [of "bn_words a"] room by (simp add: bn_abs_def)
    also have "\<dots> = 2 ^ (64 * bn_width a)" using power_mult [of "2 :: nat" 64] by simp
    also have "\<dots> \<le> 2 ^ nat n" using True by (intro power_increasing) simp_all
    finally have "bn_abs a mod 2 ^ nat n = bn_abs a" by simp
    moreover from True run n have "st = None" "a' = a" by (simp_all add: BN_mask_bits_def BN_BITS2_def)
    ultimately show ?thesis using ok by (auto simp: bn_ok_room)
  next
    case False
    let ?c = "if ?b = 0 then a\<lparr>bn_width := ?w\<rparr>
      else a\<lparr>bn_width := ?w + 1, bn_d := (bn_d a)[?w := bn_d a ! ?w AND NOT (push_bit ?b BN_MASK2)]\<rparr>"
    from False run n have e: "st = None" "a' = bn_set_minimal_width ?c"
      by (simp_all add: BN_mask_bits_def BN_BITS2_def Let_def)
    have cr: "bn_room ?c" using room False by (auto simp: bn_room_def)
    note mk = mask_word_bit [where b = ?b]
    have "bn_abs ?c = take_bit (nat n) (bn_abs a)"
    proof (rule bit_eqI)
      fix k
      have dm: "k < nat n \<longleftrightarrow> k div 64 < ?w \<or> k div 64 = ?w \<and> k mod 64 < ?b"
        using div_mult_mod_eq [of k 64] div_mult_mod_eq [of "nat n" 64] mod_less_divisor [of 64 k] by linarith
      show "bit (bn_abs ?c) k = bit (take_bit (nat n) (bn_abs a)) k"
        unfolding bit_bn_abs [OF cr] bit_take_bit_iff bit_bn_abs [OF room] dm
        using False len mk [of "k mod 64"] by (cases "k div 64 = ?w") (auto simp: nth_list_update)
    qed
    moreover have "bn_neg ?c = bn_neg a" by simp
    ultimately show ?thesis using bn_set_minimal_width_spec [OF cr] e by (simp add: take_bit_eq_mod)
  qed
qed

section \<open>Counting low zero bits\<close>

fun low_zeros :: "nat \<Rightarrow> nat" where
  "low_zeros n = (if n = 0 \<or> odd n then 0 else Suc (low_zeros (n div 2)))"

declare low_zeros.simps [simp del]

lemma low_zeros_0 [simp]: "low_zeros 0 = 0" by (simp add: low_zeros.simps)

lemma low_zeros_odd [simp]: "odd n \<Longrightarrow> low_zeros n = 0" by (simp add: low_zeros.simps)

lemma low_zeros_mult: "n \<noteq> 0 \<Longrightarrow> low_zeros (2 ^ k * n) = k + low_zeros n"
  by (induction k) (simp_all add: low_zeros.simps [of "2 * _"] mult.assoc)

text \<open>The largest power of two that divides the number.\<close>

lemma low_zeros_dvd: "n \<noteq> 0 \<Longrightarrow> 2 ^ k dvd n \<longleftrightarrow> k \<le> low_zeros n"
proof (induction n arbitrary: k rule: low_zeros.induct)
  case (1 n)
  show ?case
  proof (cases "odd n")
    case True
    then show ?thesis by (cases k) auto
  next
    case False
    then obtain m where n: "n = 2 * m" by (auto elim: evenE)
    with 1 have "m \<noteq> 0" by simp
    with 1 False n have ih: "2 ^ j dvd m \<longleftrightarrow> j \<le> low_zeros m" for j by simp
    have "low_zeros n = Suc (low_zeros m)" using n low_zeros_mult [OF \<open>m \<noteq> 0\<close>, of 1] by simp
    then show ?thesis using ih n by (cases k) simp_all
  qed
qed

lemma low_zeros_add:
  assumes "a \<noteq> 0" and "a < 2 ^ m"
  shows "low_zeros (a + 2 ^ m * b) = low_zeros a"
proof -
  have s: "a + 2 ^ m * b \<noteq> 0" using assms by simp
  have lt: "low_zeros a < m"
  proof (rule ccontr)
    assume "\<not> low_zeros a < m"
    then have "2 ^ m dvd a" using low_zeros_dvd [OF assms(1), of m] by simp
    with assms show False by (meson dvd_imp_le not_less neq0_conv)
  qed
  have "2 ^ k dvd a + 2 ^ m * b \<longleftrightarrow> 2 ^ k dvd a" if "k \<le> m" for k
  proof -
    have "(2 :: nat) ^ k dvd 2 ^ m * b" using that by (simp add: le_imp_power_dvd dvd_mult2)
    then show ?thesis by (simp add: dvd_add_left_iff)
  qed
  then have "k \<le> low_zeros (a + 2 ^ m * b) \<longleftrightarrow> k \<le> low_zeros a" if "k \<le> m" for k
    using that low_zeros_dvd [OF s] low_zeros_dvd [OF assms(1)] by simp
  from this [of "low_zeros a"] this [of "Suc (low_zeros a)"] lt show ?thesis by simp
qed

lemma low_zero_step_spec:
  assumes "0 < k" and "k \<le> 32"
  shows "low_zero_step k (bits, l)
    = (if 2 ^ k dvd unat l then (bits + k, drop_bit k l) else (bits, l))"
proof -
  have B: "BN_BASE = 2 ^ (64 - k) * 2 ^ k" using base_split [of k] assms by (simp add: mult.commute)
  have z: "push_bit (BN_BITS2 - k) l = 0 \<longleftrightarrow> 2 ^ k dvd unat l"
  proof -
    have "unat (push_bit (64 - k) l) = 2 ^ (64 - k) * (unat l mod 2 ^ k)"
      unfolding unat_push_bit B by (simp only: mult.commute [of "unat l"] mult_mod_right)
    then have "push_bit (64 - k) l = 0 \<longleftrightarrow> unat l mod 2 ^ k = 0"
      unfolding unat_eq_0 [symmetric] by simp
    then show ?thesis by (simp add: BN_BITS2_def dvd_eq_mod_eq_0)
  qed
  have k: "unat (word_of_nat k :: BN_ULONG) = k" using assms by (simp add: unat_of_nat)
  have "unat (word_of_nat k AND mask_of p :: BN_ULONG) = (if p then k else 0)" for p
    using k by (simp add: mask_of_def)
  then show ?thesis
    by (simp add: low_zero_step_def Let_def constant_time_is_zero_w_mask constant_time_select_w_mask z)
qed

lemma low_zero_step_count:
  assumes "0 < k" and "k \<le> 32" and "l \<noteq> 0" and "\<not> 2 ^ (k + k) dvd unat l"
  shows "\<exists>l'. (\<forall>bits. low_zero_step k (bits, l) = (bits + (low_zeros (unat l) - low_zeros (unat l')), l'))
    \<and> \<not> 2 ^ k dvd unat l' \<and> low_zeros (unat l') \<le> low_zeros (unat l) \<and> l' \<noteq> 0"
proof (cases "2 ^ k dvd unat l")
  case False
  with assms show ?thesis using low_zero_step_spec [OF assms(1,2), of _ l] by (intro exI [of _ l]) simp
next
  case True
  let ?l = "drop_bit k l"
  from True obtain q where q: "unat l = 2 ^ k * q" by (rule dvdE)
  have u: "unat ?l = q" by (simp add: unat_drop_bit_div q)
  have q0: "q \<noteq> 0" using q assms(3) unat_eq_0 [of l] by (cases q) simp_all
  have "\<not> 2 ^ k dvd q"
  proof
    assume "2 ^ k dvd q"
    then have "2 ^ k * 2 ^ k dvd unat l" unfolding q by (rule mult_dvd_mono [OF dvd_refl])
    with assms(4) show False by (simp add: power_add)
  qed
  moreover have "low_zeros (unat l) = k + low_zeros q" unfolding q by (rule low_zeros_mult [OF q0])
  moreover have "?l \<noteq> 0" using u q0 unat_eq_0 [of ?l] by simp
  ultimately show ?thesis using low_zero_step_spec [OF assms(1,2), of _ l] True u
    by (intro exI [of _ ?l]) simp
qed

lemma bn_count_low_zero_bits_word_count:
  assumes "l \<noteq> 0"
  shows "bn_count_low_zero_bits_word l = low_zeros (unat l)"
proof -
  have "\<not> 2 ^ (32 + 32) dvd unat l"
  proof
    assume "2 ^ (32 + 32) dvd unat l"
    then have "2 ^ (32 + 32) \<le> unat l" using assms unat_eq_0 [of l] by (intro dvd_imp_le) simp_all
    then show False using unat_lt_base [of l] by simp
  qed
  from low_zero_step_count [OF _ _ assms this] obtain l1 where
    1: "\<And>bits. low_zero_step 32 (bits, l) = (bits + (low_zeros (unat l) - low_zeros (unat l1)), l1)"
      "\<not> 2 ^ (16 + 16) dvd unat l1" "low_zeros (unat l1) \<le> low_zeros (unat l)" "l1 \<noteq> 0" by auto
  from low_zero_step_count [OF _ _ 1(4,2)] obtain l2 where
    2: "\<And>bits. low_zero_step 16 (bits, l1) = (bits + (low_zeros (unat l1) - low_zeros (unat l2)), l2)"
      "\<not> 2 ^ (8 + 8) dvd unat l2" "low_zeros (unat l2) \<le> low_zeros (unat l1)" "l2 \<noteq> 0" by auto
  from low_zero_step_count [OF _ _ 2(4,2)] obtain l3 where
    3: "\<And>bits. low_zero_step 8 (bits, l2) = (bits + (low_zeros (unat l2) - low_zeros (unat l3)), l3)"
      "\<not> 2 ^ (4 + 4) dvd unat l3" "low_zeros (unat l3) \<le> low_zeros (unat l2)" "l3 \<noteq> 0" by auto
  from low_zero_step_count [OF _ _ 3(4,2)] obtain l4 where
    4: "\<And>bits. low_zero_step 4 (bits, l3) = (bits + (low_zeros (unat l3) - low_zeros (unat l4)), l4)"
      "\<not> 2 ^ (2 + 2) dvd unat l4" "low_zeros (unat l4) \<le> low_zeros (unat l3)" "l4 \<noteq> 0" by auto
  from low_zero_step_count [OF _ _ 4(4,2)] obtain l5 where
    5: "\<And>bits. low_zero_step 2 (bits, l4) = (bits + (low_zeros (unat l4) - low_zeros (unat l5)), l5)"
      "\<not> 2 ^ (1 + 1) dvd unat l5" "low_zeros (unat l5) \<le> low_zeros (unat l4)" "l5 \<noteq> 0" by auto
  from low_zero_step_count [OF _ _ 5(4,2)] obtain l6 where
    6: "\<And>bits. low_zero_step 1 (bits, l5) = (bits + (low_zeros (unat l5) - low_zeros (unat l6)), l6)"
      "\<not> 2 ^ 1 dvd unat l6" "low_zeros (unat l6) \<le> low_zeros (unat l5)" by auto
  have "low_zeros (unat l6) = 0" using 6(2) by simp
  with 1(3) 2(3) 3(3) 4(3) 5(3) 6(3) show ?thesis
    unfolding bn_count_low_zero_bits_word_def 1(1) 2(1) 3(1) 4(1) 5(1) 6(1) fst_conv by linarith
qed

lemma BN_count_low_zero_bits_count:
  assumes "bn_room b"
  shows "BN_count_low_zero_bits b = low_zeros (bn_abs b)"
proof -
  let ?f = "\<lambda>i (saw_nonzero :: crypto_word, ret :: crypto_word).
       let nonzero = NOT (constant_time_is_zero_w (bn_d b ! i));
           first_nonzero = NOT saw_nonzero AND nonzero;
           saw_nonzero = saw_nonzero OR nonzero;
           bits = bn_count_low_zero_bits_word (bn_d b ! i)
       in (saw_nonzero, ret OR (first_nonzero AND of_nat (i * BN_BITS2 + bits)))"
  have "n \<le> length (bn_d b) \<Longrightarrow> fold ?f [0..<n] (0, 0)
      = (mask_of (words_val (take n (bn_d b)) \<noteq> 0), of_nat (low_zeros (words_val (take n (bn_d b)))))" for n
  proof (induction n)
    case (Suc n)
    let ?V = "words_val (take n (bn_d b))" and ?x = "bn_d b ! n"
    have v: "words_val (take (Suc n) (bn_d b)) = ?V + BN_BASE ^ n * unat ?x"
      using Suc.prems by (simp add: take_Suc_conv_app_nth words_val_append)
    have V: "?V < 2 ^ (64 * n)"
      using words_val_bound [of "take n (bn_d b)"] Suc.prems power_mult [of "2 :: nat" 64 n] by (simp add: min_absorb1)
    have B: "BN_BASE ^ n = 2 ^ (64 * n)" using power_mult [of "2 :: nat" 64 n] by simp
    have m: "NOT (mask_of p) = (mask_of (\<not> p) :: crypto_word)" for p by (simp add: mask_of_def)
    have f: "?f n (s, r) = (s OR mask_of (?x \<noteq> 0),
        r OR (NOT s AND mask_of (?x \<noteq> 0) AND of_nat (n * 64 + bn_count_low_zero_bits_word ?x)))" for s r
      by (simp only: prod.case Let_def constant_time_is_zero_w_mask m BN_BITS2_def and.assoc)
    have "fold ?f [0..<Suc n] (0, 0) = ?f n (mask_of (?V \<noteq> 0), of_nat (low_zeros ?V))"
      using Suc by simp
    also have "\<dots> = (mask_of (?V + BN_BASE ^ n * unat ?x \<noteq> 0), of_nat (low_zeros (?V + BN_BASE ^ n * unat ?x)))"
    proof (cases "?V = 0")
      case False
      then show ?thesis unfolding f B using low_zeros_add [OF False V] by (simp add: mask_of_def)
    next
      case z: True
      show ?thesis
      proof (cases "?x = 0")
        case True
        then show ?thesis unfolding f z by (simp add: mask_of_def)
      next
        case False
        then have "unat ?x \<noteq> 0" by (simp add: unat_eq_0)
        from low_zeros_mult [OF this, of "64 * n"] False show ?thesis
          unfolding f z B bn_count_low_zero_bits_word_count [OF False] 
          by (simp add: mask_of_def mult.commute unat_eq_0 Let_def constant_time_is_zero_w_mask BN_BITS2_def
            bn_count_low_zero_bits_word_count)
      qed
    qed
    finally show ?case unfolding v .
  qed (simp add: mask_of_def)
  from this [of "bn_width b"] bn_room_le [OF assms]
  have "BN_count_low_zero_bits b = unat (of_nat (low_zeros (bn_abs b)) :: crypto_word)"
    by (simp add: BN_count_low_zero_bits_def bn_abs_def bn_words_def)
  moreover have "low_zeros (bn_abs b) < BN_BASE"
  proof (cases "bn_abs b = 0")
    case False
    have "(2 :: nat) ^ low_zeros (bn_abs b) dvd bn_abs b" using low_zeros_dvd [OF False] by simp
    then have "2 ^ low_zeros (bn_abs b) \<le> bn_abs b" using False by (intro dvd_imp_le) simp_all
    also have "bn_abs b < 2 ^ (64 * bn_width b)"
      using words_val_bound [of "bn_words b"] assms power_mult [of "2 :: nat" 64 "bn_width b"] by (simp add: bn_abs_def)
    finally have "low_zeros (bn_abs b) < 64 * bn_width b" by simp
    also have "\<dots> \<le> 64 * BN_MAX_WORDS" using assms by (simp add: bn_room_def)
    also have "\<dots> < BN_BASE" by (simp add: BN_MAX_WORDS_def INT_MAX_def BN_BITS2_def)
    finally show ?thesis .
  qed simp
  ultimately show ?thesis by (simp add: unat_of_nat)
qed

section \<open>Powers of two\<close>

lemma top_bit: "2 ^ t \<le> y \<Longrightarrow> y < 2 ^ Suc t \<Longrightarrow> bit y t" for y :: nat
proof -
  assume a: "2 ^ t \<le> y" "y < 2 ^ Suc t"
  then have "y div 2 ^ t = 1" by (intro div_nat_eqI) simp_all
  then show "bit y t" by (simp add: bit_iff_odd)
qed

lemma and_pred_nat:
  fixes x :: nat
  assumes "x \<noteq> 0"
  shows "x AND (x - 1) = 0 \<longleftrightarrow> (\<exists>k. x = 2 ^ k)"
proof
  assume z: "x AND (x - 1) = 0"
  let ?t = "bit_count x - 1"
  have "bit_count x \<noteq> 0" using assms by (simp add: bit_count.simps)
  with bit_count_bounds [OF assms] have b: "2 ^ ?t \<le> x" "x < 2 ^ Suc ?t" by simp_all
  show "\<exists>k. x = 2 ^ k"
  proof (rule ccontr)
    assume "\<nexists>k. x = 2 ^ k"
    with b(1) have "2 ^ ?t \<le> x - 1" by (metis Suc_leI Suc_pred' assms le_neq_implies_less less_Suc_eq_le neq0_conv)
    with b have "bit x ?t" "bit (x - 1) ?t" by (auto intro!: top_bit)
    then have "bit (x AND (x - 1)) ?t" by (simp add: bit_and_iff)
    with z show False by simp
  qed
next
  assume "\<exists>k. x = 2 ^ k"
  then obtain k where x: "x = 2 ^ k" ..
  have "x AND (x - 1) = take_bit k x" unfolding x by (simp add: take_bit_eq_mask mask_eq_exp_minus_1)
  also have "\<dots> = 0" by (simp add: x take_bit_eq_mod)
  finally show "x AND (x - 1) = 0" .
qed

lemma and_pred_word:
  assumes "(x :: BN_ULONG) \<noteq> 0"
  shows "x AND (x - 1) = 0 \<longleftrightarrow> (\<exists>k. unat x = 2 ^ k)"
proof -
  have nz: "unat x \<noteq> 0" using assms by (simp add: unat_eq_0)
  then have u: "unat (x - 1) = unat x - 1" by (simp add: unat_sub_if')
  have "x AND (x - 1) = 0 \<longleftrightarrow> unat (x AND (x - 1)) = 0" by (simp only: unat_eq_0)
  also have "unat (x AND (x - 1)) = unat x AND (unat x - 1)" by (simp only: unsigned_and_eq u)
  finally show ?thesis using and_pred_nat [OF nz] by simp
qed

lemma BN_is_pow2_iff:
  assumes ok: "bn_ok b"
  shows "BN_is_pow2 b \<longleftrightarrow> (\<exists>k. bn_val b = 2 ^ k)"
proof -
  have room: "bn_room b" using ok by (simp add: bn_ok_room)
  let ?k = "bn_minimal_width b"
  show ?thesis
  proof (cases "?k = 0 \<or> bn_neg b")
    case True
    then have "bn_val b \<le> 0" using bn_minimal_width_zero [OF room] by (auto simp: bn_val_def)
    moreover have "(0 :: int) < 2 ^ k" for k by simp
    ultimately have "bn_val b \<noteq> 2 ^ k" for k by (metis not_less)
    with True show ?thesis by (auto simp: BN_is_pow2_def)
  next
    case False
    then obtain n where k: "?k = Suc n" by (cases ?k) auto
    let ?x = "bn_d b ! n"
    have len: "n < length (bn_d b)" using bn_minimal_width_le [OF room] bn_room_le [OF room] k by simp
    have x: "?x \<noteq> 0" using bn_minimal_top [OF room] k by simp
    let ?V = "words_val (take n (bn_d b))"
    have v: "bn_abs b = ?V + 2 ^ (64 * n) * unat ?x"
      using bn_abs_minimal [OF room] k len power_mult [of "2 :: nat" 64 n]
      by (simp add: take_Suc_conv_app_nth words_val_append)
    have V: "?V < 2 ^ (64 * n)"
      using words_val_bound [of "take n (bn_d b)"] len power_mult [of "2 :: nat" 64 n] by (simp add: min_absorb1)
    have z: "list_ex (\<lambda>i. bn_d b ! i \<noteq> 0) [0..<n] \<longleftrightarrow> ?V \<noteq> 0"
      using len by (auto simp: list_ex_iff words_val_zero_iff all_set_conv_all_nth)
    have "BN_is_pow2 b \<longleftrightarrow> ?V = 0 \<and> (\<exists>j. unat ?x = 2 ^ j)"
      using False k z and_pred_word [OF x] by (simp add: BN_is_pow2_def)
    also have "\<dots> \<longleftrightarrow> (\<exists>k. bn_abs b = 2 ^ k)"
    proof
      assume "?V = 0 \<and> (\<exists>j. unat ?x = 2 ^ j)"
      then obtain j where "bn_abs b = 2 ^ (64 * n + j)" unfolding v by (auto simp: power_add)
      then show "\<exists>k. bn_abs b = 2 ^ k" ..
    next
      assume "\<exists>k. bn_abs b = 2 ^ k"
      then obtain m where m: "bn_abs b = 2 ^ m" ..
      have "1 \<le> unat ?x" using x by (simp add: Suc_le_eq unat_gt_0)
      then have "2 ^ (64 * n) * 1 \<le> 2 ^ (64 * n) * unat ?x" by (rule mult_le_mono2)
      then have "2 ^ (64 * n) \<le> (2 :: nat) ^ m" using m v by linarith
      then have "64 * n \<le> m" by simp
      then obtain j where j: "m = 64 * n + j" by (auto simp: le_iff_add)
      have "?V = bn_abs b mod 2 ^ (64 * n)" unfolding v using V by simp
      also have "\<dots> = 0" unfolding m j by (simp add: power_add)
      finally have "?V = 0" .
      moreover from this m have "2 ^ (64 * n) * unat ?x = 2 ^ (64 * n) * 2 ^ j" unfolding v j by (simp add: power_add)
      then have "unat ?x = 2 ^ j" by simp
      ultimately show "?V = 0 \<and> (\<exists>j. unat ?x = 2 ^ j)" by blast
    qed
    also have "\<dots> \<longleftrightarrow> (\<exists>k. bn_val b = 2 ^ k)"
    proof -
      have "bn_val b = int (bn_abs b)" using False by (simp add: bn_val_def)
      moreover have "int (bn_abs b) = 2 ^ j \<longleftrightarrow> bn_abs b = 2 ^ j" for j
        by (metis of_nat_eq_iff of_nat_numeral of_nat_power)
      ultimately show ?thesis by simp
    qed
    finally show ?thesis .
  qed
qed

section \<open>The comparisons\<close>

text \<open>C38: The comparisons decide the order of the integers, whatever the widths of the operands: \<open>BN_cmp\<close>
  that of the values (a missing number is above every number), \<open>BN_ucmp\<close> that of the absolute values,
  \<open>BN_cmp_word\<close> that of a number and a word; \<open>BN_equal_consttime\<close>, \<open>BN_is_zero\<close>, \<open>BN_is_one\<close>,
  \<open>BN_is_word\<close> and \<open>BN_is_odd\<close> decide what they say, and \<open>BN_is_pow2\<close> whether it is a power of two.\<close>

theorem BN_compare_correct:
  assumes "bn_ok a" and "bn_ok b"
  shows "BN_cmp (Some a) (Some b) = sgn (bn_val a - bn_val b)
    \<and> BN_cmp (Some a) None = - 1 \<and> BN_cmp None (Some b) = 1 \<and> BN_cmp None None = 0
    \<and> BN_ucmp a b = sgn (\<bar>bn_val a\<bar> - \<bar>bn_val b\<bar>)
    \<and> BN_cmp_word a w = sgn (bn_val a - int (unat w))
    \<and> BN_equal_consttime a b = (bn_val a = bn_val b)
    \<and> BN_is_zero a = (bn_val a = 0) \<and> BN_is_one a = (bn_val a = 1)
    \<and> BN_is_word a w = (bn_val a = int (unat w)) \<and> BN_is_odd a = odd (bn_val a)
    \<and> BN_is_pow2 a = (\<exists>k. bn_val a = 2 ^ k)"
proof -
  have "\<bar>bn_val c\<bar> = int (bn_abs c)" for c by (simp add: bn_val_def)
  moreover have "odd (bn_val a) = odd (bn_abs a)" "(bn_val a = 0) = (bn_abs a = 0)" by (simp_all add: bn_val_def)
  moreover have "BN_cmp (Some a) None = - 1" "BN_cmp None (Some b) = 1" "BN_cmp None None = 0" by (simp_all add: BN_cmp_def)
  ultimately show ?thesis
    using assms BN_cmp_sgn BN_cmp_word_sgn BN_equal_consttime_iff BN_is_one_iff BN_is_word_iff BN_is_pow2_iff
      BN_is_odd_iff [of a] BN_is_zero_iff [of a] by (simp add: BN_ucmp_sgn bn_ok_room)
qed

theorem BN_compare_correct_witness:
  "BN_cmp (Some (small_bn [7, 0] True)) (Some (small_bn [2] False)) = - 1
    \<and> BN_is_odd (small_bn [7, 0] True) \<and> \<not> BN_equal_consttime (small_bn [7, 0] True) (small_bn [2] False)"
proof -
  have ok: "bn_ok (small_bn [7, 0] True)" "bn_ok (small_bn [2] False)" by (rule small_bn_ok; simp)+
  have v: "bn_val (small_bn [7, 0] True) = - 7" "bn_val (small_bn [2] False) = 2"
    by (simp_all add: bn_val_def small_bn_def bn_abs_def bn_words_def)
  from BN_compare_correct [OF ok, of 0] show ?thesis unfolding v by simp
qed

end
