(* ===== verification/Spec2Isabelle.thy ===== *)
theory Spec2Isabelle
  imports Mem Buf ConstTime CBS DER CBB CBB_Refine CBB_ASN1 CBB_Props CBB_SetOf OID BER Base64
    Libc SeqStore Stack KeyStore LHash ByteQueue BioPair PbStream PbWire PbField PbDecode PbBounds PbSafe PbTotal PbEncode PbFormat
    PbContents PbValues PbRound BnWords Bignum BnSet BnAdd BnBytes BnShift BnBits
begin
text \<open>
  A verification library for the C core that the quiz application links: the byte-level
  foundation of BoringSSL under \<open>src/Know the Quote/Pods/BoringSSL-GRPC\<close> and the protocol
  buffer runtime nanopb under \<open>src/Know the Quote/Pods/nanopb\<close>. Every handshake message,
  certificate and key the application exchanges with its servers is parsed and built by the
  first, every message that Firestore stores or sends is coded by the second, so the properties
  are stated on them and not on the Swift screens. Paths below are relative to the
  BoringSSL directory, those of the nanopb files to theirs.

  \<^bold>\<open>The parts and how they interact.\<close> The memory helpers serve every other part. A \<open>BUF_MEM\<close>
  is a growable block over them. A \<open>CBS\<close> reads bytes and DER elements from a block it does
  not own; a \<open>CBB\<close> writes them into a block it grows, with nested length prefixes patched
  when a child is closed. Object identifiers, the BER converter and the SET OF writer are
  clients of both: they read with a \<open>CBS\<close> and write with a \<open>CBB\<close>. Base64 and the big integers sit
  on the constant-time primitives, the latter on blocks of words that the memory helpers grow. The pointer stack and the hash table are the containers of the
  object layer, and the BIO pair is the in-memory pipe between a TLS endpoint and its
  transport. nanopb is a stack of its own: streams with a byte counter, the base-128 wire format
  over them, an iterator over constant field tables, and the decoder and encoder of messages,
  which recurse through the tables and the memory of the message.

  \<^bold>\<open>Theories and code.\<close>
  \<^item> \<open>Prelude\<close>: the machine types (\<open>size_t\<close> and \<open>uint64_t\<close> as 64-bit words, \<open>int\<close> as a
    32-bit word), C's big-endian byte lists, list overwriting, and the facts on words and
    lists that the others share.
  \<^item> \<open>Mem\<close> (\<open>crypto/mem.c\<close>), \<open>Buf\<close> (\<open>crypto/buf/buf.c\<close>), \<open>ConstTime\<close>
    (\<open>crypto/internal.h\<close>).
  \<^item> \<open>CBS\<close> (\<open>crypto/bytestring/cbs.c\<close>): a reader is the list of the bytes it has left; a
    reading function returns its result and the reader after it, which the C code leaves
    advanced or not on failure exactly as here. \<open>DER\<close> holds the reference encoders and the
    theorems that each parser accepts their image and nothing else.
  \<^item> \<open>CBB\<close> (\<open>crypto/bytestring/cbb.c\<close>, \<open>asn1_compat.c\<close>): a builder is the shared buffer (block,
    length, capacity, growable and error flags) and the chain of open children with their
    offset, number of length bytes and ASN.1 flag. \<open>CBB_Refine\<close> states what a builder
    promises, a stack of open byte strings, and the simulation of every operation;
    \<open>CBB_ASN1\<close> and \<open>CBB_Props\<close> derive the ASN.1 writers, the error behaviour and the round
    trip with the parser. \<open>CBB_SetOf\<close> is \<open>CBB_flush_asn1_set_of\<close>.
  \<^item> \<open>OID\<close> (\<open>CBS_asn1_oid_to_text\<close>, \<open>CBB_add_asn1_oid_from_text\<close>) and \<open>BER\<close>
    (\<open>crypto/bytestring/ber.c\<close>), with a datatype of BER trees as the specification side.
  \<^item> \<open>Base64\<close> (\<open>crypto/base64/base64.c\<close>): the one-shot and the streaming coders.
  \<^item> \<open>Stack\<close> (\<open>crypto/stack/stack.c\<close>), \<open>LHash\<close> (\<open>crypto/lhash/lhash.c\<close>): the arrays, capacities,
    chains, load factors and flags of the C structures, not abstract containers.
  \<^item> \<open>BioPair\<close> (\<open>crypto/bio/pair.c\<close> and the entry points of \<open>bio.c\<close> that reach it): both ends
    with their ring buffers, offsets, requests, retry flags and counters.

  \<^item> \<open>PbStream\<close> (streams, varints, fixed-width values, tags, skipping and substreams of
    \<open>pb_decode.c\<close> and \<open>pb_encode.c\<close>), \<open>PbField\<close> (\<open>pb.h\<close>, \<open>pb_common.c\<close>: field descriptions, the
    memory of messages, the iterator), \<open>PbDecode\<close> (\<open>pb_decode.c\<close>: field decoders, defaults,
    release, static, pointer, callback and extension fields, the loop over a message) and
    \<open>PbEncode\<close> (\<open>pb_encode.c\<close>, message part). The configuration is that of the pod's build
    settings: \<open>PB_FIELD_32BIT\<close>, \<open>PB_ENABLE_MALLOC\<close>, 64-bit integers, error messages.
    \<open>PbWire\<close> relates the readers and writers to the wire format, \<open>PbBounds\<close> holds the facts on
    the iterator and on streams that only shrink, \<open>PbSafe\<close> and \<open>PbTotal\<close> the totality and safety
    of the decoder, \<open>PbFormat\<close> the stream-free writer and the refinement of the encoder.
    \<open>PbContents\<close>, \<open>PbValues\<close> and \<open>PbRound\<close> hold the round trip of messages through memory.

  \<^item> \<open>BnWords\<close> (\<open>crypto/fipsmodule/bn/generic.c\<close>): the word loops, on word memory in which
    operands may overlap, with the value of a list of words. \<open>Bignum\<close> (\<open>bn.c\<close>, \<open>cmp.c\<close>): a
    \<open>BIGNUM\<close> is its words, \<open>width\<close>, \<open>dmax\<close>, sign and flags, and the operations take pointers
    into a heap of them, so a result may be one of the operands. \<open>BnSet\<close> has the lemmas on
    \<open>bn.c\<close>, \<open>BnAdd\<close> is \<open>add.c\<close>, \<open>BnBytes\<close> \<open>bytes.c\<close>, \<open>BnShift\<close> and \<open>BnBits\<close> are \<open>shift.c\<close>. The
    build has 64-bit words and no assembly.

  \<^bold>\<open>Interfaces.\<close> Each is a locale whose lemmas are proved once and whose laws the model of
  the code discharges: \<open>seq_store\<close> (growable sequence, provided by \<open>Stack\<close>, whose push, pop,
  shift and removal of a pointer follow from it), \<open>keyed_store\<close>
  (table up to an equality, provided by \<open>LHash\<close>), \<open>byte_queue\<close> (bounded pipe, provided by each
  direction of a BIO pair). \<open>c_sort\<close>, \<open>c_search\<close> and \<open>c_sort_search\<close> in \<open>Libc\<close> are the contracts
  of \<open>qsort\<close> and \<open>bsearch\<close>, which are not in the repository; they are interpreted on a
  reference sort and search, and the results that use them hold for every implementation
  that keeps the contract. \<open>lhash_contract\<close> is what the hash table asks of its callbacks.

  \<^bold>\<open>What the lemmas show.\<close> For the parser: exactness in both directions and that a read
  depends on nothing behind what it consumes. For the builder: refinement, errors that are
  set by every failure and stick, and a round trip for whole
  trees of elements. For the BER converter: identity on DER, what its search finds on any
  well-formed input, the conversion of what is found, and the inputs it passes on although they
  are BER. For the text conversions: round trips and rejection of every
  other text. For the containers: a capacity and load invariant kept by every operation,
  the refinement of lists and maps, resizing included, and the sorted flag of the stack with
  the two operations that break it. For the pipe: an invariant over
  every interleaving of calls, what each call transfers, delivery, and a shutdown that holds
  over every later sequence of calls. For big integers: addition, subtraction, comparison,
  shifts and byte strings are those of the integers, for every overlap of result and
  operands, with the exact condition of success and what a failure leaves. For nanopb:
  exactness and bounds of the readers, round trips of the wire format, the numerals the 32-bit
  varint reader gets wrong, totality and memory safety of message decoding on every input,
  correctness of the field search, the agreement of the encoder with the format, and the
  round trip of whole messages, of static proto3 fields, through encoder and decoder.

  \<^bold>\<open>Allocation.\<close> The allocator is an argument of the operations that call it: a predicate
  on the requested size that says whether it succeeds. A theorem about success assumes
  only what it needs of it; a theorem about failure says that the state is unchanged.

  \<^bold>\<open>Loops and bounds.\<close> Loops over a reader recurse on the bytes left, with their
  termination proved. The depth limit of the BER search is the code's own (\<open>kMaxDepth\<close>), not
  fuel. The read and write loops of the BIO pair are partial functions that may not
  return; the properties prove that they do on well-formed pairs. The coders of nanopb nest
  through tables and lists in memory, which may be cyclic, so they take a bound and \<open>None\<close> says
  that it was too small; three for each level of nesting are enough to decode, one more than
  the levels to encode, which the theorems prove for tables that nest finitely. Sizes are machine
  words with their wrap-around, and a theorem names the bound it needs where an addition
  could wrap. Four places use unbounded numbers where C wraps: the byte counters of a BIO and
  the item count of a hash table (\<open>bio_st\<close>, \<open>lhash\<close>), which take \<open>2 ^ 64\<close> bytes or items to
  wrap; the address of an array entry (\<open>item_at\<close>), a 32-bit product in C that wraps for
  arrays over 4 GB only; and the size check of \<open>pb_enc_bytes\<close>, which 32-bit counts in a 64-bit
  \<open>size_t\<close> cannot fail. The layouts of \<open>static_field\<close> ask for four bytes at \<open>pSize\<close> even where
  the count is fixed, since \<open>pb_field_set_to_default\<close> writes them.

  \<^bold>\<open>Not modelled, and why.\<close> Pointers are values here: two readers of one block cannot be
  seen to alias, and freeing is not tracked. \<open>CBB_discard_child\<close> detaches in C only the direct
  child; here a \<open>CBB\<close> is a depth in the chain of open children, so deeper ones, which C leaves
  dangling, are detached with it. The \<open>printf\<close> family of \<open>mem.c\<close> is the platform's
  formatter. File and socket BIOs are pure I/O. A callback of \<open>lh_doall_arg\<close> that changes the
  table it visits is not covered. In nanopb the callbacks, the allocator and the constant tables
  are arguments of the model; the generated tables themselves, data only, are not modelled, nor
  the code for builds without 64-bit integers or without callbacks. Of the big integers, multiplication (but for the word
  loops it uses) and division of whole numbers, Montgomery reduction, exponentiation, primes and
  random numbers have no theory here. Nor have the ciphers, hashes, the X.509 object layer,
  the TLS state machine in C++, gRPC, Firestore and the Swift screens.
\<close>
end
